(* ===== verification/Go_Prelude.thy ===== *)
theory Go_Prelude
  imports Main "HOL-Library.Word" "HOL-Library.Multiset"
begin

text \<open>
  The shared vocabulary of the development: the Go machine types, byte strings, results with
  errors as values, comparison and sorting routines of the Go standard library, and the generic
  lemmas on lists, options, maps and words that the component theories rely on.
\<close>

unbundle bit_operations_syntax

named_theorems codec_simps \<open>decoders applied to what the matching encoders wrote\<close>
named_theorems len_simps \<open>lengths of encodings\<close>
named_theorems inv_intros \<open>operations preserve the invariants of the components\<close>

subsection \<open>Machine types\<close>

type_synonym u8 = "8 word"
type_synonym u32 = "32 word"
type_synonym u64 = "64 word"

text \<open>
  A Go string is an immutable sequence of bytes, so strings and byte slices share one type.
  A slice that may be nil is a \<open>zbytes\<close>: \<open>None\<close> is nil and \<open>Some []\<close> the empty slice, a
  difference the zcode encoding depends on.
\<close>

type_synonym bytes = "u8 list"
type_synonym gostring = "u8 list"
type_synonym zbytes = "u8 list option"

definition str :: "string \<Rightarrow> gostring" where
  "str s = map of_char s"

text \<open>The bytes of a slice; nil and the empty slice have none (\<open>len\<close>, \<open>append\<close>, \<open>range\<close>).\<close>

definition slice_bytes :: "zbytes \<Rightarrow> bytes" where
  "slice_bytes z = (case z of None \<Rightarrow> [] | Some b \<Rightarrow> b)"

lemma slice_bytes_simps [simp]:
  "slice_bytes None = []" "slice_bytes (Some b) = b"
  by (simp_all add: slice_bytes_def)

subsection \<open>Results\<close>

text \<open>A call that may fail returns a sum, the error on the left.\<close>

fun res_bind :: "'e + 'a \<Rightarrow> ('a \<Rightarrow> 'e + 'b) \<Rightarrow> 'e + 'b" where
  "res_bind (Inl e) f = Inl e"
| "res_bind (Inr x) f = f x"

lemma res_bind_Inr_iff:
  "res_bind m f = Inr y \<longleftrightarrow> (\<exists>x. m = Inr x \<and> f x = Inr y)"
  by (cases m) auto

lemma res_bind_cong [fundef_cong]:
  assumes "m = m'" and "\<And>x. m' = Inr x \<Longrightarrow> f x = g x"
  shows "res_bind m f = res_bind m' g"
  using assms by (cases m') auto

subsection \<open>Comparison of byte strings\<close>

text \<open>\<open>bytes.Compare\<close> and \<open>strings.Compare\<close>: lexicographic, -1, 0 or 1.\<close>

fun bytes_Compare :: "bytes \<Rightarrow> bytes \<Rightarrow> int" where
  "bytes_Compare [] [] = 0"
| "bytes_Compare [] (y # ys) = -1"
| "bytes_Compare (x # xs) [] = 1"
| "bytes_Compare (x # xs) (y # ys) =
     (if x < y then -1 else if y < x then 1 else bytes_Compare xs ys)"

definition cmp_Compare :: "'a::linorder \<Rightarrow> 'a \<Rightarrow> int" where
  "cmp_Compare a b = (if a < b then -1 else if b < a then 1 else 0)"

lemma bytes_Compare_eq_0 [simp]: "bytes_Compare a b = 0 \<longleftrightarrow> a = b"
  by (induction a b rule: bytes_Compare.induct) auto

lemma bytes_Compare_self [simp]: "bytes_Compare a a = 0"
  by simp

lemma bytes_Compare_antisym: "bytes_Compare a b = - bytes_Compare b a"
  by (induction a b rule: bytes_Compare.induct) auto

lemma bytes_Compare_range: "bytes_Compare a b = -1 \<or> bytes_Compare a b = 0 \<or> bytes_Compare a b = 1"
  by (induction a b rule: bytes_Compare.induct) auto

lemma bytes_Compare_less_0 [simp]: "bytes_Compare a b < 0 \<longleftrightarrow> bytes_Compare a b = -1"
  using bytes_Compare_range [of a b] by auto

lemma bytes_Compare_trans:
  "bytes_Compare a b = -1 \<Longrightarrow> bytes_Compare b c = -1 \<Longrightarrow> bytes_Compare a c = -1"
proof (induction a b arbitrary: c rule: bytes_Compare.induct)
  case (2 y ys)
  then show ?case by (cases c) auto
next
  case (4 x xs y ys)
  then show ?case by (cases c) (auto split: if_splits)
qed auto

lemma cmp_Compare_eq_0 [simp]: "cmp_Compare a b = 0 \<longleftrightarrow> a = b"
  by (auto simp: cmp_Compare_def)

lemma cmp_Compare_antisym: "cmp_Compare a b = - cmp_Compare b a"
  by (auto simp: cmp_Compare_def)

lemma cmp_Compare_self [simp]: "cmp_Compare a a = 0"
  by simp

subsection \<open>Sorting\<close>

text \<open>
  \<open>sort.SliceStable\<close>. Go inserts each element into the sorted prefix before it, moving it left
  while it is less than its left neighbour; \<open>ins_left\<close> works on the prefix held in reverse.
  On a strict weak order every stable sort returns the same list.
\<close>

fun ins_left :: "('a \<Rightarrow> 'a \<Rightarrow> bool) \<Rightarrow> 'a \<Rightarrow> 'a list \<Rightarrow> 'a list" where
  "ins_left lt x [] = [x]"
| "ins_left lt x (y # ys) = (if lt x y then y # ins_left lt x ys else x # y # ys)"

definition sort_stable :: "('a \<Rightarrow> 'a \<Rightarrow> bool) \<Rightarrow> 'a list \<Rightarrow> 'a list" where
  "sort_stable lt xs = rev (foldl (\<lambda>p x. ins_left lt x p) [] xs)"

lemma mset_ins_left [simp]: "mset (ins_left lt x p) = add_mset x (mset p)"
  by (induction p) auto

lemma mset_foldl_ins_left:
  "mset (foldl (\<lambda>p x. ins_left lt x p) p xs) = mset p + mset xs"
  by (induction xs arbitrary: p) auto

lemma mset_sort_stable [simp]: "mset (sort_stable lt xs) = mset xs"
  by (simp add: sort_stable_def mset_foldl_ins_left)

lemma set_sort_stable [simp]: "set (sort_stable lt xs) = set xs"
  by (metis mset_sort_stable set_mset_mset)

lemma length_sort_stable [simp]: "length (sort_stable lt xs) = length xs"
  by (metis mset_sort_stable size_mset)

lemma sort_stable_Nil [simp]: "sort_stable lt [] = []"
  by (simp add: sort_stable_def)

lemma set_ins_left [simp]: "set (ins_left lt x p) = insert x (set p)"
  by (induction p) auto

text \<open>An already sorted list is left alone, whatever the comparison.\<close>

lemma foldl_ins_left_sorted:
  assumes "sorted_wrt (\<lambda>a b. \<not> lt b a) (rev p @ xs)"
  shows "foldl (\<lambda>p x. ins_left lt x p) p xs = rev xs @ p"
  using assms
proof (induction xs arbitrary: p)
  case (Cons x xs)
  have "ins_left lt x p = x # p"
    using Cons.prems by (cases p) (auto simp: sorted_wrt_append)
  then show ?case using Cons.IH [of "x # p"] Cons.prems by simp
qed simp

lemma sort_stable_sorted:
  "sorted_wrt (\<lambda>a b. \<not> lt b a) xs \<Longrightarrow> sort_stable lt xs = xs"
  by (simp add: sort_stable_def foldl_ins_left_sorted)

text \<open>Sorting twice changes nothing more; this needs only an asymmetric comparison.\<close>

lemma successively_ins_left:
  assumes "\<And>a b. lt a b \<Longrightarrow> \<not> lt b a" and "successively (\<lambda>a b. \<not> lt a b) p"
  shows "successively (\<lambda>a b. \<not> lt a b) (ins_left lt x p) \<and>
    (p \<noteq> [] \<longrightarrow> hd (ins_left lt x p) = (if lt x (hd p) then hd p else x))"
  using assms(2)
proof (induction p)
  case (Cons y p)
  then show ?case using assms(1) by (cases p) auto
qed simp

lemma successively_sort_stable:
  assumes "\<And>a b. lt a b \<Longrightarrow> \<not> lt b a"
  shows "successively (\<lambda>a b. \<not> lt b a) (sort_stable lt xs)"
proof -
  have "successively (\<lambda>a b. \<not> lt a b) (foldl (\<lambda>p x. ins_left lt x p) p xs)"
    if "successively (\<lambda>a b. \<not> lt a b) p" for p
    using that
  proof (induction xs arbitrary: p)
    case (Cons x xs)
    have "successively (\<lambda>a b. \<not> lt a b) (ins_left lt x p)"
      using successively_ins_left [of lt p x] assms Cons.prems by blast
    then show ?case using Cons.IH by simp
  qed simp
  from this [of "[]"] show ?thesis by (simp add: sort_stable_def)
qed

lemma sort_stable_successively:
  assumes "successively (\<lambda>a b. \<not> lt b a) xs"
  shows "sort_stable lt xs = xs"
proof -
  have "foldl (\<lambda>p x. ins_left lt x p) p xs = rev xs @ p"
    if "successively (\<lambda>a b. \<not> lt b a) (rev p @ xs)" for p
    using that assms
  proof (induction xs arbitrary: p)
    case (Cons x xs)
    have "ins_left lt x p = x # p"
      using Cons.prems(1) by (cases p) (auto simp: successively_append_iff)
    then show ?case
      using Cons.IH [of "x # p"] Cons.prems by (cases xs) auto
  qed simp
  from this [of "[]"] show ?thesis using assms by (simp add: sort_stable_def)
qed

lemma sort_stable_idem:
  "(\<And>a b. lt a b \<Longrightarrow> \<not> lt b a) \<Longrightarrow> sort_stable lt (sort_stable lt xs) = sort_stable lt xs"
  by (rule sort_stable_successively) (rule successively_sort_stable)

text \<open>With a strict weak order the result is sorted.\<close>

definition swo_on :: "('a \<Rightarrow> 'a \<Rightarrow> bool) \<Rightarrow> 'a set \<Rightarrow> bool" where
  "swo_on lt A \<longleftrightarrow> (\<forall>a\<in>A. \<forall>b\<in>A. lt a b \<longrightarrow> \<not> lt b a) \<and>
     (\<forall>a\<in>A. \<forall>b\<in>A. \<forall>c\<in>A. \<not> lt a b \<longrightarrow> \<not> lt b c \<longrightarrow> \<not> lt a c)"

lemma swo_on_asym: "swo_on lt A \<Longrightarrow> a \<in> A \<Longrightarrow> b \<in> A \<Longrightarrow> lt a b \<Longrightarrow> \<not> lt b a"
  unfolding swo_on_def by blast

lemma swo_on_ntrans:
  "swo_on lt A \<Longrightarrow> a \<in> A \<Longrightarrow> b \<in> A \<Longrightarrow> c \<in> A \<Longrightarrow> \<not> lt a b \<Longrightarrow> \<not> lt b c \<Longrightarrow> \<not> lt a c"
  unfolding swo_on_def by blast

lemma sorted_ins_left:
  assumes "swo_on lt A" and "x \<in> A" and "set p \<subseteq> A" and "sorted_wrt (\<lambda>a b. \<not> lt a b) p"
  shows "sorted_wrt (\<lambda>a b. \<not> lt a b) (ins_left lt x p)"
  using assms(3,4)
proof (induction p)
  case (Cons y p)
  have y: "y \<in> A" "set p \<subseteq> A" "sorted_wrt (\<lambda>a b. \<not> lt a b) p" "\<forall>b\<in>set p. \<not> lt y b"
    using Cons.prems by simp_all
  show ?case
  proof (cases "lt x y")
    case True
    have "\<not> lt y x" using swo_on_asym [OF assms(1,2) y(1) True] .
    then show ?thesis using True Cons.IH [OF y(2,3)] y(4) by simp
  next
    case False
    have "\<forall>b\<in>set p. \<not> lt x b"
      using swo_on_ntrans [OF assms(1,2) y(1) _ False] y(2,4) by blast
    then show ?thesis using False y(3,4) by simp
  qed
qed simp

lemma sorted_foldl_ins_left:
  assumes "swo_on lt A" and "set p \<union> set xs \<subseteq> A" and "sorted_wrt (\<lambda>a b. \<not> lt a b) p"
  shows "sorted_wrt (\<lambda>a b. \<not> lt a b) (foldl (\<lambda>p x. ins_left lt x p) p xs)"
  using assms(2,3)
proof (induction xs arbitrary: p)
  case (Cons x xs)
  have "sorted_wrt (\<lambda>a b. \<not> lt a b) (ins_left lt x p)"
    by (rule sorted_ins_left [OF assms(1)]) (use Cons.prems in simp_all)
  moreover have "set (ins_left lt x p) \<union> set xs \<subseteq> A"
    using Cons.prems(1) by simp
  ultimately show ?case using Cons.IH by simp
qed simp

lemma sorted_sort_stable:
  assumes "swo_on lt A" and "set xs \<subseteq> A"
  shows "sorted_wrt (\<lambda>a b. \<not> lt b a) (sort_stable lt xs)"
  using sorted_foldl_ins_left [OF assms(1), of "[]" xs] assms(2)
  by (simp add: sort_stable_def sorted_wrt_rev)

lemma swo_on_bytes_Compare: "swo_on (\<lambda>a b. bytes_Compare a b = -1) A"
proof -
  have "bytes_Compare a c \<noteq> -1" if "bytes_Compare a b \<noteq> -1" "bytes_Compare b c \<noteq> -1" for a b c
    using that bytes_Compare_trans [of c b a] bytes_Compare_antisym [of a b]
      bytes_Compare_antisym [of b c] bytes_Compare_antisym [of a c]
      bytes_Compare_range [of a b] bytes_Compare_range [of b c]
    by (metis add.inverse_inverse bytes_Compare_eq_0)
  moreover have "bytes_Compare b a \<noteq> -1" if "bytes_Compare a b = -1" for a b
    using that bytes_Compare_antisym [of a b] by simp
  ultimately show ?thesis unfolding swo_on_def by blast
qed

subsection \<open>strings.Split\<close>

text \<open>Splitting at a separator of one byte.\<close>

fun split_at_byte :: "u8 \<Rightarrow> bytes \<Rightarrow> bytes \<Rightarrow> bytes list" where
  "split_at_byte sep cur [] = [cur]"
| "split_at_byte sep cur (b # bs) =
     (if b = sep then cur # split_at_byte sep [] bs else split_at_byte sep (cur @ [b]) bs)"

definition Split :: "bytes \<Rightarrow> u8 \<Rightarrow> bytes list" where
  "Split s sep = split_at_byte sep [] s"

lemma split_at_byte_none: "sep \<notin> set s \<Longrightarrow> split_at_byte sep cur s = [cur @ s]"
  by (induction s arbitrary: cur) auto

lemma split_at_byte_once:
  "sep \<notin> set s \<Longrightarrow> split_at_byte sep cur (s @ sep # r) = (cur @ s) # split_at_byte sep [] r"
  by (induction s arbitrary: cur) auto

end
