(* ===== verification/Go_Codec.thy ===== *)
theory Go_Codec
  imports Go_Prelude
begin

text \<open>
  The interface of a byte codec and the integer encodings of Go's \<open>encoding/binary\<close> package
  that the sources call: base-128 unsigned varints (\<open>Uvarint\<close>, \<open>AppendUvarint\<close>,
  \<open>PutUvarint\<close>, \<open>ReadUvarint\<close>) and little-endian \<open>uint32\<close>. The locale \<open>codec\<close> states what
  the callers rely on, that decoding what was encoded gives it back and leaves the rest of the
  input alone; the laws that follow from it (no encoding is a prefix of another, a concatenation
  of encodings determines its items) are proved once and reused through interpretations.
\<close>

subsection \<open>The codec interface\<close>

locale codec =
  fixes enc :: "'a \<Rightarrow> bytes"
    and dec :: "bytes \<Rightarrow> ('a \<times> bytes) option"
    and ok :: "'a \<Rightarrow> bool"
  assumes dec_enc: "ok x \<Longrightarrow> dec (enc x @ rest) = Some (x, rest)"
begin

lemma enc_append_eq:
  assumes "ok x" and "ok y" and "enc x @ r = enc y @ s"
  shows "x = y \<and> r = s"
proof -
  have "Some (x, r) = dec (enc x @ r)" by (rule dec_enc [symmetric]) (rule assms(1))
  also have "\<dots> = dec (enc y @ s)" by (rule arg_cong [OF assms(3)])
  also have "\<dots> = Some (y, s)" by (rule dec_enc) (rule assms(2))
  finally show ?thesis by simp
qed

lemma enc_inj: "ok x \<Longrightarrow> ok y \<Longrightarrow> enc x = enc y \<Longrightarrow> x = y"
  using enc_append_eq [of x y "[]" "[]"] by simp

end

locale codec_nonempty = codec +
  assumes enc_nonempty: "ok x \<Longrightarrow> enc x \<noteq> []"
begin

lemma concat_enc_inj:
  assumes "\<forall>x\<in>set xs. ok x" and "\<forall>y\<in>set ys. ok y"
    and "concat (map enc xs) = concat (map enc ys)"
  shows "xs = ys"
  using assms
proof (induction xs arbitrary: ys)
  case Nil
  then show ?case by (cases ys) (simp_all add: enc_nonempty)
next
  case (Cons x xs)
  have "ys \<noteq> []" using Cons.prems(1,3) enc_nonempty [of x] by (intro notI) simp
  then obtain y ys' where ys: "ys = y # ys'" by (cases ys) simp_all
  have "x = y \<and> concat (map enc xs) = concat (map enc ys')"
    by (rule enc_append_eq) (use Cons.prems ys in simp_all)
  then show ?case using Cons.IH [of ys'] Cons.prems(1,2) ys by simp
qed

end

text \<open>Two codecs one after the other are a codec for pairs.\<close>

locale codec_pair = fst_codec: codec enc1 dec1 ok1 + snd_codec: codec enc2 dec2 ok2
  for enc1 :: "'a \<Rightarrow> bytes" and dec1 ok1 and enc2 :: "'b \<Rightarrow> bytes" and dec2 ok2

sublocale codec_pair \<subseteq> pair: codec "\<lambda>(x, y). enc1 x @ enc2 y"
  "\<lambda>b. case dec1 b of None \<Rightarrow> None | Some (x, r) \<Rightarrow>
      (case dec2 r of None \<Rightarrow> None | Some (y, r') \<Rightarrow> Some ((x, y), r'))"
  "\<lambda>(x, y). ok1 x \<and> ok2 y"
  by unfold_locales (auto simp: fst_codec.dec_enc snd_codec.dec_enc)

subsection \<open>Unsigned varints\<close>

text \<open>\<open>binary.AppendUvarint\<close>: seven bits a byte, least significant first, bit 7 set on all but the last.\<close>

function put_uvarint :: "u64 \<Rightarrow> bytes" where
  "put_uvarint x =
     (if x < 0x80 then [ucast x]
      else (ucast x OR 0x80) # put_uvarint (drop_bit 7 x))"
  by pat_completeness auto
termination
proof (relation "measure unat")
  fix x :: u64
  assume "\<not> x < 0x80"
  then have "0 < unat x" by (simp add: word_less_nat_alt)
  then show "(drop_bit 7 x, x) \<in> measure unat"
    by (simp add: drop_bit_eq_div unat_div div_less_dividend)
qed simp

declare put_uvarint.simps [simp del]

definition AppendUvarint :: "bytes \<Rightarrow> u64 \<Rightarrow> bytes" where
  "AppendUvarint b x = b @ put_uvarint x"

text \<open>
  \<open>binary.Uvarint\<close>: the value and the number of bytes read; 0 bytes when the buffer is too
  short, a negative number when the value overflows 64 bits.
\<close>

fun uvarint_loop :: "nat \<Rightarrow> u64 \<Rightarrow> nat \<Rightarrow> bytes \<Rightarrow> u64 \<times> int" where
  "uvarint_loop i x s [] = (0, 0)"
| "uvarint_loop i x s (b # bs) =
     (if i = 10 then (0, - int (i + 1))
      else if b < 0x80 then
        (if i = 9 \<and> b > 1 then (0, - int (i + 1))
         else (x OR push_bit s (ucast b), int (i + 1)))
      else uvarint_loop (i + 1) (x OR push_bit s (ucast (b AND 0x7f))) (s + 7) bs)"

definition Uvarint :: "bytes \<Rightarrow> u64 \<times> int" where
  "Uvarint buf = uvarint_loop 0 0 0 buf"

lemma put_uvarint_nonempty [simp]: "put_uvarint x \<noteq> []"
  by (subst put_uvarint.simps) simp

lemma ucast_low7: "ucast ((ucast x OR 0x80 :: u8) AND 0x7f) = (take_bit 7 x :: u64)"
proof (rule bit_word_eqI)
  fix n
  have "bit (0x80::u8) n \<longleftrightarrow> n = 7" using bit_exp_iff [where 'a = u8, of 7 n] by auto
  moreover have "bit (0x7f::u8) n \<longleftrightarrow> n < 7" using bit_mask_iff [where 'a = u8, of 7 n] by (auto simp: mask_eq_exp_minus_1)
  ultimately show "bit (ucast ((ucast x OR 0x80 :: u8) AND 0x7f) :: u64) n = bit (take_bit 7 x) n"
    by (auto simp: bit_simps)
qed

lemma high_bit_not_less: "\<not> (y OR 0x80 :: u8) < 0x80"
proof -
  have "(0x80::u8) \<le> y OR 0x80" by (metis le_word_or1 or.commute)
  then show ?thesis by simp
qed

lemma push_bit_split7:
  "(acc OR push_bit s (take_bit 7 x)) OR push_bit (s + 7) (drop_bit 7 x) = acc OR push_bit s (x::u64)"
proof (rule bit_word_eqI)
  fix n
  have "s + 7 \<le> n \<longleftrightarrow> s \<le> n \<and> \<not> n - s < 7" by linarith
  then show "bit ((acc OR push_bit s (take_bit 7 x)) OR push_bit (s + 7) (drop_bit 7 x)) n
      = bit (acc OR push_bit s x) n"
    by (auto simp: bit_simps)
qed

lemma uvarint_loop_put:
  assumes "i \<le> 9" and "unat x < 2 ^ (64 - 7 * i)"
  shows "uvarint_loop i acc s (put_uvarint x @ rest) =
    (acc OR push_bit s x, int (i + length (put_uvarint x)))"
  using assms
proof (induction x arbitrary: i acc s rule: put_uvarint.induct)
  case (1 x)
  show ?case
  proof (cases "x < 0x80")
    case True
    have small: "unat x < 128" using True by (simp add: word_less_nat_alt)
    have b: "(ucast x :: u8) < 0x80"
      using small by (simp add: word_less_nat_alt unsigned_ucast_eq take_bit_eq_mod)
    have le1: "\<not> (ucast x :: u8) > 1" if "i = 9"
      using that "1.prems" small by (simp add: word_less_nat_alt unsigned_ucast_eq take_bit_eq_mod)
    have u: "(ucast (ucast x :: u8) :: u64) = x"
      using small by (simp add: word_unat_eq_iff unsigned_ucast_eq take_bit_eq_mod unat_mod)
    show ?thesis
      using True b le1 u "1.prems"(1) by (simp add: put_uvarint.simps [of x])
  next
    case False
    have big: "128 \<le> unat x" using False by (simp add: word_less_nat_alt)
    have i: "i \<le> 8"
      using "1.prems" big by (cases "i = 9") auto
    have "unat (drop_bit 7 x) = unat x div 128"
      by (simp add: drop_bit_eq_div unat_div)
    moreover have "(2::nat) ^ (64 - 7 * i) = 2 ^ 7 * 2 ^ (64 - 7 * (i + 1))"
      unfolding power_add [symmetric] using i by (intro arg_cong [where f = "(^) 2"]) simp
    ultimately have "unat (drop_bit 7 x) < 2 ^ (64 - 7 * (i + 1))"
      using "1.prems"(2) by (simp add: less_mult_imp_div_less mult.commute)
    from "1.IH" [OF False _ this] i
    have "uvarint_loop (i + 1) (acc OR push_bit s (take_bit 7 x)) (s + 7) (put_uvarint (drop_bit 7 x) @ rest)
      = ((acc OR push_bit s (take_bit 7 x)) OR push_bit (s + 7) (drop_bit 7 x),
         int (i + 1 + length (put_uvarint (drop_bit 7 x))))"
      by simp
    then show ?thesis
      using False i by (simp add: put_uvarint.simps [of x] high_bit_not_less ucast_low7 push_bit_split7)
  qed
qed

lemma Uvarint_put [codec_simps]:
  "Uvarint (put_uvarint x @ rest) = (x, int (length (put_uvarint x)))"
  using uvarint_loop_put [of 0 x 0 0 rest] unsigned_less [of x] by (simp add: Uvarint_def)

text \<open>The callers' view: the value and the remaining bytes, or nothing when the bytes read is not positive.\<close>

definition dec_uvarint :: "bytes \<Rightarrow> (u64 \<times> bytes) option" where
  "dec_uvarint b = (case Uvarint b of (x, n) \<Rightarrow> if n \<le> 0 then None else Some (x, drop (nat n) b))"

interpretation uv: codec_nonempty put_uvarint dec_uvarint "\<lambda>_. True"
  by unfold_locales (simp_all add: dec_uvarint_def Uvarint_put)

lemma uvarint_loop_bounds:
  assumes "i \<le> 10" and "uvarint_loop i x s bs = (v, n)"
  shows "n \<le> 0 \<or> (int i < n \<and> n \<le> int (i + length bs) \<and> n \<le> 10)"
  using assms
proof (induction i x s bs rule: uvarint_loop.induct)
  case (2 i x s b bs)
  show ?case
  proof (cases "i = 10 \<or> b < 0x80")
    case True
    then show ?thesis using "2.prems" by (auto split: if_splits)
  next
    case False
    then have "n \<le> 0 \<or> int (i + 1) < n \<and> n \<le> int (i + 1 + length bs) \<and> n \<le> 10"
      using "2.IH" "2.prems" by simp
    then show ?thesis by auto
  qed
qed simp

lemma Uvarint_bounds:
  "Uvarint b = (v, n) \<Longrightarrow> n \<le> 0 \<or> (0 < n \<and> n \<le> int (length b) \<and> n \<le> 10)"
  using uvarint_loop_bounds [of 0 0 0 b v n] by (simp add: Uvarint_def)

lemma length_put_uvarint_le: "length (put_uvarint x) \<le> 10"
  using Uvarint_bounds [of "put_uvarint x" x "int (length (put_uvarint x))"] Uvarint_put [of x "[]"]
  by auto

text \<open>
  \<open>binary.ReadUvarint\<close> reads from an \<open>io.ByteReader\<close>, here the bytes still to be read.
\<close>

datatype read_error = EOF | ErrUnexpectedEOF | ErrOverflow

function read_uvarint_loop :: "nat \<Rightarrow> u64 \<Rightarrow> nat \<Rightarrow> bytes \<Rightarrow> read_error + (u64 \<times> bytes)" where
  "read_uvarint_loop i x s r =
     (if i < 10 then
        (case r of
           [] \<Rightarrow> Inl (if i > 0 then ErrUnexpectedEOF else EOF)
         | b # r' \<Rightarrow>
             if b < 0x80 then
               (if i = 9 \<and> b > 1 then Inl ErrOverflow
                else Inr (x OR push_bit s (ucast b), r'))
             else read_uvarint_loop (i + 1) (x OR push_bit s (ucast (b AND 0x7f))) (s + 7) r')
      else Inl ErrOverflow)"
  by pat_completeness auto
termination
  by (relation "measure (\<lambda>(i, x, s, r). 10 - i)") auto

declare read_uvarint_loop.simps [simp del]

definition ReadUvarint :: "bytes \<Rightarrow> read_error + (u64 \<times> bytes)" where
  "ReadUvarint r = read_uvarint_loop 0 0 0 r"

text \<open>Reading from a stream and from a buffer agree wherever the buffer holds a value.\<close>

lemma read_uvarint_loop_eq:
  assumes "i \<le> 10" and "uvarint_loop i x s r = (v, n)" and "0 < n"
  shows "read_uvarint_loop i x s r = Inr (v, drop (nat n - i) r)"
  using assms
proof (induction r arbitrary: i x s)
  case (Cons b r)
  show ?case
  proof (cases "i < 10 \<and> \<not> b < 0x80")
    case True
    then have rec: "uvarint_loop (i + 1) (x OR push_bit s (ucast (b AND 0x7f))) (s + 7) r = (v, n)"
      using Cons.prems by simp
    have "int (i + 1) < n" using uvarint_loop_bounds [OF _ rec] True Cons.prems(3) by simp
    then have "nat n - i = Suc (nat n - (i + 1))" by simp
    then show ?thesis
      using True Cons.IH [OF _ rec Cons.prems(3)] by (simp add: read_uvarint_loop.simps [of i])
  next
    case False
    have "nat (1 + int i) - i = 1" by simp
    then show ?thesis
      using False Cons.prems by (auto simp: read_uvarint_loop.simps [of i] split: if_splits)
  qed
qed simp

lemma ReadUvarint_eq:
  "Uvarint b = (v, n) \<Longrightarrow> 0 < n \<Longrightarrow> ReadUvarint b = Inr (v, drop (nat n) b)"
  using read_uvarint_loop_eq [of 0 0 0 b v n] by (simp add: ReadUvarint_def Uvarint_def)

subsection \<open>Little-endian words\<close>

fun le_bytes :: "nat \<Rightarrow> 'a::len word \<Rightarrow> bytes" where
  "le_bytes 0 x = []"
| "le_bytes (Suc n) x = ucast x # le_bytes n (drop_bit 8 x)"

fun le_word :: "bytes \<Rightarrow> 'a::len word" where
  "le_word [] = 0"
| "le_word (b # bs) = push_bit 8 (le_word bs) OR ucast b"

lemma length_le_bytes [simp]: "length (le_bytes n x) = n"
  by (induction n arbitrary: x) auto

lemma le_word_le_bytes: "le_word (le_bytes n x) = take_bit (8 * n) (x :: 'a::len word)"
proof (induction n arbitrary: x)
  case (Suc n)
  have "push_bit 8 (take_bit (8 * n) (drop_bit 8 x)) OR ucast (ucast x :: u8) = take_bit (8 * Suc n) x"
    by (rule bit_word_eqI) (auto simp: bit_simps)
  then show ?case by (simp add: Suc)
qed simp

text \<open>\<open>binary.LittleEndian.AppendUint32\<close> and the decoder that inverts it.\<close>

definition put_u32 :: "u32 \<Rightarrow> bytes" where
  "put_u32 x = le_bytes 4 x"

definition dec_u32 :: "bytes \<Rightarrow> (u32 \<times> bytes) option" where
  "dec_u32 b = (if length b < 4 then None else Some (le_word (take 4 b), drop 4 b))"

lemma length_put_u32 [simp, len_simps]: "length (put_u32 x) = 4"
  by (simp add: put_u32_def)

lemma le_word_put_u32: "le_word (put_u32 x) = x"
  by (simp add: put_u32_def le_word_le_bytes take_bit_word_eq_self)

interpretation le32: codec_nonempty put_u32 dec_u32 "\<lambda>_. True"
proof unfold_locales
  show "put_u32 x \<noteq> []" for x by (metis length_0_conv length_put_u32 zero_neq_numeral)
qed (simp add: dec_u32_def le_word_put_u32)

end
