(* ===== verification/Zcode.thy ===== *)
theory Zcode
  imports Go_Codec
begin

text \<open>
  The zcode package: tagged values (\<open>bytes.go\<close>), iteration over a sequence of them
  (\<open>iter.go\<close>) and integers of known length (\<open>counted.go\<close>). A panic of the source is an error
  value. A Go \<open>int\<close> or \<open>int64\<close> is its 64-bit pattern, read by \<open>sint\<close>.
\<close>

datatype zpanic =
    BadUvarint int
  | NullTag
  | SliceBounds
  | IndexRange
  | OpenContainer
  | BadContainerTagSize

text \<open>A Go slice holds fewer than \<open>2 ^ 63\<close> elements.\<close>

definition fits :: "'a list \<Rightarrow> bool" where
  "fits b \<longleftrightarrow> length b < 2 ^ 63"

subsection \<open>Tags (bytes.go)\<close>

definition toTag :: "nat \<Rightarrow> u64" where
  "toTag len = of_nat len + 1"

definition tagNull :: u64 where
  "tagNull = 0"

definition tagIsNull :: "u64 \<Rightarrow> bool" where
  "tagIsNull t \<longleftrightarrow> t = tagNull"

definition tagLength :: "u64 \<Rightarrow> zpanic + u64" where
  "tagLength t = (if t = tagNull then Inl NullTag else Inr (t - 1))"

function size_uvarint_loop :: "nat \<Rightarrow> u64 \<Rightarrow> nat" where
  "size_uvarint_loop n x = (if x \<ge> 0x80 then size_uvarint_loop (n + 1) (drop_bit 7 x) else n)"
  by pat_completeness auto
termination
proof (relation "measure (\<lambda>(n, x). unat x)")
  fix n and x :: u64
  assume "x \<ge> 0x80"
  then have "0 < unat x" by (simp add: word_le_nat_alt)
  then show "((n + 1, drop_bit 7 x), n, x) \<in> measure (\<lambda>(n, x). unat x)"
    by (simp add: drop_bit_eq_div unat_div div_less_dividend)
qed simp

declare size_uvarint_loop.simps [simp del]

definition SizeOfUvarint :: "u64 \<Rightarrow> nat" where
  "SizeOfUvarint x = size_uvarint_loop 1 x"

definition Append :: "bytes \<Rightarrow> zbytes \<Rightarrow> bytes" where
  "Append dst v = (case v of
      None \<Rightarrow> AppendUvarint dst tagNull
    | Some b \<Rightarrow> AppendUvarint dst (toTag (length b)) @ b)"

definition ReadTag :: "bytes \<Rightarrow> (zpanic + read_error) + (u64 \<times> bytes)" where
  "ReadTag r = (case ReadUvarint r of
      Inl e \<Rightarrow> Inl (Inr e)
    | Inr (x, r') \<Rightarrow>
        if tagIsNull x then Inr (- 1, r')
        else (case tagLength x of Inl p \<Rightarrow> Inl (Inl p) | Inr n \<Rightarrow> Inr (n, r')))"

definition DecodeTagLength :: "bytes \<Rightarrow> zpanic + u64" where
  "DecodeTagLength b = (case Uvarint b of (x, n) \<Rightarrow>
     if n \<le> 0 then Inl (BadUvarint n)
     else if tagIsNull x then Inr (word_of_int n)
     else Inr (x + word_of_int n - 1))"

subsection \<open>Iteration (iter.go)\<close>

definition Iter_Done :: "bytes \<Rightarrow> bool" where
  "Iter_Done i \<longleftrightarrow> length i = 0"

text \<open>
  \<open>(*i)[n:end]\<close> followed by \<open>(*i)[end:]\<close>: the second slice bounds \<open>end\<close> by the length, so
  the pair panics unless \<open>n \<le> end \<le> len\<close>, whatever the capacity.
\<close>

definition Iter_Next :: "bytes \<Rightarrow> zpanic + (zbytes \<times> bytes)" where
  "Iter_Next i = (case Uvarint i of (x, n) \<Rightarrow>
     if n \<le> 0 then Inl (BadUvarint n)
     else if tagIsNull x then Inr (None, drop (nat n) i)
     else res_bind (tagLength x) (\<lambda>l.
       let e = sint (word_of_int n + l) in
       if n \<le> e \<and> e \<le> int (length i)
       then Inr (Some (take (nat (e - n)) (drop (nat n) i)), drop (nat e) i)
       else Inl SliceBounds))"

definition Iter_NextTagAndBody :: "bytes \<Rightarrow> zpanic + (bytes \<times> bytes)" where
  "Iter_NextTagAndBody i = (case Uvarint i of (x, n) \<Rightarrow>
     if n \<le> 0 then Inl (BadUvarint n)
     else res_bind (if tagIsNull x then Inr (word_of_int n)
                    else res_bind (tagLength x) (\<lambda>l. Inr (word_of_int n + l))) (\<lambda>m.
       if 0 \<le> sint m \<and> sint m \<le> int (length i)
       then Inr (take (nat (sint m)) i, drop (nat (sint m)) i)
       else Inl SliceBounds))"

definition Bytes_Body :: "bytes \<Rightarrow> zpanic + zbytes" where
  "Bytes_Body b = res_bind (Iter_Next b) (\<lambda>(v, _). Inr v)"

subsection \<open>Integers of known length (counted.go)\<close>

fun decode_counted_loop :: "bytes \<Rightarrow> nat \<Rightarrow> u64 \<Rightarrow> u64" where
  "decode_counted_loop b 0 x = x"
| "decode_counted_loop b (Suc n) x = decode_counted_loop b n (push_bit 8 x OR ucast (b ! n))"

definition DecodeCountedUvarint :: "bytes \<Rightarrow> u64" where
  "DecodeCountedUvarint b = decode_counted_loop b (length b) 0"

lemma unat_drop_bit_8_less: "x \<noteq> 0 \<Longrightarrow> unat (drop_bit 8 x) < unat (x :: u64)"
proof -
  assume "x \<noteq> 0"
  then have "0 < unat x" by (simp add: unat_gt_0)
  then show ?thesis by (simp add: drop_bit_eq_div unat_div div_less_dividend)
qed

function encode_counted_loop :: "bytes \<Rightarrow> nat \<Rightarrow> u64 \<Rightarrow> zpanic + (bytes \<times> nat)" where
  "encode_counted_loop dst n x =
     (if x \<noteq> 0 then
        (if n < length dst then encode_counted_loop (dst[n := ucast x]) (n + 1) (drop_bit 8 x)
         else Inl IndexRange)
      else Inr (dst, n))"
  by pat_completeness auto
termination
  by (relation "measure (\<lambda>(dst, n, x). unat x)") (simp_all add: unat_drop_bit_8_less)

declare encode_counted_loop.simps [simp del]

definition EncodeCountedUvarint :: "bytes \<Rightarrow> u64 \<Rightarrow> zpanic + (bytes \<times> nat)" where
  "EncodeCountedUvarint dst x = encode_counted_loop dst 0 x"

function append_counted_loop :: "zbytes \<Rightarrow> u64 \<Rightarrow> zbytes" where
  "append_counted_loop dst x =
     (if x \<noteq> 0 then append_counted_loop (Some (slice_bytes dst @ [ucast x])) (drop_bit 8 x) else dst)"
  by pat_completeness auto
termination
  by (relation "measure (\<lambda>(dst, x). unat x)") (simp_all add: unat_drop_bit_8_less)

declare append_counted_loop.simps [simp del]

definition AppendCountedUvarint :: "zbytes \<Rightarrow> u64 \<Rightarrow> zbytes" where
  "AppendCountedUvarint dst x =
     (case append_counted_loop dst x of None \<Rightarrow> Some [] | Some b \<Rightarrow> Some b)"

definition DecodeCountedVarint :: "bytes \<Rightarrow> u64" where
  "DecodeCountedVarint b =
     (let x = DecodeCountedUvarint b in
      if x AND 1 \<noteq> 0 then
        (let y = drop_bit 1 x in if y = 0 then 0x8000000000000000 else - y)
      else drop_bit 1 x)"

definition zigzag :: "u64 \<Rightarrow> u64" where
  "zigzag i = (if 0 \<le> sint i then push_bit 1 i else push_bit 1 (- i) OR 1)"

definition EncodeCountedVarint :: "bytes \<Rightarrow> u64 \<Rightarrow> zpanic + (bytes \<times> nat)" where
  "EncodeCountedVarint dst i = EncodeCountedUvarint dst (zigzag i)"

definition AppendCountedVarint :: "zbytes \<Rightarrow> u64 \<Rightarrow> zbytes" where
  "AppendCountedVarint dst i = AppendCountedUvarint dst (zigzag i)"

subsection \<open>Tagged values\<close>

lemma SizeOfUvarint_length [len_simps]: "SizeOfUvarint x = length (put_uvarint x)"
proof -
  have "size_uvarint_loop n x = n + length (put_uvarint x) - 1" for n
  proof (induction n x rule: size_uvarint_loop.induct)
    case (1 n x)
    have "length (put_uvarint (drop_bit 7 x)) \<noteq> 0" by simp
    with 1 show ?case
      by (cases "x \<ge> 0x80")
        (auto simp: size_uvarint_loop.simps [of n x] put_uvarint.simps [of x] not_less
          simp del: length_0_conv)
  qed
  then show ?thesis by (simp add: SizeOfUvarint_def)
qed

lemma Append_append: "Append dst v = dst @ Append [] v"
  by (simp add: Append_def AppendUvarint_def split: option.split)

lemma Append_Nil:
  "Append [] v = (case v of None \<Rightarrow> put_uvarint 0 | Some b \<Rightarrow> put_uvarint (toTag (length b)) @ b)"
  by (simp add: Append_def AppendUvarint_def tagNull_def split: option.split)

lemma length_Append_pos [simp]: "Append [] v \<noteq> []"
  by (simp add: Append_Nil split: option.split)

lemma unat_toTag: "len < 2 ^ 63 \<Longrightarrow> unat (toTag len) = Suc len"
  by (simp add: toTag_def unat_word_ariths unat_of_nat)

lemma toTag_nonzero: "len < 2 ^ 63 \<Longrightarrow> toTag len \<noteq> 0"
  using unat_toTag [of len] by auto

lemma sint_small: "n < 2 ^ 63 \<Longrightarrow> sint (of_nat n :: u64) = int n"
proof -
  assume "n < 2 ^ 63"
  then have "int n < 2 ^ 63" by (simp flip: of_nat_less_iff)
  then show ?thesis
    by (simp add: signed_of_nat signed_take_bit_int_eq_self)
qed

lemma Uvarint_Append:
  "Uvarint (Append [] v @ rest) = (case v of None \<Rightarrow> (0, int (length (put_uvarint 0)))
     | Some b \<Rightarrow> (toTag (length b), int (length (put_uvarint (toTag (length b))))))"
  by (simp add: Append_Nil Uvarint_put split: option.split)

lemma tag_end:
  assumes "length (put_uvarint (toTag (length b))) + length b < 2 ^ 63"
  shows "sint (word_of_int (int (length (put_uvarint (toTag (length b))))) + (toTag (length b) - 1) :: u64)
    = int (length (put_uvarint (toTag (length b))) + length b)"
  using sint_small [OF assms] by (simp add: toTag_def)

theorem Iter_Next_Append:
  assumes "fits (Append [] v)"
  shows "Iter_Next (Append [] v @ rest) = Inr (v, rest)"
proof (cases v)
  case None
  then show ?thesis
    by (simp add: Iter_Next_def Append_Nil Uvarint_put tagIsNull_def tagNull_def)
next
  case (Some b)
  let ?t = "put_uvarint (toTag (length b))"
  have len: "length ?t + length b < 2 ^ 63"
    using assms Some by (simp add: fits_def Append_Nil)
  have nz: "toTag (length b) \<noteq> 0" using len by (intro toTag_nonzero) simp
  show ?thesis
    using nz tag_end [OF len] Some
    by (simp add: Iter_Next_def Append_Nil Uvarint_put tagIsNull_def tagNull_def tagLength_def)
qed

theorem Iter_NextTagAndBody_Append:
  assumes "fits (Append [] v)"
  shows "Iter_NextTagAndBody (Append [] v @ rest) = Inr (Append [] v, rest)"
proof (cases v)
  case None
  have "length (put_uvarint 0) < 2 ^ 63" using length_put_uvarint_le [of 0] by simp
  then show ?thesis
    using None sint_small [of "length (put_uvarint 0)"]
    by (simp add: Iter_NextTagAndBody_def Append_Nil Uvarint_put tagIsNull_def tagNull_def)
next
  case (Some b)
  let ?t = "put_uvarint (toTag (length b))"
  have len: "length ?t + length b < 2 ^ 63"
    using assms Some by (simp add: fits_def Append_Nil)
  have nz: "toTag (length b) \<noteq> 0" using len by (intro toTag_nonzero) simp
  show ?thesis
    using nz tag_end [OF len] Some
    by (simp add: Iter_NextTagAndBody_def Append_Nil Uvarint_put tagIsNull_def tagNull_def tagLength_def)
qed

text \<open>A successful \<open>Next\<close> consumes at least the tag, so a loop over \<open>Next\<close> ends.\<close>

lemma Iter_Next_shorter:
  assumes "Iter_Next i = Inr (v, i')"
  shows "length i' < length i"
proof -
  obtain x n where u: "Uvarint i = (x, n)" by (cases "Uvarint i")
  have "n \<le> 0 \<or> (0 < n \<and> n \<le> int (length i) \<and> n \<le> 10)" by (rule Uvarint_bounds [OF u])
  then show ?thesis
    using assms u by (auto simp: Iter_Next_def res_bind_Inr_iff Let_def split: if_splits)
qed

interpretation tagged: codec_nonempty "Append []"
  "\<lambda>b. case Iter_Next b of Inl _ \<Rightarrow> None | Inr r \<Rightarrow> Some r" "\<lambda>v. fits (Append [] v)"
  by unfold_locales (simp_all add: Iter_Next_Append)

text \<open>The loop \<open>for !it.Done() { ... it.Next() ... }\<close> over a container body.\<close>

function iter_values :: "bytes \<Rightarrow> zpanic + zbytes list" where
  "iter_values i = (if Iter_Done i then Inr []
     else res_bind (Iter_Next i) (\<lambda>(v, i'). res_bind (iter_values i') (\<lambda>vs. Inr (v # vs))))"
  by pat_completeness auto
termination
  by (relation "measure length") (auto dest: Iter_Next_shorter)

declare iter_values.simps [simp del]

definition append_all :: "bytes \<Rightarrow> zbytes list \<Rightarrow> bytes" where
  "append_all dst vs = foldl Append dst vs"

lemma append_all_concat: "append_all dst vs = dst @ concat (map (Append []) vs)"
  unfolding append_all_def
proof (induction vs arbitrary: dst)
  case (Cons v vs)
  have "foldl Append dst (v # vs) = foldl Append (dst @ Append [] v) vs"
    by (simp add: Append_append [of dst])
  then show ?case using Cons [of "dst @ Append [] v"] by simp
qed simp

lemma iter_values_concat:
  "\<forall>v\<in>set vs. fits (Append [] v) \<Longrightarrow> iter_values (concat (map (Append []) vs)) = Inr vs"
proof (induction vs)
  case (Cons v vs)
  then show ?case
    by (subst iter_values.simps) (simp add: Iter_Done_def Iter_Next_Append)
qed (simp add: iter_values.simps Iter_Done_def)

subsection \<open>Counted integers\<close>

lemma decode_counted_loop_le_word:
  "n \<le> length b \<Longrightarrow> decode_counted_loop b n x = push_bit (8 * n) x OR le_word (take n b)"
proof (induction n arbitrary: x)
  case (Suc n)
  have app: "le_word (xs @ [y]) = push_bit (8 * length xs) (ucast y) OR (le_word xs :: u64)" for xs y
    by (induction xs) (simp_all add: or.assoc push_bit_or ac_simps)
  have "take (Suc n) b = take n b @ [b ! n]" using Suc.prems by (simp add: take_Suc_conv_app_nth)
  then have "le_word (take (Suc n) b) = push_bit (8 * n) (ucast (b ! n)) OR (le_word (take n b) :: u64)"
    using app [of "take n b" "b ! n"] Suc.prems by simp
  then show ?case
    using Suc.IH [of "push_bit 8 x OR ucast (b ! n)"] Suc.prems
    by (simp add: push_bit_or or.assoc add.commute)
qed simp

lemma DecodeCountedUvarint_le_word: "DecodeCountedUvarint b = le_word b"
  by (simp add: DecodeCountedUvarint_def decode_counted_loop_le_word)

text \<open>The bytes the encoders write.\<close>

function counted_bytes :: "u64 \<Rightarrow> bytes" where
  "counted_bytes x = (if x = 0 then [] else ucast x # counted_bytes (drop_bit 8 x))"
  by pat_completeness auto
termination
  by (relation "measure unat") (simp_all add: unat_drop_bit_8_less)

declare counted_bytes.simps [simp del]

lemma le_word_counted_bytes: "le_word (counted_bytes x) = x"
proof (induction x rule: counted_bytes.induct)
  case (1 x)
  have "push_bit 8 (drop_bit 8 x) OR ucast (ucast x :: u8) = x"
    by (rule bit_word_eqI) (auto simp: bit_simps)
  then show ?case using 1 by (cases "x = 0") (simp_all add: counted_bytes.simps [of x] counted_bytes.simps [of 0])
qed

lemma length_counted_bytes: "unat x < 2 ^ (8 * n) \<Longrightarrow> length (counted_bytes x) \<le> n"
proof (induction n arbitrary: x)
  case 0
  then have "x = 0" by (simp add: unat_eq_zero)
  then show ?case by (simp add: counted_bytes.simps)
next
  case (Suc n)
  have "unat (drop_bit 8 x) < 2 ^ (8 * n)"
    using Suc.prems by (simp add: drop_bit_eq_div unat_div less_mult_imp_div_less power_add mult.commute)
  then show ?case using Suc.IH by (subst counted_bytes.simps) simp
qed

lemma length_counted_bytes_8 [simp]: "length (counted_bytes x) \<le> 8"
  by (rule length_counted_bytes) (use unsigned_less [of x] in simp)

lemma append_counted_loop_eq:
  "append_counted_loop dst x = (if x = 0 then dst else Some (slice_bytes dst @ counted_bytes x))"
proof (induction dst x rule: append_counted_loop.induct)
  case (1 dst x)
  then show ?case
    by (cases "drop_bit 8 x = 0")
      (simp_all add: append_counted_loop.simps [of dst x] counted_bytes.simps [of x] counted_bytes.simps [of 0])
qed

lemma AppendCountedUvarint_eq: "AppendCountedUvarint dst x = Some (slice_bytes dst @ counted_bytes x)"
  by (simp add: AppendCountedUvarint_def append_counted_loop_eq counted_bytes.simps [of 0] split: option.split)

lemma encode_counted_loop_eq:
  assumes "n + length (counted_bytes x) \<le> length dst"
  shows "encode_counted_loop dst n x =
    Inr (take n dst @ counted_bytes x @ drop (n + length (counted_bytes x)) dst, n + length (counted_bytes x))"
  using assms
proof (induction dst n x rule: encode_counted_loop.induct)
  case (1 dst n x)
  show ?case
  proof (cases "x = 0")
    case True
    then show ?thesis by (simp add: encode_counted_loop.simps [of dst n 0] counted_bytes.simps [of 0])
  next
    case False
    have c: "counted_bytes x = ucast x # counted_bytes (drop_bit 8 x)"
      using False by (simp add: counted_bytes.simps [of x])
    have n: "n < length dst" using "1.prems" c by simp
    have t: "take (n + 1) (dst[n := ucast x]) = take n dst @ [ucast x]"
      using n by (simp add: take_Suc_conv_app_nth)
    show ?thesis
      using "1.IH" [OF False n] "1.prems" n False t
      by (simp add: encode_counted_loop.simps [of dst n x] c)
  qed
qed

lemma zigzag_inverse:
  "(let x = zigzag i in if x AND 1 \<noteq> 0 then
     (let y = drop_bit 1 x in if y = 0 then 0x8000000000000000 else - y) else drop_bit 1 x) = i"
proof (cases "0 \<le> sint i")
  case True
  have nb: "\<not> bit i 63" using True bit_last_iff [of i] by simp
  have z: "zigzag i = push_bit 1 i" using True by (simp add: zigzag_def)
  have "zigzag i AND 1 = 0"
    unfolding z by (rule bit_word_eqI, unfold bit_and_iff bit_push_bit_iff bit_1_iff) simp
  moreover have "drop_bit 1 (push_bit 1 i) = i"
  proof (rule bit_word_eqI)
    fix n assume "n < LENGTH(64)"
    then show "bit (drop_bit 1 (push_bit 1 i)) n = bit i n"
      unfolding bit_drop_bit_eq comp_apply bit_push_bit_iff using nb by (cases "n = 63") simp_all
  qed
  ultimately show ?thesis by (simp add: z Let_def)
next
  case False
  have b63: "bit i 63" using False bit_last_iff [of i] by simp
  have z: "zigzag i = push_bit 1 (- i) OR 1" using False by (simp add: zigzag_def)
  have o: "zigzag i AND 1 \<noteq> 0" 
  proof
    assume "zigzag i AND 1 = 0"
    then have "bit ((push_bit 1 (- i) OR 1) AND 1) 0 = bit (0::u64) 0" unfolding z by simp
    then show False unfolding bit_and_iff bit_or_iff bit_1_iff by simp
  qed
  have d: "drop_bit 1 (zigzag i) = take_bit 63 (- i)"
  proof (rule bit_word_eqI)
    fix n assume "n < LENGTH(64)"
    then show "bit (drop_bit 1 (zigzag i)) n = bit (take_bit 63 (- i)) n"
      unfolding z bit_drop_bit_eq comp_apply bit_or_iff bit_push_bit_iff bit_1_iff bit_take_bit_iff
      by (cases "n = 63") simp_all
  qed
  have n0: "i \<noteq> 0" using b63 by auto
  have ge: "2 ^ 63 \<le> unat i"
  proof (rule ccontr)
    assume "\<not> 2 ^ 63 \<le> unat i"
    then have "take_bit 63 (unat i) = unat i" by (simp add: take_bit_nat_eq_self)
    then have "\<not> bit (unat i) 63" by (metis bit_take_bit_iff less_irrefl)
    then show False using b63 by (simp add: bit_unsigned_iff)
  qed
  show ?thesis
  proof (cases "i = 0x8000000000000000")
    case True
    then show ?thesis by (simp add: zigzag_def)
  next
    case False
    have "unat i \<noteq> 2 ^ 63" using False by (simp add: word_unat_eq_iff)
    have "unat (- i) = 2 ^ 64 - unat i" using n0 ge unat_sub_if' [of 0 i] by (simp add: word_le_nat_alt)
    then have lt: "unat (- i) < 2 ^ 63" using ge \<open>unat i \<noteq> 2 ^ 63\<close> by simp
    have "take_bit 63 (- i) = - i"
      using lt by (simp add: word_unat_eq_iff unsigned_take_bit_eq take_bit_nat_eq_self)
    then show ?thesis using o d n0 by (simp add: Let_def)
  qed
qed

lemma DecodeCountedVarint_eq: "le_word b = zigzag i \<Longrightarrow> DecodeCountedVarint b = i"
  using zigzag_inverse [of i] by (simp add: DecodeCountedVarint_def DecodeCountedUvarint_le_word)

lemma EncodeCountedUvarint_8:
  assumes "length dst = 8"
  shows "EncodeCountedUvarint dst x =
    Inr (counted_bytes x @ drop (length (counted_bytes x)) dst, length (counted_bytes x))"
  using encode_counted_loop_eq [of 0 x dst] assms by (simp add: EncodeCountedUvarint_def)

subsection \<open>Properties\<close>

text \<open>
  C14: appending values one after the other and iterating over the buffer gives exactly these
  values back, in order, null values told from empty ones, and the loop ends without a panic.
\<close>

theorem iter_values_append_all:
  assumes "\<forall>v\<in>set vs. fits (Append [] v)"
  shows "iter_values (append_all [] vs) = Inr vs"
  using iter_values_concat [OF assms] by (simp add: append_all_concat)

theorem iter_values_append_all_witness:
  "iter_values (append_all [] [None, Some [], Some [7, 200]]) = Inr [None, Some [], Some [7, 200]]"
  by (rule iter_values_append_all) (simp add: fits_def Append_Nil toTag_def put_uvarint.simps)

text \<open>
  Every 64-bit signed integer survives the counted encoding, whether it is appended to a
  slice or written into the 8-byte buffer of \<open>EncodeInt\<close>; the buffer never overflows, and
  an appended zero is an empty slice and never nil.
\<close>

theorem counted_varint_roundtrip:
  "(\<exists>b. AppendCountedVarint None i = Some b \<and> length b \<le> 8 \<and> DecodeCountedVarint b = i) \<and>
   (\<exists>b n. EncodeCountedVarint (replicate 8 0) i = Inr (b, n) \<and> n \<le> 8 \<and> DecodeCountedVarint (take n b) = i)"
  by (auto simp: AppendCountedVarint_def AppendCountedUvarint_eq EncodeCountedVarint_def
      EncodeCountedUvarint_8 le_word_counted_bytes intro!: DecodeCountedVarint_eq)

text \<open>
  the length read from the tag of an encoded value is the length of its whole encoding
  (\<open>DecodeTagLength\<close>), and \<open>ReadTag\<close> returns -1 for null and the body length otherwise,
  leaving the reader at the body.
\<close>

theorem tag_reads_length:
  assumes "fits (Append [] v)"
  shows "DecodeTagLength (Append [] v @ rest) = Inr (of_nat (length (Append [] v))) \<and>
    ReadTag (Append [] v @ rest) = (case v of None \<Rightarrow> Inr (- 1, rest)
      | Some b \<Rightarrow> Inr (of_nat (length b), b @ rest))"
proof (cases v)
  case None
  have "ReadUvarint (put_uvarint 0 @ rest) = Inr (0, rest)"
    using ReadUvarint_eq [OF Uvarint_put [of 0 rest]] by simp
  then show ?thesis
    using None by (simp add: DecodeTagLength_def ReadTag_def Append_Nil Uvarint_put tagIsNull_def tagNull_def)
next
  case (Some b)
  have "toTag (length b) \<noteq> 0"
    using assms Some by (intro toTag_nonzero) (simp add: fits_def Append_Nil)
  moreover have "ReadUvarint (put_uvarint (toTag (length b)) @ b @ rest) = Inr (toTag (length b), b @ rest)"
    using ReadUvarint_eq [OF Uvarint_put [of "toTag (length b)" "b @ rest"]] by simp
  moreover have "toTag (length b) - 1 = of_nat (length b)" by (simp add: toTag_def)
  ultimately show ?thesis
    using Some by (simp add: DecodeTagLength_def ReadTag_def Append_Nil Uvarint_put tagIsNull_def
        tagNull_def tagLength_def algebra_simps)
qed

theorem tag_reads_length_witness:
  "DecodeTagLength (Append [] (Some [1, 2, 3]) @ [9]) = Inr (of_nat (length (Append [] (Some [1, 2, 3])))) \<and>
   ReadTag (Append [] (Some [1, 2, 3]) @ [9]) = Inr (3, [1, 2, 3] @ [9])"
  using tag_reads_length [of "Some [1, 2, 3]" "[9]"]
  by (simp add: fits_def Append_Nil toTag_def put_uvarint.simps)

text \<open>
  \<open>NextTagAndBody\<close> is documented to panic on a malformed value, but the ten-byte tag
  \<open>2 ^ 64 - 9\<close> makes it return an empty slice and leave the iterator where it was: the signed
  sum of tag size and body length is 0, a valid slice bound. A loop over it never ends.
\<close>

theorem next_tag_and_body_no_progress:
  "Iter_NextTagAndBody (put_uvarint (- 9) @ rest) = Inr ([], put_uvarint (- 9) @ rest)"
proof -
  have "length (put_uvarint (- 9)) = 10" by (simp add: put_uvarint.simps)
  then show ?thesis
    by (simp add: Iter_NextTagAndBody_def Uvarint_put tagIsNull_def tagNull_def tagLength_def)
qed

end
