(* ===== verification/Builder.thy ===== *)
theory Builder
  imports Zcode
begin

text \<open>
  The value builder of \<open>zcode/builder.go\<close>. The source keeps one flat buffer and a stack of body
  offsets and patches the tag of a container when it closes; the specification below keeps one
  buffer per open container and appends a closed container to its parent as an ordinary value.
  A simulation relates the two, and a whole nested value built by calls in order is the nested
  encoding of the value.
\<close>

subsection \<open>The code\<close>

record builder =
  bbytes :: zbytes
  containers :: "nat list"

definition NewBuilder :: builder where
  "NewBuilder = \<lparr>bbytes = None, containers = []\<rparr>"

definition Builder_Reset :: "builder \<Rightarrow> builder" where
  "Builder_Reset b = b\<lparr>bbytes := None, containers := []\<rparr>"

definition Builder_Truncate :: "builder \<Rightarrow> builder" where
  "Builder_Truncate b = b\<lparr>bbytes := map_option (take 0) (bbytes b), containers := []\<rparr>"

text \<open>
  \<open>slices.Grow\<close> panics on a negative count and otherwise changes capacity only, except that
  growing a nil slice by a positive count allocates it.
\<close>

definition Builder_Grow :: "int \<Rightarrow> builder \<Rightarrow> zpanic + builder" where
  "Builder_Grow n b =
     (if n < 0 then Inl SliceBounds
      else if bbytes b = None \<and> n > 0 then Inr (b\<lparr>bbytes := Some []\<rparr>)
      else Inr b)"

definition BeginContainer :: "builder \<Rightarrow> builder" where
  "BeginContainer b =
     (let bs = slice_bytes (bbytes b) @ [0]
      in b\<lparr>bbytes := Some bs, containers := containers b @ [length bs]\<rparr>)"

text \<open>\<open>binary.PutUvarint\<close> writes at the front of the buffer and panics when it does not fit.\<close>

definition PutUvarint :: "bytes \<Rightarrow> u64 \<Rightarrow> zpanic + (bytes \<times> nat)" where
  "PutUvarint buf x =
     (let t = put_uvarint x
      in if length t \<le> length buf then Inr (t @ drop (length t) buf, length t) else Inl IndexRange)"

definition EndContainer :: "builder \<Rightarrow> zpanic + builder" where
  "EndContainer b =
     (if containers b = [] then Inl IndexRange
      else
        let bs = slice_bytes (bbytes b);
            bodyOff = last (containers b);
            cs = butlast (containers b);
            tag = toTag (length bs - bodyOff);
            tagSize = SizeOfUvarint tag;
            tagOff = bodyOff - 1;
            bs' = (if tagSize > 1 then take (tagOff + tagSize) bs @ drop bodyOff bs else bs)
        in res_bind (PutUvarint (drop tagOff bs') tag) (\<lambda>(w, n).
             if n \<noteq> tagSize then Inl BadContainerTagSize
             else Inr (b\<lparr>bbytes := Some (take tagOff bs' @ w), containers := cs\<rparr>)))"

definition TransformContainer :: "(bytes \<Rightarrow> zbytes) \<Rightarrow> builder \<Rightarrow> zpanic + builder" where
  "TransformContainer transform b =
     (if containers b = [] then Inl IndexRange
      else
        let bs = slice_bytes (bbytes b);
            bodyOff = last (containers b);
            body = transform (drop bodyOff bs)
        in Inr (b\<lparr>bbytes := Some (take bodyOff bs @ slice_bytes body)\<rparr>))"

definition Builder_Append :: "zbytes \<Rightarrow> builder \<Rightarrow> builder" where
  "Builder_Append v b = b\<lparr>bbytes := Some (Append (slice_bytes (bbytes b)) v)\<rparr>"

definition Builder_Bytes :: "builder \<Rightarrow> zpanic + zbytes" where
  "Builder_Bytes b = (if containers b \<noteq> [] then Inl OpenContainer else Inr (bbytes b))"

datatype bop = Begin | End | App zbytes | Transform "bytes \<Rightarrow> zbytes"

fun builder_step :: "bop \<Rightarrow> builder \<Rightarrow> zpanic + builder" where
  "builder_step Begin b = Inr (BeginContainer b)"
| "builder_step End b = EndContainer b"
| "builder_step (App v) b = Inr (Builder_Append v b)"
| "builder_step (Transform f) b = TransformContainer f b"

fun builder_run :: "bop list \<Rightarrow> builder \<Rightarrow> zpanic + builder" where
  "builder_run [] b = Inr b"
| "builder_run (p # ps) b = res_bind (builder_step p b) (builder_run ps)"

subsection \<open>The specification: one buffer per open container\<close>

text \<open>The innermost container comes first; the last frame is the top level.\<close>

type_synonym frames = "bytes list"

fun spec_step :: "bop \<Rightarrow> frames \<Rightarrow> zpanic + frames" where
  "spec_step Begin fs = Inr ([] # fs)"
| "spec_step End (f # g # fs) = Inr ((g @ Append [] (Some f)) # fs)"
| "spec_step End fs = Inl IndexRange"
| "spec_step (App v) (f # fs) = Inr ((f @ Append [] v) # fs)"
| "spec_step (App v) [] = Inl IndexRange"
| "spec_step (Transform t) (f # g # fs) = Inr (slice_bytes (t f) # g # fs)"
| "spec_step (Transform t) fs = Inl IndexRange"

fun spec_run :: "bop list \<Rightarrow> frames \<Rightarrow> zpanic + frames" where
  "spec_run [] fs = Inr fs"
| "spec_run (p # ps) fs = res_bind (spec_step p fs) (spec_run ps)"

text \<open>The flat layout of the frames: each open container starts with one reserved tag byte.\<close>

fun layout :: "frames \<Rightarrow> bytes" where
  "layout [] = []"
| "layout [f] = f"
| "layout (f # fs) = layout fs @ 0 # f"

fun offsets :: "frames \<Rightarrow> nat list" where
  "offsets (f # g # fs) = offsets (g # fs) @ [length (layout (g # fs)) + 1]"
| "offsets _ = []"

text \<open>
  A flat layout is related to frames. Nothing is said of the reserved byte: only the offsets
  and the bytes around it matter.
\<close>

inductive brel :: "builder \<Rightarrow> frames \<Rightarrow> bool" where
  brelI: "fs \<noteq> [] \<Longrightarrow> slice_bytes (bbytes b) = layout fs \<Longrightarrow> containers b = offsets fs \<Longrightarrow> brel b fs"

inductive_simps brel_iff: "brel b fs"

lemma layout_Cons: "fs \<noteq> [] \<Longrightarrow> layout (f # fs) = layout fs @ 0 # f"
  by (cases fs) auto

lemma offsets_Cons: "fs \<noteq> [] \<Longrightarrow> offsets (f # fs) = offsets fs @ [length (layout fs) + 1]"
  by (cases fs) auto

lemma layout_snoc: "layout ((f @ x) # fs) = layout (f # fs) @ x"
  by (cases fs) auto

lemma offsets_head: "offsets (f # fs) = offsets (f' # fs)"
  by (cases fs) auto

lemma length_frame_le_layout: "f \<in> set fs \<Longrightarrow> length f \<le> length (layout fs)"
  by (induction fs rule: layout.induct) auto

lemma brel_New: "brel NewBuilder [[]]"
  by (simp add: brel_iff NewBuilder_def)

lemma brel_Begin: "brel b fs \<Longrightarrow> brel (BeginContainer b) ([] # fs)"
  by (simp add: brel_iff BeginContainer_def layout_Cons offsets_Cons Let_def)

lemma brel_Append: "brel b (f # fs) \<Longrightarrow> brel (Builder_Append v b) ((f @ Append [] v) # fs)"
  using layout_snoc [of f "Append [] v" fs] offsets_head [of "f @ Append [] v" fs f]
  by (auto simp: brel_iff Builder_Append_def Append_append [of "layout (f # fs)"])

lemma brel_Transform:
  "brel b (f # g # fs) \<Longrightarrow> \<exists>b'. TransformContainer t b = Inr b' \<and> brel b' (slice_bytes (t f) # g # fs)"
  by (auto simp: brel_iff TransformContainer_def Let_def)

text \<open>Closing a container: the reserved byte and the body become the tagged body.\<close>

lemma length_tag_le:
  assumes "length f < 2 ^ 63"
  shows "length (put_uvarint (toTag (length f))) \<le> Suc (length f)"
proof (cases "toTag (length f) < 0x80")
  case True
  then show ?thesis by (simp add: put_uvarint.simps [of "toTag (length f)"])
next
  case False
  then have "128 \<le> unat (toTag (length f))" by (simp add: word_less_nat_alt)
  then have "127 \<le> length f" using unat_toTag [OF assms] by simp
  then show ?thesis using length_put_uvarint_le [of "toTag (length f)"] by simp
qed

lemma EndContainer_eq:
  assumes bs: "slice_bytes (bbytes b) = pre @ z # f"
    and cs: "containers b = cs @ [length pre + 1]"
    and len: "length f < 2 ^ 63"
  shows "EndContainer b = Inr (b\<lparr>bbytes := Some (pre @ Append [] (Some f)), containers := cs\<rparr>)"
proof -
  define t where "t = put_uvarint (toTag (length f))"
  have size: "SizeOfUvarint (toTag (length f)) = length t" by (simp add: t_def SizeOfUvarint_length)
  have long: "length t \<le> Suc (length f)" unfolding t_def by (rule length_tag_le [OF len])
  have pos: "0 < length t" by (simp add: t_def)
  have put: "PutUvarint buf (toTag (length f)) = Inr (t @ drop (length t) buf, length t)"
    if "length t \<le> length buf" for buf
    using that by (simp add: PutUvarint_def t_def Let_def)
  have app: "Append [] (Some f) = t @ f" by (simp add: t_def Append_Nil)
  show ?thesis
  proof (cases "1 < length t")
    case True
    have "take (length pre + length t) (pre @ z # f) = pre @ take (length t) (z # f)" by simp
    moreover have "length t \<le> length (take (length t) (z # f) @ f)" using long by simp
    moreover have "drop (length t) (take (length t) (z # f) @ f) = f" using long by simp
    ultimately show ?thesis
      using True put [of "take (length t) (z # f) @ f"]
      by (simp add: EndContainer_def Let_def bs cs size app)
  next
    case False
    then have "length t = 1" using pos by linarith
    then show ?thesis
      using put [of "z # f"] by (simp add: EndContainer_def Let_def bs cs size app)
  qed
qed

lemma brel_End:
  assumes "brel b (f # g # fs)" and "length f < 2 ^ 63"
  shows "\<exists>b'. EndContainer b = Inr b' \<and> brel b' ((g @ Append [] (Some f)) # fs)"
proof -
  have "slice_bytes (bbytes b) = layout (g # fs) @ 0 # f"
    "containers b = offsets (g # fs) @ [length (layout (g # fs)) + 1]"
    using assms(1) by (auto simp: brel_iff)
  from EndContainer_eq [OF this assms(2)] show ?thesis
    using layout_snoc [of g "Append [] (Some f)" fs] offsets_head [of "g @ Append [] (Some f)" fs g]
    by (simp add: brel_iff)
qed

text \<open>One step and whole runs: the buffer follows the frames, panics included.\<close>

definition frames_fit :: "frames \<Rightarrow> bool" where
  "frames_fit fs \<longleftrightarrow> (\<forall>f\<in>set fs. length f < 2 ^ 63)"

lemma builder_step_refines:
  assumes "brel b fs" and "frames_fit fs"
  shows "case spec_step p fs of Inl e \<Rightarrow> builder_step p b = Inl e
    | Inr fs' \<Rightarrow> \<exists>b'. builder_step p b = Inr b' \<and> brel b' fs'"
proof -
  obtain f fs1 where fs: "fs = f # fs1" using assms(1) by (cases fs) (auto simp: brel_iff)
  show ?thesis
  proof (cases p)
    case Begin
    then show ?thesis using brel_Begin [OF assms(1)] by simp
  next
    case End
    show ?thesis
    proof (cases fs1)
      case Nil
      then show ?thesis using assms(1) fs End by (simp add: brel_iff EndContainer_def)
    next
      case (Cons g fs2)
      then show ?thesis
        using brel_End [of b f g fs2] assms fs End by (simp add: frames_fit_def)
    qed
  next
    case (App v)
    then show ?thesis using brel_Append [of b f fs1 v] assms(1) fs by simp
  next
    case (Transform t)
    show ?thesis
    proof (cases fs1)
      case Nil
      then show ?thesis using assms(1) fs Transform by (simp add: brel_iff TransformContainer_def)
    next
      case (Cons g fs2)
      then show ?thesis using brel_Transform [of b f g fs2 t] assms(1) fs Transform by simp
    qed
  qed
qed

fun run_fits :: "bop list \<Rightarrow> frames \<Rightarrow> bool" where
  "run_fits [] fs = True"
| "run_fits (p # ps) fs =
     (frames_fit fs \<and> (case spec_step p fs of Inl _ \<Rightarrow> True | Inr fs' \<Rightarrow> run_fits ps fs'))"

lemma builder_run_refines:
  assumes "brel b fs" and "run_fits ps fs"
  shows "case spec_run ps fs of Inl e \<Rightarrow> builder_run ps b = Inl e
    | Inr fs' \<Rightarrow> \<exists>b'. builder_run ps b = Inr b' \<and> brel b' fs'"
  using assms
proof (induction ps arbitrary: b fs)
  case (Cons p ps)
  have "frames_fit fs" using Cons.prems(2) by simp
  note step = builder_step_refines [OF Cons.prems(1) this, of p]
  show ?case
  proof (cases "spec_step p fs")
    case (Inl e)
    then show ?thesis using step by simp
  next
    case (Inr fs')
    then obtain b' where "builder_step p b = Inr b'" "brel b' fs'" using step by auto
    then show ?thesis using Cons.IH [of b' fs'] Cons.prems(2) Inr by (auto split: sum.splits)
  qed
qed simp

subsection \<open>Nested values\<close>

datatype ztree = ZLeaf zbytes | ZNode "ztree list"

fun tree_bytes :: "ztree \<Rightarrow> bytes" where
  "tree_bytes (ZLeaf v) = Append [] v"
| "tree_bytes (ZNode ts) = Append [] (Some (concat (map tree_bytes ts)))"

fun tree_ops :: "ztree \<Rightarrow> bop list" where
  "tree_ops (ZLeaf v) = [App v]"
| "tree_ops (ZNode ts) = Begin # concat (map tree_ops ts) @ [End]"

lemma builder_run_append: "builder_run (ps @ qs) b = res_bind (builder_run ps b) (builder_run qs)"
proof (induction ps arbitrary: b)
  case (Cons p ps)
  then show ?case by (cases "builder_step p b") auto
qed simp

lemma length_concat_ge: "x \<in> set xs \<Longrightarrow> length x \<le> length (concat xs)"
  by (induction xs) auto

lemma builder_run_tree:
  assumes "brel b (f # fs)" and "length (tree_bytes t) < 2 ^ 63"
  shows "\<exists>b'. builder_run (tree_ops t) b = Inr b' \<and> brel b' ((f @ tree_bytes t) # fs)"
  using assms
proof (induction t arbitrary: b f fs)
  case (ZLeaf v)
  then show ?case using brel_Append by simp
next
  case (ZNode ts)
  let ?body = "concat (map tree_bytes ts)"
  have len: "length ?body < 2 ^ 63" using ZNode.prems(2) by (simp add: Append_Nil)
  have loop: "\<exists>b'. builder_run (concat (map tree_ops us)) b = Inr b'
      \<and> brel b' ((h @ concat (map tree_bytes us)) # hs)"
    if "brel b (h # hs)" "set us \<subseteq> set ts" for us b h hs
    using that
  proof (induction us arbitrary: b h)
    case (Cons u us)
    have "length (tree_bytes u) \<le> length ?body" using Cons.prems(2) by (intro length_concat_ge) auto
    then obtain b1 where "builder_run (tree_ops u) b = Inr b1" "brel b1 ((h @ tree_bytes u) # hs)"
      using ZNode.IH [of u] Cons.prems len by (meson le_less_trans list.set_intros(1) subsetD)
    then show ?case using Cons.IH [of b1 "h @ tree_bytes u"] Cons.prems(2)
      by (simp add: builder_run_append)
  qed simp
  have "brel (BeginContainer b) ([] # f # fs)" by (rule brel_Begin [OF ZNode.prems(1)])
  from loop [OF this order_refl]
  obtain b1 where b1: "builder_run (concat (map tree_ops ts)) (BeginContainer b) = Inr b1"
    and "brel b1 (?body # f # fs)" by auto
  from brel_End [OF this(2) len] show ?case
    using b1 by (auto simp: builder_run_append)
qed

subsection \<open>Properties\<close>

text \<open>
  Building a nested value by opening a container, appending its parts in order and closing
  it yields the nested encoding of the value: each container is its tag, sized by what was put
  into it and moved over when it needs more than the one reserved byte, followed by its parts.
\<close>

theorem builder_builds_tree:
  assumes "fits (tree_bytes t)"
  shows "\<exists>b. builder_run (tree_ops t) NewBuilder = Inr b \<and> Builder_Bytes b = Inr (Some (tree_bytes t))"
proof -
  obtain b where b: "builder_run (tree_ops t) NewBuilder = Inr b" "brel b [[] @ tree_bytes t]"
    using builder_run_tree [OF brel_New] assms by (auto simp: fits_def)
  have "tree_bytes t \<noteq> []" by (cases t) simp_all
  then have "bbytes b = Some (tree_bytes t)"
    using b(2) by (cases "bbytes b") (simp_all add: brel_iff)
  then show ?thesis using b by (simp add: brel_iff Builder_Bytes_def)
qed

theorem builder_builds_tree_witness:
  "\<exists>b. builder_run [Begin, App None, Begin, App (Some [1]), End, End] NewBuilder = Inr b \<and>
     Builder_Bytes b = Inr (Some [5, 0, 3, 2, 1])"
  using builder_builds_tree [of "ZNode [ZLeaf None, ZNode [ZLeaf (Some [1])]]"]
  by (simp add: fits_def Append_Nil toTag_def put_uvarint.simps)

text \<open>
  C15: any sequence of calls of \<open>Append\<close>, \<open>BeginContainer\<close>, \<open>EndContainer\<close>, \<open>TransformContainer\<close> follows the specification with one buffer per open
  container: it panics exactly when the specification does (closing or transforming with no
  container open), and otherwise buffer and offset stack are the flat layout of the frames.
\<close>

theorem builder_refines_frames:
  assumes "run_fits ps [[]]"
  shows "case spec_run ps [[]] of Inl e \<Rightarrow> builder_run ps NewBuilder = Inl e
    | Inr fs \<Rightarrow> \<exists>b. builder_run ps NewBuilder = Inr b \<and>
        slice_bytes (bbytes b) = layout fs \<and> containers b = offsets fs"
  using builder_run_refines [OF brel_New assms] by (auto simp: brel_iff split: sum.splits)

theorem builder_refines_frames_witness:
  "builder_run [Begin, App (Some [1]), End, End] NewBuilder = Inl IndexRange"
  using builder_refines_frames [of "[Begin, App (Some [1]), End, End]"]
  by (simp add: frames_fit_def Append_Nil toTag_def put_uvarint.simps)

end
