(* ===== verification/Primitive.thy ===== *)
theory Primitive
  imports Builder
begin

text \<open>
  Encodings of the primitive values (\<open>primitive.go\<close>): booleans, integers, times and durations,
  floats as their IEEE bit patterns, strings, IP addresses and networks. An address is the byte
  slice \<open>netip.Addr.AsSlice\<close> gives for it, of length 4 or 16 and empty for the zero address;
  zones do not occur in the encodings.
\<close>

datatype prim_panic = IndexPanic | DecodeIPPanic | BadSliceLength nat | DecodeNetPanic | FloatPanic

subsection \<open>Booleans, integers, strings, times\<close>

definition AppendBool :: "bytes \<Rightarrow> bool \<Rightarrow> bytes" where
  "AppendBool zb b = zb @ [if b then 1 else 0]"

definition EncodeBool :: "bool \<Rightarrow> bytes" where
  "EncodeBool b = AppendBool [] b"

definition DecodeBool :: "zbytes \<Rightarrow> prim_panic + bool" where
  "DecodeBool zv = (case zv of None \<Rightarrow> Inr False
     | Some [] \<Rightarrow> Inl IndexPanic
     | Some (b # _) \<Rightarrow> Inr (b \<noteq> 0))"

definition EncodeBytes :: "zbytes \<Rightarrow> zbytes" where
  "EncodeBytes b = b"

definition DecodeBytes :: "zbytes \<Rightarrow> zbytes" where
  "DecodeBytes zv = zv"

definition EncodeString :: "gostring \<Rightarrow> zbytes" where
  "EncodeString s = Some s"

definition DecodeString :: "zbytes \<Rightarrow> gostring" where
  "DecodeString zv = slice_bytes zv"

definition EncodeInt :: "u64 \<Rightarrow> zpanic + bytes" where
  "EncodeInt i = res_bind (EncodeCountedVarint (replicate 8 0) i) (\<lambda>(b, n). Inr (take n b))"

definition AppendInt :: "zbytes \<Rightarrow> u64 \<Rightarrow> zbytes" where
  "AppendInt b i = AppendCountedVarint b i"

definition EncodeUint :: "u64 \<Rightarrow> zpanic + bytes" where
  "EncodeUint i = res_bind (EncodeCountedUvarint (replicate 8 0) i) (\<lambda>(b, n). Inr (take n b))"

definition AppendUint :: "zbytes \<Rightarrow> u64 \<Rightarrow> zbytes" where
  "AppendUint b i = AppendCountedUvarint b i"

definition DecodeInt :: "zbytes \<Rightarrow> u64" where
  "DecodeInt zv = DecodeCountedVarint (slice_bytes zv)"

definition DecodeUint :: "zbytes \<Rightarrow> u64" where
  "DecodeUint zv = DecodeCountedUvarint (slice_bytes zv)"

definition EncodeDuration :: "u64 \<Rightarrow> zpanic + bytes" where
  "EncodeDuration d = EncodeInt d"

definition AppendDuration :: "zbytes \<Rightarrow> u64 \<Rightarrow> zbytes" where
  "AppendDuration b d = AppendInt b d"

definition DecodeDuration :: "zbytes \<Rightarrow> u64" where
  "DecodeDuration zv = DecodeInt zv"

definition EncodeTime :: "u64 \<Rightarrow> zpanic + bytes" where
  "EncodeTime t = res_bind (EncodeCountedVarint (replicate 8 0) t) (\<lambda>(b, n). Inr (take n b))"

definition AppendTime :: "zbytes \<Rightarrow> u64 \<Rightarrow> zbytes" where
  "AppendTime b t = AppendInt b t"

definition DecodeTime :: "zbytes \<Rightarrow> u64" where
  "DecodeTime zv = DecodeCountedVarint (slice_bytes zv)"

subsection \<open>Floats as bit patterns\<close>

definition AppendFloat32 :: "bytes \<Rightarrow> u32 \<Rightarrow> bytes" where
  "AppendFloat32 zb f = zb @ le_bytes 4 f"

definition EncodeFloat32 :: "u32 \<Rightarrow> bytes" where
  "EncodeFloat32 d = AppendFloat32 [] d"

definition DecodeFloat32 :: "zbytes \<Rightarrow> prim_panic + u32" where
  "DecodeFloat32 zb = (case zb of None \<Rightarrow> Inr 0
     | Some b \<Rightarrow> if length b < 4 then Inl IndexPanic else Inr (le_word (take 4 b)))"

definition AppendFloat64 :: "bytes \<Rightarrow> u64 \<Rightarrow> bytes" where
  "AppendFloat64 zb d = zb @ le_bytes 8 d"

definition EncodeFloat64 :: "u64 \<Rightarrow> bytes" where
  "EncodeFloat64 d = AppendFloat64 [] d"

definition DecodeFloat64 :: "zbytes \<Rightarrow> prim_panic + u64" where
  "DecodeFloat64 zv = (case zv of None \<Rightarrow> Inr 0
     | Some b \<Rightarrow> if length b < 8 then Inl IndexPanic else Inr (le_word (take 8 b)))"

subsection \<open>IP addresses and networks\<close>

type_synonym addr = bytes

definition AppendIP :: "bytes \<Rightarrow> addr \<Rightarrow> bytes" where
  "AppendIP zb a = zb @ a"

definition EncodeIP :: "addr \<Rightarrow> zbytes" where
  "EncodeIP a = (if a = [] then None else Some (AppendIP [] a))"

text \<open>\<open>netip.Addr.UnmarshalBinary\<close> takes 0, 4 or 16 bytes, and more than 16 with a zone, which is dropped here.\<close>

definition DecodeIP :: "zbytes \<Rightarrow> prim_panic + addr" where
  "DecodeIP zv = (let b = slice_bytes zv in
     if length b = 0 \<or> length b = 4 then Inr b
     else if 16 \<le> length b then Inr (take 16 b)
     else Inl DecodeIPPanic)"

text \<open>
  \<open>netip.Prefix\<close>: address and bit count, -1 for an invalid prefix. \<open>Masked\<close> clears the bits
  after the prefix and returns the zero prefix for an invalid one.
\<close>

record netprefix =
  paddr :: addr
  pbits :: int

definition zero_prefix :: netprefix where
  "zero_prefix = \<lparr>paddr = [], pbits = -1\<rparr>"

definition PrefixFrom :: "addr \<Rightarrow> int \<Rightarrow> netprefix" where
  "PrefixFrom a bits = \<lparr>paddr = a,
     pbits = (if a \<noteq> [] \<and> 0 \<le> bits \<and> bits \<le> 8 * int (length a) then bits else -1)\<rparr>"

definition top_ones :: "nat \<Rightarrow> u8" where
  "top_ones k = push_bit (8 - k) 0xff"

fun mask_addr :: "nat \<Rightarrow> addr \<Rightarrow> addr" where
  "mask_addr k [] = []"
| "mask_addr k (b # bs) = (b AND top_ones (min k 8)) # mask_addr (k - 8) bs"

definition prefix_Masked :: "netprefix \<Rightarrow> netprefix" where
  "prefix_Masked p =
     (if paddr p \<noteq> [] \<and> 0 \<le> pbits p \<and> pbits p \<le> 8 * int (length (paddr p))
      then \<lparr>paddr = mask_addr (nat (pbits p)) (paddr p), pbits = pbits p\<rparr>
      else zero_prefix)"

definition ones :: bytes where
  "ones = replicate 16 0xff"

definition AppendNet :: "bytes \<Rightarrow> netprefix \<Rightarrow> prim_panic + bytes" where
  "AppendNet zb p =
     (let p = prefix_Masked p;
          zb = zb @ paddr p;
          len = 8 * length (paddr p) div 8
      in if len \<noteq> 4 \<and> len \<noteq> 16 then Inl (BadSliceLength len)
         else Inr (zb @ paddr (prefix_Masked (PrefixFrom (take len ones) (pbits p)))))"

definition EncodeNet :: "netprefix \<Rightarrow> prim_panic + bytes" where
  "EncodeNet p = AppendNet [] p"

definition LeadingZeros8 :: "u8 \<Rightarrow> nat" where
  "LeadingZeros8 x = length (takeWhile (\<lambda>i. \<not> bit x i) [7, 6, 5, 4, 3, 2, 1, 0])"

fun LeadingOnes :: "bytes \<Rightarrow> nat" where
  "LeadingOnes [] = 0"
| "LeadingOnes (b # bs) = LeadingZeros8 (b XOR 0xff) + (if b \<noteq> 0xff then 0 else LeadingOnes bs)"

definition DecodeNet :: "zbytes \<Rightarrow> prim_panic + netprefix" where
  "DecodeNet zv = (case zv of None \<Rightarrow> Inr zero_prefix
     | Some b \<Rightarrow>
         let a = take (length b div 2) b in
         if length a \<noteq> 4 \<and> length a \<noteq> 16 then Inl DecodeNetPanic
         else Inr (PrefixFrom a (int (LeadingOnes (drop (length b div 2) b)))))"

subsection \<open>Lemmas\<close>

lemma EncodeInt_eq: "EncodeInt i = Inr (counted_bytes (zigzag i))"
  by (simp add: EncodeInt_def EncodeCountedVarint_def EncodeCountedUvarint_8)

lemma EncodeTime_eq: "EncodeTime i = Inr (counted_bytes (zigzag i))"
  by (simp add: EncodeTime_def EncodeCountedVarint_def EncodeCountedUvarint_8)

lemma EncodeUint_eq: "EncodeUint i = Inr (counted_bytes i)"
  by (simp add: EncodeUint_def EncodeCountedUvarint_8)

lemma DecodeInt_counted [codec_simps]: "DecodeInt (Some (counted_bytes (zigzag i))) = i"
  by (simp add: DecodeInt_def DecodeCountedVarint_eq le_word_counted_bytes)

lemma length_mask_addr [simp]: "length (mask_addr k a) = length a"
  by (induction k a rule: mask_addr.induct) auto

lemma top_ones_8: "top_ones 8 = 0xff"
  by (simp add: top_ones_def)

lemma LeadingOnes_top_ones:
  assumes "k \<le> 8"
  shows "LeadingZeros8 (top_ones k XOR 0xff) = k" and "top_ones k = 0xff \<longleftrightarrow> k = 8"
proof -
  have "\<forall>k\<in>set [0..<9]. LeadingZeros8 (top_ones k XOR 0xff) = k \<and> (top_ones k = 0xff \<longleftrightarrow> k = 8)"
    by code_simp
  moreover have "k \<in> set [0..<9]" using assms by simp
  ultimately show "LeadingZeros8 (top_ones k XOR 0xff) = k" "top_ones k = 0xff \<longleftrightarrow> k = 8"
    by blast+
qed

lemma LeadingOnes_mask:
  "k \<le> 8 * n \<Longrightarrow> LeadingOnes (mask_addr k (replicate n 0xff)) = k"
proof (induction n arbitrary: k)
  case (Suc n)
  have and_ones: "(0xff :: u8) AND x = x" for x
  proof -
    have m1: "(0xff :: u8) = - 1" by simp
    show ?thesis unfolding m1 by (rule and.left_neutral)
  qed
  show ?case
  proof (cases "k \<le> 8")
    case True
    have "LeadingOnes (mask_addr 0 (replicate n 0xff)) = 0" using Suc.IH [of 0] by simp
    then show ?thesis using True LeadingOnes_top_ones [OF True] by (simp add: and_ones min_def)
  next
    case False
    then show ?thesis
      using Suc LeadingOnes_top_ones [of 8] by (simp add: and_ones top_ones_8)
  qed
qed simp

subsection \<open>Properties\<close>

text \<open>
  The primitive encodings round trip: booleans, signed and unsigned integers, times,
  durations and the bit patterns of 32-bit and 64-bit floats decode to what was encoded, and
  the integer encoders never run out of their 8-byte buffer.
\<close>

theorem primitive_roundtrips:
  "DecodeBool (Some (EncodeBool b)) = Inr b \<and>
   (\<exists>e. EncodeInt i = Inr e \<and> length e \<le> 8 \<and> DecodeInt (Some e) = i) \<and>
   (\<exists>e. EncodeUint u = Inr e \<and> length e \<le> 8 \<and> DecodeUint (Some e) = u) \<and>
   (\<exists>e. EncodeTime t = Inr e \<and> DecodeTime (Some e) = t) \<and>
   (\<exists>e. EncodeDuration d = Inr e \<and> DecodeDuration (Some e) = d) \<and>
   DecodeFloat32 (Some (EncodeFloat32 f)) = Inr f \<and>
   DecodeFloat64 (Some (EncodeFloat64 g)) = Inr g"
proof -
  have "DecodeBool (Some (EncodeBool b)) = Inr b"
    by (simp add: DecodeBool_def EncodeBool_def AppendBool_def)
  moreover have "DecodeUint (Some (counted_bytes u)) = u"
    by (simp add: DecodeUint_def DecodeCountedUvarint_le_word le_word_counted_bytes)
  moreover have "DecodeTime (Some (counted_bytes (zigzag t))) = t"
    by (simp add: DecodeTime_def DecodeCountedVarint_eq le_word_counted_bytes)
  moreover have "DecodeFloat32 (Some (EncodeFloat32 f)) = Inr f"
    by (simp add: DecodeFloat32_def EncodeFloat32_def AppendFloat32_def le_word_le_bytes take_bit_word_eq_self)
  moreover have "DecodeFloat64 (Some (EncodeFloat64 g)) = Inr g"
    by (simp add: DecodeFloat64_def EncodeFloat64_def AppendFloat64_def le_word_le_bytes take_bit_word_eq_self)
  ultimately show ?thesis
    by (simp add: EncodeInt_eq EncodeUint_eq EncodeTime_eq EncodeDuration_def DecodeDuration_def DecodeInt_counted)
qed

text \<open>
  a valid network prefix of an IPv4 or IPv6 address is encoded as its masked address
  followed by its mask and decodes to the masked prefix: address bits beyond the prefix length
  are cleared and the length is recovered by counting the leading ones of the mask.
\<close>

theorem net_roundtrip:
  assumes "length (paddr p) = 4 \<or> length (paddr p) = 16"
    and "0 \<le> pbits p" and "pbits p \<le> 8 * int (length (paddr p))"
  shows "\<exists>e. EncodeNet p = Inr e \<and> DecodeNet (Some e) = Inr (prefix_Masked p)"
proof -
  let ?n = "length (paddr p)" and ?k = "nat (pbits p)"
  have ne: "paddr p \<noteq> []" using assms(1) by auto
  have valid: "prefix_Masked p = \<lparr>paddr = mask_addr ?k (paddr p), pbits = pbits p\<rparr>"
    using ne assms by (simp add: prefix_Masked_def)
  have take_ones: "take ?n ones = replicate ?n 0xff" using assms(1) by (auto simp: ones_def)
  have n0: "replicate ?n (0xff :: u8) \<noteq> []" using ne by simp
  have mask: "paddr (prefix_Masked (PrefixFrom (take ?n ones) (pbits p))) = mask_addr ?k (replicate ?n 0xff)"
    using ne assms n0 by (simp add: take_ones PrefixFrom_def prefix_Masked_def)
  let ?e = "mask_addr ?k (paddr p) @ mask_addr ?k (replicate ?n 0xff)"
  have enc: "EncodeNet p = Inr ?e"
    using assms(1) mask by (auto simp: EncodeNet_def AppendNet_def Let_def valid)
  have half: "length ?e div 2 = ?n" by simp
  have "LeadingOnes (mask_addr ?k (replicate ?n 0xff)) = ?k"
    by (rule LeadingOnes_mask) (use assms(2,3) in simp)
  moreover have "mask_addr ?k (paddr p) \<noteq> []" using ne by (metis length_mask_addr length_0_conv)
  moreover have "take ?n ?e = mask_addr ?k (paddr p)" "drop ?n ?e = mask_addr ?k (replicate ?n 0xff)"
    by simp_all
  ultimately have "DecodeNet (Some ?e) = Inr (prefix_Masked p)"
    using assms unfolding DecodeNet_def option.case Let_def half
    by (simp add: PrefixFrom_def valid)
  with enc show ?thesis by blast
qed

theorem net_roundtrip_witness:
  "\<exists>e. EncodeNet \<lparr>paddr = [10, 1, 2, 3], pbits = 15\<rparr> = Inr e \<and>
     DecodeNet (Some e) = Inr (prefix_Masked \<lparr>paddr = [10, 1, 2, 3], pbits = 15\<rparr>)"
  by (rule net_roundtrip) simp_all

end
