(* ===== verification/Types.thy ===== *)
theory Types
  imports Primitive
begin

text \<open>
  The types of the super data model (\<open>type.go\<close>, \<open>complex.go\<close>). A Go type is a pointer to a
  struct that carries its identifier; the model keeps the identifiers in the constructors, so that
  within one type context pointer equality is equality of the modelled types.
\<close>

subsection \<open>Types, identifiers and kinds\<close>

datatype prim =
    TypeUint8 | TypeUint16 | TypeUint32 | TypeUint64
  | TypeInt8 | TypeInt16 | TypeInt32 | TypeInt64
  | TypeDuration | TypeTime | TypeFloat16 | TypeFloat32 | TypeFloat64
  | TypeBool | TypeBytes | TypeString | TypeIP | TypeNet | TypeType | TypeNull

datatype ztype =
    TypePrim prim
  | TypeRecord nat "(gostring \<times> ztype) list"
  | TypeArray nat ztype
  | TypeSet nat ztype
  | TypeMap nat ztype ztype
  | TypeUnion nat "ztype list"
  | TypeEnum nat "gostring list"
  | TypeError nat ztype
  | TypeNamed nat gostring ztype

type_synonym field = "gostring \<times> ztype"

datatype kind =
  PrimitiveKind | RecordKind | ArrayKind | SetKind | MapKind | UnionKind | EnumKind | ErrorKind

fun kind_num :: "kind \<Rightarrow> nat" where
  "kind_num PrimitiveKind = 0"
| "kind_num RecordKind = 1"
| "kind_num ArrayKind = 2"
| "kind_num SetKind = 3"
| "kind_num MapKind = 4"
| "kind_num UnionKind = 5"
| "kind_num EnumKind = 6"
| "kind_num ErrorKind = 7"

fun Kind_String :: "kind \<Rightarrow> gostring" where
  "Kind_String PrimitiveKind = str ''primitive''"
| "Kind_String RecordKind = str ''record''"
| "Kind_String ArrayKind = str ''array''"
| "Kind_String SetKind = str ''set''"
| "Kind_String MapKind = str ''map''"
| "Kind_String UnionKind = str ''union''"
| "Kind_String EnumKind = str ''enum''"
| "Kind_String ErrorKind = str ''error''"

fun prim_ID :: "prim \<Rightarrow> nat" where
  "prim_ID TypeUint8 = 0"
| "prim_ID TypeUint16 = 1"
| "prim_ID TypeUint32 = 2"
| "prim_ID TypeUint64 = 3"
| "prim_ID TypeInt8 = 6"
| "prim_ID TypeInt16 = 7"
| "prim_ID TypeInt32 = 8"
| "prim_ID TypeInt64 = 9"
| "prim_ID TypeDuration = 12"
| "prim_ID TypeTime = 13"
| "prim_ID TypeFloat16 = 14"
| "prim_ID TypeFloat32 = 15"
| "prim_ID TypeFloat64 = 16"
| "prim_ID TypeBool = 23"
| "prim_ID TypeBytes = 24"
| "prim_ID TypeString = 25"
| "prim_ID TypeIP = 26"
| "prim_ID TypeNet = 27"
| "prim_ID TypeType = 28"
| "prim_ID TypeNull = 29"

definition IDTypeComplex :: nat where "IDTypeComplex = 30"

fun ID :: "ztype \<Rightarrow> nat" where
  "ID (TypePrim p) = prim_ID p"
| "ID (TypeRecord i _) = i"
| "ID (TypeArray i _) = i"
| "ID (TypeSet i _) = i"
| "ID (TypeMap i _ _) = i"
| "ID (TypeUnion i _) = i"
| "ID (TypeEnum i _) = i"
| "ID (TypeError i _) = i"
| "ID (TypeNamed _ _ t) = ID t"

fun Kind :: "ztype \<Rightarrow> kind" where
  "Kind (TypePrim p) = PrimitiveKind"
| "Kind (TypeRecord _ _) = RecordKind"
| "Kind (TypeArray _ _) = ArrayKind"
| "Kind (TypeSet _ _) = SetKind"
| "Kind (TypeMap _ _ _) = MapKind"
| "Kind (TypeUnion _ _) = UnionKind"
| "Kind (TypeEnum _ _) = EnumKind"
| "Kind (TypeError _ _) = ErrorKind"
| "Kind (TypeNamed _ _ t) = Kind t"

fun TypeUnder :: "ztype \<Rightarrow> ztype" where
  "TypeUnder (TypeNamed _ _ t) = TypeUnder t"
| "TypeUnder t = t"

definition TypeID :: "ztype \<Rightarrow> nat" where
  "TypeID t = (case t of TypeNamed i _ _ \<Rightarrow> i | _ \<Rightarrow> ID t)"

subsection \<open>Predicates on types\<close>

definition IsInteger :: "int \<Rightarrow> bool" where "IsInteger i \<longleftrightarrow> i \<le> 11"
definition IsNumber :: "int \<Rightarrow> bool" where "IsNumber i \<longleftrightarrow> i \<le> 22"
definition IsFloat :: "int \<Rightarrow> bool" where "IsFloat i \<longleftrightarrow> i \<ge> 14 \<and> i \<le> 18"
definition IsSigned :: "int \<Rightarrow> bool" where "IsSigned i \<longleftrightarrow> i \<ge> 6 \<and> i \<le> 13"
definition IsUnsigned :: "int \<Rightarrow> bool" where "IsUnsigned i \<longleftrightarrow> i \<le> 5"

definition InnerType :: "ztype \<Rightarrow> ztype option" where
  "InnerType t = (case TypeUnder t of TypeSet _ e \<Rightarrow> Some e | TypeArray _ e \<Rightarrow> Some e | _ \<Rightarrow> None)"

definition IsUnionType :: "ztype \<Rightarrow> bool" where
  "IsUnionType t = (case TypeUnder t of TypeUnion _ _ \<Rightarrow> True | _ \<Rightarrow> False)"

definition TypeRecordOf :: "ztype \<Rightarrow> ztype option" where
  "TypeRecordOf t = (case TypeUnder t of TypeRecord i fs \<Rightarrow> Some (TypeRecord i fs) | _ \<Rightarrow> None)"

definition IsRecordType :: "ztype \<Rightarrow> bool" where
  "IsRecordType t = (case TypeUnder t of TypeRecord _ _ \<Rightarrow> True | _ \<Rightarrow> False)"

fun IsContainerType :: "ztype \<Rightarrow> bool" where
  "IsContainerType (TypeNamed _ _ t) = IsContainerType t"
| "IsContainerType (TypeSet _ _) = True"
| "IsContainerType (TypeArray _ _) = True"
| "IsContainerType (TypeRecord _ _) = True"
| "IsContainerType (TypeUnion _ _) = True"
| "IsContainerType (TypeMap _ _ _) = True"
| "IsContainerType _ = False"

definition IsPrimitiveType :: "ztype \<Rightarrow> bool" where
  "IsPrimitiveType t \<longleftrightarrow> \<not> IsContainerType t"

subsection \<open>Primitive types by name and by identifier\<close>

definition all_prims :: "prim list" where
  "all_prims = [TypeUint8, TypeUint16, TypeUint32, TypeUint64, TypeInt8, TypeInt16, TypeInt32,
     TypeInt64, TypeDuration, TypeTime, TypeFloat16, TypeFloat32, TypeFloat64, TypeBool, TypeBytes,
     TypeString, TypeIP, TypeNet, TypeType, TypeNull]"

fun PrimitiveName :: "prim \<Rightarrow> gostring" where
  "PrimitiveName TypeUint8 = str ''uint8''"
| "PrimitiveName TypeUint16 = str ''uint16''"
| "PrimitiveName TypeUint32 = str ''uint32''"
| "PrimitiveName TypeUint64 = str ''uint64''"
| "PrimitiveName TypeInt8 = str ''int8''"
| "PrimitiveName TypeInt16 = str ''int16''"
| "PrimitiveName TypeInt32 = str ''int32''"
| "PrimitiveName TypeInt64 = str ''int64''"
| "PrimitiveName TypeDuration = str ''duration''"
| "PrimitiveName TypeTime = str ''time''"
| "PrimitiveName TypeFloat16 = str ''float16''"
| "PrimitiveName TypeFloat32 = str ''float32''"
| "PrimitiveName TypeFloat64 = str ''float64''"
| "PrimitiveName TypeBool = str ''bool''"
| "PrimitiveName TypeBytes = str ''bytes''"
| "PrimitiveName TypeString = str ''string''"
| "PrimitiveName TypeIP = str ''ip''"
| "PrimitiveName TypeNet = str ''net''"
| "PrimitiveName TypeType = str ''type''"
| "PrimitiveName TypeNull = str ''null''"

definition LookupPrimitive :: "gostring \<Rightarrow> prim option" where
  "LookupPrimitive name =
     (if name = str ''uint8'' then Some TypeUint8
      else if name = str ''uint16'' then Some TypeUint16
      else if name = str ''uint32'' then Some TypeUint32
      else if name = str ''uint64'' then Some TypeUint64
      else if name = str ''int8'' then Some TypeInt8
      else if name = str ''int16'' then Some TypeInt16
      else if name = str ''int32'' then Some TypeInt32
      else if name = str ''int64'' then Some TypeInt64
      else if name = str ''duration'' then Some TypeDuration
      else if name = str ''time'' then Some TypeTime
      else if name = str ''float16'' then Some TypeFloat16
      else if name = str ''float32'' then Some TypeFloat32
      else if name = str ''float64'' then Some TypeFloat64
      else if name = str ''bool'' then Some TypeBool
      else if name = str ''bytes'' then Some TypeBytes
      else if name = str ''string'' then Some TypeString
      else if name = str ''ip'' then Some TypeIP
      else if name = str ''net'' then Some TypeNet
      else if name = str ''type'' then Some TypeType
      else if name = str ''null'' then Some TypeNull
      else None)"

datatype type_error =
    NegativeTypeID int
  | TypeIDTooLarge int
  | NotImplemented int
  | NotInContext int
  | NoTypeFound int
  | DuplicateField gostring
  | BadTypeName gostring
  | BadTypeValue
  | ErrEnumIndex
  | ErrUnionTag

definition LookupPrimitiveByID :: "int \<Rightarrow> type_error + prim" where
  "LookupPrimitiveByID i =
     (if i < 0 then Inl (NegativeTypeID i)
      else if i \<ge> 30 then Inl (TypeIDTooLarge i)
      else if i = 23 then Inr TypeBool
      else if i = 6 then Inr TypeInt8
      else if i = 0 then Inr TypeUint8
      else if i = 7 then Inr TypeInt16
      else if i = 1 then Inr TypeUint16
      else if i = 8 then Inr TypeInt32
      else if i = 2 then Inr TypeUint32
      else if i = 9 then Inr TypeInt64
      else if i = 3 then Inr TypeUint64
      else if i = 14 then Inr TypeFloat16
      else if i = 15 then Inr TypeFloat32
      else if i = 16 then Inr TypeFloat64
      else if i = 24 then Inr TypeBytes
      else if i = 25 then Inr TypeString
      else if i = 26 then Inr TypeIP
      else if i = 27 then Inr TypeNet
      else if i = 13 then Inr TypeTime
      else if i = 12 then Inr TypeDuration
      else if i = 28 then Inr TypeType
      else if i = 29 then Inr TypeNull
      else Inl (NotImplemented i))"

subsection \<open>Records, enums and unions (complex.go)\<close>

text \<open>
  \<open>createLUT\<close> enters each field with its position, a later field overwriting an earlier one of
  the same name. The table is a function of the fields, which never change after construction.
\<close>

fun lut_loop :: "nat \<Rightarrow> 'k list \<Rightarrow> ('k \<rightharpoonup> nat) \<Rightarrow> ('k \<rightharpoonup> nat)" where
  "lut_loop k [] m = m"
| "lut_loop k (x # xs) m = lut_loop (k + 1) xs (m(x \<mapsto> k))"

definition record_LUT :: "field list \<Rightarrow> (gostring \<rightharpoonup> nat)" where
  "record_LUT fs = lut_loop 0 (map fst fs) Map.empty"

definition IndexOfField :: "field list \<Rightarrow> gostring \<Rightarrow> nat option" where
  "IndexOfField fs f = record_LUT fs f"

definition TypeOfField :: "field list \<Rightarrow> gostring \<Rightarrow> ztype option" where
  "TypeOfField fs f = (case record_LUT fs f of None \<Rightarrow> None | Some n \<Rightarrow> Some (snd (fs ! n)))"

definition HasField :: "field list \<Rightarrow> gostring \<Rightarrow> bool" where
  "HasField fs f = (record_LUT fs f \<noteq> None)"

definition Enum_Symbol :: "gostring list \<Rightarrow> int \<Rightarrow> type_error + gostring" where
  "Enum_Symbol syms i =
     (if i < 0 \<or> i \<ge> int (length syms) then Inl ErrEnumIndex else Inr (syms ! nat i))"

fun enum_lookup_loop :: "nat \<Rightarrow> gostring list \<Rightarrow> gostring \<Rightarrow> int" where
  "enum_lookup_loop k [] s = -1"
| "enum_lookup_loop k (x # xs) s = (if x = s then int k else enum_lookup_loop (k + 1) xs s)"

definition Enum_Lookup :: "gostring list \<Rightarrow> gostring \<Rightarrow> int" where
  "Enum_Lookup syms s = enum_lookup_loop 0 syms s"

definition union_LUT :: "ztype list \<Rightarrow> (ztype \<rightharpoonup> nat)" where
  "union_LUT ts = lut_loop 0 ts Map.empty"

definition Union_Type :: "ztype list \<Rightarrow> int \<Rightarrow> type_error + ztype" where
  "Union_Type ts tag =
     (if tag < 0 \<or> tag \<ge> int (length ts) then Inl ErrUnionTag else Inr (ts ! nat tag))"

definition TagOf :: "ztype list \<Rightarrow> ztype \<Rightarrow> int" where
  "TagOf ts t = (case union_LUT ts t of Some s \<Rightarrow> int s | None \<Rightarrow> -1)"

text \<open>\<open>Untag\<close> panics on a malformed body and on a tag outside the union.\<close>

datatype untag_panic = UntagBytes zpanic | UntagTag type_error

definition Untag :: "nat \<Rightarrow> ztype list \<Rightarrow> zbytes \<Rightarrow> untag_panic + (ztype \<times> zbytes)" where
  "Untag i ts z = (case z of None \<Rightarrow> Inr (TypeUnion i ts, None)
     | Some b \<Rightarrow> (case Iter_Next b of
          Inl p \<Rightarrow> Inl (UntagBytes p)
        | Inr (v, it) \<Rightarrow>
            (case Union_Type ts (sint (DecodeInt v)) of
               Inl e \<Rightarrow> Inl (UntagTag e)
             | Inr inner \<Rightarrow>
                 (case Iter_Next it of Inl p \<Rightarrow> Inl (UntagBytes p) | Inr (v', _) \<Rightarrow> Inr (inner, v')))))"

definition BuildUnion :: "builder \<Rightarrow> u64 \<Rightarrow> zbytes \<Rightarrow> zpanic + builder" where
  "BuildUnion b tag v =
     (if v = None then Inr (Builder_Append None b)
      else res_bind (EncodeInt tag) (\<lambda>e.
        EndContainer (Builder_Append v (Builder_Append (Some e) (BeginContainer b)))))"

definition IsMissing :: "ztype \<Rightarrow> zbytes \<Rightarrow> bool" where
  "IsMissing t zv \<longleftrightarrow> t = TypePrim TypeString \<and> slice_bytes zv = str ''missing''"

definition IsQuiet :: "ztype \<Rightarrow> zbytes \<Rightarrow> bool" where
  "IsQuiet t zv \<longleftrightarrow> t = TypePrim TypeString \<and> slice_bytes zv = str ''quiet''"

subsection \<open>Order of types\<close>

fun first_nonzero :: "int list \<Rightarrow> int" where
  "first_nonzero [] = 0"
| "first_nonzero (c # cs) = (if c \<noteq> 0 then c else first_nonzero cs)"

lemma size_TypeUnder: "size (TypeUnder t) \<le> size t"
  by (induction t) auto

lemma size_record_field: "(n, t) \<in> set fs \<Longrightarrow> size t < size (TypeRecord i fs)"
  by (induction fs) auto

lemma size_union_member: "t \<in> set ts \<Longrightarrow> size t < size (TypeUnion i ts)"
  by (induction ts) auto

text \<open>The parts of the underlying type are smaller than the type.\<close>

lemma size_under_less: "u = TypeUnder a \<Longrightarrow> size t < size u \<Longrightarrow> size t < size a"
  using size_TypeUnder [of a] by simp

lemma size_under_parts:
  "TypeRecord i fs = TypeUnder a \<Longrightarrow> (n, t) \<in> set fs \<Longrightarrow> size t < size a"
  "TypeUnion i ts = TypeUnder a \<Longrightarrow> t \<in> set ts \<Longrightarrow> size t < size a"
  "TypeArray i t = TypeUnder a \<Longrightarrow> size t < size a"
  "TypeSet i t = TypeUnder a \<Longrightarrow> size t < size a"
  "TypeError i t = TypeUnder a \<Longrightarrow> size t < size a"
  "TypeMap i t u = TypeUnder a \<Longrightarrow> size t < size a"
  "TypeMap i u t = TypeUnder a \<Longrightarrow> size t < size a"
  by (erule size_under_less, rule size_record_field, assumption)
    (erule size_under_less, rule size_union_member, assumption, (erule size_under_less, simp)+)

text \<open>The outermost names decide between types with the same underlying type.\<close>

definition compare_names :: "ztype \<Rightarrow> ztype \<Rightarrow> int" where
  "compare_names a b = (case a of
      TypeNamed _ n _ \<Rightarrow> (case b of TypeNamed _ m _ \<Rightarrow> bytes_Compare n m | _ \<Rightarrow> 1)
    | _ \<Rightarrow> (case b of TypeNamed _ _ _ \<Rightarrow> -1 | _ \<Rightarrow> 0))"

function CompareTypes :: "ztype \<Rightarrow> ztype \<Rightarrow> int" where
  "CompareTypes a b =
     (if ID a = ID b then compare_names a b
      else if cmp_Compare (kind_num (Kind a)) (kind_num (Kind b)) \<noteq> 0
      then cmp_Compare (kind_num (Kind a)) (kind_num (Kind b))
      else case (TypeUnder a, TypeUnder b) of
        (TypePrim _, TypePrim _) \<Rightarrow> cmp_Compare (ID a) (ID b)
      | (TypeRecord _ fs, TypeRecord _ gs) \<Rightarrow>
          first_nonzero (cmp_Compare (length fs) (length gs)
            # map (\<lambda>(f, g). bytes_Compare (fst f) (fst g)) (zip fs gs)
            @ map (\<lambda>(f, g). CompareTypes (snd f) (snd g)) (zip fs gs))
      | (TypeArray _ x, TypeArray _ y) \<Rightarrow> CompareTypes x y
      | (TypeSet _ x, TypeSet _ y) \<Rightarrow> CompareTypes x y
      | (TypeMap _ k v, TypeMap _ l w) \<Rightarrow>
          (if CompareTypes k l \<noteq> 0 then CompareTypes k l else CompareTypes v w)
      | (TypeUnion _ ts, TypeUnion _ us) \<Rightarrow>
          first_nonzero (cmp_Compare (length ts) (length us)
            # map (\<lambda>(t, u). CompareTypes t u) (zip ts us))
      | (TypeEnum _ ss, TypeEnum _ rs) \<Rightarrow>
          first_nonzero (cmp_Compare (length ss) (length rs)
            # map (\<lambda>(s, r). bytes_Compare s r) (zip ss rs))
      | (TypeError _ x, TypeError _ y) \<Rightarrow> CompareTypes x y
      | _ \<Rightarrow> 0)"
  by pat_completeness auto
termination
  by (relation "measure (\<lambda>(a, b). size a)")
    (auto dest!: set_zip_leftD intro: size_under_parts)

declare CompareTypes.simps [simp del]

text \<open>
  \<open>UniqueTypes\<close> sorts and drops repetitions. The result overwrites the front of the slice it
  reads, never past the element just read.
\<close>

fun dedup_loop :: "ztype option \<Rightarrow> ztype list \<Rightarrow> ztype list" where
  "dedup_loop prev [] = []"
| "dedup_loop prev (t # ts) =
     (if Some t \<noteq> prev then t # dedup_loop (Some t) ts else dedup_loop prev ts)"

definition UniqueTypes :: "ztype list \<Rightarrow> ztype list" where
  "UniqueTypes ts = dedup_loop None (sort_stable (\<lambda>a b. CompareTypes a b < 0) ts)"

subsection \<open>Comparing by underlying type\<close>

lemma kind_num_inj: "kind_num k = kind_num l \<longleftrightarrow> k = l"
  by (cases k; cases l) auto

lemma ID_under: "ID (TypeUnder t) = ID t"
  by (induction t) auto

lemma Kind_under: "Kind (TypeUnder t) = Kind t"
  by (induction t) auto

lemma TypeUnder_not_named: "TypeUnder t \<noteq> TypeNamed i n u"
  by (induction t) auto

lemma TypeUnder_cases [case_names prim rec arr set map union enum error]:
  assumes "\<And>p. TypeUnder t = TypePrim p \<Longrightarrow> P" "\<And>i fs. TypeUnder t = TypeRecord i fs \<Longrightarrow> P"
    "\<And>i e. TypeUnder t = TypeArray i e \<Longrightarrow> P" "\<And>i e. TypeUnder t = TypeSet i e \<Longrightarrow> P"
    "\<And>i k v. TypeUnder t = TypeMap i k v \<Longrightarrow> P" "\<And>i ts. TypeUnder t = TypeUnion i ts \<Longrightarrow> P"
    "\<And>i ss. TypeUnder t = TypeEnum i ss \<Longrightarrow> P" "\<And>i e. TypeUnder t = TypeError i e \<Longrightarrow> P"
  shows P
  using assms TypeUnder_not_named [of t] by (cases "TypeUnder t") auto

text \<open>Types of one kind have underlying types of one shape.\<close>

lemma same_kind_under:
  assumes "Kind a = Kind b"
  shows "TypeUnder a = TypePrim p \<Longrightarrow> \<exists>q. TypeUnder b = TypePrim q"
    "TypeUnder a = TypeRecord i fs \<Longrightarrow> \<exists>j gs. TypeUnder b = TypeRecord j gs"
    "TypeUnder a = TypeArray i e \<Longrightarrow> \<exists>j f. TypeUnder b = TypeArray j f"
    "TypeUnder a = TypeSet i e \<Longrightarrow> \<exists>j f. TypeUnder b = TypeSet j f"
    "TypeUnder a = TypeMap i k v \<Longrightarrow> \<exists>j l w. TypeUnder b = TypeMap j l w"
    "TypeUnder a = TypeUnion i ts \<Longrightarrow> \<exists>j us. TypeUnder b = TypeUnion j us"
    "TypeUnder a = TypeEnum i ss \<Longrightarrow> \<exists>j rs. TypeUnder b = TypeEnum j rs"
    "TypeUnder a = TypeError i e \<Longrightarrow> \<exists>j f. TypeUnder b = TypeError j f"
  using assms Kind_under [of a] Kind_under [of b]
  by - (rule TypeUnder_cases [of b]; simp)+

lemma CompareTypes_same_ID: "ID a = ID b \<Longrightarrow> CompareTypes a b = compare_names a b"
  by (simp add: CompareTypes.simps [of a b])

lemma CompareTypes_kinds:
  "ID a \<noteq> ID b \<Longrightarrow> Kind a \<noteq> Kind b \<Longrightarrow> CompareTypes a b = cmp_Compare (kind_num (Kind a)) (kind_num (Kind b))"
  by (simp add: CompareTypes.simps [of a b] kind_num_inj)

lemma CompareTypes_under:
  assumes "ID a \<noteq> ID b"
  shows "TypeUnder a = TypePrim p \<Longrightarrow> TypeUnder b = TypePrim q \<Longrightarrow>
      CompareTypes a b = cmp_Compare (ID a) (ID b)"
    "TypeUnder a = TypeRecord i fs \<Longrightarrow> TypeUnder b = TypeRecord j gs \<Longrightarrow>
      CompareTypes a b = first_nonzero (cmp_Compare (length fs) (length gs)
            # map (\<lambda>(f, g). bytes_Compare (fst f) (fst g)) (zip fs gs)
            @ map (\<lambda>(f, g). CompareTypes (snd f) (snd g)) (zip fs gs))"
    "TypeUnder a = TypeArray i e \<Longrightarrow> TypeUnder b = TypeArray j f \<Longrightarrow> CompareTypes a b = CompareTypes e f"
    "TypeUnder a = TypeSet i e \<Longrightarrow> TypeUnder b = TypeSet j f \<Longrightarrow> CompareTypes a b = CompareTypes e f"
    "TypeUnder a = TypeMap i k v \<Longrightarrow> TypeUnder b = TypeMap j l w \<Longrightarrow>
      CompareTypes a b = first_nonzero [CompareTypes k l, CompareTypes v w]"
    "TypeUnder a = TypeUnion i ts \<Longrightarrow> TypeUnder b = TypeUnion j us \<Longrightarrow>
      CompareTypes a b = first_nonzero (cmp_Compare (length ts) (length us)
            # map (\<lambda>(t, u). CompareTypes t u) (zip ts us))"
    "TypeUnder a = TypeEnum i ss \<Longrightarrow> TypeUnder b = TypeEnum j rs \<Longrightarrow>
      CompareTypes a b = first_nonzero (cmp_Compare (length ss) (length rs)
            # map (\<lambda>(s, r). bytes_Compare s r) (zip ss rs))"
    "TypeUnder a = TypeError i e \<Longrightarrow> TypeUnder b = TypeError j f \<Longrightarrow> CompareTypes a b = CompareTypes e f"
  using assms Kind_under [of a] Kind_under [of b]
  by (simp_all add: CompareTypes.simps [of a b])

text \<open>The order is antisymmetric: comparing the other way round negates the result.\<close>

lemma compare_names_antisym: "compare_names a b = - compare_names b a"
  by (cases a; cases b) (simp_all add: compare_names_def bytes_Compare_antisym [symmetric])

lemma first_nonzero_neg: "first_nonzero (map uminus cs) = - first_nonzero cs"
  by (induction cs) auto

lemma map_zip_swap:
  assumes "\<And>x y. x \<in> set xs \<Longrightarrow> y \<in> set ys \<Longrightarrow> f x y = - (g y x :: int)"
  shows "map (\<lambda>(x, y). f x y) (zip xs ys) = map uminus (map (\<lambda>(y, x). g y x) (zip ys xs))"
  by (rule nth_equalityI) (use assms in auto)

lemma first_nonzero_swap: "ds = map uminus cs \<Longrightarrow> first_nonzero ds = - first_nonzero cs"
  using first_nonzero_neg [of cs] by simp

lemma CompareTypes_antisym: "CompareTypes a b = - CompareTypes b a"
proof (induction a arbitrary: b rule: measure_induct_rule [where f = size])
  case (less a)
  show ?case
  proof (cases "ID a = ID b \<or> Kind a \<noteq> Kind b")
    case True
    then show ?thesis
      using compare_names_antisym [of a b] cmp_Compare_antisym [of "kind_num (Kind a)" "kind_num (Kind b)"]
      by (cases "ID a = ID b") (simp_all add: CompareTypes_same_ID CompareTypes_kinds)
  next
    case False
    then have d: "ID a \<noteq> ID b" "ID b \<noteq> ID a" and k: "Kind a = Kind b" by auto
    note IH = less.IH [OF size_under_parts(1) [OF sym]] less.IH [OF size_under_parts(2) [OF sym]]
      less.IH [OF size_under_parts(3) [OF sym]] less.IH [OF size_under_parts(4) [OF sym]]
      less.IH [OF size_under_parts(5) [OF sym]] less.IH [OF size_under_parts(6) [OF sym]]
      less.IH [OF size_under_parts(7) [OF sym]]
    note un = CompareTypes_under [OF d(1)] CompareTypes_under [OF d(2)]
    show ?thesis
    proof (cases rule: TypeUnder_cases [of a])
      case (prim p)
      then obtain q where "TypeUnder b = TypePrim q" using same_kind_under(1) [OF k] by blast
      then show ?thesis using prim cmp_Compare_antisym [of "ID a"] by (simp add: un(1,9))
    next
      case (rec i fs)
      then obtain j gs where b: "TypeUnder b = TypeRecord j gs" using same_kind_under(2) [OF k] by blast
      show ?thesis
        unfolding un(2) [OF rec b] un(10) [OF b rec]
        by (rule first_nonzero_swap)
          (auto simp: cmp_Compare_antisym [of "length fs"] simp del: map_map
            intro!: map_zip_swap IH(1) [OF rec] bytes_Compare_antisym simp flip: prod.collapse)
    next
      case (arr i e)
      then obtain j f where "TypeUnder b = TypeArray j f" using same_kind_under(3) [OF k] by blast
      then show ?thesis using arr IH(3) [OF arr] by (simp add: un(3,11))
    next
      case (set i e)
      then obtain j f where "TypeUnder b = TypeSet j f" using same_kind_under(4) [OF k] by blast
      then show ?thesis using set IH(4) [OF set] by (simp add: un(4,12))
    next
      case (map i x y)
      then obtain j x' y' where "TypeUnder b = TypeMap j x' y'" using same_kind_under(5) [OF k] by blast
      then show ?thesis using map IH(6) [OF map, of x'] IH(7) [OF map, of y'] by (simp add: un(5,13))
    next
      case (union i ts)
      then obtain j us where b: "TypeUnder b = TypeUnion j us" using same_kind_under(6) [OF k] by blast
      show ?thesis
        unfolding un(6) [OF union b] un(14) [OF b union]
        by (rule first_nonzero_swap)
          (auto simp: cmp_Compare_antisym [of "length ts"] simp del: map_map
            intro!: map_zip_swap IH(2) [OF union])
    next
      case (enum i ss)
      then obtain j rs where b: "TypeUnder b = TypeEnum j rs" using same_kind_under(7) [OF k] by blast
      show ?thesis
        unfolding un(7) [OF enum b] un(15) [OF b enum]
        by (rule first_nonzero_swap)
          (auto simp: cmp_Compare_antisym [of "length ss"] simp del: map_map
            intro!: map_zip_swap bytes_Compare_antisym)
    next
      case (error i e)
      then obtain j f where "TypeUnder b = TypeError j f" using same_kind_under(8) [OF k] by blast
      then show ?thesis using error IH(5) [OF error] by (simp add: un(8,16))
    qed
  qed
qed

lemma CompareTypes_asym: "CompareTypes a b < 0 \<Longrightarrow> \<not> CompareTypes b a < 0"
  using CompareTypes_antisym [of a b] by simp

end
