(* ===== verification/Context.thy ===== *)
theory Context
  imports Types
begin

text \<open>
  The type context (\<open>context.go\<close>): it interns complex types, so that each type is represented
  by one value and gets a dense identifier. One definition per method, the locks left out (each
  method holds the lock for its whole body, except \<open>LookupByValue\<close>, which is modelled in the
  theory of type values).
\<close>

subsection \<open>UTF-8 (unicode/utf8.ValidString)\<close>

definition utf8_cont :: "u8 \<Rightarrow> bool" where
  "utf8_cont b \<longleftrightarrow> 0x80 \<le> b \<and> b \<le> 0xBF"

fun ValidString :: "gostring \<Rightarrow> bool" where
  "ValidString [] = True"
| "ValidString (a # r) =
     (if a < 0x80 then ValidString r
      else if a < 0xC2 \<or> 0xF4 < a then False
      else if a \<le> 0xDF then
        (case r of b # r' \<Rightarrow> utf8_cont b \<and> ValidString r' | _ \<Rightarrow> False)
      else if a \<le> 0xEF then
        (case r of b # b' # r' \<Rightarrow>
             utf8_cont b \<and> (a = 0xE0 \<longrightarrow> 0xA0 \<le> b) \<and> (a = 0xED \<longrightarrow> b \<le> 0x9F)
             \<and> utf8_cont b' \<and> ValidString r'
         | _ \<Rightarrow> False)
      else
        (case r of b # b' # b'' # r' \<Rightarrow>
             utf8_cont b \<and> (a = 0xF0 \<longrightarrow> 0x90 \<le> b) \<and> (a = 0xF4 \<longrightarrow> b \<le> 0x8F)
             \<and> utf8_cont b' \<and> utf8_cont b'' \<and> ValidString r'
         | _ \<Rightarrow> False))"

subsection \<open>The context\<close>

record tcontext =
  byID :: "ztype option list"
  typedefs :: "gostring \<rightharpoonup> ztype"
  stringErr :: "ztype option"
  recs :: "bytes \<rightharpoonup> ztype"
  arrays :: "ztype \<rightharpoonup> ztype"
  sets :: "ztype \<rightharpoonup> ztype"
  maps :: "bytes \<rightharpoonup> ztype"
  unions :: "bytes \<rightharpoonup> ztype"
  enums :: "bytes \<rightharpoonup> ztype"
  nameds :: "bytes \<rightharpoonup> ztype"
  errors :: "ztype \<rightharpoonup> ztype"
  toValue :: "ztype \<rightharpoonup> bytes"
  toType :: "bytes \<rightharpoonup> ztype"

definition NewContext :: tcontext where
  "NewContext = \<lparr>byID = replicate IDTypeComplex None, typedefs = Map.empty, stringErr = None,
     recs = Map.empty, arrays = Map.empty, sets = Map.empty, maps = Map.empty, unions = Map.empty,
     enums = Map.empty, nameds = Map.empty, errors = Map.empty, toValue = Map.empty, toType = Map.empty\<rparr>"

definition Context_Reset :: "tcontext \<Rightarrow> tcontext" where
  "Context_Reset c = c\<lparr>byID := take IDTypeComplex (byID c), toValue := Map.empty, toType := Map.empty,
     recs := Map.empty, arrays := Map.empty, sets := Map.empty, maps := Map.empty, unions := Map.empty,
     enums := Map.empty, nameds := Map.empty, errors := Map.empty, typedefs := Map.empty\<rparr>"

definition nextID :: "tcontext \<Rightarrow> nat" where
  "nextID c = length (byID c)"

definition enter :: "ztype \<Rightarrow> tcontext \<Rightarrow> tcontext" where
  "enter t c = c\<lparr>byID := byID c @ [Some t]\<rparr>"

definition LookupType :: "tcontext \<Rightarrow> int \<Rightarrow> type_error + ztype" where
  "LookupType c i =
     (if i < 0 then Inl (NegativeTypeID i)
      else if i < int IDTypeComplex then res_bind (LookupPrimitiveByID i) (\<lambda>p. Inr (TypePrim p))
      else if i \<ge> int (length (byID c)) then Inl (NotInContext i)
      else case byID c ! nat i of Some t \<Rightarrow> Inr t | None \<Rightarrow> Inl (NoTypeFound i))"

definition name_key :: "gostring \<Rightarrow> bytes" where
  "name_key n = put_u32 (of_nat (length n)) @ n"

definition type_key :: "ztype \<Rightarrow> bytes" where
  "type_key t = put_u32 (of_nat (TypeID t))"

definition record_key :: "field list \<Rightarrow> bytes" where
  "record_key fs = concat (map (\<lambda>(n, t). name_key n @ type_key t) fs)"

text \<open>\<open>duplicateField\<close> sorts the names and looks for equal neighbours.\<close>

fun dup_loop :: "gostring \<Rightarrow> gostring list \<Rightarrow> gostring option" where
  "dup_loop prev [] = None"
| "dup_loop prev (n # ns) = (if n = prev then Some n else dup_loop n ns)"

definition duplicateField :: "field list \<Rightarrow> gostring option" where
  "duplicateField fs =
     (if length fs < 2 then None
      else case sort_stable (\<lambda>a b. bytes_Compare a b = -1) (map fst fs) of
        [] \<Rightarrow> None | n # ns \<Rightarrow> dup_loop n ns)"

definition LookupTypeRecord :: "tcontext \<Rightarrow> field list \<Rightarrow> tcontext \<times> (type_error + ztype)" where
  "LookupTypeRecord c fs = (case recs c (record_key fs) of
      Some t \<Rightarrow> (c, Inr t)
    | None \<Rightarrow> (case duplicateField fs of
        Some n \<Rightarrow> (c, Inl (DuplicateField n))
      | None \<Rightarrow> (let t = TypeRecord (nextID c) fs
                in (enter t (c\<lparr>recs := (recs c)(record_key fs \<mapsto> t)\<rparr>), Inr t))))"

definition LookupTypeArray :: "tcontext \<Rightarrow> ztype \<Rightarrow> tcontext \<times> ztype" where
  "LookupTypeArray c inner = (case arrays c inner of
      Some t \<Rightarrow> (c, t)
    | None \<Rightarrow> (let t = TypeArray (nextID c) inner
              in ((enter t c)\<lparr>arrays := (arrays c)(inner \<mapsto> t)\<rparr>, t)))"

definition LookupTypeSet :: "tcontext \<Rightarrow> ztype \<Rightarrow> tcontext \<times> ztype" where
  "LookupTypeSet c inner = (case sets c inner of
      Some t \<Rightarrow> (c, t)
    | None \<Rightarrow> (let t = TypeSet (nextID c) inner
              in ((enter t c)\<lparr>sets := (sets c)(inner \<mapsto> t)\<rparr>, t)))"

definition map_key :: "ztype \<Rightarrow> ztype \<Rightarrow> bytes" where
  "map_key k v = type_key k @ type_key v"

definition LookupTypeMap :: "tcontext \<Rightarrow> ztype \<Rightarrow> ztype \<Rightarrow> tcontext \<times> ztype" where
  "LookupTypeMap c k v = (case maps c (map_key k v) of
      Some t \<Rightarrow> (c, t)
    | None \<Rightarrow> (let t = TypeMap (nextID c) k v
              in ((enter t c)\<lparr>maps := (maps c)(map_key k v \<mapsto> t)\<rparr>, t)))"

definition union_key :: "ztype list \<Rightarrow> bytes" where
  "union_key ts = concat (map type_key ts)"

definition LookupTypeUnion :: "tcontext \<Rightarrow> ztype list \<Rightarrow> tcontext \<times> ztype" where
  "LookupTypeUnion c types =
     (let ts = sort_stable (\<lambda>a b. CompareTypes a b < 0) types in
      case unions c (union_key ts) of
        Some t \<Rightarrow> (c, t)
      | None \<Rightarrow> (let t = TypeUnion (nextID c) ts
                in ((enter t c)\<lparr>unions := (unions c)(union_key ts \<mapsto> t)\<rparr>, t)))"

definition enum_key :: "gostring list \<Rightarrow> bytes" where
  "enum_key ss = concat (map name_key ss)"

definition LookupTypeEnum :: "tcontext \<Rightarrow> gostring list \<Rightarrow> tcontext \<times> ztype" where
  "LookupTypeEnum c ss = (case enums c (enum_key ss) of
      Some t \<Rightarrow> (c, t)
    | None \<Rightarrow> (let t = TypeEnum (nextID c) ss
              in ((enter t c)\<lparr>enums := (enums c)(enum_key ss \<mapsto> t)\<rparr>, t)))"

definition LookupTypeDef :: "tcontext \<Rightarrow> gostring \<Rightarrow> ztype option" where
  "LookupTypeDef c n = typedefs c n"

definition named_key :: "gostring \<Rightarrow> ztype \<Rightarrow> bytes" where
  "named_key n t = name_key n @ type_key t"

definition LookupTypeNamed :: "tcontext \<Rightarrow> gostring \<Rightarrow> ztype \<Rightarrow> tcontext \<times> (type_error + ztype)" where
  "LookupTypeNamed c n inner =
     (if \<not> ValidString n \<or> LookupPrimitive n \<noteq> None then (c, Inl (BadTypeName n))
      else case nameds c (named_key n inner) of
        Some t \<Rightarrow> (c\<lparr>typedefs := (typedefs c)(n \<mapsto> t)\<rparr>, Inr t)
      | None \<Rightarrow> (let t = TypeNamed (nextID c) n inner
                in ((enter t (c\<lparr>typedefs := (typedefs c)(n \<mapsto> t)\<rparr>))
                      \<lparr>nameds := (nameds c)(named_key n inner \<mapsto> t)\<rparr>, Inr t)))"

definition LookupTypeError :: "tcontext \<Rightarrow> ztype \<Rightarrow> tcontext \<times> ztype" where
  "LookupTypeError c inner = (case errors c inner of
      Some t \<Rightarrow> (c, t)
    | None \<Rightarrow> (let t = TypeError (nextID c) inner;
                  c' = (enter t c)\<lparr>errors := (errors c)(inner \<mapsto> t)\<rparr>
              in (if inner = TypePrim TypeString then c'\<lparr>stringErr := Some t\<rparr> else c', t)))"

definition StringTypeError :: "tcontext \<Rightarrow> tcontext \<times> ztype" where
  "StringTypeError c = (case stringErr c of
      Some t \<Rightarrow> (c, t)
    | None \<Rightarrow> LookupTypeError c (TypePrim TypeString))"

end
