(* ===== verification/Context_Inv.thy ===== *)
theory Context_Inv
  imports Context
begin

text \<open>
  The invariant of a type context and what its lookup methods promise: identifiers are dense and
  unique, the tables hold exactly the types of the context, every lookup returns the type it was
  asked for, keeps all earlier types, and a type has one representative however often it is asked for.
\<close>

subsection \<open>Keys\<close>

text \<open>A length-prefixed name is a codec on names shorter than \<open>2 ^ 32\<close>.\<close>

definition dec_name_key :: "bytes \<Rightarrow> (gostring \<times> bytes) option" where
  "dec_name_key b = (case dec_u32 b of None \<Rightarrow> None
     | Some (w, r) \<Rightarrow> if length r < unat w then None else Some (take (unat w) r, drop (unat w) r))"

definition short_name :: "gostring \<Rightarrow> bool" where
  "short_name n \<longleftrightarrow> length n < 2 ^ 32"

lemma dec_name_key_enc: "short_name n \<Longrightarrow> dec_name_key (name_key n @ rest) = Some (n, rest)"
  using le32.dec_enc [of "of_nat (length n)" "n @ rest"]
  by (simp add: dec_name_key_def name_key_def short_name_def unat_of_nat)

interpretation namec: codec_nonempty name_key dec_name_key short_name
proof unfold_locales
  show "name_key n \<noteq> []" for n using le32.enc_nonempty by (simp add: name_key_def)
qed (rule dec_name_key_enc)

interpretation fieldc: codec_pair name_key dec_name_key short_name put_u32 dec_u32 "\<lambda>_. True"
  by unfold_locales

interpretation fieldcn: codec_nonempty "\<lambda>(x, y). name_key x @ put_u32 y"
  "\<lambda>b. case dec_name_key b of None \<Rightarrow> None | Some (x, r) \<Rightarrow>
      (case dec_u32 r of None \<Rightarrow> None | Some (y, r') \<Rightarrow> Some ((x, y), r'))"
  "\<lambda>(x, y). short_name x \<and> True"
  by unfold_locales (auto simp: namec.enc_nonempty)

lemma record_key_map:
  "record_key fs = concat (map (\<lambda>(x, y). name_key x @ put_u32 y) (map (\<lambda>(n, t). (n, of_nat (TypeID t))) fs))"
  by (simp add: record_key_def type_key_def comp_def case_prod_unfold)

lemma union_key_map: "union_key ts = concat (map put_u32 (map (\<lambda>t. of_nat (TypeID t)) ts))"
  by (simp add: union_key_def type_key_def [abs_def] comp_def)

subsection \<open>Interning\<close>

text \<open>
  Every lookup method is an instance of one scheme: find the key in a table, and otherwise enter
  a new type under the next identifier. The eight tables are read as one, indexed by a tagged key.
\<close>

datatype tkey = KRec bytes | KArr ztype | KSet ztype | KMap bytes | KUnion bytes | KEnum bytes
  | KNamed bytes | KErr ztype

fun table :: "tcontext \<Rightarrow> tkey \<Rightarrow> ztype option" where
  "table c (KRec k) = recs c k"
| "table c (KArr k) = arrays c k"
| "table c (KSet k) = sets c k"
| "table c (KMap k) = maps c k"
| "table c (KUnion k) = unions c k"
| "table c (KEnum k) = enums c k"
| "table c (KNamed k) = nameds c k"
| "table c (KErr k) = errors c k"

fun tkey_of :: "ztype \<Rightarrow> tkey option" where
  "tkey_of (TypePrim p) = None"
| "tkey_of (TypeRecord _ fs) = Some (KRec (record_key fs))"
| "tkey_of (TypeArray _ t) = Some (KArr t)"
| "tkey_of (TypeSet _ t) = Some (KSet t)"
| "tkey_of (TypeMap _ k v) = Some (KMap (map_key k v))"
| "tkey_of (TypeUnion _ ts) = Some (KUnion (union_key ts))"
| "tkey_of (TypeEnum _ ss) = Some (KEnum (enum_key ss))"
| "tkey_of (TypeNamed _ n t) = Some (KNamed (named_key n t))"
| "tkey_of (TypeError _ t) = Some (KErr t)"

fun parts :: "ztype \<Rightarrow> ztype list" where
  "parts (TypePrim p) = []"
| "parts (TypeRecord _ fs) = map snd fs"
| "parts (TypeArray _ t) = [t]"
| "parts (TypeSet _ t) = [t]"
| "parts (TypeMap _ k v) = [k, v]"
| "parts (TypeUnion _ ts) = ts"
| "parts (TypeEnum _ ss) = []"
| "parts (TypeNamed _ n t) = [t]"
| "parts (TypeError _ t) = [t]"

fun names :: "ztype \<Rightarrow> gostring list" where
  "names (TypeRecord _ fs) = map fst fs"
| "names (TypeEnum _ ss) = ss"
| "names (TypeNamed _ n t) = [n]"
| "names _ = []"

text \<open>A type of the context: a primitive, or what the context holds under the type's identifier.\<close>

definition known :: "tcontext \<Rightarrow> ztype \<Rightarrow> bool" where
  "known c t \<longleftrightarrow> (case t of TypePrim _ \<Rightarrow> True
     | _ \<Rightarrow> TypeID t < length (byID c) \<and> byID c ! TypeID t = Some t)"

text \<open>Record fields are distinct, unions sorted, and type names are legal.\<close>

fun shape_ok :: "ztype \<Rightarrow> bool" where
  "shape_ok (TypeRecord _ fs) \<longleftrightarrow> distinct (map fst fs)"
| "shape_ok (TypeUnion _ ts) \<longleftrightarrow> sort_stable (\<lambda>a b. CompareTypes a b < 0) ts = ts"
| "shape_ok (TypeNamed _ n _) \<longleftrightarrow> ValidString n \<and> LookupPrimitive n = None"
| "shape_ok _ \<longleftrightarrow> True"

definition entry_ok :: "tcontext \<Rightarrow> nat \<Rightarrow> ztype \<Rightarrow> bool" where
  "entry_ok c i t \<longleftrightarrow> tkey_of t \<noteq> None \<and> TypeID t = i \<and>
     (\<forall>p\<in>set (parts t). known c p \<and> TypeID p < i) \<and>
     (\<forall>n\<in>set (names t). short_name n) \<and>
     shape_ok t"

text \<open>
  The invariant of a context: the identifiers are dense and consistent, the components of a type
  are in the context and older than the type, the tables hold exactly the types of the context,
  each under its key, and the name bindings and the cached error type are types of the context.
\<close>

definition ids_ok :: "tcontext \<Rightarrow> bool" where
  "ids_ok c \<longleftrightarrow> IDTypeComplex \<le> length (byID c) \<and>
     (\<forall>i<IDTypeComplex. byID c ! i = None) \<and>
     (\<forall>i<length (byID c). IDTypeComplex \<le> i \<longrightarrow> (\<exists>t. byID c ! i = Some t \<and> entry_ok c i t))"

definition tables_ok :: "tcontext \<Rightarrow> bool" where
  "tables_ok c \<longleftrightarrow> (\<forall>k t. table c k = Some t \<longleftrightarrow> known c t \<and> tkey_of t = Some k)"

definition bindings_ok :: "tcontext \<Rightarrow> bool" where
  "bindings_ok c \<longleftrightarrow>
     (\<forall>n t. typedefs c n = Some t \<longrightarrow> known c t \<and> (\<exists>i u. t = TypeNamed i n u)) \<and>
     (\<forall>t. stringErr c = Some t \<longrightarrow> known c t \<and> (\<exists>i. t = TypeError i (TypePrim TypeString))) \<and>
     (\<forall>b t. toType c b = Some t \<longrightarrow> known c t)"

definition ctx_inv :: "tcontext \<Rightarrow> bool" where
  "ctx_inv c \<longleftrightarrow> ids_ok c \<and> tables_ok c \<and> bindings_ok c"

text \<open>A context extends another when it keeps all its types.\<close>

definition extends :: "tcontext \<Rightarrow> tcontext \<Rightarrow> bool" where
  "extends c c' \<longleftrightarrow> (\<forall>t. known c t \<longrightarrow> known c' t)"

lemma extends_refl [simp, intro]: "extends c c"
  by (simp add: extends_def)

lemma extends_trans [trans]: "extends c c' \<Longrightarrow> extends c' c'' \<Longrightarrow> extends c c''"
  by (simp add: extends_def)

lemma extendsD: "extends c c' \<Longrightarrow> known c t \<Longrightarrow> known c' t"
  by (simp add: extends_def)

lemma known_prim [simp]: "known c (TypePrim p)"
  by (simp add: known_def)

lemma prim_ID_less: "prim_ID p < 30"
  by (cases p) auto

lemma prim_ID_inj: "prim_ID p = prim_ID q \<Longrightarrow> p = q"
  by (cases p; cases q) auto

lemma known_complex:
  "tkey_of t \<noteq> None \<Longrightarrow> known c t \<longleftrightarrow> TypeID t < length (byID c) \<and> byID c ! TypeID t = Some t"
  by (cases t) (auto simp: known_def)

lemma tkey_of_None: "tkey_of t = None \<longleftrightarrow> (\<exists>p. t = TypePrim p)"
  by (cases t) auto

lemma TypeID_prim [simp]: "TypeID (TypePrim p) = prim_ID p"
  by (simp add: TypeID_def)

lemma known_entry:
  assumes "ids_ok c" and "known c t" and "tkey_of t \<noteq> None"
  shows "entry_ok c (TypeID t) t" and "IDTypeComplex \<le> TypeID t"
proof -
  have t: "TypeID t < length (byID c)" "byID c ! TypeID t = Some t"
    using assms known_complex by auto
  show ge: "IDTypeComplex \<le> TypeID t"
    using assms(1) t by (auto simp: ids_ok_def not_le [symmetric])
  show "entry_ok c (TypeID t) t" using assms(1) t ge by (auto simp: ids_ok_def)
qed

lemma known_parts:
  assumes "ids_ok c" and "known c t" and "p \<in> set (parts t)"
  shows "known c p"
proof (cases "tkey_of t")
  case None
  then show ?thesis using assms(3) by (auto simp: tkey_of_None)
next
  case Some
  then show ?thesis using known_entry(1) [OF assms(1,2)] assms(3) by (auto simp: entry_ok_def)
qed

text \<open>Identifiers are unique within a context.\<close>

lemma TypeID_inj:
  assumes "ids_ok c" and "known c t" and "known c u" and "TypeID t = TypeID u"
  shows "t = u"
proof (cases "tkey_of t = None \<or> tkey_of u = None")
  case False
  then show ?thesis using assms known_complex [of t c] known_complex [of u c] by auto
next
  case True
  have "IDTypeComplex \<le> TypeID v" if "known c v" "tkey_of v \<noteq> None" for v
    using known_entry(2) [OF assms(1) that] .
  then show ?thesis
    using True assms prim_ID_less prim_ID_inj
    by (metis IDTypeComplex_def TypeID_prim linorder_not_le tkey_of_None)
qed

subsection \<open>Entering a new type\<close>

definition new_entry :: "tcontext \<Rightarrow> ztype \<Rightarrow> tcontext \<Rightarrow> bool" where
  "new_entry c t c' \<longleftrightarrow> byID c' = byID c @ [Some t] \<and>
     (\<exists>k. tkey_of t = Some k \<and> table c k = None \<and> table c' = (table c)(k \<mapsto> t)) \<and>
     TypeID t = nextID c \<and>
     (\<forall>p\<in>set (parts t). known c p) \<and> (\<forall>n\<in>set (names t). short_name n) \<and>
     shape_ok t"

lemma known_new_entry:
  assumes "new_entry c t c'"
  shows "known c' u \<longleftrightarrow> known c u \<or> u = t"
proof (cases "tkey_of u")
  case None
  then show ?thesis using assms by (auto simp: tkey_of_None)
next
  case Some
  then have u: "tkey_of u \<noteq> None" by simp
  have "TypeID t = length (byID c)" "byID c' = byID c @ [Some t]"
    using assms by (auto simp: new_entry_def nextID_def)
  then show ?thesis
    unfolding known_complex [OF u] by (auto simp: nth_append less_Suc_eq)
qed

lemma known_ID_less:
  "known c t \<Longrightarrow> IDTypeComplex \<le> length (byID c) \<Longrightarrow> TypeID t < length (byID c)"
proof (cases "tkey_of t")
  case None
  then obtain p where "t = TypePrim p" by (auto simp: tkey_of_None)
  then show "IDTypeComplex \<le> length (byID c) \<Longrightarrow> ?thesis"
    using prim_ID_less [of p] by (simp add: IDTypeComplex_def)
next
  case Some
  then show "known c t \<Longrightarrow> ?thesis" using known_complex [of t c] by auto
qed

lemma new_entry_inv:
  assumes "ids_ok c" and "tables_ok c" and "new_entry c t c'"
  shows "ids_ok c'" and "tables_ok c'"
proof -
  have ids: "IDTypeComplex \<le> length (byID c)" using assms(1) by (simp add: ids_ok_def)
  have b': "byID c' = byID c @ [Some t]" and tid: "TypeID t = length (byID c)"
    using assms(3) by (auto simp: new_entry_def nextID_def)
  note kn = known_new_entry [OF assms(3)]
  obtain k where k: "tkey_of t = Some k" "table c k = None" "table c' = (table c)(k \<mapsto> t)"
    using assms(3) by (auto simp: new_entry_def)
  have old: "entry_ok c' i u" if "entry_ok c i u" for i u
    using that kn by (auto simp: entry_ok_def)
  have "TypeID p < length (byID c)" if "known c p" for p
    using known_ID_less [OF that ids] .
  then have new: "entry_ok c' (length (byID c)) t"
    using assms(3) kn tid by (auto simp: entry_ok_def new_entry_def)
  show "ids_ok c'"
    using assms(1) b' old new unfolding ids_ok_def
    by (auto simp: nth_append less_Suc_eq)
  have nk: "\<not> known c t" using tid known_complex [of t c] k(1) by auto
  show "tables_ok c'"
    unfolding tables_ok_def
  proof (intro allI)
    fix k' u
    have old: "table c k' = Some u \<longleftrightarrow> known c u \<and> tkey_of u = Some k'"
      using assms(2) by (simp add: tables_ok_def)
    show "table c' k' = Some u \<longleftrightarrow> known c' u \<and> tkey_of u = Some k'"
      using old kn nk k by (cases "k' = k") auto
  qed
qed

lemma bindings_ok_mono:
  assumes "bindings_ok c" and "extends c c'"
    and "typedefs c' = typedefs c" and "stringErr c' = stringErr c" and "toType c' = toType c"
  shows "bindings_ok c'"
  using assms by (auto simp: bindings_ok_def extends_def)

lemma new_entry_extends: "new_entry c t c' \<Longrightarrow> extends c c'"
  by (simp add: extends_def known_new_entry)

lemma new_entry_known: "new_entry c t c' \<Longrightarrow> known c' t"
  by (simp add: known_new_entry)

text \<open>What a successful lookup promises.\<close>

definition lookup_ok :: "tcontext \<Rightarrow> tcontext \<Rightarrow> ztype \<Rightarrow> bool" where
  "lookup_ok c c' t \<longleftrightarrow> ctx_inv c' \<and> extends c c' \<and> known c' t"

lemma lookup_ok_found: "ctx_inv c \<Longrightarrow> table c k = Some t \<Longrightarrow> lookup_ok c c t \<and> tkey_of t = Some k"
  by (auto simp: lookup_ok_def ctx_inv_def tables_ok_def)

lemma lookup_ok_new:
  assumes "ctx_inv c" and "new_entry c t c'"
    and "typedefs c' = typedefs c" and "stringErr c' = stringErr c" and "toType c' = toType c"
  shows "lookup_ok c c' t"
  using assms new_entry_inv [of c t c'] bindings_ok_mono [of c c'] new_entry_extends new_entry_known
  by (simp add: lookup_ok_def ctx_inv_def)

lemma table_fun_upd:
  "m = recs c \<Longrightarrow> table (c\<lparr>recs := m(x \<mapsto> t)\<rparr>) = (table c)(KRec x \<mapsto> t)"
  "m' = arrays c \<Longrightarrow> table (c\<lparr>arrays := m'(y \<mapsto> t)\<rparr>) = (table c)(KArr y \<mapsto> t)"
  "m' = sets c \<Longrightarrow> table (c\<lparr>sets := m'(y \<mapsto> t)\<rparr>) = (table c)(KSet y \<mapsto> t)"
  "m = maps c \<Longrightarrow> table (c\<lparr>maps := m(x \<mapsto> t)\<rparr>) = (table c)(KMap x \<mapsto> t)"
  "m = unions c \<Longrightarrow> table (c\<lparr>unions := m(x \<mapsto> t)\<rparr>) = (table c)(KUnion x \<mapsto> t)"
  "m = enums c \<Longrightarrow> table (c\<lparr>enums := m(x \<mapsto> t)\<rparr>) = (table c)(KEnum x \<mapsto> t)"
  "m = nameds c \<Longrightarrow> table (c\<lparr>nameds := m(x \<mapsto> t)\<rparr>) = (table c)(KNamed x \<mapsto> t)"
  "m' = errors c \<Longrightarrow> table (c\<lparr>errors := m'(y \<mapsto> t)\<rparr>) = (table c)(KErr y \<mapsto> t)"
  by (rule ext, rename_tac k, case_tac k, simp_all)+

lemma table_frame [simp]:
  "table (c\<lparr>byID := b\<rparr>) = table c" "table (c\<lparr>typedefs := d\<rparr>) = table c"
  "table (c\<lparr>stringErr := e\<rparr>) = table c" "table (c\<lparr>toType := f\<rparr>) = table c"
  "table (c\<lparr>toValue := g\<rparr>) = table c"
  by (rule ext, rename_tac k, case_tac k, simp_all)+

lemma known_frame [simp]:
  "known (c\<lparr>typedefs := d\<rparr>) t = known c t" "known (c\<lparr>stringErr := e\<rparr>) t = known c t"
  "known (c\<lparr>toType := f\<rparr>) t = known c t" "known (c\<lparr>toValue := g\<rparr>) t = known c t"
  by (cases t; simp add: known_def)+

lemmas intern_simps = new_entry_def nextID_def enter_def TypeID_def table_fun_upd

subsection \<open>The lookup methods\<close>

lemma ctx_invD: "ctx_inv c \<Longrightarrow> ids_ok c" "ctx_inv c \<Longrightarrow> tables_ok c" "ctx_inv c \<Longrightarrow> bindings_ok c"
  by (simp_all add: ctx_inv_def)

lemma type_key_inj:
  assumes "ids_ok c" and "length (byID c) \<le> 2 ^ 32" and "known c t" and "known c u"
    and "(of_nat (TypeID t) :: u32) = of_nat (TypeID u)"
  shows "t = u"
proof -
  have "TypeID v < 2 ^ 32" if "known c v" for v
    using known_ID_less [OF that] assms(1,2) by (auto simp: ids_ok_def intro: less_le_trans)
  then have "unat (of_nat (TypeID v) :: u32) = TypeID v" if "known c v" for v
    using that by (simp add: unat_of_nat take_bit_nat_eq_self)
  then show ?thesis using TypeID_inj [OF assms(1,3,4)] assms(3-5) by metis
qed

lemma map_type_key_inj:
  assumes "ids_ok c" and "length (byID c) \<le> 2 ^ 32"
    and "\<forall>t\<in>set ts. known c t" and "\<forall>u\<in>set us. known c u"
    and "map (\<lambda>t. of_nat (TypeID t) :: u32) ts = map (\<lambda>t. of_nat (TypeID t)) us"
  shows "ts = us"
  using assms(3-5)
proof (induction ts arbitrary: us)
  case (Cons t ts)
  from Cons.prems(3) obtain u us' where us: "us = u # us'" by (cases us) simp_all
  have "t = u" by (rule type_key_inj [OF assms(1,2)]) (use Cons.prems us in simp_all)
  moreover have "ts = us'" by (rule Cons.IH) (use Cons.prems us in simp_all)
  ultimately show ?case using us by simp
qed simp

lemma record_key_inj:
  assumes "ids_ok c" and "length (byID c) \<le> 2 ^ 32"
    and "\<forall>(n, t)\<in>set fs. short_name n \<and> known c t" and "\<forall>(n, t)\<in>set gs. short_name n \<and> known c t"
    and "record_key fs = record_key gs"
  shows "fs = gs"
proof -
  have "map (\<lambda>(n, t). (n, of_nat (TypeID t) :: u32)) fs = map (\<lambda>(n, t). (n, of_nat (TypeID t))) gs"
    by (rule fieldcn.concat_enc_inj) (use assms(3-5) record_key_map in auto)
  then have eq: "map fst fs = map fst gs"
    "map (\<lambda>t. of_nat (TypeID t) :: u32) (map snd fs) = map (\<lambda>t. of_nat (TypeID t)) (map snd gs)"
    by (auto dest: arg_cong [where f = "map fst"] arg_cong [where f = "map snd"]
        simp: comp_def case_prod_unfold)
  moreover have "map snd fs = map snd gs"
    by (rule map_type_key_inj [OF assms(1,2) _ _ eq(2)]) (use assms(3,4) in auto)
  ultimately show ?thesis by (simp add: list_eq_iff_nth_eq prod_eq_iff)
qed

lemma union_key_inj:
  assumes "ids_ok c" and "length (byID c) \<le> 2 ^ 32"
    and "\<forall>t\<in>set ts. known c t" and "\<forall>u\<in>set us. known c u" and "union_key ts = union_key us"
  shows "ts = us"
  by (rule map_type_key_inj [OF assms(1-4)], rule le32.concat_enc_inj)
    (use assms(5) union_key_map in auto)

lemma enum_key_inj:
  "\<forall>n\<in>set ss. short_name n \<Longrightarrow> \<forall>n\<in>set rs. short_name n \<Longrightarrow> enum_key ss = enum_key rs \<Longrightarrow> ss = rs"
  unfolding enum_key_def by (rule namec.concat_enc_inj)

lemma map_key_inj:
  assumes "ids_ok c" and "length (byID c) \<le> 2 ^ 32"
    and "known c k" "known c v" "known c k'" "known c v'" and "map_key k v = map_key k' v'"
  shows "k = k' \<and> v = v'"
proof -
  have "union_key [k, v] = union_key [k', v']" using assms(7) by (simp add: map_key_def union_key_def)
  from union_key_inj [OF assms(1,2) _ _ this] show ?thesis using assms(3-6) by simp
qed

lemma named_key_inj:
  assumes "ids_ok c" and "length (byID c) \<le> 2 ^ 32" and "short_name n" "short_name m"
    and "known c t" "known c u" and "named_key n t = named_key m u"
  shows "n = m \<and> t = u"
proof -
  have "record_key [(n, t)] = record_key [(m, u)]"
    using assms(7) by (simp add: record_key_def named_key_def)
  from record_key_inj [OF assms(1,2) _ _ this] show ?thesis using assms(3-6) by simp
qed

lemma dup_loop_None:
  assumes "sorted_wrt (\<lambda>a b. bytes_Compare b a \<noteq> -1) (n # ns)"
  shows "dup_loop n ns = None \<longleftrightarrow> distinct (n # ns)"
  using assms
proof (induction ns arbitrary: n)
  case (Cons m ns)
  have IH: "dup_loop m ns = None \<longleftrightarrow> distinct (m # ns)"
    using Cons.IH [of m] Cons.prems by simp
  show ?case
  proof (cases "m = n")
    case False
    have "bytes_Compare m n \<noteq> -1" using Cons.prems by simp
    then have lt: "bytes_Compare n m = -1"
      using False bytes_Compare_range [of n m] bytes_Compare_antisym [of n m] by auto
    have "n \<notin> set ns" using Cons.prems lt by auto
    then show ?thesis using False IH by auto
  qed simp
qed simp

lemma duplicateField_None: "duplicateField fs = None \<longleftrightarrow> distinct (map fst fs)"
proof -
  let ?lt = "\<lambda>a b. bytes_Compare a b = -1" and ?s = "sort_stable (\<lambda>a b. bytes_Compare a b = -1) (map fst fs)"
  have sorted: "sorted_wrt (\<lambda>a b. bytes_Compare b a \<noteq> -1) ?s"
    by (rule sorted_sort_stable [OF swo_on_bytes_Compare [of UNIV]]) simp
  have dist: "distinct ?s \<longleftrightarrow> distinct (map fst fs)"
    by (simp add: distinct_count_atmost_1)
  show ?thesis
  proof (cases "length fs < 2")
    case True
    then show ?thesis by (cases fs) (auto simp: duplicateField_def)
  next
    case False
    then obtain n ns where s: "?s = n # ns"
      by (cases ?s) (auto dest: arg_cong [where f = length])
    then show ?thesis
      using False dup_loop_None [of n ns] sorted dist by (simp add: duplicateField_def)
  qed
qed

definition ctx_small :: "tcontext \<Rightarrow> bool" where
  "ctx_small c \<longleftrightarrow> length (byID c) \<le> 2 ^ 32"

text \<open>Types found in a table have the components the key was made of.\<close>

lemma found_entry:
  assumes "ctx_inv c" and "table c k = Some t"
  shows "known c t" and "tkey_of t = Some k" and "\<forall>p\<in>set (parts t). known c p"
    and "\<forall>n\<in>set (names t). short_name n"
proof -
  show t: "known c t" "tkey_of t = Some k" using lookup_ok_found [OF assms] by (auto simp: lookup_ok_def)
  then have "entry_ok c (TypeID t) t" using known_entry(1) [OF ctx_invD(1) [OF assms(1)]] by auto
  then show "\<forall>p\<in>set (parts t). known c p" "\<forall>n\<in>set (names t). short_name n"
    by (auto simp: entry_ok_def)
qed

lemma tkey_of_cases:
  "tkey_of t = Some (KRec b) \<longleftrightarrow> (\<exists>i fs. t = TypeRecord i fs \<and> b = record_key fs)"
  "tkey_of t = Some (KArr e) \<longleftrightarrow> (\<exists>i. t = TypeArray i e)"
  "tkey_of t = Some (KSet e) \<longleftrightarrow> (\<exists>i. t = TypeSet i e)"
  "tkey_of t = Some (KErr e) \<longleftrightarrow> (\<exists>i. t = TypeError i e)"
  "tkey_of t = Some (KMap b) \<longleftrightarrow> (\<exists>i x y. t = TypeMap i x y \<and> b = map_key x y)"
  "tkey_of t = Some (KUnion b) \<longleftrightarrow> (\<exists>i ts. t = TypeUnion i ts \<and> b = union_key ts)"
  "tkey_of t = Some (KEnum b) \<longleftrightarrow> (\<exists>i ss. t = TypeEnum i ss \<and> b = enum_key ss)"
  "tkey_of t = Some (KNamed b) \<longleftrightarrow> (\<exists>i n u. t = TypeNamed i n u \<and> b = named_key n u)"
  by (cases t; auto)+

lemma LookupTypeRecord_ok:
  assumes "ctx_inv c" and "ctx_small c" and "\<forall>(n, t)\<in>set fs. short_name n \<and> known c t"
    and "LookupTypeRecord c fs = (c', r)"
  shows "case r of Inl e \<Rightarrow> c' = c \<and> \<not> distinct (map fst fs)
    | Inr t \<Rightarrow> lookup_ok c c' t \<and> (\<exists>i. t = TypeRecord i fs) \<and> distinct (map fst fs)"
proof (cases "recs c (record_key fs)")
  case (Some t)
  then have t: "table c (KRec (record_key fs)) = Some t" by simp
  note found = found_entry [OF assms(1) t]
  obtain i gs where gs: "t = TypeRecord i gs" "record_key fs = record_key gs"
    using found(2) by (auto simp: tkey_of_cases)
  have "fs = gs"
    by (rule record_key_inj [OF ctx_invD(1) [OF assms(1)] _ assms(3) _ gs(2)])
      (use assms(2) found(3,4) gs(1) in \<open>auto simp: ctx_small_def\<close>)
  moreover have "distinct (map fst gs)"
    using known_entry(1) [OF ctx_invD(1) [OF assms(1)] found(1)] gs(1) by (simp add: entry_ok_def)
  ultimately show ?thesis
    using Some assms(1,4) lookup_ok_found [OF assms(1) t] gs(1) by (auto simp: LookupTypeRecord_def)
next
  case None
  show ?thesis
  proof (cases "duplicateField fs")
    case (Some n)
    then show ?thesis using None assms(4) duplicateField_None [of fs] by (auto simp: LookupTypeRecord_def)
  next
    case dn: None
    let ?t = "TypeRecord (nextID c) fs"
    let ?c = "enter ?t (c\<lparr>recs := (recs c)(record_key fs \<mapsto> ?t)\<rparr>)"
    have "new_entry c ?t ?c"
      using None dn duplicateField_None [of fs] assms(3) by (auto simp: intern_simps)
    from lookup_ok_new [OF assms(1) this] show ?thesis
      using None dn assms(4) duplicateField_None [of fs]
      by (auto simp: LookupTypeRecord_def enter_def Let_def)
  qed
qed

lemma LookupTypeArray_ok:
  assumes "ctx_inv c" and "known c e" and "LookupTypeArray c e = (c', t)"
  shows "lookup_ok c c' t \<and> (\<exists>i. t = TypeArray i e)"
proof (cases "arrays c e")
  case (Some u)
  then show ?thesis
    using assms lookup_ok_found [of c "KArr e" u] by (auto simp: LookupTypeArray_def tkey_of_cases)
next
  case None
  let ?t = "TypeArray (nextID c) e"
  have "new_entry c ?t ((enter ?t c)\<lparr>arrays := (arrays c)(e \<mapsto> ?t)\<rparr>)"
    using None assms(2) by (auto simp: intern_simps)
  from lookup_ok_new [OF assms(1) this] show ?thesis
    using None assms(3) by (auto simp: LookupTypeArray_def enter_def Let_def)
qed

lemma LookupTypeSet_ok:
  assumes "ctx_inv c" and "known c e" and "LookupTypeSet c e = (c', t)"
  shows "lookup_ok c c' t \<and> (\<exists>i. t = TypeSet i e)"
proof (cases "sets c e")
  case (Some u)
  then show ?thesis
    using assms lookup_ok_found [of c "KSet e" u] by (auto simp: LookupTypeSet_def tkey_of_cases)
next
  case None
  let ?t = "TypeSet (nextID c) e"
  have "new_entry c ?t ((enter ?t c)\<lparr>sets := (sets c)(e \<mapsto> ?t)\<rparr>)"
    using None assms(2) by (auto simp: intern_simps)
  from lookup_ok_new [OF assms(1) this] show ?thesis
    using None assms(3) by (auto simp: LookupTypeSet_def enter_def Let_def)
qed

lemma LookupTypeMap_ok:
  assumes "ctx_inv c" and "ctx_small c" and "known c k" and "known c v" and "LookupTypeMap c k v = (c', t)"
  shows "lookup_ok c c' t \<and> (\<exists>i. t = TypeMap i k v)"
proof (cases "maps c (map_key k v)")
  case (Some u)
  then have u: "table c (KMap (map_key k v)) = Some u" by simp
  note found = found_entry [OF assms(1) u]
  obtain i x y where xy: "u = TypeMap i x y" "map_key k v = map_key x y"
    using found(2) by (auto simp: tkey_of_cases)
  have "k = x \<and> v = y"
    by (rule map_key_inj [OF ctx_invD(1) [OF assms(1)] _ assms(3,4) _ _ xy(2)])
      (use assms(2) found(3) xy(1) in \<open>auto simp: ctx_small_def\<close>)
  then show ?thesis
    using Some assms(5) lookup_ok_found [OF assms(1) u] xy(1) by (auto simp: LookupTypeMap_def)
next
  case None
  let ?t = "TypeMap (nextID c) k v"
  have "new_entry c ?t ((enter ?t c)\<lparr>maps := (maps c)(map_key k v \<mapsto> ?t)\<rparr>)"
    using None assms(3,4) by (auto simp: intern_simps)
  from lookup_ok_new [OF assms(1) this] show ?thesis
    using None assms(5) by (auto simp: LookupTypeMap_def enter_def Let_def)
qed

lemma LookupTypeUnion_ok:
  assumes "ctx_inv c" and "ctx_small c" and "\<forall>t\<in>set ts. known c t" and "LookupTypeUnion c ts = (c', t)"
  shows "lookup_ok c c' t \<and> (\<exists>i. t = TypeUnion i (sort_stable (\<lambda>a b. CompareTypes a b < 0) ts))"
proof -
  define ss where "ss = sort_stable (\<lambda>a b. CompareTypes a b < 0) ts"
  have kn: "\<forall>t\<in>set ss. known c t" using assms(3) by (simp add: ss_def)
  show ?thesis
  proof (cases "unions c (union_key ss)")
    case (Some u)
    then have u: "table c (KUnion (union_key ss)) = Some u" by simp
    note found = found_entry [OF assms(1) u]
    obtain i us where us: "u = TypeUnion i us" "union_key ss = union_key us"
      using found(2) by (auto simp: tkey_of_cases)
    have "ss = us"
      by (rule union_key_inj [OF ctx_invD(1) [OF assms(1)] _ kn _ us(2)])
        (use assms(2) found(3) us(1) in \<open>auto simp: ctx_small_def\<close>)
    then show ?thesis
      using Some assms(4) lookup_ok_found [OF assms(1) u] us(1)
      by (auto simp: LookupTypeUnion_def Let_def ss_def)
  next
    case None
    let ?t = "TypeUnion (nextID c) ss"
    have "new_entry c ?t ((enter ?t c)\<lparr>unions := (unions c)(union_key ss \<mapsto> ?t)\<rparr>)"
      using None kn sort_stable_idem [of "\<lambda>a b. CompareTypes a b < 0" ts] CompareTypes_asym
      by (auto simp: intern_simps ss_def)
    from lookup_ok_new [OF assms(1) this] show ?thesis
      using None assms(4) by (auto simp: LookupTypeUnion_def enter_def Let_def ss_def)
  qed
qed

lemma LookupTypeEnum_ok:
  assumes "ctx_inv c" and "\<forall>n\<in>set ss. short_name n" and "LookupTypeEnum c ss = (c', t)"
  shows "lookup_ok c c' t \<and> (\<exists>i. t = TypeEnum i ss)"
proof (cases "enums c (enum_key ss)")
  case (Some u)
  then have u: "table c (KEnum (enum_key ss)) = Some u" by simp
  note found = found_entry [OF assms(1) u]
  obtain i rs where rs: "u = TypeEnum i rs" "enum_key ss = enum_key rs"
    using found(2) by (auto simp: tkey_of_cases)
  have "ss = rs" by (rule enum_key_inj [OF assms(2) _ rs(2)]) (use found(4) rs(1) in auto)
  then show ?thesis
    using Some assms(3) lookup_ok_found [OF assms(1) u] rs(1) by (auto simp: LookupTypeEnum_def)
next
  case None
  let ?t = "TypeEnum (nextID c) ss"
  have "new_entry c ?t ((enter ?t c)\<lparr>enums := (enums c)(enum_key ss \<mapsto> ?t)\<rparr>)"
    using None assms(2) by (auto simp: intern_simps)
  from lookup_ok_new [OF assms(1) this] show ?thesis
    using None assms(3) by (auto simp: LookupTypeEnum_def enter_def Let_def)
qed

text \<open>Named types also rebind their name, and error types of strings fill the cache.\<close>

lemma ctx_inv_bind:
  assumes "ctx_inv c" and "known c t" and "t = TypeNamed i n u"
  shows "ctx_inv (c\<lparr>typedefs := (typedefs c)(n \<mapsto> t)\<rparr>)"
  using assms by (auto simp: ctx_inv_def ids_ok_def tables_ok_def bindings_ok_def entry_ok_def)

lemma ctx_inv_stringErr:
  assumes "ctx_inv c" and "known c t" and "t = TypeError i (TypePrim TypeString)"
  shows "ctx_inv (c\<lparr>stringErr := Some t\<rparr>)"
  using assms by (auto simp: ctx_inv_def ids_ok_def tables_ok_def bindings_ok_def entry_ok_def)

lemma lookup_ok_frame:
  "lookup_ok c c' t \<Longrightarrow> ctx_inv (c'\<lparr>typedefs := d\<rparr>) \<Longrightarrow> lookup_ok c (c'\<lparr>typedefs := d\<rparr>) t"
  "lookup_ok c c' t \<Longrightarrow> ctx_inv (c'\<lparr>stringErr := e\<rparr>) \<Longrightarrow> lookup_ok c (c'\<lparr>stringErr := e\<rparr>) t"
  by (simp_all add: lookup_ok_def extends_def)

lemma LookupTypeNamed_ok:
  assumes "ctx_inv c" and "ctx_small c" and "short_name n" and "known c e"
    and "LookupTypeNamed c n e = (c', Inr t)"
  shows "lookup_ok c c' t \<and> (\<exists>i. t = TypeNamed i n e) \<and> typedefs c' = (typedefs c)(n \<mapsto> t)"
proof -
  have good: "ValidString n" "LookupPrimitive n = None"
    using assms(5) by (auto simp: LookupTypeNamed_def split: if_splits)
  show ?thesis
  proof (cases "nameds c (named_key n e)")
    case (Some u)
    then have u: "table c (KNamed (named_key n e)) = Some u" by simp
    note found = found_entry [OF assms(1) u]
    obtain i m f where mf: "u = TypeNamed i m f" "named_key n e = named_key m f"
      using found(2) by (auto simp: tkey_of_cases)
    have "n = m \<and> e = f"
      by (rule named_key_inj [OF ctx_invD(1) [OF assms(1)] _ assms(3) _ assms(4) _ mf(2)])
        (use assms(2) found(3,4) mf(1) in \<open>auto simp: ctx_small_def\<close>)
    moreover have "t = u" "c' = c\<lparr>typedefs := (typedefs c)(n \<mapsto> u)\<rparr>"
      using Some good assms(5) by (auto simp: LookupTypeNamed_def)
    ultimately show ?thesis
      using mf(1) found(1) ctx_inv_bind [OF assms(1) found(1)] lookup_ok_found [OF assms(1) u]
      by (auto intro!: lookup_ok_frame)
  next
    case None
    let ?t = "TypeNamed (nextID c) n e"
    let ?c1 = "(enter ?t c)\<lparr>nameds := (nameds c)(named_key n e \<mapsto> ?t)\<rparr>"
    have "new_entry c ?t ?c1"
      using None assms(3,4) good by (auto simp: intern_simps)
    then have ok: "lookup_ok c ?c1 ?t" by (rule lookup_ok_new [OF assms(1)]) (simp_all add: enter_def)
    have "t = ?t" "c' = ?c1\<lparr>typedefs := (typedefs ?c1)(n \<mapsto> ?t)\<rparr>"
      using None good assms(5) by (auto simp: LookupTypeNamed_def Let_def enter_def)
    moreover have "ctx_inv (?c1\<lparr>typedefs := (typedefs ?c1)(n \<mapsto> ?t)\<rparr>)"
      using ok by (intro ctx_inv_bind) (auto simp: lookup_ok_def)
    ultimately show ?thesis using ok by (auto intro!: lookup_ok_frame simp: enter_def)
  qed
qed

lemma LookupTypeNamed_err: "LookupTypeNamed c n e = (c', Inl x) \<Longrightarrow> c' = c"
  by (auto simp: LookupTypeNamed_def Let_def split: if_splits option.splits)

lemma LookupTypeError_ok:
  assumes "ctx_inv c" and "known c e" and "LookupTypeError c e = (c', t)"
  shows "lookup_ok c c' t \<and> (\<exists>i. t = TypeError i e)"
proof (cases "errors c e")
  case (Some u)
  then show ?thesis
    using assms lookup_ok_found [of c "KErr e" u] by (auto simp: LookupTypeError_def tkey_of_cases)
next
  case None
  let ?t = "TypeError (nextID c) e" let ?c1 = "(enter ?t c)\<lparr>errors := (errors c)(e \<mapsto> ?t)\<rparr>"
  have "new_entry c ?t ?c1"
    using None assms(2) by (auto simp: intern_simps)
  then have ok: "lookup_ok c ?c1 ?t" by (rule lookup_ok_new [OF assms(1)]) (simp_all add: enter_def)
  have "ctx_inv (?c1\<lparr>stringErr := Some ?t\<rparr>)" if "e = TypePrim TypeString"
    using ok that by (intro ctx_inv_stringErr) (auto simp: lookup_ok_def)
  moreover have "t = ?t" "c' = (if e = TypePrim TypeString then ?c1\<lparr>stringErr := Some ?t\<rparr> else ?c1)"
    using None assms(3) by (auto simp: LookupTypeError_def Let_def)
  ultimately show ?thesis using ok by (auto intro!: lookup_ok_frame)
qed

subsection \<open>One value per type\<close>

text \<open>A type without its identifiers: what the type means, whatever context it is from.\<close>

primrec erase :: "ztype \<Rightarrow> ztype" where
  "erase (TypePrim p) = TypePrim p"
| "erase (TypeRecord i fs) = TypeRecord 0 (map (map_prod id erase) fs)"
| "erase (TypeArray i t) = TypeArray 0 (erase t)"
| "erase (TypeSet i t) = TypeSet 0 (erase t)"
| "erase (TypeMap i k v) = TypeMap 0 (erase k) (erase v)"
| "erase (TypeUnion i ts) = TypeUnion 0 (map erase ts)"
| "erase (TypeEnum i ss) = TypeEnum 0 ss"
| "erase (TypeError i t) = TypeError 0 (erase t)"
| "erase (TypeNamed i n t) = TypeNamed 0 n (erase t)"

lemma tkey_unique:
  assumes "tables_ok c" and "known c t" and "known c u" and "tkey_of t = Some k" and "tkey_of u = Some k"
  shows "t = u"
proof -
  have "table c k = Some t" "table c k = Some u" using assms by (auto simp: tables_ok_def)
  then show ?thesis by simp
qed

lemma map_eq_unique:
  assumes "map f xs = map f ys" and "\<And>x y. x \<in> set xs \<Longrightarrow> y \<in> set ys \<Longrightarrow> f x = f y \<Longrightarrow> x = y"
  shows "xs = ys"
  using assms
proof (induction xs arbitrary: ys)
  case (Cons x xs)
  from Cons.prems(1) obtain y ys' where ys: "ys = y # ys'" by (cases ys) simp_all
  have "x = y" using Cons.prems ys by simp
  moreover have "xs = ys'" by (rule Cons.IH) (use Cons.prems ys in simp_all)
  ultimately show ?case using ys by simp
qed simp

lemma map_fst_snd_eq: "map fst fs = map fst gs \<Longrightarrow> map snd fs = map snd gs \<Longrightarrow> fs = gs"
  by (metis zip_map_fst_snd)

lemma map_prod_erase_eq:
  assumes "map (map_prod id erase) fs = map (map_prod id erase) gs"
  shows "map fst fs = map fst gs" and "map erase (map snd fs) = map erase (map snd gs)"
  using arg_cong [OF assms, of "map fst"] arg_cong [OF assms, of "map snd"] by (simp_all add: comp_def)

lemma erase_parts: "erase t = erase u \<Longrightarrow> map erase (parts t) = map erase (parts u)"
  by (cases t; cases u) (auto dest: map_prod_erase_eq(2))

lemma erase_tkey: "erase t = erase u \<Longrightarrow> parts t = parts u \<Longrightarrow> tkey_of t = tkey_of u"
  by (cases t; cases u) (auto dest: map_prod_erase_eq(1) map_fst_snd_eq)

lemma size_parts: "p \<in> set (parts t) \<Longrightarrow> size p < size t"
  using size_record_field size_union_member by (cases t) force+

lemma erase_unique:
  assumes "ctx_inv c" and "known c t" and "known c u" and "erase t = erase u"
  shows "t = u"
  using assms(2-4)
proof (induction t arbitrary: u rule: measure_induct_rule [where f = size])
  case (less t)
  have parts: "parts t = parts u"
  proof (rule map_eq_unique [OF erase_parts [OF less.prems(3)]])
    fix p q assume pq: "p \<in> set (parts t)" "q \<in> set (parts u)" "erase p = erase q"
    show "p = q"
      using less.IH [OF size_parts [OF pq(1)] _ _ pq(3)] pq(1,2) less.prems(1,2)
        known_parts [OF ctx_invD(1) [OF assms(1)]] by blast
  qed
  have key: "tkey_of t = tkey_of u" by (rule erase_tkey [OF less.prems(3) parts])
  show ?case
  proof (cases "tkey_of t")
    case None
    then show ?thesis using key less.prems(3) by (auto simp: tkey_of_None)
  next
    case (Some k)
    then show ?thesis
      using tkey_unique [OF ctx_invD(2) [OF assms(1)] less.prems(1,2)] key by simp
  qed
qed

text \<open>
  One lookup on a context, and the contexts in use: everything a sequence of lookups can make from
  an empty context. Lookups are made with types of the context and names shorter than \<open>2 ^ 32\<close>,
  which the 32-bit lengths in the keys need.
\<close>

inductive ctx_step :: "tcontext \<Rightarrow> tcontext \<Rightarrow> bool" where
  step_record: "ctx_small c \<Longrightarrow> \<forall>(n, t)\<in>set fs. short_name n \<and> known c t \<Longrightarrow>
    LookupTypeRecord c fs = (c', r) \<Longrightarrow> ctx_step c c'"
| step_array: "known c e \<Longrightarrow> LookupTypeArray c e = (c', t) \<Longrightarrow> ctx_step c c'"
| step_set: "known c e \<Longrightarrow> LookupTypeSet c e = (c', t) \<Longrightarrow> ctx_step c c'"
| step_map: "ctx_small c \<Longrightarrow> known c k \<Longrightarrow> known c v \<Longrightarrow> LookupTypeMap c k v = (c', t) \<Longrightarrow> ctx_step c c'"
| step_union: "ctx_small c \<Longrightarrow> \<forall>t\<in>set ts. known c t \<Longrightarrow> LookupTypeUnion c ts = (c', t) \<Longrightarrow> ctx_step c c'"
| step_enum: "\<forall>n\<in>set ss. short_name n \<Longrightarrow> LookupTypeEnum c ss = (c', t) \<Longrightarrow> ctx_step c c'"
| step_named: "ctx_small c \<Longrightarrow> short_name n \<Longrightarrow> known c e \<Longrightarrow> LookupTypeNamed c n e = (c', r) \<Longrightarrow> ctx_step c c'"
| step_error: "known c e \<Longrightarrow> LookupTypeError c e = (c', t) \<Longrightarrow> ctx_step c c'"

inductive ctx_reach :: "tcontext \<Rightarrow> bool" where
  reach_new: "ctx_reach NewContext"
| reach_step: "ctx_reach c \<Longrightarrow> ctx_step c c' \<Longrightarrow> ctx_reach c'"
| reach_reset: "ctx_reach c \<Longrightarrow> stringErr c = None \<Longrightarrow> ctx_reach (Context_Reset c)"

lemmas reach_array = reach_step [OF _ step_array]

lemma ctx_inv_New: "ctx_inv NewContext"
proof -
  have "known NewContext t \<longleftrightarrow> (\<exists>p. t = TypePrim p)" for t
    by (cases t) (auto simp: known_def NewContext_def)
  moreover have "table NewContext k = None" for k by (cases k) (simp_all add: NewContext_def)
  ultimately show ?thesis
    by (auto simp: ctx_inv_def ids_ok_def tables_ok_def bindings_ok_def NewContext_def)
qed

lemma known_Reset: "ids_ok c \<Longrightarrow> known (Context_Reset c) t \<longleftrightarrow> (\<exists>p. t = TypePrim p)"
proof (cases t)
qed (auto simp: known_def Context_Reset_def ids_ok_def)

lemma ctx_inv_Reset: "ctx_inv c \<Longrightarrow> stringErr c = None \<Longrightarrow> ctx_inv (Context_Reset c)"
proof -
  assume c: "ctx_inv c" "stringErr c = None"
  have "table (Context_Reset c) k = None" for k by (cases k) (simp_all add: Context_Reset_def)
  moreover have "byID (Context_Reset c) = replicate IDTypeComplex None"
    using c(1) by (auto simp: ctx_inv_def ids_ok_def Context_Reset_def list_eq_iff_nth_eq)
  ultimately show ?thesis
    using c known_Reset [OF ctx_invD(1) [OF c(1)]]
    by (auto simp: ctx_inv_def ids_ok_def tables_ok_def bindings_ok_def Context_Reset_def)
qed

lemma ctx_step_inv: "ctx_step c c' \<Longrightarrow> ctx_inv c \<Longrightarrow> ctx_inv c' \<and> extends c c'"
proof (induction rule: ctx_step.induct)
  case (step_record c fs c' r)
  then show ?case
    using LookupTypeRecord_ok [of c fs c' r] by (auto simp: lookup_ok_def split: sum.splits)
next
  case (step_named c n e c' r)
  then show ?case
    using LookupTypeNamed_ok [of c n e c'] LookupTypeNamed_err [of c n e c']
    by (cases r) (auto simp: lookup_ok_def)
next
  case (step_array c e c' t)
  then show ?case using LookupTypeArray_ok [of c e c' t] by (simp add: lookup_ok_def)
next
  case (step_set c e c' t)
  then show ?case using LookupTypeSet_ok [of c e c' t] by (simp add: lookup_ok_def)
next
  case (step_map c k v c' t)
  then show ?case using LookupTypeMap_ok [of c k v c' t] by (simp add: lookup_ok_def)
next
  case (step_union c ts c' t)
  then show ?case using LookupTypeUnion_ok [of c ts c' t] by (simp add: lookup_ok_def)
next
  case (step_enum ss c c' t)
  then show ?case using LookupTypeEnum_ok [of c ss c' t] by (simp add: lookup_ok_def)
next
  case (step_error c e c' t)
  then show ?case using LookupTypeError_ok [of c e c' t] by (simp add: lookup_ok_def)
qed

lemma ctx_reach_inv: "ctx_reach c \<Longrightarrow> ctx_inv c"
  by (induction rule: ctx_reach.induct) (use ctx_inv_New ctx_step_inv ctx_inv_Reset in blast)+

subsection \<open>Properties\<close>

lemma table_known: "ctx_inv c \<Longrightarrow> known c t \<Longrightarrow> tkey_of t = Some k \<Longrightarrow> table c k = Some t"
  by (simp add: ctx_inv_def tables_ok_def)

lemma known_shape: "ctx_inv c \<Longrightarrow> known c t \<Longrightarrow> shape_ok t"
  using known_entry(1) [OF ctx_invD(1), of c t] by (cases t) (auto simp: entry_ok_def)

lemma LookupPrimitiveByID_prim: "LookupPrimitiveByID (int (prim_ID p)) = Inr p"
  by (cases p) (simp_all add: LookupPrimitiveByID_def)

text \<open>
  C8: In every context that lookups build, a type has one representative: two types of the context
  that mean the same (equal up to identifiers) are the same value, so the code may compare types by
  pointer. \<close>

theorem types_unique:
  assumes "ctx_reach c" and "known c t" and "known c u" and "erase t = erase u"
  shows "t = u"
  using erase_unique [OF ctx_reach_inv [OF assms(1)] assms(2-4)] .

theorem types_unique_witness:
  "let (c, t) = LookupTypeArray NewContext (TypePrim TypeInt64); (c', u) = LookupTypeArray c (TypePrim TypeInt64)
   in ctx_reach c' \<and> known c' t \<and> known c' u \<and> erase t = erase u \<and> t = u"
proof -
  obtain c t where ct: "LookupTypeArray NewContext (TypePrim TypeInt64) = (c, t)" by force
  obtain c' u where cu: "LookupTypeArray c (TypePrim TypeInt64) = (c', u)" by force
  have c: "ctx_reach c" by (rule reach_array [OF reach_new _ ct]) simp
  have c': "ctx_reach c'" by (rule reach_array [OF c _ cu]) simp
  have t: "lookup_ok NewContext c t" "\<exists>i. t = TypeArray i (TypePrim TypeInt64)"
    using LookupTypeArray_ok [OF ctx_inv_New _ ct] by simp_all
  have u: "lookup_ok c c' u" "\<exists>i. u = TypeArray i (TypePrim TypeInt64)"
    using LookupTypeArray_ok [OF ctx_reach_inv [OF c] _ cu] by simp_all
  have k: "known c' t" "known c' u" "erase t = erase u"
    using t u by (auto simp: lookup_ok_def dest: extendsD)
  show ?thesis using c' k types_unique [OF c' k] by (simp add: ct cu)
qed

text \<open>
  A context maps the identifier of each of its types, primitive or complex, back to that
  type. \<close>

theorem lookup_by_id:
  assumes "ctx_reach c" and "known c t"
  shows "LookupType c (int (TypeID t)) = Inr t"
proof (cases "tkey_of t")
  case None
  then obtain p where "t = TypePrim p" by (auto simp: tkey_of_None)
  then show ?thesis using prim_ID_less [of p] LookupPrimitiveByID_prim
    by (simp add: LookupType_def IDTypeComplex_def)
next
  case Some
  then show ?thesis
    using known_entry(2) [OF ctx_invD(1) [OF ctx_reach_inv [OF assms(1)]] assms(2)] assms(2)
      known_complex [of t c] by (auto simp: LookupType_def)
qed

theorem lookup_by_id_witness:
  "let (c, t) = LookupTypeArray NewContext (TypePrim TypeInt64)
   in ctx_reach c \<and> known c t \<and> LookupType c 30 = Inr t"
proof -
  obtain c t where ct: "LookupTypeArray NewContext (TypePrim TypeInt64) = (c, t)" by force
  have c: "ctx_reach c" by (rule reach_array [OF reach_new _ ct]) simp
  have "known c t" using LookupTypeArray_ok [OF ctx_inv_New _ ct] by (simp add: lookup_ok_def)
  moreover have "TypeID t = 30"
    using ct by (auto simp: LookupTypeArray_def NewContext_def nextID_def TypeID_def IDTypeComplex_def Let_def)
  ultimately show ?thesis using c lookup_by_id [of c t] by (simp add: ct)
qed

text \<open>
  Asking again for a type gives the same value and leaves the context alone, also after any
  number of other lookups in between: every complex type of a context is what the matching lookup
  returns for its components. \<close>

theorem lookups_stable:
  assumes "ctx_reach c" and "known c t"
  shows "case t of
      TypeRecord _ fs \<Rightarrow> LookupTypeRecord c fs = (c, Inr t)
    | TypeArray _ e \<Rightarrow> LookupTypeArray c e = (c, t)
    | TypeSet _ e \<Rightarrow> LookupTypeSet c e = (c, t)
    | TypeMap _ k v \<Rightarrow> LookupTypeMap c k v = (c, t)
    | TypeUnion _ ts \<Rightarrow> LookupTypeUnion c ts = (c, t)
    | TypeEnum _ ss \<Rightarrow> LookupTypeEnum c ss = (c, t)
    | TypeError _ e \<Rightarrow> LookupTypeError c e = (c, t)
    | TypeNamed _ n e \<Rightarrow> LookupTypeNamed c n e = (c\<lparr>typedefs := (typedefs c)(n \<mapsto> t)\<rparr>, Inr t)
    | _ \<Rightarrow> True"
  using table_known [OF ctx_reach_inv [OF assms(1)] assms(2)] known_shape [OF ctx_reach_inv [OF assms(1)] assms(2)]
  by (cases t)
    (simp_all add: LookupTypeRecord_def LookupTypeArray_def LookupTypeSet_def LookupTypeMap_def
      LookupTypeUnion_def LookupTypeEnum_def LookupTypeError_def LookupTypeNamed_def)

theorem lookups_stable_witness:
  "let (c, t) = LookupTypeArray NewContext (TypePrim TypeInt64)
   in ctx_reach c \<and> known c t \<and> (\<exists>i. t = TypeArray i (TypePrim TypeInt64)) \<and>
      LookupTypeArray c (TypePrim TypeInt64) = (c, t)"
proof -
  obtain c t where ct: "LookupTypeArray NewContext (TypePrim TypeInt64) = (c, t)" by force
  have c: "ctx_reach c" by (rule reach_array [OF reach_new _ ct]) simp
  have t: "known c t" "\<exists>i. t = TypeArray i (TypePrim TypeInt64)"
    using LookupTypeArray_ok [OF ctx_inv_New _ ct] by (simp_all add: lookup_ok_def)
  show ?thesis using lookups_stable [OF c t(1)] c t by (auto simp: ct)
qed

lemma dup_loop_Some: "dup_loop n ns = Some m \<Longrightarrow> 2 \<le> count_list (n # ns) m"
proof (induction ns arbitrary: n)
  case (Cons k ns)
  show ?case
  proof (cases "k = n")
    case False
    then show ?thesis using Cons.IH [of k] Cons.prems by auto
  qed (use Cons.prems in auto)
qed simp

lemma duplicateField_Some: "duplicateField fs = Some n \<Longrightarrow> 2 \<le> count_list (map fst fs) n"
proof -
  assume d: "duplicateField fs = Some n"
  let ?s = "sort_stable (\<lambda>a b. bytes_Compare a b = -1) (map fst fs)"
  obtain m ms where s: "?s = m # ms" "dup_loop m ms = Some n"
    using d by (auto simp: duplicateField_def split: if_splits list.splits)
  have "count_list ?s n = count_list (map fst fs) n"
    by (simp flip: count_mset)
  then show ?thesis using dup_loop_Some [OF s(2)] s(1) by simp
qed

text \<open>
  A record type is made exactly when its field names are distinct. Otherwise the context is
  unchanged and the error names a field that occurs at least twice. \<close>

theorem record_fields_distinct:
  assumes "ctx_reach c" and "ctx_small c" and "\<forall>(n, t)\<in>set fs. short_name n \<and> known c t"
  shows "if distinct (map fst fs) then \<exists>c' i. LookupTypeRecord c fs = (c', Inr (TypeRecord i fs))
    else \<exists>n. LookupTypeRecord c fs = (c, Inl (DuplicateField n)) \<and> 2 \<le> count_list (map fst fs) n"
proof -
  obtain c' r where cr: "LookupTypeRecord c fs = (c', r)" by force
  note ok = LookupTypeRecord_ok [OF ctx_reach_inv [OF assms(1)] assms(2,3) cr]
  show ?thesis
  proof (cases r)
    case (Inl e)
    then have "\<exists>n. e = DuplicateField n \<and> duplicateField fs = Some n"
      using cr by (auto simp: LookupTypeRecord_def Let_def split: option.splits)
    then show ?thesis using ok cr Inl duplicateField_Some by auto
  qed (use ok cr in auto)
qed

theorem record_fields_distinct_witness:
  "ctx_reach NewContext \<and> ctx_small NewContext \<and>
   (\<exists>n. LookupTypeRecord NewContext [(str ''a'', TypePrim TypeIP), (str ''b'', TypePrim TypeIP), (str ''a'', TypePrim TypeNet)]
     = (NewContext, Inl (DuplicateField n)))"
  using record_fields_distinct [OF reach_new, of "[(str ''a'', TypePrim TypeIP), (str ''b'', TypePrim TypeIP), (str ''a'', TypePrim TypeNet)]"] reach_new
  by (auto simp: ctx_small_def NewContext_def IDTypeComplex_def short_name_def str_def)

text \<open>
  \<open>Reset\<close> empties the tables but not the cached error type. After a reset the string error
  type is one that is not in the context, and its identifier is given to another type as well. \<close>

theorem reset_keeps_stale_error_type:
  "let c1 = Context_Reset (fst (StringTypeError NewContext));
       (c2, a) = LookupTypeArray c1 (TypePrim TypeInt64);
       (c3, e) = StringTypeError c2
   in \<not> known c3 e \<and> known c3 a \<and> TypeID a = TypeID e \<and> a \<noteq> e"
  by (simp add: StringTypeError_def LookupTypeError_def LookupTypeArray_def NewContext_def
      Context_Reset_def nextID_def enter_def TypeID_def known_def IDTypeComplex_def Let_def nth_append)

end
