(* ===== verification/Type_Order.thy ===== *)
theory Type_Order
  imports Context_Inv
begin

text \<open>
  The order of types (\<open>CompareTypes\<close>), by which unions are sorted: on the types of a context it
  is a total order as long as no name stands for two types with one underlying type, and then a
  union does not depend on the order in which its members are given.
\<close>

subsection \<open>Lexicographic comparison\<close>

text \<open>Three comparisons, of x with y, y with z and x with z, fit together.\<close>

definition tri :: "int \<Rightarrow> int \<Rightarrow> int \<Rightarrow> bool" where
  "tri p q r \<longleftrightarrow> (p \<le> 0 \<and> q \<le> 0 \<longrightarrow> r \<le> 0 \<and> (r = 0 \<longrightarrow> p = 0 \<and> q = 0))"

lemma tri_lex:
  "tri p q r \<Longrightarrow> (p = 0 \<Longrightarrow> q = 0 \<Longrightarrow> tri p' q' r') \<Longrightarrow>
   tri (if p \<noteq> 0 then p else p') (if q \<noteq> 0 then q else q') (if r \<noteq> 0 then r else r')"
  by (auto simp: tri_def)

lemma tri_first_nonzero_Cons:
  "tri p q r \<Longrightarrow> (p = 0 \<Longrightarrow> q = 0 \<Longrightarrow> tri (first_nonzero ps) (first_nonzero qs) (first_nonzero rs)) \<Longrightarrow>
   tri (first_nonzero (p # ps)) (first_nonzero (q # qs)) (first_nonzero (r # rs))"
  using tri_lex [of p q r "first_nonzero ps" "first_nonzero qs" "first_nonzero rs"] by simp

lemma first_nonzero_append:
  "first_nonzero (ps @ qs) = (if first_nonzero ps \<noteq> 0 then first_nonzero ps else first_nonzero qs)"
  by (induction ps) auto

lemma tri_first_nonzero_append:
  "tri (first_nonzero ps) (first_nonzero qs) (first_nonzero rs) \<Longrightarrow>
   tri (first_nonzero ps') (first_nonzero qs') (first_nonzero rs') \<Longrightarrow>
   tri (first_nonzero (ps @ ps')) (first_nonzero (qs @ qs')) (first_nonzero (rs @ rs'))"
  unfolding first_nonzero_append by (rule tri_lex)

lemma tri_zip:
  assumes "length xs = length ys" and "length ys = length zs"
    and "\<And>x y z. x \<in> set xs \<Longrightarrow> y \<in> set ys \<Longrightarrow> z \<in> set zs \<Longrightarrow> tri (f x y) (f y z) (f x z)"
  shows "tri (first_nonzero (map (\<lambda>(x, y). f x y) (zip xs ys)))
    (first_nonzero (map (\<lambda>(x, y). f x y) (zip ys zs))) (first_nonzero (map (\<lambda>(x, y). f x y) (zip xs zs)))"
  using assms
proof (induction xs ys zs rule: list_induct3)
  case (Cons x xs y ys z zs)
  then show ?case by (auto intro!: tri_first_nonzero_Cons simp del: first_nonzero.simps)
qed (simp add: tri_def)

lemma tri_cmp_Compare: "tri (cmp_Compare a b) (cmp_Compare b c) (cmp_Compare a c)"
  by (auto simp: tri_def cmp_Compare_def)

lemma tri_bytes_Compare: "tri (bytes_Compare a b) (bytes_Compare b c) (bytes_Compare a c)"
  using bytes_Compare_trans [of a b c] bytes_Compare_range [of a b] bytes_Compare_range [of b c]
  by (auto simp: tri_def)

lemma tri_lengths:
  assumes "length xs = length ys \<Longrightarrow> length ys = length zs \<Longrightarrow>
      tri (first_nonzero ps) (first_nonzero qs) (first_nonzero rs)"
  shows "tri (first_nonzero (cmp_Compare (length xs) (length ys) # ps))
    (first_nonzero (cmp_Compare (length ys) (length zs) # qs))
    (first_nonzero (cmp_Compare (length xs) (length zs) # rs))"
  by (rule tri_first_nonzero_Cons [OF tri_cmp_Compare]) (use assms in simp)

text \<open>The outermost name of a type, if it has one.\<close>

fun outer_name :: "ztype \<Rightarrow> gostring option" where
  "outer_name (TypeNamed _ n _) = Some n"
| "outer_name _ = None"

lemma compare_names_outer:
  "compare_names a b = (case (outer_name a, outer_name b) of
     (Some n, Some m) \<Rightarrow> bytes_Compare n m | (Some n, None) \<Rightarrow> 1 | (None, Some m) \<Rightarrow> -1 | _ \<Rightarrow> 0)"
  by (cases a; cases b) (simp_all add: compare_names_def)

lemma compare_names_eq_0: "compare_names a b = 0 \<longleftrightarrow> outer_name a = outer_name b"
  by (auto simp: compare_names_outer split: option.splits)

lemma tri_compare_names: "tri (compare_names a b) (compare_names b c) (compare_names a c)"
  by (cases "outer_name a"; cases "outer_name b"; cases "outer_name c")
    (simp_all add: compare_names_outer tri_bytes_Compare, simp_all add: tri_def)

lemma first_nonzero_eq_0: "first_nonzero cs = 0 \<longleftrightarrow> (\<forall>c\<in>set cs. c = 0)"
  by (induction cs) auto

lemma zip_all_eq:
  assumes "length xs = length ys" and "\<forall>(x, y)\<in>set (zip xs ys). x = y"
  shows "xs = ys"
  using assms by (induction xs ys rule: list_induct2) auto

subsection \<open>Underlying types in a context\<close>

definition unambiguous :: "tcontext \<Rightarrow> bool" where
  "unambiguous c \<longleftrightarrow> (\<forall>t u. known c t \<longrightarrow> known c u \<longrightarrow> outer_name t \<noteq> None \<longrightarrow>
     outer_name t = outer_name u \<longrightarrow> TypeUnder t = TypeUnder u \<longrightarrow> t = u)"

lemma known_TypeUnder: "ids_ok c \<Longrightarrow> known c t \<Longrightarrow> known c (TypeUnder t)"
proof (induction t rule: TypeUnder.induct)
  case (1 i n t)
  then show ?case using known_parts [of c "TypeNamed i n t" t] by simp
qed simp_all

lemma TypeID_under: "TypeID (TypeUnder t) = ID t"
  using TypeUnder_not_named [of t] ID_under [of t] by (cases "TypeUnder t") (auto simp: TypeID_def)

lemma same_ID_under:
  "ids_ok c \<Longrightarrow> known c a \<Longrightarrow> known c b \<Longrightarrow> ID a = ID b \<longleftrightarrow> TypeUnder a = TypeUnder b"
  using TypeID_inj [of c "TypeUnder a" "TypeUnder b"] known_TypeUnder TypeID_under by metis

lemma TypeUnder_unnamed: "outer_name t = None \<Longrightarrow> TypeUnder t = t"
  by (cases t) simp_all

lemma unambiguousD:
  assumes "unambiguous c" and "known c t" and "known c u" and "outer_name t = outer_name u"
    and "TypeUnder t = TypeUnder u"
  shows "t = u"
  using assms TypeUnder_unnamed [of t] TypeUnder_unnamed [of u] unfolding unambiguous_def by metis

lemma CompareTypes_self: "CompareTypes a a = 0"
  by (simp add: CompareTypes_same_ID compare_names_eq_0)

text \<open>The parts of the underlying type of a known type are known and smaller.\<close>

lemma known_under_parts:
  assumes "ids_ok c" and "known c t" and "p \<in> set (parts (TypeUnder t))"
  shows "known c p" and "size p < size t"
  using known_parts [OF assms(1) known_TypeUnder [OF assms(1,2)] assms(3)] size_parts [OF assms(3)]
    size_TypeUnder [of t] by simp_all

subsection \<open>Total order\<close>

lemma first_nonzero_zip_0:
  "first_nonzero (map (\<lambda>(x, y). f x y) (zip xs ys)) = 0 \<longleftrightarrow> (\<forall>(x, y)\<in>set (zip xs ys). f x y = 0)"
  by (auto simp: first_nonzero_eq_0)

lemmas first_nonzero_0 = first_nonzero.simps first_nonzero_append first_nonzero_zip_0

lemma CompareTypes_eq_0:
  assumes "ctx_inv c" and "unambiguous c" and "known c a" and "known c b" and "CompareTypes a b = 0"
  shows "a = b"
  using assms(3-5)
proof (induction a arbitrary: b rule: measure_induct_rule [where f = size])
  case (less a)
  note ids = ctx_invD(1) [OF assms(1)]
  note ka = known_under_parts [OF ids less.prems(1)] and kb = known_under_parts(1) [OF ids less.prems(2)]
  have IH: "x = y" if "x \<in> set (parts (TypeUnder a))" "y \<in> set (parts (TypeUnder b))" "CompareTypes x y = 0" for x y
    using less.IH [OF ka(2) ka(1) kb that(3)] that by blast
  show ?case
  proof (cases "ID a = ID b")
    case True
    then show ?thesis
      using less.prems unambiguousD [OF assms(2) less.prems(1,2)] same_ID_under [OF ids less.prems(1,2)]
      by (simp add: CompareTypes_same_ID compare_names_eq_0)
  next
    case False
    have k: "Kind a = Kind b"
      using False less.prems(3) CompareTypes_kinds [OF False] by (auto simp: kind_num_inj)
    note un = CompareTypes_under [OF False] and zero = less.prems(3)
    have "erase (TypeUnder a) = erase (TypeUnder b)"
    proof (cases rule: TypeUnder_cases [of a])
      case (prim p)
      then obtain q where "TypeUnder b = TypePrim q" using same_kind_under(1) [OF k] by blast
      then show ?thesis using un(1) [OF prim] zero False by simp
    next
      case (rec i fs)
      then obtain j gs where b: "TypeUnder b = TypeRecord j gs" using same_kind_under(2) [OF k] by blast
      have z: "length fs = length gs" "\<forall>(f, g)\<in>set (zip fs gs). fst f = fst g"
        "\<forall>(f, g)\<in>set (zip fs gs). CompareTypes (snd f) (snd g) = 0"
        using zero unfolding un(2) [OF rec b] by (auto simp: first_nonzero_0 split: if_splits)
      have "fs = gs"
        by (rule zip_all_eq [OF z(1)])
          (use z(2,3) IH rec b in \<open>fastforce dest: set_zip_leftD set_zip_rightD intro: prod_eqI\<close>)
      then show ?thesis using rec b by simp
    next
      case (arr i e)
      then obtain j f where b: "TypeUnder b = TypeArray j f" using same_kind_under(3) [OF k] by blast
      then show ?thesis using un(3) [OF arr b] arr IH [of e f] zero by simp
    next
      case (set i e)
      then obtain j f where b: "TypeUnder b = TypeSet j f" using same_kind_under(4) [OF k] by blast
      then show ?thesis using un(4) [OF set b] set IH [of e f] zero by simp
    next
      case (map i x y)
      then obtain j x' y' where b: "TypeUnder b = TypeMap j x' y'" using same_kind_under(5) [OF k] by blast
      then show ?thesis
        using un(5) [OF map b] map IH [of x x'] IH [of y y'] zero by (simp split: if_splits)
    next
      case (union i ts)
      then obtain j us where b: "TypeUnder b = TypeUnion j us" using same_kind_under(6) [OF k] by blast
      have z: "length ts = length us" "\<forall>(f, g)\<in>set (zip ts us). CompareTypes f g = 0"
        using zero unfolding un(6) [OF union b] by (auto simp: first_nonzero_0 split: if_splits)
      have "ts = us"
        by (rule zip_all_eq [OF z(1)])
          (use z(2) IH union b in \<open>fastforce dest: set_zip_leftD set_zip_rightD\<close>)
      then show ?thesis using union b by simp
    next
      case (enum i ss)
      then obtain j rs where b: "TypeUnder b = TypeEnum j rs" using same_kind_under(7) [OF k] by blast
      have z: "length ss = length rs" "\<forall>(f, g)\<in>set (zip ss rs). f = g"
        using zero unfolding un(7) [OF enum b] by (auto simp: first_nonzero_0 split: if_splits)
      then show ?thesis using zip_all_eq [OF z] enum b by simp
    next
      case (error i e)
      then obtain j f where b: "TypeUnder b = TypeError j f" using same_kind_under(8) [OF k] by blast
      then show ?thesis using un(8) [OF error b] error IH [of e f] zero by simp
    qed
    then have "TypeUnder a = TypeUnder b"
      using erase_unique [OF assms(1) known_TypeUnder [OF ids] known_TypeUnder [OF ids]] less.prems by blast
    then show ?thesis using False same_ID_under [OF ids less.prems(1,2)] by simp
  qed
qed

lemma CompareTypes_under_cong:
  "TypeUnder a = TypeUnder a' \<Longrightarrow> ID a \<noteq> ID b \<Longrightarrow> CompareTypes a b = CompareTypes a' b"
proof -
  assume u: "TypeUnder a = TypeUnder a'" and d: "ID a \<noteq> ID b"
  have "ID a' = ID a" "Kind a' = Kind a" using u by (metis ID_under, metis Kind_under)
  with u d show ?thesis
    unfolding CompareTypes.simps [of a b] CompareTypes.simps [of a' b] by (simp only: if_False)
qed

lemma tri_same_under:
  assumes "TypeUnder a = TypeUnder b" and "ID b \<noteq> ID c" and "CompareTypes b c \<noteq> 0"
  shows "tri (CompareTypes a b) (CompareTypes b c) (CompareTypes a c)"
    and "tri (CompareTypes c a) (CompareTypes a b) (CompareTypes c b)"
    and "tri (CompareTypes a c) (CompareTypes c b) (CompareTypes a b)"
proof -
  have "CompareTypes a c = CompareTypes b c"
    using CompareTypes_under_cong [OF assms(1), of c] ID_under [of a] ID_under [of b] assms(1,2) by simp
  then show "tri (CompareTypes a b) (CompareTypes b c) (CompareTypes a c)"
    and "tri (CompareTypes c a) (CompareTypes a b) (CompareTypes c b)"
    and "tri (CompareTypes a c) (CompareTypes c b) (CompareTypes a b)"
    using assms(3) CompareTypes_antisym [of c a] CompareTypes_antisym [of c b] by (auto simp: tri_def)
qed

text \<open>Structural comparison, when all three identifiers differ.\<close>

lemma tri_structural:
  assumes d: "ID a \<noteq> ID b" "ID b \<noteq> ID d" "ID a \<noteq> ID d" and k: "Kind a = Kind b" "Kind b = Kind d"
    and IH: "\<And>x y z. x \<in> set (parts (TypeUnder a)) \<Longrightarrow> y \<in> set (parts (TypeUnder b)) \<Longrightarrow>
      z \<in> set (parts (TypeUnder d)) \<Longrightarrow> tri (CompareTypes x y) (CompareTypes y z) (CompareTypes x z)"
  shows "tri (CompareTypes a b) (CompareTypes b d) (CompareTypes a d)"
proof (cases rule: TypeUnder_cases [of a])
  case (prim p)
  then obtain q r where "TypeUnder b = TypePrim q" "TypeUnder d = TypePrim r"
    using same_kind_under(1) k by metis
  then show ?thesis using prim d tri_cmp_Compare by (simp add: CompareTypes_under(1))
next
  case (rec i fs)
  then obtain j gs l hs where b: "TypeUnder b = TypeRecord j gs" "TypeUnder d = TypeRecord l hs"
    using same_kind_under(2) k by metis
  show ?thesis
    unfolding CompareTypes_under(2) [OF d(1) rec b(1)] CompareTypes_under(2) [OF d(2) b]
      CompareTypes_under(2) [OF d(3) rec b(2)]
    by (intro tri_lengths tri_first_nonzero_append tri_zip tri_bytes_Compare IH)
      (use rec b in auto)
next
  case (arr i e)
  then obtain j f l g where b: "TypeUnder b = TypeArray j f" "TypeUnder d = TypeArray l g"
    using same_kind_under(3) k by metis
  then show ?thesis using arr d IH [of e f g] by (simp add: CompareTypes_under(3))
next
  case (set i e)
  then obtain j f l g where b: "TypeUnder b = TypeSet j f" "TypeUnder d = TypeSet l g"
    using same_kind_under(4) k by metis
  then show ?thesis using set d IH [of e f g] by (simp add: CompareTypes_under(4))
next
  case (map i x y)
  then obtain j x' y' l x'' y'' where b: "TypeUnder b = TypeMap j x' y'" "TypeUnder d = TypeMap l x'' y''"
    using same_kind_under(5) k by metis
  show ?thesis
    unfolding CompareTypes_under(5) [OF d(1) map b(1)] CompareTypes_under(5) [OF d(2) b]
      CompareTypes_under(5) [OF d(3) map b(2)]
    by (intro tri_first_nonzero_Cons IH) (use map b in \<open>auto simp: tri_def\<close>)
next
  case (union i ts)
  then obtain j us l vs where b: "TypeUnder b = TypeUnion j us" "TypeUnder d = TypeUnion l vs"
    using same_kind_under(6) k by metis
  show ?thesis
    unfolding CompareTypes_under(6) [OF d(1) union b(1)] CompareTypes_under(6) [OF d(2) b]
      CompareTypes_under(6) [OF d(3) union b(2)]
    by (intro tri_lengths tri_zip IH) (use union b in auto)
next
  case (enum i ss)
  then obtain j rs l qs where b: "TypeUnder b = TypeEnum j rs" "TypeUnder d = TypeEnum l qs"
    using same_kind_under(7) k by metis
  show ?thesis
    unfolding CompareTypes_under(7) [OF d(1) enum b(1)] CompareTypes_under(7) [OF d(2) b]
      CompareTypes_under(7) [OF d(3) enum b(2)]
    by (intro tri_lengths tri_zip tri_bytes_Compare) auto
next
  case (error i e)
  then obtain j f l g where b: "TypeUnder b = TypeError j f" "TypeUnder d = TypeError l g"
    using same_kind_under(8) k by metis
  then show ?thesis using error d IH [of e f g] by (simp add: CompareTypes_under(8))
qed

lemma tri_kinds:
  assumes "ID a \<noteq> ID b" "ID b \<noteq> ID d" "ID a \<noteq> ID d" and "\<not> (Kind a = Kind b \<and> Kind b = Kind d)"
  shows "tri (CompareTypes a b) (CompareTypes b d) (CompareTypes a d)"
proof -
  have sgn: "CompareTypes x y = cmp_Compare (kind_num (Kind x)) (kind_num (Kind y))"
    if "Kind x \<noteq> Kind y" "ID x \<noteq> ID y" for x y using CompareTypes_kinds that by blast
  have ne: "kind_num (Kind x) = kind_num (Kind y) \<longleftrightarrow> Kind x = Kind y" for x y by (rule kind_num_inj)
  show ?thesis
    using assms(4) sgn [OF _ assms(1)] sgn [OF _ assms(2)] sgn [OF _ assms(3)] ne [of a b] ne [of b d] ne [of a d]
    by (cases "Kind a = Kind b"; cases "Kind b = Kind d"; cases "Kind a = Kind d")
      (auto simp: tri_def cmp_Compare_def split: if_splits)
qed

lemma CompareTypes_tri:
  assumes "ctx_inv c" and "unambiguous c" and "known c a" and "known c b" and "known c d"
  shows "tri (CompareTypes a b) (CompareTypes b d) (CompareTypes a d)"
  using assms(3-5)
proof (induction a arbitrary: b d rule: measure_induct_rule [where f = size])
  case (less a)
  note ids = ctx_invD(1) [OF assms(1)]
  have neq: "CompareTypes x y \<noteq> 0" if "known c x" "known c y" "ID x \<noteq> ID y" for x y
    using CompareTypes_eq_0 [OF assms(1,2) that(1,2)] that(3) by blast
  have un: "TypeUnder x = TypeUnder y" if "known c x" "known c y" "ID x = ID y" for x y
    using same_ID_under [OF ids that(1,2)] that(3) by blast
  have IH: "tri (CompareTypes x y) (CompareTypes y z) (CompareTypes x z)"
    if "x \<in> set (parts (TypeUnder a))" "y \<in> set (parts (TypeUnder b))" "z \<in> set (parts (TypeUnder d))" for x y z
    by (rule less.IH) (use that less.prems known_under_parts [OF ids] in blast)+
  consider "ID a = ID b" "ID b = ID d" | "ID a = ID b" "ID b \<noteq> ID d" | "ID a \<noteq> ID b" "ID b = ID d"
    | "ID a \<noteq> ID b" "ID b \<noteq> ID d" "ID a = ID d" | "ID a \<noteq> ID b" "ID b \<noteq> ID d" "ID a \<noteq> ID d" by blast
  then show ?case
  proof cases
    case 1
    then show ?thesis using tri_compare_names by (simp add: CompareTypes_same_ID)
  next
    case 2
    then show ?thesis using tri_same_under(1) [OF un _ neq] less.prems by blast
  next
    case 3
    then show ?thesis using tri_same_under(2) [of b d a] un neq less.prems by metis
  next
    case 4
    then show ?thesis using tri_same_under(3) [of a d b] un neq less.prems by metis
  next
    case 5
    then show ?thesis using tri_structural [OF 5 _ _ IH] tri_kinds [OF 5] by blast
  qed
qed

lemma type_order_swo:
  assumes "ctx_inv c" and "unambiguous c"
  shows "swo_on (\<lambda>a b. CompareTypes a b < 0) {t. known c t}"
proof -
  have "\<not> CompareTypes a d < 0"
    if "known c a" "known c b" "known c d" "\<not> CompareTypes a b < 0" "\<not> CompareTypes b d < 0" for a b d
    using CompareTypes_tri [OF assms that(3,2,1)] that(4,5) CompareTypes_antisym [of a b]
      CompareTypes_antisym [of b d] CompareTypes_antisym [of a d] by (simp add: tri_def)
  then show ?thesis unfolding swo_on_def using CompareTypes_asym by blast
qed

subsection \<open>Sorting by a total order\<close>

lemma sorted_wrt_mset_unique:
  assumes "\<And>a b. a \<in> set xs \<Longrightarrow> b \<in> set xs \<Longrightarrow> R a b \<Longrightarrow> R b a \<Longrightarrow> a = b"
    and "sorted_wrt R xs" and "sorted_wrt R ys" and "mset xs = mset ys"
  shows "xs = ys"
  using assms
proof (induction xs arbitrary: ys)
  case (Cons x xs)
  then obtain y ys' where ys: "ys = y # ys'" by (cases ys) simp_all
  have sets: "insert x (set xs) = insert y (set ys')" using Cons.prems(4) ys by (metis list.set(2) mset_eq_setD)
  have "x = y"
  proof (rule ccontr)
    assume "x \<noteq> y"
    moreover have "x \<in> insert y (set ys')" "y \<in> insert x (set xs)" by (simp flip: sets, simp add: sets)
    ultimately have "x \<in> set ys'" "y \<in> set xs" by simp_all
    then show False using Cons.prems(1) [of x y] Cons.prems(2,3) ys \<open>x \<noteq> y\<close> by auto
  qed
  moreover have "xs = ys'"
    by (rule Cons.IH) (use Cons.prems ys \<open>x = y\<close> in auto)
  ultimately show ?case using ys by simp
qed simp

lemma sort_types_unique:
  assumes "ctx_inv c" and "unambiguous c" and "\<forall>t\<in>set ts. known c t" and "mset ts = mset us"
  shows "sort_stable (\<lambda>a b. CompareTypes a b < 0) ts = sort_stable (\<lambda>a b. CompareTypes a b < 0) us"
proof (rule sorted_wrt_mset_unique)
  have us: "set us = set ts" using assms(4) by (metis mset_eq_setD)
  let ?S = "sort_stable (\<lambda>a b. CompareTypes a b < 0)"
  note swo = type_order_swo [OF assms(1,2)]
  show "sorted_wrt (\<lambda>a b. \<not> CompareTypes b a < 0) (?S ts)" "sorted_wrt (\<lambda>a b. \<not> CompareTypes b a < 0) (?S us)"
    using sorted_sort_stable [OF swo] assms(3) us by auto
  show "a = b" if "a \<in> set (?S ts)" "b \<in> set (?S ts)" "\<not> CompareTypes b a < 0" "\<not> CompareTypes a b < 0" for a b
    using that CompareTypes_eq_0 [OF assms(1,2), of a b] assms(3) CompareTypes_antisym [of a b] by auto
qed (simp add: assms(4))

lemma set_dedup_loop: "set (dedup_loop p ts) \<subseteq> set ts \<and> set ts \<subseteq> set (dedup_loop p ts) \<union> set_option p"
proof (induction ts arbitrary: p)
  case (Cons t ts)
  show ?case using Cons.IH [of "Some t"] Cons.IH [of p] by auto
qed simp

lemma sorted_dedup_loop:
  assumes "\<And>a b. a \<in> A \<Longrightarrow> b \<in> A \<Longrightarrow> CompareTypes a b = 0 \<Longrightarrow> a = b"
    and "\<And>a b d. a \<in> A \<Longrightarrow> b \<in> A \<Longrightarrow> d \<in> A \<Longrightarrow> tri (CompareTypes a b) (CompareTypes b d) (CompareTypes a d)"
    and "set ts \<subseteq> A" and "sorted_wrt (\<lambda>a b. \<not> CompareTypes b a < 0) (case p of None \<Rightarrow> ts | Some q \<Rightarrow> q # ts)"
    and "\<And>q. p = Some q \<Longrightarrow> q \<in> A"
  shows "sorted_wrt (\<lambda>a b. CompareTypes a b < 0) (dedup_loop p ts) \<and>
    (\<forall>q. p = Some q \<longrightarrow> (\<forall>t\<in>set (dedup_loop p ts). CompareTypes q t < 0))"
  using assms(3-5)
proof (induction ts arbitrary: p)
  case (Cons t ts)
  have lt: "CompareTypes a b < 0" if "a \<in> A" "b \<in> A" "a \<noteq> b" "\<not> CompareTypes b a < 0" for a b
    using assms(1) [of a b] that CompareTypes_antisym [of a b] by force
  have tr: "CompareTypes a d < 0" if "a \<in> A" "b \<in> A" "d \<in> A" "CompareTypes a b < 0" "CompareTypes b d < 0" for a b d
    using assms(2) [of a b d] that by (auto simp: tri_def order.strict_iff_order)
  show ?case
  proof (cases "Some t = p")
    case True
    then have p: "p = Some t" by simp
    show ?thesis using Cons.IH [of "Some t"] Cons.prems by (simp add: p)
  next
    case False
    have IH: "sorted_wrt (\<lambda>a b. CompareTypes a b < 0) (dedup_loop (Some t) ts)"
      "\<forall>u\<in>set (dedup_loop (Some t) ts). CompareTypes t u < 0"
      using Cons.IH [of "Some t"] Cons.prems by (auto split: option.splits)
    have "CompareTypes q t < 0" if "p = Some q" for q
      using that False Cons.prems lt [of q t] by auto
    moreover have "CompareTypes q u < 0" if "p = Some q" "u \<in> set (dedup_loop (Some t) ts)" for q u
      using calculation [OF that(1)] IH(2) that tr [of q t u] Cons.prems set_dedup_loop [of "Some t" ts] by auto
    ultimately show ?thesis using False IH by auto
  qed
qed simp

subsection \<open>Properties\<close>

text \<open>
  C22: On the types of a context in which no name stands for two types with one underlying
  type, \<open>CompareTypes\<close> is a total order whose zero is identity. \<close>

theorem compare_types_total_order:
  assumes "ctx_reach c" and "unambiguous c" and "known c s" and "known c t" and "known c u"
  shows "(CompareTypes s t = 0 \<longleftrightarrow> s = t) \<and> CompareTypes s t = - CompareTypes t s \<and>
    (CompareTypes s t \<le> 0 \<longrightarrow> CompareTypes t u \<le> 0 \<longrightarrow> CompareTypes s u \<le> 0)"
proof -
  note inv = ctx_reach_inv [OF assms(1)]
  have "CompareTypes s t = 0 \<longleftrightarrow> s = t"
    using CompareTypes_eq_0 [OF inv assms(2-4)] CompareTypes_self by blast
  moreover have "tri (CompareTypes s t) (CompareTypes t u) (CompareTypes s u)"
    by (rule CompareTypes_tri [OF inv assms(2-5)])
  ultimately show ?thesis using CompareTypes_antisym [of s t] by (auto simp: tri_def)
qed

lemma put_u32_inj: "put_u32 x = put_u32 y \<longleftrightarrow> x = y"
  by (metis le_word_put_u32)

lemma unambiguous_New: "unambiguous NewContext"
  unfolding unambiguous_def
proof (intro allI impI)
  fix t u assume "known NewContext t" "outer_name t \<noteq> None"
  then show "t = u" by (cases t) (auto simp: known_def NewContext_def)
qed

theorem compare_types_total_order_witness:
  "ctx_reach NewContext \<and> unambiguous NewContext \<and> CompareTypes (TypePrim TypeBool) (TypePrim TypeNet) = -1 \<and>
   CompareTypes (TypePrim TypeBool) (TypePrim TypeNet) = - CompareTypes (TypePrim TypeNet) (TypePrim TypeBool)"
  using compare_types_total_order [OF reach_new unambiguous_New, of "TypePrim TypeBool" "TypePrim TypeNet" "TypePrim TypeNet"]
    reach_new unambiguous_New
  by (simp add: CompareTypes.simps [of "TypePrim TypeBool"] cmp_Compare_def)

text \<open>
  A union type depends only on which members are asked for, not on the order in which they
  are given, and \<open>UniqueTypes\<close> returns the given types without repetition in strictly ascending order. \<close>

theorem union_order_irrelevant:
  assumes "ctx_reach c" and "unambiguous c" and "\<forall>t\<in>set ts. known c t" and "mset ts = mset us"
  shows "LookupTypeUnion c ts = LookupTypeUnion c us \<and> UniqueTypes ts = UniqueTypes us \<and>
    set (UniqueTypes ts) = set ts \<and> sorted_wrt (\<lambda>a b. CompareTypes a b < 0) (UniqueTypes ts)"
proof -
  note inv = ctx_reach_inv [OF assms(1)]
  let ?s = "sort_stable (\<lambda>a b. CompareTypes a b < 0) ts"
  note eq = sort_types_unique [OF inv assms(2-4)]
  have "sorted_wrt (\<lambda>a b. \<not> CompareTypes b a < 0) ?s"
    using sorted_sort_stable [OF type_order_swo [OF inv assms(2)], of ts] assms(3) by auto
  then have "sorted_wrt (\<lambda>a b. CompareTypes a b < 0) (dedup_loop None ?s)"
    using sorted_dedup_loop [of "{t. known c t}" ?s None] assms(3) CompareTypes_eq_0 [OF inv assms(2)]
      CompareTypes_tri [OF inv assms(2)] by auto
  moreover have "set (dedup_loop None ?s) = set ts" using set_dedup_loop [of None ?s] by auto
  ultimately show ?thesis using eq by (simp add: LookupTypeUnion_def UniqueTypes_def)
qed

theorem union_order_irrelevant_witness:
  "ctx_reach NewContext \<and> unambiguous NewContext \<and>
   LookupTypeUnion NewContext [TypePrim TypeBool, TypePrim TypeNet] =
   LookupTypeUnion NewContext [TypePrim TypeNet, TypePrim TypeBool]"
  using union_order_irrelevant [OF reach_new unambiguous_New,
      of "[TypePrim TypeBool, TypePrim TypeNet]" "[TypePrim TypeNet, TypePrim TypeBool]"]
    reach_new unambiguous_New
  by simp

text \<open>
  When a name stands for two types with one underlying type, \<open>CompareTypes\<close> calls the two
  types equal, and the union of the two depends on the order in which they are given. \<close>

theorem ambiguous_names_compare_equal:
  "let (c1, r1) = LookupTypeNamed NewContext (str ''x'') (TypePrim TypeInt64);
       (c2, r2) = LookupTypeNamed c1 (str ''y'') (TypePrim TypeInt64);
       (c3, r3) = LookupTypeNamed c2 (str ''x'') (projr r2)
   in CompareTypes (projr r1) (projr r3) = 0 \<and> projr r1 \<noteq> projr r3 \<and>
      snd (LookupTypeUnion c3 [projr r1, projr r3]) \<noteq> snd (LookupTypeUnion c3 [projr r3, projr r1])"
proof -
  have v: "ValidString (str ''x'')" "ValidString (str ''y'')"
    "LookupPrimitive (str ''x'') = None" "LookupPrimitive (str ''y'') = None"
    by (simp_all add: str_def LookupPrimitive_def)
  have c: "CompareTypes (TypeNamed 30 (str ''x'') (TypePrim TypeInt64))
       (TypeNamed 32 (str ''x'') (TypeNamed 31 (str ''y'') (TypePrim TypeInt64))) = 0"
    "CompareTypes (TypeNamed 32 (str ''x'') (TypeNamed 31 (str ''y'') (TypePrim TypeInt64)))
       (TypeNamed 30 (str ''x'') (TypePrim TypeInt64)) = 0"
    by (simp_all add: CompareTypes_same_ID compare_names_def)
  have k: "named_key (str ''x'') (TypePrim TypeInt64) \<noteq> named_key (str ''y'') (TypePrim TypeInt64)"
    "named_key (str ''x'') (TypeNamed 31 (str ''y'') (TypePrim TypeInt64)) \<noteq> named_key (str ''x'') (TypePrim TypeInt64)"
    "named_key (str ''x'') (TypeNamed 31 (str ''y'') (TypePrim TypeInt64)) \<noteq> named_key (str ''y'') (TypePrim TypeInt64)"
    by (simp_all add: named_key_def name_key_def type_key_def TypeID_def str_def put_u32_inj)
  show ?thesis
    using v k k [symmetric] c
    by (simp add: LookupTypeNamed_def NewContext_def nextID_def enter_def Let_def IDTypeComplex_def
        LookupTypeUnion_def sort_stable_def)
qed

end
