(* ===== verification/Type_Value.thy ===== *)
theory Type_Value
  imports Type_Order
begin

text \<open>
  Type values: types written as bytes (\<open>EncodeTypeValue\<close> in \<open>type.go\<close>) and read back into a
  type context (\<open>DecodeTypeValue\<close>, \<open>LookupByValue\<close>, \<open>TranslateType\<close> and \<open>LookupTypeValue\<close> in
  \<open>context.go\<close>). The first use of a type name carries its definition, later uses refer to it.
\<close>

subsection \<open>Encoding\<close>

definition append_name :: "bytes \<Rightarrow> gostring \<Rightarrow> bytes" where
  "append_name b n = AppendUvarint b (of_nat (length n)) @ n"

definition append_symbols :: "bytes \<Rightarrow> gostring list \<Rightarrow> bytes" where
  "append_symbols b ss = foldl append_name b ss"

text \<open>
  \<open>appendTypeValue\<close> and its loops over record fields and union members. The definitions seen so
  far are passed along, as the code does through the pointer to its map.
\<close>

function (sequential) appendTypeValue ::
    "bytes \<Rightarrow> ztype \<Rightarrow> (gostring \<rightharpoonup> ztype) \<Rightarrow> bytes \<times> (gostring \<rightharpoonup> ztype)"
  and append_fields :: "bytes \<Rightarrow> field list \<Rightarrow> (gostring \<rightharpoonup> ztype) \<Rightarrow> bytes \<times> (gostring \<rightharpoonup> ztype)"
  and append_types :: "bytes \<Rightarrow> ztype list \<Rightarrow> (gostring \<rightharpoonup> ztype) \<Rightarrow> bytes \<times> (gostring \<rightharpoonup> ztype)"
where
  "appendTypeValue b (TypeNamed i n t) tds =
     (if tds n = Some t then (append_name (b @ [38]) n, tds)
      else let (b', tds') = appendTypeValue (append_name (b @ [37]) n) t tds
           in (b', tds'(n \<mapsto> t)))"
| "appendTypeValue b (TypeRecord i fs) tds =
     append_fields (AppendUvarint (b @ [30]) (of_nat (length fs))) fs tds"
| "appendTypeValue b (TypeUnion i ts) tds =
     append_types (AppendUvarint (b @ [34]) (of_nat (length ts))) ts tds"
| "appendTypeValue b (TypeSet i t) tds = appendTypeValue (b @ [32]) t tds"
| "appendTypeValue b (TypeArray i t) tds = appendTypeValue (b @ [31]) t tds"
| "appendTypeValue b (TypeEnum i ss) tds =
     (append_symbols (AppendUvarint (b @ [35]) (of_nat (length ss))) ss, tds)"
| "appendTypeValue b (TypeMap i k v) tds =
     (let (b', tds') = appendTypeValue (b @ [33]) k tds in appendTypeValue b' v tds')"
| "appendTypeValue b (TypeError i t) tds = appendTypeValue (b @ [36]) t tds"
| "appendTypeValue b (TypePrim p) tds = (b @ [of_nat (prim_ID p)], tds)"
| "append_fields b [] tds = (b, tds)"
| "append_fields b ((n, t) # fs) tds =
     (let (b', tds') = appendTypeValue (append_name b n) t tds in append_fields b' fs tds')"
| "append_types b [] tds = (b, tds)"
| "append_types b (t # ts) tds =
     (let (b', tds') = appendTypeValue b t tds in append_types b' ts tds')"
  by pat_completeness auto
termination
  by (relation "measure (\<lambda>x. case x of Inl (b, t, tds) \<Rightarrow> size t
      | Inr (Inl (b, fs, tds)) \<Rightarrow> size_list (\<lambda>f. Suc (size (snd f))) fs
      | Inr (Inr (b, ts, tds)) \<Rightarrow> size_list size ts)")
    (auto simp: size_prod_simp comp_def case_prod_unfold)

definition AppendTypeValue :: "bytes \<Rightarrow> ztype \<Rightarrow> bytes" where
  "AppendTypeValue b t = fst (appendTypeValue b t Map.empty)"

definition EncodeTypeValue :: "ztype \<Rightarrow> bytes" where
  "EncodeTypeValue t = AppendTypeValue [] t"

subsection \<open>Decoding\<close>

text \<open>
  The decoder returns no type (\<open>None\<close>, the code's nil slice) on bad input. It can also panic: on a
  negative capacity for \<open>make\<close>, on a negative slice bound, and on a union with a nil member.
  \<open>TvFuel\<close> stands for a recursion deeper than the fuel, which never happens with the fuel
  \<open>DecodeTypeValue\<close> gives: every call consumes a byte.
\<close>

datatype tv_panic = MakeCap int | SliceBounds int | NilType | TvFuel

type_synonym 'a tv_res = "tcontext \<times> (tv_panic + 'a option)"
type_synonym tv_dec = "tcontext \<Rightarrow> bytes \<Rightarrow> (ztype \<times> bytes) tv_res"

definition MaxEnumSymbols :: int where "MaxEnumSymbols = 100000"
definition MaxRecordFields :: int where "MaxRecordFields = 100000"
definition MaxUnionTypes :: int where "MaxUnionTypes = 100000"

definition tv_bind :: "'a tv_res \<Rightarrow> (tcontext \<Rightarrow> 'a \<Rightarrow> 'b tv_res) \<Rightarrow> 'b tv_res" where
  "tv_bind m f = (case m of (c, Inl p) \<Rightarrow> (c, Inl p) | (c, Inr None) \<Rightarrow> (c, Inr None)
     | (c, Inr (Some x)) \<Rightarrow> f c x)"

definition DecodeLength :: "bytes \<Rightarrow> (int \<times> bytes) option" where
  "DecodeLength tv = (case Uvarint tv of (len, n) \<Rightarrow>
     if n \<le> 0 then None else Some (sint len, drop (nat n) tv))"

definition DecodeName :: "bytes \<Rightarrow> tv_panic + (gostring \<times> bytes) option" where
  "DecodeName tv = (case DecodeLength tv of None \<Rightarrow> Inr None
     | Some (len, tv') \<Rightarrow>
         if len > int (length tv') then Inr None
         else if len < 0 then Inl (SliceBounds len)
         else Inr (Some (take (nat len) tv', drop (nat len) tv')))"

fun dec_fields :: "tv_dec \<Rightarrow> nat \<Rightarrow> tcontext \<Rightarrow> bytes \<Rightarrow> field list \<Rightarrow> (field list \<times> bytes) tv_res" where
  "dec_fields D 0 c tv fs = (c, Inr (Some (fs, tv)))"
| "dec_fields D (Suc n) c tv fs =
     tv_bind (c, DecodeName tv) (\<lambda>c (name, tv). tv_bind (D c tv) (\<lambda>c (typ, tv).
       dec_fields D n c tv (fs @ [(name, typ)])))"

text \<open>The union loop goes on after a member failed to decode, with a nil member and no input left.\<close>

fun dec_types :: "tv_dec \<Rightarrow> nat \<Rightarrow> tcontext \<Rightarrow> bytes option \<Rightarrow> ztype option list
    \<Rightarrow> (ztype option list \<times> bytes option) tv_res" where
  "dec_types D 0 c tv ts = (c, Inr (Some (ts, tv)))"
| "dec_types D (Suc n) c tv ts =
     (case D c (slice_bytes tv) of
        (c, Inl p) \<Rightarrow> (c, Inl p)
      | (c, Inr None) \<Rightarrow> dec_types D n c None (ts @ [None])
      | (c, Inr (Some (typ, tv))) \<Rightarrow> dec_types D n c (Some tv) (ts @ [Some typ]))"

fun dec_symbols :: "nat \<Rightarrow> bytes \<Rightarrow> gostring list \<Rightarrow> tv_panic + (gostring list \<times> bytes) option" where
  "dec_symbols 0 tv ss = Inr (Some (ss, tv))"
| "dec_symbols (Suc n) tv ss = (case DecodeName tv of
      Inl p \<Rightarrow> Inl p | Inr None \<Rightarrow> Inr None
    | Inr (Some (s, tv)) \<Rightarrow> dec_symbols n tv (ss @ [s]))"

definition ret_ok :: "tcontext \<times> ztype \<Rightarrow> bytes \<Rightarrow> (ztype \<times> bytes) tv_res" where
  "ret_ok r tv = (case r of (c, t) \<Rightarrow> (c, Inr (Some (t, tv))))"

definition ret_err :: "tcontext \<times> (type_error + ztype) \<Rightarrow> bytes \<Rightarrow> (ztype \<times> bytes) tv_res" where
  "ret_err r tv = (case r of (c, Inl e) \<Rightarrow> (c, Inr None) | (c, Inr t) \<Rightarrow> (c, Inr (Some (t, tv))))"

primrec dec_type :: "nat \<Rightarrow> tv_dec" where
  "dec_type 0 = (\<lambda>c tv. (c, Inl TvFuel))"
| "dec_type (Suc k) = (\<lambda>c tv. case tv of [] \<Rightarrow> (c, Inr None)
   | tag # tv \<Rightarrow>
     if tag = 37 then
       tv_bind (c, DecodeName tv) (\<lambda>c (name, tv).
         tv_bind (dec_type k c tv) (\<lambda>c (typ, tv). ret_err (LookupTypeNamed c name typ) tv))
     else if tag = 38 then
       tv_bind (c, DecodeName tv) (\<lambda>c (name, tv).
         case LookupTypeDef c name of None \<Rightarrow> (c, Inr None) | Some typ \<Rightarrow> (c, Inr (Some (typ, tv))))
     else if tag = 30 then
       (case DecodeLength tv of None \<Rightarrow> (c, Inr None) | Some (n, tv) \<Rightarrow>
          if n > MaxRecordFields then (c, Inr None)
          else if n < 0 then (c, Inl (MakeCap n))
          else tv_bind (dec_fields (dec_type k) (nat n) c tv []) (\<lambda>c (fields, tv).
                 ret_err (LookupTypeRecord c fields) tv))
     else if tag = 31 then
       tv_bind (dec_type k c tv) (\<lambda>c (inner, tv). ret_ok (LookupTypeArray c inner) tv)
     else if tag = 32 then
       tv_bind (dec_type k c tv) (\<lambda>c (inner, tv). ret_ok (LookupTypeSet c inner) tv)
     else if tag = 33 then
       tv_bind (dec_type k c tv) (\<lambda>c (keyType, tv).
         tv_bind (dec_type k c tv) (\<lambda>c (valType, tv). ret_ok (LookupTypeMap c keyType valType) tv))
     else if tag = 34 then
       (case DecodeLength tv of None \<Rightarrow> (c, Inr None) | Some (n, tv) \<Rightarrow>
          if n > MaxUnionTypes then (c, Inr None)
          else if n < 0 then (c, Inl (MakeCap n))
          else tv_bind (dec_types (dec_type k) (nat n) c (Some tv) []) (\<lambda>c (types, tv).
                 if None \<in> set types then (c, Inl NilType)
                 else (case LookupTypeUnion c (map the types) of (c, t) \<Rightarrow>
                   (case tv of None \<Rightarrow> (c, Inr None) | Some r \<Rightarrow> (c, Inr (Some (t, r)))))))
     else if tag = 35 then
       (case DecodeLength tv of None \<Rightarrow> (c, Inr None) | Some (n, tv) \<Rightarrow>
          if n > MaxEnumSymbols then (c, Inr None)
          else tv_bind (c, dec_symbols (nat n) tv []) (\<lambda>c (symbols, tv).
                 ret_ok (LookupTypeEnum c symbols) tv))
     else if tag = 36 then
       tv_bind (dec_type k c tv) (\<lambda>c (inner, tv). ret_ok (LookupTypeError c inner) tv)
     else (case LookupPrimitiveByID (int (unat tag)) of
        Inl e \<Rightarrow> (c, Inr None) | Inr p \<Rightarrow> (c, Inr (Some (TypePrim p, tv)))))"

definition DecodeTypeValue :: tv_dec where
  "DecodeTypeValue c tv = dec_type (Suc (length tv)) c tv"

subsection \<open>Lookup by value\<close>

definition LookupByValue :: "tcontext \<Rightarrow> bytes \<Rightarrow> tcontext \<times> (tv_panic + (type_error + ztype))" where
  "LookupByValue c tv = (case toType c tv of
      Some t \<Rightarrow> (c, Inr (Inr t))
    | None \<Rightarrow> (case DecodeTypeValue c tv of
        (c, Inl p) \<Rightarrow> (c, Inl p)
      | (c, Inr None) \<Rightarrow> (c, Inr (Inl BadTypeValue))
      | (c, Inr (Some (t, rest))) \<Rightarrow>
          (c\<lparr>toValue := (toValue c)(t \<mapsto> tv), toType := (toType c)(tv \<mapsto> t)\<rparr>, Inr (Inr t))))"

definition TranslateType :: "tcontext \<Rightarrow> ztype \<Rightarrow> tcontext \<times> (tv_panic + (type_error + ztype))" where
  "TranslateType c ext = LookupByValue c (EncodeTypeValue ext)"

text \<open>
  \<open>LookupTypeValue\<close> calls itself once \<open>LookupByValue\<close> has entered the type; the second call finds
  it, so that a depth of two is enough.
\<close>

fun LookupTypeValue_depth :: "nat \<Rightarrow> tcontext \<Rightarrow> ztype \<Rightarrow> tcontext \<times> (tv_panic + ztype \<times> bytes)" where
  "LookupTypeValue_depth 0 c typ = (c, Inl TvFuel)"
| "LookupTypeValue_depth (Suc k) c typ = (case toValue c typ of
      Some b \<Rightarrow> (c, Inr (TypePrim TypeType, b))
    | None \<Rightarrow> (case LookupByValue c (EncodeTypeValue typ) of
        (c, Inl p) \<Rightarrow> (c, Inl p)
      | (c, Inr (Inl e)) \<Rightarrow> (case StringTypeError c of (c, t) \<Rightarrow> (c, Inr (t, str ''missing'')))
      | (c, Inr (Inr typ')) \<Rightarrow> LookupTypeValue_depth k c typ'))"

definition LookupTypeValue :: "tcontext \<Rightarrow> ztype \<Rightarrow> tcontext \<times> (tv_panic + ztype \<times> bytes)" where
  "LookupTypeValue c typ = LookupTypeValue_depth 2 c typ"

end
