(* ===== verification/Type_Value_Codec.thy ===== *)
theory Type_Value_Codec
  imports Type_Value
begin

text \<open>
  Encoding and decoding of type values are inverse: decoding the type value of a type in any well
  formed context gives a type that means the same, and the bytes depend only on what a type means.
  The name definitions the encoder has written are those the decoder's context binds.
\<close>

subsection \<open>Encodings append\<close>

lemma append_name_prefix: "append_name b n = b @ append_name [] n"
  by (simp add: append_name_def AppendUvarint_def)

lemma append_symbols_prefix: "append_symbols b ss = b @ append_symbols [] ss"
proof (induction ss arbitrary: b)
  case (Cons s ss)
  have "append_symbols b (s # ss) = append_symbols (append_name b s) ss" for b
    by (simp add: append_symbols_def)
  then show ?case using Cons.IH [of "append_name b s"] Cons.IH [of "append_name [] s"] append_name_prefix [of b s]
    by simp
qed (simp add: append_symbols_def)

lemma append_symbols_Cons: "append_symbols [] (s # ss) = append_name [] s @ append_symbols [] ss"
  using append_symbols_prefix [of "append_name [] s" ss] by (simp add: append_symbols_def)

text \<open>The bytes a type contributes and the definitions in force after it, whatever came before.\<close>

definition tv_enc :: "ztype \<Rightarrow> (gostring \<rightharpoonup> ztype) \<Rightarrow> bytes" where
  "tv_enc t tds = fst (appendTypeValue [] t tds)"

definition tv_defs :: "ztype \<Rightarrow> (gostring \<rightharpoonup> ztype) \<Rightarrow> (gostring \<rightharpoonup> ztype)" where
  "tv_defs t tds = snd (appendTypeValue [] t tds)"

definition fs_enc where "fs_enc fs tds = fst (append_fields [] fs tds)"
definition fs_defs where "fs_defs fs tds = snd (append_fields [] fs tds)"
definition ts_enc where "ts_enc ts tds = fst (append_types [] ts tds)"
definition ts_defs where "ts_defs ts tds = snd (append_types [] ts tds)"

lemma append_prefix:
  fixes b0 b1 b2 :: bytes
  shows "\<exists>e d. \<forall>b. appendTypeValue b t tds = (b @ e, d)"
  "\<exists>e d. \<forall>b. append_fields b fs tds = (b @ e, d)"
  "\<exists>e d. \<forall>b. append_types b ts tds = (b @ e, d)"
proof (induction b0 t tds and b1 fs tds and b2 ts tds rule: appendTypeValue_append_fields_append_types.induct)
  case (1 b i n t tds)
  then show ?case by (cases "tds n = Some t") (auto simp: append_name_prefix [of "_ @ _"])
next
  case (2 b i fs tds)
  then show ?case by (auto simp: AppendUvarint_def)
next
  case (3 b i ts tds)
  then show ?case by (auto simp: AppendUvarint_def)
next
  case (6 b i ss tds)
  then show ?case by (auto simp: AppendUvarint_def append_symbols_prefix [of "_ @ _"])
next
  case (7 b i k v tds)
  then obtain e d where e: "\<And>b. appendTypeValue b k tds = (b @ e, d)" by blast
  then obtain e' d' where "\<And>b. appendTypeValue b v d = (b @ e', d')" using 7(2) [OF refl, of "b @ 33 # e" d] by auto
  with e show ?case by auto
next
  case (11 b n t fs tds)
  then obtain e d where e: "\<And>b. appendTypeValue b t tds = (b @ e, d)" by blast
  then obtain e' d' where "\<And>b. append_fields b fs d = (b @ e', d')" using 11(2) [OF refl, of "append_name b n @ e" d] by auto
  with e have "append_fields b ((n, t) # fs) tds = (b @ append_name [] n @ e @ e', d')" for b
    using append_name_prefix [of b n] by simp
  then show ?case by blast
next
  case (13 b t ts tds)
  then obtain e d where e: "\<And>b. appendTypeValue b t tds = (b @ e, d)" by blast
  then obtain e' d' where "\<And>b. append_types b ts d = (b @ e', d')" using 13(2) [OF refl, of "b @ e" d] by auto
  with e show ?case by auto
qed auto

lemma append_enc:
  "appendTypeValue b t tds = (b @ tv_enc t tds, tv_defs t tds)"
  "append_fields b fs tds = (b @ fs_enc fs tds, fs_defs fs tds)"
  "append_types b ts tds = (b @ ts_enc ts tds, ts_defs ts tds)"
  using append_prefix(1) [of t tds] append_prefix(2) [of fs tds] append_prefix(3) [of ts tds]
  by (auto simp: tv_enc_def tv_defs_def fs_enc_def fs_defs_def ts_enc_def ts_defs_def)

lemma tv_named: "tv_enc (TypeNamed i n t) tds = (if tds n = Some t then 38 # append_name [] n else 37 # append_name [] n @ tv_enc t tds)" "tv_defs (TypeNamed i n t) tds = (if tds n = Some t then tds else (tv_defs t tds)(n \<mapsto> t))"
  using append_enc(1) [of "[]" "TypeNamed i n t" tds] append_enc(1) [of "37 # append_name [] n" t tds] append_name_prefix [of "[37]" n] append_name_prefix [of "[38]" n]
  by (auto simp: AppendUvarint_def split: if_splits)

lemma tv_record: "tv_enc (TypeRecord i fs) tds = 30 # put_uvarint (of_nat (length fs)) @ fs_enc fs tds" "tv_defs (TypeRecord i fs) tds = fs_defs fs tds"
  using append_enc(1) [of "[]" "TypeRecord i fs" tds] append_enc(2) [of "30 # put_uvarint (of_nat (length fs))" fs tds]
  by (auto simp: AppendUvarint_def)

lemma tv_union: "tv_enc (TypeUnion i ts) tds = 34 # put_uvarint (of_nat (length ts)) @ ts_enc ts tds" "tv_defs (TypeUnion i ts) tds = ts_defs ts tds"
  using append_enc(1) [of "[]" "TypeUnion i ts" tds] append_enc(3) [of "34 # put_uvarint (of_nat (length ts))" ts tds]
  by (auto simp: AppendUvarint_def)

lemma tv_set: "tv_enc (TypeSet i t) tds = 32 # tv_enc t tds" "tv_defs (TypeSet i t) tds = tv_defs t tds"
  using append_enc(1) [of "[]" "TypeSet i t" tds] append_enc(1) [of "[32]" t tds]
  by (auto simp: AppendUvarint_def)

lemma tv_array: "tv_enc (TypeArray i t) tds = 31 # tv_enc t tds" "tv_defs (TypeArray i t) tds = tv_defs t tds"
  using append_enc(1) [of "[]" "TypeArray i t" tds] append_enc(1) [of "[31]" t tds]
  by (auto simp: AppendUvarint_def)

lemma tv_enum: "tv_enc (TypeEnum i ss) tds = 35 # put_uvarint (of_nat (length ss)) @ append_symbols [] ss" "tv_defs (TypeEnum i ss) tds = tds"
  using append_enc(1) [of "[]" "TypeEnum i ss" tds] append_symbols_prefix [of "35 # put_uvarint (of_nat (length ss))" ss]
  by (auto simp: AppendUvarint_def)

lemma tv_map: "tv_enc (TypeMap i k v) tds = 33 # tv_enc k tds @ tv_enc v (tv_defs k tds)" "tv_defs (TypeMap i k v) tds = tv_defs v (tv_defs k tds)"
  using append_enc(1) [of "[]" "TypeMap i k v" tds] append_enc(1) [of "[33]" k tds] append_enc(1) [of "33 # tv_enc k tds" v "tv_defs k tds"]
  by (auto simp: AppendUvarint_def)

lemma tv_error: "tv_enc (TypeError i t) tds = 36 # tv_enc t tds" "tv_defs (TypeError i t) tds = tv_defs t tds"
  using append_enc(1) [of "[]" "TypeError i t" tds] append_enc(1) [of "[36]" t tds]
  by (auto simp: AppendUvarint_def)

lemma tv_prim: "tv_enc (TypePrim p) tds = [of_nat (prim_ID p)]" "tv_defs (TypePrim p) tds = tds"
  using append_enc(1) [of "[]" "TypePrim p" tds]
  by (auto simp: AppendUvarint_def)

lemma tv_fsNil: "fs_enc [] tds = []" "fs_defs [] tds = tds"
  using append_enc(2) [of "[]" "[]" tds]
  by (auto simp: AppendUvarint_def)

lemma tv_fsCons: "fs_enc ((n, t) # fs) tds = append_name [] n @ tv_enc t tds @ fs_enc fs (tv_defs t tds)" "fs_defs ((n, t) # fs) tds = fs_defs fs (tv_defs t tds)"
  using append_enc(2) [of "[]" "(n, t) # fs" tds] append_enc(1) [of "append_name [] n" t tds] append_enc(2) [of "append_name [] n @ tv_enc t tds" fs "tv_defs t tds"]
  by (auto simp: AppendUvarint_def)

lemma tv_tsNil: "ts_enc [] tds = []" "ts_defs [] tds = tds"
  using append_enc(3) [of "[]" "[]" tds]
  by (auto simp: AppendUvarint_def)

lemma tv_tsCons: "ts_enc (t # ts) tds = tv_enc t tds @ ts_enc ts (tv_defs t tds)" "ts_defs (t # ts) tds = ts_defs ts (tv_defs t tds)"
  using append_enc(3) [of "[]" "t # ts" tds] append_enc(1) [of "[]" t tds] append_enc(3) [of "tv_enc t tds" ts "tv_defs t tds"]
  by (auto simp: AppendUvarint_def)

lemmas tv_simps = tv_named tv_record tv_union tv_set tv_array tv_enum tv_map tv_error tv_prim tv_fsNil tv_fsCons tv_tsNil tv_tsCons

lemma tv_enc_nonempty: "tv_enc t tds \<noteq> []"
  by (cases t) (simp_all add: tv_simps)

subsection \<open>Reading back lengths and names\<close>

lemma sint_of_nat_64: "n < 2 ^ 63 \<Longrightarrow> sint (of_nat n :: u64) = int n"
  by (simp add: signed_of_nat signed_take_bit_int_eq_self)

lemma DecodeLength_put: "n < 2 ^ 63 \<Longrightarrow> DecodeLength (put_uvarint (of_nat n) @ rest) = Some (int n, rest)"
  by (simp add: DecodeLength_def Uvarint_put sint_of_nat_64)

lemma DecodeName_append: "short_name n \<Longrightarrow> DecodeName (append_name [] n @ rest) = Inr (Some (n, rest))"
  using DecodeLength_put [of "length n" "n @ rest"]
  by (simp add: DecodeName_def append_name_def AppendUvarint_def short_name_def)

lemma dec_symbols_append:
  "\<forall>s\<in>set ss. short_name s \<Longrightarrow> dec_symbols (length ss) (append_symbols [] ss @ rest) acc = Inr (Some (acc @ ss, rest))"
proof (induction ss arbitrary: acc)
  case (Cons s ss)
  then show ?case by (simp add: append_symbols_Cons DecodeName_append)
qed (simp add: append_symbols_def)

subsection \<open>The order of types does not depend on the context\<close>

lemma erase_TypeUnder: "erase (TypeUnder t) = TypeUnder (erase t)"
  by (induction t rule: TypeUnder.induct) simp_all

lemma Kind_erase: "Kind (erase t) = Kind t"
  by (induction t) simp_all

lemma outer_name_erase: "outer_name (erase t) = outer_name t"
  by (cases t) simp_all

lemma TypeUnder_erase_eq: "erase a = erase b \<Longrightarrow> erase (TypeUnder a) = erase (TypeUnder b)"
  by (simp add: erase_TypeUnder)

lemma ID_eq_erase:
  assumes "ctx_inv c" and "known c a" and "known c b"
  shows "ID a = ID b \<longleftrightarrow> erase (TypeUnder a) = erase (TypeUnder b)"
proof -
  note ids = ctx_invD(1) [OF assms(1)]
  have "ID a = ID b \<longleftrightarrow> TypeUnder a = TypeUnder b" by (rule same_ID_under [OF ids assms(2,3)])
  also have "\<dots> \<longleftrightarrow> erase (TypeUnder a) = erase (TypeUnder b)"
    using erase_unique [OF assms(1) known_TypeUnder [OF ids assms(2)] known_TypeUnder [OF ids assms(3)]] by auto
  finally show ?thesis .
qed

text \<open>The shape of a type whose erasure is known.\<close>

lemma erase_shape:
  "erase t' = TypePrim p \<Longrightarrow> t' = TypePrim p"
  "erase t' = TypeRecord 0 gs \<Longrightarrow> \<exists>i fs. t' = TypeRecord i fs \<and> map (map_prod id erase) fs = gs"
  "erase t' = TypeArray 0 u \<Longrightarrow> \<exists>i e. t' = TypeArray i e \<and> erase e = u"
  "erase t' = TypeSet 0 u \<Longrightarrow> \<exists>i e. t' = TypeSet i e \<and> erase e = u"
  "erase t' = TypeMap 0 u v \<Longrightarrow> \<exists>i x y. t' = TypeMap i x y \<and> erase x = u \<and> erase y = v"
  "erase t' = TypeUnion 0 us \<Longrightarrow> \<exists>i ts. t' = TypeUnion i ts \<and> map erase ts = us"
  "erase t' = TypeEnum 0 ss \<Longrightarrow> \<exists>i. t' = TypeEnum i ss"
  "erase t' = TypeError 0 u \<Longrightarrow> \<exists>i e. t' = TypeError i e \<and> erase e = u"
  by (cases t'; auto)+

lemma zip_cong_erase:
  assumes "map erase ts' = map erase ts" and "map erase us' = map erase us"
    and "\<And>a b a' b'. a \<in> set ts \<Longrightarrow> b \<in> set us \<Longrightarrow> a' \<in> set ts' \<Longrightarrow> b' \<in> set us' \<Longrightarrow>
      erase a' = erase a \<Longrightarrow> erase b' = erase b \<Longrightarrow> f a' b' = f a b"
  shows "map (\<lambda>(a, b). f a b) (zip ts' us') = map (\<lambda>(a, b). f a b) (zip ts us)"
proof -
  have l: "length ts' = length ts" "length us' = length us"
    using assms(1,2) by (metis length_map)+
  have n: "erase (ts' ! k) = erase (ts ! k)" if "k < length ts" for k
    using assms(1) that l by (metis nth_map)
  have m: "erase (us' ! k) = erase (us ! k)" if "k < length us" for k
    using assms(2) that l by (metis nth_map)
  show ?thesis by (rule nth_equalityI) (use l n m assms(3) in auto)
qed

lemma zip_fst_snd:
  "map (\<lambda>(f, g). h (fst f) (fst g)) (zip fs gs) = map (\<lambda>(x, y). h x y) (zip (map fst fs) (map fst gs))"
  "map (\<lambda>(f, g). k (snd f) (snd g)) (zip fs gs) = map (\<lambda>(x, y). k x y) (zip (map snd fs) (map snd gs))"
  by (simp_all add: zip_map_map comp_def case_prod_unfold)

lemma CompareTypes_erase:
  assumes "ctx_inv c" and "ctx_inv d" and "known c a" "known c b" "known d a'" "known d b'"
    and "erase a' = erase a" and "erase b' = erase b"
  shows "CompareTypes a' b' = CompareTypes a b"
  using assms(3-8)
proof (induction a arbitrary: b a' b' rule: measure_induct_rule [where f = size])
  case (less a)
  note ids = ctx_invD(1) [OF assms(1)] ctx_invD(1) [OF assms(2)]
  have IH: "CompareTypes x' y' = CompareTypes x y"
    if "x \<in> set (parts (TypeUnder a))" "y \<in> set (parts (TypeUnder b))"
      "x' \<in> set (parts (TypeUnder a'))" "y' \<in> set (parts (TypeUnder b'))" "erase x' = erase x" "erase y' = erase y"
    for x y x' y'
    by (rule less.IH) (use that less.prems known_under_parts [OF ids(1)] known_under_parts [OF ids(2)] in blast)+
  note ua = TypeUnder_erase_eq [OF less.prems(5)] and ub = TypeUnder_erase_eq [OF less.prems(6)]
  have id: "ID a' = ID b' \<longleftrightarrow> ID a = ID b"
    using ID_eq_erase [OF assms(1) less.prems(1,2)] ID_eq_erase [OF assms(2) less.prems(3,4)] ua ub by simp
  have kinds: "Kind a' = Kind a" "Kind b' = Kind b"
    using less.prems(5,6) Kind_erase by metis+
  have "outer_name a' = outer_name a" "outer_name b' = outer_name b"
    using less.prems(5,6) outer_name_erase by metis+
  then have names: "compare_names a' b' = compare_names a b" by (simp only: compare_names_outer)
  show ?case
  proof (cases "ID a = ID b \<or> Kind a \<noteq> Kind b")
    case True
    then show ?thesis
      using id names kinds by (cases "ID a = ID b") (simp_all add: CompareTypes_same_ID CompareTypes_kinds)
  next
    case False
    then have d: "ID a \<noteq> ID b" "ID a' \<noteq> ID b'" and k: "Kind a = Kind b" using id by auto
    note un = CompareTypes_under [OF d(1)] CompareTypes_under [OF d(2)]
    show ?thesis
    proof (cases rule: TypeUnder_cases [of a])
      case (prim p)
      then obtain q where b: "TypeUnder b = TypePrim q" using same_kind_under(1) [OF k] by blast
      have ab': "TypeUnder a' = TypePrim p" "TypeUnder b' = TypePrim q"
        using ua ub prim b erase_shape(1) by auto
      have "ID a' = ID a" "ID b' = ID b" using ab' prim b ID_under by metis+
      then show ?thesis using un(1) [OF prim b] un(9) [OF ab'] by simp
    next
      case (rec i fs)
      then obtain j gs where b: "TypeUnder b = TypeRecord j gs" using same_kind_under(2) [OF k] by blast
      obtain i' fs' j' gs' where ab': "TypeUnder a' = TypeRecord i' fs'" "TypeUnder b' = TypeRecord j' gs'"
        and es: "map (map_prod id erase) fs' = map (map_prod id erase) fs" "map (map_prod id erase) gs' = map (map_prod id erase) gs"
        using erase_shape(2) [of "TypeUnder a'" "map (map_prod id erase) fs"] erase_shape(2) [of "TypeUnder b'" "map (map_prod id erase) gs"] ua ub rec b by auto
      note en = map_prod_erase_eq(1) [OF es(1)] map_prod_erase_eq(1) [OF es(2)]
      note et = map_prod_erase_eq(2) [OF es(1)] map_prod_erase_eq(2) [OF es(2)]
      have l: "length fs' = length fs" "length gs' = length gs" using en by (metis length_map)+
      have "map (\<lambda>(f, g). bytes_Compare (fst f) (fst g)) (zip fs' gs') = map (\<lambda>(f, g). bytes_Compare (fst f) (fst g)) (zip fs gs)"
        unfolding zip_fst_snd(1) [of bytes_Compare] using en by simp
      moreover have "map (\<lambda>(f, g). CompareTypes (snd f) (snd g)) (zip fs' gs') = map (\<lambda>(f, g). CompareTypes (snd f) (snd g)) (zip fs gs)"
        unfolding zip_fst_snd(2) [of CompareTypes]
        by (rule zip_cong_erase [OF et]) (use IH rec b ab' in auto)
      ultimately show ?thesis unfolding un(2) [OF rec b] un(10) [OF ab'] l by simp
    next
      case (arr i e)
      then obtain j f where b: "TypeUnder b = TypeArray j f" using same_kind_under(3) [OF k] by blast
      obtain i' e' j' f' where ab': "TypeUnder a' = TypeArray i' e'" "TypeUnder b' = TypeArray j' f'"
        "erase e' = erase e" "erase f' = erase f"
        using erase_shape(3) [of "TypeUnder a'" "erase e"] erase_shape(3) [of "TypeUnder b'" "erase f"] ua ub arr b by auto
      then show ?thesis using un(3) [OF arr b] un(11) [OF ab'(1,2)] IH [of e f e' f'] arr b by simp
    next
      case (set i e)
      then obtain j f where b: "TypeUnder b = TypeSet j f" using same_kind_under(4) [OF k] by blast
      obtain i' e' j' f' where ab': "TypeUnder a' = TypeSet i' e'" "TypeUnder b' = TypeSet j' f'"
        "erase e' = erase e" "erase f' = erase f"
        using erase_shape(4) [of "TypeUnder a'" "erase e"] erase_shape(4) [of "TypeUnder b'" "erase f"] ua ub set b by auto
      then show ?thesis using un(4) [OF set b] un(12) [OF ab'(1,2)] IH [of e f e' f'] set b by simp
    next
      case (map i x y)
      then obtain j l w where b: "TypeUnder b = TypeMap j l w" using same_kind_under(5) [OF k] by blast
      obtain i' x' y' j' l' w' where ab': "TypeUnder a' = TypeMap i' x' y'" "TypeUnder b' = TypeMap j' l' w'"
        "erase x' = erase x" "erase y' = erase y" "erase l' = erase l" "erase w' = erase w"
        using erase_shape(5) [of "TypeUnder a'" "erase x" "erase y"] erase_shape(5) [of "TypeUnder b'" "erase l" "erase w"] ua ub map b by auto
      then show ?thesis
        using un(5) [OF map b] un(13) [OF ab'(1,2)] IH [of x l x' l'] IH [of y w y' w'] map b by simp
    next
      case (union i ts)
      then obtain j us where b: "TypeUnder b = TypeUnion j us" using same_kind_under(6) [OF k] by blast
      obtain i' ts' j' us' where ab': "TypeUnder a' = TypeUnion i' ts'" "TypeUnder b' = TypeUnion j' us'"
        and es: "map erase ts' = map erase ts" "map erase us' = map erase us"
        using erase_shape(6) [of "TypeUnder a'" "map erase ts"] erase_shape(6) [of "TypeUnder b'" "map erase us"] ua ub union b by auto
      have l: "length ts' = length ts" "length us' = length us" using es by (metis length_map)+
      have "map (\<lambda>(t, u). CompareTypes t u) (zip ts' us') = map (\<lambda>(t, u). CompareTypes t u) (zip ts us)"
        by (rule zip_cong_erase [OF es]) (use IH union b ab' in auto)
      then show ?thesis unfolding un(6) [OF union b] un(14) [OF ab'] l by simp
    next
      case (enum i ss)
      then obtain j rs where b: "TypeUnder b = TypeEnum j rs" using same_kind_under(7) [OF k] by blast
      obtain i' j' where ab': "TypeUnder a' = TypeEnum i' ss" "TypeUnder b' = TypeEnum j' rs"
        using erase_shape(7) [of "TypeUnder a'" ss] erase_shape(7) [of "TypeUnder b'" rs] ua ub enum b by auto
      then show ?thesis unfolding un(7) [OF enum b] un(15) [OF ab'] by simp
    next
      case (error i e)
      then obtain j f where b: "TypeUnder b = TypeError j f" using same_kind_under(8) [OF k] by blast
      obtain i' e' j' f' where ab': "TypeUnder a' = TypeError i' e'" "TypeUnder b' = TypeError j' f'"
        "erase e' = erase e" "erase f' = erase f"
        using erase_shape(8) [of "TypeUnder a'" "erase e"] erase_shape(8) [of "TypeUnder b'" "erase f"] ua ub error b by auto
      then show ?thesis using un(8) [OF error b] un(16) [OF ab'(1,2)] IH [of e f e' f'] error b by simp
    qed
  qed
qed

subsection \<open>Decoding what was encoded\<close>

function limits_ok :: "ztype \<Rightarrow> bool" where
  "limits_ok t \<longleftrightarrow> (case t of TypeRecord _ fs \<Rightarrow> int (length fs) \<le> MaxRecordFields
      | TypeUnion _ ts \<Rightarrow> int (length ts) \<le> MaxUnionTypes
      | TypeEnum _ ss \<Rightarrow> int (length ss) \<le> MaxEnumSymbols | _ \<Rightarrow> True) \<and> (\<forall>p\<in>set (parts t). limits_ok p)"
  by pat_completeness auto
termination by (relation "measure size") (auto simp: size_parts)

declare limits_ok.simps [simp del]

lemma limits_ok_parts: "limits_ok t \<Longrightarrow> p \<in> set (parts t) \<Longrightarrow> limits_ok p"
  using limits_ok.simps [of t] by blast

text \<open>The definitions the encoder has seen are bound in the decoder's context.\<close>

definition binds :: "(gostring \<rightharpoonup> ztype) \<Rightarrow> tcontext \<Rightarrow> bool" where
  "binds tds c \<longleftrightarrow> (\<forall>n u. tds n = Some u \<longrightarrow> (\<exists>i u'. typedefs c n = Some (TypeNamed i n u') \<and> erase u' = erase u))"

lemma binds_frame: "binds tds c \<Longrightarrow> typedefs c' = typedefs c \<Longrightarrow> binds tds c'"
  by (simp add: binds_def)

definition decoded :: "tcontext \<Rightarrow> tcontext \<Rightarrow> (gostring \<rightharpoonup> ztype) \<Rightarrow> nat \<Rightarrow> bool" where
  "decoded c c' tds n \<longleftrightarrow> ctx_inv c' \<and> extends c c' \<and> binds tds c' \<and> length (byID c') \<le> length (byID c) + n"

lemma decoded_mono: "decoded c c' d n \<Longrightarrow> n \<le> m \<Longrightarrow> decoded c c' d m"
  by (simp add: decoded_def)

lemma decoded_trans: "decoded c c' d n \<Longrightarrow> decoded c' c'' d' m \<Longrightarrow> decoded c c'' d' (n + m)"
  by (auto simp: decoded_def intro: extends_trans)

text \<open>The lookups enter at most one type and leave the name bindings alone, but for named types.\<close>

lemma lookup_frame:
  "LookupTypeRecord c fs = (c', r) \<Longrightarrow> typedefs c' = typedefs c \<and> length (byID c') \<le> length (byID c) + 1"
  "LookupTypeArray c e = (c', t) \<Longrightarrow> typedefs c' = typedefs c \<and> length (byID c') \<le> length (byID c) + 1"
  "LookupTypeSet c e = (c', t) \<Longrightarrow> typedefs c' = typedefs c \<and> length (byID c') \<le> length (byID c) + 1"
  "LookupTypeMap c e f = (c', t) \<Longrightarrow> typedefs c' = typedefs c \<and> length (byID c') \<le> length (byID c) + 1"
  "LookupTypeUnion c ts = (c', t) \<Longrightarrow> typedefs c' = typedefs c \<and> length (byID c') \<le> length (byID c) + 1"
  "LookupTypeEnum c ss = (c', t) \<Longrightarrow> typedefs c' = typedefs c \<and> length (byID c') \<le> length (byID c) + 1"
  "LookupTypeError c e = (c', t) \<Longrightarrow> typedefs c' = typedefs c \<and> length (byID c') \<le> length (byID c) + 1"
  "LookupTypeNamed c n e = (c', r) \<Longrightarrow> length (byID c') \<le> length (byID c) + 1"
  by (auto simp: LookupTypeRecord_def LookupTypeArray_def LookupTypeSet_def LookupTypeMap_def LookupTypeUnion_def
      LookupTypeEnum_def LookupTypeError_def LookupTypeNamed_def Let_def enter_def split: option.splits if_splits)

lemma decoded_lookup:
  "decoded c c1 d n \<Longrightarrow> lookup_ok c1 c' t \<Longrightarrow> typedefs c' = typedefs c1 \<and> length (byID c') \<le> length (byID c1) + 1 \<Longrightarrow>
   decoded c c' d (n + 1) \<and> known c' t"
  by (auto simp: decoded_def lookup_ok_def intro: extends_trans binds_frame)

text \<open>How many types reading a type can enter, with room to spare.\<close>

definition room :: "ztype \<Rightarrow> nat" where
  "room t = 2 * size t + 1"

definition reads :: "nat \<Rightarrow> tcontext \<Rightarrow> bytes \<Rightarrow> ztype \<Rightarrow> (gostring \<rightharpoonup> ztype) \<Rightarrow> bool" where
  "reads k c e t tds \<longleftrightarrow> (\<forall>rest. \<exists>c' t'. dec_type k c (e @ rest) = (c', Inr (Some (t', rest))) \<and>
     decoded c c' tds (room t) \<and> known c' t' \<and> erase t' = erase t)"

lemma reads_wrap:
  assumes "reads k c e t tds"
    and dec: "\<And>tv. dec_type (Suc k) c (tag # tv) = tv_bind (dec_type k c tv) (\<lambda>c (inner, tv). ret_ok (L c inner) tv)"
    and ok: "\<And>c e c' t. ctx_inv c \<Longrightarrow> known c e \<Longrightarrow> L c e = (c', t) \<Longrightarrow> lookup_ok c c' t \<and> (\<exists>i. t = C i e)"
    and fr: "\<And>c e c' t. L c e = (c', t) \<Longrightarrow> typedefs c' = typedefs c \<and> length (byID c') \<le> length (byID c) + 1"
    and er: "\<And>i e. erase (C i e) = C 0 (erase e)" and sz: "size (C i t) = size t + 1"
  shows "reads (Suc k) c (tag # e) (C i t) tds"
  unfolding reads_def
proof
  fix rest
  obtain c1 t1 where 1: "dec_type k c (e @ rest) = (c1, Inr (Some (t1, rest)))" "decoded c c1 tds (room t)"
    "known c1 t1" "erase t1 = erase t" using assms(1) unfolding reads_def by blast
  obtain c' t' where L: "L c1 t1 = (c', t')" by force
  have inv: "ctx_inv c1" using 1(2) by (simp add: decoded_def)
  obtain j where j: "lookup_ok c1 c' t'" "t' = C j t1" using ok [OF inv 1(3) L] by blast
  have "dec_type (Suc k) c ((tag # e) @ rest) = (c', Inr (Some (t', rest)))"
    using dec [of "e @ rest"] by (simp add: 1(1) tv_bind_def ret_ok_def L)
  moreover have "decoded c c' tds (room (C i t)) \<and> known c' t'"
    using decoded_lookup [OF 1(2) j(1) fr [OF L]] sz by (auto simp: room_def elim: decoded_mono)
  ultimately show "\<exists>c' t'. dec_type (Suc k) c ((tag # e) @ rest) = (c', Inr (Some (t', rest))) \<and>
      decoded c c' tds (room (C i t)) \<and> known c' t' \<and> erase t' = erase (C i t)"
    using 1(4) er [of j t1] er [of i t] j(2) by auto
qed

lemma reads_array: "reads k c e t tds \<Longrightarrow> reads (Suc k) c (31 # e) (TypeArray i t) tds"
  by (rule reads_wrap [where L = LookupTypeArray and C = TypeArray])
    (assumption | rule LookupTypeArray_ok lookup_frame; assumption | simp)+

lemma reads_set: "reads k c e t tds \<Longrightarrow> reads (Suc k) c (32 # e) (TypeSet i t) tds"
  by (rule reads_wrap [where L = LookupTypeSet and C = TypeSet])
    (assumption | rule LookupTypeSet_ok lookup_frame; assumption | simp)+

lemma reads_error: "reads k c e t tds \<Longrightarrow> reads (Suc k) c (36 # e) (TypeError i t) tds"
  by (rule reads_wrap [where L = LookupTypeError and C = TypeError])
    (assumption | rule LookupTypeError_ok lookup_frame; assumption | simp)+

lemma LookupPrimitiveByID_byte: "LookupPrimitiveByID (int (unat (of_nat (prim_ID p) :: u8))) = Inr p"
  by (cases p) (simp_all add: LookupPrimitiveByID_def)

lemma reads_prim: "ctx_inv c \<Longrightarrow> binds tds c \<Longrightarrow> reads (Suc k) c [of_nat (prim_ID p)] (TypePrim p) tds"
  using LookupPrimitiveByID_byte [of p]
  by (cases p) (auto simp: reads_def decoded_def)

lemma decoded_refl: "ctx_inv c \<Longrightarrow> binds d c \<Longrightarrow> decoded c c d 0"
  by (simp add: decoded_def)

lemma decoded_small: "decoded c c' d n \<Longrightarrow> length (byID c) + n \<le> 2 ^ 32 \<Longrightarrow> ctx_small c'"
  by (simp add: decoded_def ctx_small_def)

lemma readsE:
  assumes "reads k c e t tds"
  obtains c' t' where "dec_type k c (e @ rest) = (c', Inr (Some (t', rest)))"
    and "decoded c c' tds (room t)" and "known c' t'" and "erase t' = erase t"
  using assms unfolding reads_def by blast

lemma reads_named:
  assumes r: "reads k c e t tds" and n: "short_name n" "ValidString n" "LookupPrimitive n = None"
    and small: "length (byID c) + room t \<le> 2 ^ 32"
  shows "reads (Suc k) c (37 # append_name [] n @ e) (TypeNamed i n t) (tds(n \<mapsto> t))"
  unfolding reads_def
proof
  fix rest
  obtain c1 t1 where 1: "dec_type k c (e @ rest) = (c1, Inr (Some (t1, rest)))" "decoded c c1 tds (room t)"
    "known c1 t1" "erase t1 = erase t" by (rule readsE [OF r])
  have inv: "ctx_inv c1" using 1(2) by (simp add: decoded_def)
  obtain c' t' where L: "LookupTypeNamed c1 n t1 = (c', Inr t')"
    using n(2,3) by (cases "nameds c1 (named_key n t1)") (auto simp: LookupTypeNamed_def Let_def)
  have ok: "lookup_ok c1 c' t'" "typedefs c' = (typedefs c1)(n \<mapsto> t')" and "\<exists>j. t' = TypeNamed j n t1"
    using LookupTypeNamed_ok [OF inv decoded_small [OF 1(2) small] n(1) 1(3) L] by blast+
  then obtain j where j: "t' = TypeNamed j n t1" by blast
  have "dec_type (Suc k) c ((37 # append_name [] n @ e) @ rest) = (c', Inr (Some (t', rest)))"
    by (simp add: DecodeName_append [OF n(1)] tv_bind_def 1(1) ret_err_def L)
  moreover have "binds (tds(n \<mapsto> t)) c'"
    using 1(2,4) ok(2) j by (auto simp: binds_def decoded_def)
  moreover have "extends c c'" "ctx_inv c'" "known c' t'"
    using 1(2) ok(1) by (auto simp: decoded_def lookup_ok_def intro: extends_trans)
  moreover have "length (byID c') \<le> length (byID c) + room (TypeNamed i n t)"
    using 1(2) lookup_frame(8) [OF L] by (simp add: decoded_def room_def)
  ultimately show "\<exists>c' t'. dec_type (Suc k) c ((37 # append_name [] n @ e) @ rest) = (c', Inr (Some (t', rest))) \<and>
      decoded c c' (tds(n \<mapsto> t)) (room (TypeNamed i n t)) \<and> known c' t' \<and> erase t' = erase (TypeNamed i n t)"
    using j 1(4) unfolding decoded_def by (intro exI [of _ c'] exI [of _ t']) simp
qed

lemma reads_ref:
  assumes "ctx_inv c" and "binds tds c" and "tds n = Some t" and "short_name n"
  shows "reads (Suc k) c (38 # append_name [] n) (TypeNamed i n t) tds"
proof -
  obtain j u where u: "typedefs c n = Some (TypeNamed j n u)" "erase u = erase t"
    using assms(2,3) unfolding binds_def by blast
  moreover have "known c (TypeNamed j n u)" using assms(1) u by (auto simp: ctx_inv_def bindings_ok_def)
  ultimately show ?thesis
    using assms by (auto simp: reads_def decoded_def DecodeName_append tv_bind_def LookupTypeDef_def)
qed

lemma reads_map:
  assumes x: "reads k c e x d" and y: "\<And>c1. decoded c c1 d (room x) \<Longrightarrow> reads k c1 e' y d'"
    and small: "length (byID c) + (room x + room y) \<le> 2 ^ 32"
  shows "reads (Suc k) c (33 # e @ e') (TypeMap i x y) d'"
  unfolding reads_def
proof
  fix rest
  obtain c1 x' where 1: "dec_type k c (e @ e' @ rest) = (c1, Inr (Some (x', e' @ rest)))" "decoded c c1 d (room x)"
    "known c1 x'" "erase x' = erase x" by (rule readsE [OF x])
  obtain c2 y' where 2: "dec_type k c1 (e' @ rest) = (c2, Inr (Some (y', rest)))" "decoded c1 c2 d' (room y)"
    "known c2 y'" "erase y' = erase y" by (rule readsE [OF y [OF 1(2)]])
  note 3 = decoded_trans [OF 1(2) 2(2)]
  have x': "known c2 x'" and inv: "ctx_inv c2" using 1(3) 2(2) by (auto simp: decoded_def dest: extendsD)
  obtain c' t' where L: "LookupTypeMap c2 x' y' = (c', t')" by force
  have ok: "lookup_ok c2 c' t'" and "\<exists>j. t' = TypeMap j x' y'"
    using LookupTypeMap_ok [OF inv decoded_small [OF 3 small] x' 2(3) L] by blast+
  moreover have "dec_type (Suc k) c ((33 # e @ e') @ rest) = (c', Inr (Some (t', rest)))"
    by (simp add: tv_bind_def 1(1) 2(1) ret_ok_def L)
  moreover have "decoded c c' d' (room (TypeMap i x y)) \<and> known c' t'"
    using decoded_lookup [OF 3 ok lookup_frame(4) [OF L]] by (auto simp: room_def elim: decoded_mono)
  ultimately show "\<exists>c' t'. dec_type (Suc k) c ((33 # e @ e') @ rest) = (c', Inr (Some (t', rest))) \<and>
      decoded c c' d' (room (TypeMap i x y)) \<and> known c' t' \<and> erase t' = erase (TypeMap i x y)"
    using 1(4) 2(4) by auto
qed

lemma reads_enum:
  assumes "ctx_inv c" and "binds tds c" and "\<forall>s\<in>set ss. short_name s" and "int (length ss) \<le> MaxEnumSymbols"
  shows "reads (Suc k) c (35 # put_uvarint (of_nat (length ss)) @ append_symbols [] ss) (TypeEnum i ss) tds"
  unfolding reads_def
proof
  fix rest
  obtain c' t' where L: "LookupTypeEnum c ss = (c', t')" by force
  have ok: "lookup_ok c c' t'" and "\<exists>j. t' = TypeEnum j ss"
    using LookupTypeEnum_ok [OF assms(1,3) L] by blast+
  moreover have "dec_type (Suc k) c ((35 # put_uvarint (of_nat (length ss)) @ append_symbols [] ss) @ rest) = (c', Inr (Some (t', rest)))"
    using assms(3,4) by (simp add: DecodeLength_put MaxEnumSymbols_def dec_symbols_append tv_bind_def ret_ok_def L)
  moreover have "decoded c c' tds (room (TypeEnum i ss)) \<and> known c' t'"
    using decoded_lookup [OF decoded_refl [OF assms(1,2)] ok lookup_frame(6) [OF L]]
    by (auto simp: room_def elim: decoded_mono)
  ultimately show "\<exists>c' t'. dec_type (Suc k) c ((35 # put_uvarint (of_nat (length ss)) @ append_symbols [] ss) @ rest) = (c', Inr (Some (t', rest))) \<and>
      decoded c c' tds (room (TypeEnum i ss)) \<and> known c' t' \<and> erase t' = erase (TypeEnum i ss)"
    by auto
qed

text \<open>The loops over record fields and union members.\<close>

definition reads_fields :: "nat \<Rightarrow> tcontext \<Rightarrow> bytes \<Rightarrow> field list \<Rightarrow> (gostring \<rightharpoonup> ztype) \<Rightarrow> bool" where
  "reads_fields k c e fs tds \<longleftrightarrow> (\<forall>rest acc. \<exists>c' fs'.
     dec_fields (dec_type k) (length fs) c (e @ rest) acc = (c', Inr (Some (acc @ fs', rest))) \<and>
     decoded c c' tds (sum_list (map (room \<circ> snd) fs)) \<and> (\<forall>t\<in>snd ` set fs'. known c' t) \<and>
     map (map_prod id erase) fs' = map (map_prod id erase) fs)"

definition reads_types :: "nat \<Rightarrow> tcontext \<Rightarrow> bytes \<Rightarrow> ztype list \<Rightarrow> (gostring \<rightharpoonup> ztype) \<Rightarrow> bool" where
  "reads_types k c e ts tds \<longleftrightarrow> (\<forall>rest acc. \<exists>c' ts'.
     dec_types (dec_type k) (length ts) c (Some (e @ rest)) acc = (c', Inr (Some (acc @ map Some ts', Some rest))) \<and>
     decoded c c' tds (sum_list (map room ts)) \<and> (\<forall>t\<in>set ts'. known c' t) \<and> map erase ts' = map erase ts)"

lemma reads_fields_Nil: "ctx_inv c \<Longrightarrow> binds tds c \<Longrightarrow> reads_fields k c [] [] tds"
  by (simp add: reads_fields_def decoded_refl)

lemma reads_types_Nil: "ctx_inv c \<Longrightarrow> binds tds c \<Longrightarrow> reads_types k c [] [] tds"
  by (simp add: reads_types_def decoded_refl)

lemma reads_fields_Cons:
  assumes t: "reads k c e t d" and n: "short_name n"
    and fs: "\<And>c1. decoded c c1 d (room t) \<Longrightarrow> reads_fields k c1 e' fs d'"
  shows "reads_fields k c (append_name [] n @ e @ e') ((n, t) # fs) d'"
  unfolding reads_fields_def
proof (intro allI)
  fix rest acc
  obtain c1 t1 where 1: "dec_type k c (e @ e' @ rest) = (c1, Inr (Some (t1, e' @ rest)))" "decoded c c1 d (room t)"
    "known c1 t1" "erase t1 = erase t" by (rule readsE [OF t])
  from fs [OF 1(2)] obtain c2 fs' where
    2: "dec_fields (dec_type k) (length fs) c1 (e' @ rest) (acc @ [(n, t1)]) = (c2, Inr (Some ((acc @ [(n, t1)]) @ fs', rest)))"
      "decoded c1 c2 d' (sum_list (map (room \<circ> snd) fs))" "\<forall>t\<in>snd ` set fs'. known c2 t"
      "map (map_prod id erase) fs' = map (map_prod id erase) fs" unfolding reads_fields_def by metis
  have "known c2 t1" using 1(3) 2(2) by (auto simp: decoded_def dest: extendsD)
  then show "\<exists>c' fs'. dec_fields (dec_type k) (length ((n, t) # fs)) c ((append_name [] n @ e @ e') @ rest) acc =
      (c', Inr (Some (acc @ fs', rest))) \<and> decoded c c' d' (sum_list (map (room \<circ> snd) ((n, t) # fs))) \<and>
      (\<forall>t\<in>snd ` set fs'. known c' t) \<and> map (map_prod id erase) fs' = map (map_prod id erase) ((n, t) # fs)"
    using decoded_trans [OF 1(2) 2(2)] 1(1,4) 2(1,3,4)
    by (intro exI [of _ c2] exI [of _ "(n, t1) # fs'"]) (simp add: DecodeName_append [OF n] tv_bind_def)
qed

lemma reads_types_Cons:
  assumes t: "reads k c e t d" and ts: "\<And>c1. decoded c c1 d (room t) \<Longrightarrow> reads_types k c1 e' ts d'"
  shows "reads_types k c (e @ e') (t # ts) d'"
  unfolding reads_types_def
proof (intro allI)
  fix rest acc
  obtain c1 t1 where 1: "dec_type k c (e @ e' @ rest) = (c1, Inr (Some (t1, e' @ rest)))" "decoded c c1 d (room t)"
    "known c1 t1" "erase t1 = erase t" by (rule readsE [OF t])
  from ts [OF 1(2)] obtain c2 ts' where
    2: "dec_types (dec_type k) (length ts) c1 (Some (e' @ rest)) (acc @ [Some t1]) =
        (c2, Inr (Some ((acc @ [Some t1]) @ map Some ts', Some rest)))"
      "decoded c1 c2 d' (sum_list (map room ts))" "\<forall>t\<in>set ts'. known c2 t" "map erase ts' = map erase ts"
    unfolding reads_types_def by metis
  have "known c2 t1" using 1(3) 2(2) by (auto simp: decoded_def dest: extendsD)
  then show "\<exists>c' ts'. dec_types (dec_type k) (length (t # ts)) c (Some ((e @ e') @ rest)) acc =
      (c', Inr (Some (acc @ map Some ts', Some rest))) \<and> decoded c c' d' (sum_list (map room (t # ts))) \<and>
      (\<forall>t\<in>set ts'. known c' t) \<and> map erase ts' = map erase (t # ts)"
    using decoded_trans [OF 1(2) 2(2)] 1(1,4) 2(1,3,4)
    by (intro exI [of _ c2] exI [of _ "t1 # ts'"]) simp
qed

lemma room_record: "sum_list (map (room \<circ> snd) fs) + 1 \<le> room (TypeRecord i fs)"
  by (induction fs) (auto simp: room_def)

lemma room_union: "sum_list (map room ts) + 1 \<le> room (TypeUnion i ts)"
  by (induction ts) (auto simp: room_def)

lemma reads_record:
  assumes fs: "reads_fields k c e fs d" and n: "distinct (map fst fs)" "\<forall>n\<in>fst ` set fs. short_name n"
    and small: "length (byID c) + room (TypeRecord i fs) \<le> 2 ^ 32" and l: "int (length fs) \<le> MaxRecordFields"
  shows "reads (Suc k) c (30 # put_uvarint (of_nat (length fs)) @ e) (TypeRecord i fs) d"
  unfolding reads_def
proof
  fix rest
  obtain c1 fs' where 1: "dec_fields (dec_type k) (length fs) c (e @ rest) [] = (c1, Inr (Some (fs', rest)))"
    "decoded c c1 d (sum_list (map (room \<circ> snd) fs))" "\<forall>t\<in>snd ` set fs'. known c1 t"
    "map (map_prod id erase) fs' = map (map_prod id erase) fs"
    using fs unfolding reads_fields_def by (metis append_Nil)
  have inv: "ctx_inv c1" using 1(2) by (simp add: decoded_def)
  have sm: "ctx_small c1" by (rule decoded_small [OF 1(2)]) (use small room_record [of fs i] in simp)
  have nm: "map fst fs' = map fst fs" by (rule map_prod_erase_eq(1) [OF 1(4)])
  have ks: "\<forall>(n, t)\<in>set fs'. short_name n \<and> known c1 t"
    using n(2) 1(3) nm by (metis (mono_tags, lifting) case_prod_unfold image_eqI list.set_map)
  obtain c' r where L: "LookupTypeRecord c1 fs' = (c', r)" by force
  note ok = LookupTypeRecord_ok [OF inv sm ks L]
  obtain t' where r: "r = Inr t'" using ok n(1) nm by (cases r) auto
  have "lookup_ok c1 c' t'" and "\<exists>j. t' = TypeRecord j fs'" using ok r by auto
  moreover have "dec_type (Suc k) c ((30 # put_uvarint (of_nat (length fs)) @ e) @ rest) = (c', Inr (Some (t', rest)))"
    using l by (simp add: DecodeLength_put MaxRecordFields_def 1(1) tv_bind_def ret_err_def L r)
  moreover have "decoded c c' d (room (TypeRecord i fs)) \<and> known c' t'"
    using decoded_lookup [OF 1(2) calculation(1) lookup_frame(1) [OF L]] room_record [of fs i]
    by (auto elim: decoded_mono)
  ultimately show "\<exists>c' t'. dec_type (Suc k) c ((30 # put_uvarint (of_nat (length fs)) @ e) @ rest) =
      (c', Inr (Some (t', rest))) \<and> decoded c c' d (room (TypeRecord i fs)) \<and> known c' t' \<and>
      erase t' = erase (TypeRecord i fs)"
    using 1(4) by auto
qed

lemma map_nth_eq: "map f xs = map f ys \<Longrightarrow> m < length ys \<Longrightarrow> f (xs ! m) = f (ys ! m)"
  by (metis length_map nth_map)

text \<open>The sorted members of a union stay sorted in another context.\<close>

lemma sorted_union_erase:
  assumes "ctx_inv c0" "\<forall>t\<in>set ts. known c0 t" "shape_ok (TypeUnion i ts)"
    and "ctx_inv c1" "\<forall>t\<in>set ts'. known c1 t" "map erase ts' = map erase ts"
  shows "sort_stable (\<lambda>a b. CompareTypes a b < 0) ts' = ts'"
proof -
  have len: "length ts' = length ts" using assms(6) by (metis length_map)
  have "successively (\<lambda>a b. \<not> CompareTypes b a < 0) ts"
    using successively_sort_stable [of "\<lambda>a b. CompareTypes a b < 0" ts] CompareTypes_asym assms(3) by simp
  moreover have "CompareTypes (ts' ! Suc m) (ts' ! m) = CompareTypes (ts ! Suc m) (ts ! m)" if "Suc m < length ts" for m
    by (rule CompareTypes_erase [OF assms(1,4)]) (use that assms(2,5,6) len in \<open>auto dest: Suc_lessD intro: map_nth_eq\<close>)
  ultimately show ?thesis
    using len by (intro sort_stable_successively) (simp add: successively_conv_nth)
qed

lemma reads_union:
  assumes ts: "reads_types k c e ts d" and c0: "ctx_inv c0" "\<forall>t\<in>set ts. known c0 t" "shape_ok (TypeUnion i ts)"
    and small: "length (byID c) + room (TypeUnion i ts) \<le> 2 ^ 32" and l: "int (length ts) \<le> MaxUnionTypes"
  shows "reads (Suc k) c (34 # put_uvarint (of_nat (length ts)) @ e) (TypeUnion i ts) d"
  unfolding reads_def
proof
  fix rest
  obtain c1 ts' where 1: "dec_types (dec_type k) (length ts) c (Some (e @ rest)) [] = (c1, Inr (Some (map Some ts', Some rest)))"
    "decoded c c1 d (sum_list (map room ts))" "\<forall>t\<in>set ts'. known c1 t" "map erase ts' = map erase ts"
    using ts unfolding reads_types_def by (metis append_Nil)
  have inv: "ctx_inv c1" using 1(2) by (simp add: decoded_def)
  have sm: "ctx_small c1" by (rule decoded_small [OF 1(2)]) (use small room_union [of ts i] in simp)
  have "sort_stable (\<lambda>a b. CompareTypes a b < 0) ts' = ts'"
    by (rule sorted_union_erase [OF c0 inv 1(3,4)])
  moreover obtain c' t' where L: "LookupTypeUnion c1 ts' = (c', t')" by force
  ultimately have ok: "lookup_ok c1 c' t'" and "\<exists>j. t' = TypeUnion j ts'"
    using LookupTypeUnion_ok [OF inv sm 1(3) L] by simp_all
  moreover have "dec_type (Suc k) c ((34 # put_uvarint (of_nat (length ts)) @ e) @ rest) = (c', Inr (Some (t', rest)))"
    using l by (auto simp: DecodeLength_put MaxUnionTypes_def 1(1) tv_bind_def L comp_def)
  moreover have "decoded c c' d (room (TypeUnion i ts)) \<and> known c' t'"
    using decoded_lookup [OF 1(2) ok lookup_frame(5) [OF L]] room_union [of ts i] by (auto elim: decoded_mono)
  ultimately show "\<exists>c' t'. dec_type (Suc k) c ((34 # put_uvarint (of_nat (length ts)) @ e) @ rest) =
      (c', Inr (Some (t', rest))) \<and> decoded c c' d (room (TypeUnion i ts)) \<and> known c' t' \<and>
      erase t' = erase (TypeUnion i ts)"
    using 1(4) by auto
qed

lemma known_names_short: "ctx_inv c \<Longrightarrow> known c t \<Longrightarrow> \<forall>n\<in>set (names t). short_name n"
  using known_entry(1) [OF ctx_invD(1), of c t] by (cases t) (auto simp: entry_ok_def)

lemma decoded_next:
  "decoded c c1 d n \<Longrightarrow> length (byID c) + (n + m) \<le> 2 ^ 32 \<Longrightarrow>
   ctx_inv c1 \<and> binds d c1 \<and> length (byID c1) + m \<le> 2 ^ 32"
  by (simp add: decoded_def)

lemma decode_encoded:
  fixes b0 b1 b2 :: bytes
  assumes c0: "ctx_inv c0"
  shows "known c0 t \<Longrightarrow> limits_ok t \<Longrightarrow> ctx_inv c \<Longrightarrow> binds tds c \<Longrightarrow> length (byID c) + room t \<le> 2 ^ 32 \<Longrightarrow>
      length (tv_enc t tds) \<le> k \<Longrightarrow> reads k c (tv_enc t tds) t (tv_defs t tds)"
    and "\<forall>(n, t)\<in>set fs. short_name n \<and> known c0 t \<and> limits_ok t \<Longrightarrow> ctx_inv c \<Longrightarrow> binds tds c \<Longrightarrow>
      length (byID c) + sum_list (map (room \<circ> snd) fs) \<le> 2 ^ 32 \<Longrightarrow> length (fs_enc fs tds) \<le> k \<Longrightarrow>
      reads_fields k c (fs_enc fs tds) fs (fs_defs fs tds)"
    and "\<forall>t\<in>set ts. known c0 t \<and> limits_ok t \<Longrightarrow> ctx_inv c \<Longrightarrow> binds tds c \<Longrightarrow>
      length (byID c) + sum_list (map room ts) \<le> 2 ^ 32 \<Longrightarrow> length (ts_enc ts tds) \<le> k \<Longrightarrow>
      reads_types k c (ts_enc ts tds) ts (ts_defs ts tds)"
proof (induction b0 t tds and b1 fs tds and b2 ts tds arbitrary: c k and c k and c k
    rule: appendTypeValue_append_fields_append_types.induct)
  case (1 b i n t tds)
  have t: "known c0 t" "limits_ok t" "short_name n" "ValidString n" "LookupPrimitive n = None"
    using known_parts [OF ctx_invD(1) [OF c0] "1.prems"(1)] limits_ok_parts [OF "1.prems"(2)]
      known_names_short [OF c0 "1.prems"(1)] known_shape [OF c0 "1.prems"(1)] by auto
  obtain j where k: "k = Suc j" using "1.prems"(6) by (cases k) (auto simp: tv_simps split: if_splits)
  show ?case
  proof (cases "tds n = Some t")
    case True
    then show ?thesis using reads_ref [OF "1.prems"(3,4) True t(3)] by (simp add: tv_simps k)
  next
    case False
    have "reads j c (tv_enc t tds) t (tv_defs t tds)"
      by (rule "1.IH" [OF False t(1,2) "1.prems"(3,4)]) (use "1.prems"(5,6) False k in \<open>auto simp: room_def tv_simps\<close>)
    from reads_named [OF this t(3,4,5)] "1.prems"(5)
    have "reads (Suc j) c (37 # append_name [] n @ tv_enc t tds) (TypeNamed i n t) ((tv_defs t tds)(n \<mapsto> t))"
      by (simp add: room_def)
    then show ?thesis using False by (simp only: tv_simps k if_False)
  qed
next
  case (2 b i fs tds)
  obtain j where k: "k = Suc j" using "2.prems"(6) by (cases k) (auto simp: tv_simps)
  have fs: "\<forall>(n, t)\<in>set fs. short_name n \<and> known c0 t \<and> limits_ok t" "distinct (map fst fs)"
    using known_parts [OF ctx_invD(1) [OF c0] "2.prems"(1)] limits_ok_parts [OF "2.prems"(2)]
      known_names_short [OF c0 "2.prems"(1)] known_shape [OF c0 "2.prems"(1)] by force+
  have "reads_fields j c (fs_enc fs tds) fs (fs_defs fs tds)"
    by (rule "2.IH" [OF fs(1) "2.prems"(3,4)]) (use "2.prems"(5,6) room_record [of fs i] k in \<open>auto simp: tv_simps comp_def\<close>)
  moreover have "int (length fs) \<le> MaxRecordFields" using "2.prems"(2) limits_ok.simps [of "TypeRecord i fs"] by simp
  ultimately show ?case
    using reads_record [OF _ fs(2) _ "2.prems"(5)] fs(1) by (force simp: tv_simps k)
next
  case (3 b i ts tds)
  obtain j where k: "k = Suc j" using "3.prems"(6) by (cases k) (auto simp: tv_simps)
  have ts: "\<forall>t\<in>set ts. known c0 t \<and> limits_ok t" "shape_ok (TypeUnion i ts)"
    using known_parts [OF ctx_invD(1) [OF c0] "3.prems"(1)] limits_ok_parts [OF "3.prems"(2)]
      known_shape [OF c0 "3.prems"(1)] by force+
  have "reads_types j c (ts_enc ts tds) ts (ts_defs ts tds)"
    by (rule "3.IH" [OF ts(1) "3.prems"(3,4)]) (use "3.prems"(5,6) room_union [of ts i] k in \<open>auto simp: tv_simps\<close>)
  moreover have "int (length ts) \<le> MaxUnionTypes" using "3.prems"(2) limits_ok.simps [of "TypeUnion i ts"] by simp
  ultimately show ?case
    using reads_union [OF _ c0 _ ts(2) "3.prems"(5)] ts(1) by (auto simp: tv_simps k)
next
  case (4 b i t tds)
  obtain j where k: "k = Suc j" using "4.prems"(6) by (cases k) (auto simp: tv_simps)
  have "reads j c (tv_enc t tds) t (tv_defs t tds)"
    by (rule "4.IH") (use "4.prems" known_parts [OF ctx_invD(1) [OF c0] "4.prems"(1)] limits_ok_parts [OF "4.prems"(2)] k
        in \<open>auto simp: tv_simps room_def\<close>)
  then show ?case using reads_set by (simp add: tv_simps k)
next
  case (5 b i t tds)
  obtain j where k: "k = Suc j" using "5.prems"(6) by (cases k) (auto simp: tv_simps)
  have "reads j c (tv_enc t tds) t (tv_defs t tds)"
    by (rule "5.IH") (use "5.prems" known_parts [OF ctx_invD(1) [OF c0] "5.prems"(1)] limits_ok_parts [OF "5.prems"(2)] k
        in \<open>auto simp: tv_simps room_def\<close>)
  then show ?case using reads_array by (simp add: tv_simps k)
next
  case (6 b i ss tds)
  obtain j where k: "k = Suc j" using "6.prems"(6) by (cases k) (auto simp: tv_simps)
  show ?case
    using reads_enum [OF "6.prems"(3,4), of ss] known_names_short [OF c0 "6.prems"(1)] "6.prems"(2) limits_ok.simps [of "TypeEnum i ss"]
    by (simp add: tv_simps k)
next
  case (7 b i x y tds)
  obtain j where k: "k = Suc j" using "7.prems"(6) by (cases k) (auto simp: tv_simps)
  have kn: "known c0 x" "known c0 y" "limits_ok x" "limits_ok y"
    using known_parts [OF ctx_invD(1) [OF c0] "7.prems"(1)] limits_ok_parts [OF "7.prems"(2)] by auto
  have rm: "length (byID c) + (room x + room y) \<le> 2 ^ 32" using "7.prems"(5) by (simp add: room_def)
  have lens: "length (tv_enc x tds) \<le> j" "length (tv_enc y (tv_defs x tds)) \<le> j"
    using "7.prems"(6) k by (auto simp: tv_simps)
  have x: "reads j c (tv_enc x tds) x (tv_defs x tds)"
    by (rule "7.IH"(1) [OF kn(1,3) "7.prems"(3,4) _ lens(1)]) (use rm in simp)
  have y: "reads j c1 (tv_enc y (tv_defs x tds)) y (tv_defs y (tv_defs x tds))" if "decoded c c1 (tv_defs x tds) (room x)" for c1
    using "7.IH"(2) [OF refl append_enc(1) [symmetric] kn(2,4) _ _ _ lens(2)] decoded_next [OF that rm] by blast
  show ?case using reads_map [OF x y rm] by (simp add: tv_simps k)
next
  case (8 b i t tds)
  obtain j where k: "k = Suc j" using "8.prems"(6) by (cases k) (auto simp: tv_simps)
  have "reads j c (tv_enc t tds) t (tv_defs t tds)"
    by (rule "8.IH") (use "8.prems" known_parts [OF ctx_invD(1) [OF c0] "8.prems"(1)] limits_ok_parts [OF "8.prems"(2)] k
        in \<open>auto simp: tv_simps room_def\<close>)
  then show ?case using reads_error by (simp add: tv_simps k)
next
  case (9 b p tds)
  then show ?case using reads_prim by (cases k) (simp_all add: tv_simps)
next
  case (10 b tds)
  then show ?case by (simp add: tv_simps reads_fields_Nil)
next
  case (11 b n t fs tds)
  have rm: "length (byID c) + (room t + sum_list (map (room \<circ> snd) fs)) \<le> 2 ^ 32" using "11.prems"(4) by (simp add: comp_def)
  have lens: "length (tv_enc t tds) \<le> k" "length (fs_enc fs (tv_defs t tds)) \<le> k" using "11.prems"(5) by (auto simp: tv_simps)
  have t: "reads k c (tv_enc t tds) t (tv_defs t tds)"
    by (rule "11.IH"(1) [OF _ _ "11.prems"(2,3) _ lens(1)]) (use rm "11.prems"(1) in auto)
  have fs: "reads_fields k c1 (fs_enc fs (tv_defs t tds)) fs (fs_defs fs (tv_defs t tds))"
    if "decoded c c1 (tv_defs t tds) (room t)" for c1
    using "11.IH"(2) [OF refl append_enc(1) [symmetric] _ _ _ _ lens(2)] decoded_next [OF that rm] "11.prems"(1) by (auto simp: comp_def)
  show ?case using reads_fields_Cons [OF t _ fs] "11.prems"(1) by (simp add: tv_simps)
next
  case (12 b tds)
  then show ?case by (simp add: tv_simps reads_types_Nil)
next
  case (13 b t ts tds)
  have rm: "length (byID c) + (room t + sum_list (map room ts)) \<le> 2 ^ 32" using "13.prems"(4) by simp
  have lens: "length (tv_enc t tds) \<le> k" "length (ts_enc ts (tv_defs t tds)) \<le> k" using "13.prems"(5) by (auto simp: tv_simps)
  have t: "reads k c (tv_enc t tds) t (tv_defs t tds)"
    by (rule "13.IH"(1) [OF _ _ "13.prems"(2,3) _ lens(1)]) (use rm "13.prems"(1) in auto)
  have ts: "reads_types k c1 (ts_enc ts (tv_defs t tds)) ts (ts_defs ts (tv_defs t tds))"
    if "decoded c c1 (tv_defs t tds) (room t)" for c1
    using "13.IH"(2) [OF refl append_enc(1) [symmetric] _ _ _ _ lens(2)] decoded_next [OF that rm] "13.prems"(1) by auto
  show ?case using reads_types_Cons [OF t ts] by (simp add: tv_simps)
qed

subsection \<open>Canonical encodings\<close>

text \<open>The encoding of a type depends only on what the type means.\<close>

definition defs_eq :: "tcontext \<Rightarrow> tcontext \<Rightarrow> (gostring \<rightharpoonup> ztype) \<Rightarrow> (gostring \<rightharpoonup> ztype) \<Rightarrow> bool" where
  "defs_eq c0 c1 d d' \<longleftrightarrow>
     (\<forall>n. rel_option (\<lambda>a b. known c0 a \<and> known c1 b \<and> erase a = erase b) (d n) (d' n))"

lemma defs_eq_upd:
  "defs_eq c0 c1 d d' \<Longrightarrow> known c0 a \<Longrightarrow> known c1 b \<Longrightarrow> erase a = erase b \<Longrightarrow> defs_eq c0 c1 (d(n \<mapsto> a)) (d'(n \<mapsto> b))"
  by (simp add: defs_eq_def)

lemma defs_eq_Some:
  assumes "ctx_inv c0" "ctx_inv c1" "defs_eq c0 c1 d d'" "known c0 a" "known c1 b" "erase a = erase b"
  shows "d n = Some a \<longleftrightarrow> d' n = Some b"
proof -
  have r: "rel_option (\<lambda>a b. known c0 a \<and> known c1 b \<and> erase a = erase b) (d n) (d' n)"
    using assms(3) by (simp add: defs_eq_def)
  show ?thesis
  proof (cases "d n")
    case (Some x)
    then obtain y where y: "d' n = Some y" "known c0 x" "known c1 y" "erase x = erase y"
      using r by (cases "d' n") auto
    have "x = a \<longleftrightarrow> y = b"
      using erase_unique [OF assms(1) y(2) assms(4)] erase_unique [OF assms(2) y(3) assms(5)] y(4) assms(6) by metis
    then show ?thesis using Some y by simp
  qed (use r in \<open>cases "d' n"; simp\<close>)
qed

lemma erase_inv:
  "erase (TypeNamed i n t) = erase u \<Longrightarrow> \<exists>j v. u = TypeNamed j n v \<and> erase t = erase v"
  "erase (TypeRecord i fs) = erase u \<Longrightarrow> \<exists>j gs. u = TypeRecord j gs \<and> map (map_prod id erase) fs = map (map_prod id erase) gs"
  "erase (TypeUnion i ts) = erase u \<Longrightarrow> \<exists>j us. u = TypeUnion j us \<and> map erase ts = map erase us"
  "erase (TypeSet i t) = erase u \<Longrightarrow> \<exists>j v. u = TypeSet j v \<and> erase t = erase v"
  "erase (TypeArray i t) = erase u \<Longrightarrow> \<exists>j v. u = TypeArray j v \<and> erase t = erase v"
  "erase (TypeEnum i ss) = erase u \<Longrightarrow> \<exists>j. u = TypeEnum j ss"
  "erase (TypeMap i x y) = erase u \<Longrightarrow> \<exists>j v w. u = TypeMap j v w \<and> erase x = erase v \<and> erase y = erase w"
  "erase (TypeError i t) = erase u \<Longrightarrow> \<exists>j v. u = TypeError j v \<and> erase t = erase v"
  "erase (TypePrim p) = erase u \<Longrightarrow> u = TypePrim p"
  by (cases u; auto)+

lemma encode_erase:
  fixes b0 b1 b2 :: bytes
  assumes c: "ctx_inv c0" "ctx_inv c1"
  shows "known c0 t \<Longrightarrow> known c1 u \<Longrightarrow> erase t = erase u \<Longrightarrow> defs_eq c0 c1 d d' \<Longrightarrow>
      tv_enc t d = tv_enc u d' \<and> defs_eq c0 c1 (tv_defs t d) (tv_defs u d')"
    and "\<forall>t\<in>snd ` set fs. known c0 t \<Longrightarrow> \<forall>t\<in>snd ` set gs. known c1 t \<Longrightarrow>
      map (map_prod id erase) fs = map (map_prod id erase) gs \<Longrightarrow> defs_eq c0 c1 d d' \<Longrightarrow>
      fs_enc fs d = fs_enc gs d' \<and> defs_eq c0 c1 (fs_defs fs d) (fs_defs gs d')"
    and "\<forall>t\<in>set ts. known c0 t \<Longrightarrow> \<forall>t\<in>set us. known c1 t \<Longrightarrow> map erase ts = map erase us \<Longrightarrow>
      defs_eq c0 c1 d d' \<Longrightarrow> ts_enc ts d = ts_enc us d' \<and> defs_eq c0 c1 (ts_defs ts d) (ts_defs us d')"
proof (induction b0 t d and b1 fs d and b2 ts d arbitrary: u d' and gs d' and us d'
    rule: appendTypeValue_append_fields_append_types.induct)
  case (1 b i n t d)
  obtain j v where u: "u = TypeNamed j n v" "erase t = erase v" using erase_inv(1) [OF "1.prems"(3)] by blast
  have k: "known c0 t" "known c1 v"
    using known_parts [OF ctx_invD(1) [OF c(1)] "1.prems"(1)] known_parts [OF ctx_invD(1) [OF c(2)] "1.prems"(2)] u by auto
  note ref = defs_eq_Some [OF c "1.prems"(4) k u(2), of n]
  show ?case
  proof (cases "d n = Some t")
    case True
    then show ?thesis using ref "1.prems"(4) by (simp add: tv_simps u(1))
  next
    case False
    note IH = "1.IH" [OF False k u(2) "1.prems"(4)]
    have "defs_eq c0 c1 ((tv_defs t d)(n \<mapsto> t)) ((tv_defs v d')(n \<mapsto> v))"
      by (rule defs_eq_upd) (use IH k u(2) in simp_all)
    then show ?thesis using False IH ref by (simp add: tv_named u(1) fun_upd_def)
  qed
next
  case (2 b i fs d)
  obtain j gs where u: "u = TypeRecord j gs" "map (map_prod id erase) fs = map (map_prod id erase) gs"
    using erase_inv(2) [OF "2.prems"(3)] by blast
  have "length fs = length gs" using u(2) by (metis length_map)
  then show ?case
    using "2.IH" [of gs, OF _ _ u(2) "2.prems"(4)] known_parts [OF ctx_invD(1) [OF c(1)] "2.prems"(1)]
      known_parts [OF ctx_invD(1) [OF c(2)] "2.prems"(2)] by (simp add: tv_simps u(1))
next
  case (3 b i ts d)
  obtain j us where u: "u = TypeUnion j us" "map erase ts = map erase us"
    using erase_inv(3) [OF "3.prems"(3)] by blast
  have "length ts = length us" using u(2) by (metis length_map)
  then show ?case
    using "3.IH" [of us, OF _ _ u(2) "3.prems"(4)] known_parts [OF ctx_invD(1) [OF c(1)] "3.prems"(1)]
      known_parts [OF ctx_invD(1) [OF c(2)] "3.prems"(2)] by (simp add: tv_simps u(1))
next
  case (4 b i t d)
  then show ?case
    using erase_inv(4) [OF "4.prems"(3)] known_parts [OF ctx_invD(1) [OF c(1)] "4.prems"(1)]
      known_parts [OF ctx_invD(1) [OF c(2)] "4.prems"(2)] by (fastforce simp: tv_simps)
next
  case (5 b i t d)
  then show ?case
    using erase_inv(5) [OF "5.prems"(3)] known_parts [OF ctx_invD(1) [OF c(1)] "5.prems"(1)]
      known_parts [OF ctx_invD(1) [OF c(2)] "5.prems"(2)] by (fastforce simp: tv_simps)
next
  case (6 b i ss d)
  then show ?case using erase_inv(6) [OF "6.prems"(3)] by (auto simp: tv_simps)
next
  case (7 b i x y d)
  obtain j v w where u: "u = TypeMap j v w" "erase x = erase v" "erase y = erase w"
    using erase_inv(7) [OF "7.prems"(3)] by blast
  have k: "known c0 x" "known c0 y" "known c1 v" "known c1 w"
    using known_parts [OF ctx_invD(1) [OF c(1)] "7.prems"(1)] known_parts [OF ctx_invD(1) [OF c(2)] "7.prems"(2)] u by auto
  note IH1 = "7.IH"(1) [OF k(1,3) u(2) "7.prems"(4)]
  note IH2 = "7.IH"(2) [OF refl append_enc(1) [symmetric] k(2,4) u(3) conjunct2 [OF IH1]]
  show ?case using IH1 IH2 by (simp add: tv_simps u(1))
next
  case (8 b i t d)
  then show ?case
    using erase_inv(8) [OF "8.prems"(3)] known_parts [OF ctx_invD(1) [OF c(1)] "8.prems"(1)]
      known_parts [OF ctx_invD(1) [OF c(2)] "8.prems"(2)] by (fastforce simp: tv_simps)
next
  case (9 b p d)
  then show ?case using erase_inv(9) [OF "9.prems"(3)] by (simp add: tv_simps)
next
  case (10 b d)
  then show ?case by (simp add: tv_simps)
next
  case (11 b n t fs d)
  obtain v gs' where gs: "gs = (n, v) # gs'" "erase t = erase v" "map (map_prod id erase) fs = map (map_prod id erase) gs'"
    using "11.prems"(3) by (cases gs) (auto simp: id_def)
  note IH1 = "11.IH"(1) [of v, OF _ _ gs(2) "11.prems"(4)]
  have 1: "tv_enc t d = tv_enc v d'" "defs_eq c0 c1 (tv_defs t d) (tv_defs v d')"
    using IH1 "11.prems"(1,2) gs(1) by simp_all
  note IH2 = "11.IH"(2) [OF refl append_enc(1) [symmetric], of gs', OF _ _ gs(3) 1(2)]
  show ?case using 1 IH2 "11.prems"(1,2) by (simp add: tv_simps gs(1))
next
  case (12 b d)
  then show ?case by (simp add: tv_simps)
next
  case (13 b t ts d)
  obtain v us' where us: "us = v # us'" "erase t = erase v" "map erase ts = map erase us'"
    using "13.prems"(3) by (cases us) auto
  note IH1 = "13.IH"(1) [of v, OF _ _ us(2) "13.prems"(4)]
  have 1: "tv_enc t d = tv_enc v d'" "defs_eq c0 c1 (tv_defs t d) (tv_defs v d')"
    using IH1 "13.prems"(1,2) us(1) by simp_all
  note IH2 = "13.IH"(2) [OF refl append_enc(1) [symmetric], of us', OF _ _ us(3) 1(2)]
  show ?case using 1 IH2 "13.prems"(1,2) by (simp add: tv_simps us(1))
qed

end
