(* ===== verification/Type_Value_Ctx.thy ===== *)
theory Type_Value_Ctx
  imports Type_Value_Codec
begin

text \<open>
  What decoding does to a context: arbitrary bytes keep it well formed and never exhaust the
  recursion bound, the caches of \<open>LookupByValue\<close> and \<open>LookupTypeValue\<close> stay consistent, and
  types move between contexts through their type values.
\<close>

subsection \<open>Decoding arbitrary bytes\<close>

text \<open>
  A safe decoding step keeps the invariant of the context, never runs out of fuel and enters no
  more types than the bound; a result satisfies the given predicate.
\<close>

definition safe :: "nat \<Rightarrow> tcontext \<Rightarrow> (tcontext \<Rightarrow> 'a \<Rightarrow> bool) \<Rightarrow> 'a tv_res \<Rightarrow> bool" where
  "safe N c Q m \<longleftrightarrow> (case m of (c', r) \<Rightarrow> ctx_inv c' \<and> extends c c' \<and> length (byID c') \<le> N \<and> r \<noteq> Inl TvFuel \<and>
     (\<forall>x. r = Inr (Some x) \<longrightarrow> Q c' x))"

lemma safe_bind:
  assumes "safe N c Q m" and "\<And>c1 x. ctx_inv c1 \<Longrightarrow> extends c c1 \<Longrightarrow> length (byID c1) \<le> N \<Longrightarrow> Q c1 x \<Longrightarrow> safe N c1 R (f c1 x)"
  shows "safe N c R (tv_bind m f)"
proof -
  obtain c1 r where m: "m = (c1, r)" by (cases m)
  have 1: "ctx_inv c1" "extends c c1" "length (byID c1) \<le> N" "r \<noteq> Inl TvFuel" "\<And>x. r = Inr (Some x) \<Longrightarrow> Q c1 x"
    using assms(1) m by (auto simp: safe_def)
  consider p where "r = Inl p" "p \<noteq> TvFuel" | "r = Inr None" | x where "r = Inr (Some x)"
    using 1(4) by (metis obj_sumE not_None_eq)
  then show ?thesis
  proof cases
    case 3
    then show ?thesis using assms(2) [OF 1(1,2,3) 1(5) [OF 3]] m 1(2)
      by (auto simp: safe_def tv_bind_def intro: extends_trans)
  qed (use 1 m in \<open>auto simp: safe_def tv_bind_def\<close>)
qed

lemma safe_mono: "safe N c Q m \<Longrightarrow> (\<And>c' x. Q c' x \<Longrightarrow> R c' x) \<Longrightarrow> safe N c R m"
  by (auto simp: safe_def)

text \<open>A type was read: it is in the context, input was consumed, and the rest is within the bound.\<close>

definition got :: "nat \<Rightarrow> nat \<Rightarrow> tcontext \<Rightarrow> ztype \<times> bytes \<Rightarrow> bool" where
  "got N L c x \<longleftrightarrow> known c (fst x) \<and> length (snd x) < L \<and> length (byID c) + length (snd x) \<le> N"

lemma got_mono: "got N L c x \<Longrightarrow> L \<le> L' \<Longrightarrow> got N L' c x"
  by (simp add: got_def)

lemma DecodeLength_bounds: "DecodeLength tv = Some (n, r) \<Longrightarrow> length r < length tv"
  using Uvarint_bounds [of tv] by (auto simp: DecodeLength_def split: prod.splits if_splits)

lemma DecodeName_cases: "DecodeName tv \<noteq> Inl TvFuel"
  "DecodeName tv = Inr (Some (n, r)) \<Longrightarrow> length r < length tv \<and> length n < length tv"
  using DecodeLength_bounds [of tv] by (auto simp: DecodeName_def split: option.splits if_splits)

lemma safe_DecodeName:
  "ctx_inv c \<Longrightarrow> length (byID c) \<le> N \<Longrightarrow>
   safe N c (\<lambda>c' (n, r). c' = c \<and> length r < length tv \<and> length n < length tv) (c, DecodeName tv)"
  using DecodeName_cases [of tv] by (auto simp: safe_def)

lemma safe_None: "ctx_inv c \<Longrightarrow> length (byID c) \<le> N \<Longrightarrow> safe N c Q (c, Inr None)"
  by (simp add: safe_def)

lemma safe_panic: "ctx_inv c \<Longrightarrow> length (byID c) \<le> N \<Longrightarrow> p \<noteq> TvFuel \<Longrightarrow> safe N c Q (c, Inl p)"
  by (simp add: safe_def)

lemma safe_ret:
  "ctx_inv c \<Longrightarrow> known c t \<Longrightarrow> length r < L \<Longrightarrow> length (byID c) + length r \<le> N \<Longrightarrow>
   safe N c (got N L) (c, Inr (Some (t, r)))"
  by (simp add: safe_def got_def)

lemma safe_ret_ok:
  assumes "lookup_ok c c' t" and "typedefs c' = typedefs c \<and> length (byID c') \<le> length (byID c) + 1"
    and "length r < L" and "length (byID c) + length r < N"
  shows "safe N c (got N L) (c', Inr (Some (t, r)))"
  using assms by (auto simp: safe_def got_def lookup_ok_def)

definition safe_dec :: "tv_dec \<Rightarrow> nat \<Rightarrow> bool" where
  "safe_dec D L \<longleftrightarrow> (\<forall>c tv N. ctx_inv c \<longrightarrow> length tv < L \<longrightarrow> length (byID c) + length tv \<le> N \<longrightarrow> N \<le> 2 ^ 32 \<longrightarrow>
     safe N c (got N (length tv)) (D c tv))"

lemma safe_decD:
  "safe_dec D L \<Longrightarrow> ctx_inv c \<Longrightarrow> length tv < L \<Longrightarrow> length (byID c) + length tv \<le> N \<Longrightarrow> N \<le> 2 ^ 32 \<Longrightarrow>
   safe N c (got N (length tv)) (D c tv)"
  by (simp add: safe_dec_def)

definition got_fields :: "nat \<Rightarrow> nat \<Rightarrow> tcontext \<Rightarrow> field list \<times> bytes \<Rightarrow> bool" where
  "got_fields N L c x \<longleftrightarrow> (\<forall>(n, t)\<in>set (fst x). short_name n \<and> known c t) \<and> length (snd x) \<le> L \<and>
     length (byID c) + length (snd x) \<le> N"

lemma known_fields_mono:
  "extends c c' \<Longrightarrow> \<forall>(n, t)\<in>set fs. short_name n \<and> known c t \<Longrightarrow> \<forall>(n, t)\<in>set fs. short_name n \<and> known c' t"
  by (auto simp: extends_def)

lemma safe_dec_fields:
  assumes "safe_dec D L" and "N \<le> 2 ^ 32"
  shows "ctx_inv c \<Longrightarrow> length tv < L \<Longrightarrow> length (byID c) + length tv \<le> N \<Longrightarrow>
    \<forall>(n, t)\<in>set acc. short_name n \<and> known c t \<Longrightarrow> safe N c (got_fields N (length tv)) (dec_fields D n c tv acc)"
proof (induction n arbitrary: c tv acc)
  case 0
  then show ?case by (auto simp: safe_def got_fields_def)
next
  case (Suc n)
  have "safe N c (got_fields N (length tv)) (tv_bind (D c r) (\<lambda>c (typ, tv). dec_fields D n c tv (acc @ [(name, typ)])))"
    if r: "length r < length tv" "length name < length tv" for name r
  proof (rule safe_bind [OF safe_decD [OF assms(1) Suc.prems(1) _ _ assms(2)]])
    fix c1 x assume 1: "ctx_inv c1" "extends c c1" "length (byID c1) \<le> N" "got N (length r) c1 x"
    obtain t r' where x: "x = (t, r')" by (cases x)
    have "safe N c1 (got_fields N (length r')) (dec_fields D n c1 r' (acc @ [(name, t)]))"
      by (rule Suc.IH [OF 1(1)])
        (use 1 r Suc.prems known_fields_mono [OF 1(2) Suc.prems(4)] assms(2) in \<open>auto simp: got_def x short_name_def\<close>)
    then show "safe N c1 (got_fields N (length tv)) (case x of (typ, tv) \<Rightarrow> dec_fields D n c1 tv (acc @ [(name, typ)]))"
      using 1(4) r x by (auto simp: got_fields_def got_def elim!: safe_mono)
  qed (use r Suc.prems in auto)
  then show ?case
    using Suc.prems by (auto intro!: safe_bind [OF safe_DecodeName])
qed

definition got_types :: "nat \<Rightarrow> nat \<Rightarrow> tcontext \<Rightarrow> ztype option list \<times> bytes option \<Rightarrow> bool" where
  "got_types N L c x \<longleftrightarrow> (\<forall>t. Some t \<in> set (fst x) \<longrightarrow> known c t) \<and> length (slice_bytes (snd x)) \<le> L \<and>
     length (byID c) + length (slice_bytes (snd x)) \<le> N"

lemma safe_dec_types:
  assumes "safe_dec D L" and "N \<le> 2 ^ 32"
  shows "ctx_inv c \<Longrightarrow> length (slice_bytes tv) < L \<Longrightarrow> length (byID c) + length (slice_bytes tv) \<le> N \<Longrightarrow>
    \<forall>t. Some t \<in> set acc \<longrightarrow> known c t \<Longrightarrow> safe N c (got_types N (length (slice_bytes tv))) (dec_types D n c tv acc)"
proof (induction n arbitrary: c tv acc)
  case 0
  then show ?case by (auto simp: safe_def got_types_def)
next
  case (Suc n)
  obtain c1 r where D: "D c (slice_bytes tv) = (c1, r)" by force
  have 1: "ctx_inv c1" "extends c c1" "length (byID c1) \<le> N" "r \<noteq> Inl TvFuel"
    "\<And>x. r = Inr (Some x) \<Longrightarrow> got N (length (slice_bytes tv)) c1 x"
    using safe_decD [OF assms(1) Suc.prems(1,2,3) assms(2)] D by (auto simp: safe_def)
  have acc: "\<forall>t. Some t \<in> set acc \<longrightarrow> known c1 t" using Suc.prems(4) 1(2) by (auto dest: extendsD)
  have lift: "safe N c (got_types N (length (slice_bytes tv))) m"
    if "safe N c1 (got_types N L') m" "L' \<le> length (slice_bytes tv)" for L' and m
    using that 1(2) by (auto simp: safe_def got_types_def intro: extends_trans)
  show ?case
  proof (cases r)
    case (Inl p)
    then show ?thesis using 1 D by (auto simp: safe_def)
  next
    case r: (Inr o')
    show ?thesis
    proof (cases o')
      case None
      have "safe N c1 (got_types N (length (slice_bytes None))) (dec_types D n c1 None (acc @ [None]))"
        by (rule Suc.IH [OF 1(1)]) (use acc 1 Suc.prems(2) in auto)
      then show ?thesis using lift D r None by auto
    next
      case (Some x)
      obtain t r' where x: "x = (t, r')" by (cases x)
      have g: "got N (length (slice_bytes tv)) c1 (t, r')" using 1(5) r Some x by simp
      have "safe N c1 (got_types N (length (slice_bytes (Some r')))) (dec_types D n c1 (Some r') (acc @ [Some t]))"
        by (rule Suc.IH [OF 1(1)]) (use acc g Suc.prems(2) in \<open>auto simp: got_def\<close>)
      then show ?thesis using lift D r Some x g by (auto simp: got_def)
    qed
  qed
qed

lemma safe_dec_symbols:
  "\<forall>s\<in>set acc. short_name s \<Longrightarrow> length tv \<le> 2 ^ 32 \<Longrightarrow> dec_symbols n tv acc \<noteq> Inl TvFuel \<and>
   (\<forall>ss r. dec_symbols n tv acc = Inr (Some (ss, r)) \<longrightarrow> (\<forall>s\<in>set ss. short_name s) \<and> length r \<le> length tv)"
proof (induction n arbitrary: tv acc)
  case (Suc n)
  note D = DecodeName_cases [of tv]
  show ?case
  proof (cases "DecodeName tv")
    case (Inl p)
    then show ?thesis using D(1) by auto
  next
    case i: (Inr o')
    show ?thesis
    proof (cases o')
      case (Some x)
      obtain s r where x: "x = (s, r)" by (cases x)
      have l: "length r < length tv" "length s < length tv" using D(2) i Some x by auto
      have "\<forall>q\<in>set (acc @ [s]). short_name q" using Suc.prems l by (auto simp: short_name_def)
      from Suc.IH [OF this, of r] show ?thesis using i Some x l Suc.prems(2) by force
    qed (simp add: i)
  qed
qed auto

lemma safe_decD1:
  assumes "safe_dec D L" and "ctx_inv c" and "length tv < L" and "length (byID c) + length tv < N" and "N \<le> 2 ^ 32"
  shows "safe N c (got (N - 1) (length tv)) (D c tv)"
proof -
  have "safe (N - 1) c (got (N - 1) (length tv)) (D c tv)"
    by (rule safe_decD [OF assms(1-3)]) (use assms(4,5) in simp_all)
  then show ?thesis by (auto simp: safe_def)
qed

lemma safe_wrap:
  assumes D: "safe_dec D K" "ctx_inv c" "length tv < K" "length (byID c) + Suc (length tv) \<le> N" "N \<le> 2 ^ 32"
    and ok: "\<And>c e c' t. ctx_inv c \<Longrightarrow> known c e \<Longrightarrow> L c e = (c', t) \<Longrightarrow> lookup_ok c c' t \<and> (\<exists>i. t = C i e)"
    and fr: "\<And>c e c' t. L c e = (c', t) \<Longrightarrow> typedefs c' = typedefs c \<and> length (byID c') \<le> length (byID c) + 1"
  shows "safe N c (got N (Suc (length tv))) (tv_bind (D c tv) (\<lambda>c (inner, tv). ret_ok (L c inner) tv))"
proof -
  have "safe N c (got (N - 1) (length tv)) (D c tv)"
    by (rule safe_decD1 [OF D(1-3)]) (use D(4,5) in simp_all)
  then show ?thesis
  proof (rule safe_bind)
    fix c1 x assume 1: "ctx_inv c1" "extends c c1" "length (byID c1) \<le> N" "got (N - 1) (length tv) c1 x"
    obtain e r where x: "x = (e, r)" by (cases x)
    obtain c' t where L: "L c1 e = (c', t)" by force
    have "lookup_ok c1 c' t" using ok [OF 1(1) _ L] 1(4) x by (simp add: got_def)
    from safe_ret_ok [OF this fr [OF L], of r "Suc (length tv)" N] show
      "safe N c1 (got N (Suc (length tv))) (case x of (inner, tv) \<Rightarrow> ret_ok (L c1 inner) tv)"
      using 1(4) D(4) by (auto simp: x ret_ok_def L got_def)
  qed
qed

lemma safe_named_branch:
  assumes D: "safe_dec D K" "ctx_inv c" "length tv < K" "length (byID c) + Suc (length tv) \<le> N" "N \<le> 2 ^ 32"
  shows "safe N c (got N (Suc (length tv))) (tv_bind (c, DecodeName tv) (\<lambda>c (name, tv).
         tv_bind (D c tv) (\<lambda>c (typ, tv). ret_err (LookupTypeNamed c name typ) tv)))"
proof (rule safe_bind [OF safe_DecodeName])
  show "ctx_inv c" "length (byID c) \<le> N" using D by simp_all
  fix c1 and x :: "gostring \<times> bytes"
  assume 1: "case x of (n, r) \<Rightarrow> c1 = c \<and> length r < length tv \<and> length n < length tv"
  obtain n r where x: "x = (n, r)" by (cases x)
  have r: "c1 = c" "length r < length tv" "length n < length tv" using 1 x by auto
  have "safe N c (got N (Suc (length tv))) (tv_bind (D c r) (\<lambda>c (typ, tv). ret_err (LookupTypeNamed c n typ) tv))"
  proof (rule safe_bind)
    show "safe N c (got (N - 1) (length r)) (D c r)"
      by (rule safe_decD1 [OF D(1,2)]) (use r D(3-5) in simp_all)
    fix c1 x assume 1: "ctx_inv c1" "got (N - 1) (length r) c1 x"
    obtain e r' where x: "x = (e, r')" by (cases x)
    obtain c' q where L: "LookupTypeNamed c1 n e = (c', q)" by force
    have small: "ctx_small c1" "short_name n"
      using 1(2) r(3) D(4,5) x by (auto simp: got_def ctx_small_def short_name_def)
    show "safe N c1 (got N (Suc (length tv))) (case x of (typ, tv) \<Rightarrow> ret_err (LookupTypeNamed c1 n typ) tv)"
    proof (cases q)
      case (Inl er)
      then show ?thesis using 1 L LookupTypeNamed_err [of c1 n e c' er] x D(4)
        by (auto simp: ret_err_def got_def intro!: safe_None)
    next
      case (Inr t)
      have "lookup_ok c1 c' t" using LookupTypeNamed_ok [OF 1(1) small] L Inr 1(2) x by (auto simp: got_def)
      moreover have "length (byID c') \<le> length (byID c1) + 1" by (rule lookup_frame(8) [OF L])
      ultimately show ?thesis using 1(2) x L Inr r(2) D(4)
        by (auto simp: ret_err_def safe_def got_def lookup_ok_def)
    qed
  qed
  then show "safe N c1 (got N (Suc (length tv))) (case x of (name, tv) \<Rightarrow>
      tv_bind (D c1 tv) (\<lambda>c (typ, tv). ret_err (LookupTypeNamed c name typ) tv))" using x r by simp
qed

lemma safe_ref_branch:
  assumes "ctx_inv c" "length (byID c) + Suc (length tv) \<le> N"
  shows "safe N c (got N (Suc (length tv))) (tv_bind (c, DecodeName tv) (\<lambda>c (name, tv).
         case LookupTypeDef c name of None \<Rightarrow> (c, Inr None) | Some typ \<Rightarrow> (c, Inr (Some (typ, tv)))))"
proof (rule safe_bind [OF safe_DecodeName])
  fix c1 and x :: "gostring \<times> bytes"
  assume 1: "ctx_inv c1" "case x of (n, r) \<Rightarrow> c1 = c \<and> length r < length tv \<and> length n < length tv"
  show "safe N c1 (got N (Suc (length tv))) (case x of (name, tv) \<Rightarrow>
      (case LookupTypeDef c1 name of None \<Rightarrow> (c1, Inr None) | Some typ \<Rightarrow> (c1, Inr (Some (typ, tv)))))"
    using 1 assms by (auto simp: LookupTypeDef_def safe_def got_def ctx_inv_def bindings_ok_def split: option.splits)
qed (use assms in simp_all)

lemma safe_map_branch:
  assumes D: "safe_dec D K" "ctx_inv c" "length tv < K" "length (byID c) + Suc (length tv) \<le> N" "N \<le> 2 ^ 32"
  shows "safe N c (got N (Suc (length tv))) (tv_bind (D c tv) (\<lambda>c (keyType, tv).
         tv_bind (D c tv) (\<lambda>c (valType, tv). ret_ok (LookupTypeMap c keyType valType) tv)))"
proof (rule safe_bind)
  show "safe N c (got (N - 1) (length tv)) (D c tv)"
    by (rule safe_decD1 [OF D(1-3)]) (use D(4,5) in simp_all)
  fix c1 x assume 1: "ctx_inv c1" "got (N - 1) (length tv) c1 x"
  obtain k r where x: "x = (k, r)" by (cases x)
  have "safe N c1 (got N (Suc (length tv))) (tv_bind (D c1 r) (\<lambda>c (valType, tv). ret_ok (LookupTypeMap c k valType) tv))"
  proof (rule safe_bind)
    show "safe N c1 (got (N - 1) (length r)) (D c1 r)"
      by (rule safe_decD1 [OF D(1) 1(1)]) (use 1(2) x D(3-5) in \<open>auto simp: got_def\<close>)
    fix c2 y assume 2: "ctx_inv c2" "extends c1 c2" "got (N - 1) (length r) c2 y"
    obtain v r' where y: "y = (v, r')" by (cases y)
    obtain c' t where L: "LookupTypeMap c2 k v = (c', t)" by force
    have "lookup_ok c2 c' t"
      using LookupTypeMap_ok [OF 2(1) _ _ _ L] 1(2) 2(2,3) x y D(5)
      by (auto simp: got_def ctx_small_def dest: extendsD)
    from safe_ret_ok [OF this lookup_frame(4) [OF L], of r' "Suc (length tv)" N]
    show "safe N c2 (got N (Suc (length tv))) (case y of (valType, tv) \<Rightarrow> ret_ok (LookupTypeMap c2 k valType) tv)"
      using 1(2) 2(3) x y D(4) by (auto simp: ret_ok_def L got_def)
  qed
  then show "safe N c1 (got N (Suc (length tv))) (case x of (keyType, tv) \<Rightarrow>
      tv_bind (D c1 tv) (\<lambda>c (valType, tv). ret_ok (LookupTypeMap c keyType valType) tv))" using x by simp
qed

lemma safe_record_branch:
  assumes D: "safe_dec D K" "ctx_inv c" "length tv < K" "length (byID c) + Suc (length tv) \<le> N" "N \<le> 2 ^ 32"
    and r: "length r < length tv"
  shows "safe N c (got N (Suc (length tv))) (tv_bind (dec_fields D n c r []) (\<lambda>c (fields, tv).
                 ret_err (LookupTypeRecord c fields) tv))"
proof (rule safe_bind)
  have "safe (N - 1) c (got_fields (N - 1) (length r)) (dec_fields D n c r [])"
    by (rule safe_dec_fields [OF D(1)]) (use D r in auto)
  then show "safe N c (got_fields (N - 1) (length r)) (dec_fields D n c r [])" by (auto simp: safe_def)
  fix c1 x assume 1: "ctx_inv c1" "got_fields (N - 1) (length r) c1 x"
  obtain fs r' where x: "x = (fs, r')" by (cases x)
  obtain c' q where L: "LookupTypeRecord c1 fs = (c', q)" by force
  have f: "ctx_small c1" "\<forall>(n, t)\<in>set fs. short_name n \<and> known c1 t"
    using 1(2) x D(5) by (auto simp: got_fields_def ctx_small_def)
  note ok = LookupTypeRecord_ok [OF 1(1) f L] and fr = lookup_frame(1) [OF L]
  show "safe N c1 (got N (Suc (length tv))) (case x of (fs, tv) \<Rightarrow> ret_err (LookupTypeRecord c1 fs) tv)"
    using ok fr 1 x L r D(4)
    by (cases q) (auto simp: ret_err_def safe_def got_def got_fields_def lookup_ok_def)
qed

lemma safe_union_branch:
  assumes D: "safe_dec D K" "ctx_inv c" "length tv < K" "length (byID c) + Suc (length tv) \<le> N" "N \<le> 2 ^ 32"
    and r: "length r < length tv"
  shows "safe N c (got N (Suc (length tv))) (tv_bind (dec_types D n c (Some r) []) (\<lambda>c (types, tv).
                 if None \<in> set types then (c, Inl NilType)
                 else (case LookupTypeUnion c (map the types) of (c, t) \<Rightarrow>
                   (case tv of None \<Rightarrow> (c, Inr None) | Some r \<Rightarrow> (c, Inr (Some (t, r)))))))"
proof (rule safe_bind)
  have "safe (N - 1) c (got_types (N - 1) (length (slice_bytes (Some r)))) (dec_types D n c (Some r) [])"
    by (rule safe_dec_types [OF D(1)]) (use D r in auto)
  then show "safe N c (got_types (N - 1) (length r)) (dec_types D n c (Some r) [])" by (auto simp: safe_def)
  fix c1 x assume 1: "ctx_inv c1" "length (byID c1) \<le> N" "got_types (N - 1) (length r) c1 x"
  obtain ts r' where x: "x = (ts, r')" by (cases x)
  obtain c' t where L: "LookupTypeUnion c1 (map the ts) = (c', t)" by force
  show "safe N c1 (got N (Suc (length tv))) (case x of (types, tv) \<Rightarrow>
      if None \<in> set types then (c1, Inl NilType)
      else (case LookupTypeUnion c1 (map the types) of (c, t) \<Rightarrow>
        (case tv of None \<Rightarrow> (c, Inr None) | Some r \<Rightarrow> (c, Inr (Some (t, r))))))"
  proof (cases "None \<in> set ts")
    case True
    then show ?thesis using 1 x by (auto intro: safe_panic)
  next
    case False
    have k: "\<forall>u\<in>set (map the ts). known c1 u"
      using False 1(3) x by (auto simp: got_types_def) (metis not_None_eq option.sel)
    have "lookup_ok c1 c' t"
      using LookupTypeUnion_ok [OF 1(1) _ k L] 1(3) x D(5) by (auto simp: got_types_def ctx_small_def)
    then show ?thesis
      using False x L lookup_frame(5) [OF L] 1(3) r D(4)
      by (cases r') (auto simp: safe_def got_def got_types_def lookup_ok_def)
  qed
qed

lemma safe_enum_branch:
  assumes D: "ctx_inv c" "length (byID c) + Suc (length tv) \<le> N" "N \<le> 2 ^ 32" and r: "length r < length tv"
  shows "safe N c (got N (Suc (length tv))) (tv_bind (c, dec_symbols n r []) (\<lambda>c (symbols, tv).
                 ret_ok (LookupTypeEnum c symbols) tv))"
proof (rule safe_bind)
  show "safe N c (\<lambda>c' (ss, q). c' = c \<and> (\<forall>s\<in>set ss. short_name s) \<and> length q \<le> length r) (c, dec_symbols n r [])"
    using safe_dec_symbols [of "[]" r n] D r by (auto simp: safe_def)
  fix c1 and x :: "gostring list \<times> bytes"
  assume 1: "case x of (ss, q) \<Rightarrow> c1 = c \<and> (\<forall>s\<in>set ss. short_name s) \<and> length q \<le> length r"
  obtain ss q where x: "x = (ss, q)" by (cases x)
  obtain c' t where L: "LookupTypeEnum c ss = (c', t)" by force
  have "lookup_ok c c' t" using LookupTypeEnum_ok [OF D(1) _ L] 1 x by auto
  from safe_ret_ok [OF this lookup_frame(6) [OF L], of q "Suc (length tv)" N]
  show "safe N c1 (got N (Suc (length tv))) (case x of (symbols, tv) \<Rightarrow> ret_ok (LookupTypeEnum c1 symbols) tv)"
    using 1 x L r D(2) by (auto simp: ret_ok_def)
qed

lemma safe_dec_type: "safe_dec (dec_type k) k"
proof (induction k)
  case 0
  show ?case by (simp add: safe_dec_def)
next
  case (Suc k)
  show ?case
    unfolding safe_dec_def
  proof (intro allI impI)
    fix c and tv :: bytes and N assume c: "ctx_inv c" "length tv < Suc k" "length (byID c) + length tv \<le> N" "N \<le> 2 ^ 32"
    show "safe N c (got N (length tv)) (dec_type (Suc k) c tv)"
    proof (cases tv)
      case Nil
      then show ?thesis using c by (simp add: safe_None)
    next
      case (Cons tag r)
      have r: "length r < k" "length (byID c) + Suc (length r) \<le> N" using c Cons by simp_all
      have none: "safe N c Q (c, Inr None)" for Q :: "tcontext \<Rightarrow> ztype \<times> bytes \<Rightarrow> bool" using c by (simp add: safe_None)
      have panic: "safe N c Q (c, Inl (MakeCap n))" for Q :: "tcontext \<Rightarrow> ztype \<times> bytes \<Rightarrow> bool" and n
        using c by (simp add: safe_panic)
      note IH = Suc.IH c(1) r c(4)
      have prim: "safe N c (got N (Suc (length r))) (case LookupPrimitiveByID (int (unat tag)) of
          Inl e \<Rightarrow> (c, Inr None) | Inr p \<Rightarrow> (c, Inr (Some (TypePrim p, r))))"
        using none c(1) r(2) by (auto split: sum.splits intro!: safe_ret)
      note wrap = safe_wrap [OF IH, of LookupTypeArray TypeArray] safe_wrap [OF IH, of LookupTypeSet TypeSet]
        safe_wrap [OF IH, of LookupTypeError TypeError]
      have w: "safe N c (got N (Suc (length r))) (tv_bind (dec_type k c r) (\<lambda>c (inner, tv). ret_ok (LookupTypeArray c inner) tv))"
        "safe N c (got N (Suc (length r))) (tv_bind (dec_type k c r) (\<lambda>c (inner, tv). ret_ok (LookupTypeSet c inner) tv))"
        "safe N c (got N (Suc (length r))) (tv_bind (dec_type k c r) (\<lambda>c (inner, tv). ret_ok (LookupTypeError c inner) tv))"
        by (rule wrap, erule (2) LookupTypeArray_ok, erule lookup_frame)
          (rule wrap, erule (2) LookupTypeSet_ok, erule lookup_frame, rule wrap, erule (2) LookupTypeError_ok, erule lookup_frame)
      show ?thesis
        using safe_named_branch [OF IH] safe_ref_branch [OF c(1) r(2)] safe_map_branch [OF IH]
          safe_record_branch [OF IH DecodeLength_bounds] safe_union_branch [OF IH DecodeLength_bounds]
          safe_enum_branch [OF c(1) r(2) c(4) DecodeLength_bounds] w prim none panic
        by (auto simp: Cons simp del: dec_fields.simps dec_types.simps split: option.split)
    qed
  qed
qed

subsection \<open>The caches of type values\<close>

definition frame :: "tcontext \<Rightarrow> tcontext \<Rightarrow> bool" where
  "frame c c' \<longleftrightarrow> toType c' = toType c \<and> toValue c' = toValue c \<and> length (byID c) \<le> length (byID c')"

lemma frame_refl [simp]: "frame c c"
  by (simp add: frame_def)

lemma frame_trans: "frame c c' \<Longrightarrow> frame c' c'' \<Longrightarrow> frame c c''"
  by (auto simp: frame_def)

lemma frame_lookups:
  "frame c (fst (LookupTypeRecord c fs))" "frame c (fst (LookupTypeArray c e))" "frame c (fst (LookupTypeSet c e))"
  "frame c (fst (LookupTypeMap c e f))" "frame c (fst (LookupTypeUnion c ts))" "frame c (fst (LookupTypeEnum c ss))"
  "frame c (fst (LookupTypeError c e))" "frame c (fst (LookupTypeNamed c n e))"
  by (auto simp: frame_def LookupTypeRecord_def LookupTypeArray_def LookupTypeSet_def LookupTypeMap_def LookupTypeUnion_def
      LookupTypeEnum_def LookupTypeError_def LookupTypeNamed_def Let_def enter_def split: option.splits)

lemma frame_bind: "frame c (fst m) \<Longrightarrow> (\<And>c1 x. frame c1 (fst (f c1 x))) \<Longrightarrow> frame c (fst (tv_bind m f))"
  by (cases m) (auto simp: tv_bind_def split: sum.splits option.splits intro: frame_trans)

lemma frame_ret: "fst (ret_ok r tv) = fst r" "fst (ret_err q tv) = fst q"
  by (cases r, simp add: ret_ok_def) (cases q, simp add: ret_err_def split: sum.splits)

lemma frame_dec_fields: "(\<And>c tv. frame c (fst (D c tv))) \<Longrightarrow> frame c (fst (dec_fields D n c tv acc))"
  by (induction n arbitrary: c tv acc) (auto intro!: frame_bind split: prod.split)

lemma frame_dec_types: "(\<And>c tv. frame c (fst (D c tv))) \<Longrightarrow> frame c (fst (dec_types D n c tv acc))"
proof (induction n arbitrary: c tv acc)
  case (Suc n)
  have "frame c (fst (D c (slice_bytes tv)))" by (rule Suc.prems)
  then show ?case using Suc.IH [OF Suc.prems]
    by (auto split: prod.split sum.split option.split intro: frame_trans)
qed simp

lemma frame_dec_type: "frame c (fst (dec_type k c tv))"
proof (induction k arbitrary: c tv)
  case (Suc k)
  have u: "frame c (fst (case LookupTypeUnion c ts of (c, t) \<Rightarrow>
      (case tv of None \<Rightarrow> (c, Inr None) | Some r \<Rightarrow> (c, Inr (Some (t, r))))))" for c ts and tv :: "bytes option"
    using frame_lookups(5) [of c ts] by (auto split: prod.split option.split)
  show ?case
    by (cases tv) (auto simp: frame_ret frame_lookups u intro!: frame_bind Suc.IH frame_dec_fields frame_dec_types
        split: option.split prod.split sum.split simp del: dec_fields.simps dec_types.simps)
qed simp

definition encodable :: "tcontext \<Rightarrow> tcontext \<Rightarrow> ztype \<Rightarrow> bool" where
  "encodable c c0 t \<longleftrightarrow> ctx_inv c0 \<and> known c0 t \<and> limits_ok t \<and> length (byID c) + room t \<le> 2 ^ 32"

definition cache_ok :: "tcontext \<Rightarrow> bool" where
  "cache_ok c \<longleftrightarrow> (\<forall>b u. toType c b = Some u \<longrightarrow> toValue c u \<noteq> None \<and>
       (\<forall>c0 t. encodable c c0 t \<longrightarrow> b = EncodeTypeValue t \<longrightarrow> erase u = erase t)) \<and>
     (\<forall>t b. toValue c t = Some b \<longrightarrow> toType c b = Some t)"

lemma encodable_frame: "encodable c' c0 t \<Longrightarrow> frame c c' \<Longrightarrow> encodable c c0 t"
  by (simp add: encodable_def frame_def)

lemma cache_ok_frame: "cache_ok c \<Longrightarrow> frame c c' \<Longrightarrow> cache_ok c'"
proof -
  assume c: "cache_ok c" and f: "frame c c'"
  have e: "toType c' = toType c" "toValue c' = toValue c" using f by (simp_all add: frame_def)
  show ?thesis
    using c encodable_frame [OF _ f] unfolding cache_ok_def e by blast
qed

lemma EncodeTypeValue_enc: "EncodeTypeValue t = tv_enc t Map.empty"
  by (simp add: EncodeTypeValue_def AppendTypeValue_def tv_enc_def)

lemma decode_EncodeTypeValue:
  assumes "ctx_inv c" and "encodable c c0 t"
  obtains c' t' where "DecodeTypeValue c (EncodeTypeValue t @ rest) = (c', Inr (Some (t', rest)))"
    and "ctx_inv c'" and "extends c c'" and "known c' t'" and "erase t' = erase t"
proof -
  have "reads (Suc (length (EncodeTypeValue t @ rest))) c (tv_enc t Map.empty) t (tv_defs t Map.empty)"
    by (rule decode_encoded [of c0]) (use assms in \<open>auto simp: encodable_def binds_def EncodeTypeValue_enc\<close>)
  from readsE [OF this, of rest] that show ?thesis
    unfolding DecodeTypeValue_def EncodeTypeValue_enc decoded_def by metis
qed

lemma decode_safe:
  assumes "ctx_inv c" and "length (byID c) + length tv \<le> 2 ^ 32" and "DecodeTypeValue c tv = (c', r)"
  shows "ctx_inv c' \<and> extends c c' \<and> r \<noteq> Inl TvFuel \<and>
    (\<forall>t rest. r = Inr (Some (t, rest)) \<longrightarrow> known c' t \<and> length rest < length tv)"
  using safe_decD [OF safe_dec_type assms(1) _ assms(2), of "Suc (length tv)"] assms(3)
  by (auto simp: DecodeTypeValue_def safe_def got_def)

lemma ctx_inv_cache:
  "ctx_inv c \<Longrightarrow> known c t \<Longrightarrow> ctx_inv (c\<lparr>toValue := v, toType := (toType c)(b \<mapsto> t)\<rparr>)"
  by (auto simp: ctx_inv_def ids_ok_def tables_ok_def bindings_ok_def entry_ok_def)

lemma cache_ok_upd:
  assumes "ctx_inv c" and "cache_ok c1" and "frame c c1" and "toType c1 tv = None"
    and "DecodeTypeValue c tv = (c1, Inr (Some (t, rest)))"
  shows "cache_ok (c1\<lparr>toValue := (toValue c1)(t \<mapsto> tv), toType := (toType c1)(tv \<mapsto> t)\<rparr>)"
proof -
  have "erase t = erase u" if "encodable c1 c0 u" "tv = EncodeTypeValue u" for c0 u
  proof -
    have "encodable c c0 u" by (rule encodable_frame [OF that(1) assms(3)])
    from decode_EncodeTypeValue [OF assms(1) this, of "[]"] show ?thesis
      using assms(5) that(2) by (metis Pair_inject append_Nil2 option.inject sum.inject(2))
  qed
  then show ?thesis
    using assms(2,4) by (auto simp: cache_ok_def encodable_def)
qed

lemma LookupByValue_ok:
  assumes "ctx_inv c" and "cache_ok c" and "length (byID c) + length tv \<le> 2 ^ 32" and "LookupByValue c tv = (c', r)"
  shows "ctx_inv c' \<and> cache_ok c' \<and> extends c c' \<and> r \<noteq> Inl TvFuel \<and> (\<forall>t. r = Inr (Inr t) \<longrightarrow> known c' t \<and> toType c' tv = Some t)"
proof (cases "toType c tv")
  case (Some t)
  then show ?thesis using assms by (auto simp: LookupByValue_def ctx_inv_def bindings_ok_def)
next
  case None
  obtain c1 q where D: "DecodeTypeValue c tv = (c1, q)" by force
  have fr: "frame c c1" using frame_dec_type [of c _ tv] D unfolding DecodeTypeValue_def by (metis fst_conv)
  note ok = decode_safe [OF assms(1,3) D]
  have cache: "cache_ok c1" by (rule cache_ok_frame [OF assms(2) fr])
  consider p where "q = Inl p" | "q = Inr None" | t rest where "q = Inr (Some (t, rest))"
    by (metis obj_sumE not_None_eq surj_pair)
  then show ?thesis
  proof cases
    case 3
    have "cache_ok (c1\<lparr>toValue := (toValue c1)(t \<mapsto> tv), toType := (toType c1)(tv \<mapsto> t)\<rparr>)"
      by (rule cache_ok_upd [OF assms(1) cache fr]) (use fr None D 3 in \<open>auto simp: frame_def\<close>)
    moreover have "ctx_inv (c1\<lparr>toValue := (toValue c1)(t \<mapsto> tv), toType := (toType c1)(tv \<mapsto> t)\<rparr>)"
      using ctx_inv_cache ok 3 by blast
    moreover have "c' = c1\<lparr>toValue := (toValue c1)(t \<mapsto> tv), toType := (toType c1)(tv \<mapsto> t)\<rparr>" "r = Inr (Inr t)"
      using assms(4) None D 3 by (simp_all add: LookupByValue_def)
    ultimately show ?thesis using ok 3 by (auto simp: extends_def)
  qed (use assms(4) None D ok cache in \<open>auto simp: LookupByValue_def\<close>)
qed

text \<open>Contexts that lookups of every kind make, from type values that may be malformed too.\<close>

inductive tv_reach :: "tcontext \<Rightarrow> bool" where
  tv_new: "tv_reach NewContext"
| tv_step: "tv_reach c \<Longrightarrow> ctx_step c c' \<Longrightarrow> tv_reach c'"
| tv_decode: "tv_reach c \<Longrightarrow> length (byID c) + length tv \<le> 2 ^ 32 \<Longrightarrow> DecodeTypeValue c tv = (c', r) \<Longrightarrow> tv_reach c'"
| tv_lookup: "tv_reach c \<Longrightarrow> length (byID c) + length tv \<le> 2 ^ 32 \<Longrightarrow> LookupByValue c tv = (c', r) \<Longrightarrow> tv_reach c'"
| tv_reset: "tv_reach c \<Longrightarrow> stringErr c = None \<Longrightarrow> tv_reach (Context_Reset c)"

lemma ctx_step_frame: "ctx_step c c' \<Longrightarrow> frame c c'"
proof (induction rule: ctx_step.induct)
  case (step_record c fs c' r) then show ?case using frame_lookups(1) [of c fs] by simp
next
  case (step_array c e c' t) then show ?case using frame_lookups(2) [of c e] by simp
next
  case (step_set c e c' t) then show ?case using frame_lookups(3) [of c e] by simp
next
  case (step_map c k v c' t) then show ?case using frame_lookups(4) [of c k v] by simp
next
  case (step_union c ts c' t) then show ?case using frame_lookups(5) [of c ts] by simp
next
  case (step_enum ss c c' t) then show ?case using frame_lookups(6) [of c ss] by simp
next
  case (step_error c e c' t) then show ?case using frame_lookups(7) [of c e] by simp
next
  case (step_named c n e c' r) then show ?case using frame_lookups(8) [of c n e] by simp
qed

lemma tv_reach_ok: "tv_reach c \<Longrightarrow> ctx_inv c \<and> cache_ok c"
proof (induction rule: tv_reach.induct)
  case tv_new
  show ?case using ctx_inv_New by (simp add: cache_ok_def NewContext_def)
next
  case (tv_step c c')
  then show ?case using ctx_step_inv cache_ok_frame ctx_step_frame by blast
next
  case (tv_decode c tv c' r)
  have "frame c c'" using frame_dec_type [of c _ tv] tv_decode(3) unfolding DecodeTypeValue_def by (metis fst_conv)
  then show ?case using tv_decode decode_safe cache_ok_frame by blast
next
  case (tv_lookup c tv c' r)
  then show ?case using LookupByValue_ok by blast
next
  case (tv_reset c)
  then show ?case using ctx_inv_Reset by (simp add: cache_ok_def Context_Reset_def)
qed

lemmas tv_array = tv_step [OF _ step_array]

definition array_ctx :: tcontext where
  "array_ctx = fst (LookupTypeArray NewContext (TypePrim TypeInt64))"

definition array_type :: ztype where
  "array_type = TypeArray 30 (TypePrim TypeInt64)"

lemma array_ctx: "tv_reach array_ctx" "known array_ctx array_type" "limits_ok array_type"
  "room array_type = 3" "length (byID array_ctx) = 31"
proof -
  have L: "LookupTypeArray NewContext (TypePrim TypeInt64) = (array_ctx, array_type)"
    by (simp add: array_ctx_def array_type_def LookupTypeArray_def NewContext_def nextID_def IDTypeComplex_def Let_def)
  show "tv_reach array_ctx" by (rule tv_array [OF tv_new _ L]) simp
  show "known array_ctx array_type" using LookupTypeArray_ok [OF ctx_inv_New _ L] by (simp add: lookup_ok_def)
  show "limits_ok array_type" "room array_type = 3"
    by (simp_all add: array_type_def limits_ok.simps [of "TypeArray _ _"] limits_ok.simps [of "TypePrim _"] room_def)
  show "length (byID array_ctx) = 31"
    by (simp add: array_ctx_def LookupTypeArray_def NewContext_def enter_def IDTypeComplex_def Let_def)
qed

subsection \<open>Properties\<close>

text \<open>
  C7: A type written as a type value and decoded in any context, the same or another, gives a
  type that means the same, leaves the bytes that follow, and keeps the context well formed; where
  the context has the type already, the decoder returns that very type. \<close>

theorem type_value_roundtrip:
  assumes "tv_reach c0" and "known c0 t" and "limits_ok t" and "tv_reach c"
    and "length (byID c) + room t \<le> 2 ^ 32"
  shows "\<exists>c' t'. DecodeTypeValue c (EncodeTypeValue t @ rest) = (c', Inr (Some (t', rest))) \<and>
    ctx_inv c' \<and> extends c c' \<and> known c' t' \<and> erase t' = erase t \<and>
    (\<forall>u. known c u \<longrightarrow> erase u = erase t \<longrightarrow> t' = u)"
proof -
  have e: "ctx_inv c" "encodable c c0 t" using assms tv_reach_ok by (simp_all add: encodable_def)
  obtain c' t' where 1: "DecodeTypeValue c (EncodeTypeValue t @ rest) = (c', Inr (Some (t', rest)))"
    "ctx_inv c'" "extends c c'" "known c' t'" "erase t' = erase t" by (rule decode_EncodeTypeValue [OF e])
  moreover have "t' = u" if "known c u" "erase u = erase t" for u
    using erase_unique [OF 1(2,4) extendsD [OF 1(3) that(1)]] 1(5) that(2) by simp
  ultimately show ?thesis by blast
qed

theorem type_value_roundtrip_witness:
  "tv_reach array_ctx \<and> known array_ctx array_type \<and> limits_ok array_type \<and>
   length (byID NewContext) + room array_type \<le> 2 ^ 32 \<and> EncodeTypeValue array_type = [31, 9] \<and>
   (\<exists>c' t'. DecodeTypeValue NewContext ([31, 9] @ [7]) = (c', Inr (Some (t', [7]))) \<and> erase t' = erase array_type)"
proof -
  have e: "EncodeTypeValue array_type = [31, 9]"
    by (simp add: EncodeTypeValue_def AppendTypeValue_def array_type_def)
  have l: "length (byID NewContext) + room array_type \<le> 2 ^ 32"
    by (simp add: array_ctx NewContext_def IDTypeComplex_def)
  show ?thesis
    using type_value_roundtrip [OF array_ctx(1-3) tv_new l, of "[7]"] array_ctx(1-3) e l by auto
qed

text \<open>
  Type values are canonical: types of any two contexts have the same type value exactly when
  they mean the same, so that type values can be compared as bytes. \<close>

theorem type_values_canonical:
  assumes "tv_reach c" and "known c t" and "tv_reach d" and "known d u"
    and "limits_ok t" and "limits_ok u" and "30 + room t \<le> 2 ^ 32" and "30 + room u \<le> 2 ^ 32"
  shows "EncodeTypeValue t = EncodeTypeValue u \<longleftrightarrow> erase t = erase u"
proof
  have l: "length (byID NewContext) = 30" by (simp add: NewContext_def IDTypeComplex_def)
  have e: "encodable NewContext c t" "encodable NewContext d u"
    using assms tv_reach_ok l by (simp_all add: encodable_def)
  assume eq: "EncodeTypeValue t = EncodeTypeValue u"
  obtain c1 t1 where 1: "DecodeTypeValue NewContext (EncodeTypeValue t @ []) = (c1, Inr (Some (t1, [])))" "erase t1 = erase t"
    by (rule decode_EncodeTypeValue [OF ctx_inv_New e(1)])
  obtain c2 u1 where 2: "DecodeTypeValue NewContext (EncodeTypeValue u @ []) = (c2, Inr (Some (u1, [])))" "erase u1 = erase u"
    by (rule decode_EncodeTypeValue [OF ctx_inv_New e(2)])
  show "erase t = erase u" using 1 2 eq by simp
next
  assume "erase t = erase u"
  moreover have "defs_eq c d Map.empty Map.empty" by (simp add: defs_eq_def)
  ultimately show "EncodeTypeValue t = EncodeTypeValue u"
    using encode_erase(1) [of c d t u Map.empty Map.empty] assms tv_reach_ok by (simp add: EncodeTypeValue_enc)
qed

theorem type_values_canonical_witness:
  "tv_reach array_ctx \<and> known array_ctx array_type \<and> limits_ok array_type \<and>
   EncodeTypeValue array_type \<noteq> EncodeTypeValue (TypePrim TypeInt64)"
proof -
  have p: "known NewContext (TypePrim TypeInt64)" "limits_ok (TypePrim TypeInt64)" "room (TypePrim TypeInt64) = 1"
    by (simp_all add: limits_ok.simps [of "TypePrim _"] room_def)
  have "EncodeTypeValue array_type = EncodeTypeValue (TypePrim TypeInt64) \<longleftrightarrow> erase array_type = erase (TypePrim TypeInt64)"
    by (rule type_values_canonical [OF array_ctx(1,2) tv_new p(1) array_ctx(3) p(2)]) (simp_all add: array_ctx p)
  then show ?thesis using array_ctx by (simp add: array_type_def)
qed

text \<open>
  C27: Decoding any bytes, well formed or not, keeps the context well formed and all its types,
  ends within the fuel, returns only types of the context, and consumes input. \<close>

theorem decode_any_bytes:
  assumes "tv_reach c" and "length (byID c) + length tv \<le> 2 ^ 32"
  shows "case DecodeTypeValue c tv of (c', r) \<Rightarrow> ctx_inv c' \<and> extends c c' \<and> r \<noteq> Inl TvFuel \<and>
    (case r of Inr (Some (t, rest)) \<Rightarrow> known c' t \<and> length rest < length tv | _ \<Rightarrow> True)"
proof -
  obtain c' r where D: "DecodeTypeValue c tv = (c', r)" by force
  show ?thesis
    using decode_safe [OF conjunct1 [OF tv_reach_ok [OF assms(1)]] assms(2) D]
    by (auto simp: D split: sum.splits option.splits prod.splits)
qed

theorem decode_any_bytes_witness:
  "tv_reach NewContext \<and> length (byID NewContext) + length [30::u8, 1] \<le> 2 ^ 32 \<and>
   snd (DecodeTypeValue NewContext [30, 1]) \<noteq> Inl TvFuel"
proof -
  have l: "length (byID NewContext) + length [30::u8, 1] \<le> 2 ^ 32" by (simp add: NewContext_def IDTypeComplex_def)
  show ?thesis using decode_any_bytes [OF tv_new l] l tv_new by (auto split: prod.splits)
qed

lemma translate_type_ok:
  assumes "tv_reach c0" and "known c0 t" and "limits_ok t" and "tv_reach c"
    and "length (byID c) + room t \<le> 2 ^ 32"
  shows "\<exists>c' t'. TranslateType c t = (c', Inr (Inr t')) \<and> known c' t' \<and> erase t' = erase t \<and> extends c c'"
proof -
  have e: "ctx_inv c" "cache_ok c" "encodable c c0 t" using assms tv_reach_ok by (simp_all add: encodable_def)
  show ?thesis
  proof (cases "toType c (EncodeTypeValue t)")
    case (Some u)
    then have "erase u = erase t" "known c u"
      using e by (auto simp: cache_ok_def ctx_inv_def bindings_ok_def)
    then show ?thesis using Some by (simp add: TranslateType_def LookupByValue_def)
  next
    case None
    obtain c1 t1 where 1: "DecodeTypeValue c (EncodeTypeValue t @ []) = (c1, Inr (Some (t1, [])))"
      "ctx_inv c1" "extends c c1" "known c1 t1" "erase t1 = erase t" by (rule decode_EncodeTypeValue [OF e(1,3)])
    then show ?thesis using None by (auto simp: TranslateType_def LookupByValue_def extends_def)
  qed
qed

text \<open>
  \<open>TranslateType\<close> brings a type of one context into another: it succeeds, whatever type
  values the target has seen before, and the result means the same. \<close>

theorem translate_type:
  assumes "tv_reach c0" and "known c0 t" and "limits_ok t" and "tv_reach c"
    and "length (byID c) + room t \<le> 2 ^ 32"
  shows "\<exists>c' t'. TranslateType c t = (c', Inr (Inr t')) \<and> known c' t' \<and> erase t' = erase t \<and> extends c c'"
  using translate_type_ok [OF assms] .

theorem translate_type_witness:
  "tv_reach array_ctx \<and> known array_ctx array_type \<and>
   (\<exists>c' t'. TranslateType NewContext array_type = (c', Inr (Inr t')) \<and> erase t' = erase array_type)"
  using translate_type [OF array_ctx(1-3) tv_new] array_ctx
  by (auto simp: NewContext_def IDTypeComplex_def)

text \<open>
  \<open>LookupTypeValue\<close> always returns a type value for a type of the context, never the
  missing value, and looking that type value up gives the type back. \<close>

theorem lookup_type_value:
  assumes "tv_reach c" and "known c t" and "limits_ok t" and "length (byID c) + room t \<le> 2 ^ 32"
    and "length (byID c) + length (EncodeTypeValue t) \<le> 2 ^ 32"
  shows "\<exists>c' b. LookupTypeValue c t = (c', Inr (TypePrim TypeType, b)) \<and> LookupByValue c' b = (c', Inr (Inr t))"
proof -
  have e: "ctx_inv c" "cache_ok c" "encodable c c t" using assms tv_reach_ok by (simp_all add: encodable_def)
  show ?thesis
  proof (cases "toValue c t")
    case (Some b)
    then have "toType c b = Some t" using e(2) by (simp add: cache_ok_def)
    then show ?thesis using Some by (simp add: LookupTypeValue_def LookupByValue_def numeral_2_eq_2)
  next
    case None
    obtain c' t' where 1: "TranslateType c t = (c', Inr (Inr t'))" "known c' t'" "erase t' = erase t" "extends c c'"
      using translate_type_ok [OF assms(1-3) assms(1,4)] by blast
    note ok = LookupByValue_ok [OF e(1,2) assms(5) 1(1) [unfolded TranslateType_def]]
    have "t' = t" using erase_unique [OF _ 1(2) extendsD [OF 1(4) assms(2)] 1(3)] ok by blast
    then obtain b where b: "toValue c' t = Some b" "toType c' b = Some t" using ok by (force simp: cache_ok_def)
    then show ?thesis
      using None 1(1) \<open>t' = t\<close> by (simp add: LookupTypeValue_def LookupByValue_def [of c'] TranslateType_def numeral_2_eq_2)
  qed
qed

theorem lookup_type_value_witness:
  "tv_reach array_ctx \<and> known array_ctx array_type \<and>
   (\<exists>c' b. LookupTypeValue array_ctx array_type = (c', Inr (TypePrim TypeType, b)) \<and>
     LookupByValue c' b = (c', Inr (Inr array_type)))"
proof -
  have e: "EncodeTypeValue array_type = [31, 9]"
    by (simp add: EncodeTypeValue_def AppendTypeValue_def array_type_def)
  show ?thesis using lookup_type_value [OF array_ctx(1-3)] array_ctx by (simp add: e)
qed

text \<open>
  Malformed type values make the decoder panic where it means to report an error: a union
  whose member is missing, a record with a negative number of fields, and a name of negative length. \<close>

theorem decode_panics:
  "snd (DecodeTypeValue NewContext [34, 1]) = Inl NilType \<and>
   snd (DecodeTypeValue NewContext [30, 0xff, 0xff, 0xff, 0xff, 0xff, 0xff, 0xff, 0xff, 0xff, 1]) = Inl (MakeCap (-1)) \<and>
   snd (DecodeTypeValue NewContext [38, 0xff, 0xff, 0xff, 0xff, 0xff, 0xff, 0xff, 0xff, 0xff, 1]) = Inl (SliceBounds (-1))"
proof -
  have u: "Uvarint [1] = (1, 1)" by (simp add: Uvarint_def)
  have n: "Uvarint [0xff, 0xff, 0xff, 0xff, 0xff, 0xff, 0xff, 0xff, 0xff, 1] = (- 1, 10)"
    by code_simp
  show ?thesis
    using u n by (simp add: DecodeTypeValue_def DecodeLength_def DecodeName_def MaxUnionTypes_def MaxRecordFields_def tv_bind_def)
qed

text \<open>
  The type value of a type is whichever bytes were looked up last. After a lookup of a union
  with its members out of order, \<open>LookupTypeValue\<close> returns those bytes and not the canonical type value. \<close>

theorem type_value_not_canonical:
  "case LookupByValue NewContext [34, 2, 25, 9] of (c, Inr (Inr t)) \<Rightarrow>
     snd (LookupTypeValue c t) = Inr (TypePrim TypeType, [34, 2, 25, 9]) \<and> EncodeTypeValue t = [34, 2, 9, 25]
   | _ \<Rightarrow> False"
  by code_simp

end
