(* ===== verification/Field_Order.thy ===== *)
theory Field_Order
  imports Go_Prelude "HOL-Library.Sublist"
begin

text \<open>
  Field paths and projections (\<open>pkg/field\<close>) and sort orders and sort keys (\<open>order\<close>), with their
  text forms. The JSON and BSUP methods around the text forms are not modelled.
\<close>

subsection \<open>Paths (field.go)\<close>

type_synonym path = "gostring list"

fun append_sep :: "u8 \<Rightarrow> ('a \<Rightarrow> bytes \<Rightarrow> bytes) \<Rightarrow> nat \<Rightarrow> 'a list \<Rightarrow> bytes \<Rightarrow> bytes" where
  "append_sep sep f i [] b = b"
| "append_sep sep f i (x # xs) b = append_sep sep f (i + 1) xs (f x (if i > 0 then b @ [sep] else b))"

definition Path_AppendTo :: "path \<Rightarrow> bytes \<Rightarrow> bytes" where
  "Path_AppendTo p b = (if length p = 0 then b @ str ''this'' else append_sep 46 (\<lambda>s b. b @ s) 0 p b)"

definition Path_String :: "path \<Rightarrow> gostring" where
  "Path_String p = Path_AppendTo p []"

text \<open>\<open>Leaf\<close> panics on the empty path.\<close>

definition Leaf :: "path \<Rightarrow> gostring option" where
  "Leaf p = (if p = [] then None else Some (p ! (length p - 1)))"

definition Path_Equal :: "path \<Rightarrow> path \<Rightarrow> bool" where
  "Path_Equal p to = (p = to)"

definition IsEmpty :: "path \<Rightarrow> bool" where
  "IsEmpty p = (length p = 0)"

definition HasStrictPrefix :: "path \<Rightarrow> path \<Rightarrow> bool" where
  "HasStrictPrefix p q = (length p > length q \<and> Path_Equal q (take (length q) p))"

definition HasPrefix :: "path \<Rightarrow> path \<Rightarrow> bool" where
  "HasPrefix p q = (length p \<ge> length q \<and> Path_Equal q (take (length q) p))"

definition HasPrefixIn :: "path \<Rightarrow> path list \<Rightarrow> bool" where
  "HasPrefixIn p ps = list_ex (HasPrefix p) ps"

definition Dotted :: "gostring \<Rightarrow> path" where
  "Dotted s = Split s 46"

definition DottedList :: "gostring \<Rightarrow> path list" where
  "DottedList s = map Dotted (Split s 44)"

definition List_AppendTo :: "path list \<Rightarrow> bytes \<Rightarrow> bytes" where
  "List_AppendTo l b = append_sep 44 Path_AppendTo 0 l b"

definition List_String :: "path list \<Rightarrow> gostring" where
  "List_String l = List_AppendTo l []"

definition List_Has :: "path list \<Rightarrow> path \<Rightarrow> bool" where
  "List_Has l p = list_ex (Path_Equal p) l"

definition Path_In :: "path \<Rightarrow> path list \<Rightarrow> bool" where
  "Path_In p l = List_Has l p"

definition List_Equal :: "path list \<Rightarrow> path list \<Rightarrow> bool" where
  "List_Equal l to = list_all2 Path_Equal l to"

subsection \<open>Projections (projection.go)\<close>

datatype projnode = ProjectionNode (Name: gostring) (Proj: "projnode list")

fun IndexFunc :: "('a \<Rightarrow> bool) \<Rightarrow> 'a list \<Rightarrow> nat option" where
  "IndexFunc f [] = None"
| "IndexFunc f (x # xs) = (if f x then Some 0 else map_option Suc (IndexFunc f xs))"

fun insertPath :: "path \<Rightarrow> projnode list \<Rightarrow> projnode list" where
  "insertPath [] p = []"
| "insertPath (n # ns) p = (case IndexFunc (\<lambda>x. Name x = n) p of
      None \<Rightarrow> p @ [ProjectionNode n (insertPath ns [])]
    | Some i \<Rightarrow> p[i := ProjectionNode (Name (p ! i)) (insertPath ns (Proj (p ! i)))])"

definition NewProjection :: "path list \<Rightarrow> projnode list" where
  "NewProjection paths = fold insertPath paths []"

fun Paths :: "projnode list \<Rightarrow> path list" where
  "Paths [] = []"
| "Paths (ProjectionNode name pr # ps) =
     (if length pr > 0 then map (\<lambda>q. [name] @ q) (Paths pr) else [[name]]) @ Paths ps"

subsection \<open>Orders (which.go, direction.go, nulls.go)\<close>

datatype Which = Asc | Desc
datatype Direction = Down | Up | Unknown
datatype Nulls = NullsLast | NullsFirst

text \<open>
  \<open>strings.ToLower\<close> as far as the result is ASCII: the ASCII letters, and the two other letters whose
  lower case is an ASCII one (U+0130 and U+212A). Other bytes stay out of the ASCII range either way.
\<close>

function ToLower :: "gostring \<Rightarrow> gostring" where
  "ToLower [] = []"
| "ToLower (b # s) =
     (if 65 \<le> b \<and> b \<le> 90 then (b + 32) # ToLower s
      else if b = 196 \<and> take 1 s = [176] then 105 # ToLower (drop 1 s)
      else if b = 226 \<and> take 2 s = [132, 170] then 107 # ToLower (drop 2 s)
      else b # ToLower s)"
  by pat_completeness auto
termination by (relation "measure length") auto

definition Parse :: "gostring \<Rightarrow> gostring + Which" where
  "Parse s = (let l = ToLower s in if l = str ''asc'' then Inr Asc else if l = str ''desc'' then Inr Desc else Inl s)"

definition Which_String :: "Which \<Rightarrow> gostring" where
  "Which_String w = (if w = Desc then str ''desc'' else str ''asc'')"

definition Which_Direction :: "Which \<Rightarrow> Direction" where
  "Which_Direction w = (if w = Desc then Down else Up)"

definition NullsMax :: "Which \<Rightarrow> bool \<Rightarrow> Nulls" where
  "NullsMax w nullsMax = (if w = Asc \<and> nullsMax \<or> w = Desc \<and> \<not> nullsMax then NullsLast else NullsFirst)"

text \<open>\<open>UnmarshalBSUP\<close> of an order, given the bytes of the value.\<close>

definition Which_Unmarshal :: "bytes \<Rightarrow> gostring + Which" where
  "Which_Unmarshal b = res_bind (Parse b) Inr"

definition ParseDirection :: "gostring \<Rightarrow> gostring + Direction" where
  "ParseDirection s = (if s = str ''asc'' then Inr Up else if s = str ''desc'' then Inr Down
     else if s = str ''unknown'' \<or> s = str ''dontcare'' \<or> s = [] then Inr Unknown else Inl s)"

definition HasOrder :: "Direction \<Rightarrow> Which \<Rightarrow> bool" where
  "HasOrder d w = (case d of Up \<Rightarrow> w = Asc | Down \<Rightarrow> w = Desc | Unknown \<Rightarrow> False)"

definition Direction_String :: "Direction \<Rightarrow> gostring" where
  "Direction_String d = (case d of Down \<Rightarrow> str ''desc'' | Up \<Rightarrow> str ''asc'' | Unknown \<Rightarrow> str ''unknown'')"

definition Nulls_String :: "Nulls \<Rightarrow> gostring" where
  "Nulls_String n = (if n = NullsFirst then str ''first'' else str ''last'')"

definition Nulls_UnmarshalText :: "bytes \<Rightarrow> gostring + Nulls" where
  "Nulls_UnmarshalText b = (let l = ToLower b in
     if l = str ''first'' then Inr NullsFirst else if l = str ''last'' then Inr NullsLast else Inl b)"

subsection \<open>Sort keys (sortkey.go)\<close>

record SortKey =
  sk_Order :: Which
  sk_Key :: path

definition NewSortKey :: "Which \<Rightarrow> path \<Rightarrow> SortKey" where
  "NewSortKey w k = \<lparr>sk_Order = w, sk_Key = k\<rparr>"

definition SortKey_Equal :: "SortKey \<Rightarrow> SortKey \<Rightarrow> bool" where
  "SortKey_Equal s to = (sk_Order s = sk_Order to \<and> Path_Equal (sk_Key s) (sk_Key to))"

definition SortKey_String :: "SortKey \<Rightarrow> gostring" where
  "SortKey_String s = Path_String (sk_Key s) @ [58] @ Which_String (sk_Order s)"

definition Primary :: "SortKey list \<Rightarrow> SortKey option" where
  "Primary s = (if s = [] then None else Some (s ! 0))"

definition SortKeys_IsNil :: "SortKey list \<Rightarrow> bool" where
  "SortKeys_IsNil s = (length s = 0)"

definition SortKeys_Equal :: "SortKey list \<Rightarrow> SortKey list \<Rightarrow> bool" where
  "SortKeys_Equal s to = list_all2 SortKey_Equal s to"

text \<open>\<open>ParseSortKeys\<close>; the error is the text at fault, or nothing for a second order clause.\<close>

definition ParseSortKeys :: "gostring \<Rightarrow> gostring option + SortKey list" where
  "ParseSortKeys s = (if s = [] then Inr [] else
     let parts = Split s 58 in
     if length parts > 2 then Inl None
     else case (if length parts > 1 then Parse (parts ! 1) else Inr Asc) of
       Inl e \<Rightarrow> Inl (Some e)
     | Inr w \<Rightarrow> Inr (map (NewSortKey w) (DottedList (parts ! 0))))"

subsection \<open>Printing and parsing\<close>

primrec join :: "u8 \<Rightarrow> bytes list \<Rightarrow> bytes" where
  "join sep [] = []"
| "join sep (x # xs) = (if xs = [] then x else x @ sep # join sep xs)"

lemma append_sep_join: "append_sep sep (\<lambda>x b. b @ f x) i xs b = (if i > 0 \<and> xs \<noteq> [] then b @ [sep] else b) @ join sep (map f xs)"
  by (induction sep "\<lambda>x b. b @ f x" i xs b rule: append_sep.induct) auto

lemma Split_join:
  assumes "\<forall>x \<in> set xs. sep \<notin> set x" and "xs \<noteq> []"
  shows "Split (join sep xs) sep = xs"
proof -
  have "split_at_byte sep cur (join sep xs) = (cur @ hd xs) # tl xs" for cur
    using assms
  proof (induction xs arbitrary: cur)
    case (Cons x xs)
    then show ?case by (cases xs) (simp_all add: split_at_byte_none split_at_byte_once)
  qed simp
  then show ?thesis using assms(2) by (simp add: Split_def)
qed

lemma set_join: "set (join sep xs) \<subseteq> insert sep (\<Union> (set ` set xs))"
  by (induction xs) auto

lemma Path_AppendTo_eq: "Path_AppendTo p b = b @ (if p = [] then str ''this'' else join 46 p)"
  using append_sep_join [of 46 "\<lambda>x. x" 0 p b] by (simp add: Path_AppendTo_def)

lemma List_String_eq: "List_String l = join 44 (map Path_String l)"
proof -
  have f: "Path_AppendTo = (\<lambda>p b. b @ Path_String p)" by (simp add: fun_eq_iff Path_AppendTo_eq Path_String_def)
  show ?thesis unfolding List_String_def List_AppendTo_def by (subst f) (simp add: append_sep_join)
qed

lemma Path_String_eq: "p \<noteq> [] \<Longrightarrow> Path_String p = join 46 p"
  by (simp add: Path_String_def Path_AppendTo_eq)

text \<open>Paths whose text can be read back: not empty, and no separator in a name.\<close>

definition plain_path :: "path \<Rightarrow> bool" where
  "plain_path p = (p \<noteq> [] \<and> (\<forall>s \<in> set p. 46 \<notin> set s \<and> 44 \<notin> set s \<and> 58 \<notin> set s))"

lemma Dotted_String: "plain_path p \<Longrightarrow> Dotted (Path_String p) = p"
  by (auto simp: Dotted_def Path_String_eq plain_path_def intro: Split_join)

lemma no_sep_String: "plain_path p \<Longrightarrow> sep \<in> {44, 58} \<Longrightarrow> sep \<notin> set (Path_String p)"
  using set_join [of 46 p] by (auto simp: plain_path_def Path_String_eq)

lemma DottedList_String:
  assumes "\<forall>p \<in> set l. plain_path p" and "l \<noteq> []"
  shows "DottedList (List_String l) = l"
proof -
  have "Split (List_String l) 44 = map Path_String l"
    unfolding List_String_eq using assms no_sep_String by (intro Split_join) auto
  then show ?thesis using assms(1) by (simp add: DottedList_def map_idI Dotted_String)
qed

lemma ToLower_String: "ToLower (Which_String w) = Which_String w"
  by (cases w) (simp_all add: Which_String_def str_def)

lemma Parse_String: "Parse (Which_String w) = Inr w"
  unfolding Parse_def ToLower_String by (cases w) (simp_all add: Which_String_def str_def)

text \<open>
  Sort keys print and parse back. A list of keys with one order, written as the comma-separated
  paths, a colon and the order, parses to the same keys, as long as no path is empty and no field name
  contains a dot, a comma or a colon; so does the text of a single key. Orders, directions and
  positions of nulls are read back from their names too. \<close>

theorem sort_keys_roundtrip:
  assumes "l \<noteq> []" and "\<forall>p \<in> set l. plain_path p"
  shows "ParseSortKeys (List_String l @ [58] @ Which_String w) = Inr (map (NewSortKey w) l) \<and>
    ParseSortKeys (SortKey_String (NewSortKey w (hd l))) = Inr [NewSortKey w (hd l)] \<and>
    Parse (Which_String w) = Inr w \<and> ParseDirection (Direction_String d) = Inr d \<and>
    Nulls_UnmarshalText (Nulls_String n) = Inr n"
proof -
  have w: "58 \<notin> set (Which_String w)" by (cases w) (simp_all add: Which_String_def str_def)
  have keys: "ParseSortKeys (List_String ps @ [58] @ Which_String w) = Inr (map (NewSortKey w) ps)"
    if ps: "ps \<noteq> []" "\<forall>p \<in> set ps. plain_path p" for ps
  proof -
    have "58 \<notin> set (List_String ps)"
      using set_join [of 44 "map Path_String ps"] no_sep_String ps(2) unfolding List_String_eq by fastforce
    then have "Split (List_String ps @ [58] @ Which_String w) 58 = [List_String ps, Which_String w]"
      using w by (simp add: Split_def split_at_byte_once split_at_byte_none)
    then show ?thesis
      using DottedList_String [OF ps(2,1)] by (simp add: ParseSortKeys_def Parse_String)
  qed
  have "SortKey_String (NewSortKey w (hd l)) = List_String [hd l] @ [58] @ Which_String w"
    by (simp add: SortKey_String_def NewSortKey_def List_String_eq)
  then have "ParseSortKeys (SortKey_String (NewSortKey w (hd l))) = Inr [NewSortKey w (hd l)]"
    using keys [of "[hd l]"] assms by simp
  moreover have "ParseDirection (Direction_String d) = Inr d"
    by (cases d) (simp_all add: ParseDirection_def Direction_String_def str_def)
  moreover have "Nulls_UnmarshalText (Nulls_String n) = Inr n"
    by (cases n) (simp_all add: Nulls_UnmarshalText_def Nulls_String_def str_def)
  ultimately show ?thesis using keys [OF assms] Parse_String by blast
qed

theorem sort_keys_roundtrip_witness:
  "ParseSortKeys (List_String [[str ''a'', str ''b''], [str ''c'']] @ [58] @ Which_String Desc) =
     Inr [NewSortKey Desc [str ''a'', str ''b''], NewSortKey Desc [str ''c'']]"
  using sort_keys_roundtrip [of "[[str ''a'', str ''b''], [str ''c'']]" Desc] by (simp add: plain_path_def str_def)

subsection \<open>Projections\<close>

text \<open>Nodes of one level have different names, at every level.\<close>

fun proj_wf :: "projnode list \<Rightarrow> bool" where
  "proj_wf [] = True"
| "proj_wf (ProjectionNode n pr # ps) = (n \<notin> Name ` set ps \<and> proj_wf pr \<and> proj_wf ps)"

lemma Paths_append: "Paths (p @ q) = Paths p @ Paths q"
  by (induction p rule: Paths.induct) auto

lemma Paths_heads: "q \<in> set (Paths p) \<Longrightarrow> q \<noteq> [] \<and> hd q \<in> Name ` set p"
  by (induction p rule: Paths.induct) (auto split: if_splits)

lemma proj_wf_append: "proj_wf (p @ q) \<longleftrightarrow> proj_wf p \<and> proj_wf q \<and> Name ` set p \<inter> Name ` set q = {}"
  by (induction p rule: proj_wf.induct) auto

lemma IndexFunc_None: "IndexFunc f xs = None \<longleftrightarrow> (\<forall>x \<in> set xs. \<not> f x)"
  by (induction xs) auto

lemma IndexFunc_Some: "IndexFunc f xs = Some i \<Longrightarrow> \<exists>as b bs. xs = as @ b # bs \<and> length as = i \<and> f b \<and> (\<forall>a \<in> set as. \<not> f a)"
proof (induction xs arbitrary: i)
  case (Cons x xs)
  show ?case
  proof (cases "f x")
    case False
    then obtain j where j: "IndexFunc f xs = Some j" "i = Suc j" using Cons.prems by auto
    then obtain as b bs where "xs = as @ b # bs" "length as = j" "f b" "\<forall>a \<in> set as. \<not> f a" using Cons.IH by blast
    then show ?thesis using False j(2) by (intro exI [of _ "x # as"]) auto
  qed (use Cons.prems in auto)
qed simp

lemma insertPath_nonempty: "ns \<noteq> [] \<Longrightarrow> insertPath ns p \<noteq> []"
  by (cases ns) (auto split: option.splits)

text \<open>The two forms of an insertion: a new node, or a change of the node with the name.\<close>

lemma insertPath_Cons:
  assumes "proj_wf p"
  obtains (new) "n \<notin> Name ` set p" "insertPath (n # ns) p = p @ [ProjectionNode n (insertPath ns [])]"
  | (old) as pr bs where "p = as @ ProjectionNode n pr # bs" "n \<notin> Name ` set as" "n \<notin> Name ` set bs" "proj_wf pr"
    "insertPath (n # ns) p = as @ ProjectionNode n (insertPath ns pr) # bs"
proof (cases "IndexFunc (\<lambda>x. Name x = n) p")
  case None
  then have "n \<notin> Name ` set p" by (auto simp: IndexFunc_None)
  then show ?thesis using new None by simp
next
  case (Some i)
  then obtain as b bs where p: "p = as @ b # bs" "length as = i" "Name b = n" "\<forall>a \<in> set as. Name a \<noteq> n"
    using IndexFunc_Some [OF Some] by blast
  obtain pr where b: "b = ProjectionNode n pr" using p(3) by (cases b) auto
  have "insertPath (n # ns) p = as @ ProjectionNode n (insertPath ns pr) # bs"
    using Some p(2) [symmetric] by (simp add: p(1) b)
  then show ?thesis using old [of as pr bs] p b assms by (auto simp: proj_wf_append)
qed

lemma insertPath_wf: "proj_wf p \<Longrightarrow> proj_wf (insertPath ns p)"
proof (induction ns arbitrary: p)
  case (Cons n ns)
  show ?case
  proof (rule insertPath_Cons [OF Cons.prems, of n ns], goal_cases)
    case 1
    then show ?case using Cons by (auto simp: proj_wf_append)
  next
    case (2 as pr bs)
    then show ?case using Cons by (auto simp: proj_wf_append)
  qed
qed simp

text \<open>An inserted path replaces the paths it extends and those that extend it.\<close>

lemma Paths_insertPath:
  assumes "proj_wf p" and "ns \<noteq> []"
  shows "set (Paths (insertPath ns p)) = insert ns {q \<in> set (Paths p). \<not> prefix q ns \<and> \<not> prefix ns q}"
  using assms
proof (induction ns arbitrary: p)
  case (Cons n ns)
  have other: "\<not> prefix q (n # ns) \<and> \<not> prefix (n # ns) q" if "q \<in> set (Paths as)" "n \<notin> Name ` set as" for q as
    using Paths_heads [OF that(1)] that(2) by (cases q) auto
  have sub: "set (Paths [ProjectionNode n (insertPath ns pr)]) =
      insert (n # ns) {q \<in> set (Paths [ProjectionNode n pr]). \<not> prefix q (n # ns) \<and> \<not> prefix (n # ns) q}" if "proj_wf pr" for pr
  proof (cases "ns = []")
    case True
    then show ?thesis by (auto simp: Cons_prefix_Cons split: if_splits)
  next
    case False
    then have "set (Paths (insertPath ns pr)) = insert ns {q \<in> set (Paths pr). \<not> prefix q ns \<and> \<not> prefix ns q}"
      using Cons.IH [OF that] by simp
    then show ?thesis using insertPath_nonempty [OF False, of pr] by (auto simp: Cons_prefix_Cons split: if_splits)
  qed
  show ?case
  proof (rule insertPath_Cons [OF Cons.prems(1), of n ns], goal_cases)
    case new: 1
    then have "set (Paths [ProjectionNode n (insertPath ns [])]) = {n # ns}" using sub [of "[]"] by auto
    then show ?case using new other [OF _ new(1)] by (auto simp: Paths_append)
  next
    case old: (2 as pr bs)
    have "Paths p = Paths as @ Paths [ProjectionNode n pr] @ Paths bs"
      using Paths_append [of as] Paths_append [of "[ProjectionNode n pr]" bs] by (simp add: old(1))
    moreover have "Paths (insertPath (n # ns) p) = Paths as @ Paths [ProjectionNode n (insertPath ns pr)] @ Paths bs"
      using Paths_append [of as] Paths_append [of "[ProjectionNode n (insertPath ns pr)]" bs] unfolding old(5) by simp
    ultimately show ?case using sub [OF old(4)] other [OF _ old(2)] other [OF _ old(3)] by auto
  qed
qed simp

lemma NewProjection_snoc: "NewProjection (ps @ [q]) = insertPath q (NewProjection ps)"
  by (simp add: NewProjection_def)

lemma NewProjection_wf: "proj_wf (NewProjection ps)"
  by (induction ps rule: rev_induct) (simp_all add: NewProjection_snoc insertPath_wf, simp add: NewProjection_def)

text \<open>
  C32: A projection made of paths of which none extends another has exactly these paths. In general a
  path stays unless a path comparable to it, shorter or longer, is inserted after it: the last one wins. \<close>

theorem projection_paths:
  assumes "[] \<notin> set ps"
  shows "(\<forall>q. q \<in> set (Paths (NewProjection ps)) \<longleftrightarrow>
      (\<exists>as bs. ps = as @ q # bs \<and> (\<forall>b \<in> set bs. \<not> prefix b q \<and> \<not> prefix q b))) \<and>
    ((\<forall>p \<in> set ps. \<forall>q \<in> set ps. prefix p q \<longrightarrow> p = q) \<longrightarrow> set (Paths (NewProjection ps)) = set ps)"
proof -
  have last: "q \<in> set (Paths (NewProjection ps)) \<longleftrightarrow>
      (\<exists>as bs. ps = as @ q # bs \<and> (\<forall>b \<in> set bs. \<not> prefix b q \<and> \<not> prefix q b))" for q
    using assms
  proof (induction ps rule: rev_induct)
    case Nil
    then show ?case by (simp add: NewProjection_def)
  next
    case (snoc p ps)
    have "q \<in> set (Paths (NewProjection (ps @ [p]))) \<longleftrightarrow> q = p \<or> q \<in> set (Paths (NewProjection ps)) \<and> \<not> prefix q p \<and> \<not> prefix p q"
      using Paths_insertPath [OF NewProjection_wf, of p ps] snoc.prems by (auto simp: NewProjection_snoc)
    also have "\<dots> \<longleftrightarrow> (\<exists>as bs. ps @ [p] = as @ q # bs \<and> (\<forall>b \<in> set bs. \<not> prefix b q \<and> \<not> prefix q b))"
    proof
      assume "q = p \<or> q \<in> set (Paths (NewProjection ps)) \<and> \<not> prefix q p \<and> \<not> prefix p q"
      then show "\<exists>as bs. ps @ [p] = as @ q # bs \<and> (\<forall>b \<in> set bs. \<not> prefix b q \<and> \<not> prefix q b)"
      proof
        assume "q \<in> set (Paths (NewProjection ps)) \<and> \<not> prefix q p \<and> \<not> prefix p q"
        then obtain as bs where "ps = as @ q # bs" "\<forall>b \<in> set bs. \<not> prefix b q \<and> \<not> prefix q b" "\<not> prefix q p \<and> \<not> prefix p q"
          using snoc by auto
        then show ?thesis by (intro exI [of _ as] exI [of _ "bs @ [p]"]) auto
      qed (intro exI [of _ ps] exI [of _ "[]"], simp)
    next
      assume "\<exists>as bs. ps @ [p] = as @ q # bs \<and> (\<forall>b \<in> set bs. \<not> prefix b q \<and> \<not> prefix q b)"
      then obtain as bs where ab: "ps @ [p] = as @ q # bs" "\<forall>b \<in> set bs. \<not> prefix b q \<and> \<not> prefix q b" by blast
      show "q = p \<or> q \<in> set (Paths (NewProjection ps)) \<and> \<not> prefix q p \<and> \<not> prefix p q"
      proof (cases bs rule: rev_cases)
        case (snoc cs c)
        then have "ps = as @ q # cs" "c = p" using ab(1) by auto
        moreover have "[] \<notin> set ps" using snoc.prems by auto
        ultimately show ?thesis using snoc.IH ab(2) snoc by auto
      qed (use ab in auto)
    qed
    finally show ?case .
  qed
  have "set (Paths (NewProjection ps)) = set ps" if free: "\<forall>p \<in> set ps. \<forall>q \<in> set ps. prefix p q \<longrightarrow> p = q"
  proof -
    have "\<exists>as bs. ps = as @ q # bs \<and> (\<forall>b \<in> set bs. \<not> prefix b q \<and> \<not> prefix q b)" if "q \<in> set ps" for q
    proof -
      from that obtain as bs where "ps = as @ q # bs" "q \<notin> set bs" by (blast dest: split_list_last)
      then show ?thesis using free that by (intro exI [of _ as] exI [of _ bs]) auto
    qed
    then show ?thesis using last by (auto simp: set_eq_iff)
  qed
  then show ?thesis using last by blast
qed

theorem projection_paths_witness:
  "set (Paths (NewProjection [[str ''a'', str ''b''], [str ''c''], [str ''a'', str ''d'']])) =
     {[str ''a'', str ''b''], [str ''c''], [str ''a'', str ''d'']} \<and>
   [str ''a''] \<notin> set (Paths (NewProjection [[str ''a''], [str ''a'', str ''b'']]))"
  using projection_paths [of "[[str ''a'', str ''b''], [str ''c''], [str ''a'', str ''d'']]"]
    projection_paths [of "[[str ''a''], [str ''a'', str ''b'']]"]
  by (auto simp: str_def append_eq_Cons_conv Cons_eq_append_conv)

end
