(* ===== verification/Values.thy ===== *)
theory Values
  imports Type_Value Field_Order
begin

text \<open>
  Values (\<open>value.go\<close>), the walk over a value along its type (\<open>walk.go\<close>), and the normal forms of sets
  and maps (\<open>complex.go\<close>).
\<close>

subsection \<open>Walking a value\<close>

text \<open>
  A visitor updates a state and lets the walk go on, skips the parts of the value, stops with an error of
  its own, or panics. A walk ends well, with an error or with a panic.
\<close>

datatype 'e vresult = Continue | SkipContainer | Stop 'e | VPanic zpanic

type_synonym ('s, 'e) visitor = "ztype \<Rightarrow> zbytes \<Rightarrow> 's \<Rightarrow> 's \<times> 'e vresult"

datatype 'e walk_error = ErrMissingField | ErrEmptyUnion | ErrLongUnion | ErrTag type_error | ErrVisit 'e
datatype 'e wres = Ok | Fail "'e walk_error" | Panic zpanic

fun and_then :: "'s \<times> 'e wres \<Rightarrow> ('s \<Rightarrow> 's \<times> 'e wres) \<Rightarrow> 's \<times> 'e wres" where
  "and_then (s, Ok) f = f s"
| "and_then (s, Fail e) f = (s, Fail e)"
| "and_then (s, Panic p) f = (s, Panic p)"

lemma and_then_cong [fundef_cong]:
  "x = y \<Longrightarrow> (\<And>s. y = (s, Ok) \<Longrightarrow> f s = g s) \<Longrightarrow> and_then x f = and_then y g"
  by (cases y; cases "snd y") auto

text \<open>The loops \<open>for !it.Done()\<close> over elements and over entries of a map, and the loop over the fields of a record.\<close>

function iter_each :: "(zbytes \<Rightarrow> 's \<Rightarrow> 's \<times> 'e wres) \<Rightarrow> bytes \<Rightarrow> 's \<Rightarrow> 's \<times> 'e wres" where
  "iter_each f it s = (if Iter_Done it then (s, Ok)
     else case Iter_Next it of Inl p \<Rightarrow> (s, Panic p)
       | Inr (x, it') \<Rightarrow> and_then (f x s) (\<lambda>s. iter_each f it' s))"
  by pat_completeness auto
termination by (relation "measure (\<lambda>(f, it, s). length it)") (auto dest: Iter_Next_shorter)

declare iter_each.simps [simp del]

function iter_entries :: "(zbytes \<Rightarrow> 's \<Rightarrow> 's \<times> 'e wres) \<Rightarrow> (zbytes \<Rightarrow> 's \<Rightarrow> 's \<times> 'e wres) \<Rightarrow> bytes \<Rightarrow> 's \<Rightarrow> 's \<times> 'e wres" where
  "iter_entries f g it s = (if Iter_Done it then (s, Ok)
     else case Iter_Next it of Inl p \<Rightarrow> (s, Panic p)
       | Inr (x, it') \<Rightarrow> and_then (f x s) (\<lambda>s. case Iter_Next it' of Inl p \<Rightarrow> (s, Panic p)
           | Inr (y, it'') \<Rightarrow> and_then (g y s) (\<lambda>s. iter_entries f g it'' s)))"
  by pat_completeness auto
termination by (relation "measure (\<lambda>(f, g, it, s). length it)") (auto dest!: Iter_Next_shorter)

declare iter_entries.simps [simp del]

fun iter_fields :: "(zbytes \<Rightarrow> 's \<Rightarrow> 's \<times> 'e wres) list \<Rightarrow> bytes \<Rightarrow> 's \<Rightarrow> 's \<times> 'e wres" where
  "iter_fields [] it s = (s, Ok)"
| "iter_fields (f # fs) it s = (if Iter_Done it then (s, Fail ErrMissingField)
     else case Iter_Next it of Inl p \<Rightarrow> (s, Panic p)
       | Inr (x, it') \<Rightarrow> and_then (f x s) (\<lambda>s. iter_fields fs it' s))"

lemma Union_Type_member: "Union_Type ts k = Inr t \<Longrightarrow> t \<in> set ts"
  by (auto simp: Union_Type_def split: if_splits)

function (sequential) Walk :: "('s, 'e) visitor \<Rightarrow> ztype \<Rightarrow> zbytes \<Rightarrow> 's \<Rightarrow> 's \<times> 'e wres" where
  "Walk visit t body s = (case visit t body s of
      (s, SkipContainer) \<Rightarrow> (s, Ok)
    | (s, Stop e) \<Rightarrow> (s, Fail (ErrVisit e))
    | (s, VPanic p) \<Rightarrow> (s, Panic p)
    | (s, Continue) \<Rightarrow> (case t of
        TypeNamed _ _ u \<Rightarrow> Walk visit u body s
      | TypeError _ u \<Rightarrow> Walk visit u body s
      | TypeRecord _ fs \<Rightarrow> (case body of None \<Rightarrow> (s, Ok)
          | Some it \<Rightarrow> iter_fields (map (\<lambda>f x s. Walk visit (snd f) x s) fs) it s)
      | TypeArray _ u \<Rightarrow> (case body of None \<Rightarrow> (s, Ok) | Some it \<Rightarrow> iter_each (\<lambda>x s. Walk visit u x s) it s)
      | TypeSet _ u \<Rightarrow> (case body of None \<Rightarrow> (s, Ok) | Some it \<Rightarrow> iter_each (\<lambda>x s. Walk visit (TypeUnder u) x s) it s)
      | TypeUnion _ ts \<Rightarrow> (case body of None \<Rightarrow> (s, Ok)
          | Some b \<Rightarrow> if length b = 0 then (s, Fail ErrEmptyUnion)
              else (case Iter_Next b of Inl p \<Rightarrow> (s, Panic p)
                | Inr (tag, it) \<Rightarrow> (case Union_Type ts (sint (DecodeInt tag)) of
                    Inl e \<Rightarrow> (s, Fail (ErrTag e))
                  | Inr inner \<Rightarrow> (case Iter_Next it of Inl p \<Rightarrow> (s, Panic p)
                      | Inr (x, it') \<Rightarrow> if \<not> Iter_Done it' then (s, Fail ErrLongUnion) else Walk visit inner x s))))
      | TypeMap _ k v \<Rightarrow> (case body of None \<Rightarrow> (s, Ok)
          | Some it \<Rightarrow> iter_entries (\<lambda>x s. Walk visit (TypeUnder k) x s) (\<lambda>x s. Walk visit (TypeUnder v) x s) it s)
      | _ \<Rightarrow> (s, Ok)))"
  by pat_completeness auto
termination
  by (relation "measure (\<lambda>(visit, t, body, s). size t)")
    (auto intro: le_imp_less_Suc size_TypeUnder dest!: Union_Type_member
       simp: size_list_estimation' le_SucI trans_le_add1 trans_le_add2 size_TypeUnder
       intro!: size_record_field [simplified] size_union_member [simplified])

declare Walk.simps [simp del]

subsection \<open>Values\<close>

text \<open>
  A value has its type and either a native 64-bit representation or its BSUP bytes, \<open>None\<close> being null.
  Floats are bit patterns; the conversions between their widths are arguments, those from and to 16 bits
  being functions of a library.
\<close>

datatype vrep = Native u64 | Raw zbytes

record zvalue =
  v_typ :: ztype
  v_rep :: vrep

record float_ops =
  float64_of_32 :: "u32 \<Rightarrow> u64"
  float32_of_64 :: "u64 \<Rightarrow> u32"
  Fromfloat32 :: "u32 \<Rightarrow> 16 word"
  Float32 :: "16 word \<Rightarrow> u32"

datatype value_panic = WrongType | PrimPanic prim_panic | BytesPanic zpanic | UntagPanic untag_panic | NilPointer

definition NewValue :: "ztype \<Rightarrow> zbytes \<Rightarrow> zvalue" where
  "NewValue t b = \<lparr>v_typ = t, v_rep = Raw b\<rparr>"

definition newNativeValue :: "ztype \<Rightarrow> u64 \<Rightarrow> zvalue" where
  "newNativeValue t x = \<lparr>v_typ = t, v_rep = Native x\<rparr>"

definition native :: "zvalue \<Rightarrow> u64 option" where
  "native v = (case v_rep v of Native x \<Rightarrow> Some x | Raw _ \<Rightarrow> None)"

definition Null :: zvalue where "Null = NewValue (TypePrim TypeNull) None"

definition NewUint :: "ztype \<Rightarrow> u64 \<Rightarrow> zvalue" where "NewUint t u = newNativeValue t u"
definition NewUint8 :: "u8 \<Rightarrow> zvalue" where "NewUint8 u = newNativeValue (TypePrim TypeUint8) (ucast u)"
definition NewUint16 :: "16 word \<Rightarrow> zvalue" where "NewUint16 u = newNativeValue (TypePrim TypeUint16) (ucast u)"
definition NewUint32 :: "u32 \<Rightarrow> zvalue" where "NewUint32 u = newNativeValue (TypePrim TypeUint32) (ucast u)"
definition NewUint64 :: "u64 \<Rightarrow> zvalue" where "NewUint64 u = newNativeValue (TypePrim TypeUint64) u"
definition NewInt :: "ztype \<Rightarrow> u64 \<Rightarrow> zvalue" where "NewInt t i = newNativeValue t i"
definition NewInt8 :: "u8 \<Rightarrow> zvalue" where "NewInt8 i = newNativeValue (TypePrim TypeInt8) (scast i)"
definition NewInt16 :: "16 word \<Rightarrow> zvalue" where "NewInt16 i = newNativeValue (TypePrim TypeInt16) (scast i)"
definition NewInt32 :: "u32 \<Rightarrow> zvalue" where "NewInt32 i = newNativeValue (TypePrim TypeInt32) (scast i)"
definition NewInt64 :: "u64 \<Rightarrow> zvalue" where "NewInt64 i = newNativeValue (TypePrim TypeInt64) i"
definition NewDuration :: "u64 \<Rightarrow> zvalue" where "NewDuration d = newNativeValue (TypePrim TypeDuration) d"
definition NewTime :: "u64 \<Rightarrow> zvalue" where "NewTime ts = newNativeValue (TypePrim TypeTime) ts"
definition NewFloat :: "ztype \<Rightarrow> u64 \<Rightarrow> zvalue" where "NewFloat t f = newNativeValue t f"
definition NewFloat16 :: "float_ops \<Rightarrow> u32 \<Rightarrow> zvalue" where "NewFloat16 fo f = newNativeValue (TypePrim TypeFloat16) (float64_of_32 fo f)"
definition NewFloat32 :: "float_ops \<Rightarrow> u32 \<Rightarrow> zvalue" where "NewFloat32 fo f = newNativeValue (TypePrim TypeFloat32) (float64_of_32 fo f)"
definition NewFloat64 :: "u64 \<Rightarrow> zvalue" where "NewFloat64 f = newNativeValue (TypePrim TypeFloat64) f"
definition NewBool :: "bool \<Rightarrow> zvalue" where "NewBool b = newNativeValue (TypePrim TypeBool) (if b then 1 else 0)"
definition NewBytes :: "zbytes \<Rightarrow> zvalue" where "NewBytes b = NewValue (TypePrim TypeBytes) b"
definition NewString :: "gostring \<Rightarrow> zvalue" where "NewString s = NewValue (TypePrim TypeString) (Some s)"
definition NewIP :: "addr \<Rightarrow> zvalue" where "NewIP a = NewValue (TypePrim TypeIP) (EncodeIP a)"

definition NewNet :: "netprefix \<Rightarrow> prim_panic + zvalue" where
  "NewNet p = res_bind (EncodeNet p) (\<lambda>b. Inr (NewValue (TypePrim TypeNet) (Some b)))"

definition NewTypeValue :: "ztype \<Rightarrow> zvalue" where
  "NewTypeValue t = NewValue (TypePrim TypeNet) (Some (EncodeTypeValue t))"

definition DecodeFloat :: "float_ops \<Rightarrow> zbytes \<Rightarrow> prim_panic + u64" where
  "DecodeFloat fo zb = (case zb of None \<Rightarrow> Inr 0
     | Some b \<Rightarrow> if length b = 2 then Inr (float64_of_32 fo (Float32 fo (le_word b)))
         else if length b = 4 then Inr (float64_of_32 fo (le_word b))
         else if length b = 8 then Inr (le_word b)
         else Inl FloatPanic)"

definition AppendFloat16 :: "float_ops \<Rightarrow> bytes \<Rightarrow> u32 \<Rightarrow> bytes" where
  "AppendFloat16 fo zb f = zb @ le_bytes 2 (Fromfloat32 fo f)"

definition EncodeFloat16 :: "float_ops \<Rightarrow> u32 \<Rightarrow> bytes" where
  "EncodeFloat16 fo d = AppendFloat16 fo [] d"

definition DecodeFloat16 :: "float_ops \<Rightarrow> zbytes \<Rightarrow> prim_panic + u32" where
  "DecodeFloat16 fo zb = (case zb of None \<Rightarrow> Inr 0
     | Some b \<Rightarrow> if length b < 2 then Inl IndexPanic else Inr (Float32 fo (le_word (take 2 b))))"

fun lift_z :: "zpanic + 'a \<Rightarrow> value_panic + 'a" where
  "lift_z (Inl p) = Inl (BytesPanic p)"
| "lift_z (Inr x) = Inr x"

fun lift_p :: "prim_panic + 'a \<Rightarrow> value_panic + 'a" where
  "lift_p (Inl p) = Inl (PrimPanic p)"
| "lift_p (Inr x) = Inr x"

definition Value_Bytes :: "float_ops \<Rightarrow> zvalue \<Rightarrow> value_panic + zbytes" where
  "Value_Bytes fo v = (case v_rep v of
      Raw b \<Rightarrow> Inr b
    | Native x \<Rightarrow> let i = ID (v_typ v) in
        if i \<in> {0, 1, 2, 3} then res_bind (lift_z (EncodeUint x)) (\<lambda>b. Inr (Some b))
        else if i \<in> {6, 7, 8, 9, 12, 13} then res_bind (lift_z (EncodeInt x)) (\<lambda>b. Inr (Some b))
        else if i = 14 then Inr (Some (EncodeFloat16 fo (float32_of_64 fo x)))
        else if i = 15 then Inr (Some (EncodeFloat32 (float32_of_64 fo x)))
        else if i = 16 then Inr (Some (EncodeFloat64 x))
        else if i = 23 then Inr (Some (EncodeBool (x \<noteq> 0)))
        else Inl WrongType)"

definition Value_Uint :: "zvalue \<Rightarrow> value_panic + u64" where
  "Value_Uint v = (if ID (v_typ v) > 3 then Inl WrongType
     else case v_rep v of Native x \<Rightarrow> Inr x | Raw b \<Rightarrow> Inr (DecodeUint b))"

definition Value_Int :: "zvalue \<Rightarrow> value_panic + u64" where
  "Value_Int v = (if \<not> IsSigned (int (ID (v_typ v))) then Inl WrongType
     else case v_rep v of Native x \<Rightarrow> Inr x | Raw b \<Rightarrow> Inr (DecodeInt b))"

definition Value_Float :: "float_ops \<Rightarrow> zvalue \<Rightarrow> value_panic + u64" where
  "Value_Float fo v = (if \<not> IsFloat (int (ID (v_typ v))) then Inl WrongType
     else case v_rep v of Native x \<Rightarrow> Inr x | Raw b \<Rightarrow> lift_p (DecodeFloat fo b))"

definition Value_Bool :: "zvalue \<Rightarrow> value_panic + bool" where
  "Value_Bool v = (if ID (v_typ v) \<noteq> 23 then Inl WrongType
     else case v_rep v of Native x \<Rightarrow> Inr (x \<noteq> 0) | Raw b \<Rightarrow> lift_p (DecodeBool b))"

definition Value_IsContainer :: "zvalue \<Rightarrow> bool" where
  "Value_IsContainer v = IsContainerType (v_typ v)"

definition Value_Encode :: "float_ops \<Rightarrow> zvalue \<Rightarrow> bytes \<Rightarrow> value_panic + bytes" where
  "Value_Encode fo v dst = res_bind (Value_Bytes fo v) (\<lambda>b. Inr (Append dst b))"

definition Value_Iter :: "float_ops \<Rightarrow> zvalue \<Rightarrow> value_panic + bytes" where
  "Value_Iter fo v = res_bind (Value_Bytes fo v) (\<lambda>b. Inr (slice_bytes b))"

definition Value_IsNull :: "zvalue \<Rightarrow> bool" where
  "Value_IsNull v = (v_rep v = Raw None)"

subsection \<open>Elements and fields\<close>

datatype value_error = ErrNotArray | ErrIndex | ErrNotContainer

function array_index_loop :: "nat \<Rightarrow> nat \<Rightarrow> bytes \<Rightarrow> zpanic + zbytes option" where
  "array_index_loop i k it = (if Iter_Done it then Inr None
     else case Iter_Next it of Inl p \<Rightarrow> Inl p
       | Inr (b, it') \<Rightarrow> if i = k then Inr (Some b) else array_index_loop (i + 1) k it')"
  by pat_completeness auto
termination by (relation "measure (\<lambda>(i, k, it). length it)") (auto dest: Iter_Next_shorter)

declare array_index_loop.simps [simp del]

definition ArrayIndex :: "float_ops \<Rightarrow> zvalue \<Rightarrow> u64 \<Rightarrow> value_panic + (value_error + zvalue)" where
  "ArrayIndex fo v idx = (case v_typ v of
      TypeArray _ t \<Rightarrow>
        if sint idx < 0 then Inr (Inl ErrIndex)
        else res_bind (Value_Iter fo v) (\<lambda>it. res_bind (lift_z (array_index_loop 0 (unat idx) it)) (\<lambda>r.
          Inr (case r of None \<Rightarrow> Inl ErrIndex | Some b \<Rightarrow> Inr (NewValue t b))))
    | _ \<Rightarrow> Inr (Inl ErrNotArray))"

definition Elements :: "float_ops \<Rightarrow> zvalue \<Rightarrow> value_panic + (value_error + zvalue list)" where
  "Elements fo v = (case InnerType (v_typ v) of
      None \<Rightarrow> Inr (Inl ErrNotContainer)
    | Some t \<Rightarrow> res_bind (Value_Iter fo v) (\<lambda>it. res_bind (lift_z (iter_values it)) (\<lambda>bs. Inr (Inr (map (NewValue t) bs)))))"

function count_entries :: "bytes \<Rightarrow> zpanic + nat" where
  "count_entries it = (if Iter_Done it then Inr 0
     else case Iter_Next it of Inl p \<Rightarrow> Inl p
       | Inr (_, it') \<Rightarrow> (case Iter_Next it' of Inl p \<Rightarrow> Inl p
         | Inr (_, it'') \<Rightarrow> res_bind (count_entries it'') (\<lambda>n. Inr (n + 1))))"
  by pat_completeness auto
termination by (relation "measure length") (auto dest!: Iter_Next_shorter)

declare count_entries.simps [simp del]

definition ContainerLength :: "float_ops \<Rightarrow> zvalue \<Rightarrow> value_panic + (value_error + nat)" where
  "ContainerLength fo v =
     (let elements = (if Value_IsNull v then Inr (Inr 0)
            else res_bind (Value_Iter fo v) (\<lambda>it. res_bind (lift_z (iter_values it)) (\<lambda>bs. Inr (Inr (length bs))))) in
      case v_typ v of
        TypeSet _ _ \<Rightarrow> elements
      | TypeArray _ _ \<Rightarrow> elements
      | TypeMap _ _ _ \<Rightarrow> if Value_IsNull v then Inr (Inr 0)
          else res_bind (Value_Iter fo v) (\<lambda>it. res_bind (lift_z (count_entries it)) (\<lambda>n. Inr (Inr n)))
      | _ \<Rightarrow> Inr (Inl ErrNotContainer))"

definition IsString :: "zvalue \<Rightarrow> bool" where
  "IsString v = (TypeUnder (v_typ v) = TypePrim TypeString)"

definition IsError :: "zvalue \<Rightarrow> bool" where
  "IsError v = (case TypeUnder (v_typ v) of TypeError _ _ \<Rightarrow> True | _ \<Rightarrow> False)"

definition Value_IsMissing :: "float_ops \<Rightarrow> zvalue option \<Rightarrow> value_panic + bool" where
  "Value_IsMissing fo v = (case v of None \<Rightarrow> Inr True
    | Some v \<Rightarrow> (case v_typ v of
        TypeError _ t \<Rightarrow> res_bind (Value_Bytes fo v) (\<lambda>b. Inr (IsMissing t b))
      | _ \<Rightarrow> Inr False))"

definition Value_IsQuiet :: "float_ops \<Rightarrow> zvalue \<Rightarrow> value_panic + bool" where
  "Value_IsQuiet fo v = (case v_typ v of
      TypeError _ t \<Rightarrow> res_bind (Value_Bytes fo v) (\<lambda>b. Inr (IsQuiet t b))
    | _ \<Rightarrow> Inr False)"

definition Value_Equal :: "float_ops \<Rightarrow> zvalue \<Rightarrow> zvalue \<Rightarrow> value_panic + bool" where
  "Value_Equal fo v p = (if v_typ v \<noteq> v_typ p then Inr False
     else case (native v, native p) of
       (Some x, Some y) \<Rightarrow> Inr (x = y)
     | _ \<Rightarrow> res_bind (Value_Bytes fo v) (\<lambda>a. res_bind (Value_Bytes fo p) (\<lambda>b. Inr (slice_bytes a = slice_bytes b))))"

definition fields_of :: "ztype \<Rightarrow> field list option" where
  "fields_of t = (case TypeRecordOf t of Some (TypeRecord _ fs) \<Rightarrow> Some fs | _ \<Rightarrow> None)"

definition Value_HasField :: "zvalue \<Rightarrow> gostring \<Rightarrow> value_panic + bool" where
  "Value_HasField v f = (case fields_of (v_typ v) of None \<Rightarrow> Inl NilPointer | Some fs \<Rightarrow> Inr (HasField fs f))"

fun nth_loop :: "nat \<Rightarrow> zbytes \<Rightarrow> bytes \<Rightarrow> zpanic + zbytes option" where
  "nth_loop 0 zv it = Inr (Some zv)"
| "nth_loop (Suc n) zv it = (if Iter_Done it then Inr None
     else case Iter_Next it of Inl p \<Rightarrow> Inl p | Inr (b, it') \<Rightarrow> nth_loop n b it')"

text \<open>The values of fields: \<open>None\<close> is the nil pointer.\<close>

definition DerefByColumn :: "float_ops \<Rightarrow> zvalue option \<Rightarrow> nat \<Rightarrow> value_panic + zvalue option" where
  "DerefByColumn fo v col = (case v of None \<Rightarrow> Inr None
    | Some v \<Rightarrow> res_bind (Value_Iter fo v) (\<lambda>it. res_bind (lift_z (nth_loop (col + 1) None it)) (\<lambda>r. case r of
        None \<Rightarrow> Inr None
      | Some b \<Rightarrow> (case fields_of (v_typ v) of None \<Rightarrow> Inl NilPointer
          | Some fs \<Rightarrow> if col < length fs then Inr (Some (NewValue (snd (fs ! col)) b)) else Inl (PrimPanic IndexPanic)))))"

definition Value_IndexOfField :: "zvalue \<Rightarrow> gostring \<Rightarrow> nat option" where
  "Value_IndexOfField v f = (case fields_of (v_typ v) of None \<Rightarrow> None | Some fs \<Rightarrow> IndexOfField fs f)"

definition Deref :: "float_ops \<Rightarrow> zvalue option \<Rightarrow> gostring \<Rightarrow> value_panic + zvalue option" where
  "Deref fo v f = (case v of None \<Rightarrow> Inr None
    | Some x \<Rightarrow> (case Value_IndexOfField x f of None \<Rightarrow> Inr None | Some i \<Rightarrow> DerefByColumn fo v i))"

fun DerefPath :: "float_ops \<Rightarrow> zvalue option \<Rightarrow> path \<Rightarrow> value_panic + zvalue option" where
  "DerefPath fo v [] = Inr v"
| "DerefPath fo v (f # p) = res_bind (Deref fo v f) (\<lambda>v. DerefPath fo v p)"

definition AsString :: "float_ops \<Rightarrow> zvalue option \<Rightarrow> value_panic + gostring" where
  "AsString fo v = (case v of Some v \<Rightarrow> if TypeUnder (v_typ v) = TypePrim TypeString
      then res_bind (Value_Bytes fo v) (\<lambda>b. Inr (DecodeString b)) else Inr [] | None \<Rightarrow> Inr [])"

definition AsBool :: "zvalue option \<Rightarrow> value_panic + bool" where
  "AsBool v = (case v of Some v \<Rightarrow> if TypeUnder (v_typ v) = TypePrim TypeBool then Value_Bool v else Inr False | None \<Rightarrow> Inr False)"

definition AsInt :: "zvalue option \<Rightarrow> value_panic + u64" where
  "AsInt v = (case v of None \<Rightarrow> Inr 0
    | Some v \<Rightarrow> (case TypeUnder (v_typ v) of
        TypePrim p \<Rightarrow> if p \<in> {TypeUint8, TypeUint16, TypeUint32, TypeUint64} then Value_Uint v
          else if p \<in> {TypeInt8, TypeInt16, TypeInt32, TypeInt64} then Value_Int v else Inr 0
      | _ \<Rightarrow> Inr 0))"

definition AsTime :: "float_ops \<Rightarrow> zvalue option \<Rightarrow> value_panic + u64" where
  "AsTime fo v = (case v of Some v \<Rightarrow> if TypeUnder (v_typ v) = TypePrim TypeTime
      then res_bind (Value_Bytes fo v) (\<lambda>b. Inr (DecodeTime b)) else Inr 0 | None \<Rightarrow> Inr 0)"

definition MissingAsNull :: "float_ops \<Rightarrow> zvalue \<Rightarrow> value_panic + zvalue" where
  "MissingAsNull fo v = res_bind (Value_IsMissing fo (Some v)) (\<lambda>m. Inr (if m then Null else v))"

lemma Untag_member: "Untag i ts (Some b) = Inr (t, z) \<Longrightarrow> t \<in> set ts"
  by (auto simp: Untag_def dest: Union_Type_member split: sum.splits)

lemma under_member: "TypeUnder t = TypeUnion i ts \<Longrightarrow> u \<in> set ts \<Longrightarrow> size u < size t"
  by (metis size_TypeUnder size_union_member order_less_le_trans)

function under_loop :: "ztype \<Rightarrow> zbytes \<Rightarrow> value_panic + ztype \<times> zbytes" where
  "under_loop t b = (case TypeUnder t of
      TypeUnion i ts \<Rightarrow> (case b of None \<Rightarrow> Inr (TypeUnder t, None)
        | Some _ \<Rightarrow> (case Untag i ts b of Inl p \<Rightarrow> Inl (UntagPanic p) | Inr (u, b') \<Rightarrow> under_loop u b'))
    | _ \<Rightarrow> Inr (TypeUnder t, b))"
  by pat_completeness auto
termination by (relation "measure (\<lambda>(t, b). size t)") (auto dest!: Untag_member intro: under_member)

declare under_loop.simps [simp del]

definition Under :: "float_ops \<Rightarrow> zvalue \<Rightarrow> value_panic + zvalue" where
  "Under fo v = (case v_typ v of
      TypeUnion _ _ \<Rightarrow> res_bind (Value_Bytes fo v) (\<lambda>b. res_bind (under_loop (v_typ v) b) (\<lambda>(t, b). Inr (NewValue t b)))
    | TypeNamed _ _ _ \<Rightarrow> res_bind (Value_Bytes fo v) (\<lambda>b. res_bind (under_loop (v_typ v) b) (\<lambda>(t, b). Inr (NewValue t b)))
    | _ \<Rightarrow> Inr v)"

subsection \<open>Validation\<close>

datatype set_error = DuplicateElement | NotSorted
datatype validate_error = SetError set_error | EnumOutOfRange

lemma NextTagAndBody_progress:
  assumes "Iter_NextTagAndBody it = Inr (e, it')" and "e \<noteq> []"
  shows "length it' < length it"
  using assms by (auto simp: Iter_NextTagAndBody_def res_bind_Inr_iff split: prod.splits if_splits)

lemma bytes_Compare_Nil: "bytes_Compare q [] = 0 \<or> bytes_Compare q [] = 1"
  by (cases q) simp_all

text \<open>
  \<open>checkSet\<close>; \<open>NextTagAndBody\<close> may return an empty slice without moving on, but then the next
  element is no greater.
\<close>

function check_set_loop :: "bytes option \<Rightarrow> bytes \<Rightarrow> zpanic + set_error option" where
  "check_set_loop prev it = (if Iter_Done it then Inr None
     else case Iter_NextTagAndBody it of Inl p \<Rightarrow> Inl p
       | Inr (e, it') \<Rightarrow> (case prev of
           None \<Rightarrow> check_set_loop (Some e) it'
         | Some q \<Rightarrow> if bytes_Compare q e = 0 then Inr (Some DuplicateElement)
             else if bytes_Compare q e = 1 then Inr (Some NotSorted)
             else check_set_loop (Some e) it'))"
  by pat_completeness auto
termination
proof (relation "inv_image (less_than <*lex*> less_than) (\<lambda>(prev, it). (length it, if prev = None then 1 else 0 :: nat))", goal_cases)
  case (2 prev it x e it')
  then show ?case using NextTagAndBody_progress [of it e it'] 
    by (cases "e = []") (auto simp: Iter_NextTagAndBody_def res_bind_Inr_iff split: prod.splits if_splits)
next
  case (3 prev it x e it' q)
  then have "e \<noteq> []" using bytes_Compare_Nil by blast
  then show ?case using NextTagAndBody_progress 3 by auto
qed (simp add: wf_lex_prod)

declare check_set_loop.simps [simp del]

definition checkSet :: "zbytes \<Rightarrow> zpanic + set_error option" where
  "checkSet body = (case body of None \<Rightarrow> Inr None | Some b \<Rightarrow> check_set_loop None b)"

definition checkEnum :: "gostring list \<Rightarrow> zbytes \<Rightarrow> validate_error option" where
  "checkEnum syms body = (case body of None \<Rightarrow> None
     | Some b \<Rightarrow> if sint (DecodeUint body) \<ge> int (length syms) then Some EnumOutOfRange else None)"

definition validate_visitor :: "(unit, validate_error) visitor" where
  "validate_visitor t body s = (s, case t of
      TypeSet _ _ \<Rightarrow> (case checkSet body of Inl p \<Rightarrow> VPanic p | Inr (Some e) \<Rightarrow> Stop (SetError e) | Inr None \<Rightarrow> SkipContainer)
    | TypeEnum _ syms \<Rightarrow> (case checkEnum syms body of Some e \<Rightarrow> Stop e | None \<Rightarrow> SkipContainer)
    | _ \<Rightarrow> Continue)"

text \<open>\<open>Validate\<close> turns a panic into an error; \<open>None\<close> says that there is none.\<close>

datatype validation = Invalid "validate_error walk_error" | Panicked value_panic

definition Validate :: "float_ops \<Rightarrow> zvalue \<Rightarrow> validation option" where
  "Validate fo v = (case Value_Bytes fo v of
      Inl p \<Rightarrow> Some (Panicked p)
    | Inr b \<Rightarrow> (case Walk validate_visitor (v_typ v) b () of
        (_, Ok) \<Rightarrow> None | (_, Fail e) \<Rightarrow> Some (Invalid e) | (_, Panic p) \<Rightarrow> Some (Panicked (BytesPanic p))))"

subsection \<open>Normal forms of sets and maps\<close>

text \<open>
  The loops that split a body into its tagged elements or entries. \<open>NextTagAndBody\<close> may return without
  moving on, so the loops carry fuel; \<open>None\<close> says that it ran out.
\<close>

fun tag_elements :: "nat \<Rightarrow> bytes \<Rightarrow> (zpanic + bytes list) option" where
  "tag_elements 0 it = None"
| "tag_elements (Suc n) it = (if Iter_Done it then Some (Inr [])
     else case Iter_NextTagAndBody it of Inl p \<Rightarrow> Some (Inl p)
       | Inr (e, it') \<Rightarrow> map_option (\<lambda>r. res_bind r (\<lambda>es. Inr (e # es))) (tag_elements n it'))"

fun tag_entries :: "nat \<Rightarrow> bytes \<Rightarrow> (zpanic + (bytes \<times> bytes) list) option" where
  "tag_entries 0 it = None"
| "tag_entries (Suc n) it = (if Iter_Done it then Some (Inr [])
     else case Iter_NextTagAndBody it of Inl p \<Rightarrow> Some (Inl p)
       | Inr (k, it') \<Rightarrow> (case Iter_NextTagAndBody it' of Inl p \<Rightarrow> Some (Inl p)
         | Inr (v, it'') \<Rightarrow> map_option (\<lambda>r. res_bind r (\<lambda>es. Inr ((k, v) # es))) (tag_entries n it'')))"

fun skip_loop :: "('a \<Rightarrow> bytes) \<Rightarrow> 'a \<Rightarrow> 'a list \<Rightarrow> 'a list" where
  "skip_loop key prev [] = []"
| "skip_loop key prev (x # xs) = (if key x = key prev then skip_loop key x xs else x # skip_loop key x xs)"

fun skip_duplicates :: "('a \<Rightarrow> bytes) \<Rightarrow> 'a list \<Rightarrow> 'a list" where
  "skip_duplicates key [] = []"
| "skip_duplicates key (x # xs) = x # skip_loop key x xs"

definition NormalizeSet :: "nat \<Rightarrow> bytes \<Rightarrow> (zpanic + bytes) option" where
  "NormalizeSet n zv = map_option (\<lambda>r. res_bind r (\<lambda>es.
     Inr (if length es < 2 then zv else concat (skip_duplicates id (sort_stable (\<lambda>a b. bytes_Compare a b = -1) es))))) (tag_elements n zv)"

text \<open>
  \<open>NormalizeMap\<close>; \<open>sort.Slice\<close> is not stable, and which of two entries with one key comes first is its
  own choice: the sorting function is an argument.
\<close>

definition NormalizeMap :: "((bytes \<times> bytes) list \<Rightarrow> (bytes \<times> bytes) list) \<Rightarrow> nat \<Rightarrow> bytes \<Rightarrow> (zpanic + bytes) option" where
  "NormalizeMap srt n zv = map_option (\<lambda>r. res_bind r (\<lambda>es.
     Inr (if length es < 2 then zv else concat (map (\<lambda>(k, v). k @ v) (skip_duplicates fst (srt es)))))) (tag_entries n zv)"

end
