(* ===== verification/Values_Inv.thy ===== *)
theory Values_Inv
  imports Values
begin

text \<open>
  Properties of values: what validation accepts, normal forms of sets and maps, native and
  encoded values behave alike, and the fields of a record are found.
\<close>

subsection \<open>Values of a type\<close>

text \<open>The body of a nested value, as it stands behind its tag.\<close>

fun tree_body :: "ztree \<Rightarrow> zbytes" where
  "tree_body (ZLeaf b) = b"
| "tree_body (ZNode vs) = Some (concat (map tree_bytes vs))"

lemma tree_bytes_body: "tree_bytes v = Append [] (tree_body v)"
  by (cases v) simp_all

lemma Iter_Next_tree:
  "length (tree_bytes v) < 2 ^ 63 \<Longrightarrow> Iter_Next (tree_bytes v @ rest) = Inr (tree_body v, rest)"
  using Iter_Next_Append [of "tree_body v" rest] by (simp add: tree_bytes_body fits_def)

lemma Iter_NextTagAndBody_tree:
  "length (tree_bytes v) < 2 ^ 63 \<Longrightarrow> Iter_NextTagAndBody (tree_bytes v @ rest) = Inr (tree_bytes v, rest)"
  using Iter_NextTagAndBody_Append [of "tree_body v" rest] by (simp add: tree_bytes_body fits_def)

lemma tree_bytes_nonempty [simp]: "tree_bytes v \<noteq> []"
  by (simp add: tree_bytes_body)

lemma length_parts: "v \<in> set vs \<Longrightarrow> length (tree_bytes (ZNode vs)) < 2 ^ 63 \<Longrightarrow> length (tree_bytes v) < 2 ^ 63"
  using length_concat_ge [of "tree_bytes v" "map tree_bytes vs"] by (simp add: Append_Nil)

abbreviation increasing :: "bytes list \<Rightarrow> bool" where
  "increasing \<equiv> sorted_wrt (\<lambda>a b. bytes_Compare a b = -1)"

text \<open>
  Which nested values are values of a type: null is a value of every type, a record has a value for each
  field, the elements of a set increase, the tag of a union selects one of its types and the selector of an
  enum one of its symbols.
\<close>

inductive has_type :: "ztype \<Rightarrow> ztree \<Rightarrow> bool" where
  null: "has_type t (ZLeaf None)"
| prim: "has_type (TypePrim p) (ZLeaf (Some b))"
| named: "has_type t v \<Longrightarrow> has_type (TypeNamed i n t) v"
| err: "has_type t v \<Longrightarrow> has_type (TypeError i t) v"
| rec: "list_all2 (\<lambda>f v. has_type (snd f) v) fs vs \<Longrightarrow> has_type (TypeRecord i fs) (ZNode vs)"
| arr: "\<forall>v \<in> set vs. has_type t v \<Longrightarrow> has_type (TypeArray i t) (ZNode vs)"
| inset: "\<forall>v \<in> set vs. has_type t v \<Longrightarrow> increasing (map tree_bytes vs) \<Longrightarrow> has_type (TypeSet i t) (ZNode vs)"
| entries: "\<forall>e \<in> set es. has_type k (fst e) \<and> has_type u (snd e) \<Longrightarrow>
    has_type (TypeMap i k u) (ZNode (concat (map (\<lambda>e. [fst e, snd e]) es)))"
| tagged: "n < length ts \<Longrightarrow> length ts < 2 ^ 63 \<Longrightarrow> EncodeInt (of_nat n) = Inr tag \<Longrightarrow> has_type (ts ! n) v \<Longrightarrow>
    has_type (TypeUnion i ts) (ZNode [ZLeaf (Some tag), v])"
| selector: "n < length syms \<Longrightarrow> length syms < 2 ^ 63 \<Longrightarrow> EncodeUint (of_nat n) = Inr b \<Longrightarrow>
    has_type (TypeEnum i syms) (ZLeaf (Some b))"

inductive_cases has_type_record: "has_type (TypeRecord i fs) (ZNode vs)"
inductive_cases has_type_set: "has_type (TypeSet i t) v"
inductive_cases has_type_enum: "has_type (TypeEnum i syms) v"

subsection \<open>Walking typed values\<close>

fun pairs :: "'a list \<Rightarrow> ('a \<times> 'a) list option" where
  "pairs [] = Some []"
| "pairs [x] = None"
| "pairs (x # y # zs) = map_option (\<lambda>ps. (x, y) # ps) (pairs zs)"

lemma pairs_set: "pairs zs = Some ps \<Longrightarrow> (x, y) \<in> set ps \<Longrightarrow> x \<in> set zs \<and> y \<in> set zs"
  by (induction zs arbitrary: ps rule: pairs.induct) auto

lemma pairs_entries: "pairs (concat (map (\<lambda>e. [fst e, snd e]) es)) = Some es"
  by (induction es) simp_all

text \<open>
  What \<open>Validate\<close> accepts, said of nested values. Null is accepted for every type. A record needs a value
  for each field, each accepted for the type of its field; values after the last field do not matter. The
  elements of an array are accepted for the element type. The elements of a set increase; what they are
  does not matter. A map has keys and values in turn, accepted for the types of keys and values. A union has two
  items, the first the number of one of its types, the second accepted for that type. An enum has a
  selector that, as a signed number, is less than the number of its symbols.
\<close>

function (sequential) accepts :: "ztype \<Rightarrow> ztree \<Rightarrow> bool" where
  "accepts (TypeNamed i n t) v \<longleftrightarrow> accepts t v"
| "accepts (TypeError i t) v \<longleftrightarrow> accepts t v"
| "accepts t (ZLeaf None) \<longleftrightarrow> True"
| "accepts (TypeRecord i fs) (ZNode vs) \<longleftrightarrow> length fs \<le> length vs \<and> (\<forall>x\<in>set (zip fs vs). accepts (snd (fst x)) (snd x))"
| "accepts (TypeArray i t) (ZNode vs) \<longleftrightarrow> (\<forall>v\<in>set vs. accepts t v)"
| "accepts (TypeSet i t) (ZNode vs) \<longleftrightarrow> increasing (map tree_bytes vs)"
| "accepts (TypeMap i k u) (ZNode vs) \<longleftrightarrow> (case pairs vs of None \<Rightarrow> False
     | Some ps \<Rightarrow> \<forall>x\<in>set ps. accepts k (fst x) \<and> accepts u (snd x))"
| "accepts (TypeUnion i ts) (ZNode [tag, v]) \<longleftrightarrow> (case Union_Type ts (sint (DecodeInt (tree_body tag))) of
     Inl e \<Rightarrow> False | Inr t \<Rightarrow> accepts t v)"
| "accepts (TypeEnum i syms) v \<longleftrightarrow> sint (DecodeUint (tree_body v)) < int (length syms)"
| "accepts (TypePrim p) v \<longleftrightarrow> True"
| "accepts t v \<longleftrightarrow> False"
  by pat_completeness auto
termination
  by (relation "measure (\<lambda>(t, v). size t)") (auto dest!: set_zip_leftD Union_Type_member size_union_member size_record_field)

text \<open>
  The nested values whose bytes are what the nesting says: where the type has a container, or the first
  items of a union select one, there is a node or null, not a leaf of bytes.
\<close>

function (sequential) shaped :: "ztype \<Rightarrow> ztree \<Rightarrow> bool" where
  "shaped (TypeNamed i n t) v \<longleftrightarrow> shaped t v"
| "shaped (TypeError i t) v \<longleftrightarrow> shaped t v"
| "shaped t (ZLeaf None) \<longleftrightarrow> True"
| "shaped (TypePrim p) v \<longleftrightarrow> True"
| "shaped (TypeEnum i syms) v \<longleftrightarrow> True"
| "shaped (TypeRecord i fs) (ZNode vs) \<longleftrightarrow> (\<forall>x\<in>set (zip fs vs). shaped (snd (fst x)) (snd x))"
| "shaped (TypeArray i t) (ZNode vs) \<longleftrightarrow> (\<forall>v\<in>set vs. shaped t v)"
| "shaped (TypeSet i t) (ZNode vs) \<longleftrightarrow> True"
| "shaped (TypeMap i k u) (ZNode vs) \<longleftrightarrow> (case pairs vs of None \<Rightarrow> True
     | Some ps \<Rightarrow> \<forall>x\<in>set ps. shaped k (fst x) \<and> shaped u (snd x))"
| "shaped (TypeUnion i ts) (ZNode [tag, v]) \<longleftrightarrow> (case Union_Type ts (sint (DecodeInt (tree_body tag))) of
     Inl e \<Rightarrow> True | Inr t \<Rightarrow> shaped t v)"
| "shaped (TypeUnion i ts) (ZNode vs) \<longleftrightarrow> True"
| "shaped t v \<longleftrightarrow> False"
  by pat_completeness auto
termination
  by (relation "measure (\<lambda>(t, v). size t)") (auto dest!: set_zip_leftD Union_Type_member size_union_member size_record_field)

lemma accepts_null [simp]: "accepts t (ZLeaf None)"
  by (induction t) simp_all

lemma shaped_null [simp]: "shaped t (ZLeaf None)"
  by (induction t) simp_all

lemma TypeUnder_accepts [simp]: "accepts (TypeUnder t) v = accepts t v" "shaped (TypeUnder t) v = shaped t v"
  by (induction t) simp_all

text \<open>The loops of \<open>Walk\<close> over the items of a node, for a visitor without state.\<close>

lemma and_then_Ok: "snd (and_then x f) = Ok \<longleftrightarrow> snd x = Ok \<and> snd (f ()) = Ok"
proof (cases x)
  case (Pair u r)
  then show ?thesis by (cases r) simp_all
qed

lemma Iter_Next_Nil: "\<exists>p. Iter_Next [] = Inl p"
  by (cases "Iter_Next []") (auto dest: Iter_Next_shorter)

definition small :: "ztree list \<Rightarrow> bool" where
  "small vs \<longleftrightarrow> (\<forall>v\<in>set vs. length (tree_bytes v) < 2 ^ 63)"

lemma small_parts: "length (tree_bytes (ZNode vs)) < 2 ^ 63 \<Longrightarrow> small vs"
  using length_parts by (simp add: small_def)

lemma iter_each_Ok: "small vs \<Longrightarrow> snd (iter_each f (concat (map tree_bytes vs)) ()) = Ok \<longleftrightarrow> (\<forall>v\<in>set vs. snd (f (tree_body v) ()) = Ok)"
proof (induction vs)
  case (Cons v vs)
  then show ?case
    by (subst iter_each.simps) (simp add: small_def Iter_Done_def Iter_Next_tree and_then_Ok)
qed (simp add: iter_each.simps Iter_Done_def)

lemma iter_entries_Ok: "small vs \<Longrightarrow> snd (iter_entries f g (concat (map tree_bytes vs)) ()) = Ok \<longleftrightarrow> (case pairs vs of None \<Rightarrow> False
    | Some ps \<Rightarrow> \<forall>x\<in>set ps. snd (f (tree_body (fst x)) ()) = Ok \<and> snd (g (tree_body (snd x)) ()) = Ok)"
proof (induction vs rule: pairs.induct)
  case (2 x)
  then show ?case using Iter_Next_Nil Iter_Next_tree [of x "[]"]
    by (subst iter_entries.simps) (auto simp: small_def Iter_Done_def and_then_Ok)
next
  case (3 x y zs)
  then show ?case
    by (subst iter_entries.simps) (auto simp: small_def Iter_Done_def Iter_Next_tree and_then_Ok split: option.splits)
qed (simp add: iter_entries.simps Iter_Done_def)

lemma iter_fields_Ok: "small vs \<Longrightarrow> snd (iter_fields fs (concat (map tree_bytes vs)) ()) = Ok \<longleftrightarrow>
    length fs \<le> length vs \<and> (\<forall>x\<in>set (zip fs vs). snd (fst x (tree_body (snd x)) ()) = Ok)"
proof (induction fs arbitrary: vs)
  case (Cons f fs)
  then show ?case
    by (cases vs) (auto simp: small_def Iter_Done_def Iter_Next_tree and_then_Ok)
qed simp

text \<open>The part of \<open>Walk\<close> behind the call of the visitor.\<close>

fun walk_parts :: "('s, 'e) visitor \<Rightarrow> ztype \<Rightarrow> zbytes \<Rightarrow> 's \<Rightarrow> 's \<times> 'e wres" where
  "walk_parts visit (TypeNamed i n u) body s = Walk visit u body s"
| "walk_parts visit (TypeError i u) body s = Walk visit u body s"
| "walk_parts visit (TypeRecord i fs) (Some it) s = iter_fields (map (\<lambda>f x s. Walk visit (snd f) x s) fs) it s"
| "walk_parts visit (TypeArray i u) (Some it) s = iter_each (Walk visit u) it s"
| "walk_parts visit (TypeSet i u) (Some it) s = iter_each (Walk visit (TypeUnder u)) it s"
| "walk_parts visit (TypeUnion i ts) (Some b) s = (if length b = 0 then (s, Fail ErrEmptyUnion)
     else (case Iter_Next b of Inl p \<Rightarrow> (s, Panic p)
       | Inr (tag, it) \<Rightarrow> (case Union_Type ts (sint (DecodeInt tag)) of
           Inl e \<Rightarrow> (s, Fail (ErrTag e))
         | Inr inner \<Rightarrow> (case Iter_Next it of Inl p \<Rightarrow> (s, Panic p)
             | Inr (x, it') \<Rightarrow> if \<not> Iter_Done it' then (s, Fail ErrLongUnion) else Walk visit inner x s))))"
| "walk_parts visit (TypeMap i k v) (Some it) s = iter_entries (Walk visit (TypeUnder k)) (Walk visit (TypeUnder v)) it s"
| "walk_parts visit t body s = (s, Ok)"

lemma Walk_eq: "Walk visit t body s = (case visit t body s of
      (s, SkipContainer) \<Rightarrow> (s, Ok)
    | (s, Stop e) \<Rightarrow> (s, Fail (ErrVisit e))
    | (s, VPanic p) \<Rightarrow> (s, Panic p)
    | (s, Continue) \<Rightarrow> walk_parts visit t body s)"
  by (subst Walk.simps) (cases t; cases body; simp split: prod.split vresult.split)

lemma tag_of_nat:
  assumes "n < 2 ^ 63" and "EncodeInt (of_nat n) = Inr tag"
  shows "sint (DecodeInt (Some tag)) = int n"
  using assms sint_small [of n] DecodeInt_counted [of "of_nat n"] by (simp add: EncodeInt_eq)

subsection \<open>Sets\<close>

lemma check_set_Ok:
  assumes "small vs"
  shows "check_set_loop prev (concat (map tree_bytes vs)) = Inr None \<longleftrightarrow>
    increasing ((case prev of None \<Rightarrow> [] | Some q \<Rightarrow> [q]) @ map tree_bytes vs)"
  using assms
proof (induction vs arbitrary: prev)
  case (Cons v vs)
  have IH: "check_set_loop (Some (tree_bytes v)) (concat (map tree_bytes vs)) = Inr None \<longleftrightarrow> increasing (tree_bytes v # map tree_bytes vs)"
    using Cons by (simp add: small_def)
  have tr: "\<forall>b\<in>set bs. bytes_Compare q b = -1" if "bytes_Compare q a = -1" "\<forall>b\<in>set bs. bytes_Compare a b = -1" for q a bs
    using that bytes_Compare_trans by blast
  show ?case
  proof (cases prev)
    case None
    then show ?thesis using Cons.prems IH
      by (subst check_set_loop.simps) (simp add: small_def Iter_Done_def Iter_NextTagAndBody_tree)
  next
    case (Some q)
    have "check_set_loop prev (concat (map tree_bytes (v # vs))) = Inr None \<longleftrightarrow>
        bytes_Compare q (tree_bytes v) = -1 \<and> increasing (tree_bytes v # map tree_bytes vs)"
      using Cons.prems IH Some bytes_Compare_range [of q "tree_bytes v"]
      by (subst check_set_loop.simps) (auto simp: small_def Iter_Done_def Iter_NextTagAndBody_tree)
    then show ?thesis using Some tr [of q "tree_bytes v" "map tree_bytes vs"] by auto
  qed
qed (simp add: check_set_loop.simps Iter_Done_def split: option.split)

lemma checkSet_Ok: "small vs \<Longrightarrow> checkSet (Some (concat (map tree_bytes vs))) = Inr None \<longleftrightarrow> increasing (map tree_bytes vs)"
  using check_set_Ok [of vs None] by (simp add: checkSet_def)

subsection \<open>Validation\<close>

abbreviation valid :: "ztype \<Rightarrow> zbytes \<Rightarrow> bool" where
  "valid t b \<equiv> snd (Walk validate_visitor t b ()) = Ok"

lemma valid_named: "valid (TypeNamed i n t) b \<longleftrightarrow> valid t b" "valid (TypeError i t) b \<longleftrightarrow> valid t b"
  by (subst Walk_eq, simp add: validate_visitor_def)+

lemma valid_under [simp]: "valid (TypeUnder t) b \<longleftrightarrow> valid t b"
  by (induction t) (simp_all add: valid_named)

lemma valid_null: "valid t None"
proof (induction t)
  case (TypeNamed i n t)
  then show ?case by (simp add: valid_named)
next
  case (TypeError i t)
  then show ?case by (simp add: valid_named)
qed (subst Walk_eq, simp add: validate_visitor_def checkSet_def checkEnum_def)+

lemma valid_record: "small vs \<Longrightarrow> valid (TypeRecord i fs) (tree_body (ZNode vs)) \<longleftrightarrow>
    length fs \<le> length vs \<and> (\<forall>x\<in>set (zip fs vs). valid (snd (fst x)) (tree_body (snd x)))"
  by (subst Walk_eq) (auto simp: validate_visitor_def iter_fields_Ok zip_map1)

lemma valid_array: "small vs \<Longrightarrow> valid (TypeArray i t) (tree_body (ZNode vs)) \<longleftrightarrow> (\<forall>v\<in>set vs. valid t (tree_body v))"
  by (subst Walk_eq) (simp add: validate_visitor_def iter_each_Ok)

lemma valid_set: "small vs \<Longrightarrow> valid (TypeSet i t) (tree_body (ZNode vs)) \<longleftrightarrow> increasing (map tree_bytes vs)"
  using checkSet_Ok [of vs] by (subst Walk_eq) (auto simp: validate_visitor_def split: sum.split option.split)

lemma valid_map: "small vs \<Longrightarrow> valid (TypeMap i k u) (tree_body (ZNode vs)) \<longleftrightarrow> (case pairs vs of None \<Rightarrow> False
    | Some ps \<Rightarrow> \<forall>x\<in>set ps. valid k (tree_body (fst x)) \<and> valid u (tree_body (snd x)))"
  by (subst Walk_eq) (simp add: validate_visitor_def iter_entries_Ok split: option.split)

lemma valid_enum: "valid (TypeEnum i syms) (Some b) \<longleftrightarrow> sint (DecodeUint (Some b)) < int (length syms)"
  by (subst Walk_eq) (simp add: validate_visitor_def checkEnum_def)

lemma valid_union:
  assumes "small vs"
  shows "valid (TypeUnion i ts) (tree_body (ZNode vs)) \<longleftrightarrow> (case vs of
      [tag, v] \<Rightarrow> (case Union_Type ts (sint (DecodeInt (tree_body tag))) of Inl e \<Rightarrow> False | Inr t \<Rightarrow> valid t (tree_body v))
    | _ \<Rightarrow> False)"
proof (cases vs)
  case Nil
  then show ?thesis by (subst Walk_eq) (simp add: validate_visitor_def)
next
  case (Cons tag ws)
  have l: "length (tree_bytes tag) < 2 ^ 63" "small ws" using assms Cons by (simp_all add: small_def)
  have n: "Iter_Next (concat (map tree_bytes vs)) = Inr (tree_body tag, concat (map tree_bytes ws))"
    using Iter_Next_tree [OF l(1)] Cons by simp
  show ?thesis
  proof (cases ws)
    case Nil
    then show ?thesis using n Cons Iter_Next_Nil
      by (subst Walk_eq) (auto simp: validate_visitor_def split: sum.split)
  next
    case (Cons v us)
    have n2: "Iter_Next (concat (map tree_bytes ws)) = Inr (tree_body v, concat (map tree_bytes us))"
      using Iter_Next_tree [of v] l(2) Cons by (simp add: small_def)
    have d: "Iter_Done (concat (map tree_bytes us)) \<longleftrightarrow> us = []" by (cases us) (simp_all add: Iter_Done_def)
    show ?thesis using n n2 d Cons \<open>vs = tag # ws\<close>
      by (subst Walk_eq) (auto simp: validate_visitor_def split: sum.split list.split)
  qed
qed

lemmas valid_nodes = valid_record valid_array valid_set valid_map valid_union

lemma Walk_accepts:
  "shaped t v \<Longrightarrow> length (tree_bytes v) < 2 ^ 63 \<Longrightarrow> valid t (tree_body v) \<longleftrightarrow> accepts t v"
proof (induction "size t" arbitrary: t v rule: less_induct)
  case less
  have IH: "valid u (tree_body w) \<longleftrightarrow> accepts u w" if "size u < size t" "shaped u w" "length (tree_bytes w) < 2 ^ 63" for u w
    using less(1) that by blast
  consider "v = ZLeaf None" | b where "v = ZLeaf (Some b)" | vs where "v = ZNode vs" "small vs"
    using small_parts less.prems(2) by (cases v) auto
  then show ?case
  proof cases
    case 1
    then show ?thesis using valid_null by simp
  next
    case (2 b)
    show ?thesis
    proof (cases t)
      case (TypePrim p)
      then show ?thesis using 2 by (subst Walk_eq) (simp add: validate_visitor_def)
    next
      case (TypeNamed i n u)
      then show ?thesis using less.prems IH [of u v] by (simp add: valid_named)
    next
      case (TypeError i u)
      then show ?thesis using less.prems IH [of u v] by (simp add: valid_named)
    qed (use less.prems 2 valid_enum in auto)
  next
    case (3 vs)
    have s: "length (tree_bytes w) < 2 ^ 63" if "w \<in> set vs" for w using 3(2) that by (simp add: small_def)
    show ?thesis
    proof (cases t)
      case (TypeRecord i fs)
      have "valid (snd (fst x)) (tree_body (snd x)) \<longleftrightarrow> accepts (snd (fst x)) (snd x)" if "x \<in> set (zip fs vs)" for x
      proof -
        have "fst x \<in> set fs" "snd x \<in> set vs" using that by (metis prod.collapse set_zip_leftD set_zip_rightD)+
        then show ?thesis
          using IH [of "snd (fst x)" "snd x"] that size_record_field [of "fst (fst x)" "snd (fst x)" fs i] s less.prems(1) 3(1) TypeRecord by simp
      qed
      then show ?thesis using 3 TypeRecord valid_record by auto
    next
      case (TypeMap i k u)
      have "valid k (tree_body (fst x)) \<longleftrightarrow> accepts k (fst x)" "valid u (tree_body (snd x)) \<longleftrightarrow> accepts u (snd x)"
        if "pairs vs = Some ps" "x \<in> set ps" for ps x
        using IH [of k "fst x"] IH [of u "snd x"] that pairs_set [OF that(1), of "fst x" "snd x"] s less.prems(1) 3(1) TypeMap by auto
      then show ?thesis using 3 TypeMap valid_map by (auto split: option.split)
    next
      case (TypeUnion i ts)
      show ?thesis
      proof (cases "\<exists>tag w u. vs = [tag, w] \<and> Union_Type ts (sint (DecodeInt (tree_body tag))) = Inr u")
        case True
        then obtain tag w u where u: "vs = [tag, w]" "Union_Type ts (sint (DecodeInt (tree_body tag))) = Inr u" by blast
        have "valid u (tree_body w) \<longleftrightarrow> accepts u w"
          using IH [of u w] size_union_member [OF Union_Type_member [OF u(2)]] s u less.prems(1) 3(1) TypeUnion by simp
        then show ?thesis using valid_union [OF 3(2), of i ts] 3(1) TypeUnion u by simp
      next
        case False
        then show ?thesis using valid_union [OF 3(2), of i ts] 3(1) TypeUnion
          by (cases "(TypeUnion i ts, v)" rule: accepts.cases) (auto split: list.split sum.split)
      qed
    next
      case (TypeEnum i syms)
      then show ?thesis using 3 valid_enum by simp
    next
      case (TypePrim p)
      then show ?thesis using 3 by (subst Walk_eq) (simp add: validate_visitor_def)
    qed (use less.prems IH 3 s valid_nodes in \<open>auto simp: valid_named simp del: tree_body.simps\<close>)
  qed
qed

lemma has_type_accepts: "has_type t v \<Longrightarrow> shaped t v \<and> accepts t v"
proof (induction rule: has_type.induct)
  case (rec fs vs i)
  have "shaped (snd (fst x)) (snd x) \<and> accepts (snd (fst x)) (snd x)" if "x \<in> set (zip fs vs)" for x
    using rec that by (auto simp: list_all2_iff)
  then show ?case using rec by (auto simp: list_all2_iff)
next
  case (entries es k u i)
  then show ?case by (simp add: pairs_entries)
next
  case (tagged n ts tag v i)
  then show ?case using tag_of_nat [of n tag] by (simp add: Union_Type_def)
next
  case (selector n syms b i)
  have "sint (DecodeUint (Some b)) = int n"
    using selector sint_small [of n] by (auto simp: EncodeUint_eq DecodeUint_def DecodeCountedUvarint_le_word le_word_counted_bytes)
  then show ?case using selector by simp
qed simp_all

text \<open>
  C11: What \<open>Validate\<close> accepts, exactly. For a nested value whose containers stand where the type has
  containers, \<open>Validate\<close> reports no error if and only if \<open>accepts\<close> holds: a value for each field of a record, keys and
  values of a map in pairs, two items in a union of which the first selects one of its types, the parts of
  records, arrays, maps and unions accepted in turn, the elements of a set increasing and the selector of an
  enum, as a signed number, below the number of symbols. Every value of the type is accepted; so are some
  that are not of the type, with values after the last field of a record, with elements of a set that do not have the
  element type, or with an enum selector of \<open>2 ^ 63\<close> or more. \<close>

theorem validate_exact:
  assumes "shaped t v" and "fits (tree_bytes v)"
  shows "(Validate fo (NewValue t (tree_body v)) = None \<longleftrightarrow> accepts t v) \<and> (has_type t v \<longrightarrow> accepts t v)"
proof -
  have "Validate fo (NewValue t (tree_body v)) = None \<longleftrightarrow> valid t (tree_body v)"
    by (auto simp: Validate_def NewValue_def Value_Bytes_def split: prod.split wres.split)
  then show ?thesis using Walk_accepts [OF assms(1) assms(2) [unfolded fits_def]] has_type_accepts by blast
qed

definition demo_type :: ztype where
  "demo_type = TypeRecord 33 [(str ''a'', TypePrim TypeInt64), (str ''b'', TypeUnion 32 [TypePrim TypeInt64, TypePrim TypeString])]"

definition demo_tree :: ztree where
  "demo_tree = ZNode [ZLeaf None, ZNode [ZLeaf (Some [2]), ZLeaf (Some [104, 105])]]"

definition demo_fo :: float_ops where
  "demo_fo = \<lparr>float64_of_32 = ucast, float32_of_64 = ucast, Fromfloat32 = ucast, Float32 = ucast\<rparr>"

lemma demo_typed: "has_type demo_type demo_tree"
proof -
  have "EncodeInt (of_nat 1) = Inr [2]" by code_simp
  then have "has_type (TypeUnion 32 [TypePrim TypeInt64, TypePrim TypeString]) (ZNode [ZLeaf (Some [2]), ZLeaf (Some [104, 105])])"
    by (intro has_type.tagged [of 1]) (simp_all add: has_type.prim)
  then show ?thesis
    unfolding demo_type_def demo_tree_def by (intro has_type.rec) (simp add: has_type.null)
qed

definition demo_bad :: ztree where
  "demo_bad = ZNode [ZLeaf None, ZNode [ZLeaf (Some [4]), ZLeaf (Some [104, 105])]]"

theorem validate_exact_witness:
  "shaped demo_type demo_tree \<and> shaped demo_type demo_bad \<and> Validate demo_fo (NewValue demo_type (tree_body demo_tree)) = None \<and>
   Validate demo_fo (NewValue demo_type (tree_body demo_bad)) \<noteq> None \<and>
   Validate demo_fo (NewValue (TypeSet 34 demo_type) (tree_body (ZNode [demo_tree, demo_tree]))) \<noteq> None"
proof -
  have u: "sint (DecodeInt (Some [4])) = 2" by code_simp
  have l: "fits (tree_bytes demo_tree)" "fits (tree_bytes demo_bad)" "fits (tree_bytes (ZNode [demo_tree, demo_tree]))"
  proof -
    have "length (tree_bytes demo_tree) < 100" "length (tree_bytes demo_bad) < 100" "length (tree_bytes (ZNode [demo_tree, demo_tree])) < 100"
      by code_simp+
    then show "fits (tree_bytes demo_tree)" "fits (tree_bytes demo_bad)" "fits (tree_bytes (ZNode [demo_tree, demo_tree]))"
      unfolding fits_def by (simp_all del: tree_bytes.simps)
  qed
  have b: "shaped demo_type demo_bad" "\<not> accepts demo_type demo_bad"
    by (simp_all add: demo_type_def demo_bad_def Union_Type_def u)
  have s: "shaped (TypeSet 34 demo_type) (ZNode [demo_tree, demo_tree])" "\<not> accepts (TypeSet 34 demo_type) (ZNode [demo_tree, demo_tree])" by simp_all
  show ?thesis
    using validate_exact [OF _ l(1), of demo_type demo_fo] validate_exact [OF b(1) l(2), of demo_fo] validate_exact [OF s(1) l(3), of demo_fo]
      has_type_accepts [OF demo_typed] b s(2) by blast
qed

text \<open>The three kinds of values that are accepted without being values of the type.\<close>

lemma accepts_more:
  "accepts (TypeRecord 30 []) (ZNode [v])"
  "accepts (TypeSet 31 t) (ZNode [v])"
  "2 ^ 63 \<le> n \<Longrightarrow> EncodeUint n = Inr b \<Longrightarrow> accepts (TypeEnum 33 syms) (ZLeaf (Some b))"
proof -
  assume n: "2 ^ 63 \<le> n" "EncodeUint n = Inr b"
  have "DecodeUint (Some b) = n"
    using n(2) by (auto simp: EncodeUint_eq DecodeUint_def DecodeCountedUvarint_le_word le_word_counted_bytes)
  moreover have "sint n < 0"
  proof -
    have "2 ^ 63 \<le> uint n" using n(1) by (simp add: word_le_def)
    then have "uint n div 2 ^ 63 = 1" using uint_lt2p [of n] by simp
    then show ?thesis by (simp add: sint_uint bit_iff_odd)
  qed
  ultimately show "accepts (TypeEnum 33 syms) (ZLeaf (Some b))" by simp
qed simp_all

subsection \<open>Normal forms\<close>

definition tags :: "zbytes list \<Rightarrow> bytes list" where
  "tags vs = map (Append []) vs"

definition entry :: "zbytes \<times> zbytes \<Rightarrow> bytes" where
  "entry e = Append [] (fst e) @ Append [] (snd e)"

lemma tag_elements_tags: "\<forall>v \<in> set vs. fits (Append [] v) \<Longrightarrow> length vs < n \<Longrightarrow> tag_elements n (concat (tags vs)) = Some (Inr (tags vs))"
proof (induction vs arbitrary: n)
  case Nil
  then show ?case by (cases n) (simp_all add: Iter_Done_def tags_def)
next
  case (Cons v vs)
  then show ?case by (cases n) (simp_all add: Iter_Done_def tags_def Iter_NextTagAndBody_Append)
qed

lemma tag_entries_tags:
  "\<forall>e \<in> set es. fits (Append [] (fst e)) \<and> fits (Append [] (snd e)) \<Longrightarrow> length es < n \<Longrightarrow>
   tag_entries n (concat (map entry es)) = Some (Inr (map (\<lambda>e. (Append [] (fst e), Append [] (snd e))) es))"
proof (induction es arbitrary: n)
  case Nil
  then show ?case by (cases n) (simp_all add: Iter_Done_def)
next
  case (Cons e es)
  then show ?case by (cases n) (simp_all add: Iter_Done_def entry_def Iter_NextTagAndBody_Append)
qed

text \<open>Skipping duplicates in a list sorted by its keys leaves increasing keys, and loses none.\<close>

lemma skip_loop_sorted:
  assumes "sorted_wrt (\<lambda>a b. bytes_Compare (key b) (key a) \<noteq> -1) (prev # xs)"
  shows "increasing (key prev # map key (skip_loop key prev xs)) \<and>
    insert (key prev) (key ` set (skip_loop key prev xs)) = key ` set (prev # xs) \<and> set (skip_loop key prev xs) \<subseteq> set xs"
  using assms
proof (induction xs arbitrary: prev)
  case (Cons x xs)
  have IH: "increasing (key x # map key (skip_loop key x xs))"
    "insert (key x) (key ` set (skip_loop key x xs)) = key ` set (x # xs)" "set (skip_loop key x xs) \<subseteq> set xs"
    using Cons.IH [of x] Cons.prems by auto
  show ?case
  proof (cases "key x = key prev")
    case True
    then show ?thesis using IH by auto
  next
    case False
    then have "bytes_Compare (key prev) (key x) = -1"
      using Cons.prems bytes_Compare_antisym [of "key prev" "key x"] bytes_Compare_range [of "key x" "key prev"] by force
    moreover from this have "\<forall>y \<in> set (skip_loop key x xs). bytes_Compare (key prev) (key y) = -1"
      using IH(1) bytes_Compare_trans [of "key prev" "key x"] by simp
    moreover have s: "skip_loop key prev (x # xs) = x # skip_loop key x xs" using False by simp
    ultimately have "increasing (key prev # map key (skip_loop key prev (x # xs)))" using IH(1) by simp
    moreover have "insert (key prev) (key ` set (skip_loop key prev (x # xs))) = key ` set (prev # x # xs)"
      using IH(2) unfolding s by simp
    moreover have "set (skip_loop key prev (x # xs)) \<subseteq> set (x # xs)" using IH(3) unfolding s by auto
    ultimately show ?thesis by blast
  qed
qed simp

lemma skip_duplicates_sorted:
  assumes "sorted_wrt (\<lambda>a b. bytes_Compare (key b) (key a) \<noteq> -1) xs"
  shows "increasing (map key (skip_duplicates key xs))" and "key ` set (skip_duplicates key xs) = key ` set xs"
    and "set (skip_duplicates key xs) \<subseteq> set xs"
proof -
  have "increasing (map key (skip_duplicates key xs)) \<and> key ` set (skip_duplicates key xs) = key ` set xs \<and> set (skip_duplicates key xs) \<subseteq> set xs"
  proof (cases xs)
    case (Cons x ys)
    have *: "sorted_wrt (\<lambda>a b. bytes_Compare (key b) (key a) \<noteq> -1) (x # ys)" using assms Cons by simp
    have "insert (key x) (key ` set (skip_loop key x ys)) = key ` set (x # ys)" "set (skip_loop key x ys) \<subseteq> set ys"
      "increasing (map key (skip_duplicates key (x # ys)))"
      using skip_loop_sorted [OF *] unfolding skip_duplicates.simps list.map by blast+
    moreover from this(2) have "set (x # skip_loop key x ys) \<subseteq> set (x # ys)" by auto
    ultimately show ?thesis unfolding Cons skip_duplicates.simps list.set(2) image_insert by blast
  qed simp
  then show "increasing (map key (skip_duplicates key xs))" "key ` set (skip_duplicates key xs) = key ` set xs"
    "set (skip_duplicates key xs) \<subseteq> set xs" by blast+
qed

lemma length_skip_duplicates: "length (skip_duplicates key xs) \<le> length xs"
proof -
  have "length (skip_loop key prev xs) \<le> length xs" for prev xs by (induction xs arbitrary: prev) (auto intro: le_SucI)
  then show ?thesis by (cases xs) simp_all
qed

lemma skip_duplicates_increasing: "increasing (map key xs) \<Longrightarrow> skip_duplicates key xs = xs"
proof -
  have "skip_loop key prev xs = xs" if "increasing (map key (prev # xs))" for prev xs
    using that by (induction xs arbitrary: prev) auto
  then show "increasing (map key xs) \<Longrightarrow> skip_duplicates key xs = xs" by (cases xs) simp_all
qed

lemma increasing_sorted: "increasing xs \<Longrightarrow> sorted_wrt (\<lambda>a b. bytes_Compare b a \<noteq> -1) xs"
  by (erule sorted_wrt_mono_rel [rotated]) (metis bytes_Compare_antisym minus_equation_iff one_neq_neg_one)

lemma NormalizeSet_increasing:
  assumes "\<forall>v \<in> set ws. fits (Append [] v)" and "length ws < n" and "increasing (tags ws)"
  shows "NormalizeSet n (concat (tags ws)) = Some (Inr (concat (tags ws)))"
proof -
  have "sort_stable (\<lambda>a b. bytes_Compare a b = -1) (tags ws) = tags ws"
    using increasing_sorted [OF assms(3)] by (intro sort_stable_sorted) simp
  then show ?thesis using tag_elements_tags [OF assms(1,2)] assms(3)
    by (simp add: NormalizeSet_def skip_duplicates_increasing)
qed

lemma checkSet_tags: "\<forall>v \<in> set ws. fits (Append [] v) \<Longrightarrow> increasing (tags ws) \<Longrightarrow> checkSet (Some (concat (tags ws))) = Inr None"
  using checkSet_Ok [of "map ZLeaf ws"] by (simp add: small_def tags_def fits_def comp_def)

lemma NormalizeSet_tags:
  assumes "\<forall>v \<in> set vs. fits (Append [] v)" and "length vs < n"
  shows "\<exists>ws. NormalizeSet n (concat (tags vs)) = Some (Inr (concat (tags ws))) \<and> set ws = set vs \<and> increasing (tags ws) \<and> length ws \<le> length vs"
proof (cases "length vs < 2")
  case True
  then have "increasing (tags vs)" by (cases vs; cases "tl vs") (auto simp: tags_def)
  then show ?thesis using NormalizeSet_increasing [OF assms] by blast
next
  case False
  define xs where "xs = skip_duplicates id (sort_stable (\<lambda>a b. bytes_Compare a b = -1) (tags vs))"
  have s: "sorted_wrt (\<lambda>a b. bytes_Compare (id b) (id a) \<noteq> -1) (sort_stable (\<lambda>a b. bytes_Compare a b = -1) (tags vs))"
    using sorted_sort_stable [OF swo_on_bytes_Compare, of "tags vs" UNIV] by simp
  have x: "increasing xs" "set xs = Append [] ` set vs"
    using skip_duplicates_sorted [where key = id, OF s] unfolding xs_def by (simp_all add: tags_def)
  define ws where "ws = map (inv_into (set vs) (Append [])) xs"
  have inj: "inj_on (Append []) (set vs)" using tagged.enc_inj assms(1) by (intro inj_onI) blast
  have "tags ws = xs" unfolding ws_def tags_def using x(2) f_inv_into_f [of _ "Append []" "set vs"]
    by (auto intro: map_idI)
  moreover have "set ws = set vs" unfolding ws_def using x(2) inj by (simp add: inv_into_image_cancel)
  moreover have "length ws \<le> length vs"
    using length_skip_duplicates [of id "sort_stable (\<lambda>a b. bytes_Compare a b = -1) (tags vs)"] by (simp add: ws_def xs_def tags_def)
  ultimately show ?thesis using tag_elements_tags [OF assms] x(1) False
    by (intro exI [of _ ws]) (simp add: NormalizeSet_def xs_def tags_def)
qed

lemma NormalizeMap_entries:
  assumes "\<forall>e \<in> set es. fits (Append [] (fst e)) \<and> fits (Append [] (snd e))" and "length es < n"
    and srt: "\<And>xs. mset (srt xs) = mset xs" "\<And>xs. sorted_wrt (\<lambda>a b. bytes_Compare (fst b) (fst a) \<noteq> -1) (srt xs)"
  shows "\<exists>fs. NormalizeMap srt n (concat (map entry es)) = Some (Inr (concat (map entry fs))) \<and>
    set fs \<subseteq> set es \<and> fst ` set fs = fst ` set es \<and> increasing (tags (map fst fs))"
proof (cases "length es < 2")
  case True
  then have "increasing (tags (map fst es))" by (cases es; cases "tl es") (auto simp: tags_def)
  then show ?thesis using tag_entries_tags [OF assms(1,2)] True
    by (intro exI [of _ es]) (simp add: NormalizeMap_def)
next
  case False
  define g where "g = (\<lambda>e :: zbytes \<times> zbytes. (Append [] (fst e), Append [] (snd e)))"
  define xs where "xs = skip_duplicates fst (srt (map g es))"
  have m: "set (srt (map g es)) = g ` set es" using srt(1) by (metis set_mset_mset list.set_map)
  have x: "increasing (map fst xs)" "fst ` set xs = fst ` g ` set es" "set xs \<subseteq> g ` set es"
    using skip_duplicates_sorted [OF srt(2), of "map g es"] unfolding xs_def m by blast+
  define fs where "fs = map (inv_into (set es) g) xs"
  have gf: "map g fs = xs" unfolding fs_def map_map by (rule map_idI) (use x(3) f_inv_into_f [of _ g "set es"] in auto)
  have sub: "set fs \<subseteq> set es" unfolding fs_def set_map using x(3) inv_into_into [of _ g "set es"] by blast
  have inj: "inj_on (Append []) (fst ` set es)" using tagged.enc_inj assms(1) by (intro inj_onI) blast
  have "Append [] ` fst ` set fs = Append [] ` fst ` set es"
    using x(2) unfolding gf [symmetric] by (simp add: image_image g_def)
  then have "fst ` set fs = fst ` set es" using inj sub by (meson image_mono inj_on_image_eq_iff order_refl)
  moreover have "increasing (tags (map fst fs))" using x(1) unfolding gf [symmetric] by (simp add: tags_def g_def comp_def)
  moreover have "concat (map (\<lambda>(k, v). k @ v) xs) = concat (map entry fs)" unfolding gf [symmetric] by (simp add: g_def entry_def [abs_def] comp_def)
  moreover have "tag_entries n (concat (map entry es)) = Some (Inr (map g es))"
    using tag_entries_tags [OF assms(1,2)] by (simp add: g_def)
  ultimately show ?thesis using sub False by (intro exI [of _ fs]) (simp add: NormalizeMap_def xs_def)
qed

lemma tag_elements_stuck: "tag_elements k (put_uvarint (- 9) @ rest) = None"
proof (induction k)
  case (Suc k)
  have "length (put_uvarint (- 9)) = 10" by (simp add: put_uvarint.simps)
  then have "Iter_NextTagAndBody (put_uvarint (- 9) @ rest) = Inr ([], put_uvarint (- 9) @ rest)"
    by (simp add: Iter_NextTagAndBody_def Uvarint_put tagIsNull_def tagNull_def tagLength_def)
  then show ?case using Suc by (simp add: Iter_Done_def)
qed simp

text \<open>
  C29: Normal forms. \<open>NormalizeSet\<close> gives a body with the same elements, each once and in increasing
  order, as \<open>checkSet\<close> wants them, and leaves it alone the second time. \<open>NormalizeMap\<close> gives the
  keys of the map in increasing order, each with one of its values, whatever order the sorting function
  leaves entries with equal keys in. On a body that starts with the tag \<open>2 ^ 64 - 9\<close> \<open>NormalizeSet\<close>
  never returns. \<close>

theorem normal_forms:
  assumes "\<forall>v \<in> set vs. fits (Append [] v)" and "length vs < n"
    and "\<forall>e \<in> set es. fits (Append [] (fst e)) \<and> fits (Append [] (snd e))" and "length es < n"
    and "\<And>xs. mset (srt xs) = mset xs" and "\<And>xs. sorted_wrt (\<lambda>a b. bytes_Compare (fst b) (fst a) \<noteq> -1) (srt xs)"
  shows "(\<exists>ws. NormalizeSet n (concat (tags vs)) = Some (Inr (concat (tags ws))) \<and> set ws = set vs \<and>
      increasing (tags ws) \<and> checkSet (Some (concat (tags ws))) = Inr None \<and>
      NormalizeSet n (concat (tags ws)) = Some (Inr (concat (tags ws)))) \<and>
    (\<exists>fs. NormalizeMap srt n (concat (map entry es)) = Some (Inr (concat (map entry fs))) \<and>
      set fs \<subseteq> set es \<and> fst ` set fs = fst ` set es \<and> increasing (tags (map fst fs))) \<and>
    NormalizeSet k (put_uvarint (- 9) @ rest) = None"
proof (intro conjI)
  obtain ws where ws: "NormalizeSet n (concat (tags vs)) = Some (Inr (concat (tags ws)))" "set ws = set vs"
    "increasing (tags ws)" "length ws \<le> length vs" using NormalizeSet_tags [OF assms(1,2)] by blast
  then show "\<exists>ws. NormalizeSet n (concat (tags vs)) = Some (Inr (concat (tags ws))) \<and> set ws = set vs \<and>
      increasing (tags ws) \<and> checkSet (Some (concat (tags ws))) = Inr None \<and>
      NormalizeSet n (concat (tags ws)) = Some (Inr (concat (tags ws)))"
    using checkSet_tags [of ws] NormalizeSet_increasing [of ws n] assms(1,2) by (intro exI [of _ ws]) simp
qed (use NormalizeMap_entries [OF assms(3-6)] in blast, simp add: NormalizeSet_def tag_elements_stuck)

theorem normal_forms_witness:
  "(\<exists>ws. NormalizeSet 4 (concat (tags [Some [2], None, Some [2]])) = Some (Inr (concat (tags ws))) \<and>
     set ws = {Some [2], None}) \<and>
   (\<exists>fs. NormalizeMap (sort_stable (\<lambda>a b. bytes_Compare (fst a) (fst b) = -1)) 4 (concat (map entry [(Some [2], None), (Some [1], None)]))
     = Some (Inr (concat (map entry fs))) \<and> fst ` set fs = {Some [1], Some [2]})"
proof -
  have l: "length (Append [] None) = 1" "length (Append [] (Some [1])) = 2" "length (Append [] (Some [2])) = 2" by code_simp+
  have swo: "swo_on (\<lambda>a b :: bytes \<times> bytes. bytes_Compare (fst a) (fst b) = -1) UNIV"
    using swo_on_bytes_Compare [of UNIV] unfolding swo_on_def by blast
  note N = normal_forms [of "[Some [2], None, Some [2]]" 4 "[(Some [2], None), (Some [1], None)]"
    "sort_stable (\<lambda>a b. bytes_Compare (fst a) (fst b) = -1)" 0 "[]", OF _ _ _ _ mset_sort_stable sorted_sort_stable [OF swo]]
  have "\<forall>v \<in> set [Some [2], None, Some [2]]. fits (Append [] v)" "length [Some [2], None, Some [2]] < 4"
    "\<forall>e \<in> set [(Some [2], None), (Some [1], None)]. fits (Append [] (fst e)) \<and> fits (Append [] (snd e))"
    "length [(Some [2 :: u8], None :: zbytes), (Some [1], None)] < 4"
    by (simp_all add: fits_def l)
  from N [OF this subset_UNIV] show ?thesis by (elim conjE exE) (intro conjI exI; (assumption | simp add: insert_commute))
qed

subsection \<open>Native values, named types and unions\<close>

text \<open>The value with its bytes in place of a native representation.\<close>

definition encoded :: "float_ops \<Rightarrow> zvalue \<Rightarrow> value_panic + zvalue" where
  "encoded fo v = res_bind (Value_Bytes fo v) (\<lambda>b. Inr (NewValue (v_typ v) b))"

lemma le_word_8: "le_word (le_bytes 8 (x :: u64)) = x"
  by (simp add: le_word_le_bytes take_bit_word_eq_self)

lemma le_word_2: "le_word (le_bytes 2 (x :: 16 word)) = x"
  by (simp add: le_word_le_bytes take_bit_word_eq_self)

lemma le_word_4: "le_word (le_bytes 4 (x :: u32)) = x"
  by (simp add: le_word_le_bytes take_bit_word_eq_self)

text \<open>
  A native value and its encoding are read alike: \<open>Uint\<close>, \<open>Int\<close>, \<open>Bool\<close> and \<open>Float\<close> of a
  native value and of the value with the same type and its BSUP bytes agree, for narrower floats as long
  as narrowing the number loses nothing. \<open>Equal\<close> does not tell null from an empty value, and the
  value \<open>NewTypeValue\<close> makes of a type has the type \<open>net\<close>. \<close>

theorem native_values:
  assumes "native v = Some x" and "encoded fo v = Inr w"
    and "ID (v_typ v) = 14 \<Longrightarrow> float64_of_32 fo (Float32 fo (Fromfloat32 fo (float32_of_64 fo x))) = x"
    and "ID (v_typ v) = 15 \<Longrightarrow> float64_of_32 fo (float32_of_64 fo x) = x"
  shows "Value_Uint w = Value_Uint v \<and> Value_Int w = Value_Int v \<and> Value_Bool w = Value_Bool v \<and>
    Value_Float fo w = Value_Float fo v \<and> \<not> Value_IsNull w \<and> Value_Bytes fo w = Value_Bytes fo v \<and>
    Value_Equal fo (NewString []) (NewValue (TypePrim TypeString) None) = Inr True \<and>
    v_typ (NewTypeValue t) = TypePrim TypeNet"
proof -
  have r: "v_rep v = Native x" using assms(1) by (auto simp: native_def split: vrep.splits)
  obtain b where b: "Value_Bytes fo v = Inr b" "v_typ w = v_typ v" "v_rep w = Raw b"
    using assms(2) by (auto simp: encoded_def res_bind_Inr_iff NewValue_def)
  note V = b(1) [unfolded Value_Bytes_def r vrep.case Let_def]
  have "Value_Uint w = Value_Uint v"
  proof (cases "ID (v_typ v) \<le> 3")
    case True
    then have "ID (v_typ v) \<in> {0, 1, 2, 3}" by auto
    then have "b = Some (counted_bytes x)" using V by (simp add: EncodeUint_eq)
    then show ?thesis using b r by (simp add: Value_Uint_def DecodeUint_def DecodeCountedUvarint_le_word le_word_counted_bytes)
  qed (use b in \<open>simp add: Value_Uint_def\<close>)
  moreover have "Value_Int w = Value_Int v"
  proof (cases "IsSigned (int (ID (v_typ v)))")
    case True
    then have "ID (v_typ v) \<notin> {0, 1, 2, 3}" "ID (v_typ v) \<notin> {14, 15, 16, 23}" by (auto simp: IsSigned_def)
    then have "b = Some (counted_bytes (zigzag x))" using V by (simp add: EncodeInt_eq split: if_splits)
    then show ?thesis using b r by (simp add: Value_Int_def DecodeInt_counted)
  qed (use b in \<open>simp add: Value_Int_def\<close>)
  moreover have "Value_Bool w = Value_Bool v"
  proof (cases "ID (v_typ v) = 23")
    case True
    then have "b = Some (EncodeBool (x \<noteq> 0))" using V by simp
    then show ?thesis using b r by (simp add: Value_Bool_def DecodeBool_def EncodeBool_def AppendBool_def)
  qed (use b in \<open>simp add: Value_Bool_def\<close>)
  moreover have "Value_Float fo w = Value_Float fo v"
  proof (cases "IsFloat (int (ID (v_typ v)))")
    case True
    then have "ID (v_typ v) \<in> {14, 15, 16}" using V by (auto simp: IsFloat_def split: if_splits)
    then consider "ID (v_typ v) = 14" | "ID (v_typ v) = 15" | "ID (v_typ v) = 16" by blast
    then have "DecodeFloat fo b = Inr x"
    proof cases
      case 1
      then show ?thesis using V assms(3) by (auto simp: DecodeFloat_def EncodeFloat16_def AppendFloat16_def le_word_2)
    next
      case 2
      then show ?thesis using V assms(4) by (auto simp: DecodeFloat_def EncodeFloat32_def AppendFloat32_def le_word_4)
    next
      case 3
      then show ?thesis using V by (auto simp: DecodeFloat_def EncodeFloat64_def AppendFloat64_def le_word_8)
    qed
    then show ?thesis using True b r by (simp add: Value_Float_def)
  qed (use b in \<open>simp add: Value_Float_def\<close>)
  moreover have "b \<noteq> None" using V by (auto simp: res_bind_Inr_iff split: if_splits)
  then have "\<not> Value_IsNull w" "Value_Bytes fo w = Value_Bytes fo v" using b by (simp_all add: Value_IsNull_def Value_Bytes_def)
  ultimately show ?thesis by (simp add: Value_Equal_def NewString_def NewValue_def native_def Value_Bytes_def NewTypeValue_def)
qed

theorem native_values_witness:
  "native (NewInt16 (- 2)) = Some (- 2) \<and> (\<exists>w. encoded demo_fo (NewInt16 (- 2)) = Inr w \<and> Value_Int w = Inr (- 2))"
proof -
  have n: "native (NewInt16 (- 2)) = Some (- 2)" by (simp add: native_def NewInt16_def newNativeValue_def)
  have i: "ID (v_typ (NewInt16 (- 2))) = 7" by (simp add: NewInt16_def newNativeValue_def)
  obtain w where w: "encoded demo_fo (NewInt16 (- 2)) = Inr w"
    by (simp add: encoded_def Value_Bytes_def NewInt16_def newNativeValue_def EncodeInt_eq)
  have "Value_Int (NewInt16 (- 2)) = Inr (- 2)" by (simp add: Value_Int_def NewInt16_def newNativeValue_def IsSigned_def)
  then show ?thesis using native_values [OF n w] n w i by simp
qed

subsection \<open>Named types and unions\<close>

lemma Untag_tree:
  assumes "has_type (TypeUnion i ts) (ZNode [ZLeaf (Some tag), v])" and "length (tree_bytes (ZNode [ZLeaf (Some tag), v])) < 2 ^ 63"
    and "n < length ts" "length ts < 2 ^ 63" "EncodeInt (of_nat n) = Inr tag"
  shows "Untag i ts (tree_body (ZNode [ZLeaf (Some tag), v])) = Inr (ts ! n, tree_body v)"
proof -
  have l: "length (tree_bytes (ZLeaf (Some tag))) < 2 ^ 63" "length (tree_bytes v) < 2 ^ 63"
    using length_parts [of "ZLeaf (Some tag)", OF _ assms(2)] length_parts [of v, OF _ assms(2)] by simp_all
  show ?thesis
    using Iter_Next_tree [OF l(1), of "tree_bytes v"] Iter_Next_tree [OF l(2), of "[]"] tag_of_nat [of n tag] assms(3-5)
    by (simp add: Untag_def Union_Type_def)
qed

definition resolved :: "ztype \<Rightarrow> zbytes \<Rightarrow> bool" where
  "resolved t b = (TypeUnder t = t \<and> (Kind t = UnionKind \<longrightarrow> b = None))"

lemma TypeUnder_idem [simp]: "TypeUnder (TypeUnder t) = TypeUnder t"
  by (induction t) simp_all

lemma under_loop_plain:
  assumes "has_type t v" and "TypeUnder t = t" and "Kind t \<noteq> UnionKind"
  shows "\<exists>u w. under_loop t (tree_body v) = Inr (u, tree_body w) \<and> has_type u w \<and> resolved u (tree_body w)"
proof -
  have "under_loop t (tree_body v) = Inr (t, tree_body v)"
    using assms(2,3) by (subst under_loop.simps) (cases t; simp)
  then show ?thesis using assms by (auto simp: resolved_def)
qed

lemma under_loop_typed:
  assumes "has_type t v" and "length (tree_bytes v) < 2 ^ 63"
  shows "\<exists>u w. under_loop t (tree_body v) = Inr (u, tree_body w) \<and> has_type u w \<and> resolved u (tree_body w)"
  using assms
proof (induction)
  case (null t)
  have "has_type (TypeUnder t) (ZLeaf None)" by (rule has_type.null)
  moreover have "under_loop t None = Inr (TypeUnder t, None)"
    by (subst under_loop.simps) (simp split: ztype.split)
  ultimately show ?case by (intro exI [of _ "TypeUnder t"] exI [of _ "ZLeaf None"]) (simp add: resolved_def)
next
  case (named t v i n)
  have "under_loop (TypeNamed i n t) (tree_body v) = under_loop t (tree_body v)"
    by (subst (1 2) under_loop.simps) (simp split: ztype.split option.split)
  then show ?case using named by simp
next
  case (tagged n ts tag v i)
  have v: "length (tree_bytes v) < 2 ^ 63" using length_parts [of v, OF _ tagged.prems] by simp
  have "under_loop (TypeUnion i ts) (tree_body (ZNode [ZLeaf (Some tag), v])) = under_loop (ts ! n) (tree_body v)"
    using Untag_tree [OF has_type.tagged [OF tagged(1-4)] tagged.prems tagged(1-3)]
    by (subst under_loop.simps) simp
  then show ?case using tagged.IH [OF v] by simp
next
  case (rec fs vs i)
  show ?case by (rule under_loop_plain [OF has_type.rec]) (use rec(1) in \<open>auto simp: list_all2_conv_all_nth\<close>)
next
  case (arr vs t i)
  show ?case by (rule under_loop_plain [OF has_type.arr]) (use arr(1) in simp_all)
next
  case (inset vs t i)
  show ?case by (rule under_loop_plain [OF has_type.inset]) (use inset(1,2) in simp_all)
next
  case (entries es k u i)
  show ?case by (rule under_loop_plain [OF has_type.entries]) (use entries(1) in simp_all)
next
  case (selector n syms b i)
  show ?case by (rule under_loop_plain [OF has_type.selector [OF selector(1-3)]]) simp_all
next
  case (prim p b)
  show ?case by (rule under_loop_plain [OF has_type.prim]) simp_all
next
  case (err t v i)
  show ?case by (rule under_loop_plain [OF has_type.err [OF err(1)]]) simp_all
qed

text \<open>
  \<open>Under\<close> resolves named types and unions. On a value of a type it always returns a value of its
  resolved type, which is not a named type; it is a union only for null. The comment on \<open>Under\<close> claims
  that the result never is a union, but a null of a union type stays one. \<close>

theorem under_resolves:
  assumes "has_type t v" and "fits (tree_bytes v)"
  shows "(\<exists>u w. Under fo (NewValue t (tree_body v)) = Inr (NewValue u (tree_body w)) \<and> has_type u w \<and>
      (\<forall>i n t'. u \<noteq> TypeNamed i n t') \<and> (\<forall>i ts. u = TypeUnion i ts \<longrightarrow> tree_body w = None)) \<and>
    Under fo (NewValue (TypeUnion i ts) None) = Inr (NewValue (TypeUnion i ts) None)"
proof
  obtain u w where u: "under_loop t (tree_body v) = Inr (u, tree_body w)" "has_type u w" "resolved u (tree_body w)"
    using under_loop_typed [OF assms(1)] assms(2) unfolding fits_def by blast
  have r: "(\<forall>i n t'. u \<noteq> TypeNamed i n t') \<and> (\<forall>i ts. u = TypeUnion i ts \<longrightarrow> tree_body w = None)" if "resolved u (tree_body w)" for u w
    using that TypeUnder_not_named by (auto simp: resolved_def)
  show "\<exists>u w. Under fo (NewValue t (tree_body v)) = Inr (NewValue u (tree_body w)) \<and> has_type u w \<and>
      (\<forall>i n t'. u \<noteq> TypeNamed i n t') \<and> (\<forall>i ts. u = TypeUnion i ts \<longrightarrow> tree_body w = None)"
  proof (cases "(\<exists>i n t'. t = TypeNamed i n t') \<or> (\<exists>i ts. t = TypeUnion i ts)")
    case True
    then have "Under fo (NewValue t (tree_body v)) = Inr (NewValue u (tree_body w))"
      using u(1) by (auto simp: Under_def NewValue_def Value_Bytes_def)
    then show ?thesis using u r by blast
  next
    case False
    then have "Under fo (NewValue t (tree_body v)) = Inr (NewValue t (tree_body v))"
      by (simp add: Under_def NewValue_def split: ztype.split)
    then show ?thesis using False assms(1) by blast
  qed
  show "Under fo (NewValue (TypeUnion i ts) None) = Inr (NewValue (TypeUnion i ts) None)"
    by (simp add: Under_def NewValue_def Value_Bytes_def under_loop.simps)
qed

definition demo_union :: ztype where
  "demo_union = TypeNamed 34 (str ''n'') (TypeUnion 32 [TypePrim TypeInt64, TypePrim TypeString])"

theorem under_resolves_witness:
  "\<exists>u w. Under demo_fo (NewValue demo_union (tree_body (ZNode [ZLeaf (Some [2]), ZLeaf (Some [104, 105])]))) = Inr (NewValue u (tree_body w)) \<and>
     has_type u w"
proof -
  have e: "EncodeInt (of_nat 1) = Inr [2]" by code_simp
  have "has_type (TypeUnion 32 [TypePrim TypeInt64, TypePrim TypeString]) (ZNode [ZLeaf (Some [2]), ZLeaf (Some [104, 105])])"
    by (intro has_type.tagged [of 1]) (use e in \<open>simp_all add: has_type.prim\<close>)
  then have t: "has_type demo_union (ZNode [ZLeaf (Some [2]), ZLeaf (Some [104, 105])])"
    unfolding demo_union_def by (rule has_type.named)
  have "length (tree_bytes (ZNode [ZLeaf (Some [2]), ZLeaf (Some [104, 105])])) = 6" by code_simp
  then have "fits (tree_bytes (ZNode [ZLeaf (Some [2]), ZLeaf (Some [104, 105])]))" by (simp add: fits_def del: tree_bytes.simps)
  from under_resolves [OF t this] show ?thesis by blast
qed

subsection \<open>Fields of records\<close>

lemma lut_loop_upd: "lut_loop k xs m x = (if x \<in> set xs then lut_loop k xs Map.empty x else m x)"
proof (induction xs arbitrary: k m)
  case (Cons y xs)
  have "lut_loop k (y # xs) m x = (if x \<in> set xs then lut_loop (k + 1) xs Map.empty x else (m(y \<mapsto> k)) x)" for m
    unfolding lut_loop.simps by (rule Cons)
  from this [of m] this [of Map.empty] show ?case by auto
qed simp

lemma lut_loop_nth: "distinct xs \<Longrightarrow> lut_loop k xs Map.empty x = Some n \<longleftrightarrow> k \<le> n \<and> n < k + length xs \<and> xs ! (n - k) = x"
proof (induction xs arbitrary: k)
  case (Cons y xs)
  have IH: "lut_loop (k + 1) xs Map.empty x = Some n \<longleftrightarrow> k + 1 \<le> n \<and> n < k + 1 + length xs \<and> xs ! (n - (k + 1)) = x"
    using Cons by simp
  have l: "lut_loop k (y # xs) Map.empty x = (if x \<in> set xs then lut_loop (k + 1) xs Map.empty x else if x = y then Some k else None)"
    unfolding lut_loop.simps lut_loop_upd [of "k + 1" xs "[y \<mapsto> k]"] by simp
  have s: "(y # xs) ! (n - k) = xs ! (n - (k + 1))" if "k < n" using that by (simp add: nth_Cons')
  show ?case
  proof (cases "k < n")
    case True
    then show ?thesis using l IH s nth_mem [of "n - (k + 1)" xs] by auto
  next
    case False
    then show ?thesis using l IH Cons.prems by auto
  qed
qed simp

lemma IndexOfField_distinct: "distinct (map fst fs) \<Longrightarrow> IndexOfField fs f = Some n \<longleftrightarrow> n < length fs \<and> fst (fs ! n) = f"
  using lut_loop_nth [of "map fst fs" 0 f n] by (auto simp: IndexOfField_def record_LUT_def)

text \<open>The part of a nested value that a path leads to, found by name along its type.\<close>

fun at_path :: "ztype \<Rightarrow> ztree \<Rightarrow> path \<Rightarrow> (ztype \<times> ztree) option" where
  "at_path t v [] = Some (t, v)"
| "at_path t v (f # p) = (case (fields_of t, v) of
      (Some fs, ZNode vs) \<Rightarrow> (case map_of (zip (map fst fs) (zip (map snd fs) vs)) f of
          None \<Rightarrow> None | Some (u, w) \<Rightarrow> at_path u w p)
    | _ \<Rightarrow> None)"

text \<open>The records a path can pass through have distinct field names.\<close>

fun names_ok :: "ztype \<Rightarrow> bool" where
  "names_ok (TypeRecord i fs) = (distinct (map fst fs) \<and> (\<forall>f \<in> set fs. names_ok (snd f)))"
| "names_ok (TypeNamed i n t) = names_ok t"
| "names_ok _ = True"

lemma fields_of_named [simp]: "fields_of (TypeNamed i n t) = fields_of t" "fields_of (TypeRecord i fs) = Some fs"
  by (simp_all add: fields_of_def TypeRecordOf_def)

lemma fields_of_Some: "fields_of t = Some fs \<Longrightarrow> \<exists>i. TypeUnder t = TypeRecord i fs"
  by (cases "TypeUnder t") (auto simp: fields_of_def TypeRecordOf_def)

lemma names_ok_fields: "names_ok t \<Longrightarrow> fields_of t = Some fs \<Longrightarrow> distinct (map fst fs) \<and> (\<forall>f \<in> set fs. names_ok (snd f))"
  by (induction t rule: names_ok.induct) (simp_all add: fields_of_def TypeRecordOf_def)

lemma has_type_fields:
  assumes "has_type t v" and "fields_of t = Some fs"
  shows "v = ZLeaf None \<or> (\<exists>vs. v = ZNode vs \<and> list_all2 (\<lambda>f v. has_type (snd f) v) fs vs)"
  using assms
proof (induction)
  case (rec gs vs i)
  then show ?case by (auto simp: list_all2_conv_all_nth)
qed (auto dest: fields_of_Some)

lemma nth_loop_tree:
  "\<forall>v \<in> set vs. length (tree_bytes v) < 2 ^ 63 \<Longrightarrow>
   nth_loop n z (concat (map tree_bytes vs)) = Inr (if n = 0 then Some z else if n \<le> length vs then Some (tree_body (vs ! (n - 1))) else None)"
proof (induction vs arbitrary: n z)
  case Nil
  then show ?case by (cases n) (simp_all add: Iter_Done_def)
next
  case (Cons v vs)
  then show ?case by (cases n) (auto simp: Iter_Done_def Iter_Next_tree nth_Cons')
qed

lemma Deref_tree:
  assumes "has_type t v" and "length (tree_bytes v) < 2 ^ 63" and "\<And>fs. fields_of t = Some fs \<Longrightarrow> distinct (map fst fs)"
  shows "Deref fo (Some (NewValue t (tree_body v))) f = Inr (map_option (\<lambda>(u, w). NewValue u (tree_body w)) (at_path t v [f]))"
proof (cases "fields_of t")
  case None
  then show ?thesis by (simp add: Deref_def Value_IndexOfField_def NewValue_def)
next
  case (Some fs)
  note d = assms(3) [OF Some]
  have V: "v_typ (NewValue t (tree_body v)) = t" "Value_Iter fo (NewValue t (tree_body v)) = Inr (slice_bytes (tree_body v))"
    by (simp_all add: NewValue_def Value_Iter_def Value_Bytes_def)
  consider "v = ZLeaf None" | vs where "v = ZNode vs" "list_all2 (\<lambda>f v. has_type (snd f) v) fs vs"
    using has_type_fields [OF assms(1) Some] by blast
  then show ?thesis
  proof cases
    case 1
    then show ?thesis using V Some by (auto simp: Deref_def DerefByColumn_def Iter_Done_def split: option.split)
  next
    case (2 vs)
    have l: "length fs = length vs" using 2(2) by (rule list_all2_lengthD)
    have n: "nth_loop (n + 1) None (concat (map tree_bytes vs)) = Inr (if n < length vs then Some (tree_body (vs ! n)) else None)" for n
      using nth_loop_tree [of vs "n + 1" None] length_parts assms(2) 2(1) by auto
    show ?thesis
    proof (cases "IndexOfField fs f")
      case None
      then have "f \<notin> set (map fst fs)" using IndexOfField_distinct [OF d, of f] by (auto simp: in_set_conv_nth) (metis fst_conv)
      then have "map_of (zip (map fst fs) (zip (map snd fs) vs)) f = None" using l by (simp add: map_of_zip_is_None)
      then show ?thesis using None Some 2(1) V by (simp add: Deref_def Value_IndexOfField_def)
    next
      case (Some k)
      then have k: "k < length fs" "fst (fs ! k) = f" using IndexOfField_distinct [OF d, of f] by auto
      then have "map_of (zip (map fst fs) (zip (map snd fs) vs)) f = Some (snd (fs ! k), vs ! k)"
        using map_of_zip_nth [of "map fst fs" "zip (map snd fs) vs" k] d l by simp
      then show ?thesis using Some k l n \<open>fields_of t = Some fs\<close> 2(1) V
        by (simp add: Deref_def Value_IndexOfField_def DerefByColumn_def)
    qed
  qed
qed

lemma at_path_typed:
  assumes "has_type t v" and "names_ok t" and "length (tree_bytes v) < 2 ^ 63" and "at_path t v [f] = Some (u, w)"
  shows "has_type u w \<and> names_ok u \<and> length (tree_bytes w) < 2 ^ 63"
proof -
  obtain fs vs where fs: "fields_of t = Some fs" "v = ZNode vs" "map_of (zip (map fst fs) (zip (map snd fs) vs)) f = Some (u, w)"
    using assms(4) by (auto split: option.splits ztree.splits)
  then have "(f, u, w) \<in> set (zip (map fst fs) (zip (map snd fs) vs))" by (metis map_of_SomeD)
  then obtain k where k: "k < length fs" "k < length vs" "u = snd (fs ! k)" "w = vs ! k" by (auto simp: in_set_zip)
  have "list_all2 (\<lambda>f v. has_type (snd f) v) fs vs" using has_type_fields [OF assms(1) fs(1)] fs(2) by simp
  then show ?thesis using k names_ok_fields [OF assms(2) fs(1)] length_parts [of w vs] assms(3) fs(2)
    by (auto simp: list_all2_conv_all_nth)
qed

lemma at_path_Cons: "at_path t v (f # p) = (case at_path t v [f] of None \<Rightarrow> None | Some (u, w) \<Rightarrow> at_path u w p)"
  by (auto split: option.splits ztree.splits)

lemma DerefPath_None: "DerefPath fo None p = Inr None"
  by (induction p) (simp_all add: Deref_def)

lemma DerefPath_tree:
  assumes "has_type t v" and "names_ok t" and "length (tree_bytes v) < 2 ^ 63"
  shows "DerefPath fo (Some (NewValue t (tree_body v))) p =
    Inr (map_option (\<lambda>(u, w). NewValue u (tree_body w)) (at_path t v p))"
  using assms
proof (induction p arbitrary: t v)
  case (Cons f p)
  have d: "\<And>fs. fields_of t = Some fs \<Longrightarrow> distinct (map fst fs)" using names_ok_fields Cons.prems(2) by blast
  note D = Deref_tree [OF Cons.prems(1,3) d, of fo f]
  show ?case
  proof (cases "at_path t v [f]")
    case None
    then show ?thesis unfolding at_path_Cons [of t v f p] using D by (simp add: DerefPath_None del: at_path.simps)
  next
    case (Some x)
    obtain u w where x: "x = (u, w)" by (cases x)
    then show ?thesis unfolding at_path_Cons [of t v f p]
      using D Some Cons.IH [of u w] at_path_typed [OF Cons.prems] by (simp del: at_path.simps)
  qed
qed simp

text \<open>
  C12: \<open>DerefPath\<close> finds the value at the end of a path. On a value of a type whose records have
  distinct field names it never panics; it returns the part of the value that the names of the path lead to,
  with its type, and nil when a name is missing, when the path runs into a value that is not a record, or into
  a null record. \<close>

theorem deref_path:
  assumes "has_type t v" and "names_ok t" and "fits (tree_bytes v)"
  shows "DerefPath fo (Some (NewValue t (tree_body v))) p =
    Inr (map_option (\<lambda>(u, w). NewValue u (tree_body w)) (at_path t v p))"
  using DerefPath_tree [OF assms(1,2)] assms(3) by (simp add: fits_def)

theorem deref_path_witness:
  "DerefPath demo_fo (Some (NewValue demo_type (tree_body demo_tree))) [str ''b''] =
     Inr (Some (NewValue (TypeUnion 32 [TypePrim TypeInt64, TypePrim TypeString]) (tree_body (ZNode [ZLeaf (Some [2]), ZLeaf (Some [104, 105])]))))"
proof -
  have "length (tree_bytes demo_tree) = 8" by code_simp
  then have "fits (tree_bytes demo_tree)" by (simp add: fits_def)
  moreover have "names_ok demo_type" by (simp add: demo_type_def str_def)
  moreover have "at_path demo_type demo_tree [str ''b''] = Some (TypeUnion 32 [TypePrim TypeInt64, TypePrim TypeString], ZNode [ZLeaf (Some [2]), ZLeaf (Some [104, 105])])"
    by (simp add: demo_type_def demo_tree_def str_def)
  ultimately show ?thesis by (simp only: deref_path [OF demo_typed] option.map prod.case)
qed

end
