(* ===== verification/Record_Builder.thy ===== *)
theory Record_Builder
  imports Values_Inv
begin

text \<open>
  \<open>recordbuilder.go\<close> and \<open>typevectortable.go\<close>: records built from values listed in the order of their
  paths, and the table of type vectors. The builder works out beforehand where nested records begin and
  end; \<open>Append\<close> and \<open>Type\<close> replay that plan, one on bytes and one on types. Both are related to
  a machine that builds a tree of names.
\<close>

subsection \<open>The record builder\<close>

record field_info =
  fi_field :: path
  containerBegins :: "gostring list"
  containerEnds :: nat

record record_builder =
  rb_fields :: "field_info list"
  rb_builder :: builder
  curField :: nat

datatype rb_error = EmptyFieldPath | NotAdjacent gostring | DuplicateFieldPath gostring | NotEnoughFields

datatype rb_panic = RBIndex | RBRecordType type_error | RBMismatched | RBBuilder zpanic

definition isIn :: "path \<Rightarrow> field_info list \<Rightarrow> bool" where
  "isIn fieldname fis \<longleftrightarrow>
     list_ex (\<lambda>i. list_ex (\<lambda>fi. Path_Equal (take (i + 1) fieldname) (fi_field fi)) fis) [0..<length fieldname] \<or>
     list_ex (\<lambda>fi. list_ex (\<lambda>i. Path_Equal (take (i + 1) (fi_field fi)) fieldname) [0..<length (fi_field fi)]) fis"

text \<open>The number of common parents.\<close>

fun common_pos :: "path \<Rightarrow> path \<Rightarrow> nat" where
  "common_pos (x # xs) (y # ys) = (if x \<noteq> y then 0 else common_pos xs ys + 1)"
| "common_pos _ _ = 0"

text \<open>The loop over the records that begin, from the first position that differs.\<close>

fun begin_records :: "path \<Rightarrow> nat list \<Rightarrow> gostring set \<Rightarrow> gostring list \<Rightarrow> rb_error + gostring set \<times> gostring list" where
  "begin_records rec [] seen begins = Inr (seen, begins)"
| "begin_records rec (k # ks) seen begins = (let recname = join 46 (take (k + 1) rec) in
     if recname \<in> seen then Inl (NotAdjacent recname)
     else begin_records rec ks (insert recname seen) (begins @ [rec ! k]))"

text \<open>One field: the records seen, the plan so far and the current record.\<close>

type_synonym rb_state = "gostring set \<times> field_info list \<times> path"

definition add_field :: "path \<Rightarrow> rb_state \<Rightarrow> rb_error + rb_state" where
  "add_field f s = (case s of (seen, infos, currentRecord) \<Rightarrow>
     if IsEmpty f then Inl EmptyFieldPath
     else let rec = take (length f - 1) f; i = length infos in
       res_bind (if rec \<noteq> currentRecord then
           let pos = common_pos rec currentRecord;
               infos = (if i > 0 then infos[i - 1 := (infos ! (i - 1))\<lparr>containerEnds := length currentRecord - pos\<rparr>] else infos)
           in res_bind (begin_records rec [pos..<length rec] seen []) (\<lambda>(seen, begins). Inr (seen, infos, rec, begins))
         else Inr (seen, infos, currentRecord, [])) (\<lambda>(seen, infos, currentRecord, begins).
       if isIn f infos then Inl (DuplicateFieldPath (join 46 f))
       else Inr (seen, infos @ [\<lparr>fi_field = f, containerBegins = begins, containerEnds = 0\<rparr>], currentRecord)))"

fun add_fields :: "path list \<Rightarrow> rb_state \<Rightarrow> rb_error + rb_state" where
  "add_fields [] s = Inr s"
| "add_fields (f # fs) s = res_bind (add_field f s) (add_fields fs)"

definition NewRecordBuilder :: "path list \<Rightarrow> rb_error + record_builder" where
  "NewRecordBuilder flds = res_bind (add_fields flds ({}, [], [])) (\<lambda>(seen, infos, currentRecord).
     let n = length infos in
     Inr \<lparr>rb_fields = (if n > 0 then infos[n - 1 := (infos ! (n - 1))\<lparr>containerEnds := length currentRecord\<rparr>] else infos),
       rb_builder = NewBuilder, curField = 0\<rparr>)"

definition RB_Reset :: "record_builder \<Rightarrow> record_builder" where
  "RB_Reset r = r\<lparr>rb_builder := Builder_Reset (rb_builder r), curField := 0\<rparr>"

fun end_containers :: "nat \<Rightarrow> builder \<Rightarrow> zpanic + builder" where
  "end_containers 0 b = Inr b"
| "end_containers (Suc k) b = res_bind (EndContainer b) (end_containers k)"

definition RB_Append :: "zbytes \<Rightarrow> record_builder \<Rightarrow> rb_panic + record_builder" where
  "RB_Append leaf r =
     (if curField r \<ge> length (rb_fields r) then Inl RBIndex
      else let f = rb_fields r ! curField r;
               b = fold (\<lambda>_. BeginContainer) (containerBegins f) (rb_builder r) in
        (case end_containers (containerEnds f) (Builder_Append leaf b) of
           Inl p \<Rightarrow> Inl (RBBuilder p)
         | Inr b \<Rightarrow> Inr (r\<lparr>curField := curField r + 1, rb_builder := b\<rparr>)))"

fun RB_Appends :: "zbytes list \<Rightarrow> record_builder \<Rightarrow> rb_panic + record_builder" where
  "RB_Appends [] r = Inr r"
| "RB_Appends (x # xs) r = res_bind (RB_Append x r) (RB_Appends xs)"

text \<open>\<open>Encode\<close> returns an error when fields are missing; the bytes panic when a container is open.\<close>

definition RB_Encode :: "record_builder \<Rightarrow> rb_panic + (rb_error + zbytes)" where
  "RB_Encode r = (if curField r \<noteq> length (rb_fields r) then Inr (Inl NotEnoughFields)
     else case Builder_Bytes (rb_builder r) of Inl p \<Rightarrow> Inl (RBBuilder p) | Inr b \<Rightarrow> Inr (Inr b))"

text \<open>The stack of open records with the innermost one, \<open>current\<close>, first.\<close>

type_synonym tstack = "(gostring \<times> field list) list"

definition MustLookupTypeRecord :: "tcontext \<Rightarrow> field list \<Rightarrow> tcontext \<times> (rb_panic + ztype)" where
  "MustLookupTypeRecord c fs = (case LookupTypeRecord c fs of (c, Inl e) \<Rightarrow> (c, Inl (RBRecordType e)) | (c, Inr t) \<Rightarrow> (c, Inr t))"

fun type_ends :: "nat \<Rightarrow> tcontext \<Rightarrow> tstack \<Rightarrow> tcontext \<times> (rb_panic + tstack)" where
  "type_ends 0 c st = (c, Inr st)"
| "type_ends (Suc k) c [] = (c, Inl RBIndex)"
| "type_ends (Suc k) c ((n, fs) # st) = (case MustLookupTypeRecord c fs of
      (c, Inl p) \<Rightarrow> (c, Inl p)
    | (c, Inr t) \<Rightarrow> (case st of [] \<Rightarrow> (c, Inl RBIndex) | (m, gs) # st \<Rightarrow> type_ends k c ((m, gs @ [(n, t)]) # st)))"

fun type_fields :: "field_info list \<Rightarrow> nat \<Rightarrow> ztype list \<Rightarrow> tcontext \<Rightarrow> tstack \<Rightarrow> tcontext \<times> (rb_panic + tstack)" where
  "type_fields [] i types c st = (c, Inr st)"
| "type_fields (fi # fis) i types c st = (case fold (\<lambda>name st. (name, []) # st) (containerBegins fi) st of
      [] \<Rightarrow> (c, Inl RBIndex)
    | (n, fs) # st \<Rightarrow> (case Leaf (fi_field fi) of None \<Rightarrow> (c, Inl RBIndex)
      | Some leaf \<Rightarrow> if i \<ge> length types then (c, Inl RBIndex)
        else (case type_ends (containerEnds fi) c ((n, fs @ [(leaf, types ! i)]) # st) of
            (c, Inl p) \<Rightarrow> (c, Inl p)
          | (c, Inr st) \<Rightarrow> type_fields fis (i + 1) types c st)))"

definition RB_Type :: "record_builder \<Rightarrow> ztype list \<Rightarrow> tcontext \<Rightarrow> tcontext \<times> (rb_panic + ztype)" where
  "RB_Type r types c = (case type_fields (rb_fields r) 0 types c [([], [])] of
      (c, Inl p) \<Rightarrow> (c, Inl p)
    | (c, Inr st) \<Rightarrow> if length st \<noteq> 1 then (c, Inl RBMismatched) else MustLookupTypeRecord c (snd (st ! 0)))"

subsection \<open>The table of type vectors\<close>

type_synonym type_vectors = "ztype list list"

fun tv_index :: "('v \<Rightarrow> bool) \<Rightarrow> nat \<Rightarrow> 'v list \<Rightarrow> nat option" where
  "tv_index eq k [] = None"
| "tv_index eq k (t # ts) = (if eq t then Some k else tv_index eq (k + 1) ts)"

definition TypeVectorTable_Lookup :: "ztype list \<Rightarrow> type_vectors \<Rightarrow> type_vectors \<times> nat" where
  "TypeVectorTable_Lookup types t = (case tv_index (\<lambda>tv. tv = types) 0 t of
      Some k \<Rightarrow> (t, k) | None \<Rightarrow> (t @ [types], length t))"

definition equalToValues :: "ztype list \<Rightarrow> zvalue list \<Rightarrow> bool" where
  "equalToValues t vals \<longleftrightarrow> list_all2 (\<lambda>t val. t = v_typ val) t vals"

definition LookupByValues :: "zvalue list \<Rightarrow> type_vectors \<Rightarrow> type_vectors \<times> nat" where
  "LookupByValues vals t = (case tv_index (\<lambda>tv. equalToValues tv vals) 0 t of
      Some k \<Rightarrow> (t, k) | None \<Rightarrow> (t @ [map v_typ vals], length t))"

text \<open>\<open>Types\<close> panics on an index out of range.\<close>

definition TypeVectorTable_Types :: "nat \<Rightarrow> type_vectors \<Rightarrow> ztype list option" where
  "TypeVectorTable_Types i t = (if i < length t then Some (t ! i) else None)"

subsection \<open>A machine that builds a tree of names\<close>

text \<open>The leaves of the tree are the positions of the fields. The stack has the innermost open record first; a record is
  closed when its names are distinct.\<close>

datatype rtree = RLeaf nat | RNode "(gostring \<times> rtree) list"

type_synonym rstack = "(gostring \<times> (gostring \<times> rtree) list) list"

datatype rop = RBegin gostring | RField gostring nat | REnd

fun rstep :: "rop \<Rightarrow> rstack \<Rightarrow> rstack option" where
  "rstep (RBegin n) st = Some ((n, []) # st)"
| "rstep (RField n i) ((m, fs) # st) = Some ((m, fs @ [(n, RLeaf i)]) # st)"
| "rstep REnd ((n, fs) # (m, gs) # st) = (if distinct (map fst fs) then Some ((m, gs @ [(n, RNode fs)]) # st) else None)"
| "rstep _ st = None"

fun rrun :: "rop list \<Rightarrow> rstack \<Rightarrow> rstack option" where
  "rrun [] st = Some st"
| "rrun (p # ps) st = (case rstep p st of None \<Rightarrow> None | Some st \<Rightarrow> rrun ps st)"

definition info_ops :: "nat \<Rightarrow> field_info \<Rightarrow> rop list" where
  "info_ops i fi = map RBegin (containerBegins fi) @ RField (last (fi_field fi)) i # replicate (containerEnds fi) REnd"

fun plan_ops :: "nat \<Rightarrow> field_info list \<Rightarrow> rop list" where
  "plan_ops i [] = []"
| "plan_ops i (fi # fis) = info_ops i fi @ plan_ops (i + 1) fis"

abbreviation root_stack :: rstack where
  "root_stack \<equiv> [([], [])]"

lemma rrun_append: "rrun (ps @ qs) st = (case rrun ps st of None \<Rightarrow> None | Some st \<Rightarrow> rrun qs st)"
  by (induction ps arbitrary: st) (auto split: option.splits)

lemma plan_ops_append: "plan_ops i (xs @ ys) = plan_ops i xs @ plan_ops (i + length xs) ys"
  by (induction xs arbitrary: i) simp_all

subsection \<open>The plan\<close>

text \<open>The path to the innermost open record, and the paths that lead to a leaf.\<close>

definition spath :: "rstack \<Rightarrow> path" where
  "spath st = tl (rev (map fst st))"

fun leaf_at :: "rtree \<Rightarrow> path \<Rightarrow> nat \<Rightarrow> bool" where
  "leaf_at (RLeaf j) [] i = (i = j)"
| "leaf_at (RNode fs) (n # p) i = (\<exists>t. (n, t) \<in> set fs \<and> leaf_at t p i)"
| "leaf_at _ _ i = False"

fun sleaf :: "rstack \<Rightarrow> path \<Rightarrow> nat \<Rightarrow> bool" where
  "sleaf [] p i = False"
| "sleaf ((n, fs) # st) p i = ((\<exists>q. p = spath ((n, fs) # st) @ q \<and> leaf_at (RNode fs) q i) \<or> sleaf st p i)"

text \<open>The names in a record are distinct, that of the record open in it included.\<close>

fun swf :: "rstack \<Rightarrow> bool" where
  "swf ((n, fs) # (m, gs) # st) = (distinct (map fst fs) \<and> n \<notin> fst ` set gs \<and> swf ((m, gs) # st))"
| "swf [(n, fs)] = distinct (map fst fs)"
| "swf [] = False"

fun rne :: "rtree \<Rightarrow> bool" where
  "rne (RLeaf i) = True"
| "rne (RNode fs) = (fs \<noteq> [] \<and> (\<forall>x\<in>set fs. rne (snd x)))"

definition sne :: "rstack \<Rightarrow> bool" where
  "sne st \<longleftrightarrow> (\<forall>(n, fs)\<in>set st. \<forall>x\<in>set fs. rne (snd x))"

lemma spath_Cons: "st \<noteq> [] \<Longrightarrow> spath ((n, fs) # st) = spath st @ [n]"
  by (cases "rev (map fst st)") (simp_all add: spath_def)

lemma spath_head: "spath ((n, fs) # st) = spath ((n, gs) # st)"
  by (simp add: spath_def)

lemma rne_leaf: "rne t \<Longrightarrow> \<exists>p i. leaf_at t p i"
proof (induction t)
  case (RLeaf i)
  have "leaf_at (RLeaf i) [] i" by simp
  then show ?case by blast
next
  case (RNode fs)
  then obtain x where "x \<in> set fs" "rne (snd x)" by (cases fs) auto
  then obtain n t where t: "(n, t) \<in> set fs" "rne t" by (metis prod.collapse)
  with RNode.IH [of "(n, t)" t] obtain p i where "leaf_at t p i" by auto
  with t have "leaf_at (RNode fs) (n # p) i" by auto
  then show ?case by blast
qed

lemma name_leads_to_leaf:
  assumes "sne ((m, fs) # st)" and "n \<in> fst ` set fs"
  shows "\<exists>q i. sleaf ((m, fs) # st) (spath ((m, fs) # st) @ n # q) i"
proof -
  obtain t where t: "(n, t) \<in> set fs" "rne t" using assms by (auto simp: sne_def)
  then obtain q i where "leaf_at t q i" using rne_leaf by blast
  then show ?thesis using t by auto
qed

text \<open>What the steps do to the stack.\<close>

lemma sleaf_end: "sleaf ((m, gs @ [(n, RNode fs)]) # st) p i \<longleftrightarrow> sleaf ((n, fs) # (m, gs) # st) p i"
proof -
  have s: "spath ((n, fs) # (m, gs) # st) = spath ((m, gs) # st) @ [n]" "spath ((m, gs @ [(n, RNode fs)]) # st) = spath ((m, gs) # st)"
    by (simp add: spath_Cons) (rule spath_head)
  have l: "leaf_at (RNode (gs @ [(n, RNode fs)])) q i \<longleftrightarrow> leaf_at (RNode gs) q i \<or> (\<exists>r. q = n # r \<and> leaf_at (RNode fs) r i)" for q
    by (cases q) auto
  show ?thesis unfolding sleaf.simps s l by auto
qed

lemma sleaf_field: "sleaf ((m, fs @ [(n, RLeaf k)]) # st) p i \<longleftrightarrow> sleaf ((m, fs) # st) p i \<or> p = spath ((m, fs) # st) @ [n] \<and> i = k"
proof -
  have l: "leaf_at (RNode (fs @ [(n, RLeaf k)])) q i \<longleftrightarrow> leaf_at (RNode fs) q i \<or> q = [n] \<and> i = k" for q
    by (cases q rule: list.exhaust [case_product list.exhaust [of "tl q"]]) auto
  show ?thesis unfolding sleaf.simps l spath_head [of m "fs @ [(n, RLeaf k)]" st fs] by auto
qed

lemma rrun_ends:
  assumes "swf st" "sne st" "snd (hd st) \<noteq> []" "k < length st"
  shows "\<exists>st'. rrun (replicate k REnd) st = Some st' \<and> swf st' \<and> sne st' \<and> snd (hd st') \<noteq> [] \<and> length st' = length st - k \<and>
    spath st' = take (length st - 1 - k) (spath st) \<and> (\<forall>p i. sleaf st' p i \<longleftrightarrow> sleaf st p i)"
  using assms
proof (induction k arbitrary: st)
  case 0
  then show ?case by (simp add: spath_def)
next
  case (Suc k)
  then obtain n fs m gs st1 where st: "st = (n, fs) # (m, gs) # st1" by (cases st rule: swf.cases) auto
  let ?st = "(m, gs @ [(n, RNode fs)]) # st1"
  have "swf ?st" using Suc.prems(1) st by (cases st1) auto
  moreover have "sne ?st" using Suc.prems(2,3) st by (auto simp: sne_def)
  moreover have "spath ?st = spath ((m, gs) # st1)" by (rule spath_head)
  then have "spath st = spath ?st @ [n]" "length (spath ?st) = length st1" unfolding st by (simp_all add: spath_Cons) (simp add: spath_def)
  moreover have "rrun (replicate (Suc k) REnd) st = rrun (replicate k REnd) ?st" using st Suc.prems(1) by simp
  moreover have "sleaf ?st p i \<longleftrightarrow> sleaf st p i" for p i unfolding st by (rule sleaf_end)
  ultimately show ?case using Suc.IH [of ?st] Suc.prems(4) st by (simp del: sleaf.simps replicate_Suc)
qed

lemma rrun_begins:
  assumes "swf ((m, fs) # st)" "sne ((m, fs) # st)" "ns = [] \<or> hd ns \<notin> fst ` set fs"
  shows "\<exists>st'. rrun (map RBegin ns) ((m, fs) # st) = Some st' \<and> swf st' \<and> sne st' \<and> st' \<noteq> [] \<and> length st' = Suc (length st) + length ns \<and>
    spath st' = spath ((m, fs) # st) @ ns \<and> (\<forall>p i. sleaf st' p i \<longleftrightarrow> sleaf ((m, fs) # st) p i) \<and> snd (hd st') = (if ns = [] then fs else [])"
  using assms
proof (induction ns arbitrary: m fs st)
  case (Cons n ns)
  let ?st = "(m, fs) # st"
  have "swf ((n, []) # ?st)" "sne ((n, []) # ?st)" using Cons.prems by (simp_all add: sne_def)
  moreover have "sleaf ((n, []) # ?st) p i \<longleftrightarrow> sleaf ?st p i" for p i
  proof -
    have "\<not> leaf_at (RNode []) q i" for q by (cases q) simp_all
    then show ?thesis by simp
  qed
  moreover have "spath ((n, []) # ?st) = spath ?st @ [n]" by (simp add: spath_Cons)
  ultimately show ?case using Cons.IH [of n "[]" ?st] by (auto split: if_splits)
qed simp

lemma common_pos_le: "common_pos xs ys \<le> length xs" "common_pos xs ys \<le> length ys"
  by (induction xs ys rule: common_pos.induct) auto

lemma common_pos_take: "take (common_pos xs ys) xs = take (common_pos xs ys) ys"
  by (induction xs ys rule: common_pos.induct) auto

lemma common_pos_self [simp]: "common_pos xs xs = length xs"
  by (induction xs) auto

lemma begin_records_Inr:
  "begin_records rec ks seen bs = Inr (seen', bs') \<Longrightarrow>
   bs' = bs @ map ((!) rec) ks \<and> (\<forall>k\<in>set ks. join 46 (take (k + 1) rec) \<notin> seen) \<and> seen' = seen \<union> (\<lambda>k. join 46 (take (k + 1) rec)) ` set ks"
proof (induction ks arbitrary: seen bs)
  case (Cons k ks)
  have "join 46 (take (k + 1) rec) \<notin> seen" using Cons.prems by (auto simp: Let_def split: if_splits)
  then show ?case using Cons.IH [of "insert (join 46 (take (k + 1) rec)) seen" "bs @ [rec ! k]"] Cons.prems by (auto simp: Let_def)
qed simp

definition with_ends :: "nat \<Rightarrow> field_info list \<Rightarrow> field_info list" where
  "with_ends k infos = (if infos \<noteq> [] then butlast infos @ [(last infos)\<lparr>containerEnds := k\<rparr>] else [])"

lemma with_ends_update:
  "(if length infos > 0 then infos[length infos - 1 := (infos ! (length infos - 1))\<lparr>containerEnds := k\<rparr>] else infos) = with_ends k infos"
proof (cases infos rule: rev_cases)
  case (snoc ys y)
  then show ?thesis by (simp add: with_ends_def list_update_append)
qed (simp add: with_ends_def)

lemma fields_with_ends [simp]: "map fi_field (with_ends k infos) = map fi_field infos" "length (with_ends k infos) = length infos"
  by (cases infos rule: rev_cases; simp add: with_ends_def)+

abbreviation begins_ok :: "field_info \<Rightarrow> bool" where
  "begins_ok fi \<equiv> length (containerBegins fi) \<le> length (fi_field fi) \<and> set (containerBegins fi) \<subseteq> set (fi_field fi)"

lemma begins_with_ends: "(\<forall>fi\<in>set (with_ends k infos). begins_ok fi) \<longleftrightarrow> (\<forall>fi\<in>set infos. begins_ok fi)"
  by (cases infos rule: rev_cases) (simp_all add: with_ends_def)

lemma plan_with_ends:
  assumes "infos \<noteq> []" "containerEnds (last infos) = 0"
  shows "plan_ops i (with_ends k infos) = plan_ops i infos @ replicate k REnd"
proof -
  obtain ys y where y: "infos = ys @ [y]" using assms(1) by (cases infos rule: rev_cases) auto
  then show ?thesis using assms(2) by (simp add: with_ends_def plan_ops_append info_ops_def)
qed

text \<open>A new field: neither a prefix of one of the fields nor the other way round.\<close>

lemma isIn_iff: "isIn f infos \<longleftrightarrow> (\<exists>g\<in>set (map fi_field infos). f \<noteq> [] \<and> g \<noteq> [] \<and> (take (length g) f = g \<or> take (length f) g = f))"
proof -
  have p: "(\<exists>i\<in>{0..<length a}. take (Suc i) a = b) \<longleftrightarrow> b \<noteq> [] \<and> a \<noteq> [] \<and> take (length b) a = b" for a b :: path
  proof
    assume "\<exists>i\<in>{0..<length a}. take (Suc i) a = b"
    then obtain i where "i < length a" "take (Suc i) a = b" by auto
    then show "b \<noteq> [] \<and> a \<noteq> [] \<and> take (length b) a = b" by (cases a) auto
  next
    assume b: "b \<noteq> [] \<and> a \<noteq> [] \<and> take (length b) a = b"
    then have "length b \<le> length a" by (metis length_take min.bounded_iff order_refl)
    with b show "\<exists>i\<in>{0..<length a}. take (Suc i) a = b" by (intro bexI [of _ "length b - 1"]) (cases b; auto)+
  qed
  have "isIn f infos \<longleftrightarrow> (\<exists>g\<in>set (map fi_field infos). (\<exists>i\<in>{0..<length f}. take (Suc i) f = g) \<or> (\<exists>i\<in>{0..<length g}. take (Suc i) g = f))"
    unfolding isIn_def list_ex_iff Path_Equal_def by auto
  then show ?thesis unfolding p by blast
qed

text \<open>One step of the loop, with or without a change of record.\<close>

lemma add_field_Inr:
  assumes "add_field f (seen, infos, cur) = Inr (seen', infos', cur')" and ends: "infos \<noteq> [] \<longrightarrow> containerEnds (last infos) = 0"
  defines "pos \<equiv> common_pos (butlast f) cur"
  shows "f \<noteq> []" "cur' = butlast f" "infos' = with_ends (length cur - pos) infos @ [\<lparr>fi_field = f, containerBegins = drop pos (butlast f), containerEnds = 0\<rparr>]"
    "\<not> isIn f infos" "\<forall>k\<in>{pos..<length (butlast f)}. join 46 (take (k + 1) (butlast f)) \<notin> seen"
    "seen' = seen \<union> (\<lambda>k. join 46 (take (k + 1) (butlast f))) ` {pos..<length (butlast f)}"
proof -
  have b: "take (length f - 1) f = butlast f" by (simp add: butlast_conv_take)
  have d: "map ((!) (butlast f)) [pos..<length (butlast f)] = drop pos (butlast f)"
    by (rule nth_equalityI) (simp_all add: pos_def)
  have same: "with_ends 0 infos = infos" using ends by (cases infos rule: rev_cases) (simp_all add: with_ends_def)
  have isIn: "isIn f (with_ends k infos) = isIn f infos" for k by (simp add: isIn_iff del: set_map)
  show "f \<noteq> []" using assms(1) by (auto simp: add_field_def IsEmpty_def)
  have "cur' = butlast f \<and> infos' = with_ends (length cur - pos) infos @ [\<lparr>fi_field = f, containerBegins = drop pos (butlast f), containerEnds = 0\<rparr>] \<and>
    \<not> isIn f infos \<and> (\<forall>k\<in>{pos..<length (butlast f)}. join 46 (take (k + 1) (butlast f)) \<notin> seen) \<and>
    seen' = seen \<union> (\<lambda>k. join 46 (take (k + 1) (butlast f))) ` {pos..<length (butlast f)}"
  proof (cases "butlast f = cur")
    case True
    then show ?thesis using assms(1) b same by (auto simp: add_field_def Let_def pos_def split: if_splits)
  next
    case False
    then obtain bs where "begin_records (butlast f) [pos..<length (butlast f)] seen [] = Inr (seen', bs)" "cur' = butlast f" "\<not> isIn f (with_ends (length cur - pos) infos)"
      "infos' = with_ends (length cur - pos) infos @ [\<lparr>fi_field = f, containerBegins = bs, containerEnds = 0\<rparr>]"
      using assms(1) b unfolding add_field_def Let_def prod.case with_ends_update by (auto simp: res_bind_Inr_iff pos_def split: if_splits)
    then show ?thesis using begin_records_Inr [of "butlast f" "[pos..<length (butlast f)]" seen "[]" seen' bs] isIn d by simp
  qed
  then show "cur' = butlast f" "infos' = with_ends (length cur - pos) infos @ [\<lparr>fi_field = f, containerBegins = drop pos (butlast f), containerEnds = 0\<rparr>]"
    "\<not> isIn f infos" "\<forall>k\<in>{pos..<length (butlast f)}. join 46 (take (k + 1) (butlast f)) \<notin> seen"
    "seen' = seen \<union> (\<lambda>k. join 46 (take (k + 1) (butlast f))) ` {pos..<length (butlast f)}" by blast+
qed

text \<open>The invariant of the loop: running the plan leaves the current record open, with a leaf at the path of each field.\<close>

definition plan_inv :: "path list \<Rightarrow> rb_state \<Rightarrow> bool" where
  "plan_inv ps s \<longleftrightarrow> (case s of (seen, infos, cur) \<Rightarrow>
     map fi_field infos = ps \<and> cur = (if ps = [] then [] else butlast (last ps)) \<and> (infos \<noteq> [] \<longrightarrow> containerEnds (last infos) = 0) \<and>
     (\<forall>fi\<in>set infos. begins_ok fi) \<and>
     (\<forall>p\<in>set ps. p \<noteq> [] \<and> (\<forall>k. 0 < k \<and> k < length p \<longrightarrow> join 46 (take k p) \<in> seen)) \<and>
     (\<exists>st. rrun (plan_ops 0 infos) root_stack = Some st \<and> swf st \<and> sne st \<and> length st = Suc (length cur) \<and> spath st = cur \<and>
        (ps \<noteq> [] \<longrightarrow> snd (hd st) \<noteq> []) \<and> (\<forall>p i. sleaf st p i \<longleftrightarrow> i < length ps \<and> p = ps ! i)))"

lemma plan_inv_Nil: "plan_inv [] ({}, [], [])"
proof -
  have "\<not> leaf_at (RNode []) q i" for q i by (cases q) simp_all
  then show ?thesis by (simp add: plan_inv_def sne_def spath_def)
qed

lemma butlast_prefix: "f \<noteq> [] \<Longrightarrow> k < length f \<Longrightarrow> take k (butlast f) = take k f"
  by (simp add: butlast_conv_take)

text \<open>A record that begins is not yet in the record around it.\<close>

lemma begins_fresh:
  assumes st: "sne ((m, fs) # st)" "spath ((m, fs) # st) = take pos cur" "\<And>p i. sleaf ((m, fs) # st) p i \<Longrightarrow> p \<in> set ps"
    and seen: "\<And>p k. p \<in> set ps \<Longrightarrow> 0 < k \<Longrightarrow> k < length p \<Longrightarrow> join 46 (take k p) \<in> seen"
    and f: "f \<noteq> []" "\<And>g. g \<in> set ps \<Longrightarrow> take (length g) f \<noteq> g"
    and pos: "pos < length (butlast f)" "pos \<le> length cur" "take pos (butlast f) = take pos cur" "join 46 (take (pos + 1) (butlast f)) \<notin> seen"
  shows "butlast f ! pos \<notin> fst ` set fs"
proof
  assume "butlast f ! pos \<in> fst ` set fs"
  then obtain q i where "sleaf ((m, fs) # st) (take pos cur @ butlast f ! pos # q) i" using name_leads_to_leaf [OF st(1)] st(2) by metis
  then have p: "take pos cur @ butlast f ! pos # q \<in> set ps" (is "?p \<in> _") using st(3) by blast
  have t: "take (pos + 1) (butlast f) = take pos cur @ [butlast f ! pos]" using pos(1,3) by (simp add: take_Suc_conv_app_nth)
  then have tp: "take (pos + 1) ?p = take (pos + 1) (butlast f)" using pos(2) by simp
  show False
  proof (cases q)
    case Nil
    then have "take (length ?p) f = ?p" using t butlast_prefix [OF f(1), of "pos + 1"] pos(1,2) by (simp add: min_absorb2)
    then show False using f(2) [OF p] by simp
  next
    case (Cons x xs)
    then have "pos + 1 < length ?p" using pos(2) by simp
    then have "join 46 (take (pos + 1) ?p) \<in> seen" using seen [OF p, of "pos + 1"] by simp
    then show False using tp pos(4) by simp
  qed
qed

lemma swf_field: "swf ((m, fs) # st) \<Longrightarrow> n \<notin> fst ` set fs \<Longrightarrow> swf ((m, fs @ [(n, t)]) # st)"
  by (cases st) auto

lemma seen_step:
  assumes inv: "plan_inv ps (seen, infos, cur)" and f: "f \<noteq> []" "0 < k" "k < length f" and pos: "pos \<le> length cur" "take pos (butlast f) = take pos cur"
  shows "join 46 (take k f) \<in> seen \<union> (\<lambda>k. join 46 (take (k + 1) (butlast f))) ` {pos..<length (butlast f)}"
proof (cases "k \<le> pos")
  case True
  then have ps: "ps \<noteq> []" "cur = butlast (last ps)" using inv pos f(2) by (auto simp: plan_inv_def split: if_splits)
  have "take k f = take k (take pos (butlast f))" using True f butlast_prefix [of f k] by (simp add: min_def)
  also have "\<dots> = take k cur" using True pos(2) by (simp add: min_def)
  also have "\<dots> = take k (last ps)" using True pos(1) ps(2) f(2) by (simp add: take_butlast)
  finally have "take k f = take k (last ps)" .
  moreover have "last ps \<in> set ps" "k < length (last ps)" using ps f(2) True pos(1) by auto
  ultimately show ?thesis using inv f(2) by (auto simp: plan_inv_def)
next
  case False
  then have "join 46 (take k f) = join 46 (take (k - 1 + 1) (butlast f))" "k - 1 \<in> {pos..<length (butlast f)}"
    using f butlast_prefix [of f k] by auto
  then show ?thesis by blast
qed

lemma plan_step:
  assumes inv: "plan_inv ps (seen, infos, cur)" and add: "add_field f (seen, infos, cur) = Inr s'"
  shows "plan_inv (ps @ [f]) s'"
proof -
  obtain seen' infos' cur' where s': "s' = (seen', infos', cur')" by (cases s')
  define pos where "pos = common_pos (butlast f) cur"
  have infos: "map fi_field infos = ps" "infos \<noteq> [] \<longrightarrow> containerEnds (last infos) = 0" "infos = [] \<longrightarrow> cur = []"
    using inv by (auto simp: plan_inv_def)
  note A = add_field_Inr [OF add [unfolded s'] infos(2), folded pos_def]
  have pos: "pos \<le> length (butlast f)" "pos \<le> length cur" "take pos (butlast f) = take pos cur"
    using common_pos_le [of "butlast f" cur] common_pos_take [of "butlast f" cur] by (simp_all add: pos_def)
  have apart: "g \<in> set ps \<Longrightarrow> take (length g) f \<noteq> g \<and> take (length f) g \<noteq> f" for g
    using A(1,4) inv unfolding isIn_iff infos(1) by (auto simp: plan_inv_def)
  obtain st where st: "rrun (plan_ops 0 infos) root_stack = Some st" "swf st" "sne st" "length st = Suc (length cur)" "spath st = cur"
    "ps \<noteq> [] \<Longrightarrow> snd (hd st) \<noteq> []" "\<And>p i. sleaf st p i \<longleftrightarrow> i < length ps \<and> p = ps ! i" using inv by (auto simp: plan_inv_def)
  have "\<exists>st1. rrun (plan_ops 0 (with_ends (length cur - pos) infos)) root_stack = Some st1 \<and> swf st1 \<and> sne st1 \<and> length st1 = Suc pos \<and>
      spath st1 = take pos cur \<and> (\<forall>p i. sleaf st1 p i \<longleftrightarrow> sleaf st p i)"
  proof (cases "ps = []")
    case True
    then show ?thesis using st infos pos(2) by (auto simp: with_ends_def)
  next
    case False
    then have "infos \<noteq> []" using infos(1) by auto
    note P = plan_with_ends [OF this infos(2) [rule_format, OF this], of 0 "length cur - pos"]
    have "length cur - pos < length st" using st(4) by simp
    from rrun_ends [OF st(2,3) st(6) [OF False] this] show ?thesis
      using P st(1,4,5) pos(2) by (auto simp: rrun_append)
  qed
  then obtain st0 where st0: "rrun (plan_ops 0 (with_ends (length cur - pos) infos)) root_stack = Some st0" "swf st0" "sne st0" "length st0 = Suc pos"
      "spath st0 = take pos cur" "\<And>p i. sleaf st0 p i \<longleftrightarrow> sleaf st p i" by blast
  moreover obtain m fs st1 where "st0 = (m, fs) # st1" using st0(4) by (cases st0) auto
  ultimately have st1: "rrun (plan_ops 0 (with_ends (length cur - pos) infos)) root_stack = Some ((m, fs) # st1)" "swf ((m, fs) # st1)"
    "sne ((m, fs) # st1)" "length st1 = pos" "spath ((m, fs) # st1) = take pos cur" "sleaf ((m, fs) # st1) p i \<longleftrightarrow> sleaf st p i" for p i
    by (auto simp del: sleaf.simps)
  have "drop pos (butlast f) = [] \<or> hd (drop pos (butlast f)) \<notin> fst ` set fs"
  proof (cases "pos < length (butlast f)")
    case True
    have "butlast f ! pos \<notin> fst ` set fs"
      by (rule begins_fresh [OF st1(3,5), of ps seen]) (use st(7) st1(6) inv A(1,5) apart pos True in \<open>auto simp: plan_inv_def\<close>)
    then show ?thesis using True by (simp add: hd_drop_conv_nth)
  qed simp
  from rrun_begins [OF st1(2,3) this] obtain st0' where st0': "rrun (map RBegin (drop pos (butlast f))) ((m, fs) # st1) = Some st0'"
    "swf st0'" "sne st0'" "st0' \<noteq> []" "length st0' = Suc (length st1) + length (drop pos (butlast f))"
    "spath st0' = spath ((m, fs) # st1) @ drop pos (butlast f)" "\<And>p i. sleaf st0' p i \<longleftrightarrow> sleaf ((m, fs) # st1) p i" by blast
  moreover obtain m' gs st2 where "st0' = (m', gs) # st2" using st0'(4) by (cases st0') auto
  moreover have "take pos cur @ drop pos (butlast f) = butlast f" using append_take_drop_id [of pos "butlast f"] pos(3) by simp
  ultimately have st2: "rrun (map RBegin (drop pos (butlast f))) ((m, fs) # st1) = Some ((m', gs) # st2)"
    "swf ((m', gs) # st2)" "sne ((m', gs) # st2)" "length st2 = length (butlast f)" "spath ((m', gs) # st2) = butlast f" "sleaf ((m', gs) # st2) p i \<longleftrightarrow> sleaf st p i" for p i
    using st1(4,5,6) pos(1) by (auto simp del: sleaf.simps)
  have "last f \<notin> fst ` set gs"
  proof
    assume "last f \<in> fst ` set gs"
    then obtain q i where "sleaf st (butlast f @ last f # q) i" using name_leads_to_leaf [OF st2(3)] st2(5,6) by metis
    then have "f @ q \<in> set ps" using st(7) A(1) by (metis append.assoc append_Cons append_Nil append_butlast_last_id nth_mem)
    then show False using apart [of "f @ q"] by simp
  qed
  with st2(2) have "swf ((m', gs @ [(last f, RLeaf (length infos))]) # st2)" by (rule swf_field)
  moreover have "rrun (plan_ops 0 infos') root_stack = Some ((m', gs @ [(last f, RLeaf (length infos))]) # st2)"
    using st1(1) st2(1) by (simp add: A(3) plan_ops_append rrun_append info_ops_def)
  moreover have "sne ((m', gs @ [(last f, RLeaf (length infos))]) # st2)" using st2(3) by (auto simp: sne_def)
  moreover have "sleaf ((m', gs @ [(last f, RLeaf (length infos))]) # st2) p i \<longleftrightarrow> i < length (ps @ [f]) \<and> p = (ps @ [f]) ! i" for p i
    using st2(5,6) st(7) infos(1) A(1) by (auto simp: sleaf_field nth_append less_Suc_eq simp del: sleaf.simps)
  moreover have "spath ((m', gs @ [(last f, RLeaf (length infos))]) # st2) = butlast f" using st2(5) spath_head by metis
  ultimately have "\<exists>st. rrun (plan_ops 0 infos') root_stack = Some st \<and> swf st \<and> sne st \<and> length st = Suc (length cur') \<and> spath st = cur' \<and>
        snd (hd st) \<noteq> [] \<and> (\<forall>p i. sleaf st p i \<longleftrightarrow> i < length (ps @ [f]) \<and> p = (ps @ [f]) ! i)"
    using st2(4) A(2) by (intro exI [of _ "(m', gs @ [(last f, RLeaf (length infos))]) # st2"]) (simp del: sleaf.simps)
  moreover have "\<forall>p\<in>set (ps @ [f]). p \<noteq> [] \<and> (\<forall>k. 0 < k \<and> k < length p \<longrightarrow> join 46 (take k p) \<in> seen')"
  proof -
    have "join 46 (take k f) \<in> seen'" if "0 < k" "k < length f" for k
      using seen_step [OF inv A(1) that pos(2,3)] by (simp only: A(6))
    moreover have "p \<noteq> [] \<and> (\<forall>k. 0 < k \<and> k < length p \<longrightarrow> join 46 (take k p) \<in> seen')" if "p \<in> set ps" for p
      using inv that by (simp add: plan_inv_def A(6))
    ultimately show ?thesis using A(1) by simp
  qed
  moreover have "\<forall>fi\<in>set infos'. begins_ok fi"
    using inv begins_with_ends unfolding A(3) by (auto simp: plan_inv_def dest: in_set_dropD in_set_butlastD)
  ultimately show ?thesis unfolding s' plan_inv_def using A(2,3) infos(1) by (simp del: sleaf.simps)
qed

lemma plan_steps: "plan_inv ps s \<Longrightarrow> add_fields fs s = Inr s' \<Longrightarrow> plan_inv (ps @ fs) s'"
proof (induction fs arbitrary: ps s)
  case (Cons f fs)
  obtain s1 where "add_field f s = Inr s1" "add_fields fs s1 = Inr s'" using Cons.prems(2) by (auto simp: res_bind_Inr_iff)
  moreover obtain seen infos cur where "s = (seen, infos, cur)" by (cases s)
  ultimately show ?case using Cons.IH [of "ps @ [f]" s1] plan_step [of ps seen infos cur f s1] Cons.prems(1) by simp
qed simp

text \<open>Running the plan of a record builder gives one record, with a leaf at the path of each field.\<close>

lemma NewRecordBuilder_plan:
  assumes "NewRecordBuilder fs = Inr r"
  shows "map fi_field (rb_fields r) = fs \<and> rb_builder r = NewBuilder \<and> curField r = 0 \<and> (\<forall>p\<in>set fs. p \<noteq> []) \<and>
    (\<forall>fi\<in>set (rb_fields r). begins_ok fi) \<and>
    (\<exists>n gs. rrun (plan_ops 0 (rb_fields r)) root_stack = Some [(n, gs)] \<and> (\<forall>i<length fs. leaf_at (RNode gs) (fs ! i) i) \<and> distinct (map fst gs))"
proof -
  obtain seen infos cur where s: "add_fields fs ({}, [], []) = Inr (seen, infos, cur)" and r: "r = \<lparr>rb_fields = with_ends (length cur) infos, rb_builder = NewBuilder, curField = 0\<rparr>"
    using assms unfolding NewRecordBuilder_def Let_def with_ends_update by (auto simp: res_bind_Inr_iff)
  have inv: "plan_inv fs (seen, infos, cur)" using plan_steps [OF plan_inv_Nil s] by simp
  then obtain st where st: "rrun (plan_ops 0 infos) root_stack = Some st" "swf st" "sne st" "length st = Suc (length cur)" "fs \<noteq> [] \<Longrightarrow> snd (hd st) \<noteq> []"
    "\<And>p i. sleaf st p i \<longleftrightarrow> i < length fs \<and> p = fs ! i" by (auto simp: plan_inv_def)
  have "\<exists>st'. rrun (plan_ops 0 (rb_fields r)) root_stack = Some st' \<and> swf st' \<and> length st' = 1 \<and> (\<forall>p i. sleaf st' p i \<longleftrightarrow> sleaf st p i)"
  proof (cases "fs = []")
    case True
    then show ?thesis using inv st r by (auto simp: plan_inv_def with_ends_def)
  next
    case False
    then have "infos \<noteq> []" "containerEnds (last infos) = 0" using inv by (auto simp: plan_inv_def)
    from plan_with_ends [OF this] rrun_ends [OF st(2,3) st(5) [OF False], of "length cur"] st(1,4) r show ?thesis by (auto simp: rrun_append)
  qed
  then obtain n gs where gs: "rrun (plan_ops 0 (rb_fields r)) root_stack = Some [(n, gs)]" "swf [(n, gs)]" "\<And>p i. sleaf [(n, gs)] p i \<longleftrightarrow> sleaf st p i"
    by (auto simp: length_Suc_conv)
  moreover have "spath [(n, gs)] = []" by (simp add: spath_def)
  moreover have "\<forall>fi\<in>set (rb_fields r). begins_ok fi"
    using inv begins_with_ends r by (auto simp: plan_inv_def)
  ultimately show ?thesis using inv st(6) r by (auto simp: plan_inv_def)
qed

subsection \<open>The bytes\<close>

fun bop_of :: "ztree list \<Rightarrow> rop \<Rightarrow> bop" where
  "bop_of vs (RBegin n) = Begin"
| "bop_of vs (RField n i) = App (tree_body (vs ! i))"
| "bop_of vs REnd = End"

fun leaf_tree :: "ztree list \<Rightarrow> rtree \<Rightarrow> ztree" where
  "leaf_tree vs (RLeaf i) = ZLeaf (tree_body (vs ! i))"
| "leaf_tree vs (RNode fs) = ZNode (map (\<lambda>x. leaf_tree vs (snd x)) fs)"

text \<open>The operations that built the stack.\<close>

fun emitted :: "ztree list \<Rightarrow> rstack \<Rightarrow> bop list" where
  "emitted vs [] = []"
| "emitted vs ((n, fs) # st) = emitted vs st @ (if st = [] then [] else [Begin]) @ concat (map (\<lambda>x. tree_ops (leaf_tree vs (snd x))) fs)"

lemma emitted_run: "rrun ps st = Some st' \<Longrightarrow> st \<noteq> [] \<Longrightarrow> emitted vs st' = emitted vs st @ map (bop_of vs) ps \<and> st' \<noteq> []"
proof (induction ps arbitrary: st)
  case (Cons p ps)
  then obtain st1 where st1: "rstep p st = Some st1" "rrun ps st1 = Some st'" by (auto split: option.splits)
  then have "emitted vs st1 = emitted vs st @ [bop_of vs p] \<and> st1 \<noteq> []"
    using Cons.prems(2) by (cases "(p, st)" rule: rstep.cases) (auto simp: comp_def split: if_splits)
  then show ?case using Cons.IH [OF st1(2)] by simp
qed simp

lemma begins_run: "builder_run (map (\<lambda>_. Begin) ns @ ops) b = builder_run ops (fold (\<lambda>_. BeginContainer) ns b)"
  by (induction ns arbitrary: b) simp_all

lemma ends_run: "builder_run (replicate k End @ ops) b = res_bind (end_containers k b) (builder_run ops)"
proof (induction k arbitrary: b)
  case (Suc k)
  show ?case by (cases "EndContainer b") (simp_all add: Suc)
qed simp

lemma RB_Appends_run:
  assumes "rb_fields r = pre @ fis" "curField r = length pre" "vs = vpre @ xs" "length vpre = length pre" "length xs = length fis"
    and "builder_run (map (bop_of vs) (plan_ops (length pre) fis)) (rb_builder r) = Inr b"
  shows "RB_Appends (map tree_body xs) r = Inr (r\<lparr>curField := length (rb_fields r), rb_builder := b\<rparr>)"
  using assms
proof (induction fis arbitrary: pre vpre xs r)
  case (Cons fi fis)
  obtain x xs' where xs: "xs = x # xs'" using Cons.prems(5) by (cases xs) auto
  let ?b = "fold (\<lambda>_. BeginContainer) (containerBegins fi) (rb_builder r)"
  have x: "vs ! length pre = x" using Cons.prems(3,4) xs by (metis nth_append_length)
  have "builder_run (map (\<lambda>_. Begin) (containerBegins fi) @ App (tree_body x) # replicate (containerEnds fi) End @
      map (bop_of vs) (plan_ops (length pre + 1) fis)) (rb_builder r) = Inr b"
    using Cons.prems(6) x by (simp add: info_ops_def comp_def)
  then obtain b1 where b1: "end_containers (containerEnds fi) (Builder_Append (tree_body x) ?b) = Inr b1"
      "builder_run (map (bop_of vs) (plan_ops (length pre + 1) fis)) b1 = Inr b"
    unfolding begins_run by (auto simp: ends_run res_bind_Inr_iff)
  let ?r = "r\<lparr>curField := curField r + 1, rb_builder := b1\<rparr>"
  have "RB_Append (tree_body x) r = Inr ?r" using Cons.prems(1,2) b1(1) by (simp add: RB_Append_def Let_def)
  moreover have "RB_Appends (map tree_body xs') ?r = Inr (?r\<lparr>curField := length (rb_fields ?r), rb_builder := b\<rparr>)"
    by (rule Cons.IH [of _ "pre @ [fi]" "vpre @ [x]"]) (use Cons.prems xs b1(2) in simp_all)
  ultimately show ?case using xs by simp
qed auto

lemma builder_run_trees:
  assumes "brel b (f # fs)" and "\<forall>t\<in>set ts. length (tree_bytes t) < 2 ^ 63"
  shows "\<exists>b'. builder_run (concat (map tree_ops ts)) b = Inr b' \<and> brel b' ((f @ concat (map tree_bytes ts)) # fs)"
  using assms
proof (induction ts arbitrary: b f)
  case (Cons t ts)
  obtain b1 where "builder_run (tree_ops t) b = Inr b1" "brel b1 ((f @ tree_bytes t) # fs)"
    using builder_run_tree [OF Cons.prems(1), of t] Cons.prems(2) by auto
  then show ?case using Cons.IH [of b1 "f @ tree_bytes t"] Cons.prems(2) by (simp add: builder_run_append)
qed simp

subsection \<open>The size\<close>

fun op_size :: "bop \<Rightarrow> nat" where
  "op_size Begin = 10"
| "op_size (App v) = length (Append [] v)"
| "op_size _ = 0"

lemma tree_size: "length (tree_bytes t) \<le> sum_list (map op_size (tree_ops t))"
proof (induction t)
  case (ZNode ts)
  have l: "length (Append [] (Some x)) \<le> 10 + length x" for x
    using length_put_uvarint_le [of "toTag (length x)"] by (simp add: Append_Nil)
  have "length (concat (map tree_bytes ts)) \<le> sum_list (map op_size (concat (map tree_ops ts)))"
    using ZNode by (induction ts) (auto simp: add_mono)
  then show ?case using l [of "concat (map tree_bytes ts)"] by simp
qed simp

lemma plan_size:
  assumes "\<forall>fi\<in>set fis. length (containerBegins fi) \<le> length (fi_field fi)" "length vs = n + length fis"
  shows "sum_list (map op_size (map (bop_of vs) (plan_ops n fis))) \<le>
    10 * sum_list (map (\<lambda>fi. length (fi_field fi)) fis) + sum_list (map (\<lambda>v. length (tree_bytes v)) (drop n vs))"
  using assms
proof (induction fis arbitrary: n)
  case (Cons fi fis)
  have r: "sum_list (map (\<lambda>x. op_size (bop_of vs x)) (map RBegin ns)) = 10 * length ns" "sum_list (map (\<lambda>x. op_size (bop_of vs x)) (replicate k REnd)) = 0" for ns k
    by (induction ns) (simp_all add: sum_list_replicate)
  have "drop n vs = vs ! n # drop (n + 1) vs" using Cons.prems(2) Cons_nth_drop_Suc [of n vs] by simp
  then show ?case using Cons.IH [of "n + 1"] Cons.prems r by (simp add: info_ops_def comp_def tree_bytes_body sum_list_replicate)
qed simp

lemma run_balance: "rrun ps st = Some st' \<Longrightarrow> length st' + length (filter (\<lambda>p. p = REnd) ps) = length st + length (filter (\<lambda>p. \<exists>n. p = RBegin n) ps)"
proof (induction ps arbitrary: st)
  case (Cons p ps)
  then obtain st1 where "rstep p st = Some st1" "rrun ps st1 = Some st'" by (auto split: option.splits)
  then show ?case using Cons.IH [of st1] by (cases "(p, st)" rule: rstep.cases) (auto split: if_splits)
qed simp

lemma plan_begins:
  "\<forall>fi\<in>set fis. length (containerBegins fi) \<le> length (fi_field fi) \<Longrightarrow>
   length (filter (\<lambda>p. \<exists>n. p = RBegin n) (plan_ops i fis)) \<le> sum_list (map (\<lambda>fi. length (fi_field fi)) fis)"
proof (induction fis arbitrary: i)
  case (Cons fi fis)
  have "filter (\<lambda>p. \<exists>n. p = RBegin n) (map RBegin ns) = map RBegin ns" for ns by (induction ns) simp_all
  then show ?case using Cons.IH [of "i + 1"] Cons.prems by (simp add: info_ops_def add_mono)
qed simp

lemma plan_ends: "length (filter (\<lambda>p. p = REnd) (plan_ops i fis)) = sum_list (map containerEnds fis)"
proof (induction fis arbitrary: i)
  case (Cons fi fis)
  have "filter (\<lambda>p. p = REnd) (map RBegin ns) = []" for ns by (induction ns) simp_all
  then show ?case using Cons.IH [of "i + 1"] by (simp add: info_ops_def)
qed simp

subsection \<open>The type\<close>

inductive tmatch :: "ztype list \<Rightarrow> ztype \<Rightarrow> rtree \<Rightarrow> bool" for ts where
  leaf: "i < length ts \<Longrightarrow> tmatch ts (ts ! i) (RLeaf i)"
| node: "list_all2 (\<lambda>x y. fst x = fst y \<and> tmatch ts (snd x) (snd y)) tfs fs \<Longrightarrow> tmatch ts (TypeRecord i tfs) (RNode fs)"

inductive_cases tmatch_leaf: "tmatch ts t (RLeaf i)"
inductive_cases tmatch_node: "tmatch ts t (RNode fs)"

abbreviation fields_match :: "ztype list \<Rightarrow> field list \<Rightarrow> (gostring \<times> rtree) list \<Rightarrow> bool" where
  "fields_match ts tfs fs \<equiv> list_all2 (\<lambda>x y. fst x = fst y \<and> tmatch ts (snd x) (snd y)) tfs fs"

definition type_inv :: "ztype list \<Rightarrow> tcontext \<Rightarrow> tstack \<Rightarrow> rstack \<Rightarrow> bool" where
  "type_inv ts c tst st \<longleftrightarrow> ctx_inv c \<and> list_all2 (\<lambda>x y. fst x = fst y \<and> fields_match ts (snd x) (snd y)) tst st \<and>
     (\<forall>(n, tfs)\<in>set tst. short_name n \<and> (\<forall>(m, t)\<in>set tfs. short_name m \<and> known c t))"

lemma LookupTypeRecord_grows: "LookupTypeRecord c fs = (c', r) \<Longrightarrow> length (byID c') \<le> length (byID c) + 1"
  by (auto simp: LookupTypeRecord_def Let_def enter_def split: option.splits)

lemma fields_match_names: "fields_match ts tfs fs \<Longrightarrow> map fst tfs = map fst fs"
  by (induction rule: list_all2_induct) auto

lemma MustLookup_ok:
  assumes "ctx_inv c" "length (byID c) \<le> 2 ^ 32" "\<forall>(n, t)\<in>set fs. short_name n \<and> known c t" "distinct (map fst fs)"
  shows "\<exists>c' i. MustLookupTypeRecord c fs = (c', Inr (TypeRecord i fs)) \<and> ctx_inv c' \<and> extends c c' \<and> known c' (TypeRecord i fs) \<and>
    length (byID c') \<le> length (byID c) + 1"
proof -
  obtain c' r where cr: "LookupTypeRecord c fs = (c', r)" by force
  have "ctx_small c" using assms(2) by (simp add: ctx_small_def)
  from LookupTypeRecord_ok [OF assms(1) this assms(3) cr] assms(4) cr LookupTypeRecord_grows [OF cr] show ?thesis
    by (cases r) (auto simp: MustLookupTypeRecord_def lookup_ok_def)
qed

lemma type_inv_extends: "type_inv ts c tst st \<Longrightarrow> ctx_inv c' \<Longrightarrow> extends c c' \<Longrightarrow> type_inv ts c' tst st"
  by (fastforce simp: type_inv_def extends_def)

lemma type_ends_run:
  assumes "rrun (replicate k REnd) st = Some st'" "type_inv ts c tst st" "length (byID c) + k \<le> 2 ^ 32"
  shows "\<exists>c' tst'. type_ends k c tst = (c', Inr tst') \<and> type_inv ts c' tst' st' \<and> extends c c' \<and> length (byID c') \<le> length (byID c) + k"
  using assms
proof (induction k arbitrary: st tst c)
  case 0
  then show ?case by (simp add: extends_def)
next
  case (Suc k)
  then obtain n fs m gs st1 where st: "st = (n, fs) # (m, gs) # st1" "distinct (map fst fs)" "rrun (replicate k REnd) ((m, gs @ [(n, RNode fs)]) # st1) = Some st'"
    by (cases "(REnd, st)" rule: rstep.cases) (auto split: if_splits)
  then obtain tfs tgs tst1 where tst: "tst = (n, tfs) # (m, tgs) # tst1" "fields_match ts tfs fs" using Suc.prems(2)
    by (auto simp: type_inv_def list_all2_Cons2)
  have "\<forall>(n, t)\<in>set tfs. short_name n \<and> known c t" "ctx_inv c" using Suc.prems(2) tst by (auto simp: type_inv_def)
  with MustLookup_ok [of c tfs] fields_match_names [OF tst(2)] st(2) Suc.prems(3)
  obtain c1 i where c1: "MustLookupTypeRecord c tfs = (c1, Inr (TypeRecord i tfs))" "ctx_inv c1" "extends c c1" "known c1 (TypeRecord i tfs)"
    "length (byID c1) \<le> length (byID c) + 1" by auto
  have "type_inv ts c1 ((m, tgs @ [(n, TypeRecord i tfs)]) # tst1) ((m, gs @ [(n, RNode fs)]) # st1)"
    using type_inv_extends [OF Suc.prems(2) c1(2,3)] tst st(1) c1(4) tmatch.node [OF tst(2)] by (auto simp: type_inv_def list_all2_appendI)
  then obtain c' tst' where "type_ends k c1 ((m, tgs @ [(n, TypeRecord i tfs)]) # tst1) = (c', Inr tst')" "type_inv ts c' tst' st'" "extends c1 c'"
    "length (byID c') \<le> length (byID c1) + k" using Suc.IH [OF st(3)] c1(5) Suc.prems(3) by fastforce
  then show ?case using c1 tst(1) by (auto simp: extends_def)
qed

lemma type_begins_run:
  assumes "rrun (map RBegin ns) st = Some st'" "type_inv ts c tst st" "\<forall>n\<in>set ns. short_name n"
  shows "type_inv ts c (fold (\<lambda>n st. (n, []) # st) ns tst) st'"
  using assms
proof (induction ns arbitrary: st tst)
  case (Cons n ns)
  have "type_inv ts c ((n, []) # tst) ((n, []) # st)" using Cons.prems by (auto simp: type_inv_def)
  then show ?case using Cons.IH [of "(n, []) # st"] Cons.prems by simp
qed simp

lemma type_fields_run:
  assumes "rrun (plan_ops i fis) st = Some st'" "type_inv ts c tst st" "length ts = i + length fis" "\<forall>t\<in>set ts. known c t"
    and "\<forall>fi\<in>set fis. begins_ok fi \<and> fi_field fi \<noteq> [] \<and> (\<forall>n\<in>set (fi_field fi). short_name n)"
    and "length (byID c) + sum_list (map containerEnds fis) \<le> 2 ^ 32"
  shows "\<exists>c' tst'. type_fields fis i ts c tst = (c', Inr tst') \<and> type_inv ts c' tst' st' \<and> extends c c' \<and>
    length (byID c') \<le> length (byID c) + sum_list (map containerEnds fis)"
  using assms
proof (induction fis arbitrary: i st c tst)
  case Nil
  then show ?case by (simp add: extends_def)
next
  case (Cons fi fis)
  obtain st1 where st1: "rrun (map RBegin (containerBegins fi)) st = Some st1"
      "rrun (RField (last (fi_field fi)) i # replicate (containerEnds fi) REnd @ plan_ops (i + 1) fis) st1 = Some st'"
    using Cons.prems(1) by (auto simp: info_ops_def rrun_append split: option.splits)
  then obtain m fs st2 st3 where st2: "st1 = (m, fs) # st2" "rrun (replicate (containerEnds fi) REnd) ((m, fs @ [(last (fi_field fi), RLeaf i)]) # st2) = Some st3"
      "rrun (plan_ops (i + 1) fis) st3 = Some st'" by (cases st1) (auto simp: rrun_append split: option.splits)
  have short: "\<forall>n\<in>set (containerBegins fi). short_name n" "short_name (last (fi_field fi))" using Cons.prems(5) by auto
  obtain tfs tst2 where tst: "fold (\<lambda>n st. (n, []) # st) (containerBegins fi) tst = (m, tfs) # tst2" "type_inv ts c ((m, tfs) # tst2) ((m, fs) # st2)"
    using type_begins_run [OF st1(1) Cons.prems(2) short(1)] st2(1) by (auto simp: type_inv_def list_all2_Cons2)
  have i: "i < length ts" "known c (ts ! i)" using Cons.prems(3,4) by auto
  have "type_inv ts c ((m, tfs @ [(last (fi_field fi), ts ! i)]) # tst2) ((m, fs @ [(last (fi_field fi), RLeaf i)]) # st2)"
    using tst(2) i short(2) by (auto simp: type_inv_def intro!: list_all2_appendI tmatch.leaf)
  from type_ends_run [OF st2(2) this] obtain c1 tst3 where c1: "type_ends (containerEnds fi) c ((m, tfs @ [(last (fi_field fi), ts ! i)]) # tst2) = (c1, Inr tst3)"
      "type_inv ts c1 tst3 st3" "extends c c1" "length (byID c1) \<le> length (byID c) + containerEnds fi" using Cons.prems(6) by auto
  have "\<forall>t\<in>set ts. known c1 t" using Cons.prems(4) c1(3) by (auto simp: extends_def)
  from Cons.IH [OF st2(3) c1(2) _ this] obtain c' tst' where "type_fields fis (i + 1) ts c1 tst3 = (c', Inr tst')" "type_inv ts c' tst' st'" "extends c1 c'"
      "length (byID c') \<le> length (byID c1) + sum_list (map containerEnds fis)" using Cons.prems(3,5,6) c1(4) by auto
  moreover have "Leaf (fi_field fi) = Some (last (fi_field fi))" using Cons.prems(5) by (simp add: Leaf_def last_conv_nth)
  ultimately show ?case using tst(1) i(1) c1 by (auto simp: extends_def)
qed

subsection \<open>The value\<close>

fun value_tree :: "ztree list \<Rightarrow> rtree \<Rightarrow> ztree" where
  "value_tree vs (RLeaf i) = vs ! i"
| "value_tree vs (RNode fs) = ZNode (map (\<lambda>x. value_tree vs (snd x)) fs)"

lemma value_tree_bytes: "tree_bytes (value_tree vs t) = tree_bytes (leaf_tree vs t)"
proof (induction t)
  case (RNode fs)
  then have "map (tree_bytes \<circ> (\<lambda>x. value_tree vs (snd x))) fs = map (tree_bytes \<circ> (\<lambda>x. leaf_tree vs (snd x))) fs"
    by (auto intro: prod.exhaust)
  then show ?case by (simp add: comp_def cong: map_cong)
qed (simp add: tree_bytes_body)

lemma known_names_ok: "ids_ok c \<Longrightarrow> known c t \<Longrightarrow> names_ok t"
proof (induction t rule: names_ok.induct)
  case (1 i fs)
  have "distinct (map fst fs)" using known_entry(1) [OF 1(2,3)] by (simp add: entry_ok_def)
  moreover have "known c (snd f)" if "f \<in> set fs" for f using known_parts [OF 1(2,3), of "snd f"] that by auto
  ultimately show ?case using 1 by simp
next
  case (2 i n t)
  then show ?case using known_parts [OF 2(2,3), of t] by simp
qed simp_all

lemma tmatch_typed:
  assumes "tmatch ts t r" "list_all2 has_type ts vs"
  shows "has_type t (value_tree vs r)"
  using assms(1)
proof induction
  case (leaf i)
  then show ?case using assms(2) by (simp add: list_all2_nthD)
next
  case (node tfs fs i)
  then have "list_all2 (\<lambda>f v. has_type (snd f) v) tfs (map (\<lambda>x. value_tree vs (snd x)) fs)"
    by (simp add: list_all2_conv_all_nth)
  then show ?case by (simp add: has_type.rec)
qed

lemma tmatch_at_path:
  assumes "tmatch ts t r" "names_ok t" "leaf_at r p i"
  shows "at_path t (value_tree vs r) p = Some (ts ! i, vs ! i)"
  using assms
proof (induction r p i arbitrary: t rule: leaf_at.induct)
  case (1 j i)
  then show ?case by (auto elim: tmatch_leaf)
next
  case (2 fs n p i)
  then obtain k tfs u where t: "t = TypeRecord k tfs" "fields_match ts tfs fs" and u: "(n, u) \<in> set fs" "leaf_at u p i" by (auto elim: tmatch_node)
  then obtain j where j: "j < length fs" "fs ! j = (n, u)" by (auto simp: in_set_conv_nth)
  then have tj: "fst (tfs ! j) = n" "tmatch ts (snd (tfs ! j)) u" "length tfs = length fs" using t(2) by (auto simp: list_all2_conv_all_nth)
  have ok: "distinct (map fst tfs)" "names_ok (snd (tfs ! j))" using 2(3) t(1) j(1) tj(3) by auto
  have "map_of (zip (map fst tfs) (zip (map snd tfs) (map (\<lambda>x. value_tree vs (snd x)) fs))) n = Some (snd (tfs ! j), value_tree vs u)"
    using map_of_zip_nth [of "map fst tfs" "zip (map snd tfs) (map (\<lambda>x. value_tree vs (snd x)) fs)" j] ok(1) j tj by simp
  then show ?case using 2(1) [OF tj(2) ok(2) u(2)] t(1) by simp
qed simp_all

lemma record_builder_bytes:
  assumes plan: "rb_builder r = NewBuilder" "curField r = 0" "rrun (plan_ops 0 (rb_fields r)) root_stack = Some [(n, gs)]" "\<forall>fi\<in>set (rb_fields r). begins_ok fi"
    and l: "length vs = length (rb_fields r)"
    and fit: "sum_list (map (\<lambda>v. length (tree_bytes v)) vs) + 10 * sum_list (map (\<lambda>fi. length (fi_field fi)) (rb_fields r)) + 10 < 2 ^ 63"
  shows "\<exists>b. RB_Appends (map tree_body vs) r = Inr (r\<lparr>curField := length (rb_fields r), rb_builder := b\<rparr>) \<and> containers b = [] \<and>
    (gs \<noteq> [] \<longrightarrow> bbytes b = tree_body (value_tree vs (RNode gs))) \<and> length (tree_bytes (value_tree vs (RNode gs))) < 2 ^ 63"
proof -
  let ?v = "value_tree vs (RNode gs)" and ?ops = "map (bop_of vs) (plan_ops 0 (rb_fields r))" and ?ts = "map (\<lambda>x. leaf_tree vs (snd x)) gs"
  have ops: "?ops = concat (map tree_ops ?ts)" using emitted_run [OF plan(3), of vs] by (simp add: comp_def)
  have "length (tree_bytes ?v) \<le> 10 + sum_list (map op_size ?ops)"
    using tree_size [of "leaf_tree vs (RNode gs)"] ops by (simp add: value_tree_bytes del: value_tree.simps)
  then have size: "length (tree_bytes ?v) < 2 ^ 63" using plan_size [of "rb_fields r" vs 0] plan(4) l fit by simp
  then have parts: "\<forall>t\<in>set ?ts. length (tree_bytes t) < 2 ^ 63" using length_parts [of _ ?ts] unfolding value_tree_bytes by auto
  from builder_run_trees [OF brel_New parts] obtain b where b: "builder_run ?ops NewBuilder = Inr b" "brel b [concat (map tree_bytes ?ts)]"
    unfolding ops by auto
  have "RB_Appends (map tree_body vs) r = Inr (r\<lparr>curField := length (rb_fields r), rb_builder := b\<rparr>)"
    by (rule RB_Appends_run [of r "[]" "rb_fields r" vs "[]"]) (use plan l b in simp_all)
  moreover have "bbytes b = tree_body ?v" if "gs \<noteq> []"
  proof -
    have "concat (map tree_bytes ?ts) \<noteq> []" using that by (cases gs) auto
    then show ?thesis using b(2) by (cases "bbytes b") (auto simp: brel_iff comp_def value_tree_bytes)
  qed
  ultimately show ?thesis using b(2) size by (auto simp: brel_iff simp del: value_tree.simps)
qed

lemma record_builder_type:
  assumes plan: "rrun (plan_ops 0 (rb_fields r)) root_stack = Some [(n, gs)]" "distinct (map fst gs)"
    and fis: "\<forall>fi\<in>set (rb_fields r). begins_ok fi \<and> fi_field fi \<noteq> [] \<and> (\<forall>n\<in>set (fi_field fi). short_name n)"
    and c: "ctx_inv c" "\<forall>t\<in>set types. known c t" "length types = length (rb_fields r)"
    and fit: "length (byID c) + sum_list (map (\<lambda>fi. length (fi_field fi)) (rb_fields r)) < 2 ^ 32"
  shows "\<exists>c' t. RB_Type r types c = (c', Inr t) \<and> ctx_inv c' \<and> known c' t \<and> tmatch types t (RNode gs)"
proof -
  have ends: "sum_list (map containerEnds (rb_fields r)) \<le> sum_list (map (\<lambda>fi. length (fi_field fi)) (rb_fields r))"
    using run_balance [OF plan(1)] plan_begins [of "rb_fields r" 0] plan_ends [of 0 "rb_fields r"] fis by simp
  have "type_inv types c [([], [])] root_stack" using c(1) by (simp add: type_inv_def short_name_def)
  from type_fields_run [OF plan(1) this] obtain c1 tst where c1: "type_fields (rb_fields r) 0 types c [([], [])] = (c1, Inr tst)" "type_inv types c1 tst [(n, gs)]"
      "length (byID c1) \<le> length (byID c) + sum_list (map containerEnds (rb_fields r))"
    using c fis ends fit by auto
  then obtain tfs where tfs: "tst = [(n, tfs)]" "fields_match types tfs gs" "ctx_inv c1" "\<forall>(m, t)\<in>set tfs. short_name m \<and> known c1 t"
    by (auto simp: type_inv_def list_all2_Cons2)
  from MustLookup_ok [OF tfs(3) _ tfs(4)] fields_match_names [OF tfs(2)] plan(2) c1(3) ends fit
  obtain c2 k where "MustLookupTypeRecord c1 tfs = (c2, Inr (TypeRecord k tfs))" "ctx_inv c2" "known c2 (TypeRecord k tfs)" by auto
  then show ?thesis using c1(1) tfs(1) tmatch.node [OF tfs(2), of k] by (auto simp: RB_Type_def)
qed

subsection \<open>Properties\<close>

text \<open>
  C30: a record builder builds the record its paths describe. When it accepts a list of paths, appending a value for each
  path gives bytes and \<open>Type\<close> gives a record type that fit together: looking a path up in the
  record leads to the value appended for it, with its type. Neither panics, one value more does, and \<open>Reset\<close> makes the
  builder as new. The values are of types of the context, and the limits of four billion types and of \<open>2 ^ 63\<close> bytes are not reached.
\<close>

theorem record_builder_builds:
  assumes r: "NewRecordBuilder paths = Inr r" and vs: "list_all2 has_type types vs" "length types = length paths"
    and c: "ctx_inv c" "\<forall>t\<in>set types. known c t" "\<forall>p\<in>set paths. \<forall>n\<in>set p. length n < 2 ^ 32"
    and fit: "length (byID c) + sum_list (map length paths) < 2 ^ 32"
      "sum_list (map (\<lambda>v. length (tree_bytes v)) vs) + 10 * sum_list (map length paths) + 10 < 2 ^ 63"
  shows "\<exists>r' b c' t. RB_Appends (map tree_body vs) r = Inr r' \<and> RB_Encode r' = Inr (Inr b) \<and> RB_Type r types c = (c', Inr t) \<and> ctx_inv c' \<and>
    (\<forall>i<length paths. DerefPath fo (Some (NewValue t b)) (paths ! i) = Inr (Some (NewValue (types ! i) (tree_body (vs ! i))))) \<and>
    (\<forall>leaf. RB_Append leaf r' = Inl RBIndex) \<and> RB_Reset r' = r"
proof -
  obtain n gs where plan: "map fi_field (rb_fields r) = paths" "rb_builder r = NewBuilder" "curField r = 0" "\<forall>p\<in>set paths. p \<noteq> []"
    "\<forall>fi\<in>set (rb_fields r). begins_ok fi" "rrun (plan_ops 0 (rb_fields r)) root_stack = Some [(n, gs)]"
    "\<And>i. i < length paths \<Longrightarrow> leaf_at (RNode gs) (paths ! i) i" "distinct (map fst gs)" using NewRecordBuilder_plan [OF r] by auto
  have l: "length (rb_fields r) = length paths" "length vs = length paths" using plan(1) vs by (auto dest: list_all2_lengthD)
  have lens: "map (\<lambda>fi. length (fi_field fi)) (rb_fields r) = map length paths" unfolding plan(1) [symmetric] by simp
  have fis: "\<forall>fi\<in>set (rb_fields r). begins_ok fi \<and> fi_field fi \<noteq> [] \<and> (\<forall>n\<in>set (fi_field fi). short_name n)"
    using plan(4,5) c(3) unfolding plan(1) [symmetric] by (auto simp: short_name_def)
  let ?v = "value_tree vs (RNode gs)"
  obtain b where b: "RB_Appends (map tree_body vs) r = Inr (r\<lparr>curField := length (rb_fields r), rb_builder := b\<rparr>)" "containers b = []"
      "gs \<noteq> [] \<Longrightarrow> bbytes b = tree_body ?v" "length (tree_bytes ?v) < 2 ^ 63"
    using record_builder_bytes [OF plan(2,3,6,5), of vs] l fit(2) lens by auto
  obtain c' t where t: "RB_Type r types c = (c', Inr t)" "ctx_inv c'" "known c' t" "tmatch types t (RNode gs)"
    using record_builder_type [OF plan(6,8) fis c(1,2)] vs(2) l(1) fit(1) lens by auto
  have names: "names_ok t" by (rule known_names_ok [OF ctx_invD(1) [OF t(2)] t(3)])
  have "DerefPath fo (Some (NewValue t (bbytes b))) (paths ! i) = Inr (Some (NewValue (types ! i) (tree_body (vs ! i))))" if "i < length paths" for i
  proof -
    have "gs \<noteq> []" using plan(7) [OF that] by (cases "paths ! i") auto
    then show ?thesis using DerefPath_tree [OF tmatch_typed [OF t(4) vs(1)] names b(4), of fo "paths ! i"] tmatch_at_path [OF t(4) names plan(7) [OF that], of vs] b(3)
      by (simp del: value_tree.simps at_path.simps)
  qed
  moreover have "RB_Reset (r\<lparr>curField := length (rb_fields r), rb_builder := b\<rparr>) = r" using plan(2,3) by (simp add: RB_Reset_def Builder_Reset_def NewBuilder_def)
  ultimately show ?thesis using b(1,2) t(1,2)
    by (intro exI [of _ "r\<lparr>curField := length (rb_fields r), rb_builder := b\<rparr>"] exI [of _ "bbytes b"] exI [of _ c'] exI [of _ t])
      (auto simp: RB_Append_def RB_Encode_def Builder_Bytes_def)
qed

text \<open>
  Records are told apart by their names joined with dots, so a name with a dot can stand for another record: these
  paths are refused although the records differ.
\<close>

lemma record_builder_dots:
  "NewRecordBuilder [[str ''a.b'', str ''x''], [str ''a'', str ''b'', str ''y'']] = Inl (NotAdjacent (str ''a.b''))"
  by code_simp

definition demo_paths :: "path list" where
  "demo_paths = [[str ''a''], [str ''b'', str ''c''], [str ''b'', str ''d''], [str ''x'', str ''y'', str ''z'']]"

theorem record_builder_builds_witness:
  "\<exists>r r' b c' t. NewRecordBuilder demo_paths = Inr r \<and> RB_Appends [Some [2], Some [4], None, Some [6]] r = Inr r' \<and> RB_Encode r' = Inr (Inr b) \<and>
     RB_Type r (replicate 4 (TypePrim TypeInt64)) NewContext = (c', Inr t) \<and>
     DerefPath demo_fo (Some (NewValue t b)) [str ''x'', str ''y'', str ''z''] = Inr (Some (NewValue (TypePrim TypeInt64) (Some [6])))"
proof -
  let ?vs = "[ZLeaf (Some [2]), ZLeaf (Some [4]), ZLeaf None, ZLeaf (Some [6])]"
  have "isl (NewRecordBuilder demo_paths) = False" by code_simp
  then obtain r where r: "NewRecordBuilder demo_paths = Inr r" by (cases "NewRecordBuilder demo_paths") auto
  have "list_all2 has_type (replicate 4 (TypePrim TypeInt64)) ?vs" by (simp add: numeral_eq_Suc has_type.null has_type.prim)
  moreover have "sum_list (map (\<lambda>v. length (tree_bytes v)) ?vs) = 7" "length (byID NewContext) = 30" by code_simp+
  moreover have "length (replicate 4 (TypePrim TypeInt64)) = length demo_paths" "sum_list (map length demo_paths) = 8" "\<forall>p\<in>set demo_paths. \<forall>n\<in>set p. length n < 2 ^ 32"
    by (simp_all add: demo_paths_def str_def)
  ultimately obtain r' b c' t where "RB_Appends (map tree_body ?vs) r = Inr r'" "RB_Encode r' = Inr (Inr b)" "RB_Type r (replicate 4 (TypePrim TypeInt64)) NewContext = (c', Inr t)"
      and d: "\<And>i. i < length demo_paths \<Longrightarrow> DerefPath demo_fo (Some (NewValue t b)) (demo_paths ! i) = Inr (Some (NewValue (replicate 4 (TypePrim TypeInt64) ! i) (tree_body (?vs ! i))))"
    using record_builder_builds [OF r, of "replicate 4 (TypePrim TypeInt64)" ?vs NewContext demo_fo] ctx_inv_New by auto
  then show ?thesis using r d [of 3] by (auto simp: demo_paths_def)
qed

subsection \<open>Type vectors are numbered\<close>

lemma tv_index_None: "tv_index f n xs = None \<longleftrightarrow> (\<forall>x\<in>set xs. \<not> f x)"
  by (induction xs arbitrary: n) auto

lemma tv_index_Some: "tv_index f n xs = Some k \<Longrightarrow> n \<le> k \<and> k - n < length xs \<and> f (xs ! (k - n))"
  by (induction xs arbitrary: n) (force simp: nth_Cons' split: if_splits)+

lemma tv_index_append: "tv_index f n (xs @ ys) = (case tv_index f n xs of Some k \<Rightarrow> Some k | None \<Rightarrow> tv_index f (n + length xs) ys)"
  by (induction xs arbitrary: n) (auto split: option.splits)

lemma equalToValues_iff: "equalToValues ts vals \<longleftrightarrow> ts = map v_typ vals"
  by (simp add: equalToValues_def list_all2_conv_all_nth list_eq_iff_nth_eq) auto

text \<open>
  A vector is found under the number it was entered with, whether it is looked up by types or by the values that
  have them, whatever is entered later; new vectors get the next number, and no vector has two.
\<close>

lemma type_vectors_numbered:
  assumes "distinct t" and "TypeVectorTable_Lookup ts t = (t', k)"
  shows "distinct t' \<and> TypeVectorTable_Types k t' = Some ts \<and> t' = t @ (if ts \<in> set t then [] else [ts]) \<and>
    TypeVectorTable_Lookup ts (t' @ rest) = (t' @ rest, k) \<and> LookupByValues vals t = TypeVectorTable_Lookup (map v_typ vals) t"
proof (cases "tv_index (\<lambda>tv. tv = ts) 0 t")
  case None
  then have "ts \<notin> set t" by (auto simp: tv_index_None)
  then show ?thesis using assms None
    by (auto simp: TypeVectorTable_Lookup_def TypeVectorTable_Types_def LookupByValues_def equalToValues_iff tv_index_append)
next
  case (Some j)
  then have "j < length t" "t ! j = ts" using tv_index_Some [of _ 0 t j] by auto
  then show ?thesis using assms Some
    by (auto simp: TypeVectorTable_Lookup_def TypeVectorTable_Types_def LookupByValues_def equalToValues_iff tv_index_append)
qed

end
