(* ===== verification/Journal.thy ===== *)
theory Journal
  imports Go_Prelude "HOL-Library.AList"
begin

text \<open>
  The journal of the data lake (\<open>lake/journal\<close>): a log of numbered files with a HEAD and a TAIL
  file (\<open>queue.go\<close>, \<open>reader.go\<close>), and the key-value store kept in it (\<open>store.go\<close>), on which the
  pool and branch configurations are built. A log file is modelled by the sequence of values it
  holds; the encoding of values as BSUP is not modelled. Journal entries are of any type \<open>'e\<close> with a key.
\<close>

type_synonym jid = u64

subsection \<open>Files and errors\<close>

text \<open>
  A value of a log file: the three kinds of journal records, a value that decodes to some other
  entry type, or one that does not decode.
\<close>

datatype 'e jval = JAdd 'e | JUpdate 'e | JDelete gostring | JOther | JBad

text \<open>
  The snapshot file: a sequence of values, the first the log position as a uint64, that ends with
  the end of the file or with a read error.
\<close>

datatype 'e sval = SUint jid | SEntry 'e | SBad

datatype jerror =
    ErrNotExist
  | ErrExist
  | BadHead bytes
  | CtxDone
  | ReadErr
  | UnmarshalErr
  | UpdateMissing gostring
  | UnknownType
  | CorruptSnapshot
  | NilMapPanic
  | ErrKeyExists
  | ErrNoSuchKey
  | ErrConstraint
  | ErrRetriesExceeded

record 'e jdisk =
  headFile :: "bytes option"
  tailFile :: "bytes option"
  logFiles :: "jid \<rightharpoonup> 'e jval list"
  snapFile :: "('e sval list \<times> bool) option"
  exclusivePut :: bool

definition get_file :: "'a option \<Rightarrow> jerror + 'a" where
  "get_file f = (case f of None \<Rightarrow> Inl ErrNotExist | Some b \<Rightarrow> Inr b)"

subsection \<open>Numbers as text (strconv.FormatUint, strconv.ParseUint)\<close>

function dec_digits :: "nat \<Rightarrow> bytes" where
  "dec_digits n = (if n < 10 then [of_nat (48 + n)] else dec_digits (n div 10) @ [of_nat (48 + n mod 10)])"
  by pat_completeness auto
termination by (relation "measure id") auto

declare dec_digits.simps [simp del]

definition FormatUint :: "u64 \<Rightarrow> bytes" where
  "FormatUint x = dec_digits (unat x)"

fun parse_digits :: "nat \<Rightarrow> bytes \<Rightarrow> nat option" where
  "parse_digits acc [] = Some acc"
| "parse_digits acc (b # bs) =
     (if 48 \<le> b \<and> b \<le> 57 then parse_digits (10 * acc + (unat b - 48)) bs else None)"

definition ParseUint :: "bytes \<Rightarrow> u64 option" where
  "ParseUint s = (if s = [] then None else case parse_digits 0 s of
      None \<Rightarrow> None | Some n \<Rightarrow> if n < 2 ^ 64 then Some (of_nat n) else None)"

subsection \<open>The queue (queue.go)\<close>

definition MaxReadRetry :: nat where "MaxReadRetry = 10"

text \<open>
  \<open>readID\<close> reads again when the contents do not parse, since they may be half written. \<open>g k\<close> is
  what the k-th read returns, \<open>rnd\<close> the random numbers and \<open>cancelled\<close> the context. The timeout
  is in nanoseconds.
\<close>

definition parse_id_file :: "bytes \<Rightarrow> (jid \<times> jid) option" where
  "parse_id_file b = (let list = Split b 32 in
     case ParseUint (list ! 0) of
       None \<Rightarrow> None
     | Some i \<Rightarrow> if length list = 1 then Some (i, 0)
         else (case ParseUint (list ! 1) of None \<Rightarrow> None | Some base \<Rightarrow> Some (i, base)))"

function read_id_loop :: "(nat \<Rightarrow> jerror + bytes) \<Rightarrow> (nat \<Rightarrow> nat) \<Rightarrow> (nat \<Rightarrow> bool) \<Rightarrow> nat \<Rightarrow> nat \<Rightarrow>
    jerror + jid \<times> jid" where
  "read_id_loop g rnd cancelled retry timeout =
     res_bind (g retry) (\<lambda>b. case parse_id_file b of
        Some r \<Rightarrow> Inr r
      | None \<Rightarrow> let retry = retry + 1 in
          if retry > MaxReadRetry \<or> timeout > 5000000000 then Inl (BadHead b)
          else if cancelled retry then Inl CtxDone
          else let t = 2 * timeout in read_id_loop g rnd cancelled retry (t + rnd retry mod t))"
  by pat_completeness auto
termination
  by (relation "measure (\<lambda>(g, rnd, cancelled, retry, timeout). MaxReadRetry + 1 - retry)") auto

declare read_id_loop.simps [simp del]

definition readID :: "(nat \<Rightarrow> jerror + bytes) \<Rightarrow> (nat \<Rightarrow> nat) \<Rightarrow> (nat \<Rightarrow> bool) \<Rightarrow> jerror + jid \<times> jid" where
  "readID g rnd cancelled = read_id_loop g rnd cancelled 0 1000000"

text \<open>A read of a file that does not change meanwhile, in a context that is not cancelled.\<close>

definition read_id_file :: "bytes option \<Rightarrow> jerror + jid \<times> jid" where
  "read_id_file f = readID (\<lambda>_. get_file f) (\<lambda>_. 0) (\<lambda>_. False)"

definition ReadHead :: "'e jdisk \<Rightarrow> jerror + jid" where
  "ReadHead d = res_bind (read_id_file (headFile d)) (\<lambda>(i, _). Inr i)"

definition ReadTail :: "'e jdisk \<Rightarrow> jerror + jid \<times> jid" where
  "ReadTail d = read_id_file (tailFile d)"

definition writeHead :: "jid \<Rightarrow> 'e jdisk \<Rightarrow> 'e jdisk" where
  "writeHead i d = d\<lparr>headFile := Some (FormatUint i)\<rparr>"

definition writeTail :: "jid \<Rightarrow> jid \<Rightarrow> 'e jdisk \<Rightarrow> 'e jdisk" where
  "writeTail i base d = d\<lparr>tailFile := Some (FormatUint i @ [32] @ FormatUint base)\<rparr>"

definition MoveTail :: "jid \<Rightarrow> jid \<Rightarrow> 'e jdisk \<Rightarrow> 'e jdisk" where
  "MoveTail i base d = writeTail i base d"

definition Boundaries :: "'e jdisk \<Rightarrow> jerror + jid \<times> jid" where
  "Boundaries d = res_bind (ReadHead d) (\<lambda>head. res_bind (ReadTail d) (\<lambda>(tail, _). Inr (head, tail)))"

text \<open>
  \<open>CommitAt\<close> writes the next log file unless it exists, or, on an engine without exclusive
  creation, whether or not it exists, and then HEAD. \<open>act\<close> is what other processes do to the files
  between the two writes.
\<close>

definition put_log :: "jid \<Rightarrow> 'e jval list \<Rightarrow> 'e jdisk \<Rightarrow> 'e jdisk" where
  "put_log i b d = d\<lparr>logFiles := (logFiles d)(i \<mapsto> b)\<rparr>"

definition CommitAt :: "('e jdisk \<Rightarrow> 'e jdisk) \<Rightarrow> jid \<Rightarrow> 'e jval list \<Rightarrow> 'e jdisk \<Rightarrow> 'e jdisk \<times> (jerror + unit)" where
  "CommitAt act at b d =
     (if exclusivePut d then
        (if logFiles d (at + 1) \<noteq> None then (d, Inl ErrExist)
         else (writeHead (at + 1) (act (put_log (at + 1) b d)), Inr ()))
      else (writeHead (at + 1) (act (put_log (at + 1) b d)), Inr ()))"

definition Queue_Commit :: "('e jdisk \<Rightarrow> 'e jdisk) \<Rightarrow> 'e jval list \<Rightarrow> 'e jdisk \<Rightarrow> 'e jdisk \<times> (jerror + jid)" where
  "Queue_Commit act b d = (case ReadHead d of
      Inl e \<Rightarrow> (d, Inl e)
    | Inr head \<Rightarrow> (case CommitAt act head b d of
        (d, Inl e) \<Rightarrow> (d, Inl e)
      | (d, Inr _) \<Rightarrow> (d, Inr (head + 1))))"

definition Queue_Load :: "jid \<Rightarrow> 'e jdisk \<Rightarrow> jerror + 'e jval list" where
  "Queue_Load i d = get_file (logFiles d i)"

text \<open>
  \<open>Reader\<close>: the files from \<open>tail\<close> to \<open>head\<close>, one after the other, as the values read and the
  error that ended the reading, if any.
\<close>

function read_log :: "'e jdisk \<Rightarrow> jid \<Rightarrow> jid \<Rightarrow> 'e jval list \<times> jerror option" where
  "read_log d cursor stop =
     (if cursor \<ge> stop then ([], None)
      else case Queue_Load (cursor + 1) d of
        Inl e \<Rightarrow> ([], Some e)
      | Inr b \<Rightarrow> (case read_log d (cursor + 1) stop of (vs, e) \<Rightarrow> (b @ vs, e)))"
  by pat_completeness auto
termination
proof (relation "measure (\<lambda>(d, cursor, stop). unat (stop - cursor))")
  fix d :: "'e jdisk" and cursor stop :: jid and b :: "'e jval list"
  assume "\<not> stop \<le> cursor"
  then have "stop - cursor \<noteq> 0" by auto
  then have "unat (stop - cursor - 1) < unat (stop - cursor)"
    by (simp add: unat_minus_one unat_gt_0)
  then show "((d, cursor + 1, stop), (d, cursor, stop)) \<in> measure (\<lambda>(d, cursor, stop). unat (stop - cursor))"
    by (simp add: diff_diff_add)
qed simp

declare read_log.simps [simp del]

definition NewReader :: "'e jdisk \<Rightarrow> jid \<Rightarrow> jid \<Rightarrow> 'e jval list \<times> jerror option" where
  "NewReader d head tail = read_log d (tail - 1) head"

text \<open>\<open>Open\<close>: a position of 0 means the one in the HEAD or TAIL file.\<close>

definition Queue_Open :: "'e jdisk \<Rightarrow> jid \<Rightarrow> jid \<Rightarrow> jerror + 'e jval list \<times> jerror option" where
  "Queue_Open d head tail =
     res_bind (if head = 0 then ReadHead d else Inr head) (\<lambda>head'.
       if head = 0 \<and> head' = 0 then Inr ([], None)
       else res_bind (if tail = 0 then res_bind (ReadTail d) (\<lambda>(t, _). Inr t) else Inr tail) (\<lambda>tail.
         Inr (NewReader d head' tail)))"

definition Queue_Create :: "jid \<Rightarrow> 'e jdisk \<Rightarrow> 'e jdisk" where
  "Queue_Create base d = writeTail 1 base (writeHead 0 d)"

text \<open>\<open>Open\<close> of an existing journal (the package function) checks that HEAD can be read.\<close>

definition Journal_Open :: "'e jdisk \<Rightarrow> jerror + unit" where
  "Journal_Open d = (case ReadHead d of Inl e \<Rightarrow> Inl ErrNotExist | Inr _ \<Rightarrow> Inr ())"

subsection \<open>The key-value store (store.go)\<close>

text \<open>
  The table is an association list; its order stands for the order in which Go happens to iterate
  over the map. \<open>key\<close> is the entries' \<open>Key\<close> method.
\<close>

record 'e jstore =
  table :: "(gostring \<times> 'e) list"
  at :: jid

definition newStore :: "'e jstore" where
  "newStore = \<lparr>table = [], at = 0\<rparr>"

definition CreateStore :: "'e jdisk \<Rightarrow> 'e jstore \<times> 'e jdisk" where
  "CreateStore d = (newStore, Queue_Create 0 d)"

definition OpenStore :: "'e jdisk \<Rightarrow> jerror + 'e jstore" where
  "OpenStore d = res_bind (Journal_Open d) (\<lambda>_. Inr newStore)"

definition maxRetries :: nat where "maxRetries = 10"

text \<open>
  \<open>getSnapshot\<close> returns the position, the table (\<open>None\<close> is a nil map) and an error, and \<open>load\<close>
  only logs the error and goes on with the position and the table.
\<close>

fun snap_entries :: "('e \<Rightarrow> gostring) \<Rightarrow> 'e sval list \<Rightarrow> bool \<Rightarrow> (gostring \<times> 'e) list
    \<Rightarrow> (gostring \<times> 'e) list option \<times> jerror option" where
  "snap_entries key [] err t = (Some t, if err then Some ReadErr else None)"
| "snap_entries key (SEntry e # vs) err t = snap_entries key vs err (AList.update (key e) e t)"
| "snap_entries key (_ # vs) err t = (None, Some UnmarshalErr)"

definition getSnapshot :: "('e \<Rightarrow> gostring) \<Rightarrow> 'e jdisk \<Rightarrow> jid \<times> (gostring \<times> 'e) list option \<times> jerror option" where
  "getSnapshot key d = (case snapFile d of
      None \<Rightarrow> (0, Some [], Some ErrNotExist)
    | Some (vs, err) \<Rightarrow> (case vs of
        [] \<Rightarrow> (0, Some [], if err then Some ReadErr else None)
      | SUint p # vs \<Rightarrow> (p, snap_entries key vs err [])
      | _ \<Rightarrow> (0, Some [], Some CorruptSnapshot)))"

definition putSnapshot :: "jid \<Rightarrow> (gostring \<times> 'e) list \<Rightarrow> 'e jdisk \<Rightarrow> 'e jdisk" where
  "putSnapshot p t d = d\<lparr>snapFile := Some (SUint p # map (\<lambda>x. SEntry (snd x)) t, False)\<rparr>"

text \<open>The loop of \<open>load\<close> over the values of the log; a write to a nil map panics.\<close>

fun load_loop :: "('e \<Rightarrow> gostring) \<Rightarrow> 'e jval list \<Rightarrow> (gostring \<times> 'e) list option \<Rightarrow>
    jerror + (gostring \<times> 'e) list option" where
  "load_loop key [] t = Inr t"
| "load_loop key (v # vs) t = (case v of
      JAdd e \<Rightarrow> (case t of None \<Rightarrow> Inl NilMapPanic
        | Some m \<Rightarrow> load_loop key vs (Some (AList.update (key e) e m)))
    | JUpdate e \<Rightarrow> (case t of None \<Rightarrow> Inl (UpdateMissing (key e))
        | Some m \<Rightarrow> if map_of m (key e) = None then Inl (UpdateMissing (key e))
            else load_loop key vs (Some (AList.update (key e) e m)))
    | JDelete k \<Rightarrow> load_loop key vs (map_option (AList.delete k) t)
    | JOther \<Rightarrow> Inl UnknownType
    | JBad \<Rightarrow> Inl UnmarshalErr)"

text \<open>
  \<open>load\<close> accesses the journal's files several times, and other processes may act in between:
  \<open>acts 0\<close> is what they do before HEAD is read, \<open>acts 1\<close> before the snapshot is read, \<open>acts 2\<close> before
  the log is read and \<open>acts 3\<close> before a snapshot is stored. The log files are read as they are after
  \<open>acts 2\<close>: once written they do not change. \<open>load_from\<close> is \<open>load\<close> after it has read HEAD and
  found it moved.
\<close>

definition load_from :: "('e \<Rightarrow> gostring) \<Rightarrow> (nat \<Rightarrow> 'e jdisk \<Rightarrow> 'e jdisk) \<Rightarrow> jid \<Rightarrow> 'e jstore \<Rightarrow> 'e jdisk \<Rightarrow>
    ('e jstore \<times> 'e jdisk) \<times> (jerror + unit)" where
  "load_from key acts head s d = (case getSnapshot key (acts 1 d) of (p, t, _) \<Rightarrow>
     let d = acts 2 (acts 1 d) in
     (case Queue_Open d head p of
        Inl e \<Rightarrow> ((s, d), Inl e)
      | Inr (vs, rerr) \<Rightarrow> (case load_loop key vs t of
          Inl e \<Rightarrow> ((s, d), Inl e)
        | Inr t \<Rightarrow> (case rerr of
            Some e \<Rightarrow> ((s, d), Inl e)
          | None \<Rightarrow> let m = (case t of None \<Rightarrow> [] | Some m \<Rightarrow> m) in
              ((s\<lparr>table := m, at := head\<rparr>, if head - p > 10 then putSnapshot head m (acts 3 d) else d), Inr ())))))"

definition load_at :: "('e \<Rightarrow> gostring) \<Rightarrow> (nat \<Rightarrow> 'e jdisk \<Rightarrow> 'e jdisk) \<Rightarrow> 'e jstore \<Rightarrow> 'e jdisk \<Rightarrow>
    ('e jstore \<times> 'e jdisk) \<times> (jerror + unit)" where
  "load_at key acts s d = (case ReadHead (acts 0 d) of
      Inl e \<Rightarrow> ((s, acts 0 d), Inl e)
    | Inr head \<Rightarrow> if head = at s then ((s, acts 0 d), Inr ()) else load_from key acts head s (acts 0 d))"

text \<open>\<open>load\<close> when no other process acts meanwhile.\<close>

definition idle :: "nat \<Rightarrow> 'e jdisk \<Rightarrow> 'e jdisk" where
  "idle j d = d"

definition load :: "('e \<Rightarrow> gostring) \<Rightarrow> 'e jstore \<Rightarrow> 'e jdisk \<Rightarrow> ('e jstore \<times> 'e jdisk) \<times> (jerror + unit)" where
  "load key s d = load_at key idle s d"

definition Store_Keys :: "('e \<Rightarrow> gostring) \<Rightarrow> 'e jstore \<Rightarrow> 'e jdisk \<Rightarrow> ('e jstore \<times> 'e jdisk) \<times> (jerror + gostring list)" where
  "Store_Keys key s d = (case load key s d of
      (r, Inl e) \<Rightarrow> (r, Inl e) | ((s, d), Inr _) \<Rightarrow> ((s, d), Inr (map fst (table s))))"

definition Store_All_at :: "('e \<Rightarrow> gostring) \<Rightarrow> (nat \<Rightarrow> 'e jdisk \<Rightarrow> 'e jdisk) \<Rightarrow> 'e jstore \<Rightarrow> 'e jdisk \<Rightarrow>
    ('e jstore \<times> 'e jdisk) \<times> (jerror + 'e list)" where
  "Store_All_at key acts s d = (case load_at key acts s d of
      (r, Inl e) \<Rightarrow> (r, Inl e) | ((s, d), Inr _) \<Rightarrow> ((s, d), Inr (map snd (table s))))"

definition Store_All :: "('e \<Rightarrow> gostring) \<Rightarrow> 'e jstore \<Rightarrow> 'e jdisk \<Rightarrow> ('e jstore \<times> 'e jdisk) \<times> (jerror + 'e list)" where
  "Store_All key s d = Store_All_at key idle s d"

definition Store_Values :: "('e \<Rightarrow> gostring) \<Rightarrow> 'e jstore \<Rightarrow> 'e jdisk \<Rightarrow> ('e jstore \<times> 'e jdisk) \<times> (jerror + 'e list)" where
  "Store_Values key s d = (case load key s d of
      (r, Inl e) \<Rightarrow> (r, Inl e) | ((s, d), Inr _) \<Rightarrow> ((s, d), Inr (map snd (table s))))"

text \<open>\<open>Lookup\<close>; whether the table is older than a second is an argument.\<close>

definition Store_Lookup :: "('e \<Rightarrow> gostring) \<Rightarrow> bool \<Rightarrow> gostring \<Rightarrow> 'e jstore \<Rightarrow> 'e jdisk \<Rightarrow>
    ('e jstore \<times> 'e jdisk) \<times> (jerror + 'e)" where
  "Store_Lookup key stale k s d =
     (case (if stale then load key s d else ((s, d), Inr ())) of
        (r, Inl e) \<Rightarrow> (r, Inl e)
      | ((s, d), Inr _) \<Rightarrow> (case map_of (table s) k of
          Some v \<Rightarrow> ((s, d), Inr v)
        | None \<Rightarrow> if stale then ((s, d), Inl ErrNoSuchKey)
            else (case load key s d of
                (r, Inl e) \<Rightarrow> (r, Inl e)
              | ((s, d), Inr _) \<Rightarrow> (case map_of (table s) k of
                  Some v \<Rightarrow> ((s, d), Inr v) | None \<Rightarrow> ((s, d), Inl ErrNoSuchKey)))))"

text \<open>
  \<open>commit\<close> tries up to ten times to load the store, check a condition on the table and write the
  next log file. In the k-th attempt \<open>env k 0\<close> to \<open>env k 3\<close> are what other processes do to the files
  before and during its \<open>load\<close>, \<open>env' k 0\<close> what they do between its check and its write of the log
  file, and \<open>env' k 1\<close> what they do between that and its write of HEAD.
\<close>

type_synonym 'e jenv = "nat \<Rightarrow> nat \<Rightarrow> 'e jdisk \<Rightarrow> 'e jdisk"

fun commit_loop :: "('e \<Rightarrow> gostring) \<Rightarrow> ((gostring \<times> 'e) list \<Rightarrow> jerror option) \<Rightarrow> 'e jval list \<Rightarrow>
    'e jenv \<Rightarrow> 'e jenv \<Rightarrow> nat \<Rightarrow> 'e jstore \<Rightarrow> 'e jdisk \<Rightarrow> ('e jstore \<times> 'e jdisk) \<times> (jerror + unit)" where
  "commit_loop key fn es env env' 0 s d = ((s, d), Inl ErrRetriesExceeded)"
| "commit_loop key fn es env env' (Suc k) s d =
     (case load_at key (env k) s d of
        (r, Inl e) \<Rightarrow> (r, Inl e)
      | ((s, d), Inr _) \<Rightarrow> (case fn (table s) of
          Some e \<Rightarrow> ((s, d), Inl e)
        | None \<Rightarrow> (case CommitAt (env' k 1) (at s) es (env' k 0 d) of
            (d, Inr _) \<Rightarrow> ((s\<lparr>at := 0\<rparr>, d), Inr ())
          | (d, Inl e) \<Rightarrow> if e = ErrExist then commit_loop key fn es env env' k s d else ((s, d), Inl e))))"

definition Store_commit :: "('e \<Rightarrow> gostring) \<Rightarrow> ((gostring \<times> 'e) list \<Rightarrow> jerror option) \<Rightarrow> 'e jval list \<Rightarrow>
    'e jenv \<Rightarrow> 'e jenv \<Rightarrow> 'e jstore \<Rightarrow> 'e jdisk \<Rightarrow> ('e jstore \<times> 'e jdisk) \<times> (jerror + unit)" where
  "Store_commit key fn es env env' s d = commit_loop key fn es env env' maxRetries s d"

definition insert_check :: "('e \<Rightarrow> gostring) \<Rightarrow> 'e \<Rightarrow> (gostring \<times> 'e) list \<Rightarrow> jerror option" where
  "insert_check key e t = (if map_of t (key e) \<noteq> None then Some ErrKeyExists else None)"

definition Store_Insert where
  "Store_Insert key e env env' s d = Store_commit key (insert_check key e) [JAdd e] env env' s d"

definition move_check :: "('e \<Rightarrow> gostring) \<Rightarrow> gostring \<Rightarrow> 'e \<Rightarrow> (gostring \<times> 'e) list \<Rightarrow> jerror option" where
  "move_check key old e t = (if map_of t old = None then Some ErrNoSuchKey
     else if map_of t (key e) \<noteq> None then Some ErrKeyExists else None)"

definition Store_Move where
  "Store_Move key old e env env' s d = Store_commit key (move_check key old e) [JDelete old, JAdd e] env env' s d"

text \<open>A constraint may be absent (nil).\<close>

definition constraint_check :: "gostring \<Rightarrow> ('e \<Rightarrow> bool) option \<Rightarrow> (gostring \<times> 'e) list \<Rightarrow> jerror option" where
  "constraint_check k c t = (case map_of t k of None \<Rightarrow> Some ErrNoSuchKey
     | Some old \<Rightarrow> (case c of Some f \<Rightarrow> if f old then None else Some ErrConstraint | None \<Rightarrow> None))"

definition Store_Delete where
  "Store_Delete key k c env env' s d = Store_commit key (constraint_check k c) [JDelete k] env env' s d"

definition Store_Update where
  "Store_Update key e c env env' s d = Store_commit key (constraint_check (key e) c) [JUpdate e] env env' s d"

end
