(* ===== verification/Journal_Inv.thy ===== *)
theory Journal_Inv
  imports Journal
begin

text \<open>
  The invariant of the journal of a store: HEAD and TAIL hold numbers, the log files are the
  positions 1 to n, replaying them never fails, and a snapshot file, if there is one, holds the table
  of some position. Without interference \<open>load\<close> reads the state at HEAD under it. Other processes that act
  inside a \<open>load\<close> can break it: a snapshot may hold newer values than its position. What is left then, that
  each value of a snapshot or table is that of some position between its own and HEAD, every operation keeps.
\<close>

subsection \<open>Numbers as text\<close>

lemma parse_digits_append:
  "parse_digits acc (xs @ ys) = (case parse_digits acc xs of None \<Rightarrow> None | Some a \<Rightarrow> parse_digits a ys)"
  by (induction xs arbitrary: acc) auto

lemma digit_byte: "n < 10 \<Longrightarrow> unat (of_nat (48 + n) :: u8) = 48 + n"
  by (simp add: unsigned_of_nat take_bit_nat_eq_self del: of_nat_add)

lemma digit_range: "n < 10 \<Longrightarrow> 48 \<le> (of_nat (48 + n) :: u8) \<and> (of_nat (48 + n) :: u8) \<le> 57"
  unfolding word_le_nat_alt digit_byte by simp

lemma parse_dec_digits: "parse_digits acc (dec_digits n) = Some (acc * 10 ^ length (dec_digits n) + n)"
proof (induction n arbitrary: acc rule: dec_digits.induct)
  case (1 n)
  show ?case
  proof (cases "n < 10")
    case True
    then show ?thesis using digit_range [of n] digit_byte [of n]
      by (simp add: dec_digits.simps [of n] del: of_nat_add)
  next
    case False
    have m: "n mod 10 < 10" by simp
    have "10 * (n div 10) + n mod 10 = n" by simp
    then show ?thesis
      using "1.IH" [OF False, of acc] digit_range [OF m] digit_byte [OF m] False
      by (simp add: dec_digits.simps [of n] parse_digits_append algebra_simps del: of_nat_add mult_div_mod_eq)
  qed
qed

lemma dec_digits_nonempty: "dec_digits n \<noteq> []"
  by (simp add: dec_digits.simps [of n])

lemma dec_digits_no_space: "32 \<notin> set (dec_digits n)"
proof (induction n rule: dec_digits.induct)
  case (1 n)
  have "(32::u8) \<noteq> of_nat (48 + k)" if "k < 10" for k
    using digit_range [OF that] by (auto simp del: of_nat_add)
  then show ?case using 1 by (simp add: dec_digits.simps [of n] del: of_nat_add)
qed

lemma ParseUint_FormatUint: "ParseUint (FormatUint x) = Some x"
  using unsigned_less [of x]
  by (simp add: ParseUint_def FormatUint_def dec_digits_nonempty parse_dec_digits)

lemma parse_id_file_head: "parse_id_file (FormatUint i) = Some (i, 0)"
  by (simp add: parse_id_file_def Split_def split_at_byte_none dec_digits_no_space FormatUint_def
      ParseUint_FormatUint [unfolded FormatUint_def])

lemma parse_id_file_tail: "parse_id_file (FormatUint i @ [32] @ FormatUint b) = Some (i, b)"
  by (simp add: parse_id_file_def Split_def split_at_byte_none split_at_byte_once dec_digits_no_space FormatUint_def
      ParseUint_FormatUint [unfolded FormatUint_def])

lemma read_id_file_parse: "parse_id_file b = Some r \<Longrightarrow> read_id_file (Some b) = Inr r"
  by (simp add: read_id_file_def readID_def read_id_loop.simps get_file_def)

lemma ReadHead_write: "headFile d = Some (FormatUint i) \<Longrightarrow> ReadHead d = Inr i"
  by (simp add: ReadHead_def read_id_file_parse [OF parse_id_file_head])

lemma ReadTail_write: "tailFile d = Some (FormatUint i @ [32] @ FormatUint b) \<Longrightarrow> ReadTail d = Inr (i, b)"
  using read_id_file_parse [OF parse_id_file_tail [of i b]] by (simp add: ReadTail_def)

text \<open>The retry loop gives up after at most eleven reads.\<close>

lemma read_id_loop_bound:
  assumes "retry \<le> MaxReadRetry" and "\<forall>k \<le> MaxReadRetry. g' k = g k"
  shows "read_id_loop g' rnd cancelled retry timeout = read_id_loop g rnd cancelled retry timeout"
  using assms
proof (induction g rnd cancelled retry timeout rule: read_id_loop.induct)
  case (1 g rnd cancelled retry timeout)
  have g: "g' retry = g retry" using "1.prems" by simp
  show ?case
  proof (cases "g retry")
    case (Inr b)
    then show ?thesis
      using "1.IH" [OF Inr] "1.prems" g
      by (auto simp: read_id_loop.simps [of g'] read_id_loop.simps [of g] Let_def split: option.split)
  qed (simp add: g read_id_loop.simps [of g'] read_id_loop.simps [of g])
qed

subsection \<open>Replaying the log\<close>

text \<open>The specification of the store: the log replayed into a map.\<close>

definition replay_val :: "('e \<Rightarrow> gostring) \<Rightarrow> 'e jval \<Rightarrow> (gostring \<rightharpoonup> 'e) \<Rightarrow> jerror + (gostring \<rightharpoonup> 'e)" where
  "replay_val key v m = (case v of
      JAdd e \<Rightarrow> Inr (m(key e \<mapsto> e))
    | JUpdate e \<Rightarrow> if m (key e) = None then Inl (UpdateMissing (key e)) else Inr (m(key e \<mapsto> e))
    | JDelete k \<Rightarrow> Inr (m(k := None))
    | JOther \<Rightarrow> Inl UnknownType
    | JBad \<Rightarrow> Inl UnmarshalErr)"

primrec replay :: "('e \<Rightarrow> gostring) \<Rightarrow> 'e jval list \<Rightarrow> (gostring \<rightharpoonup> 'e) \<Rightarrow> jerror + (gostring \<rightharpoonup> 'e)" where
  "replay key [] m = Inr m"
| "replay key (v # vs) m = res_bind (replay_val key v m) (replay key vs)"

lemmas replay_val_simps [simp] = replay_val_def [of _ "JAdd _", simplified] replay_val_def [of _ "JUpdate _", simplified]
  replay_val_def [of _ "JDelete _", simplified] replay_val_def [of _ JOther, simplified] replay_val_def [of _ JBad, simplified]

lemma load_loop_replay:
  "(case load_loop key vs (Some t) of Inl e \<Rightarrow> replay key vs (map_of t) = Inl e
    | Inr o' \<Rightarrow> \<exists>t'. o' = Some t' \<and> replay key vs (map_of t) = Inr (map_of t'))"
proof (induction vs arbitrary: t)
  case (Cons v vs)
  show ?case
  proof (cases v)
    case (JAdd e)
    then show ?thesis using Cons.IH [of "AList.update (key e) e t", unfolded update_conv'] by (auto simp: fun_upd_def split: sum.splits)
  next
    case (JUpdate e)
    then show ?thesis using Cons.IH [of "AList.update (key e) e t", unfolded update_conv'] by (auto simp: fun_upd_def split: sum.splits)
  next
    case (JDelete k)
    then show ?thesis using Cons.IH [of "AList.delete k t", unfolded delete_conv'] by (auto simp: fun_upd_def split: sum.splits)
  qed simp_all
qed simp

lemma load_loop_ok:
  "replay key vs (map_of t) = Inr m \<Longrightarrow> \<exists>t'. load_loop key vs (Some t) = Inr (Some t') \<and> map_of t' = m"
  using load_loop_replay [of key vs t] by (cases "load_loop key vs (Some t)") auto

lemma replay_append: "replay key (vs @ ws) m = res_bind (replay key vs m) (replay key ws)"
proof (induction vs arbitrary: m)
  case (Cons v vs)
  then show ?case by (cases "replay_val key v m") simp_all
qed simp

text \<open>The batches that the store's operations write.\<close>

fun good_batch :: "('e \<Rightarrow> gostring) \<Rightarrow> 'e jval list \<Rightarrow> bool" where
  "good_batch key [JAdd e] = True"
| "good_batch key [JUpdate e] = True"
| "good_batch key [JDelete k] = True"
| "good_batch key [JDelete k, JAdd e] = True"
| "good_batch key _ = False"

lemma good_batch_idem:
  "good_batch key es \<Longrightarrow> replay key es m = Inr m' \<Longrightarrow> replay key es m' = Inr m'"
  by (induction key es rule: good_batch.induct) (auto split: if_splits)

subsection \<open>The invariant of the files\<close>

definition log_file :: "'e jdisk \<Rightarrow> nat \<Rightarrow> 'e jval list" where
  "log_file d i = the (logFiles d (of_nat i))"

definition log_vals :: "'e jdisk \<Rightarrow> nat \<Rightarrow> nat \<Rightarrow> 'e jval list" where
  "log_vals d i n = concat (map (log_file d) [i..<n + 1])"

definition log_state :: "('e \<Rightarrow> gostring) \<Rightarrow> 'e jdisk \<Rightarrow> nat \<Rightarrow> jerror + (gostring \<rightharpoonup> 'e)" where
  "log_state key d n = replay key (log_vals d 1 n) Map.empty"

text \<open>
  The log holds the files 1 to \<open>n\<close>, HEAD is \<open>h\<close>, which is \<open>n\<close> or, while a commit is between its
  two writes or after it was cut off there, \<open>n - 1\<close>, and replaying the log succeeds. The storage engine
  creates files exclusively: on one that does not, \<open>CommitAt\<close> overwrites the log file of a racing writer,
  as a comment of \<open>queue.go\<close> says, and nothing below is claimed for it.
\<close>

definition log_ok :: "('e \<Rightarrow> gostring) \<Rightarrow> 'e jdisk \<Rightarrow> nat \<Rightarrow> nat \<Rightarrow> bool" where
  "log_ok key d h n \<longleftrightarrow> exclusivePut d \<and> n < 2 ^ 64 - 1 \<and> h \<le> n \<and> n \<le> h + 1 \<and>
     headFile d = Some (FormatUint (of_nat h)) \<and> tailFile d = Some (FormatUint 1 @ [32] @ FormatUint 0) \<and>
     (\<forall>i. logFiles d i \<noteq> None \<longleftrightarrow> 1 \<le> unat i \<and> unat i \<le> n) \<and>
     (\<forall>i\<le>n. 1 \<le> i \<longrightarrow> good_batch key (log_file d i)) \<and> (\<exists>m. log_state key d n = Inr m)"

definition snap_ok :: "('e \<Rightarrow> gostring) \<Rightarrow> 'e jdisk \<Rightarrow> nat \<Rightarrow> bool" where
  "snap_ok key d h \<longleftrightarrow> (case snapFile d of None \<Rightarrow> True | Some f \<Rightarrow>
     (\<exists>p t. f = (SUint (of_nat p) # map (\<lambda>x. SEntry (snd x)) t, False) \<and> 1 \<le> p \<and> p \<le> h \<and>
        distinct (map fst t) \<and> (\<forall>(k, e)\<in>set t. k = key e) \<and> log_state key d p = Inr (map_of t)))"

definition disk_ok :: "('e \<Rightarrow> gostring) \<Rightarrow> 'e jdisk \<Rightarrow> nat \<Rightarrow> nat \<Rightarrow> bool" where
  "disk_ok key d h n \<longleftrightarrow> log_ok key d h n \<and> snap_ok key d h"

text \<open>The table of an open store is that of its position; after a commit the position is reset to 0.\<close>

definition table_ok :: "('e \<Rightarrow> gostring) \<Rightarrow> (gostring \<times> 'e) list \<Rightarrow> bool" where
  "table_ok key t \<longleftrightarrow> distinct (map fst t) \<and> (\<forall>(k, e)\<in>set t. k = key e)"

definition store_ok :: "('e \<Rightarrow> gostring) \<Rightarrow> 'e jstore \<Rightarrow> 'e jdisk \<Rightarrow> nat \<Rightarrow> bool" where
  "store_ok key s d h \<longleftrightarrow> unat (at s) \<le> h \<and> table_ok key (table s) \<and>
     (at s \<noteq> 0 \<longrightarrow> log_state key d (unat (at s)) = Inr (map_of (table s))) \<and> (h = 0 \<longrightarrow> table s = [])"

lemma log_vals_split: "1 \<le> i \<Longrightarrow> i \<le> n + 1 \<Longrightarrow> log_vals d 1 n = log_vals d 1 (i - 1) @ log_vals d i n"
  using upt_add_eq_append [of 1 i "n + 1 - i"] by (simp add: log_vals_def)

lemma log_vals_Suc: "i \<le> n + 1 \<Longrightarrow> log_vals d i (Suc n) = log_vals d i n @ log_file d (Suc n)"
  by (simp add: log_vals_def)

lemma log_vals_first: "i \<le> n \<Longrightarrow> log_vals d i n = log_file d i @ log_vals d (i + 1) n"
  unfolding log_vals_def by (subst upt_conv_Cons) simp_all

lemma log_state_append:
  "i \<le> n \<Longrightarrow> log_state key d n = res_bind (log_state key d i) (replay key (log_vals d (i + 1) n))"
  using log_vals_split [of "i + 1" n d] by (simp add: log_state_def replay_append)

lemma log_state_prefix: "log_state key d n = Inr m \<Longrightarrow> i \<le> n \<Longrightarrow> \<exists>m'. log_state key d i = Inr m'"
  using log_state_append [of i n key d] by (auto simp: res_bind_Inr_iff)

lemma read_log_ok:
  assumes "\<forall>i. logFiles d i \<noteq> None \<longleftrightarrow> 1 \<le> unat i \<and> unat i \<le> n" and "n < 2 ^ 64 - 1" and "h \<le> n"
  shows "i \<le> h \<Longrightarrow> read_log d (of_nat i) (of_nat h) = (log_vals d (i + 1) h, None)"
proof (induction "h - i" arbitrary: i)
  case 0
  then show ?case by (simp add: read_log.simps log_vals_def)
next
  case (Suc x)
  have u: "unat (of_nat k :: u64) = k" if "k \<le> n" for k
    using that assms(2) by (simp add: unsigned_of_nat take_bit_nat_eq_self)
  have i: "i < h" "i + 1 \<le> h" using Suc.hyps(2) by simp_all
  have lt: "\<not> (of_nat h :: u64) \<le> of_nat i"
    using i assms(3) by (simp add: word_le_nat_alt u)
  have "logFiles d (of_nat (i + 1)) \<noteq> None"
    using assms(1) u [of "i + 1"] i assms(3) by simp
  then have L: "Queue_Load (of_nat i + 1) d = Inr (log_file d (i + 1))"
    by (auto simp: Queue_Load_def get_file_def log_file_def add.commute)
  have "read_log d (of_nat (i + 1)) (of_nat h) = (log_vals d (i + 1 + 1) h, None)"
    using Suc.hyps(1) [of "i + 1"] Suc.hyps(2) i by simp
  then have IH: "read_log d (of_nat i + 1) (of_nat h) = (log_vals d (i + 2) h, None)"
    by (simp add: add.commute)
  show ?case
    using lt L IH log_vals_first [of "i + 1" h d] i
    by (simp add: read_log.simps [of d "of_nat i"])
qed

subsection \<open>Loading\<close>

lemma table_ok_update: "table_ok key t \<Longrightarrow> table_ok key (AList.update (key e) e t)"
proof -
  assume t: "table_ok key t"
  have "set (AList.update k v t) \<subseteq> insert (k, v) (set t)" for k v
    by (induction t) auto
  then show ?thesis using t by (fastforce simp: table_ok_def distinct_update)
qed

lemma table_ok_delete: "table_ok key t \<Longrightarrow> table_ok key (AList.delete k t)"
  using distinct_delete [of t k] by (auto simp: table_ok_def AList.delete_eq)

lemma load_loop_table_ok:
  "table_ok key t \<Longrightarrow> load_loop key vs (Some t) = Inr (Some t') \<Longrightarrow> table_ok key t'"
proof (induction vs arbitrary: t)
  case (Cons v vs)
  show ?case
    using Cons.prems Cons.IH [OF table_ok_update [OF Cons.prems(1)]] Cons.IH [OF table_ok_delete [OF Cons.prems(1)]]
    by (cases v) (auto split: if_splits)
qed simp

lemma snap_entries_table:
  "(\<And>k e. (k, e) \<in> set t \<Longrightarrow> k = key e) \<Longrightarrow>
   \<exists>t'. snap_entries key (map (\<lambda>x. SEntry (snd x)) t) False acc = (Some t', None) \<and>
     map_of t' = map_of acc ++ map_of (rev t)"
proof (induction t arbitrary: acc)
  case (Cons x t)
  obtain k e where x: "x = (k, e)" by (cases x)
  have k: "k = key e" using Cons.prems x by simp
  obtain t' where t': "snap_entries key (map (\<lambda>x. SEntry (snd x)) t) False (AList.update (key e) e acc) = (Some t', None)"
    "map_of t' = map_of (AList.update (key e) e acc) ++ map_of (rev t)"
    using Cons.IH [of "AList.update (key e) e acc"] Cons.prems by auto
  have "map_of t' = map_of acc ++ map_of (rev (x # t))"
    using t'(2) by (simp add: x k update_conv' map_add_upd_left map_of_append fun_upd_def map_add_def fun_eq_iff split: option.splits)
  then show ?case using t'(1) x by simp
qed simp

lemma map_of_rev_distinct: "distinct (map fst t) \<Longrightarrow> map_of (rev t) = map_of t"
  by (rule map_of_inject_set [THEN iffD2]) (auto simp: rev_map [symmetric])

lemma snap_entries_table_ok:
  "table_ok key acc \<Longrightarrow> snap_entries key vs err acc = (Some t', e) \<Longrightarrow> table_ok key t'"
  by (induction key vs err acc rule: snap_entries.induct) (auto simp: table_ok_update)

lemma getSnapshot_ok:
  assumes "table_ok key t" and "snapFile d = Some (SUint p # map (\<lambda>x. SEntry (snd x)) t, False)"
  shows "\<exists>t' e. getSnapshot key d = (p, Some t', e) \<and> map_of t' = map_of t \<and> table_ok key t'"
proof -
  have k: "\<And>k e. (k, e) \<in> set t \<Longrightarrow> k = key e" using assms(1) by (auto simp: table_ok_def)
  obtain t' where t': "snap_entries key (map (\<lambda>x. SEntry (snd x)) t) False [] = (Some t', None)"
    "map_of t' = Map.empty ++ map_of (rev t)" using snap_entries_table [of t key "[]"] k by auto
  have "map_of t' = map_of t" using t'(2) assms(1) by (simp add: table_ok_def map_of_rev_distinct)
  moreover have "table_ok key t'" by (rule snap_entries_table_ok [OF _ t'(1)]) (simp add: table_ok_def)
  ultimately show ?thesis using assms(2) t'(1) by (simp add: getSnapshot_def)
qed

text \<open>
  Replaying from a snapshot reads the log file at the snapshot's own position again; that changes
  nothing, since the store's batches can be replayed twice.
\<close>

lemma replay_overlap:
  assumes "log_ok key d h n" and "1 \<le> p" and "p \<le> h"
    and "log_state key d p = Inr m"
  shows "replay key (log_vals d p h) m = log_state key d h"
proof -
  obtain m0 where m0: "log_state key d (p - 1) = Inr m0" using log_state_prefix [OF assms(4), of "p - 1"] by auto
  have "log_state key d p = replay key (log_vals d p p) m0"
    using log_state_append [of "p - 1" p key d] m0 assms(2) by simp
  then have once: "replay key (log_file d p) m0 = Inr m"
    using assms(4) by (simp add: log_vals_def)
  have twice: "replay key (log_file d p) m = Inr m"
    by (rule good_batch_idem [OF _ once]) (use assms in \<open>auto simp: log_ok_def\<close>)
  have "replay key (log_vals d p h) m = replay key (log_vals d (p + 1) h) m"
    using log_vals_first [of p h d] assms(3) twice by (simp add: replay_append)
  also have "\<dots> = log_state key d h" using log_state_append [of p h key d] assms(3,4) by simp
  finally show ?thesis .
qed

lemma log_state_ok: "log_ok key d h n \<Longrightarrow> i \<le> n \<Longrightarrow> \<exists>m. log_state key d i = Inr m"
  using log_state_prefix [of key d n _ i] by (auto simp: log_ok_def)

lemma log_state_frame: "logFiles d' = logFiles d \<Longrightarrow> log_state key d' n = log_state key d n"
  by (simp add: log_state_def log_vals_def log_file_def [abs_def])

lemma log_ok_frame:
  "log_ok key d h n \<Longrightarrow> logFiles d' = logFiles d \<Longrightarrow> headFile d' = headFile d \<Longrightarrow> tailFile d' = tailFile d \<Longrightarrow>
   exclusivePut d' = exclusivePut d \<Longrightarrow> log_ok key d' h n"
  using log_state_frame [of d' d key n] by (simp add: log_ok_def log_file_def)

lemma unat_of_nat_log: "k \<le> n \<Longrightarrow> n < 2 ^ 64 - 1 \<Longrightarrow> unat (of_nat k :: u64) = k"
  by (simp add: unsigned_of_nat take_bit_nat_eq_self)

lemma load_values:
  assumes "disk_ok key d h n" and "h \<noteq> 0"
  shows "\<exists>p t e vs. getSnapshot key d = (p, Some t, e) \<and> table_ok key t \<and> Queue_Open d (of_nat h) p = Inr (vs, None) \<and>
    replay key vs (map_of t) = log_state key d h"
proof -
  have log: "log_ok key d h n" and snap: "snap_ok key d h" using assms(1) by (simp_all add: disk_ok_def)
  have n: "n < 2 ^ 64 - 1" "h \<le> n" and files: "\<forall>i. logFiles d i \<noteq> None \<longleftrightarrow> 1 \<le> unat i \<and> unat i \<le> n"
    using log by (auto simp: log_ok_def)
  have h0: "(of_nat h :: u64) \<noteq> 0" using unat_of_nat_log [OF n(2,1)] assms(2) by (metis unat_0)
  have read: "NewReader d (of_nat h) (of_nat q) = (log_vals d q h, None)" if "1 \<le> q" "q \<le> h" for q
  proof -
    have "(of_nat q :: u64) - 1 = of_nat (q - 1)" using that(1) by (simp add: of_nat_diff)
    then show ?thesis using read_log_ok [OF files n, of "q - 1"] that by (simp add: NewReader_def)
  qed
  show ?thesis
  proof (cases "snapFile d")
    case None
    have "ReadTail d = Inr (1, 0)" by (rule ReadTail_write) (use log in \<open>simp add: log_ok_def\<close>)
    then have "Queue_Open d (of_nat h) 0 = Inr (log_vals d 1 h, None)"
      using read [of 1] assms(2) h0 by (simp add: Queue_Open_def)
    then show ?thesis using None
      by (auto simp: getSnapshot_def log_state_def table_ok_def)
  next
    case (Some f)
    obtain p t where f: "f = (SUint (of_nat p) # map (\<lambda>x. SEntry (snd x)) t, False)" "1 \<le> p" "p \<le> h"
      "distinct (map fst t)" "\<forall>(k, e)\<in>set t. k = key e" "log_state key d p = Inr (map_of t)"
      using snap Some by (auto simp: snap_ok_def)
    obtain t' e where t': "getSnapshot key d = (of_nat p, Some t', e)" "map_of t' = map_of t" "table_ok key t'"
      using getSnapshot_ok [of key t d "of_nat p"] Some f by (auto simp: table_ok_def)
    have "(of_nat p :: u64) \<noteq> 0" using unat_of_nat_log [of p n] f(2,3) n by (metis le_trans not_one_le_zero unat_0)
    then have "Queue_Open d (of_nat h) (of_nat p) = Inr (log_vals d p h, None)"
      using read [OF f(2,3)] h0 by (simp add: Queue_Open_def)
    then show ?thesis using t' replay_overlap [OF log f(2,3,6)] by auto
  qed
qed

lemma load_ok:
  assumes "disk_ok key d h n" and "store_ok key s d h"
  shows "\<exists>s' d'. load key s d = ((s', d'), Inr ()) \<and> at s' = of_nat h \<and> table_ok key (table s') \<and>
    log_state key d h = Inr (map_of (table s')) \<and> disk_ok key d' h n \<and> logFiles d' = logFiles d \<and> store_ok key s' d' h"
proof -
  have log: "log_ok key d h n" and snap: "snap_ok key d h" using assms(1) by (simp_all add: disk_ok_def)
  have n: "n < 2 ^ 64 - 1" "h \<le> n" using log by (auto simp: log_ok_def)
  note u = unat_of_nat_log [OF n(2,1)]
  have head: "ReadHead d = Inr (of_nat h)" by (rule ReadHead_write) (use log in \<open>simp add: log_ok_def\<close>)
  show ?thesis
  proof (cases "of_nat h = at s")
    case True
    have "log_state key d h = Inr (map_of (table s))"
    proof (cases "h = 0")
      case True
      then show ?thesis using assms(2) by (simp add: store_ok_def log_state_def log_vals_def)
    next
      case False
      then have "at s \<noteq> 0" using u True by (metis unat_0)
      then show ?thesis using assms(2) u True by (auto simp: store_ok_def)
    qed
    then show ?thesis using True head assms by (auto simp: load_def load_at_def idle_def store_ok_def)
  next
    case False
    have h: "h \<noteq> 0"
    proof
      assume "h = 0"
      then have "at s = 0" using assms(2) by (simp add: store_ok_def unsigned_eq_0_iff)
      then show False using False \<open>h = 0\<close> by simp
    qed
    obtain p t e vs where v: "getSnapshot key d = (p, Some t, e)" "table_ok key t"
      "Queue_Open d (of_nat h) p = Inr (vs, None)" "replay key vs (map_of t) = log_state key d h"
      using load_values [OF assms(1) h] by blast
    obtain m where m: "log_state key d h = Inr m" using log_state_ok [OF log n(2)] by blast
    obtain t' where t': "load_loop key vs (Some t) = Inr (Some t')" "map_of t' = m"
      using load_loop_ok v(4) m by metis
    have tok: "table_ok key t'" by (rule load_loop_table_ok [OF v(2) t'(1)])
    let ?s = "s\<lparr>table := t', at := of_nat h\<rparr>"
    let ?d = "if of_nat h - p > 10 then putSnapshot (of_nat h) t' d else d"
    have L: "load key s d = ((?s, ?d), Inr ())"
      using head False v(1,3) t'(1) by (simp add: load_def load_at_def load_from_def idle_def)
    have fr: "logFiles ?d = logFiles d" "headFile ?d = headFile d" "tailFile ?d = tailFile d" "exclusivePut ?d = exclusivePut d"
      by (simp_all add: putSnapshot_def)
    have "snap_ok key (putSnapshot (of_nat h) t' d) h"
      unfolding snap_ok_def putSnapshot_def
      using h tok m t'(2) log_state_frame [of "d\<lparr>snapFile := _\<rparr>" d key h]
      by (auto simp: table_ok_def intro!: exI [of _ h] exI [of _ t'])
    then have "disk_ok key ?d h n" using log_ok_frame [OF log fr] snap by (simp add: disk_ok_def)
    moreover have "store_ok key ?s ?d h"
      using h u tok m t'(2) log_state_frame [OF fr(1)] by (simp add: store_ok_def)
    ultimately show ?thesis using L tok m t'(2) fr(1) by auto
  qed
qed

subsection \<open>Committing\<close>

lemma log_state_submap:
  assumes "log_ok key d h n" and "logFiles d \<subseteq>\<^sub>m logFiles d'" and "i \<le> n"
  shows "log_state key d' i = log_state key d i"
proof -
  have n: "n < 2 ^ 64 - 1" using assms(1) by (simp add: log_ok_def)
  have "log_file d' j = log_file d j" if "1 \<le> j" "j \<le> i" for j
  proof -
    have "logFiles d (of_nat j) \<noteq> None"
      using assms(1,3) that unat_of_nat_log [of j n] n by (simp add: log_ok_def)
    then have "logFiles d' (of_nat j) = logFiles d (of_nat j)" using assms(2) by (metis domIff map_le_def)
    then show ?thesis by (simp add: log_file_def)
  qed
  then have "map (log_file d') [1..<i + 1] = map (log_file d) [1..<i + 1]" by (intro map_cong) auto
  then show ?thesis by (simp only: log_state_def log_vals_def)
qed

lemma store_ok_mono:
  assumes "log_ok key d h n" and "logFiles d \<subseteq>\<^sub>m logFiles d'" and "h \<le> h'" and "store_ok key s d h"
  shows "store_ok key s d' h'"
proof -
  have "log_state key d' (unat (at s)) = log_state key d (unat (at s))"
    by (rule log_state_submap [OF assms(1,2)]) (use assms(1,4) in \<open>auto simp: store_ok_def log_ok_def\<close>)
  then show ?thesis using assms(3,4) by (auto simp: store_ok_def)
qed

text \<open>The two writes of a commit: the first file past the end of the log, and HEAD.\<close>

lemma free_at_end:
  assumes "log_ok key d h n" and "n < 2 ^ 64 - 2" and "a \<le> h" and "logFiles d (of_nat a + 1) = None"
  shows "a = n" and "h = n"
proof -
  have hn: "h \<le> n" "\<forall>i. logFiles d i \<noteq> None \<longleftrightarrow> 1 \<le> unat i \<and> unat i \<le> n" using assms(1) by (auto simp: log_ok_def)
  have "unat (of_nat (a + 1) :: u64) = a + 1" by (rule unat_of_nat_log [of _ "a + 1"]) (use assms(2,3) hn(1) in auto)
  then have "\<not> a + 1 \<le> n" using assms(4) hn(2) by (metis add.commute le_add2 of_nat_1 of_nat_add)
  then show "a = n" "h = n" using assms(3) hn(1) by simp_all
qed

lemma put_log_ok:
  assumes log: "log_ok key d n n" and n: "n < 2 ^ 64 - 2" and es: "good_batch key es"
    and st: "log_state key d n = Inr m" "replay key es m = Inr m'"
  shows "log_ok key (put_log (of_nat n + 1) es d) n (n + 1)"
    and "log_state key (put_log (of_nat n + 1) es d) (n + 1) = Inr m'"
    and "logFiles d \<subseteq>\<^sub>m logFiles (put_log (of_nat n + 1) es d)"
proof -
  let ?d = "put_log (of_nat n + 1) es d"
  have p: "(of_nat n + 1 :: u64) = of_nat (n + 1)" by simp
  have u: "unat (of_nat (n + 1) :: u64) = n + 1" by (rule unat_of_nat_log [of _ "n + 1"]) (use n in auto)
  have "\<forall>i. logFiles d i \<noteq> None \<longleftrightarrow> 1 \<le> unat i \<and> unat i \<le> n" using log by (simp add: log_ok_def)
  then have free: "logFiles d (of_nat n + 1) = None" using u p by (metis Suc_eq_plus1 not_less_eq_eq order_refl)
  show sub: "logFiles d \<subseteq>\<^sub>m logFiles ?d" using free by (auto simp: map_le_def put_log_def)
  have new: "log_file ?d (n + 1) = es" by (simp add: log_file_def put_log_def)
  show st': "log_state key ?d (n + 1) = Inr m'"
    using log_state_append [of n "n + 1" key ?d] log_state_submap [OF log sub order_refl] st new by (simp add: log_vals_def)
  have files: "\<forall>i. logFiles ?d i \<noteq> None \<longleftrightarrow> 1 \<le> unat i \<and> unat i \<le> n + 1"
  proof
    fix i :: u64
    have "i = of_nat (n + 1) \<longleftrightarrow> unat i = n + 1" using word_unat_eq_iff [of i "of_nat (n + 1)"] u by simp
    then show "logFiles ?d i \<noteq> None \<longleftrightarrow> 1 \<le> unat i \<and> unat i \<le> n + 1"
      using log by (auto simp: log_ok_def put_log_def p simp del: of_nat_add of_nat_Suc)
  qed
  have good: "good_batch key (log_file ?d i)" if "1 \<le> i" "i \<le> n + 1" for i
  proof (cases "i = n + 1")
    case False
    have "(of_nat i :: u64) \<noteq> of_nat n + 1"
      using word_unat_eq_iff [of "of_nat i" "of_nat (n + 1) :: u64"] p u False that unat_of_nat_log [of i "n + 1"] n by auto
    then show ?thesis using log that False by (auto simp: log_ok_def log_file_def put_log_def)
  qed (use new es in simp)
  show "log_ok key ?d n (n + 1)"
    using log n files good st' by (auto simp: log_ok_def put_log_def)
qed

lemma writeHead_ok: "log_ok key d n (n + 1) \<Longrightarrow> log_ok key (writeHead (of_nat n + 1) d) (n + 1) (n + 1)"
  using log_state_frame [of "writeHead (of_nat n + 1) d" d key "n + 1"]
  by (simp add: log_ok_def writeHead_def log_file_def add.commute)

lemma snap_ok_mono:
  assumes "log_ok key d h n" and "logFiles d \<subseteq>\<^sub>m logFiles d'" and "snapFile d' = snapFile d" and "h \<le> h'" and "snap_ok key d h"
  shows "snap_ok key d' h'"
proof (cases "snapFile d")
  case (Some f)
  then obtain p t where f: "f = (SUint (of_nat p) # map (\<lambda>x. SEntry (snd x)) t, False)" "1 \<le> p" "p \<le> h" "distinct (map fst t)"
    "\<forall>(k, e)\<in>set t. k = key e" "log_state key d p = Inr (map_of t)" using assms(5) by (auto simp: snap_ok_def)
  have "log_state key d' p = Inr (map_of t)"
    using log_state_submap [OF assms(1,2), of p] f(3,6) assms(1) by (simp add: log_ok_def)
  then show ?thesis using Some f assms(3,4) by (auto simp: snap_ok_def intro!: exI [of _ p] exI [of _ t])
qed (use assms(3) in \<open>simp add: snap_ok_def\<close>)

lemma commit_quiet_ok:
  assumes d: "disk_ok key d n n" and n: "n < 2 ^ 64 - 2" and es: "good_batch key es"
    and st: "log_state key d n = Inr m" "replay key es m = Inr m'"
  shows "CommitAt (idle j) (of_nat n) es d = (writeHead (of_nat n + 1) (put_log (of_nat n + 1) es d), Inr ())"
    and "disk_ok key (writeHead (of_nat n + 1) (put_log (of_nat n + 1) es d)) (n + 1) (n + 1)"
    and "log_state key (writeHead (of_nat n + 1) (put_log (of_nat n + 1) es d)) (n + 1) = Inr m'"
proof -
  let ?d = "writeHead (of_nat n + 1) (put_log (of_nat n + 1) es d)"
  have log: "log_ok key d n n" and snap: "snap_ok key d n" using d by (simp_all add: disk_ok_def)
  note P = put_log_ok [OF log n es st]
  have u: "unat (of_nat n + 1 :: u64) = n + 1" using unat_of_nat_log [of "n + 1" "n + 1"] n by (simp add: add.commute)
  have "\<forall>i. logFiles d i \<noteq> None \<longleftrightarrow> 1 \<le> unat i \<and> unat i \<le> n" using log by (simp add: log_ok_def)
  then have "logFiles d (of_nat n + 1) = None" using u by (metis Suc_eq_plus1 not_less_eq_eq order_refl)
  then show "CommitAt (idle j) (of_nat n) es d = (?d, Inr ())" by (simp add: CommitAt_def idle_def)
  have sub: "logFiles d \<subseteq>\<^sub>m logFiles ?d" using P(3) by (simp add: writeHead_def)
  have "snap_ok key ?d (n + 1)"
    by (rule snap_ok_mono [OF log sub _ _ snap]) (simp_all add: writeHead_def put_log_def)
  then show "disk_ok key ?d (n + 1) (n + 1)" using writeHead_ok [OF P(1)] by (simp add: disk_ok_def)
  show "log_state key ?d (n + 1) = Inr m'"
    using P(2) log_state_frame [of ?d "put_log (of_nat n + 1) es d" key "n + 1"] by (simp add: writeHead_def)
qed

end
