(* ===== verification/Journal_Race.thy ===== *)
theory Journal_Race
  imports Journal_Inv
begin

text \<open>
  The store under interference. Other processes may act before every access to a file that an operation
  makes: before and inside its \<open>load\<close>, between its check and its write of a log file, and between that and
  its write of HEAD. The theory has the invariant that is left under such interference, the conditions on
  what others do, the proof that an operation keeps the one and meets the others, and what its success or
  failure then means.
\<close>

subsection \<open>Interference\<close>

text \<open>
  A table is recent at position \<open>p\<close> when each key has the value of some position from \<open>p\<close> to HEAD,
  not the same one for all keys. That is all that can be said of snapshots and tables once other
  processes act inside a \<open>load\<close>.
\<close>

definition recent :: "('e \<Rightarrow> gostring) \<Rightarrow> 'e jdisk \<Rightarrow> nat \<Rightarrow> nat \<Rightarrow> (gostring \<times> 'e) list \<Rightarrow> bool" where
  "recent key d p h t \<longleftrightarrow> (\<forall>k. \<exists>q m. p \<le> q \<and> q \<le> h \<and> log_state key d q = Inr m \<and> map_of t k = m k)"

definition snap_safe :: "('e \<Rightarrow> gostring) \<Rightarrow> 'e jdisk \<Rightarrow> nat \<Rightarrow> bool" where
  "snap_safe key d h \<longleftrightarrow> (case snapFile d of None \<Rightarrow> True | Some f \<Rightarrow>
     (\<exists>p t. f = (SUint (of_nat p) # map (\<lambda>x. SEntry (snd x)) t, False) \<and> 1 \<le> p \<and> p \<le> h \<and> table_ok key t \<and> recent key d p h t))"

definition disk_safe :: "('e \<Rightarrow> gostring) \<Rightarrow> 'e jdisk \<Rightarrow> nat \<Rightarrow> nat \<Rightarrow> bool" where
  "disk_safe key d h n \<longleftrightarrow> log_ok key d h n \<and> snap_safe key d h"

definition store_safe :: "('e \<Rightarrow> gostring) \<Rightarrow> 'e jstore \<Rightarrow> 'e jdisk \<Rightarrow> nat \<Rightarrow> bool" where
  "store_safe key s d h \<longleftrightarrow> unat (at s) \<le> h \<and> table_ok key (table s) \<and>
     (at s \<noteq> 0 \<longrightarrow> recent key d (unat (at s)) h (table s)) \<and> (h = 0 \<longrightarrow> table s = [])"

lemma recent_exact: "log_state key d p = Inr (map_of t) \<Longrightarrow> p \<le> h \<Longrightarrow> recent key d p h t"
  unfolding recent_def by blast

lemma recent_end:
  assumes "recent key d n n t" and "log_state key d n = Inr m"
  shows "map_of t = m"
  using assms by (auto simp: recent_def fun_eq_iff)

lemma recent_mono:
  assumes "log_ok key d h n" and "logFiles d \<subseteq>\<^sub>m logFiles d'" and "recent key d p h t" and "p' \<le> p" and "h \<le> h'"
  shows "recent key d' p' h' t"
  unfolding recent_def
proof
  fix k
  obtain q m where q: "p \<le> q" "q \<le> h" "log_state key d q = Inr m" "map_of t k = m k"
    using assms(3) unfolding recent_def by blast
  moreover have "log_state key d' q = log_state key d q"
    by (rule log_state_submap [OF assms(1,2)]) (use assms(1) q(2) in \<open>simp add: log_ok_def\<close>)
  ultimately show "\<exists>q m. p' \<le> q \<and> q \<le> h' \<and> log_state key d' q = Inr m \<and> map_of t k = m k"
    using assms(4,5) by (intro exI [of _ q] exI [of _ m]) auto
qed

lemma disk_ok_safe: "disk_ok key d h n \<Longrightarrow> disk_safe key d h n"
  by (fastforce simp: disk_ok_def disk_safe_def snap_ok_def snap_safe_def table_ok_def split: option.splits intro: recent_exact)

lemma store_ok_safe: "store_ok key s d h \<Longrightarrow> store_safe key s d h"
  by (auto simp: store_ok_def store_safe_def intro: recent_exact)

lemma disk_safe_log: "disk_safe key d h n \<Longrightarrow> log_ok key d h n"
  by (simp add: disk_safe_def)

lemma snap_safe_mono:
  assumes "log_ok key d h n" and "logFiles d \<subseteq>\<^sub>m logFiles d'" and "snapFile d' = snapFile d" and "h \<le> h'" and "snap_safe key d h"
  shows "snap_safe key d' h'"
proof (cases "snapFile d")
  case (Some f)
  then obtain p t where f: "f = (SUint (of_nat p) # map (\<lambda>x. SEntry (snd x)) t, False)" "1 \<le> p" "p \<le> h" "table_ok key t"
    "recent key d p h t" using assms(5) by (auto simp: snap_safe_def)
  then show ?thesis using Some recent_mono [OF assms(1,2) f(5) order_refl assms(4)] assms(3,4)
    by (auto simp: snap_safe_def intro!: exI [of _ p] exI [of _ t])
qed (use assms(3) in \<open>simp add: snap_safe_def\<close>)

lemma store_safe_mono:
  assumes "log_ok key d h n" and "logFiles d \<subseteq>\<^sub>m logFiles d'" and "h \<le> h'" and "store_safe key s d h"
  shows "store_safe key s d' h'"
  using assms(3,4) recent_mono [OF assms(1,2) _ order_refl assms(3)] by (auto simp: store_safe_def)

text \<open>
  Replaying part of the log on a recent table. A key that the part does not touch keeps its value, and
  one that it touches gets the value it has at the end of the part whatever it was before.
\<close>

fun touched :: "('e \<Rightarrow> gostring) \<Rightarrow> 'e jval \<Rightarrow> gostring set" where
  "touched key (JAdd e) = {key e}"
| "touched key (JUpdate e) = {key e}"
| "touched key (JDelete k) = {k}"
| "touched key _ = {}"

lemma replay_key:
  "replay key vs m = Inr m1 \<Longrightarrow> replay key vs m' = Inr m1' \<Longrightarrow> m k = m' k \<or> (\<exists>v\<in>set vs. k \<in> touched key v) \<Longrightarrow> m1 k = m1' k"
proof (induction vs arbitrary: m m')
  case (Cons v vs)
  obtain m2 m2' where 2: "replay_val key v m = Inr m2" "replay key vs m2 = Inr m1" "replay_val key v m' = Inr m2'" "replay key vs m2' = Inr m1'"
    using Cons.prems(1,2) by (auto simp: res_bind_Inr_iff)
  have "m2 k = m2' k \<or> (\<exists>v\<in>set vs. k \<in> touched key v)"
    using 2(1,3) Cons.prems(3) by (cases v) (auto split: if_splits)
  then show ?case by (rule Cons.IH [OF 2(2,4)])
qed simp

lemma replay_untouched: "replay key vs m = Inr m1 \<Longrightarrow> \<forall>v\<in>set vs. k \<notin> touched key v \<Longrightarrow> m1 k = m k"
proof (induction vs arbitrary: m)
  case (Cons v vs)
  obtain m2 where "replay_val key v m = Inr m2" "replay key vs m2 = Inr m1" using Cons.prems(1) by (auto simp: res_bind_Inr_iff)
  then show ?case using Cons.IH [of m2] Cons.prems(2) by (cases v) (auto split: if_splits)
qed simp

lemma good_batch_vals: "good_batch key es \<Longrightarrow> v \<in> set es \<Longrightarrow> v \<noteq> JOther \<and> v \<noteq> JBad"
  by (induction key es rule: good_batch.induct) auto

lemma replay_error:
  "replay key vs m = Inl e \<Longrightarrow> \<forall>v\<in>set vs. v \<noteq> JOther \<and> v \<noteq> JBad \<Longrightarrow> \<exists>k. e = UpdateMissing k"
proof (induction vs arbitrary: m)
  case (Cons v vs)
  show ?case
  proof (cases "replay_val key v m")
    case (Inl x)
    then show ?thesis using Cons.prems by (cases v) (auto split: if_splits)
  next
    case (Inr m')
    then show ?thesis using Cons.IH [of m'] Cons.prems by simp
  qed
qed simp

lemma log_vals_in: "v \<in> set (log_vals d i n) \<longleftrightarrow> (\<exists>j. i \<le> j \<and> j \<le> n \<and> v \<in> set (log_file d j))"
  by (auto simp: log_vals_def)

lemma replay_recent:
  assumes log: "log_ok key d h n" and p: "1 \<le> p" "p \<le> a" "a \<le> h" and t: "recent key d p h t"
    and run: "replay key (log_vals d p a) (map_of t) = Inr (map_of t')"
  shows "recent key d a h t'"
  unfolding recent_def
proof
  fix k
  have hn: "h \<le> n" using log by (simp add: log_ok_def)
  obtain ma where ma: "log_state key d a = Inr ma" using log_state_ok [OF log, of a] p(3) hn by auto
  have "p - 1 \<le> n" using p hn by simp
  then obtain m0 where "log_state key d (p - 1) = Inr m0" using log_state_ok [OF log] by blast
  then have m0: "replay key (log_vals d p a) m0 = Inr ma" using log_state_append [of "p - 1" a key d] ma p by simp
  show "\<exists>q m. a \<le> q \<and> q \<le> h \<and> log_state key d q = Inr m \<and> map_of t' k = m k"
  proof (cases "\<exists>v\<in>set (log_vals d p a). k \<in> touched key v")
    case True
    then have "map_of t' k = ma k" using replay_key [OF run m0] by blast
    then show ?thesis using ma p(3) by blast
  next
    case untouched: False
    obtain q m where q: "p \<le> q" "q \<le> h" "log_state key d q = Inr m" "map_of t k = m k" using t unfolding recent_def by blast
    have t': "map_of t' k = m k" using replay_untouched [OF run] untouched q(4) by auto
    show ?thesis
    proof (cases "a \<le> q")
      case False
      have "replay key (log_vals d (q + 1) a) m = Inr ma" using log_state_append [of q a key d] q(3) ma False by simp
      moreover have "set (log_vals d (q + 1) a) \<subseteq> set (log_vals d p a)"
      proof
        fix v
        assume "v \<in> set (log_vals d (q + 1) a)"
        then obtain j where "q + 1 \<le> j" "j \<le> a" "v \<in> set (log_file d j)" by (auto simp: log_vals_in)
        then show "v \<in> set (log_vals d p a)" using q(1) by (auto simp: log_vals_in intro!: exI [of _ j])
      qed
      ultimately have "ma k = m k" using replay_untouched [of key "log_vals d (q + 1) a" m ma k] untouched by blast
      then show ?thesis using t' ma p(3) by (intro exI [of _ a] exI [of _ ma]) simp
    qed (use q t' in blast)
  qed
qed


text \<open>
  What other processes may do at one point: keep the files well formed and the existing log, and never
  move HEAD back. They leave room in the log's 64-bit numbering.
\<close>

definition grows :: "('e \<Rightarrow> gostring) \<Rightarrow> 'e jdisk \<Rightarrow> nat \<Rightarrow> 'e jdisk \<Rightarrow> nat \<Rightarrow> nat \<Rightarrow> bool" where
  "grows key d h d' h' n' \<longleftrightarrow> disk_safe key d' h' n' \<and> h \<le> h' \<and> n' < 2 ^ 64 - 2 \<and> logFiles d \<subseteq>\<^sub>m logFiles d'"

definition act_ok :: "('e \<Rightarrow> gostring) \<Rightarrow> ('e jdisk \<Rightarrow> 'e jdisk) \<Rightarrow> bool" where
  "act_ok key f \<longleftrightarrow> (\<forall>d h n. disk_safe key d h n \<longrightarrow> n < 2 ^ 64 - 2 \<longrightarrow> (\<exists>h' n'. grows key d h (f d) h' n'))"

lemma grows_refl: "disk_safe key d h n \<Longrightarrow> n < 2 ^ 64 - 2 \<Longrightarrow> grows key d h d h n"
  by (simp add: grows_def)

lemma grows_trans: "grows key d h d1 h1 n1 \<Longrightarrow> grows key d1 h1 d2 h2 n2 \<Longrightarrow> grows key d h d2 h2 n2"
  by (auto simp: grows_def intro: map_le_trans)

lemma act_okE:
  assumes "act_ok key f" and "grows key d0 h0 d h n"
  obtains h' n' where "grows key d h (f d) h' n'"
  using assms unfolding act_ok_def grows_def by blast

lemma grows_store: "grows key d h d' h' n' \<Longrightarrow> disk_safe key d h n \<Longrightarrow> store_safe key s d h \<Longrightarrow> store_safe key s d' h'"
  unfolding grows_def by (blast intro: store_safe_mono disk_safe_log)

lemma grows_recent: "grows key d h d' h' n' \<Longrightarrow> disk_safe key d h n \<Longrightarrow> recent key d p h t \<Longrightarrow> recent key d' p h' t"
  unfolding grows_def by (blast intro: recent_mono disk_safe_log)

lemma putSnapshot_safe:
  assumes "disk_safe key d h n" and "1 \<le> a" and "a \<le> h" and "table_ok key t" and "recent key d a h t"
  shows "disk_safe key (putSnapshot (of_nat a) t d) h n" and "logFiles (putSnapshot p t d) = logFiles d"
proof -
  let ?d = "putSnapshot (of_nat a) t d"
  show fr: "logFiles (putSnapshot p t d) = logFiles d" for p by (simp add: putSnapshot_def)
  have "log_ok key ?d h n" by (rule log_ok_frame [OF disk_safe_log [OF assms(1)]]) (simp_all add: putSnapshot_def)
  moreover have "recent key ?d a h t" using assms(5) log_state_frame [OF fr [of "of_nat a"]] by (simp add: recent_def)
  then have "snap_safe key ?d h" using assms(2-4) by (auto simp: snap_safe_def putSnapshot_def)
  ultimately show "disk_safe key ?d h n" unfolding disk_safe_def ..
qed

lemma getSnapshot_safe:
  assumes "disk_safe key d h n"
  obtains e where "getSnapshot key d = (0, Some [], e)"
  | p t e where "getSnapshot key d = (of_nat p, Some t, e)" "1 \<le> p" "p \<le> h" "table_ok key t" "recent key d p h t"
proof (cases "snapFile d")
  case None
  then show ?thesis using that(1) by (simp add: getSnapshot_def)
next
  case (Some f)
  obtain p t where f: "f = (SUint (of_nat p) # map (\<lambda>x. SEntry (snd x)) t, False)" "1 \<le> p" "p \<le> h" "table_ok key t" "recent key d p h t"
    using assms Some unfolding disk_safe_def snap_safe_def by force
  obtain t' e where t': "getSnapshot key d = (of_nat p, Some t', e)" "map_of t' = map_of t" "table_ok key t'"
    using getSnapshot_ok [of key t d "of_nat p"] Some f by auto
  have "recent key d p h t'" using f(5) t'(2) by (simp add: recent_def)
  then show ?thesis using that(2) t' f by blast
qed

lemma open_log:
  assumes "log_ok key d h n" and "1 \<le> a" and "a \<le> h"
  shows "Queue_Open d (of_nat a) 0 = Inr (log_vals d 1 a, None)"
    and "1 \<le> p \<Longrightarrow> p \<le> h \<Longrightarrow> Queue_Open d (of_nat a) (of_nat p) = Inr (if p \<le> a then log_vals d p a else [], None)"
proof -
  have n: "n < 2 ^ 64 - 1" "h \<le> n" "a \<le> n" and files: "\<forall>i. logFiles d i \<noteq> None \<longleftrightarrow> 1 \<le> unat i \<and> unat i \<le> n"
    using assms(1,3) by (auto simp: log_ok_def)
  have u: "unat (of_nat k :: u64) = k" if "k \<le> n" for k using unat_of_nat_log [OF that n(1)] .
  have nz: "(of_nat k :: u64) \<noteq> 0" if "1 \<le> k" "k \<le> n" for k using u [OF that(2)] that(1) by (metis not_one_le_zero unat_0)
  have read: "NewReader d (of_nat a) (of_nat q) = (if q \<le> a then log_vals d q a else [], None)" if "1 \<le> q" "q \<le> h" for q
  proof -
    have q: "(of_nat q :: u64) - 1 = of_nat (q - 1)" using that(1) by (simp add: of_nat_diff)
    show ?thesis
    proof (cases "q \<le> a")
      case True
      then have le: "q - 1 \<le> a" by simp
      have "read_log d (of_nat (q - 1)) (of_nat a) = (log_vals d (q - 1 + 1) a, None)" by (rule read_log_ok [OF files n(1,3) le])
      moreover have "q - 1 + 1 = q" using that(1) by simp
      ultimately show ?thesis unfolding NewReader_def q using True by simp
    next
      case False
      then have "(of_nat a :: u64) \<le> of_nat (q - 1)" using that n(2,3) u [of a] u [of "q - 1"] by (simp add: word_le_nat_alt)
      then show ?thesis unfolding NewReader_def q using False by (subst read_log.simps) simp
    qed
  qed
  have "ReadTail d = Inr (1, 0)" by (rule ReadTail_write) (use assms(1) in \<open>simp add: log_ok_def\<close>)
  then show "Queue_Open d (of_nat a) 0 = Inr (log_vals d 1 a, None)"
    using read [of 1] nz [OF assms(2) n(3)] assms(2,3) by (simp add: Queue_Open_def)
  show "Queue_Open d (of_nat a) (of_nat p) = Inr (if p \<le> a then log_vals d p a else [], None)" if "1 \<le> p" "p \<le> h"
    using read [OF that] nz [OF assms(2) n(3)] nz [of p] that n(2) by (simp add: Queue_Open_def)
qed


lemma load_from_safe:
  assumes acts: "\<forall>j. act_ok key (acts j)" and d: "grows key d0 h0 d h n" and s: "store_safe key s d h" and a: "1 \<le> a" "a \<le> h"
    and run: "load_from key acts (of_nat a) s d = ((s', d'), r)"
  shows "\<exists>h' n'. grows key d h d' h' n' \<and> store_safe key s' d' h' \<and>
    (case r of Inl e \<Rightarrow> \<exists>k. e = UpdateMissing k | Inr _ \<Rightarrow> at s' = of_nat a \<and> recent key d' a h' (table s'))"
proof -
  obtain h1 n1 where 1: "grows key d h (acts 1 d) h1 n1" using act_okE [OF _ d] acts by blast
  let ?d = "acts 2 (acts 1 d)"
  obtain h2 n2 where 2: "grows key (acts 1 d) h1 ?d h2 n2" using act_okE [OF _ 1] acts by blast
  note 12 = grows_trans [OF 1 2]
  have safe: "disk_safe key d h n" "disk_safe key (acts 1 d) h1 n1" "disk_safe key ?d h2 n2" and le: "a \<le> h1" "a \<le> h2" "h1 \<le> h2"
    using d 1 2 a(2) by (auto simp: grows_def)
  note log = disk_safe_log [OF safe(3)]
  have s2: "store_safe key s ?d h2" by (rule grows_store [OF 12 safe(1) s])
  obtain p t e vs where g: "getSnapshot key (acts 1 d) = (p, Some t, e)" "table_ok key t" "Queue_Open ?d (of_nat a) p = Inr (vs, None)"
    and vs: "set vs \<subseteq> set (log_vals ?d 1 a)" and rec: "\<And>t'. replay key vs (map_of t) = Inr (map_of t') \<Longrightarrow> recent key ?d a h2 t'"
    using getSnapshot_safe [OF safe(2)]
  proof cases
    case (1 e)
    show ?thesis
    proof (rule that [OF 1 _ open_log(1) [OF log a(1) le(2)]])
      show "recent key ?d a h2 t'" if "replay key (log_vals ?d 1 a) (map_of []) = Inr (map_of t')" for t'
        using that le(2) by (auto intro: recent_exact simp: log_state_def)
    qed (simp_all add: table_ok_def)
  next
    case (2 p t e)
    have p: "p \<le> h2" using 2(3) le(3) by simp
    have t: "recent key ?d p h2 t" by (rule grows_recent [OF \<open>grows key (acts 1 d) h1 ?d h2 n2\<close> safe(2) 2(5)])
    show ?thesis
    proof (rule that [OF 2(1,4) open_log(2) [OF log a(1) le(2) 2(2) p]])
      show "set (if p \<le> a then log_vals ?d p a else []) \<subseteq> set (log_vals ?d 1 a)"
        using 2(2) unfolding log_vals_in subset_iff by (auto simp: log_vals_in) (metis le_trans)
      show "recent key ?d a h2 t'" if r: "replay key (if p \<le> a then log_vals ?d p a else []) (map_of t) = Inr (map_of t')" for t'
      proof (cases "p \<le> a")
        case True
        then show ?thesis using replay_recent [OF log 2(2) True le(2) t] r by simp
      next
        case False
        then have "map_of t' = map_of t" using r by simp
        then have "recent key ?d p h2 t'" using t by (simp add: recent_def)
        then show ?thesis using recent_mono [OF log map_le_refl, of p t' a h2] False by simp
      qed
    qed
  qed
  have vals: "\<forall>v\<in>set vs. v \<noteq> JOther \<and> v \<noteq> JBad"
  proof
    fix v
    assume "v \<in> set vs"
    then obtain j where j: "1 \<le> j" "j \<le> a" "v \<in> set (log_file ?d j)"
      using vs unfolding subset_iff log_vals_in by blast
    have "good_batch key (log_file ?d j)" using log j(1,2) le(2) by (simp add: log_ok_def)
    then show "v \<noteq> JOther \<and> v \<noteq> JBad" using good_batch_vals j(3) by blast
  qed
  show ?thesis
  proof (cases "load_loop key vs (Some t)")
    case (Inl x)
    then have "replay key vs (map_of t) = Inl x" using load_loop_replay [of key vs t] by simp
    then have "\<exists>k. x = UpdateMissing k" using replay_error vals by blast
    moreover have "s' = s" "d' = ?d" "r = Inl x" using run g(1,3) Inl by (simp_all add: load_from_def Let_def)
    ultimately show ?thesis using 12 s2 by auto
  next
    case (Inr y)
    then obtain t' where t': "y = Some t'" "replay key vs (map_of t) = Inr (map_of t')" using load_loop_replay [of key vs t] by auto
    have tok: "table_ok key t'" using load_loop_table_ok [OF g(2)] Inr t'(1) by simp
    note rt = rec [OF t'(2)]
    obtain h3 n3 where 3: "grows key ?d h2 (acts 3 ?d) h3 n3" using act_okE [OF _ 12] acts by blast
    have r: "s' = s\<lparr>table := t', at := of_nat a\<rparr>" "r = Inr ()" "d' = (if of_nat a - p > 10 then putSnapshot (of_nat a) t' (acts 3 ?d) else ?d)"
      using run g(1,3) Inr t'(1) by (auto simp: load_from_def Let_def)
    have "\<exists>h' n'. grows key ?d h2 d' h' n'"
    proof (cases "of_nat a - p > 10")
      case True
      have "disk_safe key (acts 3 ?d) h3 n3" "a \<le> h3" using 3 le(2) by (auto simp: grows_def)
      from putSnapshot_safe [OF this(1) a(1) this(2) tok grows_recent [OF 3 safe(3) rt]] show ?thesis
        using r(3) True 3 by (auto simp: grows_def)
    next
      case False
      then show ?thesis using grows_refl [OF safe(3)] 2 r(3) by (auto simp: grows_def)
    qed
    then obtain h' n' where e': "grows key ?d h2 d' h' n'" by blast
    have rt': "recent key d' a h' t'" by (rule grows_recent [OF e' safe(3) rt])
    have h': "a \<le> h'" "h' < 2 ^ 64 - 1" using e' le(2) by (auto simp: grows_def disk_safe_def log_ok_def)
    have "unat (of_nat a :: u64) = a" by (rule unat_of_nat_log [OF h'])
    then have "store_safe key s' d' h'" using r(1) tok rt' h' a(1) by (simp add: store_safe_def)
    then show ?thesis using grows_trans [OF 12 e'] r(1,2) rt' by auto
  qed
qed

lemma load_at_safe:
  assumes acts: "\<forall>j. act_ok key (acts j)" and d: "disk_safe key d h n" "n < 2 ^ 64 - 2" and s: "store_safe key s d h"
    and run: "load_at key acts s d = ((s', d'), r)"
  shows "\<exists>h' n'. grows key d h d' h' n' \<and> store_safe key s' d' h' \<and>
    (case r of Inl e \<Rightarrow> \<exists>k. e = UpdateMissing k | Inr _ \<Rightarrow> \<exists>a. at s' = of_nat a \<and> h \<le> a \<and> a \<le> h' \<and> recent key d' a h' (table s'))"
proof -
  obtain h1 n1 where 1: "grows key d h (acts 0 d) h1 n1" using act_okE [OF _ grows_refl [OF d]] acts by blast
  have s1: "store_safe key s (acts 0 d) h1" by (rule grows_store [OF 1 d(1) s])
  have log: "log_ok key (acts 0 d) h1 n1" and le: "h \<le> h1" using 1 by (auto simp: grows_def disk_safe_def)
  have n: "h1 \<le> n1" "n1 < 2 ^ 64 - 1" using log by (auto simp: log_ok_def)
  note u = unat_of_nat_log [OF n]
  have head: "ReadHead (acts 0 d) = Inr (of_nat h1)" by (rule ReadHead_write) (use log in \<open>simp add: log_ok_def\<close>)
  show ?thesis
  proof (cases "of_nat h1 = at s")
    case True
    have "recent key (acts 0 d) h1 h1 (table s)"
    proof (cases "h1 = 0")
      case True
      then show ?thesis using s1 by (auto simp: store_safe_def log_state_def log_vals_def intro!: recent_exact)
    next
      case False
      then have "at s \<noteq> 0" using u True by (metis unat_0)
      then show ?thesis using s1 u True by (auto simp: store_safe_def)
    qed
    moreover have "s' = s" "d' = acts 0 d" "r = Inr ()" using run head True by (simp_all add: load_at_def)
    ultimately show ?thesis using 1 s1 le True by - (rule exI [of _ h1], rule exI [of _ n1], auto intro!: exI [of _ h1])
  next
    case False
    have h1: "1 \<le> h1"
    proof (rule ccontr)
      assume "\<not> 1 \<le> h1"
      then have "h1 = 0" by simp
      moreover from this have "at s = 0" using s1 by (simp add: store_safe_def unsigned_eq_0_iff)
      ultimately show False using False by simp
    qed
    have "load_from key acts (of_nat h1) s (acts 0 d) = ((s', d'), r)" using run head False by (simp add: load_at_def)
    from load_from_safe [OF acts 1 s1 h1 order_refl this] obtain h' n' where e: "grows key (acts 0 d) h1 d' h' n'" "store_safe key s' d' h'"
      "case r of Inl e \<Rightarrow> \<exists>k. e = UpdateMissing k | Inr _ \<Rightarrow> at s' = of_nat h1 \<and> recent key d' h1 h' (table s')" by blast
    moreover have "h1 \<le> h'" using e(1) by (simp add: grows_def)
    ultimately show ?thesis using grows_trans [OF 1 e(1)] le
      by - (rule exI [of _ h'], rule exI [of _ n'], auto split: sum.splits intro!: exI [of _ h1])
  qed
qed

text \<open>
  Between a process's own two writes the log is one file ahead of HEAD. The others find that file in
  place of the one they would write, so they leave HEAD and the log alone until the process has
  moved HEAD; they may still store snapshots.
\<close>

definition half_ok :: "('e \<Rightarrow> gostring) \<Rightarrow> ('e jdisk \<Rightarrow> 'e jdisk) \<Rightarrow> bool" where
  "half_ok key f \<longleftrightarrow> (\<forall>d h. disk_safe key d h (h + 1) \<longrightarrow> disk_safe key (f d) h (h + 1) \<and> logFiles (f d) = logFiles d)"

lemma CommitAt_safe:
  assumes d: "disk_safe key d h n" "n < 2 ^ 64 - 2" and a: "a \<le> h" "logFiles d (of_nat a + 1) = None" and es: "good_batch key es"
    and t: "recent key d a h t" "replay key es (map_of t) = Inr m'" and act: "half_ok key act"
  obtains d' where "CommitAt act (of_nat a) es d = (d', Inr ())" and "disk_safe key d' (a + 1) (a + 1)" and "logFiles d \<subseteq>\<^sub>m logFiles d'"
    and "logFiles d' (of_nat (a + 1)) = Some es" and "log_state key d' a = Inr (map_of t)"
proof -
  note log = disk_safe_log [OF d(1)]
  note an = free_at_end [OF log d(2) a]
  have log': "log_ok key d a a" and snap: "snap_safe key d a" using d(1) an by (simp_all add: disk_safe_def)
  obtain m where m: "log_state key d a = Inr m" using log_state_ok [OF log' order_refl] by blast
  have mt: "map_of t = m" using recent_end [of key d a t m] t(1) an m by simp
  have lim: "a < 2 ^ 64 - 2" using d(2) an(1) by simp
  let ?d1 = "put_log (of_nat a + 1) es d"
  note P = put_log_ok [OF log' lim es m t(2) [unfolded mt]]
  have "snap_safe key ?d1 a" by (rule snap_safe_mono [OF log' P(3) _ order_refl snap]) (simp add: put_log_def)
  then have "disk_safe key ?d1 a (a + 1)" using P(1) by (simp add: disk_safe_def)
  then have half: "disk_safe key (act ?d1) a (a + 1)" "logFiles (act ?d1) = logFiles ?d1" using act by (auto simp: half_ok_def)
  let ?d = "writeHead (of_nat a + 1) (act ?d1)"
  have files: "logFiles ?d = logFiles ?d1" using half(2) by (simp add: writeHead_def)
  have "exclusivePut d" using log by (simp add: log_ok_def)
  then have 1: "CommitAt act (of_nat a) es d = (?d, Inr ())" using a(2) by (simp add: CommitAt_def)
  have "snap_safe key ?d (a + 1)"
    by (rule snap_safe_mono [OF disk_safe_log [OF half(1)]]) (use half(1) in \<open>simp_all add: writeHead_def disk_safe_def\<close>)
  then have 2: "disk_safe key ?d (a + 1) (a + 1)" using writeHead_ok [OF disk_safe_log [OF half(1)]] by (simp add: disk_safe_def)
  have 3: "logFiles d \<subseteq>\<^sub>m logFiles ?d" using P(3) files by simp
  have 4: "logFiles ?d (of_nat (a + 1)) = Some es" unfolding files by (simp add: put_log_def add.commute)
  have "log_state key ?d a = Inr (map_of t)" using log_state_submap [OF log' 3 order_refl] m mt by simp
  then show ?thesis using that [OF 1 2 3 4] by blast
qed

text \<open>The rely conditions of an operation: around its loads and its checks, and between its writes.\<close>

definition env_ok :: "('e \<Rightarrow> gostring) \<Rightarrow> 'e jenv \<Rightarrow> bool" where
  "env_ok key env \<longleftrightarrow> (\<forall>k j. act_ok key (env k j))"

definition write_env_ok :: "('e \<Rightarrow> gostring) \<Rightarrow> 'e jenv \<Rightarrow> bool" where
  "write_env_ok key env' \<longleftrightarrow> (\<forall>k. act_ok key (env' k 0) \<and> half_ok key (env' k 1))"

text \<open>
  A check that looks at the contents of the table only and makes the batch replayable. \<open>why m e\<close> is the
  reason for error \<open>e\<close> in state \<open>m\<close>; it lies in the value of one key.
\<close>

definition check_ok :: "('e \<Rightarrow> gostring) \<Rightarrow> ((gostring \<times> 'e) list \<Rightarrow> jerror option) \<Rightarrow>
    ((gostring \<rightharpoonup> 'e) \<Rightarrow> jerror option) \<Rightarrow> ((gostring \<rightharpoonup> 'e) \<Rightarrow> jerror \<Rightarrow> bool) \<Rightarrow> 'e jval list \<Rightarrow> bool" where
  "check_ok key fn chk why es \<longleftrightarrow> good_batch key es \<and> (\<forall>t. fn t = chk (map_of t)) \<and>
     (\<forall>m. chk m = None \<longrightarrow> (\<exists>m'. replay key es m = Inr m')) \<and>
     (\<forall>m e. chk m = Some e \<longrightarrow> (\<exists>k. \<forall>m'. m' k = m k \<longrightarrow> why m' e))"

definition committed :: "('e \<Rightarrow> gostring) \<Rightarrow> ((gostring \<rightharpoonup> 'e) \<Rightarrow> jerror option) \<Rightarrow> 'e jval list \<Rightarrow> 'e jdisk \<Rightarrow> nat \<Rightarrow> bool" where
  "committed key chk es d p \<longleftrightarrow> 1 \<le> p \<and> logFiles d (of_nat p) = Some es \<and>
     (\<exists>m. log_state key d (p - 1) = Inr m \<and> chk m = None)"

text \<open>
  An operation is refused because its retries are used up, because a state of the log between the HEAD
  it started from and the last one gives the reason, or because a \<open>load\<close> replayed an update on a snapshot
  newer than its position in which the key was missing.
\<close>

definition refused :: "('e \<Rightarrow> gostring) \<Rightarrow> ((gostring \<rightharpoonup> 'e) \<Rightarrow> jerror \<Rightarrow> bool) \<Rightarrow> 'e jdisk \<Rightarrow> nat \<Rightarrow> nat \<Rightarrow> jerror \<Rightarrow> bool" where
  "refused key why d h h' e \<longleftrightarrow> e = ErrRetriesExceeded \<or> (\<exists>k. e = UpdateMissing k) \<or>
     (\<exists>p m. h \<le> p \<and> p \<le> h' \<and> log_state key d p = Inr m \<and> why m e)"

definition outcome :: "('e \<Rightarrow> gostring) \<Rightarrow> ((gostring \<rightharpoonup> 'e) \<Rightarrow> jerror option) \<Rightarrow> ((gostring \<rightharpoonup> 'e) \<Rightarrow> jerror \<Rightarrow> bool) \<Rightarrow>
    'e jval list \<Rightarrow> 'e jdisk \<Rightarrow> nat \<Rightarrow> ('e jstore \<times> 'e jdisk) \<times> (jerror + unit) \<Rightarrow> bool" where
  "outcome key chk why es d h r \<longleftrightarrow> (case r of ((s', d'), q) \<Rightarrow>
     (\<exists>h' n'. disk_safe key d' h' n' \<and> h \<le> h' \<and> logFiles d \<subseteq>\<^sub>m logFiles d' \<and> store_safe key s' d' h' \<and>
       (case q of Inr _ \<Rightarrow> (\<exists>p>h. p \<le> h' \<and> committed key chk es d' p) | Inl e \<Rightarrow> n' < 2 ^ 64 - 2 \<and> refused key why d' h h' e)))"

lemma outcome_mono:
  assumes "outcome key chk why es d1 h1 r" and "grows key d h d1 h1 n1"
  shows "outcome key chk why es d h r"
proof -
  obtain s' d' q where r: "r = ((s', d'), q)" by (metis surj_pair)
  have le: "h \<le> h1" "logFiles d \<subseteq>\<^sub>m logFiles d1" using assms(2) by (simp_all add: grows_def)
  obtain h' n' where 1: "disk_safe key d' h' n'" "h1 \<le> h'" "logFiles d1 \<subseteq>\<^sub>m logFiles d'" "store_safe key s' d' h'"
    "case q of Inr _ \<Rightarrow> (\<exists>p>h1. p \<le> h' \<and> committed key chk es d' p) | Inl e \<Rightarrow> n' < 2 ^ 64 - 2 \<and> refused key why d' h1 h' e"
    using assms(1) unfolding outcome_def r by auto
  have "case q of Inr _ \<Rightarrow> (\<exists>p>h. p \<le> h' \<and> committed key chk es d' p) | Inl e \<Rightarrow> n' < 2 ^ 64 - 2 \<and> refused key why d' h h' e"
    using 1(5) le(1) by (auto simp: refused_def split: sum.splits intro: le_less_trans le_trans)
  then show ?thesis
    unfolding outcome_def r using 1(1-4) le map_le_trans le_trans by (simp, blast)
qed

lemma refused_recent:
  assumes "check_ok key fn chk why es" and "fn t = Some e" and "recent key d a h' t" and "h \<le> a"
  shows "refused key why d h h' e"
proof -
  obtain k where k: "\<forall>m'. m' k = map_of t k \<longrightarrow> why m' e" using assms(1,2) unfolding check_ok_def by metis
  obtain q m where "a \<le> q" "q \<le> h'" "log_state key d q = Inr m" "map_of t k = m k" using assms(3) unfolding recent_def by blast
  then show ?thesis using k assms(4) by (auto simp: refused_def intro!: exI [of _ q] exI [of _ m])
qed

lemma commit_loop_ok:
  assumes env: "env_ok key env" "write_env_ok key env'" and chk: "check_ok key fn chk why es"
  shows "disk_safe key d h n \<Longrightarrow> store_safe key s d h \<Longrightarrow> n < 2 ^ 64 - 2 \<Longrightarrow>
    outcome key chk why es d h (commit_loop key fn es env env' k s d)"
proof (induction k arbitrary: s d h n)
  case 0
  then show ?case by (auto simp: outcome_def refused_def)
next
  case (Suc k)
  have acts: "\<forall>j. act_ok key (env k j)" "act_ok key (env' k 0)" "half_ok key (env' k 1)"
    using env by (simp_all add: env_ok_def write_env_ok_def)
  obtain s2 d2 r where l: "load_at key (env k) s d = ((s2, d2), r)" by (metis surj_pair)
  obtain h2 n2 where 2: "grows key d h d2 h2 n2" "store_safe key s2 d2 h2"
    "case r of Inl e \<Rightarrow> \<exists>k. e = UpdateMissing k | Inr _ \<Rightarrow> \<exists>a. at s2 = of_nat a \<and> h \<le> a \<and> a \<le> h2 \<and> recent key d2 a h2 (table s2)"
    using load_at_safe [OF acts(1) Suc.prems(1,3,2) l] by blast
  have safe2: "disk_safe key d2 h2 n2" "h \<le> h2" "logFiles d \<subseteq>\<^sub>m logFiles d2" "n2 < 2 ^ 64 - 2" using 2(1) by (simp_all add: grows_def)
  have stop: "outcome key chk why es d h ((s2, d2), Inl e)" if "refused key why d2 h h2 e" for e
    using that safe2 2(2) by (auto simp: outcome_def)
  show ?case
  proof (cases r)
    case (Inl e)
    then have "refused key why d2 h h2 e" using 2(3) by (auto simp: refused_def)
    then show ?thesis using stop l Inl by simp
  next
    case (Inr u)
    obtain a where a: "at s2 = of_nat a" "h \<le> a" "a \<le> h2" "recent key d2 a h2 (table s2)" using 2(3) Inr by auto
    show ?thesis
    proof (cases "fn (table s2)")
      case (Some e)
      then show ?thesis using stop [OF refused_recent [OF chk Some a(4,2)]] l Inr by simp
    next
      case None
      let ?d3 = "env' k 0 d2"
      obtain h3 n3 where 3: "grows key d2 h2 ?d3 h3 n3" using act_okE [OF acts(2) 2(1)] .
      note 23 = grows_trans [OF 2(1) 3]
      have s3: "store_safe key s2 ?d3 h3" and r3: "recent key ?d3 a h3 (table s2)"
        by (rule grows_store [OF 3 safe2(1) 2(2)], rule grows_recent [OF 3 safe2(1) a(4)])
      have safe3: "disk_safe key ?d3 h3 n3" "n3 < 2 ^ 64 - 2" "a \<le> h3" "logFiles d \<subseteq>\<^sub>m logFiles ?d3"
        using 23 3 a(3) by (auto simp: grows_def)
      show ?thesis
      proof (cases "logFiles ?d3 (of_nat a + 1)")
        case (Some f)
        have "exclusivePut ?d3" using safe3(1) by (simp add: disk_safe_def log_ok_def)
        then have "commit_loop key fn es env env' (Suc k) s d = commit_loop key fn es env env' k s2 ?d3"
          using l Inr None Some a(1) by (simp add: CommitAt_def)
        then show ?thesis using outcome_mono [OF Suc.IH [OF safe3(1) s3 safe3(2)] 23] by simp
      next
        case free: None
        have good: "good_batch key es" and ok: "chk (map_of (table s2)) = None" using chk None by (auto simp: check_ok_def)
        obtain m' where m': "replay key es (map_of (table s2)) = Inr m'" using chk ok unfolding check_ok_def by blast
        obtain d' where C: "CommitAt (env' k 1) (of_nat a) es ?d3 = (d', Inr ())" "disk_safe key d' (a + 1) (a + 1)"
          "logFiles ?d3 \<subseteq>\<^sub>m logFiles d'" "logFiles d' (of_nat (a + 1)) = Some es" "log_state key d' a = Inr (map_of (table s2))"
          using CommitAt_safe [OF safe3(1,2,3) free good r3 m' acts(3)] .
        have run: "commit_loop key fn es env env' (Suc k) s d = ((s2\<lparr>at := 0\<rparr>, d'), Inr ())"
          using l Inr None a(1) C(1) by simp
        have "committed key chk es d' (a + 1)" using C(4,5) ok by (simp add: committed_def)
        moreover have "store_safe key (s2\<lparr>at := 0\<rparr>) d' (a + 1)" using s3 by (simp add: store_safe_def)
        moreover have "logFiles d \<subseteq>\<^sub>m logFiles d'" by (rule map_le_trans [OF safe3(4) C(3)])
        ultimately show ?thesis unfolding run outcome_def using C(2) a(2) by (auto intro!: exI [of _ "a + 1"])
      qed
    qed
  qed
qed


text \<open>
  The operations of the store keep to these conditions themselves. An operation that finds the log one
  file ahead of HEAD, because another process is between its two writes, leaves HEAD and the log alone.
\<close>

lemma load_quiet_files:
  "load_at key idle s d = ((s', d'), r) \<Longrightarrow> logFiles d' = logFiles d \<and> headFile d' = headFile d"
  by (auto simp: load_at_def load_from_def idle_def putSnapshot_def Let_def split: sum.splits prod.splits option.splits if_splits)

lemma log_ok_unique:
  assumes "log_ok key d h n" and "log_ok key d' h' n'" and "logFiles d' = logFiles d" and "headFile d' = headFile d"
  shows "h' = h" and "n' = n"
proof -
  have n: "n < 2 ^ 64 - 1" "n' < 2 ^ 64 - 1" "h \<le> n" "h' \<le> n'"
    and files: "\<forall>i. logFiles d i \<noteq> None \<longleftrightarrow> 1 \<le> unat i \<and> unat i \<le> n" "\<forall>i. logFiles d i \<noteq> None \<longleftrightarrow> 1 \<le> unat i \<and> unat i \<le> n'"
    using assms by (auto simp: log_ok_def)
  have "headFile d = Some (FormatUint (of_nat h))" "headFile d = Some (FormatUint (of_nat h'))"
    using assms unfolding log_ok_def by metis+
  then have "of_nat h' = (of_nat h :: u64)" by (metis ReadHead_write sum.inject(2))
  then show "h' = h" using unat_of_nat_log [OF n(3,1)] unat_of_nat_log [OF n(4,2)] by metis
  have le: "i \<le> n \<longleftrightarrow> i \<le> n'" if "1 \<le> i" "i < 2 ^ 64 - 1" for i
    using files [THEN spec, of "of_nat i"] unat_of_nat_log [OF order_refl that(2)] that(1) by simp
  show "n' = n"
  proof (rule antisym)
    show "n' \<le> n" using le [of n'] n(2) by (cases "n' = 0") simp_all
    show "n \<le> n'" using le [of n] n(1) by (cases "n = 0") simp_all
  qed
qed

lemma idle_ok: "act_ok key (idle j)" "half_ok key (idle j)"
  unfolding act_ok_def half_ok_def idle_def using grows_refl by blast+

text \<open>No interference.\<close>

definition quiet :: "'e jenv" where
  "quiet k = idle"

lemma commit_loop_half:
  "disk_safe key d h (h + 1) \<Longrightarrow> store_safe key s d h \<Longrightarrow> h + 1 < 2 ^ 64 - 2 \<Longrightarrow>
    commit_loop key fn es quiet quiet k s d = ((s', d'), r) \<Longrightarrow> disk_safe key d' h (h + 1) \<and> logFiles d' = logFiles d"
proof (induction k arbitrary: s d)
  case (Suc k)
  obtain s2 d2 q where l: "load_at key idle s d = ((s2, d2), q)" by (metis surj_pair)
  note fr = load_quiet_files [OF l]
  obtain h2 n2 where 2: "grows key d h d2 h2 n2" "store_safe key s2 d2 h2"
    "case q of Inl e \<Rightarrow> \<exists>k. e = UpdateMissing k | Inr _ \<Rightarrow> \<exists>a. at s2 = of_nat a \<and> h \<le> a \<and> a \<le> h2 \<and> recent key d2 a h2 (table s2)"
    using load_at_safe [OF _ Suc.prems(1,3,2) l] idle_ok(1) by blast
  have "log_ok key d2 h2 n2" using 2(1) by (simp add: grows_def disk_safe_def)
  then have eq: "h2 = h" "n2 = h + 1"
    using log_ok_unique [OF disk_safe_log [OF Suc.prems(1)], of d2 h2 n2] fr by auto
  have safe: "disk_safe key d2 h (h + 1)" using 2(1) eq by (simp add: grows_def)
  show ?case
  proof (cases "\<exists>u. q = Inr u \<and> fn (table s2) = None")
    case True
    then have a: "at s2 = of_nat h" using 2(3) eq by auto
    have "\<forall>i. logFiles d2 i \<noteq> None \<longleftrightarrow> 1 \<le> unat i \<and> unat i \<le> h + 1" "exclusivePut d2"
      using safe by (simp_all add: disk_safe_def log_ok_def)
    then have "CommitAt idle' (at s2) es d2 = (d2, Inl ErrExist)" for idle'
      using unat_of_nat_log [of "h + 1" "h + 1"] Suc.prems(3) a by (simp add: CommitAt_def add.commute)
    then have "commit_loop key fn es quiet quiet k s2 d2 = ((s', d'), r)"
      using Suc.prems(4) l True idle_def [of 0 d2] by (auto simp: quiet_def [of k])
    then show ?thesis using Suc.IH [OF safe _ Suc.prems(3)] 2(2) eq(1) fr by simp
  next
    case False
    then have "d' = d2" using Suc.prems(4) l by (cases q) (auto simp: quiet_def [of k] split: option.splits)
    then show ?thesis using safe fr by simp
  qed
qed simp

subsection \<open>The operations of the store\<close>

definition insert_chk :: "('e \<Rightarrow> gostring) \<Rightarrow> 'e \<Rightarrow> (gostring \<rightharpoonup> 'e) \<Rightarrow> jerror option" where
  "insert_chk key e m = (if m (key e) \<noteq> None then Some ErrKeyExists else None)"

definition move_chk :: "('e \<Rightarrow> gostring) \<Rightarrow> gostring \<Rightarrow> 'e \<Rightarrow> (gostring \<rightharpoonup> 'e) \<Rightarrow> jerror option" where
  "move_chk key old e m = (if m old = None then Some ErrNoSuchKey
     else if m (key e) \<noteq> None then Some ErrKeyExists else None)"

definition constraint_chk :: "gostring \<Rightarrow> ('e \<Rightarrow> bool) option \<Rightarrow> (gostring \<rightharpoonup> 'e) \<Rightarrow> jerror option" where
  "constraint_chk k c m = (case m k of None \<Rightarrow> Some ErrNoSuchKey
     | Some old \<Rightarrow> (case c of Some f \<Rightarrow> if f old then None else Some ErrConstraint | None \<Rightarrow> None))"

text \<open>
  The reasons of the errors. \<open>Move\<close> looks at two keys, each possibly as of a state of its own.
\<close>

definition move_why :: "('e \<Rightarrow> gostring) \<Rightarrow> gostring \<Rightarrow> 'e \<Rightarrow> (gostring \<rightharpoonup> 'e) \<Rightarrow> jerror \<Rightarrow> bool" where
  "move_why key old e m x \<longleftrightarrow> x = ErrNoSuchKey \<and> m old = None \<or> x = ErrKeyExists \<and> m (key e) \<noteq> None"

abbreviation because :: "((gostring \<rightharpoonup> 'e) \<Rightarrow> jerror option) \<Rightarrow> (gostring \<rightharpoonup> 'e) \<Rightarrow> jerror \<Rightarrow> bool" where
  "because chk m x \<equiv> chk m = Some x"

lemma checks_ok:
  "check_ok key (insert_check key e) (insert_chk key e) (because (insert_chk key e)) [JAdd e]"
  "check_ok key (move_check key old e) (move_chk key old e) (move_why key old e) [JDelete old, JAdd e]"
  "check_ok key (constraint_check k c) (constraint_chk k c) (because (constraint_chk k c)) [JDelete k]"
  "check_ok key (constraint_check (key e) c) (constraint_chk (key e) c) (because (constraint_chk (key e) c)) [JUpdate e]"
proof -
  show "check_ok key (insert_check key e) (insert_chk key e) (because (insert_chk key e)) [JAdd e]"
    by (auto simp: check_ok_def insert_check_def insert_chk_def intro!: exI [of _ "key e"])
  show "check_ok key (constraint_check k c) (constraint_chk k c) (because (constraint_chk k c)) [JDelete k]"
    by (auto simp: check_ok_def constraint_check_def constraint_chk_def intro!: exI [of _ k])
  show "check_ok key (constraint_check (key e) c) (constraint_chk (key e) c) (because (constraint_chk (key e) c)) [JUpdate e]"
    by (auto simp: check_ok_def constraint_check_def constraint_chk_def split: option.splits intro!: exI [of _ "key e"])
  have "\<exists>k. \<forall>m'. m' k = m k \<longrightarrow> move_why key old e m' x" if "move_chk key old e m = Some x" for m x
  proof (cases "m old = None")
    case True
    then show ?thesis using that by (auto simp: move_chk_def move_why_def intro!: exI [of _ old])
  next
    case False
    then show ?thesis using that by (auto simp: move_chk_def move_why_def split: if_splits intro!: exI [of _ "key e"])
  qed
  then show "check_ok key (move_check key old e) (move_chk key old e) (move_why key old e) [JDelete old, JAdd e]"
    by (auto simp: check_ok_def move_check_def move_chk_def)
qed

text \<open>Without interference and with HEAD up to date, an operation succeeds at the first attempt.\<close>

lemma commit_quiet:
  assumes d: "disk_ok key d n n" and s: "store_ok key s d n" and n: "n < 2 ^ 64 - 2" and chk: "check_ok key fn chk why es"
    and st: "log_state key d n = Inr m"
  shows "case chk m of
      Some e \<Rightarrow> (\<exists>s' d'. Store_commit key fn es quiet quiet s d = ((s', d'), Inl e) \<and>
        disk_ok key d' n n \<and> store_ok key s' d' n \<and> log_state key d' n = Inr m)
    | None \<Rightarrow> (\<exists>s' d' m'. Store_commit key fn es quiet quiet s d = ((s', d'), Inr ()) \<and> replay key es m = Inr m' \<and>
        disk_ok key d' (n + 1) (n + 1) \<and> store_ok key s' d' (n + 1) \<and> log_state key d' (n + 1) = Inr m')"
proof -
  obtain s2 d2 where 2: "load key s d = ((s2, d2), Inr ())" "at s2 = of_nat n" "table_ok key (table s2)"
    "log_state key d n = Inr (map_of (table s2))" "disk_ok key d2 n n" "logFiles d2 = logFiles d" "store_ok key s2 d2 n"
    using load_ok [OF d s] by blast
  have m: "map_of (table s2) = m" "log_state key d2 n = Inr m" using 2(4) st log_state_frame [OF 2(6)] by simp_all
  have fn: "fn (table s2) = chk m" using chk m(1) by (simp add: check_ok_def)
  have step: "Store_commit key fn es quiet quiet s d = commit_loop key fn es quiet quiet (Suc 9) s d"
    by (simp add: Store_commit_def maxRetries_def eval_nat_numeral)
  show ?thesis
  proof (cases "chk m")
    case (Some e)
    then show ?thesis using 2(1,5,7) m(2) fn unfolding step commit_loop.simps quiet_def load_def by auto
  next
    case None
    obtain m' where m': "replay key es m = Inr m'" using chk None unfolding check_ok_def by blast
    have good: "good_batch key es" using chk by (simp add: check_ok_def)
    note C = commit_quiet_ok [OF 2(5) n good m(2) m']
    let ?d = "writeHead (of_nat n + 1) (put_log (of_nat n + 1) es d2)"
    have "Store_commit key fn es quiet quiet s d = ((s2\<lparr>at := 0\<rparr>, ?d), Inr ())"
      using 2(1,2) C(1) None fn unfolding step commit_loop.simps quiet_def load_def using idle_def [of 0 d2] by simp
    moreover have "store_ok key (s2\<lparr>at := 0\<rparr>) ?d (n + 1)" using 2(3) by (simp add: store_ok_def)
    ultimately show ?thesis using None C(2,3) m' by auto
  qed
qed

text \<open>
  Another process that runs an operation of a store of its own, as long as the numbering has room, is
  interference of the kind relied on, at every point.
\<close>

definition has_room :: "'e jdisk \<Rightarrow> bool" where
  "has_room d \<longleftrightarrow> logFiles d (2 ^ 64 - 2) = None"

definition other_commit :: "('e \<Rightarrow> gostring) \<Rightarrow> ((gostring \<times> 'e) list \<Rightarrow> jerror option) \<Rightarrow> 'e jval list \<Rightarrow> 'e jdisk \<Rightarrow> 'e jdisk" where
  "other_commit key fn es d = (let d' = snd (fst (Store_commit key fn es quiet quiet newStore d)) in if has_room d \<and> has_room d' then d' else d)"

lemma has_room_bound:
  assumes "log_ok key d h n"
  shows "has_room d \<longleftrightarrow> n < 2 ^ 64 - 2"
proof -
  have n: "n < 2 ^ 64 - 1" and f: "logFiles d (2 ^ 64 - 2) \<noteq> None \<longleftrightarrow> 1 \<le> unat (2 ^ 64 - 2 :: u64) \<and> unat (2 ^ 64 - 2 :: u64) \<le> n"
    using assms by (simp_all add: log_ok_def)
  have "unat (2 ^ 64 - 2 :: u64) = 2 ^ 64 - 2" by simp
  then show ?thesis using n f by (auto simp: has_room_def)
qed

lemma newStore_safe: "store_safe key newStore d h"
  by (simp add: store_safe_def newStore_def table_ok_def)

lemma quiet_env: "env_ok key quiet" "write_env_ok key quiet"
  by (simp_all add: env_ok_def write_env_ok_def quiet_def idle_ok)

lemma other_commit_ok:
  assumes chk: "check_ok key fn chk why es"
  shows "act_ok key (other_commit key fn es)" and "half_ok key (other_commit key fn es)"
proof -
  define f where "f d = snd (fst (Store_commit key fn es quiet quiet newStore d))" for d
  have o: "other_commit key fn es d = (if has_room d \<and> has_room (f d) then f d else d)" for d
    by (simp add: other_commit_def f_def Let_def)
  show "act_ok key (other_commit key fn es)"
    unfolding act_ok_def
  proof (intro allI impI)
    fix d h n
    assume d: "disk_safe key d h n" "n < 2 ^ 64 - 2"
    have "outcome key chk why es d h (Store_commit key fn es quiet quiet newStore d)"
      unfolding Store_commit_def by (rule commit_loop_ok [OF quiet_env chk d(1) newStore_safe d(2)])
    then obtain h' n' where f: "disk_safe key (f d) h' n'" "h \<le> h'" "logFiles d \<subseteq>\<^sub>m logFiles (f d)"
      unfolding f_def outcome_def by (auto split: prod.splits)
    then have "grows key d h (f d) h' n'" if "has_room (f d)"
      using that has_room_bound [OF disk_safe_log [OF f(1)]] by (simp add: grows_def)
    then show "\<exists>h' n'. grows key d h (other_commit key fn es d) h' n'"
      unfolding o using grows_refl [OF d] by auto
  qed
  show "half_ok key (other_commit key fn es)"
    unfolding half_ok_def
  proof (intro allI impI)
    fix d h
    assume d: "disk_safe key d h (h + 1)"
    obtain s' d' r where run: "commit_loop key fn es quiet quiet maxRetries newStore d = ((s', d'), r)" by (metis surj_pair)
    then have "f d = d'" by (simp add: f_def Store_commit_def)
    then show "disk_safe key (other_commit key fn es d) h (h + 1) \<and> logFiles (other_commit key fn es d) = logFiles d"
      unfolding o using commit_loop_half [OF d newStore_safe _ run] has_room_bound [OF disk_safe_log [OF d]] d by simp
  qed
qed

end
