(* ===== verification/Journal_Store.thy ===== *)
theory Journal_Store
  imports Journal_Race
begin

text \<open>
  The store as a key-value map: the interface its clients rely on, the store of \<open>store.go\<close> as an
  instance of it, and the properties of the journal.
\<close>

subsection \<open>The store as a map\<close>

text \<open>
  The interface the pool and branch configurations rely on: the store represents a map, and each
  operation either returns the error its condition calls for and changes nothing, or makes its
  change. \<open>rep s n m\<close> says that state \<open>s\<close> represents \<open>m\<close> after \<open>n\<close> changes; there is room
  for \<open>cap\<close> of them.
\<close>

locale kv_store =
  fixes rep :: "'s \<Rightarrow> nat \<Rightarrow> (gostring \<rightharpoonup> 'e) \<Rightarrow> bool"
    and cap :: nat
    and key :: "'e \<Rightarrow> gostring"
    and insert_op :: "'e \<Rightarrow> 's \<Rightarrow> 's \<times> (jerror + unit)"
    and move_op :: "gostring \<Rightarrow> 'e \<Rightarrow> 's \<Rightarrow> 's \<times> (jerror + unit)"
    and delete_op :: "gostring \<Rightarrow> ('e \<Rightarrow> bool) option \<Rightarrow> 's \<Rightarrow> 's \<times> (jerror + unit)"
    and update_op :: "'e \<Rightarrow> ('e \<Rightarrow> bool) option \<Rightarrow> 's \<Rightarrow> 's \<times> (jerror + unit)"
    and all_op :: "'s \<Rightarrow> 's \<times> (jerror + 'e list)"
  assumes insert_law: "rep s n m \<Longrightarrow> n < cap \<Longrightarrow> insert_op e s = (s', r) \<Longrightarrow>
      (case insert_chk key e m of Some x \<Rightarrow> r = Inl x \<and> rep s' n m
        | None \<Rightarrow> r = Inr () \<and> rep s' (n + 1) (m(key e \<mapsto> e)))"
    and move_law: "rep s n m \<Longrightarrow> n < cap \<Longrightarrow> move_op old e s = (s', r) \<Longrightarrow>
      (case move_chk key old e m of Some x \<Rightarrow> r = Inl x \<and> rep s' n m
        | None \<Rightarrow> r = Inr () \<and> rep s' (n + 1) (m(old := None, key e \<mapsto> e)))"
    and delete_law: "rep s n m \<Longrightarrow> n < cap \<Longrightarrow> delete_op k c s = (s', r) \<Longrightarrow>
      (case constraint_chk k c m of Some x \<Rightarrow> r = Inl x \<and> rep s' n m
        | None \<Rightarrow> r = Inr () \<and> rep s' (n + 1) (m(k := None)))"
    and update_law: "rep s n m \<Longrightarrow> n < cap \<Longrightarrow> update_op e c s = (s', r) \<Longrightarrow>
      (case constraint_chk (key e) c m of Some x \<Rightarrow> r = Inl x \<and> rep s' n m
        | None \<Rightarrow> r = Inr () \<and> rep s' (n + 1) (m(key e \<mapsto> e)))"
    and all_law: "rep s n m \<Longrightarrow> all_op s = (s', q) \<Longrightarrow>
      rep s' n m \<and> (\<exists>es. q = Inr es \<and> set es = ran m \<and> distinct (map key es))"
    and keyed: "rep s n m \<Longrightarrow> m k = Some e \<Longrightarrow> key e = k"
begin

lemma insert_then_all:
  assumes "rep s n m" and "n < cap" and "m (key e) = None" and "insert_op e s = (s1, r1)" and "all_op s1 = (s2, r2)"
  shows "r1 = Inr () \<and> (\<exists>es. r2 = Inr es \<and> set es = insert e (ran m))"
proof -
  have 1: "r1 = Inr ()" "rep s1 (n + 1) (m(key e \<mapsto> e))"
    using insert_law [OF assms(1,2,4)] assms(3) by (simp_all add: insert_chk_def)
  have "ran (m(key e \<mapsto> e)) = insert e (ran m)" using assms(3) by (rule ran_map_upd)
  then show ?thesis using 1 all_law [OF 1(2) assms(5)] by auto
qed

lemma insert_twice:
  assumes "rep s n m" and "n + 1 < cap" and "m (key e) = None" and "insert_op e s = (s1, r1)"
    and "key e' = key e" and "insert_op e' s1 = (s2, r2)"
  shows "r2 = Inl ErrKeyExists"
proof -
  have "rep s1 (n + 1) (m(key e \<mapsto> e))"
    using insert_law [OF assms(1) _ assms(4)] assms(2,3) by (simp add: insert_chk_def)
  from insert_law [OF this assms(2,6)] show ?thesis using assms(5) by (simp add: insert_chk_def)
qed

lemma find_entry:
  assumes "rep s n m" and "all_op s = (s', Inr es)"
  shows "find (\<lambda>e. key e = k) es = m k"
proof -
  have es: "set es = ran m" "distinct (map key es)" and s: "rep s n m"
    using all_law [OF assms] assms(1) by auto
  show ?thesis
  proof (cases "m k")
    case None
    have "\<not> (\<exists>e\<in>set es. key e = k)"
      using es(1) keyed [OF s] None by (fastforce simp: ran_def)
    then show ?thesis using None by (simp add: find_None_iff)
  next
    case (Some e)
    have e: "e \<in> set es" "key e = k" using es(1) Some keyed [OF s Some] by (auto simp: ran_def)
    have "find (\<lambda>x. key x = k) es \<noteq> None" using e by (auto simp: find_None_iff)
    then obtain e' where f: "find (\<lambda>x. key x = k) es = Some e'" by blast
    then have "e' \<in> set es" "key e' = k" by (auto simp: find_Some_iff in_set_conv_nth)
    then have "e' = e" using es(2) e by (metis distinct_map inj_onD)
    then show ?thesis using f Some by simp
  qed
qed

end

definition holds :: "('e \<Rightarrow> gostring) \<Rightarrow> 'e jstore \<times> 'e jdisk \<Rightarrow> nat \<Rightarrow> (gostring \<rightharpoonup> 'e) \<Rightarrow> bool" where
  "holds key x n m \<longleftrightarrow> disk_ok key (snd x) n n \<and> store_ok key (fst x) (snd x) n \<and> log_state key (snd x) n = Inr m \<and>
     (\<forall>k e. m k = Some e \<longrightarrow> key e = k)"

definition max_log :: nat where "max_log = 2 ^ 64 - 2"

lemma commit_holds:
  assumes "holds key x n m" and "n < max_log" and "check_ok key fn chk why es" and "chk m = None \<Longrightarrow> replay key es m = Inr m'"
    and "chk m = None \<Longrightarrow> \<forall>k e. m' k = Some e \<longrightarrow> key e = k"
    and "Store_commit key fn es quiet quiet (fst x) (snd x) = (x', r)"
  shows "case chk m of Some e \<Rightarrow> r = Inl e \<and> holds key x' n m | None \<Rightarrow> r = Inr () \<and> holds key x' (n + 1) m'"
proof -
  have h: "disk_ok key (snd x) n n" "store_ok key (fst x) (snd x) n" "log_state key (snd x) n = Inr m"
    using assms(1) by (simp_all add: holds_def)
  have "n < 2 ^ 64 - 2" using assms(2) by (simp add: max_log_def)
  note q = commit_quiet [OF h(1,2) this assms(3) h(3)]
  show ?thesis
  proof (cases "chk m")
    case (Some e)
    then show ?thesis using q assms(1,6) by (auto simp: holds_def)
  next
    case None
    then show ?thesis using q assms(4-6) by (auto simp: holds_def)
  qed
qed

abbreviation kv_insert where "kv_insert key \<equiv> \<lambda>e x. Store_Insert key e quiet quiet (fst x) (snd x)"
abbreviation kv_move where "kv_move key \<equiv> \<lambda>old e x. Store_Move key old e quiet quiet (fst x) (snd x)"
abbreviation kv_delete where "kv_delete key \<equiv> \<lambda>k c x. Store_Delete key k c quiet quiet (fst x) (snd x)"
abbreviation kv_update where "kv_update key \<equiv> \<lambda>e c x. Store_Update key e c quiet quiet (fst x) (snd x)"
abbreviation kv_all where "kv_all key \<equiv> \<lambda>x. Store_All key (fst x) (snd x)"

lemma all_holds:
  assumes "holds key x n m" and "Store_All key (fst x) (snd x) = (x', r)"
  shows "holds key x' n m \<and> (\<exists>es. r = Inr es \<and> set es = ran m \<and> distinct (map key es))"
proof -
  have h: "disk_ok key (snd x) n n" "store_ok key (fst x) (snd x) n" "log_state key (snd x) n = Inr m"
    using assms(1) by (simp_all add: holds_def)
  obtain s' d' where L: "load key (fst x) (snd x) = ((s', d'), Inr ())" "table_ok key (table s')"
    "log_state key (snd x) n = Inr (map_of (table s'))" "disk_ok key d' n n" "logFiles d' = logFiles (snd x)" "store_ok key s' d' n"
    using load_ok [OF h(1,2)] by blast
  have m: "map_of (table s') = m" "log_state key d' n = Inr m" using L(3) h(3) log_state_frame [OF L(5)] by simp_all
  have "set (map snd (table s')) = ran m" using L(2) m(1) ran_distinct [of "table s'"] by (simp add: table_ok_def)
  moreover have "map key (map snd (table s')) = map fst (table s')" using L(2) by (auto simp: table_ok_def)
  ultimately show ?thesis
    using assms L m(2) by (auto simp: Store_All_def Store_All_at_def load_def [symmetric] holds_def table_ok_def simp del: map_map)
qed

lemma keyed_upd:
  "\<forall>k e. m k = Some e \<longrightarrow> key e = k \<Longrightarrow> \<forall>k e'. (m(key e \<mapsto> e)) k = Some e' \<longrightarrow> key e' = k"
  "\<forall>k e. m k = Some e \<longrightarrow> key e = k \<Longrightarrow> \<forall>k e'. (m(old := None)) k = Some e' \<longrightarrow> key e' = k"
  by auto

interpretation jk: kv_store "holds key" max_log key "kv_insert key" "kv_move key" "kv_delete key" "kv_update key" "kv_all key"
  for key :: "'e \<Rightarrow> gostring"
proof unfold_locales
  fix x x' :: "'e jstore \<times> 'e jdisk" and n m e r
  assume x: "holds key x n m" "n < max_log" and run: "Store_Insert key e quiet quiet (fst x) (snd x) = (x', r)"
  have k: "\<forall>k e. m k = Some e \<longrightarrow> key e = k" using x(1) by (simp add: holds_def)
  show "case insert_chk key e m of None \<Rightarrow> r = Inr () \<and> holds key x' (n + 1) (m(key e \<mapsto> e))
      | Some y \<Rightarrow> r = Inl y \<and> holds key x' n m"
    by (rule commit_holds [OF x checks_ok(1) _ keyed_upd(1) [OF k] run [unfolded Store_Insert_def]]) (simp add: fun_upd_def)
next
  fix x x' :: "'e jstore \<times> 'e jdisk" and n m e r old
  assume x: "holds key x n m" "n < max_log" and run: "Store_Move key old e quiet quiet (fst x) (snd x) = (x', r)"
  have k: "\<forall>k e. m k = Some e \<longrightarrow> key e = k" using x(1) by (simp add: holds_def)
  show "case move_chk key old e m of None \<Rightarrow> r = Inr () \<and> holds key x' (n + 1) (m(old := None, key e \<mapsto> e))
      | Some y \<Rightarrow> r = Inl y \<and> holds key x' n m"
    by (rule commit_holds [OF x checks_ok(2) _ keyed_upd(1) [OF keyed_upd(2) [OF k]] run [unfolded Store_Move_def]]) (simp add: fun_upd_def)
next
  fix x x' :: "'e jstore \<times> 'e jdisk" and n m r k c
  assume x: "holds key x n m" "n < max_log" and run: "Store_Delete key k c quiet quiet (fst x) (snd x) = (x', r)"
  have ky: "\<forall>k e. m k = Some e \<longrightarrow> key e = k" using x(1) by (simp add: holds_def)
  show "case constraint_chk k c m of None \<Rightarrow> r = Inr () \<and> holds key x' (n + 1) (m(k := None))
      | Some y \<Rightarrow> r = Inl y \<and> holds key x' n m"
    by (rule commit_holds [OF x checks_ok(3) _ keyed_upd(2) [OF ky] run [unfolded Store_Delete_def]]) (simp add: fun_upd_def)
next
  fix x x' :: "'e jstore \<times> 'e jdisk" and n m r e c
  assume x: "holds key x n m" "n < max_log" and run: "Store_Update key e c quiet quiet (fst x) (snd x) = (x', r)"
  have k: "\<forall>k e. m k = Some e \<longrightarrow> key e = k" using x(1) by (simp add: holds_def)
  show "case constraint_chk (key e) c m of None \<Rightarrow> r = Inr () \<and> holds key x' (n + 1) (m(key e \<mapsto> e))
      | Some y \<Rightarrow> r = Inl y \<and> holds key x' n m"
    by (rule commit_holds [OF x checks_ok(4) _ keyed_upd(1) [OF k] run [unfolded Store_Update_def]])
      (auto simp: constraint_chk_def fun_upd_def split: option.splits)
next
  fix x x' :: "'e jstore \<times> 'e jdisk" and n m q
  assume "holds key x n m" and "Store_All key (fst x) (snd x) = (x', q)"
  then show "holds key x' n m \<and> (\<exists>es. q = Inr es \<and> set es = ran m \<and> distinct (map key es))"
    by (rule all_holds)
next
  fix x :: "'e jstore \<times> 'e jdisk" and n m k e
  assume "holds key x n m" and "m k = Some e"
  then show "key e = k" by (simp add: holds_def)
qed

subsection \<open>Properties\<close>

lemma created_ok:
  assumes "exclusivePut d" and "logFiles d = Map.empty" and "snapFile d = None"
  shows "disk_ok key (Queue_Create 0 d) 0 0" and "store_ok key newStore (Queue_Create 0 d) 0"
    and "holds key (newStore, Queue_Create 0 d) 0 Map.empty"
proof -
  have st: "log_state key (Queue_Create 0 d) 0 = Inr Map.empty" by (simp add: log_state_def log_vals_def)
  show disk: "disk_ok key (Queue_Create 0 d) 0 0"
    using assms st by (auto simp: disk_ok_def log_ok_def snap_ok_def Queue_Create_def writeHead_def writeTail_def unat_eq_0)
  show store: "store_ok key newStore (Queue_Create 0 d) 0" by (simp add: store_ok_def newStore_def table_ok_def)
  show "holds key (newStore, Queue_Create 0 d) 0 Map.empty" using disk store st by (simp add: holds_def)
qed

definition blank_disk :: "'e jdisk" where
  "blank_disk = \<lparr>headFile = None, tailFile = None, logFiles = Map.empty, snapFile = None, exclusivePut = True\<rparr>"

definition new_disk :: "'e jdisk" where
  "new_disk = Queue_Create 0 blank_disk"

lemma new_disk_ok:
  "disk_ok key new_disk 0 0" "store_ok key newStore new_disk 0" "holds key (newStore, new_disk) 0 Map.empty"
  using created_ok [of blank_disk] by (simp_all add: new_disk_def blank_disk_def)

text \<open>
  Positions written to the HEAD and TAIL files are read back as they were, and the retry loop
  of \<open>readID\<close> depends on the first eleven reads only. \<close>

theorem journal_positions:
  "ReadHead (writeHead i d) = Inr i \<and> ReadTail (writeTail i b d) = Inr (i, b) \<and>
   readID g rnd cancelled = readID (\<lambda>k. if k \<le> MaxReadRetry then g k else Inl ReadErr) rnd cancelled"
proof -
  have "readID (\<lambda>k. if k \<le> MaxReadRetry then g k else Inl ReadErr) rnd cancelled = readID g rnd cancelled"
    unfolding readID_def by (rule read_id_loop_bound) simp_all
  then show ?thesis
    using ReadHead_write [of "writeHead i d" i] ReadTail_write [of "writeTail i b d" i b]
    by (simp add: writeHead_def writeTail_def)
qed

text \<open>
  C6: Optimistic concurrency, on a storage engine that creates files exclusively. Other processes may act
  on the journal before each access an operation makes to it: before HEAD is read, before the snapshot is
  read, before the log is read and before a snapshot is stored, between the check and the write of the log
  file, and between that and the write of HEAD. They keep the log, never move HEAD back, store only
  snapshots whose values are between their position and HEAD, and while the operation has written its log
  file but not HEAD they leave both alone. Then an operation that succeeds has its entry in the log past
  the HEAD it started from, and its condition held in the state right before that entry. One that fails
  gave up after its retries, or there is a reason in a state of the log between the HEAD it started from and the
  last one, or a \<open>load\<close> could not replay an update on a snapshot newer than its position. Existing log
  entries stay as they are, and the operation itself keeps to what is required of the others. HEAD files
  and snapshot files are read and written as a whole. \<close>

theorem commits_serialize:
  assumes "disk_safe key d h n" and "store_safe key s d h" and "n < 2 ^ 64 - 2" and "env_ok key env" and "write_env_ok key env'"
  shows "outcome key (insert_chk key e) (because (insert_chk key e)) [JAdd e] d h (Store_Insert key e env env' s d) \<and>
    outcome key (move_chk key old e) (move_why key old e) [JDelete old, JAdd e] d h (Store_Move key old e env env' s d) \<and>
    outcome key (constraint_chk k c) (because (constraint_chk k c)) [JDelete k] d h (Store_Delete key k c env env' s d) \<and>
    outcome key (constraint_chk (key e) c) (because (constraint_chk (key e) c)) [JUpdate e] d h (Store_Update key e c env env' s d)"
  unfolding Store_Insert_def Store_Move_def Store_Delete_def Store_Update_def Store_commit_def
  using commit_loop_ok [OF assms(4,5) checks_ok(1) assms(1-3)] commit_loop_ok [OF assms(4,5) checks_ok(2) assms(1-3)]
    commit_loop_ok [OF assms(4,5) checks_ok(3) assms(1-3)] commit_loop_ok [OF assms(4,5) checks_ok(4) assms(1-3)]
  by blast

text \<open>Another process that tries to insert an entry at every point where others may act.\<close>

definition busy :: "(gostring \<times> nat) jenv" where
  "busy k j = other_commit fst (insert_check fst (str ''b'', j)) [JAdd (str ''b'', j)]"

lemma busy_ok: "env_ok fst busy" "write_env_ok fst busy"
  unfolding env_ok_def write_env_ok_def busy_def by (blast intro: other_commit_ok [OF checks_ok(1)])+

theorem commits_serialize_witness:
  "disk_safe fst (new_disk :: (gostring \<times> nat) jdisk) 0 0 \<and> store_safe fst newStore (new_disk :: (gostring \<times> nat) jdisk) 0 \<and>
   env_ok fst busy \<and> write_env_ok fst busy \<and>
   outcome fst (insert_chk fst (str ''a'', 1)) (because (insert_chk fst (str ''a'', 1))) [JAdd (str ''a'', 1)] new_disk 0
     (Store_Insert fst (str ''a'', 1::nat) busy busy newStore new_disk)"
  using commits_serialize [OF disk_ok_safe [OF new_disk_ok(1)] store_ok_safe [OF new_disk_ok(2)] _ busy_ok, of "(str ''a'', 1::nat)"]
    disk_ok_safe [OF new_disk_ok(1)] store_ok_safe [OF new_disk_ok(2)] busy_ok by auto

text \<open>
  C13: The store implements a map. On a journal whose HEAD is up to date and with no interference,
  every operation either reports the error that its condition on the map calls for and leaves the map
  alone, or makes its change; \<open>All\<close> returns the entries of the map, each once. \<close>

theorem store_refines_map:
  assumes "holds key x n m" and "n < max_log"
  shows "(case Store_Insert key e quiet quiet (fst x) (snd x) of (x', r) \<Rightarrow>
       if m (key e) \<noteq> None then r = Inl ErrKeyExists \<and> holds key x' n m
       else r = Inr () \<and> holds key x' (n + 1) (m(key e \<mapsto> e))) \<and>
    (case Store_Move key old e quiet quiet (fst x) (snd x) of (x', r) \<Rightarrow>
       if m old = None then r = Inl ErrNoSuchKey \<and> holds key x' n m
       else if m (key e) \<noteq> None then r = Inl ErrKeyExists \<and> holds key x' n m
       else r = Inr () \<and> holds key x' (n + 1) (m(old := None, key e \<mapsto> e))) \<and>
    (case Store_Delete key k (Some f) quiet quiet (fst x) (snd x) of (x', r) \<Rightarrow> (case m k of
       None \<Rightarrow> r = Inl ErrNoSuchKey \<and> holds key x' n m
     | Some v \<Rightarrow> if f v then r = Inr () \<and> holds key x' (n + 1) (m(k := None))
         else r = Inl ErrConstraint \<and> holds key x' n m)) \<and>
    (case Store_Update key e (Some f) quiet quiet (fst x) (snd x) of (x', r) \<Rightarrow> (case m (key e) of
       None \<Rightarrow> r = Inl ErrNoSuchKey \<and> holds key x' n m
     | Some v \<Rightarrow> if f v then r = Inr () \<and> holds key x' (n + 1) (m(key e \<mapsto> e))
         else r = Inl ErrConstraint \<and> holds key x' n m)) \<and>
    (case Store_All key (fst x) (snd x) of (x', r) \<Rightarrow> holds key x' n m \<and>
       (\<exists>es. r = Inr es \<and> set es = ran m \<and> distinct (map key es)))"
proof (intro conjI, goal_cases)
  case 1
  obtain x' r where "Store_Insert key e quiet quiet (fst x) (snd x) = (x', r)" by (meson surj_pair)
  from jk.insert_law [OF assms this] this show ?case by (auto simp: insert_chk_def split: if_splits)
next
  case 2
  obtain x' r where "Store_Move key old e quiet quiet (fst x) (snd x) = (x', r)" by (meson surj_pair)
  from jk.move_law [OF assms this] this show ?case by (auto simp: move_chk_def split: if_splits)
next
  case 3
  obtain x' r where "Store_Delete key k (Some f) quiet quiet (fst x) (snd x) = (x', r)" by (meson surj_pair)
  from jk.delete_law [OF assms this] this show ?case by (auto simp: constraint_chk_def split: option.splits if_splits)
next
  case 4
  obtain x' r where "Store_Update key e (Some f) quiet quiet (fst x) (snd x) = (x', r)" by (meson surj_pair)
  from jk.update_law [OF assms this] this show ?case by (auto simp: constraint_chk_def split: option.splits if_splits)
next
  case 5
  obtain x' r where "Store_All key (fst x) (snd x) = (x', r)" by (meson surj_pair)
  from jk.all_law [OF assms(1) this] this show ?case by auto
qed

theorem store_refines_map_witness:
  "holds fst (newStore, new_disk) 0 Map.empty \<and> (0::nat) < max_log \<and>
   snd (Store_Insert fst (str ''a'', 1::nat) quiet quiet newStore new_disk) = Inr ()"
proof -
  have l: "(0::nat) < max_log" by (simp add: max_log_def)
  show ?thesis
    using store_refines_map [OF new_disk_ok(3) l, where old = "[]" and k = "[]" and f = "\<lambda>_. True" and e = "(str ''a'', 1::nat)"] new_disk_ok(3) l
    by (simp add: case_prod_unfold)
qed

text \<open>
  C40: A writer cut off between writing its log file and moving HEAD leaves the journal unable to
  accept changes: every later operation whose condition holds finds the next file in place on each of
  its ten attempts and gives up, although no other writer is active. \<close>

theorem crashed_commit_blocks:
  assumes "disk_ok key d h (h + 1)" and "store_ok key s d h" and "log_state key d h = Inr m" and "m (key e) = None"
  shows "snd (Store_Insert key e quiet quiet s d) = Inl ErrRetriesExceeded"
proof -
  have "snd (commit_loop key (insert_check key e) [JAdd e] quiet quiet k s d) = Inl ErrRetriesExceeded"
    if "disk_ok key d h (h + 1)" "store_ok key s d h" "log_state key d h = Inr m" for k s d
    using that
  proof (induction k arbitrary: s d)
    case (Suc k)
    obtain s2 d2 where 2: "load key s d = ((s2, d2), Inr ())" "at s2 = of_nat h" "table_ok key (table s2)"
      "log_state key d h = Inr (map_of (table s2))" "disk_ok key d2 h (h + 1)" "logFiles d2 = logFiles d" "store_ok key s2 d2 h"
      using load_ok [OF Suc.prems(1,2)] by blast
    have t: "map_of (table s2) = m" "log_state key d2 h = Inr m"
      using 2(4) Suc.prems(3) log_state_frame [OF 2(6)] by simp_all
    have "h + 1 < 2 ^ 64 - 1" "\<forall>i. logFiles d2 i \<noteq> None \<longleftrightarrow> 1 \<le> unat i \<and> unat i \<le> h + 1" "exclusivePut d2"
      using 2(5) by (simp_all add: disk_ok_def log_ok_def)
    then have "logFiles d2 (of_nat h + 1) \<noteq> None"
      using unat_of_nat_log [of "h + 1" "h + 1"] by (simp add: add.commute)
    then have "CommitAt act (at s2) [JAdd e] d2 = (d2, Inl ErrExist)" for act
      using 2(2) \<open>exclusivePut d2\<close> by (simp add: CommitAt_def)
    then show ?case
      using 2(1) t(1) assms(4) Suc.IH [OF 2(5,7) t(2)] idle_def [of 0 d2] by (simp add: quiet_def [of k] load_def insert_check_def)
  qed simp
  then show ?thesis using assms(1-3) by (simp add: Store_Insert_def Store_commit_def)
qed

definition crashed_disk :: "(gostring \<times> nat) jdisk" where
  "crashed_disk = put_log 1 [JAdd (str ''a'', 1)] new_disk"

lemma crashed_disk_ok: "disk_ok fst crashed_disk 0 1" "store_ok fst newStore crashed_disk 0"
  "log_state fst crashed_disk 0 = Inr Map.empty"
proof -
  have st: "log_state fst crashed_disk 1 = Inr [str ''a'' \<mapsto> (str ''a'', 1)]"
    by (simp add: log_state_def log_vals_def log_file_def crashed_disk_def put_log_def)
  have "unat i = 1 \<longleftrightarrow> i = 1" for i :: u64 by (auto simp: word_unat_eq_iff)
  then show "disk_ok fst crashed_disk 0 1"
    using st by (auto simp: disk_ok_def log_ok_def snap_ok_def crashed_disk_def put_log_def new_disk_def blank_disk_def
        Queue_Create_def writeHead_def writeTail_def log_file_def le_Suc_eq)
  show "store_ok fst newStore crashed_disk 0" by (simp add: store_ok_def newStore_def table_ok_def)
  show "log_state fst crashed_disk 0 = Inr Map.empty" by (simp add: log_state_def log_vals_def)
qed

theorem crashed_commit_blocks_witness:
  "disk_ok fst crashed_disk 0 1 \<and> store_ok fst newStore crashed_disk 0 \<and>
   snd (Store_Insert fst (str ''b'', 2) quiet quiet newStore crashed_disk) = Inl ErrRetriesExceeded"
  using crashed_commit_blocks [of fst crashed_disk 0 newStore Map.empty "(str ''b'', 2)"] crashed_disk_ok by simp

lemma read_log_step: "cursor < stop \<Longrightarrow> logFiles d (cursor + 1) = Some b \<Longrightarrow>
   read_log d cursor stop = (case read_log d (cursor + 1) stop of (vs, e) \<Rightarrow> (b @ vs, e))"
  by (subst read_log.simps) (auto simp: Queue_Load_def get_file_def)

lemma read_log_end: "stop \<le> cursor \<Longrightarrow> read_log d cursor stop = ([], None)"
  by (subst read_log.simps) simp

text \<open>The facts that run the store on a concrete disk.\<close>

lemmas run_defs = new_disk_def blank_disk_def Queue_Create_def writeHead_def writeTail_def put_log_def
  ReadHead_write ReadTail_write Queue_Open_def NewReader_def read_log_step read_log_end
  load_def load_at_def idle_def load_from_def Let_def getSnapshot_def newStore_def putSnapshot_def str_def

definition race_disk :: "(gostring \<times> nat) jdisk" where
  "race_disk = writeHead 10 (put_log 10 [JUpdate (str ''b'', 10)] (put_log 9 [JUpdate (str ''b'', 9)]
     (put_log 8 [JUpdate (str ''b'', 8)] (put_log 7 [JUpdate (str ''b'', 7)] (put_log 6 [JUpdate (str ''b'', 6)]
     (put_log 5 [JUpdate (str ''b'', 5)] (put_log 4 [JUpdate (str ''b'', 4)] (put_log 3 [JUpdate (str ''b'', 3)]
     (put_log 2 [JAdd (str ''b'', 2)] (put_log 1 [JAdd (str ''a'', 20)] new_disk))))))))))"

definition race_disk1 :: "(gostring \<times> nat) jdisk" where
  "race_disk1 = writeHead 11 (put_log 11 [JDelete (str ''b'')] race_disk)"

lemma race_load:
  "load fst newStore race_disk =
    ((\<lparr>table = [(str ''a'', (str ''a'', 20)), (str ''b'', (str ''b'', 10))], at = 10\<rparr>, race_disk), Inr ())"
  by (simp add: run_defs race_disk_def)

lemma race_delete: "Store_Delete fst (str ''b'') None quiet quiet newStore race_disk =
  ((\<lparr>table = [(str ''a'', (str ''a'', 20)), (str ''b'', (str ''b'', 10))], at = 0\<rparr>, race_disk1), Inr ())"
  unfolding Store_Delete_def Store_commit_def maxRetries_def eval_nat_numeral commit_loop.simps quiet_def load_def [symmetric] race_load
  by (simp add: constraint_check_def CommitAt_def race_disk_def race_disk1_def run_defs)

lemma race_loads:
  "load fst newStore race_disk1 =
    ((\<lparr>table = [(str ''a'', (str ''a'', 20))], at = 11\<rparr>, putSnapshot 11 [(str ''a'', (str ''a'', 20))] race_disk1), Inr ())"
  "load_from fst idle 10 newStore (putSnapshot 11 [(str ''a'', (str ''a'', 20))] race_disk1) =
    ((\<lparr>table = [(str ''a'', (str ''a'', 20))], at = 10\<rparr>, putSnapshot 10 [(str ''a'', (str ''a'', 20))] race_disk1), Inr ())"
  "snd (load fst newStore (putSnapshot 11 [(str ''a'', (str ''a'', 20))] race_disk1)) = Inr ()"
  "snd (load fst newStore (putSnapshot 10 [(str ''a'', (str ''a'', 20))] race_disk1)) = Inl (UpdateMissing (str ''b''))"
  by (simp_all add: run_defs race_disk_def race_disk1_def AList.delete_eq)

lemma race_head: "ReadHead race_disk = Inr 10"
  by (simp add: race_disk_def writeHead_def ReadHead_write)

text \<open>
  A race corrupts the snapshot file for good. Process P reads HEAD 10; process Q commits entry
  11, a delete of the key that entry 10 updates, and, having loaded eleven entries, stores a snapshot of
  position 11. P goes on: it finds the snapshot ahead of its HEAD, reads no log file, and because the
  unsigned difference of the positions wraps around it stores the table of position 11 as the snapshot of
  position 10. From then on every load replays entry 10 on that table and fails. \<close>

theorem snapshot_race:
  "let ((_, d1), r1) = Store_Delete fst (str ''b'') None quiet quiet newStore race_disk;
       ((_, d2), r2) = load fst newStore d1;
       ((_, d3), r3) = load_from fst idle 10 newStore d2
   in ReadHead race_disk = Inr 10 \<and> r1 = Inr () \<and> r2 = Inr () \<and> r3 = Inr () \<and>
      snd (load fst newStore d2) = Inr () \<and> snd (load fst newStore d3) = Inl (UpdateMissing (str ''b''))"
  by (simp add: race_delete race_loads race_head)

text \<open>
  A snapshot file that cannot be read to its end is used all the same: \<open>load\<close> logs the error and
  goes on with the entries read so far, so keys are missing from the table and no error is reported. \<close>

theorem snapshot_read_error_ignored:
  "let d = (writeHead 2 (put_log 2 [JAdd (str ''b'', 2)] (put_log 1 [JAdd (str ''a'', 1)] new_disk)))
         \<lparr>snapFile := Some ([SUint 2], True)\<rparr>;
       ((s, _), r) = load fst newStore d
   in r = Inr () \<and> map_of (table s) (str ''a'') = None \<and>
      snd (load fst newStore (d\<lparr>snapFile := None\<rparr>)) = Inr () \<and>
      map_of (table (fst (fst (load fst newStore (d\<lparr>snapFile := None\<rparr>))))) (str ''a'') = Some (str ''a'', 1::nat)"
  by (simp add: run_defs)

end
