(* ===== verification/Commits.thy ===== *)
theory Commits
  imports Go_Prelude "HOL-Library.AList"
begin

text \<open>
  The commits of a pool (\<open>lake/commits\<close>): the actions a commit object records (\<open>actions.go\<close>,
  \<open>object.go\<close>), the snapshot they add up to (\<open>snapshot.go\<close>), and patches, differences against a
  snapshot that can be turned into a commit object (\<open>patch.go\<close>). Values of the data model
  (an object's Min and Max, a commit's Meta) are of any type \<open>'v\<close>.
\<close>

type_synonym ksuid = "160 word"

subsection \<open>Data objects, actions and commit objects\<close>

record 'v dobject =
  obj_ID :: ksuid
  obj_Min :: 'v
  obj_Max :: 'v
  obj_Count :: u64
  obj_Size :: u64

record 'v commit_info =
  ci_ID :: ksuid
  ci_Parent :: ksuid
  ci_Retries :: u8
  ci_Author :: gostring
  ci_Date :: u64
  ci_Message :: gostring
  ci_Meta :: 'v

text \<open>Each action carries the ID of the commit it belongs to first.\<close>

datatype 'v action =
    Add ksuid "'v dobject"
  | AddVector ksuid ksuid
  | Delete ksuid ksuid
  | DeleteVector ksuid ksuid
  | Commit "'v commit_info"

primrec CommitID :: "'v action \<Rightarrow> ksuid" where
  "CommitID (Add c _) = c"
| "CommitID (AddVector c _) = c"
| "CommitID (Delete c _) = c"
| "CommitID (DeleteVector c _) = c"
| "CommitID (Commit i) = ci_ID i"

datatype cerror =
    ErrExists
  | ErrNotFound ksuid
  | ErrWriteConflict ksuid
  | ErrEmptyTransaction
  | ErrBadCommitObject
  | BadObject
  | FileNotExist
  | FileReadErr
  | RevertEmpty
  | CorruptDeletes ksuid
  | ParentDeletes ksuid
  | DeleteConflict ksuid
  | DiffEmpty
  | NoPathForNil
  | PathlessCommit

record 'v cobject =
  co_Commit :: ksuid
  co_Parent :: ksuid
  co_Actions :: "'v action list"

definition co_append :: "'v action \<Rightarrow> 'v cobject \<Rightarrow> 'v cobject" where
  "co_append a o' = o'\<lparr>co_Actions := co_Actions o' @ [a]\<rparr>"

text \<open>
  \<open>NewObject\<close>; the new ID, the time and the author and message are arguments, and the number of
  retries is cut to eight bits.
\<close>

record 'v commit_args =
  ca_commit :: ksuid
  ca_now :: u64
  ca_author :: gostring
  ca_message :: gostring
  ca_meta :: 'v

definition NewObject :: "ksuid \<Rightarrow> 'v commit_args \<Rightarrow> nat \<Rightarrow> 'v cobject" where
  "NewObject parent a retries =
     co_append (Commit \<lparr>ci_ID = ca_commit a, ci_Parent = parent, ci_Retries = of_nat retries,
         ci_Author = ca_author a, ci_Date = ca_now a, ci_Message = ca_message a, ci_Meta = ca_meta a\<rparr>)
       \<lparr>co_Commit = ca_commit a, co_Parent = parent, co_Actions = []\<rparr>"

definition appendAdd :: "'v dobject \<Rightarrow> 'v cobject \<Rightarrow> 'v cobject" where
  "appendAdd d o' = co_append (Add (co_Commit o') d) o'"

definition appendDelete :: "ksuid \<Rightarrow> 'v cobject \<Rightarrow> 'v cobject" where
  "appendDelete i o' = co_append (Delete (co_Commit o') i) o'"

definition appendAddVector :: "ksuid \<Rightarrow> 'v cobject \<Rightarrow> 'v cobject" where
  "appendAddVector i o' = co_append (AddVector (co_Commit o') i) o'"

definition appendDeleteVector :: "ksuid \<Rightarrow> 'v cobject \<Rightarrow> 'v cobject" where
  "appendDeleteVector i o' = co_append (DeleteVector (co_Commit o') i) o'"

definition NewAddsObject :: "ksuid \<Rightarrow> nat \<Rightarrow> 'v commit_args \<Rightarrow> 'v dobject list \<Rightarrow> 'v cobject" where
  "NewAddsObject parent retries a objects = fold appendAdd objects (NewObject parent a retries)"

definition NewDeletesObject :: "ksuid \<Rightarrow> nat \<Rightarrow> 'v commit_args \<Rightarrow> ksuid list \<Rightarrow> 'v cobject" where
  "NewDeletesObject parent retries a ids = fold appendDelete ids (NewObject parent a retries)"

definition NewAddVectorsObject :: "ksuid \<Rightarrow> 'v commit_args \<Rightarrow> ksuid list \<Rightarrow> nat \<Rightarrow> 'v cobject" where
  "NewAddVectorsObject parent a ids retries = fold appendAddVector ids (NewObject parent a retries)"

definition NewDeleteVectorsObject :: "ksuid \<Rightarrow> 'v commit_args \<Rightarrow> ksuid list \<Rightarrow> nat \<Rightarrow> 'v cobject" where
  "NewDeleteVectorsObject parent a ids retries = fold appendDeleteVector ids (NewObject parent a retries)"

text \<open>
  A commit or snapshot file is the sequence of entries it decodes to: actions, entries of another
  type, or a read error. The BSUP encoding of an entry is not modelled.
\<close>

datatype 'v fentry = FAction "'v action" | FOther | FErr

definition Serialize :: "'v cobject \<Rightarrow> cerror + 'v fentry list" where
  "Serialize o' = (let b = map FAction (co_Actions o') in if b = [] then Inl ErrEmptyTransaction else Inr b)"

fun decode_actions :: "'v fentry list \<Rightarrow> cerror + 'v action list" where
  "decode_actions [] = Inr []"
| "decode_actions (FAction a # es) = res_bind (decode_actions es) (\<lambda>as. Inr (a # as))"
| "decode_actions (FOther # es) = Inl BadObject"
| "decode_actions (FErr # es) = Inl FileReadErr"

definition DecodeObject :: "'v fentry list \<Rightarrow> cerror + 'v cobject" where
  "DecodeObject es = res_bind (decode_actions es) (\<lambda>as. case as of
      [] \<Rightarrow> Inr \<lparr>co_Commit = 0, co_Parent = 0, co_Actions = []\<rparr>
    | Commit i # _ \<Rightarrow> Inr \<lparr>co_Commit = ci_ID i, co_Parent = ci_Parent i, co_Actions = as\<rparr>
    | _ \<Rightarrow> Inl ErrBadCommitObject)"

subsection \<open>Snapshots\<close>

text \<open>The maps are association lists, in the order in which Go happens to iterate over them.\<close>

record 'v snapshot =
  objects :: "(ksuid \<times> 'v dobject) list"
  vectors :: "ksuid list"

definition NewSnapshot :: "'v snapshot" where
  "NewSnapshot = \<lparr>objects = [], vectors = []\<rparr>"

definition AddDataObject :: "'v snapshot \<Rightarrow> 'v dobject \<Rightarrow> cerror + 'v snapshot" where
  "AddDataObject s d = (let i = obj_ID d in
     if map_of (objects s) i \<noteq> None then Inl (ErrWriteConflict i) else Inr (s\<lparr>objects := objects s @ [(i, d)]\<rparr>))"

definition DeleteObject :: "'v snapshot \<Rightarrow> ksuid \<Rightarrow> cerror + 'v snapshot" where
  "DeleteObject s i =
     (if map_of (objects s) i = None then Inl (ErrWriteConflict i) else Inr (s\<lparr>objects := AList.delete i (objects s)\<rparr>))"

definition snap_AddVector :: "'v snapshot \<Rightarrow> ksuid \<Rightarrow> cerror + 'v snapshot" where
  "snap_AddVector s i =
     (if i \<in> set (vectors s) then Inl (ErrWriteConflict i) else Inr (s\<lparr>vectors := vectors s @ [i]\<rparr>))"

definition snap_DeleteVector :: "'v snapshot \<Rightarrow> ksuid \<Rightarrow> cerror + 'v snapshot" where
  "snap_DeleteVector s i =
     (if i \<notin> set (vectors s) then Inl (ErrWriteConflict i) else Inr (s\<lparr>vectors := removeAll i (vectors s)\<rparr>))"

definition Lookup :: "'v snapshot \<Rightarrow> ksuid \<Rightarrow> cerror + 'v dobject" where
  "Lookup s i = (case map_of (objects s) i of None \<Rightarrow> Inl (ErrNotFound i) | Some d \<Rightarrow> Inr d)"

definition Snapshot_Exists :: "'v snapshot \<Rightarrow> ksuid \<Rightarrow> bool" where
  "Snapshot_Exists s i = (case Lookup s i of Inl _ \<Rightarrow> False | Inr _ \<Rightarrow> True)"

definition HasVector :: "'v snapshot \<Rightarrow> ksuid \<Rightarrow> bool" where
  "HasVector s i = (i \<in> set (vectors s))"

text \<open>\<open>Select\<close>; the test of an object's span against the scan is an argument.\<close>

definition Select :: "('v dobject \<Rightarrow> bool) \<Rightarrow> 'v snapshot \<Rightarrow> 'v dobject list" where
  "Select overlaps s = filter overlaps (map snd (objects s))"

definition SelectAll :: "'v snapshot \<Rightarrow> 'v dobject list" where
  "SelectAll s = map snd (objects s)"

definition snap_Copy :: "'v snapshot \<Rightarrow> 'v snapshot" where
  "snap_Copy s = (let out = NewSnapshot in
     out\<lparr>objects := objects out @ objects s, vectors := vectors out @ vectors s\<rparr>)"

definition snap_serialize :: "'v snapshot \<Rightarrow> 'v fentry list" where
  "snap_serialize s = map (\<lambda>x. FAction (Add 0 (snd x))) (objects s) @ map (\<lambda>i. FAction (AddVector 0 i)) (vectors s)"

text \<open>
  \<open>PlayAction\<close> and \<open>Play\<close> work on any \<open>Writeable\<close>: the methods they call are arguments.
\<close>

record ('w, 'v) writeable_ops =
  w_AddDataObject :: "'w \<Rightarrow> 'v dobject \<Rightarrow> cerror + 'w"
  w_DeleteObject :: "'w \<Rightarrow> ksuid \<Rightarrow> cerror + 'w"
  w_AddVector :: "'w \<Rightarrow> ksuid \<Rightarrow> cerror + 'w"
  w_DeleteVector :: "'w \<Rightarrow> ksuid \<Rightarrow> cerror + 'w"

primrec PlayAction :: "('w, 'v) writeable_ops \<Rightarrow> 'w \<Rightarrow> 'v action \<Rightarrow> cerror + 'w" where
  "PlayAction ops w (Add _ d) = w_AddDataObject ops w d"
| "PlayAction ops w (Delete _ i) = w_DeleteObject ops w i"
| "PlayAction ops w (AddVector _ i) = w_AddVector ops w i"
| "PlayAction ops w (DeleteVector _ i) = w_DeleteVector ops w i"
| "PlayAction ops w (Commit _) = Inr w"

primrec play_actions :: "('w, 'v) writeable_ops \<Rightarrow> 'v action list \<Rightarrow> 'w \<Rightarrow> cerror + 'w" where
  "play_actions ops [] w = Inr w"
| "play_actions ops (a # as) w = res_bind (PlayAction ops w a) (play_actions ops as)"

definition Play :: "('w, 'v) writeable_ops \<Rightarrow> 'w \<Rightarrow> 'v cobject \<Rightarrow> cerror + 'w" where
  "Play ops w o' = play_actions ops (co_Actions o') w"

definition snap_ops :: "('v snapshot, 'v) writeable_ops" where
  "snap_ops = \<lparr>w_AddDataObject = AddDataObject, w_DeleteObject = DeleteObject,
     w_AddVector = snap_AddVector, w_DeleteVector = snap_DeleteVector\<rparr>"

text \<open>\<open>decodeSnapshot\<close> plays the actions of the file as it reads them.\<close>

fun decode_snapshot_loop :: "'v snapshot \<Rightarrow> 'v fentry list \<Rightarrow> cerror + 'v snapshot" where
  "decode_snapshot_loop s [] = Inr s"
| "decode_snapshot_loop s (FAction a # es) = res_bind (PlayAction snap_ops s a) (\<lambda>s. decode_snapshot_loop s es)"
| "decode_snapshot_loop s (FOther # es) = Inl BadObject"
| "decode_snapshot_loop s (FErr # es) = Inl FileReadErr"

definition decodeSnapshot :: "'v fentry list \<Rightarrow> cerror + 'v snapshot" where
  "decodeSnapshot es = decode_snapshot_loop NewSnapshot es"

subsection \<open>Patches and views\<close>

text \<open>A \<open>View\<close> is a snapshot or a patch on top of another view.\<close>

datatype 'v view = SnapView "'v snapshot" | PatchView "'v patch"
and 'v patch = Patch (base: "'v view") (diff: "'v snapshot") (deletedObjects: "ksuid list") (deletedVectors: "ksuid list")

definition NewPatch :: "'v view \<Rightarrow> 'v patch" where
  "NewPatch v = Patch v NewSnapshot [] []"

primrec view_Lookup :: "'v view \<Rightarrow> ksuid \<Rightarrow> cerror + 'v dobject"
  and Patch_Lookup :: "'v patch \<Rightarrow> ksuid \<Rightarrow> cerror + 'v dobject" where
  "view_Lookup (SnapView s) = Lookup s"
| "view_Lookup (PatchView p) = Patch_Lookup p"
| "Patch_Lookup (Patch b d dobjs dvecs) = (\<lambda>i. case Lookup d i of Inr s \<Rightarrow> Inr s | Inl _ \<Rightarrow> view_Lookup b i)"

primrec view_HasVector :: "'v view \<Rightarrow> ksuid \<Rightarrow> bool"
  and Patch_HasVector :: "'v patch \<Rightarrow> ksuid \<Rightarrow> bool" where
  "view_HasVector (SnapView s) = HasVector s"
| "view_HasVector (PatchView p) = Patch_HasVector p"
| "Patch_HasVector (Patch b d dobjs dvecs) = (\<lambda>i. HasVector d i \<or> view_HasVector b i)"

primrec view_Select :: "('v dobject \<Rightarrow> bool) \<Rightarrow> 'v view \<Rightarrow> 'v dobject list"
  and Patch_Select :: "('v dobject \<Rightarrow> bool) \<Rightarrow> 'v patch \<Rightarrow> 'v dobject list" where
  "view_Select f (SnapView s) = Select f s"
| "view_Select f (PatchView p) = Patch_Select f p"
| "Patch_Select f (Patch b d dobjs dvecs) = view_Select f b @ Select f d"

primrec view_SelectAll :: "'v view \<Rightarrow> 'v dobject list"
  and Patch_SelectAll :: "'v patch \<Rightarrow> 'v dobject list" where
  "view_SelectAll (SnapView s) = SelectAll s"
| "view_SelectAll (PatchView p) = Patch_SelectAll p"
| "Patch_SelectAll (Patch b d dobjs dvecs) = view_SelectAll b @ SelectAll d"

definition Exists :: "'v view \<Rightarrow> ksuid \<Rightarrow> bool" where
  "Exists v i = (case view_Lookup v i of Inl _ \<Rightarrow> False | Inr _ \<Rightarrow> True)"

definition Patch_DataObjects :: "'v patch \<Rightarrow> ksuid list" where
  "Patch_DataObjects p = map obj_ID (SelectAll (diff p))"

definition Patch_AddDataObject :: "'v patch \<Rightarrow> 'v dobject \<Rightarrow> cerror + 'v patch" where
  "Patch_AddDataObject p d = (if Exists (base p) (obj_ID d) then Inl ErrExists
     else res_bind (AddDataObject (diff p) d) (\<lambda>s. Inr (Patch (base p) s (deletedObjects p) (deletedVectors p))))"

definition Patch_DeleteObject :: "'v patch \<Rightarrow> ksuid \<Rightarrow> cerror + 'v patch" where
  "Patch_DeleteObject p i =
     (if Snapshot_Exists (diff p) i then
        res_bind (DeleteObject (diff p) i) (\<lambda>s. Inr (Patch (base p) s (deletedObjects p) (deletedVectors p)))
      else if \<not> Exists (base p) i then Inl (ErrNotFound i)
      else Inr (Patch (base p) (diff p) (deletedObjects p @ [i]) (deletedVectors p)))"

definition Patch_AddVector :: "'v patch \<Rightarrow> ksuid \<Rightarrow> cerror + 'v patch" where
  "Patch_AddVector p i = (if Patch_HasVector p i then Inl ErrExists
     else res_bind (snap_AddVector (diff p) i) (\<lambda>s. Inr (Patch (base p) s (deletedObjects p) (deletedVectors p))))"

definition Patch_DeleteVector :: "'v patch \<Rightarrow> ksuid \<Rightarrow> cerror + 'v patch" where
  "Patch_DeleteVector p i =
     (if HasVector (diff p) i then
        res_bind (snap_DeleteVector (diff p) i) (\<lambda>s. Inr (Patch (base p) s (deletedObjects p) (deletedVectors p)))
      else if \<not> view_HasVector (base p) i then Inl (ErrNotFound i)
      else Inr (Patch (base p) (diff p) (deletedObjects p) (deletedVectors p @ [i])))"

definition patch_ops :: "('v patch, 'v) writeable_ops" where
  "patch_ops = \<lparr>w_AddDataObject = Patch_AddDataObject, w_DeleteObject = Patch_DeleteObject,
     w_AddVector = Patch_AddVector, w_DeleteVector = Patch_DeleteVector\<rparr>"

definition NewCommitObject :: "'v patch \<Rightarrow> ksuid \<Rightarrow> nat \<Rightarrow> 'v commit_args \<Rightarrow> 'v cobject" where
  "NewCommitObject p parent retries a =
     fold appendAddVector (vectors (diff p))
       (fold appendDeleteVector (deletedVectors p)
         (fold appendAdd (map snd (objects (diff p)))
           (fold appendDelete (deletedObjects p) (NewObject parent a retries))))"

text \<open>
  \<open>Revert\<close>. The lookup in the base returns an error or an object, never a nil object, so the
  test for nil has no branch here.
\<close>

fun revert_adds :: "'v view \<Rightarrow> 'v snapshot \<Rightarrow> ksuid list \<Rightarrow> 'v cobject \<Rightarrow> cerror + 'v cobject" where
  "revert_adds b tip [] o' = Inr o'"
| "revert_adds b tip (i # is) o' = res_bind (view_Lookup b i) (\<lambda>d.
     revert_adds b tip is (if \<not> Exists (SnapView tip) (obj_ID d) then appendAdd d o' else o'))"

definition Patch_Revert :: "'v patch \<Rightarrow> 'v snapshot \<Rightarrow> ksuid \<Rightarrow> nat \<Rightarrow> 'v commit_args \<Rightarrow> cerror + 'v cobject" where
  "Patch_Revert p tip parent retries a =
     (let o' = fold (\<lambda>d o'. if Exists (SnapView tip) (obj_ID d) then appendDelete (obj_ID d) o' else o')
                 (SelectAll (diff p)) (NewObject parent a retries)
      in res_bind (revert_adds (base p) tip (deletedObjects p) o') (\<lambda>o'.
           if length (co_Actions o') = 1 then Inl RevertEmpty else Inr o'))"

text \<open>\<open>Diff\<close>: the two loops carry the patch and the flag \<open>dirty\<close>.\<close>

fun diff_adds :: "'v patch \<Rightarrow> ksuid list \<Rightarrow> 'v dobject list \<Rightarrow> 'v patch \<times> bool \<Rightarrow> cerror + 'v patch \<times> bool" where
  "diff_adds parent deleted [] (p, dirty) = Inr (p, dirty)"
| "diff_adds parent deleted (d # ds) (p, dirty) =
     (if \<not> Exists (PatchView parent) (obj_ID d) then
        (if obj_ID d \<in> set deleted then Inl (ParentDeletes (obj_ID d))
         else res_bind (Patch_AddDataObject p d) (\<lambda>p. diff_adds parent deleted ds (p, True)))
      else diff_adds parent deleted ds (p, dirty))"

fun diff_deletes :: "'v patch \<Rightarrow> ksuid list \<Rightarrow> 'v patch \<times> bool \<Rightarrow> cerror + 'v patch \<times> bool" where
  "diff_deletes parent [] (p, dirty) = Inr (p, dirty)"
| "diff_deletes parent (i # is) (p, dirty) =
     (if Exists (PatchView parent) i then
        res_bind (Patch_DeleteObject p i) (\<lambda>p. diff_deletes parent is (p, True))
      else Inl (DeleteConflict i))"

definition Diff :: "'v patch \<Rightarrow> 'v patch \<Rightarrow> cerror + 'v patch" where
  "Diff parent child =
     res_bind (diff_adds parent (deletedObjects child) (Patch_SelectAll child) (NewPatch (PatchView parent), False)) (\<lambda>x.
     res_bind (diff_deletes parent (deletedObjects child) x) (\<lambda>(p, dirty).
       if \<not> dirty then Inl DiffEmpty else Inr p))"

text \<open>\<open>Vectors\<close>: the objects of a view that have a vector; an error of \<open>AddDataObject\<close> is dropped.\<close>

definition Vectors :: "'v view \<Rightarrow> 'v snapshot" where
  "Vectors v = fold (\<lambda>d s. if view_HasVector v (obj_ID d)
       then (case AddDataObject s d of Inl _ \<Rightarrow> s | Inr s' \<Rightarrow> s') else s) (view_SelectAll v) NewSnapshot"

end
