(* ===== verification/Lake_Config.thy ===== *)
theory Lake_Config
  imports Journal_Store Commits Field_Order
begin

text \<open>
  The configurations kept in journal stores: the branches of a pool (\<open>lake/branches\<close>) and the pools
  of a lake (\<open>lake/pools\<close>). A store is the pair of its table in memory and its files.
\<close>

subsection \<open>Branches (branches/config.go, branches/store.go)\<close>

record bconfig =
  bc_Ts :: u64
  bc_Name :: gostring
  bc_Commit :: ksuid

definition Branches_NewConfig :: "u64 \<Rightarrow> gostring \<Rightarrow> ksuid \<Rightarrow> bconfig" where
  "Branches_NewConfig now name commit = \<lparr>bc_Ts = now, bc_Name = name, bc_Commit = commit\<rparr>"

type_synonym bstore = "bconfig jstore \<times> bconfig jdisk"

datatype lerror =
    BranchExists gostring
  | BranchNotFound gostring
  | BranchOperatedOn gostring ksuid
  | PoolExists gostring
  | PoolNotFound "gostring + ksuid"
  | PoolRenamed gostring ksuid
  | JournalErr jerror
  | CommitErr cerror
  | InvalidCommitMeta gostring
  | NoRollup
  | CommitNotFound ksuid
  | NoCommonAncestor
  | MergeErr cerror
  | MergeIntoItself
  | CommitFailed gostring
  | NonExistentObject ksuid
  | VectorExists ksuid
  | VectorMissing ksuid
  | DataErr
  | BadPoolName gostring
  | MultipleKeys

definition Branches_CreateStore :: "bconfig jdisk \<Rightarrow> bstore" where
  "Branches_CreateStore d = CreateStore d"

definition Branches_OpenStore :: "bconfig jdisk \<Rightarrow> lerror + bstore" where
  "Branches_OpenStore d = (case OpenStore d of Inl e \<Rightarrow> Inl (JournalErr e) | Inr s \<Rightarrow> Inr (s, d))"

text \<open>Entries of the journal are all of type \<open>Config\<close> here, so the type test of \<open>All\<close> has no branch.\<close>

definition Branches_All_at :: "(nat \<Rightarrow> bconfig jdisk \<Rightarrow> bconfig jdisk) \<Rightarrow> bstore \<Rightarrow> bstore \<times> (lerror + bconfig list)" where
  "Branches_All_at acts x = (case Store_All_at bc_Name acts (fst x) (snd x) of
      (x, Inl e) \<Rightarrow> (x, Inl (JournalErr e)) | (x, Inr l) \<Rightarrow> (x, Inr l))"

definition Branches_All :: "bstore \<Rightarrow> bstore \<times> (lerror + bconfig list)" where
  "Branches_All x = Branches_All_at idle x"

text \<open>\<open>LookupByName\<close> drops an error of \<open>All\<close> and goes on with an empty list.\<close>

definition Branches_LookupByName_at :: "(nat \<Rightarrow> bconfig jdisk \<Rightarrow> bconfig jdisk) \<Rightarrow> gostring \<Rightarrow> bstore \<Rightarrow> bstore \<times> (lerror + bconfig)" where
  "Branches_LookupByName_at acts name x = (case Branches_All_at acts x of (x, r) \<Rightarrow>
     let list = (case r of Inl _ \<Rightarrow> [] | Inr l \<Rightarrow> l) in
     (case find (\<lambda>c. bc_Name c = name) list of
        Some c \<Rightarrow> (x, Inr c)
      | None \<Rightarrow> (x, Inl (BranchNotFound name))))"

definition Branches_LookupByName :: "gostring \<Rightarrow> bstore \<Rightarrow> bstore \<times> (lerror + bconfig)" where
  "Branches_LookupByName name x = Branches_LookupByName_at idle name x"

definition Branches_Add :: "bconfig \<Rightarrow> bconfig jenv \<Rightarrow> bconfig jenv \<Rightarrow> bstore \<Rightarrow> bstore \<times> (jerror + unit)" where
  "Branches_Add c env env' x = Store_Insert bc_Name c env env' (fst x) (snd x)"

definition Branches_Update :: "bconfig \<Rightarrow> (bconfig \<Rightarrow> bool) option \<Rightarrow> bconfig jenv \<Rightarrow> bconfig jenv \<Rightarrow> bstore \<Rightarrow> bstore \<times> (jerror + unit)" where
  "Branches_Update c f env env' x = Store_Update bc_Name c f env env' (fst x) (snd x)"

definition Branches_Remove :: "bconfig \<Rightarrow> bconfig jenv \<Rightarrow> bconfig jenv \<Rightarrow> bstore \<Rightarrow> bstore \<times> (lerror + unit)" where
  "Branches_Remove c env env' x =
     (case Store_Delete bc_Name (bc_Name c) (Some (\<lambda>p. bc_Commit p = bc_Commit c)) env env' (fst x) (snd x) of
        (x, Inr _) \<Rightarrow> (x, Inr ())
      | (x, Inl e) \<Rightarrow> (x, Inl (if e = ErrNoSuchKey then BranchNotFound (bc_Name c)
          else if e = ErrConstraint then BranchOperatedOn (bc_Name c) (bc_Commit c) else JournalErr e)))"

subsection \<open>Pools (pools/config.go, pools/store.go)\<close>

record pconfig =
  pc_Ts :: u64
  pc_Name :: gostring
  pc_ID :: ksuid
  pc_SortKeys :: "SortKey list"
  pc_SeekStride :: u64
  pc_Threshold :: u64

definition DefaultSeekStride :: u64 where "DefaultSeekStride = 64 * 1024"

definition DefaultThreshold :: u64 where "DefaultThreshold = 500 * 1024 * 1024"

definition Pools_NewConfig :: "u64 \<Rightarrow> ksuid \<Rightarrow> gostring \<Rightarrow> SortKey list \<Rightarrow> u64 \<Rightarrow> u64 \<Rightarrow> pconfig" where
  "Pools_NewConfig now new name sortKeys thresh seekStride = \<lparr>pc_Ts = now, pc_Name = name, pc_ID = new,
     pc_SortKeys = (if SortKeys_IsNil sortKeys then [NewSortKey Desc (Dotted (str ''ts''))] else sortKeys),
     pc_SeekStride = (if seekStride = 0 then DefaultSeekStride else seekStride),
     pc_Threshold = (if thresh = 0 then DefaultThreshold else thresh)\<rparr>"

text \<open>The form in which a configuration is stored: one order for all keys.\<close>

record oldSortKey =
  os_Order :: Which
  os_Keys :: "path list"

record marshalConfig =
  mc_Ts :: u64
  mc_Name :: gostring
  mc_ID :: ksuid
  mc_SortKey :: oldSortKey
  mc_SeekStride :: u64
  mc_Threshold :: u64

definition MarshalBSUP :: "pconfig \<Rightarrow> marshalConfig" where
  "MarshalBSUP p = \<lparr>mc_Ts = pc_Ts p, mc_Name = pc_Name p, mc_ID = pc_ID p,
     mc_SortKey = (if \<not> SortKeys_IsNil (pc_SortKeys p)
       then \<lparr>os_Order = sk_Order (pc_SortKeys p ! 0), os_Keys = map sk_Key (pc_SortKeys p)\<rparr>
       else \<lparr>os_Order = Asc, os_Keys = []\<rparr>),
     mc_SeekStride = pc_SeekStride p, mc_Threshold = pc_Threshold p\<rparr>"

definition UnmarshalBSUP :: "marshalConfig \<Rightarrow> pconfig" where
  "UnmarshalBSUP m = \<lparr>pc_Ts = mc_Ts m, pc_Name = mc_Name m, pc_ID = mc_ID m,
     pc_SortKeys = map (NewSortKey (os_Order (mc_SortKey m))) (os_Keys (mc_SortKey m)),
     pc_SeekStride = mc_SeekStride m, pc_Threshold = mc_Threshold m\<rparr>"

type_synonym pstore = "pconfig jstore \<times> pconfig jdisk"

definition Pools_All :: "pstore \<Rightarrow> pstore \<times> (lerror + pconfig list)" where
  "Pools_All x = (case Store_All pc_Name (fst x) (snd x) of
      (x, Inl e) \<Rightarrow> (x, Inl (JournalErr e)) | (x, Inr l) \<Rightarrow> (x, Inr l))"

definition Pools_LookupByID :: "ksuid \<Rightarrow> pstore \<Rightarrow> pstore \<times> (lerror + pconfig)" where
  "Pools_LookupByID i x = (case Pools_All x of
      (x, Inl _) \<Rightarrow> (x, Inl (PoolNotFound (Inr i)))
    | (x, Inr l) \<Rightarrow> (case find (\<lambda>c. pc_ID c = i) l of
        Some c \<Rightarrow> (x, Inr c) | None \<Rightarrow> (x, Inl (PoolNotFound (Inr i)))))"

definition Pools_LookupByName :: "gostring \<Rightarrow> pstore \<Rightarrow> pstore \<times> pconfig option" where
  "Pools_LookupByName name x = (case Pools_All x of
      (x, Inl _) \<Rightarrow> (x, None)
    | (x, Inr l) \<Rightarrow> (x, find (\<lambda>c. pc_Name c = name) l))"

definition Pools_Add :: "pconfig \<Rightarrow> pconfig jenv \<Rightarrow> pconfig jenv \<Rightarrow> pstore \<Rightarrow> pstore \<times> (jerror + unit)" where
  "Pools_Add c env env' x = Store_Insert pc_Name c env env' (fst x) (snd x)"

text \<open>\<open>Rename\<close>: the lookup, and the move of the configuration found.\<close>

definition rename_config :: "pconfig \<Rightarrow> gostring \<Rightarrow> pconfig jenv \<Rightarrow> pconfig jenv \<Rightarrow> pstore \<Rightarrow> pstore \<times> (lerror + unit)" where
  "rename_config c newName env env' x =
     (case Store_Move pc_Name (pc_Name c) (c\<lparr>pc_Name := newName\<rparr>) env env' (fst x) (snd x) of
        (x, Inr _) \<Rightarrow> (x, Inr ())
      | (x, Inl e) \<Rightarrow> (x, Inl (if e = ErrKeyExists then PoolExists newName
          else if e = ErrNoSuchKey then PoolNotFound (Inr (pc_ID c)) else JournalErr e)))"

definition Pools_Rename :: "ksuid \<Rightarrow> gostring \<Rightarrow> pconfig jenv \<Rightarrow> pconfig jenv \<Rightarrow> pstore \<Rightarrow> pstore \<times> (lerror + unit)" where
  "Pools_Rename i newName env env' x = (case Pools_LookupByID i x of
      (x, Inl e) \<Rightarrow> (x, Inl e)
    | (x, Inr c) \<Rightarrow> rename_config c newName env env' x)"

definition Pools_Remove :: "pconfig \<Rightarrow> pconfig jenv \<Rightarrow> pconfig jenv \<Rightarrow> pstore \<Rightarrow> pstore \<times> (lerror + unit)" where
  "Pools_Remove c env env' x =
     (case Store_Delete pc_Name (pc_Name c) (Some (\<lambda>p. pc_ID p = pc_ID c)) env env' (fst x) (snd x) of
        (x, Inr _) \<Rightarrow> (x, Inr ())
      | (x, Inl e) \<Rightarrow> (x, Inl (if e = ErrNoSuchKey then PoolNotFound (Inr (pc_ID c))
          else if e = ErrConstraint then PoolRenamed (pc_Name c) (pc_ID c) else JournalErr e)))"

subsection \<open>The stores as maps\<close>

lemma find_unique:
  assumes "set es = ran m" and "\<And>k e. m k = Some e \<Longrightarrow> key e = k"
  shows "find (\<lambda>e. key e = k) es = m k"
proof (cases "m k")
  case None
  then have "\<forall>e \<in> set es. key e \<noteq> k" using assms by (auto simp: ran_def)
  then show ?thesis using None by (simp add: find_None_iff)
next
  case (Some e)
  then have "e \<in> set es" "key e = k" using assms by (auto simp: ran_def)
  then obtain e' where e': "find (\<lambda>e. key e = k) es = Some e'"
    by (cases "find (\<lambda>e. key e = k) es") (auto simp: find_None_iff)
  then have "e' \<in> set es" "key e' = k" by (auto simp: find_Some_iff)
  then have "e' = e" using assms Some by (auto simp: ran_def)
  then show ?thesis using e' Some by simp
qed

lemma Branches_LookupByName_map:
  assumes "holds bc_Name x n m" and "Branches_LookupByName name x = (x', r)"
  shows "holds bc_Name x' n m \<and> r = (case m name of None \<Rightarrow> Inl (BranchNotFound name) | Some c \<Rightarrow> Inr c)"
proof -
  obtain x1 q where a: "Store_All bc_Name (fst x) (snd x) = (x1, q)" by (meson surj_pair)
  obtain es where es: "holds bc_Name x1 n m" "q = Inr es" "set es = ran m"
    using jk.all_law [OF assms(1) a] by blast
  then show ?thesis using assms(2) a find_unique [OF es(3), where key = bc_Name] jk.keyed [OF es(1)]
    by (auto simp: Branches_LookupByName_def Branches_LookupByName_at_def Branches_All_at_def Store_All_def split: option.splits)
qed

lemma Pools_LookupByID_map:
  assumes "holds pc_Name x n m" and "Pools_LookupByID i x = (x', r)"
  shows "holds pc_Name x' n m \<and> (case r of Inr c \<Rightarrow> m (pc_Name c) = Some c \<and> pc_ID c = i
    | Inl e \<Rightarrow> e = PoolNotFound (Inr i) \<and> (\<forall>c \<in> ran m. pc_ID c \<noteq> i))"
proof -
  obtain x1 q where a: "Store_All pc_Name (fst x) (snd x) = (x1, q)" by (meson surj_pair)
  obtain es where es: "holds pc_Name x1 n m" "q = Inr es" "set es = ran m"
    using jk.all_law [OF assms(1) a] by blast
  show ?thesis
  proof (cases "find (\<lambda>c. pc_ID c = i) es")
    case None
    then have "\<forall>c \<in> ran m. pc_ID c \<noteq> i" using es(3) by (simp add: find_None_iff)
    then show ?thesis using assms(2) a es None by (auto simp: Pools_LookupByID_def Pools_All_def)
  next
    case (Some c)
    then have "c \<in> ran m" "pc_ID c = i" using es(3) by (auto simp: find_Some_iff)
    then have "m (pc_Name c) = Some c" using jk.keyed [OF es(1)] by (auto simp: ran_def)
    then show ?thesis using assms(2) a es Some \<open>pc_ID c = i\<close> by (auto simp: Pools_LookupByID_def Pools_All_def)
  qed
qed

text \<open>A store with one entry.\<close>

lemma one_entry: "\<exists>x. holds key x 1 [key e \<mapsto> e]"
proof -
  obtain x r where "Store_Insert key e quiet quiet newStore new_disk = (x, r)" by (meson surj_pair)
  then show ?thesis using jk.insert_law [OF new_disk_ok(3), where e = e and s' = x and r = r]
    by (intro exI [of _ x]) (simp add: insert_chk_def max_log_def)
qed

text \<open>
  The configuration stores are maps from names. Looking up a branch finds the entry of its name;
  removing it succeeds exactly when its tip is still the one given, and otherwise reports that the branch
  is gone or was operated on; removing a pool succeeds exactly when the name still belongs to its ID. \<close>

theorem config_stores_are_maps:
  assumes "holds bc_Name x n m" and "holds pc_Name y k p" and "n < max_log" and "k < max_log"
  shows "(case Branches_LookupByName name x of (x', r) \<Rightarrow> holds bc_Name x' n m \<and>
      r = (case m name of None \<Rightarrow> Inl (BranchNotFound name) | Some c \<Rightarrow> Inr c)) \<and>
    (case Branches_Remove c quiet quiet x of (x', r) \<Rightarrow> (case m (bc_Name c) of
        None \<Rightarrow> r = Inl (BranchNotFound (bc_Name c)) \<and> holds bc_Name x' n m
      | Some b \<Rightarrow> if bc_Commit b = bc_Commit c then r = Inr () \<and> holds bc_Name x' (n + 1) (m(bc_Name c := None))
          else r = Inl (BranchOperatedOn (bc_Name c) (bc_Commit c)) \<and> holds bc_Name x' n m)) \<and>
    (case Pools_Remove d quiet quiet y of (y', r) \<Rightarrow> (case p (pc_Name d) of
        None \<Rightarrow> r = Inl (PoolNotFound (Inr (pc_ID d))) \<and> holds pc_Name y' k p
      | Some b \<Rightarrow> if pc_ID b = pc_ID d then r = Inr () \<and> holds pc_Name y' (k + 1) (p(pc_Name d := None))
          else r = Inl (PoolRenamed (pc_Name d) (pc_ID d)) \<and> holds pc_Name y' k p))"
proof (intro conjI, goal_cases)
  case 1
  obtain x' r where "Branches_LookupByName name x = (x', r)" by (meson surj_pair)
  then show ?case using Branches_LookupByName_map [OF assms(1)] by simp
next
  case 2
  obtain x' q where r: "Store_Delete bc_Name (bc_Name c) (Some (\<lambda>p. bc_Commit p = bc_Commit c)) quiet quiet (fst x) (snd x) = (x', q)"
    by (meson surj_pair)
  show ?case using jk.delete_law [OF assms(1,3) r] r
    by (auto simp: Branches_Remove_def constraint_chk_def split: option.splits if_splits)
next
  case 3
  obtain y' q where r: "Store_Delete pc_Name (pc_Name d) (Some (\<lambda>p. pc_ID p = pc_ID d)) quiet quiet (fst y) (snd y) = (y', q)"
    by (meson surj_pair)
  show ?case using jk.delete_law [OF assms(2,4) r] r
    by (auto simp: Pools_Remove_def constraint_chk_def split: option.splits if_splits)
qed

definition demo_main :: bconfig where
  "demo_main = Branches_NewConfig 0 (str ''main'') 1"

definition demo_logs :: pconfig where
  "demo_logs = Pools_NewConfig 0 5 (str ''logs'') [] 0 0"

theorem config_stores_are_maps_witness:
  "\<exists>x y x' y'. holds bc_Name x 1 [str ''main'' \<mapsto> demo_main] \<and> holds pc_Name y 1 [str ''logs'' \<mapsto> demo_logs] \<and>
   snd (Branches_LookupByName (str ''main'') x) = Inr demo_main \<and>
   Branches_Remove demo_main quiet quiet x = (x', Inr ()) \<and> holds bc_Name x' (1 + 1) Map.empty \<and>
   Pools_Remove (demo_logs\<lparr>pc_ID := 6\<rparr>) quiet quiet y = (y', Inl (PoolRenamed (str ''logs'') 6))"
proof -
  have n: "bc_Name demo_main = str ''main''" "pc_Name demo_logs = str ''logs''" "pc_ID demo_logs = 5"
    by (simp_all add: demo_main_def demo_logs_def Branches_NewConfig_def Pools_NewConfig_def)
  obtain x y where h: "holds bc_Name x 1 [str ''main'' \<mapsto> demo_main]" "holds pc_Name y 1 [str ''logs'' \<mapsto> demo_logs]"
    using one_entry [of bc_Name demo_main] one_entry [of pc_Name demo_logs] n by metis
  obtain x' r y' q where r: "Branches_Remove demo_main quiet quiet x = (x', r)"
    "Pools_Remove (demo_logs\<lparr>pc_ID := 6\<rparr>) quiet quiet y = (y', q)" by (meson surj_pair)
  have "snd (Branches_LookupByName (str ''main'') x) = Inr demo_main" "r = Inr ()" "holds bc_Name x' (1 + 1) Map.empty"
    "q = Inl (PoolRenamed (str ''logs'') 6)"
    using config_stores_are_maps [OF h, of "str ''main''" demo_main "demo_logs\<lparr>pc_ID := 6\<rparr>"] n r
    by (simp_all add: max_log_def split: prod.splits)
  then show ?thesis using h r by blast
qed

text \<open>
  A pool configuration survives being stored exactly when all its sort keys have one order: the
  stored form has a single order, that of the first key. \<close>

theorem pool_config_roundtrip:
  "UnmarshalBSUP (MarshalBSUP p) = p \<longleftrightarrow> (\<forall>k \<in> set (pc_SortKeys p). sk_Order k = sk_Order (hd (pc_SortKeys p)))"
proof -
  have k: "NewSortKey w (sk_Key k) = k \<longleftrightarrow> sk_Order k = w" for w k by (cases k) (auto simp: NewSortKey_def)
  have "map (NewSortKey w) (map sk_Key ks) = ks \<longleftrightarrow> (\<forall>k \<in> set ks. sk_Order k = w)" for w ks
    by (induction ks) (auto simp: k)
  moreover have "pc_SortKeys (UnmarshalBSUP (MarshalBSUP p)) = map (NewSortKey (sk_Order (hd (pc_SortKeys p)))) (map sk_Key (pc_SortKeys p))"
    by (cases "pc_SortKeys p") (simp_all add: UnmarshalBSUP_def MarshalBSUP_def SortKeys_IsNil_def)
  moreover have "UnmarshalBSUP (MarshalBSUP p) = p \<longleftrightarrow> pc_SortKeys (UnmarshalBSUP (MarshalBSUP p)) = pc_SortKeys p"
    by (cases p) (simp add: UnmarshalBSUP_def MarshalBSUP_def)
  ultimately show ?thesis by simp
qed

theorem pool_config_roundtrip_witness:
  "UnmarshalBSUP (MarshalBSUP (Pools_NewConfig 0 5 [] [NewSortKey Desc [str ''a''], NewSortKey Desc [str ''b'']] 0 0)) =
     Pools_NewConfig 0 5 [] [NewSortKey Desc [str ''a''], NewSortKey Desc [str ''b'']] 0 0 \<and>
   UnmarshalBSUP (MarshalBSUP (Pools_NewConfig 0 5 [] [NewSortKey Desc [str ''a''], NewSortKey Asc [str ''b'']] 0 0)) \<noteq>
     Pools_NewConfig 0 5 [] [NewSortKey Desc [str ''a''], NewSortKey Asc [str ''b'']] 0 0"
  unfolding pool_config_roundtrip by (simp add: Pools_NewConfig_def NewSortKey_def SortKeys_IsNil_def)

text \<open>
  C31: Renaming a pool moves its entry to the new name, unless the name is taken or the ID unknown. But
  the entry moved is the one looked up before, and the name it had then is deleted whoever has it by
  then: if meanwhile the pool was renamed and its old name given to another pool, the other pool is
  dropped from the configuration and the renamed one is listed under two names. \<close>

theorem pool_rename:
  assumes "holds pc_Name y k p" and "k < max_log"
  shows "(case Pools_Rename i newName quiet quiet y of (y', r) \<Rightarrow>
      (case r of
        Inr _ \<Rightarrow> (\<exists>c. p (pc_Name c) = Some c \<and> pc_ID c = i \<and> p newName = None \<and>
          holds pc_Name y' (k + 1) (p(pc_Name c := None, newName \<mapsto> c\<lparr>pc_Name := newName\<rparr>)))
      | Inl e \<Rightarrow> holds pc_Name y' k p \<and> (e = PoolNotFound (Inr i) \<and> (\<forall>c \<in> ran p. pc_ID c \<noteq> i) \<or>
          e = PoolExists newName \<and> p newName \<noteq> None))) \<and>
    (p (pc_Name c) = Some other \<and> p newName = None \<longrightarrow>
      (case rename_config c newName quiet quiet y of (y', r) \<Rightarrow> r = Inr () \<and>
        holds pc_Name y' (k + 1) (p(pc_Name c := None, newName \<mapsto> c\<lparr>pc_Name := newName\<rparr>))))"
proof -
  have move: "case rename_config c newName quiet quiet y of (y', r) \<Rightarrow>
      (case p (pc_Name c) of
        None \<Rightarrow> r = Inl (PoolNotFound (Inr (pc_ID c))) \<and> holds pc_Name y' k p
      | Some _ \<Rightarrow> if p newName \<noteq> None then r = Inl (PoolExists newName) \<and> holds pc_Name y' k p
          else r = Inr () \<and> holds pc_Name y' (k + 1) (p(pc_Name c := None, newName \<mapsto> c\<lparr>pc_Name := newName\<rparr>)))"
    if "holds pc_Name y k p" for y c
  proof -
    obtain y' q where r: "Store_Move pc_Name (pc_Name c) (c\<lparr>pc_Name := newName\<rparr>) quiet quiet (fst y) (snd y) = (y', q)"
      by (meson surj_pair)
    show ?thesis using jk.move_law [OF that assms(2) r] r
      by (auto simp: rename_config_def move_chk_def split: option.splits if_splits)
  qed
  obtain y1 r1 where l: "Pools_LookupByID i y = (y1, r1)" by (meson surj_pair)
  note L = Pools_LookupByID_map [OF assms(1) l]
  have "case Pools_Rename i newName quiet quiet y of (y', r) \<Rightarrow>
      (case r of
        Inr _ \<Rightarrow> (\<exists>c. p (pc_Name c) = Some c \<and> pc_ID c = i \<and> p newName = None \<and>
          holds pc_Name y' (k + 1) (p(pc_Name c := None, newName \<mapsto> c\<lparr>pc_Name := newName\<rparr>)))
      | Inl e \<Rightarrow> holds pc_Name y' k p \<and> (e = PoolNotFound (Inr i) \<and> (\<forall>c \<in> ran p. pc_ID c \<noteq> i) \<or>
          e = PoolExists newName \<and> p newName \<noteq> None))"
  proof (cases r1)
    case (Inl e)
    then show ?thesis using L l by (simp add: Pools_Rename_def)
  next
    case (Inr c)
    then have c: "holds pc_Name y1 k p" "p (pc_Name c) = Some c" "pc_ID c = i" using L by auto
    show ?thesis using move [OF c(1), of c] c(2,3) l Inr by (auto simp: Pools_Rename_def split: prod.splits if_splits)
  qed
  then show ?thesis using move [OF assms(1), of c] by (auto split: prod.splits)
qed

theorem pool_rename_witness:
  "\<exists>y y'. holds pc_Name y 1 [str ''logs'' \<mapsto> demo_logs] \<and>
   rename_config (demo_logs\<lparr>pc_ID := 6\<rparr>) (str ''b'') quiet quiet y = (y', Inr ()) \<and>
   holds pc_Name y' (1 + 1) [str ''b'' \<mapsto> demo_logs\<lparr>pc_ID := 6, pc_Name := str ''b''\<rparr>]"
proof -
  have n: "pc_Name demo_logs = str ''logs''" by (simp add: demo_logs_def Pools_NewConfig_def)
  obtain y where h: "holds pc_Name y 1 [str ''logs'' \<mapsto> demo_logs]" using one_entry [of pc_Name demo_logs] n by metis
  have b: "str ''b'' \<noteq> str ''logs''" by (simp add: str_def)
  obtain y' r where y': "rename_config (demo_logs\<lparr>pc_ID := 6\<rparr>) (str ''b'') quiet quiet y = (y', r)" by (meson surj_pair)
  have "r = Inr () \<and> holds pc_Name y' (1 + 1) [str ''b'' \<mapsto> demo_logs\<lparr>pc_ID := 6, pc_Name := str ''b''\<rparr>]"
    using pool_rename [OF h, of 5 "str ''b''" "demo_logs\<lparr>pc_ID := 6\<rparr>" demo_logs] y' n b
    by (simp add: max_log_def fun_upd_twist)
  then show ?thesis using h y' by blast
qed

end
