(* ===== verification/Commits_Store.thy ===== *)
theory Commits_Store
  imports Commits
begin

text \<open>
  The commit store of a pool (\<open>lake/commits/store.go\<close>, \<open>reader.go\<close>): commit objects and snapshots
  as files, with three caches in memory. A commit names its parent, and loops follow the parents to the
  root; they carry fuel, and \<open>None\<close> says that it ran out.
\<close>

text \<open>
  The state of a store. The ARC caches are maps; which of their keys the cache keeps when it is given
  a new one is its own choice: \<open>cs_keep k x\<close> says that \<open>x\<close> stays when \<open>k\<close> is added.
\<close>

record 'v cstore =
  cs_files :: "ksuid \<rightharpoonup> 'v fentry list"
  cs_snapfiles :: "ksuid \<rightharpoonup> 'v fentry list"
  cs_cache :: "ksuid \<rightharpoonup> 'v cobject"
  cs_paths :: "ksuid \<rightharpoonup> ksuid list"
  cs_snapshots :: "ksuid \<rightharpoonup> 'v snapshot"
  cs_keep :: "ksuid \<Rightarrow> ksuid \<Rightarrow> bool"

definition arc_add :: "(ksuid \<Rightarrow> ksuid \<Rightarrow> bool) \<Rightarrow> ksuid \<Rightarrow> 'a \<Rightarrow> (ksuid \<rightharpoonup> 'a) \<Rightarrow> (ksuid \<rightharpoonup> 'a)" where
  "arc_add keep k v c = (\<lambda>x. if keep k x then (c(k \<mapsto> v)) x else None)"

definition OpenCommitStore :: "(ksuid \<rightharpoonup> 'v fentry list) \<Rightarrow> (ksuid \<rightharpoonup> 'v fentry list) \<Rightarrow> (ksuid \<Rightarrow> ksuid \<Rightarrow> bool) \<Rightarrow> 'v cstore" where
  "OpenCommitStore files snaps keep = \<lparr>cs_files = files, cs_snapfiles = snaps, cs_cache = Map.empty,
     cs_paths = Map.empty, cs_snapshots = Map.empty, cs_keep = keep\<rparr>"

subsection \<open>Commit objects\<close>

definition Store_Get :: "ksuid \<Rightarrow> 'v cstore \<Rightarrow> 'v cstore \<times> (cerror + 'v cobject)" where
  "Store_Get commit s = (case cs_cache s commit of
      Some o' \<Rightarrow> (s, Inr o')
    | None \<Rightarrow> (case cs_files s commit of
        None \<Rightarrow> (s, Inl FileNotExist)
      | Some b \<Rightarrow> (case DecodeObject b of
          Inl e \<Rightarrow> (s, Inl e)
        | Inr o' \<Rightarrow> (s\<lparr>cs_cache := arc_add (cs_keep s) commit o' (cs_cache s)\<rparr>, Inr o'))))"

definition Store_Put :: "'v cobject \<Rightarrow> 'v cstore \<Rightarrow> 'v cstore \<times> (cerror + unit)" where
  "Store_Put o' s = (case Serialize o' of
      Inl e \<Rightarrow> (s, Inl e)
    | Inr b \<Rightarrow> (s\<lparr>cs_files := (cs_files s)(co_Commit o' \<mapsto> b)\<rparr>, Inr ()))"

definition Store_Remove :: "'v cobject \<Rightarrow> 'v cstore \<Rightarrow> 'v cstore \<times> (cerror + unit)" where
  "Store_Remove o' s = (if cs_files s (co_Commit o') = None then (s, Inl FileNotExist)
     else (s\<lparr>cs_files := (cs_files s)(co_Commit o' := None)\<rparr>, Inr ()))"

subsection \<open>Snapshots\<close>

definition Store_getSnapshot :: "ksuid \<Rightarrow> 'v cstore \<Rightarrow> cerror + 'v snapshot" where
  "Store_getSnapshot commit s = (case cs_snapfiles s commit of
      None \<Rightarrow> Inl FileNotExist | Some b \<Rightarrow> decodeSnapshot b)"

definition Store_putSnapshot :: "ksuid \<Rightarrow> 'v snapshot \<Rightarrow> 'v cstore \<Rightarrow> 'v cstore" where
  "Store_putSnapshot commit snap s = s\<lparr>cs_snapfiles := (cs_snapfiles s)(commit \<mapsto> snap_serialize snap)\<rparr>"

definition cache_snapshot :: "ksuid \<Rightarrow> 'v snapshot \<Rightarrow> 'v cstore \<Rightarrow> 'v cstore" where
  "cache_snapshot commit snap s = s\<lparr>cs_snapshots := arc_add (cs_keep s) commit snap (cs_snapshots s)\<rparr>"

text \<open>
  The walk to the closest snapshot: it returns that snapshot, if any, and the commit objects passed
  on the way. The commit object is fetched while the snapshot file is looked for; its error matters
  only when there is no snapshot. Errors of reading a snapshot file are logged and otherwise treated
  as if there were none.
\<close>

fun snapshot_walk :: "nat \<Rightarrow> ksuid \<Rightarrow> 'v cobject list \<Rightarrow> 'v cstore \<Rightarrow>
    ('v cstore \<times> (cerror + 'v snapshot option \<times> 'v cobject list)) option" where
  "snapshot_walk 0 at os s = None"
| "snapshot_walk (Suc n) at os s =
     (if at = 0 then Some (s, Inr (None, os))
      else case cs_snapshots s at of
        Some snap \<Rightarrow> Some (s, Inr (Some snap, os))
      | None \<Rightarrow> (case Store_Get at s of (s, r) \<Rightarrow>
          (case Store_getSnapshot at s of
            Inr snap \<Rightarrow> Some (cache_snapshot at snap s, Inr (Some snap, os))
          | Inl _ \<Rightarrow> (case r of
              Inl e \<Rightarrow> Some (s, Inl e)
            | Inr o' \<Rightarrow> snapshot_walk n (co_Parent o') (os @ [o']) s))))"

primrec play_objects :: "'v cobject list \<Rightarrow> 'v snapshot \<Rightarrow> cerror + 'v snapshot" where
  "play_objects [] snap = Inr snap"
| "play_objects (o' # os) snap = res_bind (play_actions snap_ops (co_Actions o') snap) (play_objects os)"

definition Store_Snapshot :: "nat \<Rightarrow> ksuid \<Rightarrow> 'v cstore \<Rightarrow> ('v cstore \<times> (cerror + 'v snapshot)) option" where
  "Store_Snapshot n leaf s = (case cs_snapshots s leaf of
      Some snap \<Rightarrow> Some (s, Inr snap)
    | None \<Rightarrow> (case Store_getSnapshot leaf s of
        Inr snap \<Rightarrow> Some (cache_snapshot leaf snap s, Inr snap)
      | Inl _ \<Rightarrow> (case snapshot_walk n leaf [] s of
          None \<Rightarrow> None
        | Some (s, Inl e) \<Rightarrow> Some (s, Inl e)
        | Some (s, Inr (b, os)) \<Rightarrow>
            (case play_objects (rev os) (case b of None \<Rightarrow> NewSnapshot | Some b \<Rightarrow> snap_Copy b) of
              Inl e \<Rightarrow> Some (s, Inl e)
            | Inr snap \<Rightarrow> Some (cache_snapshot leaf snap (Store_putSnapshot leaf snap s), Inr snap)))))"

subsection \<open>Paths\<close>

text \<open>The IDs of a cached path up to and including \<open>to\<close>.\<close>

fun upto_id :: "ksuid \<Rightarrow> ksuid list \<Rightarrow> ksuid list" where
  "upto_id to [] = []"
| "upto_id to (i # is) = (if i = to then [i] else i # upto_id to is)"

fun path_loop :: "nat \<Rightarrow> ksuid \<Rightarrow> ksuid \<Rightarrow> ksuid list \<Rightarrow> 'v cstore \<Rightarrow> ('v cstore \<times> (cerror + ksuid list)) option" where
  "path_loop 0 at to path s = None"
| "path_loop (Suc n) at to path s =
     (if at = 0 then Some (s, Inr path)
      else case cs_paths s at of
        Some c \<Rightarrow> Some (s, Inr (path @ upto_id to c))
      | None \<Rightarrow> (case Store_Get at s of
          (s, Inl e) \<Rightarrow> Some (s, Inl e)
        | (s, Inr o') \<Rightarrow> if at = to then Some (s, Inr (path @ [at]))
            else path_loop n (co_Parent o') to (path @ [at]) s))"

definition PathRange :: "nat \<Rightarrow> ksuid \<Rightarrow> ksuid \<Rightarrow> 'v cstore \<Rightarrow> ('v cstore \<times> (cerror + ksuid list)) option" where
  "PathRange n from to s = path_loop n from to [] s"

definition Store_Path :: "nat \<Rightarrow> ksuid \<Rightarrow> 'v cstore \<Rightarrow> ('v cstore \<times> (cerror + ksuid list)) option" where
  "Store_Path n leaf s = (if leaf = 0 then Some (s, Inl NoPathForNil)
     else case cs_paths s leaf of
       Some path \<Rightarrow> Some (s, Inr path)
     | None \<Rightarrow> (case PathRange n leaf 0 s of
         None \<Rightarrow> None
       | Some (s, Inl e) \<Rightarrow> Some (s, Inl e)
       | Some (s, Inr path) \<Rightarrow> Some (s\<lparr>cs_paths := arc_add (cs_keep s) leaf path (cs_paths s)\<rparr>, Inr path)))"

subsection \<open>The commit log\<close>

definition GetBytes :: "ksuid \<Rightarrow> 'v cstore \<Rightarrow> cerror + 'v fentry list \<times> 'v commit_info" where
  "GetBytes commit s = (case cs_files s commit of
      None \<Rightarrow> Inl FileNotExist
    | Some b \<Rightarrow> (case b of
        FErr # _ \<Rightarrow> Inl FileReadErr
      | FAction (Commit i) # _ \<Rightarrow> Inr (b, i)
      | _ \<Rightarrow> Inl ErrBadCommitObject))"

fun read_all_loop :: "nat \<Rightarrow> ksuid \<Rightarrow> ksuid \<Rightarrow> 'v fentry list list \<Rightarrow> 'v cstore \<Rightarrow> (cerror + 'v fentry list list) option" where
  "read_all_loop 0 commit stop bs s = None"
| "read_all_loop (Suc n) commit stop bs s =
     (if commit \<noteq> 0 \<and> commit \<noteq> stop then
        (case GetBytes commit s of
           Inl e \<Rightarrow> Some (Inl e)
         | Inr (b, i) \<Rightarrow> read_all_loop n (ci_Parent i) stop (bs @ [b]) s)
      else Some (Inr bs))"

definition ReadAll :: "nat \<Rightarrow> ksuid \<Rightarrow> ksuid \<Rightarrow> 'v cstore \<Rightarrow> (cerror + 'v fentry list) option" where
  "ReadAll n commit stop s = (case read_all_loop n commit stop [] s of
      None \<Rightarrow> None
    | Some (Inl e) \<Rightarrow> Some (Inl e)
    | Some (Inr bs) \<Rightarrow> Some (Inr (concat (rev bs))))"

definition Store_Open :: "nat \<Rightarrow> ksuid \<Rightarrow> ksuid \<Rightarrow> 'v cstore \<Rightarrow> (cerror + 'v fentry list) option" where
  "Store_Open n commit stop s = ReadAll n commit stop s"

text \<open>The log reader: \<open>Read\<close> returns the commit at the cursor, or nothing at the end, and moves on.\<close>

record log_reader =
  lr_cursor :: ksuid
  lr_stop :: ksuid

definition newLogReader :: "ksuid \<Rightarrow> ksuid \<Rightarrow> log_reader" where
  "newLogReader leaf stop = \<lparr>lr_cursor = leaf, lr_stop = stop\<rparr>"

definition LogReader_Read :: "'v cstore \<Rightarrow> log_reader \<Rightarrow> log_reader \<times> (cerror + 'v commit_info option)" where
  "LogReader_Read s r =
     (if lr_cursor r = 0 then (r, Inr None)
      else case GetBytes (lr_cursor r) s of
        Inl e \<Rightarrow> (r, Inl e)
      | Inr (_, i) \<Rightarrow> (r\<lparr>lr_cursor := if ci_Parent i = lr_stop r then 0 else ci_Parent i\<rparr>, Inr (Some i)))"

subsection \<open>Patches of commits and paths\<close>

definition PatchOfCommit :: "nat \<Rightarrow> ksuid \<Rightarrow> 'v cstore \<Rightarrow> ('v cstore \<times> (cerror + 'v patch)) option" where
  "PatchOfCommit n commit s = (case Store_Path n commit s of
      None \<Rightarrow> None
    | Some (s, Inl e) \<Rightarrow> Some (s, Inl e)
    | Some (s, Inr path) \<Rightarrow>
        if path = [] then Some (s, Inl PathlessCommit)
        else (case (if length path = 1 then Some (s, Inr NewSnapshot) else Store_Snapshot n (path ! 1) s) of
            None \<Rightarrow> None
          | Some (s, Inl e) \<Rightarrow> Some (s, Inl e)
          | Some (s, Inr b) \<Rightarrow> (case Store_Get commit s of
              (s, Inl e) \<Rightarrow> Some (s, Inl e)
            | (s, Inr o') \<Rightarrow> Some (s, play_actions patch_ops (co_Actions o') (NewPatch (SnapView b))))))"

fun patch_path_loop :: "ksuid list \<Rightarrow> 'v patch \<Rightarrow> 'v cstore \<Rightarrow> 'v cstore \<times> (cerror + 'v patch)" where
  "patch_path_loop [] p s = (s, Inr p)"
| "patch_path_loop (i # is) p s = (case Store_Get i s of
      (s, Inl e) \<Rightarrow> (s, Inl e)
    | (s, Inr o') \<Rightarrow> (case play_actions patch_ops (co_Actions o') p of
        Inl e \<Rightarrow> (s, Inl e)
      | Inr p \<Rightarrow> patch_path_loop is p s))"

definition PatchOfPath :: "nat \<Rightarrow> 'v snapshot \<Rightarrow> ksuid \<Rightarrow> ksuid \<Rightarrow> 'v cstore \<Rightarrow> ('v cstore \<times> (cerror + 'v patch)) option" where
  "PatchOfPath n b baseID commit s = (case PathRange n commit baseID s of
      None \<Rightarrow> None
    | Some (s, Inl e) \<Rightarrow> Some (s, Inl e)
    | Some (s, Inr path) \<Rightarrow>
        if length path < 2 then Some (s, Inr (NewPatch (SnapView b)))
        else Some (patch_path_loop (rev (butlast path)) (NewPatch (SnapView b)) s))"

text \<open>
  \<open>Vacuumable\<close>: the objects sent to the output channel. An error of reading a commit ends the walk
  without an error.
\<close>

primrec vacuum_actions :: "'v snapshot \<Rightarrow> 'v action list \<Rightarrow> 'v dobject list" where
  "vacuum_actions snap [] = []"
| "vacuum_actions snap (a # as) = (case a of
      Add _ d \<Rightarrow> if \<not> Snapshot_Exists snap (obj_ID d) then d # vacuum_actions snap as else vacuum_actions snap as
    | _ \<Rightarrow> vacuum_actions snap as)"

fun vacuum_loop :: "nat \<Rightarrow> ksuid \<Rightarrow> ksuid \<Rightarrow> 'v snapshot \<Rightarrow> 'v dobject list \<Rightarrow> 'v cstore \<Rightarrow>
    ('v cstore \<times> 'v dobject list) option" where
  "vacuum_loop 0 leaf at snap out s = None"
| "vacuum_loop (Suc n) leaf at snap out s =
     (if at = 0 then Some (s, out)
      else case Store_Get at s of
        (s, Inl _) \<Rightarrow> Some (s, out)
      | (s, Inr o') \<Rightarrow> if co_Commit o' = leaf then vacuum_loop n leaf (co_Parent o') snap out s
          else vacuum_loop n leaf (co_Parent o') snap (out @ vacuum_actions snap (co_Actions o')) s)"

definition Vacuumable :: "nat \<Rightarrow> ksuid \<Rightarrow> 'v cstore \<Rightarrow> ('v cstore \<times> (cerror + 'v dobject list)) option" where
  "Vacuumable n leaf s = (case Store_Snapshot n leaf s of
      None \<Rightarrow> None
    | Some (s, Inl e) \<Rightarrow> Some (s, Inl e)
    | Some (s, Inr snap) \<Rightarrow> (case vacuum_loop n leaf leaf snap [] s of
        None \<Rightarrow> None
      | Some (s, out) \<Rightarrow> Some (s, Inr out)))"

end
