(* ===== verification/Lake_Branch.thy ===== *)
theory Lake_Branch
  imports Lake_Config Commits_Store
begin

text \<open>
  The branches of a pool (\<open>lake/branch.go\<close>) and the pool's own operations on branches
  (\<open>lake/pool.go\<close>): every change builds a commit object on top of the tip of the branch, writes it, and
  moves the branch pointer if the tip is still the same. The state of a pool is its branch store and its
  commit store.
\<close>

type_synonym 'v pool = "bstore \<times> 'v cstore"

definition maxCommitRetries :: nat where "maxCommitRetries = 10"
definition maxMessageObjects :: int where "maxMessageObjects = 10"

text \<open>
  What the operations take from outside: new IDs and the time for each attempt, the text form of an ID
  and the quoted form of a name, the null value, the parser for commit metadata, and the fuel for loops over the history.
\<close>

record 'v ctx =
  cx_new :: "nat \<Rightarrow> ksuid"
  cx_now :: "nat \<Rightarrow> u64"
  cx_id :: "ksuid \<Rightarrow> gostring"
  cx_quote :: "gostring \<Rightarrow> gostring"
  cx_null :: 'v
  cx_parse :: "gostring \<Rightarrow> 'v option"
  cx_fuel :: nat

definition cx_args :: "'v ctx \<Rightarrow> nat \<Rightarrow> gostring \<Rightarrow> gostring \<Rightarrow> 'v \<Rightarrow> 'v commit_args" where
  "cx_args cx r author message meta = \<lparr>ca_commit = cx_new cx r, ca_now = cx_now cx r,
     ca_author = author, ca_message = message, ca_meta = meta\<rparr>"

subsection \<open>Messages\<close>

definition plural_Slice :: "'a list \<Rightarrow> gostring \<Rightarrow> gostring" where
  "plural_Slice s suf = (if length s = 1 then [] else suf)"

definition FormatInt :: "u64 \<Rightarrow> bytes" where
  "FormatInt x = (if sint x < 0 then 45 # dec_digits (nat (- sint x)) else dec_digits (nat (sint x)))"

definition Object_String :: "(ksuid \<Rightarrow> gostring) \<Rightarrow> 'v dobject \<Rightarrow> gostring" where
  "Object_String idstr d = idstr (obj_ID d) @ str '' '' @ FormatUint (obj_Count d) @ str '' record''
     @ (if obj_Count d = 1 then [] else str ''s'') @ str '' in '' @ FormatInt (obj_Size d) @ str '' data bytes''"

fun load_lines :: "(ksuid \<Rightarrow> gostring) \<Rightarrow> int \<Rightarrow> 'v dobject list \<Rightarrow> gostring" where
  "load_lines idstr k [] = []"
| "load_lines idstr k (d # ds) = str ''  '' @ Object_String idstr d @ [10]
     @ (if k \<ge> maxMessageObjects then str ''  ...'' @ [10] else load_lines idstr (k + 1) ds)"

definition loadMessage :: "(ksuid \<Rightarrow> gostring) \<Rightarrow> 'v dobject list \<Rightarrow> gostring" where
  "loadMessage idstr ds = str ''loaded '' @ dec_digits (length ds) @ str '' data object'' @ plural_Slice ds (str ''s'')
     @ [10, 10] @ load_lines idstr 0 ds"

text \<open>\<open>printObjects\<close>; an object that was not found prints as \<open><nil>\<close>.\<close>

fun print_lines :: "(ksuid \<Rightarrow> gostring) \<Rightarrow> int \<Rightarrow> int \<Rightarrow> 'v dobject option list \<Rightarrow> gostring" where
  "print_lines idstr limit k [] = []"
| "print_lines idstr limit k (d # ds) = str ''  ''
     @ (case d of Some d \<Rightarrow> Object_String idstr d | None \<Rightarrow> str ''<nil>'') @ [10]
     @ (if k \<ge> limit then str ''  ...'' @ [10] else []) @ print_lines idstr limit (k + 1) ds"

definition printObjects :: "(ksuid \<Rightarrow> gostring) \<Rightarrow> 'v dobject option list \<Rightarrow> int \<Rightarrow> gostring" where
  "printObjects idstr ds limit = print_lines idstr limit 0 ds"

definition deleteMessage :: "(ksuid \<Rightarrow> gostring) \<Rightarrow> 'v dobject option list \<Rightarrow> gostring" where
  "deleteMessage idstr ds = str ''deleted '' @ dec_digits (length ds) @ str '' data object'' @ plural_Slice ds (str ''s'')
     @ [10, 10] @ printObjects idstr ds maxMessageObjects"

definition deleteWhereMessage :: "(ksuid \<Rightarrow> gostring) \<Rightarrow> 'v dobject option list \<Rightarrow> 'v dobject option list \<Rightarrow> gostring" where
  "deleteWhereMessage idstr deleted added = deleteMessage idstr deleted @
     (if length added > 0 then [10] @ str ''added '' @ dec_digits (length added) @ str '' data object'' @ plural_Slice added (str ''s'')
        @ [10, 10] @ printObjects idstr added (maxMessageObjects - int (length deleted)) else [])"

definition compactMessage :: "(ksuid \<Rightarrow> gostring) \<Rightarrow> 'v dobject list \<Rightarrow> 'v dobject list \<Rightarrow> gostring" where
  "compactMessage idstr src rollup = str ''compacted '' @ dec_digits (length src) @ str '' object'' @ plural_Slice src (str ''s'')
     @ [10, 10] @ printObjects idstr (map Some src) maxMessageObjects
     @ [10] @ str ''created '' @ dec_digits (length rollup) @ str '' object'' @ plural_Slice rollup (str ''s'')
     @ [10, 10] @ printObjects idstr (map Some rollup) (maxMessageObjects - int (length src))"

definition vectorMessage :: "(ksuid \<Rightarrow> gostring) \<Rightarrow> gostring \<Rightarrow> ksuid list \<Rightarrow> gostring" where
  "vectorMessage idstr kind is = str ''vector '' @ kind @ [10, 10] @ concat (map (\<lambda>i. str ''    '' @ idstr i @ [10]) is)"

definition loadMeta :: "'v ctx \<Rightarrow> gostring \<Rightarrow> lerror + 'v" where
  "loadMeta cx meta = (if meta = [] then Inr (cx_null cx)
     else case cx_parse cx meta of Some v \<Rightarrow> Inr v | None \<Rightarrow> Inl (InvalidCommitMeta meta))"

subsection \<open>Committing to a branch\<close>

text \<open>
  A constructor makes the commit object for a parent configuration and the number of the attempt. The
  commit message is a variable of the operation that the constructor may set, and keeps its value from
  one attempt to the next.
\<close>

type_synonym 'v constructor = "bconfig \<Rightarrow> nat \<Rightarrow> gostring \<Rightarrow> 'v cstore \<Rightarrow> (gostring \<times> 'v cstore \<times> (lerror + 'v cobject)) option"

text \<open>
  What other processes do: to the files of the branch journal before and while the branch is looked up, to
  those of the commit store before an attempt, and to the journal while the branch pointer is updated.
\<close>

record 'v cenv =
  ce_disk :: "bconfig jenv"
  ce_commits :: "nat \<Rightarrow> 'v cstore \<Rightarrow> 'v cstore"
  ce_env :: "nat \<Rightarrow> bconfig jenv"
  ce_env' :: "nat \<Rightarrow> bconfig jenv"

fun branch_commit_loop :: "gostring \<Rightarrow> 'v constructor \<Rightarrow> 'v cenv \<Rightarrow> nat \<Rightarrow> nat \<Rightarrow> gostring \<Rightarrow> 'v pool \<Rightarrow>
    ('v pool \<times> (lerror + ksuid)) option" where
  "branch_commit_loop name create E 0 r msg (x, cs) = Some ((x, cs), Inl (CommitFailed name))"
| "branch_commit_loop name create E (Suc k) r msg (x, cs) =
     (case Branches_LookupByName_at (ce_disk E r) name x of
        (x, Inl e) \<Rightarrow> Some ((x, ce_commits E r cs), Inl e)
      | (x, Inr config) \<Rightarrow> (case create config r msg (ce_commits E r cs) of
          None \<Rightarrow> None
        | Some (msg, cs, Inl e) \<Rightarrow> Some ((x, cs), Inl e)
        | Some (msg, cs, Inr o') \<Rightarrow> (case Store_Put o' cs of
            (cs, Inl e) \<Rightarrow> Some ((x, cs), Inl (CommitErr e))
          | (cs, Inr _) \<Rightarrow>
              (case Branches_Update (config\<lparr>bc_Commit := co_Commit o'\<rparr>) (Some (\<lambda>e. bc_Commit e = bc_Commit config))
                  (ce_env E r) (ce_env' E r) x of
                (x, Inr _) \<Rightarrow> Some ((x, cs), Inr (co_Commit o'))
              | (x, Inl e) \<Rightarrow> (case Store_Remove o' cs of (cs, rmerr) \<Rightarrow>
                  if e = ErrConstraint then (case rmerr of
                      Inl re \<Rightarrow> Some ((x, cs), Inl (CommitErr re))
                    | Inr _ \<Rightarrow> branch_commit_loop name create E k (r + 1) msg (x, cs))
                  else Some ((x, cs), Inl (JournalErr e)))))))"

definition branch_commit :: "gostring \<Rightarrow> 'v constructor \<Rightarrow> 'v cenv \<Rightarrow> gostring \<Rightarrow> 'v pool \<Rightarrow> ('v pool \<times> (lerror + ksuid)) option" where
  "branch_commit name create E msg p = branch_commit_loop name create E maxCommitRetries 0 msg p"

text \<open>The snapshot of the tip, as the constructors take it.\<close>

definition with_snapshot :: "'v ctx \<Rightarrow> ksuid \<Rightarrow> gostring \<Rightarrow> 'v cstore \<Rightarrow>
    ('v cstore \<Rightarrow> 'v snapshot \<Rightarrow> (gostring \<times> 'v cstore \<times> (lerror + 'v cobject)) option) \<Rightarrow>
    (gostring \<times> 'v cstore \<times> (lerror + 'v cobject)) option" where
  "with_snapshot cx commit msg cs f = (case Store_Snapshot (cx_fuel cx) commit cs of
      None \<Rightarrow> None
    | Some (cs, Inl e) \<Rightarrow> Some (msg, cs, Inl (CommitErr e))
    | Some (cs, Inr snap) \<Rightarrow> f cs snap)"

subsection \<open>Loading and deleting\<close>

text \<open>\<open>Load\<close>; what the writer has written, or its error, is an argument.\<close>

definition Branch_Load :: "'v ctx \<Rightarrow> gostring \<Rightarrow> (lerror + 'v dobject list) \<Rightarrow> gostring \<Rightarrow> gostring \<Rightarrow> gostring \<Rightarrow> 'v cenv \<Rightarrow> 'v pool \<Rightarrow>
    ('v pool \<times> (lerror + ksuid)) option" where
  "Branch_Load cx name written author message meta E p = (case written of
      Inl e \<Rightarrow> Some (p, Inl e)
    | Inr ds \<Rightarrow> if length ds = 0 then Some (p, Inl (CommitErr ErrEmptyTransaction))
        else (case loadMeta cx meta of
            Inl e \<Rightarrow> Some (p, Inl e)
          | Inr appMeta \<Rightarrow> branch_commit name (\<lambda>parent r msg cs.
              Some (msg, cs, Inr (NewAddsObject (bc_Commit parent) r (cx_args cx r author msg appMeta) ds)))
              E (if message = [] then loadMessage (cx_id cx) ds else message) p))"

fun lookup_all :: "'v snapshot \<Rightarrow> ksuid list \<Rightarrow> cerror + 'v dobject list" where
  "lookup_all snap [] = Inr []"
| "lookup_all snap (i # is) = res_bind (Lookup snap i) (\<lambda>d. res_bind (lookup_all snap is) (\<lambda>ds. Inr (d # ds)))"

definition delete_constructor :: "'v ctx \<Rightarrow> ksuid list \<Rightarrow> gostring \<Rightarrow> 'v constructor" where
  "delete_constructor cx is author parent r msg cs = with_snapshot cx (bc_Commit parent) msg cs (\<lambda>cs snap.
     case lookup_all snap is of
       Inl e \<Rightarrow> Some (msg, cs, Inl (CommitErr e))
     | Inr ds \<Rightarrow> let msg = (if msg = [] then deleteMessage (cx_id cx) (map Some ds) else msg) in
         Some (msg, cs, Inr (NewDeletesObject (bc_Commit parent) r (cx_args cx r author msg (cx_null cx)) is)))"

definition Branch_Delete :: "'v ctx \<Rightarrow> gostring \<Rightarrow> ksuid list \<Rightarrow> gostring \<Rightarrow> gostring \<Rightarrow> 'v cenv \<Rightarrow> 'v pool \<Rightarrow>
    ('v pool \<times> (lerror + ksuid)) option" where
  "Branch_Delete cx name is author message E p = branch_commit name (delete_constructor cx is author) E message p"

text \<open>
  \<open>DeleteWhere\<close>; the result of the delete query at a parent commit is an argument: the objects it
  deletes and the objects it has written in their place. Errors of the patch are dropped.
\<close>

definition delete_where_patch :: "'v snapshot \<Rightarrow> ksuid list \<Rightarrow> 'v dobject list \<Rightarrow> 'v patch" where
  "delete_where_patch snap deleted written =
     fold (\<lambda>d p. case Patch_AddDataObject p d of Inl _ \<Rightarrow> p | Inr p \<Rightarrow> p) written
       (fold (\<lambda>i p. case Patch_DeleteObject p i of Inl _ \<Rightarrow> p | Inr p \<Rightarrow> p) deleted (NewPatch (SnapView snap)))"

definition delete_where_constructor :: "'v ctx \<Rightarrow> (ksuid \<Rightarrow> lerror + ksuid list \<times> 'v dobject list) \<Rightarrow> gostring \<Rightarrow> 'v \<Rightarrow> 'v constructor" where
  "delete_where_constructor cx query author appMeta parent r msg cs = (case query (bc_Commit parent) of
      Inl e \<Rightarrow> Some (msg, cs, Inl e)
    | Inr (deleted, written) \<Rightarrow> with_snapshot cx (bc_Commit parent) msg cs (\<lambda>cs snap.
        if length deleted = 0 then Some (msg, cs, Inl (CommitErr ErrEmptyTransaction))
        else let p = delete_where_patch snap deleted written;
                 found = map (\<lambda>i. case Lookup snap i of Inl _ \<Rightarrow> None | Inr d \<Rightarrow> Some d) deleted;
                 msg = (if msg = [] then deleteWhereMessage (cx_id cx) found (map Some written) else msg)
             in Some (msg, cs, Inr (NewCommitObject p (bc_Commit parent) r (cx_args cx r author msg appMeta)))))"

definition Branch_DeleteWhere :: "'v ctx \<Rightarrow> gostring \<Rightarrow> (ksuid \<Rightarrow> lerror + ksuid list \<times> 'v dobject list) \<Rightarrow> gostring \<Rightarrow> gostring \<Rightarrow> gostring \<Rightarrow>
    'v cenv \<Rightarrow> 'v pool \<Rightarrow> ('v pool \<times> (lerror + ksuid)) option" where
  "Branch_DeleteWhere cx name query author message meta E p = (case loadMeta cx meta of
      Inl e \<Rightarrow> Some (p, Inl e)
    | Inr appMeta \<Rightarrow> branch_commit name (delete_where_constructor cx query author appMeta) E message p)"

subsection \<open>Reverting and compacting\<close>

definition revert_constructor :: "'v ctx \<Rightarrow> ksuid \<Rightarrow> gostring \<Rightarrow> 'v constructor" where
  "revert_constructor cx commit author parent r msg cs = (case PatchOfCommit (cx_fuel cx) commit cs of
      None \<Rightarrow> None
    | Some (cs, Inl _) \<Rightarrow> Some (msg, cs, Inl (CommitNotFound commit))
    | Some (cs, Inr p) \<Rightarrow> with_snapshot cx (bc_Commit parent) msg cs (\<lambda>cs tip.
        let msg = (if msg = [] then str ''reverted commit '' @ cx_id cx commit else msg) in
        (case Patch_Revert p tip (bc_Commit parent) r (cx_args cx r author msg (cx_null cx)) of
           Inl e \<Rightarrow> Some (msg, cs, Inl (CommitErr e))
         | Inr o' \<Rightarrow> Some (msg, cs, Inr o'))))"

definition Branch_Revert :: "'v ctx \<Rightarrow> gostring \<Rightarrow> ksuid \<Rightarrow> gostring \<Rightarrow> gostring \<Rightarrow> 'v cenv \<Rightarrow> 'v pool \<Rightarrow> ('v pool \<times> (lerror + ksuid)) option" where
  "Branch_Revert cx name commit author message E p = branch_commit name (revert_constructor cx commit author) E message p"

fun fold_res :: "('a \<Rightarrow> 'p \<Rightarrow> cerror + 'p) \<Rightarrow> 'a list \<Rightarrow> 'p \<Rightarrow> cerror + 'p" where
  "fold_res f [] p = Inr p"
| "fold_res f (x # xs) p = res_bind (f x p) (fold_res f xs)"

definition compact_patch :: "'v snapshot \<Rightarrow> 'v dobject list \<Rightarrow> 'v dobject list \<Rightarrow> ksuid list \<Rightarrow> cerror + 'v patch" where
  "compact_patch snap src rollup rollupVecs =
     res_bind (fold_res (\<lambda>d p. Patch_AddDataObject p d) rollup (NewPatch (SnapView snap))) (\<lambda>p.
     res_bind (fold_res (\<lambda>i p. Patch_AddVector p i) rollupVecs p) (\<lambda>p.
       fold_res (\<lambda>d p. Patch_DeleteObject p (obj_ID d)) src p))"

definition compact_constructor :: "'v ctx \<Rightarrow> 'v dobject list \<Rightarrow> 'v dobject list \<Rightarrow> ksuid list \<Rightarrow> gostring \<Rightarrow> 'v \<Rightarrow> 'v constructor" where
  "compact_constructor cx src rollup rollupVecs author appMeta parent r msg cs = with_snapshot cx (bc_Commit parent) msg cs (\<lambda>cs snap.
     case compact_patch snap src rollup rollupVecs of
       Inl e \<Rightarrow> Some (msg, cs, Inl (CommitErr e))
     | Inr p \<Rightarrow> let msg = (if msg = [] then compactMessage (cx_id cx) src rollup else msg) in
         Some (msg, cs, Inr (NewCommitObject p (bc_Commit parent) r (cx_args cx r author msg appMeta))))"

definition CommitCompact :: "'v ctx \<Rightarrow> gostring \<Rightarrow> 'v dobject list \<Rightarrow> 'v dobject list \<Rightarrow> ksuid list \<Rightarrow> gostring \<Rightarrow> gostring \<Rightarrow> gostring \<Rightarrow>
    'v cenv \<Rightarrow> 'v pool \<Rightarrow> ('v pool \<times> (lerror + ksuid)) option" where
  "CommitCompact cx name src rollup rollupVecs author message meta E p =
     (if length rollup < 1 then Some (p, Inl NoRollup)
      else case loadMeta cx meta of
        Inl e \<Rightarrow> Some (p, Inl e)
      | Inr appMeta \<Rightarrow> branch_commit name (compact_constructor cx src rollup rollupVecs author appMeta) E message p)"

subsection \<open>Merging\<close>

definition commonAncestor :: "ksuid list \<Rightarrow> ksuid list \<Rightarrow> ksuid" where
  "commonAncestor a b = (case find (\<lambda>i. i \<in> set a) b of Some i \<Rightarrow> i | None \<Rightarrow> 0)"

text \<open>\<open>child\<close> is the configuration of the child branch as it was opened.\<close>

definition buildMergeObject :: "'v ctx \<Rightarrow> bconfig \<Rightarrow> gostring \<Rightarrow> 'v constructor" where
  "buildMergeObject cx child author parent r msg cs = (case Store_Path (cx_fuel cx) (bc_Commit child) cs of
      None \<Rightarrow> None
    | Some (cs, Inl e) \<Rightarrow> Some (msg, cs, Inl (CommitErr e))
    | Some (cs, Inr childPath) \<Rightarrow> (case Store_Path (cx_fuel cx) (bc_Commit parent) cs of
        None \<Rightarrow> None
      | Some (cs, Inl e) \<Rightarrow> Some (msg, cs, Inl (CommitErr e))
      | Some (cs, Inr parentPath) \<Rightarrow>
          let baseID = commonAncestor parentPath childPath in
          if baseID = 0 then Some (msg, cs, Inl NoCommonAncestor)
          else with_snapshot cx baseID msg cs (\<lambda>cs base.
            (case PatchOfPath (cx_fuel cx) base baseID (bc_Commit child) cs of
               None \<Rightarrow> None
             | Some (cs, Inl e) \<Rightarrow> Some (msg, cs, Inl (CommitErr e))
             | Some (cs, Inr childPatch) \<Rightarrow> (case PatchOfPath (cx_fuel cx) base baseID (bc_Commit parent) cs of
                 None \<Rightarrow> None
               | Some (cs, Inl e) \<Rightarrow> Some (msg, cs, Inl (CommitErr e))
               | Some (cs, Inr parentPatch) \<Rightarrow>
                   let msg = (if msg = [] then str ''merged '' @ cx_quote cx (bc_Name child) @ str '' into '' @ cx_quote cx (bc_Name parent) else msg) in
                   (case Diff parentPatch childPatch of
                      Inl e \<Rightarrow> Some (msg, cs, Inl (MergeErr e))
                    | Inr d \<Rightarrow> Some (msg, cs, Inr (NewCommitObject d (bc_Commit parent) r (cx_args cx r author msg (cx_null cx))))))))))"

text \<open>\<open>mergeInto\<close>; \<open>same\<close> tells whether the two branches are the same Go object.\<close>

definition mergeInto :: "'v ctx \<Rightarrow> bool \<Rightarrow> bconfig \<Rightarrow> gostring \<Rightarrow> gostring \<Rightarrow> gostring \<Rightarrow> 'v cenv \<Rightarrow> 'v pool \<Rightarrow> ('v pool \<times> (lerror + ksuid)) option" where
  "mergeInto cx same child parentName author message E p = (if same then Some (p, Inl MergeIntoItself)
     else branch_commit parentName (buildMergeObject cx child author) E message p)"

subsection \<open>Tags and vectors\<close>

text \<open>\<open>LookupTags\<close>; whether a data object exists is an answer of the storage engine.\<close>

fun LookupTags :: "'v ctx \<Rightarrow> (ksuid \<Rightarrow> lerror + bool) \<Rightarrow> ksuid list \<Rightarrow> 'v cstore \<Rightarrow> ('v cstore \<times> (lerror + ksuid list)) option" where
  "LookupTags cx exists [] cs = Some (cs, Inr [])"
| "LookupTags cx exists (tag # tags) cs = (case exists tag of
      Inl e \<Rightarrow> Some (cs, Inl e)
    | Inr True \<Rightarrow> (case LookupTags cx exists tags cs of
        None \<Rightarrow> None | Some (cs, Inl e) \<Rightarrow> Some (cs, Inl e) | Some (cs, Inr is) \<Rightarrow> Some (cs, Inr (tag # is)))
    | Inr False \<Rightarrow> (case PatchOfCommit (cx_fuel cx) tag cs of
        None \<Rightarrow> None
      | Some (cs, Inl _) \<Rightarrow> LookupTags cx exists tags cs
      | Some (cs, Inr p) \<Rightarrow> (case LookupTags cx exists tags cs of
          None \<Rightarrow> None | Some (cs, Inl e) \<Rightarrow> Some (cs, Inl e) | Some (cs, Inr is) \<Rightarrow> Some (cs, Inr (Patch_DataObjects p @ is)))))"

fun check_add_vectors :: "'v snapshot \<Rightarrow> ksuid list \<Rightarrow> lerror option" where
  "check_add_vectors snap [] = None"
| "check_add_vectors snap (i # is) = (if \<not> Snapshot_Exists snap i then Some (NonExistentObject i)
     else if HasVector snap i then Some (VectorExists i) else check_add_vectors snap is)"

definition add_vectors_constructor :: "'v ctx \<Rightarrow> ksuid list \<Rightarrow> gostring \<Rightarrow> 'v constructor" where
  "add_vectors_constructor cx is author parent r msg cs = with_snapshot cx (bc_Commit parent) msg cs (\<lambda>cs snap.
     case check_add_vectors snap is of
       Some e \<Rightarrow> Some (msg, cs, Inl e)
     | None \<Rightarrow> Some (msg, cs, Inr (NewAddVectorsObject (bc_Commit parent) (cx_args cx r author msg (cx_null cx)) is r)))"

text \<open>\<open>AddVectors\<close>; \<open>mk i\<close> is the result of writing the vector file of object \<open>i\<close>.\<close>

definition AddVectors :: "'v ctx \<Rightarrow> (ksuid \<Rightarrow> lerror option) \<Rightarrow> gostring \<Rightarrow> ksuid list \<Rightarrow> gostring \<Rightarrow> gostring \<Rightarrow> 'v cenv \<Rightarrow> 'v pool \<Rightarrow>
    ('v pool \<times> (lerror + ksuid)) option" where
  "AddVectors cx mk name is author message E p =
     (let message = (if message = [] then vectorMessage (cx_id cx) (str ''add'') is else message) in
      case find (\<lambda>i. mk i \<noteq> None) is of
        Some i \<Rightarrow> Some (p, Inl (the (mk i)))
      | None \<Rightarrow> branch_commit name (add_vectors_constructor cx is author) E message p)"

fun check_delete_vectors :: "'v snapshot \<Rightarrow> ksuid list \<Rightarrow> lerror option" where
  "check_delete_vectors snap [] = None"
| "check_delete_vectors snap (i # is) = (if \<not> Snapshot_Exists snap i then Some (NonExistentObject i)
     else if \<not> HasVector snap i then Some (VectorMissing i) else check_delete_vectors snap is)"

definition delete_vectors_constructor :: "'v ctx \<Rightarrow> ksuid list \<Rightarrow> gostring \<Rightarrow> 'v constructor" where
  "delete_vectors_constructor cx is author parent r msg cs = with_snapshot cx (bc_Commit parent) msg cs (\<lambda>cs snap.
     case check_delete_vectors snap is of
       Some e \<Rightarrow> Some (msg, cs, Inl e)
     | None \<Rightarrow> Some (msg, cs, Inr (NewDeleteVectorsObject (bc_Commit parent) (cx_args cx r author msg (cx_null cx)) is r)))"

definition DeleteVectors :: "'v ctx \<Rightarrow> gostring \<Rightarrow> ksuid list \<Rightarrow> gostring \<Rightarrow> gostring \<Rightarrow> 'v cenv \<Rightarrow> 'v pool \<Rightarrow>
    ('v pool \<times> (lerror + ksuid)) option" where
  "DeleteVectors cx name is author message E p =
     (let message = (if message = [] then vectorMessage (cx_id cx) (str ''delete'') is else message) in
      branch_commit name (delete_vectors_constructor cx is author) E message p)"

subsection \<open>Branches of a pool (pool.go)\<close>

definition CreateBranch :: "u64 \<Rightarrow> gostring \<Rightarrow> ksuid \<Rightarrow> bconfig jenv \<Rightarrow> bconfig jenv \<Rightarrow> bconfig jdisk \<Rightarrow> bconfig jdisk \<times> (lerror + bconfig)" where
  "CreateBranch now name parent env env' d = (case Branches_OpenStore d of
      Inl e \<Rightarrow> (d, Inl e)
    | Inr x \<Rightarrow> (case Branches_LookupByName name x of
        (x, Inr _) \<Rightarrow> (snd x, Inl (BranchExists name))
      | (x, Inl _) \<Rightarrow> let c = Branches_NewConfig now name parent in
          (case Branches_Add c env env' x of
             (x, Inl e) \<Rightarrow> (snd x, Inl (JournalErr e))
           | (x, Inr _) \<Rightarrow> (snd x, Inr c))))"

definition CreatePool :: "u64 \<Rightarrow> bconfig jenv \<Rightarrow> bconfig jenv \<Rightarrow> bconfig jdisk \<Rightarrow> bconfig jdisk \<times> (lerror + bconfig)" where
  "CreatePool now env env' d = CreateBranch now (str ''main'') 0 env env' (snd (Branches_CreateStore d))"

definition OpenPool :: "bconfig jdisk \<Rightarrow> (ksuid \<rightharpoonup> 'v fentry list) \<Rightarrow> (ksuid \<rightharpoonup> 'v fentry list) \<Rightarrow> (ksuid \<Rightarrow> ksuid \<Rightarrow> bool) \<Rightarrow> lerror + 'v pool" where
  "OpenPool d files snaps keep = (case Branches_OpenStore d of
      Inl e \<Rightarrow> Inl e | Inr x \<Rightarrow> Inr (x, OpenCommitStore files snaps keep))"

definition removeBranch :: "gostring \<Rightarrow> bconfig jenv \<Rightarrow> bconfig jenv \<Rightarrow> 'v pool \<Rightarrow> 'v pool \<times> (lerror + unit)" where
  "removeBranch name env env' p = (case Branches_LookupByName name (fst p) of
      (x, Inl e) \<Rightarrow> ((x, snd p), Inl e)
    | (x, Inr c) \<Rightarrow> (case Branches_Remove c env env' x of (x, r) \<Rightarrow> ((x, snd p), r)))"

definition LookupBranchByName :: "gostring \<Rightarrow> 'v pool \<Rightarrow> 'v pool \<times> (lerror + bconfig)" where
  "LookupBranchByName name p = (case Branches_LookupByName name (fst p) of (x, r) \<Rightarrow> ((x, snd p), r))"

text \<open>\<open>ResolveRevision\<close>; the parser for commit IDs is an argument.\<close>

definition ResolveRevision :: "(gostring \<Rightarrow> ksuid option) \<Rightarrow> gostring \<Rightarrow> 'v pool \<Rightarrow> 'v pool \<times> (lerror + ksuid)" where
  "ResolveRevision parseID revision p = (case parseID revision of
      Some i \<Rightarrow> (p, Inr i)
    | None \<Rightarrow> (case LookupBranchByName revision p of
        (p, Inl e) \<Rightarrow> (p, Inl e)
      | (p, Inr b) \<Rightarrow> (p, Inr (bc_Commit b))))"

text \<open>
  \<open>Vacuum\<close>: the sequence and seek index files of the objects listed are deleted, unless it is a dry run;
  the result is the list of those whose sequence file was there.
\<close>

record dataFiles =
  df_seq :: "ksuid \<Rightarrow> bool"
  df_seek :: "ksuid \<Rightarrow> bool"

definition Pool_Vacuum :: "nat \<Rightarrow> ksuid \<Rightarrow> bool \<Rightarrow> dataFiles \<Rightarrow> 'v cstore \<Rightarrow> (('v cstore \<times> dataFiles) \<times> (cerror + ksuid list)) option" where
  "Pool_Vacuum n commit dryrun f cs = (case Vacuumable n commit cs of
      None \<Rightarrow> None
    | Some (cs, Inl e) \<Rightarrow> Some ((cs, f), Inl e)
    | Some (cs, Inr out) \<Rightarrow>
        if dryrun then Some ((cs, f), Inr (filter (df_seq f) (map obj_ID out)))
        else case fold (\<lambda>i (f, v). (f\<lparr>df_seq := (df_seq f)(i := False), df_seek := (df_seek f)(i := False)\<rparr>,
                 if df_seq f i then v @ [i] else v)) (map obj_ID out) (f, []) of
               (f, v) \<Rightarrow> Some ((cs, f), Inr v))"

end
