(* ===== verification/Commits_Inv.thy ===== *)
theory Commits_Inv
  imports Commits
begin

text \<open>
  The specification of pool states that snapshots and patches follow: what each action does to the
  objects and vectors of a pool, the interface of writeable views, and its interpretation on snapshots
  and on patches. The last sections compute the commit objects of patches, reverts and merges.
\<close>

subsection \<open>The state of a pool\<close>

text \<open>
  The specification of a view: the objects of the pool by ID, and the IDs of the objects that have a
  vector. An action changes them or does not apply.
\<close>

type_synonym 'v pstate = "(ksuid \<rightharpoonup> 'v dobject) \<times> ksuid set"

primrec aplay :: "'v action \<Rightarrow> 'v pstate \<Rightarrow> 'v pstate option" where
  "aplay (Add c d) st = (if fst st (obj_ID d) = None then Some ((fst st)(obj_ID d \<mapsto> d), snd st) else None)"
| "aplay (AddVector c i) st = (if i \<notin> snd st then Some (fst st, insert i (snd st)) else None)"
| "aplay (Delete c i) st = (if fst st i \<noteq> None then Some ((fst st)(i := None), snd st) else None)"
| "aplay (DeleteVector c i) st = (if i \<in> snd st then Some (fst st, snd st - {i}) else None)"
| "aplay (Commit i) st = Some st"

primrec aplays :: "'v action list \<Rightarrow> 'v pstate \<Rightarrow> 'v pstate option" where
  "aplays [] st = Some st"
| "aplays (a # as) st = Option.bind (aplay a st) (aplays as)"

lemma aplays_append: "aplays (as @ bs) st = Option.bind (aplays as st) (aplays bs)"
  by (induction as arbitrary: st) (auto split: Option.bind_splits)

text \<open>What an action is about, and what it deletes. A list of actions is clean when nothing it deletes is touched again.\<close>

datatype item = Obj ksuid | Vec ksuid

primrec touches :: "'v action \<Rightarrow> item set" where
  "touches (Add c d) = {Obj (obj_ID d)}"
| "touches (AddVector c i) = {Vec i}"
| "touches (Delete c i) = {Obj i}"
| "touches (DeleteVector c i) = {Vec i}"
| "touches (Commit i) = {}"

primrec kills :: "'v action \<Rightarrow> item set" where
  "kills (Add c d) = {}"
| "kills (AddVector c i) = {}"
| "kills (Delete c i) = {Obj i}"
| "kills (DeleteVector c i) = {Vec i}"
| "kills (Commit i) = {}"

primrec clean :: "item set \<Rightarrow> 'v action list \<Rightarrow> bool" where
  "clean D [] = True"
| "clean D (a # as) = (touches a \<inter> D = {} \<and> clean (D \<union> kills a) as)"

lemma clean_mono: "clean D as \<Longrightarrow> D' \<subseteq> D \<Longrightarrow> clean D' as"
proof (induction as arbitrary: D D')
  case (Cons a as)
  then have "clean (D' \<union> kills a) as" by (meson Un_mono clean.simps(2) order_refl)
  then show ?case using Cons.prems by auto
qed simp

subsection \<open>The interface of writeable views\<close>

text \<open>
  A writeable view has a state, a set of items it has deleted but cannot tell from present ones, and
  follows the specification on actions that stay clear of those items.
\<close>

locale writeable =
  fixes ops :: "('w, 'v) writeable_ops"
    and abs :: "'w \<Rightarrow> 'v pstate"
    and inv :: "'w \<Rightarrow> bool"
    and dead :: "'w \<Rightarrow> item set"
  assumes play_law: "inv w \<Longrightarrow> touches a \<inter> dead w = {} \<Longrightarrow> aplay a (abs w) = Some st \<Longrightarrow>
      \<exists>w'. PlayAction ops w a = Inr w' \<and> inv w' \<and> abs w' = st \<and> dead w' \<subseteq> dead w \<union> kills a"
    and reject_law: "inv w \<Longrightarrow> touches a \<inter> dead w = {} \<Longrightarrow> aplay a (abs w) = None \<Longrightarrow>
      \<exists>e. PlayAction ops w a = Inl e"
begin

lemma plays:
  "inv w \<Longrightarrow> clean (dead w) as \<Longrightarrow> aplays as (abs w) = Some st \<Longrightarrow>
   \<exists>w'. play_actions ops as w = Inr w' \<and> inv w' \<and> abs w' = st"
proof (induction as arbitrary: w)
  case (Cons a as)
  then obtain st1 where a: "aplay a (abs w) = Some st1" "aplays as st1 = Some st"
    by (auto split: Option.bind_splits simp: Option.bind_eq_Some_conv)
  obtain w1 where w1: "PlayAction ops w a = Inr w1" "inv w1" "abs w1 = st1" "dead w1 \<subseteq> dead w \<union> kills a"
    using play_law [OF Cons.prems(1) _ a(1)] Cons.prems(2) by auto
  have "clean (dead w1) as" using Cons.prems(2) w1(4) clean_mono by auto
  then show ?case using Cons.IH [OF w1(2)] w1 a(2) by simp
qed simp

lemma rejects:
  "inv w \<Longrightarrow> clean (dead w) as \<Longrightarrow> aplays as (abs w) = None \<Longrightarrow> \<exists>e. play_actions ops as w = Inl e"
proof (induction as arbitrary: w)
  case (Cons a as)
  show ?case
  proof (cases "aplay a (abs w)")
    case None
    then show ?thesis using reject_law [OF Cons.prems(1) _ None] Cons.prems(2) by auto
  next
    case (Some st1)
    obtain w1 where w1: "PlayAction ops w a = Inr w1" "inv w1" "abs w1 = st1" "dead w1 \<subseteq> dead w \<union> kills a"
      using play_law [OF Cons.prems(1) _ Some] Cons.prems(2) by auto
    have "clean (dead w1) as" using Cons.prems(2) w1(4) clean_mono by auto
    then show ?thesis using Cons.IH [OF w1(2)] Cons.prems(3) w1 Some by simp
  qed
qed simp

lemma plays_iff:
  "inv w \<Longrightarrow> clean (dead w) as \<Longrightarrow> (\<exists>w'. play_actions ops as w = Inr w') \<longleftrightarrow> aplays as (abs w) \<noteq> None"
  using plays rejects by (metis Inr_Inl_False option.exhaust)

end

text \<open>A view that forgets what it deletes follows the specification on every list of actions.\<close>

locale exact_view = writeable +
  assumes no_dead: "dead w = {}"
begin

lemma play_step:
  assumes "inv w"
  shows "(\<exists>w' st. PlayAction ops w a = Inr w' \<and> inv w' \<and> aplay a (abs w) = Some st \<and> abs w' = st) \<or>
    (\<exists>e. PlayAction ops w a = Inl e \<and> aplay a (abs w) = None)"
  using play_law [OF assms, of a] reject_law [OF assms, of a] no_dead by (cases "aplay a (abs w)") auto

lemma plays_all:
  "inv w \<Longrightarrow> (\<exists>w'. play_actions ops as w = Inr w' \<and> inv w' \<and> aplays as (abs w) = Some (abs w')) \<or>
    (\<exists>e. play_actions ops as w = Inl e \<and> aplays as (abs w) = None)"
proof (induction as arbitrary: w)
  case (Cons a as)
  from play_step [OF Cons.prems, of a] show ?case
  proof (elim disjE exE conjE)
    fix w1 st
    assume "PlayAction ops w a = Inr w1" "inv w1" "aplay a (abs w) = Some st" "abs w1 = st"
    then show ?thesis using Cons.IH [of w1] by simp
  qed simp
qed simp

lemma plays_Some: "inv w \<Longrightarrow> aplays as (abs w) = Some st \<Longrightarrow> \<exists>w'. play_actions ops as w = Inr w' \<and> inv w' \<and> abs w' = st"
  using plays_all [of w as] by auto

lemma plays_None: "inv w \<Longrightarrow> aplays as (abs w) = None \<Longrightarrow> \<exists>e. play_actions ops as w = Inl e"
  using plays_all [of w as] by auto

lemma plays_Inr: "inv w \<Longrightarrow> play_actions ops as w = Inr w' \<Longrightarrow> inv w' \<and> aplays as (abs w) = Some (abs w')"
  using plays_all [of w as] by auto

end

subsection \<open>Snapshots follow the specification\<close>

definition snap_wf :: "'v snapshot \<Rightarrow> bool" where
  "snap_wf s = (distinct (map fst (objects s)) \<and> (\<forall>(i, d) \<in> set (objects s). obj_ID d = i) \<and> distinct (vectors s))"

definition sabs :: "'v snapshot \<Rightarrow> 'v pstate" where
  "sabs s = (map_of (objects s), set (vectors s))"

lemma map_of_delete: "map_of (AList.delete i xs) = (map_of xs)(i := None)"
  by (rule delete_conv')

lemma snap_wf_new: "snap_wf NewSnapshot" "sabs NewSnapshot = (Map.empty, {})"
  by (simp_all add: snap_wf_def NewSnapshot_def sabs_def)

lemma snap_del:
  assumes "snap_wf s"
  shows "snap_wf (s\<lparr>objects := AList.delete i (objects s)\<rparr>)" and "snap_wf (s\<lparr>vectors := removeAll i (vectors s)\<rparr>)"
  using assms by (auto simp: snap_wf_def distinct_delete AList.delete_eq distinct_removeAll distinct_map_filter)

lemma snap_add:
  assumes "snap_wf s" and "map_of (objects s) (obj_ID d) = None"
  shows "snap_wf (s\<lparr>objects := objects s @ [(obj_ID d, d)]\<rparr>)"
    and "map_of (objects s @ [(obj_ID d, d)]) = (map_of (objects s))(obj_ID d \<mapsto> d)"
  using assms by (auto simp: snap_wf_def map_of_eq_None_iff map_add_upd_left dom_map_of_conv_image_fst)

lemma snap_addv: "snap_wf s \<Longrightarrow> i \<notin> set (vectors s) \<Longrightarrow> snap_wf (s\<lparr>vectors := vectors s @ [i]\<rparr>)"
  by (auto simp: snap_wf_def)

lemmas snap_op_defs = snap_ops_def sabs_def AddDataObject_def DeleteObject_def snap_AddVector_def snap_DeleteVector_def Let_def

interpretation sn: exact_view snap_ops sabs snap_wf "\<lambda>_. {}"
proof
  fix w :: "'v snapshot" and a st
  assume "snap_wf w" and "aplay a (sabs w) = Some st"
  then show "\<exists>w'. PlayAction snap_ops w a = Inr w' \<and> snap_wf w' \<and> sabs w' = st \<and> {} \<subseteq> {} \<union> kills a"
    by (cases a) (auto simp: snap_op_defs snap_del snap_add snap_addv map_of_delete simp del: map_of_append split: if_splits)
next
  fix w :: "'v snapshot" and a
  assume "snap_wf w" and "aplay a (sabs w) = None"
  then show "\<exists>e. PlayAction snap_ops w a = Inl e"
    by (cases a) (auto simp: snap_op_defs split: if_splits)
qed simp

subsection \<open>Patches follow the specification\<close>

text \<open>
  The state of a patch is its base less what it deleted, and its own additions. The items a patch or a
  patch below it deleted are dead: the lookup functions still find them.
\<close>

primrec vabs :: "'v view \<Rightarrow> 'v pstate" and pabs :: "'v patch \<Rightarrow> 'v pstate" where
  "vabs (SnapView s) = sabs s"
| "vabs (PatchView p) = pabs p"
| "pabs (Patch b d dobjs dvecs) = ((fst (vabs b) |` (- set dobjs)) ++ fst (sabs d), (snd (vabs b) - set dvecs) \<union> snd (sabs d))"

primrec vdead :: "'v view \<Rightarrow> item set" and pdead :: "'v patch \<Rightarrow> item set" where
  "vdead (SnapView s) = {}"
| "vdead (PatchView p) = pdead p"
| "pdead (Patch b d dobjs dvecs) = vdead b \<union> Obj ` set dobjs \<union> Vec ` set dvecs"

primrec vinv :: "'v view \<Rightarrow> bool" and pinv :: "'v patch \<Rightarrow> bool" where
  "vinv (SnapView s) = snap_wf s"
| "vinv (PatchView p) = pinv p"
| "pinv (Patch b d dobjs dvecs) = (vinv b \<and> snap_wf d \<and>
     (\<forall>i \<in> dom (fst (sabs d)). \<not> Exists b i) \<and> (\<forall>i \<in> snd (sabs d). \<not> view_HasVector b i) \<and>
     set dobjs \<subseteq> dom (fst (vabs b)) \<and> set dvecs \<subseteq> snd (vabs b) \<and> distinct dobjs \<and> distinct dvecs)"

lemma Lookup_sabs: "Lookup s i = (case fst (sabs s) i of None \<Rightarrow> Inl (ErrNotFound i) | Some d \<Rightarrow> Inr d)"
  by (simp add: Lookup_def sabs_def)

lemma Exists_SnapView: "Exists (SnapView s) i \<longleftrightarrow> i \<in> dom (fst (sabs s))"
  by (auto simp: Exists_def Lookup_sabs split: option.splits)

lemma Snapshot_Exists_iff: "Snapshot_Exists s i \<longleftrightarrow> i \<in> dom (fst (sabs s))"
  by (auto simp: Snapshot_Exists_def Lookup_sabs split: option.splits)

lemma Exists_PatchView: "Exists (PatchView (Patch b d dobjs dvecs)) i \<longleftrightarrow> i \<in> dom (fst (sabs d)) \<or> Exists b i"
  by (auto simp: Exists_def Lookup_sabs split: option.splits sum.splits)

lemma HasVector_sabs: "HasVector s i \<longleftrightarrow> i \<in> snd (sabs s)"
  by (simp add: HasVector_def sabs_def)

text \<open>A lookup finds the items of the view and the dead ones.\<close>

lemma found_iff:
  fixes v :: "'v view" and p :: "'v patch"
  shows "vinv v \<Longrightarrow> (Exists v i \<longleftrightarrow> i \<in> dom (fst (vabs v)) \<or> Obj i \<in> vdead v) \<and>
     (view_HasVector v i \<longleftrightarrow> i \<in> snd (vabs v) \<or> Vec i \<in> vdead v)"
    and "pinv p \<Longrightarrow> (Exists (PatchView p) i \<longleftrightarrow> i \<in> dom (fst (pabs p)) \<or> Obj i \<in> pdead p) \<and>
     (Patch_HasVector p i \<longleftrightarrow> i \<in> snd (pabs p) \<or> Vec i \<in> pdead p)"
proof (induction v and p rule: view.induct patch.induct)
  case (Patch b d dobjs dvecs)
  then show ?case
    by (auto simp: Exists_PatchView HasVector_sabs)
next
  case (PatchView p)
  then show ?case by simp
qed (simp_all add: Exists_SnapView HasVector_sabs)

lemma new_patch:
  assumes "vinv v"
  shows "pinv (NewPatch v)" and "pabs (NewPatch v) = vabs v" and "pdead (NewPatch v) = vdead v"
  using assms by (simp_all add: NewPatch_def snap_wf_new prod_eq_iff restrict_map_def)

lemma patch_add:
  assumes "pinv p" and "Obj (obj_ID d) \<notin> pdead p"
  shows "(case fst (pabs p) (obj_ID d) of
      None \<Rightarrow> \<exists>p'. Patch_AddDataObject p d = Inr p' \<and> pinv p' \<and>
        pabs p' = ((fst (pabs p))(obj_ID d \<mapsto> d), snd (pabs p)) \<and> pdead p' = pdead p
    | Some _ \<Rightarrow> \<exists>e. Patch_AddDataObject p d = Inl e)"
proof (cases p)
  case (Patch b s dobjs dvecs)
  have b: "Exists b (obj_ID d) \<longleftrightarrow> obj_ID d \<in> dom (fst (vabs b))" and n: "obj_ID d \<notin> set dobjs"
    using assms found_iff(1) [of b "obj_ID d"] by (auto simp: Patch)
  show ?thesis
  proof (cases "obj_ID d \<in> dom (fst (vabs b)) \<or> obj_ID d \<in> dom (fst (sabs s))")
    case True
    then have "obj_ID d \<in> dom (fst (pabs p))" "\<exists>e. Patch_AddDataObject p d = Inl e"
      using b n by (auto simp: Patch Patch_AddDataObject_def AddDataObject_def sabs_def Let_def)
    then show ?thesis by (auto split: option.splits)
  next
    case False
    then have "obj_ID d \<notin> dom (fst (pabs p))" and f: "map_of (objects s) (obj_ID d) = None" "\<not> Exists b (obj_ID d)"
      using b by (auto simp: Patch sabs_def)
    then have f1: "fst (pabs p) (obj_ID d) = None" by auto
    define s' where "s' = s\<lparr>objects := objects s @ [(obj_ID d, d)]\<rparr>"
    have s': "snap_wf s'" "sabs s' = ((fst (sabs s))(obj_ID d \<mapsto> d), snd (sabs s))"
      using snap_add [OF _ f(1)] assms(1) by (auto simp: Patch s'_def sabs_def simp del: map_of_append)
    have "Patch_AddDataObject p d = Inr (Patch b s' dobjs dvecs)"
      using f by (simp add: Patch Patch_AddDataObject_def AddDataObject_def s'_def Let_def)
    moreover have "pinv (Patch b s' dobjs dvecs)" using assms(1) s' f(2) by (auto simp: Patch)
    ultimately show ?thesis unfolding f1 using s'(2) by (auto simp: Patch)
  qed
qed

lemma patch_delete:
  assumes "pinv p" and "Obj i \<notin> pdead p"
  shows "(case fst (pabs p) i of
      None \<Rightarrow> \<exists>e. Patch_DeleteObject p i = Inl e
    | Some _ \<Rightarrow> \<exists>p'. Patch_DeleteObject p i = Inr p' \<and> pinv p' \<and>
        pabs p' = ((fst (pabs p))(i := None), snd (pabs p)) \<and> pdead p' \<subseteq> pdead p \<union> {Obj i})"
proof (cases p)
  case (Patch b s dobjs dvecs)
  have b: "Exists b i \<longleftrightarrow> i \<in> dom (fst (vabs b))" and n: "i \<notin> set dobjs"
    using assms found_iff(1) [of b i] by (auto simp: Patch)
  consider (d) "i \<in> dom (fst (sabs s))" | (b) "i \<notin> dom (fst (sabs s))" "i \<in> dom (fst (vabs b))"
    | (no) "i \<notin> dom (fst (sabs s))" "i \<notin> dom (fst (vabs b))" by blast
  then show ?thesis
  proof cases
    case d
    define s' where "s' = s\<lparr>objects := AList.delete i (objects s)\<rparr>"
    have s': "snap_wf s'" "sabs s' = ((fst (sabs s))(i := None), snd (sabs s))"
      using snap_del(1) assms(1) by (auto simp: Patch s'_def sabs_def map_of_delete)
    have "i \<notin> dom (fst (vabs b))" using d assms(1) b by (auto simp: Patch)
    then have "pabs (Patch b s' dobjs dvecs) = ((fst (pabs p))(i := None), snd (pabs p))"
      using s'(2) by (auto simp: Patch fun_eq_iff map_add_def restrict_map_def split: option.splits)
    moreover have "Patch_DeleteObject p i = Inr (Patch b s' dobjs dvecs)"
      using d by (auto simp: Patch Patch_DeleteObject_def Snapshot_Exists_iff DeleteObject_def s'_def sabs_def)
    moreover have "pinv (Patch b s' dobjs dvecs)" using assms(1) s' by (auto simp: Patch)
    moreover have "i \<in> dom (fst (pabs p))" using d by (auto simp: Patch)
    ultimately show ?thesis by (auto simp: Patch split: option.splits)
  next
    case b
    then have "Patch_DeleteObject p i = Inr (Patch b s (dobjs @ [i]) dvecs)"
      using \<open>Exists b i \<longleftrightarrow> i \<in> dom (fst (vabs b))\<close> by (auto simp: Patch Patch_DeleteObject_def Snapshot_Exists_iff)
    moreover have "pabs (Patch b s (dobjs @ [i]) dvecs) = ((fst (pabs p))(i := None), snd (pabs p))"
      using b by (auto simp: Patch fun_eq_iff map_add_def restrict_map_def split: option.splits)
    moreover have "pinv (Patch b s (dobjs @ [i]) dvecs)" using assms(1) b n by (auto simp: Patch)
    moreover have "i \<in> dom (fst (pabs p))" using b n by (auto simp: Patch)
    ultimately show ?thesis by (auto simp: Patch split: option.splits)
  next
    case no
    then have "i \<notin> dom (fst (pabs p))" by (auto simp: Patch)
    then have f: "fst (pabs p) i = None" by auto
    show ?thesis unfolding f using no b by (simp add: Patch Patch_DeleteObject_def Snapshot_Exists_iff)
  qed
qed

lemma patch_addv:
  assumes "pinv p" and "Vec i \<notin> pdead p"
  shows "if i \<in> snd (pabs p) then \<exists>e. Patch_AddVector p i = Inl e
    else \<exists>p'. Patch_AddVector p i = Inr p' \<and> pinv p' \<and> pabs p' = (fst (pabs p), insert i (snd (pabs p))) \<and> pdead p' = pdead p"
proof (cases p)
  case (Patch b s dobjs dvecs)
  have h: "Patch_HasVector p i \<longleftrightarrow> i \<in> snd (pabs p)" using found_iff(2) [OF assms(1)] assms(2) by auto
  have v: "view_HasVector b i \<or> i \<in> snd (sabs s) \<longleftrightarrow> Patch_HasVector p i" by (auto simp: Patch HasVector_sabs)
  show ?thesis
  proof (cases "Patch_HasVector p i")
    case True
    then show ?thesis using h by (auto simp: Patch_AddVector_def)
  next
    case False
    define s' where "s' = s\<lparr>vectors := vectors s @ [i]\<rparr>"
    have n: "i \<notin> set (vectors s)" "\<not> view_HasVector b i" using False v by (auto simp: sabs_def)
    then have s': "snap_wf s'" "sabs s' = (fst (sabs s), insert i (snd (sabs s)))"
      using snap_addv assms(1) by (auto simp: Patch s'_def sabs_def)
    have "Patch_AddVector p i = Inr (Patch b s' dobjs dvecs)"
      using False n by (simp add: Patch Patch_AddVector_def snap_AddVector_def s'_def)
    then show ?thesis using False h s' assms(1) n(2) by (auto simp: Patch)
  qed
qed

lemma patch_delv:
  assumes "pinv p" and "Vec i \<notin> pdead p"
  shows "if i \<notin> snd (pabs p) then \<exists>e. Patch_DeleteVector p i = Inl e
    else \<exists>p'. Patch_DeleteVector p i = Inr p' \<and> pinv p' \<and> pabs p' = (fst (pabs p), snd (pabs p) - {i}) \<and> pdead p' \<subseteq> pdead p \<union> {Vec i}"
proof (cases p)
  case (Patch b s dobjs dvecs)
  have b: "view_HasVector b i \<longleftrightarrow> i \<in> snd (vabs b)" and n: "i \<notin> set dvecs"
    using assms found_iff(1) [of b i] by (auto simp: Patch)
  show ?thesis
  proof (cases "i \<in> snd (sabs s)")
    case True
    define s' where "s' = s\<lparr>vectors := removeAll i (vectors s)\<rparr>"
    have s': "snap_wf s'" "sabs s' = (fst (sabs s), snd (sabs s) - {i})"
      using snap_del(2) assms(1) by (auto simp: Patch s'_def sabs_def)
    have "Patch_DeleteVector p i = Inr (Patch b s' dobjs dvecs)"
      using True by (auto simp: Patch Patch_DeleteVector_def HasVector_def snap_DeleteVector_def s'_def sabs_def)
    moreover have "i \<notin> snd (vabs b)" using True assms(1) b by (auto simp: Patch)
    ultimately show ?thesis using True s' assms(1) by (auto simp: Patch)
  next
    case False
    show ?thesis
    proof (cases "i \<in> snd (vabs b)")
      case True
      then have "Patch_DeleteVector p i = Inr (Patch b s dobjs (dvecs @ [i]))"
        using b False by (simp add: Patch Patch_DeleteVector_def HasVector_sabs)
      then show ?thesis using True False n assms(1) by (auto simp: Patch)
    qed (use b False in \<open>auto simp: Patch Patch_DeleteVector_def HasVector_sabs\<close>)
  qed
qed

interpretation pt: writeable patch_ops pabs pinv pdead
proof
  fix p :: "'v patch" and a st
  assume p: "pinv p" "touches a \<inter> pdead p = {}" "aplay a (pabs p) = Some st"
  then show "\<exists>p'. PlayAction patch_ops p a = Inr p' \<and> pinv p' \<and> pabs p' = st \<and> pdead p' \<subseteq> pdead p \<union> kills a"
    using patch_add [OF p(1)] patch_delete [OF p(1)] patch_addv [OF p(1)] patch_delv [OF p(1)]
    by (cases a) (fastforce simp: patch_ops_def split: if_splits)+
next
  fix p :: "'v patch" and a
  assume p: "pinv p" "touches a \<inter> pdead p = {}" "aplay a (pabs p) = None"
  then show "\<exists>e. PlayAction patch_ops p a = Inl e"
    using patch_add [OF p(1)] patch_delete [OF p(1)] patch_addv [OF p(1)] patch_delv [OF p(1)]
    by (cases a) (fastforce simp: patch_ops_def split: if_splits)+
qed

subsection \<open>The actions of the commit objects\<close>

lemma append_folds:
  "co_Actions (fold appendAdd ds o') = co_Actions o' @ map (Add (co_Commit o')) ds"
  "co_Actions (fold appendDelete is o') = co_Actions o' @ map (Delete (co_Commit o')) is"
  "co_Actions (fold appendAddVector is o') = co_Actions o' @ map (AddVector (co_Commit o')) is"
  "co_Actions (fold appendDeleteVector is o') = co_Actions o' @ map (DeleteVector (co_Commit o')) is"
  by (induction ds arbitrary: o', simp_all add: appendAdd_def co_append_def,
      induction "is" arbitrary: o', simp_all add: appendDelete_def co_append_def,
      induction "is" arbitrary: o', simp_all add: appendAddVector_def co_append_def,
      induction "is" arbitrary: o', simp_all add: appendDeleteVector_def co_append_def)

lemma append_folds_commit:
  "co_Commit (fold appendAdd ds o') = co_Commit o'" "co_Parent (fold appendAdd ds o') = co_Parent o'"
  "co_Commit (fold appendDelete is o') = co_Commit o'" "co_Parent (fold appendDelete is o') = co_Parent o'"
  "co_Commit (fold appendAddVector is o') = co_Commit o'" "co_Parent (fold appendAddVector is o') = co_Parent o'"
  "co_Commit (fold appendDeleteVector is o') = co_Commit o'" "co_Parent (fold appendDeleteVector is o') = co_Parent o'"
  by (induction ds arbitrary: o', simp_all add: appendAdd_def co_append_def,
      induction ds arbitrary: o', simp_all add: appendAdd_def co_append_def,
      induction "is" arbitrary: o', simp_all add: appendDelete_def co_append_def,
      induction "is" arbitrary: o', simp_all add: appendDelete_def co_append_def,
      induction "is" arbitrary: o', simp_all add: appendAddVector_def co_append_def,
      induction "is" arbitrary: o', simp_all add: appendAddVector_def co_append_def,
      induction "is" arbitrary: o', simp_all add: appendDeleteVector_def co_append_def,
      induction "is" arbitrary: o', simp_all add: appendDeleteVector_def co_append_def)

lemma NewObject_fields [simp]:
  "co_Commit (NewObject parent a n) = ca_commit a" "co_Parent (NewObject parent a n) = parent"
  "\<exists>i. co_Actions (NewObject parent a n) = [Commit i] \<and> ci_ID i = ca_commit a \<and> ci_Parent i = parent"
  by (simp_all add: NewObject_def co_append_def)

lemma aplays_new [simp]:
  "aplays (co_Actions (NewObject parent a n)) st = Some st"
  "length (co_Actions (NewObject parent a n)) = 1"
  by (simp_all add: NewObject_def co_append_def)

lemma aplays_deletes:
  "aplays (map (Delete c) is) st =
     (if distinct is \<and> set is \<subseteq> dom (fst st) then Some (fst st |` (- set is), snd st) else None)"
proof (induction "is" arbitrary: st)
  case (Cons i "is")
  have "fst st |` (- {i}) |` (- set is) = fst st |` (- insert i (set is))" by (simp add: restrict_map_def fun_eq_iff)
  moreover have "(fst st)(i := None) = fst st |` (- {i})" by (auto simp: restrict_map_def fun_eq_iff)
  ultimately show ?case using Cons.IH by (auto simp: domIff)
qed (simp add: restrict_map_def)

lemma aplays_delete_vectors:
  "aplays (map (DeleteVector c) is) st =
     (if distinct is \<and> set is \<subseteq> snd st then Some (fst st, snd st - set is) else None)"
  by (induction "is" arbitrary: st) auto

lemma aplays_add_vectors:
  "aplays (map (AddVector c) is) st =
     (if distinct is \<and> set is \<inter> snd st = {} then Some (fst st, snd st \<union> set is) else None)"
  by (induction "is" arbitrary: st) auto

lemma aplays_adds:
  assumes "distinct (map fst xs)" and "\<forall>(i, d) \<in> set xs. obj_ID d = i" and "fst ` set xs \<inter> dom (fst st) = {}"
  shows "aplays (map (Add c) (map snd xs)) st = Some (fst st ++ map_of xs, snd st)"
  using assms
proof (induction xs arbitrary: st)
  case (Cons x xs)
  obtain i d where x: "x = (i, d)" by (cases x)
  have "fst ` set xs \<inter> dom (fst ((fst st)(i \<mapsto> d), snd st)) = {}" using Cons.prems x by auto
  then have "aplays (map (Add c) (map snd xs)) ((fst st)(i \<mapsto> d), snd st) = Some ((fst st)(i \<mapsto> d) ++ map_of xs, snd st)"
    using Cons.IH [of "((fst st)(i \<mapsto> d), snd st)"] Cons.prems(1,2) by (simp del: fun_upd_apply)
  moreover have "map_of xs i = None" using Cons.prems(1) x by (simp add: map_of_eq_None_iff)
  then have "(fst st)(i \<mapsto> d) ++ map_of xs = fst st ++ map_of (x # xs)"
    using x by (auto simp: fun_eq_iff map_add_def split: option.splits)
  moreover have "fst st i = None" using Cons.prems(3) x by auto
  ultimately show ?case using Cons.prems(2) x by (simp del: map_of.simps)
qed simp

subsection \<open>Turning a patch into a commit\<close>

lemma commit_actions:
  "co_Actions (NewCommitObject p parent n a) = co_Actions (NewObject parent a n)
     @ map (Delete (ca_commit a)) (deletedObjects p) @ map (Add (ca_commit a)) (map snd (objects (diff p)))
     @ map (DeleteVector (ca_commit a)) (deletedVectors p) @ map (AddVector (ca_commit a)) (vectors (diff p))"
  by (simp add: NewCommitObject_def append_folds append_folds_commit)

text \<open>The commit object of a patch takes the state of the base to the state of the patch.\<close>

lemma commit_object_aplays:
  assumes "pinv p"
  shows "aplays (co_Actions (NewCommitObject p parent n a)) (vabs (base p)) = Some (pabs p)"
proof (cases p)
  case (Patch b d dobjs dvecs)
  have wf: "snap_wf d" and b: "vinv b" and dd: "distinct dobjs" "distinct dvecs"
    "set dobjs \<subseteq> dom (fst (vabs b))" "set dvecs \<subseteq> snd (vabs b)"
    and o: "\<forall>i \<in> dom (fst (sabs d)). \<not> Exists b i" and v: "\<forall>i \<in> snd (sabs d). \<not> view_HasVector b i"
    using assms by (simp_all add: Patch)
  have "fst ` set (objects d) \<inter> dom (fst (vabs b) |` (- set dobjs)) = {}"
  proof -
    have "fst (vabs b) i = None" if "i \<in> fst ` set (objects d)" for i
      using o found_iff(1) [OF b, of i] that by (auto simp: sabs_def dom_map_of_conv_image_fst [symmetric])
    then show ?thesis by (simp add: disjoint_iff domIff restrict_map_def)
  qed
  then have adds: "aplays (map (Add (ca_commit a)) (map snd (objects d))) (fst (vabs b) |` (- set dobjs), snd (vabs b)) =
      Some ((fst (vabs b) |` (- set dobjs)) ++ fst (sabs d), snd (vabs b))"
    using aplays_adds [of "objects d" "(fst (vabs b) |` (- set dobjs), snd (vabs b))"] wf
    by (simp add: snap_wf_def sabs_def)
  have vecs: "set (vectors d) \<inter> (snd (vabs b) - set dvecs) = {}"
    using v found_iff(1) [OF b] by (auto simp: sabs_def)
  have "aplays (map (Delete (ca_commit a)) dobjs) (vabs b) = Some (fst (vabs b) |` (- set dobjs), snd (vabs b))"
    using dd by (simp add: aplays_deletes)
  moreover have "aplays (map (DeleteVector (ca_commit a)) dvecs) (m, snd (vabs b)) = Some (m, snd (vabs b) - set dvecs)" for m :: "ksuid \<rightharpoonup> 'a dobject"
    using dd by (simp add: aplays_delete_vectors)
  moreover have "aplays (map (AddVector (ca_commit a)) (vectors d)) (m, snd (vabs b) - set dvecs) =
      Some (m, (snd (vabs b) - set dvecs) \<union> set (vectors d))" for m :: "ksuid \<rightharpoonup> 'a dobject"
    using wf vecs by (simp add: aplays_add_vectors snap_wf_def)
  ultimately show ?thesis
    unfolding commit_actions by (simp add: Patch aplays_append adds sabs_def del: map_map)
qed

subsection \<open>Reverting\<close>

abbreviation ids :: "'v snapshot \<Rightarrow> ksuid set" where
  "ids s \<equiv> dom (map_of (objects s))"

lemma fst_sabs: "fst (sabs s) = map_of (objects s)" "snd (sabs s) = set (vectors s)"
  by (simp_all add: sabs_def)

lemma obj_ID_of: "snap_wf s \<Longrightarrow> map_of (objects s) i = Some d \<Longrightarrow> obj_ID d = i"
  by (auto simp: snap_wf_def dest: map_of_SomeD)

lemma SelectAll_ids: "snap_wf s \<Longrightarrow> map obj_ID (SelectAll s) = map fst (objects s)"
  by (auto simp: snap_wf_def SelectAll_def)

text \<open>What a patch on a snapshot has added and deleted, seen from the two states.\<close>

lemma patch_changes:
  assumes "pinv p" and "base p = SnapView b" and "pabs p = sabs s"
  shows "ids (diff p) = ids s - ids b" and "set (deletedObjects p) = ids b - ids s"
    and "snap_wf (diff p)" and "snap_wf b" and "distinct (deletedObjects p)"
proof -
  obtain d dobjs dvecs where p: "p = Patch (SnapView b) d dobjs dvecs" using assms(2) by (cases p) auto
  have s: "map_of (objects s) = (map_of (objects b) |` (- set dobjs)) ++ map_of (objects d)"
    using assms(3) by (simp add: p sabs_def)
  have "ids d \<inter> ids b = {}" "set dobjs \<subseteq> ids b" using assms(1) by (auto simp: p Exists_SnapView fst_sabs)
  then show "ids (diff p) = ids s - ids b" "set (deletedObjects p) = ids b - ids s" unfolding s by (auto simp: p)
  show "snap_wf (diff p)" "snap_wf b" "distinct (deletedObjects p)" using assms(1) by (simp_all add: p)
qed

lemma revert_deletes:
  "fold (\<lambda>d o'. if Exists (SnapView tip) (obj_ID d) then appendDelete (obj_ID d) o' else o') ds o' =
   fold appendDelete (filter (\<lambda>i. i \<in> ids tip) (map obj_ID ds)) o'"
  by (induction ds arbitrary: o') (simp_all add: Exists_SnapView fst_sabs)

lemma revert_adds_eq:
  assumes "snap_wf b" and "set is \<subseteq> ids b"
  shows "revert_adds (SnapView b) tip is o' =
    Inr (fold appendAdd (map (\<lambda>i. the (map_of (objects b) i)) (filter (\<lambda>i. i \<notin> ids tip) is)) o')"
  using assms(2)
proof (induction "is" arbitrary: o')
  case (Cons i "is")
  then obtain d where "map_of (objects b) i = Some d" by auto
  then show ?case using Cons obj_ID_of [OF assms(1)] by (simp add: Lookup_def Exists_SnapView fst_sabs)
qed simp

lemma revert_plays:
  assumes "pinv p" and "base p = SnapView b" and "pabs p = sabs s" and "snap_wf tip"
    and o': "Patch_Revert p tip parent n a = Inr o'"
  shows "aplays (co_Actions o') (sabs tip) = Some (\<lambda>i.
      if i \<in> ids s - ids b then None
      else if i \<in> ids b - ids s \<and> i \<notin> ids tip then map_of (objects b) i else map_of (objects tip) i, set (vectors tip))"
proof -
  note ch = patch_changes [OF assms(1-3)]
  define ds where "ds = filter (\<lambda>i. i \<in> ids tip) (map fst (objects (diff p)))"
  define xs where "xs = map (\<lambda>i. (i, the (map_of (objects b) i))) (filter (\<lambda>i. i \<notin> ids tip) (deletedObjects p))"
  have o1: "co_Actions o' = co_Actions (NewObject parent a n) @ map (Delete (ca_commit a)) ds @ map (Add (ca_commit a)) (map snd xs)"
    using o' ch by (auto simp: Patch_Revert_def Let_def revert_deletes SelectAll_ids revert_adds_eq assms(2) append_folds
        append_folds_commit ds_def xs_def comp_def split: if_splits)
  have ds: "distinct ds" "set ds = (ids s - ids b) \<inter> ids tip"
    using ch(1,3) by (auto simp: ds_def snap_wf_def dom_map_of_conv_image_fst)
  have mx: "map_of xs i = (if i \<in> ids b - ids s \<and> i \<notin> ids tip then map_of (objects b) i else None)" for i
    using ch(2) by (auto simp: xs_def map_of_map_restrict restrict_map_def)
  have "aplays (map (Add (ca_commit a)) (map snd xs)) (map_of (objects tip) |` (- set ds), set (vectors tip)) =
      Some (map_of (objects tip) |` (- set ds) ++ map_of xs, set (vectors tip))"
  proof -
    have "distinct (map fst xs)" using ch(5) by (simp add: xs_def comp_def)
    moreover have "\<forall>(i, d) \<in> set xs. obj_ID d = i" using ch(2) obj_ID_of [OF ch(4)] by (auto simp: xs_def)
    moreover have "fst ` set xs \<inter> dom (map_of (objects tip) |` (- set ds)) = {}" by (auto simp: xs_def)
    ultimately show ?thesis using aplays_adds [of xs "(map_of (objects tip) |` (- set ds), set (vectors tip))"] by simp
  qed
  moreover have "aplays (map (Delete (ca_commit a)) ds) (sabs tip) = Some (map_of (objects tip) |` (- set ds), set (vectors tip))"
    using ds by (simp add: aplays_deletes fst_sabs)
  ultimately have "aplays (co_Actions o') (sabs tip) = Some (map_of (objects tip) |` (- set ds) ++ map_of xs, set (vectors tip))"
    unfolding o1 by (simp add: aplays_append del: map_map)
  moreover have "map_of (objects tip) |` (- set ds) ++ map_of xs = (\<lambda>i. if i \<in> ids s - ids b then None
      else if i \<in> ids b - ids s \<and> i \<notin> ids tip then map_of (objects b) i else map_of (objects tip) i)"
    by (auto simp: fun_eq_iff map_add_def mx ds(2) restrict_map_def split: option.splits)
  ultimately show ?thesis by simp
qed

lemma revert_error:
  assumes "pinv p" and "base p = SnapView b" and "pabs p = sabs s" and "Patch_Revert p tip parent n a = Inl e"
  shows "e = RevertEmpty \<and> (ids s - ids b) \<inter> ids tip = {} \<and> ids b - ids s \<subseteq> ids tip"
proof -
  note ch = patch_changes [OF assms(1-3)]
  have "length (filter (\<lambda>i. i \<in> ids tip) (map fst (objects (diff p)))) + length (filter (\<lambda>i. i \<notin> ids tip) (deletedObjects p)) = 0 \<and> e = RevertEmpty"
    using assms(4) ch by (simp add: Patch_Revert_def Let_def revert_deletes SelectAll_ids revert_adds_eq assms(2) append_folds
        append_folds_commit split: if_splits)
  then have "e = RevertEmpty" "\<forall>i \<in> ids (diff p). i \<notin> ids tip" "set (deletedObjects p) \<subseteq> ids tip"
    by (auto simp: filter_empty_conv dom_map_of_conv_image_fst)
  then show ?thesis using ch(1,2) by auto
qed

subsection \<open>Merging\<close>

lemma SelectAll_snap: "objects s = map (\<lambda>d. (obj_ID d, d)) (SelectAll s)" if "snap_wf s"
  using that by (auto simp: snap_wf_def SelectAll_def comp_def intro!: map_idI [symmetric])

lemma diff_adds_skip:
  "\<forall>d \<in> set ds. Exists (PatchView parent) (obj_ID d) \<Longrightarrow> diff_adds parent del (ds @ es) x = diff_adds parent del es x"
  by (cases x, induction ds) auto

lemma diff_adds_eq:
  assumes "\<forall>d \<in> set ds. obj_ID d \<notin> set del" and "distinct (map obj_ID ds)"
    and "\<forall>d \<in> set ds. map_of (objects s) (obj_ID d) = None"
  shows "diff_adds parent del ds (Patch (PatchView parent) s [] [], dirty) =
    (let es = filter (\<lambda>d. \<not> Exists (PatchView parent) (obj_ID d)) ds in
     Inr (Patch (PatchView parent) (s\<lparr>objects := objects s @ map (\<lambda>d. (obj_ID d, d)) es\<rparr>) [] [], dirty \<or> es \<noteq> []))"
  using assms
proof (induction ds arbitrary: s dirty)
  case (Cons d ds)
  show ?case
  proof (cases "Exists (PatchView parent) (obj_ID d)")
    case False
    define s1 where "s1 = s\<lparr>objects := objects s @ [(obj_ID d, d)]\<rparr>"
    have "Patch_AddDataObject (Patch (PatchView parent) s [] []) d = Inr (Patch (PatchView parent) s1 [] [])"
      using False Cons.prems(3) by (simp add: Patch_AddDataObject_def AddDataObject_def s1_def Let_def)
    moreover have "\<forall>d \<in> set ds. map_of (objects s1) (obj_ID d) = None"
    proof
      fix x assume x: "x \<in> set ds"
      then have "obj_ID x \<noteq> obj_ID d" using Cons.prems(2) by (metis distinct.simps(2) image_eqI list.set_map list.simps(9))
      then show "map_of (objects s1) (obj_ID x) = None" using Cons.prems(3) x by (simp add: s1_def map_add_def)
    qed
    ultimately show ?thesis using Cons.IH [of s1 True] Cons.prems False by (simp add: s1_def Let_def)
  qed (use Cons in simp)
qed simp

lemma diff_deletes_eq:
  assumes "\<forall>i \<in> set is. Exists (PatchView parent) i \<and> map_of (objects s) i = None"
  shows "diff_deletes parent is (Patch (PatchView parent) s ks [], dirty) =
    Inr (Patch (PatchView parent) s (ks @ is) [], dirty \<or> is \<noteq> [])"
  using assms
proof (induction "is" arbitrary: ks dirty)
  case (Cons i "is")
  then have "Patch_DeleteObject (Patch (PatchView parent) s ks []) i = Inr (Patch (PatchView parent) s (ks @ [i]) [])"
    by (simp add: Patch_DeleteObject_def Snapshot_Exists_iff fst_sabs domIff)
  then show ?case using Cons by simp
qed simp

text \<open>\<open>Diff\<close> of two patches on one snapshot: the child's additions the parent does not have, and all its deletes.\<close>

definition merge_adds :: "'v patch \<Rightarrow> 'v patch \<Rightarrow> 'v snapshot" where
  "merge_adds parent child = \<lparr>objects = filter (\<lambda>(i, d). i \<notin> ids (diff parent)) (objects (diff child)), vectors = []\<rparr>"

lemma Diff_eq:
  assumes "pinv parent" and "base parent = SnapView b" and "pinv child" and "base child = SnapView b"
  shows "Diff parent child =
    (if objects (merge_adds parent child) = [] \<and> deletedObjects child = [] then Inl DiffEmpty
     else Inr (Patch (PatchView parent) (merge_adds parent child) (deletedObjects child) []))"
proof -
  obtain d dobjs dvecs where p: "parent = Patch (SnapView b) d dobjs dvecs" using assms(2) by (cases parent) auto
  obtain d' dobjs' dvecs' where c: "child = Patch (SnapView b) d' dobjs' dvecs'" using assms(4) by (cases child) auto
  have wf: "snap_wf b" "snap_wf d'" and dis: "ids d' \<inter> ids b = {}" "set dobjs' \<subseteq> ids b"
    using assms(3) by (auto simp: c Exists_SnapView fst_sabs)
  have ex: "Exists (PatchView parent) i \<longleftrightarrow> i \<in> ids d \<or> i \<in> ids b" for i
    by (simp add: p Exists_PatchView Exists_SnapView fst_sabs)
  have inb: "\<forall>x \<in> set (SelectAll b). Exists (PatchView parent) (obj_ID x)"
    using SelectAll_ids [OF wf(1)] ex by (metis (no_types, lifting) dom_map_of_conv_image_fst image_eqI list.set_map)
  have dd: "\<forall>x \<in> set (SelectAll d'). obj_ID x \<in> ids d'"
    using SelectAll_ids [OF wf(2)] by (metis (no_types, lifting) dom_map_of_conv_image_fst image_eqI list.set_map)
  define es where "es = filter (\<lambda>x. \<not> Exists (PatchView parent) (obj_ID x)) (SelectAll d')"
  have es: "map (\<lambda>x. (obj_ID x, x)) es = objects (merge_adds parent child)"
  proof -
    have "es = filter (\<lambda>x. obj_ID x \<notin> ids d) (SelectAll d')"
      unfolding es_def using dd dis ex by (intro filter_cong) auto
    then show ?thesis
      by (simp add: merge_adds_def p c SelectAll_snap [OF wf(2)] filter_map comp_def)
  qed
  have "diff_adds parent dobjs' (SelectAll b @ SelectAll d') (NewPatch (PatchView parent), False) =
      Inr (Patch (PatchView parent) (merge_adds parent child) [] [], es \<noteq> [])"
  proof -
    have "\<forall>x \<in> set (SelectAll d'). obj_ID x \<notin> set dobjs'" using dd dis by blast
    moreover have "distinct (map obj_ID (SelectAll d'))" using SelectAll_ids [OF wf(2)] wf(2) by (simp add: snap_wf_def)
    moreover have "merge_adds parent child = \<lparr>objects = map (\<lambda>x. (obj_ID x, x)) es, vectors = []\<rparr>"
      unfolding es by (simp add: merge_adds_def)
    ultimately show ?thesis
      using diff_adds_eq [of "SelectAll d'" dobjs' NewSnapshot parent False]
      by (simp add: diff_adds_skip [OF inb] NewPatch_def NewSnapshot_def es_def [symmetric])
  qed
  moreover have "\<forall>i \<in> set dobjs'. Exists (PatchView parent) i \<and> map_of (objects (merge_adds parent child)) i = None"
  proof
    fix i assume "i \<in> set dobjs'"
    then have i: "i \<in> ids b" "map_of (objects d') i = None" using dis by auto
    then have "map_of (objects (merge_adds parent child)) i = None"
      by (simp add: merge_adds_def c map_of_eq_None_iff) force
    then show "Exists (PatchView parent) i \<and> map_of (objects (merge_adds parent child)) i = None" using i(1) ex by simp
  qed
  ultimately have "Diff parent child = (if es \<noteq> [] \<or> dobjs' \<noteq> [] then Inr (Patch (PatchView parent) (merge_adds parent child) dobjs' []) else Inl DiffEmpty)"
    by (simp add: Diff_def c diff_deletes_eq)
  moreover have "es = [] \<longleftrightarrow> objects (merge_adds parent child) = []" unfolding es [symmetric] by simp
  moreover have "deletedObjects child = dobjs'" by (simp add: c)
  ultimately show ?thesis by auto
qed

end
