(* ===== verification/Commits_Patch.thy ===== *)
theory Commits_Patch
  imports Commits_Inv
begin

text \<open>
  Properties of patches: a patch squashes a history into one commit, reverting undoes a commit, and
  merging carries the changes of one branch to another; with the two cases in which the code fails to.
\<close>

subsection \<open>Properties of patches\<close>

text \<open>Playing clean actions into a patch on a snapshot.\<close>

lemma play_patch:
  assumes "snap_wf b" and "clean {} as" and "play_actions snap_ops as b = Inr s"
  obtains p where "play_actions patch_ops as (NewPatch (SnapView b)) = Inr p" and "pinv p" and "pabs p = sabs s" and "base p = SnapView b"
proof -
  have v: "vinv (SnapView b)" using assms(1) by simp
  obtain p where p: "play_actions patch_ops as (NewPatch (SnapView b)) = Inr p" "pinv p" "pabs p = sabs s"
    using pt.plays [OF new_patch(1) [OF v], of as "sabs s"] new_patch [OF v] assms sn.plays_Inr [OF assms(1,3)] by auto
  have "base q' = base q" if "play_actions patch_ops as q = Inr q'" for q q' :: "'a patch"
    using that
  proof (induction as arbitrary: q)
    case (Cons a as)
    then obtain q1 where q1: "PlayAction patch_ops q a = Inr q1" "play_actions patch_ops as q1 = Inr q'"
      by (auto simp: res_bind_Inr_iff)
    have "base q1 = base q"
      using q1(1) by (cases a) (auto simp: patch_ops_def Patch_AddDataObject_def Patch_DeleteObject_def
          Patch_AddVector_def Patch_DeleteVector_def res_bind_Inr_iff split: if_splits)
    then show ?case using Cons.IH [OF q1(2)] by simp
  qed simp
  then show ?thesis using p that by (fastforce simp: NewPatch_def)
qed

text \<open>
  C26: A patch squashes a history in which nothing that was deleted is touched again. Commits with such
  actions that, played on a snapshot, give another snapshot can be played into a patch on the first one, and
  the single commit object made of that patch takes the first snapshot to the objects and vectors of the
  second. (A history that deletes an object and adds it again plays on a snapshot but is refused by a
  patch, see \<open>patch_rejects_readded_object\<close>.) \<close>

theorem patch_squashes:
  assumes "snap_wf b" and "clean {} as" and "play_actions snap_ops as b = Inr s"
  shows "\<exists>p s'. play_actions patch_ops as (NewPatch (SnapView b)) = Inr p \<and>
    Play snap_ops b (NewCommitObject p parent n a) = Inr s' \<and>
    map_of (objects s') = map_of (objects s) \<and> set (vectors s') = set (vectors s) \<and> snap_wf s'"
proof -
  obtain p where p: "play_actions patch_ops as (NewPatch (SnapView b)) = Inr p" "pinv p" "pabs p = sabs s" "base p = SnapView b"
    using play_patch [OF assms] .
  obtain s' where "Play snap_ops b (NewCommitObject p parent n a) = Inr s'" "snap_wf s'" "sabs s' = sabs s"
    using sn.plays_Some [OF assms(1), of "co_Actions (NewCommitObject p parent n a)" "sabs s"]
      commit_object_aplays [OF p(2), of parent n a] p(3,4) by (auto simp: Play_def)
  then show ?thesis using p(1) by (auto simp: sabs_def)
qed

definition obj :: "ksuid \<Rightarrow> nat dobject" where
  "obj i = \<lparr>obj_ID = i, obj_Min = 0, obj_Max = 9, obj_Count = 10, obj_Size = 100\<rparr>"

definition cargs :: "ksuid \<Rightarrow> nat commit_args" where
  "cargs c = \<lparr>ca_commit = c, ca_now = 0, ca_author = str ''a'', ca_message = str ''m'', ca_meta = 0\<rparr>"

definition snap_of :: "ksuid list \<Rightarrow> nat snapshot" where
  "snap_of is = \<lparr>objects = map (\<lambda>i. (i, obj i)) is, vectors = []\<rparr>"

lemma obj_ID_obj [simp]: "obj_ID (obj i) = i" by (simp add: obj_def)

lemma snap_wf_of: "distinct is \<Longrightarrow> snap_wf (snap_of is)"
  by (auto simp: snap_wf_def snap_of_def comp_def)

lemmas snap_run = snap_ops_def AddDataObject_def DeleteObject_def snap_AddVector_def snap_DeleteVector_def snap_of_def Let_def
  AList.delete_eq

theorem patch_squashes_witness:
  "\<exists>p s'. play_actions patch_ops [Delete 7 1, Add 7 (obj 3), AddVector 7 2] (NewPatch (SnapView (snap_of [1, 2]))) = Inr p \<and>
    Play snap_ops (snap_of [1, 2]) (NewCommitObject p 5 0 (cargs 9)) = Inr s' \<and>
    map_of (objects s') = map_of [(2, obj 2), (3, obj 3)] \<and> set (vectors s') = {2}"
  using patch_squashes [of "snap_of [1, 2]" "[Delete 7 1, Add 7 (obj 3), AddVector 7 2]"
      "\<lparr>objects = [(2, obj 2), (3, obj 3)], vectors = [2]\<rparr>" 5 0 "cargs 9"] snap_wf_of [of "[1, 2]"]
  by (auto simp: snap_run)

text \<open>
  C28: Reverting undoes a commit. Let a commit take snapshot \<open>b\<close> to \<open>s\<close>. Its revert object, played
  on any later snapshot, removes the objects the commit had added, puts back those it had deleted unless
  they are there, and leaves all other objects and the vectors alone; when there is nothing to remove or
  put back the revert is refused. Reverting the latest commit gives back the objects of \<open>b\<close>. \<close>

theorem revert_undoes:
  assumes "snap_wf b" and "snap_wf tip" and "clean {} as" and "play_actions snap_ops as b = Inr s"
  shows "\<exists>p. play_actions patch_ops as (NewPatch (SnapView b)) = Inr p \<and>
    (case Patch_Revert p tip parent n a of
      Inl e \<Rightarrow> e = RevertEmpty \<and> (ids s - ids b) \<inter> ids tip = {} \<and> ids b - ids s \<subseteq> ids tip
    | Inr o' \<Rightarrow> \<exists>s'. Play snap_ops tip o' = Inr s' \<and> set (vectors s') = set (vectors tip) \<and>
        map_of (objects s') = (\<lambda>i. if i \<in> ids s - ids b then None
          else if i \<in> ids b - ids s \<and> i \<notin> ids tip then map_of (objects b) i else map_of (objects tip) i))"
proof -
  obtain p where p: "play_actions patch_ops as (NewPatch (SnapView b)) = Inr p" "pinv p" "pabs p = sabs s" "base p = SnapView b"
    using play_patch [OF assms(1,3,4)] .
  show ?thesis
  proof (cases "Patch_Revert p tip parent n a")
    case (Inl e)
    then show ?thesis using p revert_error [OF p(2,4,3) Inl] by auto
  next
    case (Inr o')
    obtain s' where "Play snap_ops tip o' = Inr s'" "sabs s' = (\<lambda>i. if i \<in> ids s - ids b then None
          else if i \<in> ids b - ids s \<and> i \<notin> ids tip then map_of (objects b) i else map_of (objects tip) i, set (vectors tip))"
      using sn.plays_Some [OF assms(2) revert_plays [OF p(2,4,3) assms(2) Inr]] by (auto simp: Play_def)
    then show ?thesis using p(1) Inr by (auto simp: sabs_def)
  qed
qed

theorem revert_undoes_witness:
  "\<exists>p o' s'. play_actions patch_ops [Delete 7 1, Add 7 (obj 3)] (NewPatch (SnapView (snap_of [1, 2]))) = Inr p \<and>
    Patch_Revert p (snap_of [2, 3, 4]) 5 0 (cargs 9) = Inr o' \<and>
    Play snap_ops (snap_of [2, 3, 4]) o' = Inr s' \<and> map_of (objects s') = map_of (objects (snap_of [1, 2, 4]))"
proof -
  let ?as = "[Delete 7 1, Add 7 (obj 3)]"
  have run: "play_actions snap_ops ?as (snap_of [1, 2]) = Inr (snap_of [2, 3])" by (simp add: snap_run)
  have cl: "clean {} ?as" by simp
  obtain p where p: "play_actions patch_ops ?as (NewPatch (SnapView (snap_of [1, 2]))) = Inr p"
    "case Patch_Revert p (snap_of [2, 3, 4]) 5 0 (cargs 9) of
      Inl e \<Rightarrow> e = RevertEmpty \<and> (ids (snap_of [2, 3]) - ids (snap_of [1, 2])) \<inter> ids (snap_of [2, 3, 4]) = {} \<and> ids (snap_of [1, 2]) - ids (snap_of [2, 3]) \<subseteq> ids (snap_of [2, 3, 4])
    | Inr o' \<Rightarrow> \<exists>s'. Play snap_ops (snap_of [2, 3, 4]) o' = Inr s' \<and> set (vectors s') = set (vectors (snap_of [2, 3, 4])) \<and>
        map_of (objects s') = (\<lambda>i. if i \<in> ids (snap_of [2, 3]) - ids (snap_of [1, 2]) then None
          else if i \<in> ids (snap_of [1, 2]) - ids (snap_of [2, 3]) \<and> i \<notin> ids (snap_of [2, 3, 4]) then map_of (objects (snap_of [1, 2])) i
          else map_of (objects (snap_of [2, 3, 4])) i)"
    using revert_undoes [OF _ _ cl run, of "snap_of [2, 3, 4]" 5 0 "cargs 9"] snap_wf_of [of "[1, 2]"] snap_wf_of [of "[2, 3, 4]"] by auto
  then obtain o' where "Patch_Revert p (snap_of [2, 3, 4]) 5 0 (cargs 9) = Inr o'"
    by (cases "Patch_Revert p (snap_of [2, 3, 4]) 5 0 (cargs 9)") (auto simp: snap_of_def)
  then show ?thesis using p by (force simp: snap_of_def fun_eq_iff)
qed

subsection \<open>Properties of merges\<close>

lemma merge_adds_map:
  assumes "pinv parent" "base parent = SnapView b" "pabs parent = sabs t"
    "pinv child" "base child = SnapView b" "pabs child = sabs c"
  shows "map_of (objects (merge_adds parent child)) i = (if i \<in> ids c - ids b \<and> i \<notin> ids t then map_of (objects c) i else None)"
    and "snap_wf (merge_adds parent child)"
proof -
  note P = patch_changes [OF assms(1-3)] and C = patch_changes [OF assms(4-6)]
  have "map_of (filter (\<lambda>(i, d). i \<notin> A) xs) i = (if i \<notin> A then map_of xs i else None)" for A and xs :: "(ksuid \<times> 'a dobject) list"
    by (induction xs) auto
  then have m: "map_of (objects (merge_adds parent child)) i = (if i \<notin> ids (diff parent) then map_of (objects (diff child)) i else None)"
    by (simp add: merge_adds_def)
  obtain d dobjs dvecs where c: "child = Patch (SnapView b) d dobjs dvecs" using assms(5) by (cases child) auto
  have "map_of (objects c) = (map_of (objects b) |` (- set dobjs)) ++ map_of (objects d)"
    using assms(6) by (simp add: c sabs_def)
  then have "map_of (objects (diff child)) i = (if i \<in> ids c - ids b then map_of (objects c) i else None)"
    using C(1) by (auto simp: c map_add_def split: option.splits)
  then show "map_of (objects (merge_adds parent child)) i = (if i \<in> ids c - ids b \<and> i \<notin> ids t then map_of (objects c) i else None)"
    unfolding m P(1) by auto
  show "snap_wf (merge_adds parent child)"
    using C(3) by (auto simp: snap_wf_def merge_adds_def distinct_map_filter)
qed

lemma merge_pinv:
  assumes P: "pinv parent" "base parent = SnapView b" "pabs parent = sabs t"
    and C: "pinv child" "base child = SnapView b" "pabs child = sabs c"
    and "(ids b - ids t) \<inter> (ids b - ids c) = {}"
  defines "q \<equiv> Patch (PatchView parent) (merge_adds parent child) (deletedObjects child) []"
  shows "pinv q" and "pabs q = (\<lambda>i. if i \<in> ids b - ids c then None else if i \<in> ids t then map_of (objects t) i
      else if i \<in> ids b then None else map_of (objects c) i, set (vectors t))"
proof -
  note m = merge_adds_map [OF P C]
  note ch = patch_changes [OF P] and cc = patch_changes [OF C]
  have ex: "Exists (PatchView parent) i \<longleftrightarrow> i \<in> ids t \<or> i \<in> ids b" for i
  proof -
    obtain d dobjs dvecs where p: "parent = Patch (SnapView b) d dobjs dvecs" using P(2) by (cases parent) auto
    have "Exists (PatchView parent) i \<longleftrightarrow> i \<in> ids (diff parent) \<or> i \<in> ids b"
      by (simp add: p Exists_PatchView Exists_SnapView fst_sabs)
    then show ?thesis using ch(1) by auto
  qed
  show "pinv q"
    using P C m cc assms(7) ex by (auto simp: q_def fst_sabs domIff merge_adds_def[of parent child, THEN arg_cong, of vectors] split: if_splits)
  show "pabs q = (\<lambda>i. if i \<in> ids b - ids c then None else if i \<in> ids t then map_of (objects t) i
      else if i \<in> ids b then None else map_of (objects c) i, set (vectors t))"
    using cc(2) m(1) P(3) by (auto simp: q_def fst_sabs map_add_def restrict_map_def fun_eq_iff merge_adds_def[of parent child, THEN arg_cong, of vectors] split: option.splits)
qed

lemma merge_plays:
  assumes P: "pinv p" "base p = SnapView b" "pabs p = sabs t" and Q: "pinv q" "base q = SnapView b" "pabs q = sabs c"
    and "(ids b - ids t) \<inter> (ids b - ids c) = {}" and "snap_wf t" and D: "Diff p q = Inr d"
  shows "\<exists>s. Play snap_ops t (NewCommitObject d tip n a) = Inr s \<and> set (vectors s) = set (vectors t) \<and>
    map_of (objects s) = (\<lambda>i. if i \<in> ids b - ids c then None else if i \<in> ids t then map_of (objects t) i
      else if i \<in> ids b then None else map_of (objects c) i)"
proof -
  note M = merge_pinv [OF P Q assms(7)]
  have d: "d = Patch (PatchView p) (merge_adds p q) (deletedObjects q) []"
    using D Diff_eq [OF P(1,2) Q(1,2)] by (auto split: if_splits)
  have "aplays (co_Actions (NewCommitObject d tip n a)) (sabs t) = Some (pabs d)"
    using commit_object_aplays [of d tip n a] M(1) P(3) by (simp add: d)
  then obtain s where "Play snap_ops t (NewCommitObject d tip n a) = Inr s" "sabs s = pabs d"
    using sn.plays_Some [OF assms(8), of _ "pabs d"] by (auto simp: Play_def)
  then show ?thesis using M(2) d by (auto simp: sabs_def)
qed

lemma merge_empty:
  assumes P: "pinv p" "base p = SnapView b" "pabs p = sabs t" and Q: "pinv q" "base q = SnapView b" "pabs q = sabs c"
    and "Diff p q = Inl e"
  shows "e = DiffEmpty \<and> ids b \<subseteq> ids c \<and> ids c - ids b \<subseteq> ids t"
proof -
  have e: "e = DiffEmpty" "objects (merge_adds p q) = []" "deletedObjects q = []"
    using assms(7) Diff_eq [OF P(1,2) Q(1,2)] by (auto split: if_splits)
  have "i \<in> ids t" if "i \<in> ids c - ids b" for i
    using merge_adds_map(1) [OF P Q, of i] e(2) that by (auto split: if_splits)
  then show ?thesis using e patch_changes(2) [OF Q] by auto
qed

text \<open>
  Merging. Let the history of the parent branch take the snapshot of the common ancestor \<open>b\<close> to
  \<open>t\<close> and that of the child branch take it to \<open>c\<close>, and let no object be deleted on both sides. The merge
  commit, played on the parent's tip, removes what the child deleted and adds what it added, and keeps the
  rest and the parent's vectors; it is refused as empty when the child has neither added an object the
  parent lacks nor deleted any. \<close>

theorem merge_applies_child_changes:
  assumes "snap_wf b" and "clean {} as" and "play_actions snap_ops as b = Inr t"
    and "clean {} cs" and "play_actions snap_ops cs b = Inr c"
    and "(ids b - ids t) \<inter> (ids b - ids c) = {}"
  shows "\<exists>parent child. play_actions patch_ops as (NewPatch (SnapView b)) = Inr parent \<and>
    play_actions patch_ops cs (NewPatch (SnapView b)) = Inr child \<and>
    (case Diff parent child of
      Inl e \<Rightarrow> e = DiffEmpty \<and> ids b \<subseteq> ids c \<and> ids c - ids b \<subseteq> ids t
    | Inr d \<Rightarrow> \<exists>s. Play snap_ops t (NewCommitObject d tip n a) = Inr s \<and> set (vectors s) = set (vectors t) \<and>
        map_of (objects s) = (\<lambda>i. if i \<in> ids b - ids c then None else if i \<in> ids t then map_of (objects t) i
          else if i \<in> ids b then None else map_of (objects c) i))"
proof -
  obtain p where p: "play_actions patch_ops as (NewPatch (SnapView b)) = Inr p" "pinv p" "pabs p = sabs t" "base p = SnapView b"
    using play_patch [OF assms(1-3)] .
  obtain q where q: "play_actions patch_ops cs (NewPatch (SnapView b)) = Inr q" "pinv q" "pabs q = sabs c" "base q = SnapView b"
    using play_patch [OF assms(1,4,5)] .
  have t: "snap_wf t" using sn.plays_Inr [OF assms(1,3)] by simp
  show ?thesis
    using p q merge_plays [OF p(2,4,3) q(2,4,3) assms(6) t] merge_empty [OF p(2,4,3) q(2,4,3)] by (auto split: sum.splits)
qed

theorem merge_applies_child_changes_witness:
  "\<exists>parent child d s. play_actions patch_ops [Delete 7 1] (NewPatch (SnapView (snap_of [1, 2]))) = Inr parent \<and>
    play_actions patch_ops [Delete 8 2, Add 8 (obj 3)] (NewPatch (SnapView (snap_of [1, 2]))) = Inr child \<and>
    Diff parent child = Inr d \<and> Play snap_ops (snap_of [2]) (NewCommitObject d 5 0 (cargs 9)) = Inr s \<and>
    map_of (objects s) = map_of (objects (snap_of [3]))"
proof -
  have r: "play_actions snap_ops [Delete 7 1] (snap_of [1, 2]) = Inr (snap_of [2])"
    "play_actions snap_ops [Delete 8 2, Add 8 (obj 3)] (snap_of [1, 2]) = Inr (snap_of [1, 3])" by (simp_all add: snap_run)
  have cl: "clean {} [Delete 7 1]" "clean {} [Delete 8 2, Add 8 (obj 3)]" by simp_all
  have i: "(ids (snap_of [1, 2]) - ids (snap_of [2])) \<inter> (ids (snap_of [1, 2]) - ids (snap_of [1, 3])) = {}"
    "\<not> ids (snap_of [1, 2]) \<subseteq> ids (snap_of [1, 3])" by (simp_all add: snap_of_def)
  have w: "snap_wf (snap_of [1, 2])" by (rule snap_wf_of) simp
  have e: "(\<lambda>i. if i \<in> ids (snap_of [1, 2]) - ids (snap_of [1, 3]) then None else if i \<in> ids (snap_of [2]) then map_of (objects (snap_of [2])) i
      else if i \<in> ids (snap_of [1, 2]) then None else map_of (objects (snap_of [1, 3])) i) = map_of (objects (snap_of [3]))"
    by (auto simp: snap_of_def fun_eq_iff)
  obtain parent child where pc: "play_actions patch_ops [Delete 7 1] (NewPatch (SnapView (snap_of [1, 2]))) = Inr parent"
    "play_actions patch_ops [Delete 8 2, Add 8 (obj 3)] (NewPatch (SnapView (snap_of [1, 2]))) = Inr child"
    and D: "case Diff parent child of
      Inl e \<Rightarrow> e = DiffEmpty \<and> ids (snap_of [1, 2]) \<subseteq> ids (snap_of [1, 3]) \<and> ids (snap_of [1, 3]) - ids (snap_of [1, 2]) \<subseteq> ids (snap_of [2])
    | Inr d \<Rightarrow> \<exists>s. Play snap_ops (snap_of [2]) (NewCommitObject d 5 0 (cargs 9)) = Inr s \<and> set (vectors s) = set (vectors (snap_of [2])) \<and>
        map_of (objects s) = map_of (objects (snap_of [3]))"
    using merge_applies_child_changes [OF w cl(1) r(1) cl(2) r(2) i(1), of 5 0 "cargs 9", unfolded e] by blast
  then obtain d where "Diff parent child = Inr d" using i(2) by (cases "Diff parent child") auto
  then show ?thesis using pc D by auto
qed

text \<open>
  C33: An object deleted on both sides breaks the parent branch. The delete conflict that \<open>Diff\<close> is
  meant to report is never found, because the lookup in the parent's patch still finds objects the patch
  has deleted; the merge commit is made, and it deletes an object that is not in the parent's tip, so
  playing it, and with it every snapshot of the branch from then on, fails. \<close>

theorem merge_common_delete_breaks_parent:
  assumes "snap_wf b" and "clean {} as" and "play_actions snap_ops as b = Inr t"
    and "clean {} cs" and "play_actions snap_ops cs b = Inr c"
    and "i \<in> ids b" and "i \<notin> ids t" and "i \<notin> ids c"
  shows "\<exists>parent child d e. play_actions patch_ops as (NewPatch (SnapView b)) = Inr parent \<and>
    play_actions patch_ops cs (NewPatch (SnapView b)) = Inr child \<and>
    Diff parent child = Inr d \<and> Play snap_ops t (NewCommitObject d tip n a) = Inl e"
proof -
  obtain p where p: "play_actions patch_ops as (NewPatch (SnapView b)) = Inr p" "pinv p" "pabs p = sabs t" "base p = SnapView b"
    using play_patch [OF assms(1-3)] .
  obtain q where q: "play_actions patch_ops cs (NewPatch (SnapView b)) = Inr q" "pinv q" "pabs q = sabs c" "base q = SnapView b"
    using play_patch [OF assms(1,4,5)] .
  have t: "snap_wf t" using sn.plays_Inr [OF assms(1,3)] by simp
  have i: "i \<in> set (deletedObjects q)" using patch_changes(2) [OF q(2,4,3)] assms(6,8) by simp
  define d where "d = Patch (PatchView p) (merge_adds p q) (deletedObjects q) []"
  have d: "Diff p q = Inr d" using Diff_eq [OF p(2,4) q(2,4)] i by (auto simp: d_def)
  have "aplays (map (Delete (ca_commit a)) (deletedObjects q)) (sabs t) = None"
    using i assms(7) by (auto simp: aplays_deletes fst_sabs)
  then have "aplays (co_Actions (NewCommitObject d tip n a)) (sabs t) = None"
    by (simp add: commit_actions d_def aplays_append del: map_map)
  then show ?thesis using p(1) q(1) d sn.plays_None [OF t] by (auto simp: Play_def)
qed

theorem merge_common_delete_breaks_parent_witness:
  "\<exists>parent child d e. play_actions patch_ops [Delete 7 1] (NewPatch (SnapView (snap_of [1, 2]))) = Inr parent \<and>
    play_actions patch_ops [Delete 8 1] (NewPatch (SnapView (snap_of [1, 2]))) = Inr child \<and>
    Diff parent child = Inr d \<and> Play snap_ops (snap_of [2]) (NewCommitObject d 5 0 (cargs 9)) = Inl e"
proof -
  have r: "play_actions snap_ops [Delete x 1] (snap_of [1, 2]) = Inr (snap_of [2])" for x by (simp add: snap_run)
  have w: "snap_wf (snap_of [1, 2])" by (rule snap_wf_of) simp
  have i: "1 \<in> ids (snap_of [1, 2])" "1 \<notin> ids (snap_of [2])" by (simp_all add: snap_of_def)
  show ?thesis
    using merge_common_delete_breaks_parent [OF w _ r [of 7] _ r [of 8] i(1) i(2) i(2)] by simp
qed

text \<open>
  A patch cannot follow a history that deletes an object and adds it again, as a delete followed by
  its revert does: the snapshot takes both actions and the patch refuses the second, so such a history
  can be neither merged nor merged into. \<close>

theorem patch_rejects_readded_object:
  assumes "snap_wf b" and "obj_ID d \<in> ids b"
  shows "(\<exists>s. play_actions snap_ops [Delete x (obj_ID d), Add y d] b = Inr s) \<and>
    play_actions patch_ops [Delete x (obj_ID d), Add y d] (NewPatch (SnapView b)) = Inl ErrExists"
  using assms by (auto simp: snap_run patch_ops_def Patch_DeleteObject_def Patch_AddDataObject_def NewPatch_def NewSnapshot_def
      Snapshot_Exists_iff Exists_SnapView fst_sabs map_of_delete [unfolded AList.delete_eq])

theorem patch_rejects_readded_object_witness:
  "play_actions patch_ops [Delete 7 1, Add 8 (obj 1)] (NewPatch (SnapView (snap_of [1, 2]))) = Inl ErrExists"
  using patch_rejects_readded_object [of "snap_of [1, 2]" "obj 1" 7 8] snap_wf_of [of "[1, 2]"] by (simp add: snap_of_def)

end
