(* ===== verification/Commits_History.thy ===== *)
theory Commits_History
  imports Commits_Patch Commits_Store
begin

text \<open>
  The commit store against the history of a commit: snapshots, paths and patches computed with
  caches and snapshot files are those of the chain of commits to the root.
\<close>

subsection \<open>The history of a commit\<close>

text \<open>
  The specification of the store: a commit's history is the chain of commit objects up to the root, and
  its snapshot is what playing them from the root gives.
\<close>

definition commit_at :: "(ksuid \<rightharpoonup> 'v fentry list) \<Rightarrow> ksuid \<Rightarrow> 'v cobject option" where
  "commit_at F c = (case F c of None \<Rightarrow> None | Some b \<Rightarrow> (case DecodeObject b of Inl _ \<Rightarrow> None | Inr o' \<Rightarrow> Some o'))"

inductive chain :: "(ksuid \<rightharpoonup> 'v fentry list) \<Rightarrow> ksuid \<Rightarrow> (ksuid \<times> 'v cobject) list \<Rightarrow> bool" for F where
  chain_root: "chain F 0 []"
| chain_commit: "c \<noteq> 0 \<Longrightarrow> commit_at F c = Some o' \<Longrightarrow> co_Commit o' = c \<Longrightarrow> chain F (co_Parent o') xs \<Longrightarrow> chain F c ((c, o') # xs)"

inductive_simps chain_Nil: "chain F c []"
inductive_simps chain_Cons: "chain F c (x # xs)"
inductive_cases chain_0E: "chain F 0 xs"

lemma chain_0: "chain F 0 xs \<longleftrightarrow> xs = []"
  by (auto elim: chain_0E intro: chain_root)

lemma chain_unique: "chain F c xs \<Longrightarrow> chain F c ys \<Longrightarrow> xs = ys"
proof (induction xs arbitrary: ys rule: chain.induct)
  case chain_root
  then show ?case by (simp add: chain_0)
next
  case (chain_commit c o' xs)
  from chain_commit.prems chain_commit.hyps(1) obtain o2 zs
    where "ys = (c, o2) # zs" "commit_at F c = Some o2" "chain F (co_Parent o2) zs"
    by (cases rule: chain.cases) auto
  then show ?case using chain_commit.hyps(2) chain_commit.IH by simp
qed

lemma chain_suffix: "chain F c (ys @ (c', o') # zs) \<Longrightarrow> chain F c' ((c', o') # zs)"
  by (induction ys arbitrary: c) (auto simp: chain_Cons)

lemma chain_distinct: "chain F c xs \<Longrightarrow> distinct (map fst xs)"
proof (induction xs arbitrary: c)
  case (Cons x xs)
  have "False" if "x' \<in> set xs" "fst x' = fst x" for x'
  proof -
    from that(1) obtain ys zs where xs: "xs = ys @ x' # zs" by (auto dest: split_list)
    have "fst x = c" using Cons.prems by (simp add: chain_Cons) (metis fst_conv)
    then have "chain F c (x' # zs)" using chain_suffix [of F c "x # ys" "fst x'" "snd x'" zs] Cons.prems that(2) xs by (metis append_Cons prod.collapse)
    then have "x' # zs = x # xs" using chain_unique Cons.prems by blast
    then have "length zs = length xs" by simp
    then show False using xs by simp
  qed
  moreover have "\<exists>c'. chain F c' xs" using Cons.prems by (auto simp: chain_Cons)
  ultimately show ?case using Cons.IH by fastforce
qed simp

lemma chain_mono: "chain F c xs \<Longrightarrow> F \<subseteq>\<^sub>m F' \<Longrightarrow> chain F' c xs"
proof (induction rule: chain.induct)
  case (chain_commit c o' xs)
  then have "commit_at F' c = Some o'" by (auto simp: commit_at_def map_le_def dom_def split: option.splits)
  then show ?case using chain_commit by (auto intro: chain.chain_commit)
qed (rule chain.chain_root)

definition replay_chain :: "(ksuid \<times> 'v cobject) list \<Rightarrow> cerror + 'v snapshot" where
  "replay_chain xs = play_objects (rev (map snd xs)) NewSnapshot"

lemma play_objects_append: "play_objects (as @ bs) s = res_bind (play_objects as s) (play_objects bs)"
proof (induction as arbitrary: s)
  case (Cons a as)
  then show ?case by (cases "play_actions snap_ops (co_Actions a) s") simp_all
qed simp

lemma play_objects_wf: "snap_wf s \<Longrightarrow> play_objects os s = Inr s' \<Longrightarrow> snap_wf s'"
proof (induction os arbitrary: s)
  case (Cons a os)
  then obtain s1 where "play_actions snap_ops (co_Actions a) s = Inr s1" "play_objects os s1 = Inr s'"
    by (auto simp: res_bind_Inr_iff)
  then show ?case using Cons.IH sn.plays_Inr [OF Cons.prems(1)] by blast
qed simp

lemma replay_chain_wf: "replay_chain xs = Inr s \<Longrightarrow> snap_wf s"
  unfolding replay_chain_def using play_objects_wf snap_wf_new(1) by blast

lemma replay_chain_append:
  "replay_chain (ys @ zs) = res_bind (replay_chain zs) (play_objects (rev (map snd ys)))"
  by (simp add: replay_chain_def play_objects_append)

subsection \<open>Snapshot files\<close>

lemma decode_snapshot_append:
  "decode_snapshot_loop s (map FAction as @ es) = res_bind (play_actions snap_ops as s) (\<lambda>s. decode_snapshot_loop s es)"
proof (induction as arbitrary: s)
  case (Cons a as)
  then show ?case by (cases "PlayAction snap_ops s a") simp_all
qed simp

lemma play_adds_exact:
  assumes "distinct (map fst xs)" and "\<forall>(i, d) \<in> set xs. obj_ID d = i" and "fst ` set xs \<inter> fst ` set (objects s) = {}"
  shows "play_actions snap_ops (map (\<lambda>x. Add c (snd x)) xs) s = Inr (s\<lparr>objects := objects s @ xs\<rparr>)"
  using assms
proof (induction xs arbitrary: s)
  case (Cons x xs)
  obtain i d where x: "x = (i, d)" by (cases x)
  have "map_of (objects s) i = None" using Cons.prems(3) x by (auto simp: map_of_eq_None_iff)
  moreover have "fst ` set xs \<inter> fst ` set (objects (s\<lparr>objects := objects s @ [x]\<rparr>)) = {}"
    using Cons.prems x by auto
  ultimately show ?case
    using Cons.IH [of "s\<lparr>objects := objects s @ [x]\<rparr>"] Cons.prems(1,2) x by (simp add: snap_ops_def AddDataObject_def)
qed simp

lemma play_addvs_exact:
  assumes "distinct is" and "set is \<inter> set (vectors s) = {}"
  shows "play_actions snap_ops (map (AddVector c) is) s = Inr (s\<lparr>vectors := vectors s @ is\<rparr>)"
  using assms
proof (induction "is" arbitrary: s)
  case (Cons i "is")
  then show ?case using Cons.IH [of "s\<lparr>vectors := vectors s @ [i]\<rparr>"] by (simp add: snap_ops_def snap_AddVector_def)
qed simp

lemma decode_serialize: "snap_wf s \<Longrightarrow> decodeSnapshot (snap_serialize s) = Inr s"
proof -
  assume s: "snap_wf s"
  have "snap_serialize s = map FAction (map (\<lambda>x. Add 0 (snd x)) (objects s)) @ map FAction (map (AddVector 0) (vectors s)) @ []"
    by (simp add: snap_serialize_def)
  then show ?thesis
    using s play_adds_exact [of "objects s" NewSnapshot 0] play_addvs_exact [of "vectors s" "\<lparr>objects = objects s, vectors = []\<rparr>" 0]
    by (simp only: decodeSnapshot_def decode_snapshot_append) (simp add: NewSnapshot_def snap_wf_def)
qed

subsection \<open>The invariant of the store\<close>

text \<open>
  What is cached or stored as a snapshot agrees with the commit files. A snapshot file that does not
  decode is allowed.
\<close>

definition cs_ok :: "'v cstore \<Rightarrow> bool" where
  "cs_ok s = ((\<forall>c o'. cs_cache s c = Some o' \<longrightarrow> commit_at (cs_files s) c = Some o') \<and>
     (\<forall>c snap. cs_snapshots s c = Some snap \<longrightarrow> (\<exists>xs. chain (cs_files s) c xs \<and> replay_chain xs = Inr snap)) \<and>
     (\<forall>c b snap. cs_snapfiles s c = Some b \<longrightarrow> decodeSnapshot b = Inr snap \<longrightarrow>
        (\<exists>xs. chain (cs_files s) c xs \<and> replay_chain xs = Inr snap)) \<and>
     (\<forall>c p. cs_paths s c = Some p \<longrightarrow> (\<exists>xs. chain (cs_files s) c xs \<and> p = map fst xs)))"

lemma arc_add_Some: "arc_add keep k v c x = Some y \<Longrightarrow> x = k \<and> y = v \<or> c x = Some y"
  by (auto simp: arc_add_def split: if_splits)

lemma cs_okD:
  assumes "cs_ok s"
  shows "cs_cache s c = Some o' \<Longrightarrow> commit_at (cs_files s) c = Some o'"
    and "cs_snapshots s c = Some snap \<Longrightarrow> \<exists>xs. chain (cs_files s) c xs \<and> replay_chain xs = Inr snap"
    and "cs_snapfiles s c = Some b \<Longrightarrow> decodeSnapshot b = Inr snap \<Longrightarrow> \<exists>xs. chain (cs_files s) c xs \<and> replay_chain xs = Inr snap"
    and "cs_paths s c = Some p \<Longrightarrow> \<exists>xs. chain (cs_files s) c xs \<and> p = map fst xs"
  using assms by (simp_all add: cs_ok_def)

lemma cs_snapshot_at:
  assumes "cs_ok s" and "chain (cs_files s) c xs"
  shows "cs_snapshots s c = Some snap \<Longrightarrow> replay_chain xs = Inr snap"
    and "Store_getSnapshot c s = Inr snap \<Longrightarrow> replay_chain xs = Inr snap"
proof -
  show "cs_snapshots s c = Some snap \<Longrightarrow> replay_chain xs = Inr snap"
    using cs_okD(2) [OF assms(1)] chain_unique [OF assms(2)] by blast
  assume "Store_getSnapshot c s = Inr snap"
  then obtain b where "cs_snapfiles s c = Some b" "decodeSnapshot b = Inr snap"
    by (cases "cs_snapfiles s c") (simp_all add: Store_getSnapshot_def)
  then show "replay_chain xs = Inr snap" using cs_okD(3) [OF assms(1)] chain_unique [OF assms(2)] by blast
qed

lemma cache_snapshot_ok:
  "cs_ok s \<Longrightarrow> chain (cs_files s) c xs \<Longrightarrow> replay_chain xs = Inr snap \<Longrightarrow> cs_ok (cache_snapshot c snap s)"
  unfolding cs_ok_def cache_snapshot_def by (auto dest!: arc_add_Some)

lemma putSnapshot_ok:
  "cs_ok s \<Longrightarrow> chain (cs_files s) c xs \<Longrightarrow> replay_chain xs = Inr snap \<Longrightarrow> cs_ok (Store_putSnapshot c snap s)"
  using decode_serialize [OF replay_chain_wf, of xs snap] unfolding cs_ok_def Store_putSnapshot_def
  by (auto split: if_splits)

lemma Get_ok:
  assumes "cs_ok s" and "commit_at (cs_files s) c = Some o'"
  obtains s' where "Store_Get c s = (s', Inr o')" and "cs_ok s'" and "cs_files s' = cs_files s"
    and "cs_snapfiles s' = cs_snapfiles s" and "cs_snapshots s' = cs_snapshots s" and "cs_paths s' = cs_paths s"
proof (cases "cs_cache s c")
  case None
  let ?s = "s\<lparr>cs_cache := arc_add (cs_keep s) c o' (cs_cache s)\<rparr>"
  have "Store_Get c s = (?s, Inr o')"
    using assms(2) None by (auto simp: Store_Get_def commit_at_def split: option.splits sum.splits)
  moreover have "cs_ok ?s" using assms unfolding cs_ok_def by (auto dest!: arc_add_Some)
  ultimately show ?thesis using that by simp
next
  case (Some o2)
  then have "Store_Get c s = (s, Inr o')" using assms by (auto simp: Store_Get_def cs_ok_def)
  then show ?thesis using that assms(1) by simp
qed

subsection \<open>Snapshots\<close>

lemma snapshot_walk_ok:
  assumes "cs_ok s" and "chain (cs_files s) at xs" and "length xs < n"
  shows "\<exists>s' b ys zs. snapshot_walk n at os s = Some (s', Inr (b, os @ map snd ys)) \<and> xs = ys @ zs \<and>
    (case b of None \<Rightarrow> zs = [] | Some snap \<Rightarrow> replay_chain zs = Inr snap) \<and> cs_ok s' \<and> cs_files s' = cs_files s"
  using assms
proof (induction n arbitrary: at xs os s)
  case (Suc n)
  show ?case
  proof (cases xs)
    case Nil
    then have "at = 0" using Suc.prems(2) by (simp add: chain_Nil)
    then show ?thesis using Nil Suc.prems(1) by auto
  next
    case (Cons x ws)
    then obtain o' where x: "x = (at, o')" "at \<noteq> 0" "commit_at (cs_files s) at = Some o'" "chain (cs_files s) (co_Parent o') ws"
      using Suc.prems(2) by (auto simp: chain_Cons)
    show ?thesis
    proof (cases "cs_snapshots s at")
      case (Some snap)
      then have "replay_chain xs = Inr snap" using cs_snapshot_at(1) [OF Suc.prems(1,2)] by simp
      then show ?thesis using x(2) Some Suc.prems(1) by (intro exI [of _ s] exI [of _ "Some snap"] exI [of _ "[]"] exI [of _ xs]) simp
    next
      case None
      obtain s1 where s1: "Store_Get at s = (s1, Inr o')" "cs_ok s1" "cs_files s1 = cs_files s" using Get_ok [OF Suc.prems(1) x(3)] .
      show ?thesis
      proof (cases "Store_getSnapshot at s1")
        case (Inr snap)
        then have "replay_chain xs = Inr snap" using cs_snapshot_at(2) [OF s1(2)] s1(3) Suc.prems(2) by simp
        moreover from this have "cs_ok (cache_snapshot at snap s1)" using cache_snapshot_ok s1 Suc.prems(2) by metis
        ultimately show ?thesis using x(2) None s1 Inr
          by (intro exI [of _ "cache_snapshot at snap s1"] exI [of _ "Some snap"] exI [of _ "[]"] exI [of _ xs]) (simp add: cache_snapshot_def)
      next
        case (Inl e)
        have "length ws < n" using Suc.prems(3) Cons by simp
        then obtain s' b ys zs where "snapshot_walk n (co_Parent o') (os @ [o']) s1 = Some (s', Inr (b, (os @ [o']) @ map snd ys))"
          "ws = ys @ zs" "case b of None \<Rightarrow> zs = [] | Some snap \<Rightarrow> replay_chain zs = Inr snap" "cs_ok s'" "cs_files s' = cs_files s1"
          using Suc.IH [OF s1(2), of "co_Parent o'" ws "os @ [o']"] x(4) s1(3) by auto
        then show ?thesis using x None s1 Inl Cons
          by (intro exI [of _ s'] exI [of _ b] exI [of _ "x # ys"] exI [of _ zs]) simp
      qed
    qed
  qed
qed simp

lemma snap_Copy_same: "snap_Copy s = s"
  by (simp add: snap_Copy_def NewSnapshot_def)

lemma Snapshot_ok:
  assumes "cs_ok s" and "chain (cs_files s) leaf xs" and "length xs < n"
  obtains s' where "Store_Snapshot n leaf s = Some (s', replay_chain xs)" and "cs_ok s'" and "cs_files s' = cs_files s"
proof -
  note at = cs_snapshot_at [OF assms(1,2)]
  have "\<exists>s'. Store_Snapshot n leaf s = Some (s', replay_chain xs) \<and> cs_ok s' \<and> cs_files s' = cs_files s"
  proof (cases "cs_snapshots s leaf")
    case (Some snap)
    then show ?thesis using at(1) assms(1) by (simp add: Store_Snapshot_def)
  next
    case None
    show ?thesis
    proof (cases "Store_getSnapshot leaf s")
      case (Inr snap)
      then show ?thesis using None at(2) cache_snapshot_ok [OF assms(1,2)] by (simp add: Store_Snapshot_def cache_snapshot_def)
    next
      case (Inl e)
      obtain s1 b ys zs where w: "snapshot_walk n leaf [] s = Some (s1, Inr (b, map snd ys))" "xs = ys @ zs"
        "case b of None \<Rightarrow> zs = [] | Some snap \<Rightarrow> replay_chain zs = Inr snap" "cs_ok s1" "cs_files s1 = cs_files s"
        using snapshot_walk_ok [OF assms, of "[]"] by auto
      have r: "play_objects (rev (map snd ys)) (case b of None \<Rightarrow> NewSnapshot | Some b \<Rightarrow> snap_Copy b) = replay_chain xs"
        using w(2,3) by (cases b) (simp_all add: replay_chain_append snap_Copy_same, simp add: replay_chain_def)
      have run: "Store_Snapshot n leaf s = (case replay_chain xs of Inl e \<Rightarrow> Some (s1, Inl e)
          | Inr snap \<Rightarrow> Some (cache_snapshot leaf snap (Store_putSnapshot leaf snap s1), Inr snap))"
        using None Inl w(1) r by (simp add: Store_Snapshot_def)
      show ?thesis
      proof (cases "replay_chain xs")
        case (Inr snap)
        have ch: "chain (cs_files (Store_putSnapshot leaf snap s1)) leaf xs" using assms(2) w(5) by (simp add: Store_putSnapshot_def)
        then have "cs_ok (cache_snapshot leaf snap (Store_putSnapshot leaf snap s1))"
          using cache_snapshot_ok [OF putSnapshot_ok [OF w(4)]] Inr assms(2) w(5) by metis
        then show ?thesis using run Inr w(5) by (simp add: cache_snapshot_def Store_putSnapshot_def)
      qed (use run w in simp)
    qed
  qed
  then show ?thesis using that by blast
qed

subsection \<open>Paths and patches of the store\<close>

lemma path_loop_ok:
  assumes "cs_ok s" and "chain (cs_files s) at xs" and "length xs < n"
  shows "\<exists>s'. path_loop n at to path s = Some (s', Inr (path @ upto_id to (map fst xs))) \<and> cs_ok s' \<and> cs_files s' = cs_files s"
  using assms
proof (induction n arbitrary: at xs path s)
  case (Suc n)
  show ?case
  proof (cases xs)
    case Nil
    then show ?thesis using Suc.prems by (simp add: chain_Nil)
  next
    case (Cons x ws)
    then obtain o' where x: "x = (at, o')" "at \<noteq> 0" "commit_at (cs_files s) at = Some o'" "chain (cs_files s) (co_Parent o') ws"
      using Suc.prems(2) by (auto simp: chain_Cons)
    show ?thesis
    proof (cases "cs_paths s at")
      case (Some p)
      then have "p = map fst xs" using cs_okD(4) [OF Suc.prems(1)] chain_unique [OF Suc.prems(2)] by blast
      then show ?thesis using Some x(2) Suc.prems(1) by simp
    next
      case None
      obtain s1 where s1: "Store_Get at s = (s1, Inr o')" "cs_ok s1" "cs_files s1 = cs_files s" using Get_ok [OF Suc.prems(1) x(3)] .
      show ?thesis
      proof (cases "at = to")
        case False
        have "length ws < n" using Suc.prems(3) Cons by simp
        then show ?thesis using Suc.IH [OF s1(2), of "co_Parent o'" ws "path @ [at]"] False x None s1 Cons by simp
      qed (use x None s1 Cons in simp)
    qed
  qed
qed simp

lemma upto_id_absent: "to \<notin> set is \<Longrightarrow> upto_id to is = is"
  by (induction "is") auto

lemma upto_id_split: "to \<notin> set is \<Longrightarrow> upto_id to (is @ to # js) = is @ [to]"
  by (induction "is") auto

lemma chain_no_0: "chain F c xs \<Longrightarrow> 0 \<notin> fst ` set xs"
  by (induction rule: chain.induct) auto

lemma Path_ok:
  assumes "cs_ok s" and "chain (cs_files s) leaf xs" and "length xs < n" and "leaf \<noteq> 0"
  obtains s' where "Store_Path n leaf s = Some (s', Inr (map fst xs))" and "cs_ok s'" and "cs_files s' = cs_files s"
proof (cases "cs_paths s leaf")
  case (Some p)
  then have "p = map fst xs" using cs_okD(4) [OF assms(1)] chain_unique [OF assms(2)] by blast
  then have "Store_Path n leaf s = Some (s, Inr (map fst xs))" using Some assms(4) by (simp add: Store_Path_def)
  then show ?thesis using that assms(1) by blast
next
  case None
  have u: "upto_id 0 (map fst xs) = map fst xs" using chain_no_0 [OF assms(2)] by (simp add: upto_id_absent)
  obtain s1 where s1: "PathRange n leaf 0 s = Some (s1, Inr (map fst xs))" "cs_ok s1" "cs_files s1 = cs_files s"
    using path_loop_ok [OF assms(1-3), of 0 "[]"] by (auto simp: PathRange_def u)
  let ?s = "s1\<lparr>cs_paths := arc_add (cs_keep s1) leaf (map fst xs) (cs_paths s1)\<rparr>"
  have "Store_Path n leaf s = Some (?s, Inr (map fst xs))" using None s1(1) assms(4) by (simp add: Store_Path_def)
  moreover have "cs_ok ?s" using s1(2,3) assms(2) unfolding cs_ok_def by (auto dest!: arc_add_Some)
  ultimately show ?thesis using that s1(3) by simp
qed

lemma play_actions_append: "play_actions ops (as @ bs) w = res_bind (play_actions ops as w) (play_actions ops bs)"
proof (induction as arbitrary: w)
  case (Cons a as)
  then show ?case by (cases "PlayAction ops w a") simp_all
qed simp

lemma patch_path_loop_ok:
  assumes "cs_ok s" and "\<forall>x \<in> set ys. commit_at (cs_files s) (fst x) = Some (snd x)"
  shows "\<exists>s'. patch_path_loop (map fst ys) p s = (s', play_actions patch_ops (concat (map (\<lambda>x. co_Actions (snd x)) ys)) p) \<and>
    cs_ok s' \<and> cs_files s' = cs_files s"
  using assms
proof (induction ys arbitrary: p s)
  case (Cons y ys)
  obtain s1 where s1: "Store_Get (fst y) s = (s1, Inr (snd y))" "cs_ok s1" "cs_files s1 = cs_files s"
    using Get_ok [OF Cons.prems(1), of "fst y" "snd y"] Cons.prems(2) by auto
  then show ?case
    using Cons.IH [OF s1(2)] Cons.prems(2) by (cases "play_actions patch_ops (co_Actions (snd y)) p") (simp_all add: play_actions_append)
qed simp

lemma chain_commits: "chain F c xs \<Longrightarrow> x \<in> set xs \<Longrightarrow> commit_at F (fst x) = Some (snd x)"
  by (induction rule: chain.induct) auto

text \<open>The actions of a part of a history, oldest commit first.\<close>

definition history_actions :: "(ksuid \<times> 'v cobject) list \<Rightarrow> 'v action list" where
  "history_actions ys = concat (map (\<lambda>x. co_Actions (snd x)) (rev ys))"

lemma play_objects_concat: "play_objects os s = play_actions snap_ops (concat (map co_Actions os)) s"
proof (induction os arbitrary: s)
  case (Cons o' os)
  then show ?case by (cases "play_actions snap_ops (co_Actions o') s") (simp_all add: play_actions_append)
qed simp

lemma play_history: "play_objects (rev (map snd ys)) s = play_actions snap_ops (history_actions ys) s"
  by (simp add: play_objects_concat history_actions_def rev_map comp_def)

lemma PatchOfPath_ok:
  assumes "cs_ok s" and "chain (cs_files s) commit (ys @ zs)" and "length (ys @ zs) < n"
    and "zs = (baseID, o') # ws"
  shows "\<exists>s'. PatchOfPath n b baseID commit s = Some (s', play_actions patch_ops (history_actions ys) (NewPatch (SnapView b))) \<and>
    cs_ok s' \<and> cs_files s' = cs_files s"
proof -
  have d: "baseID \<notin> set (map fst ys)" using chain_distinct [OF assms(2)] assms(4) by auto
  obtain s1 where s1: "PathRange n commit baseID s = Some (s1, Inr (map fst ys @ [baseID]))" "cs_ok s1" "cs_files s1 = cs_files s"
    using path_loop_ok [OF assms(1-3), of baseID "[]"] upto_id_split [OF d] assms(4) by (auto simp: PathRange_def)
  have c: "\<forall>x \<in> set (rev ys). commit_at (cs_files s1) (fst x) = Some (snd x)"
    using chain_commits [OF assms(2)] s1(3) by simp
  show ?thesis
  proof (cases "ys = []")
    case True
    then show ?thesis using s1 by (simp add: PatchOfPath_def history_actions_def)
  next
    case False
    then have "\<not> length (map fst ys @ [baseID]) < 2" by (cases ys) auto
    then show ?thesis
      using patch_path_loop_ok [OF s1(2) c, of "NewPatch (SnapView b)"] s1
      by (auto simp: PatchOfPath_def history_actions_def rev_map)
  qed
qed

lemma PatchOfCommit_ok:
  assumes "cs_ok s" and "chain (cs_files s) commit ((commit, o') # xs)" and "length xs + 1 < n" and "replay_chain xs = Inr b"
  shows "\<exists>s'. PatchOfCommit n commit s = Some (s', play_actions patch_ops (co_Actions o') (NewPatch (SnapView b))) \<and>
    cs_ok s' \<and> cs_files s' = cs_files s"
proof -
  have c: "commit \<noteq> 0" "commit_at (cs_files s) commit = Some o'" "chain (cs_files s) (co_Parent o') xs"
    using assms(2) by (auto simp: chain_Cons)
  obtain s1 where s1: "Store_Path n commit s = Some (s1, Inr (commit # map fst xs))" "cs_ok s1" "cs_files s1 = cs_files s"
    using Path_ok [OF assms(1,2) _ c(1)] assms(3) by auto
  define r where "r = (if length (commit # map fst xs) = 1 then Some (s1, Inr NewSnapshot) else Store_Snapshot n ((commit # map fst xs) ! 1) s1)"
  have "\<exists>s2. r = Some (s2, Inr b) \<and> cs_ok s2 \<and> cs_files s2 = cs_files s"
  proof (cases xs)
    case Nil
    then show ?thesis using s1 assms(4) by (simp add: r_def replay_chain_def)
  next
    case (Cons x ws)
    then have "fst x = co_Parent o'" using c(3) by (auto simp: chain_Cons)
    then show ?thesis
      using Snapshot_ok [OF s1(2), of "co_Parent o'" xs n] c(3) s1(3) assms(3,4) Cons by (auto simp: r_def)
  qed
  then obtain s2 where s2: "r = Some (s2, Inr b)" "cs_ok s2" "cs_files s2 = cs_files s" by blast
  obtain s3 where "Store_Get commit s2 = (s3, Inr o')" "cs_ok s3" "cs_files s3 = cs_files s2"
    using Get_ok [OF s2(2)] c(2) s2(3) by metis
  moreover have "PatchOfCommit n commit s = (case r of None \<Rightarrow> None | Some (s, Inl e) \<Rightarrow> Some (s, Inl e)
      | Some (s, Inr b) \<Rightarrow> (case Store_Get commit s of
          (s, Inl e) \<Rightarrow> Some (s, Inl e)
        | (s, Inr o') \<Rightarrow> Some (s, play_actions patch_ops (co_Actions o') (NewPatch (SnapView b)))))"
    unfolding r_def PatchOfCommit_def s1(1) by simp
  ultimately show ?thesis using s2 by simp
qed

subsection \<open>Writing commits\<close>

text \<open>A commit object starts with its commit action, as \<open>NewObject\<close> makes it.\<close>

definition co_ok :: "'v cobject \<Rightarrow> bool" where
  "co_ok o' = (\<exists>i as. co_Actions o' = Commit i # as \<and> ci_ID i = co_Commit o' \<and> ci_Parent i = co_Parent o')"

lemma decode_actions_map: "decode_actions (map FAction as) = Inr as"
  by (induction as) simp_all

lemma Decode_Serialize: "co_ok o' \<Longrightarrow> \<exists>b. Serialize o' = Inr b \<and> DecodeObject b = Inr o'"
  by (auto simp: co_ok_def Serialize_def Let_def DecodeObject_def decode_actions_map)

lemma co_ok_append: "co_ok o' \<Longrightarrow> co_ok (co_append a o')"
  by (auto simp: co_ok_def co_append_def)

lemma co_ok_new: "co_ok (NewObject parent a n)"
  by (simp add: co_ok_def NewObject_def co_append_def)

lemma co_ok_fold: "(\<And>x o'. co_ok o' \<Longrightarrow> co_ok (f x o')) \<Longrightarrow> co_ok o' \<Longrightarrow> co_ok (fold f xs o')"
  by (induction xs arbitrary: o') simp_all

lemma co_ok_appends:
  "co_ok o' \<Longrightarrow> co_ok (appendAdd d o')" "co_ok o' \<Longrightarrow> co_ok (appendDelete i o')"
  "co_ok o' \<Longrightarrow> co_ok (appendAddVector i o')" "co_ok o' \<Longrightarrow> co_ok (appendDeleteVector i o')"
  by (simp_all add: appendAdd_def appendDelete_def appendAddVector_def appendDeleteVector_def co_ok_append)

lemma co_ok_objects:
  "co_ok (NewAddsObject parent n a ds)" "co_ok (NewDeletesObject parent n a is)"
  "co_ok (NewAddVectorsObject parent a is n)" "co_ok (NewDeleteVectorsObject parent a is n)"
  "co_ok (NewCommitObject p parent n a)"
  by (auto simp: NewAddsObject_def NewDeletesObject_def NewAddVectorsObject_def NewDeleteVectorsObject_def NewCommitObject_def
      intro!: co_ok_fold co_ok_appends co_ok_new)

lemma Put_ok:
  assumes "cs_ok s" and "co_ok o'" and "cs_files s (co_Commit o') = None"
  obtains s' where "Store_Put o' s = (s', Inr ())" and "cs_ok s'" and "cs_files s \<subseteq>\<^sub>m cs_files s'"
    and "commit_at (cs_files s') (co_Commit o') = Some o'" and "dom (cs_files s') = insert (co_Commit o') (dom (cs_files s))"
proof -
  obtain b where b: "Serialize o' = Inr b" "DecodeObject b = Inr o'" using Decode_Serialize [OF assms(2)] by blast
  let ?s = "s\<lparr>cs_files := (cs_files s)(co_Commit o' \<mapsto> b)\<rparr>"
  have sub: "cs_files s \<subseteq>\<^sub>m cs_files ?s" using assms(3) by (auto simp: map_le_def)
  have "commit_at (cs_files s) c = Some q \<Longrightarrow> commit_at (cs_files ?s) c = Some q" for c q
    using assms(3) by (auto simp: commit_at_def split: option.splits)
  then have "cs_ok ?s"
  proof -
    have ch: "\<exists>xs. chain (cs_files ?s) c xs \<and> P xs" if "\<exists>xs. chain (cs_files s) c xs \<and> P xs" for c P
      using that chain_mono [OF _ sub] by blast
    assume at: "\<And>c q. commit_at (cs_files s) c = Some q \<Longrightarrow> commit_at (cs_files ?s) c = Some q"
    show ?thesis
      unfolding cs_ok_def
      using at cs_okD(1) [OF assms(1)] ch [OF cs_okD(2) [OF assms(1)]] ch [OF cs_okD(3) [OF assms(1)]] ch [OF cs_okD(4) [OF assms(1)]]
      by simp
  qed
  then show ?thesis using that [of ?s] sub b by (simp add: Store_Put_def commit_at_def)
qed

lemma chain_put:
  assumes "chain F (co_Parent o') xs" and "F \<subseteq>\<^sub>m F'" and "commit_at F' (co_Commit o') = Some o'" and "co_Commit o' \<noteq> 0"
  shows "chain F' (co_Commit o') ((co_Commit o', o') # xs)"
  using assms chain_mono [OF assms(1,2)] by (auto intro: chain.chain_commit)

lemma empty_store: "cs_ok (OpenCommitStore files Map.empty keep)"
  by (simp add: cs_ok_def OpenCommitStore_def)

subsection \<open>Vacuuming\<close>

lemma vacuum_actions_set: "d \<in> set (vacuum_actions snap as) \<longleftrightarrow> obj_ID d \<notin> ids snap \<and> (\<exists>c. Add c d \<in> set as)"
  by (induction as) (auto simp: Snapshot_Exists_iff fst_sabs split: action.splits)

lemma vacuum_loop_ok:
  assumes "cs_ok s" and "chain (cs_files s) at xs" and "length xs < n"
  shows "\<exists>s'. vacuum_loop n leaf at snap out s =
    Some (s', out @ concat (map (\<lambda>x. if fst x = leaf then [] else vacuum_actions snap (co_Actions (snd x))) xs)) \<and>
    cs_ok s' \<and> cs_files s' = cs_files s"
  using assms
proof (induction n arbitrary: at xs out s)
  case (Suc n)
  show ?case
  proof (cases xs)
    case Nil
    then show ?thesis using Suc.prems by (simp add: chain_Nil)
  next
    case (Cons x ws)
    then obtain o' where x: "x = (at, o')" "at \<noteq> 0" "commit_at (cs_files s) at = Some o'" "co_Commit o' = at" "chain (cs_files s) (co_Parent o') ws"
      using Suc.prems(2) by (auto simp: chain_Cons)
    obtain s1 where s1: "Store_Get at s = (s1, Inr o')" "cs_ok s1" "cs_files s1 = cs_files s" using Get_ok [OF Suc.prems(1) x(3)] .
    have "length ws < n" using Suc.prems(3) Cons by simp
    then show ?thesis
      using Suc.IH [OF s1(2), of "co_Parent o'" ws out]
        Suc.IH [OF s1(2), of "co_Parent o'" ws "out @ vacuum_actions snap (co_Actions o')"] x s1 Cons
      by (cases "at = leaf") simp_all
  qed
qed simp

subsection \<open>Properties of the store\<close>

text \<open>
  C2: The snapshot of a commit is the replay of its history. Whatever the caches and the snapshot
  files hold, as long as they agree with the commit files, and whatever the caches forget meanwhile,
  \<open>Snapshot\<close> ends and returns what playing the commits from the root to the leaf gives, error
  included; the caches and snapshot files agree with the commits afterwards, and the commits are untouched. \<close>

theorem snapshot_is_replay:
  assumes "cs_ok s" and "chain (cs_files s) leaf xs" and "length xs < n"
  shows "\<exists>s'. Store_Snapshot n leaf s = Some (s', play_objects (rev (map snd xs)) NewSnapshot) \<and>
    cs_ok s' \<and> cs_files s' = cs_files s"
  using Snapshot_ok [OF assms] unfolding replay_chain_def by blast

definition demo_adds :: "nat cobject" where
  "demo_adds = NewAddsObject 0 0 (cargs 1) [obj 10, obj 11]"

definition demo_dels :: "nat cobject" where
  "demo_dels = NewDeletesObject 1 0 (cargs 2) [10]"

definition demo_store :: "nat cstore" where
  "demo_store = fst (Store_Put demo_dels (fst (Store_Put demo_adds (OpenCommitStore Map.empty Map.empty (\<lambda>_ _. True)))))"

lemmas demo_fields = demo_adds_def demo_dels_def NewAddsObject_def NewDeletesObject_def cargs_def
  appendAdd_def appendDelete_def co_append_def NewObject_def

lemma demo_ids: "co_Commit demo_adds = 1" "co_Parent demo_adds = 0" "co_Commit demo_dels = 2" "co_Parent demo_dels = 1"
  by (simp_all add: demo_fields)

lemma demo_chain:
  "cs_ok demo_store" "chain (cs_files demo_store) 2 [(2, demo_dels), (1, demo_adds)]" "chain (cs_files demo_store) 1 [(1, demo_adds)]"
proof -
  let ?s0 = "OpenCommitStore Map.empty Map.empty (\<lambda>_ _. True) :: nat cstore"
  have k: "co_ok demo_adds" "co_ok demo_dels" by (simp_all add: demo_adds_def demo_dels_def co_ok_objects)
  obtain s1 where s1: "Store_Put demo_adds ?s0 = (s1, Inr ())" "cs_ok s1" "cs_files ?s0 \<subseteq>\<^sub>m cs_files s1"
    "commit_at (cs_files s1) 1 = Some demo_adds" "dom (cs_files s1) = {1}"
    using Put_ok [OF empty_store k(1), of Map.empty "\<lambda>_ _. True"] by (auto simp: OpenCommitStore_def demo_ids)
  have "cs_files s1 2 = None" 
  proof -
    have "(2 :: ksuid) \<notin> dom (cs_files s1)" unfolding s1(5) by simp
    then show ?thesis by (simp add: domIff)
  qed
  then obtain s2 where s2: "Store_Put demo_dels s1 = (s2, Inr ())" "cs_ok s2" "cs_files s1 \<subseteq>\<^sub>m cs_files s2"
    "commit_at (cs_files s2) 2 = Some demo_dels"
    using Put_ok [OF s1(2) k(2)] by (auto simp: demo_ids)
  have d: "demo_store = s2" using s1(1) s2(1) by (simp add: demo_store_def)
  have c1: "chain (cs_files s1) 1 [(1, demo_adds)]"
    using chain_put [of "cs_files ?s0" demo_adds "[]" "cs_files s1"] s1(3,4) by (simp add: demo_ids chain_Nil)
  then show "chain (cs_files demo_store) 1 [(1, demo_adds)]" using chain_mono [OF c1 s2(3)] d by simp
  show "chain (cs_files demo_store) 2 [(2, demo_dels), (1, demo_adds)]"
    using chain_put [of "cs_files s1" demo_dels "[(1, demo_adds)]" "cs_files s2"] c1 s2(3,4) d by (simp add: demo_ids)
  show "cs_ok demo_store" using s2(2) d by simp
qed

lemma demo_replay: "play_objects (rev (map snd [(2, demo_dels), (1, demo_adds)])) NewSnapshot = Inr (snap_of [11])"
  "play_objects (rev (map snd [(1, demo_adds)])) NewSnapshot = Inr (snap_of [10, 11])"
  by (simp_all add: demo_fields snap_run NewSnapshot_def)

theorem snapshot_is_replay_witness:
  "\<exists>s'. Store_Snapshot 3 2 demo_store = Some (s', Inr (snap_of [11])) \<and> cs_ok s'"
  using snapshot_is_replay [OF demo_chain(1,2), of 3, unfolded demo_replay] by auto

text \<open>
  The patch of a commit or of a path is made of its actions. \<open>PatchOfCommit\<close> plays the commit's
  actions into a patch on the snapshot of its parent, and \<open>PatchOfPath\<close> those of the commits after the
  base, oldest first, into a patch on the base. \<close>

theorem patches_of_history:
  assumes "cs_ok s" and "chain (cs_files s) commit (ys @ (baseID, o') # zs)" and "length (ys @ (baseID, o') # zs) < n"
    and "replay_chain zs = Inr b"
  shows "(\<exists>s'. PatchOfPath n snap baseID commit s = Some (s', play_actions patch_ops (history_actions ys) (NewPatch (SnapView snap))) \<and>
      cs_ok s' \<and> cs_files s' = cs_files s) \<and>
    (\<exists>s'. PatchOfCommit n baseID s = Some (s', play_actions patch_ops (co_Actions o') (NewPatch (SnapView b))) \<and>
      cs_ok s' \<and> cs_files s' = cs_files s)"
  using PatchOfPath_ok [OF assms(1-3) refl] PatchOfCommit_ok [OF assms(1) chain_suffix [OF assms(2)] _ assms(4)] assms(3) by auto

theorem patches_of_history_witness:
  "\<exists>s' s''. PatchOfPath 3 (snap_of [10, 11]) 1 2 demo_store =
      Some (s', play_actions patch_ops (co_Actions demo_dels) (NewPatch (SnapView (snap_of [10, 11])))) \<and>
    PatchOfCommit 3 1 demo_store = Some (s'', play_actions patch_ops (co_Actions demo_adds) (NewPatch (SnapView NewSnapshot)))"
  using patches_of_history [OF demo_chain(1), of 2 "[(2, demo_dels)]" 1 demo_adds "[]" 3 NewSnapshot "snap_of [10, 11]"] demo_chain(2)
  by (auto simp: history_actions_def replay_chain_def)

text \<open>
  Vacuuming lists exactly the objects that commits before the leaf added and that the leaf's
  snapshot does not have; in particular never an object of the snapshot. \<close>

theorem vacuum_lists_unreferenced:
  assumes "cs_ok s" and "chain (cs_files s) leaf xs" and "length xs < n" and "play_objects (rev (map snd xs)) NewSnapshot = Inr snap"
  shows "\<exists>s' out. Vacuumable n leaf s = Some (s', Inr out) \<and> cs_ok s' \<and> cs_files s' = cs_files s \<and>
    set out = {d. obj_ID d \<notin> dom (map_of (objects snap)) \<and> (\<exists>x \<in> set (tl xs). \<exists>k. Add k d \<in> set (co_Actions (snd x)))}"
proof -
  obtain s1 where s1: "Store_Snapshot n leaf s = Some (s1, Inr snap)" "cs_ok s1" "cs_files s1 = cs_files s"
    using Snapshot_ok [OF assms(1-3)] assms(4) by (auto simp: replay_chain_def)
  define out where "out = concat (map (\<lambda>x. if fst x = leaf then [] else vacuum_actions snap (co_Actions (snd x))) xs)"
  have "set out = {d. obj_ID d \<notin> ids snap \<and> (\<exists>x \<in> set (tl xs). \<exists>k. Add k d \<in> set (co_Actions (snd x)))}"
  proof (cases xs)
    case (Cons x ws)
    then have "fst x = leaf" using assms(2) by (auto simp: chain_Cons)
    moreover have "\<forall>y \<in> set ws. fst y \<noteq> leaf" using chain_distinct [OF assms(2)] Cons \<open>fst x = leaf\<close> by (metis distinct.simps(2) image_eqI list.set_map list.simps(9))
    ultimately have "set out = (\<Union>y \<in> set ws. set (vacuum_actions snap (co_Actions (snd y))))" by (simp add: out_def Cons)
    then show ?thesis by (simp add: Cons set_eq_iff vacuum_actions_set)
  qed (simp add: out_def)
  moreover obtain s2 where "vacuum_loop n leaf leaf snap [] s1 = Some (s2, out)" "cs_ok s2" "cs_files s2 = cs_files s1"
    using vacuum_loop_ok [OF s1(2), of leaf xs n leaf snap "[]"] assms(2,3) s1(3) by (auto simp: out_def)
  ultimately show ?thesis using s1 by (auto simp: Vacuumable_def)
qed

theorem vacuum_lists_unreferenced_witness:
  "\<exists>s' out. Vacuumable 3 2 demo_store = Some (s', Inr out) \<and> set out = {obj 10}"
proof -
  have "{d. obj_ID d \<notin> dom (map_of (objects (snap_of [11]))) \<and> (\<exists>x \<in> set (tl [(2 :: ksuid, demo_dels), (1, demo_adds)]). \<exists>k. Add k d \<in> set (co_Actions (snd x)))} = {obj 10}"
    by (auto simp: demo_fields snap_of_def)
  then show ?thesis
    using vacuum_lists_unreferenced [OF demo_chain(1,2) _ demo_replay(1), of 3] by auto
qed

end
