(* ===== verification/Lake_Branch_Inv.thy ===== *)
theory Lake_Branch_Inv
  imports Lake_Branch Commits_History
begin

text \<open>
  Properties of the operations on branches: a commit to a branch under concurrent commits loses no
  update, deletes are checked against the tip, and merges carry a branch into another one.
\<close>

subsection \<open>Commits under interference\<close>

definition cenv_ok :: "'v cenv \<Rightarrow> bool" where
  "cenv_ok E = (env_ok bc_Name (ce_disk E) \<and> (\<forall>r. env_ok bc_Name (ce_env E r) \<and> write_env_ok bc_Name (ce_env' E r)))"

lemma Lookup_name:
  assumes "\<forall>j. act_ok bc_Name (acts j)" and "disk_safe bc_Name (snd x) h n" and "n < 2 ^ 64 - 2" and "store_safe bc_Name (fst x) (snd x) h"
    and "Branches_LookupByName_at acts name x = (x', r)"
  shows "\<exists>h' n'. grows bc_Name (snd x) h (snd x') h' n' \<and> store_safe bc_Name (fst x') (snd x') h' \<and> (\<forall>c. r = Inr c \<longrightarrow> bc_Name c = name)"
proof -
  obtain s' d' q where l: "load_at bc_Name acts (fst x) (snd x) = ((s', d'), q)" by (metis surj_pair)
  have "x' = (s', d')" "\<forall>c. r = Inr c \<longrightarrow> bc_Name c = name"
    using assms(5) l by (cases q; auto simp: Branches_LookupByName_at_def Branches_All_at_def Store_All_at_def find_Some_iff split: option.splits)+
  then show ?thesis using load_at_safe [OF assms(1-4) l] by auto
qed

lemma outcome_pair:
  "outcome key chk why es d h (x, q) \<longleftrightarrow> (\<exists>h' n'. disk_safe key (snd x) h' n' \<and> h \<le> h' \<and> logFiles d \<subseteq>\<^sub>m logFiles (snd x) \<and>
     store_safe key (fst x) (snd x) h' \<and>
     (case q of Inr _ \<Rightarrow> (\<exists>p>h. p \<le> h' \<and> committed key chk es (snd x) p) | Inl e \<Rightarrow> n' < 2 ^ 64 - 2 \<and> refused key why (snd x) h h' e))"
  by (cases x; cases q) (simp_all add: outcome_def)

text \<open>
  The branch pointer moved to commit \<open>i\<close>: past position \<open>h\<close> the log has an update of the branch to \<open>i\<close>, the
  commit object was made for a parent configuration and written, and right before that update the tip of
  the branch was the commit of that parent configuration.
\<close>

definition branch_moved :: "gostring \<Rightarrow> 'v constructor \<Rightarrow> nat \<Rightarrow> bstore \<Rightarrow> 'v cstore \<Rightarrow> ksuid \<Rightarrow> bool" where
  "branch_moved name create h x cs i \<longleftrightarrow> (\<exists>p c m b o' j msg0 msg1 cs1 cs2.
     h < p \<and> logFiles (snd x) (of_nat p) = Some [JUpdate (c\<lparr>bc_Commit := i\<rparr>)] \<and> bc_Name c = name \<and>
     log_state bc_Name (snd x) (p - 1) = Inr m \<and> m name = Some b \<and> bc_Commit b = bc_Commit c \<and>
     create c j msg0 cs1 = Some (msg1, cs2, Inr o') \<and> co_Commit o' = i \<and> Store_Put o' cs2 = (cs, Inr ()))"

lemma branch_moved_mono: "branch_moved name create h x cs i \<Longrightarrow> h' \<le> h \<Longrightarrow> branch_moved name create h' x cs i"
  unfolding branch_moved_def by (elim ex_forward) auto

lemma branch_commit_loop_ok:
  assumes "cenv_ok E"
  shows "disk_safe bc_Name (snd x) h n \<Longrightarrow> store_safe bc_Name (fst x) (snd x) h \<Longrightarrow> n < 2 ^ 64 - 2 \<Longrightarrow>
    branch_commit_loop name create E k r msg (x, cs) = Some ((x', cs'), Inr i) \<Longrightarrow>
    logFiles (snd x) \<subseteq>\<^sub>m logFiles (snd x') \<and> branch_moved name create h x' cs' i"
proof (induction k arbitrary: r msg x cs h n)
  case (Suc k)
  have env: "\<forall>j. act_ok bc_Name (ce_disk E r j)" "env_ok bc_Name (ce_env E r)" "write_env_ok bc_Name (ce_env' E r)"
    using assms by (simp_all add: cenv_ok_def env_ok_def)
  obtain x1 q where l: "Branches_LookupByName_at (ce_disk E r) name x = (x1, q)" by (meson surj_pair)
  obtain h1 n1 where ext: "grows bc_Name (snd x) h (snd x1) h1 n1" and L: "store_safe bc_Name (fst x1) (snd x1) h1" "\<forall>c. q = Inr c \<longrightarrow> bc_Name c = name"
    using Lookup_name [OF env(1) Suc.prems(1,3,2) l] by blast
  have 1: "disk_safe bc_Name (snd x1) h1 n1" "h \<le> h1" "n1 < 2 ^ 64 - 2" "logFiles (snd x) \<subseteq>\<^sub>m logFiles (snd x1)"
    using ext by (simp_all add: grows_def)
  obtain c where c: "q = Inr c" "bc_Name c = name" using Suc.prems(4) l L by (cases q) auto
  obtain msg1 cs2 o' where cr: "create c r msg (ce_commits E r cs) = Some (msg1, cs2, Inr o')"
    using Suc.prems(4) l c(1) by (auto split: option.splits sum.splits)
  obtain cs3 where put: "Store_Put o' cs2 = (cs3, Inr ())"
    using Suc.prems(4) l c(1) cr by (cases "Store_Put o' cs2") (auto split: sum.splits)
  define f where "f = (\<lambda>e :: bconfig. bc_Commit e = bc_Commit c)"
  define c' where "c' = c\<lparr>bc_Commit := co_Commit o'\<rparr>"
  obtain x2 u where up: "Branches_Update c' (Some f) (ce_env E r) (ce_env' E r) x1 = (x2, u)" by (meson surj_pair)
  have "outcome bc_Name (constraint_chk (bc_Name c') (Some f)) (because (constraint_chk (bc_Name c') (Some f))) [JUpdate c'] (snd x1) h1 (x2, u)"
    using commit_loop_ok [OF env(2,3) checks_ok(4) 1(1) L(1) 1(3), of c' "Some f" maxRetries] up
    by (simp add: Branches_Update_def Store_Update_def Store_commit_def)
  then obtain h2 n2 where o2: "disk_safe bc_Name (snd x2) h2 n2" "h1 \<le> h2" "logFiles (snd x1) \<subseteq>\<^sub>m logFiles (snd x2)"
    "store_safe bc_Name (fst x2) (snd x2) h2"
    "case u of Inr _ \<Rightarrow> (\<exists>p>h1. p \<le> h2 \<and> committed bc_Name (constraint_chk (bc_Name c') (Some f)) [JUpdate c'] (snd x2) p)
      | Inl e \<Rightarrow> n2 < 2 ^ 64 - 2 \<and> refused bc_Name (because (constraint_chk (bc_Name c') (Some f))) (snd x2) h1 h2 e"
    unfolding outcome_pair by blast
  have sub: "logFiles (snd x) \<subseteq>\<^sub>m logFiles (snd x2)"
    by (rule map_le_trans [OF 1(4) o2(3)])
  show ?case
  proof (cases u)
    case (Inr v)
    then have res: "x' = x2" "cs' = cs3" "i = co_Commit o'"
      using Suc.prems(4) l c(1) cr put up by (simp_all add: f_def c'_def)
    obtain p where p: "h1 < p" "committed bc_Name (constraint_chk (bc_Name c') (Some f)) [JUpdate c'] (snd x2) p" using o2(5) Inr by auto
    then obtain m b where "log_state bc_Name (snd x2) (p - 1) = Inr m" "m name = Some b" "bc_Commit b = bc_Commit c"
      "logFiles (snd x2) (of_nat p) = Some [JUpdate c']"
      using c(2) by (auto simp: committed_def constraint_chk_def f_def c'_def split: option.splits if_splits)
    then have "branch_moved name create h x' cs' i"
      unfolding branch_moved_def using res p(1) 1(2) c(2) cr put
      by (intro exI [of _ p] exI [of _ c] exI [of _ m] exI [of _ b] exI [of _ o'] exI [of _ r] exI [of _ msg] exI [of _ msg1]
          exI [of _ "ce_commits E r cs"] exI [of _ cs2]) (simp add: c'_def)
    then show ?thesis using sub res(1) by simp
  next
    case (Inl e)
    obtain cs4 rm where rm: "Store_Remove o' cs3 = (cs4, rm)" by (meson surj_pair)
    have "branch_commit_loop name create E k (r + 1) msg1 (x2, cs4) = Some ((x', cs'), Inr i)"
      using Suc.prems(4) l c(1) cr put up Inl rm by (simp add: f_def c'_def split: if_splits sum.splits)
    then have "logFiles (snd x2) \<subseteq>\<^sub>m logFiles (snd x')" "branch_moved name create h2 x' cs' i"
      using Suc.IH [OF o2(1,4)] o2(5) Inl by auto
    moreover have "h \<le> h2" using 1(2) o2(2) by simp
    ultimately show ?thesis using sub map_le_trans branch_moved_mono by blast
  qed
qed simp

subsection \<open>Commits without interference\<close>

definition calm :: "'v cenv" where
  "calm = \<lparr>ce_disk = quiet, ce_commits = (\<lambda>_ cs. cs), ce_env = (\<lambda>_. quiet), ce_env' = (\<lambda>_. quiet)\<rparr>"

text \<open>A pool whose branch journal represents \<open>m\<close> and whose commit store is right.\<close>

definition pool_ok :: "'v pool \<Rightarrow> nat \<Rightarrow> (gostring \<rightharpoonup> bconfig) \<Rightarrow> bool" where
  "pool_ok p n m = (holds bc_Name (fst p) n m \<and> n < max_log \<and> cs_ok (snd p))"

text \<open>What a commit made without interference leaves: the branch at the new commit, on top of its old history.\<close>

definition committed_on :: "'v pool \<Rightarrow> nat \<Rightarrow> (gostring \<rightharpoonup> bconfig) \<Rightarrow> gostring \<Rightarrow> bconfig \<Rightarrow> (ksuid \<times> 'v cobject) list \<Rightarrow> 'v cobject \<Rightarrow> bool" where
  "committed_on p n m name c xs o' = (holds bc_Name (fst p) (n + 1) (m(name \<mapsto> c\<lparr>bc_Commit := co_Commit o'\<rparr>)) \<and>
     cs_ok (snd p) \<and> chain (cs_files (snd p)) (co_Commit o') ((co_Commit o', o') # xs))"

lemma lookup_calm:
  assumes "pool_ok (x, cs) n m" and "m name = Some c"
  obtains x' where "Branches_LookupByName_at (ce_disk calm r) name x = (x', Inr c)" and "holds bc_Name x' n m" and "bc_Name c = name"
proof -
  have h: "holds bc_Name x n m" using assms(1) by (simp add: pool_ok_def)
  obtain x' q where l: "Branches_LookupByName name x = (x', q)" by (meson surj_pair)
  have "holds bc_Name x' n m" "q = Inr c" using Branches_LookupByName_map [OF h l] assms(2) by simp_all
  moreover have "bc_Name c = name" using h assms(2) by (simp add: holds_def)
  ultimately show ?thesis using that l by (simp add: calm_def quiet_def Branches_LookupByName_def)
qed

lemma branch_commit_step: "branch_commit name create E msg p = branch_commit_loop name create E (Suc 9) 0 msg p"
  by (simp add: branch_commit_def maxCommitRetries_def)

lemma commit_calm:
  assumes p: "pool_ok (x, cs) n m" "m name = Some c" "chain (cs_files cs) (bc_Commit c) xs"
    and create: "create c 0 msg cs = Some (msg', cs1, Inr o')" "cs_ok cs1" "cs_files cs1 = cs_files cs"
    and o': "co_ok o'" "co_Parent o' = bc_Commit c" "co_Commit o' \<noteq> 0" "cs_files cs (co_Commit o') = None"
  shows "\<exists>p'. branch_commit name create calm msg (x, cs) = Some (p', Inr (co_Commit o')) \<and> committed_on p' n m name c xs o'"
proof -
  obtain x1 where l: "Branches_LookupByName_at (ce_disk calm 0) name x = (x1, Inr c)" "holds bc_Name x1 n m" "bc_Name c = name"
    using lookup_calm [OF p(1,2)] .
  obtain cs2 where put: "Store_Put o' cs1 = (cs2, Inr ())" "cs_ok cs2" "cs_files cs1 \<subseteq>\<^sub>m cs_files cs2"
    "commit_at (cs_files cs2) (co_Commit o') = Some o'" using Put_ok [OF create(2) o'(1)] create(3) o'(4) by auto
  define f where "f = (\<lambda>e :: bconfig. bc_Commit e = bc_Commit c)"
  define c' where "c' = c\<lparr>bc_Commit := co_Commit o'\<rparr>"
  obtain x2 u where up: "Branches_Update c' (Some f) quiet quiet x1 = (x2, u)" by (meson surj_pair)
  have n: "n < max_log" using p(1) by (simp add: pool_ok_def)
  have "u = Inr ()" "holds bc_Name x2 (n + 1) (m(bc_Name c' \<mapsto> c'))"
    using jk.update_law [OF l(2) n up [unfolded Branches_Update_def]] p(2) l(3) by (simp_all add: constraint_chk_def f_def c'_def)
  moreover from this(1) have "branch_commit name create calm msg (x, cs) = Some ((x2, cs2), Inr (co_Commit o'))"
    unfolding branch_commit_step branch_commit_loop.simps using l(1) create(1) put(1) up by (simp add: calm_def f_def c'_def)
  moreover have "chain (cs_files cs2) (co_Commit o') ((co_Commit o', o') # xs)"
    using chain_put [of "cs_files cs" o' xs "cs_files cs2"] p(3) o'(2,3) put(3,4) create(3) by simp
  ultimately show ?thesis using l(3) put(2) by (intro exI [of _ "(x2, cs2)"]) (simp add: committed_on_def c'_def)
qed

lemma commit_calm_error:
  assumes "pool_ok (x, cs) n m" and "m name = Some c" and "create c 0 msg cs = Some (msg', cs1, Inl e)"
  shows "\<exists>x'. branch_commit name create calm msg (x, cs) = Some ((x', cs1), Inl e) \<and> holds bc_Name x' n m"
proof -
  obtain x1 where "Branches_LookupByName_at (ce_disk calm 0) name x = (x1, Inr c)" "holds bc_Name x1 n m"
    using lookup_calm [OF assms(1,2)] .
  then show ?thesis unfolding branch_commit_step branch_commit_loop.simps using assms(3) by (simp add: calm_def)
qed

lemma with_snapshot_ok:
  assumes "cs_ok cs" and "chain (cs_files cs) c xs" and "length xs < cx_fuel cx" and "replay_chain xs = Inr snap"
  obtains cs1 where "\<And>f. with_snapshot cx c msg cs f = f cs1 snap" and "cs_ok cs1" and "cs_files cs1 = cs_files cs"
proof -
  obtain cs1 where "Store_Snapshot (cx_fuel cx) c cs = Some (cs1, Inr snap)" "cs_ok cs1" "cs_files cs1 = cs_files cs"
    using Snapshot_ok [OF assms(1-3)] assms(4) by metis
  then show ?thesis using that by (simp add: with_snapshot_def)
qed

subsection \<open>Deleting objects\<close>

lemma lookup_all_ok: "lookup_all snap is = (if set is \<subseteq> ids snap then Inr (map (\<lambda>i. the (map_of (objects snap) i)) is)
   else Inl (ErrNotFound (hd (filter (\<lambda>i. i \<notin> ids snap) is))))"
proof (induction "is")
  case (Cons i "is")
  show ?case
  proof (cases "map_of (objects snap) i")
    case (Some d)
    then have "i \<in> ids snap" by auto
    then show ?thesis using Cons Some by (simp add: Lookup_def)
  qed (auto simp: Lookup_def)
qed simp

lemma NewDeletesObject_fields:
  "co_Commit (NewDeletesObject parent r a is) = ca_commit a" "co_Parent (NewDeletesObject parent r a is) = parent"
  "aplays (co_Actions (NewDeletesObject parent r a is)) st =
     (if distinct is \<and> set is \<subseteq> dom (fst st) then Some (fst st |` (- set is), snd st) else None)"
  by (simp_all add: NewDeletesObject_def append_folds append_folds_commit aplays_append aplays_deletes)

lemma replay_top: "replay_chain ((c, o') # xs) = res_bind (replay_chain xs) (play_actions snap_ops (co_Actions o'))"
proof -
  have "play_objects [o'] = play_actions snap_ops (co_Actions o')"
  proof
    fix s :: "'a snapshot"
    show "play_objects [o'] s = play_actions snap_ops (co_Actions o') s"
      by (cases "play_actions snap_ops (co_Actions o') s") simp_all
  qed
  then show ?thesis using replay_chain_append [of "[(c, o')]" xs] by simp
qed

text \<open>
  Deleting objects from a branch. Without interference, if all the objects are in the tip's snapshot,
  the delete succeeds at the first attempt and the branch moves to a new commit on top of its history; the
  new snapshot is the old one without these objects when no ID was given twice, and cannot be computed when
  one was: the commit deletes the object twice, and the branch is unusable from then on. If an object is
  not in the snapshot, the delete fails with the first such ID and the branch stays where it was. \<close>

theorem branch_delete:
  assumes "pool_ok (x, cs) n m" and "m name = Some c" and "chain (cs_files cs) (bc_Commit c) xs" and "length xs < cx_fuel cx"
    and "replay_chain xs = Inr snap" and "cx_new cx 0 \<noteq> 0" and "cs_files cs (cx_new cx 0) = None"
  shows "if set is \<subseteq> ids snap then
      \<exists>p' o'. Branch_Delete cx name is author message calm (x, cs) = Some (p', Inr (cx_new cx 0)) \<and>
        co_Commit o' = cx_new cx 0 \<and> committed_on p' n m name c xs o' \<and>
        (case replay_chain ((cx_new cx 0, o') # xs) of
          Inr s \<Rightarrow> distinct is \<and> map_of (objects s) = map_of (objects snap) |` (- set is) \<and> set (vectors s) = set (vectors snap)
        | Inl e \<Rightarrow> \<not> distinct is)
    else \<exists>x' cs'. Branch_Delete cx name is author message calm (x, cs) =
          Some ((x', cs'), Inl (CommitErr (ErrNotFound (hd (filter (\<lambda>i. i \<notin> ids snap) is))))) \<and>
        pool_ok (x', cs') n m \<and> cs_files cs' = cs_files cs"
proof -
  have cs: "cs_ok cs" using assms(1) by (simp add: pool_ok_def)
  obtain cs1 where w: "\<And>f. with_snapshot cx (bc_Commit c) message cs f = f cs1 snap" "cs_ok cs1" "cs_files cs1 = cs_files cs"
    using with_snapshot_ok [OF cs assms(3-5)] by metis
  have snap: "snap_wf snap" using replay_chain_wf [OF assms(5)] .
  show ?thesis
  proof (cases "set is \<subseteq> ids snap")
    case True
    define msg where "msg = (if message = [] then deleteMessage (cx_id cx) (map Some (map (\<lambda>i. the (map_of (objects snap) i)) is)) else message)"
    define o' where "o' = NewDeletesObject (bc_Commit c) 0 (cx_args cx 0 author msg (cx_null cx)) is"
    have create: "delete_constructor cx is author c 0 message cs = Some (msg, cs1, Inr o')"
      using True by (simp add: delete_constructor_def w(1) lookup_all_ok msg_def o'_def Let_def)
    have o': "co_ok o'" "co_Commit o' = cx_new cx 0" "co_Parent o' = bc_Commit c"
      by (simp_all add: o'_def co_ok_objects NewDeletesObject_fields cx_args_def)
    obtain p' where p': "Branch_Delete cx name is author message calm (x, cs) = Some (p', Inr (cx_new cx 0))" "committed_on p' n m name c xs o'"
      using commit_calm [where create = "delete_constructor cx is author", OF assms(1-3) create w(2,3) o'(1,3)] o'(2) assms(6,7) by (auto simp: Branch_Delete_def)
    have "case play_actions snap_ops (co_Actions o') snap of
          Inr s \<Rightarrow> distinct is \<and> map_of (objects s) = map_of (objects snap) |` (- set is) \<and> set (vectors s) = set (vectors snap)
        | Inl e \<Rightarrow> \<not> distinct is"
      using sn.plays_all [OF snap, of "co_Actions o'"] True
      by (auto simp: o'_def NewDeletesObject_fields fst_sabs split: if_splits) (simp_all add: sabs_def)
    then show ?thesis using True p' o'(2) assms(5) by (auto simp: replay_top)
  next
    case False
    then have create: "delete_constructor cx is author c 0 message cs =
        Some (message, cs1, Inl (CommitErr (ErrNotFound (hd (filter (\<lambda>i. i \<notin> ids snap) is)))))"
      by (simp add: delete_constructor_def w(1) lookup_all_ok)
    then show ?thesis
      using False commit_calm_error [where create = "delete_constructor cx is author", OF assms(1,2) create] w(2,3) assms(1) by (auto simp: Branch_Delete_def pool_ok_def)
  qed
qed

subsection \<open>A pool for examples\<close>

definition demo_branch :: "ksuid \<Rightarrow> bconfig" where
  "demo_branch tip = Branches_NewConfig 0 (str ''main'') tip"

definition demo_branches :: "ksuid \<Rightarrow> bstore" where
  "demo_branches tip = fst (Branches_Add (demo_branch tip) quiet quiet (newStore, new_disk))"

definition demo_ctx :: "nat ctx" where
  "demo_ctx = \<lparr>cx_new = (\<lambda>r. 7 + of_nat r), cx_now = (\<lambda>_. 0), cx_id = (\<lambda>_. str ''id''), cx_quote = (\<lambda>s. s),
     cx_null = 0, cx_parse = (\<lambda>_. None), cx_fuel = 9\<rparr>"

lemma demo_branches_ok: "holds bc_Name (demo_branches tip) 1 [str ''main'' \<mapsto> demo_branch tip]"
proof -
  let ?x = "(newStore, new_disk) :: bstore"
  obtain x r where r: "Store_Insert bc_Name (demo_branch tip) quiet quiet (fst ?x) (snd ?x) = (x, r)" by (meson surj_pair)
  have k: "bc_Name (demo_branch tip) = str ''main''" by (simp add: demo_branch_def Branches_NewConfig_def)
  have "holds bc_Name x (0 + 1) (Map.empty(bc_Name (demo_branch tip) \<mapsto> demo_branch tip))"
    using jk.insert_law [OF new_disk_ok(3) _ r] by (simp add: insert_chk_def max_log_def)
  then show ?thesis using r k by (simp add: demo_branches_def Branches_Add_def)
qed

lemma demo_pool_ok: "pool_ok (demo_branches tip, demo_store) 1 [str ''main'' \<mapsto> demo_branch tip]"
  using demo_branches_ok demo_chain(1) by (simp add: pool_ok_def max_log_def)

lemma demo_commit: "bc_Commit (demo_branch tip) = tip" "cx_new demo_ctx 0 = 7" "cx_fuel demo_ctx = 9"
  by (simp_all add: demo_branch_def Branches_NewConfig_def demo_ctx_def)

lemma demo_files: "c \<noteq> 1 \<Longrightarrow> c \<noteq> 2 \<Longrightarrow> cs_files demo_store c = None"
proof -
  have s: "Serialize demo_adds = Inr (map FAction (co_Actions demo_adds))" "Serialize demo_dels = Inr (map FAction (co_Actions demo_dels))"
    by (simp_all add: Serialize_def Let_def demo_fields)
  assume "c \<noteq> 1" "c \<noteq> 2"
  then show ?thesis by (simp add: demo_store_def Store_Put_def s demo_ids OpenCommitStore_def)
qed

theorem branch_delete_witness:
  "(\<exists>p o' s. Branch_Delete demo_ctx (str ''main'') [10] [] [] calm (demo_branches 1, demo_store) = Some (p, Inr 7) \<and>
     replay_chain [(7, o'), (1, demo_adds)] = Inr s \<and> map_of (objects s) = map_of (objects (snap_of [11]))) \<and>
   (\<exists>p o' e. Branch_Delete demo_ctx (str ''main'') [10, 10] [] [] calm (demo_branches 1, demo_store) = Some (p, Inr 7) \<and>
     committed_on p 1 [str ''main'' \<mapsto> demo_branch 1] (str ''main'') (demo_branch 1) [(1, demo_adds)] o' \<and>
     replay_chain [(7, o'), (1, demo_adds)] = Inl e)"
proof -
  have r: "replay_chain [(1, demo_adds)] = Inr (snap_of [10, 11])" using demo_replay(2) by (simp add: replay_chain_def)
  have s: "map_of (objects (snap_of [10, 11])) |` (- {10}) = map_of (objects (snap_of [11]))" "set [10] \<subseteq> ids (snap_of [10, 11])"
    by (auto simp: snap_of_def restrict_map_def fun_eq_iff)
  note d = branch_delete [where x = "demo_branches 1" and cs = demo_store and cx = demo_ctx and c = "demo_branch 1" and name = "str ''main''"
      and author = "[]" and message = "[]", OF demo_pool_ok _ _ _ r, unfolded demo_commit]
  have "\<exists>p o'. Branch_Delete demo_ctx (str ''main'') is [] [] calm (demo_branches 1, demo_store) = Some (p, Inr 7) \<and>
      committed_on p 1 [str ''main'' \<mapsto> demo_branch 1] (str ''main'') (demo_branch 1) [(1, demo_adds)] o' \<and>
      (case replay_chain [(7, o'), (1, demo_adds)] of
        Inr s \<Rightarrow> distinct is \<and> map_of (objects s) = map_of (objects (snap_of [10, 11])) |` (- set is) | Inl e \<Rightarrow> \<not> distinct is)"
    if "set is = {10}" for "is"
    using d [of "is"] s(2) demo_chain(3) demo_files [of 7] that by (fastforce split: sum.splits)
  from this [of "[10]"] this [of "[10, 10]"] show ?thesis using s(1) by (fastforce split: sum.splits)
qed

text \<open>
  C1: No update of a branch is lost, on a storage engine that creates files exclusively. Other processes
  may act on the branch journal before every access a commit makes to its files, also inside the loads and
  between the two writes of the update, as they may in any operation of a journal store, and on the commit
  store between attempts. When a commit to a branch succeeds, the log of the journal has an update of the branch to
  the new commit past the position it started from, the commit object was made for the very commit that was
  the tip of the branch right before that update, and it was written; nothing already in the log is changed. \<close>

theorem branch_commit_no_lost_update:
  assumes "disk_safe bc_Name (snd x) h n" and "store_safe bc_Name (fst x) (snd x) h" and "n < 2 ^ 64 - 2" and "cenv_ok E"
    and "branch_commit name create E msg (x, cs) = Some ((x', cs'), Inr i)"
  shows "logFiles (snd x) \<subseteq>\<^sub>m logFiles (snd x') \<and> branch_moved name create h x' cs' i"
  using branch_commit_loop_ok [OF assms(4,1-3) assms(5) [unfolded branch_commit_def]] .

definition demo_load :: "nat constructor" where
  "demo_load parent r msg cs = Some (msg, cs, Inr (NewAddsObject (bc_Commit parent) r (cx_args demo_ctx r [] msg 0) [obj 12]))"

theorem branch_commit_no_lost_update_witness:
  "\<exists>x' cs'. branch_commit (str ''main'') demo_load calm [] (demo_branches 1, demo_store) = Some ((x', cs'), Inr 7) \<and>
     branch_moved (str ''main'') demo_load 1 x' cs' 7"
proof -
  have c: "cenv_ok (calm :: nat cenv)" using quiet_env [of bc_Name] by (simp add: cenv_ok_def calm_def)
  have h: "disk_safe bc_Name (snd (demo_branches 1)) 1 1" "store_safe bc_Name (fst (demo_branches 1)) (snd (demo_branches 1)) 1"
    using demo_branches_ok [of 1] by (simp_all add: holds_def disk_ok_safe store_ok_safe)
  define o' where "o' = NewAddsObject 1 0 (cx_args demo_ctx 0 [] [] 0) [obj 12]"
  have "co_ok o'" "co_Commit o' = 7" "co_Parent o' = 1"
    by (simp_all add: o'_def co_ok_objects) (simp_all add: NewAddsObject_def appendAdd_def co_append_def cx_args_def demo_commit)
  moreover have "demo_load (demo_branch 1) 0 [] demo_store = Some ([], demo_store, Inr o')"
    by (simp add: demo_load_def o'_def demo_commit)
  ultimately obtain x' cs' where r: "branch_commit (str ''main'') demo_load calm [] (demo_branches 1, demo_store) = Some ((x', cs'), Inr 7)"
    using commit_calm [where create = demo_load and name = "str ''main''" and c = "demo_branch 1" and xs = "[(1, demo_adds)]"
        and msg = "[]" and msg' = "[]" and ?cs1.0 = demo_store and o' = o', OF demo_pool_ok [of 1]]
      demo_chain(1,3) demo_files [of 7] by (auto simp: demo_commit)
  show ?thesis using branch_commit_no_lost_update [OF h _ c r] r by auto
qed

subsection \<open>Merging branches\<close>

lemma commonAncestor_eq:
  assumes "set ys \<inter> set ws = {}" and "b \<notin> set ws" and "set ws \<inter> set (b # zs) = {}"
  shows "commonAncestor (ys @ b # zs) (ws @ b # zs) = b"
proof -
  have "find (\<lambda>i. i \<in> set (ys @ b # zs)) (ws @ b # zs) = Some b"
    using assms by (induction ws) auto
  then show ?thesis by (simp add: commonAncestor_def)
qed

lemma replay_history:
  assumes "replay_chain zs = Inr b"
  shows "replay_chain (ys @ zs) = play_actions snap_ops (history_actions ys) b"
  using assms by (simp add: replay_chain_append play_history)

lemma NewCommitObject_fields:
  "co_Commit (NewCommitObject p parent r a) = ca_commit a" "co_Parent (NewCommitObject p parent r a) = parent"
  by (simp_all add: NewCommitObject_def append_folds_commit)

text \<open>
  C9: What a merge does to the data objects of the parent branch. Let the two histories part at a common
  base commit, let no object be deleted on both sides, let nothing that was deleted in one of the histories
  since the base be touched again there (the patch of a history that deletes an object and adds it again is
  refused), let the child have something to give, and let no other process act. Then the merge succeeds at the first
  attempt; the parent branch moves to a new commit on top of its history whose data objects are those of
  the parent's tip less what the child deleted and with what it added. The vectors are those of the
  parent's tip: what the child did to vectors is not carried over. \<close>

theorem branch_merge:
  assumes pool: "pool_ok (x, cs) n m" "m name = Some c"
    and parent: "chain (cs_files cs) (bc_Commit c) (ys @ (i, ob) # zs)" "length (ys @ (i, ob) # zs) < cx_fuel cx"
      "replay_chain (ys @ (i, ob) # zs) = Inr t" "clean {} (history_actions ys)"
    and child: "chain (cs_files cs) (bc_Commit k) (ws @ (i, ob) # zs)" "length (ws @ (i, ob) # zs) < cx_fuel cx"
      "replay_chain (ws @ (i, ob) # zs) = Inr d" "clean {} (history_actions ws)"
    and base: "replay_chain ((i, ob) # zs) = Inr b" "fst ` set ys \<inter> fst ` set ws = {}"
    and new: "cx_new cx 0 \<noteq> 0" "cs_files cs (cx_new cx 0) = None"
    and diff: "(ids b - ids t) \<inter> (ids b - ids d) = {}" "\<not> (ids b \<subseteq> ids d \<and> ids d - ids b \<subseteq> ids t)"
  shows "\<exists>p' o' s. mergeInto cx False k name author message calm (x, cs) = Some (p', Inr (cx_new cx 0)) \<and>
    co_Commit o' = cx_new cx 0 \<and> committed_on p' n m name c (ys @ (i, ob) # zs) o' \<and>
    replay_chain ((cx_new cx 0, o') # ys @ (i, ob) # zs) = Inr s \<and> set (vectors s) = set (vectors t) \<and>
    map_of (objects s) = (\<lambda>j. if j \<in> ids b - ids d then None else if j \<in> ids t then map_of (objects t) j
      else if j \<in> ids b then None else map_of (objects d) j)"
proof -
  have cs: "cs_ok cs" using pool(1) by (simp add: pool_ok_def)
  have bz: "chain (cs_files cs) i ((i, ob) # zs)" using chain_suffix [OF parent(1)] .
  have i0: "i \<noteq> 0" using bz by (simp add: chain_Cons)
  have nz: "bc_Commit k \<noteq> 0" "bc_Commit c \<noteq> 0"
    using child(1) parent(1) by (metis chain_0 append_is_Nil_conv list.distinct(1))+
  obtain cs1 where c1: "Store_Path (cx_fuel cx) (bc_Commit k) cs = Some (cs1, Inr (map fst (ws @ (i, ob) # zs)))" "cs_ok cs1" "cs_files cs1 = cs_files cs"
    using Path_ok [OF cs child(1,2) nz(1)] by blast
  obtain cs2 where c2: "Store_Path (cx_fuel cx) (bc_Commit c) cs1 = Some (cs2, Inr (map fst (ys @ (i, ob) # zs)))" "cs_ok cs2" "cs_files cs2 = cs_files cs"
    using Path_ok [OF c1(2) _ parent(2) nz(2)] parent(1) c1(3) by auto
  have anc: "commonAncestor (map fst (ys @ (i, ob) # zs)) (map fst (ws @ (i, ob) # zs)) = i"
    using commonAncestor_eq [of "map fst ys" "map fst ws" i "map fst zs"] base(2) chain_distinct [OF child(1)] by (auto simp: image_iff)
  have bl: "length ((i, ob) # zs) < cx_fuel cx" using parent(2) by simp
  obtain cs3 where c3: "\<And>f. with_snapshot cx i message cs2 f = f cs3 b" "cs_ok cs3" "cs_files cs3 = cs_files cs"
    using with_snapshot_ok [OF c2(2) _ bl base(1)] bz c2(3) by metis
  have bw: "snap_wf b" using replay_chain_wf [OF base(1)] .
  have hp: "play_actions snap_ops (history_actions ys) b = Inr t" "play_actions snap_ops (history_actions ws) b = Inr d"
    using parent(3) child(3) replay_history [OF base(1)] by simp_all
  obtain q where q: "play_actions patch_ops (history_actions ws) (NewPatch (SnapView b)) = Inr q" "pinv q" "pabs q = sabs d" "base q = SnapView b"
    using play_patch [OF bw child(4) hp(2)] .
  obtain p where p: "play_actions patch_ops (history_actions ys) (NewPatch (SnapView b)) = Inr p" "pinv p" "pabs p = sabs t" "base p = SnapView b"
    using play_patch [OF bw parent(4) hp(1)] .
  obtain cs4 where c4: "PatchOfPath (cx_fuel cx) b i (bc_Commit k) cs3 = Some (cs4, Inr q)" "cs_ok cs4" "cs_files cs4 = cs_files cs"
    using PatchOfPath_ok [where b = b, OF c3(2) _ child(2) refl] child(1) c3(3) q(1) by auto
  obtain cs5 where c5: "PatchOfPath (cx_fuel cx) b i (bc_Commit c) cs4 = Some (cs5, Inr p)" "cs_ok cs5" "cs_files cs5 = cs_files cs"
    using PatchOfPath_ok [where b = b, OF c4(2) _ parent(2) refl] parent(1) c4(3) p(1) by auto
  obtain df where df: "Diff p q = Inr df"
    using merge_empty [OF p(2,4,3) q(2,4,3)] diff(2) by (cases "Diff p q") auto
  define msg where "msg = (if message = [] then str ''merged '' @ cx_quote cx (bc_Name k) @ str '' into '' @ cx_quote cx (bc_Name c) else message)"
  define o' where "o' = NewCommitObject df (bc_Commit c) 0 (cx_args cx 0 author msg (cx_null cx))"
  have create: "buildMergeObject cx k author c 0 message cs = Some (msg, cs5, Inr o')"
    using c1(1) c2(1) c4(1) c5(1) df i0 by (simp add: buildMergeObject_def anc c3(1) msg_def o'_def Let_def del: map_append)
  have o': "co_ok o'" "co_Commit o' = cx_new cx 0" "co_Parent o' = bc_Commit c"
    by (simp_all add: o'_def co_ok_objects NewCommitObject_fields cx_args_def)
  obtain p' where p': "mergeInto cx False k name author message calm (x, cs) = Some (p', Inr (cx_new cx 0))" "committed_on p' n m name c (ys @ (i, ob) # zs) o'"
    using commit_calm [where create = "buildMergeObject cx k author", OF pool parent(1) create c5(2,3) o'(1,3)] o'(2) new by (auto simp: mergeInto_def)
  obtain s where s: "Play snap_ops t o' = Inr s" "set (vectors s) = set (vectors t)"
    "map_of (objects s) = (\<lambda>j. if j \<in> ids b - ids d then None else if j \<in> ids t then map_of (objects t) j
      else if j \<in> ids b then None else map_of (objects d) j)"
    using merge_plays [OF p(2,4,3) q(2,4,3) diff(1) replay_chain_wf [OF parent(3)] df] unfolding o'_def by blast
  then have "replay_chain ((cx_new cx 0, o') # ys @ (i, ob) # zs) = Inr s" using parent(3) by (simp add: replay_top Play_def)
  then show ?thesis using p' o'(2) s(2,3) by blast
qed

definition demo_child :: "nat cobject" where
  "demo_child = NewAddsObject 1 0 (cargs 3) [obj 12]"

definition merge_store :: "nat cstore" where
  "merge_store = fst (Store_Put demo_child demo_store)"

lemma demo_child_fields: "co_Commit demo_child = 3" "co_Parent demo_child = 1" "co_ok demo_child"
  by (simp_all add: demo_child_def co_ok_objects) (simp_all add: demo_fields)

lemma merge_chains:
  "cs_ok merge_store" "chain (cs_files merge_store) 2 [(2, demo_dels), (1, demo_adds)]"
  "chain (cs_files merge_store) 3 [(3, demo_child), (1, demo_adds)]" "cs_files merge_store 7 = None"
proof -
  obtain s where s: "Store_Put demo_child demo_store = (s, Inr ())" "cs_ok s" "cs_files demo_store \<subseteq>\<^sub>m cs_files s"
    "commit_at (cs_files s) 3 = Some demo_child" "dom (cs_files s) = insert 3 (dom (cs_files demo_store))"
    using Put_ok [OF demo_chain(1) demo_child_fields(3)] demo_files [of 3] by (auto simp: demo_child_fields)
  have m: "merge_store = s" using s(1) by (simp add: merge_store_def)
  show "cs_ok merge_store" using s(2) m by simp
  show "chain (cs_files merge_store) 2 [(2, demo_dels), (1, demo_adds)]" using chain_mono [OF demo_chain(2) s(3)] m by simp
  show "chain (cs_files merge_store) 3 [(3, demo_child), (1, demo_adds)]"
    using chain_put [of "cs_files demo_store" demo_child "[(1, demo_adds)]" "cs_files s"] demo_chain(3) s(3,4) m by (simp add: demo_child_fields)
  have "7 \<notin> dom (cs_files s)" using s(5) demo_files [of 7] by (auto simp: domIff)
  then show "cs_files merge_store 7 = None" using m by (simp add: domIff)
qed

lemma merge_replays:
  "replay_chain [(2, demo_dels), (1, demo_adds)] = Inr (snap_of [11])"
  "replay_chain [(3, demo_child), (1, demo_adds)] = Inr (snap_of [10, 11, 12])"
  "replay_chain [(1, demo_adds)] = Inr (snap_of [10, 11])"
  "clean {} (history_actions [(2, demo_dels)])" "clean {} (history_actions [(3, demo_child)])"
  by (simp_all add: replay_chain_def history_actions_def demo_fields demo_child_def snap_run NewSnapshot_def)

theorem branch_merge_witness:
  "\<exists>p' o' s. mergeInto demo_ctx False (Branches_NewConfig 0 (str ''child'') 3) (str ''main'') [] [] calm (demo_branches 2, merge_store) = Some (p', Inr 7) \<and>
    replay_chain [(7, o'), (2, demo_dels), (1, demo_adds)] = Inr s \<and> map_of (objects s) = map_of (objects (snap_of [11, 12]))"
proof -
  let ?k = "Branches_NewConfig 0 (str ''child'') 3"
  have pool: "pool_ok (demo_branches 2, merge_store) 1 [str ''main'' \<mapsto> demo_branch 2]"
    using demo_branches_ok merge_chains(1) by (simp add: pool_ok_def max_log_def)
  have k: "bc_Commit ?k = 3" by (simp add: Branches_NewConfig_def)
  have e: "(\<lambda>j. if j \<in> ids (snap_of [10, 11]) - ids (snap_of [10, 11, 12]) then None else if j \<in> ids (snap_of [11]) then map_of (objects (snap_of [11])) j
      else if j \<in> ids (snap_of [10, 11]) then None else map_of (objects (snap_of [10, 11, 12])) j) = map_of (objects (snap_of [11, 12]))"
    by (auto simp: snap_of_def fun_eq_iff)
  have i: "(ids (snap_of [10, 11]) - ids (snap_of [11])) \<inter> (ids (snap_of [10, 11]) - ids (snap_of [10, 11, 12])) = {}"
    "\<not> (ids (snap_of [10, 11]) \<subseteq> ids (snap_of [10, 11, 12]) \<and> ids (snap_of [10, 11, 12]) - ids (snap_of [10, 11]) \<subseteq> ids (snap_of [11]))"
    by (auto simp: snap_of_def)
  show ?thesis
    using branch_merge [where ys = "[(2, demo_dels)]" and ws = "[(3, demo_child)]" and i = 1 and ob = demo_adds and zs = "[]" and cx = demo_ctx
        and k = ?k and c = "demo_branch 2" and name = "str ''main''" and author = "[]" and message = "[]" and t = "snap_of [11]"
        and d = "snap_of [10, 11, 12]" and b = "snap_of [10, 11]", OF pool] merge_chains merge_replays i
    unfolding e by (auto simp: demo_commit k)
qed

end
