(* ===== verification/Live_Systems.thy ===== *)
theory Live_Systems
  imports Main
begin

text \<open>
  Step relations of goroutines of which every run comes to an end: an invariant, a weight that every step
  makes less, and a step from every state of the invariant that is not final.
\<close>

locale live_system =
  fixes step :: "'s \<Rightarrow> 's \<Rightarrow> bool" and inv :: "'s \<Rightarrow> bool" and final :: "'s \<Rightarrow> bool" and weight :: "'s \<Rightarrow> nat"
  assumes keeps: "inv s \<Longrightarrow> step s t \<Longrightarrow> inv t"
    and decreases: "step s t \<Longrightarrow> weight t < weight s"
    and progress: "inv s \<Longrightarrow> \<not> final s \<Longrightarrow> \<exists>t. step s t"
begin

lemma run_inv: "step\<^sup>*\<^sup>* s t \<Longrightarrow> inv s \<Longrightarrow> inv t"
  by (induction rule: rtranclp_induct) (blast intro: keeps)+

lemma ends: "inv s \<Longrightarrow> \<exists>t. step\<^sup>*\<^sup>* s t \<and> final t"
proof (induction s rule: measure_induct_rule [of weight])
  case (less s)
  show ?case
  proof (cases "final s")
    case False
    then obtain t where "step s t" using progress less.prems by blast
    then show ?thesis using less.IH [OF decreases] keeps less.prems by (meson converse_rtranclp_into_rtranclp)
  qed blast
qed

lemma no_infinite_run: "\<not> (\<forall>k. step (r k) (r (Suc k)))"
proof
  assume r: "\<forall>k. step (r k) (r (Suc k))"
  have "weight (r k) + k \<le> weight (r 0)" for k
  proof (induction k)
    case (Suc k)
    then show ?case using decreases [of "r k" "r (Suc k)"] r by simp
  qed simp
  from this [of "Suc (weight (r 0))"] show False by simp
qed

end

end
