(* ===== verification/Lake_Vacuum.thy ===== *)
theory Lake_Vacuum
  imports Lake_Branch Commits_History Live_Systems "HOL-Library.Multiset"
begin

text \<open>
  The goroutines of \<open>Vacuum\<close> (\<open>lake/pool.go\<close>): one lists the objects and sends them over an unbuffered
  channel, the main one receives them and starts a worker for each file, in an \<open>errgroup\<close> with a limit on
  the number of goroutines that run at a time, the lister among them. The theorems compare the runs of
  the goroutines with the sequential \<open>Pool_Vacuum\<close>.
\<close>

subsection \<open>The goroutines\<close>

datatype job = CheckSeq ksuid | DeleteSeq ksuid | DeleteSeek ksuid

text \<open>The workers started for one object, in order.\<close>

definition jobs :: "bool \<Rightarrow> ksuid \<Rightarrow> job list" where
  "jobs dryrun i = (if dryrun then [CheckSeq i] else [DeleteSeq i, DeleteSeek i])"

datatype lister = Sending | Closed | Exited
datatype mainloc = Receiving | Starting "job list" | Waiting | Returned

record vstate =
  todo :: "ksuid list"
  listing :: lister
  at :: mainloc
  running :: "job multiset"
  failed :: bool
  files :: dataFiles
  vacuumed :: "ksuid list"

definition vstart :: "dataFiles \<Rightarrow> ksuid list \<Rightarrow> vstate" where
  "vstart f is = \<lparr>todo = is, listing = Sending, at = Receiving, running = {#}, failed = False, files = f, vacuumed = []\<rparr>"

text \<open>What a worker does when the storage engine reports no error but that a file is missing.\<close>

fun work :: "job \<Rightarrow> dataFiles \<times> ksuid list \<Rightarrow> dataFiles \<times> ksuid list" where
  "work (CheckSeq i) (f, v) = (f, if df_seq f i then v @ [i] else v)"
| "work (DeleteSeq i) (f, v) = (f\<lparr>df_seq := (df_seq f)(i := False)\<rparr>, if df_seq f i then v @ [i] else v)"
| "work (DeleteSeek i) (f, v) = (f\<lparr>df_seek := (df_seek f)(i := False)\<rparr>, v)"

definition slots :: "vstate \<Rightarrow> nat" where
  "slots s = size (running s) + (if listing s = Exited then 0 else 1)"

text \<open>
  \<open>limit\<close> is the limit of the group and \<open>bad\<close> the jobs on which the storage engine fails. After a
  failure the context is cancelled: further jobs may fail too and the lister may skip what it has to send.
\<close>

inductive vstep :: "bool \<Rightarrow> nat \<Rightarrow> (job \<Rightarrow> bool) \<Rightarrow> vstate \<Rightarrow> vstate \<Rightarrow> bool" for dryrun limit bad where
  hand_over: "listing s = Sending \<Longrightarrow> todo s = i # is \<Longrightarrow> at s = Receiving \<Longrightarrow>
    vstep dryrun limit bad s (s\<lparr>todo := is, at := Starting (jobs dryrun i)\<rparr>)"
| skip: "listing s = Sending \<Longrightarrow> todo s = i # is \<Longrightarrow> failed s \<Longrightarrow> vstep dryrun limit bad s (s\<lparr>todo := is\<rparr>)"
| close: "listing s = Sending \<Longrightarrow> todo s = [] \<Longrightarrow> vstep dryrun limit bad s (s\<lparr>listing := Closed\<rparr>)"
| exit: "listing s = Closed \<Longrightarrow> vstep dryrun limit bad s (s\<lparr>listing := Exited\<rparr>)"
| start: "at s = Starting (j # js) \<Longrightarrow> slots s < limit \<Longrightarrow>
    vstep dryrun limit bad s (s\<lparr>running := add_mset j (running s), at := (if js = [] then Receiving else Starting js)\<rparr>)"
| work: "j \<in># running s \<Longrightarrow> \<not> bad j \<Longrightarrow> work j (files s, vacuumed s) = (f, v) \<Longrightarrow>
    vstep dryrun limit bad s (s\<lparr>running := running s - {#j#}, files := f, vacuumed := v\<rparr>)"
| fail: "j \<in># running s \<Longrightarrow> bad j \<or> failed s \<Longrightarrow>
    vstep dryrun limit bad s (s\<lparr>running := running s - {#j#}, failed := True\<rparr>)"
| end_of_channel: "at s = Receiving \<Longrightarrow> listing s \<noteq> Sending \<Longrightarrow> vstep dryrun limit bad s (s\<lparr>at := Waiting\<rparr>)"
| wait: "at s = Waiting \<Longrightarrow> running s = {#} \<Longrightarrow> listing s = Exited \<Longrightarrow> vstep dryrun limit bad s (s\<lparr>at := Returned\<rparr>)"

definition returned :: "vstate \<Rightarrow> bool" where
  "returned s = (at s = Returned)"

subsection \<open>Progress\<close>

definition group_ok :: "nat \<Rightarrow> vstate \<Rightarrow> bool" where
  "group_ok limit s = (slots s \<le> limit \<and> at s \<noteq> Starting [] \<and> (at s = Waiting \<longrightarrow> listing s \<noteq> Sending))"

fun at_weight :: "mainloc \<Rightarrow> nat" where
  "at_weight Receiving = 2"
| "at_weight (Starting js) = 2 * length js + 3"
| "at_weight Waiting = 1"
| "at_weight Returned = 0"

fun lister_weight :: "lister \<Rightarrow> nat" where
  "lister_weight Sending = 2"
| "lister_weight Closed = 1"
| "lister_weight Exited = 0"

definition vweight :: "vstate \<Rightarrow> nat" where
  "vweight s = 6 * length (todo s) + lister_weight (listing s) + at_weight (at s) + size (running s)"

lemma size_job_done: "j \<in># M \<Longrightarrow> size (M - {#j#}) < size M"
  by (metis size_Diff1_less)

lemma vstep_decreases: "vstep dryrun limit bad s t \<Longrightarrow> vweight t < vweight s"
  by (induction rule: vstep.induct) (auto simp: vweight_def jobs_def size_job_done)

lemma vstep_keeps: "vstep dryrun limit bad s t \<Longrightarrow> group_ok limit s \<Longrightarrow> group_ok limit t"
proof (induction rule: vstep.induct)
  case (work j s f v)
  then show ?case using size_job_done [of j "running s"] by (auto simp: group_ok_def slots_def)
next
  case (fail j s)
  then show ?case using size_job_done [of j "running s"] by (auto simp: group_ok_def slots_def)
qed (auto simp: group_ok_def slots_def jobs_def split: if_splits)

lemma running_can_step:
  assumes "running s \<noteq> {#}" shows "\<exists>t. vstep dryrun limit bad s t"
proof -
  obtain j where j: "j \<in># running s" using assms by blast
  obtain f v where "work j (files s, vacuumed s) = (f, v)" by (meson surj_pair)
  then show ?thesis using j vstep.work [of j s bad f v dryrun limit] vstep.fail [of j s bad dryrun limit] by (cases "bad j") blast+
qed

lemma vstep_progress:
  assumes "2 \<le> limit" and ok: "group_ok limit s" and "\<not> returned s"
  shows "\<exists>t. vstep dryrun limit bad s t"
proof (cases "running s = {#}")
  case empty: True
  then have sl: "slots s < limit" using assms(1) by (simp add: slots_def)
  show ?thesis
  proof (cases "at s")
    case Receiving
    then show ?thesis by (cases "todo s"; cases "listing s = Sending") (blast intro: vstep.intros)+
  next
    case (Starting js)
    then show ?thesis using ok vstep.start [OF _ sl] by (cases js) (auto simp: group_ok_def)
  next
    case Waiting
    then show ?thesis using ok empty by (cases "listing s") (auto simp: group_ok_def intro: vstep.intros)
  next
    case Returned
    then show ?thesis using assms(3) by (simp add: returned_def)
  qed
qed (rule running_can_step)

interpretation vac: live_system "vstep dryrun (Suc (Suc n)) bad" "group_ok (Suc (Suc n))" returned vweight for dryrun n bad
  by unfold_locales (auto intro: vstep_keeps vstep_decreases vstep_progress)

lemma vstart_ok: "0 < limit \<Longrightarrow> group_ok limit (vstart f is)"
  by (simp add: vstart_def group_ok_def slots_def)

subsection \<open>The result of a run\<close>

text \<open>The files and the list of IDs after a multiset of jobs, whatever their order.\<close>

definition finished :: "dataFiles \<Rightarrow> job multiset \<Rightarrow> dataFiles \<times> ksuid list \<Rightarrow> bool" where
  "finished f E x = (df_seq (fst x) = (\<lambda>i. df_seq f i \<and> DeleteSeq i \<notin># E) \<and>
     df_seek (fst x) = (\<lambda>i. df_seek f i \<and> DeleteSeek i \<notin># E) \<and>
     (\<forall>i. count (mset (snd x)) i = (if df_seq f i then count E (CheckSeq i) + (if DeleteSeq i \<in># E then 1 else 0) else 0)))"

definition unmixed :: "job multiset \<Rightarrow> bool" where
  "unmixed E = (\<forall>i k. \<not> (CheckSeq i \<in># E \<and> DeleteSeq k \<in># E))"

lemma finished_work: "finished f E x \<Longrightarrow> unmixed (add_mset j E) \<Longrightarrow> finished f (add_mset j E) (work j x)"
proof (cases j)
  case (CheckSeq i)
  assume "finished f E x" "unmixed (add_mset j E)"
  then show ?thesis using CheckSeq by (cases x) (auto simp: finished_def unmixed_def)
next
  case (DeleteSeq i)
  assume "finished f E x" and u: "unmixed (add_mset j E)"
  moreover have "count E (CheckSeq k) = 0" for k using u DeleteSeq by (auto simp: unmixed_def not_in_iff)
  ultimately show ?thesis using DeleteSeq by (cases x) (auto simp: finished_def fun_eq_iff)
next
  case (DeleteSeek i)
  assume "finished f E x" "unmixed (add_mset j E)"
  then show ?thesis using DeleteSeek by (cases x) (auto simp: finished_def unmixed_def fun_eq_iff)
qed

lemma finished_unique: "finished f E x \<Longrightarrow> finished f E y \<Longrightarrow> fst x = fst y \<and> mset (snd x) = mset (snd y)"
  by (auto simp: finished_def multiset_eq_iff intro!: dataFiles.equality)

definition all_jobs :: "bool \<Rightarrow> ksuid list \<Rightarrow> job list" where
  "all_jobs dryrun is = concat (map (jobs dryrun) is)"

lemma all_jobs_simps [simp]: "all_jobs dryrun [] = []" "all_jobs dryrun (i # is) = jobs dryrun i @ all_jobs dryrun is"
  by (simp_all add: all_jobs_def)

lemma unmixed_jobs: "unmixed (mset (all_jobs dryrun is))"
  by (cases dryrun) (auto simp: unmixed_def all_jobs_def jobs_def)

lemma unmixed_sub: "unmixed F \<Longrightarrow> E \<subseteq># F \<Longrightarrow> unmixed E"
  by (meson unmixed_def mset_subset_eqD)

lemma finished_fold:
  assumes "finished f E x" and "unmixed (E + mset js)"
  shows "finished f (E + mset js) (fold work js x)"
  using assms
proof (induction js arbitrary: E x)
  case (Cons j js)
  have "unmixed (add_mset j E)" by (rule unmixed_sub [OF Cons.prems(2)]) simp
  then show ?case using Cons.IH [OF finished_work [OF Cons.prems(1)]] Cons.prems(2) by simp
qed simp

lemma finished_none: "finished f {#} (f, [])"
  by (simp add: finished_def)

text \<open>The sequential model does the jobs of the objects one after the other.\<close>

lemma Pool_Vacuum_jobs:
  assumes "Vacuumable n commit cs = Some (cs', Inr out)"
  shows "\<exists>f' v. Pool_Vacuum n commit dryrun f cs = Some ((cs', f'), Inr v) \<and>
    finished f (mset (all_jobs dryrun (map obj_ID out))) (f', v)"
proof -
  have 1: "fold work (all_jobs True is) (f, v) = (f, v @ filter (df_seq f) is)" for "is" v
    by (induction "is" arbitrary: v) (simp_all add: jobs_def)
  have 2: "fold (\<lambda>i (f, v). (f\<lparr>df_seq := (df_seq f)(i := False), df_seek := (df_seek f)(i := False)\<rparr>,
      if df_seq f i then v @ [i] else v)) is x = fold work (all_jobs False is) x" for "is" x
    by (induction "is" arbitrary: x) (auto simp: jobs_def)
  obtain f' v where x: "fold work (all_jobs dryrun (map obj_ID out)) (f, []) = (f', v)" by (meson surj_pair)
  have "finished f (mset (all_jobs dryrun (map obj_ID out))) (f', v)"
    using finished_fold [OF finished_none, of "all_jobs dryrun (map obj_ID out)" f] unmixed_jobs x by simp
  moreover have "Pool_Vacuum n commit dryrun f cs = Some ((cs', f'), Inr v)"
    using x assms by (cases dryrun) (auto simp: Pool_Vacuum_def 1 2 simp del: fold_map)
  ultimately show ?thesis by blast
qed

text \<open>What is left to do in a state, and the invariant of runs without errors.\<close>

definition left :: "bool \<Rightarrow> vstate \<Rightarrow> job multiset" where
  "left dryrun s = running s + (case at s of Starting js \<Rightarrow> mset js | _ \<Rightarrow> {#}) + mset (all_jobs dryrun (todo s))"

definition vinv :: "bool \<Rightarrow> dataFiles \<Rightarrow> ksuid list \<Rightarrow> vstate \<Rightarrow> bool" where
  "vinv dryrun f is s = (\<not> failed s \<and> (listing s \<noteq> Sending \<longrightarrow> todo s = []) \<and> (at s = Waiting \<longrightarrow> listing s \<noteq> Sending) \<and>
     (returned s \<longrightarrow> running s = {#} \<and> todo s = []) \<and>
     (\<exists>E. E + left dryrun s = mset (all_jobs dryrun is) \<and> finished f E (files s, vacuumed s)))"

lemma left_work:
  assumes "j \<in># running s" and "E + left dryrun s = F"
  shows "add_mset j E + left dryrun (s\<lparr>running := running s - {#j#}, files := f, vacuumed := v\<rparr>) = F"
  using assms by (auto simp: left_def dest: multi_member_split)

lemma left_hand_over:
  assumes "todo s = i # is" and "at s = Receiving"
  shows "left dryrun (s\<lparr>todo := is, at := Starting (jobs dryrun i)\<rparr>) = left dryrun s"
  using assms by (simp add: left_def add.assoc)

lemma vinv_step:
  assumes "vstep dryrun limit bad s t" and "\<And>j. \<not> bad j" and "vinv dryrun f is s"
  shows "vinv dryrun f is t"
  using assms(1,3)
proof (induction rule: vstep.induct)
  case (work j s f' v)
  then obtain E where E: "E + left dryrun s = mset (all_jobs dryrun is)" "finished f E (files s, vacuumed s)"
    by (auto simp: vinv_def)
  let ?t = "s\<lparr>running := running s - {#j#}, files := f', vacuumed := v\<rparr>"
  have F: "add_mset j E + left dryrun ?t = mset (all_jobs dryrun is)" by (rule left_work [OF work(1) E(1)])
  have "add_mset j E \<subseteq># mset (all_jobs dryrun is)" unfolding F [symmetric] by simp
  then have "finished f (add_mset j E) (f', v)"
    using finished_work [OF E(2), of j] unmixed_sub [OF unmixed_jobs] work(3) by metis
  then have "\<exists>E. E + left dryrun ?t = mset (all_jobs dryrun is) \<and> finished f E (files ?t, vacuumed ?t)"
    using F by (intro exI [of _ "add_mset j E"]) simp
  then show ?case using work by (auto simp: vinv_def returned_def)
next
  case (fail j s)
  then show ?case using assms(2) by (simp add: vinv_def)
next
  case (hand_over s i "is")
  then show ?case by (simp add: vinv_def left_hand_over returned_def)
qed (auto simp: vinv_def left_def returned_def split: if_splits)

lemma vinv_start: "vinv dryrun f is (vstart f is)"
  using finished_none by (auto simp: vinv_def vstart_def left_def returned_def)

text \<open>With a limit of one the lister keeps the only place while it waits for its second object to be received.\<close>

definition deadlocked :: "vstate \<Rightarrow> bool" where
  "deadlocked s = (listing s = Sending \<and> running s = {#} \<and> \<not> failed s \<and>
     (at s = Receiving \<and> 2 \<le> length (todo s) \<or> (\<exists>js. at s = Starting js) \<and> 1 \<le> length (todo s)))"

lemma deadlocked_step: "vstep dryrun 1 bad s t \<Longrightarrow> deadlocked s \<Longrightarrow> deadlocked t"
  by (induction rule: vstep.induct) (auto simp: deadlocked_def slots_def)

text \<open>
  C10: Vacuuming ends, with the result of doing the work in sequence. Let \<open>Vacuumable\<close> list the objects
  \<open>out\<close>. With a limit of two goroutines or more no run of \<open>Vacuum\<close> goes on for ever, and every state
  it reaches, whatever the storage engine fails on, can go on until \<open>Vacuum\<close> returns. When it returns and
  the engine has not failed, the files and the IDs returned are those of the sequential model, the IDs in
  some order. With a limit of one, as on a machine with one processor, and two objects or more it never
  returns: the lister holds the only place of the group. \<close>

theorem vacuum_ends:
  assumes "Vacuumable n commit cs = Some (cs', Inr out)" and "(vstep dryrun limit bad)\<^sup>*\<^sup>* (vstart f (map obj_ID out)) s"
  shows "(2 \<le> limit \<longrightarrow> (\<exists>t. (vstep dryrun limit bad)\<^sup>*\<^sup>* s t \<and> returned t) \<and> (\<forall>r. \<not> (\<forall>k. vstep dryrun limit bad (r k) (r (Suc k))))) \<and>
    (returned s \<and> (\<forall>j. \<not> bad j) \<longrightarrow> (\<exists>v. Pool_Vacuum n commit dryrun f cs = Some ((cs', files s), Inr v) \<and>
      mset (vacuumed s) = mset v \<and> \<not> failed s)) \<and>
    (limit = 1 \<and> 2 \<le> length out \<longrightarrow> \<not> returned s)"
proof (intro conjI impI)
  assume "2 \<le> limit"
  then obtain m where l: "limit = Suc (Suc m)" by (metis Suc_le_D numeral_2_eq_2 le_Suc_ex add_Suc add.commute add_0)
  show "\<exists>t. (vstep dryrun limit bad)\<^sup>*\<^sup>* s t \<and> returned t"
    using vac.ends [OF vac.run_inv [OF assms(2) [unfolded l] vstart_ok]] l by simp
  show "\<forall>r. \<not> (\<forall>k. vstep dryrun limit bad (r k) (r (Suc k)))" using vac.no_infinite_run l by blast
next
  assume r: "returned s \<and> (\<forall>j. \<not> bad j)"
  from assms(2) have "vinv dryrun f (map obj_ID out) s"
    by (induction rule: rtranclp_induct) (use vinv_start vinv_step r in blast)+
  then have s: "finished f (mset (all_jobs dryrun (map obj_ID out))) (files s, vacuumed s)" "\<not> failed s"
    using r by (auto simp: vinv_def left_def returned_def)
  obtain f' v where v: "Pool_Vacuum n commit dryrun f cs = Some ((cs', f'), Inr v)"
    "finished f (mset (all_jobs dryrun (map obj_ID out))) (f', v)"
    using Pool_Vacuum_jobs [OF assms(1)] by blast
  then show "\<exists>v. Pool_Vacuum n commit dryrun f cs = Some ((cs', files s), Inr v) \<and> mset (vacuumed s) = mset v \<and> \<not> failed s"
    using finished_unique [OF s(1) v(2)] s(2) by simp
next
  assume l: "limit = 1 \<and> 2 \<le> length out"
  have "deadlocked (vstart f (map obj_ID out))" using l by (simp add: deadlocked_def vstart_def)
  with assms(2) have "deadlocked s" using l
    by (induction rule: rtranclp_induct) (use deadlocked_step in blast)+
  then show "\<not> returned s" by (auto simp: deadlocked_def returned_def)
qed

definition vac_store :: "nat cstore" where
  "vac_store = fst (Store_Put (NewDeletesObject 1 0 (cargs 2) [10, 11]) (fst (Store_Put demo_adds (OpenCommitStore Map.empty Map.empty (\<lambda>_ _. True)))))"

lemma vac_store_lists: "map_option snd (Vacuumable 3 2 vac_store) = Some (Inr [obj 10, obj 11])"
  by code_simp

theorem vacuum_ends_witness:
  "(\<exists>cs'. Vacuumable 3 2 vac_store = Some (cs', Inr [obj 10, obj 11])) \<and>
   (\<exists>t. (vstep False 2 (\<lambda>_. False))\<^sup>*\<^sup>* (vstart \<lparr>df_seq = \<lambda>_. True, df_seek = \<lambda>_. True\<rparr> [10, 11]) t \<and> returned t) \<and>
   \<not> (\<exists>t. (vstep False 1 (\<lambda>_. False))\<^sup>*\<^sup>* (vstart \<lparr>df_seq = \<lambda>_. True, df_seek = \<lambda>_. True\<rparr> [10, 11]) t \<and> returned t)"
proof -
  obtain cs' where v: "Vacuumable 3 2 vac_store = Some (cs', Inr [obj 10, obj 11])"
    using vac_store_lists by (cases "Vacuumable 3 2 vac_store") auto
  have o: "map obj_ID [obj 10, obj 11] = [10, 11]" by (simp add: obj_def)
  have "\<exists>t. (vstep False 2 (\<lambda>_. False))\<^sup>*\<^sup>* (vstart \<lparr>df_seq = \<lambda>_. True, df_seek = \<lambda>_. True\<rparr> [10, 11]) t \<and> returned t"
    using vacuum_ends [OF v, unfolded o, of False 2 "\<lambda>_. False" "\<lparr>df_seq = \<lambda>_. True, df_seek = \<lambda>_. True\<rparr>" "vstart \<lparr>df_seq = \<lambda>_. True, df_seek = \<lambda>_. True\<rparr> [10, 11]"] by simp
  moreover have "\<not> returned t" if "(vstep False 1 (\<lambda>_. False))\<^sup>*\<^sup>* (vstart \<lparr>df_seq = \<lambda>_. True, df_seek = \<lambda>_. True\<rparr> [10, 11]) t" for t
    using vacuum_ends [OF v, unfolded o, OF that] by simp
  ultimately show ?thesis using v by blast
qed

end
