(* ===== verification/Zbuf.thy ===== *)
theory Zbuf
  imports Values
begin

text \<open>
  Batches of values and the pull interface of operators (\<open>zbuf/batch.go\<close>, \<open>zbuf/array.go\<close>), and the
  operators head, skip, tail and uniq of the sequential runtime (\<open>runtime/sam/op\<close>). Values are taken in
  their encoded form, a type and its bytes; reference counts and variables of batches are not modelled.
\<close>

type_synonym bval = "ztype \<times> zbytes"

text \<open>A call of an operator ends with an error, or with the panic of the operator.\<close>

datatype 'e pfail = PError 'e | PPanic

text \<open>
  A puller: from the done flag and its state to the new state and an error, a batch, or the end of the
  stream (\<open>None\<close>). A call that does not return has the value \<open>None\<close>.
\<close>

type_synonym ('s, 'e, 'v) puller = "bool \<Rightarrow> 's \<Rightarrow> ('s \<times> ('e pfail + 'v list option)) option"

subsection \<open>Batches from a reader\<close>

definition PullerBatchBytes :: nat where "PullerBatchBytes = 512 * 1024"

text \<open>A variable of the package, 100 at first; the line modes of the command set it to one. Below it is the argument \<open>maxv\<close>.\<close>

definition PullerBatchValues :: nat where "PullerBatchValues = 100"

record pullerBatch =
  pb_buf :: bytes
  pb_vals :: "bval list"

definition newPullerBatch :: pullerBatch where
  "newPullerBatch = \<lparr>pb_buf = [], pb_vals = []\<rparr>"

definition appendVal :: "nat \<Rightarrow> bval \<Rightarrow> pullerBatch \<Rightarrow> pullerBatch \<times> bool" where
  "appendVal maxv v b =
     (let (buf, bufFull) = (case snd v of
          None \<Rightarrow> (pb_buf b, False)
        | Some x \<Rightarrow> let avail = PullerBatchBytes - length (pb_buf b) in
            if avail \<ge> length x then (pb_buf b @ x, avail = length x) else (pb_buf b, True));
          vals = pb_vals b @ [v]
      in (\<lparr>pb_buf = buf, pb_vals = vals\<rparr>, bufFull \<or> length vals = maxv))"

text \<open>A reader: an error, a value, or the end (\<open>None\<close>).\<close>

type_synonym ('r, 'e, 'v) reader = "'r \<Rightarrow> 'r \<times> ('e + 'v option)"

partial_function (option) fill_batch ::
    "nat \<Rightarrow> ('r, 'e, bval) reader \<Rightarrow> 'r \<Rightarrow> pullerBatch \<Rightarrow> ('r option \<times> ('e pfail + bval list option)) option" where
  "fill_batch maxv read r b = (case read r of
      (r, Inl e) \<Rightarrow> Some (Some r, Inl (PError e))
    | (r, Inr None) \<Rightarrow> Some (None, Inr (if length (pb_vals b) = 0 then None else Some (pb_vals b)))
    | (r, Inr (Some v)) \<Rightarrow> (case appendVal maxv v b of (b, full) \<Rightarrow>
        if full then Some (Some r, Inr (Some (pb_vals b))) else fill_batch maxv read r b))"

text \<open>\<open>puller.Pull\<close>; the state is the reader, nil at the end.\<close>

definition puller_Pull :: "nat \<Rightarrow> ('r, 'e, bval) reader \<Rightarrow> ('r option, 'e, bval) puller" where
  "puller_Pull maxv read done p = (let p = (if done then None else p) in
     case p of None \<Rightarrow> Some (None, Inr None) | Some r \<Rightarrow> fill_batch maxv read r newPullerBatch)"

text \<open>\<open>Array\<close> as a reader, and as a writer.\<close>

definition Array_Read :: "('v list, 'e, 'v) reader" where
  "Array_Read a = (case a of [] \<Rightarrow> (a, Inr None) | v # a \<Rightarrow> (a, Inr (Some v)))"

definition Array_Write :: "'v list \<Rightarrow> 'v \<Rightarrow> 'e + 'v list" where
  "Array_Write a v = Inr (a @ [v])"

fun WriteBatch :: "('w \<Rightarrow> 'v \<Rightarrow> 'e + 'w) \<Rightarrow> 'w \<Rightarrow> 'v list \<Rightarrow> 'w \<times> 'e option" where
  "WriteBatch write w [] = (w, None)"
| "WriteBatch write w (v # vs) = (case write w v of Inr w \<Rightarrow> WriteBatch write w vs | Inl e \<Rightarrow> (w, Some e))"

partial_function (option) CopyPuller :: "('w \<Rightarrow> 'v \<Rightarrow> 'e + 'w) \<Rightarrow> 'w \<Rightarrow> ('s, 'e, 'v) puller \<Rightarrow> 's \<Rightarrow> (('w \<times> 's) \<times> 'e pfail option) option" where
  "CopyPuller write w pull s = (case pull False s of
      None \<Rightarrow> None
    | Some (s, Inl e) \<Rightarrow> Some ((w, s), Some e)
    | Some (s, Inr None) \<Rightarrow> Some ((w, s), None)
    | Some (s, Inr (Some b)) \<Rightarrow> (case WriteBatch write w b of
        (w, Some e) \<Rightarrow> Some ((w, s), Some (PError e))
      | (w, None) \<Rightarrow> CopyPuller write w pull s))"

text \<open>\<open>pullerReader\<close>: the values of the batches one by one.\<close>

partial_function (option) pullerReader_Read ::
    "('s, 'e, 'v) puller \<Rightarrow> 's \<Rightarrow> 'v list \<Rightarrow> (('s \<times> 'v list) \<times> ('e pfail + 'v option)) option" where
  "pullerReader_Read pull s vals = (case vals of
      v # vs \<Rightarrow> Some ((s, vs), Inr (Some v))
    | [] \<Rightarrow> (case pull False s of
        None \<Rightarrow> None
      | Some (s, Inl e) \<Rightarrow> Some ((s, []), Inl e)
      | Some (s, Inr None) \<Rightarrow> Some ((s, []), Inr None)
      | Some (s, Inr (Some b)) \<Rightarrow> pullerReader_Read pull s b))"

subsection \<open>head and skip\<close>

text \<open>
  \<open>head\<close>: the state is the count of values passed. The limits of head and tail are positive and the
  offset of skip is not negative, which the compiler checks.
\<close>

partial_function (option) head_again :: "nat \<Rightarrow> ('s, 'e, 'v) puller \<Rightarrow> nat \<Rightarrow> 's \<Rightarrow> ((nat \<times> 's) \<times> ('e pfail + 'v list option)) option" where
  "head_again limit pull cnt s = (case pull False s of
      None \<Rightarrow> None
    | Some (s, Inl e) \<Rightarrow> Some ((0, s), Inl e)
    | Some (s, Inr None) \<Rightarrow> Some ((0, s), Inr None)
    | Some (s, Inr (Some vals)) \<Rightarrow>
        let remaining = limit - cnt in
        if remaining \<le> 0 then head_again limit pull cnt s
        else if length vals < remaining then Some ((cnt + length vals, s), Inr (Some vals))
        else (case pull True s of
            None \<Rightarrow> None
          | Some (s, Inl e) \<Rightarrow> Some ((cnt, s), Inl e)
          | Some (s, Inr _) \<Rightarrow> Some ((limit, s), Inr (Some (take remaining vals)))))"

definition head_Pull :: "nat \<Rightarrow> ('s, 'e, 'v) puller \<Rightarrow> (nat \<times> 's, 'e, 'v) puller" where
  "head_Pull limit pull done o' = (case o' of (cnt, s) \<Rightarrow>
     if cnt \<ge> limit then Some ((0, s), Inr None)
     else if done then (case pull True s of
        None \<Rightarrow> None
      | Some (s, Inl e) \<Rightarrow> Some ((cnt, s), Inl e)
      | Some (s, Inr (Some _)) \<Rightarrow> Some ((cnt, s), Inl PPanic)
      | Some (s, Inr None) \<Rightarrow> Some ((0, s), Inr None))
     else head_again limit pull cnt s)"

partial_function (option) skip_pull_loop :: "nat \<Rightarrow> ('s, 'e, 'v) puller \<Rightarrow> bool \<Rightarrow> nat \<Rightarrow> 's \<Rightarrow> ((nat \<times> 's) \<times> ('e pfail + 'v list option)) option" where
  "skip_pull_loop offset pull done cnt s = (case pull done s of
      None \<Rightarrow> None
    | Some (s, Inl e) \<Rightarrow> Some ((0, s), Inl e)
    | Some (s, Inr None) \<Rightarrow> Some ((0, s), Inr None)
    | Some (s, Inr (Some vals)) \<Rightarrow>
        if cnt \<ge> offset then Some ((cnt, s), Inr (Some vals))
        else let remaining = offset - cnt in
          if remaining < length vals then Some ((offset, s), Inr (Some (drop remaining vals)))
          else skip_pull_loop offset pull done (cnt + length vals) s)"

definition skip_Pull :: "nat \<Rightarrow> ('s, 'e, 'v) puller \<Rightarrow> (nat \<times> 's, 'e, 'v) puller" where
  "skip_Pull offset pull done o' = skip_pull_loop offset pull done (fst o') (snd o')"

subsection \<open>tail\<close>

text \<open>The loop that drops batches while there are enough values without the first.\<close>

fun drop_batches :: "nat \<Rightarrow> nat \<Rightarrow> 'v list list \<Rightarrow> nat \<times> 'v list list" where
  "drop_batches limit n [] = (n, [])"
| "drop_batches limit n (b # bs) = (if n - length b \<ge> limit then drop_batches limit (n - length b) bs else (n, b # bs))"

partial_function (option) tail_loop :: "nat \<Rightarrow> ('s, 'e, 'v) puller \<Rightarrow> 's \<Rightarrow> nat \<Rightarrow> 'v list list \<Rightarrow> ('s \<times> ('e pfail + nat \<times> 'v list list)) option" where
  "tail_loop limit pull s n bs = (case pull False s of
      None \<Rightarrow> None
    | Some (s, Inl e) \<Rightarrow> Some (s, Inl e)
    | Some (s, Inr None) \<Rightarrow> Some (s, Inr (n, bs))
    | Some (s, Inr (Some b)) \<Rightarrow> (case drop_batches limit (n + length b) (bs @ [b]) of (n, bs) \<Rightarrow> tail_loop limit pull s n bs))"

definition tail :: "nat \<Rightarrow> ('s, 'e, 'v) puller \<Rightarrow> 's \<Rightarrow> ('s \<times> ('e pfail + 'v list list)) option" where
  "tail limit pull s = (case tail_loop limit pull s 0 [] of
      None \<Rightarrow> None
    | Some (s, Inl e) \<Rightarrow> Some (s, Inl e)
    | Some (s, Inr (n, bs)) \<Rightarrow> Some (s, Inr (if n > limit then (case bs of b # bs \<Rightarrow> drop (n - limit) b # bs | [] \<Rightarrow> []) else bs)))"

text \<open>The state is the batches still to return and whether the last one has been returned.\<close>

definition tail_Pull :: "nat \<Rightarrow> ('s, 'e, 'v) puller \<Rightarrow> (('v list list \<times> bool) \<times> 's, 'e, 'v) puller" where
  "tail_Pull limit pull done o' = (case o' of ((batches, eos), s) \<Rightarrow>
     if eos then Some ((([], False), s), Inr None)
     else if done then (case pull True s of None \<Rightarrow> None | Some (s, r) \<Rightarrow> Some ((([], False), s), r))
     else (case (if length batches = 0 then tail limit pull s else Some (s, Inr batches)) of
        None \<Rightarrow> None
      | Some (s, Inl e) \<Rightarrow> Some (((batches, eos), s), Inl e)
      | Some (s, Inr []) \<Rightarrow> Some (((batches, eos), s), Inr None)
      | Some (s, Inr (b # bs)) \<Rightarrow> Some (((bs, length bs = 0), s), Inr (Some b))))"

subsection \<open>uniq\<close>

text \<open>The count of the current run, its value, whether the last value was returned, and the type context.\<close>

record uniq =
  u_count :: u64
  u_last :: "bval option"
  u_eos :: bool
  u_ctx :: tcontext

definition uniq_New :: "tcontext \<Rightarrow> uniq" where
  "uniq_New c = \<lparr>u_count = 0, u_last = None, u_eos = False, u_ctx = c\<rparr>"

text \<open>\<open>wrap\<close>; with the flag the value goes into a record with its count.\<close>

definition uniq_wrap :: "bool \<Rightarrow> uniq \<Rightarrow> bval \<Rightarrow> uniq \<times> bval option" where
  "uniq_wrap cflag o' t = (if cflag then
      (case (EncodeUint (u_count o'), LookupTypeRecord (u_ctx o') [(str ''value'', fst t), (str ''count'', TypePrim TypeUint64)]) of
         (Inr n, (c, Inr typ)) \<Rightarrow> (case Builder_Bytes (Builder_Append (Some n) (Builder_Append (snd t) (Builder_Reset NewBuilder))) of
             Inr b \<Rightarrow> (o'\<lparr>u_ctx := c\<rparr>, Some (typ, b)) | Inl _ \<Rightarrow> (o', None))
       | _ \<Rightarrow> (o', None))
     else (o', Some t))"

text \<open>\<open>appendUniq\<close>; \<open>None\<close> is a panic, here of reading the value of a nil pointer.\<close>

definition appendUniq :: "bool \<Rightarrow> bval list \<Rightarrow> bval \<Rightarrow> uniq \<Rightarrow> uniq \<times> bval list option" where
  "appendUniq cflag out t o' = (if u_count o' = 0 then (o'\<lparr>u_last := Some t, u_count := 1\<rparr>, Some out)
     else case u_last o' of None \<Rightarrow> (o', None)
       | Some l \<Rightarrow> if slice_bytes (snd t) = slice_bytes (snd l) then (o'\<lparr>u_count := u_count o' + 1\<rparr>, Some out)
           else (case uniq_wrap cflag o' l of
               (o', None) \<Rightarrow> (o', None)
             | (o', Some w) \<Rightarrow> (o'\<lparr>u_last := Some t, u_count := 1\<rparr>, Some (out @ [w]))))"

fun append_uniqs :: "bool \<Rightarrow> bval list \<Rightarrow> bval list \<Rightarrow> uniq \<Rightarrow> uniq \<times> bval list option" where
  "append_uniqs cflag out [] o' = (o', Some out)"
| "append_uniqs cflag out (t # ts) o' = (case appendUniq cflag out t o' of
      (o', None) \<Rightarrow> (o', None) | (o', Some out) \<Rightarrow> append_uniqs cflag out ts o')"

partial_function (option) uniq_loop :: "bool \<Rightarrow> ('s, 'e, bval) puller \<Rightarrow> bool \<Rightarrow> uniq \<Rightarrow> 's \<Rightarrow> ((uniq \<times> 's) \<times> ('e pfail + bval list option)) option" where
  "uniq_loop cflag pull done o' s = (case pull done s of
      None \<Rightarrow> None
    | Some (s, Inl e) \<Rightarrow> Some ((o', s), Inl e)
    | Some (s, Inr None) \<Rightarrow> (case u_last o' of
        None \<Rightarrow> Some ((o', s), Inr None)
      | Some l \<Rightarrow> (case uniq_wrap cflag (o'\<lparr>u_eos := True\<rparr>) l of
          (o', None) \<Rightarrow> Some ((o', s), Inl PPanic)
        | (o', Some t) \<Rightarrow> Some ((o'\<lparr>u_last := None\<rparr>, s), Inr (Some [t]))))
    | Some (s, Inr (Some vals)) \<Rightarrow> (case append_uniqs cflag [] vals o' of
        (o', None) \<Rightarrow> Some ((o', s), Inl PPanic)
      | (o', Some out) \<Rightarrow> if length out > 0 then Some ((o', s), Inr (Some out)) else uniq_loop cflag pull done o' s))"

definition uniq_Pull :: "bool \<Rightarrow> ('s, 'e, bval) puller \<Rightarrow> (uniq \<times> 's, 'e, bval) puller" where
  "uniq_Pull cflag pull done o' = (if u_eos (fst o') then Some (((fst o')\<lparr>u_eos := False\<rparr>, snd o'), Inr None)
     else uniq_loop cflag pull done (fst o') (snd o'))"

end
