(* ===== verification/Zbuf_Inv.thy ===== *)
theory Zbuf_Inv
  imports Zbuf
begin

text \<open>
  The contract of pullers and the operators that keep it. A puller stands for a list of streams of
  batches; a pull without done takes the next batch or ends the stream, a pull with done ends it. The
  locale \<open>puller_streams\<close> states the first, its extension \<open>puller_contract\<close> also the second.
\<close>

subsection \<open>Streams\<close>

fun next_batch :: "'b list list \<Rightarrow> 'b option" where
  "next_batch ((b # bs) # ss) = Some b"
| "next_batch _ = None"

fun advance :: "'b list list \<Rightarrow> 'b list list" where
  "advance ((b # bs) # ss) = bs # ss"
| "advance ss = tl ss"

fun first_stream :: "'b list list \<Rightarrow> 'b list" where
  "first_stream [] = []"
| "first_stream (bs # _) = bs"

lemma WriteBatch_Array [simp]: "WriteBatch Array_Write w b = (w @ b, None)"
  by (induction b arbitrary: w) (simp_all add: Array_Write_def)

locale puller_streams =
  fixes pull :: "('s, 'e, 'v) puller" and rep :: "'s \<Rightarrow> 'v list list list \<Rightarrow> bool"
  assumes pull_next: "rep s ss \<Longrightarrow> \<exists>s'. pull False s = Some (s', Inr (next_batch ss)) \<and> rep s' (advance ss)"

locale puller_contract = puller_streams +
  assumes pull_done: "rep s ss \<Longrightarrow> \<exists>s'. pull True s = Some (s', Inr None) \<and> rep s' (tl ss)"

context puller_streams
begin

lemma pull_batch: "rep s ((b # bs) # ss) \<Longrightarrow> \<exists>s'. pull False s = Some (s', Inr (Some b)) \<and> rep s' (bs # ss)"
  using pull_next [of s "(b # bs) # ss"] by simp

lemma pull_end: "rep s ([] # ss) \<Longrightarrow> \<exists>s'. pull False s = Some (s', Inr None) \<and> rep s' ss"
  using pull_next [of s "[] # ss"] by simp

lemma pull_none: "rep s [] \<Longrightarrow> \<exists>s'. pull False s = Some (s', Inr None) \<and> rep s' []"
  using pull_next [of s "[]"] by simp

lemma pull_last:
  "rep s ss \<Longrightarrow> first_stream ss = [] \<Longrightarrow> \<exists>s'. pull False s = Some (s', Inr None) \<and> rep s' (tl ss)"
  using pull_next [of s ss] by (cases ss rule: next_batch.cases) auto

text \<open>Writing all batches of a puller writes the values of its first stream.\<close>

lemma copy_stream:
  "rep s ss \<Longrightarrow> \<exists>s'. CopyPuller Array_Write w pull s = Some ((w @ concat (first_stream ss), s'), None) \<and> rep s' (tl ss)"
proof (induction "first_stream ss" arbitrary: s ss w)
  case Nil
  then show ?case using pull_last [of s ss] by (auto simp: CopyPuller.simps [of Array_Write w pull s])
next
  case (Cons b bs)
  then obtain ss' where ss: "ss = (b # bs) # ss'" by (cases ss) auto
  then obtain s' where s': "pull False s = Some (s', Inr (Some b))" "rep s' (bs # ss')"
    using pull_batch Cons.prems by blast
  show ?case
    using Cons.hyps(1) [of "bs # ss'" s' "w @ b"] s' ss by (simp add: CopyPuller.simps [of Array_Write w pull s])
qed

text \<open>Reading value by value gives the same values.\<close>

lemma reader_next:
  assumes "rep s (bs # ss)"
  shows "\<exists>s' vs' bs'. pullerReader_Read pull s vs = Some ((s', vs'), Inr (case vs @ concat bs of [] \<Rightarrow> None | v # _ \<Rightarrow> Some v)) \<and>
     (if vs @ concat bs = [] then vs' = [] \<and> rep s' ss else rep s' (bs' # ss) \<and> vs' @ concat bs' = tl (vs @ concat bs))"
  using assms
proof (induction bs arbitrary: s vs)
  case Nil
  show ?case
  proof (cases vs)
    case Nil
    then show ?thesis using pull_end [OF Nil.prems] by (fastforce simp: pullerReader_Read.simps)
  next
    case (Cons v vs')
    then show ?thesis using Nil.prems by (fastforce simp: pullerReader_Read.simps)
  qed
next
  case (Cons b bs)
  show ?case
  proof (cases vs)
    case Nil
    obtain s' where s': "pull False s = Some (s', Inr (Some b))" "rep s' (bs # ss)"
      using pull_batch Cons.prems by blast
    then have "pullerReader_Read pull s vs = pullerReader_Read pull s' b"
      using Nil by (simp add: pullerReader_Read.simps [of pull s])
    then show ?thesis using Cons.IH [OF s'(2), of b] Nil by (simp only: append.simps concat.simps)
  next
    case (Cons v vs')
    then show ?thesis using Cons.prems by (fastforce simp: pullerReader_Read.simps)
  qed
qed

end

subsection \<open>What the operators do to a stream\<close>

text \<open>The first \<open>r\<close> values of a stream, without its first \<open>r\<close> values, and the last \<open>r\<close> values.\<close>

fun take_batches :: "nat \<Rightarrow> 'v list list \<Rightarrow> 'v list list" where
  "take_batches r [] = []"
| "take_batches r (b # bs) = (if length b < r then b # take_batches (r - length b) bs else [take r b])"

fun skip_batches :: "nat \<Rightarrow> 'v list list \<Rightarrow> 'v list list" where
  "skip_batches r [] = []"
| "skip_batches r (b # bs) = (if r = 0 then b # bs else if r < length b then drop r b # bs else skip_batches (r - length b) bs)"

definition last_values :: "nat \<Rightarrow> 'v list \<Rightarrow> 'v list" where
  "last_values r vs = drop (length vs - r) vs"

lemma skip_batches_0 [simp]: "skip_batches 0 bs = bs"
  by (cases bs) auto

lemma concat_take_batches: "concat (take_batches r bs) = take r (concat bs)"
  by (induction r bs rule: take_batches.induct) auto

lemma concat_skip_batches: "concat (skip_batches r bs) = drop r (concat bs)"
  by (induction r bs rule: skip_batches.induct) auto

text \<open>The shortest suffix with \<open>r\<close> values, and the same without the values before the last \<open>r\<close>.\<close>

fun trim_batches :: "nat \<Rightarrow> 'v list list \<Rightarrow> 'v list list" where
  "trim_batches r [] = []"
| "trim_batches r (b # bs) = (if r \<le> length (concat bs) then trim_batches r bs else b # bs)"

definition last_batches :: "nat \<Rightarrow> 'v list list \<Rightarrow> 'v list list" where
  "last_batches r bs = (case trim_batches r bs of [] \<Rightarrow> [] | b # bs \<Rightarrow> drop (length b + length (concat bs) - r) b # bs)"

lemma drop_batches_trim:
  "drop_batches r (length (concat bs)) bs = (length (concat (trim_batches r bs)), trim_batches r bs)"
  by (induction bs) auto

lemma trim_batches_snoc: "trim_batches r (trim_batches r bs @ [b]) = trim_batches r (bs @ [b])"
  by (induction bs) auto

lemma concat_last_batches: "concat (last_batches r bs) = last_values r (concat bs)"
  by (induction bs) (auto simp: last_batches_def last_values_def)

lemma last_batches_empty [simp]: "last_batches r [] = []" "0 < r \<Longrightarrow> last_batches r bs = [] \<longleftrightarrow> bs = []"
  by (induction bs) (auto simp: last_batches_def split: list.splits)

text \<open>An operator that is in its first stream with one function of batches and restarts with another.\<close>

definition map_streams :: "('b list \<Rightarrow> 'b list) \<Rightarrow> ('b list \<Rightarrow> 'b list) \<Rightarrow> 'b list list \<Rightarrow> 'b list list" where
  "map_streams f g ss = (case ss of [] \<Rightarrow> [] | bs # ss \<Rightarrow> f bs # map g ss)"

lemma map_streams_simps [simp]:
  "map_streams f g [] = []" "map_streams f g (bs # ss) = f bs # map g ss" "map_streams g g ss = map g ss"
  by (simp_all add: map_streams_def split: list.splits)

lemma tl_map_streams [simp]: "tl (map_streams f g ss) = map g (tl ss)"
  by (cases ss) auto

definition head_rep :: "nat \<Rightarrow> ('s \<Rightarrow> 'v list list list \<Rightarrow> bool) \<Rightarrow> nat \<times> 's \<Rightarrow> 'v list list list \<Rightarrow> bool" where
  "head_rep limit rep o' ss' \<longleftrightarrow> (\<exists>ss. rep (snd o') ss \<and>
     ss' = (if fst o' \<ge> limit then [] # map (take_batches limit) ss
            else map_streams (take_batches (limit - fst o')) (take_batches limit) ss))"

definition skip_rep :: "nat \<Rightarrow> ('s \<Rightarrow> 'v list list list \<Rightarrow> bool) \<Rightarrow> nat \<times> 's \<Rightarrow> 'v list list list \<Rightarrow> bool" where
  "skip_rep offset rep o' ss' \<longleftrightarrow> (\<exists>ss. rep (snd o') ss \<and>
     ss' = map_streams (skip_batches (offset - fst o')) (skip_batches offset) ss)"

definition tail_rep :: "nat \<Rightarrow> ('s \<Rightarrow> 'v list list list \<Rightarrow> bool) \<Rightarrow> ('v list list \<times> bool) \<times> 's \<Rightarrow> 'v list list list \<Rightarrow> bool" where
  "tail_rep limit rep o' ss' \<longleftrightarrow> (\<exists>ss. rep (snd o') ss \<and>
     ss' = (if snd (fst o') then [[]] else if fst (fst o') = [] then [] else [fst (fst o')]) @ map (last_batches limit) ss)"

context puller_streams
begin

lemma tail_loop_stream:
  assumes "rep s ss"
  shows "\<exists>s'. tail_loop limit pull s (length (concat (trim_batches limit acc))) (trim_batches limit acc) =
      Some (s', Inr (let bs = trim_batches limit (acc @ first_stream ss) in (length (concat bs), bs))) \<and> rep s' (tl ss)"
  using assms
proof (induction "first_stream ss" arbitrary: s ss acc)
  case Nil
  then show ?case using pull_last [of s ss] by (auto simp: Let_def tail_loop.simps [of limit pull s])
next
  case (Cons b bs)
  then obtain ss' where ss: "ss = (b # bs) # ss'" by (cases ss) auto
  then obtain s' where s': "pull False s = Some (s', Inr (Some b))" "rep s' (bs # ss')"
    using pull_batch Cons.prems by blast
  have "drop_batches limit (length (concat (trim_batches limit acc)) + length b) (trim_batches limit acc @ [b]) =
      (length (concat (trim_batches limit (acc @ [b]))), trim_batches limit (acc @ [b]))"
    using drop_batches_trim [of limit "trim_batches limit acc @ [b]"] by (simp add: trim_batches_snoc)
  then show ?case
    using Cons.hyps(1) [of "bs # ss'" s' "acc @ [b]"] s' ss by (simp add: tail_loop.simps [of _ _ s])
qed

lemma tail_stream:
  assumes "rep s ss"
  shows "\<exists>s'. tail limit pull s = Some (s', Inr (last_batches limit (first_stream ss))) \<and> rep s' (tl ss)"
  using tail_loop_stream [OF assms, of limit "[]"]
  by (auto simp: tail_def last_batches_def Let_def split: list.splits)

lemma tail_next:
  assumes "tail_rep limit rep o' ss" "0 < limit"
  shows "\<exists>o''. tail_Pull limit pull False o' = Some (o'', Inr (next_batch ss)) \<and> tail_rep limit rep o'' (advance ss)"
proof -
  obtain bs e s where o': "o' = ((bs, e), s)" by (metis prod.collapse)
  obtain ps where ps: "rep s ps" and ss: "ss = (if e then [[]] else if bs = [] then [] else [bs]) @ map (last_batches limit) ps"
    using assms(1) by (auto simp: tail_rep_def o')
  obtain s' where s': "tail limit pull s = Some (s', Inr (last_batches limit (first_stream ps)))" "rep s' (tl ps)"
    using tail_stream [OF ps] by blast
  consider "e" | b bs' where "\<not> e" "bs = b # bs'" | "\<not> e" "bs = []" by (cases bs) auto
  then show ?thesis
  proof cases
    case 1
    then show ?thesis using ps ss by (auto simp: o' tail_Pull_def tail_rep_def)
  next
    case 2
    then show ?thesis using ps ss by (auto simp: o' tail_Pull_def tail_rep_def)
  next
    case 3
    show ?thesis
    proof (cases "last_batches limit (first_stream ps)")
      case Nil
      then show ?thesis using 3 s' ps ss assms(2)
        by (cases ps) (auto simp: o' tail_Pull_def tail_rep_def)
    next
      case (Cons b bs')
      then obtain p ps' where "ps = p # ps'" by (cases ps) auto
      then show ?thesis using 3 s' ss Cons by (auto simp: o' tail_Pull_def tail_rep_def)
    qed
  qed
qed

lemma tail_streams: "0 < limit \<Longrightarrow> puller_streams (tail_Pull limit pull) (tail_rep limit rep)"
  by unfold_locales (blast intro: tail_next)

end

context puller_contract
begin

text \<open>A done that finds batches of tail still to return also ends the next stream of its parent.\<close>

lemma tail_done:
  assumes "tail_rep limit rep ((bs, e), s) ss"
  shows "\<exists>o''. tail_Pull limit pull True ((bs, e), s) = Some (o'', Inr None) \<and>
     tail_rep limit rep o'' (if e \<or> bs = [] then tl ss else tl (tl ss))"
proof -
  obtain ps where ps: "rep s ps" and ss: "ss = (if e then [[]] else if bs = [] then [] else [bs]) @ map (last_batches limit) ps"
    using assms(1) by (auto simp: tail_rep_def)
  obtain s' where s': "pull True s = Some (s', Inr None)" "rep s' (tl ps)" using pull_done ps by blast
  show ?thesis
  proof (cases e)
    case True
    then show ?thesis using ps ss by (auto simp: tail_Pull_def tail_rep_def)
  next
    case False
    have "tail_rep limit rep (([], False), s') (map (last_batches limit) (tl ps))" using s' by (auto simp: tail_rep_def)
    moreover have "map (last_batches limit) (tl ps) = (if e \<or> bs = [] then tl ss else tl (tl ss))"
      using False ss by (simp add: map_tl)
    ultimately show ?thesis using False s'(1) by (simp add: tail_Pull_def)
  qed
qed

lemma head_next:
  assumes "head_rep limit rep o' ss" "0 < limit"
  shows "\<exists>o''. head_Pull limit pull False o' = Some (o'', Inr (next_batch ss)) \<and> head_rep limit rep o'' (advance ss)"
proof -
  obtain cnt s where o': "o' = (cnt, s)" by force
  obtain ps where ps: "rep s ps" and ss: "ss = (if cnt \<ge> limit then [] # map (take_batches limit) ps
      else map_streams (take_batches (limit - cnt)) (take_batches limit) ps)"
    using assms(1) by (auto simp: head_rep_def o')
  consider (at_limit) "cnt \<ge> limit" | (none) "cnt < limit" "ps = []" | (eos) ps' where "cnt < limit" "ps = [] # ps'"
    | (batch) b bs ps' where "cnt < limit" "ps = (b # bs) # ps'"
    by (metis not_le list.exhaust)
  then show ?thesis
  proof cases
    case at_limit
    then show ?thesis using ps ss \<open>0 < limit\<close> by (auto simp: o' head_Pull_def head_rep_def intro!: exI [of _ ps])
  next
    case none
    then show ?thesis using pull_none [of s] ps ss \<open>0 < limit\<close>
      by (auto simp: o' head_Pull_def head_rep_def head_again.simps [of _ _ _ s])
  next
    case eos
    then show ?thesis using pull_end [of s] ps ss \<open>0 < limit\<close>
      by (fastforce simp: o' head_Pull_def head_rep_def head_again.simps [of _ _ _ s])
  next
    case batch
    obtain s' where s': "pull False s = Some (s', Inr (Some b))" "rep s' (bs # ps')"
      using pull_batch ps batch by blast
    obtain s'' where s'': "pull True s' = Some (s'', Inr None)" "rep s'' ps'"
      using pull_done [OF s'(2)] by auto
    show ?thesis
    proof (cases "length b < limit - cnt")
      case True
      then show ?thesis using batch s' ss
        by (auto simp: o' head_Pull_def head_rep_def head_again.simps [of _ _ _ s] intro!: exI [of _ "bs # ps'"])
    next
      case False
      then show ?thesis using batch s'(1) s'' ss
        by (auto simp: o' head_Pull_def head_rep_def head_again.simps [of _ _ _ s] intro!: exI [of _ ps'])
    qed
  qed
qed

lemma head_done:
  assumes "head_rep limit rep o' ss" "0 < limit"
  shows "\<exists>o''. head_Pull limit pull True o' = Some (o'', Inr None) \<and> head_rep limit rep o'' (tl ss)"
proof -
  obtain cnt s where o': "o' = (cnt, s)" by force
  obtain ps where ps: "rep s ps" and ss: "ss = (if cnt \<ge> limit then [] # map (take_batches limit) ps
      else map_streams (take_batches (limit - cnt)) (take_batches limit) ps)"
    using assms(1) by (auto simp: head_rep_def o')
  obtain s' where s': "pull True s = Some (s', Inr None)" "rep s' (tl ps)" using pull_done ps by blast
  show ?thesis using ps s' ss \<open>0 < limit\<close> by (auto simp: o' head_Pull_def head_rep_def)
qed

lemma head_contract: "0 < limit \<Longrightarrow> puller_contract (head_Pull limit pull) (head_rep limit rep)"
  by unfold_locales (blast intro: head_next head_done)+

lemma skip_pull_next:
  assumes "rep s (bs # ps)"
  shows "\<exists>o''. skip_pull_loop offset pull False cnt s = Some (o'', Inr (next_batch (skip_batches (offset - cnt) bs # qs))) \<and>
    skip_rep offset rep o'' (advance (skip_batches (offset - cnt) bs # map (skip_batches offset) ps))"
  using assms
proof (induction bs arbitrary: s cnt)
  case Nil
  then show ?case using pull_end [of s ps]
    by (fastforce simp: skip_rep_def skip_pull_loop.simps [of _ _ _ _ s])
next
  case (Cons b bs)
  obtain s' where s': "pull False s = Some (s', Inr (Some b))" "rep s' (bs # ps)"
    using pull_batch Cons.prems by blast
  consider "offset \<le> cnt" | "offset > cnt" "offset - cnt < length b" | "offset > cnt" "offset - cnt \<ge> length b" by linarith
  then show ?case
  proof cases
    case 1
    then show ?thesis using s' by (auto simp: skip_rep_def skip_pull_loop.simps [of _ _ _ _ s] intro!: exI [of _ "bs # ps"])
  next
    case 2
    then show ?thesis using s' by (auto simp: skip_rep_def skip_pull_loop.simps [of _ _ _ _ s] intro!: exI [of _ "bs # ps"])
  next
    case 3
    then show ?thesis using s' Cons.IH [OF s'(2), of "cnt + length b"] by (simp add: skip_pull_loop.simps [of _ _ _ _ s])
  qed
qed

lemma skip_next:
  assumes "skip_rep offset rep o' ss"
  shows "\<exists>o''. skip_Pull offset pull False o' = Some (o'', Inr (next_batch ss)) \<and> skip_rep offset rep o'' (advance ss)"
proof -
  obtain cnt s where o': "o' = (cnt, s)" by force
  obtain ps where ps: "rep s ps" and ss: "ss = map_streams (skip_batches (offset - cnt)) (skip_batches offset) ps"
    using assms by (auto simp: skip_rep_def o')
  show ?thesis
  proof (cases ps)
    case Nil
    then show ?thesis using pull_none [of s] ps ss by (fastforce simp: o' skip_Pull_def skip_rep_def skip_pull_loop.simps [of _ _ _ _ s])
  next
    case (Cons bs ps')
    then show ?thesis using skip_pull_next [of s bs ps'] ps ss by (simp add: o' skip_Pull_def)
  qed
qed

lemma skip_done:
  assumes "skip_rep offset rep o' ss"
  shows "\<exists>o''. skip_Pull offset pull True o' = Some (o'', Inr None) \<and> skip_rep offset rep o'' (tl ss)"
proof -
  obtain cnt s where o': "o' = (cnt, s)" by force
  obtain ps where ps: "rep s ps" and ss: "ss = map_streams (skip_batches (offset - cnt)) (skip_batches offset) ps"
    using assms by (auto simp: skip_rep_def o')
  obtain s' where s': "pull True s = Some (s', Inr None)" "rep s' (tl ps)" using pull_done ps by blast
  show ?thesis using ps s' ss by (auto simp: o' skip_Pull_def skip_rep_def skip_pull_loop.simps [of _ _ _ _ s])
qed

lemma skip_contract: "puller_contract (skip_Pull offset pull) (skip_rep offset rep)"
  by unfold_locales (blast intro: skip_next skip_done)+

end

subsection \<open>Batches of a reader\<close>

locale list_reader =
  fixes read :: "('r, 'e, 'v) reader" and reads :: "'r \<Rightarrow> 'v list \<Rightarrow> bool"
  assumes read_next: "reads r vs \<Longrightarrow> \<exists>r'. read r = (r', Inr (case vs of [] \<Rightarrow> None | v # _ \<Rightarrow> Some v)) \<and> reads r' (tl vs)"

interpretation arr: list_reader Array_Read "(=)"
  by unfold_locales (simp add: Array_Read_def split: list.splits)

text \<open>The batches the puller makes of a list of values: one batch, and all.\<close>

fun fill_from :: "nat \<Rightarrow> pullerBatch \<Rightarrow> bval list \<Rightarrow> bval list \<times> bval list" where
  "fill_from maxv b [] = (pb_vals b, [])"
| "fill_from maxv b (v # vs) = (case appendVal maxv v b of (b', full) \<Rightarrow> if full then (pb_vals b', vs) else fill_from maxv b' vs)"

lemma pb_vals_appendVal [simp]: "pb_vals (fst (appendVal maxv v b)) = pb_vals b @ [v]"
  by (simp add: appendVal_def Let_def split: option.splits prod.splits)

lemma fill_from_shorter: "length (snd (fill_from maxv b vs)) \<le> length vs - 1"
proof (induction vs arbitrary: b)
  case (Cons v vs)
  then show ?case using le_trans [OF Cons.IH diff_le_self] by (simp add: case_prod_beta)
qed simp

function split_values :: "nat \<Rightarrow> bval list \<Rightarrow> bval list list" where
  "split_values maxv vs = (if vs = [] then [] else
     case fill_from maxv newPullerBatch vs of (b, rest) \<Rightarrow> b # split_values maxv rest)"
  by auto
termination
proof (relation "measure (\<lambda>(maxv, vs). length vs)", goal_cases)
  case (2 maxv vs b rest)
  have "length (snd (b, rest)) < length vs" using fill_from_shorter [of maxv newPullerBatch vs] 2(1)
    by (simp only: 2(2) [symmetric]) (cases vs; simp)
  then show ?case by simp
qed simp

declare split_values.simps [simp del]

lemma split_values_Nil [simp]: "split_values maxv [] = []" and
  split_values_Cons: "vs \<noteq> [] \<Longrightarrow> split_values maxv vs =
     fst (fill_from maxv newPullerBatch vs) # split_values maxv (snd (fill_from maxv newPullerBatch vs))"
  by (simp_all add: split_values.simps case_prod_beta)

definition nbytes :: "bval list \<Rightarrow> nat" where
  "nbytes vs = sum_list (map (\<lambda>v. length (slice_bytes (snd v))) vs)"

text \<open>A batch that is not full.\<close>

definition batch_open :: "nat \<Rightarrow> pullerBatch \<Rightarrow> bool" where
  "batch_open maxv b \<longleftrightarrow> length (pb_buf b) = nbytes (pb_vals b) \<and> nbytes (pb_vals b) < PullerBatchBytes \<and> length (pb_vals b) < maxv"

lemma appendVal_open:
  assumes "batch_open maxv b" "\<not> snd (appendVal maxv v b)"
  shows "batch_open maxv (fst (appendVal maxv v b))"
  using assms by (auto simp: appendVal_def batch_open_def nbytes_def Let_def split: option.splits if_splits)

lemma nbytes_butlast: "nbytes (butlast x) \<le> nbytes x"
  by (cases x rule: rev_cases) (simp_all add: nbytes_def)

lemma fill_from_batch:
  assumes "batch_open maxv b"
  shows "let (x, rest) = fill_from maxv b vs in x @ rest = pb_vals b @ vs \<and> length x \<le> maxv \<and>
     nbytes (butlast x) < PullerBatchBytes \<and> (vs \<noteq> [] \<longrightarrow> x \<noteq> [])"
  using assms
proof (induction vs arbitrary: b)
  case Nil
  then show ?case using nbytes_butlast [of "pb_vals b"] by (auto simp: batch_open_def)
next
  case (Cons v vs)
  have v: "pb_vals (fst (appendVal maxv v b)) = pb_vals b @ [v]" by simp
  show ?case
  proof (cases "snd (appendVal maxv v b)")
    case True
    then show ?thesis using Cons.prems v by (simp add: batch_open_def case_prod_beta)
  next
    case False
    then show ?thesis using Cons.IH [OF appendVal_open [OF Cons.prems False]] v
      by (cases "fill_from maxv (fst (appendVal maxv v b)) vs") (auto simp: case_prod_beta)
  qed
qed

lemma newPullerBatch_open: "0 < maxv \<Longrightarrow> batch_open maxv newPullerBatch"
  by (simp add: batch_open_def newPullerBatch_def nbytes_def PullerBatchBytes_def)

lemma split_values_batches:
  assumes "0 < maxv"
  shows "concat (split_values maxv vs) = vs \<and>
    list_all (\<lambda>b. b \<noteq> [] \<and> length b \<le> maxv \<and> nbytes (butlast b) < PullerBatchBytes) (split_values maxv vs)"
  using assms
proof (induction maxv vs rule: split_values.induct)
  case (1 maxv vs)
  obtain x rest where x: "fill_from maxv newPullerBatch vs = (x, rest)" by force
  show ?case
  proof (cases "vs = []")
    case False
    then show ?thesis using 1(1) [OF False x [symmetric]] x 1(2) fill_from_batch [OF newPullerBatch_open, of maxv vs]
      by (auto simp: split_values_Cons newPullerBatch_def)
  qed simp
qed

definition puller_rep :: "nat \<Rightarrow> ('r \<Rightarrow> bval list \<Rightarrow> bool) \<Rightarrow> 'r option \<Rightarrow> bval list list list \<Rightarrow> bool" where
  "puller_rep maxv reads p ss \<longleftrightarrow> (case p of None \<Rightarrow> ss = [] \<or> ss = [[]] | Some r \<Rightarrow> (\<exists>vs. reads r vs \<and> ss = [split_values maxv vs]))"

text \<open>What a puller has left of its reader.\<close>

definition puller_left :: "('r \<Rightarrow> bval list \<Rightarrow> bool) \<Rightarrow> 'r option \<Rightarrow> bval list \<Rightarrow> bool" where
  "puller_left reads p vs \<longleftrightarrow> (case p of None \<Rightarrow> vs = [] | Some r \<Rightarrow> reads r vs)"

lemma puller_left_simps [simp]:
  "puller_left reads None vs \<longleftrightarrow> vs = []" "puller_left reads (Some r) vs \<longleftrightarrow> reads r vs"
  by (simp_all add: puller_left_def)

lemma puller_left_rep: "puller_left reads p vs \<Longrightarrow> puller_rep maxv reads p [split_values maxv vs]"
  by (cases p) (auto simp: puller_rep_def)

lemma fill_batch_from:
  assumes "list_reader read reads" "reads r vs" "pb_vals b @ vs \<noteq> []"
  shows "\<exists>p. fill_batch maxv read r b = Some (p, Inr (Some (fst (fill_from maxv b vs)))) \<and>
     puller_left reads p (snd (fill_from maxv b vs))"
  using assms(2,3)
proof (induction vs arbitrary: r b)
  case Nil
  then show ?case using list_reader.read_next [OF assms(1) Nil(1)] by (fastforce simp: fill_batch.simps [of _ _ r])
next
  case (Cons v vs)
  obtain r' where r': "read r = (r', Inr (Some v))" "reads r' vs" using list_reader.read_next [OF assms(1) Cons.prems(1)] by auto
  obtain b' full where a: "appendVal maxv v b = (b', full)" by force
  have "pb_vals b' = pb_vals b @ [v]" using pb_vals_appendVal [of maxv v b] a by simp
  then show ?case using Cons.IH [OF r'(2), of b'] r' a
    by (cases full) (simp_all add: fill_batch.simps [of _ _ r])
qed

lemma puller_contract_list:
  assumes "list_reader read reads"
  shows "puller_contract (puller_Pull maxv read) (puller_rep maxv reads)"
proof unfold_locales
  fix p ss assume "puller_rep maxv reads p ss"
  then consider "p = None" "ss = [] \<or> ss = [[]]" | r where "p = Some r" "reads r []" "ss = [[]]"
    | r vs where "p = Some r" "reads r vs" "vs \<noteq> []" "ss = [split_values maxv vs]"
    by (cases p) (auto simp: puller_rep_def, metis split_values_Nil)
  then show "\<exists>p'. puller_Pull maxv read False p = Some (p', Inr (next_batch ss)) \<and> puller_rep maxv reads p' (advance ss)"
  proof cases
    case 1
    then show ?thesis by (auto simp: puller_Pull_def puller_rep_def)
  next
    case 2
    then show ?thesis using list_reader.read_next [OF assms 2(2)]
      by (auto simp: puller_Pull_def puller_rep_def fill_batch.simps [of _ _ r] newPullerBatch_def)
  next
    case 3
    then show ?thesis using fill_batch_from [OF assms 3(2), of newPullerBatch maxv]
      by (auto simp: puller_Pull_def split_values_Cons dest: puller_left_rep)
  qed
next
  fix p ss assume "puller_rep maxv reads p ss"
  then show "\<exists>p'. puller_Pull maxv read True p = Some (p', Inr None) \<and> puller_rep maxv reads p' (tl ss)"
    by (auto simp: puller_Pull_def puller_rep_def split: option.splits)
qed

interpretation arrp: puller_contract "puller_Pull maxv Array_Read" "puller_rep maxv (=)" for maxv
  by (rule puller_contract_list [OF arr.list_reader_axioms])

subsection \<open>Properties\<close>

text \<open>The values a puller of an array still has.\<close>

definition values_left :: "bval list option \<Rightarrow> bval list" where
  "values_left p = (case p of None \<Rightarrow> [] | Some vs \<Rightarrow> vs)"

lemma puller_first:
  assumes "0 < maxv"
  shows "\<exists>p' r. puller_Pull maxv (Array_Read :: (bval list, 'e, bval) reader) False (Some vs) = Some (p', Inr r) \<and>
      (case r of None \<Rightarrow> vs = [] \<and> p' = None
       | Some b \<Rightarrow> b \<noteq> [] \<and> length b \<le> maxv \<and> nbytes (butlast b) < PullerBatchBytes \<and> b @ values_left p' = vs)"
proof (cases "vs = []")
  case True
  then show ?thesis by (simp add: puller_Pull_def fill_batch.simps Array_Read_def newPullerBatch_def)
next
  case False
  let ?f = "fill_from maxv newPullerBatch vs"
  obtain p' where p': "fill_batch maxv (Array_Read :: (bval list, 'e, bval) reader) vs newPullerBatch = Some (p', Inr (Some (fst ?f)))" "puller_left (=) p' (snd ?f)"
    using fill_batch_from [OF arr.list_reader_axioms refl, of newPullerBatch vs maxv] False by auto
  have f: "fst ?f @ snd ?f = vs" "length (fst ?f) \<le> maxv" "nbytes (butlast (fst ?f)) < PullerBatchBytes" "fst ?f \<noteq> []"
    using fill_from_batch [OF newPullerBatch_open [OF assms], of vs] False
    by (simp_all add: case_prod_beta newPullerBatch_def)
  moreover have "fst ?f @ values_left p' = vs" using f(1) p'(2) by (cases p') (auto simp: values_left_def)
  ultimately show ?thesis using p'(1)
    by - (rule exI [of _ p'], rule exI [of _ "Some (fst ?f)"], simp add: puller_Pull_def)
qed

lemma puller_rep_array: "puller_rep maxv (=) (Some vs) [split_values maxv vs]"
  by (simp add: puller_rep_def)

lemma puller_copy:
  assumes "0 < maxv"
  shows "\<exists>p'. CopyPuller Array_Write w (puller_Pull maxv Array_Read) (Some vs) = Some ((w @ vs, p'), None)"
  using arrp.copy_stream [OF puller_rep_array [of maxv vs], of w] split_values_batches [OF assms, of vs] by auto

text \<open>
  C23: pulling batches from an array always returns. A batch is not empty, has at most \<open>maxv\<close> values, and
  all its values but the last have less than \<open>PullerBatchBytes\<close> bytes together; the values come in
  order and none is lost, so copying the puller copies the array, and a done ends it for good.
\<close>

theorem puller_batches:
  assumes "0 < maxv"
  shows "(\<exists>p' r. puller_Pull maxv (Array_Read :: (bval list, 'e, bval) reader) False (Some vs) = Some (p', Inr r) \<and>
      (case r of None \<Rightarrow> vs = [] \<and> p' = None
       | Some b \<Rightarrow> b \<noteq> [] \<and> length b \<le> maxv \<and> nbytes (butlast b) < PullerBatchBytes \<and> b @ values_left p' = vs)) \<and>
    (\<exists>p'. CopyPuller Array_Write w (puller_Pull maxv (Array_Read :: (bval list, 'e, bval) reader)) (Some vs) = Some ((w @ vs, p'), None)) \<and>
    puller_Pull maxv (Array_Read :: (bval list, 'e, bval) reader) True p = Some (None, Inr None) \<and>
    puller_Pull maxv (Array_Read :: (bval list, 'e, bval) reader) d None = Some (None, Inr None)"
  by (intro conjI puller_first puller_copy assms) (simp_all add: puller_Pull_def)

theorem puller_batches_witness:
  "\<exists>p'. CopyPuller Array_Write [] (puller_Pull 2 Array_Read) (Some [(TypePrim TypeString, Some [1]), (TypePrim TypeNull, None), (TypePrim TypeString, Some [])]) =
     Some (([(TypePrim TypeString, Some [1]), (TypePrim TypeNull, None), (TypePrim TypeString, Some [])], p'), None :: unit pfail option)"
  using puller_batches [where 'e = unit, of 2 "[(TypePrim TypeString, Some [1]), (TypePrim TypeNull, None), (TypePrim TypeString, Some [])]" "[]" None False] by simp

text \<open>
  C21: over a puller that keeps the contract head and skip keep it too: a done ends the stream, and after
  the end they start again. tail keeps it for pulls without done. The streams they stand for have the
  first \<open>limit\<close> values of each stream, all but the first \<open>offset\<close>, and the last \<open>limit\<close>.
\<close>

theorem operators_keep_contract:
  assumes "puller_contract pull rep" "0 < limit"
  shows "puller_contract (head_Pull limit pull) (head_rep limit rep) \<and>
    puller_contract (skip_Pull offset pull) (skip_rep offset rep) \<and>
    puller_streams (tail_Pull limit pull) (tail_rep limit rep) \<and>
    (rep s ss \<longrightarrow> head_rep limit rep (0, s) (map (take_batches limit) ss) \<and>
       skip_rep offset rep (0, s) (map (skip_batches offset) ss) \<and>
       tail_rep limit rep (([], False), s) (map (last_batches limit) ss)) \<and>
    concat (take_batches limit bs) = take limit (concat bs) \<and>
    concat (skip_batches offset bs) = drop offset (concat bs) \<and>
    concat (last_batches limit bs) = last_values limit (concat bs)"
proof -
  have "puller_streams pull rep" using assms(1) by (simp add: puller_contract_def)
  then show ?thesis
    using puller_contract.head_contract [OF assms] puller_contract.skip_contract [OF assms(1)] puller_streams.tail_streams [OF _ assms(2)]
      assms(2) by (auto simp: concat_take_batches concat_skip_batches concat_last_batches head_rep_def skip_rep_def tail_rep_def)
qed

theorem operators_keep_contract_witness:
  "puller_contract (head_Pull 2 (puller_Pull 3 Array_Read) :: (nat \<times> bval list option, unit, bval) puller) (head_rep 2 (puller_rep 3 (=)))"
  by (rule operators_keep_contract [THEN conjunct1, OF arrp.puller_contract_axioms]) simp

lemma head_values:
  assumes "0 < maxv" "0 < limit"
  shows "\<exists>o'. CopyPuller Array_Write [] (head_Pull limit (puller_Pull maxv Array_Read)) (0, Some vs) = Some ((take limit vs, o'), None)"
proof -
  have "head_rep limit (puller_rep maxv (=)) (0, Some vs) [take_batches limit (split_values maxv vs)]"
    using puller_rep_array [of maxv vs] assms(2) by (auto simp: head_rep_def intro!: exI [of _ "[split_values maxv vs]"])
  from puller_streams.copy_stream [OF puller_contract.axioms(1) [OF arrp.head_contract [OF assms(2)]] this, of "[]"]
  show ?thesis using split_values_batches [OF assms(1), of vs] by (auto simp: concat_take_batches)
qed

lemma skip_values:
  assumes "0 < maxv"
  shows "\<exists>o'. CopyPuller Array_Write [] (skip_Pull offset (puller_Pull maxv Array_Read)) (0, Some vs) = Some ((drop offset vs, o'), None)"
proof -
  have "skip_rep offset (puller_rep maxv (=)) (0, Some vs) [skip_batches offset (split_values maxv vs)]"
    using puller_rep_array [of maxv vs] by (auto simp: skip_rep_def intro!: exI [of _ "[split_values maxv vs]"])
  from puller_streams.copy_stream [OF puller_contract.axioms(1) [OF arrp.skip_contract] this, of "[]"]
  show ?thesis using split_values_batches [OF assms, of vs] by (auto simp: concat_skip_batches)
qed

lemma tail_values:
  assumes "0 < maxv" "0 < limit"
  shows "\<exists>o'. CopyPuller Array_Write [] (tail_Pull limit (puller_Pull maxv Array_Read)) (([], False), Some vs) = Some ((last_values limit vs, o'), None)"
proof -
  have "tail_rep limit (puller_rep maxv (=)) (([], False), Some vs) [last_batches limit (split_values maxv vs)]"
    using puller_rep_array [of maxv vs] by (auto simp: tail_rep_def intro!: exI [of _ "[split_values maxv vs]"])
  from puller_streams.copy_stream [OF arrp.tail_streams [OF assms(2)] this, of "[]"]
  show ?thesis using split_values_batches [OF assms(1), of vs] by (auto simp: concat_last_batches)
qed

text \<open>
  Over the values of an array, head returns the first \<open>limit\<close>, skip all but the first \<open>offset\<close>, and tail the
  last \<open>limit\<close>, however the values fall into batches; each pipeline ends.
\<close>

theorem head_skip_tail_values:
  assumes "0 < maxv" "0 < limit"
  shows "(\<exists>o'. CopyPuller Array_Write [] (head_Pull limit (puller_Pull maxv (Array_Read :: (bval list, 'e, bval) reader))) (0, Some vs) = Some ((take limit vs, o'), None)) \<and>
    (\<exists>o'. CopyPuller Array_Write [] (skip_Pull offset (puller_Pull maxv (Array_Read :: (bval list, 'e, bval) reader))) (0, Some vs) = Some ((drop offset vs, o'), None)) \<and>
    (\<exists>o'. CopyPuller Array_Write [] (tail_Pull limit (puller_Pull maxv (Array_Read :: (bval list, 'e, bval) reader))) (([], False), Some vs) = Some ((last_values limit vs, o'), None))"
  by (intro conjI head_values skip_values tail_values assms)

theorem head_skip_tail_values_witness:
  "\<exists>o'. CopyPuller Array_Write [] (tail_Pull 1 (puller_Pull 1 Array_Read)) (([], False), Some [(TypePrim TypeNull, None), (TypePrim TypeString, Some [])]) =
     Some (([(TypePrim TypeString, Some [])], o'), None :: unit pfail option)"
  using head_skip_tail_values [where 'e = unit, of 1 1 "[(TypePrim TypeNull, None), (TypePrim TypeString, Some [])]"] by (simp add: last_values_def)

end
