(* ===== verification/Zbuf_Uniq.thy ===== *)
theory Zbuf_Uniq
  imports Zbuf_Inv
begin

text \<open>The uniq operator against runs of values with equal bytes.\<close>

definition same_bytes :: "bval \<Rightarrow> bval \<Rightarrow> bool" where
  "same_bytes v w \<longleftrightarrow> slice_bytes (snd v) = slice_bytes (snd w)"

text \<open>The runs that end in a list of values and the run that is still open.\<close>

fun runs :: "(bval \<times> nat) option \<Rightarrow> bval list \<Rightarrow> (bval \<times> nat) list \<times> (bval \<times> nat) option" where
  "runs p [] = ([], p)"
| "runs None (v # vs) = runs (Some (v, 1)) vs"
| "runs (Some (l, n)) (v # vs) = (if same_bytes v l then runs (Some (l, n + 1)) vs
     else (case runs (Some (v, 1)) vs of (rs, p) \<Rightarrow> ((l, n) # rs, p)))"

definition all_runs :: "(bval \<times> nat) option \<Rightarrow> bval list \<Rightarrow> (bval \<times> nat) list" where
  "all_runs p vs = (case runs p vs of (rs, p) \<Rightarrow> rs @ (case p of None \<Rightarrow> [] | Some r \<Rightarrow> [r]))"

abbreviation uniq_runs :: "bval list \<Rightarrow> (bval \<times> nat) list" where
  "uniq_runs \<equiv> all_runs None"

lemma runs_append:
  "runs p (xs @ ys) = (case runs p xs of (rs, q) \<Rightarrow> case runs q ys of (rs', q') \<Rightarrow> (rs @ rs', q'))"
  by (induction p xs rule: runs.induct) (auto split: prod.splits)

lemma all_runs_append: "all_runs p (xs @ ys) = fst (runs p xs) @ all_runs (snd (runs p xs)) ys"
  by (simp add: all_runs_def runs_append split: prod.splits)

definition expand :: "bval \<times> nat \<Rightarrow> bytes list" where
  "expand r = replicate (snd r) (slice_bytes (snd (fst r)))"

lemma all_runs_open:
  "all_runs (Some (l, n)) [] = [(l, n)]"
  "all_runs (Some (l, n)) (v # vs) = (if same_bytes v l then all_runs (Some (l, n + 1)) vs else (l, n) # all_runs (Some (v, 1)) vs)"
  "all_runs None [] = []" "all_runs None (v # vs) = all_runs (Some (v, 1)) vs"
  by (simp_all add: all_runs_def split: prod.splits)

lemma hd_all_runs: "\<exists>m rs. all_runs (Some (l, n)) vs = (l, m) # rs"
  by (induction vs arbitrary: n) (auto simp: all_runs_open)

lemma all_runs_spec:
  "0 < n \<Longrightarrow> concat (map expand (all_runs (Some (l, n)) vs)) = replicate n (slice_bytes (snd l)) @ map (slice_bytes \<circ> snd) vs \<and>
   list_all (\<lambda>r. 0 < snd r) (all_runs (Some (l, n)) vs) \<and>
   distinct_adj (map (slice_bytes \<circ> snd \<circ> fst) (all_runs (Some (l, n)) vs))"
proof (induction vs arbitrary: l n)
  case Nil
  then show ?case by (simp add: all_runs_open expand_def)
next
  case (Cons v vs)
  obtain m rs where "all_runs (Some (v, 1)) vs = (v, m) # rs" using hd_all_runs by blast
  then show ?case using Cons.IH [of "Suc n" l] Cons.IH [of 1 v] Cons.prems
    by (auto simp: all_runs_open same_bytes_def expand_def replicate_append_same)
qed

text \<open>The runs of a list: their values, each as often as its count, are the list, and neighbours differ.\<close>

lemma uniq_runs_spec:
  "concat (map expand (uniq_runs vs)) = map (slice_bytes \<circ> snd) vs" "list_all (\<lambda>r. 0 < snd r) (uniq_runs vs)"
  "distinct_adj (map (slice_bytes \<circ> snd \<circ> fst) (uniq_runs vs))"
  using all_runs_spec [of 1 "hd vs" "tl vs"] by (cases vs; simp add: all_runs_open)+

subsection \<open>The values the operator makes of runs\<close>

definition wrap_value :: "bool \<Rightarrow> tcontext \<Rightarrow> bval \<Rightarrow> u64 \<Rightarrow> tcontext \<times> bval" where
  "wrap_value cflag c v n = (if cflag then
     (case LookupTypeRecord c [(str ''value'', fst v), (str ''count'', TypePrim TypeUint64)] of
        (c, Inr typ) \<Rightarrow> (c, typ, Some (Append (Append [] (snd v)) (Some (counted_bytes n))))
      | (c, Inl _) \<Rightarrow> (c, v))
     else (c, v))"

lemma value_count_fields: "\<exists>c' typ. LookupTypeRecord c [(str ''value'', t), (str ''count'', u)] = (c', Inr typ)"
proof -
  have "duplicateField [(str ''value'', t), (str ''count'', u)] = None" by (simp add: duplicateField_def) code_simp
  then show ?thesis by (auto simp: LookupTypeRecord_def Let_def split: option.splits)
qed

lemma uniq_wrap_eq: "uniq_wrap cflag o' t = (o'\<lparr>u_ctx := fst (wrap_value cflag (u_ctx o') t (u_count o'))\<rparr>,
    Some (snd (wrap_value cflag (u_ctx o') t (u_count o'))))"
  using value_count_fields [of "u_ctx o'" "fst t" "TypePrim TypeUint64"]
  by (auto simp: uniq_wrap_def wrap_value_def EncodeUint_eq Builder_Bytes_def Builder_Append_def Builder_Reset_def NewBuilder_def)

fun wrap_runs :: "bool \<Rightarrow> tcontext \<Rightarrow> (bval \<times> nat) list \<Rightarrow> tcontext \<times> bval list" where
  "wrap_runs cflag c [] = (c, [])"
| "wrap_runs cflag c (r # rs) = (let (c, w) = wrap_value cflag c (fst r) (of_nat (snd r)); (c, ws) = wrap_runs cflag c rs in (c, w # ws))"

lemma wrap_runs_append: "wrap_runs cflag c (rs @ rs') =
    (let (c, ws) = wrap_runs cflag c rs; (c, ws') = wrap_runs cflag c rs' in (c, ws @ ws'))"
  by (induction rs arbitrary: c) (auto simp: Let_def split: prod.splits)

lemma wrap_runs_plain: "wrap_runs False c rs = (c, map fst rs)"
  by (induction rs arbitrary: c) (simp_all add: wrap_value_def)

text \<open>The state of the operator in a run.\<close>

definition in_run :: "(bval \<times> nat) option \<Rightarrow> uniq \<Rightarrow> bool" where
  "in_run p o' \<longleftrightarrow> \<not> u_eos o' \<and> (case p of None \<Rightarrow> u_count o' = 0 \<and> u_last o' = None
     | Some (l, n) \<Rightarrow> u_count o' = of_nat n \<and> 0 < n \<and> u_last o' = Some l)"

definition run_length :: "(bval \<times> nat) option \<Rightarrow> nat" where
  "run_length p = (case p of None \<Rightarrow> 0 | Some r \<Rightarrow> snd r)"

lemma append_uniqs_runs:
  assumes "in_run p o'" "run_length p + length vs < 2 ^ 64"
  shows "\<exists>o''. append_uniqs cflag out vs o' = (o'', Some (out @ snd (wrap_runs cflag (u_ctx o') (fst (runs p vs))))) \<and>
     u_ctx o'' = fst (wrap_runs cflag (u_ctx o') (fst (runs p vs))) \<and> in_run (snd (runs p vs)) o''"
  using assms
proof (induction p vs arbitrary: o' out rule: runs.induct)
  case (1 p)
  then show ?case by simp
next
  case (2 v vs)
  have "in_run (Some (v, 1)) (o'\<lparr>u_last := Some v, u_count := 1\<rparr>)" using 2(2) by (simp add: in_run_def)
  then show ?case using 2(1) [of "o'\<lparr>u_last := Some v, u_count := 1\<rparr>" out] 2(2,3)
    by (simp add: run_length_def appendUniq_def in_run_def)
next
  case (3 l n v vs)
  have nz: "of_nat n \<noteq> (0::u64)"
    using 3(3,4) by (auto simp: in_run_def run_length_def word_of_nat_eq_0_iff dest: nat_dvd_not_less)
  show ?case
  proof (cases "same_bytes v l")
    case True
    have "in_run (Some (l, n + 1)) (o'\<lparr>u_count := u_count o' + 1\<rparr>)" using 3(3) by (simp add: in_run_def)
    then show ?thesis using 3(1) [OF True, of "o'\<lparr>u_count := u_count o' + 1\<rparr>" out] 3(3,4) True nz
      by (simp add: run_length_def appendUniq_def in_run_def same_bytes_def)
  next
    case False
    let ?w = "wrap_value cflag (u_ctx o') l (of_nat n)"
    let ?o = "o'\<lparr>u_ctx := fst ?w, u_last := Some v, u_count := 1\<rparr>"
    have "in_run (Some (v, 1)) ?o" using 3(3) by (simp add: in_run_def)
    then show ?thesis using 3(2) [OF False, of ?o "out @ [snd ?w]"] 3(3,4) False nz
      by (auto simp: run_length_def appendUniq_def in_run_def same_bytes_def uniq_wrap_eq Let_def split: prod.splits)
  qed
qed

text \<open>All the values that uniq returns up to the end of the stream.\<close>

lemma run_length_runs: "run_length (snd (runs p vs)) \<le> run_length p + length vs"
  by (induction p vs rule: runs.induct) (auto simp: run_length_def split: prod.splits)

lemma runs_open: "snd (runs p vs) = None \<longleftrightarrow> p = None \<and> vs = []"
  by (induction p vs rule: runs.induct) (auto split: prod.splits)

locale value_puller = puller_contract pull rep for pull :: "('s, 'e, bval) puller" and rep
begin

lemma uniq_batch:
  assumes "rep s ((b # bs) # ss)" "in_run p o'" "run_length p + length b < 2 ^ 64"
  obtains s' o'' where "rep s' (bs # ss)" "in_run (snd (runs p b)) o''"
    "u_ctx o'' = fst (wrap_runs cflag (u_ctx o') (fst (runs p b)))"
    "uniq_Pull cflag pull False (o', s) = (let out = snd (wrap_runs cflag (u_ctx o') (fst (runs p b))) in
       if out = [] then uniq_Pull cflag pull False (o'', s') else Some ((o'', s'), Inr (Some out)))"
proof -
  obtain s' where s': "pull False s = Some (s', Inr (Some b))" "rep s' (bs # ss)"
    using pull_batch assms(1) by blast
  obtain o'' where o'': "append_uniqs cflag [] b o' = (o'', Some (snd (wrap_runs cflag (u_ctx o') (fst (runs p b)))))"
    "u_ctx o'' = fst (wrap_runs cflag (u_ctx o') (fst (runs p b)))" "in_run (snd (runs p b)) o''"
    using append_uniqs_runs [OF assms(2,3), of cflag "[]"] by auto
  have "\<not> u_eos o'" "\<not> u_eos o''" using assms(2) o''(3) by (auto simp: in_run_def)
  then show ?thesis
    using that [OF s'(2) o''(3,2)] s' o'' by (simp add: uniq_Pull_def Let_def uniq_loop.simps [of _ _ _ _ s])
qed

lemma uniq_copy:
  assumes "rep s (bs # ss)" "in_run p o'" "run_length p + length (concat bs) < 2 ^ 64"
  shows "\<exists>o'' s'. CopyPuller Array_Write w (uniq_Pull cflag pull) (o', s) =
       Some ((w @ snd (wrap_runs cflag (u_ctx o') (all_runs p (concat bs))), (o'', s')), None) \<and>
     rep s' ss \<and> \<not> u_eos o'' \<and> u_last o'' = None \<and> (u_count o'' = 0 \<longleftrightarrow> p = None \<and> concat bs = [])"
  using assms
proof (induction bs arbitrary: s p o' w)
  case Nil
  obtain s' where s': "pull False s = Some (s', Inr None)" "rep s' ss" using pull_end Nil.prems(1) by blast
  show ?case
  proof (cases p)
    case None
    then show ?thesis using s' Nil.prems
      by (simp add: CopyPuller.simps [of _ w] uniq_Pull_def uniq_loop.simps [of _ _ _ _ s] in_run_def all_runs_open)
  next
    case (Some r)
    obtain l n where r: "r = (l, n)" by (cases r)
    have "of_nat n \<noteq> (0::u64)"
      using Nil.prems(2,3) Some r by (auto simp: in_run_def run_length_def word_of_nat_eq_0_iff dest: nat_dvd_not_less)
    moreover let ?w = "wrap_value cflag (u_ctx o') l (u_count o')"
    let ?o = "o'\<lparr>u_eos := True, u_ctx := fst ?w, u_last := None\<rparr>"
    have "uniq_Pull cflag pull False (o', s) = Some ((?o, s'), Inr (Some [snd ?w]))"
      using s' Nil.prems(2) Some r
      by (simp add: uniq_Pull_def uniq_loop.simps [of _ _ _ _ s] in_run_def uniq_wrap_eq)
    moreover have "uniq_Pull cflag pull False (?o, s') = Some ((?o\<lparr>u_eos := False\<rparr>, s'), Inr None)"
      by (simp add: uniq_Pull_def)
    ultimately show ?thesis using s'(2) Nil.prems(2) Some r
      by (auto simp: CopyPuller.simps [of _ _ "uniq_Pull cflag pull"] in_run_def all_runs_open split: prod.splits)
  qed
next
  case (Cons b bs)
  have l: "length b + length (concat bs) + run_length p < 2 ^ 64" using Cons.prems(3) by simp
  then have lb: "run_length p + length b < 2 ^ 64" by linarith
  obtain s' o'' where b: "rep s' (bs # ss)" "in_run (snd (runs p b)) o''"
    "u_ctx o'' = fst (wrap_runs cflag (u_ctx o') (fst (runs p b)))"
    "uniq_Pull cflag pull False (o', s) = (let out = snd (wrap_runs cflag (u_ctx o') (fst (runs p b))) in
       if out = [] then uniq_Pull cflag pull False (o'', s') else Some ((o'', s'), Inr (Some out)))"
    using uniq_batch [OF Cons.prems(1,2) lb, of cflag] by blast
  let ?out = "snd (wrap_runs cflag (u_ctx o') (fst (runs p b)))"
  have "CopyPuller Array_Write w (uniq_Pull cflag pull) (o', s) = CopyPuller Array_Write (w @ ?out) (uniq_Pull cflag pull) (o'', s')"
    using b(4) by (cases "?out = []") (simp_all add: CopyPuller.simps [of _ w] Let_def)
  moreover have "run_length (snd (runs p b)) + length (concat bs) < 2 ^ 64"
    using run_length_runs [of p b] l by linarith
  moreover have "snd (wrap_runs cflag (u_ctx o') (all_runs p (concat (b # bs)))) =
      ?out @ snd (wrap_runs cflag (u_ctx o'') (all_runs (snd (runs p b)) (concat bs)))"
    using b(3) by (simp add: all_runs_append wrap_runs_append Let_def split: prod.splits)
  ultimately show ?case
    using Cons.IH [OF b(1,2), of "w @ ?out"] by (simp add: runs_open)
qed

end

text \<open>A list of streams as a puller.\<close>

definition list_pull :: "('v list list list, 'e, 'v) puller" where
  "list_pull d ss = Some (if d then (tl ss, Inr None) else (advance ss, Inr (next_batch ss)))"

interpretation lp: value_puller list_pull "(=)"
  by unfold_locales (auto simp: list_pull_def)

interpretation arrv: value_puller "puller_Pull maxv Array_Read" "puller_rep maxv (=)" for maxv
  by unfold_locales

text \<open>
  C24: uniq returns, for the values of an array in any batches, the first value of each run of values with
  equal bytes, with the count of the run when asked for. The runs, each value as often as its count,
  are the values of the array, and neighbouring runs differ.
\<close>

theorem uniq_returns_runs:
  assumes "0 < maxv" "length vs < 2 ^ 64"
  shows "(\<exists>o'. CopyPuller Array_Write [] (uniq_Pull cflag (puller_Pull maxv (Array_Read :: (bval list, 'e, bval) reader))) (uniq_New c, Some vs) =
      Some ((snd (wrap_runs cflag c (uniq_runs vs)), o'), None)) \<and>
    snd (wrap_runs False c (uniq_runs vs)) = map fst (uniq_runs vs) \<and>
    concat (map expand (uniq_runs vs)) = map (slice_bytes \<circ> snd) vs \<and> list_all (\<lambda>r. 0 < snd r) (uniq_runs vs) \<and>
    distinct_adj (map (slice_bytes \<circ> snd \<circ> fst) (uniq_runs vs))"
proof -
  have "puller_rep maxv (=) (Some vs) [split_values maxv vs]" by (simp add: puller_rep_def)
  moreover have "in_run None (uniq_New c)" by (simp add: in_run_def uniq_New_def)
  ultimately show ?thesis
    using arrv.uniq_copy [of maxv "Some vs" "split_values maxv vs" "[]" None "uniq_New c" "[]" cflag] split_values_batches [OF assms(1), of vs]
      assms(2) uniq_runs_spec [of vs] by (auto simp: run_length_def wrap_runs_plain uniq_New_def)
qed

theorem uniq_returns_runs_witness:
  "\<exists>o'. CopyPuller Array_Write [] (uniq_Pull False (puller_Pull 2 Array_Read))
     (uniq_New NewContext, Some [(TypePrim TypeString, Some [1]), (TypePrim TypeString, Some [1]), (TypePrim TypeString, Some [1]), (TypePrim TypeString, Some [2])]) =
     Some (([(TypePrim TypeString, Some [1]), (TypePrim TypeString, Some [2])], o'), None :: unit pfail option)"
  using uniq_returns_runs [where 'e = unit, of 2 "[(TypePrim TypeString, Some [1]), (TypePrim TypeString, Some [1]), (TypePrim TypeString, Some [1]), (TypePrim TypeString, Some [2])]" False NewContext]
  by (simp add: all_runs_open same_bytes_def wrap_value_def)

text \<open>
  Uniq does not keep the contract of pullers. After a stream with values it does not start again: the
  first value of the next stream panics, the last value being nil and the count not reset. And a done that
  finds a value returns a batch instead of the end of the stream.
\<close>

theorem uniq_breaks_contract:
  assumes "puller_contract pull rep" "rep s (bs # (b # b') # ss)" "b \<noteq> []" "concat bs \<noteq> []" "length (concat bs) < 2 ^ 64"
  shows "(\<exists>out o' s' o''. CopyPuller Array_Write [] (uniq_Pull cflag pull) (uniq_New c, s) = Some ((out, (o', s')), None) \<and>
       rep s' ((b # b') # ss) \<and> uniq_Pull cflag pull False (o', s') = Some (o'', Inl PPanic)) \<and>
    (\<exists>o' w. uniq_Pull cflag pull True (\<lparr>u_count = 1, u_last = Some v, u_eos = False, u_ctx = c\<rparr>, s) = Some (o', Inr (Some [w])))"
proof
  have vp: "value_puller pull rep" using assms(1) by (simp add: value_puller_def)
  have "in_run None (uniq_New c)" by (simp add: in_run_def uniq_New_def)
  from value_puller.uniq_copy [OF vp assms(2) this, of "[]" cflag] assms(4,5)
  obtain out o' s' where o': "CopyPuller Array_Write [] (uniq_Pull cflag pull) (uniq_New c, s) = Some ((out, (o', s')), None)"
    "rep s' ((b # b') # ss)" "\<not> u_eos o'" "u_last o' = None" "u_count o' \<noteq> 0" by (auto simp: run_length_def)
  moreover obtain v vs where b: "b = v # vs" using assms(3) by (cases b) auto
  moreover obtain s'' where "pull False s' = Some (s'', Inr (Some b))"
    using puller_streams.pull_batch [OF puller_contract.axioms(1) [OF assms(1)] o'(2)] by blast
  ultimately have "uniq_Pull cflag pull False (o', s') = Some ((o', s''), Inl PPanic)"
    by (simp add: uniq_Pull_def uniq_loop.simps appendUniq_def)
  then show "\<exists>out o' s' o''. CopyPuller Array_Write [] (uniq_Pull cflag pull) (uniq_New c, s) = Some ((out, (o', s')), None) \<and>
       rep s' ((b # b') # ss) \<and> uniq_Pull cflag pull False (o', s') = Some (o'', Inl PPanic)"
    using o'(1,2) by blast
next
  obtain s' where "pull True s = Some (s', Inr None)" using puller_contract.pull_done [OF assms(1,2)] by blast
  then show "\<exists>o' w. uniq_Pull cflag pull True (\<lparr>u_count = 1, u_last = Some v, u_eos = False, u_ctx = c\<rparr>, s) = Some (o', Inr (Some [w]))"
    by (simp add: uniq_Pull_def uniq_loop.simps uniq_wrap_eq)
qed

theorem uniq_breaks_contract_witness:
  "\<exists>o' w. uniq_Pull True (list_pull :: (bval list list list, unit, bval) puller) True
     (\<lparr>u_count = 1, u_last = Some (TypePrim TypeNull, None), u_eos = False, u_ctx = NewContext\<rparr>,
      [[[(TypePrim TypeNull, None)]], [[(TypePrim TypeNull, None)]]]) = Some (o', Inr (Some [w]))"
  by (rule uniq_breaks_contract [OF lp.puller_contract_axioms refl, of "[(TypePrim TypeNull, None)]" "[[(TypePrim TypeNull, None)]]" , THEN conjunct2]) simp_all

end
