(* ===== verification/Bsup_Types.thy ===== *)
theory Bsup_Types
  imports Type_Value
begin

text \<open>
  The type definitions of the BSUP format (\<open>zio/bsupio/types.go\<close>): the encoder that gives the types of a
  stream local identifiers and emits their definitions, and the decoder that rebuilds them in the context
  of the reader. A \<open>buffer\<close> (\<open>zio/bsupio/buffer.go\<close>) is the list of its bytes not read yet.
\<close>

subsection \<open>Encoder\<close>

definition TypeDefRecord :: u8 where "TypeDefRecord = 0"
definition TypeDefArray :: u8 where "TypeDefArray = 1"
definition TypeDefSet :: u8 where "TypeDefSet = 2"
definition TypeDefMap :: u8 where "TypeDefMap = 3"
definition TypeDefUnion :: u8 where "TypeDefUnion = 4"
definition TypeDefEnum :: u8 where "TypeDefEnum = 5"
definition TypeDefError :: u8 where "TypeDefError = 6"
definition TypeDefName :: u8 where "TypeDefName = 7"

text \<open>
  The code keys its table of encoded types by the types' identities. Here the key is the type itself, numbers
  included; within one context, which is where the round trips are stated, the two are the same.
\<close>

record encoder =
  e_sctx :: tcontext
  e_encoded :: "ztype \<rightharpoonup> ztype"
  e_bytes :: bytes

definition NewEncoder :: encoder where
  "NewEncoder = \<lparr>e_sctx = NewContext, e_encoded = Map.empty, e_bytes = []\<rparr>"

definition Encoder_Reset :: "encoder \<Rightarrow> encoder" where
  "Encoder_Reset e = e\<lparr>e_bytes := [], e_encoded := Map.empty, e_sctx := Context_Reset (e_sctx e)\<rparr>"

definition Encoder_Flush :: "encoder \<Rightarrow> encoder" where
  "Encoder_Flush e = e\<lparr>e_bytes := []\<rparr>"

definition Encoder_Lookup :: "encoder \<Rightarrow> ztype \<Rightarrow> ztype option" where
  "Encoder_Lookup e external = e_encoded e external"

text \<open>The outcome of a call is the new state with an error or a result; an error ends the caller.\<close>

type_synonym 'a enc_res = "encoder \<times> (type_error + 'a)"

fun enc_bind :: "'a enc_res \<Rightarrow> ('a \<Rightarrow> encoder \<Rightarrow> 'b enc_res) \<Rightarrow> 'b enc_res" where
  "enc_bind (e, Inl x) f = (e, Inl x)"
| "enc_bind (e, Inr a) f = f a e"

definition append_id :: "bytes \<Rightarrow> ztype \<Rightarrow> bytes" where
  "append_id b t = AppendUvarint b (of_nat (TypeID t))"

definition append_field :: "bytes \<Rightarrow> field \<Rightarrow> bytes" where
  "append_field b f = append_id (append_name b (fst f)) (snd f)"

text \<open>The ends of the methods \<open>encodeType...\<close>, once the component types are encoded.\<close>

definition emit_record :: "field list \<Rightarrow> encoder \<Rightarrow> ztype enc_res" where
  "emit_record flds e = (case LookupTypeRecord (e_sctx e) flds of
      (c, Inl x) \<Rightarrow> (e\<lparr>e_sctx := c\<rparr>, Inl x)
    | (c, Inr typ) \<Rightarrow> (e\<lparr>e_sctx := c, e_bytes := foldl append_field
        (AppendUvarint (e_bytes e @ [TypeDefRecord]) (of_nat (length flds))) flds\<rparr>, Inr typ))"

text \<open>\<open>LookupTypeUnion\<close> sorts its argument in place, so the identifiers are emitted in the order of the sorted list.\<close>

definition emit_union :: "ztype list \<Rightarrow> encoder \<Rightarrow> ztype enc_res" where
  "emit_union types e = (case LookupTypeUnion (e_sctx e) types of (c, typ) \<Rightarrow>
     let types = sort_stable (\<lambda>a b. CompareTypes a b < 0) types in
     (e\<lparr>e_sctx := c, e_bytes := foldl append_id
        (AppendUvarint (e_bytes e @ [TypeDefUnion]) (of_nat (length types))) types\<rparr>, Inr typ))"

definition emit_set :: "ztype \<Rightarrow> encoder \<Rightarrow> ztype enc_res" where
  "emit_set inner e = (case LookupTypeSet (e_sctx e) inner of (c, typ) \<Rightarrow>
     (e\<lparr>e_sctx := c, e_bytes := append_id (e_bytes e @ [TypeDefSet]) inner\<rparr>, Inr typ))"

definition emit_array :: "ztype \<Rightarrow> encoder \<Rightarrow> ztype enc_res" where
  "emit_array inner e = (case LookupTypeArray (e_sctx e) inner of (c, typ) \<Rightarrow>
     (e\<lparr>e_sctx := c, e_bytes := append_id (e_bytes e @ [TypeDefArray]) inner\<rparr>, Inr typ))"

definition emit_map :: "ztype \<Rightarrow> ztype \<Rightarrow> encoder \<Rightarrow> ztype enc_res" where
  "emit_map keyType valType e = (case LookupTypeMap (e_sctx e) keyType valType of (c, typ) \<Rightarrow>
     (e\<lparr>e_sctx := c, e_bytes := append_id (append_id (e_bytes e @ [TypeDefMap]) keyType) valType\<rparr>, Inr typ))"

definition emit_name :: "gostring \<Rightarrow> ztype \<Rightarrow> encoder \<Rightarrow> ztype enc_res" where
  "emit_name name inner e = (case LookupTypeNamed (e_sctx e) name inner of
      (c, Inl x) \<Rightarrow> (e\<lparr>e_sctx := c\<rparr>, Inl x)
    | (c, Inr typ) \<Rightarrow> (e\<lparr>e_sctx := c, e_bytes := append_id (append_name (e_bytes e @ [TypeDefName]) name) inner\<rparr>, Inr typ))"

definition emit_error :: "ztype \<Rightarrow> encoder \<Rightarrow> ztype enc_res" where
  "emit_error inner e = (case LookupTypeError (e_sctx e) inner of (c, typ) \<Rightarrow>
     (e\<lparr>e_sctx := c, e_bytes := append_id (e_bytes e @ [TypeDefError]) inner\<rparr>, Inr typ))"

definition encodeTypeEnum :: "gostring list \<Rightarrow> encoder \<Rightarrow> ztype enc_res" where
  "encodeTypeEnum symbols e = (case LookupTypeEnum (e_sctx e) symbols of (c, typ) \<Rightarrow>
     (e\<lparr>e_sctx := c, e_bytes := append_symbols (AppendUvarint (e_bytes e @ [TypeDefEnum]) (of_nat (length symbols))) symbols\<rparr>, Inr typ))"

function (sequential) Encode :: "ztype \<Rightarrow> encoder \<Rightarrow> ztype enc_res"
  and encode :: "ztype \<Rightarrow> encoder \<Rightarrow> ztype enc_res"
  and encode_fields :: "field list \<Rightarrow> encoder \<Rightarrow> field list enc_res"
  and encode_types :: "ztype list \<Rightarrow> encoder \<Rightarrow> ztype list enc_res"
where
  "Encode external e = (case e_encoded e external of
      Some typ \<Rightarrow> (e, Inr typ)
    | None \<Rightarrow> enc_bind (encode external e) (\<lambda>internal e.
        (e\<lparr>e_encoded := (e_encoded e)(external \<mapsto> internal)\<rparr>, Inr internal)))"
| "encode (TypeRecord i fs) e = enc_bind (encode_fields fs e) emit_record"
| "encode (TypeSet i t) e = enc_bind (Encode t e) emit_set"
| "encode (TypeArray i t) e = enc_bind (Encode t e) emit_array"
| "encode (TypeUnion i ts) e = enc_bind (encode_types ts e) emit_union"
| "encode (TypeMap i k v) e = enc_bind (Encode k e) (\<lambda>k' e. enc_bind (Encode v e) (emit_map k'))"
| "encode (TypeEnum i ss) e = encodeTypeEnum ss e"
| "encode (TypeNamed i n t) e = enc_bind (Encode t e) (emit_name n)"
| "encode (TypeError i t) e = enc_bind (Encode t e) emit_error"
| "encode ext e = (e, Inr ext)"
| "encode_fields [] e = (e, Inr [])"
| "encode_fields ((n, t) # fs) e = enc_bind (Encode t e) (\<lambda>t' e.
     enc_bind (encode_fields fs e) (\<lambda>fs' e. (e, Inr ((n, t') # fs'))))"
| "encode_types [] e = (e, Inr [])"
| "encode_types (t # ts) e = enc_bind (Encode t e) (\<lambda>t' e.
     enc_bind (encode_types ts e) (\<lambda>ts' e. (e, Inr (t' # ts'))))"
  by pat_completeness auto
termination
  by (relation "measure (\<lambda>x. case x of Inl (Inl (t, e)) \<Rightarrow> 2 * size t + 1 | Inl (Inr (t, e)) \<Rightarrow> 2 * size t
      | Inr (Inl (fs, e)) \<Rightarrow> 2 * size_list (\<lambda>f. Suc (size (snd f))) fs
      | Inr (Inr (ts, e)) \<Rightarrow> 2 * size_list size ts)")
    (auto simp: size_prod_simp comp_def case_prod_unfold)

declare Encode.simps [simp del]

subsection \<open>Buffers\<close>

datatype bsup_error = BadFormat | ReadErr read_error | UnknownTypedef u8 | ZeroTypes | TooManyTypes | TooManySymbols
  | NoTypeForID int | TypeErr type_error | BsupPanic

text \<open>
  \<open>buffer.read\<close>: the rest of the buffer, the bytes, and the error that comes with them. A negative count
  panics in the slice expression (\<open>None\<close>).
\<close>

definition buffer_read :: "int \<Rightarrow> bytes \<Rightarrow> (bytes \<times> bytes \<times> read_error option) option" where
  "buffer_read n b =
     (if n > int (length b) then Some ([], b, Some (if b = [] then EOF else ErrUnexpectedEOF))
      else if n < 0 then None else Some (drop (nat n) b, take (nat n) b, None))"

definition buffer_ReadByte :: "bytes \<Rightarrow> read_error + (u8 \<times> bytes)" where
  "buffer_ReadByte b = (case b of [] \<Rightarrow> Inl EOF | x # r \<Rightarrow> Inr (x, r))"

definition readUvarintAsInt :: "bytes \<Rightarrow> read_error + (int \<times> bytes)" where
  "readUvarintAsInt r = res_bind (ReadUvarint r) (\<lambda>(u, r). Inr (sint u, r))"

subsection \<open>Decoder\<close>

record decoder =
  d_sctx :: tcontext
  d_types :: "ztype list"

definition NewDecoder :: "tcontext \<Rightarrow> decoder" where
  "NewDecoder c = \<lparr>d_sctx = c, d_types = []\<rparr>"

definition Decoder_LookupType :: "decoder \<Rightarrow> int \<Rightarrow> bsup_error + ztype" where
  "Decoder_LookupType d i = (if i < int IDTypeComplex
     then (case LookupPrimitiveByID i of Inl x \<Rightarrow> Inl (TypeErr x) | Inr p \<Rightarrow> Inr (TypePrim p))
     else let off = nat (i - int IDTypeComplex) in
       if off < length (d_types d) then Inr (d_types d ! off) else Inl (NoTypeForID i))"

definition Decoder_enter :: "decoder \<Rightarrow> tcontext \<times> ztype \<Rightarrow> decoder" where
  "Decoder_enter d r = d\<lparr>d_sctx := fst r, d_types := d_types d @ [snd r]\<rparr>"

definition readType :: "decoder \<Rightarrow> bytes \<Rightarrow> bsup_error + (ztype \<times> bytes)" where
  "readType d b = (case readUvarintAsInt b of Inl _ \<Rightarrow> Inl BadFormat
     | Inr (i, b) \<Rightarrow> res_bind (Decoder_LookupType d i) (\<lambda>t. Inr (t, b)))"

definition readCountedString :: "bytes \<Rightarrow> bsup_error + (gostring \<times> bytes)" where
  "readCountedString b = (case readUvarintAsInt b of Inl _ \<Rightarrow> Inl BadFormat
     | Inr (n, b) \<Rightarrow> (case buffer_read n b of
         None \<Rightarrow> Inl BsupPanic
       | Some (b, name, Some _) \<Rightarrow> Inl BadFormat
       | Some (b, name, None) \<Rightarrow> Inr (name, b)))"

definition readField :: "decoder \<Rightarrow> bytes \<Rightarrow> bsup_error + (field \<times> bytes)" where
  "readField d b = res_bind (readCountedString b) (\<lambda>(name, b). res_bind (readType d b) (\<lambda>(typ, b). Inr ((name, typ), b)))"

text \<open>The loops that read so many items.\<close>

fun read_times :: "nat \<Rightarrow> (bytes \<Rightarrow> bsup_error + ('a \<times> bytes)) \<Rightarrow> bytes \<Rightarrow> bsup_error + ('a list \<times> bytes)" where
  "read_times 0 f b = Inr ([], b)"
| "read_times (Suc n) f b = res_bind (f b) (\<lambda>(x, b). res_bind (read_times n f b) (\<lambda>(xs, b). Inr (x # xs, b)))"

type_synonym dec_res = "decoder \<times> (bsup_error + bytes)"

definition readTypeRecord :: "decoder \<Rightarrow> bytes \<Rightarrow> dec_res" where
  "readTypeRecord d b = (case readUvarintAsInt b of Inl _ \<Rightarrow> (d, Inl BadFormat)
     | Inr (nfields, b) \<Rightarrow> (case read_times (nat nfields) (readField d) b of
         Inl x \<Rightarrow> (d, Inl x)
       | Inr (flds, b) \<Rightarrow> (case LookupTypeRecord (d_sctx d) flds of
           (c, Inl x) \<Rightarrow> (d\<lparr>d_sctx := c\<rparr>, Inl (TypeErr x))
         | (c, Inr typ) \<Rightarrow> (Decoder_enter d (c, typ), Inr b))))"

definition read_inner :: "(tcontext \<Rightarrow> ztype \<Rightarrow> tcontext \<times> ztype) \<Rightarrow> decoder \<Rightarrow> bytes \<Rightarrow> dec_res" where
  "read_inner look d b = (case readType d b of Inl x \<Rightarrow> (d, Inl x)
     | Inr (inner, b) \<Rightarrow> (Decoder_enter d (look (d_sctx d) inner), Inr b))"

definition readTypeArray :: "decoder \<Rightarrow> bytes \<Rightarrow> dec_res" where
  "readTypeArray = read_inner LookupTypeArray"

definition readTypeSet :: "decoder \<Rightarrow> bytes \<Rightarrow> dec_res" where
  "readTypeSet = read_inner LookupTypeSet"

definition readTypeError :: "decoder \<Rightarrow> bytes \<Rightarrow> dec_res" where
  "readTypeError = read_inner LookupTypeError"

definition readTypeMap :: "decoder \<Rightarrow> bytes \<Rightarrow> dec_res" where
  "readTypeMap d b = (case readType d b of Inl x \<Rightarrow> (d, Inl x)
     | Inr (keyType, b) \<Rightarrow> (case readType d b of Inl x \<Rightarrow> (d, Inl x)
       | Inr (valType, b) \<Rightarrow> (Decoder_enter d (LookupTypeMap (d_sctx d) keyType valType), Inr b)))"

definition readTypeUnion :: "decoder \<Rightarrow> bytes \<Rightarrow> dec_res" where
  "readTypeUnion d b = (case readUvarintAsInt b of Inl _ \<Rightarrow> (d, Inl BadFormat)
     | Inr (ntyp, b) \<Rightarrow>
         if ntyp = 0 then (d, Inl ZeroTypes)
         else if ntyp > MaxUnionTypes then (d, Inl TooManyTypes)
         else if ntyp < 0 then (d, Inl BsupPanic)
         else (case read_times (nat ntyp) (readType d) b of
             Inl x \<Rightarrow> (d, Inl x)
           | Inr (types, b) \<Rightarrow> (Decoder_enter d (LookupTypeUnion (d_sctx d) types), Inr b)))"

definition readTypeEnum :: "decoder \<Rightarrow> bytes \<Rightarrow> dec_res" where
  "readTypeEnum d b = (case readUvarintAsInt b of Inl _ \<Rightarrow> (d, Inl BadFormat)
     | Inr (nsym, b) \<Rightarrow>
         if nsym > MaxEnumSymbols then (d, Inl TooManySymbols)
         else (case read_times (nat nsym) readCountedString b of
             Inl x \<Rightarrow> (d, Inl x)
           | Inr (symbols, b) \<Rightarrow> (Decoder_enter d (LookupTypeEnum (d_sctx d) symbols), Inr b)))"

definition readTypeName :: "decoder \<Rightarrow> bytes \<Rightarrow> dec_res" where
  "readTypeName d b = (case readCountedString b of Inl x \<Rightarrow> (d, Inl x)
     | Inr (name, b) \<Rightarrow> (case readType d b of Inl x \<Rightarrow> (d, Inl x)
       | Inr (inner, b) \<Rightarrow> (case LookupTypeNamed (d_sctx d) name inner of
           (c, Inl x) \<Rightarrow> (d\<lparr>d_sctx := c\<rparr>, Inl (TypeErr x))
         | (c, Inr typ) \<Rightarrow> (Decoder_enter d (c, typ), Inr b))))"

definition read_typedef :: "u8 \<Rightarrow> decoder \<Rightarrow> bytes \<Rightarrow> dec_res" where
  "read_typedef code d b =
     (if code = TypeDefRecord then readTypeRecord d b
      else if code = TypeDefSet then readTypeSet d b
      else if code = TypeDefArray then readTypeArray d b
      else if code = TypeDefMap then readTypeMap d b
      else if code = TypeDefUnion then readTypeUnion d b
      else if code = TypeDefEnum then readTypeEnum d b
      else if code = TypeDefName then readTypeName d b
      else if code = TypeDefError then readTypeError d b
      else (d, Inl (UnknownTypedef code)))"

text \<open>Reading never makes the buffer longer, so the loop over the definitions ends.\<close>

definition shrinks :: "(bytes \<Rightarrow> 'e + ('a \<times> bytes)) \<Rightarrow> bool" where
  "shrinks f \<longleftrightarrow> (\<forall>b x r. f b = Inr (x, r) \<longrightarrow> length r \<le> length b)"

lemma read_uvarint_loop_shrinks: "read_uvarint_loop i x s b = Inr (v, r) \<Longrightarrow> length r \<le> length b"
proof (induction i x s b rule: read_uvarint_loop.induct)
  case (1 i x s r')
  then show ?case by (subst (asm) (2) read_uvarint_loop.simps) (fastforce split: if_splits list.splits)
qed

lemma readUvarintAsInt_shrinks: "shrinks readUvarintAsInt"
  using read_uvarint_loop_shrinks by (auto simp: shrinks_def readUvarintAsInt_def ReadUvarint_def res_bind_Inr_iff)

lemma shrinks_bind:
  "f b = Inr (x, r) \<Longrightarrow> shrinks f \<Longrightarrow> length r \<le> length b"
  by (auto simp: shrinks_def)

lemma readType_shrinks: "shrinks (readType d)"
  using shrinks_bind [OF _ readUvarintAsInt_shrinks]
  by (auto simp: shrinks_def readType_def res_bind_Inr_iff split: sum.splits)

lemma readCountedString_shrinks: "shrinks readCountedString"
  using shrinks_bind [OF _ readUvarintAsInt_shrinks]
  by (fastforce simp: shrinks_def readCountedString_def buffer_read_def split: sum.splits option.splits if_splits prod.splits)

lemma readField_shrinks: "shrinks (readField d)"
  using shrinks_bind [OF _ readCountedString_shrinks] shrinks_bind [OF _ readType_shrinks [of d]]
  by (fastforce simp: shrinks_def readField_def res_bind_Inr_iff)

lemma read_times_shrinks: "shrinks f \<Longrightarrow> shrinks (read_times n f)"
proof (induction n)
  case (Suc n)
  then show ?case by (fastforce simp: shrinks_def res_bind_Inr_iff)
qed (simp add: shrinks_def)

lemmas read_shrinks = shrinks_bind [OF _ readUvarintAsInt_shrinks] shrinks_bind [OF _ readType_shrinks]
  shrinks_bind [OF _ readCountedString_shrinks] shrinks_bind [OF _ read_times_shrinks [OF readField_shrinks]]
  shrinks_bind [OF _ read_times_shrinks [OF readType_shrinks]] shrinks_bind [OF _ read_times_shrinks [OF readCountedString_shrinks]]

lemma read_inner_shrinks: "read_inner look d b = (d', Inr r) \<Longrightarrow> length r \<le> length b"
  by (auto simp: read_inner_def split: sum.splits prod.splits dest: read_shrinks)

lemma readTypeRecord_shrinks: "readTypeRecord d b = (d', Inr r) \<Longrightarrow> length r \<le> length b"
  by (auto simp: readTypeRecord_def split: sum.splits prod.splits dest!: read_shrinks)

lemma readTypeMap_shrinks: "readTypeMap d b = (d', Inr r) \<Longrightarrow> length r \<le> length b"
  by (auto simp: readTypeMap_def split: sum.splits prod.splits dest!: read_shrinks)

lemma readTypeUnion_shrinks: "readTypeUnion d b = (d', Inr r) \<Longrightarrow> length r \<le> length b"
  by (auto simp: readTypeUnion_def split: sum.splits prod.splits if_splits dest!: read_shrinks)

lemma readTypeEnum_shrinks: "readTypeEnum d b = (d', Inr r) \<Longrightarrow> length r \<le> length b"
  by (auto simp: readTypeEnum_def split: sum.splits prod.splits if_splits dest!: read_shrinks)

lemma readTypeName_shrinks: "readTypeName d b = (d', Inr r) \<Longrightarrow> length r \<le> length b"
  by (auto simp: readTypeName_def split: sum.splits prod.splits dest!: read_shrinks)

lemma read_typedef_shrinks: "read_typedef code d b = (d', Inr r) \<Longrightarrow> length r \<le> length b"
  by (auto simp: read_typedef_def readTypeSet_def readTypeArray_def readTypeError_def split: if_splits
      intro: read_inner_shrinks readTypeRecord_shrinks readTypeMap_shrinks readTypeUnion_shrinks readTypeEnum_shrinks readTypeName_shrinks)

function decode :: "decoder \<Rightarrow> bytes \<Rightarrow> decoder \<times> bsup_error option" where
  "decode d [] = (d, None)"
| "decode d (code # b) = (case read_typedef code d b of
      (d', Inl x) \<Rightarrow> (d', Some x)
    | (d', Inr b') \<Rightarrow> decode d' b')"
  by pat_completeness auto
termination
  by (relation "measure (\<lambda>(d, b). length b)") (auto simp: less_Suc_eq_le dest!: sym [of "(_, _)"] intro: read_typedef_shrinks)

end
