(* ===== verification/Bsup_Writer.thy ===== *)
theory Bsup_Writer
  imports Bsup_Types Zbuf
begin

text \<open>
  The writer of BSUP frames (\<open>zio/bsupio/writer.go\<close>). The output \<open>wr\<close> below it and the LZ4 compressor \<open>lz\<close>
  are arguments: a write gives the new output and an error or none, and compressing gives an error, the
  compressed bytes, or nothing when they would not be shorter.
\<close>

definition TypesFrame :: nat where "TypesFrame = 0"
definition ValuesFrame :: nat where "ValuesFrame = 1"
definition ControlFrame :: nat where "ControlFrame = 2"
definition EOS :: u8 where "EOS = 0xff"
definition CompressionFormatLZ4 :: u8 where "CompressionFormatLZ4 = 0"
definition DefaultFrameThresh :: nat where "DefaultFrameThresh = 512 * 1024"

datatype ('e, 'c) write_error = OutErr 'e | CompErr 'c | EncErr type_error

record 'o bsup_writer =
  w_out :: 'o
  w_position :: nat
  w_flushed :: nat
  w_compress :: bool
  w_thresh :: nat
  w_types :: encoder
  w_values :: bytes

type_synonym ('o, 'e) out = "'o \<Rightarrow> bytes \<Rightarrow> 'o \<times> 'e option"
type_synonym 'c compressor = "bytes \<Rightarrow> 'c + bytes option"
type_synonym ('o, 'e, 'c) bw_res = "'o bsup_writer \<times> ('e, 'c) write_error option"

definition NewWriterWithOpts :: "'o \<Rightarrow> bool \<Rightarrow> nat \<Rightarrow> 'o bsup_writer" where
  "NewWriterWithOpts o' compress thresh = \<lparr>w_out = o', w_position = 0, w_flushed = 0, w_compress = compress,
     w_thresh = thresh, w_types = NewEncoder, w_values = []\<rparr>"

definition NewWriter :: "'o \<Rightarrow> 'o bsup_writer" where
  "NewWriter o' = NewWriterWithOpts o' True DefaultFrameThresh"

definition DisableCompression :: "'o bsup_writer \<Rightarrow> 'o bsup_writer" where
  "DisableCompression w = w\<lparr>w_compress := False\<rparr>"

text \<open>Steps of a method that end it with the first error.\<close>

fun wr_bind :: "('o, 'e, 'c) bw_res \<Rightarrow> ('o bsup_writer \<Rightarrow> ('o, 'e, 'c) bw_res) \<Rightarrow> ('o, 'e, 'c) bw_res" where
  "wr_bind (w, Some x) f = (w, Some x)"
| "wr_bind (w, None) f = f w"

definition bw_write :: "('o, 'e) out \<Rightarrow> bytes \<Rightarrow> 'o bsup_writer \<Rightarrow> ('o, 'e, 'c) bw_res" where
  "bw_write wr p w = (case wr (w_out w) p of
      (o', Some x) \<Rightarrow> (w\<lparr>w_out := o'\<rparr>, Some (OutErr x))
    | (o', None) \<Rightarrow> (w\<lparr>w_out := o', w_position := w_position w + length p\<rparr>, None))"

definition header_bytes :: "nat \<Rightarrow> nat \<Rightarrow> bytes" where
  "header_bytes blockType size' =
     AppendUvarint [of_nat (blockType * 16) OR (of_nat size' AND 0xf)] (of_nat (size' div 16))"

definition writeHeader :: "('o, 'e) out \<Rightarrow> nat \<Rightarrow> nat \<Rightarrow> 'o bsup_writer \<Rightarrow> ('o, 'e, 'c) bw_res" where
  "writeHeader wr blockType size' = bw_write wr (header_bytes blockType size')"

definition comp_header_bytes :: "nat \<Rightarrow> nat \<Rightarrow> nat \<Rightarrow> bytes" where
  "comp_header_bytes blockType size' zlen =
     (let zlen = zlen + 1 + SizeOfUvarint (of_nat size') in
      AppendUvarint (AppendUvarint [of_nat (blockType * 16) OR (of_nat zlen AND 0xf) OR 0x40] (of_nat (zlen div 16))
        @ [CompressionFormatLZ4]) (of_nat size'))"

definition writeCompHeader :: "('o, 'e) out \<Rightarrow> nat \<Rightarrow> nat \<Rightarrow> nat \<Rightarrow> 'o bsup_writer \<Rightarrow> ('o, 'e, 'c) bw_res" where
  "writeCompHeader wr blockType size' zlen = bw_write wr (comp_header_bytes blockType size' zlen)"

definition writeBlock :: "('o, 'e) out \<Rightarrow> 'c compressor \<Rightarrow> nat \<Rightarrow> bytes \<Rightarrow> 'o bsup_writer \<Rightarrow> ('o, 'e, 'c) bw_res" where
  "writeBlock wr lz blockType b w =
     (if length b = 0 then (w, None)
      else (case (if w_compress w then lz b else Inr None) of
          Inl x \<Rightarrow> (w, Some (CompErr x))
        | Inr (Some zbuf) \<Rightarrow> wr_bind (writeCompHeader wr blockType (length b) (length zbuf) w) (bw_write wr zbuf)
        | Inr None \<Rightarrow> wr_bind (writeHeader wr blockType (length b) w) (bw_write wr b)))"

text \<open>\<open>flush\<close> returns no error where a block could not be written.\<close>

definition flush :: "('o, 'e) out \<Rightarrow> 'c compressor \<Rightarrow> 'o bsup_writer \<Rightarrow> ('o, 'e, 'c) bw_res" where
  "flush wr lz w = (case writeBlock wr lz TypesFrame (e_bytes (w_types w)) w of
      (w, Some x) \<Rightarrow> (w, None)
    | (w, None) \<Rightarrow> (case writeBlock wr lz ValuesFrame (w_values w) w of
        (w, Some x) \<Rightarrow> (w, None)
      | (w, None) \<Rightarrow> (w\<lparr>w_types := Encoder_Flush (w_types w), w_values := []\<rparr>, None)))"

definition EndStream :: "('o, 'e) out \<Rightarrow> 'c compressor \<Rightarrow> 'o bsup_writer \<Rightarrow> ('o, 'e, 'c) bw_res" where
  "EndStream wr lz w = wr_bind (flush wr lz w) (\<lambda>w.
     wr_bind (if w_flushed w \<noteq> w_position w
         then wr_bind (bw_write wr [EOS] w) (\<lambda>w. (w\<lparr>w_flushed := w_position w\<rparr>, None)) else (w, None))
       (\<lambda>w. (w\<lparr>w_types := Encoder_Reset (w_types w)\<rparr>, None)))"

definition Writer_Close :: "('o, 'e) out \<Rightarrow> 'c compressor \<Rightarrow> ('o \<Rightarrow> 'o \<times> 'e option) \<Rightarrow> 'o bsup_writer \<Rightarrow> ('o, 'e, 'c) bw_res" where
  "Writer_Close wr lz close w = (case EndStream wr lz w of (w, err) \<Rightarrow>
     (case close (w_out w) of (o', closeErr) \<Rightarrow>
        (w\<lparr>w_out := o'\<rparr>, if err = None then map_option OutErr closeErr else err)))"

definition Writer_Write :: "('o, 'e) out \<Rightarrow> 'c compressor \<Rightarrow> bval \<Rightarrow> 'o bsup_writer \<Rightarrow> ('o, 'e, 'c) bw_res" where
  "Writer_Write wr lz val w =
     (case (case Encoder_Lookup (w_types w) (fst val) of
          Some typ \<Rightarrow> (w_types w, Inr typ) | None \<Rightarrow> Encode (fst val) (w_types w)) of
        (e, Inl x) \<Rightarrow> (w\<lparr>w_types := e\<rparr>, Some (EncErr x))
      | (e, Inr typ) \<Rightarrow>
          let w = w\<lparr>w_types := e, w_values := Append (AppendUvarint (w_values w) (of_nat (TypeID typ))) (snd val)\<rparr> in
          if length (w_values w) \<ge> w_thresh w \<or> length (e_bytes (w_types w)) \<ge> w_thresh w then flush wr lz w else (w, None))"

definition WriteControl :: "('o, 'e) out \<Rightarrow> 'c compressor \<Rightarrow> bytes \<Rightarrow> u8 \<Rightarrow> 'o bsup_writer \<Rightarrow> ('o, 'e, 'c) bw_res" where
  "WriteControl wr lz b format w = wr_bind (flush wr lz w) (writeBlock wr lz ControlFrame (format # b))"

end
