(* ===== verification/Peeker.thy ===== *)
theory Peeker
  imports Go_Codec
begin

text \<open>
  The buffered reader of \<open>pkg/peeker/reader.go\<close>. The \<open>io.Reader\<close> below it is the list of what its
  calls still give: some bytes, of which a call takes as many as fit, or an error; at the end of the list
  it is at the end of its input.
\<close>

datatype io_item = Data bytes | Fail

datatype peek_error = BufferOverflow | Truncated | PeekEOF | NegativeLength | PeekIO

text \<open>
  \<open>io.ReadAtLeast\<close> into a buffer of \<open>k\<close> bytes that has room for the \<open>m\<close> bytes asked for: when a call fills
  the buffer the loop has enough. The caller treats both errors for the end of the input alike.
\<close>

fun ReadAtLeast :: "nat \<Rightarrow> nat \<Rightarrow> bytes \<Rightarrow> io_item list \<Rightarrow> io_item list \<times> bytes \<times> peek_error option" where
  "ReadAtLeast k m acc s = (if m \<le> length acc then (s, acc, None)
     else (case s of
         [] \<Rightarrow> ([], acc, Some PeekEOF)
       | Fail # s' \<Rightarrow> (s', acc, Some PeekIO)
       | Data xs # s' \<Rightarrow>
           let room = k - length acc in
           if length xs \<le> room then ReadAtLeast k m (acc @ xs) s'
           else (Data (drop room xs) # s', acc @ take room xs, None)))"

declare ReadAtLeast.simps [simp del]

text \<open>The buffer counts by its capacity only; \<open>pk_grow\<close> is the capacity \<open>slices.Grow\<close> makes.\<close>

record peeker =
  pk_src :: "io_item list"
  pk_limit :: int
  pk_cap :: nat
  pk_grow :: "nat \<Rightarrow> nat \<Rightarrow> nat"
  pk_cursor :: bytes
  pk_eof :: bool

definition peeker_NewReader :: "io_item list \<Rightarrow> (nat \<Rightarrow> nat \<Rightarrow> nat) \<Rightarrow> nat \<Rightarrow> int \<Rightarrow> peeker" where
  "peeker_NewReader s grow size' max' = \<lparr>pk_src = s, pk_limit = max', pk_cap = size', pk_grow = grow, pk_cursor = [], pk_eof = False\<rparr>"

definition peeker_Reset :: "peeker \<Rightarrow> peeker" where
  "peeker_Reset r = r\<lparr>pk_cursor := [], pk_eof := False\<rparr>"

text \<open>After an error of the reader other than the end of its input the peeker is of no more use.\<close>

definition fill :: "nat \<Rightarrow> peeker \<Rightarrow> peeker \<times> peek_error option" where
  "fill need r =
     (if int need > pk_limit r then (r, Some BufferOverflow)
      else let cap = (if pk_cap r < need then pk_grow r (pk_cap r) need else pk_cap r);
               clen = length (pk_cursor r) in
        case ReadAtLeast (cap - clen) (need - clen) [] (pk_src r) of (s, b, err) \<Rightarrow>
          let r = r\<lparr>pk_cap := cap, pk_src := s\<rparr> in
          (case err of
             Some PeekIO \<Rightarrow> (r, Some PeekIO)
           | Some _ \<Rightarrow> (r\<lparr>pk_eof := True, pk_cursor := pk_cursor r @ b\<rparr>, None)
           | None \<Rightarrow> (r\<lparr>pk_cursor := pk_cursor r @ b\<rparr>, None)))"

definition Peek :: "int \<Rightarrow> peeker \<Rightarrow> peeker \<times> (peek_error + bytes)" where
  "Peek n r =
     (if n < 0 then (r, Inl NegativeLength)
      else if length (pk_cursor r) = 0 \<and> pk_eof r then (r, Inl PeekEOF)
      else case (if n > int (length (pk_cursor r)) \<and> \<not> pk_eof r then
              (case fill (nat n) r of
                 (r, Some e) \<Rightarrow> (r, Some e)
               | (r, None) \<Rightarrow> if length (pk_cursor r) = 0 \<and> pk_eof r then (r, Some PeekEOF) else (r, None))
            else (r, None)) of
          (r, Some e) \<Rightarrow> (r, Inl e)
        | (r, None) \<Rightarrow> if n > int (length (pk_cursor r)) then (r, Inl Truncated) else (r, Inr (take (nat n) (pk_cursor r))))"

definition peeker_Read :: "int \<Rightarrow> peeker \<Rightarrow> peeker \<times> (peek_error + bytes)" where
  "peeker_Read n r = (case Peek n r of
      (r, Inl e) \<Rightarrow> (r, Inl e)
    | (r, Inr b) \<Rightarrow> (r\<lparr>pk_cursor := drop (nat n) (pk_cursor r)\<rparr>, Inr b))"

definition peeker_ReadByte :: "peeker \<Rightarrow> peeker \<times> (peek_error + u8)" where
  "peeker_ReadByte r = (case pk_cursor r of
      b # c \<Rightarrow> (r\<lparr>pk_cursor := c\<rparr>, Inr b)
    | [] \<Rightarrow> (case peeker_Read 1 r of
        (r, Inl e) \<Rightarrow> (r, Inl e)
      | (r, Inr buf) \<Rightarrow> (r, Inr (buf ! 0))))"

text \<open>\<open>binary.ReadUvarint\<close> on the peeker as an \<open>io.ByteReader\<close>.\<close>

datatype uvarint_error = UvarintPeek peek_error | UvarintEOF | UvarintOverflow

function peek_uvarint_loop :: "nat \<Rightarrow> u64 \<Rightarrow> nat \<Rightarrow> peeker \<Rightarrow> peeker \<times> (uvarint_error + u64)" where
  "peek_uvarint_loop i x s r =
     (if i < 10 then
        (case peeker_ReadByte r of
           (r, Inl e) \<Rightarrow> (r, Inl (if i > 0 \<and> e = PeekEOF then UvarintEOF else UvarintPeek e))
         | (r, Inr b) \<Rightarrow>
             if b < 0x80 then
               (if i = 9 \<and> b > 1 then (r, Inl UvarintOverflow)
                else (r, Inr (x OR push_bit s (ucast b))))
             else peek_uvarint_loop (i + 1) (x OR push_bit s (ucast (b AND 0x7f))) (s + 7) r)
      else (r, Inl UvarintOverflow))"
  by pat_completeness auto
termination
  by (relation "measure (\<lambda>(i, x, s, r). 10 - i)") auto

declare peek_uvarint_loop.simps [simp del]

definition peek_ReadUvarint :: "peeker \<Rightarrow> peeker \<times> (uvarint_error + u64)" where
  "peek_ReadUvarint r = peek_uvarint_loop 0 0 0 r"

subsection \<open>The peeker as the bytes that are left\<close>

fun io_bytes :: "io_item list \<Rightarrow> bytes option" where
  "io_bytes [] = Some []"
| "io_bytes (Fail # s) = None"
| "io_bytes (Data xs # s) = map_option (append xs) (io_bytes s)"

text \<open>A peeker over a reader that does not fail, and the bytes it still gives.\<close>

definition peeks :: "peeker \<Rightarrow> bytes \<Rightarrow> bool" where
  "peeks r bs \<longleftrightarrow> (\<exists>b. io_bytes (pk_src r) = Some b \<and> bs = pk_cursor r @ b \<and> (pk_eof r \<longrightarrow> b = [])) \<and>
     (\<forall>c n. n \<le> pk_grow r c n)"

lemma ReadAtLeast_ok:
  assumes "io_bytes s = Some b" "m \<le> k"
  shows "case ReadAtLeast k m acc s of (s', acc', e) \<Rightarrow> (\<exists>b'. io_bytes s' = Some b' \<and> acc' @ b' = acc @ b \<and>
     (if m \<le> length (acc @ b) then e = None \<and> m \<le> length acc' else e = Some PeekEOF \<and> b' = []))"
  using assms
proof (induction k m acc s arbitrary: b rule: ReadAtLeast.induct)
  case (1 k m acc s)
  show ?case
  proof (cases "m \<le> length acc")
    case True
    then show ?thesis using 1(2) by (simp add: ReadAtLeast.simps)
  next
    case False
    consider "s = []" | xs s' c where "s = Data xs # s'" "io_bytes s' = Some c" "b = xs @ c"
      using 1(2) by (cases s rule: io_bytes.cases) auto
    then show ?thesis
    proof cases
      case 1
      then show ?thesis using False \<open>io_bytes s = Some b\<close> by (simp add: ReadAtLeast.simps)
    next
      case 2
      show ?thesis
      proof (cases "length xs \<le> k - length acc")
        case True
        have "ReadAtLeast k m acc s = ReadAtLeast k m (acc @ xs) s'"
          using False True 2(1) by (simp add: ReadAtLeast.simps [of k m acc])
        then show ?thesis using 1(1) [OF False 2(1) refl refl True 2(2) \<open>m \<le> k\<close>] 2(3) by simp
      next
        case fits: False
        have "m \<le> length acc + (k - length acc)" "m \<le> length acc + length xs" using False fits \<open>m \<le> k\<close> by linarith+
        then show ?thesis using False fits 2 by (simp add: ReadAtLeast.simps [of k m acc] Let_def)
      qed
    qed
  qed
qed

lemma fill_ok:
  assumes "peeks r bs" "\<not> pk_eof r" "length (pk_cursor r) < need" "int need \<le> pk_limit r"
  shows "\<exists>r'. fill need r = (r', None) \<and> peeks r' bs \<and> pk_limit r' = pk_limit r \<and>
     (need \<le> length (pk_cursor r') \<or> pk_eof r' \<and> pk_cursor r' = bs)"
proof -
  obtain b where b: "io_bytes (pk_src r) = Some b" "bs = pk_cursor r @ b" using assms(1) by (auto simp: peeks_def)
  let ?cap = "if pk_cap r < need then pk_grow r (pk_cap r) need else pk_cap r"
  have "need \<le> ?cap" using assms(1) by (auto simp: peeks_def)
  then have "need - length (pk_cursor r) \<le> ?cap - length (pk_cursor r)" by simp
  from ReadAtLeast_ok [OF b(1) this, of "[]"] show ?thesis
    using assms b by (auto simp: fill_def peeks_def Let_def split: prod.splits if_splits)
qed

text \<open>What a read of \<open>n\<close> bytes gives when \<open>bs\<close> is left: whatever the sizes of the buffer and of the reads below.\<close>

lemma Peek_ok:
  assumes "peeks r bs" "0 \<le> n" "n \<le> pk_limit r" "0 < n \<or> bs \<noteq> []"
  shows "\<exists>r'. Peek n r = (r', if bs = [] then Inl PeekEOF else if nat n \<le> length bs then Inr (take (nat n) bs) else Inl Truncated) \<and>
     peeks r' bs \<and> pk_limit r' = pk_limit r \<and> (nat n \<le> length bs \<longrightarrow> nat n \<le> length (pk_cursor r'))"
proof -
  obtain b where b: "io_bytes (pk_src r) = Some b" "bs = pk_cursor r @ b" "pk_eof r \<longrightarrow> b = []" using assms(1) by (auto simp: peeks_def)
  show ?thesis
  proof (cases "n > int (length (pk_cursor r)) \<and> \<not> pk_eof r")
    case True
    then have "length (pk_cursor r) < nat n" by linarith
    then obtain r' where r': "fill (nat n) r = (r', None)" "peeks r' bs" "pk_limit r' = pk_limit r"
      "nat n \<le> length (pk_cursor r') \<or> pk_eof r' \<and> pk_cursor r' = bs"
      using fill_ok [OF assms(1), of "nat n"] assms(2,3) True by auto
    moreover obtain b' where "bs = pk_cursor r' @ b'" using r'(2) by (auto simp: peeks_def)
    ultimately show ?thesis using True assms(2,4) by (auto simp: Peek_def nat_le_iff)
  next
    case False
    then show ?thesis using assms b by (auto simp: Peek_def nat_le_iff)
  qed
qed

lemma peeker_Read_ok:
  assumes "peeks r bs" "0 \<le> n" "n \<le> pk_limit r" "0 < n \<or> bs \<noteq> []"
  shows "\<exists>r'. pk_limit r' = pk_limit r \<and>
     (if bs = [] then peeker_Read n r = (r', Inl PeekEOF) \<and> peeks r' bs
      else if nat n \<le> length bs then peeker_Read n r = (r', Inr (take (nat n) bs)) \<and> peeks r' (drop (nat n) bs)
      else peeker_Read n r = (r', Inl Truncated) \<and> peeks r' bs)"
proof -
  obtain r' where r': "Peek n r = (r', if bs = [] then Inl PeekEOF else if nat n \<le> length bs then Inr (take (nat n) bs) else Inl Truncated)"
    "peeks r' bs" "pk_limit r' = pk_limit r" "nat n \<le> length bs \<longrightarrow> nat n \<le> length (pk_cursor r')"
    using Peek_ok [OF assms] by blast
  then have "nat n \<le> length bs \<Longrightarrow> peeks (r'\<lparr>pk_cursor := drop (nat n) (pk_cursor r')\<rparr>) (drop (nat n) bs)"
    by (auto simp: peeks_def)
  then show ?thesis using r' by (cases "bs = []"; cases "nat n \<le> length bs") (simp_all add: peeker_Read_def)
qed

lemma peeker_ReadByte_ok:
  assumes "peeks r bs" "1 \<le> pk_limit r"
  shows "\<exists>r'. pk_limit r' = pk_limit r \<and> (case bs of [] \<Rightarrow> peeker_ReadByte r = (r', Inl PeekEOF) \<and> peeks r' []
     | b # bs' \<Rightarrow> peeker_ReadByte r = (r', Inr b) \<and> peeks r' bs')"
proof (cases "pk_cursor r")
  case Nil
  show ?thesis
    using peeker_Read_ok [OF assms(1) _ assms(2)] Nil by (cases bs) (auto simp: peeker_ReadByte_def)
next
  case (Cons b c)
  then show ?thesis using assms(1) by (auto simp: peeker_ReadByte_def peeks_def)
qed

lemma peek_uvarint_loop_ok:
  assumes "read_uvarint_loop i x s bs = Inr (v, rest)" "peeks r bs" "1 \<le> pk_limit r"
  shows "\<exists>r'. peek_uvarint_loop i x s r = (r', Inr v) \<and> peeks r' rest \<and> pk_limit r' = pk_limit r"
  using assms
proof (induction i x s bs arbitrary: r rule: read_uvarint_loop.induct)
  case (1 i x s bs)
  then obtain b bs' where bs: "bs = b # bs'" "i < 10"
    by (subst (asm) (2) read_uvarint_loop.simps) (auto split: if_splits list.splits)
  obtain r' where r': "peeker_ReadByte r = (r', Inr b)" "peeks r' bs'" "pk_limit r' = pk_limit r"
    using peeker_ReadByte_ok [OF 1(3,4)] bs(1) by auto
  show ?case
  proof (cases "b < 0x80")
    case True
    then show ?thesis using 1(2) bs r' by (auto simp: read_uvarint_loop.simps [of i] peek_uvarint_loop.simps [of i] split: if_splits)
  next
    case False
    then show ?thesis
      using 1(1) [OF bs(2,1) False _ r'(2)] 1(2,4) bs r' by (simp add: read_uvarint_loop.simps [of i x s] peek_uvarint_loop.simps [of i x s])
  qed
qed

lemma peek_ReadUvarint_ok:
  "ReadUvarint bs = Inr (v, rest) \<Longrightarrow> peeks r bs \<Longrightarrow> 1 \<le> pk_limit r \<Longrightarrow>
   \<exists>r'. peek_ReadUvarint r = (r', Inr v) \<and> peeks r' rest \<and> pk_limit r' = pk_limit r"
  unfolding peek_ReadUvarint_def ReadUvarint_def by (rule peek_uvarint_loop_ok)

subsection \<open>Sequences of calls\<close>

datatype peek_call = CallRead int | CallPeek int | CallReadByte

fun peek_step :: "peek_call \<Rightarrow> peeker \<Rightarrow> peeker \<times> (peek_error + bytes)" where
  "peek_step (CallRead n) r = peeker_Read n r"
| "peek_step (CallPeek n) r = Peek n r"
| "peek_step CallReadByte r = (case peeker_ReadByte r of (r, Inl e) \<Rightarrow> (r, Inl e) | (r, Inr b) \<Rightarrow> (r, Inr [b]))"

primrec peek_run :: "peek_call list \<Rightarrow> peeker \<Rightarrow> (peek_error + bytes) list" where
  "peek_run [] r = []"
| "peek_run (c # cs) r = (case peek_step c r of (r, q) \<Rightarrow> q # peek_run cs r)"

text \<open>The same calls on the bytes that are left: the specification.\<close>

definition first_bytes :: "int \<Rightarrow> bytes \<Rightarrow> peek_error + bytes" where
  "first_bytes n bs = (if n < 0 then Inl NegativeLength else if bs = [] then Inl PeekEOF
     else if nat n \<le> length bs then Inr (take (nat n) bs) else Inl Truncated)"

fun bytes_step :: "peek_call \<Rightarrow> bytes \<Rightarrow> bytes \<times> (peek_error + bytes)" where
  "bytes_step (CallRead n) bs = (case first_bytes n bs of Inl e \<Rightarrow> (bs, Inl e) | Inr b \<Rightarrow> (drop (nat n) bs, Inr b))"
| "bytes_step (CallPeek n) bs = (bs, first_bytes n bs)"
| "bytes_step CallReadByte bs = (case bs of [] \<Rightarrow> ([], Inl PeekEOF) | b # bs' \<Rightarrow> (bs', Inr [b]))"

primrec bytes_run :: "peek_call list \<Rightarrow> bytes \<Rightarrow> (peek_error + bytes) list" where
  "bytes_run [] bs = []"
| "bytes_run (c # cs) bs = (case bytes_step c bs of (bs, q) \<Rightarrow> q # bytes_run cs bs)"

text \<open>
  The calls of a peeker with limit \<open>max'\<close> whose replies depend on the bytes alone. Beyond the limit the
  reply depends on what is buffered, and for no bytes at the end of the input on whether it was noticed.
\<close>

fun within :: "int \<Rightarrow> peek_call \<Rightarrow> bool" where
  "within max' (CallRead n) \<longleftrightarrow> n < 0 \<or> 0 < n \<and> n \<le> max'"
| "within max' (CallPeek n) \<longleftrightarrow> n < 0 \<or> 0 < n \<and> n \<le> max'"
| "within max' CallReadByte \<longleftrightarrow> 1 \<le> max'"

lemma peek_step_ok:
  assumes "peeks r bs" and "within (pk_limit r) c"
  shows "\<exists>r'. peek_step c r = (r', snd (bytes_step c bs)) \<and> peeks r' (fst (bytes_step c bs)) \<and> pk_limit r' = pk_limit r"
proof (cases c)
  case (CallRead n)
  show ?thesis
  proof (cases "n < 0")
    case True
    then show ?thesis using assms(1) CallRead by (simp add: peeker_Read_def Peek_def first_bytes_def)
  next
    case False
    then have "0 \<le> n" "n \<le> pk_limit r" "0 < n \<or> bs \<noteq> []" using assms(2) CallRead by auto
    from peeker_Read_ok [OF assms(1) this] show ?thesis
      using CallRead False by (cases "bs = []") (auto simp: first_bytes_def split: if_splits)
  qed
next
  case (CallPeek n)
  show ?thesis
  proof (cases "n < 0")
    case True
    then show ?thesis using assms(1) CallPeek by (simp add: Peek_def first_bytes_def)
  next
    case False
    then have "0 \<le> n" "n \<le> pk_limit r" "0 < n \<or> bs \<noteq> []" using assms(2) CallPeek by auto
    from Peek_ok [OF assms(1) this] show ?thesis using CallPeek False by (auto simp: first_bytes_def)
  qed
next
  case CallReadByte
  then show ?thesis
    using peeker_ReadByte_ok [OF assms(1)] assms(2) by (cases bs) (auto simp: first_bytes_def)
qed

lemma peek_run_ok: "peeks r bs \<Longrightarrow> \<forall>c\<in>set cs. within (pk_limit r) c \<Longrightarrow> peek_run cs r = bytes_run cs bs"
proof (induction cs arbitrary: r bs)
  case (Cons c cs)
  obtain r' where r': "peek_step c r = (r', snd (bytes_step c bs))" "peeks r' (fst (bytes_step c bs))" "pk_limit r' = pk_limit r"
    using peek_step_ok [OF Cons.prems(1)] Cons.prems(2) by auto
  then show ?case using Cons.IH [OF r'(2)] Cons.prems(2) by (simp add: case_prod_unfold)
qed simp

subsection \<open>Properties\<close>

text \<open>
  C25: A peeker gives the bytes of its reader in order. Over a reader that does not fail, any sequence of
  reads and peeks of at least one byte and no more than the limit, of negative lengths, and of reads of single bytes has
  the replies of the same calls on the bytes of the reader: a read takes the next \<open>n\<close> bytes, a peek gives
  them and leaves them, at the end of the input and for a partial rest there is an error and nothing is
  consumed. The sizes of the buffer, of its growth and of the reads below make no difference. \<close>

theorem peeker_reads_in_order:
  assumes "io_bytes s = Some bs" and "\<And>c n. n \<le> grow c n" and "\<forall>c\<in>set cs. within max' c"
  shows "peek_run cs (peeker_NewReader s grow size' max') = bytes_run cs bs"
  by (rule peek_run_ok) (use assms in \<open>auto simp: peeks_def peeker_NewReader_def\<close>)

theorem peeker_reads_in_order_witness:
  "peek_run [CallRead 2, CallPeek 3, CallReadByte, CallRead 5, CallRead 2, CallPeek 1]
     (peeker_NewReader [Data [1], Data [], Data [2, 3, 4], Data [5]] (\<lambda>c n. n) 1 8) =
   [Inr [1, 2], Inr [3, 4, 5], Inr [3], Inl Truncated, Inr [4, 5], Inl PeekEOF]"
  using peeker_reads_in_order [of "[Data [1], Data [], Data [2, 3, 4], Data [5]]" "[1, 2, 3, 4, 5]" "\<lambda>c n. n"
      "[CallRead 2, CallPeek 3, CallReadByte, CallRead 5, CallRead 2, CallPeek 1]" 8 1]
  by (simp add: first_bytes_def)

end
