(* ===== verification/Bsup_Reader.thy ===== *)
theory Bsup_Reader
  imports Bsup_Types Peeker Zbuf
begin

text \<open>
  The reader of BSUP frames (\<open>zio/bsupio/parser.go\<close>, \<open>frame.go\<close>, \<open>scanner.go\<close>, \<open>sync.go\<close>, \<open>reader.go\<close>), with
  the scanner that does its work in one thread. The LZ4 decompressor and the filters pushed down to the
  scanner are arguments. The scanner with several threads is in \<open>Bsup_Threads\<close>.
\<close>

datatype parse_error = PeekErr peek_error | UnexpectedEOF | Overflow64 | WrongVersion | UnknownFrame | FrameTooLong
  | ValueTooBig | Malformed | UnknownCompression u8 | BadCompressed | DecodeErr bsup_error | InvalidValue
  | Control u8 bytes | ParsePanic

text \<open>The error \<open>io.EOF\<close> is \<open>PeekErr PeekEOF\<close>, also where it comes from reading a length.\<close>

fun uvarint_err :: "uvarint_error \<Rightarrow> parse_error" where
  "uvarint_err (UvarintPeek e) = PeekErr e"
| "uvarint_err UvarintEOF = UnexpectedEOF"
| "uvarint_err UvarintOverflow = Overflow64"

text \<open>A frame: its bytes, or for a compressed one the format, the compressed bytes and the size.\<close>

datatype bframe = RawFrame bytes | CompFrame u8 bytes nat

type_synonym 'c decompressor = "bytes \<Rightarrow> nat \<Rightarrow> 'c + bytes"

definition frame_decompress :: "'c decompressor \<Rightarrow> bframe \<Rightarrow> parse_error + bytes" where
  "frame_decompress unc f = (case f of RawFrame b \<Rightarrow> Inr b
     | CompFrame fmt zbuf size' \<Rightarrow>
         if fmt \<noteq> 0 then Inl (UnknownCompression fmt)
         else (case unc zbuf size' of Inl _ \<Rightarrow> Inl BadCompressed
           | Inr b \<Rightarrow> if length b \<noteq> size' then Inl BadCompressed else Inr b))"

record parser =
  p_peeker :: peeker
  p_types :: decoder
  p_maxSize :: int

type_synonym 'a pres = "parser \<times> (parse_error + 'a)"

fun p_bind :: "'a pres \<Rightarrow> ('a \<Rightarrow> parser \<Rightarrow> 'b pres) \<Rightarrow> 'b pres" where
  "p_bind (p, Inl x) f = (p, Inl x)"
| "p_bind (p, Inr a) f = f a p"

definition p_ReadByte :: "parser \<Rightarrow> u8 pres" where
  "p_ReadByte p = (case peeker_ReadByte (p_peeker p) of
      (r, Inl e) \<Rightarrow> (p\<lparr>p_peeker := r\<rparr>, Inl (PeekErr e)) | (r, Inr b) \<Rightarrow> (p\<lparr>p_peeker := r\<rparr>, Inr b))"

definition p_readUvarint :: "parser \<Rightarrow> u64 pres" where
  "p_readUvarint p = (case peek_ReadUvarint (p_peeker p) of
      (r, Inl e) \<Rightarrow> (p\<lparr>p_peeker := r\<rparr>, Inl (uvarint_err e)) | (r, Inr u) \<Rightarrow> (p\<lparr>p_peeker := r\<rparr>, Inr u))"

definition decodeLength :: "u8 \<Rightarrow> parser \<Rightarrow> int pres" where
  "decodeLength code p = p_bind (p_readUvarint p) (\<lambda>v p. (p, Inr (sint (push_bit 4 v OR (ucast code AND 0xf)))))"

definition readFrame :: "u8 \<Rightarrow> parser \<Rightarrow> bytes pres" where
  "readFrame code p = p_bind (decodeLength code p) (\<lambda>size' p.
     if size' > p_maxSize p then (p, Inl FrameTooLong)
     else (case peeker_Read size' (p_peeker p) of
         (r, Inl e) \<Rightarrow> (p\<lparr>p_peeker := r\<rparr>, Inl (if e = BufferOverflow then ValueTooBig else PeekErr e))
       | (r, Inr b) \<Rightarrow> (p\<lparr>p_peeker := r\<rparr>, Inr b)))"

text \<open>\<open>newBuffer\<close> panics on a negative size.\<close>

definition readCompressedFrame :: "u8 \<Rightarrow> parser \<Rightarrow> bframe pres" where
  "readCompressedFrame code p = p_bind (decodeLength code p) (\<lambda>n p.
     p_bind (p_ReadByte p) (\<lambda>format p.
     p_bind (p_readUvarint p) (\<lambda>u p.
       let size' = sint u in
       if size' > p_maxSize p then (p, Inl FrameTooLong)
       else let n = sint (word_of_int n - word_of_int (1 + int (SizeOfUvarint u)) :: u64) in
         (case peeker_Read n (p_peeker p) of
            (r, Inl e) \<Rightarrow> if e \<noteq> PeekEOF then (p\<lparr>p_peeker := r\<rparr>, Inl (if e = BufferOverflow then ValueTooBig else Malformed))
              else (p\<lparr>p_peeker := r\<rparr>, if size' < 0 then Inl ParsePanic else Inr (CompFrame format [] (nat size')))
          | (r, Inr b) \<Rightarrow> (p\<lparr>p_peeker := r\<rparr>, if size' < 0 then Inl ParsePanic else Inr (CompFrame format b (nat size')))))))"

definition read_frame :: "u8 \<Rightarrow> parser \<Rightarrow> bframe pres" where
  "read_frame code p = (if code AND 0x40 \<noteq> 0 then readCompressedFrame code p
     else p_bind (readFrame code p) (\<lambda>b p. (p, Inr (RawFrame b))))"

definition decodeTypes :: "'c decompressor \<Rightarrow> u8 \<Rightarrow> parser \<Rightarrow> unit pres" where
  "decodeTypes unc code p = p_bind (read_frame code p) (\<lambda>f p.
     case frame_decompress unc f of Inl x \<Rightarrow> (p, Inl x)
     | Inr b \<Rightarrow> (case decode (p_types p) b of (d, x) \<Rightarrow>
         (p\<lparr>p_types := d\<rparr>, case x of None \<Rightarrow> Inr () | Some x \<Rightarrow> Inl (DecodeErr x))))"

definition decodeValues :: "u8 \<Rightarrow> parser \<Rightarrow> bframe pres" where
  "decodeValues code p = read_frame code p"

definition decodeControl :: "'c decompressor \<Rightarrow> u8 \<Rightarrow> parser \<Rightarrow> parser \<times> parse_error" where
  "decodeControl unc code p = (case read_frame code p of
      (p, Inl x) \<Rightarrow> (p, x)
    | (p, Inr f) \<Rightarrow> (case frame_decompress unc f of
        Inl x \<Rightarrow> (p, x)
      | Inr [] \<Rightarrow> (p, Malformed)
      | Inr (format # b) \<Rightarrow> (p, Control format b)))"

partial_function (option) parser_read :: "'c decompressor \<Rightarrow> parser \<Rightarrow> bframe pres option" where
  "parser_read unc p = (case p_ReadByte p of
      (p, Inl x) \<Rightarrow> Some (p, Inl x)
    | (p, Inr code) \<Rightarrow>
        if code = 0xff then parser_read unc (p\<lparr>p_types := NewDecoder (d_sctx (p_types p))\<rparr>)
        else if code AND 0x80 \<noteq> 0 then Some (p, Inl WrongVersion)
        else let typ = drop_bit 4 code AND 3 in
          if typ = 0 then (case decodeTypes unc code p of
              (p, Inl x) \<Rightarrow> Some (p, Inl x) | (p, Inr _) \<Rightarrow> parser_read unc p)
          else if typ = 1 then Some (decodeValues code p)
          else if typ = 2 then (case decodeControl unc code p of (p, x) \<Rightarrow> Some (p, Inl x))
          else Some (p, Inl UnknownFrame))"

subsection \<open>The worker\<close>

text \<open>\<open>TypeCache.LookupType\<close> (\<open>context.go\<close>): a negative identifier passes the test of the bound and panics.\<close>

definition TypeCache_LookupType :: "(int \<Rightarrow> bsup_error + ztype) \<Rightarrow> ztype option list \<Rightarrow> int \<Rightarrow> ztype option list \<times> (parse_error + ztype)" where
  "TypeCache_LookupType fetch cache i =
     (if i < int (length cache) \<and> i < 0 then (cache, Inl ParsePanic)
      else case (if i < int (length cache) then cache ! nat i else None) of
        Some typ \<Rightarrow> (cache, Inr typ)
      | None \<Rightarrow> (case fetch i of
          Inl x \<Rightarrow> (cache, Inl (DecodeErr x))
        | Inr typ \<Rightarrow> let cache = (if i \<ge> int (length cache) then cache @ replicate (nat i + 1 - length cache) None else cache)
            in (cache[nat i := Some typ], Inr typ)))"

definition decodeVal :: "float_ops \<Rightarrow> bool \<Rightarrow> decoder \<Rightarrow> ztype option list \<Rightarrow> bytes \<Rightarrow> ztype option list \<times> (parse_error + (bval \<times> bytes))" where
  "decodeVal fo validate types cache buf = (case readUvarintAsInt buf of
      Inl x \<Rightarrow> (cache, Inl (case x of EOF \<Rightarrow> PeekErr PeekEOF | ErrUnexpectedEOF \<Rightarrow> UnexpectedEOF | ErrOverflow \<Rightarrow> Overflow64))
    | Inr (i, buf) \<Rightarrow> (case ReadTag buf of
        Inl (Inl _) \<Rightarrow> (cache, Inl ParsePanic)
      | Inl (Inr _) \<Rightarrow> (cache, Inl Malformed)
      | Inr (u, buf) \<Rightarrow> let n = sint u in
          (case (if n = 0 then Inr (buf, Some [])
                 else if n > 0 then (case buffer_read n buf of
                     None \<Rightarrow> Inl ParsePanic
                   | Some (r, b, None) \<Rightarrow> Inr (r, Some b)
                   | Some (r, b, Some e) \<Rightarrow> if e = EOF then Inr (r, None) else Inl Malformed)
                 else Inr (buf, None)) of
             Inl x \<Rightarrow> (cache, Inl x)
           | Inr (buf, b) \<Rightarrow> (case TypeCache_LookupType (Decoder_LookupType types) cache i of
               (cache, Inl x) \<Rightarrow> (cache, Inl x)
             | (cache, Inr typ) \<Rightarrow>
                 if validate \<and> Validate fo (NewValue typ b) \<noteq> None then (cache, Inl InvalidValue)
                 else (cache, Inr ((typ, b), buf))))))"

lemma read_uvarint_loop_shorter: "read_uvarint_loop i x s b = Inr (v, r) \<Longrightarrow> length r < length b"
proof (induction i x s b rule: read_uvarint_loop.induct)
  case (1 i x s r')
  then show ?case by (subst (asm) (2) read_uvarint_loop.simps) (fastforce split: if_splits list.splits)
qed

lemma decodeVal_shorter:
  assumes "decodeVal fo validate types cache buf = (cache', Inr (v, r))"
  shows "length r < length buf"
proof -
  obtain i b1 u b2 where 1: "ReadUvarint buf = Inr (i, b1)" "ReadTag b1 = Inr (u, b2)" "length r \<le> length b2"
    using assms by (auto simp: decodeVal_def readUvarintAsInt_def buffer_read_def Let_def res_bind_Inr_iff
        split: sum.splits prod.splits if_splits option.splits)
  then have "length b1 < length buf" "length b2 < length b1"
    using read_uvarint_loop_shorter by (fastforce simp: ReadUvarint_def ReadTag_def split: sum.splits prod.splits if_splits)+
  then show ?thesis using 1(3) by simp
qed

record progress =
  BytesRead :: nat
  BytesMatched :: nat
  RecordsRead :: nat
  RecordsMatched :: nat

definition Progress_Add :: "progress \<Rightarrow> progress \<Rightarrow> progress" where
  "Progress_Add p q = \<lparr>BytesRead = BytesRead p + BytesRead q, BytesMatched = BytesMatched p + BytesMatched q,
     RecordsRead = RecordsRead p + RecordsRead q, RecordsMatched = RecordsMatched p + RecordsMatched q\<rparr>"

definition no_progress :: progress where
  "no_progress = \<lparr>BytesRead = 0, BytesMatched = 0, RecordsRead = 0, RecordsMatched = 0\<rparr>"

definition wantValue :: "(bval \<Rightarrow> bool) option \<Rightarrow> bval \<Rightarrow> progress \<Rightarrow> progress \<times> bool" where
  "wantValue flt v p =
     (let n = length (slice_bytes (snd v)); p = p\<lparr>BytesRead := BytesRead p + n, RecordsRead := RecordsRead p + 1\<rparr> in
      if (case flt of None \<Rightarrow> True | Some f \<Rightarrow> f v)
      then (p\<lparr>BytesMatched := BytesMatched p + n, RecordsMatched := RecordsMatched p + 1\<rparr>, True) else (p, False))"

text \<open>What the scanner is given: validation, the filter on the bytes of a frame and the filter on values.\<close>

record scan_opts =
  so_floats :: float_ops
  so_validate :: bool
  so_bufferFilter :: "(decoder \<Rightarrow> bytes \<Rightarrow> bool) option"
  so_filter :: "(bval \<Rightarrow> bool) option"

function scan_values :: "scan_opts \<Rightarrow> decoder \<Rightarrow> ztype option list \<Rightarrow> bytes \<Rightarrow> bval list \<Rightarrow> progress \<Rightarrow> parse_error + (bval list \<times> progress)" where
  "scan_values so types cache buf vals pr =
     (if length buf = 0 then Inr (vals, pr)
      else (case decodeVal (so_floats so) (so_validate so) types cache buf of
          (cache, Inl x) \<Rightarrow> Inl x
        | (cache, Inr (v, buf)) \<Rightarrow> (case wantValue (so_filter so) v pr of (pr, want) \<Rightarrow>
            scan_values so types cache buf (if want then vals @ [v] else vals) pr)))"
  by pat_completeness auto
termination
  by (relation "measure (\<lambda>(so, types, cache, buf, vals, pr). length buf)", simp)
    (simp only: in_measure case_prod_conv, metis decodeVal_shorter)

declare scan_values.simps [simp del]

definition scanBatch :: "scan_opts \<Rightarrow> bytes \<Rightarrow> decoder \<Rightarrow> progress \<Rightarrow> progress \<times> (parse_error + bval list option)" where
  "scanBatch so buf types pr =
     (if (case so_bufferFilter so of None \<Rightarrow> False | Some f \<Rightarrow> \<not> f types buf)
      then (pr\<lparr>BytesRead := BytesRead pr + length buf\<rparr>, Inr None)
      else (case scan_values so types [] buf [] no_progress of
          Inl x \<Rightarrow> (pr, Inl x)
        | Inr (vals, p) \<Rightarrow> (Progress_Add pr p, Inr (if length vals = 0 then None else Some vals))))"

subsection \<open>The scanner in one thread, and the reader\<close>

record scanner =
  sc_parser :: parser
  sc_progress :: progress
  sc_eof :: bool

definition newScannerSync :: "tcontext \<Rightarrow> io_item list \<Rightarrow> (nat \<Rightarrow> nat \<Rightarrow> nat) \<Rightarrow> nat \<Rightarrow> int \<Rightarrow> scanner" where
  "newScannerSync c src grow size' max' = \<lparr>sc_parser = \<lparr>p_peeker = peeker_NewReader src grow size' max', p_types = NewDecoder c, p_maxSize = max'\<rparr>,
     sc_progress = no_progress, sc_eof = False\<rparr>"

fun to_pfail :: "parse_error \<Rightarrow> parse_error pfail" where
  "to_pfail ParsePanic = PPanic"
| "to_pfail (DecodeErr BsupPanic) = PPanic"
| "to_pfail x = PError x"

partial_function (option) scan_again :: "scan_opts \<Rightarrow> 'c decompressor \<Rightarrow> scanner \<Rightarrow> (scanner \<times> (parse_error pfail + bval list option)) option" where
  "scan_again so unc s = (case parser_read unc (sc_parser s) of
      None \<Rightarrow> None
    | Some (p, Inl x) \<Rightarrow> Some (s\<lparr>sc_parser := p\<rparr>, if x = PeekErr PeekEOF then Inr None else Inl (to_pfail x))
    | Some (p, Inr f) \<Rightarrow> (case frame_decompress unc f of
        Inl x \<Rightarrow> Some (s\<lparr>sc_parser := p\<rparr>, Inl (to_pfail x))
      | Inr b \<Rightarrow> (case scanBatch so b (p_types p) (sc_progress s) of
          (pr, Inl x) \<Rightarrow> Some (s\<lparr>sc_parser := p, sc_progress := pr\<rparr>, Inl (to_pfail x))
        | (pr, Inr (Some vals)) \<Rightarrow> Some (s\<lparr>sc_parser := p, sc_progress := pr\<rparr>, Inr (Some vals))
        | (pr, Inr None) \<Rightarrow> scan_again so unc (s\<lparr>sc_parser := p, sc_progress := pr\<rparr>))))"

definition scannerSync_Pull :: "scan_opts \<Rightarrow> 'c decompressor \<Rightarrow> (scanner, parse_error, bval) puller" where
  "scannerSync_Pull so unc done s =
     (if done then Some (s\<lparr>sc_eof := True\<rparr>, Inr None)
      else if sc_eof s then Some (s, Inr None)
      else scan_again so unc s)"

text \<open>\<open>Reader.Read\<close> skips control messages; the state has the values of the batch in hand.\<close>

partial_function (option) Reader_Read ::
    "scan_opts \<Rightarrow> 'c decompressor \<Rightarrow> scanner \<Rightarrow> bval list \<Rightarrow> ((scanner \<times> bval list) \<times> (parse_error pfail + bval option)) option" where
  "Reader_Read so unc s vals = (case pullerReader_Read (scannerSync_Pull so unc) s vals of
      None \<Rightarrow> None
    | Some ((s, vals), Inl (PError (Control f b))) \<Rightarrow> Reader_Read so unc s vals
    | Some r \<Rightarrow> Some r)"

definition ReadPayload ::
    "scan_opts \<Rightarrow> 'c decompressor \<Rightarrow> scanner \<Rightarrow> bval list \<Rightarrow> ((scanner \<times> bval list) \<times> (parse_error pfail + (u8 \<times> bytes) + bval option)) option" where
  "ReadPayload so unc s vals = (case pullerReader_Read (scannerSync_Pull so unc) s vals of
      None \<Rightarrow> None
    | Some (st, Inl (PError (Control f b))) \<Rightarrow> Some (st, Inr (Inl (f, b)))
    | Some (st, Inl x) \<Rightarrow> Some (st, Inl x)
    | Some (st, Inr v) \<Rightarrow> Some (st, Inr (Inr v)))"

end
