(* ===== verification/Bsup_Types_Inv.thy ===== *)
theory Bsup_Types_Inv
  imports Bsup_Types Type_Value_Codec
begin

text \<open>
  The decoder rebuilds the types the encoder was given: decoding the definitions that encoding a type
  emits brings the decoder in step with the encoder again, every local identifier standing for the same
  type on both sides.
\<close>

subsection \<open>Encodings as suffixes\<close>

lemma append_id_eq: "append_id b t = b @ put_uvarint (of_nat (TypeID t))"
  by (simp add: append_id_def AppendUvarint_def)

definition ids_bytes :: "ztype list \<Rightarrow> bytes" where
  "ids_bytes ts = concat (map (\<lambda>t. put_uvarint (of_nat (TypeID t))) ts)"

definition fields_bytes :: "field list \<Rightarrow> bytes" where
  "fields_bytes fs = concat (map (\<lambda>f. append_name [] (fst f) @ put_uvarint (of_nat (TypeID (snd f)))) fs)"

lemma foldl_append_id: "foldl append_id b ts = b @ ids_bytes ts"
  by (induction ts arbitrary: b) (simp_all add: ids_bytes_def append_id_eq)

lemma foldl_append_field: "foldl append_field b fs = b @ fields_bytes fs"
proof (induction fs arbitrary: b)
  case (Cons f fs)
  then show ?case using append_name_prefix [of b "fst f"] by (simp add: fields_bytes_def append_field_def append_id_eq)
qed (simp add: fields_bytes_def)

subsection \<open>Reading what was written\<close>

lemma readUvarintAsInt_put: "n < 2 ^ 63 \<Longrightarrow> readUvarintAsInt (put_uvarint (of_nat n) @ rest) = Inr (int n, rest)"
  using ReadUvarint_eq [OF Uvarint_put [of "of_nat n" rest]] put_uvarint_nonempty [of "of_nat n"]
  by (simp add: readUvarintAsInt_def sint_of_nat_64)

lemma readCountedString_append: "short_name n \<Longrightarrow> readCountedString (append_name [] n @ rest) = Inr (n, rest)"
  using readUvarintAsInt_put [of "length n" "n @ rest"]
  by (simp add: readCountedString_def append_name_def AppendUvarint_def short_name_def buffer_read_def)

lemma read_times_symbols:
  "\<forall>s\<in>set ss. short_name s \<Longrightarrow> read_times (length ss) readCountedString (append_symbols [] ss @ rest) = Inr (ss, rest)"
proof (induction ss)
  case (Cons s ss)
  then show ?case by (simp add: append_symbols_Cons readCountedString_append)
qed (simp add: append_symbols_def)

subsection \<open>The encoder's context\<close>

text \<open>
  The encoder resets its context at the end of a stream, and then the context keeps the type of string
  errors it had before. The encoder never asks for this type, so it is left out of the account.
\<close>

definition forget :: "tcontext \<Rightarrow> tcontext" where
  "forget c = c\<lparr>stringErr := None\<rparr>"

lemma forget_simps [simp]: "known (forget c) t = known c t" "byID (forget c) = byID c" "ctx_small (forget c) = ctx_small c"
  "extends (forget c) c' = extends c c'" "extends c (forget c') = extends c c'" "forget (forget c) = forget c"
proof -
  show k: "known (forget c) t = known c t" for c t by (cases t) (simp_all add: known_def forget_def)
  show "extends (forget c) c' = extends c c'" "extends c (forget c') = extends c c'" by (simp_all add: extends_def k)
qed (simp_all add: forget_def ctx_small_def)

lemma ctx_inv_forget: "ctx_inv c \<Longrightarrow> ctx_inv (forget c)"
proof -
  assume "ctx_inv c"
  moreover have "table (forget c) = table c"
  proof
    fix k show "table (forget c) k = table c k" by (cases k) (simp_all add: forget_def)
  qed
  ultimately show ?thesis
    by (auto simp: ctx_inv_def ids_ok_def tables_ok_def bindings_ok_def entry_ok_def) (auto simp: forget_def)
qed

lemma lookup_forget:
  "LookupTypeRecord c fs = (c', r) \<Longrightarrow> \<exists>c2. LookupTypeRecord (forget c) fs = (c2, r) \<and> forget c2 = forget c'"
  "LookupTypeArray c e = (c', t) \<Longrightarrow> \<exists>c2. LookupTypeArray (forget c) e = (c2, t) \<and> forget c2 = forget c'"
  "LookupTypeSet c e = (c', t) \<Longrightarrow> \<exists>c2. LookupTypeSet (forget c) e = (c2, t) \<and> forget c2 = forget c'"
  "LookupTypeMap c e f = (c', t) \<Longrightarrow> \<exists>c2. LookupTypeMap (forget c) e f = (c2, t) \<and> forget c2 = forget c'"
  "LookupTypeUnion c ts = (c', t) \<Longrightarrow> \<exists>c2. LookupTypeUnion (forget c) ts = (c2, t) \<and> forget c2 = forget c'"
  "LookupTypeEnum c ss = (c', t) \<Longrightarrow> \<exists>c2. LookupTypeEnum (forget c) ss = (c2, t) \<and> forget c2 = forget c'"
  "LookupTypeError c e = (c', t) \<Longrightarrow> \<exists>c2. LookupTypeError (forget c) e = (c2, t) \<and> forget c2 = forget c'"
  "LookupTypeNamed c n e = (c', r) \<Longrightarrow> \<exists>c2. LookupTypeNamed (forget c) n e = (c2, r) \<and> forget c2 = forget c'"
  by (auto simp: forget_def LookupTypeRecord_def LookupTypeArray_def LookupTypeSet_def LookupTypeMap_def LookupTypeUnion_def
      LookupTypeEnum_def LookupTypeError_def LookupTypeNamed_def Let_def enter_def nextID_def split: option.splits if_splits)

lemma lookup_ok_forget: "lookup_ok (forget c) c2 t \<Longrightarrow> forget c2 = forget c' \<Longrightarrow> lookup_ok (forget c) (forget c') t"
  using ctx_inv_forget [of c2] forget_simps(1) [of c2 t] by (auto simp: lookup_ok_def) (metis forget_simps(1) extends_def)+

subsection \<open>Encoder and decoder in step\<close>

abbreviation ntypes :: "encoder \<Rightarrow> nat" where
  "ntypes e \<equiv> length (byID (e_sctx e))"

definition synced :: "encoder \<Rightarrow> decoder \<Rightarrow> bool" where
  "synced e d \<longleftrightarrow> ctx_inv (d_sctx d) \<and> length (d_types d) + IDTypeComplex = ntypes e \<and>
     (\<forall>i < length (d_types d). known (d_sctx d) (d_types d ! i) \<and>
        map_option erase (byID (e_sctx e) ! (i + IDTypeComplex)) = Some (erase (d_types d ! i)))"

text \<open>
  The state of an encoder of types of the context \<open>cx\<close>: a type encoded before maps to the same type of the
  encoder's own context, and that context has no other types.
\<close>

definition enc_inv :: "tcontext \<Rightarrow> encoder \<Rightarrow> bool" where
  "enc_inv cx e \<longleftrightarrow> ctx_inv (forget (e_sctx e)) \<and>
     (\<forall>x t. e_encoded e x = Some t \<longrightarrow> known cx x \<and> known (e_sctx e) t \<and> erase t = erase x) \<and>
     (\<forall>t. known (e_sctx e) t \<longrightarrow> tkey_of t \<noteq> None \<longrightarrow> (\<exists>x. e_encoded e x = Some t))"

lemma enc_inv_encoded:
  "enc_inv cx e \<Longrightarrow> e_encoded e x = Some t \<Longrightarrow> known cx x \<and> known (e_sctx e) t \<and> erase t = erase x"
  by (simp add: enc_inv_def)

lemma lookup_synced:
  assumes "ctx_inv (forget (e_sctx e))" "synced e d" "known (e_sctx e) t"
  shows "\<exists>t'. Decoder_LookupType d (int (TypeID t)) = Inr t' \<and> known (d_sctx d) t' \<and> erase t' = erase t"
proof (cases "tkey_of t")
  case None
  then obtain p where p: "t = TypePrim p" by (auto simp: tkey_of_None)
  then show ?thesis
    using prim_ID_less [of p] LookupPrimitiveByID_prim [of p] by (simp add: Decoder_LookupType_def IDTypeComplex_def)
next
  case Some
  then have t: "TypeID t < ntypes e" "byID (e_sctx e) ! TypeID t = Some t" and ge: "IDTypeComplex \<le> TypeID t"
    using known_complex [of t "e_sctx e"] known_entry(2) [OF ctx_invD(1) [OF assms(1)]] assms(3) by auto
  let ?i = "TypeID t - IDTypeComplex"
  have i: "?i < length (d_types d)" using assms(2) t(1) ge by (auto simp: synced_def)
  then have "known (d_sctx d) (d_types d ! ?i)" "erase (d_types d ! ?i) = erase t"
    using assms(2) t(2) ge by (auto simp: synced_def)
  then show ?thesis using i ge by (simp add: Decoder_LookupType_def Let_def nat_diff_distrib')
qed

lemma TypeID_bound: "ctx_inv (forget c) \<Longrightarrow> ctx_small c \<Longrightarrow> known c t \<Longrightarrow> TypeID t < 2 ^ 63"
  using known_ID_less [of c t] by (auto simp: ctx_small_def ctx_inv_def ids_ok_def)

lemma readType_synced:
  assumes "ctx_inv (forget (e_sctx e))" "ctx_small (e_sctx e)" "synced e d" "known (e_sctx e) t"
  shows "\<exists>t'. readType d (put_uvarint (of_nat (TypeID t)) @ rest) = Inr (t', rest) \<and> known (d_sctx d) t' \<and> erase t' = erase t"
  using lookup_synced [OF assms(1,3,4)] TypeID_bound [OF assms(1,2,4)] by (auto simp: readType_def readUvarintAsInt_put)

lemma read_times_types:
  assumes "ctx_inv (forget (e_sctx e))" "ctx_small (e_sctx e)" "synced e d" "\<forall>t\<in>set ts. known (e_sctx e) t"
  shows "\<exists>ts'. read_times (length ts) (readType d) (ids_bytes ts @ rest) = Inr (ts', rest) \<and>
    (\<forall>t\<in>set ts'. known (d_sctx d) t) \<and> map erase ts' = map erase ts"
  using assms(4)
proof (induction ts)
  case (Cons t ts)
  obtain t' where "readType d (put_uvarint (of_nat (TypeID t)) @ ids_bytes ts @ rest) = Inr (t', ids_bytes ts @ rest)"
    "known (d_sctx d) t'" "erase t' = erase t"
    using readType_synced [OF assms(1-3), of t "ids_bytes ts @ rest"] Cons.prems by auto
  then show ?case using Cons by (auto simp: ids_bytes_def)
qed (simp add: ids_bytes_def)

lemma read_times_fields:
  assumes "ctx_inv (forget (e_sctx e))" "ctx_small (e_sctx e)" "synced e d" "\<forall>(n, t)\<in>set fs. short_name n \<and> known (e_sctx e) t"
  shows "\<exists>fs'. read_times (length fs) (readField d) (fields_bytes fs @ rest) = Inr (fs', rest) \<and>
    (\<forall>(n, t)\<in>set fs'. short_name n \<and> known (d_sctx d) t) \<and> map (map_prod id erase) fs' = map (map_prod id erase) fs"
  using assms(4)
proof (induction fs)
  case (Cons f fs)
  obtain n t where f: "f = (n, t)" by force
  obtain t' where "readType d (put_uvarint (of_nat (TypeID t)) @ fields_bytes fs @ rest) = Inr (t', fields_bytes fs @ rest)"
    "known (d_sctx d) t'" "erase t' = erase t"
    using readType_synced [OF assms(1-3), of t "fields_bytes fs @ rest"] Cons.prems f by auto
  then show ?case using Cons f by (auto simp: fields_bytes_def readField_def readCountedString_append)
qed (simp add: fields_bytes_def)

subsection \<open>One definition\<close>

text \<open>A lookup enters its result or nothing.\<close>

definition enters :: "tcontext \<Rightarrow> tcontext \<Rightarrow> ztype \<Rightarrow> bool" where
  "enters c c' t \<longleftrightarrow> byID c' = byID c \<or> byID c' = byID c @ [Some t]"

lemma lookup_enters:
  "LookupTypeRecord c fs = (c', Inr t) \<Longrightarrow> enters c c' t"
  "LookupTypeArray c e = (c', t) \<Longrightarrow> enters c c' t"
  "LookupTypeSet c e = (c', t) \<Longrightarrow> enters c c' t"
  "LookupTypeMap c e f = (c', t) \<Longrightarrow> enters c c' t"
  "LookupTypeUnion c ts = (c', t) \<Longrightarrow> enters c c' t"
  "LookupTypeEnum c ss = (c', t) \<Longrightarrow> enters c c' t"
  "LookupTypeError c e = (c', t) \<Longrightarrow> enters c c' t"
  "LookupTypeNamed c n e = (c', Inr t) \<Longrightarrow> enters c c' t"
  by (auto simp: enters_def LookupTypeRecord_def LookupTypeArray_def LookupTypeSet_def LookupTypeMap_def LookupTypeUnion_def
      LookupTypeEnum_def LookupTypeError_def LookupTypeNamed_def Let_def enter_def split: option.splits if_splits)

lemma known_same_ids: "byID c' = byID c \<Longrightarrow> known c' t \<longleftrightarrow> known c t"
  by (cases t) (simp_all add: known_def)

lemma enters_known: "ctx_inv c' \<Longrightarrow> enters c c' t \<Longrightarrow> known c' u \<Longrightarrow> known c u \<or> u = t"
proof (cases "tkey_of u = None")
  case False
  assume "ctx_inv c'" "enters c c' t" "known c' u"
  then show ?thesis using False by (auto simp: enters_def known_complex nth_append less_Suc_eq split: if_splits)
qed (auto simp: tkey_of_None known_def)

lemma new_type:
  assumes "lookup_ok c c' t" "\<not> known c t" "enters c c' t"
  shows "byID c' = byID c @ [Some t]" "known c' u \<longleftrightarrow> known c u \<or> u = t"
proof -
  show "byID c' = byID c @ [Some t]" using assms known_same_ids [of c' c t] by (auto simp: lookup_ok_def enters_def)
  show "known c' u \<longleftrightarrow> known c u \<or> u = t" using assms enters_known [of c' c t u] by (auto simp: lookup_ok_def extends_def)
qed

subsection \<open>How many types there can be\<close>

definition complex_types :: "tcontext \<Rightarrow> ztype set" where
  "complex_types c = {t. known c t \<and> tkey_of t \<noteq> None}"

lemma complex_types_ids:
  assumes "ctx_inv c"
  shows "bij_betw TypeID (complex_types c) {IDTypeComplex..<length (byID c)}"
proof (rule bij_betw_imageI)
  show "inj_on TypeID (complex_types c)" by (auto simp: inj_on_def complex_types_def known_complex)
  have "\<exists>t\<in>complex_types c. TypeID t = i" if i: "IDTypeComplex \<le> i" "i < length (byID c)" for i
  proof -
    have "ids_ok c" using assms by (simp add: ctx_inv_def)
    then obtain t where "byID c ! i = Some t" "entry_ok c i t" using i unfolding ids_ok_def by blast
    then show ?thesis using i(2) by (intro bexI [of _ t]) (auto simp: complex_types_def entry_ok_def known_complex)
  qed
  moreover have "IDTypeComplex \<le> TypeID t \<and> TypeID t < length (byID c)" if "t \<in> complex_types c" for t
    using that known_entry(2) [OF ctx_invD(1) [OF assms]] by (auto simp: complex_types_def known_complex)
  ultimately show "TypeID ` complex_types c = {IDTypeComplex..<length (byID c)}" by fastforce
qed

lemma card_complex_types:
  assumes "ctx_inv c"
  shows "finite (complex_types c)" "card (complex_types c) = length (byID c) - IDTypeComplex" "IDTypeComplex \<le> length (byID c)"
  using bij_betw_finite [OF complex_types_ids [OF assms]] bij_betw_same_card [OF complex_types_ids [OF assms]] assms
  by (auto simp: ctx_inv_def ids_ok_def)

lemma erase_complex: "erase x = erase t \<Longrightarrow> tkey_of x = None \<longleftrightarrow> tkey_of t = None"
  by (cases x; cases t) auto

text \<open>Types of \<open>c\<close> that mean types of \<open>cx\<close> are no more than those.\<close>

lemma card_erased:
  assumes "ctx_inv c" "ctx_inv cx" "S \<subseteq> complex_types c" "\<And>t. t \<in> S \<Longrightarrow> \<exists>x. known cx x \<and> erase x = erase t"
  shows "card S \<le> length (byID cx) - IDTypeComplex"
proof -
  have "inj_on erase S"
    by (rule inj_onI, rule erase_unique [OF assms(1)]) (use assms(3) in \<open>auto simp: complex_types_def\<close>)
  moreover have "erase ` S \<subseteq> erase ` complex_types cx"
  proof
    fix y assume "y \<in> erase ` S"
    then obtain t where t: "t \<in> S" "y = erase t" by blast
    then obtain x where x: "known cx x" "erase x = erase t" using assms(4) by blast
    then have "x \<in> complex_types cx" using erase_complex [OF x(2)] t(1) assms(3) by (auto simp: complex_types_def)
    then show "y \<in> erase ` complex_types cx" unfolding t(2) x(2) [symmetric] by (rule imageI)
  qed
  ultimately have "card S \<le> card (erase ` complex_types cx)"
    using card_complex_types(1) [OF assms(2)] card_mono by (metis card_image finite_imageI)
  also have "\<dots> \<le> length (byID cx) - IDTypeComplex" using card_complex_types [OF assms(2)] card_image_le by metis
  finally show ?thesis .
qed

text \<open>
  A context that grew from \<open>c0\<close> by types of \<open>cx\<close>, where there is room for all of these.
\<close>

definition grown :: "tcontext \<Rightarrow> tcontext \<Rightarrow> tcontext \<Rightarrow> bool" where
  "grown c0 cx c \<longleftrightarrow> ctx_inv c0 \<and> ctx_inv cx \<and> ctx_inv c \<and> length (byID c0) + length (byID cx) \<le> 2 ^ 32 \<and>
     (\<forall>t. known c t \<longrightarrow> known c0 t \<or> (\<exists>x. known cx x \<and> erase x = erase t))"

lemma grown_small:
  assumes "grown c0 cx c"
  shows "ctx_small c"
proof -
  have inv: "ctx_inv c0" "ctx_inv cx" "ctx_inv c" using assms by (auto simp: grown_def)
  let ?S = "complex_types c - complex_types c0"
  have "card (complex_types c) \<le> card (complex_types c0 \<union> ?S)"
    by (intro card_mono) (auto simp: card_complex_types(1) [OF inv(1)] card_complex_types(1) [OF inv(3)])
  also have "\<dots> \<le> card (complex_types c0) + card ?S" by (rule card_Un_le)
  also have "card ?S \<le> length (byID cx) - IDTypeComplex"
    by (rule card_erased [OF inv(3,2)]) (use assms in \<open>auto simp: grown_def complex_types_def\<close>)
  finally have "card (complex_types c) \<le> card (complex_types c0) + (length (byID cx) - IDTypeComplex)" by simp
  moreover have "length (byID c0) + length (byID cx) \<le> 2 ^ 32" using assms by (simp add: grown_def)
  ultimately show ?thesis
    unfolding ctx_small_def card_complex_types(2) [OF inv(1)] card_complex_types(2) [OF inv(3)]
    using card_complex_types(3) [OF inv(1)] card_complex_types(3) [OF inv(2)] card_complex_types(3) [OF inv(3)] by linarith
qed

lemma grown_enters: "grown c0 cx c \<Longrightarrow> lookup_ok c c' t \<Longrightarrow> enters c c' t \<Longrightarrow> known cx x \<Longrightarrow> erase x = erase t \<Longrightarrow> grown c0 cx c'"
  using enters_known [of c' c t] by (auto simp: grown_def lookup_ok_def)

lemma enc_inv_small:
  assumes "ctx_inv cx" "ctx_small cx" "enc_inv cx e"
  shows "ctx_small (e_sctx e)"
proof -
  have inv: "ctx_inv (forget (e_sctx e))" using assms(3) by (simp add: enc_inv_def)
  have "\<exists>x. known cx x \<and> erase x = erase t" if "t \<in> complex_types (e_sctx e)" for t
    using that assms(3) enc_inv_encoded [OF assms(3)] by (fastforce simp: complex_types_def enc_inv_def)
  then have "card (complex_types (e_sctx e)) \<le> length (byID cx) - IDTypeComplex"
    by (intro card_erased [OF inv assms(1)]) (auto simp: complex_types_def)
  moreover have "complex_types (forget (e_sctx e)) = complex_types (e_sctx e)" by (simp add: complex_types_def)
  ultimately show ?thesis
    using card_complex_types [OF inv] card_complex_types [OF assms(1)] assms(2) by (auto simp: ctx_small_def)
qed

subsection \<open>Definitions\<close>

text \<open>
  What a definition \<open>\<delta>\<close> does to a decoder in step with the encoder: it enters a type that means \<open>t\<close>.
\<close>

definition defines_type :: "encoder \<Rightarrow> bytes \<Rightarrow> ztype \<Rightarrow> bool" where
  "defines_type e \<delta> t \<longleftrightarrow> (\<forall>d rest. synced e d \<longrightarrow> ctx_small (d_sctx d) \<longrightarrow>
     (\<exists>c u. decode d (\<delta> @ rest) = decode (Decoder_enter d (c, u)) rest \<and> lookup_ok (d_sctx d) c u \<and> erase u = erase t \<and>
        enters (d_sctx d) c u))"

lemma defines_typeI:
  assumes "\<And>d rest. synced e d \<Longrightarrow> ctx_small (d_sctx d) \<Longrightarrow>
     \<exists>c u. read_typedef code d (b @ rest) = (Decoder_enter d (c, u), Inr rest) \<and> lookup_ok (d_sctx d) c u \<and> erase u = erase t \<and>
        enters (d_sctx d) c u"
  shows "defines_type e (code # b) t"
  unfolding defines_type_def
proof (intro allI impI)
  fix d rest assume "synced e d" "ctx_small (d_sctx d)"
  from assms [OF this, of rest] obtain c u where "read_typedef code d (b @ rest) = (Decoder_enter d (c, u), Inr rest)"
    "lookup_ok (d_sctx d) c u \<and> erase u = erase t \<and> enters (d_sctx d) c u" by blast
  then show "\<exists>c u. decode d ((code # b) @ rest) = decode (Decoder_enter d (c, u)) rest \<and> lookup_ok (d_sctx d) c u \<and>
     erase u = erase t \<and> enters (d_sctx d) c u" by auto
qed

lemmas typedef_codes = TypeDefRecord_def TypeDefArray_def TypeDefSet_def TypeDefMap_def TypeDefUnion_def TypeDefEnum_def
  TypeDefError_def TypeDefName_def

locale inner_lookup =
  fixes look :: "tcontext \<Rightarrow> ztype \<Rightarrow> tcontext \<times> ztype" and C :: "nat \<Rightarrow> ztype \<Rightarrow> ztype"
  assumes look_ok: "ctx_inv c \<Longrightarrow> known c t \<Longrightarrow> look c t = (c', u) \<Longrightarrow> lookup_ok c c' u \<and> (\<exists>i. u = C i t)"
    and look_enters: "look c t = (c', u) \<Longrightarrow> enters c c' u"
    and look_forget: "look c t = (c', u) \<Longrightarrow> \<exists>c2. look (forget c) t = (c2, u) \<and> forget c2 = forget c'"
    and erase_C: "erase (C i t) = C 0 (erase t)"
begin

lemma read_inner_ok:
  assumes "ctx_inv (forget (e_sctx e))" "ctx_small (e_sctx e)" "known (e_sctx e) t" "synced e d"
  shows "\<exists>c u. read_inner look d (put_uvarint (of_nat (TypeID t)) @ rest) = (Decoder_enter d (c, u), Inr rest) \<and>
    lookup_ok (d_sctx d) c u \<and> erase u = erase (C i t) \<and> enters (d_sctx d) c u"
proof -
  obtain t' where t': "readType d (put_uvarint (of_nat (TypeID t)) @ rest) = Inr (t', rest)" "known (d_sctx d) t'" "erase t' = erase t"
    using readType_synced [OF assms(1,2,4,3), of rest] by blast
  obtain c u where cu: "look (d_sctx d) t' = (c, u)" by force
  have "lookup_ok (d_sctx d) c u \<and> erase u = erase (C i t)"
    using look_ok [OF _ t'(2) cu] t'(3) assms(4) by (auto simp: erase_C synced_def)
  then show ?thesis using look_enters [OF cu] t'(1) cu by (auto simp: read_inner_def)
qed

end

interpretation arrays: inner_lookup LookupTypeArray TypeArray
  by unfold_locales (auto simp: LookupTypeArray_ok lookup_enters(2) lookup_forget(2))

interpretation sets: inner_lookup LookupTypeSet TypeSet
  by unfold_locales (auto simp: LookupTypeSet_ok lookup_enters(3) lookup_forget(3))

interpretation errors: inner_lookup LookupTypeError TypeError
  by unfold_locales (auto simp: LookupTypeError_ok lookup_enters(7) lookup_forget(7))

lemma defines_map:
  assumes "ctx_inv (forget (e_sctx e))" "ctx_small (e_sctx e)" "known (e_sctx e) k" "known (e_sctx e) v"
  shows "defines_type e (TypeDefMap # put_uvarint (of_nat (TypeID k)) @ put_uvarint (of_nat (TypeID v))) (TypeMap i k v)"
proof (rule defines_typeI)
  fix d rest assume d: "synced e d" "ctx_small (d_sctx d)"
  let ?bv = "put_uvarint (of_nat (TypeID v)) @ rest"
  obtain k' where k': "readType d (put_uvarint (of_nat (TypeID k)) @ ?bv) = Inr (k', ?bv)" "known (d_sctx d) k'" "erase k' = erase k"
    using readType_synced [OF assms(1,2) d(1) assms(3), of ?bv] by blast
  obtain v' where v': "readType d ?bv = Inr (v', rest)" "known (d_sctx d) v'" "erase v' = erase v"
    using readType_synced [OF assms(1,2) d(1) assms(4), of rest] by blast
  obtain c u where cu: "LookupTypeMap (d_sctx d) k' v' = (c, u)" by force
  have "lookup_ok (d_sctx d) c u \<and> erase u = erase (TypeMap i k v)"
    using LookupTypeMap_ok [OF _ d(2) k'(2) v'(2) cu] d(1) k'(3) v'(3) by (auto simp: synced_def)
  then show "\<exists>c u. read_typedef TypeDefMap d ((put_uvarint (of_nat (TypeID k)) @ put_uvarint (of_nat (TypeID v))) @ rest) =
      (Decoder_enter d (c, u), Inr rest) \<and> lookup_ok (d_sctx d) c u \<and> erase u = erase (TypeMap i k v) \<and>
      enters (d_sctx d) c u"
    using lookup_enters(4) [OF cu] k'(1) v'(1) cu by (auto simp: read_typedef_def typedef_codes readTypeMap_def)
qed

lemma defines_enum:
  assumes "\<forall>n\<in>set ss. short_name n" "int (length ss) \<le> MaxEnumSymbols"
  shows "defines_type e (TypeDefEnum # put_uvarint (of_nat (length ss)) @ append_symbols [] ss) (TypeEnum i ss)"
proof (rule defines_typeI)
  fix d rest assume d: "synced e d" "ctx_small (d_sctx d)"
  obtain c u where cu: "LookupTypeEnum (d_sctx d) ss = (c, u)" by force
  have "lookup_ok (d_sctx d) c u \<and> erase u = erase (TypeEnum i ss)"
    using LookupTypeEnum_ok [OF _ assms(1) cu] d(1) by (auto simp: synced_def)
  moreover have "length ss < 2 ^ 63" using assms(2) by (simp add: MaxEnumSymbols_def)
  ultimately show "\<exists>c u. read_typedef TypeDefEnum d ((put_uvarint (of_nat (length ss)) @ append_symbols [] ss) @ rest) =
      (Decoder_enter d (c, u), Inr rest) \<and> lookup_ok (d_sctx d) c u \<and> erase u = erase (TypeEnum i ss) \<and>
      enters (d_sctx d) c u"
    using lookup_enters(6) [OF cu] cu assms(2) read_times_symbols [OF assms(1), of rest]
    by (auto simp: read_typedef_def typedef_codes readTypeEnum_def readUvarintAsInt_put)
qed

lemma LookupTypeNamed_valid: "shape_ok (TypeNamed i n t) \<Longrightarrow> \<exists>c' u. LookupTypeNamed c n e = (c', Inr u)"
  by (cases "nameds c (named_key n e)") (auto simp: LookupTypeNamed_def Let_def)

lemma defines_name:
  assumes "ctx_inv (forget (e_sctx e))" "ctx_small (e_sctx e)" "known (e_sctx e) t" "short_name n" "shape_ok (TypeNamed i n t)"
  shows "defines_type e (TypeDefName # append_name [] n @ put_uvarint (of_nat (TypeID t))) (TypeNamed i n t)"
proof (rule defines_typeI)
  fix d rest assume d: "synced e d" "ctx_small (d_sctx d)"
  let ?b = "put_uvarint (of_nat (TypeID t)) @ rest"
  obtain t' where t': "readType d ?b = Inr (t', rest)" "known (d_sctx d) t'" "erase t' = erase t"
    using readType_synced [OF assms(1,2) d(1) assms(3), of rest] by blast
  obtain c u where cu: "LookupTypeNamed (d_sctx d) n t' = (c, Inr u)"
    using LookupTypeNamed_valid [OF assms(5)] by blast
  have "lookup_ok (d_sctx d) c u \<and> erase u = erase (TypeNamed i n t)"
    using LookupTypeNamed_ok [OF _ d(2) assms(4) t'(2) cu] d(1) t'(3) by (auto simp: synced_def)
  then show "\<exists>c u. read_typedef TypeDefName d ((append_name [] n @ put_uvarint (of_nat (TypeID t))) @ rest) =
      (Decoder_enter d (c, u), Inr rest) \<and> lookup_ok (d_sctx d) c u \<and> erase u = erase (TypeNamed i n t) \<and>
      enters (d_sctx d) c u"
    using lookup_enters(8) [OF cu] t'(1) cu readCountedString_append [OF assms(4), of ?b]
    by (auto simp: read_typedef_def typedef_codes readTypeName_def)
qed

lemma defines_union:
  assumes "ctx_inv (forget (e_sctx e))" "ctx_small (e_sctx e)" "\<forall>t\<in>set ts. known (e_sctx e) t" "ts \<noteq> []"
    and "int (length ts) \<le> MaxUnionTypes" "sort_stable (\<lambda>a b. CompareTypes a b < 0) ts = ts"
  shows "defines_type e (TypeDefUnion # put_uvarint (of_nat (length ts)) @ ids_bytes ts) (TypeUnion i ts)"
proof (rule defines_typeI)
  fix d rest assume d: "synced e d" "ctx_small (d_sctx d)"
  have inv: "ctx_inv (d_sctx d)" using d(1) by (simp add: synced_def)
  obtain ts' where ts': "read_times (length ts) (readType d) (ids_bytes ts @ rest) = Inr (ts', rest)"
    "\<forall>t\<in>set ts'. known (d_sctx d) t" "map erase ts' = map erase ts"
    using read_times_types [OF assms(1,2) d(1) assms(3), of rest] by blast
  have sorted: "sort_stable (\<lambda>a b. CompareTypes a b < 0) ts' = ts'"
    using sorted_union_erase [OF assms(1) _ _ inv ts'(2,3)] assms(3,6) by simp
  obtain c u where cu: "LookupTypeUnion (d_sctx d) ts' = (c, u)" by force
  have "lookup_ok (d_sctx d) c u \<and> erase u = erase (TypeUnion i ts)"
    using LookupTypeUnion_ok [OF inv d(2) ts'(2) cu] sorted ts'(3) by auto
  moreover have "length ts < 2 ^ 63" using assms(5) by (simp add: MaxUnionTypes_def)
  ultimately show "\<exists>c u. read_typedef TypeDefUnion d ((put_uvarint (of_nat (length ts)) @ ids_bytes ts) @ rest) =
      (Decoder_enter d (c, u), Inr rest) \<and> lookup_ok (d_sctx d) c u \<and> erase u = erase (TypeUnion i ts) \<and>
      enters (d_sctx d) c u"
    using lookup_enters(5) [OF cu] cu assms(4,5) ts'(1)
    by (auto simp: read_typedef_def typedef_codes readTypeUnion_def readUvarintAsInt_put)
qed

lemma defines_record:
  assumes "ctx_inv (forget (e_sctx e))" "ctx_small (e_sctx e)" "\<forall>(n, t)\<in>set fs. short_name n \<and> known (e_sctx e) t" "distinct (map fst fs)"
    and "length fs < 2 ^ 63"
  shows "defines_type e (TypeDefRecord # put_uvarint (of_nat (length fs)) @ fields_bytes fs) (TypeRecord i fs)"
proof (rule defines_typeI)
  fix d rest assume d: "synced e d" "ctx_small (d_sctx d)"
  have inv: "ctx_inv (d_sctx d)" using d(1) by (simp add: synced_def)
  obtain fs' where fs': "read_times (length fs) (readField d) (fields_bytes fs @ rest) = Inr (fs', rest)"
    "\<forall>(n, t)\<in>set fs'. short_name n \<and> known (d_sctx d) t" "map (map_prod id erase) fs' = map (map_prod id erase) fs"
    using read_times_fields [OF assms(1,2) d(1) assms(3), of rest] by blast
  obtain c r where cr: "LookupTypeRecord (d_sctx d) fs' = (c, r)" by force
  note ok = LookupTypeRecord_ok [OF inv d(2) fs'(2) cr]
  then obtain u where r: "r = Inr u" using assms(4) map_prod_erase_eq(1) [OF fs'(3)] by (cases r) auto
  have "lookup_ok (d_sctx d) c u \<and> erase u = erase (TypeRecord i fs)" using ok r fs'(3) by auto
  then show "\<exists>c u. read_typedef TypeDefRecord d ((put_uvarint (of_nat (length fs)) @ fields_bytes fs) @ rest) =
      (Decoder_enter d (c, u), Inr rest) \<and> lookup_ok (d_sctx d) c u \<and> erase u = erase (TypeRecord i fs) \<and>
      enters (d_sctx d) c u"
    using lookup_enters(1) [OF cr [unfolded r]] cr r assms(5) fs'(1)
    by (auto simp: read_typedef_def typedef_codes readTypeRecord_def readUvarintAsInt_put)
qed

subsection \<open>Steps of the encoder\<close>

text \<open>From \<open>e\<close> to \<open>e'\<close> the encoder emits \<open>\<delta>\<close>, and a decoder in step with \<open>e\<close> gets in step with \<open>e'\<close> on reading it.\<close>

definition stepped :: "tcontext \<Rightarrow> encoder \<Rightarrow> encoder \<Rightarrow> bytes \<Rightarrow> bool" where
  "stepped cx e e' \<delta> \<longleftrightarrow> enc_inv cx e' \<and> e_bytes e' = e_bytes e @ \<delta> \<and> e_encoded e \<subseteq>\<^sub>m e_encoded e' \<and>
     (\<forall>d c0 rest. synced e d \<longrightarrow> grown c0 cx (d_sctx d) \<longrightarrow>
        (\<exists>d'. decode d (\<delta> @ rest) = decode d' rest \<and> synced e' d' \<and> grown c0 cx (d_sctx d') \<and> extends (d_sctx d) (d_sctx d')))"

lemma stepped_refl: "enc_inv cx e \<Longrightarrow> stepped cx e e []"
  by (auto simp: stepped_def)

lemma stepped_trans:
  assumes "stepped cx e e1 \<delta>1" "stepped cx e1 e2 \<delta>2"
  shows "stepped cx e e2 (\<delta>1 @ \<delta>2)"
  unfolding stepped_def
proof (intro conjI allI impI)
  show "enc_inv cx e2" "e_bytes e2 = e_bytes e @ \<delta>1 @ \<delta>2" "e_encoded e \<subseteq>\<^sub>m e_encoded e2"
    using assms by (auto simp: stepped_def intro: map_le_trans)
  fix d c0 rest assume d: "synced e d" "grown c0 cx (d_sctx d)"
  obtain d1 where d1: "decode d (\<delta>1 @ \<delta>2 @ rest) = decode d1 (\<delta>2 @ rest)" "synced e1 d1" "grown c0 cx (d_sctx d1)" "extends (d_sctx d) (d_sctx d1)"
    using assms(1) d unfolding stepped_def by meson
  moreover obtain d2 where "decode d1 (\<delta>2 @ rest) = decode d2 rest" "synced e2 d2" "grown c0 cx (d_sctx d2)" "extends (d_sctx d1) (d_sctx d2)"
    using assms(2) d1(2,3) unfolding stepped_def by meson
  ultimately show "\<exists>d'. decode d ((\<delta>1 @ \<delta>2) @ rest) = decode d' rest \<and> synced e2 d' \<and> grown c0 cx (d_sctx d') \<and> extends (d_sctx d) (d_sctx d')"
    by (auto intro: extends_trans)
qed

lemma not_encoded_new:
  assumes "ctx_inv cx" "enc_inv cx e" "known cx x" "e_encoded e x = None" "erase t = erase x" "tkey_of t \<noteq> None"
  shows "\<not> known (e_sctx e) t"
proof
  assume "known (e_sctx e) t"
  then obtain y where "e_encoded e y = Some t" using assms(2,6) by (auto simp: enc_inv_def)
  then show False using enc_inv_encoded [OF assms(2)] erase_unique [OF assms(1,3), of y] assms(4,5) by auto
qed

text \<open>A complex type of which the components are encoded: its definition is the next step.\<close>

lemma stepped_define:
  assumes "ctx_inv cx" "enc_inv cx e" "known cx x" "e_encoded e x = None" "erase t = erase x" "tkey_of t \<noteq> None"
    and ok: "lookup_ok (forget (e_sctx e)) (forget c) t" and l: "enters (e_sctx e) c t" and "defines_type e \<delta> t"
    and e': "e' = e\<lparr>e_sctx := c, e_bytes := e_bytes e @ \<delta>, e_encoded := (e_encoded e)(x \<mapsto> t)\<rparr>"
  shows "stepped cx e e' \<delta>"
proof -
  have inv: "ctx_inv (forget (e_sctx e))" using assms(2) by (simp add: enc_inv_def)
  have "\<not> known (forget (e_sctx e)) t" "enters (forget (e_sctx e)) (forget c) t"
    using not_encoded_new [OF assms(1-6)] l by (simp_all add: enters_def)
  note new = new_type [OF ok this, simplified]
  have "e_encoded e \<subseteq>\<^sub>m e_encoded e'" using assms(4) e' by (auto simp: map_le_def)
  moreover have "enc_inv cx e'"
    unfolding enc_inv_def
  proof (intro conjI allI impI)
    show "ctx_inv (forget (e_sctx e'))" using ok e' by (simp add: lookup_ok_def)
    fix y u assume "e_encoded e' y = Some u"
    then show "known cx y" "known (e_sctx e') u" "erase u = erase y"
      using enc_inv_encoded [OF assms(2), of y u] assms(3,5) new(2) e' by (auto split: if_splits)
  next
    fix u assume "known (e_sctx e') u" "tkey_of u \<noteq> None"
    then consider "u = t" | "known (e_sctx e) u" using new(2) e' by auto
    then show "\<exists>y. e_encoded e' y = Some u"
    proof cases
      case 2
      then obtain y where "e_encoded e y = Some u" using assms(2) \<open>tkey_of u \<noteq> None\<close> by (auto simp: enc_inv_def)
      then show ?thesis using assms(4) e' by (intro exI [of _ y]) auto
    qed (use e' in auto)
  qed
  moreover have "\<exists>d'. decode d (\<delta> @ rest) = decode d' rest \<and> synced e' d' \<and> grown c0 cx (d_sctx d') \<and> extends (d_sctx d) (d_sctx d')"
    if d: "synced e d" "grown c0 cx (d_sctx d)" for d c0 rest
  proof -
    obtain c2 u where u: "decode d (\<delta> @ rest) = decode (Decoder_enter d (c2, u)) rest" "lookup_ok (d_sctx d) c2 u" "erase u = erase t"
      "enters (d_sctx d) c2 u"
      using assms(9) d(1) grown_small [OF d(2)] unfolding defines_type_def by meson
    have "synced e' (Decoder_enter d (c2, u))"
      using d(1) u(2,3) new(1) e' by (auto simp: synced_def Decoder_enter_def lookup_ok_def extends_def nth_append less_Suc_eq)
    moreover have "grown c0 cx c2" using grown_enters [OF d(2) u(2,4) assms(3)] u(3) assms(5) by simp
    ultimately show ?thesis using u by (auto simp: Decoder_enter_def lookup_ok_def)
  qed
  ultimately show ?thesis using e' by (auto simp: stepped_def)
qed

subsection \<open>Encoding a type\<close>

text \<open>Encoding a type keeps the mapping of a larger one.\<close>

definition kept :: "ztype \<Rightarrow> encoder \<Rightarrow> encoder \<Rightarrow> bool" where
  "kept x e e' \<longleftrightarrow> e_encoded e' x = e_encoded e x"

lemma kept_refl [simp]: "kept x e e"
  by (simp add: kept_def)

lemma kept_bind:
  "kept x e (fst m) \<Longrightarrow> (\<And>a e'. kept x e' (fst (f a e'))) \<Longrightarrow> kept x e (fst (enc_bind m f))"
  by (cases m; cases "snd m") (auto simp: kept_def)

lemma kept_emit [simp]:
  "kept x e (fst (emit_record fs e))" "kept x e (fst (emit_array t e))" "kept x e (fst (emit_set t e))" "kept x e (fst (emit_error t e))"
  "kept x e (fst (emit_map t u e))" "kept x e (fst (emit_union ts e))" "kept x e (fst (emit_name n t e))" "kept x e (fst (encodeTypeEnum ss e))"
  by (auto simp: kept_def emit_record_def emit_array_def emit_set_def emit_error_def emit_map_def emit_union_def emit_name_def
      encodeTypeEnum_def Let_def split: prod.splits sum.splits)

lemma encode_kept:
  "\<forall>x::ztype. size t < size x \<longrightarrow> kept x e (fst (Encode t e))"
  "\<forall>x::ztype. size t \<le> size x \<longrightarrow> kept x e (fst (encode t e))"
  "\<forall>x::ztype. (\<forall>f\<in>set fs. size (snd f) < size x) \<longrightarrow> kept x e (fst (encode_fields fs e))"
  "\<forall>x::ztype. (\<forall>t\<in>set ts. size t < size x) \<longrightarrow> kept x e (fst (encode_types ts e))"
proof (induction t e and t e and fs e and ts e rule: Encode_encode_encode_fields_encode_types.induct)
  case (1 t e)
  then show ?case by (auto simp: Encode.simps split: option.splits intro!: kept_bind) (auto simp: kept_def)
next
  case (2 i fs e)
  have "size (snd f) < size (TypeRecord i fs)" if "f \<in> set fs" for f using size_parts [of "snd f" "TypeRecord i fs"] that by simp
  then have "kept x e (fst (encode_fields fs e))" if "size (TypeRecord i fs) \<le> size x" for x using 2 that less_le_trans by blast
  then show ?case by (auto intro!: kept_bind)
next
  case (5 i ts e)
  have "size t < size (TypeUnion i ts)" if "t \<in> set ts" for t using size_parts [of t "TypeUnion i ts"] that by simp
  then have "kept x e (fst (encode_types ts e))" if "size (TypeUnion i ts) \<le> size x" for x using 5 that less_le_trans by blast
  then show ?case by (auto intro!: kept_bind)
qed (auto intro!: kept_bind)

lemma encode_None:
  "Encode t e = (e1, r) \<Longrightarrow> size t < size x \<Longrightarrow> e_encoded e x = None \<Longrightarrow> e_encoded e1 x = None"
  "encode_fields fs e = (e1, r') \<Longrightarrow> e_encoded e (TypeRecord i fs) = None \<Longrightarrow> e_encoded e1 (TypeRecord i fs) = None"
  "encode_types ts e = (e1, r'') \<Longrightarrow> e_encoded e (TypeUnion i ts) = None \<Longrightarrow> e_encoded e1 (TypeUnion i ts) = None"
  using encode_kept(1) [of t e] encode_kept(3) [of fs e] encode_kept(4) [of ts e]
    size_parts [of _ "TypeRecord i fs"] size_parts [of _ "TypeUnion i ts"]
  by (simp_all add: kept_def)

text \<open>Types the format can carry: unions that are not empty, and unions and enums within the limits of the reader.\<close>

function bsup_ok :: "ztype \<Rightarrow> bool" where
  "bsup_ok t \<longleftrightarrow> (case t of TypeRecord _ fs \<Rightarrow> length fs < 2 ^ 63
      | TypeUnion _ ts \<Rightarrow> ts \<noteq> [] \<and> int (length ts) \<le> MaxUnionTypes
      | TypeEnum _ ss \<Rightarrow> int (length ss) \<le> MaxEnumSymbols | _ \<Rightarrow> True) \<and> (\<forall>p\<in>set (parts t). bsup_ok p)"
  by pat_completeness auto
termination by (relation "measure size") (auto simp: size_parts)

declare bsup_ok.simps [simp del]

lemma bsup_ok_parts: "bsup_ok t \<Longrightarrow> p \<in> set (parts t) \<Longrightarrow> bsup_ok p"
  using bsup_ok.simps [of t] by blast

lemma bsup_ok_limits:
  "bsup_ok (TypeRecord i fs) \<Longrightarrow> length fs < 2 ^ 63" "bsup_ok (TypeUnion i ts) \<Longrightarrow> ts \<noteq> [] \<and> int (length ts) \<le> MaxUnionTypes"
  "bsup_ok (TypeEnum i ss) \<Longrightarrow> int (length ss) \<le> MaxEnumSymbols"
  using bsup_ok.simps [of "TypeRecord i fs"] bsup_ok.simps [of "TypeUnion i ts"] bsup_ok.simps [of "TypeEnum i ss"] by auto

definition image_of :: "encoder \<Rightarrow> ztype list \<Rightarrow> ztype list \<Rightarrow> bool" where
  "image_of e ts ts' \<longleftrightarrow> list_all2 (\<lambda>t t'. e_encoded e t = Some t') ts ts'"

lemma image_of_simps [simp]: "image_of e [] ts' \<longleftrightarrow> ts' = []" "image_of e (t # ts) (t' # ts') \<longleftrightarrow> e_encoded e t = Some t' \<and> image_of e ts ts'"
  by (auto simp: image_of_def)

lemma image_of_inv:
  assumes "enc_inv cx e" "image_of e ts ts'"
  shows "\<forall>t\<in>set ts'. known (e_sctx e) t" "map erase ts' = map erase ts" "length ts' = length ts"
proof -
  have "(\<forall>t\<in>set ts'. known (e_sctx e) t) \<and> map erase ts' = map erase ts"
    using assms(2)
  proof (induction ts arbitrary: ts')
    case (Cons t ts)
    then obtain u us where "ts' = u # us" by (auto simp: image_of_def list_all2_Cons1)
    then show ?case using Cons enc_inv_encoded [OF assms(1), of t u] by auto
  qed simp
  then show "\<forall>t\<in>set ts'. known (e_sctx e) t" "map erase ts' = map erase ts" by auto
  then show "length ts' = length ts" by (metis length_map)
qed

lemma stepped_encoded: "stepped cx e e' \<delta> \<Longrightarrow> e_encoded e t = Some u \<Longrightarrow> e_encoded e' t = Some u"
  by (metis domI map_le_def stepped_def)

lemma stepped_image: "stepped cx e e' \<delta> \<Longrightarrow> image_of e ts ts' \<Longrightarrow> image_of e' ts ts'"
  unfolding image_of_def by (erule list_all2_mono) (rule stepped_encoded)

definition encodes :: "tcontext \<Rightarrow> ztype \<Rightarrow> encoder \<Rightarrow> bool" where
  "encodes cx t e \<longleftrightarrow> (\<exists>e' t' \<delta>. encode t e = (e', Inr t') \<and> stepped cx e (e'\<lparr>e_encoded := (e_encoded e')(t \<mapsto> t')\<rparr>) \<delta>)"

lemma encodesI:
  assumes "ctx_inv cx" "known cx t" "stepped cx e e1 \<delta>1" "e_encoded e1 t = None" "tkey_of u \<noteq> None"
    and "lookup_ok (forget (e_sctx e1)) (forget c) u" "erase u = erase t" "enters (e_sctx e1) c u" "defines_type e1 \<delta> u"
    and "encode t e = (e1\<lparr>e_sctx := c, e_bytes := e_bytes e1 @ \<delta>\<rparr>, Inr u)"
  shows "encodes cx t e"
proof -
  have "enc_inv cx e1" using assms(3) by (simp add: stepped_def)
  from stepped_define [OF assms(1) this assms(2,4,7,5,6,8,9) refl]
  have "stepped cx e1 (e1\<lparr>e_sctx := c, e_bytes := e_bytes e1 @ \<delta>, e_encoded := (e_encoded e1)(t \<mapsto> u)\<rparr>) \<delta>" .
  from stepped_trans [OF assms(3) this] show ?thesis using assms(10) by (auto simp: encodes_def)
qed

text \<open>The methods for arrays, sets and errors.\<close>

context inner_lookup
begin

lemma encodes_inner:
  assumes "ctx_inv cx" "known cx (C i t)" "e_encoded e (C i t) = None" "ctx_small (e_sctx e1)"
    and e1: "Encode t e = (e1, Inr t1)" "stepped cx e e1 \<delta>1" "e_encoded e1 t = Some t1"
    and C: "size t < size (C i t)" "\<And>i t. tkey_of (C i t) \<noteq> None"
    and enc: "encode (C i t) e = (case look (e_sctx e1) t1 of (c, u) \<Rightarrow>
        (e1\<lparr>e_sctx := c, e_bytes := append_id (e_bytes e1 @ [code]) t1\<rparr>, Inr u))"
    and rd: "\<And>d b. read_typedef code d b = read_inner look d b"
  shows "encodes cx (C i t) e"
proof -
  have inv: "enc_inv cx e1" using e1(2) by (simp add: stepped_def)
  then have ctx: "ctx_inv (forget (e_sctx e1))" by (simp add: enc_inv_def)
  note t1 = enc_inv_encoded [OF inv e1(3)]
  obtain c u where cu: "look (e_sctx e1) t1 = (c, u)" by force
  obtain c2 where c2: "look (forget (e_sctx e1)) t1 = (c2, u)" "forget c2 = forget c" using look_forget [OF cu] by blast
  obtain j where u: "lookup_ok (forget (e_sctx e1)) (forget c) u" "u = C j t1"
    using look_ok [OF ctx _ c2(1)] t1 lookup_ok_forget [OF _ c2(2)] by auto
  show ?thesis
  proof (rule encodesI [OF assms(1,2) e1(2)])
    show "e_encoded e1 (C i t) = None" by (rule encode_None(1) [OF e1(1) C(1) assms(3)])
    show "encode (C i t) e = (e1\<lparr>e_sctx := c, e_bytes := e_bytes e1 @ code # put_uvarint (of_nat (TypeID t1))\<rparr>, Inr u)"
      using enc cu by (simp add: append_id_eq)
    show "defines_type e1 (code # put_uvarint (of_nat (TypeID t1))) u"
      using read_inner_ok [OF ctx assms(4), of t1] t1 u(2) by (intro defines_typeI) (auto simp: rd)
  qed (use u t1 look_enters [OF cu] C(2) in \<open>auto simp: erase_C\<close>)
qed

end

lemma encodes_record:
  assumes cx: "ctx_inv cx" and a: "known cx (TypeRecord i fs)" "e_encoded e (TypeRecord i fs) = None" "bsup_ok (TypeRecord i fs)"
    and sm: "ctx_small (e_sctx e1)"
    and e1: "encode_fields fs e = (e1, Inr gs)" "stepped cx e e1 \<delta>1" "map fst gs = map fst fs" "image_of e1 (map snd fs) (map snd gs)"
  shows "encodes cx (TypeRecord i fs) e"
proof -
  have inv: "enc_inv cx e1" using e1(2) by (simp add: stepped_def)
  then have ctx: "ctx_inv (forget (e_sctx e1))" by (simp add: enc_inv_def)
  note gs = image_of_inv [OF inv e1(4)]
  have er: "map (map_prod id erase) gs = map (map_prod id erase) fs"
    using gs(2) e1(3) by (intro map_fst_snd_eq) (simp_all add: comp_def)
  have n: "\<forall>(n, t)\<in>set gs. short_name n \<and> known (e_sctx e1) t"
    using known_names_short [OF cx a(1)] gs(1) e1(3) by (metis (no_types, lifting) case_prodI2 fst_conv image_eqI list.set_map names.simps(1) snd_conv)
  have d: "distinct (map fst gs)" using known_shape [OF cx a(1)] e1(3) by simp
  obtain c r where cr: "LookupTypeRecord (e_sctx e1) gs = (c, r)" by force
  obtain c2 where c2: "LookupTypeRecord (forget (e_sctx e1)) gs = (c2, r)" "forget c2 = forget c" using lookup_forget(1) [OF cr] by blast
  have "\<forall>(n, t)\<in>set gs. short_name n \<and> known (forget (e_sctx e1)) t" "ctx_small (forget (e_sctx e1))" using n sm by simp_all
  note ok = LookupTypeRecord_ok [OF ctx this(2,1) c2(1)]
  obtain u j where u: "r = Inr u" "lookup_ok (forget (e_sctx e1)) (forget c) u" "u = TypeRecord j gs"
    using ok d lookup_ok_forget [OF _ c2(2)] by (cases r) auto
  have l: "length gs < 2 ^ 63" using bsup_ok_limits(1) [OF a(3)] gs(3) by simp
  show ?thesis
  proof (rule encodesI [OF cx a(1) e1(2)])
    show "e_encoded e1 (TypeRecord i fs) = None" by (rule encode_None(2) [OF e1(1) a(2)])
    show "encode (TypeRecord i fs) e = (e1\<lparr>e_sctx := c, e_bytes := e_bytes e1 @ TypeDefRecord # put_uvarint (of_nat (length gs)) @ fields_bytes gs\<rparr>, Inr u)"
      using e1(1) cr u(1) by (simp add: emit_record_def foldl_append_field AppendUvarint_def)
    show "defines_type e1 (TypeDefRecord # put_uvarint (of_nat (length gs)) @ fields_bytes gs) u"
      using defines_record [OF ctx sm n d l] u(3) by simp
  qed (use u lookup_enters(1) [OF cr [unfolded u(1)]] er in auto)
qed

lemma encodes_union:
  assumes cx: "ctx_inv cx" and a: "known cx (TypeUnion i ts)" "e_encoded e (TypeUnion i ts) = None" "bsup_ok (TypeUnion i ts)"
    and sm: "ctx_small (e_sctx e1)"
    and e1: "encode_types ts e = (e1, Inr us)" "stepped cx e e1 \<delta>1" "image_of e1 ts us"
  shows "encodes cx (TypeUnion i ts) e"
proof -
  have inv: "enc_inv cx e1" using e1(2) by (simp add: stepped_def)
  then have ctx: "ctx_inv (forget (e_sctx e1))" by (simp add: enc_inv_def)
  note us = image_of_inv [OF inv e1(3)]
  have "\<forall>t\<in>set ts. known cx t" using known_parts [OF ctx_invD(1) [OF cx] a(1)] by simp
  then have sorted: "sort_stable (\<lambda>a b. CompareTypes a b < 0) us = us"
    using sorted_union_erase [OF cx _ known_shape [OF cx a(1)] ctx _ us(2)] us(1) by simp
  obtain c u where cu: "LookupTypeUnion (e_sctx e1) us = (c, u)" by force
  obtain c2 where c2: "LookupTypeUnion (forget (e_sctx e1)) us = (c2, u)" "forget c2 = forget c" using lookup_forget(5) [OF cu] by blast
  obtain j where u: "lookup_ok (forget (e_sctx e1)) (forget c) u" "u = TypeUnion j us"
    using LookupTypeUnion_ok [OF ctx _ _ c2(1)] sm us(1) sorted lookup_ok_forget [OF _ c2(2)] by auto
  have l: "us \<noteq> []" "int (length us) \<le> MaxUnionTypes" using bsup_ok_limits(2) [OF a(3)] us(3) by auto
  show ?thesis
  proof (rule encodesI [OF cx a(1) e1(2)])
    show "e_encoded e1 (TypeUnion i ts) = None" by (rule encode_None(3) [OF e1(1) a(2)])
    show "encode (TypeUnion i ts) e = (e1\<lparr>e_sctx := c, e_bytes := e_bytes e1 @ TypeDefUnion # put_uvarint (of_nat (length us)) @ ids_bytes us\<rparr>, Inr u)"
      using e1(1) cu sorted by (simp add: emit_union_def foldl_append_id AppendUvarint_def)
    show "defines_type e1 (TypeDefUnion # put_uvarint (of_nat (length us)) @ ids_bytes us) u"
      using defines_union [OF ctx sm us(1) l sorted] u(2) by simp
  qed (use u lookup_enters(5) [OF cu] us(2) in auto)
qed

lemma encodes_map:
  assumes cx: "ctx_inv cx" and a: "known cx (TypeMap i k v)" "e_encoded e (TypeMap i k v) = None" and sm: "ctx_small (e_sctx e2)"
    and e1: "Encode k e = (e1, Inr k1)" "stepped cx e e1 \<delta>1" "e_encoded e1 k = Some k1"
    and e2: "Encode v e1 = (e2, Inr v2)" "stepped cx e1 e2 \<delta>2" "e_encoded e2 v = Some v2"
  shows "encodes cx (TypeMap i k v) e"
proof -
  have inv: "enc_inv cx e2" using e2(2) by (simp add: stepped_def)
  then have ctx: "ctx_inv (forget (e_sctx e2))" by (simp add: enc_inv_def)
  note k1 = enc_inv_encoded [OF inv stepped_encoded [OF e2(2) e1(3)]] and v2 = enc_inv_encoded [OF inv e2(3)]
  obtain c u where cu: "LookupTypeMap (e_sctx e2) k1 v2 = (c, u)" by force
  obtain c2 where c2: "LookupTypeMap (forget (e_sctx e2)) k1 v2 = (c2, u)" "forget c2 = forget c" using lookup_forget(4) [OF cu] by blast
  obtain j where u: "lookup_ok (forget (e_sctx e2)) (forget c) u" "u = TypeMap j k1 v2"
    using LookupTypeMap_ok [OF ctx _ _ _ c2(1)] sm k1 v2 lookup_ok_forget [OF _ c2(2)] by auto
  show ?thesis
  proof (rule encodesI [OF cx a(1) stepped_trans [OF e1(2) e2(2)]])
    show "e_encoded e2 (TypeMap i k v) = None"
      using encode_None(1) [OF e1(1) _ a(2)] encode_None(1) [OF e2(1), of "TypeMap i k v"] by simp
    show "encode (TypeMap i k v) e =
        (e2\<lparr>e_sctx := c, e_bytes := e_bytes e2 @ TypeDefMap # put_uvarint (of_nat (TypeID k1)) @ put_uvarint (of_nat (TypeID v2))\<rparr>, Inr u)"
      using e1(1) e2(1) cu by (simp add: emit_map_def append_id_eq)
    show "defines_type e2 (TypeDefMap # put_uvarint (of_nat (TypeID k1)) @ put_uvarint (of_nat (TypeID v2))) u"
      using defines_map [OF ctx sm] k1 v2 u(2) by simp
  qed (use u lookup_enters(4) [OF cu] k1 v2 in auto)
qed

lemma encodes_name:
  assumes cx: "ctx_inv cx" and a: "known cx (TypeNamed i n t)" "e_encoded e (TypeNamed i n t) = None" and sm: "ctx_small (e_sctx e1)"
    and e1: "Encode t e = (e1, Inr t1)" "stepped cx e e1 \<delta>1" "e_encoded e1 t = Some t1"
  shows "encodes cx (TypeNamed i n t) e"
proof -
  have inv: "enc_inv cx e1" using e1(2) by (simp add: stepped_def)
  then have ctx: "ctx_inv (forget (e_sctx e1))" by (simp add: enc_inv_def)
  note t1 = enc_inv_encoded [OF inv e1(3)]
  have n: "short_name n" using known_names_short [OF cx a(1)] by simp
  have sh: "shape_ok (TypeNamed j n t1)" for j using known_shape [OF cx a(1)] by simp
  obtain c u where cu: "LookupTypeNamed (e_sctx e1) n t1 = (c, Inr u)" using LookupTypeNamed_valid [OF sh] by blast
  obtain c2 where c2: "LookupTypeNamed (forget (e_sctx e1)) n t1 = (c2, Inr u)" "forget c2 = forget c" using lookup_forget(8) [OF cu] by blast
  obtain j where u: "lookup_ok (forget (e_sctx e1)) (forget c) u" "u = TypeNamed j n t1"
    using LookupTypeNamed_ok [OF ctx _ n _ c2(1)] sm t1 lookup_ok_forget [OF _ c2(2)] by auto
  show ?thesis
  proof (rule encodesI [OF cx a(1) e1(2)])
    show "e_encoded e1 (TypeNamed i n t) = None" using encode_None(1) [OF e1(1) _ a(2)] by simp
    show "encode (TypeNamed i n t) e = (e1\<lparr>e_sctx := c, e_bytes := e_bytes e1 @ TypeDefName # append_name [] n @ put_uvarint (of_nat (TypeID t1))\<rparr>, Inr u)"
      using e1(1) cu append_name_prefix [of "e_bytes e1 @ [TypeDefName]" n] by (simp add: emit_name_def append_id_eq)
    show "defines_type e1 (TypeDefName # append_name [] n @ put_uvarint (of_nat (TypeID t1))) u"
      using defines_name [OF ctx sm _ n sh] t1 u(2) by simp
  qed (use u lookup_enters(8) [OF cu] t1 in auto)
qed

lemma encodes_prim:
  assumes "enc_inv cx e" "e_encoded e (TypePrim p) = None"
  shows "encodes cx (TypePrim p) e"
proof -
  let ?e = "e\<lparr>e_encoded := (e_encoded e)(TypePrim p \<mapsto> TypePrim p)\<rparr>"
  have "enc_inv cx ?e"
    unfolding enc_inv_def
  proof (intro conjI allI impI)
    fix t assume "known (e_sctx ?e) t" "tkey_of t \<noteq> None"
    then obtain x where "e_encoded e x = Some t" using assms(1) by (auto simp: enc_inv_def)
    then show "\<exists>x. e_encoded ?e x = Some t" using assms(2) by (intro exI [of _ x]) auto
  qed (use assms(1) in \<open>auto simp: enc_inv_def split: if_splits\<close>)
  moreover have "e_encoded e \<subseteq>\<^sub>m e_encoded ?e" using assms(2) by (auto simp: map_le_def)
  moreover have "synced ?e d \<longleftrightarrow> synced e d" for d by (simp add: synced_def)
  ultimately have "stepped cx e ?e []" by (auto simp: stepped_def)
  then show ?thesis by (auto simp: encodes_def)
qed

lemma encodes_enum:
  assumes cx: "ctx_inv cx" and a: "enc_inv cx e" "known cx (TypeEnum i ss)" "bsup_ok (TypeEnum i ss)" "e_encoded e (TypeEnum i ss) = None"
  shows "encodes cx (TypeEnum i ss) e"
proof -
  have n: "\<forall>n\<in>set ss. short_name n" using known_names_short [OF cx a(2)] by simp
  obtain c u where cu: "LookupTypeEnum (e_sctx e) ss = (c, u)" by force
  obtain c2 where c2: "LookupTypeEnum (forget (e_sctx e)) ss = (c2, u)" "forget c2 = forget c" using lookup_forget(6) [OF cu] by blast
  obtain j where u: "lookup_ok (forget (e_sctx e)) (forget c) u" "u = TypeEnum j ss"
    using LookupTypeEnum_ok [OF _ n c2(1)] lookup_ok_forget [OF _ c2(2)] a(1) by (auto simp: enc_inv_def)
  show ?thesis
  proof (rule encodesI [OF cx a(2) stepped_refl [OF a(1)] a(4)])
    show "encode (TypeEnum i ss) e = (e\<lparr>e_sctx := c, e_bytes := e_bytes e @ TypeDefEnum # put_uvarint (of_nat (length ss)) @ append_symbols [] ss\<rparr>, Inr u)"
      using cu append_symbols_prefix [of "e_bytes e @ TypeDefEnum # put_uvarint (of_nat (length ss))" ss] by (simp add: encodeTypeEnum_def AppendUvarint_def)
    show "defines_type e (TypeDefEnum # put_uvarint (of_nat (length ss)) @ append_symbols [] ss) u"
      using defines_enum [OF n bsup_ok_limits(3) [OF a(3)]] u(2) by auto
  qed (use u lookup_enters(6) [OF cu] in auto)
qed

lemma stepped_small: "ctx_inv cx \<Longrightarrow> ctx_small cx \<Longrightarrow> stepped cx e e' \<delta> \<Longrightarrow> ctx_small (e_sctx e')"
  by (auto simp: stepped_def intro: enc_inv_small)

lemma encode_steps:
  assumes cx: "ctx_inv cx" and small: "ctx_small cx"
  shows "enc_inv cx e \<longrightarrow> known cx t \<longrightarrow> bsup_ok t \<longrightarrow>
      (\<exists>e' t' \<delta>. Encode t e = (e', Inr t') \<and> stepped cx e e' \<delta> \<and> e_encoded e' t = Some t')"
    "enc_inv cx e \<longrightarrow> known cx t \<longrightarrow> bsup_ok t \<longrightarrow> e_encoded e t = None \<longrightarrow> encodes cx t e"
    "enc_inv cx e \<longrightarrow> (\<forall>f\<in>set fs. known cx (snd f) \<and> bsup_ok (snd f)) \<longrightarrow>
      (\<exists>e' fs' \<delta>. encode_fields fs e = (e', Inr fs') \<and> stepped cx e e' \<delta> \<and> map fst fs' = map fst fs \<and> image_of e' (map snd fs) (map snd fs'))"
    "enc_inv cx e \<longrightarrow> (\<forall>t\<in>set ts. known cx t \<and> bsup_ok t) \<longrightarrow>
      (\<exists>e' ts' \<delta>. encode_types ts e = (e', Inr ts') \<and> stepped cx e e' \<delta> \<and> image_of e' ts ts')"
proof (induction t e and t e and fs e and ts e rule: Encode_encode_encode_fields_encode_types.induct)
  case (1 t e)
  show ?case
  proof (intro impI)
    assume a: "enc_inv cx e" "known cx t" "bsup_ok t"
    show "\<exists>e' t' \<delta>. Encode t e = (e', Inr t') \<and> stepped cx e e' \<delta> \<and> e_encoded e' t = Some t'"
    proof (cases "e_encoded e t")
      case None
      then have "encodes cx t e" using 1 a by blast
      then show ?thesis by (auto simp: encodes_def Encode.simps None)
    next
      case (Some u)
      then show ?thesis using stepped_refl [OF a(1)] by (auto simp: Encode.simps)
    qed
  qed
next
  case (3 i t e)
  show ?case
  proof (intro impI)
    assume a: "enc_inv cx e" "known cx (TypeSet i t)" "bsup_ok (TypeSet i t)" "e_encoded e (TypeSet i t) = None"
    then obtain e1 t1 \<delta>1 where e1: "Encode t e = (e1, Inr t1)" "stepped cx e e1 \<delta>1" "e_encoded e1 t = Some t1"
      using 3 known_parts [OF ctx_invD(1) [OF cx] a(2)] bsup_ok_parts [OF a(3)] by auto
    then show "encodes cx (TypeSet i t) e"
      using stepped_small [OF cx small e1(2)]
      by (intro sets.encodes_inner [OF cx a(2,4) _ e1]) (auto simp: emit_set_def readTypeSet_def read_typedef_def typedef_codes)
  qed
next
  case (4 i t e)
  show ?case
  proof (intro impI)
    assume a: "enc_inv cx e" "known cx (TypeArray i t)" "bsup_ok (TypeArray i t)" "e_encoded e (TypeArray i t) = None"
    then obtain e1 t1 \<delta>1 where e1: "Encode t e = (e1, Inr t1)" "stepped cx e e1 \<delta>1" "e_encoded e1 t = Some t1"
      using 4 known_parts [OF ctx_invD(1) [OF cx] a(2)] bsup_ok_parts [OF a(3)] by auto
    then show "encodes cx (TypeArray i t) e"
      using stepped_small [OF cx small e1(2)]
      by (intro arrays.encodes_inner [OF cx a(2,4) _ e1]) (auto simp: emit_array_def readTypeArray_def read_typedef_def typedef_codes)
  qed
next
  case (9 i t e)
  show ?case
  proof (intro impI)
    assume a: "enc_inv cx e" "known cx (TypeError i t)" "bsup_ok (TypeError i t)" "e_encoded e (TypeError i t) = None"
    then obtain e1 t1 \<delta>1 where e1: "Encode t e = (e1, Inr t1)" "stepped cx e e1 \<delta>1" "e_encoded e1 t = Some t1"
      using 9 known_parts [OF ctx_invD(1) [OF cx] a(2)] bsup_ok_parts [OF a(3)] by auto
    then show "encodes cx (TypeError i t) e"
      using stepped_small [OF cx small e1(2)]
      by (intro errors.encodes_inner [OF cx a(2,4) _ e1]) (auto simp: emit_error_def readTypeError_def read_typedef_def typedef_codes)
  qed
next
  case (7 i ss e)
  show ?case
  proof (intro impI)
    assume a: "enc_inv cx e" "known cx (TypeEnum i ss)" "bsup_ok (TypeEnum i ss)" "e_encoded e (TypeEnum i ss) = None"
    then show "encodes cx (TypeEnum i ss) e" using encodes_enum [OF cx] by blast
  qed
next
  case (12 n t fs e)
  show ?case
  proof (intro impI)
    assume a: "enc_inv cx e" "\<forall>f\<in>set ((n, t) # fs). known cx (snd f) \<and> bsup_ok (snd f)"
    then obtain e1 t1 \<delta>1 where e1: "Encode t e = (e1, Inr t1)" "stepped cx e e1 \<delta>1" "e_encoded e1 t = Some t1" using 12(1) by auto
    have "enc_inv cx e1" "\<forall>f\<in>set fs. known cx (snd f) \<and> bsup_ok (snd f)" using e1(2) a(2) by (simp_all add: stepped_def)
    then obtain e2 fs2 \<delta>2 where e2: "encode_fields fs e1 = (e2, Inr fs2)" "stepped cx e1 e2 \<delta>2" "map fst fs2 = map fst fs" "image_of e2 (map snd fs) (map snd fs2)"
      using 12(2) [of e1] by blast
    show "\<exists>e' fs' \<delta>. encode_fields ((n, t) # fs) e = (e', Inr fs') \<and> stepped cx e e' \<delta> \<and> map fst fs' = map fst ((n, t) # fs) \<and>
        image_of e' (map snd ((n, t) # fs)) (map snd fs')"
      by (intro exI [of _ e2] exI [of _ "(n, t1) # fs2"] exI [of _ "\<delta>1 @ \<delta>2"])
        (use e1(1) e2 stepped_trans [OF e1(2) e2(2)] stepped_encoded [OF e2(2) e1(3)] in simp)
  qed
next
  case (14 t ts e)
  show ?case
  proof (intro impI)
    assume a: "enc_inv cx e" "\<forall>t\<in>set (t # ts). known cx t \<and> bsup_ok t"
    then obtain e1 t1 \<delta>1 where e1: "Encode t e = (e1, Inr t1)" "stepped cx e e1 \<delta>1" "e_encoded e1 t = Some t1" using 14(1) by auto
    have "enc_inv cx e1" "\<forall>t\<in>set ts. known cx t \<and> bsup_ok t" using e1(2) a(2) by (simp_all add: stepped_def)
    then obtain e2 ts2 \<delta>2 where e2: "encode_types ts e1 = (e2, Inr ts2)" "stepped cx e1 e2 \<delta>2" "image_of e2 ts ts2"
      using 14(2) [of e1] by blast
    show "\<exists>e' ts' \<delta>. encode_types (t # ts) e = (e', Inr ts') \<and> stepped cx e e' \<delta> \<and> image_of e' (t # ts) ts'"
      by (intro exI [of _ e2] exI [of _ "t1 # ts2"] exI [of _ "\<delta>1 @ \<delta>2"])
        (use e1(1) e2 stepped_trans [OF e1(2) e2(2)] stepped_encoded [OF e2(2) e1(3)] in simp)
  qed
next
  case (2 i fs e)
  show ?case
  proof (intro impI)
    assume a: "enc_inv cx e" "known cx (TypeRecord i fs)" "bsup_ok (TypeRecord i fs)" "e_encoded e (TypeRecord i fs) = None"
    have "known cx (snd f) \<and> bsup_ok (snd f)" if "f \<in> set fs" for f
      using known_parts [OF ctx_invD(1) [OF cx] a(2), of "snd f"] bsup_ok_parts [OF a(3), of "snd f"] that by simp
    then obtain e1 gs \<delta>1 where e1: "encode_fields fs e = (e1, Inr gs)" "stepped cx e e1 \<delta>1" "map fst gs = map fst fs" "image_of e1 (map snd fs) (map snd gs)"
      using 2 a(1) by blast
    show "encodes cx (TypeRecord i fs) e"
      by (rule encodes_record [OF cx a(2,4,3) stepped_small [OF cx small e1(2)] e1])
  qed
next
  case (5 i ts e)
  show ?case
  proof (intro impI)
    assume a: "enc_inv cx e" "known cx (TypeUnion i ts)" "bsup_ok (TypeUnion i ts)" "e_encoded e (TypeUnion i ts) = None"
    have "known cx t \<and> bsup_ok t" if "t \<in> set ts" for t
      using known_parts [OF ctx_invD(1) [OF cx] a(2), of t] bsup_ok_parts [OF a(3), of t] that by simp
    then obtain e1 us \<delta>1 where e1: "encode_types ts e = (e1, Inr us)" "stepped cx e e1 \<delta>1" "image_of e1 ts us"
      using 5 a(1) by blast
    show "encodes cx (TypeUnion i ts) e"
      by (rule encodes_union [OF cx a(2,4,3) stepped_small [OF cx small e1(2)] e1])
  qed
next
  case (6 i k v e)
  show ?case
  proof (intro impI)
    assume a: "enc_inv cx e" "known cx (TypeMap i k v)" "bsup_ok (TypeMap i k v)" "e_encoded e (TypeMap i k v) = None"
    have kv: "known cx k" "known cx v" "bsup_ok k" "bsup_ok v"
      using known_parts [OF ctx_invD(1) [OF cx] a(2)] bsup_ok_parts [OF a(3)] by simp_all
    then obtain e1 k1 \<delta>1 where e1: "Encode k e = (e1, Inr k1)" "stepped cx e e1 \<delta>1" "e_encoded e1 k = Some k1"
      using 6(1) a(1) by blast
    then have "enc_inv cx e1" by (simp add: stepped_def)
    then obtain e2 v2 \<delta>2 where e2: "Encode v e1 = (e2, Inr v2)" "stepped cx e1 e2 \<delta>2" "e_encoded e2 v = Some v2"
      using 6(2) [of e1] kv by blast
    show "encodes cx (TypeMap i k v) e"
      by (rule encodes_map [OF cx a(2,4) stepped_small [OF cx small e2(2)] e1 e2])
  qed
next
  case (8 i n t e)
  show ?case
  proof (intro impI)
    assume a: "enc_inv cx e" "known cx (TypeNamed i n t)" "bsup_ok (TypeNamed i n t)" "e_encoded e (TypeNamed i n t) = None"
    then obtain e1 t1 \<delta>1 where e1: "Encode t e = (e1, Inr t1)" "stepped cx e e1 \<delta>1" "e_encoded e1 t = Some t1"
      using 8 known_parts [OF ctx_invD(1) [OF cx] a(2)] bsup_ok_parts [OF a(3)] by auto
    show "encodes cx (TypeNamed i n t) e"
      by (rule encodes_name [OF cx a(2,4) stepped_small [OF cx small e1(2)] e1])
  qed
next
  case (10 p e)
  then show ?case using encodes_prim by auto
next
  case (11 e) then show ?case using stepped_refl by auto
next
  case (13 e) then show ?case using stepped_refl by auto
qed

subsection \<open>Fresh encoders and decoders\<close>

lemma known_New: "known NewContext t \<longleftrightarrow> (\<exists>p. t = TypePrim p)"
  by (cases t) (auto simp: known_def NewContext_def)

lemma enc_inv_New: "enc_inv cx NewEncoder"
  using ctx_inv_forget [OF ctx_inv_New] by (auto simp: enc_inv_def NewEncoder_def known_New)

lemma enc_inv_Reset:
  assumes "enc_inv cx e"
  shows "enc_inv cx (Encoder_Reset e)"
proof -
  have inv: "ctx_inv (forget (e_sctx e))" using assms by (simp add: enc_inv_def)
  have r: "forget (Context_Reset (e_sctx e)) = Context_Reset (forget (e_sctx e))" by (simp add: forget_def Context_Reset_def)
  have "known (Context_Reset (e_sctx e)) t \<longleftrightarrow> (\<exists>p. t = TypePrim p)" for t
    using known_Reset [OF ctx_invD(1) [OF inv], of t] forget_simps(1) [of "Context_Reset (e_sctx e)" t] r by simp
  then show ?thesis
    using ctx_inv_Reset [OF inv] r by (auto simp: enc_inv_def Encoder_Reset_def forget_def)
qed

lemma enc_inv_Flush [simp]: "enc_inv cx (Encoder_Flush e) \<longleftrightarrow> enc_inv cx e"
  by (simp add: enc_inv_def Encoder_Flush_def)

lemma synced_Flush [simp]: "synced (Encoder_Flush e) d \<longleftrightarrow> synced e d"
  by (simp add: synced_def Encoder_Flush_def)

lemma synced_New: "ctx_inv c \<Longrightarrow> synced NewEncoder (NewDecoder c)"
  by (simp add: synced_def NewEncoder_def NewDecoder_def NewContext_def)

lemma synced_Reset: "enc_inv cx e \<Longrightarrow> ctx_inv c \<Longrightarrow> synced (Encoder_Reset e) (NewDecoder c)"
  by (auto simp: synced_def Encoder_Reset_def NewDecoder_def Context_Reset_def enc_inv_def ctx_inv_def ids_ok_def)

lemma grown_refl: "ctx_inv c \<Longrightarrow> ctx_inv cx \<Longrightarrow> length (byID c) + length (byID cx) \<le> 2 ^ 32 \<Longrightarrow> grown c cx c"
  by (auto simp: grown_def)

subsection \<open>How long definitions are\<close>

fun def_size :: "ztype \<Rightarrow> nat" where
  "def_size (TypePrim p) = 0"
| "def_size (TypeRecord i fs) = 11 + sum_list (map (\<lambda>(n, t). 20 + length n + def_size t) fs)"
| "def_size (TypeSet i t) = 11 + def_size t"
| "def_size (TypeArray i t) = 11 + def_size t"
| "def_size (TypeError i t) = 11 + def_size t"
| "def_size (TypeMap i k v) = 21 + def_size k + def_size v"
| "def_size (TypeUnion i ts) = 11 + sum_list (map (\<lambda>t. 10 + def_size t) ts)"
| "def_size (TypeEnum i ss) = 11 + sum_list (map (\<lambda>s. 10 + length s) ss)"
| "def_size (TypeNamed i n t) = 21 + length n + def_size t"

abbreviation nbytes_out :: "encoder \<Rightarrow> nat" where
  "nbytes_out e \<equiv> length (e_bytes e)"

lemma nbytes_bind:
  "nbytes_out (fst m) \<le> n \<Longrightarrow> (\<And>a. snd m = Inr a \<Longrightarrow> nbytes_out (fst (f a (fst m))) \<le> nbytes_out (fst m) + k) \<Longrightarrow>
   n + k \<le> l \<Longrightarrow> nbytes_out (fst (enc_bind m f)) \<le> l"
  by (cases m; cases "snd m") fastforce+

lemma length_append_name: "length (append_name [] n) \<le> 10 + length n"
  using length_put_uvarint_le by (simp add: append_name_def AppendUvarint_def)

lemma length_fields_bytes: "length (fields_bytes fs) \<le> sum_list (map (\<lambda>f. 20 + length (fst f)) fs)"
proof (induction fs)
  case (Cons f fs)
  then show ?case
    using length_append_name [of "fst f"] length_put_uvarint_le [of "of_nat (TypeID (snd f))"] by (simp add: fields_bytes_def)
qed (simp add: fields_bytes_def)

lemma length_ids_bytes: "length (ids_bytes ts) \<le> 10 * length ts"
proof (induction ts)
  case (Cons t ts)
  then show ?case using length_put_uvarint_le [of "of_nat (TypeID t)"] by (simp add: ids_bytes_def)
qed (simp add: ids_bytes_def)

lemma length_append_symbols: "length (append_symbols [] ss) \<le> sum_list (map (\<lambda>s. 10 + length s) ss)"
proof (induction ss)
  case (Cons s ss)
  then show ?case using length_append_name [of s] by (simp add: append_symbols_Cons)
qed (simp add: append_symbols_def)


lemma encode_shape:
  "encode_fields fs e = (e', Inr fs') \<Longrightarrow> map fst fs' = map fst fs"
  "encode_types ts e = (e2, Inr ts') \<Longrightarrow> length ts' = length ts"
proof -
  have enc_bind_Inr: "enc_bind m f = (e', Inr b) \<Longrightarrow> \<exists>e1 a. m = (e1, Inr a) \<and> f a e1 = (e', Inr b)"
    for m :: "'a enc_res" and f and e' and b :: 'b by (cases "(m, f)" rule: enc_bind.cases) auto
  show "encode_fields fs e = (e', Inr fs') \<Longrightarrow> map fst fs' = map fst fs"
  proof (induction fs arbitrary: e fs')
    case (Cons f fs)
    obtain n t where "f = (n, t)" by force
    with Cons show ?case by (fastforce dest!: enc_bind_Inr)
  qed simp
  show "encode_types ts e = (e2, Inr ts') \<Longrightarrow> length ts' = length ts"
    by (induction ts arbitrary: e ts') (fastforce dest!: enc_bind_Inr)+
qed

lemma length_append_id: "length (append_id b t) \<le> length b + 10"
  using length_put_uvarint_le by (simp add: append_id_eq)

lemma nbytes_emit:
  "nbytes_out (fst (emit_array t e)) \<le> nbytes_out e + 11"
  "nbytes_out (fst (emit_set t e)) \<le> nbytes_out e + 11"
  "nbytes_out (fst (emit_error t e)) \<le> nbytes_out e + 11"
  "nbytes_out (fst (emit_map t u e)) \<le> nbytes_out e + 21"
  "nbytes_out (fst (emit_name n t e)) \<le> nbytes_out e + (21 + length n)"
  "nbytes_out (fst (encodeTypeEnum ss e)) \<le> nbytes_out e + (11 + sum_list (map (\<lambda>s. 10 + length s) ss))"
  "nbytes_out (fst (emit_record fs e)) \<le> nbytes_out e + (11 + sum_list (map (\<lambda>n. 20 + length n) (map fst fs)))"
  "nbytes_out (fst (emit_union ts e)) \<le> nbytes_out e + (11 + 10 * length ts)"
proof -
  note l = length_put_uvarint_le
  show "nbytes_out (fst (emit_array t e)) \<le> nbytes_out e + 11" "nbytes_out (fst (emit_set t e)) \<le> nbytes_out e + 11"
    "nbytes_out (fst (emit_error t e)) \<le> nbytes_out e + 11"
    using length_append_id [of "e_bytes e @ [_]" t]
    by (auto simp: emit_array_def emit_set_def emit_error_def add.commute split: prod.splits)
  show "nbytes_out (fst (emit_map t u e)) \<le> nbytes_out e + 21"
    using length_append_id [of "e_bytes e @ [TypeDefMap]" t] length_append_id [of "append_id (e_bytes e @ [TypeDefMap]) t" u]
    by (auto simp: emit_map_def split: prod.splits)
  show "nbytes_out (fst (emit_name n t e)) \<le> nbytes_out e + (21 + length n)"
    using length_append_id [of "append_name (e_bytes e @ [TypeDefName]) n" t] length_append_name [of n] append_name_prefix [of "e_bytes e @ [TypeDefName]" n]
    by (auto simp: emit_name_def split: prod.splits sum.splits)
  show "nbytes_out (fst (encodeTypeEnum ss e)) \<le> nbytes_out e + (11 + sum_list (map (\<lambda>s. 10 + length s) ss))"
    using l [of "of_nat (length ss)"] length_append_symbols [of ss] append_symbols_prefix [of "e_bytes e @ TypeDefEnum # put_uvarint (of_nat (length ss))" ss]
    by (auto simp: encodeTypeEnum_def AppendUvarint_def split: prod.splits)
  show "nbytes_out (fst (emit_record fs e)) \<le> nbytes_out e + (11 + sum_list (map (\<lambda>n. 20 + length n) (map fst fs)))"
    using l [of "of_nat (length fs)"] length_fields_bytes [of fs]
    by (auto simp: emit_record_def AppendUvarint_def foldl_append_field comp_def split: prod.splits sum.splits)
  show "nbytes_out (fst (emit_union ts e)) \<le> nbytes_out e + (11 + 10 * length ts)"
    using l [of "of_nat (length ts)"] length_ids_bytes [of "sort_stable (\<lambda>a b. CompareTypes a b < 0) ts"]
    by (auto simp: emit_union_def AppendUvarint_def foldl_append_id Let_def split: prod.splits)
qed

lemma encode_bytes:
  "nbytes_out (fst (Encode t e)) \<le> nbytes_out e + def_size t"
  "nbytes_out (fst (encode t e)) \<le> nbytes_out e + def_size t"
  "nbytes_out (fst (encode_fields fs e)) \<le> nbytes_out e + sum_list (map (\<lambda>f. def_size (snd f)) fs)"
  "nbytes_out (fst (encode_types ts e)) \<le> nbytes_out e + sum_list (map def_size ts)"
proof (induction t e and t e and fs e and ts e rule: Encode_encode_encode_fields_encode_types.induct)
  case (1 t e)
  then show ?case by (auto simp: Encode.simps split: option.splits intro!: nbytes_bind [where k = 0])
next
  case (2 i fs e)
  have "def_size (TypeRecord i fs) = sum_list (map (\<lambda>f. def_size (snd f)) fs) + (11 + sum_list (map (\<lambda>n. 20 + length n) (map fst fs)))"
    by (simp add: case_prod_unfold sum_list_addf comp_def)
  moreover have "nbytes_out (fst (emit_record a (fst (encode_fields fs e)))) \<le>
      nbytes_out (fst (encode_fields fs e)) + (11 + sum_list (map (\<lambda>n. 20 + length n) (map fst fs)))"
    if "snd (encode_fields fs e) = Inr a" for a
    using nbytes_emit(7) [of a "fst (encode_fields fs e)"] encode_shape(1) [of fs e "fst (encode_fields fs e)" a] that
    by (simp add: prod_eq_iff)
  ultimately show ?case unfolding encode.simps by (intro nbytes_bind [OF 2]) auto
next
  case (3 i t e)
  show ?case unfolding encode.simps by (rule nbytes_bind, rule 3, rule nbytes_emit) simp
next
  case (4 i t e)
  show ?case unfolding encode.simps by (rule nbytes_bind, rule 4, rule nbytes_emit) simp
next
  case (5 i ts e)
  have "def_size (TypeUnion i ts) = sum_list (map def_size ts) + (11 + 10 * length ts)"
    by (simp add: sum_list_addf sum_list_triv)
  moreover have "nbytes_out (fst (emit_union a (fst (encode_types ts e)))) \<le> nbytes_out (fst (encode_types ts e)) + (11 + 10 * length ts)"
    if "snd (encode_types ts e) = Inr a" for a
    using nbytes_emit(8) [of a "fst (encode_types ts e)"] encode_shape(2) [of ts e "fst (encode_types ts e)" a] that
    by (simp add: prod_eq_iff)
  ultimately show ?case unfolding encode.simps by (intro nbytes_bind [OF 5]) auto
next
  case (6 i k v e)
  show ?case
    unfolding encode.simps by (rule nbytes_bind [where k = "def_size v + 21"], rule 6(1), rule nbytes_bind, rule 6(2), rule nbytes_emit) simp_all
next
  case (8 i n t e)
  show ?case unfolding encode.simps by (rule nbytes_bind, rule 8, rule nbytes_emit) simp
next
  case (9 i t e)
  show ?case unfolding encode.simps by (rule nbytes_bind, rule 9, rule nbytes_emit) simp
next
  case (12 n t fs e)
  show ?case
    unfolding encode_fields.simps by (rule nbytes_bind [where k = "sum_list (map (\<lambda>f. def_size (snd f)) fs)"], rule 12(1), rule nbytes_bind [where k = 0], rule 12(2)) simp_all
next
  case (14 t ts e)
  show ?case
    unfolding encode_types.simps by (rule nbytes_bind [where k = "sum_list (map def_size ts)"], rule 14(1), rule nbytes_bind [where k = 0], rule 14(2)) simp_all
qed (use nbytes_emit(6) in auto)

subsection \<open>Properties\<close>

text \<open>
  The types of a context go through the type definitions of the BSUP format unchanged. Encoding them
  with a new encoder succeeds, decoding the bytes it emits into any context of the reader succeeds, and
  then every local identifier of the encoder is resolved by the decoder to a type of the reader's context
  that is structurally the type it was given for. The bytes are at most the sum of the definitions' sizes.
  The types are those the format can carry, and all of both contexts together fit into 32-bit identifiers.
\<close>

theorem typedefs_roundtrip:
  assumes "ctx_inv cx" "ctx_inv c" "length (byID c) + length (byID cx) \<le> 2 ^ 32" "\<forall>t\<in>set ts. known cx t \<and> bsup_ok t"
  shows "\<exists>e us d. encode_types ts NewEncoder = (e, Inr us) \<and> decode (NewDecoder c) (e_bytes e) = (d, None) \<and> extends c (d_sctx d) \<and>
    list_all2 (\<lambda>t u. \<exists>t'. Decoder_LookupType d (int (TypeID u)) = Inr t' \<and> known (d_sctx d) t' \<and> erase t' = erase t) ts us \<and>
    length (e_bytes e) \<le> sum_list (map def_size ts)"
proof -
  have small: "ctx_small cx" using assms(3) by (simp add: ctx_small_def)
  obtain e us \<delta> where e: "encode_types ts NewEncoder = (e, Inr us)" "stepped cx NewEncoder e \<delta>" "image_of e ts us"
    using encode_steps(4) [OF assms(1) small, of NewEncoder ts] enc_inv_New assms(4) by blast
  have inv: "enc_inv cx e" and \<delta>: "\<delta> = e_bytes e" using e(2) by (auto simp: stepped_def NewEncoder_def)
  have "synced NewEncoder (NewDecoder c)" "grown c cx (d_sctx (NewDecoder c))"
    using synced_New [OF assms(2)] grown_refl [OF assms(2,1,3)] by (simp_all add: NewDecoder_def)
  then obtain d where d: "decode (NewDecoder c) (\<delta> @ []) = decode d []" "synced e d" "extends (d_sctx (NewDecoder c)) (d_sctx d)"
    using e(2) unfolding stepped_def by meson
  have "\<exists>t'. Decoder_LookupType d (int (TypeID u)) = Inr t' \<and> known (d_sctx d) t' \<and> erase t' = erase t" if "e_encoded e t = Some u" for t u
    using lookup_synced [OF _ d(2), of u] enc_inv_encoded [OF inv that] inv by (auto simp: enc_inv_def)
  then have "list_all2 (\<lambda>t u. \<exists>t'. Decoder_LookupType d (int (TypeID u)) = Inr t' \<and> known (d_sctx d) t' \<and> erase t' = erase t) ts us"
    using e(3) unfolding image_of_def by (rule list_all2_mono [rotated]) auto
  then show ?thesis
    using e(1) d(1,3) \<delta> encode_bytes(4) [of ts NewEncoder] by (auto simp: NewDecoder_def NewEncoder_def)
qed

theorem typedefs_roundtrip_witness:
  "let cx = fst (LookupTypeArray NewContext (TypePrim TypeInt64)); t = TypeArray IDTypeComplex (TypePrim TypeInt64) in
   known cx t \<and> (\<exists>e us d. encode_types [t] NewEncoder = (e, Inr us) \<and> decode (NewDecoder NewContext) (e_bytes e) = (d, None) \<and> us \<noteq> [])"
proof -
  define cx where "cx = fst (LookupTypeArray NewContext (TypePrim TypeInt64))"
  let ?t = "TypeArray IDTypeComplex (TypePrim TypeInt64)"
  have cx: "LookupTypeArray NewContext (TypePrim TypeInt64) = (cx, ?t)"
    by (simp add: cx_def LookupTypeArray_def NewContext_def nextID_def Let_def)
  then have ok: "ctx_inv cx" "known cx ?t" using LookupTypeArray_ok [OF ctx_inv_New _ cx] by (simp_all add: known_New lookup_ok_def)
  have l: "length (byID NewContext) + length (byID cx) \<le> 2 ^ 32"
    by (simp add: cx_def LookupTypeArray_def NewContext_def nextID_def enter_def IDTypeComplex_def Let_def)
  have "\<forall>t\<in>set [?t]. known cx t \<and> bsup_ok t" using ok(2) bsup_ok.simps [of ?t] bsup_ok.simps [of "TypePrim TypeInt64"] by simp
  from typedefs_roundtrip [OF ok(1) ctx_inv_New l this] obtain e us d where
    "encode_types [?t] NewEncoder = (e, Inr us)" "decode (NewDecoder NewContext) (e_bytes e) = (d, None)"
    "list_all2 (\<lambda>t u. \<exists>t'. Decoder_LookupType d (int (TypeID u)) = Inr t' \<and> known (d_sctx d) t' \<and> erase t' = erase t) [?t] us" by blast
  moreover from this(3) have "us \<noteq> []" by (cases us) simp_all
  ultimately show ?thesis unfolding Let_def cx_def [symmetric] using ok(2) by blast
qed

end
