(* ===== verification/Bsup_Inv.thy ===== *)
theory Bsup_Inv
  imports Bsup_Writer Bsup_Reader Bsup_Types_Inv
begin

text \<open>
  Reading a BSUP stream back: what a writer was given, a scanner gives again, in order, whatever the
  thresholds, the compression and the sizes of the reads below the reader.
\<close>

subsection \<open>Frame headers\<close>

lemma less_16_cases: "n < 16 \<Longrightarrow> n = 0 \<or> n = 1 \<or> n = 2 \<or> n = 3 \<or> n = 4 \<or> n = 5 \<or> n = 6 \<or> n = 7 \<or> n = 8 \<or> n = 9 \<or>
    n = 10 \<or> n = 11 \<or> n = 12 \<or> n = 13 \<or> n = 14 \<or> n = (15::nat)"
  by arith

lemma low4: "(of_nat n AND 0xf :: u8) = of_nat (n mod 16)"
proof -
  have "(of_nat n AND 0xf :: u8) = take_bit 4 (of_nat n)" by (simp add: take_bit_eq_mask mask_eq_exp_minus_1)
  also have "\<dots> = of_nat (n mod 16)" unfolding take_bit_of_nat by (simp add: take_bit_nat_def)
  finally show ?thesis .
qed

definition frame_code :: "nat \<Rightarrow> nat \<Rightarrow> u8 \<Rightarrow> u8" where
  "frame_code ft n z = of_nat (ft * 16) OR (of_nat n AND 0xf) OR z"

lemma frame_code_bits:
  assumes "ft < 3" "z = 0 \<or> z = 0x40"
  shows "frame_code ft n z \<noteq> 0xff" "frame_code ft n z AND 0x80 = 0" "(frame_code ft n z AND 0x40 \<noteq> 0) = (z = 0x40)"
    "drop_bit 4 (frame_code ft n z) AND 3 = of_nat ft" "frame_code ft n z AND 0xf = of_nat (n mod 16)"
proof -
  have ft: "ft = 0 \<or> ft = 1 \<or> ft = 2" using assms(1) by arith
  have c: "frame_code ft n z = of_nat (ft * 16) OR of_nat (n mod 16) OR z" by (simp add: frame_code_def low4)
  have "n mod 16 < 16" by simp
  note less_16_cases [OF this]
  with ft assms(2) show "frame_code ft n z \<noteq> 0xff" "frame_code ft n z AND 0x80 = 0" "(frame_code ft n z AND 0x40 \<noteq> 0) = (z = 0x40)"
    "drop_bit 4 (frame_code ft n z) AND 3 = of_nat ft" "frame_code ft n z AND 0xf = of_nat (n mod 16)"
    unfolding c by (elim disjE; simp add: drop_bit_eq_div)+
qed


lemma length_of_code:
  assumes "n < 2 ^ 63" "code AND 0xf = (of_nat (n mod 16) :: u8)"
  shows "sint (push_bit 4 (of_nat (n div 16)) OR (ucast code AND 0xf) :: u64) = int n"
proof -
  have "(ucast code AND 0xf :: u64) = ucast (code AND 0xf)" by (rule bit_word_eqI) (auto simp: bit_simps dest: bit_imp_le_length)
  also have "\<dots> = of_nat (n mod 16)"
    unfolding assms(2) by (simp add: unsigned_of_nat take_bit_nat_eq_self)
  finally have low: "(ucast code AND 0xf :: u64) = of_nat (n mod 16)" .
  have "push_bit 4 (of_nat (n div 16)) AND (of_nat (n mod 16) :: u64) = 0"
  proof -
    have "n mod 16 = take_bit 4 n" by (simp add: take_bit_nat_def)
    then show ?thesis by (intro bit_eqI) (auto simp: bit_simps)
  qed
  then have "push_bit 4 (of_nat (n div 16)) OR (of_nat (n mod 16) :: u64) = push_bit 4 (of_nat (n div 16)) + of_nat (n mod 16)"
    by (rule disjunctive_add_eq_or [symmetric])
  also have "\<dots> = of_nat (n div 16 * 16 + n mod 16)" unfolding push_bit_eq_mult of_nat_add of_nat_mult by simp
  finally have "push_bit 4 (of_nat (n div 16)) OR (of_nat (n mod 16) :: u64) = of_nat (n div 16 * 16 + n mod 16)" .
  then show ?thesis using low assms(1) by (simp add: sint_small)
qed


subsection \<open>Reading a block\<close>

text \<open>
  What is relied on of LZ4: compressing never fails, gives some bytes but not more than it was given, and
  decompressing them with the size of the original gives it back.
\<close>

definition lz_ok :: "'c compressor \<Rightarrow> 'd decompressor \<Rightarrow> bool" where
  "lz_ok lz unc \<longleftrightarrow> (\<forall>b x. lz b \<noteq> Inl x) \<and> (\<forall>b z. lz b = Inr (Some z) \<longrightarrow> z \<noteq> [] \<and> length z \<le> length b \<and> unc z (length b) = Inr b)"

definition reading :: "int \<Rightarrow> parser \<Rightarrow> bytes \<Rightarrow> bool" where
  "reading mx p bs \<longleftrightarrow> peeks (p_peeker p) bs \<and> pk_limit (p_peeker p) = mx \<and> p_maxSize p = mx \<and> 1 \<le> mx \<and> mx < 2 ^ 62"

lemma reading_types [simp]: "reading mx (p\<lparr>p_types := d\<rparr>) bs = reading mx p bs"
  by (simp add: reading_def)

lemma p_ReadByte_ok: "reading mx p (b # bs) \<Longrightarrow> \<exists>r. p_ReadByte p = (p\<lparr>p_peeker := r\<rparr>, Inr b) \<and> reading mx (p\<lparr>p_peeker := r\<rparr>) bs"
  using peeker_ReadByte_ok [of "p_peeker p" "b # bs"] by (fastforce simp: reading_def p_ReadByte_def)

lemma p_ReadByte_end: "reading mx p [] \<Longrightarrow> \<exists>r. p_ReadByte p = (p\<lparr>p_peeker := r\<rparr>, Inl (PeekErr PeekEOF))"
  using peeker_ReadByte_ok [of "p_peeker p" "[]"] by (fastforce simp: reading_def p_ReadByte_def)

lemma ReadUvarint_put: "ReadUvarint (put_uvarint u @ rest) = Inr (u, rest)"
  using ReadUvarint_eq [OF Uvarint_put [of u rest]] put_uvarint_nonempty [of u] by simp

lemma p_readUvarint_ok:
  "reading mx p (put_uvarint u @ bs) \<Longrightarrow> \<exists>r. p_readUvarint p = (p\<lparr>p_peeker := r\<rparr>, Inr u) \<and> reading mx (p\<lparr>p_peeker := r\<rparr>) bs"
  using peek_ReadUvarint_ok [OF ReadUvarint_put, of "p_peeker p" u bs] by (fastforce simp: reading_def p_readUvarint_def)

lemma decodeLength_ok:
  assumes "reading mx p (put_uvarint (of_nat (n div 16)) @ bs)" "n < 2 ^ 63" "code AND 0xf = (of_nat (n mod 16) :: u8)"
  shows "\<exists>r. decodeLength code p = (p\<lparr>p_peeker := r\<rparr>, Inr (int n)) \<and> reading mx (p\<lparr>p_peeker := r\<rparr>) bs"
  using p_readUvarint_ok [OF assms(1)] length_of_code [OF assms(2,3)] by (auto simp: decodeLength_def)

lemma peeker_Read_reading:
  assumes "reading mx p (b @ bs)" "int (length b) \<le> mx" "b \<noteq> []"
  shows "\<exists>r. peeker_Read (int (length b)) (p_peeker p) = (r, Inr b) \<and> reading mx (p\<lparr>p_peeker := r\<rparr>) bs"
  using peeker_Read_ok [of "p_peeker p" "b @ bs" "int (length b)"] assms by (auto simp: reading_def)

definition block_bytes :: "'c compressor \<Rightarrow> bool \<Rightarrow> nat \<Rightarrow> bytes \<Rightarrow> bytes" where
  "block_bytes lz compress ft b = (if b = [] then []
     else case (if compress then lz b else Inr None) of
         Inr (Some z) \<Rightarrow> comp_header_bytes ft (length b) (length z) @ z
       | _ \<Rightarrow> header_bytes ft (length b) @ b)"

lemma header_bytes_eq: "header_bytes ft n = frame_code ft n 0 # put_uvarint (of_nat (n div 16))"
  by (simp add: header_bytes_def frame_code_def AppendUvarint_def)

lemma comp_header_bytes_eq:
  "comp_header_bytes ft n zlen = (let m = zlen + 1 + length (put_uvarint (of_nat n)) in
     frame_code ft m 0x40 # put_uvarint (of_nat (m div 16)) @ [0] @ put_uvarint (of_nat n))"
  by (simp add: comp_header_bytes_def frame_code_def AppendUvarint_def SizeOfUvarint_length CompressionFormatLZ4_def Let_def or.assoc)

text \<open>A block is a code and a frame that the parser reads and decompresses to the bytes.\<close>

lemma raw_block:
  assumes "ft < 3" "b \<noteq> []" "int (length b) \<le> mx" "reading mx p (put_uvarint (of_nat (length b div 16)) @ b @ rest)"
  shows "\<exists>r. read_frame (frame_code ft (length b) 0) p = (p\<lparr>p_peeker := r\<rparr>, Inr (RawFrame b)) \<and> reading mx (p\<lparr>p_peeker := r\<rparr>) rest"
proof -
  have l: "length b < 2 ^ 63" "p_maxSize p = mx" using assms(3,4) by (auto simp: reading_def)
  note c = frame_code_bits [OF assms(1), where z = 0 and n = "length b"]
  obtain r where r: "decodeLength (frame_code ft (length b) 0) p = (p\<lparr>p_peeker := r\<rparr>, Inr (int (length b)))" "reading mx (p\<lparr>p_peeker := r\<rparr>) (b @ rest)"
    using decodeLength_ok [OF assms(4) l(1)] c(5) by blast
  obtain r' where "peeker_Read (int (length b)) r = (r', Inr b)" "reading mx (p\<lparr>p_peeker := r'\<rparr>) rest"
    using peeker_Read_reading [OF r(2) assms(3,2)] by auto
  then show ?thesis using r(1) c(3) assms(3) l(2) by (auto simp: read_frame_def readFrame_def)
qed

lemma comp_block:
  assumes "ft < 3" "lz_ok lz unc" "lz b = Inr (Some z)" "int (length b) \<le> mx"
    and m: "m = length z + 1 + length (put_uvarint (of_nat (length b)))"
    and p: "reading mx p (put_uvarint (of_nat (m div 16)) @ [0] @ put_uvarint (of_nat (length b)) @ z @ rest)"
  shows "\<exists>r. read_frame (frame_code ft m 0x40) p = (p\<lparr>p_peeker := r\<rparr>, Inr (CompFrame 0 z (length b))) \<and> reading mx (p\<lparr>p_peeker := r\<rparr>) rest"
proof -
  have z: "z \<noteq> []" "length z \<le> length b" using assms(2,3) by (auto simp: lz_ok_def)
  have mx: "mx < 2 ^ 62" "p_maxSize p = mx" using p by (auto simp: reading_def)
  have "m < 2 ^ 63" using m z(2) assms(4) mx(1) length_put_uvarint_le [of "of_nat (length b)"] by simp
  moreover have "length b < 2 ^ 63" using assms(4) mx(1) by simp
  ultimately have l: "m < 2 ^ 63" "sint (of_nat (length b) :: u64) = int (length b)"
    "sint (word_of_int (int m) - word_of_int (1 + int (SizeOfUvarint (of_nat (length b)))) :: u64) = int (length z)"
    using sint_small [of "length b"] sint_small [of "length z"] z(2) m by (simp_all add: SizeOfUvarint_length)
  note c = frame_code_bits [OF assms(1), where z = "0x40" and n = m]
  obtain r1 where r1: "decodeLength (frame_code ft m 0x40) p = (p\<lparr>p_peeker := r1\<rparr>, Inr (int m))"
    "reading mx (p\<lparr>p_peeker := r1\<rparr>) (0 # put_uvarint (of_nat (length b)) @ z @ rest)"
    using decodeLength_ok [OF p l(1)] c(5) by auto
  obtain r2 where r2: "p_ReadByte (p\<lparr>p_peeker := r1\<rparr>) = (p\<lparr>p_peeker := r2\<rparr>, Inr 0)" "reading mx (p\<lparr>p_peeker := r2\<rparr>) (put_uvarint (of_nat (length b)) @ z @ rest)"
    using p_ReadByte_ok [OF r1(2)] by auto
  obtain r3 where r3: "p_readUvarint (p\<lparr>p_peeker := r2\<rparr>) = (p\<lparr>p_peeker := r3\<rparr>, Inr (of_nat (length b)))" "reading mx (p\<lparr>p_peeker := r3\<rparr>) (z @ rest)"
    using p_readUvarint_ok [OF r2(2)] by auto
  obtain r4 where r4: "peeker_Read (int (length z)) r3 = (r4, Inr z)" "reading mx (p\<lparr>p_peeker := r4\<rparr>) rest"
    using peeker_Read_reading [OF r3(2) _ z(1)] z(2) assms(4) by auto
  show ?thesis
    using r1(1) r2(1) r3(1) r4 l(2,3) c(3) assms(4) mx(2) by (auto simp: read_frame_def readCompressedFrame_def Let_def)
qed

lemma block_read:
  assumes "ft < 3" "lz_ok lz unc" "b \<noteq> []" "int (length b) \<le> mx" "reading mx p (block_bytes lz compress ft b @ rest)"
  shows "\<exists>code r f r'. p_ReadByte p = (p\<lparr>p_peeker := r\<rparr>, Inr code) \<and> code \<noteq> 0xff \<and> code AND 0x80 = 0 \<and> drop_bit 4 code AND 3 = of_nat ft \<and>
     read_frame code (p\<lparr>p_peeker := r\<rparr>) = (p\<lparr>p_peeker := r'\<rparr>, Inr f) \<and> reading mx (p\<lparr>p_peeker := r'\<rparr>) rest \<and> frame_decompress unc f = Inr b"
proof (cases "compress \<and> (\<exists>z. lz b = Inr (Some z))")
  case True
  then obtain z where z: "lz b = Inr (Some z)" by blast
  define m where "m = length z + 1 + length (put_uvarint (of_nat (length b)))"
  have "block_bytes lz compress ft b @ rest = frame_code ft m 0x40 # put_uvarint (of_nat (m div 16)) @ [0] @ put_uvarint (of_nat (length b)) @ z @ rest"
    using True z assms(3) by (simp add: block_bytes_def comp_header_bytes_eq m_def)
  then obtain r where r: "p_ReadByte p = (p\<lparr>p_peeker := r\<rparr>, Inr (frame_code ft m 0x40))"
    "reading mx (p\<lparr>p_peeker := r\<rparr>) (put_uvarint (of_nat (m div 16)) @ [0] @ put_uvarint (of_nat (length b)) @ z @ rest)"
    using p_ReadByte_ok assms(5) by metis
  have "unc z (length b) = Inr b" using assms(2) z by (auto simp: lz_ok_def)
  then have "frame_decompress unc (CompFrame 0 z (length b)) = Inr b" by (simp add: frame_decompress_def)
  moreover obtain r' where "read_frame (frame_code ft m 0x40) (p\<lparr>p_peeker := r\<rparr>) = (p\<lparr>p_peeker := r'\<rparr>, Inr (CompFrame 0 z (length b)))"
      "reading mx (p\<lparr>p_peeker := r'\<rparr>) rest"
    using comp_block [OF assms(1,2) z assms(4) m_def r(2)] by auto
  ultimately show ?thesis using r(1) frame_code_bits [OF assms(1), where z = "0x40" and n = m] by fast
next
  case False
  then have "block_bytes lz compress ft b @ rest = frame_code ft (length b) 0 # put_uvarint (of_nat (length b div 16)) @ b @ rest"
    using assms(2,3) by (auto simp: block_bytes_def header_bytes_eq lz_ok_def split: sum.splits option.splits)
  then obtain r where r: "p_ReadByte p = (p\<lparr>p_peeker := r\<rparr>, Inr (frame_code ft (length b) 0))"
    "reading mx (p\<lparr>p_peeker := r\<rparr>) (put_uvarint (of_nat (length b div 16)) @ b @ rest)"
    using p_ReadByte_ok assms(5) by metis
  have "frame_decompress unc (RawFrame b) = Inr b" by (simp add: frame_decompress_def)
  moreover obtain r' where "read_frame (frame_code ft (length b) 0) (p\<lparr>p_peeker := r\<rparr>) = (p\<lparr>p_peeker := r'\<rparr>, Inr (RawFrame b))"
      "reading mx (p\<lparr>p_peeker := r'\<rparr>) rest"
    using raw_block [OF assms(1,3,4) r(2)] by auto
  ultimately show ?thesis using r(1) frame_code_bits [OF assms(1), where z = 0 and n = "length b"] by fast
qed


subsection \<open>The parser on what the writer wrote\<close>

lemma parser_read_end: "reading mx p [] \<Longrightarrow> \<exists>r. parser_read unc p = Some (p\<lparr>p_peeker := r\<rparr>, Inl (PeekErr PeekEOF))"
  using p_ReadByte_end by (fastforce simp: parser_read.simps [of unc p])

lemma parser_read_EOS:
  "reading mx p (EOS # bs) \<Longrightarrow> \<exists>r. parser_read unc p = parser_read unc (p\<lparr>p_peeker := r, p_types := NewDecoder (d_sctx (p_types p))\<rparr>) \<and>
     reading mx (p\<lparr>p_peeker := r\<rparr>) bs"
  using p_ReadByte_ok [of mx p EOS bs] by (fastforce simp: parser_read.simps [of unc p] EOS_def)

lemma parser_read_types:
  assumes "lz_ok lz unc" "b \<noteq> []" "int (length b) \<le> mx" "reading mx p (block_bytes lz compress TypesFrame b @ rest)"
    and "decode (p_types p) b = (d, None)"
  shows "\<exists>r. parser_read unc p = parser_read unc (p\<lparr>p_peeker := r, p_types := d\<rparr>) \<and> reading mx (p\<lparr>p_peeker := r\<rparr>) rest"
proof -
  have "TypesFrame < 3" by (simp add: TypesFrame_def)
  from block_read [OF this assms(1-4)] obtain code r f r' where
    "p_ReadByte p = (p\<lparr>p_peeker := r\<rparr>, Inr code)" "code \<noteq> 0xff" "code AND 0x80 = 0" "drop_bit 4 code AND 3 = 0"
    "read_frame code (p\<lparr>p_peeker := r\<rparr>) = (p\<lparr>p_peeker := r'\<rparr>, Inr f)" "reading mx (p\<lparr>p_peeker := r'\<rparr>) rest" "frame_decompress unc f = Inr b"
    by (auto simp: TypesFrame_def)
  then show ?thesis using assms(5) by (auto simp: parser_read.simps [of unc p] decodeTypes_def Let_def)
qed

lemma parser_read_values:
  assumes "lz_ok lz unc" "b \<noteq> []" "int (length b) \<le> mx" "reading mx p (block_bytes lz compress ValuesFrame b @ rest)"
  shows "\<exists>r f. parser_read unc p = Some (p\<lparr>p_peeker := r\<rparr>, Inr f) \<and> frame_decompress unc f = Inr b \<and> reading mx (p\<lparr>p_peeker := r\<rparr>) rest"
proof -
  have "ValuesFrame < 3" by (simp add: ValuesFrame_def)
  from block_read [OF this assms] obtain code r f r' where
    "p_ReadByte p = (p\<lparr>p_peeker := r\<rparr>, Inr code)" "code \<noteq> 0xff" "code AND 0x80 = 0" "drop_bit 4 code AND 3 = 1"
    "read_frame code (p\<lparr>p_peeker := r\<rparr>) = (p\<lparr>p_peeker := r'\<rparr>, Inr f)" "reading mx (p\<lparr>p_peeker := r'\<rparr>) rest" "frame_decompress unc f = Inr b"
    by (auto simp: ValuesFrame_def)
  then show ?thesis by (auto simp: parser_read.simps [of unc p] decodeValues_def Let_def)
qed

lemma parser_read_control:
  assumes "lz_ok lz unc" "int (length (fmt # b)) \<le> mx" "reading mx p (block_bytes lz compress ControlFrame (fmt # b) @ rest)"
  shows "\<exists>r. parser_read unc p = Some (p\<lparr>p_peeker := r\<rparr>, Inl (Control fmt b)) \<and> reading mx (p\<lparr>p_peeker := r\<rparr>) rest"
proof -
  have "ControlFrame < 3" by (simp add: ControlFrame_def)
  from block_read [OF this assms(1) _ assms(2,3)] obtain code r f r' where
    "p_ReadByte p = (p\<lparr>p_peeker := r\<rparr>, Inr code)" "code \<noteq> 0xff" "code AND 0x80 = 0" "drop_bit 4 code AND 3 = 2"
    "read_frame code (p\<lparr>p_peeker := r\<rparr>) = (p\<lparr>p_peeker := r'\<rparr>, Inr f)" "reading mx (p\<lparr>p_peeker := r'\<rparr>) rest" "frame_decompress unc f = Inr (fmt # b)"
    by (auto simp: ControlFrame_def)
  then show ?thesis by (auto simp: parser_read.simps [of unc p] decodeControl_def Let_def)
qed

subsection \<open>The values of a frame\<close>

definition val_bytes :: "encoder \<Rightarrow> bval \<Rightarrow> bytes" where
  "val_bytes e v = put_uvarint (of_nat (TypeID (the (e_encoded e (fst v))))) @ Append [] (snd v)"

definition vals_bytes :: "encoder \<Rightarrow> bval list \<Rightarrow> bytes" where
  "vals_bytes e vs = concat (map (val_bytes e) vs)"

definition erased :: "bval list \<Rightarrow> bval list" where
  "erased vs = map (map_prod erase id) vs"

definition cache_sound :: "decoder \<Rightarrow> ztype option list \<Rightarrow> bool" where
  "cache_sound d cache \<longleftrightarrow> (\<forall>i t. i < length cache \<longrightarrow> cache ! i = Some t \<longrightarrow> Decoder_LookupType d (int i) = Inr t)"

lemma TypeCache_ok:
  assumes "cache_sound d cache" "Decoder_LookupType d (int i) = Inr t"
  shows "\<exists>cache'. TypeCache_LookupType (Decoder_LookupType d) cache (int i) = (cache', Inr t) \<and> cache_sound d cache'"
proof (cases "i < length cache \<and> cache ! i \<noteq> None")
  case True
  then show ?thesis using assms by (auto simp: TypeCache_LookupType_def cache_sound_def)
next
  case False
  let ?c = "if int i \<ge> int (length cache) then cache @ replicate (nat (int i) + 1 - length cache) None else cache"
  have "cache_sound d (?c[i := Some t])"
    unfolding cache_sound_def
  proof (intro allI impI)
    fix j u assume j: "j < length (?c[i := Some t])" "?c[i := Some t] ! j = Some u"
    show "Decoder_LookupType d (int j) = Inr u"
    proof (cases "j = i")
      case False
      then have "j < length cache" "cache ! j = Some u" using j by (auto simp: nth_append split: if_splits)
      then show ?thesis using assms(1) by (auto simp: cache_sound_def)
    qed (use j assms(2) in auto)
  qed
  then show ?thesis using False assms(2) by (auto simp: TypeCache_LookupType_def Let_def)
qed

lemma ReadTag_Append:
  assumes "case b of None \<Rightarrow> True | Some x \<Rightarrow> length x < 2 ^ 62"
  shows "ReadTag (Append [] b @ rest) = (case b of None \<Rightarrow> Inr (- 1, rest) | Some x \<Rightarrow> Inr (of_nat (length x), x @ rest))"
proof (cases b)
  case (Some x)
  then have "toTag (length x) \<noteq> 0" using assms by (intro toTag_nonzero) simp
  then show ?thesis
    using Some ReadUvarint_put [of "toTag (length x)" "x @ rest"] by (simp add: ReadTag_def Append_Nil tagIsNull_def tagNull_def tagLength_def toTag_def)
qed (simp add: ReadTag_def Append_Nil ReadUvarint_put tagIsNull_def tagNull_def)

abbreviation small_val :: "bval \<Rightarrow> bool" where
  "small_val v \<equiv> (case snd v of None \<Rightarrow> True | Some x \<Rightarrow> length x < 2 ^ 62)"

lemma decodeVal_ok:
  assumes e: "enc_inv cx e" "ctx_small (e_sctx e)" "synced e d" and v: "e_encoded e (fst v) \<noteq> None" "small_val v"
    and "cache_sound d cache"
  shows "\<exists>cache' t. decodeVal fo False d cache (val_bytes e v @ rest) = (cache', Inr ((t, snd v), rest)) \<and> cache_sound d cache' \<and> erase t = erase (fst v)"
proof -
  obtain u where u: "e_encoded e (fst v) = Some u" using v(1) by blast
  note k = enc_inv_encoded [OF e(1) u]
  have inv: "ctx_inv (forget (e_sctx e))" using e(1) by (simp add: enc_inv_def)
  obtain t where t: "Decoder_LookupType d (int (TypeID u)) = Inr t" "erase t = erase u" using lookup_synced [OF inv e(3)] k by blast
  obtain cache' where c: "TypeCache_LookupType (Decoder_LookupType d) cache (int (TypeID u)) = (cache', Inr t)" "cache_sound d cache'"
    using TypeCache_ok [OF assms(6) t(1)] by blast
  have id: "readUvarintAsInt (val_bytes e v @ rest) = Inr (int (TypeID u), Append [] (snd v) @ rest)"
    using readUvarintAsInt_put [OF TypeID_bound [OF inv e(2)], of u] k u by (simp add: val_bytes_def)
  show ?thesis
  proof (cases "snd v")
    case None
    then show ?thesis using id ReadTag_Append [of "snd v" rest] c t k by (auto simp: decodeVal_def)
  next
    case (Some x)
    then have "sint (of_nat (length x) :: u64) = int (length x)" using v(2) by (intro sint_small) simp
    then show ?thesis
      using id ReadTag_Append [of "snd v" rest] v(2) Some c t k
      by (cases "x = []") (auto simp: decodeVal_def buffer_read_def Let_def)
  qed
qed

lemma scan_values_ok:
  assumes "so_filter so = None" "\<not> so_validate so" and e: "enc_inv cx e" "ctx_small (e_sctx e)" "synced e d"
    and "\<forall>v\<in>set vs. e_encoded e (fst v) \<noteq> None \<and> small_val v" "cache_sound d cache"
  shows "\<exists>vs' pr'. scan_values so d cache (vals_bytes e vs) acc pr = Inr (acc @ vs', pr') \<and> erased vs' = erased vs"
  using assms(6,7)
proof (induction vs arbitrary: cache acc pr)
  case Nil
  then show ?case by (simp add: vals_bytes_def scan_values.simps erased_def)
next
  case (Cons v vs)
  obtain cache' t where d: "decodeVal (so_floats so) False d cache (val_bytes e v @ vals_bytes e vs) = (cache', Inr ((t, snd v), vals_bytes e vs))"
    "cache_sound d cache'" "erase t = erase (fst v)"
    using decodeVal_ok [OF e _ _ Cons.prems(2), of v "so_floats so" "vals_bytes e vs"] Cons.prems(1) by (meson list.set_intros(1))
  have "snd (wantValue (so_filter so) (t, snd v) pr)" by (simp add: wantValue_def assms(1) Let_def)
  then obtain pr1 where w: "wantValue (so_filter so) (t, snd v) pr = (pr1, True)" by (cases "wantValue (so_filter so) (t, snd v) pr") auto
  have "val_bytes e v \<noteq> []" by (simp add: val_bytes_def)
  then have "scan_values so d cache (vals_bytes e (v # vs)) acc pr = scan_values so d cache' (vals_bytes e vs) (acc @ [(t, snd v)]) pr1"
    using d(1) w assms(2) by (simp add: scan_values.simps [of so d cache] vals_bytes_def)
  moreover obtain vs' pr' where "scan_values so d cache' (vals_bytes e vs) (acc @ [(t, snd v)]) pr1 = Inr ((acc @ [(t, snd v)]) @ vs', pr')" "erased vs' = erased vs"
    using Cons.IH [OF _ d(2), of "acc @ [(t, snd v)]" pr1] Cons.prems(1) by auto
  ultimately show ?case using d(3) by (intro exI [of _ "(t, snd v) # vs'"] exI [of _ pr']) (simp add: erased_def prod_eq_iff)
qed

lemma scanBatch_ok:
  assumes "so_bufferFilter so = None" "so_filter so = None" "\<not> so_validate so" "enc_inv cx e" "ctx_small (e_sctx e)" "synced e d"
    and "\<forall>v\<in>set vs. e_encoded e (fst v) \<noteq> None \<and> small_val v" "vs \<noteq> []"
  shows "\<exists>vs' pr'. scanBatch so (vals_bytes e vs) d pr = (pr', Inr (Some vs')) \<and> erased vs' = erased vs"
proof -
  have "cache_sound d []" by (simp add: cache_sound_def)
  from scan_values_ok [OF assms(2-7) this, of "[]" no_progress] obtain vs' pr'
    where "scan_values so d [] (vals_bytes e vs) [] no_progress = Inr (vs', pr')" "erased vs' = erased vs" by auto
  moreover from this(2) have "vs' \<noteq> []" using assms(8) by (auto simp: erased_def)
  ultimately show ?thesis using assms(1) by (auto simp: scanBatch_def)
qed

end
