(* ===== verification/Bsup_Stream.thy ===== *)
theory Bsup_Stream
  imports Bsup_Inv
begin

text \<open>
  Sessions of a BSUP writer against the scanner and the reader: the state of a writer is related to what a
  scanner reads from the bytes written so far, every operation keeps the relation, and closing the
  writer makes all of its input readable.
\<close>

subsection \<open>What a scanner gives\<close>

text \<open>
  An event is a batch of values or a control message. Pulling gives the events, values up to the identity
  of their types, and then behaves as it does in some state with the property \<open>Q\<close>.
\<close>

type_synonym event = "bval list + (u8 \<times> bytes)"

fun scans :: "scan_opts \<Rightarrow> 'd decompressor \<Rightarrow> event list \<Rightarrow> (scanner \<Rightarrow> bool) \<Rightarrow> scanner \<Rightarrow> bool" where
  "scans so unc [] Q s \<longleftrightarrow> (\<exists>s'. scannerSync_Pull so unc False s = scannerSync_Pull so unc False s' \<and> Q s')"
| "scans so unc (Inl vs # evs) Q s \<longleftrightarrow> (\<exists>s' vs'. scannerSync_Pull so unc False s = Some (s', Inr (Some vs')) \<and> erased vs' = vs \<and> scans so unc evs Q s')"
| "scans so unc (Inr (fmt, b) # evs) Q s \<longleftrightarrow> (\<exists>s'. scannerSync_Pull so unc False s = Some (s', Inl (PError (Control fmt b))) \<and> scans so unc evs Q s')"

lemma scans_same: "scannerSync_Pull so unc False s = scannerSync_Pull so unc False s' \<Longrightarrow> scans so unc evs Q s' \<Longrightarrow> scans so unc evs Q s"
  by (cases "(so, unc, evs, Q, s)" rule: scans.cases) auto

lemma scans_refl: "Q s \<Longrightarrow> scans so unc [] Q s"
  by auto

lemma scans_append:
  "scans so unc xs Q s \<Longrightarrow> (\<And>s. Q s \<Longrightarrow> scans so unc ys R s) \<Longrightarrow> scans so unc (xs @ ys) R s"
proof (induction so unc xs Q s rule: scans.induct)
  case (1 so unc Q s)
  then show ?case using scans_same by fastforce
qed fastforce+

text \<open>The state of a scanner in step with the encoder \<open>e\<close> of a writer of types of \<open>cx\<close>, with the bytes \<open>bs\<close> ahead.\<close>

definition scan_at :: "tcontext \<Rightarrow> tcontext \<Rightarrow> int \<Rightarrow> encoder \<Rightarrow> bytes \<Rightarrow> scanner \<Rightarrow> bool" where
  "scan_at c0 cx mx e bs s \<longleftrightarrow> reading mx (sc_parser s) bs \<and> synced e (p_types (sc_parser s)) \<and>
     grown c0 cx (d_sctx (p_types (sc_parser s))) \<and> \<not> sc_eof s"

definition plain :: "scan_opts \<Rightarrow> bool" where
  "plain so \<longleftrightarrow> so_bufferFilter so = None \<and> so_filter so = None \<and> \<not> so_validate so"

lemma pull_parser:
  "parser_read unc (sc_parser s) = parser_read unc p \<Longrightarrow> \<not> sc_eof s \<Longrightarrow>
   scannerSync_Pull so unc False s = scannerSync_Pull so unc False (s\<lparr>sc_parser := p\<rparr>)"
  by (simp add: scannerSync_Pull_def scan_again.simps [of so unc s] scan_again.simps [of so unc "s\<lparr>sc_parser := p\<rparr>"]
      split: option.split prod.split sum.split)

lemma scan_end:
  "scan_at c0 cx mx e [] s \<Longrightarrow> \<exists>s'. scannerSync_Pull so unc False s = Some (s', Inr None)"
  using parser_read_end [of mx "sc_parser s" unc] by (auto simp: scan_at_def scannerSync_Pull_def scan_again.simps [of so unc s])

lemma scans_EOS:
  assumes "scan_at c0 cx mx e (EOS # rest) s" "enc_inv cx e"
  shows "scans so unc [] (scan_at c0 cx mx (Encoder_Reset e) rest) s"
proof -
  let ?p = "sc_parser s"
  obtain r where r: "parser_read unc ?p = parser_read unc (?p\<lparr>p_peeker := r, p_types := NewDecoder (d_sctx (p_types ?p))\<rparr>)"
    "reading mx (?p\<lparr>p_peeker := r\<rparr>) rest"
    using parser_read_EOS assms(1) unfolding scan_at_def by blast
  have g: "grown c0 cx (d_sctx (p_types ?p))" "\<not> sc_eof s" using assms(1) by (auto simp: scan_at_def)
  then have "synced (Encoder_Reset e) (NewDecoder (d_sctx (p_types ?p)))" by (intro synced_Reset [OF assms(2)]) (simp add: grown_def)
  moreover have "d_sctx (NewDecoder c) = c" for c by (simp add: NewDecoder_def)
  ultimately show ?thesis using pull_parser [OF r(1) g(2)] r(2) g by (auto simp: scan_at_def)
qed

lemma scans_types:
  assumes "lz_ok lz unc" "int (length b) \<le> mx" "scan_at c0 cx mx e (block_bytes lz compress TypesFrame b @ rest) s" "stepped cx e e' b"
  shows "scans so unc [] (scan_at c0 cx mx e' rest) s"
proof -
  let ?p = "sc_parser s"
  have s: "synced e (p_types ?p)" "grown c0 cx (d_sctx (p_types ?p))" "\<not> sc_eof s" "reading mx ?p (block_bytes lz compress TypesFrame b @ rest)"
    using assms(3) by (auto simp: scan_at_def)
  then obtain d where d: "decode (p_types ?p) (b @ []) = decode d []" "synced e' d" "grown c0 cx (d_sctx d)"
    using assms(4) unfolding stepped_def by meson
  show ?thesis
  proof (cases "b = []")
    case True
    then show ?thesis using s d by (auto simp: scan_at_def block_bytes_def)
  next
    case False
    have "decode (p_types ?p) b = (d, None)" using d(1) by simp
    then obtain r where r: "parser_read unc ?p = parser_read unc (?p\<lparr>p_peeker := r, p_types := d\<rparr>)" "reading mx (?p\<lparr>p_peeker := r\<rparr>) rest"
      using parser_read_types [OF assms(1) False assms(2) s(4)] by blast
    then show ?thesis using pull_parser [OF r(1) s(3)] d s(3) by (auto simp: scan_at_def)
  qed
qed

lemma scans_values:
  assumes "plain so" "lz_ok lz unc" "int (length (vals_bytes e vs)) \<le> mx" "scan_at c0 cx mx e (block_bytes lz compress ValuesFrame (vals_bytes e vs) @ rest) s"
    and e: "enc_inv cx e" "ctx_small (e_sctx e)" and vs: "\<forall>v\<in>set vs. e_encoded e (fst v) \<noteq> None \<and> small_val v" "vs \<noteq> []"
  shows "scans so unc [Inl (erased vs)] (scan_at c0 cx mx e rest) s"
proof -
  let ?p = "sc_parser s"
  have s: "synced e (p_types ?p)" "grown c0 cx (d_sctx (p_types ?p))" "\<not> sc_eof s" "reading mx ?p (block_bytes lz compress ValuesFrame (vals_bytes e vs) @ rest)"
    using assms(4) by (auto simp: scan_at_def)
  have "vals_bytes e vs \<noteq> []" using vs(2) by (cases vs) (auto simp: vals_bytes_def val_bytes_def)
  then obtain r f where r: "parser_read unc ?p = Some (?p\<lparr>p_peeker := r\<rparr>, Inr f)" "frame_decompress unc f = Inr (vals_bytes e vs)" "reading mx (?p\<lparr>p_peeker := r\<rparr>) rest"
    using parser_read_values [OF assms(2) _ assms(3) s(4)] by blast
  obtain vs' pr where "scanBatch so (vals_bytes e vs) (p_types ?p) (sc_progress s) = (pr, Inr (Some vs'))" "erased vs' = erased vs"
    using scanBatch_ok [OF _ _ _ e s(1) vs] assms(1) by (metis plain_def)
  then have "scannerSync_Pull so unc False s = Some (s\<lparr>sc_parser := ?p\<lparr>p_peeker := r\<rparr>, sc_progress := pr\<rparr>, Inr (Some vs'))"
    "erased vs' = erased vs"
    using r(1,2) s(3) by (simp_all add: scannerSync_Pull_def scan_again.simps [of so unc s])
  moreover have "scan_at c0 cx mx e rest (s\<lparr>sc_parser := ?p\<lparr>p_peeker := r\<rparr>, sc_progress := pr\<rparr>)"
    using r(3) s by (simp add: scan_at_def)
  ultimately show ?thesis using scans_refl by (metis scans.simps(2))
qed

lemma scans_control:
  assumes "lz_ok lz unc" "int (length (fmt # b)) \<le> mx" "scan_at c0 cx mx e (block_bytes lz compress ControlFrame (fmt # b) @ rest) s"
  shows "scans so unc [Inr (fmt, b)] (scan_at c0 cx mx e rest) s"
proof -
  let ?p = "sc_parser s"
  have s: "synced e (p_types ?p)" "grown c0 cx (d_sctx (p_types ?p))" "\<not> sc_eof s" "reading mx ?p (block_bytes lz compress ControlFrame (fmt # b) @ rest)"
    using assms(3) by (auto simp: scan_at_def)
  obtain r where r: "parser_read unc ?p = Some (?p\<lparr>p_peeker := r\<rparr>, Inl (Control fmt b))" "reading mx (?p\<lparr>p_peeker := r\<rparr>) rest"
    using parser_read_control [OF assms(1,2) s(4)] by blast
  then have "scan_at c0 cx mx e rest (s\<lparr>sc_parser := ?p\<lparr>p_peeker := r\<rparr>\<rparr>)" using s by (simp add: scan_at_def)
  moreover have "scannerSync_Pull so unc False s = Some (s\<lparr>sc_parser := ?p\<lparr>p_peeker := r\<rparr>\<rparr>, Inl (PError (Control fmt b)))"
    using r(1) s(3) by (simp add: scannerSync_Pull_def scan_again.simps [of so unc s])
  ultimately show ?thesis using scans_refl by (metis scans.simps(3))
qed


subsection \<open>What a writer has written\<close>

abbreviation app :: "(bytes, unit) out" where
  "app o' b \<equiv> (o' @ b, None)"

lemma writeBlock_out:
  assumes "lz_ok lz unc"
  shows "writeBlock app lz ft b w = (w\<lparr>w_out := w_out w @ block_bytes lz (w_compress w) ft b,
     w_position := w_position w + length (block_bytes lz (w_compress w) ft b)\<rparr>, None)"
proof (cases "if w_compress w then lz b else Inr None")
  case (Inl x)
  then show ?thesis using assms by (auto simp: lz_ok_def split: if_splits)
next
  case (Inr z)
  then show ?thesis
    by (cases z) (simp_all add: writeBlock_def block_bytes_def bw_write_def writeHeader_def writeCompHeader_def)
qed

text \<open>
  The state of a writer: \<open>e0\<close> is the encoder when it last flushed, \<open>pend\<close> the values it holds since then.
\<close>

definition writer_inv :: "tcontext \<Rightarrow> int \<Rightarrow> bytes bsup_writer \<Rightarrow> encoder \<Rightarrow> bval list \<Rightarrow> bool" where
  "writer_inv cx mx w e0 pend \<longleftrightarrow> enc_inv cx (w_types w) \<and> e_bytes e0 = [] \<and> stepped cx e0 (w_types w) (e_bytes (w_types w)) \<and>
     w_values w = vals_bytes (w_types w) pend \<and> (\<forall>v\<in>set pend. e_encoded (w_types w) (fst v) \<noteq> None \<and> small_val v) \<and>
     (pend = [] \<longrightarrow> w_types w = e0) \<and> int (length (e_bytes (w_types w))) \<le> mx \<and> int (length (w_values w)) \<le> mx \<and>
     w_flushed w \<le> w_position w \<and> (w_flushed w = w_position w \<longrightarrow> byID (e_sctx e0) = replicate IDTypeComplex None)"

definition emits :: "tcontext \<Rightarrow> tcontext \<Rightarrow> int \<Rightarrow> scan_opts \<Rightarrow> 'd decompressor \<Rightarrow> bytes \<Rightarrow> event list \<Rightarrow> encoder \<Rightarrow> bool" where
  "emits c0 cx mx so unc out evs e \<longleftrightarrow>
     (\<forall>s rest. scan_at c0 cx mx NewEncoder (out @ rest) s \<longrightarrow> scans so unc evs (scan_at c0 cx mx e rest) s)"

lemma emits_step:
  assumes "emits c0 cx mx so unc out evs e" "\<And>s rest. scan_at c0 cx mx e (b @ rest) s \<Longrightarrow> scans so unc evs' (scan_at c0 cx mx e' rest) s"
  shows "emits c0 cx mx so unc (out @ b) (evs @ evs') e'"
  unfolding emits_def
proof (intro allI impI)
  fix s rest assume "scan_at c0 cx mx NewEncoder ((out @ b) @ rest) s"
  then have "scans so unc evs (scan_at c0 cx mx e (b @ rest)) s" using assms(1) by (simp add: emits_def)
  then show "scans so unc (evs @ evs') (scan_at c0 cx mx e' rest) s" by (rule scans_append) (rule assms(2))
qed

lemma block_bytes_pos: "b \<noteq> [] \<Longrightarrow> 0 < length (block_bytes lz compress ft b)"
  by (auto simp: block_bytes_def header_bytes_eq comp_header_bytes_eq Let_def split: sum.splits option.splits)

lemma vals_bytes_pos: "vals_bytes e vs = [] \<longleftrightarrow> vs = []"
  by (cases vs) (auto simp: vals_bytes_def val_bytes_def)

lemma scan_at_Flush [simp]: "scan_at c0 cx mx (Encoder_Flush e) = scan_at c0 cx mx e"
  by (intro ext) (simp add: scan_at_def)

text \<open>Flushing writes a frame of types when there are new ones and a frame of values when there are any.\<close>

lemma flush_ok:
  assumes "ctx_inv cx" "ctx_small cx" "plain so" "lz_ok lz unc" and w: "writer_inv cx mx w e0 pend" and em: "emits c0 cx mx so unc (w_out w) evs e0"
  shows "\<exists>w' e1. flush app lz w = (w', None) \<and> writer_inv cx mx w' e1 [] \<and>
     emits c0 cx mx so unc (w_out w') (evs @ (if pend = [] then [] else [Inl (erased pend)])) e1 \<and> w_thresh w' = w_thresh w"
proof -
  let ?e = "w_types w"
  let ?t = "block_bytes lz (w_compress w) TypesFrame (e_bytes ?e)" and ?v = "block_bytes lz (w_compress w) ValuesFrame (w_values w)"
  let ?w = "w\<lparr>w_out := w_out w @ ?t @ ?v, w_position := w_position w + (length ?t + length ?v), w_types := Encoder_Flush ?e, w_values := []\<rparr>"
  have f: "flush app lz w = (?w, None)" by (simp add: flush_def writeBlock_out [OF assms(4)] add.assoc)
  have i: "enc_inv cx ?e" "stepped cx e0 ?e (e_bytes ?e)" "w_values w = vals_bytes ?e pend" "\<forall>v\<in>set pend. e_encoded ?e (fst v) \<noteq> None \<and> small_val v"
    "int (length (e_bytes ?e)) \<le> mx" "int (length (w_values w)) \<le> mx" "w_flushed w \<le> w_position w" "e_bytes e0 = []"
    using w by (auto simp: writer_inv_def)
  have small: "ctx_small (e_sctx ?e)" by (rule enc_inv_small [OF assms(1,2) i(1)])
  show ?thesis
  proof (cases "pend = []")
    case True
    then have e0: "?e = e0" "w_values w = []" "e_bytes ?e = []" "Encoder_Flush ?e = ?e"
      using w by (auto simp: writer_inv_def vals_bytes_pos Encoder_Flush_def)
    then have "?w = w" by (simp add: block_bytes_def)
    moreover have "writer_inv cx mx w e0 []" using w True by simp
    ultimately show ?thesis using f em True by auto
  next
    case False
    have "scans so unc [Inl (erased pend)] (scan_at c0 cx mx (Encoder_Flush ?e) rest) s" if s: "scan_at c0 cx mx e0 ((?t @ ?v) @ rest) s" for s rest
    proof -
      have "scans so unc [] (scan_at c0 cx mx ?e (?v @ rest)) s"
        using scans_types [OF assms(4) i(5) _ i(2), where rest = "?v @ rest"] s by simp
      then have "scans so unc ([] @ [Inl (erased pend)]) (scan_at c0 cx mx ?e rest) s"
        by (rule scans_append) (use scans_values [OF assms(3,4) _ _ i(1) small i(4) False] i(3,6) in auto)
      then show ?thesis by simp
    qed
    from emits_step [OF em this, where b = "?t @ ?v"] have "emits c0 cx mx so unc (w_out ?w) (evs @ [Inl (erased pend)]) (Encoder_Flush ?e)" by simp
    moreover have "0 < length ?v" using block_bytes_pos i(3) False vals_bytes_pos by metis
    then have "w_flushed w < w_position w + (length ?t + length ?v)" using i(7) by linarith
    then have "writer_inv cx mx ?w (Encoder_Flush ?e) []"
      using i(1,5) stepped_refl [of cx "Encoder_Flush ?e"]
      by (auto simp: writer_inv_def vals_bytes_def) (simp_all add: Encoder_Flush_def)
    ultimately show ?thesis using f False by (intro exI [of _ ?w] exI [of _ "Encoder_Flush ?e"]) simp
  qed
qed


lemma byID_Reset: "enc_inv cx e \<Longrightarrow> byID (e_sctx (Encoder_Reset e)) = replicate IDTypeComplex None"
  by (auto simp: enc_inv_def ctx_inv_def ids_ok_def Encoder_Reset_def Context_Reset_def list_eq_iff_nth_eq)

lemma scan_at_byID: "byID (e_sctx e) = byID (e_sctx e') \<Longrightarrow> scan_at c0 cx mx e = scan_at c0 cx mx e'"
  by (intro ext) (simp add: scan_at_def synced_def)

lemma EndStream_ok:
  assumes "ctx_inv cx" "ctx_small cx" "plain so" "lz_ok lz unc" and w: "writer_inv cx mx w e0 pend" and em: "emits c0 cx mx so unc (w_out w) evs e0"
  shows "\<exists>w' e1. EndStream app lz w = (w', None) \<and> writer_inv cx mx w' e1 [] \<and>
     emits c0 cx mx so unc (w_out w') (evs @ (if pend = [] then [] else [Inl (erased pend)])) e1 \<and> w_thresh w' = w_thresh w"
proof -
  let ?evs = "evs @ (if pend = [] then [] else [Inl (erased pend)])"
  obtain w1 e1 where w1: "flush app lz w = (w1, None)" "writer_inv cx mx w1 e1 []" "emits c0 cx mx so unc (w_out w1) ?evs e1" "w_thresh w1 = w_thresh w"
    using flush_ok [OF assms] by blast
  let ?e = "Encoder_Reset e1"
  have i: "enc_inv cx e1" "w_types w1 = e1" "w_values w1 = []" "e_bytes ?e = []" "0 \<le> mx" "w_flushed w1 \<le> w_position w1"
    using w1(2) by (auto simp: writer_inv_def vals_bytes_def Encoder_Reset_def)
  have e: "stepped cx ?e ?e []" "byID (e_sctx ?e) = replicate IDTypeComplex None" "enc_inv cx ?e"
    using stepped_refl [OF enc_inv_Reset [OF i(1)]] byID_Reset [OF i(1)] enc_inv_Reset [OF i(1)] by auto
  have inv: "writer_inv cx mx (w1\<lparr>w_out := out, w_position := pos, w_flushed := pos, w_types := ?e\<rparr>) ?e []" for out pos
    using i e by (simp add: writer_inv_def vals_bytes_def)
  show ?thesis
  proof (cases "w_flushed w1 = w_position w1")
    case True
    then have same: "byID (e_sctx e1) = byID (e_sctx ?e)" using w1(2) e(2) by (auto simp: writer_inv_def)
    have "emits c0 cx mx so unc (w_out w1) ?evs ?e" using w1(3) unfolding emits_def scan_at_byID [OF same] by simp
    moreover have "EndStream app lz w = (w1\<lparr>w_types := ?e\<rparr>, None)" using True w1(1) i(2) by (simp add: EndStream_def)
    moreover have "writer_inv cx mx (w1\<lparr>w_types := ?e\<rparr>) ?e []" using inv [where out = "w_out w1" and pos = "w_position w1"] True by (auto simp: writer_inv_def)
    ultimately show ?thesis using w1(4) by (intro exI [of _ "w1\<lparr>w_types := ?e\<rparr>"] exI [of _ ?e]) simp
  next
    case False
    let ?w = "w1\<lparr>w_out := w_out w1 @ [EOS], w_position := w_position w1 + 1, w_flushed := w_position w1 + 1, w_types := ?e\<rparr>"
    have "EndStream app lz w = (?w, None)" using False w1(1) i(2) by (simp add: EndStream_def bw_write_def)
    moreover have "emits c0 cx mx so unc (w_out w1 @ [EOS]) (?evs @ []) ?e"
      by (rule emits_step [OF w1(3)]) (use scans_EOS i(1) in auto)
    ultimately show ?thesis using w1(4) inv by (intro exI [of _ ?w] exI [of _ ?e]) simp
  qed
qed

lemma WriteControl_ok:
  assumes "ctx_inv cx" "ctx_small cx" "plain so" "lz_ok lz unc" and w: "writer_inv cx mx w e0 pend" and em: "emits c0 cx mx so unc (w_out w) evs e0"
    and b: "int (length b) < mx"
  shows "\<exists>w' e1. WriteControl app lz b fmt w = (w', None) \<and> writer_inv cx mx w' e1 [] \<and>
     emits c0 cx mx so unc (w_out w') ((evs @ (if pend = [] then [] else [Inl (erased pend)])) @ [Inr (fmt, b)]) e1 \<and> w_thresh w' = w_thresh w"
proof -
  let ?evs = "evs @ (if pend = [] then [] else [Inl (erased pend)])"
  obtain w1 e1 where w1: "flush app lz w = (w1, None)" "writer_inv cx mx w1 e1 []" "emits c0 cx mx so unc (w_out w1) ?evs e1" "w_thresh w1 = w_thresh w"
    using flush_ok [OF assms(1-6)] by blast
  let ?b = "block_bytes lz (w_compress w1) ControlFrame (fmt # b)"
  let ?w = "w1\<lparr>w_out := w_out w1 @ ?b, w_position := w_position w1 + length ?b\<rparr>"
  have "emits c0 cx mx so unc (w_out w1 @ ?b) (?evs @ [Inr (fmt, b)]) e1"
    by (rule emits_step [OF w1(3)], rule scans_control [OF assms(4)]) (use b in auto)
  moreover have "WriteControl app lz b fmt w = (?w, None)" using w1(1) by (simp add: WriteControl_def writeBlock_out [OF assms(4)])
  moreover have "writer_inv cx mx ?w e1 []"
    using w1(2) block_bytes_pos [of "fmt # b" lz "w_compress w1" ControlFrame] by (auto simp: writer_inv_def simp del: length_greater_0_conv)
  ultimately show ?thesis using w1(4) by (intro exI [of _ ?w] exI [of _ e1]) simp
qed


lemma vals_bytes_mono:
  "e_encoded e \<subseteq>\<^sub>m e_encoded e' \<Longrightarrow> \<forall>v\<in>set vs. e_encoded e (fst v) \<noteq> None \<Longrightarrow> vals_bytes e' vs = vals_bytes e vs"
  by (auto simp: vals_bytes_def val_bytes_def map_le_def dom_def intro!: arg_cong [where f = concat])

text \<open>A value goes to the buffers; \<open>w1\<close> is the state before the writer looks at the threshold.\<close>

lemma buffer_value:
  assumes "ctx_inv cx" "ctx_small cx" and w: "writer_inv cx mx w e0 pend" and v: "known cx (fst v)" "bsup_ok (fst v)" "small_val v"
    and th: "pend = [] \<or> length (w_values w) < w_thresh w \<and> length (e_bytes (w_types w)) < w_thresh w"
    and l: "int (w_thresh w + def_size (fst v)) \<le> mx" "int (w_thresh w + 20 + length (slice_bytes (snd v))) \<le> mx"
  shows "\<exists>e1 t. Encode (fst v) (w_types w) = (e1, Inr t) \<and>
     writer_inv cx mx (w\<lparr>w_types := e1, w_values := Append (AppendUvarint (w_values w) (of_nat (TypeID t))) (snd v)\<rparr>) e0 (pend @ [v])"
proof -
  let ?e = "w_types w"
  have i: "enc_inv cx ?e" "e_bytes e0 = []" "stepped cx e0 ?e (e_bytes ?e)" "w_values w = vals_bytes ?e pend"
    "\<forall>v\<in>set pend. e_encoded ?e (fst v) \<noteq> None \<and> small_val v" "pend = [] \<Longrightarrow> ?e = e0" using w by (auto simp: writer_inv_def)
  obtain e1 t \<delta> where e1: "Encode (fst v) ?e = (e1, Inr t)" "stepped cx ?e e1 \<delta>" "e_encoded e1 (fst v) = Some t"
    using encode_steps(1) [OF assms(1,2), of ?e "fst v"] i(1) v(1,2) by blast
  have s: "stepped cx e0 e1 (e_bytes e1)" "e_encoded ?e \<subseteq>\<^sub>m e_encoded e1" "enc_inv cx e1"
    using stepped_trans [OF i(3) e1(2)] e1(2) by (auto simp: stepped_def)
  have vb: "Append (AppendUvarint (w_values w) (of_nat (TypeID t))) (snd v) = vals_bytes e1 (pend @ [v])"
    using vals_bytes_mono [OF s(2)] i(4,5) e1(3) Append_append [of "w_values w @ put_uvarint (of_nat (TypeID t))" "snd v"]
    by (simp add: vals_bytes_def val_bytes_def AppendUvarint_def)
  have "length (Append [] (snd v)) \<le> 10 + length (slice_bytes (snd v))"
    using length_put_uvarint_le by (auto simp: Append_Nil split: option.splits)
  moreover have "length (w_values w) \<le> w_thresh w" "length (e_bytes ?e) \<le> w_thresh w"
    using th i(2,4,6) by (auto simp: vals_bytes_def)
  moreover have "length (e_bytes e1) \<le> length (e_bytes ?e) + def_size (fst v)" using encode_bytes(1) [of "fst v" ?e] e1(1) by simp
  ultimately have "int (length (e_bytes e1)) \<le> mx" "int (length (Append (AppendUvarint (w_values w) (of_nat (TypeID t))) (snd v))) \<le> mx"
    using l length_put_uvarint_le [of "of_nat (TypeID t)"] Append_append [of "w_values w @ put_uvarint (of_nat (TypeID t))" "snd v"]
    by (auto simp: AppendUvarint_def)
  moreover have "e_encoded e1 (fst u) \<noteq> None \<and> small_val u" if "u \<in> set (pend @ [v])" for u
    using that i(5) e1(3) v(3) s(2) by (auto simp: map_le_def dom_def)
  ultimately show ?thesis
    using e1(1) s i(2) vb w by (intro exI [of _ e1] exI [of _ t]) (simp add: writer_inv_def)
qed

subsection \<open>A session of a writer\<close>

datatype bsup_op = WriteValue bval | EndOfStream | WriteMessage u8 bytes

fun run_op :: "'c compressor \<Rightarrow> bsup_op \<Rightarrow> bytes bsup_writer \<Rightarrow> (bytes, unit, 'c) bw_res" where
  "run_op lz (WriteValue v) w = Writer_Write app lz v w"
| "run_op lz EndOfStream w = EndStream app lz w"
| "run_op lz (WriteMessage fmt b) w = WriteControl app lz b fmt w"

fun run_ops :: "'c compressor \<Rightarrow> bsup_op list \<Rightarrow> bytes bsup_writer \<Rightarrow> (bytes, unit, 'c) bw_res" where
  "run_ops lz [] w = (w, None)"
| "run_ops lz (p # ps) w = wr_bind (run_op lz p w) (run_ops lz ps)"

fun op_ok :: "tcontext \<Rightarrow> int \<Rightarrow> nat \<Rightarrow> bsup_op \<Rightarrow> bool" where
  "op_ok cx mx th (WriteValue v) \<longleftrightarrow> known cx (fst v) \<and> bsup_ok (fst v) \<and> int (th + def_size (fst v)) \<le> mx \<and>
     int (th + 20 + length (slice_bytes (snd v))) \<le> mx"
| "op_ok cx mx th EndOfStream \<longleftrightarrow> True"
| "op_ok cx mx th (WriteMessage fmt b) \<longleftrightarrow> int (length b) < mx"

fun op_payload :: "bsup_op \<Rightarrow> (bval + (u8 \<times> bytes)) list" where
  "op_payload (WriteValue (t, b)) = [Inl (erase t, b)]"
| "op_payload EndOfStream = []"
| "op_payload (WriteMessage fmt b) = [Inr (fmt, b)]"

definition event_payloads :: "event list \<Rightarrow> (bval + (u8 \<times> bytes)) list" where
  "event_payloads evs = concat (map (\<lambda>ev. case ev of Inl vs \<Rightarrow> map Inl vs | Inr m \<Rightarrow> [Inr m]) evs)"

lemma event_payloads_simps [simp]: "event_payloads [] = []" "event_payloads (Inl vs # evs) = map Inl vs @ event_payloads evs"
  "event_payloads (Inr m # evs) = Inr m # event_payloads evs" "event_payloads (evs @ evs') = event_payloads evs @ event_payloads evs'"
  by (simp_all add: event_payloads_def)

definition written :: "tcontext \<Rightarrow> tcontext \<Rightarrow> int \<Rightarrow> scan_opts \<Rightarrow> 'd decompressor \<Rightarrow> nat \<Rightarrow> bytes bsup_writer \<Rightarrow> (bval + (u8 \<times> bytes)) list \<Rightarrow> bool" where
  "written c0 cx mx so unc th w ps \<longleftrightarrow> (\<exists>e0 pend evs. writer_inv cx mx w e0 pend \<and> emits c0 cx mx so unc (w_out w) evs e0 \<and>
     event_payloads evs @ map Inl (erased pend) = ps \<and> w_thresh w = th \<and>
     (pend = [] \<or> length (w_values w) < th \<and> length (e_bytes (w_types w)) < th))"

lemma written_flushed:
  "writer_inv cx mx w e0 [] \<Longrightarrow> emits c0 cx mx so unc (w_out w) (evs @ (if pend = [] then [] else [Inl (erased pend)]) @ evs') e0 \<Longrightarrow>
   w_thresh w = th \<Longrightarrow> written c0 cx mx so unc th w ((event_payloads evs @ map Inl (erased pend)) @ event_payloads evs')"
  unfolding written_def by (intro exI [of _ e0] exI [of _ "[]"] exI [of _ "evs @ (if pend = [] then [] else [Inl (erased pend)]) @ evs'"])
    (auto simp: erased_def)

lemma run_op_ok:
  assumes cx: "ctx_inv cx" "ctx_small cx" and so: "plain so" and lz: "lz_ok lz unc" and mx: "mx < 2 ^ 62"
    and w: "written c0 cx mx so unc th w ps" and p: "op_ok cx mx th p"
  shows "\<exists>w'. run_op lz p w = (w', None) \<and> written c0 cx mx so unc th w' (ps @ op_payload p)"
proof -
  obtain e0 pend evs where i: "writer_inv cx mx w e0 pend" "emits c0 cx mx so unc (w_out w) evs e0"
    "ps = event_payloads evs @ map Inl (erased pend)" "w_thresh w = th" "pend = [] \<or> length (w_values w) < th \<and> length (e_bytes (w_types w)) < th"
    using w unfolding written_def by blast
  show ?thesis
  proof (cases p)
    case EndOfStream
    then show ?thesis
      using EndStream_ok [OF cx so lz i(1,2)] written_flushed [where evs' = "[]"] i(3,4) by fastforce
  next
    case (WriteMessage fmt b)
    then show ?thesis
      using WriteControl_ok [OF cx so lz i(1,2), of b fmt] written_flushed [where evs' = "[Inr (fmt, b)]"] i(3,4) p by fastforce
  next
    case (WriteValue v)
    have v: "known cx (fst v)" "bsup_ok (fst v)" "int (w_thresh w + def_size (fst v)) \<le> mx" "int (w_thresh w + 20 + length (slice_bytes (snd v))) \<le> mx"
      using p WriteValue i(4) by auto
    then have "small_val v" using mx by (auto split: option.splits)
    then obtain e1 t where e1: "Encode (fst v) (w_types w) = (e1, Inr t)"
      "writer_inv cx mx (w\<lparr>w_types := e1, w_values := Append (AppendUvarint (w_values w) (of_nat (TypeID t))) (snd v)\<rparr>) e0 (pend @ [v])"
      using buffer_value [OF cx i(1) v(1,2) _ _ v(3,4)] i(4,5) by blast
    let ?w = "w\<lparr>w_types := e1, w_values := Append (AppendUvarint (w_values w) (of_nat (TypeID t))) (snd v)\<rparr>"
    have pay: "event_payloads evs @ map Inl (erased (pend @ [v])) = ps @ op_payload p"
      using WriteValue i(3) by (cases v) (simp add: erased_def)
    have enc: "(case Encoder_Lookup (w_types w) (fst v) of Some typ \<Rightarrow> (w_types w, Inr typ) | None \<Rightarrow> Encode (fst v) (w_types w)) = (e1, Inr t)"
      using e1(1) by (auto simp: Encoder_Lookup_def Encode.simps split: option.splits)
    have em: "emits c0 cx mx so unc (w_out ?w) evs e0" using i(2) by simp
    show ?thesis
    proof (cases "length (w_values ?w) \<ge> w_thresh w \<or> length (e_bytes e1) \<ge> w_thresh w")
      case True
      then have "run_op lz p w = flush app lz ?w" using WriteValue enc by (simp add: Writer_Write_def Let_def)
      then show ?thesis
        using flush_ok [OF cx so lz e1(2) em] written_flushed [where evs' = "[]" and pend = "pend @ [v]"] pay i(4) by fastforce
    next
      case False
      then have "run_op lz p w = (?w, None)" using WriteValue enc by (simp add: Writer_Write_def Let_def)
      moreover have "written c0 cx mx so unc th ?w (ps @ op_payload p)"
        using e1(2) em pay i(4) False unfolding written_def by (intro exI [of _ e0] exI [of _ "pend @ [v]"] exI [of _ evs]) auto
      ultimately show ?thesis by blast
    qed
  qed
qed


lemma run_ops_ok:
  assumes cx: "ctx_inv cx" "ctx_small cx" and so: "plain so" and lz: "lz_ok lz unc" and mx: "mx < 2 ^ 62"
    and "written c0 cx mx so unc th w ps" "\<forall>p\<in>set ops. op_ok cx mx th p"
  shows "\<exists>w'. run_ops lz ops w = (w', None) \<and> written c0 cx mx so unc th w' (ps @ concat (map op_payload ops))"
  using assms(6,7)
proof (induction ops arbitrary: w ps)
  case (Cons p ops)
  obtain w1 where "run_op lz p w = (w1, None)" "written c0 cx mx so unc th w1 (ps @ op_payload p)"
    using run_op_ok [OF cx so lz mx Cons.prems(1)] Cons.prems(2) by auto
  then show ?case using Cons.IH [of w1 "ps @ op_payload p"] Cons.prems(2) by simp
qed simp

lemma written_init:
  assumes "ctx_inv cx" "0 \<le> mx"
  shows "written c0 cx mx so unc th (NewWriterWithOpts [] compress th) []"
proof -
  have "emits c0 cx mx so unc [] [] NewEncoder" by (auto simp: emits_def)
  moreover have "writer_inv cx mx (NewWriterWithOpts [] compress th) NewEncoder []"
    using enc_inv_New stepped_refl [OF enc_inv_New] assms(2)
    by (simp add: writer_inv_def NewWriterWithOpts_def vals_bytes_def) (simp add: NewEncoder_def NewContext_def)
  ultimately show ?thesis
    unfolding written_def by (intro exI [of _ NewEncoder] exI [of _ "[]"]) (auto simp: NewWriterWithOpts_def erased_def)
qed

lemma session_scans:
  assumes cx: "ctx_inv cx" "ctx_inv c" "length (byID c) + length (byID cx) \<le> 2 ^ 32" and so: "plain so" and lz: "lz_ok lz unc"
    and mx: "1 \<le> mx" "mx < 2 ^ 62" and ops: "\<forall>p\<in>set ops. op_ok cx mx th p"
    and grow: "\<And>k n. n \<le> grow k n"
  shows "\<exists>w1 w2 evs e. run_ops lz ops (NewWriterWithOpts [] compress th) = (w1, None) \<and> Writer_Close app lz (\<lambda>o'. (o', None)) w1 = (w2, None) \<and>
    event_payloads evs = concat (map op_payload ops) \<and>
    (\<forall>src size'. io_bytes src = Some (w_out w2) \<longrightarrow> scans so unc evs (scan_at c cx mx e []) (newScannerSync c src grow size' mx))"
proof -
  have small: "ctx_small cx" using cx(3) by (simp add: ctx_small_def)
  have "0 \<le> mx" using mx(1) by simp
  obtain w1 where w1: "run_ops lz ops (NewWriterWithOpts [] compress th) = (w1, None)" "written c cx mx so unc th w1 (concat (map op_payload ops))"
    using run_ops_ok [OF cx(1) small so lz mx(2) written_init [OF cx(1) \<open>0 \<le> mx\<close>] ops] by auto
  obtain e0 pend evs0 where i: "writer_inv cx mx w1 e0 pend" "emits c cx mx so unc (w_out w1) evs0 e0"
    "event_payloads evs0 @ map Inl (erased pend) = concat (map op_payload ops)"
    using w1(2) unfolding written_def by blast
  define evs where "evs = evs0 @ (if pend = [] then [] else [Inl (erased pend)])"
  have evs: "event_payloads evs = concat (map op_payload ops)" using i(3) by (auto simp: evs_def erased_def)
  obtain w2 e where w2: "EndStream app lz w1 = (w2, None)" "emits c cx mx so unc (w_out w2) evs e"
    using EndStream_ok [OF cx(1) small so lz i(1,2)] unfolding evs_def by blast
  have "scan_at c cx mx NewEncoder (w_out w2 @ []) (newScannerSync c src grow size' mx)" if "io_bytes src = Some (w_out w2)" for src size'
    using that grow mx synced_New [OF cx(2)] grown_refl [OF cx(2,1,3)]
    by (simp add: scan_at_def newScannerSync_def reading_def peeks_def peeker_NewReader_def NewDecoder_def)
  moreover have "Writer_Close app lz (\<lambda>o'. (o', None)) w1 = (w2, None)" using w2(1) by (simp add: Writer_Close_def)
  ultimately show ?thesis using w1(1) w2(2) evs unfolding emits_def by blast
qed

subsection \<open>Reading to the end\<close>

fun read_payloads :: "nat \<Rightarrow> scan_opts \<Rightarrow> 'd decompressor \<Rightarrow> scanner \<Rightarrow> bval list \<Rightarrow> (bval + (u8 \<times> bytes)) list option" where
  "read_payloads 0 so unc s vs = None"
| "read_payloads (Suc n) so unc s vs = (case ReadPayload so unc s vs of
      Some ((s, vs), Inr (Inl m)) \<Rightarrow> map_option (Cons (Inr m)) (read_payloads n so unc s vs)
    | Some ((s, vs), Inr (Inr (Some v))) \<Rightarrow> map_option (Cons (Inl v)) (read_payloads n so unc s vs)
    | Some ((s, vs), Inr (Inr None)) \<Rightarrow> Some []
    | _ \<Rightarrow> None)"

fun read_values :: "nat \<Rightarrow> scan_opts \<Rightarrow> 'd decompressor \<Rightarrow> scanner \<Rightarrow> bval list \<Rightarrow> bval list option" where
  "read_values 0 so unc s vs = None"
| "read_values (Suc n) so unc s vs = (case Reader_Read so unc s vs of
      Some ((s, vs), Inr (Some v)) \<Rightarrow> map_option (Cons v) (read_values n so unc s vs)
    | Some ((s, vs), Inr None) \<Rightarrow> Some []
    | _ \<Rightarrow> None)"

declare read_payloads.simps [simp del] read_values.simps [simp del]

definition erased_payloads :: "(bval + (u8 \<times> bytes)) list \<Rightarrow> (bval + (u8 \<times> bytes)) list" where
  "erased_payloads ps = map (map_sum (map_prod erase id) id) ps"

lemma erased_payloads_simps [simp]: "erased_payloads [] = []" "erased_payloads (Inr m # ps) = Inr m # erased_payloads ps"
  "erased_payloads (map Inl vs @ ps) = map Inl (erased vs) @ erased_payloads ps"
  by (simp_all add: erased_payloads_def erased_def)

lemma append_fun: "(@) [] = (\<lambda>ys. ys)" "(@) (x # xs) = (\<lambda>ys. x # xs @ ys)"
  by (rule ext, simp)+

lemma read_in_hand:
  "read_payloads (length vs + n) so unc s vs = map_option (\<lambda>ps. map Inl vs @ ps) (read_payloads n so unc s [])"
  "read_values (length vs + n) so unc s vs = map_option (\<lambda>us. vs @ us) (read_values n so unc s [])"
  by (induction vs)
    (simp_all add: read_payloads.simps read_values.simps ReadPayload_def Reader_Read.simps [of so unc s "_ # _"]
      pullerReader_Read.simps [of "scannerSync_Pull so unc" s "_ # _"] append_fun option.map_ident option.map_comp comp_def)

lemma reader_batch:
  assumes "scannerSync_Pull so unc False s = Some (s', Inr (Some vs))"
  shows "read_payloads (Suc n) so unc s [] = read_payloads (Suc n) so unc s' vs" "read_values (Suc n) so unc s [] = read_values (Suc n) so unc s' vs"
proof -
  have "pullerReader_Read (scannerSync_Pull so unc) s [] = pullerReader_Read (scannerSync_Pull so unc) s' vs"
    using assms by (simp add: pullerReader_Read.simps [of "scannerSync_Pull so unc" s])
  then show "read_payloads (Suc n) so unc s [] = read_payloads (Suc n) so unc s' vs" "read_values (Suc n) so unc s [] = read_values (Suc n) so unc s' vs"
    by (simp_all add: read_payloads.simps read_values.simps ReadPayload_def Reader_Read.simps [of so unc s] Reader_Read.simps [of so unc s'])
qed

lemma reader_control:
  assumes "scannerSync_Pull so unc False s = Some (s', Inl (PError (Control fmt b)))"
  shows "read_payloads (Suc n) so unc s [] = map_option (Cons (Inr (fmt, b))) (read_payloads n so unc s' [])"
    "read_values (Suc n) so unc s [] = read_values (Suc n) so unc s' []"
proof -
  have p: "pullerReader_Read (scannerSync_Pull so unc) s [] = Some ((s', []), Inl (PError (Control fmt b)))"
    using assms by (simp add: pullerReader_Read.simps [of "scannerSync_Pull so unc" s])
  then show "read_payloads (Suc n) so unc s [] = map_option (Cons (Inr (fmt, b))) (read_payloads n so unc s' [])" by (simp add: read_payloads.simps ReadPayload_def)
  show "read_values (Suc n) so unc s [] = read_values (Suc n) so unc s' []" using p by (simp add: read_values.simps Reader_Read.simps [of so unc s])
qed

lemma reader_end:
  assumes "scannerSync_Pull so unc False s = Some (s', Inr None)"
  shows "read_payloads (Suc n) so unc s [] = Some []" "read_values (Suc n) so unc s [] = Some []"
  using assms by (simp_all add: read_payloads.simps read_values.simps ReadPayload_def Reader_Read.simps [of so unc s] pullerReader_Read.simps [of "scannerSync_Pull so unc" s])

definition payload_values :: "(bval + (u8 \<times> bytes)) list \<Rightarrow> bval list" where
  "payload_values ps = concat (map (\<lambda>x. case x of Inl v \<Rightarrow> [v] | Inr _ \<Rightarrow> []) ps)"

lemma payload_values_simps [simp]: "payload_values [] = []" "payload_values (Inr m # ps) = payload_values ps"
  "payload_values (map Inl vs @ ps) = vs @ payload_values ps"
  by (induction vs) (simp_all add: payload_values_def)

lemma read_scans:
  assumes "scans so unc evs Q s" "\<And>s. Q s \<Longrightarrow> \<exists>s'. scannerSync_Pull so unc False s = Some (s', Inr None)"
  shows "\<exists>ps. read_payloads (Suc (length (event_payloads evs))) so unc s [] = Some ps \<and> erased_payloads ps = event_payloads evs"
    "\<exists>vs. read_values (Suc (length (payload_values (event_payloads evs)))) so unc s [] = Some vs \<and> erased vs = payload_values (event_payloads evs)"
proof -
  have "(\<exists>ps. read_payloads (Suc (length (event_payloads evs))) so unc s [] = Some ps \<and> erased_payloads ps = event_payloads evs) \<and>
    (\<exists>vs. read_values (Suc (length (payload_values (event_payloads evs)))) so unc s [] = Some vs \<and> erased vs = payload_values (event_payloads evs))"
    using assms(1)
  proof (induction evs arbitrary: s)
    case Nil
    then obtain s' where s': "scannerSync_Pull so unc False s = Some (s', Inr None)" using assms(2) by fastforce
    show ?case using reader_end [OF s'] by (simp add: erased_def)
  next
    case (Cons ev evs)
    show ?case
    proof (cases ev)
      case (Inl vs)
      then obtain s' vs' where s': "scannerSync_Pull so unc False s = Some (s', Inr (Some vs'))" "erased vs' = vs" "scans so unc evs Q s'"
        using Cons.prems by auto
      obtain ps us where "read_payloads (Suc (length (event_payloads evs))) so unc s' [] = Some ps" "erased_payloads ps = event_payloads evs"
        "read_values (Suc (length (payload_values (event_payloads evs)))) so unc s' [] = Some us" "erased us = payload_values (event_payloads evs)"
        using Cons.IH [OF s'(3)] by blast
      then have "read_payloads (Suc (length vs' + length (event_payloads evs))) so unc s [] = Some (map Inl vs' @ ps)"
        "read_values (Suc (length vs' + length (payload_values (event_payloads evs)))) so unc s [] = Some (vs' @ us)"
        "erased_payloads (map Inl vs' @ ps) = event_payloads (ev # evs)" "erased (vs' @ us) = payload_values (event_payloads (ev # evs))"
        using reader_batch [OF s'(1)] read_in_hand(1) [of vs' "Suc (length (event_payloads evs))" so unc s']
          read_in_hand(2) [of vs' "Suc (length (payload_values (event_payloads evs)))" so unc s'] Inl s'(2)
        by (simp_all add: erased_def)
      moreover have "length (event_payloads (ev # evs)) = length vs' + length (event_payloads evs)"
        "length (payload_values (event_payloads (ev # evs))) = length vs' + length (payload_values (event_payloads evs))"
        using Inl s'(2) by (auto simp: erased_def)
      ultimately show ?thesis by auto
    next
      case (Inr m)
      obtain fmt b where m: "m = (fmt, b)" by force
      then obtain s' where s': "scannerSync_Pull so unc False s = Some (s', Inl (PError (Control fmt b)))" "scans so unc evs Q s'"
        using Cons.prems Inr by auto
      then show ?thesis using reader_control [OF s'(1)] Cons.IH [OF s'(2)] Inr m by auto
    qed
  qed
  then show "\<exists>ps. read_payloads (Suc (length (event_payloads evs))) so unc s [] = Some ps \<and> erased_payloads ps = event_payloads evs"
    "\<exists>vs. read_values (Suc (length (payload_values (event_payloads evs)))) so unc s [] = Some vs \<and> erased vs = payload_values (event_payloads evs)"
    by auto
qed


subsection \<open>Properties\<close>

text \<open>
  C3: what a BSUP writer was given, a reader gives back. For any sequence of values, ends of stream and
  control messages, any threshold, with or without compression, no call of the writer fails, and from
  the bytes it wrote, read in pieces of any sizes through a buffer of any size into any context, reading
  payloads gives the values and control messages in order and then the end, and reading values gives
  the values alone. A value read has the bytes of the value written and structurally its type. The hypotheses
  are the documented behaviour of LZ4, types of one context that the format can carry, and frames within the
  maximum of the reader.
\<close>

theorem bsup_roundtrip:
  assumes "ctx_inv cx" "ctx_inv c" "length (byID c) + length (byID cx) \<le> 2 ^ 32" "plain so" "lz_ok lz unc"
    and "1 \<le> mx" "mx < 2 ^ 62" "\<forall>p\<in>set ops. op_ok cx mx th p" "\<And>k n. n \<le> grow k n"
  shows "\<exists>w1 w2. run_ops lz ops (NewWriterWithOpts [] compress th) = (w1, None) \<and> Writer_Close app lz (\<lambda>o'. (o', None)) w1 = (w2, None) \<and>
    (\<forall>src size'. io_bytes src = Some (w_out w2) \<longrightarrow>
      (let ps = concat (map op_payload ops); s = newScannerSync c src grow size' mx in
        (\<exists>ps'. read_payloads (Suc (length ps)) so unc s [] = Some ps' \<and> erased_payloads ps' = ps) \<and>
        (\<exists>vs. read_values (Suc (length (payload_values ps))) so unc s [] = Some vs \<and> erased vs = payload_values ps)))"
proof -
  obtain w1 w2 evs e where "run_ops lz ops (NewWriterWithOpts [] compress th) = (w1, None)" "Writer_Close app lz (\<lambda>o'. (o', None)) w1 = (w2, None)"
    and evs: "event_payloads evs = concat (map op_payload ops)"
    and scan: "\<And>src size'. io_bytes src = Some (w_out w2) \<Longrightarrow> scans so unc evs (scan_at c cx mx e []) (newScannerSync c src grow size' mx)"
    using session_scans [OF assms(1-8), of grow compress] assms(9) by blast
  moreover have "(\<exists>ps'. read_payloads (Suc (length (event_payloads evs))) so unc s [] = Some ps' \<and> erased_payloads ps' = event_payloads evs) \<and>
      (\<exists>vs. read_values (Suc (length (payload_values (event_payloads evs)))) so unc s [] = Some vs \<and> erased vs = payload_values (event_payloads evs))"
    if "scans so unc evs (scan_at c cx mx e []) s" for s
    using read_scans [OF that scan_end [of c cx mx e]] by blast
  ultimately show ?thesis unfolding Let_def evs [symmetric] by blast
qed

text \<open>A reader with no filters and no validation, and a compressor for sequences of zeros.\<close>

definition plain_opts :: scan_opts where
  "plain_opts = \<lparr>so_floats = \<lparr>float64_of_32 = ucast, float32_of_64 = ucast, Fromfloat32 = ucast, Float32 = ucast\<rparr>,
     so_validate = False, so_bufferFilter = None, so_filter = None\<rparr>"

definition lz_zeros :: "unit compressor" where
  "lz_zeros b = Inr (if 2 \<le> length b \<and> b = replicate (length b) 0 then Some [0] else None)"

theorem bsup_roundtrip_witness:
  "let v = (TypePrim TypeBytes, Some (replicate 3 0)); ops = [WriteValue v, WriteMessage 1 [7], EndOfStream, WriteValue v]
   in \<exists>w1 w2. run_ops lz_zeros ops (NewWriterWithOpts [] True 10) = (w1, None) \<and>
     Writer_Close app lz_zeros (\<lambda>o'. (o', None)) w1 = (w2, None) \<and>
     (\<exists>vs. read_values 3 plain_opts (\<lambda>z n. Inr (replicate n 0) :: unit + bytes) (newScannerSync NewContext [Data (w_out w2)] (\<lambda>k n. n) 1 1000) [] = Some vs \<and>
        erased vs = [v, v])"
proof -
  let ?v = "(TypePrim TypeBytes, Some (replicate 3 0)) :: bval"
  let ?ops = "[WriteValue ?v, WriteMessage 1 [7], EndOfStream, WriteValue ?v]"
  let ?unc = "\<lambda>z n. Inr (replicate n 0) :: unit + bytes"
  have lz: "lz_ok lz_zeros ?unc" by (auto simp: lz_ok_def lz_zeros_def split: if_splits)
  have "bsup_ok (TypePrim TypeBytes)" using bsup_ok.simps [of "TypePrim TypeBytes"] by simp
  then have "\<forall>p\<in>set ?ops. op_ok NewContext 1000 10 p" by (simp add: known_def)
  moreover have "plain plain_opts" "length (byID NewContext) + length (byID NewContext) \<le> 2 ^ 32"
    by (simp_all add: plain_def plain_opts_def NewContext_def IDTypeComplex_def)
  ultimately obtain w1 w2 where w: "run_ops lz_zeros ?ops (NewWriterWithOpts [] True 10) = (w1, None)"
    "Writer_Close app lz_zeros (\<lambda>o'. (o', None)) w1 = (w2, None)"
    and r: "\<forall>src size'. io_bytes src = Some (w_out w2) \<longrightarrow>
      (let ps = concat (map op_payload ?ops); s = newScannerSync NewContext src (\<lambda>k n. n) size' 1000 in
        (\<exists>ps'. read_payloads (Suc (length ps)) plain_opts ?unc s [] = Some ps' \<and> erased_payloads ps' = ps) \<and>
        (\<exists>vs. read_values (Suc (length (payload_values ps))) plain_opts ?unc s [] = Some vs \<and> erased vs = payload_values ps))"
    using bsup_roundtrip [OF ctx_inv_New ctx_inv_New _ _ lz, of plain_opts 1000 ?ops 10 "\<lambda>k n. n" True] by auto
  have "payload_values (concat (map op_payload ?ops)) = [?v, ?v]" by (simp add: payload_values_def)
  then obtain vs where "read_values 3 plain_opts ?unc (newScannerSync NewContext [Data (w_out w2)] (\<lambda>k n. n) 1 1000) [] = Some vs" "erased vs = [?v, ?v]"
    using r [rule_format, of "[Data (w_out w2)]" 1] by (auto simp: Let_def eval_nat_numeral)
  then show ?thesis using w unfolding Let_def by blast
qed

end
