(* ===== verification/Bsup_Safety.thy ===== *)
theory Bsup_Safety
  imports Bsup_Inv
begin

text \<open>
  The BSUP reader on input it was not written for, and the writer on an output that fails: reading always
  returns, lengths and identifiers with the top bit set panic, and the writer does not report the errors of
  the output below it.
\<close>

subsection \<open>Reading consumes input\<close>

fun io_len :: "io_item list \<Rightarrow> nat" where
  "io_len [] = 0"
| "io_len (Fail # s) = io_len s"
| "io_len (Data xs # s) = length xs + io_len s"

definition bytes_left :: "peeker \<Rightarrow> nat" where
  "bytes_left r = length (pk_cursor r) + io_len (pk_src r)"

lemma ReadAtLeast_len: "ReadAtLeast k m acc s = (s', b, e) \<Longrightarrow> length b + io_len s' = length acc + io_len s"
proof (induction k m acc s rule: ReadAtLeast.induct)
  case (1 k m acc s)
  show ?case
  proof (cases "m \<le> length acc")
    case True
    then show ?thesis using 1(2) by (simp add: ReadAtLeast.simps)
  next
    case False
    show ?thesis
    proof (cases s rule: io_len.cases)
      case (3 xs t)
      then show ?thesis
        using False 1(1) [OF False 3 refl refl] 1(2) by (auto simp: ReadAtLeast.simps [of k m acc] Let_def split: if_splits)
    qed (use False 1(2) in \<open>auto simp: ReadAtLeast.simps [of k m acc]\<close>)
  qed
qed

lemma fill_left: "fill need r = (r', e) \<Longrightarrow> bytes_left r' \<le> bytes_left r"
  using ReadAtLeast_len
  by (fastforce simp: fill_def bytes_left_def Let_def split: prod.splits option.splits if_splits peek_error.splits)

lemma Peek_left: "Peek n r = (r', x) \<Longrightarrow> bytes_left r' \<le> bytes_left r \<and> (\<forall>b. x = Inr b \<longrightarrow> nat n \<le> length (pk_cursor r'))"
  using fill_left by (fastforce simp: Peek_def split: prod.splits option.splits if_splits)

lemma peeker_Read_left: "peeker_Read n r = (r', x) \<Longrightarrow> bytes_left r' \<le> bytes_left r \<and> (\<forall>b. x = Inr b \<longrightarrow> bytes_left r' + nat n \<le> bytes_left r)"
  using Peek_left [of n r] by (fastforce simp: peeker_Read_def bytes_left_def split: prod.splits sum.splits)

lemma peeker_ReadByte_left: "peeker_ReadByte r = (r', x) \<Longrightarrow> bytes_left r' \<le> bytes_left r \<and> (\<forall>b. x = Inr b \<longrightarrow> bytes_left r' < bytes_left r)"
  using peeker_Read_left [of 1 r]
  by (fastforce simp: peeker_ReadByte_def bytes_left_def split: list.splits prod.splits sum.splits)

lemma peek_uvarint_loop_left: "peek_uvarint_loop i x s r = (r', y) \<Longrightarrow> bytes_left r' \<le> bytes_left r"
proof (induction i x s r rule: peek_uvarint_loop.induct)
  case (1 i x s r)
  obtain r1 b where b: "peeker_ReadByte r = (r1, b)" by force
  note l = peeker_ReadByte_left [OF b]
  show ?case
  proof (cases "i < 10 \<and> (\<exists>c. b = Inr c \<and> \<not> c < 0x80)")
    case True
    then obtain c where c: "b = Inr c" "\<not> c < 0x80" "i < 10" by blast
    then have "bytes_left r' \<le> bytes_left r1" using 1(1) [OF c(3) _ _ c(2), of r1 b] 1(2) b by (simp add: peek_uvarint_loop.simps [of i x s r])
    then show ?thesis using l by simp
  next
    case False
    then have "r' = r1 \<or> r' = r" using 1(2) b by (auto simp: peek_uvarint_loop.simps [of i x s r] split: sum.splits if_splits)
    then show ?thesis using l by auto
  qed
qed

abbreviation pleft :: "parser \<Rightarrow> nat" where
  "pleft p \<equiv> bytes_left (p_peeker p)"

lemma p_ReadByte_left: "p_ReadByte p = (p', x) \<Longrightarrow> pleft p' \<le> pleft p \<and> (\<forall>b. x = Inr b \<longrightarrow> pleft p' < pleft p)"
  using peeker_ReadByte_left [of "p_peeker p"] by (fastforce simp: p_ReadByte_def split: prod.splits sum.splits)

lemma p_readUvarint_left: "p_readUvarint p = (p', x) \<Longrightarrow> pleft p' \<le> pleft p"
  using peek_uvarint_loop_left [of 0 0 0 "p_peeker p"] by (fastforce simp: p_readUvarint_def peek_ReadUvarint_def split: prod.splits sum.splits)

lemma p_bind_left:
  "pleft (fst m) \<le> n \<Longrightarrow> (\<And>a p. pleft p \<le> n \<Longrightarrow> pleft (fst (f a p)) \<le> n) \<Longrightarrow> pleft (fst (p_bind m f)) \<le> n"
  by (cases m; cases "snd m") auto

lemma p_left:
  "pleft (fst (p_ReadByte p)) \<le> pleft p" "pleft (fst (p_readUvarint p)) \<le> pleft p"
  "bytes_left (fst (peeker_Read n r)) \<le> bytes_left r"
  using p_ReadByte_left [of p] p_readUvarint_left [of p] peeker_Read_left [of n r] by (metis prod.collapse)+

lemma read_frame_left: "pleft (fst (read_frame code p)) \<le> pleft p"
proof -
  have 1: "pleft (fst (decodeLength code p)) \<le> pleft p" for p
    unfolding decodeLength_def by (rule p_bind_left, rule p_left) simp
  have 2: "pleft (fst (readFrame code p)) \<le> pleft p" for p
    unfolding readFrame_def
  proof (rule p_bind_left, rule 1)
    fix n q assume "pleft q \<le> pleft p"
    then show "pleft (fst (if n > p_maxSize q then (q, Inl FrameTooLong)
        else case peeker_Read n (p_peeker q) of (r, Inl e) \<Rightarrow> (q\<lparr>p_peeker := r\<rparr>, Inl (if e = BufferOverflow then ValueTooBig else PeekErr e))
          | (r, Inr b) \<Rightarrow> (q\<lparr>p_peeker := r\<rparr>, Inr b))) \<le> pleft p"
      using p_left(3) [of n "p_peeker q"] by (auto split: prod.splits sum.splits)
  qed
  have 3: "pleft (fst (readCompressedFrame code p)) \<le> pleft p" for p
    unfolding readCompressedFrame_def
  proof (intro p_bind_left, rule 1)
    fix q assume "pleft q \<le> pleft p"
    then show "pleft (fst (p_ReadByte q)) \<le> pleft p" using p_left(1) le_trans by blast
  next
    fix q assume "pleft q \<le> pleft p"
    then show "pleft (fst (p_readUvarint q)) \<le> pleft p" using p_left(2) le_trans by blast
  next
    fix n fmt u q assume q: "pleft q \<le> pleft p"
    have "pleft (q\<lparr>p_peeker := fst (peeker_Read k (p_peeker q))\<rparr>) \<le> pleft p" for k using p_left(3) [of k "p_peeker q"] q by simp
    then show "pleft (fst (let size' = sint u in if size' > p_maxSize q then (q, Inl FrameTooLong)
        else let n = sint (word_of_int n - word_of_int (1 + int (SizeOfUvarint u)) :: u64) in
         (case peeker_Read n (p_peeker q) of
            (r, Inl e) \<Rightarrow> if e \<noteq> PeekEOF then (q\<lparr>p_peeker := r\<rparr>, Inl (if e = BufferOverflow then ValueTooBig else Malformed))
              else (q\<lparr>p_peeker := r\<rparr>, if size' < 0 then Inl ParsePanic else Inr (CompFrame fmt [] (nat size')))
          | (r, Inr b) \<Rightarrow> (q\<lparr>p_peeker := r\<rparr>, if size' < 0 then Inl ParsePanic else Inr (CompFrame fmt b (nat size')))))) \<le> pleft p"
      using q by (auto simp: Let_def split: prod.splits sum.splits) (metis fst_conv)+
  qed
  show ?thesis
    unfolding read_frame_def using 3 [of p] p_bind_left [OF 2 [of p], of "\<lambda>b p. (p, Inr (RawFrame b))"] by simp
qed


subsection \<open>Reading returns\<close>

definition is_control :: "parse_error \<Rightarrow> bool" where
  "is_control x \<longleftrightarrow> (\<exists>f b. x = Control f b)"

lemma is_control_simps [simp]: "is_control (Control f b)" "\<not> is_control (PeekErr e)" "\<not> is_control UnexpectedEOF" "\<not> is_control Overflow64"
  "\<not> is_control WrongVersion" "\<not> is_control UnknownFrame" "\<not> is_control FrameTooLong" "\<not> is_control ValueTooBig" "\<not> is_control Malformed"
  "\<not> is_control (UnknownCompression f)" "\<not> is_control BadCompressed" "\<not> is_control (DecodeErr d)" "\<not> is_control InvalidValue" "\<not> is_control ParsePanic"
  by (auto simp: is_control_def)

lemma parser_read_total:
  "\<exists>p' x. parser_read unc p = Some (p', x) \<and> pleft p' \<le> pleft p \<and> (case x of Inr f \<Rightarrow> pleft p' < pleft p | Inl y \<Rightarrow> is_control y \<longrightarrow> pleft p' < pleft p)"
proof (induction "pleft p" arbitrary: p rule: less_induct)
  case less
  obtain p1 x where b: "p_ReadByte p = (p1, x)" by force
  note l = p_ReadByte_left [OF b]
  show ?case
  proof (cases x)
    case (Inl y)
    then have "parser_read unc p = Some (p1, Inl y)" "\<not> is_control y" using b by (auto simp: parser_read.simps [of unc p] p_ReadByte_def split: prod.splits sum.splits)
    then show ?thesis using l by auto
  next
    case (Inr code)
    have again: "\<exists>p' x. parser_read unc q = Some (p', x) \<and> pleft p' \<le> pleft p \<and> (case x of Inr f \<Rightarrow> pleft p' < pleft p | Inl y \<Rightarrow> is_control y \<longrightarrow> pleft p' < pleft p)"
      if "pleft q \<le> pleft p1" for q
    proof -
      have q: "pleft q < pleft p" using that l Inr by auto
      then show ?thesis using less [OF q] by (fastforce split: sum.splits)
    qed
    obtain p2 f where f: "read_frame code p1 = (p2, f)" by force
    have p2: "pleft p2 < pleft p" using read_frame_left [of code p1] f l Inr by auto
    have types: "\<exists>p3 z. decodeTypes unc code p1 = (p3, z) \<and> pleft p3 \<le> pleft p1"
      using f read_frame_left [of code p1] by (auto simp: decodeTypes_def split: sum.splits prod.splits) (cases f; auto split: sum.splits prod.splits)
    have control: "\<exists>y. decodeControl unc code p1 = (p2, y)"
      using f by (auto simp: decodeControl_def split: sum.splits list.splits)
    let ?kind = "drop_bit 4 code AND 3"
    consider "code = 0xff" | "code \<noteq> 0xff" "code AND 0x80 = 0" "?kind = 0" | "code \<noteq> 0xff" "code AND 0x80 = 0" "?kind = 1"
      | "code \<noteq> 0xff" "code AND 0x80 = 0" "?kind = 2" | "code \<noteq> 0xff" "code AND 0x80 \<noteq> 0 \<or> ?kind \<noteq> 0 \<and> ?kind \<noteq> 1 \<and> ?kind \<noteq> 2" by blast
    then show ?thesis
    proof cases
      case 1
      then have "parser_read unc p = parser_read unc (p1\<lparr>p_types := NewDecoder (d_sctx (p_types p1))\<rparr>)" using b Inr by (simp add: parser_read.simps [of unc p])
      then show ?thesis using again [of "p1\<lparr>p_types := NewDecoder (d_sctx (p_types p1))\<rparr>"] by simp
    next
      case 2
      obtain p3 z where z: "decodeTypes unc code p1 = (p3, z)" "pleft p3 \<le> pleft p1" using types by blast
      then have "parser_read unc p = (case z of Inl y \<Rightarrow> Some (p3, Inl y) | Inr _ \<Rightarrow> parser_read unc p3)"
        using 2 b Inr by (simp add: parser_read.simps [of unc p] Let_def)
      then show ?thesis using again [OF z(2)] z(2) l Inr by (cases z) auto
    next
      case 3
      then have "parser_read unc p = Some (p2, f)" using b f Inr by (simp add: parser_read.simps [of unc p] Let_def decodeValues_def)
      then show ?thesis using p2 by (auto split: sum.splits)
    next
      case 4
      then show ?thesis using control b p2 Inr by (auto simp: parser_read.simps [of unc p] Let_def)
    next
      case 5
      then show ?thesis using b l Inr by (auto simp: parser_read.simps [of unc p] Let_def)
    qed
  qed
qed

lemma TypeCache_no_control: "TypeCache_LookupType fetch cache i = (c, Inl x) \<Longrightarrow> \<not> is_control x"
  by (auto simp: TypeCache_LookupType_def Let_def split: if_splits option.splits sum.splits)

lemma decodeVal_no_control: "decodeVal fo val types cache buf = (c, Inl x) \<Longrightarrow> \<not> is_control x"
  using TypeCache_no_control
  by (fastforce simp: decodeVal_def Let_def split: if_splits option.splits sum.splits prod.splits read_error.splits)

lemma scan_values_no_control: "scan_values so types cache buf vals pr = Inl x \<Longrightarrow> \<not> is_control x"
proof (induction so types cache buf vals pr rule: scan_values.induct)
  case (1 so types cache buf vals pr)
  obtain c r where d: "decodeVal (so_floats so) (so_validate so) types cache buf = (c, r)" by force
  show ?case
  proof (cases r)
    case (Inl y)
    then have "x = y" using 1(2) d by (subst (asm) scan_values.simps) (auto split: if_splits)
    then show ?thesis using decodeVal_no_control d Inl by blast
  next
    case (Inr a)
    obtain v b where a: "a = (v, b)" by (cases a)
    obtain pr1 want where w: "wantValue (so_filter so) v pr = (pr1, want)" by force
    have buf: "buf \<noteq> []" using 1(2) by (subst (asm) scan_values.simps) auto
    then have "scan_values so types cache buf vals pr = scan_values so types c b (if want then vals @ [v] else vals) pr1"
      by (subst scan_values.simps) (simp add: d Inr a w)
    then show ?thesis using 1(1) [OF _ d [symmetric] Inr a [symmetric] w [symmetric]] 1(2) buf by simp
  qed
qed

abbreviation sleft :: "scanner \<Rightarrow> nat" where
  "sleft s \<equiv> pleft (sc_parser s)"

definition pull_progress :: "scanner \<Rightarrow> scanner \<Rightarrow> parse_error pfail + bval list option \<Rightarrow> bool" where
  "pull_progress s s' x \<longleftrightarrow> sleft s' \<le> sleft s \<and> (case x of Inr None \<Rightarrow> True | Inr (Some vs) \<Rightarrow> vs \<noteq> [] \<and> sleft s' < sleft s
     | Inl (PError y) \<Rightarrow> is_control y \<longrightarrow> sleft s' < sleft s | Inl PPanic \<Rightarrow> True)"

lemma to_pfail_control: "to_pfail x = PError y \<Longrightarrow> y = x"
  by (cases x rule: to_pfail.cases) auto

lemma pull_progress_error: "\<not> is_control x \<or> sleft s' < sleft s \<Longrightarrow> sleft s' \<le> sleft s \<Longrightarrow> pull_progress s s' (Inl (to_pfail x))"
  using to_pfail_control by (cases "to_pfail x") (fastforce simp: pull_progress_def)+

lemma scan_again_total: "\<exists>s' x. scan_again so unc s = Some (s', x) \<and> pull_progress s s' x"
proof (induction "sleft s" arbitrary: s rule: less_induct)
  case less
  obtain p x where p: "parser_read unc (sc_parser s) = Some (p, x)" "pleft p \<le> sleft s"
    "case x of Inr f \<Rightarrow> pleft p < sleft s | Inl y \<Rightarrow> is_control y \<longrightarrow> pleft p < sleft s"
    using parser_read_total [of unc "sc_parser s"] by blast
  show ?case
  proof (cases x)
    case (Inl y)
    have "pull_progress s (s\<lparr>sc_parser := p\<rparr>) (if y = PeekErr PeekEOF then Inr None else Inl (to_pfail y))"
      using p(2,3) Inl pull_progress_error [of y "s\<lparr>sc_parser := p\<rparr>" s] by (auto simp: pull_progress_def)
    then show ?thesis using p(1) Inl by (auto simp: scan_again.simps [of so unc s])
  next
    case (Inr f)
    then have lt: "pleft p < sleft s" using p(3) by simp
    show ?thesis
    proof (cases "frame_decompress unc f")
      case (Inl y)
      then show ?thesis using p(1) Inr lt pull_progress_error [of y "s\<lparr>sc_parser := p\<rparr>" s] by (auto simp: scan_again.simps [of so unc s])
    next
      case b: (Inr b)
      obtain pr r where r: "scanBatch so b (p_types p) (sc_progress s) = (pr, r)" by force
      let ?s = "s\<lparr>sc_parser := p, sc_progress := pr\<rparr>"
      have e: "scan_again so unc s = (case r of Inl y \<Rightarrow> Some (?s, Inl (to_pfail y)) | Inr (Some vals) \<Rightarrow> Some (?s, Inr (Some vals)) | Inr None \<Rightarrow> scan_again so unc ?s)"
        using p(1) Inr b r by (simp add: scan_again.simps [of so unc s])
      consider y where "r = Inl y" | vs where "r = Inr (Some vs)" "vs \<noteq> []" | "r = Inr None"
        using r by (auto simp: scanBatch_def split: if_splits sum.splits prod.splits option.splits)
      then show ?thesis
      proof cases
        case 1
        then show ?thesis using e lt pull_progress_error [of y ?s s] by auto
      next
        case 2
        then show ?thesis using e lt by (auto simp: pull_progress_def)
      next
        case 3
        then show ?thesis using e lt less [of ?s] by (fastforce simp: pull_progress_def split: sum.splits option.splits pfail.splits)
      qed
    qed
  qed
qed

lemma pull_total: "\<exists>s' x. scannerSync_Pull so unc False s = Some (s', x) \<and> pull_progress s s' x"
  using scan_again_total [of so unc s] by (auto simp: scannerSync_Pull_def pull_progress_def)

lemma pullerReader_total:
  "\<exists>s' vs' x. pullerReader_Read (scannerSync_Pull so unc) s vs = Some ((s', vs'), x) \<and>
     (\<forall>f b. x = Inl (PError (Control f b)) \<longrightarrow> sleft s' < sleft s)"
proof (cases vs)
  case Nil
  obtain s' x where x: "scannerSync_Pull so unc False s = Some (s', x)" "pull_progress s s' x" using pull_total by blast
  consider y where "x = Inl y" | "x = Inr None" | v vs' where "x = Inr (Some (v # vs'))"
    using x(2) by (cases x; cases "projr x") (auto simp: pull_progress_def neq_Nil_conv)
  then show ?thesis
    using x Nil by cases (auto simp: pullerReader_Read.simps [of "scannerSync_Pull so unc" s] pullerReader_Read.simps [of _ s' "_ # _"] pull_progress_def)
qed (simp add: pullerReader_Read.simps)

subsection \<open>Properties\<close>

text \<open>
  C17: reading a BSUP stream always returns, whatever the input: with any bytes, in pieces of any sizes and
  with any errors of the reader below, any decompressor, filters and options, a pull of the scanner and a
  read of the reader give a result after finitely many steps: a value, the end, an error or a panic, but never
  an endless loop.
\<close>

theorem bsup_reading_returns:
  "(\<exists>s' x. scannerSync_Pull so unc done s = Some (s', x)) \<and> (\<exists>s' vs' x. Reader_Read so unc s vs = Some ((s', vs'), x)) \<and>
   (\<exists>p' x. parser_read unc p = Some (p', x))"
proof (intro conjI)
  show "\<exists>s' x. scannerSync_Pull so unc done s = Some (s', x)" using pull_total [of so unc s] by (auto simp: scannerSync_Pull_def)
  show "\<exists>p' x. parser_read unc p = Some (p', x)" using parser_read_total by blast
  show "\<exists>s' vs' x. Reader_Read so unc s vs = Some ((s', vs'), x)"
  proof (induction "sleft s" arbitrary: s vs rule: less_induct)
    case less
    obtain s' vs' x where x: "pullerReader_Read (scannerSync_Pull so unc) s vs = Some ((s', vs'), x)"
      "\<And>f b. x = Inl (PError (Control f b)) \<Longrightarrow> sleft s' < sleft s" using pullerReader_total by blast
    show ?case
    proof (cases "\<exists>f b. x = Inl (PError (Control f b))")
      case True
      then show ?thesis using x less [of s' vs'] by (auto simp: Reader_Read.simps [of so unc s])
    next
      case False
      then have "Reader_Read so unc s vs = Some ((s', vs'), x)"
        using x(1) by (auto simp: Reader_Read.simps [of so unc s] split: sum.splits pfail.splits parse_error.splits)
      then show ?thesis by blast
    qed
  qed
qed


text \<open>An output that takes nothing.\<close>

definition rejects :: "('o, 'e) out \<Rightarrow> bool" where
  "rejects wr \<longleftrightarrow> (\<forall>o' b. fst (wr o' b) = o' \<and> snd (wr o' b) \<noteq> None)"

fun write_values :: "('o, 'e) out \<Rightarrow> 'c compressor \<Rightarrow> bval list \<Rightarrow> 'o bsup_writer \<Rightarrow> ('o, 'e, 'c) bw_res" where
  "write_values wr lz [] w = (w, None)"
| "write_values wr lz (v # vs) w = wr_bind (Writer_Write wr lz v w) (write_values wr lz vs)"

definition untouched :: "'o bsup_writer \<Rightarrow> 'o bsup_writer \<Rightarrow> bool" where
  "untouched w w' \<longleftrightarrow> w_out w' = w_out w \<and> w_position w' = w_position w \<and> w_flushed w' = w_flushed w"

lemma bw_write_rejects:
  assumes "rejects wr"
  shows "bw_write wr p w = (w, Some (OutErr (the (snd (wr (w_out w) p)))))"
proof -
  obtain x where "wr (w_out w) p = (w_out w, Some x)" using assms by (metis rejects_def option.exhaust prod.collapse)
  then show ?thesis by (simp add: bw_write_def)
qed

lemma writeBlock_rejects:
  assumes "rejects wr"
  shows "\<exists>x. writeBlock wr lz ft b w = (w, x) \<and> (b = [] \<longleftrightarrow> x = None)"
proof (cases "b = []")
  case False
  then show ?thesis
    by (auto simp: writeBlock_def writeHeader_def writeCompHeader_def bw_write_rejects [OF assms] split: sum.split option.split)
qed (simp add: writeBlock_def)

lemma flush_rejects:
  assumes "rejects wr"
  shows "\<exists>w'. flush wr lz w = (w', None) \<and> untouched w w'"
proof -
  obtain x where x: "writeBlock wr lz TypesFrame (e_bytes (w_types w)) w = (w, x)" using writeBlock_rejects [OF assms] by blast
  obtain y where y: "writeBlock wr lz ValuesFrame (w_values w) w = (w, y)" using writeBlock_rejects [OF assms] by blast
  show ?thesis using x y by (auto simp: flush_def untouched_def split: option.split)
qed

lemma Writer_Write_rejects:
  assumes "rejects wr"
  shows "\<exists>w' x. Writer_Write wr lz v w = (w', x) \<and> untouched w w' \<and> (\<forall>y. x \<noteq> Some (OutErr y))"
proof -
  obtain e r where r: "(case Encoder_Lookup (w_types w) (fst v) of Some typ \<Rightarrow> (w_types w, Inr typ) | None \<Rightarrow> Encode (fst v) (w_types w)) = (e, r)" by force
  show ?thesis
  proof (cases r)
    case (Inl x)
    then show ?thesis using r by (simp add: Writer_Write_def untouched_def)
  next
    case (Inr t)
    let ?w = "w\<lparr>w_types := e, w_values := Append (AppendUvarint (w_values w) (of_nat (TypeID t))) (snd v)\<rparr>"
    obtain w' where w': "flush wr lz ?w = (w', None)" "untouched ?w w'" using flush_rejects [OF assms] by blast
    then have "untouched w w'" by (simp add: untouched_def)
    moreover have "Writer_Write wr lz v w = (w', None) \<or> Writer_Write wr lz v w = (?w, None)"
      using r Inr w'(1) by (simp add: Writer_Write_def Let_def)
    moreover have "untouched w ?w" by (simp add: untouched_def)
    ultimately show ?thesis by auto
  qed
qed

lemma write_values_rejects:
  "rejects wr \<Longrightarrow> \<exists>w' x. write_values wr lz vs w = (w', x) \<and> untouched w w' \<and> (\<forall>y. x \<noteq> Some (OutErr y))"
proof (induction vs arbitrary: w)
  case (Cons v vs)
  obtain w1 x where w1: "Writer_Write wr lz v w = (w1, x)" "untouched w w1" "\<forall>y. x \<noteq> Some (OutErr y)"
    using Writer_Write_rejects [OF Cons.prems] by blast
  then show ?case using Cons.IH [OF Cons.prems, of w1] by (cases x) (auto simp: untouched_def)
qed (simp add: untouched_def)

text \<open>
  C37: the writer does not report that its output is lost. With an output that takes nothing and reports an
  error for every write, writing any values to a new writer and closing it gives none of these errors, and
  closing gives no error at all, though nothing was written: \<open>flush\<close> returns nil for every error of
  \<open>writeBlock\<close>, and with no bytes written \<open>EndStream\<close> does not write the end of stream either.
\<close>

theorem output_errors_lost:
  assumes "rejects wr"
  shows "\<exists>w x w'. write_values wr lz vs (NewWriterWithOpts o' compress thresh) = (w, x) \<and> (\<forall>y. x \<noteq> Some (OutErr y)) \<and>
    Writer_Close wr lz (\<lambda>o'. (o', None)) w = (w', None) \<and> w_out w' = o'"
proof -
  let ?w0 = "NewWriterWithOpts o' compress thresh"
  obtain w x where w: "write_values wr lz vs ?w0 = (w, x)" "untouched ?w0 w" "\<forall>y. x \<noteq> Some (OutErr y)" using write_values_rejects [OF assms] by blast
  obtain w1 where w1: "flush wr lz w = (w1, None)" "untouched w w1" using flush_rejects [OF assms] by blast
  have "EndStream wr lz w = (w1\<lparr>w_types := Encoder_Reset (w_types w1)\<rparr>, None)" "w_out w1 = o'"
    using w(2) w1 by (auto simp: EndStream_def untouched_def NewWriterWithOpts_def)
  then show ?thesis using w by (auto simp: Writer_Close_def)
qed

theorem output_errors_lost_witness:
  "\<exists>w x w'. write_values (\<lambda>o' b. (o', Some ())) (\<lambda>b. Inr None :: unit + bytes option) [(TypePrim TypeInt64, Some [2])] (NewWriterWithOpts [7 :: u8] True 1) = (w, x) \<and>
    Writer_Close (\<lambda>o' b. (o', Some ())) (\<lambda>b. Inr None :: unit + bytes option) (\<lambda>o'. (o', None)) w = (w', None) \<and> w_out w' = [7]"
  using output_errors_lost [of "\<lambda>o' b. (o', Some ())" "\<lambda>b. Inr None :: unit + bytes option" "[(TypePrim TypeInt64, Some [2])]" "[7 :: u8]" True 1]
  by (auto simp: rejects_def)

text \<open>
  C38: in three places, numbers with the top bit set, which only malformed input has, panic instead of giving an
  error: a type identifier of a value (the cache of types is indexed with the negative number), the length
  of a name in a type definition (a slice with a negative bound), and the number of types of a union (the
  allocation of the slice); the context's own lookup checks for negative identifiers.
\<close>

theorem negative_lengths_panic:
  assumes "sint u < 0" "case b of None \<Rightarrow> True | Some x \<Rightarrow> length x < 2 ^ 62"
  shows "snd (decodeVal fo validate d cache (put_uvarint u @ Append [] b @ rest)) = Inl ParsePanic \<and>
    readCountedString (put_uvarint u @ rest) = Inl BsupPanic \<and>
    snd (readTypeUnion d (put_uvarint u @ rest)) = Inl BsupPanic \<and>
    LookupType c (sint u) = Inl (NegativeTypeID (sint u))"
proof -
  have u: "readUvarintAsInt (put_uvarint u @ r) = Inr (sint u, r)" for r by (simp add: readUvarintAsInt_def ReadUvarint_put)
  have c: "TypeCache_LookupType fetch cache (sint u) = (cache, Inl ParsePanic)" for fetch using assms(1) by (simp add: TypeCache_LookupType_def)
  have "snd (decodeVal fo validate d cache (put_uvarint u @ Append [] b @ rest)) = Inl ParsePanic"
  proof (cases b)
    case None
    then show ?thesis using ReadTag_Append [OF assms(2), of rest] c by (simp add: decodeVal_def u)
  next
    case (Some x)
    then have "sint (of_nat (length x) :: u64) = int (length x)" using assms(2) by (intro sint_small) simp
    then show ?thesis
      using ReadTag_Append [OF assms(2), of rest] Some c by (cases "x = []") (simp_all add: decodeVal_def u buffer_read_def Let_def)
  qed
  then show ?thesis
    using assms(1) by (simp add: readCountedString_def readTypeUnion_def LookupType_def u buffer_read_def MaxUnionTypes_def)
qed

theorem negative_lengths_panic_witness:
  "readCountedString (put_uvarint (- 1)) = Inl BsupPanic \<and>
   snd (decodeVal \<lparr>float64_of_32 = ucast, float32_of_64 = ucast, Fromfloat32 = ucast, Float32 = ucast\<rparr> False
     (NewDecoder NewContext) [] (put_uvarint (- 1) @ Append [] None @ [])) = Inl ParsePanic"
  using negative_lengths_panic [of "- 1" None "\<lparr>float64_of_32 = ucast, float32_of_64 = ucast, Fromfloat32 = ucast, Float32 = ucast\<rparr>" False
      "NewDecoder NewContext" "[]" "[]" NewContext] by simp

end
