(* ===== verification/Bsup_Threads.thy ===== *)
theory Bsup_Threads
  imports Bsup_Safety "HOL-Library.Sublist"
begin

text \<open>
  The BSUP scanner with several threads (\<open>zio/bsupio/scanner.go\<close>) as a step relation: the input goroutine
  that reads frames and hands them to workers, the workers, the channels between them, and a consumer that
  pulls until it gets the end or an error; and the list of results in the order of the input, which the lemmas
  on the runs compare them with.
\<close>

subsection \<open>Results in sequence\<close>

type_synonym tresult = "parse_error pfail + bval list option"
type_synonym work_frame = "decoder \<times> bframe"

text \<open>What a worker sends for a frame: nothing when no value is left.\<close>

definition job_result :: "scan_opts \<Rightarrow> 'c decompressor \<Rightarrow> work_frame \<Rightarrow> tresult list" where
  "job_result so unc j = (case frame_decompress unc (snd j) of
      Inl x \<Rightarrow> [Inl (to_pfail x)]
    | Inr b \<Rightarrow> (case snd (scanBatch so b (fst j) no_progress) of
        Inl x \<Rightarrow> [Inl (to_pfail x)] | Inr None \<Rightarrow> [] | Inr (Some vs) \<Rightarrow> [Inr (Some vs)]))"

definition end_result :: "parse_error \<Rightarrow> tresult" where
  "end_result x = (if x = PeekErr PeekEOF then Inr None else Inl (to_pfail x))"

definition final_result :: "tresult \<Rightarrow> bool" where
  "final_result r = (case r of Inr None \<Rightarrow> True | Inr (Some _) \<Rightarrow> False | Inl (PError x) \<Rightarrow> \<not> is_control x | Inl PPanic \<Rightarrow> True)"

function results :: "scan_opts \<Rightarrow> 'c decompressor \<Rightarrow> parser \<Rightarrow> tresult list" where
  "results so unc p = (case parser_read unc p of
      None \<Rightarrow> []
    | Some (p', Inl x) \<Rightarrow> if is_control x then Inl (PError x) # results so unc p' else [end_result x]
    | Some (p', Inr f) \<Rightarrow> job_result so unc (p_types p', f) @ results so unc p')"
  by pat_completeness auto
termination
proof (relation "measure (\<lambda>(so, unc, p). pleft p)", goal_cases)
  case (2 so unc p y p' x e)
  then show ?case using parser_read_total [of unc p] by auto
next
  case (3 so unc p y p' x f)
  then show ?case using parser_read_total [of unc p] by auto
qed simp

declare results.simps [simp del]

subsection \<open>The goroutines\<close>

record chan =
  c_content :: "tresult option"
  c_closed :: bool

datatype inputloc = Reading | Sending tresult bool | NeedWorker work_frame | Queueing nat work_frame | Giving nat work_frame nat | InputExited
datatype workerloc = Offering | Idle | Busy work_frame nat | WorkerExited
datatype pulloc = Calling | Selecting | Receiving nat | Draining | Hung | Stopped

record tscanner =
  t_parser :: parser
  t_input :: inputloc
  t_workers :: "workerloc list"
  t_workerCh :: "nat list"
  t_resultChCh :: "nat list"
  t_closed :: bool
  t_chans :: "chan list"
  t_cancelled :: bool
  t_pull :: pulloc
  t_out :: "tresult list"

definition tstart :: "nat \<Rightarrow> parser \<Rightarrow> tscanner" where
  "tstart threads p = \<lparr>t_parser = p, t_input = Reading, t_workers = replicate threads Offering, t_workerCh = [], t_resultChCh = [],
     t_closed = False, t_chans = [], t_cancelled = False, t_pull = Calling, t_out = []\<rparr>"

definition new_chan :: chan where
  "new_chan = \<lparr>c_content = None, c_closed = False\<rparr>"

text \<open>The send on a channel of capacity one that the goroutine has just made.\<close>

definition sent :: "tresult \<Rightarrow> chan" where
  "sent r = new_chan\<lparr>c_content := Some r\<rparr>"

text \<open>
  A worker sends its result, if there is one, and closes the channel; after a failed decompression it does
  not close it.
\<close>

definition answered :: "'c decompressor \<Rightarrow> work_frame \<Rightarrow> tresult list \<Rightarrow> chan" where
  "answered unc j rs = \<lparr>c_content = (case rs of [] \<Rightarrow> None | r # _ \<Rightarrow> Some r), c_closed = (case frame_decompress unc (snd j) of Inl _ \<Rightarrow> False | Inr _ \<Rightarrow> True)\<rparr>"

text \<open>
  The steps of \<open>start\<close> (up to \<open>give_cancelled\<close>; \<open>sendControl\<close> is \<open>send\<close> and \<open>send_cancelled\<close>), of \<open>worker.run\<close> (up to
  \<open>answer\<close>) and of \<open>Pull\<close>. A select of the code is several rules for one location, of which any that is ready may be
  taken. The types of a frame are those its decoder has when the frame is read; while the frame waits, the
  input goroutine may add to this decoder, so the worker sees these types and perhaps some more. \<open>cap\<close> is the
  capacity of \<open>resultChCh\<close>; \<open>workerCh\<close> has room for all workers, so an offer never blocks. With \<open>ext\<close> the context may
  be cancelled from outside and the consumer may pull with done. A receive on a nil channel blocks for ever:
  \<open>Hung\<close>. A panic of a worker is handed on as its result, where in the code it ends the process; the properties of
  complete runs are about input on which no worker panics. The goroutines run from the beginning and not from the first call of \<open>Pull\<close>, which allows more runs.
\<close>

inductive tstep :: "scan_opts \<Rightarrow> 'c decompressor \<Rightarrow> nat \<Rightarrow> bool \<Rightarrow> tscanner \<Rightarrow> tscanner \<Rightarrow> bool" for so unc cap ext where
  read_frame: "t_input s = Reading \<Longrightarrow> parser_read unc (t_parser s) = Some (p, Inr f) \<Longrightarrow>
    tstep so unc cap ext s (s\<lparr>t_parser := p, t_input := NeedWorker (p_types p, f)\<rparr>)"
| read_control: "t_input s = Reading \<Longrightarrow> parser_read unc (t_parser s) = Some (p, Inl x) \<Longrightarrow> is_control x \<Longrightarrow>
    tstep so unc cap ext s (s\<lparr>t_parser := p, t_input := Sending (Inl (PError x)) False\<rparr>)"
| read_end: "t_input s = Reading \<Longrightarrow> parser_read unc (t_parser s) = Some (p, Inl x) \<Longrightarrow> \<not> is_control x \<Longrightarrow>
    tstep so unc cap ext s (s\<lparr>t_parser := p, t_input := Sending (end_result x) True\<rparr>)"
| send: "t_input s = Sending r stop \<Longrightarrow> length (t_resultChCh s) < cap \<Longrightarrow>
    tstep so unc cap ext s (s\<lparr>t_chans := t_chans s @ [sent r], t_resultChCh := t_resultChCh s @ [length (t_chans s)],
      t_input := (if stop then InputExited else Reading), t_closed := stop\<rparr>)"
| send_cancelled: "t_input s = Sending r stop \<Longrightarrow> t_cancelled s \<Longrightarrow>
    tstep so unc cap ext s (s\<lparr>t_input := (if stop then InputExited else Reading), t_closed := stop\<rparr>)"
| take_worker: "t_input s = NeedWorker j \<Longrightarrow> t_workerCh s = w # ws \<Longrightarrow>
    tstep so unc cap ext s (s\<lparr>t_workerCh := ws, t_input := Queueing w j\<rparr>)"
| queue_result: "t_input s = Queueing w j \<Longrightarrow> length (t_resultChCh s) < cap \<Longrightarrow>
    tstep so unc cap ext s (s\<lparr>t_chans := t_chans s @ [new_chan], t_resultChCh := t_resultChCh s @ [length (t_chans s)],
      t_input := Giving w j (length (t_chans s))\<rparr>)"
| give: "t_input s = Giving w j ch \<Longrightarrow> w < length (t_workers s) \<Longrightarrow> t_workers s ! w = Idle \<Longrightarrow>
    tstep so unc cap ext s (s\<lparr>t_input := Reading, t_workers := (t_workers s)[w := Busy j ch]\<rparr>)"
| input_cancelled: "t_input s = NeedWorker j \<or> t_input s = Queueing w j \<Longrightarrow> t_cancelled s \<Longrightarrow>
    tstep so unc cap ext s (s\<lparr>t_input := InputExited, t_closed := True\<rparr>)"
| give_cancelled: "t_input s = Giving w j ch \<Longrightarrow> t_cancelled s \<Longrightarrow>
    tstep so unc cap ext s (s\<lparr>t_input := InputExited, t_closed := True, t_chans := (t_chans s)[ch := (t_chans s ! ch)\<lparr>c_closed := True\<rparr>]\<rparr>)"
| offer: "w < length (t_workers s) \<Longrightarrow> t_workers s ! w = Offering \<Longrightarrow>
    tstep so unc cap ext s (s\<lparr>t_workers := (t_workers s)[w := Idle], t_workerCh := t_workerCh s @ [w]\<rparr>)"
| worker_cancelled: "w < length (t_workers s) \<Longrightarrow> t_workers s ! w = Offering \<or> t_workers s ! w = Idle \<Longrightarrow> t_cancelled s \<Longrightarrow>
    tstep so unc cap ext s (s\<lparr>t_workers := (t_workers s)[w := WorkerExited]\<rparr>)"
| answer: "w < length (t_workers s) \<Longrightarrow> t_workers s ! w = Busy j ch \<Longrightarrow> prefix (d_types (fst j)) ts \<Longrightarrow>
    tstep so unc cap ext s (s\<lparr>t_workers := (t_workers s)[w := Offering],
      t_chans := (t_chans s)[ch := answered unc j (job_result so unc ((fst j)\<lparr>d_types := ts\<rparr>, snd j))]\<rparr>)"
| call: "t_pull s = Calling \<Longrightarrow> tstep so unc cap ext s (s\<lparr>t_pull := Selecting\<rparr>)"
| receive: "t_pull s = Selecting \<Longrightarrow> t_resultChCh s = ch # q \<Longrightarrow>
    tstep so unc cap ext s (s\<lparr>t_resultChCh := q, t_pull := Receiving ch\<rparr>)"
| receive_nil: "t_pull s = Selecting \<Longrightarrow> t_resultChCh s = [] \<Longrightarrow> t_closed s \<Longrightarrow> tstep so unc cap ext s (s\<lparr>t_pull := Hung\<rparr>)"
| result: "t_pull s = Receiving ch \<Longrightarrow> ch < length (t_chans s) \<Longrightarrow> c_content (t_chans s ! ch) = Some r \<Longrightarrow>
    tstep so unc cap ext s (s\<lparr>t_out := t_out s @ [r], t_chans := (t_chans s)[ch := (t_chans s ! ch)\<lparr>c_content := None\<rparr>],
      t_cancelled := t_cancelled s \<or> final_result r, t_pull := (if final_result r then Stopped else Calling)\<rparr>)"
| no_result: "t_pull s = Receiving ch \<Longrightarrow> ch < length (t_chans s) \<Longrightarrow> c_content (t_chans s ! ch) = None \<Longrightarrow> c_closed (t_chans s ! ch) \<Longrightarrow>
    tstep so unc cap ext s (s\<lparr>t_pull := Selecting\<rparr>)"
| pull_cancelled: "t_pull s = Selecting \<Longrightarrow> t_cancelled s \<Longrightarrow> tstep so unc cap ext s (s\<lparr>t_pull := Stopped\<rparr>)"
| cancel: "ext \<Longrightarrow> \<not> t_cancelled s \<Longrightarrow> tstep so unc cap ext s (s\<lparr>t_cancelled := True\<rparr>)"
| pull_done: "ext \<Longrightarrow> t_pull s = Calling \<Longrightarrow> tstep so unc cap ext s (s\<lparr>t_cancelled := True, t_pull := Draining\<rparr>)"
| drain: "t_pull s = Draining \<Longrightarrow> t_resultChCh s = ch # q \<Longrightarrow> tstep so unc cap ext s (s\<lparr>t_resultChCh := q\<rparr>)"
| drained: "t_pull s = Draining \<Longrightarrow> t_resultChCh s = [] \<Longrightarrow> t_closed s \<Longrightarrow> tstep so unc cap ext s (s\<lparr>t_pull := Stopped\<rparr>)"

end
