(* ===== verification/Bsup_Threads_Inv.thy ===== *)
theory Bsup_Threads_Inv
  imports Bsup_Threads Bsup_Stream Live_Systems
begin

text \<open>
  The runs of the threaded BSUP scanner. The channels that the consumer has yet to receive from stand for the
  results to come: with what is still to be read they make up the list of results. With this invariant, a
  weight that every step makes less and a step from every state that is not final, the scanner is a
  \<open>live_system\<close>: every run ends with the results of reading in one thread.
\<close>

subsection \<open>More types do not change a result\<close>

text \<open>Neither a panic nor an error of a decoder.\<close>

definition clean_result :: "tresult \<Rightarrow> bool" where
  "clean_result r = (case r of Inl PPanic \<Rightarrow> False | Inl (PError (DecodeErr _)) \<Rightarrow> False | _ \<Rightarrow> True)"

text \<open>
  What is asked of a filter on the bytes of a frame: types defined later do not change its verdict on a
  frame that it rejects or whose values the types at hand decode.
\<close>

definition steady_filter :: "scan_opts \<Rightarrow> bool" where
  "steady_filter so = (\<forall>f d b ts. so_bufferFilter so = Some f \<longrightarrow> prefix (d_types d) ts \<longrightarrow>
     (f d b \<longrightarrow> (\<forall>x. scan_values so d [] b [] no_progress \<noteq> Inl (DecodeErr x))) \<longrightarrow> f (d\<lparr>d_types := ts\<rparr>) b = f d b)"

lemma Decoder_LookupType_more:
  "prefix (d_types d) ts \<Longrightarrow> Decoder_LookupType d i = Inr t \<Longrightarrow> Decoder_LookupType (d\<lparr>d_types := ts\<rparr>) i = Inr t"
  by (auto simp: Decoder_LookupType_def Let_def nth_append prefix_def split: if_splits)

lemma TypeCache_more:
  assumes "prefix (d_types d) ts" and "\<forall>x. snd (TypeCache_LookupType (Decoder_LookupType d) cache i) \<noteq> Inl (DecodeErr x)"
  shows "TypeCache_LookupType (Decoder_LookupType (d\<lparr>d_types := ts\<rparr>)) cache i = TypeCache_LookupType (Decoder_LookupType d) cache i"
proof (cases "Decoder_LookupType d i")
  case (Inl x)
  then show ?thesis using assms(2) by (auto simp: TypeCache_LookupType_def split: option.splits if_splits)
next
  case (Inr t)
  then show ?thesis using Decoder_LookupType_more [OF assms(1) Inr] by (simp add: TypeCache_LookupType_def split: option.split)
qed

lemma decodeVal_more:
  assumes "prefix (d_types d) ts" and "\<forall>x. snd (decodeVal fo v d cache buf) \<noteq> Inl (DecodeErr x)"
  shows "decodeVal fo v (d\<lparr>d_types := ts\<rparr>) cache buf = decodeVal fo v d cache buf"
proof (cases "readUvarintAsInt buf")
  case (Inr ib)
  obtain i b where ib: "ib = (i, b)" by fastforce
  show ?thesis
  proof (cases "\<forall>x. snd (TypeCache_LookupType (Decoder_LookupType d) cache i) \<noteq> Inl (DecodeErr x)")
    case True
    show ?thesis unfolding decodeVal_def Inr ib sum.case prod.case TypeCache_more [OF assms(1) True] ..
  next
    case False
    then obtain c x where t: "TypeCache_LookupType (Decoder_LookupType d) cache i = (c, Inl (DecodeErr x))" by (metis prod.collapse)
    have "snd (decodeVal fo v d cache buf) = Inl (DecodeErr x) \<or> ?thesis"
    proof (cases "ReadTag b")
      case Rt: (Inr ub)
      obtain u b2 where ub: "ub = (u, b2)" by fastforce
      show ?thesis unfolding decodeVal_def Inr ib Rt ub sum.case prod.case Let_def t by (simp split: sum.split)
    qed (simp add: decodeVal_def Inr ib split: sum.split)
    then show ?thesis using assms(2) by blast
  qed
qed (simp add: decodeVal_def)

lemma scan_values_more:
  "prefix (d_types d) ts \<Longrightarrow> \<forall>x. scan_values so d cache buf vals pr \<noteq> Inl (DecodeErr x) \<Longrightarrow>
   scan_values so (d\<lparr>d_types := ts\<rparr>) cache buf vals pr = scan_values so d cache buf vals pr"
proof (induction so d cache buf vals pr rule: scan_values.induct)
  case (1 so types cache buf vals pr)
  show ?case
  proof (cases "length buf = 0")
    case False
    obtain c x where r: "decodeVal (so_floats so) (so_validate so) types cache buf = (c, x)" by fastforce
    have "\<forall>y. snd (decodeVal (so_floats so) (so_validate so) types cache buf) \<noteq> Inl (DecodeErr y)"
      using 1(3) False r by (subst (asm) scan_values.simps) auto
    then have r': "decodeVal (so_floats so) (so_validate so) (types\<lparr>d_types := ts\<rparr>) cache buf = (c, x)"
      using decodeVal_more [OF 1(2)] r by simp
    show ?thesis
    proof (cases x)
      case (Inl e)
      then show ?thesis by (subst (1 2) scan_values.simps) (simp add: False r r')
    next
      case (Inr vb)
      obtain v b where vb: "vb = (v, b)" by fastforce
      obtain pr' want where w: "wantValue (so_filter so) v pr = (pr', want)" by fastforce
      note IH = 1(1) [OF False r [symmetric] Inr vb [symmetric] w [symmetric] 1(2)]
      have "\<forall>y. scan_values so types c b (if want then vals @ [v] else vals) pr' \<noteq> Inl (DecodeErr y)"
        using 1(3) False r Inr vb w by (subst (asm) scan_values.simps) simp
      from IH [OF this] show ?thesis by (subst (1 2) scan_values.simps) (simp add: False r r' Inr vb w)
    qed
  qed (simp add: scan_values.simps)
qed

text \<open>A job gives the same results whatever types its decoder gets while it waits.\<close>

definition job_gives :: "scan_opts \<Rightarrow> 'c decompressor \<Rightarrow> work_frame \<Rightarrow> tresult list \<Rightarrow> bool" where
  "job_gives so unc j rs = (\<forall>ts. prefix (d_types (fst j)) ts \<longrightarrow> job_result so unc ((fst j)\<lparr>d_types := ts\<rparr>, snd j) = rs)"

lemma job_gives_result:
  assumes "steady_filter so" and "\<forall>r\<in>set (job_result so unc j). clean_result r"
  shows "job_gives so unc j (job_result so unc j)"
  unfolding job_gives_def
proof (intro allI impI)
  fix ts assume p: "prefix (d_types (fst j)) ts"
  obtain d f where j: "j = (d, f)" by fastforce
  show "job_result so unc ((fst j)\<lparr>d_types := ts\<rparr>, snd j) = job_result so unc j"
  proof (cases "frame_decompress unc f")
    case (Inr b)
    have fl: "f' (d\<lparr>d_types := ts\<rparr>) b = f' d b" if "so_bufferFilter so = Some f'" "f' d b \<longrightarrow> (\<forall>x. scan_values so d [] b [] no_progress \<noteq> Inl (DecodeErr x))" for f'
      using assms(1) that p j by (auto simp: steady_filter_def)
    have sc: "scan_values so d [] b [] no_progress \<noteq> Inl (DecodeErr x)" if "\<And>f'. so_bufferFilter so = Some f' \<Longrightarrow> f' d b" for x
      using assms(2) that j Inr by (cases x; force simp: job_result_def scanBatch_def clean_result_def split: option.splits)
    have "snd (scanBatch so b (d\<lparr>d_types := ts\<rparr>) no_progress) = snd (scanBatch so b d no_progress)"
    proof (cases "so_bufferFilter so")
      case None
      then show ?thesis using scan_values_more [of d ts so "[]" b "[]" no_progress] sc p j by (simp add: scanBatch_def split: sum.splits prod.splits)
    next
      case (Some f')
      then show ?thesis using fl [OF Some] sc scan_values_more [of d ts so "[]" b "[]" no_progress] p j
        by (cases "f' d b") (simp_all add: scanBatch_def split: sum.splits prod.splits)
    qed
    then show ?thesis by (simp add: job_result_def j Inr)
  qed (simp add: job_result_def j)
qed

subsection \<open>The results up to the first final one\<close>

fun upto_final :: "tresult list \<Rightarrow> tresult list" where
  "upto_final [] = []"
| "upto_final (r # rs) = (if final_result r then [r] else r # upto_final rs)"

lemma upto_final_append: "\<forall>r\<in>set xs. \<not> final_result r \<Longrightarrow> upto_final (xs @ ys) = xs @ upto_final ys"
  by (induction xs) auto

lemma final_end_result: "\<not> is_control x \<Longrightarrow> final_result (end_result x)"
  using to_pfail_control by (cases "to_pfail x") (auto simp: final_result_def end_result_def)

lemma results_final: "\<exists>r\<in>set (results so unc p). final_result r"
proof (induction so unc p rule: results.induct)
  case (1 so unc p)
  obtain p' x where p: "parser_read unc p = Some (p', x)" using parser_read_total by blast
  show ?case
  proof (cases x)
    case (Inl y)
    then show ?thesis using 1(1) [OF p refl Inl] p final_end_result by (subst results.simps) auto
  next
    case (Inr f)
    then show ?thesis using 1(2) [OF p refl Inr] p by (subst results.simps) auto
  qed
qed

lemma job_result_cases:
  "job_result so unc j = [] \<and> (\<exists>b. frame_decompress unc (snd j) = Inr b) \<or> (\<exists>r. job_result so unc j = [r])"
  by (auto simp: job_result_def split: sum.split option.split)

subsection \<open>Every step makes progress\<close>

fun input_weight :: "nat \<Rightarrow> inputloc \<Rightarrow> nat" where
  "input_weight b Reading = b + 6"
| "input_weight b (Sending r stop) = (if stop then b + 5 else b + 10)"
| "input_weight b (NeedWorker j) = b + 16"
| "input_weight b (Queueing w j) = b + 15"
| "input_weight b (Giving w j ch) = b + 9"
| "input_weight b InputExited = 0"

fun worker_weight :: "workerloc \<Rightarrow> nat" where
  "worker_weight Offering = 2"
| "worker_weight Idle = 1"
| "worker_weight (Busy j ch) = 3"
| "worker_weight WorkerExited = 0"

fun pull_weight :: "pulloc \<Rightarrow> nat" where
  "pull_weight Calling = 2"
| "pull_weight Selecting = 1"
| "pull_weight (Receiving ch) = 3"
| "pull_weight Draining = 1"
| "pull_weight Hung = 0"
| "pull_weight Stopped = 0"

definition tweight :: "tscanner \<Rightarrow> nat" where
  "tweight s = input_weight (20 * pleft (t_parser s)) (t_input s) + sum_list (map worker_weight (t_workers s)) + 3 * length (t_resultChCh s) +
     pull_weight (t_pull s) + (if t_cancelled s then 0 else 1)"

lemma worker_weight_update:
  "w < length ws \<Longrightarrow> sum_list (map worker_weight (ws[w := x])) + worker_weight (ws ! w) = sum_list (map worker_weight ws) + worker_weight x"
  by (induction ws arbitrary: w) (auto split: nat.split)

lemma parser_read_less:
  assumes "parser_read unc p = Some (p', x)"
  shows "pleft p' \<le> pleft p" and "x = Inr f \<Longrightarrow> pleft p' < pleft p" and "x = Inl y \<Longrightarrow> is_control y \<Longrightarrow> pleft p' < pleft p"
  using parser_read_total [of unc p] assms by auto

lemma tstep_decreases: "tstep so unc cap ext s t \<Longrightarrow> tweight t < tweight s"
proof (induction rule: tstep.induct)
  case (give s w j ch)
  then show ?case using worker_weight_update [of w "t_workers s" "Busy j ch"] by (simp add: tweight_def)
next
  case (offer w s)
  then show ?case using worker_weight_update [of w "t_workers s" Idle] by (simp add: tweight_def)
next
  case (worker_cancelled w s)
  then show ?case using worker_weight_update [of w "t_workers s" WorkerExited] by (auto simp: tweight_def)
next
  case (answer w s j ch ts)
  then show ?case using worker_weight_update [of w "t_workers s" Offering] by (simp add: tweight_def)
next
  case (read_frame s p f)
  then show ?case using parser_read_less(2) [OF read_frame(2) refl] by (simp add: tweight_def)
next
  case (read_control s p x)
  then show ?case using parser_read_less(3) [OF read_control(2) refl] by (simp add: tweight_def)
next
  case (read_end s p x)
  then show ?case using parser_read_less(1) [OF read_end(2)] by (simp add: tweight_def)
qed (auto simp: tweight_def)

subsection \<open>The channels\<close>

text \<open>
  The unfinished channels: the one of the input goroutine (\<open>None\<close>) and those of the workers. \<open>ex\<close> has for every
  channel the results that come out of it; \<open>live\<close> are the channels the consumer has yet to receive from.
\<close>

type_synonym holders = "nat option \<Rightarrow> (work_frame \<times> nat) option"

definition chan_ok :: "holders \<Rightarrow> chan list \<Rightarrow> (nat \<Rightarrow> tresult list) \<Rightarrow> nat \<Rightarrow> bool" where
  "chan_ok H cs ex ch \<longleftrightarrow> ch < length cs \<and> (case c_content (cs ! ch) of Some r \<Rightarrow> ex ch = [r]
     | None \<Rightarrow> if c_closed (cs ! ch) then ex ch = [] else (\<exists>a j. H a = Some (j, ch)))"

definition holder_ok :: "scan_opts \<Rightarrow> 'c decompressor \<Rightarrow> chan list \<Rightarrow> (nat \<Rightarrow> tresult list) \<Rightarrow> work_frame \<Rightarrow> nat \<Rightarrow> bool" where
  "holder_ok so unc cs ex j ch \<longleftrightarrow> ch < length cs \<and> c_content (cs ! ch) = None \<and> \<not> c_closed (cs ! ch) \<and> job_gives so unc j (ex ch)"

definition chans_inv :: "scan_opts \<Rightarrow> 'c decompressor \<Rightarrow> holders \<Rightarrow> chan list \<Rightarrow> nat list \<Rightarrow> (nat \<Rightarrow> tresult list) \<Rightarrow> bool" where
  "chans_inv so unc H cs live ex \<longleftrightarrow> distinct live \<and> (\<forall>ch\<in>set live. chan_ok H cs ex ch) \<and>
     (\<forall>a j ch. H a = Some (j, ch) \<longrightarrow> holder_ok so unc cs ex j ch) \<and>
     (\<forall>a b j j' ch. H a = Some (j, ch) \<longrightarrow> H b = Some (j', ch) \<longrightarrow> a = b)"

lemma chans_invI:
  assumes "distinct live" and "\<And>ch. ch \<in> set live \<Longrightarrow> chan_ok H cs ex ch" and "\<And>a j ch. H a = Some (j, ch) \<Longrightarrow> holder_ok so unc cs ex j ch"
    and "\<And>a b j j' ch. H a = Some (j, ch) \<Longrightarrow> H b = Some (j', ch) \<Longrightarrow> a = b"
  shows "chans_inv so unc H cs live ex"
  using assms unfolding chans_inv_def by blast

lemma chans_invD:
  assumes "chans_inv so unc H cs live ex"
  shows "distinct live"
    and "ch \<in> set live \<Longrightarrow> chan_ok H cs ex ch"
    and "H a = Some (j, ch) \<Longrightarrow> holder_ok so unc cs ex j ch"
    and "H a = Some (j, ch) \<Longrightarrow> H b = Some (j', ch) \<Longrightarrow> a = b"
  using assms unfolding chans_inv_def by blast+

text \<open>A channel made by the input goroutine.\<close>

lemma chans_fresh: "chans_inv so unc H cs live ex \<Longrightarrow> length cs \<notin> set live \<and> (\<forall>a j. H a \<noteq> Some (j, length cs))"
  using chans_invD(2,3) [of so unc H cs live ex] by (fastforce simp: chan_ok_def holder_ok_def)

lemma chan_ok_frame: "chan_ok H cs ex ch \<Longrightarrow> chan_ok H (cs @ [c]) (ex(length cs := rs)) ch"
  by (auto simp: chan_ok_def nth_append split: option.splits if_splits)

lemma holder_ok_frame: "holder_ok so unc cs ex j ch \<Longrightarrow> holder_ok so unc (cs @ [c]) (ex(length cs := rs)) j ch"
  by (auto simp: holder_ok_def nth_append)

lemma chan_ok_more: "chan_ok H cs ex ch \<Longrightarrow> (\<And>a j. H a = Some (j, ch) \<Longrightarrow> \<exists>b j'. H' b = Some (j', ch)) \<Longrightarrow> chan_ok H' cs ex ch"
  by (auto simp: chan_ok_def split: option.splits if_splits)

lemma chans_sent:
  assumes "chans_inv so unc H cs live ex"
  shows "chans_inv so unc H (cs @ [sent r]) (live @ [length cs]) (ex(length cs := [r]))"
proof (rule chans_invI)
  fix ch assume "ch \<in> set (live @ [length cs])"
  then consider "ch \<in> set live" | "ch = length cs" by auto
  then show "chan_ok H (cs @ [sent r]) (ex(length cs := [r])) ch"
    by cases (use chans_invD(2) [OF assms] chan_ok_frame in blast, simp add: chan_ok_def sent_def)
next
  fix a j ch assume "H a = Some (j, ch)"
  then show "holder_ok so unc (cs @ [sent r]) (ex(length cs := [r])) j ch" using chans_invD(3) [OF assms] holder_ok_frame by blast
qed (use chans_fresh [OF assms] chans_invD(1,4) [OF assms] in auto)

lemma chans_new:
  assumes "chans_inv so unc H cs live ex" and "H a = None" and "job_gives so unc j rs"
  shows "chans_inv so unc (H(a \<mapsto> (j, length cs))) (cs @ [new_chan]) (live @ [length cs]) (ex(length cs := rs))"
proof (rule chans_invI)
  fix ch assume "ch \<in> set (live @ [length cs])"
  then consider "ch \<in> set live" | "ch = length cs" by auto
  then show "chan_ok (H(a \<mapsto> (j, length cs))) (cs @ [new_chan]) (ex(length cs := rs)) ch"
  proof cases
    case 1
    then have "chan_ok H (cs @ [new_chan]) (ex(length cs := rs)) ch" using chans_invD(2) [OF assms(1)] chan_ok_frame by blast
    then show ?thesis
    proof (rule chan_ok_more)
      fix b j' assume "H b = Some (j', ch)"
      then have "(H(a \<mapsto> (j, length cs))) b = Some (j', ch)" using assms(2) by auto
      then show "\<exists>b j'. (H(a \<mapsto> (j, length cs))) b = Some (j', ch)" by blast
    qed
  qed (auto simp: chan_ok_def new_chan_def)
next
  fix b j' ch assume h: "(H(a \<mapsto> (j, length cs))) b = Some (j', ch)"
  show "holder_ok so unc (cs @ [new_chan]) (ex(length cs := rs)) j' ch"
  proof (cases "b = a")
    case True
    then show ?thesis using h assms(3) by (auto simp: holder_ok_def new_chan_def)
  next
    case False
    then have "holder_ok so unc cs ex j' ch" using h chans_invD(3) [OF assms(1), of b] by simp
    then show ?thesis by (rule holder_ok_frame)
  qed
next
  fix b b' j1 j2 ch assume "(H(a \<mapsto> (j, length cs))) b = Some (j1, ch)" "(H(a \<mapsto> (j, length cs))) b' = Some (j2, ch)"
  then show "b = b'"
    by (cases "b = a"; cases "b' = a") (use chans_fresh [OF assms(1)] chans_invD(4) [OF assms(1), of b j1 ch b' j2] in \<open>simp_all, blast+\<close>)
qed (use chans_fresh [OF assms(1)] chans_invD(1) [OF assms(1)] in simp)

lemma chans_move:
  assumes "chans_inv so unc H cs live ex" and "H a = Some (j, ch)" and "H b = None"
  shows "chans_inv so unc (H(a := None, b \<mapsto> (j, ch))) cs live ex"
proof (rule chans_invI)
  fix c assume "c \<in> set live"
  then have "chan_ok H cs ex c" by (rule chans_invD(2) [OF assms(1)])
  then show "chan_ok (H(a := None, b \<mapsto> (j, ch))) cs ex c"
  proof (rule chan_ok_more)
    fix a' j' assume "H a' = Some (j', c)"
    then show "\<exists>b' j'. (H(a := None, b \<mapsto> (j, ch))) b' = Some (j', c)"
      by (cases "a' = a"; cases "a' = b") (use assms(2,3) in \<open>auto intro: exI [of _ a'] exI [of _ b]\<close>)
  qed
next
  fix a' j' c assume "(H(a := None, b \<mapsto> (j, ch))) a' = Some (j', c)"
  then show "holder_ok so unc cs ex j' c" using chans_invD(3) [OF assms(1)] assms(2) by (auto split: if_splits)
next
  fix a1 a2 j1 j2 c assume h: "(H(a := None, b \<mapsto> (j, ch))) a1 = Some (j1, c)" "(H(a := None, b \<mapsto> (j, ch))) a2 = Some (j2, c)"
  show "a1 = a2"
    by (cases "a1 = b"; cases "a2 = b") (use h chans_invD(4) [OF assms(1)] assms(2) in \<open>auto split: if_splits\<close>)
qed (rule chans_invD(1) [OF assms(1)])

text \<open>A channel that changes when nobody else has it.\<close>

lemma chan_ok_update: "chan_ok H cs ex c \<Longrightarrow> c \<noteq> ch \<Longrightarrow> chan_ok H (cs[ch := x]) ex c"
  by (auto simp: chan_ok_def split: option.split)

lemma holder_ok_update: "holder_ok so unc cs ex j c \<Longrightarrow> c \<noteq> ch \<Longrightarrow> holder_ok so unc (cs[ch := x]) ex j c"
  by (simp add: holder_ok_def)

lemma chans_answered:
  assumes "chans_inv so unc H cs live ex" and "H a = Some (j, ch)" and "prefix (d_types (fst j)) ts"
  shows "chans_inv so unc (H(a := None)) (cs[ch := answered unc j (job_result so unc ((fst j)\<lparr>d_types := ts\<rparr>, snd j))]) live ex"
    (is "chans_inv so unc ?H ?cs live ex")
proof (rule chans_invI)
  fix c assume "c \<in> set live"
  then have c: "chan_ok H cs ex c" by (rule chans_invD(2) [OF assms(1)])
  have r: "job_result so unc ((fst j)\<lparr>d_types := ts\<rparr>, snd j) = ex ch"
    using chans_invD(3) [OF assms(1,2)] assms(3) by (simp add: job_gives_def holder_ok_def)
  have e: "ex ch = [] \<and> (\<exists>b. frame_decompress unc (snd j) = Inr b) \<or> (\<exists>r. ex ch = [r])"
    using job_result_cases [of so unc "((fst j)\<lparr>d_types := ts\<rparr>, snd j)"] r by simp
  show "chan_ok ?H ?cs ex c"
  proof (cases "c = ch")
    case True
    then show ?thesis using c e by (auto simp: chan_ok_def answered_def r)
  next
    case False
    from chan_ok_update [OF c this] show ?thesis by (rule chan_ok_more) (use False assms(2) in \<open>metis fun_upd_other option.inject prod.inject\<close>)
  qed
next
  fix b j' c assume h: "?H b = Some (j', c)"
  then have b: "b \<noteq> a" "H b = Some (j', c)" by (auto split: if_splits)
  then have "c \<noteq> ch" using chans_invD(4) [OF assms(1) b(2)] assms(2) by blast
  then show "holder_ok so unc ?cs ex j' c" using chans_invD(3) [OF assms(1) b(2)] holder_ok_update by blast
next
  fix a1 a2 j1 j2 c assume "?H a1 = Some (j1, c)" "?H a2 = Some (j2, c)"
  then show "a1 = a2" using chans_invD(4) [OF assms(1)] by (auto split: if_splits)
qed (rule chans_invD(1) [OF assms(1)])

lemma chans_taken:
  assumes "chans_inv so unc H cs (ch # live) ex" and "c_content (cs ! ch) = Some r"
  shows "chans_inv so unc H (cs[ch := (cs ! ch)\<lparr>c_content := None\<rparr>]) live ex"
proof (rule chans_invI)
  fix c assume "c \<in> set live"
  then show "chan_ok H (cs[ch := (cs ! ch)\<lparr>c_content := None\<rparr>]) ex c"
    using chans_invD(1,2) [OF assms(1)] chan_ok_update by (metis distinct.simps(2) list.set_intros(2))
next
  fix a j c assume h: "H a = Some (j, c)"
  then have c: "holder_ok so unc cs ex j c" by (rule chans_invD(3) [OF assms(1)])
  then have "c \<noteq> ch" using assms(2) by (auto simp: holder_ok_def)
  with c show "holder_ok so unc (cs[ch := (cs ! ch)\<lparr>c_content := None\<rparr>]) ex j c" by (rule holder_ok_update)
qed (use chans_invD(1,4) [OF assms(1)] in auto)

lemma chans_dropped: "chans_inv so unc H cs (ch # live) ex \<Longrightarrow> chans_inv so unc H cs live ex"
  unfolding chans_inv_def by auto

subsection \<open>The workers\<close>

text \<open>A worker that waits for a frame is in \<open>workerCh\<close>, or the input goroutine has taken it out.\<close>

definition workers_inv :: "nat option \<Rightarrow> workerloc list \<Rightarrow> nat list \<Rightarrow> bool" where
  "workers_inv tk ws wch \<longleftrightarrow> ws \<noteq> [] \<and> WorkerExited \<notin> set ws \<and> distinct wch \<and> (\<forall>w\<in>set wch. w < length ws \<and> ws ! w = Idle) \<and>
     (\<forall>w. tk = Some w \<longrightarrow> w < length ws \<and> ws ! w = Idle \<and> w \<notin> set wch) \<and>
     (\<forall>w<length ws. ws ! w = Idle \<longrightarrow> w \<in> set wch \<or> tk = Some w)"

lemma workers_take: "workers_inv None ws (w # wch) \<Longrightarrow> workers_inv (Some w) ws wch"
  by (auto simp: workers_inv_def)

lemma workers_give: "workers_inv (Some w) ws wch \<Longrightarrow> workers_inv None (ws[w := Busy j ch]) wch"
  by (auto simp: workers_inv_def nth_list_update dest!: set_update_subset_insert [THEN subsetD] split: if_splits)

lemma workers_offer: "workers_inv tk ws wch \<Longrightarrow> w < length ws \<Longrightarrow> ws ! w = Offering \<Longrightarrow> workers_inv tk (ws[w := Idle]) (wch @ [w])"
  by (auto simp: workers_inv_def nth_list_update dest!: set_update_subset_insert [THEN subsetD] split: if_splits)

lemma workers_answer: "workers_inv tk ws wch \<Longrightarrow> w < length ws \<Longrightarrow> ws ! w = Busy j ch \<Longrightarrow> workers_inv tk (ws[w := Offering]) wch"
  by (auto simp: workers_inv_def nth_list_update dest!: set_update_subset_insert [THEN subsetD] split: if_splits)

subsection \<open>The state of a run\<close>

fun input_hold :: "inputloc \<Rightarrow> (work_frame \<times> nat) option" where
  "input_hold (Giving w j ch) = Some (j, ch)"
| "input_hold _ = None"

fun input_worker :: "inputloc \<Rightarrow> nat option" where
  "input_worker (Queueing w j) = Some w"
| "input_worker (Giving w j ch) = Some w"
| "input_worker _ = None"

fun busy_hold :: "workerloc \<Rightarrow> (work_frame \<times> nat) option" where
  "busy_hold (Busy j ch) = Some (j, ch)"
| "busy_hold _ = None"

definition hold_at :: "inputloc \<Rightarrow> workerloc list \<Rightarrow> holders" where
  "hold_at i ws a = (case a of None \<Rightarrow> input_hold i | Some w \<Rightarrow> if w < length ws then busy_hold (ws ! w) else None)"

text \<open>What the input goroutine has yet to queue.\<close>

fun input_rest :: "scan_opts \<Rightarrow> 'c decompressor \<Rightarrow> parser \<Rightarrow> inputloc \<Rightarrow> tresult list" where
  "input_rest so unc p Reading = results so unc p"
| "input_rest so unc p (Sending r stop) = r # (if stop then [] else results so unc p)"
| "input_rest so unc p (NeedWorker j) = job_result so unc j @ results so unc p"
| "input_rest so unc p (Queueing w j) = job_result so unc j @ results so unc p"
| "input_rest so unc p (Giving w j ch) = results so unc p"
| "input_rest so unc p InputExited = []"

fun input_steady :: "scan_opts \<Rightarrow> 'c decompressor \<Rightarrow> inputloc \<Rightarrow> bool" where
  "input_steady so unc (NeedWorker j) = job_gives so unc j (job_result so unc j)"
| "input_steady so unc (Queueing w j) = job_gives so unc j (job_result so unc j)"
| "input_steady so unc _ = True"

fun pull_live :: "pulloc \<Rightarrow> nat list" where
  "pull_live (Receiving ch) = [ch]"
| "pull_live _ = []"

definition pulling :: "pulloc \<Rightarrow> bool" where
  "pulling l \<longleftrightarrow> l = Calling \<or> l = Selecting \<or> (\<exists>ch. l = Receiving ch)"

definition running :: "scan_opts \<Rightarrow> 'c decompressor \<Rightarrow> tresult list \<Rightarrow> (nat \<Rightarrow> tresult list) \<Rightarrow> tscanner \<Rightarrow> bool" where
  "running so unc all ex s \<longleftrightarrow> \<not> t_cancelled s \<and> pulling (t_pull s) \<and> (\<forall>r\<in>set (t_out s). \<not> final_result r) \<and>
     (t_closed s \<longrightarrow> t_input s = InputExited) \<and> workers_inv (input_worker (t_input s)) (t_workers s) (t_workerCh s) \<and>
     input_steady so unc (t_input s) \<and>
     chans_inv so unc (hold_at (t_input s) (t_workers s)) (t_chans s) (pull_live (t_pull s) @ t_resultChCh s) ex \<and>
     all = t_out s @ concat (map ex (pull_live (t_pull s) @ t_resultChCh s)) @ input_rest so unc (t_parser s) (t_input s)"

definition stopped :: "tresult list \<Rightarrow> tscanner \<Rightarrow> bool" where
  "stopped all s \<longleftrightarrow> t_pull s = Stopped \<and> t_cancelled s \<and> t_out s = upto_final all"

definition tinv :: "scan_opts \<Rightarrow> 'c decompressor \<Rightarrow> tresult list \<Rightarrow> tscanner \<Rightarrow> bool" where
  "tinv so unc all s \<longleftrightarrow> steady_filter so \<and> (\<forall>r\<in>set all. clean_result r) \<and> (\<exists>r\<in>set all. final_result r) \<and>
     ((\<exists>ex. running so unc all ex s) \<or> stopped all s)"

text \<open>Once stopped, only the goroutines that wind down move.\<close>

lemma tstep_stopped: "tstep so unc cap False s t \<Longrightarrow> stopped all s \<Longrightarrow> stopped all t"
  by (induction rule: tstep.induct) (auto simp: stopped_def)

lemma hold_at_worker: "w < length ws \<Longrightarrow> hold_at i (ws[w := x]) = (hold_at i ws)(Some w := busy_hold x)"
  by (auto simp: hold_at_def fun_eq_iff split: option.split)

lemma hold_at_input: "hold_at i ws = (hold_at i' ws)(None := input_hold i)"
  by (auto simp: hold_at_def fun_eq_iff split: option.split)

lemma hold_at_simps [simp]: "hold_at i ws None = input_hold i" "w < length ws \<Longrightarrow> hold_at i ws (Some w) = busy_hold (ws ! w)"
  by (simp_all add: hold_at_def)

lemma hold_at_same: "input_hold i = input_hold i' \<Longrightarrow> hold_at i ws = hold_at i' ws"
  by (simp add: hold_at_def fun_eq_iff split: option.split)

lemma results_frame: "parser_read unc p = Some (p', Inr f) \<Longrightarrow> results so unc p = job_result so unc (p_types p', f) @ results so unc p'"
  by (subst results.simps) simp

lemma results_control: "parser_read unc p = Some (p', Inl x) \<Longrightarrow> is_control x \<Longrightarrow> results so unc p = Inl (PError x) # results so unc p'"
  by (subst results.simps) simp

lemma results_end: "parser_read unc p = Some (p', Inl x) \<Longrightarrow> \<not> is_control x \<Longrightarrow> results so unc p = [end_result x]"
  by (subst results.simps) simp

lemma ex_fresh: "chans_inv so unc H cs live ex \<Longrightarrow> concat (map (ex(length cs := rs)) (live @ [length cs])) = concat (map ex live) @ rs"
  using chans_fresh [of so unc H cs live ex] by (auto intro!: arg_cong [of _ _ concat] map_cong)

lemma running_read:
  assumes "running so unc all ex s" and "t_input s = Reading" and "steady_filter so" and "\<forall>r\<in>set all. clean_result r"
  shows "parser_read unc (t_parser s) = Some (p, Inr f) \<Longrightarrow> running so unc all ex (s\<lparr>t_parser := p, t_input := NeedWorker (p_types p, f)\<rparr>)"
    and "parser_read unc (t_parser s) = Some (p, Inl x) \<Longrightarrow> is_control x \<Longrightarrow> running so unc all ex (s\<lparr>t_parser := p, t_input := Sending (Inl (PError x)) False\<rparr>)"
    and "parser_read unc (t_parser s) = Some (p, Inl x) \<Longrightarrow> \<not> is_control x \<Longrightarrow> running so unc all ex (s\<lparr>t_parser := p, t_input := Sending (end_result x) True\<rparr>)"
proof -
  note h = hold_at_same [of _ Reading "t_workers s"]
  show "running so unc all ex (s\<lparr>t_parser := p, t_input := NeedWorker (p_types p, f)\<rparr>)" if r: "parser_read unc (t_parser s) = Some (p, Inr f)"
    using assms results_frame [OF r, of so] job_gives_result [OF assms(3), of unc "(p_types p, f)"] h [of "NeedWorker (p_types p, f)"]
    by (simp add: running_def ball_Un)
  show "running so unc all ex (s\<lparr>t_parser := p, t_input := Sending (Inl (PError x)) False\<rparr>)" if "parser_read unc (t_parser s) = Some (p, Inl x)" "is_control x"
    using assms results_control [OF that, of so] h [of "Sending (Inl (PError x)) False"] by (simp add: running_def)
  show "running so unc all ex (s\<lparr>t_parser := p, t_input := Sending (end_result x) True\<rparr>)" if "parser_read unc (t_parser s) = Some (p, Inl x)" "\<not> is_control x"
    using assms results_end [OF that, of so] h [of "Sending (end_result x) True"] by (simp add: running_def)
qed

lemma running_send:
  assumes "running so unc all ex s" and "t_input s = Sending r stop"
  shows "running so unc all (ex(length (t_chans s) := [r])) (s\<lparr>t_chans := t_chans s @ [sent r], t_resultChCh := t_resultChCh s @ [length (t_chans s)],
      t_input := (if stop then InputExited else Reading), t_closed := stop\<rparr>)"
proof -
  have c: "chans_inv so unc (hold_at (t_input s) (t_workers s)) (t_chans s) (pull_live (t_pull s) @ t_resultChCh s) ex" using assms(1) by (simp add: running_def)
  have h: "hold_at (if stop then InputExited else Reading) (t_workers s) = hold_at (t_input s) (t_workers s)"
    using assms(2) by (intro hold_at_same) simp
  show ?thesis using assms chans_sent [OF c, of r] ex_fresh [OF c, of "[r]"] by (simp add: running_def h)
qed

lemma running_queue:
  assumes "running so unc all ex s" and "t_input s = Queueing w j"
  shows "running so unc all (ex(length (t_chans s) := job_result so unc j)) (s\<lparr>t_chans := t_chans s @ [new_chan],
      t_resultChCh := t_resultChCh s @ [length (t_chans s)], t_input := Giving w j (length (t_chans s))\<rparr>)"
proof -
  have c: "chans_inv so unc (hold_at (t_input s) (t_workers s)) (t_chans s) (pull_live (t_pull s) @ t_resultChCh s) ex" using assms(1) by (simp add: running_def)
  have j: "job_gives so unc j (job_result so unc j)" using assms by (simp add: running_def)
  show ?thesis using assms chans_new [OF c _ j, of None] ex_fresh [OF c, of "job_result so unc j"]
    by (simp add: running_def hold_at_input [of "Giving w j (length (t_chans s))" _ "Queueing w j"])
qed

lemma running_give:
  assumes "running so unc all ex s" and "t_input s = Giving w j ch"
  shows "running so unc all ex (s\<lparr>t_input := Reading, t_workers := (t_workers s)[w := Busy j ch]\<rparr>)"
proof -
  have c: "chans_inv so unc (hold_at (t_input s) (t_workers s)) (t_chans s) (pull_live (t_pull s) @ t_resultChCh s) ex"
    and w: "workers_inv (Some w) (t_workers s) (t_workerCh s)" using assms by (simp_all add: running_def)
  have l: "w < length (t_workers s)" "t_workers s ! w = Idle" using w by (auto simp: workers_inv_def)
  have "hold_at Reading ((t_workers s)[w := Busy j ch]) = (hold_at (t_input s) (t_workers s))(None := None, Some w \<mapsto> (j, ch))"
    by (simp add: hold_at_worker [OF l(1)] hold_at_input [of Reading _ "t_input s"])
  then show ?thesis using assms chans_move [OF c, of None j ch "Some w"] workers_give [OF w, of j ch] l by (simp add: running_def)
qed

lemma running_answer:
  assumes "running so unc all ex s" and w: "w < length (t_workers s)" "t_workers s ! w = Busy j ch" and "prefix (d_types (fst j)) ts"
  shows "running so unc all ex (s\<lparr>t_workers := (t_workers s)[w := Offering],
      t_chans := (t_chans s)[ch := answered unc j (job_result so unc ((fst j)\<lparr>d_types := ts\<rparr>, snd j))]\<rparr>)"
proof -
  have c: "chans_inv so unc (hold_at (t_input s) (t_workers s)) (t_chans s) (pull_live (t_pull s) @ t_resultChCh s) ex" using assms(1) by (simp add: running_def)
  show ?thesis using assms chans_answered [OF c, of "Some w" j ch ts] workers_answer [of _ "t_workers s" _ w j ch]
    by (simp add: running_def hold_at_worker)
qed

lemma running_result:
  assumes "running so unc all ex s" and "t_pull s = Receiving ch" and "c_content (t_chans s ! ch) = Some r"
    and that: "t = s\<lparr>t_out := t_out s @ [r], t_chans := (t_chans s)[ch := (t_chans s ! ch)\<lparr>c_content := None\<rparr>],
      t_cancelled := t_cancelled s \<or> final_result r, t_pull := (if final_result r then Stopped else Calling)\<rparr>"
  shows "running so unc all ex t \<or> stopped all t"
proof -
  have c: "chans_inv so unc (hold_at (t_input s) (t_workers s)) (t_chans s) (ch # t_resultChCh s) ex" using assms(1,2) by (simp add: running_def)
  have r: "ex ch = [r]" using chans_invD(2) [OF c, of ch] assms(3) by (simp add: chan_ok_def)
  show ?thesis
  proof (cases "final_result r")
    case True
    then show ?thesis using assms r that by (auto simp: running_def stopped_def upto_final_append)
  next
    case False
    then show ?thesis using assms r that chans_taken [OF c assms(3)] by (auto simp: running_def pulling_def)
  qed
qed

lemma running_no_result:
  assumes "running so unc all ex s" and "t_pull s = Receiving ch" and "c_content (t_chans s ! ch) = None" and "c_closed (t_chans s ! ch)"
  shows "running so unc all ex (s\<lparr>t_pull := Selecting\<rparr>)"
proof -
  have c: "chans_inv so unc (hold_at (t_input s) (t_workers s)) (t_chans s) (ch # t_resultChCh s) ex" using assms(1,2) by (simp add: running_def)
  have "ex ch = []" using chans_invD(2) [OF c, of ch] assms(3,4) by (simp add: chan_ok_def)
  then show ?thesis using assms chans_dropped [OF c] by (simp add: running_def pulling_def)
qed

lemma running_not_drained:
  assumes "running so unc all ex s" and "t_pull s = Selecting" and "t_resultChCh s = []" and "\<exists>r\<in>set all. final_result r"
  shows "t_input s \<noteq> InputExited"
  using assms by (auto simp: running_def)

lemma tstep_running:
  assumes "tstep so unc cap False s t" and "running so unc all ex s" and "steady_filter so" and "\<forall>r\<in>set all. clean_result r" and "\<exists>r\<in>set all. final_result r"
  shows "(\<exists>ex. running so unc all ex t) \<or> stopped all t"
  using assms
proof (induction rule: tstep.induct)
  case (take_worker s j w ws)
  then have "running so unc all ex (s\<lparr>t_workerCh := ws, t_input := Queueing w j\<rparr>)"
    using hold_at_same [of "Queueing w j" "NeedWorker j" "t_workers s"] workers_take [of "t_workers s" w ws] by (simp add: running_def)
  then show ?case by blast
next
  case (offer w s)
  then have "running so unc all ex (s\<lparr>t_workers := (t_workers s)[w := Idle], t_workerCh := t_workerCh s @ [w]\<rparr>)"
    using workers_offer [of _ "t_workers s" "t_workerCh s" w] by (simp add: running_def hold_at_worker fun_upd_idem)
  then show ?case by blast
next
  case (call s)
  then have "running so unc all ex (s\<lparr>t_pull := Selecting\<rparr>)" by (simp add: running_def pulling_def)
  then show ?case by blast
next
  case (receive s ch q)
  then have "running so unc all ex (s\<lparr>t_resultChCh := q, t_pull := Receiving ch\<rparr>)" by (simp add: running_def pulling_def)
  then show ?case by blast
next
  case (receive_nil s)
  then show ?case using running_not_drained [of so unc all ex s] by (simp add: running_def)
next
  case (result s ch r)
  from running_result [OF result(4,1,3) refl] show ?case by blast
next
  case (no_result s ch)
  from running_no_result [OF no_result(5,1,3,4)] show ?case by blast
qed ((simp add: running_def pulling_def; fail) | blast intro: running_read running_send running_queue running_give running_answer)+

subsection \<open>No state is stuck\<close>

definition tfinal :: "tscanner \<Rightarrow> bool" where
  "tfinal s \<longleftrightarrow> t_pull s = Stopped \<and> t_input s = InputExited \<and> (\<forall>w\<in>set (t_workers s). w = WorkerExited)"

lemma tfinal_ends: "tfinal s \<Longrightarrow> \<not> tstep so unc cap False s t"
proof
  assume f: "tfinal s" and "tstep so unc cap False s t"
  from this(2,1) show False
    by (induction rule: tstep.induct) (auto simp: tfinal_def all_set_conv_all_nth)
qed

lemma reading_steps: "t_input s = Reading \<Longrightarrow> \<exists>t. tstep so unc cap ext s t"
proof -
  assume r: "t_input s = Reading"
  obtain p x where p: "parser_read unc (t_parser s) = Some (p, x)" using parser_read_total by blast
  show ?thesis
  proof (cases x)
    case (Inl y)
    then show ?thesis using read_control [OF r, of unc p y] read_end [OF r, of unc p y] p by blast
  next
    case (Inr f)
    then show ?thesis using tstep.read_frame [OF r, of unc p f] p by blast
  qed
qed

lemma answer_steps: "w < length (t_workers s) \<Longrightarrow> t_workers s ! w = Busy j ch \<Longrightarrow> \<exists>t. tstep so unc cap ext s t"
  using answer [of w s j ch "d_types (fst j)"] by blast

lemma stopped_steps:
  assumes "t_cancelled s" and "t_input s \<noteq> InputExited \<or> (\<exists>w\<in>set (t_workers s). w \<noteq> WorkerExited)"
  shows "\<exists>t. tstep so unc cap ext s t"
  using assms(2)
proof
  assume "t_input s \<noteq> InputExited"
  then show ?thesis
  proof (cases "t_input s")
    case (Giving w j ch)
    from give_cancelled [OF this assms(1)] show ?thesis by blast
  qed (use reading_steps [of s] send_cancelled [OF _ assms(1)] input_cancelled [OF _ assms(1)] in blast)+
next
  assume "\<exists>w\<in>set (t_workers s). w \<noteq> WorkerExited"
  then obtain w where w: "w < length (t_workers s)" "t_workers s ! w \<noteq> WorkerExited" by (metis in_set_conv_nth)
  then show ?thesis using worker_cancelled [OF w(1) _ assms(1)] answer_steps [OF w(1)] by (cases "t_workers s ! w") blast+
qed

lemma workers_step:
  assumes "workers_inv None (t_workers s) (t_workerCh s)" and "t_input s = NeedWorker j"
  shows "\<exists>t. tstep so unc cap ext s t"
proof (cases "t_workerCh s")
  case Nil
  have w: "0 < length (t_workers s)" "t_workers s ! 0 \<noteq> WorkerExited" "t_workers s ! 0 \<noteq> Idle"
    using assms(1) Nil by (auto simp: workers_inv_def) (metis length_greater_0_conv nth_mem)
  then show ?thesis using offer [OF w(1)] answer_steps [OF w(1)] by (cases "t_workers s ! 0") blast+
qed (use take_worker [OF assms(2)] in blast)

lemma give_steps:
  "workers_inv (input_worker (t_input s)) (t_workers s) wch \<Longrightarrow> t_input s = Giving w j ch \<Longrightarrow> \<exists>t. tstep so unc cap ext s t"
  by (rule exI, rule give, assumption) (simp_all add: workers_inv_def)

lemma receiving_steps:
  assumes "running so unc all ex s" and "t_pull s = Receiving ch"
  shows "\<exists>t. tstep so unc cap ext s t"
proof -
  have c: "chan_ok (hold_at (t_input s) (t_workers s)) (t_chans s) ex ch" using assms by (auto simp: running_def intro: chans_invD(2))
  consider r where "c_content (t_chans s ! ch) = Some r" | "c_content (t_chans s ! ch) = None" "c_closed (t_chans s ! ch)"
    | a j where "hold_at (t_input s) (t_workers s) a = Some (j, ch)"
    using c by (auto simp: chan_ok_def split: option.splits if_splits)
  then show ?thesis
  proof cases
    case 1
    moreover have "ch < length (t_chans s)" using c by (simp add: chan_ok_def)
    ultimately show ?thesis using result [OF assms(2)] by blast
  next
    case 2
    moreover have "ch < length (t_chans s)" using c by (simp add: chan_ok_def)
    ultimately show ?thesis using no_result [OF assms(2)] by blast
  next
    case (3 a j)
    then consider w where "t_input s = Giving w j ch" | w where "w < length (t_workers s)" "t_workers s ! w = Busy j ch"
      by (auto simp: hold_at_def split: option.splits if_splits elim: input_hold.elims busy_hold.elims)
    moreover have "workers_inv (input_worker (t_input s)) (t_workers s) (t_workerCh s)" using assms(1) by (simp add: running_def)
    ultimately show ?thesis using give_steps answer_steps by cases blast+
  qed
qed

lemma selecting_steps:
  assumes "running so unc all ex s" and "t_pull s = Selecting" and "\<exists>r\<in>set all. final_result r"
  shows "\<exists>t. tstep so unc (Suc n) ext s t"
proof (cases "t_resultChCh s")
  case Nil
  have w: "workers_inv (input_worker (t_input s)) (t_workers s) (t_workerCh s)" using assms(1) by (simp add: running_def)
  note e = running_not_drained [OF assms(1,2) Nil assms(3)]
  show ?thesis
  proof (cases "t_input s")
    case (Sending r stop)
    have "length (t_resultChCh s) < Suc n" using Nil by simp
    from send [OF Sending this] show ?thesis by blast
  next
    case (NeedWorker j)
    then show ?thesis using workers_step [of s j] w by simp
  next
    case (Queueing x j)
    have "length (t_resultChCh s) < Suc n" using Nil by simp
    from queue_result [OF Queueing this] show ?thesis by blast
  qed (use e reading_steps give_steps [OF w] in blast)+
qed (use receive [OF assms(2)] in blast)

lemma tinv_steps: "tinv so unc all s \<Longrightarrow> \<not> tfinal s \<Longrightarrow> \<exists>t. tstep so unc (Suc n) False s t"
proof -
  assume i: "tinv so unc all s" and f: "\<not> tfinal s"
  then consider ex where "running so unc all ex s" | "stopped all s" by (auto simp: tinv_def)
  then show ?thesis
  proof cases
    case (1 ex)
    then consider "t_pull s = Calling" | "t_pull s = Selecting" | ch where "t_pull s = Receiving ch" by (auto simp: running_def pulling_def)
    moreover have "\<exists>r\<in>set all. final_result r" using i by (simp add: tinv_def)
    ultimately show ?thesis using call selecting_steps [OF 1] receiving_steps [OF 1] by cases blast+
  next
    case 2
    then have "t_cancelled s" "t_input s \<noteq> InputExited \<or> (\<exists>w\<in>set (t_workers s). w \<noteq> WorkerExited)" using f by (auto simp: stopped_def tfinal_def)
    then show ?thesis by (rule stopped_steps)
  qed
qed

lemma tinv_keeps: "tinv so unc all s \<Longrightarrow> tstep so unc cap False s t \<Longrightarrow> tinv so unc all t"
  using tstep_running [of so unc cap s t all] tstep_stopped [of so unc cap s t all] unfolding tinv_def by blast

interpretation threads: live_system "tstep so unc (Suc n) False" "tinv so unc all" tfinal tweight for so unc n all
  by unfold_locales (auto intro: tinv_keeps tstep_decreases tinv_steps)

lemma tstart_inv:
  assumes "0 < n" and "steady_filter so" and "\<forall>r\<in>set (results so unc p). clean_result r"
  shows "tinv so unc (results so unc p) (tstart n p)"
proof -
  have "hold_at Reading (replicate n Offering) = (\<lambda>_. None)" by (auto simp: hold_at_def fun_eq_iff split: option.split)
  then have "running so unc (results so unc p) (\<lambda>_. []) (tstart n p)"
    using assms(1) by (auto simp: running_def tstart_def pulling_def workers_inv_def chans_inv_def)
  then show ?thesis using assms results_final by (auto simp: tinv_def)
qed

lemma tinv_out:
  assumes "tinv so unc all s"
  shows "prefix (t_out s) (upto_final all)" and "t_pull s = Stopped \<Longrightarrow> t_out s = upto_final all"
  using assms by (auto simp: tinv_def running_def stopped_def pulling_def upto_final_append)

lemma hung_stays: "tstep so unc cap ext s t \<Longrightarrow> t_pull s = Hung \<Longrightarrow> t_pull t = Hung"
  by (induction rule: tstep.induct) auto

subsection \<open>The scanner in one thread\<close>

text \<open>A consumer that pulls until it gets the end or an error.\<close>

partial_function (option) pull_all :: "(scanner, parse_error, bval) puller \<Rightarrow> scanner \<Rightarrow> tresult list option" where
  "pull_all pull s = (case pull False s of
      None \<Rightarrow> None
    | Some (s', r) \<Rightarrow> if final_result r then Some [r] else Option.bind (pull_all pull s') (\<lambda>rs. Some (r # rs)))"

lemma scanBatch_result: "snd (scanBatch so b d pr) = snd (scanBatch so b d no_progress)"
  by (simp add: scanBatch_def split: sum.split prod.split)

lemma final_error: "\<not> is_control x \<Longrightarrow> final_result (Inl (to_pfail x))"
  using to_pfail_control by (cases "to_pfail x") (auto simp: final_result_def)

lemma scanBatch_no_control: "snd (scanBatch so b d pr) = Inl x \<Longrightarrow> \<not> is_control x"
  using scan_values_no_control by (auto simp: scanBatch_def split: if_splits sum.splits prod.splits option.splits)

lemma decompress_no_control: "frame_decompress unc f = Inl x \<Longrightarrow> \<not> is_control x"
  by (auto simp: frame_decompress_def split: bframe.splits if_splits sum.splits)

lemma final_batch [simp]: "\<not> final_result (Inr (Some vs))" "final_result (Inr None)"
  by (simp_all add: final_result_def)

lemma control_not_final: "is_control x \<Longrightarrow> to_pfail x = PError x \<and> \<not> final_result (Inl (PError x)) \<and> x \<noteq> PeekErr PeekEOF"
  by (auto simp: is_control_def final_result_def)

lemma scan_again_results:
  "scan_again so unc s = Some (s', r) \<Longrightarrow> sc_eof s' = sc_eof s \<and>
   upto_final (results so unc (sc_parser s)) = r # (if final_result r then [] else upto_final (results so unc (sc_parser s')))"
proof (induction "sleft s" arbitrary: s rule: less_induct)
  case less
  obtain p x where p: "parser_read unc (sc_parser s) = Some (p, x)" using parser_read_total by blast
  show ?case
  proof (cases x)
    case (Inl y)
    then have "s' = s\<lparr>sc_parser := p\<rparr>" "r = (if y = PeekErr PeekEOF then Inr None else Inl (to_pfail y))"
      using less.prems p by (auto simp: scan_again.simps [of so unc s])
    then show ?thesis using p Inl results_end [of unc "sc_parser s" p y so] results_control [of unc "sc_parser s" p y so]
      control_not_final [of y] final_end_result [of y] by (cases "is_control y") (auto simp: end_result_def)
  next
    case (Inr f)
    note rs = results_frame [OF p [unfolded Inr], of so]
    show ?thesis
    proof (cases "frame_decompress unc f")
      case (Inl y)
      then show ?thesis using less.prems p Inr rs final_error [OF decompress_no_control [OF Inl]]
        by (auto simp: scan_again.simps [of so unc s] job_result_def)
    next
      case b: (Inr b)
      obtain pr z where z: "scanBatch so b (p_types p) (sc_progress s) = (pr, z)" by fastforce
      then have z': "snd (scanBatch so b (p_types p) no_progress) = z" using scanBatch_result by (metis snd_conv)
      consider y where "z = Inl y" | vs where "z = Inr (Some vs)" | "z = Inr None" by (metis option.exhaust sum.exhaust)
      then show ?thesis
      proof cases
        case 1
        then show ?thesis using less.prems p Inr rs b z z' final_error [OF scanBatch_no_control [of so b "p_types p" no_progress y]]
          by (auto simp: scan_again.simps [of so unc s] job_result_def)
      next
        case 2
        then show ?thesis using less.prems p Inr rs b z z' by (auto simp: scan_again.simps [of so unc s] job_result_def)
      next
        case 3
        let ?s = "s\<lparr>sc_parser := p, sc_progress := pr\<rparr>"
        have "scan_again so unc ?s = Some (s', r)" using less.prems p Inr b z 3 by (simp add: scan_again.simps [of so unc s])
        from less.hyps [OF _ this] show ?thesis using parser_read_less(2) [OF p Inr] 3 z' b rs by (simp add: job_result_def)
      qed
    qed
  qed
qed

lemma pull_all_results:
  "\<not> sc_eof s \<Longrightarrow> pull_all (scannerSync_Pull so unc) s = Some (upto_final (results so unc (sc_parser s)))"
proof (induction "sleft s" arbitrary: s rule: less_induct)
  case less
  obtain s' r where r: "scan_again so unc s = Some (s', r)" "pull_progress s s' r" using scan_again_total by blast
  note u = scan_again_results [OF r(1)]
  show ?case
  proof (cases "final_result r")
    case False
    then have "sleft s' < sleft s" using r(2) by (auto simp: pull_progress_def final_result_def split: sum.splits option.splits pfail.splits)
    then show ?thesis using less.hyps [of s'] less.prems u r(1) False by (subst pull_all.simps) (simp add: scannerSync_Pull_def)
  qed (use less.prems u r(1) in \<open>subst pull_all.simps, simp add: scannerSync_Pull_def\<close>)
qed

subsection \<open>Properties\<close>

text \<open>
  C4: the threaded scanner gives what the scanner in one thread gives. Whatever the interleaving of the
  input goroutine, the workers and the consumer, with any number of workers, what the consumer has got is a prefix of the
  results, control messages and errors included and in the same order, that pulling the scanner of one thread
  until the end or an error gives; and it is all of them when the consumer has stopped. The input has no
  frame or type definitions that a decoder rejects, and no panic, and the filter on frames keeps its law.
\<close>

theorem threads_equal_sync:
  assumes "0 < n" and "steady_filter so" and "\<forall>r\<in>set (results so unc (sc_parser sc)). clean_result r" and "\<not> sc_eof sc"
    and "(tstep so unc (n + 1) False)\<^sup>*\<^sup>* (tstart n (sc_parser sc)) s"
  shows "\<exists>rs. pull_all (scannerSync_Pull so unc) sc = Some rs \<and> prefix (t_out s) rs \<and> (t_pull s = Stopped \<longrightarrow> t_out s = rs)"
proof -
  have "tinv so unc (results so unc (sc_parser sc)) s"
    using threads.run_inv [OF assms(5) [unfolded Suc_eq_plus1 [symmetric]] tstart_inv [OF assms(1-3)]] .
  then show ?thesis using tinv_out pull_all_results [OF assms(4)] by blast
qed

text \<open>Two frames of input: a control message and a value of type \<open>bytes\<close>, then the end.\<close>

declare parser_read.simps [code]

lemma is_control_code [code]: "is_control x = (case x of Control _ _ \<Rightarrow> True | _ \<Rightarrow> False)"
  by (simp split: parse_error.split)

definition two_frames :: scanner where
  "two_frames = newScannerSync NewContext [Data [0x22, 0, 1, 7, 0x13, 0, 24, 2, 9]] (\<lambda>k n. n) 16 100"

lemma two_frames_read:
  "case parser_read (\<lambda>z n. Inr z :: unit + bytes) (sc_parser two_frames) of None \<Rightarrow> False | Some (p, x) \<Rightarrow> x = Inl (Control 1 [7]) \<and>
     (case parser_read (\<lambda>z n. Inr z :: unit + bytes) p of None \<Rightarrow> False | Some (p, x) \<Rightarrow> x = Inr (RawFrame [24, 2, 9]) \<and> d_types (p_types p) = [] \<and>
       (case parser_read (\<lambda>z n. Inr z :: unit + bytes) p of None \<Rightarrow> False | Some (p, x) \<Rightarrow> x = Inl (PeekErr PeekEOF)))"
  by code_simp

lemma two_frames_scan:
  "scan_values plain_opts (d\<lparr>d_types := []\<rparr>) [] [24, 2, 9] [] no_progress =
   Inr ([(TypePrim TypeBytes, Some [9])], \<lparr>BytesRead = 1, BytesMatched = 1, RecordsRead = 1, RecordsMatched = 1\<rparr>)"
  by code_simp

lemma two_frames_results:
  "results plain_opts (\<lambda>z n. Inr z :: unit + bytes) (sc_parser two_frames) =
   [Inl (PError (Control 1 [7])), Inr (Some [(TypePrim TypeBytes, Some [9])]), Inr None]"
proof -
  let ?unc = "\<lambda>z n. Inr z :: unit + bytes"
  obtain p1 p2 p3 where p: "parser_read ?unc (sc_parser two_frames) = Some (p1, Inl (Control 1 [7]))"
    "parser_read ?unc p1 = Some (p2, Inr (RawFrame [24, 2, 9]))" "d_types (p_types p2) = []" "parser_read ?unc p2 = Some (p3, Inl (PeekErr PeekEOF))"
    using two_frames_read by (auto split: option.splits prod.splits)
  have "p_types p2 = (p_types p2)\<lparr>d_types := []\<rparr>" using p(3) by (cases "p_types p2") simp
  then have "snd (scanBatch plain_opts [24, 2, 9] (p_types p2) no_progress) = Inr (Some [(TypePrim TypeBytes, Some [9])])"
    using two_frames_scan [of "p_types p2"] by (simp add: scanBatch_def plain_opts_def)
  then show ?thesis
    by (simp add: results_control [OF p(1)] results_frame [OF p(2)] results_end [OF p(4)] job_result_def frame_decompress_def end_result_def)
qed

theorem threads_equal_sync_witness:
  "\<exists>s. (tstep plain_opts (\<lambda>z n. Inr z :: unit + bytes) 3 False)\<^sup>*\<^sup>* (tstart 2 (sc_parser two_frames)) s \<and> t_pull s = Stopped \<and>
     pull_all (scannerSync_Pull plain_opts (\<lambda>z n. Inr z :: unit + bytes)) two_frames = Some (t_out s)"
proof -
  let ?unc = "\<lambda>z n. Inr z :: unit + bytes"
  have f: "steady_filter plain_opts" by (simp add: steady_filter_def plain_opts_def)
  have c: "\<forall>r\<in>set (results plain_opts ?unc (sc_parser two_frames)). clean_result r"
    by (simp add: two_frames_results clean_result_def)
  obtain s where s: "(tstep plain_opts ?unc (2 + 1) False)\<^sup>*\<^sup>* (tstart 2 (sc_parser two_frames)) s" "t_pull s = Stopped"
    using threads.ends [OF tstart_inv [of 2, OF _ f c], of 2] by (auto simp: tfinal_def)
  have "\<not> sc_eof two_frames" by (simp add: two_frames_def newScannerSync_def)
  from threads_equal_sync [OF _ f c this s(1)] show ?thesis using s by auto
qed

text \<open>
  C16: left alone, the threaded scanner neither blocks for good nor leaves a goroutine behind. Every run in which the
  context is not cancelled from outside and the consumer does not pull with done is finite, and when it can go no
  further the consumer has stopped, with the end or an error of the input as its last result, it has got the
  results of the sequential scanner up to that one, and the input goroutine and all workers have returned. The input
  is such that no worker meets an error or a panic of its decoder, and the filter always answers the same. (After
  a cancellation a run may block for ever, as a later property shows.)
\<close>

theorem threads_wind_down:
  assumes "0 < n" and "steady_filter so" and "\<forall>r\<in>set (results so unc p). clean_result r"
  shows "(\<nexists>r. \<forall>k. tstep so unc (n + 1) False (r k) (r (Suc k))) \<and>
    (\<forall>s. (tstep so unc (n + 1) False)\<^sup>*\<^sup>* (tstart n p) s \<longrightarrow> (\<nexists>t. tstep so unc (n + 1) False s t) \<longrightarrow>
      tfinal s \<and> t_out s = upto_final (results so unc p))"
proof (intro conjI allI impI)
  show "\<nexists>r. \<forall>k. tstep so unc (n + 1) False (r k) (r (Suc k))" using threads.no_infinite_run unfolding Suc_eq_plus1 by blast
next
  fix s assume run: "(tstep so unc (n + 1) False)\<^sup>*\<^sup>* (tstart n p) s" and stuck: "\<nexists>t. tstep so unc (n + 1) False s t"
  have i: "tinv so unc (results so unc p) s"
    using threads.run_inv [OF run [unfolded Suc_eq_plus1 [symmetric]] tstart_inv [OF assms]] .
  then show "tfinal s" using tinv_steps [of so unc _ s n] stuck by (metis Suc_eq_plus1)
  then show "t_out s = upto_final (results so unc p)" using tinv_out(2) [OF i] by (simp add: tfinal_def)
qed

theorem threads_wind_down_witness:
  "\<exists>s. (tstep plain_opts (\<lambda>z n. Inr z :: unit + bytes) 3 False)\<^sup>*\<^sup>* (tstart 2 (sc_parser two_frames)) s \<and> tfinal s \<and>
     t_out s = [Inl (PError (Control 1 [7])), Inr (Some [(TypePrim TypeBytes, Some [9])]), Inr None]"
proof -
  let ?unc = "\<lambda>z n. Inr z :: unit + bytes"
  have f: "steady_filter plain_opts" by (simp add: steady_filter_def plain_opts_def)
  have c: "\<forall>r\<in>set (results plain_opts ?unc (sc_parser two_frames)). clean_result r"
    by (simp add: two_frames_results clean_result_def)
  obtain s where s: "(tstep plain_opts ?unc (2 + 1) False)\<^sup>*\<^sup>* (tstart 2 (sc_parser two_frames)) s" "tfinal s"
    "\<nexists>t. tstep plain_opts ?unc (2 + 1) False s t"
    using threads.ends [OF tstart_inv [of 2, OF _ f c], of 2] tfinal_ends [of _ plain_opts ?unc 3] by auto
  from threads_wind_down [OF _ f c, of 2] show ?thesis
    using s by (auto simp: two_frames_results final_result_def is_control_def)
qed

text \<open>
  C39: a cancelled scanner can block its consumer for good. When the context is cancelled, the input goroutine may
  drop the end of the input and close \<open>resultChCh\<close>; \<open>Pull\<close>, whose select may prefer the closed channel, gets a nil channel
  from it and waits on that, which no step ends.
\<close>

theorem cancelled_pull_hangs:
  assumes "parser_read unc p = Some (p', Inl (PeekErr PeekEOF))"
  shows "\<exists>s. (tstep so unc cap True)\<^sup>*\<^sup>* (tstart n p) s \<and> t_pull s = Hung \<and>
    (\<forall>t. (tstep so unc cap True)\<^sup>*\<^sup>* s t \<longrightarrow> t_pull t = Hung)"
proof -
  let ?s1 = "(tstart n p)\<lparr>t_cancelled := True\<rparr>"
  let ?s2 = "?s1\<lparr>t_parser := p', t_input := Sending (end_result (PeekErr PeekEOF)) True\<rparr>"
  let ?s3 = "?s2\<lparr>t_input := InputExited, t_closed := True\<rparr>"
  let ?s4 = "?s3\<lparr>t_pull := Selecting\<rparr>"
  let ?s5 = "?s4\<lparr>t_pull := Hung\<rparr>"
  have 1: "tstep so unc cap True (tstart n p) ?s1" by (rule cancel) (simp_all add: tstart_def)
  have 2: "tstep so unc cap True ?s1 ?s2" using assms by (intro read_end) (simp_all add: tstart_def)
  have 3: "tstep so unc cap True ?s2 ?s3" using send_cancelled [of ?s2 "end_result (PeekErr PeekEOF)" True so unc cap True] by simp
  have 4: "tstep so unc cap True ?s3 ?s4" by (rule call) (simp add: tstart_def)
  have 5: "tstep so unc cap True ?s4 ?s5" by (rule receive_nil) (simp_all add: tstart_def)
  have "(tstep so unc cap True)\<^sup>*\<^sup>* (tstart n p) ?s5"
    using 1 2 3 4 5 by (meson converse_rtranclp_into_rtranclp r_into_rtranclp)
  moreover have "t_pull t = Hung" if "(tstep so unc cap True)\<^sup>*\<^sup>* ?s5 t" for t
    using that by (induction rule: rtranclp_induct) (simp, blast intro: hung_stays)
  ultimately show ?thesis by (intro exI [of _ ?s5]) simp
qed

theorem cancelled_pull_hangs_witness:
  "\<exists>s. (tstep plain_opts (\<lambda>z n. Inr z :: unit + bytes) 3 True)\<^sup>*\<^sup>* (tstart 2 (sc_parser (newScannerSync NewContext [] (\<lambda>k n. n) 16 100))) s \<and>
     (\<forall>t. (tstep plain_opts (\<lambda>z n. Inr z :: unit + bytes) 3 True)\<^sup>*\<^sup>* s t \<longrightarrow> t_pull t = Hung)"
proof -
  have "map_option snd (parser_read (\<lambda>z n. Inr z :: unit + bytes) (sc_parser (newScannerSync NewContext [] (\<lambda>k n. n) 16 100))) = Some (Inl (PeekErr PeekEOF))"
    by code_simp
  then obtain p where "parser_read (\<lambda>z n. Inr z :: unit + bytes) (sc_parser (newScannerSync NewContext [] (\<lambda>k n. n) 16 100)) = Some (p, Inl (PeekErr PeekEOF))"
    by auto
  from cancelled_pull_hangs [OF this, of plain_opts 3 2] show ?thesis by blast
qed

end
