(* ===== verification/Dot_Expr.thy ===== *)
theory Dot_Expr
  imports Values
begin

text \<open>
  Field access (\<open>runtime/sam/expr/dot.go\<close> and the functions of \<open>eval.go\<close> it calls): a dotted expression, its
  evaluation with the table that remembers the index of the field for each type identifier, and evaluation of a sequence
  of values with one evaluator. The type context of the evaluator is threaded through.
\<close>

subsection \<open>Containers\<close>

datatype dot_panic = DotValue value_panic | DotBytes zpanic | DotType tv_panic | DotIndex | DotUntag untag_panic

type_synonym 'a dotres = "tcontext \<times> (dot_panic + 'a)"

fun dbind :: "'a dotres \<Rightarrow> (tcontext \<Rightarrow> 'a \<Rightarrow> 'b dotres) \<Rightarrow> 'b dotres" where
  "dbind (c, Inl p) f = (c, Inl p)"
| "dbind (c, Inr x) f = f c x"

fun dval :: "tcontext \<Rightarrow> value_panic + 'a \<Rightarrow> 'a dotres" where
  "dval c (Inl p) = (c, Inl (DotValue p))"
| "dval c (Inr x) = (c, Inr x)"

fun dbytes :: "tcontext \<Rightarrow> zpanic + 'a \<Rightarrow> 'a dotres" where
  "dbytes c (Inl p) = (c, Inl (DotBytes p))"
| "dbytes c (Inr x) = (c, Inr x)"

definition Missing :: "tcontext \<Rightarrow> zvalue dotres" where
  "Missing c = (case StringTypeError c of (c, t) \<Rightarrow> (c, Inr (NewValue t (Some (str ''missing'')))))"

function count_items :: "bytes \<Rightarrow> zpanic + nat" where
  "count_items it = (if Iter_Done it then Inr 0
     else case Iter_Next it of Inl p \<Rightarrow> Inl p | Inr (_, it') \<Rightarrow> res_bind (count_items it') (\<lambda>n. Inr (n + 1)))"
  by pat_completeness auto
termination by (relation "measure length") (auto dest: Iter_Next_shorter)

declare count_items.simps [simp del]

text \<open>The element with its index, \<open>None\<close> for the index \<open>-1\<close>. A negative index counts from the end.\<close>

definition getNthFromContainer :: "zbytes \<Rightarrow> int \<Rightarrow> zpanic + (zbytes \<times> nat) option" where
  "getNthFromContainer container idx =
     res_bind (if idx < 0 then res_bind (count_items (slice_bytes container)) (\<lambda>n.
           Inr (if int n + idx < 0 \<or> int n + idx \<ge> int n then None else Some (nat (int n + idx))))
         else Inr (Some (nat idx))) (\<lambda>i. case i of None \<Rightarrow> Inr None
       | Some k \<Rightarrow> res_bind (array_index_loop 0 k (slice_bytes container)) (\<lambda>r. Inr (map_option (\<lambda>zv. (zv, k)) r)))"

function lookupKey :: "bytes \<Rightarrow> bytes \<Rightarrow> zpanic + zbytes option" where
  "lookupKey it target = (if Iter_Done it then Inr None
     else case Iter_Next it of Inl p \<Rightarrow> Inl p
       | Inr (k, it') \<Rightarrow> (case Iter_Next it' of Inl p \<Rightarrow> Inl p
         | Inr (v, it'') \<Rightarrow> if slice_bytes k = target then Inr (Some v) else lookupKey it'' target))"
  by pat_completeness auto
termination by (relation "measure (\<lambda>(it, target). length it)") (auto dest!: Iter_Next_shorter)

declare lookupKey.simps [simp del]

definition deunion :: "ztype \<Rightarrow> zbytes \<Rightarrow> untag_panic + zvalue" where
  "deunion t b = (case t of
      TypeUnion i ts \<Rightarrow> (case Untag i ts b of Inl p \<Rightarrow> Inl p | Inr (u, b) \<Rightarrow> Inr (NewValue u b))
    | _ \<Rightarrow> Inr (NewValue t b))"

definition found_key :: "tcontext \<Rightarrow> ztype \<Rightarrow> bytes \<Rightarrow> bytes \<Rightarrow> zvalue dotres" where
  "found_key c vt mapBytes target = dbind (dbytes c (lookupKey mapBytes target)) (\<lambda>c r. case r of
      None \<Rightarrow> Missing c
    | Some valBytes \<Rightarrow> (case deunion vt valBytes of Inl p \<Rightarrow> (c, Inl (DotUntag p)) | Inr v \<Rightarrow> (c, Inr v)))"

definition indexMap :: "float_ops \<Rightarrow> tcontext \<Rightarrow> ztype \<Rightarrow> ztype \<Rightarrow> zbytes \<Rightarrow> zvalue \<Rightarrow> zvalue dotres" where
  "indexMap fo c kt vt mapBytes key =
     dbind (dval c (Value_IsMissing fo (Some key))) (\<lambda>c miss. if miss then Missing c
     else if v_typ key \<noteq> kt then
       (case TypeUnder kt of
          TypeUnion i ts \<Rightarrow> if TagOf ts (v_typ key) \<ge> 0 then
              dbind (dval c (Value_Bytes fo key)) (\<lambda>c kb.
              dbind (dbytes c (BuildUnion NewBuilder (word_of_int (TagOf ts (v_typ key))) kb)) (\<lambda>c b.
              dbind (dbytes c (Builder_Bytes b)) (\<lambda>c bytes. dbind (dbytes c (Bytes_Body (slice_bytes bytes))) (\<lambda>c body.
                found_key c vt (slice_bytes mapBytes) (slice_bytes body)))))
            else Missing c
        | _ \<Rightarrow> Missing c)
     else dbind (dval c (Value_Bytes fo key)) (\<lambda>c kb. found_key c vt (slice_bytes mapBytes) (slice_bytes kb)))"

subsection \<open>Dotted expressions\<close>

text \<open>\<open>This\<close>, and a field of another expression with the table of field indices.\<close>

datatype dexpr = This | DotExpr dexpr gostring "int list"

definition NewDotExpr :: "dexpr \<Rightarrow> gostring \<Rightarrow> dexpr" where
  "NewDotExpr r f = DotExpr r f []"

definition NewDottedExpr :: "path \<Rightarrow> dexpr" where
  "NewDottedExpr p = foldl NewDotExpr This p"

text \<open>The entries of the table: 0 not known, \<open>i + 1\<close> for the index \<open>i\<close>, \<open>-1\<close> for no such field.\<close>

definition fieldIndex :: "gostring \<Rightarrow> int list \<Rightarrow> nat \<Rightarrow> field list \<Rightarrow> int list \<times> nat option" where
  "fieldIndex f tab i fs =
     (let tab = (if i \<ge> length tab then tab @ replicate (i + 1 - length tab) 0 else tab); k = tab ! i in
      if k > 0 then (tab, Some (nat (k - 1)))
      else if k < 0 then (tab, None)
      else case IndexOfField fs f of
        Some n \<Rightarrow> (tab[i := int n + 1], Some n)
      | None \<Rightarrow> (tab[i := -1], None))"

definition evalTypeOfType :: "gostring \<Rightarrow> tcontext \<Rightarrow> zbytes \<Rightarrow> zvalue dotres" where
  "evalTypeOfType f c b = (case b of None \<Rightarrow> (c, Inr (NewValue (TypePrim TypeType) None))
    | Some tv \<Rightarrow> (case DecodeTypeValue c tv of
        (c, Inl p) \<Rightarrow> (c, Inl (DotType p))
      | (c, Inr (Some (t, _))) \<Rightarrow> (case TypeUnder t of
          TypeRecord _ fs \<Rightarrow> (case TypeOfField fs f of
            Some u \<Rightarrow> (case LookupTypeValue c u of (c, Inl p) \<Rightarrow> (c, Inl (DotType p)) | (c, Inr (vt, vb)) \<Rightarrow> (c, Inr (NewValue vt (Some vb))))
          | None \<Rightarrow> Missing c)
        | _ \<Rightarrow> Missing c)
      | (c, Inr None) \<Rightarrow> Missing c))"

text \<open>The field with the index from the table; the type is taken from the record's own fields.\<close>

definition dot_record :: "float_ops \<Rightarrow> field list \<Rightarrow> nat option \<Rightarrow> tcontext \<Rightarrow> zvalue \<Rightarrow> zvalue dotres" where
  "dot_record fo fs i c val = (case i of None \<Rightarrow> Missing c
    | Some i \<Rightarrow> dbind (dval c (Value_Bytes fo val)) (\<lambda>c b. dbind (dbytes c (getNthFromContainer b (int i))) (\<lambda>c r. case r of
        None \<Rightarrow> Missing c
      | Some (bytes, _) \<Rightarrow> if i < length fs then (c, Inr (NewValue (snd (fs ! i)) bytes)) else (c, Inl DotIndex))))"

definition dot_other :: "float_ops \<Rightarrow> gostring \<Rightarrow> tcontext \<Rightarrow> zvalue \<Rightarrow> zvalue dotres" where
  "dot_other fo f c val = (case v_typ val of
      TypeMap _ kt vt \<Rightarrow> dbind (dval c (Value_Bytes fo val)) (\<lambda>c b. indexMap fo c kt vt b (NewString f))
    | TypePrim TypeType \<Rightarrow> dbind (dval c (Value_Bytes fo val)) (evalTypeOfType f)
    | _ \<Rightarrow> Missing c)"

fun Dot_Eval :: "float_ops \<Rightarrow> dexpr \<Rightarrow> tcontext \<Rightarrow> zvalue \<Rightarrow> dexpr \<times> zvalue dotres" where
  "Dot_Eval fo This c this' = (This, (c, Inr this'))"
| "Dot_Eval fo (DotExpr r f tab) c this' = (case Dot_Eval fo r c this' of
      (r, (c, Inl p)) \<Rightarrow> (DotExpr r f tab, (c, Inl p))
    | (r, (c, Inr v)) \<Rightarrow> (case Under fo v of
        Inl p \<Rightarrow> (DotExpr r f tab, (c, Inl (DotValue p)))
      | Inr val \<Rightarrow> (case v_typ val of
          TypeRecord i fs \<Rightarrow> (case fieldIndex f tab i fs of (tab, k) \<Rightarrow> (DotExpr r f tab, dot_record fo fs k c val))
        | _ \<Rightarrow> (DotExpr r f tab, dot_other fo f c val))))"

text \<open>The results for a sequence of values with one evaluator, and with a new one for each value.\<close>

fun eval_seq :: "float_ops \<Rightarrow> dexpr \<Rightarrow> tcontext \<Rightarrow> zvalue list \<Rightarrow> (dot_panic + zvalue) list" where
  "eval_seq fo e c [] = []"
| "eval_seq fo e c (v # vs) = (case Dot_Eval fo e c v of (e, (c, x)) \<Rightarrow> x # eval_seq fo e c vs)"

fun eval_fresh :: "float_ops \<Rightarrow> path \<Rightarrow> tcontext \<Rightarrow> zvalue list \<Rightarrow> (dot_panic + zvalue) list" where
  "eval_fresh fo p c [] = []"
| "eval_fresh fo p c (v # vs) = (case Dot_Eval fo (NewDottedExpr p) c v of (e, (c, x)) \<Rightarrow> x # eval_fresh fo p c vs)"

subsection \<open>The table of one context\<close>

definition dot_table_ok :: "tcontext \<Rightarrow> gostring \<Rightarrow> int list \<Rightarrow> bool" where
  "dot_table_ok cx f tab \<longleftrightarrow> (\<forall>i fs. i < length tab \<longrightarrow> tab ! i \<noteq> 0 \<longrightarrow> known cx (TypeRecord i fs) \<longrightarrow>
     tab ! i = (case IndexOfField fs f of Some n \<Rightarrow> int n + 1 | None \<Rightarrow> -1))"

lemma fieldIndex_ok:
  assumes "ids_ok cx" "known cx (TypeRecord i fs)" "dot_table_ok cx f tab"
  shows "snd (fieldIndex f tab i fs) = IndexOfField fs f \<and> dot_table_ok cx f (fst (fieldIndex f tab i fs))"
proof -
  define tb where "tb = (if i \<ge> length tab then tab @ replicate (i + 1 - length tab) 0 else tab)"
  have i: "i < length tb" by (simp add: tb_def)
  have tb: "dot_table_ok cx f tb" using assms(3) by (auto simp: dot_table_ok_def tb_def nth_append)
  have same: "gs = fs" if "known cx (TypeRecord i gs)" for gs
    using TypeID_inj [OF assms(1) that assms(2)] by (simp add: TypeID_def)
  have upd: "dot_table_ok cx f (tb[i := k])" if "k = (case IndexOfField fs f of Some n \<Rightarrow> int n + 1 | None \<Rightarrow> -1)" for k
    using tb i same that by (auto simp: dot_table_ok_def nth_list_update split: if_splits)
  have "tb ! i \<noteq> 0 \<Longrightarrow> tb ! i = (case IndexOfField fs f of Some n \<Rightarrow> int n + 1 | None \<Rightarrow> -1)"
    using tb i assms(2) by (simp add: dot_table_ok_def)
  then show ?thesis using upd tb
    by (cases "tb ! i = 0"; cases "IndexOfField fs f") (auto simp: fieldIndex_def Let_def tb_def [symmetric])
qed

lemma known_under_dot: "ids_ok cx \<Longrightarrow> known cx t \<Longrightarrow> known cx (TypeUnder t)"
  by (induction t) (auto dest: known_parts)

lemma known_Untag:
  assumes "ids_ok cx" "known cx (TypeUnion i ts)" "Untag i ts b = Inr (t, z)"
  shows "known cx t"
proof (cases b)
  case None
  then show ?thesis using assms by (simp add: Untag_def)
next
  case (Some x)
  then have "t \<in> set ts" using assms(3) Untag_member by blast
  then show ?thesis using known_parts [OF assms(1,2)] by simp
qed

lemma known_under_loop: "ids_ok cx \<Longrightarrow> known cx t \<Longrightarrow> under_loop t b = Inr (u, z) \<Longrightarrow> known cx u"
proof (induction t b rule: under_loop.induct)
  case (1 t b)
  have k: "known cx (TypeUnder t)" using known_under_dot 1(2,3) .
  show ?case
  proof (cases "\<exists>i ts x. TypeUnder t = TypeUnion i ts \<and> b = Some x")
    case False
    then have "under_loop t b = Inr (TypeUnder t, b)" by (subst under_loop.simps) (auto split: ztype.splits option.splits)
    then show ?thesis using 1(4) k by simp
  next
    case True
    then obtain i ts x where tx: "TypeUnder t = TypeUnion i ts" "b = Some x" by blast
    obtain w y where w: "Untag i ts b = Inr (w, y)" "under_loop w y = Inr (u, z)"
      using 1(4) tx by (subst (asm) under_loop.simps) (auto split: sum.splits)
    have "known cx w" using known_Untag [OF 1(2) _ w(1)] k tx(1) by simp
    then show ?thesis using 1(1) [OF tx w(1) refl 1(2) _ w(2)] by blast
  qed
qed

lemma known_Under: "ids_ok cx \<Longrightarrow> known cx (v_typ v) \<Longrightarrow> Under fo v = Inr u \<Longrightarrow> known cx (v_typ u)"
  using known_under_loop [of cx "v_typ v"]
  by (auto simp: Under_def NewValue_def res_bind_Inr_iff split: ztype.splits)

subsection \<open>Properties\<close>

text \<open>
  C19: an expression for a field gives the same result whatever values it was evaluated on before, for values of types
  of one type context: the table it keeps of the index of the field for each type identifier makes no difference.
\<close>

theorem field_table_transparent:
  assumes "ctx_inv cx" and "\<forall>v\<in>set vs. known cx (v_typ v)"
  shows "eval_seq fo (NewDottedExpr [f]) c vs = eval_fresh fo [f] c vs"
proof -
  have ids: "ids_ok cx" using assms(1) by (simp add: ctx_inv_def)
  have "eval_seq fo (DotExpr This f tab) c vs = eval_fresh fo [f] c vs" if "dot_table_ok cx f tab" for tab
    using assms(2) that
  proof (induction vs arbitrary: c tab)
    case (Cons v vs)
    have new: "dot_table_ok cx f []" by (simp add: dot_table_ok_def)
    have step: "snd (Dot_Eval fo (DotExpr This f tab) c v) = snd (Dot_Eval fo (DotExpr This f []) c v) \<and>
        (\<exists>tab'. fst (Dot_Eval fo (DotExpr This f tab) c v) = DotExpr This f tab' \<and> dot_table_ok cx f tab')"
    proof (cases "Under fo v")
      case (Inr u)
      have k: "known cx (v_typ u)" using known_Under [OF ids _ Inr] Cons.prems(1) by simp
      show ?thesis
      proof (cases "v_typ u")
        case (TypeRecord i fs)
        then show ?thesis using Inr k fieldIndex_ok [OF ids, of i fs f tab] fieldIndex_ok [OF ids, of i fs f "[]"] Cons.prems(2) new
          by (simp add: case_prod_beta)
      qed (use Inr Cons.prems(2) in simp_all)
    qed (use Cons.prems(2) in simp)
    then show ?case using Cons.IH Cons.prems(1)
      by (cases "Dot_Eval fo (DotExpr This f tab) c v"; cases "Dot_Eval fo (DotExpr This f []) c v")
        (auto simp: NewDottedExpr_def NewDotExpr_def simp del: Dot_Eval.simps split: prod.splits)
  qed simp
  from this [of "[]"] show ?thesis by (simp add: NewDottedExpr_def NewDotExpr_def dot_table_ok_def)
qed

text \<open>Two integers in a record, as encoded.\<close>

definition pair_value :: "ztype \<Rightarrow> u8 \<Rightarrow> u8 \<Rightarrow> zvalue" where
  "pair_value t x y = NewValue t (Some [2, x, 2, y])"

definition int_fields :: "string \<Rightarrow> string \<Rightarrow> field list" where
  "int_fields n m = [(str n, TypePrim TypeInt64), (str m, TypePrim TypeInt64)]"

lemma int_fields_types: "int_fields n m \<noteq> []" "length (int_fields n m) = 2" "snd (int_fields n m ! 0) = TypePrim TypeInt64" "snd (int_fields n m ! Suc 0) = TypePrim TypeInt64"
  by (simp_all add: int_fields_def)

lemma int_fields_lookup:
  "distinct [str n, str m] \<Longrightarrow> snd (LookupTypeRecord NewContext (int_fields n m)) = Inr (TypeRecord 30 (int_fields n m))"
  using duplicateField_None [of "int_fields n m"]
  by (simp add: LookupTypeRecord_def int_fields_def NewContext_def nextID_def IDTypeComplex_def Let_def)

lemma pair_items: "array_index_loop 0 0 [2, x, 2, y] = Inr (Some (Some [x]))" "array_index_loop 0 (Suc 0) [2, x, 2, y] = Inr (Some (Some [y]))"
  by (simp_all add: array_index_loop.simps Iter_Done_def Iter_Next_def Uvarint_def tagIsNull_def tagNull_def tagLength_def)

definition demo_floats :: float_ops where
  "demo_floats = \<lparr>float64_of_32 = ucast, float32_of_64 = ucast, Fromfloat32 = ucast, Float32 = ucast\<rparr>"

theorem field_table_transparent_witness:
  "let t = TypeRecord 30 (int_fields ''a'' ''b''); vs = [pair_value t 2 4, pair_value t 6 8]; cx = fst (LookupTypeRecord NewContext (int_fields ''a'' ''b'')) in
   ctx_inv cx \<and> known cx t \<and> eval_seq demo_floats (NewDottedExpr [str ''a'']) NewContext vs = eval_fresh demo_floats [str ''a''] NewContext vs"
proof -
  let ?cx = "fst (LookupTypeRecord NewContext (int_fields ''a'' ''b''))" and ?t = "TypeRecord 30 (int_fields ''a'' ''b'')"
  have "LookupTypeRecord NewContext (int_fields ''a'' ''b'') = (?cx, Inr ?t)"
    using int_fields_lookup [of "''a''" "''b''"] by (simp add: str_def prod_eq_iff)
  moreover have "ctx_small NewContext" "\<forall>(n, t)\<in>set (int_fields ''a'' ''b''). short_name n \<and> known NewContext t"
    by (simp_all add: ctx_small_def NewContext_def IDTypeComplex_def int_fields_def short_name_def str_def)
  ultimately have cx: "ctx_inv ?cx" "known ?cx ?t" using LookupTypeRecord_ok [OF ctx_inv_New, of "int_fields ''a'' ''b''" ?cx "Inr ?t"] by (simp_all add: lookup_ok_def)
  then show ?thesis
    using field_table_transparent [OF cx(1), of "[pair_value ?t 2 4, pair_value ?t 6 8]"] by (simp add: Let_def pair_value_def NewValue_def)
qed

text \<open>
  C35: with values of two contexts the table gives the field of another name. Both contexts number their first record type
  30; after a value of the type with fields a and b of the first, the field a of a value of the type with fields b and a of the
  second is read as b. The merge of a sort that has spilled evaluates its expressions in this way: the values before the
  spill are of the query's context and the values read back are of a context of the merge.
\<close>

theorem field_table_two_contexts:
  "let t = TypeRecord 30 (int_fields ''a'' ''b''); u = TypeRecord 30 (int_fields ''b'' ''a'');
       vs = [pair_value t x y, pair_value u z w]; i = (\<lambda>b. Inr (NewValue (TypePrim TypeInt64) (Some [b]))) in
   snd (LookupTypeRecord NewContext (int_fields ''a'' ''b'')) = Inr t \<and> snd (LookupTypeRecord NewContext (int_fields ''b'' ''a'')) = Inr u \<and>
   eval_seq fo (NewDottedExpr [str ''a'']) c vs = [i x, i z] \<and> eval_fresh fo [str ''a''] c vs = [i x, i w]"
proof -
  have ne: "str ''a'' \<noteq> str ''b''" "str ''b'' \<noteq> str ''a''" by (simp_all add: str_def)
  then have l: "IndexOfField (int_fields ''a'' ''b'') (str ''a'') = Some 0" "IndexOfField (int_fields ''b'' ''a'') (str ''a'') = Some 1"
    by (simp_all add: IndexOfField_def record_LUT_def int_fields_def)
  show ?thesis using ne
    by (simp add: Let_def int_fields_lookup NewDottedExpr_def NewDotExpr_def pair_value_def Under_def NewValue_def fieldIndex_def l
        dot_record_def Value_Bytes_def getNthFromContainer_def pair_items int_fields_types)
qed

end
