(* ===== verification/Compare_Values.thy ===== *)
theory Compare_Values
  imports Values
begin

text \<open>
  The comparison of values (\<open>runtime/sam/expr/sort.go\<close>, \<open>eval.go\<close>, \<open>coerce/coerce.go\<close>): \<open>compareValues\<close> with its
  placing of nulls, \<open>Comparator.Compare\<close> over sort expressions, and the stable sort with its shortcut for
  integers. Evaluators are functions from values to values. The conversions of integers to floats are
  arguments.
\<close>

subsection \<open>Numbers\<close>

record num_ops =
  no_floats :: float_ops
  of_int64 :: "u64 \<Rightarrow> u64"
  of_uint64 :: "u64 \<Rightarrow> u64"

text \<open>
  \<open>cmp.Compare\<close> of floats given by their bits: NaN is equal to itself and less than any number, and the two
  zeros are equal.
\<close>

definition float_key :: "u64 \<Rightarrow> int" where
  "float_key w = (let m = uint (w AND 0x7fffffffffffffff) in
     if m > 0x7ff0000000000000 then - (2 ^ 64) else if sint w < 0 then - m else m)"

definition float_Compare :: "u64 \<Rightarrow> u64 \<Rightarrow> int" where
  "float_Compare x y = cmp_Compare (float_key x) (float_key y)"

definition ToNumeric_float :: "num_ops \<Rightarrow> zvalue \<Rightarrow> value_panic + u64" where
  "ToNumeric_float no val = (if Value_IsNull val then Inr 0
     else res_bind (Under (no_floats no) val) (\<lambda>v. let i = int (ID (v_typ v)) in
       if IsUnsigned i then res_bind (Value_Uint v) (\<lambda>u. Inr (of_uint64 no u))
       else if IsSigned i then res_bind (Value_Int v) (\<lambda>x. Inr (of_int64 no x))
       else if IsFloat i then Value_Float (no_floats no) v
       else Inl WrongType))"

definition toFloat :: "num_ops \<Rightarrow> zvalue \<Rightarrow> value_panic + u64" where
  "toFloat no v = ToNumeric_float no v"

definition compareNumbers :: "num_ops \<Rightarrow> zvalue \<Rightarrow> zvalue \<Rightarrow> int \<Rightarrow> int \<Rightarrow> value_panic + int" where
  "compareNumbers no a b aid bid =
     (if IsFloat aid then res_bind (Value_Float (no_floats no) a) (\<lambda>x. res_bind (toFloat no b) (\<lambda>y. Inr (float_Compare x y)))
      else if IsFloat bid then res_bind (toFloat no a) (\<lambda>x. res_bind (Value_Float (no_floats no) b) (\<lambda>y. Inr (float_Compare x y)))
      else if IsSigned aid then res_bind (Value_Int a) (\<lambda>av.
        if IsUnsigned bid then
          (if sint av < 0 then Inr (-1) else res_bind (Value_Uint b) (\<lambda>bv. Inr (cmp_Compare (uint av) (uint bv))))
        else res_bind (Value_Int b) (\<lambda>bv. Inr (cmp_Compare (sint av) (sint bv))))
      else if IsSigned bid then res_bind (Value_Int b) (\<lambda>bv.
        if IsUnsigned aid then
          (if sint bv < 0 then Inr 1 else res_bind (Value_Uint a) (\<lambda>av. Inr (cmp_Compare (uint av) (uint bv))))
        else res_bind (Value_Int a) (\<lambda>av. Inr (cmp_Compare (sint av) (sint bv))))
      else res_bind (Value_Uint a) (\<lambda>av. res_bind (Value_Uint b) (\<lambda>bv. Inr (cmp_Compare (uint av) (uint bv)))))"

subsection \<open>Values\<close>

text \<open>\<open>netip.Addr.Compare\<close>: shorter addresses first.\<close>

definition addr_Compare :: "addr \<Rightarrow> addr \<Rightarrow> int" where
  "addr_Compare a b = (if length a \<noteq> length b then cmp_Compare (length a) (length b) else bytes_Compare a b)"

text \<open>Types in values are decoded into a fresh context; a type that does not decode is nil and panics in the comparison.\<close>

definition compareTypeValues :: "zbytes \<Rightarrow> zbytes \<Rightarrow> value_panic + int" where
  "compareTypeValues a b = (case DecodeTypeValue NewContext (slice_bytes a) of
      (sctx, Inr (Some (av, _))) \<Rightarrow> (case DecodeTypeValue sctx (slice_bytes b) of
        (_, Inr (Some (bv, _))) \<Rightarrow> Inr (CompareTypes av bv)
      | _ \<Rightarrow> Inl NilPointer)
    | _ \<Rightarrow> Inl NilPointer)"

text \<open>The loop over the elements of two arrays or sets.\<close>

function compare_elems :: "(zbytes \<Rightarrow> zbytes \<Rightarrow> value_panic + int) \<Rightarrow> bytes \<Rightarrow> bytes \<Rightarrow> value_panic + int" where
  "compare_elems f ait bit1 =
     (if Iter_Done ait then Inr (if Iter_Done bit1 then 0 else -1)
      else if Iter_Done bit1 then Inr 1
      else case Iter_Next ait of Inl p \<Rightarrow> Inl (BytesPanic p)
        | Inr (x, ait') \<Rightarrow> (case Iter_Next bit1 of Inl p \<Rightarrow> Inl (BytesPanic p)
          | Inr (y, bit2) \<Rightarrow> (case f x y of Inl p \<Rightarrow> Inl p
            | Inr v \<Rightarrow> if v \<noteq> 0 then Inr v else compare_elems f ait' bit2)))"
  by pat_completeness auto
termination by (relation "measure (\<lambda>(f, ait, bit1). length ait)") (auto dest: Iter_Next_shorter)

declare compare_elems.simps [simp del]

lemma InnerType_smaller: "InnerType t = Some e \<Longrightarrow> size e < size t"
  using size_TypeUnder [of t] by (auto simp: InnerType_def split: ztype.splits)

function compareValues :: "num_ops \<Rightarrow> zvalue \<Rightarrow> zvalue \<Rightarrow> bool \<Rightarrow> value_panic + int" where
  "compareValues no a b nullsMax =
     (let nullA = Value_IsNull a; nullB = Value_IsNull b in
      if nullA \<and> nullB then Inr 0
      else if nullA then Inr (if nullsMax then 1 else -1)
      else if nullB then Inr (if nullsMax then -1 else 1)
      else let fo = no_floats no; aid = ID (v_typ a); bid = ID (v_typ b) in
        if IsNumber (int aid) \<and> IsNumber (int bid) then compareNumbers no a b (int aid) (int bid)
        else if aid \<noteq> bid then Inr (CompareTypes (v_typ a) (v_typ b))
        else if aid = prim_ID TypeBool then
          res_bind (Value_Bool a) (\<lambda>av. res_bind (Value_Bool b) (\<lambda>bv. Inr (if av = bv then 0 else if av then 1 else -1)))
        else res_bind (Value_Bytes fo a) (\<lambda>ab. res_bind (Value_Bytes fo b) (\<lambda>bb.
          if aid = prim_ID TypeBytes then Inr (bytes_Compare (slice_bytes (DecodeBytes ab)) (slice_bytes (DecodeBytes bb)))
          else if aid = prim_ID TypeString then Inr (bytes_Compare (DecodeString ab) (DecodeString bb))
          else if aid = prim_ID TypeIP then
            res_bind (lift_p (DecodeIP ab)) (\<lambda>ai. res_bind (lift_p (DecodeIP bb)) (\<lambda>bi. Inr (addr_Compare ai bi)))
          else if aid = prim_ID TypeType then compareTypeValues ab bb
          else (case InnerType (v_typ a) of
            Some innerType \<Rightarrow> compare_elems (\<lambda>x y. compareValues no (NewValue innerType x) (NewValue innerType y) nullsMax)
              (slice_bytes ab) (slice_bytes bb)
          | None \<Rightarrow> Inr (bytes_Compare (slice_bytes ab) (slice_bytes bb))))))"
  by pat_completeness auto
termination by (relation "measure (\<lambda>(no, a, b, m). size (v_typ a))") (auto simp: NewValue_def InnerType_smaller)

declare compareValues.simps [simp del]

subsection \<open>Comparators\<close>

record sortexpr =
  se_Eval :: "zvalue \<Rightarrow> zvalue"
  se_Order :: Which
  se_Nulls :: Nulls

definition NewSortExpr :: "(zvalue \<Rightarrow> zvalue) \<Rightarrow> Which \<Rightarrow> Nulls \<Rightarrow> sortexpr" where
  "NewSortExpr e o' n = \<lparr>se_Eval = e, se_Order = o', se_Nulls = n\<rparr>"

definition SortExpr_nullsMax :: "sortexpr \<Rightarrow> bool" where
  "SortExpr_nullsMax s \<longleftrightarrow> se_Order s = Asc \<and> se_Nulls s = NullsLast \<or> se_Order s = Desc \<and> se_Nulls s = NullsFirst"

text \<open>A comparator is its list of sort expressions.\<close>

fun Comparator_Compare :: "num_ops \<Rightarrow> sortexpr list \<Rightarrow> zvalue \<Rightarrow> zvalue \<Rightarrow> value_panic + int" where
  "Comparator_Compare no [] a b = Inr 0"
| "Comparator_Compare no (k # ks) a b =
     (let aval = se_Eval k a; bval = se_Eval k b;
          (aval, bval) = (if se_Order k = Desc then (bval, aval) else (aval, bval))
      in res_bind (compareValues no aval bval (SortExpr_nullsMax k)) (\<lambda>v.
         if v \<noteq> 0 then Inr v else Comparator_Compare no ks a b))"

text \<open>
  The wrapper is put around each evaluator. A value whose bytes cannot be encoded is not missing, which is
  the only case in which \<open>IsMissing\<close> could panic here.
\<close>

definition missingAsNull_Eval :: "float_ops \<Rightarrow> (zvalue \<Rightarrow> zvalue) \<Rightarrow> zvalue \<Rightarrow> zvalue" where
  "missingAsNull_Eval fo e val = (let v = e val in case Value_IsMissing fo (Some v) of Inr True \<Rightarrow> Null | _ \<Rightarrow> v)"

definition WithMissingAsNull :: "float_ops \<Rightarrow> sortexpr list \<Rightarrow> sortexpr list" where
  "WithMissingAsNull fo ks = map (\<lambda>k. k\<lparr>se_Eval := missingAsNull_Eval fo (se_Eval k)\<rparr>) ks"

definition NewValueCompareFn :: "num_ops \<Rightarrow> Which \<Rightarrow> Nulls \<Rightarrow> zvalue \<Rightarrow> zvalue \<Rightarrow> value_panic + int" where
  "NewValueCompareFn no o' n = Comparator_Compare no [NewSortExpr (\<lambda>v. v) o' n]"

subsection \<open>The stable sort\<close>

text \<open>\<open>sort.SliceStable\<close> with a comparison that may panic.\<close>

fun ins_left_m :: "('a \<Rightarrow> 'a \<Rightarrow> 'p + bool) \<Rightarrow> 'a \<Rightarrow> 'a list \<Rightarrow> 'p + 'a list" where
  "ins_left_m lt x [] = Inr [x]"
| "ins_left_m lt x (y # ys) = res_bind (lt x y) (\<lambda>l. if l then res_bind (ins_left_m lt x ys) (\<lambda>zs. Inr (y # zs)) else Inr (x # y # ys))"

fun sort_stable_m :: "('a \<Rightarrow> 'a \<Rightarrow> 'p + bool) \<Rightarrow> 'a list \<Rightarrow> 'a list \<Rightarrow> 'p + 'a list" where
  "sort_stable_m lt p [] = Inr (rev p)"
| "sort_stable_m lt p (x # xs) = res_bind (ins_left_m lt x p) (\<lambda>p. sort_stable_m lt p xs)"

datatype sort_panic = TooManyValues | SortPanic value_panic

fun lift_s :: "value_panic + 'a \<Rightarrow> sort_panic + 'a" where
  "lift_s (Inl p) = Inl (SortPanic p)"
| "lift_s (Inr x) = Inr x"

definition MaxInt64 :: int where "MaxInt64 = 2 ^ 63 - 1"
definition MinInt64 :: int where "MinInt64 = - (2 ^ 63)"

text \<open>The first key of a value as an integer; \<open>None\<close> when it is not native.\<close>

definition native_key :: "bool \<Rightarrow> zvalue \<Rightarrow> value_panic + int option" where
  "native_key nullsMax0 val = (let i = ID (v_typ val) in
     if i \<le> prim_ID TypeTime then
       (if Value_IsNull val then Inr (Some (if nullsMax0 then MaxInt64 else MinInt64))
        else if IsSigned (int i) then res_bind (Value_Int val) (\<lambda>x. Inr (Some (sint x)))
        else res_bind (Value_Uint val) (\<lambda>u. Inr (Some (min (uint u) MaxInt64))))
     else Inr None)"

fun native_keys :: "bool \<Rightarrow> zvalue list \<Rightarrow> value_panic + int option list" where
  "native_keys m [] = Inr []"
| "native_keys m (v # vs) = res_bind (native_key m v) (\<lambda>k. res_bind (native_keys m vs) (\<lambda>ks. Inr (k # ks)))"

fun less_exprs :: "num_ops \<Rightarrow> sortexpr list \<Rightarrow> zvalue \<Rightarrow> zvalue \<Rightarrow> value_panic + bool" where
  "less_exprs no [] a b = Inr False"
| "less_exprs no (k # ks) a b =
     (let (x, y) = (if se_Order k = Desc then (se_Eval k b, se_Eval k a) else (se_Eval k a, se_Eval k b))
      in res_bind (compareValues no x y (SortExpr_nullsMax k)) (\<lambda>v. if v \<noteq> 0 then Inr (v < 0) else less_exprs no ks a b))"

text \<open>The function that compares two indices; \<open>i64s\<close> and \<open>val0s\<close> are the arrays filled beforehand.\<close>

definition index_less :: "num_ops \<Rightarrow> sortexpr \<Rightarrow> sortexpr list \<Rightarrow> zvalue list \<Rightarrow> int option list \<Rightarrow> zvalue list \<Rightarrow> nat \<Rightarrow> nat \<Rightarrow> value_panic + bool" where
  "index_less no k0 ks vals i64s val0s i j =
     (let native' = (None \<notin> set i64s); (ii, jj) = (if se_Order k0 = Desc then (j, i) else (i, j));
          x = the (i64s ! ii); y = the (i64s ! jj)
      in if native' \<and> x \<noteq> y then Inr (x < y)
         else if native' \<and> x \<noteq> MaxInt64 \<and> x \<noteq> MinInt64 then less_exprs no ks (vals ! i) (vals ! j)
         else res_bind (compareValues no (val0s ! ii) (val0s ! jj) (SortExpr_nullsMax k0)) (\<lambda>v.
           if v \<noteq> 0 then Inr (v < 0) else less_exprs no ks (vals ! i) (vals ! j)))"

definition sortStableIndices :: "num_ops \<Rightarrow> sortexpr list \<Rightarrow> zvalue list \<Rightarrow> sort_panic + nat list" where
  "sortStableIndices no exprs vals = (case exprs of [] \<Rightarrow> Inr []
    | k0 # ks \<Rightarrow> if length vals > 2 ^ 32 - 1 then Inl TooManyValues
      else let val0s = map (se_Eval k0) vals in
        lift_s (res_bind (native_keys (SortExpr_nullsMax k0) val0s) (\<lambda>i64s.
          sort_stable_m (index_less no k0 ks vals i64s val0s) [] [0..<length vals])))"

text \<open>The loop of \<open>SortStable\<close> that moves the values in place.\<close>

fun place_loop :: "nat \<Rightarrow> nat list \<Rightarrow> zvalue list \<Rightarrow> zvalue list \<Rightarrow> zvalue list" where
  "place_loop i [] tmp vals = vals"
| "place_loop i (j # js) tmp vals = (let tmp = tmp[i := vals ! i] in
     place_loop (i + 1) js tmp (if i < j then vals[i := vals ! j] else if i > j then vals[i := tmp ! j] else vals))"

definition SortStable :: "num_ops \<Rightarrow> sortexpr list \<Rightarrow> zvalue list \<Rightarrow> sort_panic + zvalue list" where
  "SortStable no exprs vals = res_bind (sortStableIndices no exprs vals) (\<lambda>js.
     Inr (place_loop 0 js (replicate (length vals) Null) vals))"

text \<open>The reader over sorted values: the indices that are left and the values.\<close>

definition SortStableReader :: "num_ops \<Rightarrow> sortexpr list \<Rightarrow> zvalue list \<Rightarrow> sort_panic + (nat list \<times> zvalue list)" where
  "SortStableReader no exprs vals = res_bind (sortStableIndices no exprs vals) (\<lambda>js. Inr (js, vals))"

definition sortStableReader_Read :: "nat list \<times> zvalue list \<Rightarrow> (nat list \<times> zvalue list) \<times> zvalue option" where
  "sortStableReader_Read r = (case r of ([], vals) \<Rightarrow> (([], vals), None) | (j # js, vals) \<Rightarrow> ((js, vals), Some (vals ! j)))"

end
