(* ===== verification/Spill_File.thy ===== *)
theory Spill_File
  imports Zbuf_Inv Bsup_Stream Compare_Values
begin

text \<open>
  Copying between readers and writers (\<open>zio/zio.go\<close>) and the temporary files of sorts
  (\<open>runtime/sam/op/spill/file.go\<close>, \<open>pkg/bufwriter\<close>): a file is written as BSUP without compression, rewound
  and read back. The files of the operating system with their write buffers are an argument. The reader is the
  scanner with one thread.
\<close>

subsection \<open>Readers and writers\<close>

type_synonym ('w, 'e, 'v) zwriter = "'w \<Rightarrow> 'v \<Rightarrow> 'w \<times> 'e option"

definition nopCloser_Close :: "'o \<Rightarrow> 'o \<times> 'e option" where
  "nopCloser_Close o' = (o', None)"

fun concatReader_Read :: "('r, 'e, 'v) reader \<Rightarrow> 'r list \<Rightarrow> 'r list \<times> ('e + 'v option)" where
  "concatReader_Read read [] = ([], Inr None)"
| "concatReader_Read read (r # rs) = (case read r of
      (r, Inl e) \<Rightarrow> (r # rs, Inl e)
    | (r, Inr (Some v)) \<Rightarrow> (r # rs, Inr (Some v))
    | (r, Inr None) \<Rightarrow> concatReader_Read read rs)"

fun multiWriter_Write :: "('w, 'e, 'v) zwriter \<Rightarrow> 'w list \<Rightarrow> 'v \<Rightarrow> 'w list \<times> 'e option" where
  "multiWriter_Write wr [] v = ([], None)"
| "multiWriter_Write wr (w # ws) v = (case wr w v of
      (w, Some e) \<Rightarrow> (w # ws, Some e)
    | (w, None) \<Rightarrow> (case multiWriter_Write wr ws v of (ws, x) \<Rightarrow> (w # ws, x)))"

text \<open>\<open>CopyWithContext\<close>, with the context not cancelled.\<close>

partial_function (option) zio_Copy ::
    "('w, 'e, 'v) zwriter \<Rightarrow> ('r, 'e, 'v) reader \<Rightarrow> 'w \<Rightarrow> 'r \<Rightarrow> (('w \<times> 'r) \<times> 'e option) option" where
  "zio_Copy wr read w r = (case read r of
      (r, Inl e) \<Rightarrow> Some ((w, r), Some e)
    | (r, Inr None) \<Rightarrow> Some ((w, r), None)
    | (r, Inr (Some v)) \<Rightarrow> (case wr w v of
        (w, Some e) \<Rightarrow> Some ((w, r), Some e)
      | (w, None) \<Rightarrow> zio_Copy wr read w r))"

fun write_all :: "('w, 'e, 'v) zwriter \<Rightarrow> 'w \<Rightarrow> 'v list \<Rightarrow> 'w \<times> 'e option" where
  "write_all wr w [] = (w, None)"
| "write_all wr w (v # vs) = (case wr w v of (w, Some e) \<Rightarrow> (w, Some e) | (w, None) \<Rightarrow> write_all wr w vs)"

context list_reader
begin

text \<open>A copy returns, and has written the values of the reader up to the first error of the writer.\<close>

lemma copy_all:
  "reads r vs \<Longrightarrow> \<exists>r'. zio_Copy wr read w r = Some ((fst (write_all wr w vs), r'), snd (write_all wr w vs))"
proof (induction vs arbitrary: w r)
  case Nil
  then show ?case using read_next [OF Nil] by (auto simp: zio_Copy.simps [of wr read w r])
next
  case (Cons v vs)
  obtain r' where r': "read r = (r', Inr (Some v))" "reads r' vs" using read_next [OF Cons.prems] by auto
  show ?case
  proof (cases "wr w v")
    case (Pair w' x)
    then show ?thesis using r' Cons.IH [OF r'(2), of w'] by (cases x) (auto simp: zio_Copy.simps [of wr read w r])
  qed
qed

text \<open>Readers one after the other read their lists one after the other.\<close>

lemma concat_reader: "list_reader (concatReader_Read read) (\<lambda>rs vs. \<exists>vss. list_all2 reads rs vss \<and> vs = concat vss)"
proof (unfold_locales, elim exE conjE, hypsubst)
  fix rs vss
  show "list_all2 reads rs vss \<Longrightarrow>
    \<exists>rs'. concatReader_Read read rs = (rs', Inr (case concat vss of [] \<Rightarrow> None | v # _ \<Rightarrow> Some v)) \<and>
      (\<exists>vss'. list_all2 reads rs' vss' \<and> tl (concat vss) = concat vss')"
  proof (induction rs vss rule: list_all2_induct)
    case (Cons r rs vs vss)
    obtain r' where r': "read r = (r', Inr (case vs of [] \<Rightarrow> None | v # _ \<Rightarrow> Some v))" "reads r' (tl vs)"
      using read_next [OF Cons.hyps(1)] by auto
    show ?case
    proof (cases vs)
      case (Cons v vs')
      then have "list_all2 reads (r' # rs) (vs' # vss)" using r' \<open>list_all2 reads rs vss\<close> by simp
      then show ?thesis using r' Cons by auto
    qed (use r' Cons.IH in auto)
  qed auto
qed

end

subsection \<open>Temporary files\<close>

record ('o, 'e) os =
  os_create :: "nat \<Rightarrow> 'e + 'o"
  os_write :: "('o, 'e) out"
  os_flush :: "'o \<Rightarrow> 'o \<times> 'e option"
  os_seek :: "'o \<Rightarrow> 'o \<times> 'e option"
  os_data :: "'o \<Rightarrow> io_item list"
  os_size :: "'o \<Rightarrow> 'e + nat"
  os_close :: "'o \<Rightarrow> 'e option"
  os_remove :: "'o \<Rightarrow> 'e option"

definition bufwriter_Close :: "('o \<Rightarrow> 'o \<times> 'e option) \<Rightarrow> ('o \<Rightarrow> 'o \<times> 'e option) \<Rightarrow> 'o \<Rightarrow> 'o \<times> 'e option" where
  "bufwriter_Close fl closer o' = (case fl o' of (o', Some e) \<Rightarrow> (o', Some e) | (o', None) \<Rightarrow> closer o')"

datatype ('e, 'c) file_error = OSErr 'e | WriteErr "('e, 'c) write_error" | ReadErr "parse_error pfail" | NilFile

text \<open>What the reader of a file needs besides the file.\<close>

record 'd reader_env =
  re_opts :: scan_opts
  re_unc :: "'d decompressor"
  re_grow :: "nat \<Rightarrow> nat \<Rightarrow> nat"

definition ReadSize :: nat where "ReadSize = 512 * 1024"
definition MaxSize :: int where "MaxSize = 1024 * 1024 * 1024"

record 'o sfile =
  sf_Reader :: "(scanner \<times> bval list) option"
  sf_Writer :: "'o bsup_writer option"
  sf_file :: 'o

definition NewFile :: "'o \<Rightarrow> 'o sfile" where
  "NewFile f = \<lparr>sf_Reader = None, sf_Writer = Some (NewWriterWithOpts f False DefaultFrameThresh), sf_file = f\<rparr>"

definition NewFileWithPath :: "('o, 'e) os \<Rightarrow> nat \<Rightarrow> ('e, 'c) file_error + 'o sfile" where
  "NewFileWithPath os n = (case os_create os n of Inl e \<Rightarrow> Inl (OSErr e) | Inr f \<Rightarrow> Inr (NewFile f))"

text \<open>The writer's output is the file, so the file has the writer's output after every call.\<close>

definition File_Write :: "('o, 'e) os \<Rightarrow> 'c compressor \<Rightarrow> ('o sfile, ('e, 'c) file_error, bval) zwriter" where
  "File_Write os lz f v = (case sf_Writer f of None \<Rightarrow> (f, Some NilFile)
    | Some w \<Rightarrow> (case Writer_Write (os_write os) lz v w of
        (w, x) \<Rightarrow> (f\<lparr>sf_Writer := Some w, sf_file := w_out w\<rparr>, map_option WriteErr x)))"

definition File_Rewind :: "('o, 'e) os \<Rightarrow> 'c compressor \<Rightarrow> 'd reader_env \<Rightarrow> tcontext \<Rightarrow> 'o sfile \<Rightarrow> 'o sfile \<times> ('e, 'c) file_error option" where
  "File_Rewind os lz re sctx f = (case sf_Writer f of None \<Rightarrow> (f, Some NilFile)
    | Some w \<Rightarrow> (case Writer_Close (os_write os) lz (bufwriter_Close (os_flush os) nopCloser_Close) w of
        (w, Some x) \<Rightarrow> (f\<lparr>sf_Writer := Some w, sf_file := w_out w\<rparr>, Some (WriteErr x))
      | (w, None) \<Rightarrow> (case os_seek os (w_out w) of
          (o', Some e) \<Rightarrow> (f\<lparr>sf_Writer := None, sf_file := o'\<rparr>, Some (OSErr e))
        | (o', None) \<Rightarrow> (f\<lparr>sf_Writer := None, sf_file := o',
            sf_Reader := Some (newScannerSync sctx (os_data os o') (re_grow re) (nat (min (int ReadSize) MaxSize)) MaxSize, [])\<rparr>, None))))"

text \<open>Reading always returns (\<open>Bsup_Safety\<close>); a file that is not rewound has no reader.\<close>

definition File_Read :: "'d reader_env \<Rightarrow> ('o sfile, ('e, 'c) file_error, bval) reader" where
  "File_Read re f = (case sf_Reader f of None \<Rightarrow> (f, Inl NilFile)
    | Some (s, vs) \<Rightarrow> (case Reader_Read (re_opts re) (re_unc re) s vs of
        None \<Rightarrow> (f, Inl NilFile)
      | Some (r, Inl x) \<Rightarrow> (f\<lparr>sf_Reader := Some r\<rparr>, Inl (ReadErr x))
      | Some (r, Inr v) \<Rightarrow> (f\<lparr>sf_Reader := Some r\<rparr>, Inr v)))"

definition File_CloseAndRemove :: "('o, 'e) os \<Rightarrow> 'o sfile \<Rightarrow> ('e, 'c) file_error option" where
  "File_CloseAndRemove os f = map_option OSErr (case os_close os (sf_file f) of Some e \<Rightarrow> Some e | None \<Rightarrow> os_remove os (sf_file f))"

definition File_Size :: "('o, 'e) os \<Rightarrow> 'o sfile \<Rightarrow> ('e, 'c) file_error + nat" where
  "File_Size os f = (case os_size os (sf_file f) of Inl e \<Rightarrow> Inl (OSErr e) | Inr n \<Rightarrow> Inr n)"

text \<open>The operations a sort uses, as one record.\<close>

record ('f, 'e) file_ops =
  fs_create :: "nat \<Rightarrow> 'e + 'f"
  fs_write :: "('f, 'e, bval) zwriter"
  fs_rewind :: "'f \<Rightarrow> 'f \<times> 'e option"
  fs_read :: "('f, 'e, bval) reader"
  fs_size :: "'f \<Rightarrow> 'e + nat"
  fs_remove :: "'f \<Rightarrow> 'e option"

definition File_ops :: "('o, 'e) os \<Rightarrow> 'c compressor \<Rightarrow> 'd reader_env \<Rightarrow> tcontext \<Rightarrow> ('o sfile, ('e, 'c) file_error) file_ops" where
  "File_ops os lz re sctx = \<lparr>fs_create = NewFileWithPath os, fs_write = File_Write os lz, fs_rewind = File_Rewind os lz re sctx,
     fs_read = File_Read re, fs_size = File_Size os, fs_remove = File_CloseAndRemove os\<rparr>"

text \<open>
  What a sort relies on: values of the kind \<open>A\<close> that are written to a new file are read back after it is rewound,
  and a file can be removed.
\<close>

locale spill_files =
  fixes fs :: "('f, 'e) file_ops" and reads :: "'f \<Rightarrow> bval list \<Rightarrow> bool" and A :: "bval set"
  assumes written: "set vs \<subseteq> A \<Longrightarrow> \<exists>f f1 f2. fs_create fs n = Inr f \<and> write_all (fs_write fs) f vs = (f1, None) \<and>
      fs_rewind fs f1 = (f2, None) \<and> reads f2 vs"
    and read_value: "reads f (v # vs) \<Longrightarrow> \<exists>f'. fs_read fs f = (f', Inr (Some v)) \<and> reads f' vs"
    and read_end: "reads f [] \<Longrightarrow> \<exists>f'. fs_read fs f = (f', Inr None) \<and> fs_remove fs f' = None"
    and sized: "reads f vs \<Longrightarrow> \<exists>k. fs_size fs f = Inr k"

subsection \<open>Files in memory\<close>

definition byte_os :: "(bytes, unit) os" where
  "byte_os = \<lparr>os_create = (\<lambda>n. Inr []), os_write = app, os_flush = (\<lambda>o'. (o', None)), os_seek = (\<lambda>o'. (o', None)),
     os_data = (\<lambda>o'. [Data o']), os_size = (\<lambda>o'. Inr (length o')), os_close = (\<lambda>o'. None), os_remove = (\<lambda>o'. None)\<rparr>"

text \<open>
  Values of primitive types, whose types are the same in every context, of less than half a gigabyte. A value of
  another type is read back with a type of the reader's context (\<open>MergeSort\<close> has one of its own), which
  has the same shape and possibly another number; such values are not in this set.
\<close>

definition spillable :: "bval set" where
  "spillable = {v. (\<exists>p. fst v = TypePrim p) \<and> int (length (slice_bytes (snd v))) < 2 ^ 29}"

definition file_reads :: "'d reader_env \<Rightarrow> 'o sfile \<Rightarrow> bval list \<Rightarrow> bool" where
  "file_reads re f vs \<longleftrightarrow> (\<exists>s ws. sf_Reader f = Some (s, ws) \<and> read_values (Suc (length vs)) (re_opts re) (re_unc re) s ws = Some vs)"

lemma File_Read_value:
  assumes "file_reads re f (v # vs)"
  shows "\<exists>f'. File_Read re f = (f', Inr (Some v)) \<and> file_reads re f' vs"
proof -
  obtain s ws where s: "sf_Reader f = Some (s, ws)" "read_values (Suc (Suc (length vs))) (re_opts re) (re_unc re) s ws = Some (v # vs)"
    using assms by (auto simp: file_reads_def)
  obtain s' ws' where "Reader_Read (re_opts re) (re_unc re) s ws = Some ((s', ws'), Inr (Some v))"
    "read_values (Suc (length vs)) (re_opts re) (re_unc re) s' ws' = Some vs"
    using s(2) by (subst (asm) read_values.simps) (auto split: option.splits sum.splits prod.splits)
  then show ?thesis using s(1) by (auto simp: File_Read_def file_reads_def)
qed

lemma File_Read_end:
  assumes "file_reads re f []"
  shows "\<exists>f'. File_Read re f = (f', Inr None)"
proof -
  obtain s ws where s: "sf_Reader f = Some (s, ws)" "read_values (Suc 0) (re_opts re) (re_unc re) s ws = Some []"
    using assms by (auto simp: file_reads_def)
  obtain r where "Reader_Read (re_opts re) (re_unc re) s ws = Some (r, Inr None)"
    using s(2) by (subst (asm) read_values.simps) (auto split: option.splits sum.splits prod.splits)
  then show ?thesis using s(1) by (auto simp: File_Read_def)
qed

lemma File_write_all:
  "sf_Writer f = Some w \<Longrightarrow> run_ops lz (map WriteValue vs) w = (w', None) \<Longrightarrow>
    \<exists>f'. write_all (File_Write byte_os lz) f vs = (f', None) \<and> sf_Writer f' = Some w'"
proof (induction vs arbitrary: f w)
  case (Cons v vs)
  obtain w1 where w1: "Writer_Write app lz v w = (w1, None)" "run_ops lz (map WriteValue vs) w1 = (w', None)"
    using Cons.prems(2) by (cases "Writer_Write app lz v w"; cases "snd (Writer_Write app lz v w)") auto
  then show ?case using Cons.IH [of "f\<lparr>sf_Writer := Some w1, sf_file := w_out w1\<rparr>" w1] Cons.prems(1) by (simp add: File_Write_def byte_os_def)
qed simp

lemma erased_spillable:
  assumes "erased vs' = erased vs" "set vs \<subseteq> spillable"
  shows "vs' = vs"
proof -
  have "erase t = TypePrim p \<Longrightarrow> t = TypePrim p" for t p by (cases t) simp_all
  then have "map_prod erase id w = map_prod erase id v \<Longrightarrow> v \<in> spillable \<Longrightarrow> w = v" for w v :: bval
    by (cases w; cases v) (auto simp: spillable_def)
  then show ?thesis using assms
  proof (induction vs arbitrary: vs')
    case (Cons v vs)
    then show ?case by (cases v; cases vs') (auto simp: erased_def)
  qed (simp add: erased_def)
qed

lemma spill_written:
  fixes lz :: "'c compressor" and re :: "'d reader_env"
  assumes "plain (re_opts re)" "lz_ok lz (re_unc re)" "\<And>k n. n \<le> re_grow re k n" "ctx_inv c" "length (byID c) < 2 ^ 31" "set vs \<subseteq> spillable"
  shows "\<exists>f f1 f2. NewFileWithPath byte_os n = (Inr f :: (unit, 'c) file_error + bytes sfile) \<and> write_all (File_Write byte_os lz) f vs = (f1, None) \<and>
      File_Rewind byte_os lz re c f1 = (f2, None) \<and> file_reads re f2 vs"
proof -
  let ?w0 = "NewWriterWithOpts [] False DefaultFrameThresh :: bytes bsup_writer"
  have c: "ctx_inv NewContext" "length (byID c) + length (byID NewContext) \<le> 2 ^ 32"
    using assms(5) ctx_inv_New by (simp_all add: NewContext_def IDTypeComplex_def)
  have ops: "\<forall>p\<in>set (map WriteValue vs). op_ok NewContext MaxSize DefaultFrameThresh p"
    using assms(6) bsup_ok.simps [of "TypePrim _"] by (fastforce simp: spillable_def known_def MaxSize_def DefaultFrameThresh_def)
  have mx: "1 \<le> MaxSize" "MaxSize < 2 ^ 62" by (simp_all add: MaxSize_def)
  obtain w1 w2 evs e where w: "run_ops lz (map WriteValue vs) ?w0 = (w1, None)" "Writer_Close app lz (\<lambda>o'. (o', None)) w1 = (w2, None)"
    "event_payloads evs = concat (map op_payload (map WriteValue vs))"
    and scan: "\<And>src size'. io_bytes src = Some (w_out w2) \<Longrightarrow>
      scans (re_opts re) (re_unc re) evs (scan_at c NewContext MaxSize e []) (newScannerSync c src (re_grow re) size' MaxSize)"
    using session_scans [where grow = "re_grow re" and compress = False, OF c(1) assms(4) c(2) assms(1,2) mx ops assms(3)]
    by blast
  have "payload_values (concat (map op_payload (map WriteValue vs))) = erased vs"
    by (induction vs) (auto simp: payload_values_def erased_def)
  then have ev: "payload_values (event_payloads evs) = erased vs" "length (payload_values (event_payloads evs)) = length vs"
    using w(3) by (simp_all add: erased_def)
  have rd': "read_values (Suc (length vs)) (re_opts re) (re_unc re) (newScannerSync c [Data (w_out w2)] (re_grow re) k MaxSize) [] = Some vs" for k
    using read_scans(2) [OF scan [of "[Data (w_out w2)]" k] scan_end [of c NewContext MaxSize e]] erased_spillable [OF _ assms(6)] ev by auto
  obtain f1 where f1: "write_all (File_Write byte_os lz) (NewFile []) vs = (f1, None)" "sf_Writer f1 = Some w1"
    using File_write_all [of "NewFile []" ?w0 lz vs w1] w(1) by (auto simp: NewFile_def)
  have "bufwriter_Close (os_flush byte_os) nopCloser_Close = (\<lambda>o'. (o', None))"
    by (rule ext) (simp add: bufwriter_Close_def byte_os_def nopCloser_Close_def)
  then have "\<exists>f2. File_Rewind byte_os lz re c f1 = (f2, None) \<and> file_reads re f2 vs"
    using f1(2) w(2) rd' by (simp add: File_Rewind_def byte_os_def file_reads_def)
  then show ?thesis using f1(1) by (simp add: NewFileWithPath_def byte_os_def)
qed

lemma spill_files_bsup:
  fixes lz :: "'c compressor" and re :: "'d reader_env"
  assumes "plain (re_opts re)" "lz_ok lz (re_unc re)" "\<And>k n. n \<le> re_grow re k n" "ctx_inv c" "length (byID c) < 2 ^ 31"
  shows "spill_files (File_ops byte_os lz re c) (file_reads re) spillable"
proof unfold_locales
  fix vs n assume "set vs \<subseteq> spillable"
  then show "\<exists>f f1 f2. fs_create (File_ops byte_os lz re c) n = Inr f \<and> write_all (fs_write (File_ops byte_os lz re c)) f vs = (f1, None) \<and>
      fs_rewind (File_ops byte_os lz re c) f1 = (f2, None) \<and> file_reads re f2 vs"
    using spill_written [OF assms] by (simp add: File_ops_def)
next
  fix f :: "bytes sfile" and v vs assume "file_reads re f (v # vs)"
  then show "\<exists>f'. fs_read (File_ops byte_os lz re c) f = (f', Inr (Some v)) \<and> file_reads re f' vs"
    using File_Read_value by (simp add: File_ops_def)
next
  fix f :: "bytes sfile" assume "file_reads re f []"
  then show "\<exists>f'. fs_read (File_ops byte_os lz re c) f = (f', Inr None) \<and> fs_remove (File_ops byte_os lz re c) f' = None"
    using File_Read_end [of re f] by (auto simp: File_ops_def File_CloseAndRemove_def byte_os_def)
next
  fix f :: "bytes sfile" and vs :: "bval list" show "\<exists>k. fs_size (File_ops byte_os lz re c) f = Inr k" by (simp add: File_ops_def File_Size_def byte_os_def)
qed

text \<open>
  Files kept in memory, as a stand-in for the operating system's files when they do not fail. What a sort relies
  on is \<open>spill_files\<close>; these files show that the BSUP writer and reader of the spiller provide it.
\<close>

definition memory_env :: "unit reader_env" where
  "memory_env = \<lparr>re_opts = plain_opts, re_unc = (\<lambda>b n. Inl ()), re_grow = (\<lambda>k n. n)\<rparr>"

definition memory_files :: "(bytes sfile, (unit, unit) file_error) file_ops" where
  "memory_files = File_ops byte_os (\<lambda>b. Inr None) memory_env NewContext"

interpretation memf: spill_files memory_files "file_reads memory_env" spillable
  unfolding memory_files_def
  using ctx_inv_New by (intro spill_files_bsup) (simp_all add: memory_env_def plain_def plain_opts_def lz_ok_def NewContext_def IDTypeComplex_def)

end
