(* ===== verification/Go_Heap.thy ===== *)
theory Go_Heap
  imports Go_Prelude
begin

text \<open>
  Go's \<open>container/heap\<close> on a list that stands for the heap's slice, with the elements' order \<open>lt\<close> for \<open>Less\<close>: the
  loops \<open>up\<close> and \<open>down\<close> and the operations made of them. On a strict weak order every operation keeps the
  elements and the heap property, and the first element is a least one.
\<close>

subsection \<open>The operations\<close>

definition swap_at :: "'a list \<Rightarrow> nat \<Rightarrow> nat \<Rightarrow> 'a list" where
  "swap_at xs i j = xs[i := xs ! j, j := xs ! i]"

text \<open>The index of the parent; Go's quotient rounds to zero, so zero is its own parent.\<close>

definition up_index :: "nat \<Rightarrow> nat" where
  "up_index j = (j - 1) div 2"

lemma up_index_less [simp]: "up_index j < j \<longleftrightarrow> 0 < j" "up_index j = j \<longleftrightarrow> j = 0" "up_index 0 = 0"
  by (auto simp: up_index_def)

lemma up_index_not_le [simp]: "j \<le> up_index j \<longleftrightarrow> j = 0"
  by (auto simp: up_index_def)

lemma up_index_children: "up_index k = i \<Longrightarrow> 0 < k \<Longrightarrow> k = 2 * i + 1 \<or> k = 2 * i + 2"
  by (auto simp: up_index_def)

lemma up_index_bound [simp]: "k < n \<Longrightarrow> up_index k < n"
  by (auto simp: up_index_def)

function heap_up :: "('a \<Rightarrow> 'a \<Rightarrow> bool) \<Rightarrow> 'a list \<Rightarrow> nat \<Rightarrow> 'a list" where
  "heap_up lt xs j = (let i = up_index j in
     if j = 0 \<or> \<not> lt (xs ! j) (xs ! i) then xs else heap_up lt (swap_at xs i j) i)"
  by pat_completeness auto
termination
  by (relation "measure (\<lambda>(lt, xs, j). j)") auto

declare heap_up.simps [simp del]

text \<open>The loop \<open>down\<close>, over the less of the children, ends with the index it has reached.\<close>

definition least_child :: "('a \<Rightarrow> 'a \<Rightarrow> bool) \<Rightarrow> nat \<Rightarrow> 'a list \<Rightarrow> nat \<Rightarrow> nat" where
  "least_child lt n xs i = (let j1 = 2 * i + 1; j2 = j1 + 1 in if j2 < n \<and> lt (xs ! j2) (xs ! j1) then j2 else j1)"

lemma least_child_range: "i < least_child lt n xs i \<and> (2 * i + 1 < n \<longrightarrow> least_child lt n xs i < n) \<and> up_index (least_child lt n xs i) = i"
  by (auto simp: least_child_def Let_def up_index_def)

function heap_down :: "('a \<Rightarrow> 'a \<Rightarrow> bool) \<Rightarrow> nat \<Rightarrow> 'a list \<Rightarrow> nat \<Rightarrow> 'a list \<times> nat" where
  "heap_down lt n xs i = (if 2 * i + 1 \<ge> n then (xs, i)
     else let j = least_child lt n xs i in
       if \<not> lt (xs ! j) (xs ! i) then (xs, i) else heap_down lt n (swap_at xs i j) j)"
  by pat_completeness auto
termination
proof (relation "measure (\<lambda>(lt, n, xs, i). n - i)", goal_cases)
  case (2 lt n xs i j)
  then show ?case using least_child_range [of i lt n xs] by auto
qed simp

declare heap_down.simps [simp del]

definition heap_Init :: "('a \<Rightarrow> 'a \<Rightarrow> bool) \<Rightarrow> 'a list \<Rightarrow> 'a list" where
  "heap_Init lt xs = foldl (\<lambda>xs i. fst (heap_down lt (length xs) xs i)) xs (rev [0..<length xs div 2])"

definition heap_Push :: "('a \<Rightarrow> 'a \<Rightarrow> bool) \<Rightarrow> 'a \<Rightarrow> 'a list \<Rightarrow> 'a list" where
  "heap_Push lt x xs = heap_up lt (xs @ [x]) (length xs)"

text \<open>On an empty heap \<open>Pop\<close> panics.\<close>

definition heap_Pop :: "('a \<Rightarrow> 'a \<Rightarrow> bool) \<Rightarrow> 'a list \<Rightarrow> ('a \<times> 'a list) option" where
  "heap_Pop lt xs = (if xs = [] then None
     else let n = length xs - 1; ys = fst (heap_down lt n (swap_at xs 0 n) 0) in Some (ys ! n, take n ys))"

definition heap_Fix :: "('a \<Rightarrow> 'a \<Rightarrow> bool) \<Rightarrow> 'a list \<Rightarrow> nat \<Rightarrow> 'a list" where
  "heap_Fix lt xs i = (case heap_down lt (length xs) xs i of (ys, i') \<Rightarrow> if i' > i then ys else heap_up lt ys i)"

subsection \<open>Elements\<close>

lemma length_swap_at [simp]: "length (swap_at xs i j) = length xs"
  by (simp add: swap_at_def)

lemma mset_swap_at [simp]: "i < length xs \<Longrightarrow> j < length xs \<Longrightarrow> mset (swap_at xs i j) = mset xs"
  by (simp add: swap_at_def mset_swap)

lemma set_swap_at [simp]: "i < length xs \<Longrightarrow> j < length xs \<Longrightarrow> set (swap_at xs i j) = set xs"
  by (metis mset_swap_at set_mset_mset)

lemma nth_swap_at:
  "i < length xs \<Longrightarrow> j < length xs \<Longrightarrow> swap_at xs i j ! k = (if k = j then xs ! i else if k = i then xs ! j else xs ! k)"
  by (simp add: swap_at_def nth_list_update)

lemma mset_heap_up: "j < length xs \<Longrightarrow> mset (heap_up lt xs j) = mset xs"
proof (induction lt xs j rule: heap_up.induct)
  case (1 lt xs j)
  then show ?case by (subst heap_up.simps) (auto simp: Let_def)
qed

lemma heap_down_cases [case_names stop move]:
  assumes "heap_down lt n xs i = (xs, i) \<Longrightarrow> 2 * i + 1 \<ge> n \<or> \<not> lt (xs ! least_child lt n xs i) (xs ! i) \<Longrightarrow> P"
    and "\<And>j. j = least_child lt n xs i \<Longrightarrow> i < j \<Longrightarrow> j < n \<Longrightarrow> up_index j = i \<Longrightarrow> lt (xs ! j) (xs ! i) \<Longrightarrow>
      heap_down lt n xs i = heap_down lt n (swap_at xs i j) j \<Longrightarrow> P"
  shows P
proof (cases "2 * i + 1 \<ge> n \<or> \<not> lt (xs ! least_child lt n xs i) (xs ! i)")
  case True
  then have "heap_down lt n xs i = (xs, i)" by (subst heap_down.simps) (auto simp: Let_def)
  then show ?thesis using assms(1) True by blast
next
  case False
  then have "heap_down lt n xs i = heap_down lt n (swap_at xs i (least_child lt n xs i)) (least_child lt n xs i)"
    by (subst heap_down.simps) (simp add: Let_def)
  then show ?thesis using assms(2) [OF refl] False least_child_range [of i lt n xs] by simp
qed

lemma heap_down_frame:
  "n \<le> length xs \<Longrightarrow> mset (fst (heap_down lt n xs i)) = mset xs \<and> (\<forall>k\<ge>n. fst (heap_down lt n xs i) ! k = xs ! k)"
proof (induction "n - i" arbitrary: xs i rule: less_induct)
  case less
  show ?case
  proof (cases rule: heap_down_cases [of lt n xs i])
    case (move j)
    have "mset (fst (heap_down lt n (swap_at xs i j) j)) = mset (swap_at xs i j) \<and>
        (\<forall>k\<ge>n. fst (heap_down lt n (swap_at xs i j) j) ! k = swap_at xs i j ! k)"
      by (rule less.hyps) (use move less.prems in auto)
    moreover have "\<forall>k\<ge>n. swap_at xs i j ! k = xs ! k" using move less.prems by (auto simp: nth_swap_at)
    ultimately show ?thesis using move less.prems by auto
  qed simp
qed

lemma length_heap_up [simp]: "j < length xs \<Longrightarrow> length (heap_up lt xs j) = length xs"
  by (metis mset_heap_up size_mset)

lemma length_heap_down [simp]: "n \<le> length xs \<Longrightarrow> length (fst (heap_down lt n xs i)) = length xs"
  by (metis heap_down_frame size_mset)


subsection \<open>The heap property\<close>

text \<open>Below the first \<open>n\<close> elements, from the children of \<open>m\<close> on.\<close>

definition heap_from :: "('a \<Rightarrow> 'a \<Rightarrow> bool) \<Rightarrow> nat \<Rightarrow> nat \<Rightarrow> 'a list \<Rightarrow> bool" where
  "heap_from lt m n xs \<longleftrightarrow> (\<forall>k. 0 < k \<longrightarrow> k < n \<longrightarrow> m \<le> up_index k \<longrightarrow> \<not> lt (xs ! k) (xs ! up_index k))"

abbreviation is_heap :: "('a \<Rightarrow> 'a \<Rightarrow> bool) \<Rightarrow> 'a list \<Rightarrow> bool" where
  "is_heap lt xs \<equiv> heap_from lt 0 (length xs) xs"

lemma heap_least:
  assumes "swo_on lt A" and "set xs \<subseteq> A" and "is_heap lt xs" and "k < length xs"
  shows "\<not> lt (xs ! k) (xs ! 0)"
  using assms(4)
proof (induction k rule: less_induct)
  case (less k)
  have A: "xs ! i \<in> A" if "i < length xs" for i using assms(2) that by auto
  show ?case
  proof (cases "k = 0")
    case True
    then show ?thesis using swo_on_asym [OF assms(1) A A, of 0 0] less.prems by auto
  next
    case False
    then have "\<not> lt (xs ! k) (xs ! up_index k)" "\<not> lt (xs ! up_index k) (xs ! 0)"
      using assms(3) less by (auto simp: heap_from_def)
    moreover have "xs ! 0 \<in> A" using A [of 0] less.prems by linarith
    ultimately show ?thesis using swo_on_ntrans [OF assms(1) A A, of k "up_index k" "xs ! 0"] less.prems by auto
  qed
qed

text \<open>The loop \<open>up\<close> repairs the one place where the property fails.\<close>

lemma heap_up_heap:
  assumes "swo_on lt A"
  shows "set xs \<subseteq> A \<Longrightarrow> j < length xs \<Longrightarrow>
    (\<And>k. 0 < k \<Longrightarrow> k < length xs \<Longrightarrow> k \<noteq> j \<Longrightarrow> \<not> lt (xs ! k) (xs ! up_index k)) \<Longrightarrow>
    (\<And>k. 0 < j \<Longrightarrow> 0 < k \<Longrightarrow> k < length xs \<Longrightarrow> up_index k = j \<Longrightarrow> \<not> lt (xs ! k) (xs ! up_index j)) \<Longrightarrow>
    is_heap lt (heap_up lt xs j)"
proof (induction j arbitrary: xs rule: less_induct)
  case (less j)
  let ?i = "up_index j"
  show ?case
  proof (cases "j = 0 \<or> \<not> lt (xs ! j) (xs ! ?i)")
    case True
    then have "heap_up lt xs j = xs" by (subst heap_up.simps) (auto simp: Let_def)
    then show ?thesis using True less.prems(3) by (auto simp: heap_from_def)
  next
    case False
    let ?ys = "swap_at xs ?i j"
    have e: "heap_up lt xs j = heap_up lt ?ys ?i" using False by (subst heap_up.simps) (simp add: Let_def)
    have i: "?i < j" "?i < length xs" using False less.prems(2) by auto
    have A: "xs ! k \<in> A" if "k < length xs" for k using less.prems(1) that by auto
    have ys: "?ys ! k = (if k = j then xs ! ?i else if k = ?i then xs ! j else xs ! k)" for k
      using nth_swap_at [OF i(2) less.prems(2)] by simp
    have as: "\<not> lt (xs ! ?i) (xs ! j)" using False swo_on_asym [OF assms A A] i less.prems(2) by blast
    have "is_heap lt (heap_up lt ?ys ?i)"
    proof (rule less.IH [OF i(1)])
      fix k assume k: "0 < k" "k < length ?ys" "k \<noteq> ?i"
      consider "k = j" | "k \<noteq> j" "up_index k = j" | "k \<noteq> j" "up_index k = ?i" | "k \<noteq> j" "up_index k \<noteq> j" "up_index k \<noteq> ?i" by blast
      then show "\<not> lt (?ys ! k) (?ys ! up_index k)"
      proof cases
        case 3
        have "\<not> lt (xs ! k) (xs ! ?i)" using less.prems(3) [of k] k 3 by auto
        then show ?thesis using swo_on_ntrans [OF assms A A A, of k ?i j] as k i less.prems(2) 3 by (auto simp: ys)
      next
        case 4
        then show ?thesis using less.prems(3) [of k] k by (auto simp: ys)
      qed (use as less.prems(4) [of k] k False i in \<open>auto simp: ys\<close>)
    next
      fix k assume k: "0 < ?i" "0 < k" "k < length ?ys" "up_index k = ?i"
      have p: "\<not> lt (xs ! ?i) (xs ! up_index ?i)" using less.prems(3) [of ?i] k i by auto
      have n1: "up_index ?i < ?i" using k(1) by simp
      have n: "up_index ?i \<noteq> j" "up_index ?i \<noteq> ?i" using n1 i(1) by linarith+
      have n2: "k \<noteq> ?i" using k(2,4) up_index_less(2) by (metis neq0_conv)
      show "\<not> lt (?ys ! k) (?ys ! up_index ?i)"
      proof (cases "k = j")
        case True
        then show ?thesis using p n by (auto simp: ys)
      next
        case False
        have "\<not> lt (xs ! k) (xs ! ?i)" using less.prems(3) [of k] k False by auto
        then show ?thesis using swo_on_ntrans [OF assms A A A, of k ?i "up_index ?i"] p n n2 k i False by (auto simp: ys)
      qed
    qed (use less.prems i in auto)
    then show ?thesis using e by simp
  qed
qed


lemma least_child_least:
  assumes "swo_on lt A" and "\<And>k. k < n \<Longrightarrow> xs ! k \<in> A" and "0 < k" and "k < n" and "up_index k = i"
  shows "\<not> lt (xs ! k) (xs ! least_child lt n xs i)"
proof -
  have k: "k = 2 * i + 1 \<or> k = 2 * i + 2" using up_index_children [OF assms(5,3)] .
  show ?thesis
  proof (cases "k = least_child lt n xs i")
    case True
    then show ?thesis using swo_on_asym [OF assms(1) assms(2) assms(2), of k k] assms(4) by auto
  next
    case False
    then show ?thesis
      using k assms(4) swo_on_asym [OF assms(1) assms(2) assms(2), of "2 * i + 2" "2 * i + 1"]
      by (cases "k = 2 * i + 1") (simp_all add: least_child_def Let_def split: if_splits)
  qed
qed

text \<open>The loop \<open>down\<close> repairs the place below which it fails.\<close>

lemma heap_down_heap:
  assumes "swo_on lt A"
  shows "set xs \<subseteq> A \<Longrightarrow> n \<le> length xs \<Longrightarrow>
    (\<And>k. 0 < k \<Longrightarrow> k < n \<Longrightarrow> m \<le> up_index k \<Longrightarrow> up_index k \<noteq> i \<Longrightarrow> \<not> lt (xs ! k) (xs ! up_index k)) \<Longrightarrow>
    (\<And>k. 0 < i \<Longrightarrow> m \<le> up_index i \<Longrightarrow> 0 < k \<Longrightarrow> k < n \<Longrightarrow> up_index k = i \<Longrightarrow> \<not> lt (xs ! k) (xs ! up_index i)) \<Longrightarrow>
    heap_from lt m n (fst (heap_down lt n xs i))"
proof (induction "n - i" arbitrary: xs i rule: less_induct)
  case less
  have A: "xs ! k \<in> A" if "k < n" for k using less.prems(1,2) that by auto
  show ?case
  proof (cases rule: heap_down_cases [of lt n xs i])
    case stop
    have "\<not> lt (xs ! k) (xs ! up_index k)" if k: "0 < k" "k < n" "up_index k = i" for k
    proof -
      have l: "2 * i + 1 < n" "\<not> lt (xs ! least_child lt n xs i) (xs ! i)"
        using stop(2) up_index_children [OF k(3,1)] k(2) by auto
      have "\<not> lt (xs ! k) (xs ! least_child lt n xs i)" by (rule least_child_least [OF assms A k])
      then show ?thesis using swo_on_ntrans [OF assms A A A _ l(2)] k l(1) least_child_range [of i lt n xs] by auto
    qed
    then show ?thesis using stop(1) less.prems(3) by (auto simp: heap_from_def)
  next
    case (move j)
    let ?ys = "swap_at xs i j"
    have ys: "?ys ! k = (if k = j then xs ! i else if k = i then xs ! j else xs ! k)" for k
      using nth_swap_at [of i xs j k] move less.prems(2) by auto
    have i: "i < n" using move by simp
    have as: "\<not> lt (xs ! i) (xs ! j)" using swo_on_asym [OF assms A A] move i by blast
    have "heap_from lt m n (fst (heap_down lt n ?ys j))"
    proof (rule less.hyps)
      fix k assume k: "0 < k" "k < n" "m \<le> up_index k" "up_index k \<noteq> j"
      show "\<not> lt (?ys ! k) (?ys ! up_index k)"
      proof (cases "up_index k = i")
        case True
        have "\<not> lt (xs ! k) (xs ! j)" unfolding move(1) by (rule least_child_least [OF assms A k(1,2) True])
        moreover have "k \<noteq> i" using True k(1) up_index_less(2) by (metis neq0_conv)
        ultimately show ?thesis using as move(2) unfolding True ys by auto
      next
        case False
        then have u: "\<not> lt (xs ! k) (xs ! up_index k)" using less.prems(3) k by blast
        show ?thesis
        proof (cases "k = i")
          case True
          then have "\<not> lt (xs ! j) (xs ! up_index i)" using less.prems(4) [of j] move k by auto
          then show ?thesis using True False k(4) move(2) unfolding ys by auto
        next
          case False
          then show ?thesis using u \<open>up_index k \<noteq> i\<close> k(4) move(4) unfolding ys by auto
        qed
      qed
    next
      fix k assume k: "m \<le> up_index j" "0 < k" "k < n" "up_index k = j"
      have "j < k" using k(2,4) up_index_less(1) by blast
      moreover have "\<not> lt (xs ! k) (xs ! j)" using less.prems(3) [OF k(2,3)] k move(2,4) by simp
      ultimately show "\<not> lt (?ys ! k) (?ys ! up_index j)" using move(2) unfolding move(4) ys by simp
    qed (use move less.prems in auto)
    then show ?thesis using move by simp
  qed
qed


subsection \<open>What the operations promise\<close>

lemma heap_Push_ok:
  assumes "swo_on lt A" and "insert x (set xs) \<subseteq> A" and "is_heap lt xs"
  shows "is_heap lt (heap_Push lt x xs)" and "mset (heap_Push lt x xs) = add_mset x (mset xs)"
proof -
  show "is_heap lt (heap_Push lt x xs)" unfolding heap_Push_def
  proof (rule heap_up_heap [OF assms(1)])
    fix k assume "0 < k" "k < length (xs @ [x])" "k \<noteq> length xs"
    then show "\<not> lt ((xs @ [x]) ! k) ((xs @ [x]) ! up_index k)" using assms(3) by (auto simp: heap_from_def nth_append)
  next
    fix k assume "0 < k" "k < length (xs @ [x])" "up_index k = length xs"
    then show "\<not> lt ((xs @ [x]) ! k) ((xs @ [x]) ! up_index (length xs))" using up_index_less(1) [of k] by auto
  qed (use assms(2) in auto)
  show "mset (heap_Push lt x xs) = add_mset x (mset xs)" unfolding heap_Push_def by (subst mset_heap_up) auto
qed

lemma heap_Pop_ok:
  assumes "swo_on lt A" and "set xs \<subseteq> A" and "is_heap lt xs" and "xs \<noteq> []"
  obtains ys where "heap_Pop lt xs = Some (xs ! 0, ys)" "is_heap lt ys" "mset xs = add_mset (xs ! 0) (mset ys)"
proof -
  obtain n where l: "length xs = Suc n" using assms(4) by (cases xs) auto
  let ?s = "swap_at xs 0 n"
  let ?ys = "fst (heap_down lt n ?s 0)"
  have n: "0 < length xs" "n < length xs" using l by auto
  have s: "?s ! k = (if k = n then xs ! 0 else if k = 0 then xs ! n else xs ! k)" for k using nth_swap_at [OF n] by simp
  have f: "mset ?ys = mset xs" "?ys ! n = xs ! 0" "length ?ys = length xs"
    using heap_down_frame [of n ?s lt 0] n s by auto
  have h: "heap_from lt 0 n ?ys"
  proof (rule heap_down_heap [OF assms(1)])
    fix k assume k: "0 < k" "k < n" "up_index k \<noteq> 0"
    then have "\<not> lt (xs ! k) (xs ! up_index k)" using assms(3) l by (auto simp: heap_from_def)
    moreover have "up_index k \<noteq> n" using k(2) up_index_bound [of k n] by linarith
    ultimately show "\<not> lt (?s ! k) (?s ! up_index k)" using k by (simp add: s)
  qed (use assms(2) n in auto)
  have "mset xs = mset (take n ?ys @ drop n ?ys)" using f(1) by simp
  also have "drop n ?ys = [xs ! 0]" using f l by (auto simp: Cons_nth_drop_Suc [symmetric])
  finally have "mset xs = add_mset (xs ! 0) (mset (take n ?ys))" by simp
  moreover have "is_heap lt (take n ?ys)" using h f(3) l by (auto simp: heap_from_def)
  moreover have "heap_Pop lt xs = Some (xs ! 0, take n ?ys)" using assms(4) f(2) by (simp add: heap_Pop_def Let_def l)
  ultimately show ?thesis using that by blast
qed

lemma heap_Fix_0:
  assumes "swo_on lt A" and "set xs \<subseteq> A" and "\<And>k. 0 < k \<Longrightarrow> k < length xs \<Longrightarrow> up_index k \<noteq> 0 \<Longrightarrow> \<not> lt (xs ! k) (xs ! up_index k)"
  shows "is_heap lt (heap_Fix lt xs 0)" and "mset (heap_Fix lt xs 0) = mset xs"
proof -
  obtain ys i where d: "heap_down lt (length xs) xs 0 = (ys, i)" by fastforce
  have ys: "heap_from lt 0 (length xs) ys" "mset ys = mset xs" "length ys = length xs"
    using heap_down_heap [OF assms(1,2), of "length xs" 0 0] heap_down_frame [of "length xs" xs lt 0] assms(3) d
    by (auto dest: mset_eq_length)
  have "heap_Fix lt xs 0 = ys" by (simp add: heap_Fix_def d heap_up.simps [of lt ys 0])
  then show "is_heap lt (heap_Fix lt xs 0)" "mset (heap_Fix lt xs 0) = mset xs" using ys by auto
qed

lemma heap_Init_ok:
  assumes "swo_on lt A" and "set xs \<subseteq> A"
  shows "is_heap lt (heap_Init lt xs)" and "mset (heap_Init lt xs) = mset xs"
proof -
  let ?f = "\<lambda>xs i. fst (heap_down lt (length xs) xs i)"
  have "heap_from lt 0 (length xs) (foldl ?f ys (rev [0..<m])) \<and> mset (foldl ?f ys (rev [0..<m])) = mset xs"
    if "heap_from lt m (length xs) ys" "mset ys = mset xs" for m ys
    using that
  proof (induction m arbitrary: ys)
    case (Suc m)
    have l: "length ys = length xs" "set ys \<subseteq> A" using Suc.prems(2) assms(2) by (auto dest: mset_eq_length mset_eq_setD)
    have "heap_from lt m (length xs) (?f ys m)" unfolding l(1)
      by (rule heap_down_heap [OF assms(1) l(2)]) (use Suc.prems(1) l up_index_less(1) [of m] in \<open>auto simp: heap_from_def\<close>)
    moreover have "mset (?f ys m) = mset xs" using heap_down_frame [of "length ys" ys lt m] Suc.prems(2) by simp
    ultimately show ?case using Suc.IH [of "?f ys m"] by simp
  qed simp
  moreover have "heap_from lt (length xs div 2) (length xs) xs" by (auto simp: heap_from_def up_index_def)
  ultimately have h: "heap_from lt 0 (length xs) (heap_Init lt xs) \<and> mset (heap_Init lt xs) = mset xs"
    unfolding heap_Init_def by blast
  moreover have "length (heap_Init lt xs) = length xs" using h by (auto dest: mset_eq_length)
  ultimately show "is_heap lt (heap_Init lt xs)" "mset (heap_Init lt xs) = mset xs" by simp_all
qed

text \<open>Popping compares only the elements that stay.\<close>

lemma heap_down_cong:
  "n \<le> length xs \<Longrightarrow> (\<And>a b. a \<in> set (take n xs) \<Longrightarrow> b \<in> set (take n xs) \<Longrightarrow> lt a b = lt' a b) \<Longrightarrow> heap_down lt n xs i = heap_down lt' n xs i"
proof (induction "n - i" arbitrary: xs i rule: less_induct)
  case less
  have nth: "xs ! k \<in> set (take n xs)" if "k < n" for k using that less.prems(1) by (auto simp: in_set_conv_nth intro!: exI [of _ k])
  have c: "least_child lt n xs i = least_child lt' n xs i" using less.prems(2) [OF nth nth, of "2 * i + 2" "2 * i + 1"] by (auto simp: least_child_def Let_def)
  show ?case
  proof (cases rule: heap_down_cases [of lt n xs i])
    case stop
    then have "2 * i + 1 \<ge> n \<or> \<not> lt' (xs ! least_child lt' n xs i) (xs ! i)"
      using c less.prems(2) [OF nth nth, of "least_child lt n xs i" i] least_child_range [of i lt n xs] by (auto simp: not_le)
    then show ?thesis using stop(1) by (subst (2) heap_down.simps) (auto simp: Let_def)
  next
    case (move j)
    then have ij: "i < n" "j < n" by auto
    have "set (take n (swap_at xs i j)) \<subseteq> set (take n xs)"
    proof
      fix x assume "x \<in> set (take n (swap_at xs i j))"
      then obtain k where "k < n" "x = swap_at xs i j ! k" using less.prems(1) by (auto simp: in_set_conv_nth)
      then show "x \<in> set (take n xs)" using nth ij less.prems(1) by (auto simp: nth_swap_at)
    qed
    then have "heap_down lt n (swap_at xs i j) j = heap_down lt' n (swap_at xs i j) j"
      by (intro less.hyps) (use less.prems move in \<open>auto intro: diff_less_mono2\<close>)
    moreover have "lt' (xs ! j) (xs ! i)" using less.prems(2) [OF nth nth] ij move by auto
    moreover have "2 * i + 1 < n" using move(1,3) by (auto simp: least_child_def Let_def split: if_splits)
    ultimately show ?thesis using move c by (subst (2) heap_down.simps) (auto simp: Let_def)
  qed
qed

lemma heap_Pop_cong:
  assumes "\<And>a b. a \<in> set (tl xs) \<Longrightarrow> b \<in> set (tl xs) \<Longrightarrow> lt a b = lt' a b"
  shows "heap_Pop lt xs = heap_Pop lt' xs"
proof (cases xs)
  case (Cons x ys)
  let ?n = "length ys"
  have "set (take ?n (swap_at xs 0 ?n)) \<subseteq> set ys"
  proof
    fix z assume "z \<in> set (take ?n (swap_at xs 0 ?n))"
    then obtain k where "k < ?n" "z = swap_at xs 0 ?n ! k" using Cons by (auto simp: in_set_conv_nth)
    then show "z \<in> set ys" using Cons by (auto simp: nth_swap_at nth_Cons')
  qed
  then have "heap_down lt ?n (swap_at xs 0 ?n) 0 = heap_down lt' ?n (swap_at xs 0 ?n) 0" using Cons assms by (intro heap_down_cong) auto
  then show ?thesis using Cons by (simp add: heap_Pop_def Let_def)
qed (simp add: heap_Pop_def)

lemma is_heap_Nil [simp]: "is_heap lt []"
  by (simp add: heap_from_def)

end
