(* ===== verification/Orders.thy ===== *)
theory Orders
  imports Go_Prelude
begin

text \<open>
  What operators ask of the comparison they are given: on the values at hand it is a total preorder. The locale
  \<open>comparison\<close> has what follows for the stable sort; it is interpreted on the comparators of integers
  in \<open>Spill_Sort_Inv\<close>, through the locales of the sort.
\<close>

locale comparison =
  fixes cmp :: "'v \<Rightarrow> 'v \<Rightarrow> int" and A :: "'v set"
  assumes cmp_swap: "a \<in> A \<Longrightarrow> b \<in> A \<Longrightarrow> cmp b a = - cmp a b"
    and cmp_trans: "a \<in> A \<Longrightarrow> b \<in> A \<Longrightarrow> d \<in> A \<Longrightarrow> cmp a b \<le> 0 \<Longrightarrow> cmp b d \<le> 0 \<Longrightarrow> cmp a d \<le> 0"

abbreviation cmp_less :: "('v \<Rightarrow> 'v \<Rightarrow> int) \<Rightarrow> 'v \<Rightarrow> 'v \<Rightarrow> bool" where
  "cmp_less cmp a b \<equiv> cmp a b < 0"

text \<open>A first least element comes out of the stable sort first, whatever the comparison.\<close>

lemma ins_left_snoc: "\<not> lt w v \<Longrightarrow> ins_left lt w (p @ [v]) = ins_left lt w p @ [v]"
  by (induction p) auto

lemma ins_left_last: "\<forall>u\<in>set p. lt v u \<Longrightarrow> ins_left lt v p = p @ [v]"
  by (induction p) auto

lemma set_foldl_ins_left: "set (foldl (\<lambda>p x. ins_left lt x p) p xs) = set p \<union> set xs"
  by (induction xs arbitrary: p) auto

lemma foldl_ins_left_snoc:
  "\<forall>w\<in>set ws. \<not> lt w v \<Longrightarrow> foldl (\<lambda>p x. ins_left lt x p) (p @ [v]) ws = foldl (\<lambda>p x. ins_left lt x p) p ws @ [v]"
  by (induction ws arbitrary: p) (simp_all add: ins_left_snoc)

lemma sort_stable_first:
  assumes "\<forall>u\<in>set us. lt v u" and "\<forall>w\<in>set ws. \<not> lt w v"
  shows "sort_stable lt (us @ v # ws) = v # sort_stable lt (us @ ws)"
  using assms by (simp add: sort_stable_def ins_left_last set_foldl_ins_left foldl_ins_left_snoc)

lemma ins_left_cong: "(\<And>y. y \<in> set p \<Longrightarrow> l x y = l' x y) \<Longrightarrow> ins_left l x p = ins_left l' x p"
  by (induction p) auto

lemma sort_stable_cong:
  assumes "\<And>x y. x \<in> set xs \<Longrightarrow> y \<in> set xs \<Longrightarrow> l x y = l' x y"
  shows "sort_stable l xs = sort_stable l' xs"
proof -
  have "foldl (\<lambda>p x. ins_left l x p) p ys = foldl (\<lambda>p x. ins_left l' x p) p ys" if "set p \<union> set ys \<subseteq> set xs" for p ys
    using that
  proof (induction ys arbitrary: p)
    case (Cons y ys)
    then have "ins_left l y p = ins_left l' y p" using assms by (intro ins_left_cong) auto
    then show ?case using Cons.IH [of "ins_left l' y p"] Cons.prems by simp
  qed simp
  from this [of "[]" xs] show ?thesis by (simp add: sort_stable_def)
qed

lemma sort_stable_Nil_iff: "sort_stable lt xs = [] \<longleftrightarrow> xs = []"
  by (metis length_0_conv length_sort_stable)

text \<open>A part of the input that is sorted first makes no difference.\<close>

lemma swo_on_trans: "swo_on lt A \<Longrightarrow> a \<in> A \<Longrightarrow> b \<in> A \<Longrightarrow> d \<in> A \<Longrightarrow> lt a b \<Longrightarrow> lt b d \<Longrightarrow> lt a d"
  using swo_on_asym [of lt A b d] swo_on_ntrans [of lt A a d b] by blast

lemma ins_left_commute:
  assumes "swo_on lt A" "x \<in> A" "y \<in> A" "lt x y"
  shows "set p \<subseteq> A \<Longrightarrow> ins_left lt y (ins_left lt x p) = ins_left lt x (ins_left lt y p)"
proof (induction p)
  case Nil
  then show ?case using swo_on_asym [OF assms(1-3)] assms(4) by simp
next
  case (Cons z p)
  then show ?case using swo_on_asym [OF assms(1-3)] swo_on_trans [OF assms(1-3), of z] assms(4) by auto
qed

lemma foldl_ins_left_rev:
  assumes "swo_on lt A" "x \<in> A"
  shows "set q \<subseteq> A \<Longrightarrow> set p \<subseteq> A \<Longrightarrow>
    foldl (\<lambda>p x. ins_left lt x p) p (rev (ins_left lt x q)) = ins_left lt x (foldl (\<lambda>p x. ins_left lt x p) p (rev q))"
proof (induction q)
  case (Cons y q)
  then show ?case using ins_left_commute [OF assms(1,2), of y "foldl (\<lambda>p x. ins_left lt x p) p (rev q)"]
    by (auto simp: set_foldl_ins_left)
qed simp

lemma foldl_sort_stable:
  assumes "swo_on lt A" "set p \<subseteq> A"
  shows "set ys \<subseteq> A \<Longrightarrow> foldl (\<lambda>p x. ins_left lt x p) p (sort_stable lt ys) = foldl (\<lambda>p x. ins_left lt x p) p ys"
proof (induction ys rule: rev_induct)
  case (snoc y ys)
  then show ?case using foldl_ins_left_rev [OF assms(1), of y "rev (sort_stable lt ys)" p] assms(2)
    by (simp add: sort_stable_def set_foldl_ins_left)
qed simp

lemma sort_stable_part:
  "swo_on lt A \<Longrightarrow> set (xs @ ys) \<subseteq> A \<Longrightarrow> sort_stable lt (xs @ sort_stable lt ys @ zs) = sort_stable lt (xs @ ys @ zs)"
  using foldl_sort_stable [of lt A "foldl (\<lambda>p x. ins_left lt x p) [] xs" ys]
  by (simp add: sort_stable_def set_foldl_ins_left)

context comparison
begin

lemma swo: "swo_on (cmp_less cmp) A"
  unfolding swo_on_def
proof (intro conjI ballI impI)
  fix a b assume "a \<in> A" "b \<in> A" "cmp_less cmp a b"
  then show "\<not> cmp_less cmp b a" using cmp_swap [of a b] by simp
next
  fix a b d assume "a \<in> A" "b \<in> A" "d \<in> A" "\<not> cmp_less cmp a b" "\<not> cmp_less cmp b d"
  then show "\<not> cmp_less cmp a d" using cmp_trans [of d b a] cmp_swap [of a b] cmp_swap [of b d] cmp_swap [of a d] by simp
qed

lemma cmp_self: "a \<in> A \<Longrightarrow> cmp a a = 0"
  using cmp_swap [of a a] by simp

lemma less_trans: "a \<in> A \<Longrightarrow> b \<in> A \<Longrightarrow> d \<in> A \<Longrightarrow> cmp a b < 0 \<Longrightarrow> cmp b d \<le> 0 \<Longrightarrow> cmp a d < 0"
  using cmp_trans [of a b d] cmp_trans [of b d a] cmp_swap [of a b] cmp_swap [of a d] by force

lemma le_less_trans: "a \<in> A \<Longrightarrow> b \<in> A \<Longrightarrow> d \<in> A \<Longrightarrow> cmp a b \<le> 0 \<Longrightarrow> cmp b d < 0 \<Longrightarrow> cmp a d < 0"
  using cmp_trans [of a b d] cmp_trans [of d a b] cmp_swap [of b d] cmp_swap [of a d] by force

lemma sorted_by: "set xs \<subseteq> A \<Longrightarrow> sorted_wrt (\<lambda>a b. cmp a b \<le> 0) (sort_stable (cmp_less cmp) xs)"
proof -
  assume xs: "set xs \<subseteq> A"
  have "sorted_wrt (\<lambda>a b. \<not> cmp_less cmp b a) (sort_stable (cmp_less cmp) xs)" by (rule sorted_sort_stable [OF swo xs])
  then show ?thesis
  proof (rule sorted_wrt_mono_rel [rotated])
    fix a b assume "a \<in> set (sort_stable (cmp_less cmp) xs)" "b \<in> set (sort_stable (cmp_less cmp) xs)" "\<not> cmp_less cmp b a"
    moreover from this have "a \<in> A" "b \<in> A" using xs by auto
    ultimately show "cmp a b \<le> 0" using cmp_swap [of a b] by simp
  qed
qed

lemma sort_of_sorted: "set xs \<subseteq> A \<Longrightarrow> sorted_wrt (\<lambda>a b. cmp a b \<le> 0) xs \<Longrightarrow> sort_stable (cmp_less cmp) xs = xs"
proof (rule sort_stable_sorted)
  assume "set xs \<subseteq> A" "sorted_wrt (\<lambda>a b. cmp a b \<le> 0) xs"
  then show "sorted_wrt (\<lambda>a b. \<not> cmp_less cmp b a) xs"
  proof (elim sorted_wrt_mono_rel [rotated])
    fix a b assume "a \<in> set xs" "b \<in> set xs" "cmp a b \<le> 0"
    moreover from this have "a \<in> A" "b \<in> A" using \<open>set xs \<subseteq> A\<close> by auto
    ultimately show "\<not> cmp_less cmp b a" using cmp_swap [of a b] by simp
  qed
qed

text \<open>Two sorted arrangements of the same values differ in ties only.\<close>

lemma sorted_rank:
  assumes xs: "set xs \<subseteq> A" "sorted_wrt (\<lambda>a b. cmp a b \<le> 0) xs" and ys: "sorted_wrt (\<lambda>a b. cmp a b \<le> 0) ys"
    and m: "mset xs = mset ys" and i: "i < length xs"
  shows "\<not> cmp (ys ! i) (xs ! i) < 0"
proof
  assume less: "cmp (ys ! i) (xs ! i) < 0"
  let ?P = "\<lambda>z. cmp z (xs ! i) < 0"
  have l: "length ys = length xs" "set ys = set xs" using m mset_eq_length mset_eq_setD by metis+
  then have iA: "xs ! i \<in> A" "ys ! j \<in> A" if "j < length ys" for j using xs(1) i that nth_mem by blast+
  have "\<not> ?P (xs ! j)" if "i \<le> j" "j < length xs" for j
  proof (cases "j = i")
    case True
    then show ?thesis using cmp_self [of "xs ! i"] xs(1) i nth_mem [OF i] by (simp add: subset_iff)
  next
    case False
    then have "cmp (xs ! i) (xs ! j) \<le> 0" using xs(2) that by (simp add: sorted_wrt_iff_nth_less)
    moreover have "xs ! i \<in> A" "xs ! j \<in> A" using xs(1) i that by auto
    ultimately show ?thesis using cmp_swap [of "xs ! i" "xs ! j"] by simp
  qed
  then have "filter ?P (drop i xs) = []" by (auto simp: filter_empty_conv in_set_conv_nth)
  then have "length (filter ?P xs) \<le> i"
    using length_filter_le [of ?P "take i xs"] filter_append [of ?P "take i xs" "drop i xs"] by simp
  moreover have "?P (ys ! j)" if "j < Suc i" for j
  proof (cases "j = i")
    case False
    then have "cmp (ys ! j) (ys ! i) \<le> 0" "j < length ys" using ys that i l by (simp_all add: sorted_wrt_iff_nth_less)
    then show ?thesis using le_less_trans [of "ys ! j" "ys ! i" "xs ! i"] less iA(2) [of j] iA [of i] i l by simp
  qed (simp add: less)
  then have "filter ?P (take (Suc i) ys) = take (Suc i) ys" using i l by (auto simp: filter_id_conv in_set_conv_nth)
  then have "Suc i \<le> length (filter ?P ys)"
    using filter_append [of ?P "take (Suc i) ys" "drop (Suc i) ys"] i l by simp
  moreover have "length (filter ?P xs) = length (filter ?P ys)" using m by (metis mset_filter size_mset)
  ultimately show False by simp
qed

lemma sorted_ties:
  assumes "set xs \<subseteq> A" "sorted_wrt (\<lambda>a b. cmp a b \<le> 0) xs" "sorted_wrt (\<lambda>a b. cmp a b \<le> 0) ys" "mset xs = mset ys"
  shows "list_all2 (\<lambda>a b. cmp a b = 0) xs ys"
proof -
  have l: "length xs = length ys" "set ys \<subseteq> A" using assms(1,4) mset_eq_length mset_eq_setD by metis+
  have "cmp (xs ! i) (ys ! i) = 0" if "i < length xs" for i
  proof -
    have "xs ! i \<in> A" "ys ! i \<in> A" using assms(1) l that by (auto simp: subset_iff)
    then show ?thesis using sorted_rank [OF assms(1-4) that] sorted_rank [OF l(2) assms(3,2) assms(4) [symmetric], of i] that l(1) cmp_swap [of "xs ! i" "ys ! i"] by simp
  qed
  then show ?thesis using l(1) by (simp add: list_all2_conv_all_nth)
qed

end

end
