(* ===== verification/Spill_Sort.thy ===== *)
theory Spill_Sort
  imports Spill_File Go_Heap Orders
begin

text \<open>
  External merge sort (\<open>runtime/sam/op/spill/merge.go\<close>, \<open>peeker.go\<close>) and the sort operator
  (\<open>runtime/sam/op/sort/sort.go\<close>). A comparator is used through its comparison and its stable sort; panics
  of comparisons are not modelled. The goroutine of the operator runs from one result it sends to the next; contexts
  that are cancelled, and resetters of expressions, are not modelled.
\<close>

record comparator =
  c_Compare :: "bval \<Rightarrow> bval \<Rightarrow> int"
  c_SortStable :: "bval list \<Rightarrow> bval list"

subsection \<open>Runs\<close>

record 'f run =
  run_file :: 'f
  nextRecord :: "bval option"
  ordinal :: nat

text \<open>On an error the file is closed and removed, with the result ignored.\<close>

definition newPeeker :: "('f, 'e) file_ops \<Rightarrow> nat \<Rightarrow> ('r, 'e, bval) reader \<Rightarrow> 'r \<Rightarrow> ('e + 'f run) option" where
  "newPeeker fs n zread zr = (case fs_create fs n of Inl e \<Rightarrow> Some (Inl e)
    | Inr f \<Rightarrow> (case zio_Copy (fs_write fs) zread f zr of
        None \<Rightarrow> None
      | Some (_, Some e) \<Rightarrow> Some (Inl e)
      | Some ((f, _), None) \<Rightarrow> (case fs_rewind fs f of
          (f, Some e) \<Rightarrow> Some (Inl e)
        | (f, None) \<Rightarrow> (case fs_read fs f of
            (f, Inl e) \<Rightarrow> Some (Inl e)
          | (f, Inr first) \<Rightarrow> Some (Inr \<lparr>run_file = f, nextRecord = first, ordinal = n\<rparr>)))))"

text \<open>The next record before the call, and whether the file has ended or an error.\<close>

definition run_read :: "('f, 'e) file_ops \<Rightarrow> 'f run \<Rightarrow> 'f run \<times> bval option \<times> ('e + bool)" where
  "run_read fs p = (case fs_read fs (run_file p) of
      (f, Inl e) \<Rightarrow> (p\<lparr>run_file := f, nextRecord := None\<rparr>, nextRecord p, Inl e)
    | (f, Inr v) \<Rightarrow> (p\<lparr>run_file := f, nextRecord := v\<rparr>, nextRecord p, Inr (v = None)))"

subsection \<open>The merge\<close>

record 'f mergesort =
  ms_runs :: "'f run list"
  ms_nspill :: nat
  ms_spillSize :: nat

definition new_mergesort :: "'f mergesort" where
  "new_mergesort = \<lparr>ms_runs = [], ms_nspill = 0, ms_spillSize = 0\<rparr>"

text \<open>The error is that of making the temporary directory.\<close>

definition NewMergeSort :: "'e option \<Rightarrow> 'e + 'f mergesort" where
  "NewMergeSort mkdir = (case mkdir of Some e \<Rightarrow> Inl e | None \<Rightarrow> Inr new_mergesort)"

text \<open>\<open>Less\<close>; it dereferences the records, which are there in a heap of more than one run.\<close>

definition run_less :: "comparator \<Rightarrow> 'f run \<Rightarrow> 'f run \<Rightarrow> bool" where
  "run_less c a b = (case (nextRecord a, nextRecord b) of
      (Some x, Some y) \<Rightarrow> let v = c_Compare c x y in if v \<noteq> 0 then v < 0 else ordinal a < ordinal b
    | _ \<Rightarrow> False)"

text \<open>A run without records can only be the only one: a comparison with it panics.\<close>

definition Spill :: "comparator \<Rightarrow> ('f, 'e) file_ops \<Rightarrow> bval list \<Rightarrow> 'f mergesort \<Rightarrow> ('f mergesort \<times> 'e pfail option) option" where
  "Spill c fs vals r = (case newPeeker fs (ms_nspill r) Array_Read (c_SortStable c vals) of
      None \<Rightarrow> None
    | Some (Inl e) \<Rightarrow> Some (r, Some (PError e))
    | Some (Inr runFile) \<Rightarrow> (case fs_size fs (run_file runFile) of
        Inl e \<Rightarrow> Some (r, Some (PError e))
      | Inr size' \<Rightarrow> let r' = r\<lparr>ms_nspill := ms_nspill r + 1, ms_spillSize := ms_spillSize r + size'\<rparr> in
          if ms_runs r \<noteq> [] \<and> (nextRecord runFile = None \<or> list_ex (\<lambda>p. nextRecord p = None) (ms_runs r)) then Some (r', Some PPanic)
          else Some (r'\<lparr>ms_runs := heap_Push (run_less c) runFile (ms_runs r)\<rparr>, None)))"

definition MergeSort_Peek :: "'f mergesort \<Rightarrow> bval option" where
  "MergeSort_Peek r = (case ms_runs r of [] \<Rightarrow> None | p # _ \<Rightarrow> nextRecord p)"

definition pop_run :: "comparator \<Rightarrow> 'f run list \<Rightarrow> 'f run list" where
  "pop_run c ps = (case heap_Pop (run_less c) ps of None \<Rightarrow> [] | Some (_, ps) \<Rightarrow> ps)"

function MergeSort_Read :: "comparator \<Rightarrow> ('f, 'e) file_ops \<Rightarrow> ('f mergesort, 'e, bval) reader" where
  "MergeSort_Read c fs r = (case ms_runs r of [] \<Rightarrow> (r, Inr None)
    | p # ps \<Rightarrow> (case run_read fs p of
        (p', rec, Inl e) \<Rightarrow> (r\<lparr>ms_runs := p' # ps\<rparr>, Inl e)
      | (p', rec, Inr eof) \<Rightarrow>
          (case (if eof then fs_remove fs (run_file p') else None) of
            Some e \<Rightarrow> (r\<lparr>ms_runs := p' # ps\<rparr>, Inl e)
          | None \<Rightarrow> let r' = r\<lparr>ms_runs := if eof then pop_run c (p' # ps) else heap_Fix (run_less c) (p' # ps) 0\<rparr> in
              (case rec of Some v \<Rightarrow> (r', Inr (Some v)) | None \<Rightarrow> MergeSort_Read c fs r'))))"
  by pat_completeness auto

lemma mset_heap_Fix: "i < length xs \<Longrightarrow> mset (heap_Fix lt xs i) = mset xs"
  using heap_down_frame [of "length xs" xs lt i]
    length_heap_down [of "length xs" xs lt i] by (simp add: heap_Fix_def case_prod_beta mset_heap_up)

lemma heap_Pop_Cons: "\<exists>ys. heap_Pop lt (x # xs) = Some (x, ys) \<and> mset ys = mset xs"
proof -
  let ?n = "length xs" and ?zs = "swap_at (x # xs) 0 (length xs)"
  let ?ys = "fst (heap_down lt ?n ?zs 0)"
  have l: "length ?ys = Suc ?n" and m: "mset ?ys = mset (x # xs)" and n: "?ys ! ?n = x"
    using heap_down_frame [of ?n ?zs lt 0] length_heap_down [of ?n ?zs lt 0] by (simp_all add: nth_swap_at)
  have "?ys = take ?n ?ys @ [x]" using l n by (metis lessI take_Suc_conv_app_nth take_all_iff order_refl)
  then have "mset (take ?n ?ys) = mset xs" using m by (metis add_mset_remove_trivial mset.simps(2) mset_append union_mset_add_mset_right mset.simps(1) add_0_right)
  then show ?thesis using n by (simp add: heap_Pop_def Let_def)
qed

definition unread_runs :: "'f run multiset \<Rightarrow> nat" where
  "unread_runs M = size M + size M + size (filter_mset (\<lambda>p. nextRecord p = None) M)"

termination MergeSort_Read
proof (relation "measure (\<lambda>(c, fs, r). unread_runs (mset (ms_runs r)))", goal_cases)
  case (2 c fs r p ps p' y rec z eof r')
  have p: "nextRecord p = None" "eof \<longleftrightarrow> nextRecord p' = None" using 2 by (auto simp: run_read_def split: prod.splits sum.splits)
  have "mset (pop_run c (p' # ps)) = mset ps" using heap_Pop_Cons [of "run_less c" p' ps] by (auto simp: pop_run_def)
  moreover have "mset (heap_Fix (run_less c) (p' # ps) 0) = mset (p' # ps)" by (rule mset_heap_Fix) simp
  ultimately show ?case using 2 p by (auto simp: unread_runs_def simp del: size_mset)
qed simp

declare MergeSort_Read.simps [simp del]

subsection \<open>The operator\<close>

text \<open>Waiting for input, about to send the end of the stream, or sending what the puller over the merge gives.\<close>

datatype 'f sort_phase = Reading | EndPending | Sending "'f mergesort option"

text \<open>The state of the goroutine; \<open>so_dirs\<close> counts the temporary directories that have been made and not removed.\<close>

record 'f sortop =
  so_spiller :: "'f mergesort option"
  so_nbytes :: nat
  so_out :: "bval list"
  so_comparator :: "comparator option"
  so_phase :: "'f sort_phase"
  so_dirs :: nat

definition sort_New :: "'f sortop" where
  "sort_New = \<lparr>so_spiller = None, so_nbytes = 0, so_out = [], so_comparator = None, so_phase = Reading, so_dirs = 0\<rparr>"

definition MemMaxBytes :: nat where "MemMaxBytes = 128 * 1024 * 1024"

definition sort_append :: "bval list \<Rightarrow> bval list \<Rightarrow> bval list \<times> nat" where
  "sort_append out batch = (out @ batch, sum_list (map (\<lambda>v. length (slice_bytes (snd v))) batch))"

text \<open>The variables of the loop at the beginning of a stream.\<close>

definition sort_reset :: "'f sortop \<Rightarrow> 'f sortop" where
  "sort_reset o' = o'\<lparr>so_spiller := None, so_nbytes := 0, so_out := [], so_phase := Reading\<rparr>"

text \<open>What the operator is given: the files, the error of making a directory, the limits and the comparator for a first value.\<close>

record ('f, 'e) sort_env =
  e_files :: "('f, 'e) file_ops"
  e_mkdir :: "'e option"
  e_mem :: nat
  e_maxv :: nat
  e_comparator :: "bval \<Rightarrow> comparator"

text \<open>The comparator is made for the first value; the spiller when the limit is first reached.\<close>

definition pick_comparator :: "('f, 'e) sort_env \<Rightarrow> bval list \<Rightarrow> 'f sortop \<Rightarrow> comparator option" where
  "pick_comparator env out o' = (case so_comparator o' of Some c \<Rightarrow> Some c
    | None \<Rightarrow> (case out of [] \<Rightarrow> None | v # _ \<Rightarrow> Some (e_comparator env v)))"

definition pick_spiller :: "('f, 'e) sort_env \<Rightarrow> 'f sortop \<Rightarrow> 'e + ('f mergesort \<times> nat)" where
  "pick_spiller env o' = (case so_spiller o' of Some r \<Rightarrow> Inr (r, so_dirs o')
    | None \<Rightarrow> (case NewMergeSort (e_mkdir env) of Inl e \<Rightarrow> Inl e | Inr r \<Rightarrow> Inr (r, so_dirs o' + 1)))"

text \<open>
  A batch is taken in; when the limit is reached it is spilled. The result is the error that is sent, if any. Without
  a value there is no comparator, and a spill panics.
\<close>

definition sort_take :: "('f, 'e) sort_env \<Rightarrow> bval list \<Rightarrow> 'f sortop \<Rightarrow> ('f sortop \<times> 'e pfail option) option" where
  "sort_take env batch o' =
     (let (out, delta) = sort_append (so_out o') batch;
          cmp = pick_comparator env out o';
          nbytes = so_nbytes o' + delta;
          o' = o'\<lparr>so_out := out, so_comparator := cmp, so_nbytes := nbytes\<rparr>
      in if nbytes < e_mem env then Some (o', None)
         else case pick_spiller env o' of
           Inl e \<Rightarrow> Some (o'\<lparr>so_spiller := None, so_out := [], so_nbytes := 0\<rparr>, Some (PError e))
         | Inr (r, dirs) \<Rightarrow> (case cmp of None \<Rightarrow> Some (o', Some PPanic)
             | Some c \<Rightarrow> (case Spill c (e_files env) out r of None \<Rightarrow> None
               | Some (r, x) \<Rightarrow> Some (o'\<lparr>so_spiller := Some r, so_dirs := dirs, so_out := [], so_nbytes := 0\<rparr>, x))))"

text \<open>
  At the end of the input: the values in memory are sorted and sent (\<open>send\<close>), or they become the last run and the merge is
  sent. After an error of the last spill the spiller is dropped without its cleanup.
\<close>

definition sort_end :: "('f, 'e) sort_env \<Rightarrow> 'f sortop \<Rightarrow> ('f sortop \<times> ('e pfail + bval list option) option) option" where
  "sort_end env o' = (case so_spiller o' of
      None \<Rightarrow> Some (if length (so_out o') > 0
        then (case so_comparator o' of None \<Rightarrow> (o', Some (Inl PPanic))
          | Some c \<Rightarrow> (o'\<lparr>so_phase := EndPending\<rparr>, Some (Inr (Some (c_SortStable c (so_out o'))))))
        else (sort_reset o', Some (Inr None)))
    | Some r \<Rightarrow> (case (case so_comparator o' of None \<Rightarrow> Some (r, Some PPanic)
          | Some c \<Rightarrow> if length (so_out o') > 0 then Spill c (e_files env) (so_out o') r else Some (r, None)) of
        None \<Rightarrow> None
      | Some (r, Some e) \<Rightarrow> Some (sort_reset o', Some (Inl e))
      | Some (r, None) \<Rightarrow> Some (o'\<lparr>so_phase := Sending (Some r)\<rparr>, None)))"

text \<open>One round of \<open>sendSpills\<close>; after the last the spiller is cleaned up.\<close>

definition sendSpills :: "('f, 'e) sort_env \<Rightarrow> 'f mergesort option \<Rightarrow> 'f sortop \<Rightarrow> ('f sortop \<times> ('e pfail + bval list option)) option" where
  "sendSpills env p o' = (case so_comparator o' of None \<Rightarrow> Some (o', Inl PPanic)
    | Some c \<Rightarrow> (case puller_Pull (e_maxv env) (MergeSort_Read c (e_files env)) False p of
        None \<Rightarrow> None
      | Some (p, Inr (Some b)) \<Rightarrow> Some (o'\<lparr>so_phase := Sending p\<rparr>, Inr (Some b))
      | Some (p, x) \<Rightarrow> Some ((sort_reset o')\<lparr>so_dirs := so_dirs o' - 1\<rparr>, x)))"

text \<open>\<open>run\<close> up to the next result it sends.\<close>

partial_function (option) sort_run ::
    "('f, 'e) sort_env \<Rightarrow> ('s, 'e, bval) puller \<Rightarrow> 'f sortop \<Rightarrow> 's \<Rightarrow> (('f sortop \<times> 's) \<times> ('e pfail + bval list option)) option" where
  "sort_run env pull o' s = (case so_phase o' of
      EndPending \<Rightarrow> Some ((sort_reset o', s), Inr None)
    | Sending p \<Rightarrow> (case sendSpills env p o' of None \<Rightarrow> None | Some (o', x) \<Rightarrow> Some ((o', s), x))
    | Reading \<Rightarrow> (case pull False s of
        None \<Rightarrow> None
      | Some (s, Inl e) \<Rightarrow> Some ((o', s), Inl e)
      | Some (s, Inr None) \<Rightarrow> (case sort_end env o' of
          None \<Rightarrow> None
        | Some (o', Some x) \<Rightarrow> Some ((o', s), x)
        | Some (o', None) \<Rightarrow> sort_run env pull o' s)
      | Some (s, Inr (Some batch)) \<Rightarrow> (case sort_take env batch o' of
          None \<Rightarrow> None
        | Some (o', Some e) \<Rightarrow> Some ((o', s), Inl e)
        | Some (o', None) \<Rightarrow> sort_run env pull o' s)))"

partial_function (option) sort_Pull :: "('f, 'e) sort_env \<Rightarrow> ('s, 'e, bval) puller \<Rightarrow> ('f sortop \<times> 's, 'e, bval) puller" where
  "sort_Pull env pull done o' = (case sort_run env pull (fst o') (snd o') of
      None \<Rightarrow> None
    | Some (o', Inr (Some b)) \<Rightarrow> if \<not> done then Some (o', Inr (Some b)) else sort_Pull env pull done o'
    | Some (o', x) \<Rightarrow> Some (o', x))"

subsection \<open>The comparator\<close>

text \<open>The first field, in the order of a walk of the record, whose type satisfies the predicate; \<open>None\<close> is the nil path.\<close>

fun or_else :: "'a option \<Rightarrow> 'a option \<Rightarrow> 'a option" where
  "or_else (Some x) y = Some x"
| "or_else None y = y"

lemma record_fields_smaller: "fields_of t = Some gs \<Longrightarrow> size_list (\<lambda>f. size (snd f)) gs < size t"
proof -
  assume "fields_of t = Some gs"
  then obtain i where "TypeUnder t = TypeRecord i gs" by (auto simp: fields_of_def TypeRecordOf_def split: ztype.splits)
  moreover have "size_list (\<lambda>f. size (snd f)) gs < size (TypeRecord i gs)"
    by (induction gs) (auto simp: less_Suc_eq_le intro: order_trans)
  ultimately show ?thesis using size_TypeUnder [of t] by simp
qed

function firstMatchingField :: "(int \<Rightarrow> bool) \<Rightarrow> field list \<Rightarrow> path option" where
  "firstMatchingField pred [] = None"
| "firstMatchingField pred ((n, t) # fs) =
     (if pred (int (ID t)) then Some [n]
      else or_else (case fields_of t of Some gs \<Rightarrow> map_option (Cons n) (firstMatchingField pred gs) | None \<Rightarrow> None)
        (firstMatchingField pred fs))"
  by pat_completeness auto
termination by (relation "measure (\<lambda>(pred, fs). size_list (\<lambda>f. size (snd f)) fs)") (auto dest: record_fields_smaller)

definition GuessSortKey :: "zvalue \<Rightarrow> path option" where
  "GuessSortKey val = (case fields_of (v_typ val) of None \<Rightarrow> None
    | Some fs \<Rightarrow> (case firstMatchingField IsInteger fs of Some f \<Rightarrow> Some f
        | None \<Rightarrow> (case firstMatchingField IsFloat fs of Some f \<Rightarrow> Some f
          | None \<Rightarrow> (case firstMatchingField (\<lambda>i. i \<noteq> int (prim_ID TypeTime)) fs of Some f \<Rightarrow> Some f
            | None \<Rightarrow> Some [str ''ts'']))))"

text \<open>The evaluator of a dotted expression is an argument; it is \<open>this\<close> for the empty path.\<close>

definition NewComparator :: "float_ops \<Rightarrow> (path \<Rightarrow> zvalue \<Rightarrow> zvalue) \<Rightarrow> sortexpr list \<Rightarrow> zvalue \<Rightarrow> bool \<Rightarrow> sortexpr list" where
  "NewComparator fo dotted exprs guessVal guessReverse =
     WithMissingAsNull fo (if length exprs = 0
       then [NewSortExpr (dotted (case GuessSortKey guessVal of None \<Rightarrow> [] | Some p \<Rightarrow> p)) (if guessReverse then Desc else Asc) NullsLast]
       else exprs)"

text \<open>
  The comparator of sort expressions on encoded values, where it does not panic. The evaluators are functions of
  the value: the table of a \<open>DotExpr\<close>, which it keeps from one value to the next, is in the theory
  \<open>Dot_Expr\<close>, with what goes wrong when it meets values of two contexts.
\<close>

definition raw_value :: "bval \<Rightarrow> zvalue" where
  "raw_value v = NewValue (fst v) (snd v)"

definition Comparator_of :: "num_ops \<Rightarrow> sortexpr list \<Rightarrow> comparator" where
  "Comparator_of no ks = \<lparr>c_Compare = (\<lambda>a b. case Comparator_Compare no ks (raw_value a) (raw_value b) of Inr v \<Rightarrow> v | Inl _ \<Rightarrow> 0),
     c_SortStable = (\<lambda>vs. case sortStableIndices no ks (map raw_value vs) of Inr js \<Rightarrow> map ((!) vs) js | Inl _ \<Rightarrow> [])\<rparr>"

end
