(* ===== verification/Compare_Values_Inv.thy ===== *)
theory Compare_Values_Inv
  imports Compare_Values
begin

text \<open>
  The order of values. Without floats \<open>compareValues\<close> is a total preorder; the shortcut of the stable sort for
  integers changes nothing, so sorting gives the stable sort by \<open>Compare\<close>; with integers and floats together the
  comparison is not transitive.
\<close>

subsection \<open>The stable sort\<close>

lemma ins_left_m_pure:
  "\<forall>y\<in>set ys. lt x y = Inr (l x y) \<Longrightarrow> ins_left_m lt x ys = Inr (ins_left l x ys)"
  by (induction ys) auto

lemma sort_stable_m_pure:
  "\<forall>x\<in>set p \<union> set xs. \<forall>y\<in>set p \<union> set xs. lt x y = Inr (l x y) \<Longrightarrow>
   sort_stable_m lt p xs = Inr (rev (foldl (\<lambda>p x. ins_left l x p) p xs))"
proof (induction xs arbitrary: p)
  case (Cons x xs)
  have "ins_left_m lt x p = Inr (ins_left l x p)" using Cons.prems by (intro ins_left_m_pure) simp
  then show ?case using Cons.IH [of "ins_left l x p"] Cons.prems by simp
qed simp

lemma ins_left_map: "map f (ins_left (\<lambda>i j. l (f i) (f j)) x p) = ins_left l (f x) (map f p)"
  by (induction p) auto

lemma sort_stable_map: "map f (sort_stable (\<lambda>i j. l (f i) (f j)) xs) = sort_stable l (map f xs)"
proof -
  have "map f (foldl (\<lambda>p x. ins_left (\<lambda>i j. l (f i) (f j)) x p) p xs) = foldl (\<lambda>p x. ins_left l x p) (map f p) (map f xs)" for p
    by (induction xs arbitrary: p) (simp_all add: ins_left_map)
  from this [of "[]"] show ?thesis by (simp add: sort_stable_def rev_map [symmetric])
qed

text \<open>Moving the values in place puts them in the order of the indices.\<close>

lemma place_loop_map:
  assumes "i + length js = length vals" and "length tmp = length vals" and "length vs = length vals" and "\<forall>j\<in>set js. j < length vals"
    and "take i tmp = take i vals" and "drop i vs = drop i vals"
  shows "place_loop i js tmp vs = take i vs @ map (nth vals) js"
  using assms
proof (induction js arbitrary: i tmp vs)
  case (Cons j js)
  have i: "i < length vals" using Cons.prems(1) by simp
  have vs: "vs ! k = vals ! k" if "i \<le> k" "k < length vals" for k
    using that Cons.prems(3) arg_cong [OF Cons.prems(6), of "\<lambda>l. l ! (k - i)"] by simp
  have tmp: "tmp ! k = vals ! k" if "k < i" for k using that Cons.prems(5) by (metis nth_take)
  let ?tmp = "tmp[i := vs ! i]"
  let ?vs = "if i < j then vs[i := vs ! j] else if i > j then vs[i := ?tmp ! j] else vs"
  have v: "?vs = vs[i := vals ! j]"
    using vs [of j] tmp [of j] vs [of i] i Cons.prems(3,4) list_update_id [of vs i] by (cases "i = j") auto
  have t: "take (Suc i) ?tmp = take (Suc i) vals"
    using Cons.prems(2,5) i vs [of i] by (simp add: take_Suc_conv_app_nth)
  have "place_loop (Suc i) js ?tmp ?vs = take (Suc i) ?vs @ map (nth vals) js"
  proof (rule Cons.IH)
    have "drop (Suc i) vs = drop (Suc i) vals" using Cons.prems(6) by (metis drop_Suc tl_drop)
    then show "drop (Suc i) ?vs = drop (Suc i) vals" unfolding v by simp
  qed (use Cons.prems t i in \<open>auto simp: v\<close>)
  then show ?case using i Cons.prems(3) by (simp add: Let_def v take_Suc_conv_app_nth)
qed simp

lemma less_exprs_Compare: "less_exprs no ks a b = res_bind (Comparator_Compare no ks a b) (\<lambda>v. Inr (v < 0))"
proof (induction ks)
  case (Cons k ks)
  then show ?case by (cases "compareValues no (if se_Order k = Desc then se_Eval k b else se_Eval k a) (if se_Order k = Desc then se_Eval k a else se_Eval k b) (SortExpr_nullsMax k)")
    (auto simp: Let_def)
qed simp

text \<open>The integer that a value of an integer type stands for.\<close>

definition int_key :: "zvalue \<Rightarrow> int" where
  "int_key v = (if IsSigned (int (ID (v_typ v))) then sint (projr (Value_Int v)) else uint (projr (Value_Uint v)))"

definition int_typed :: "zvalue \<Rightarrow> bool" where
  "int_typed v \<longleftrightarrow> ID (v_typ v) \<le> 13 \<and> ID (v_typ v) \<notin> {4, 5}"

lemma int_typed_cases:
  assumes "int_typed v"
  obtains x where "IsSigned (int (ID (v_typ v)))" "Value_Int v = Inr x" "int_key v = sint x"
  | x where "IsUnsigned (int (ID (v_typ v)))" "\<not> IsSigned (int (ID (v_typ v)))" "Value_Uint v = Inr x" "int_key v = uint x"
proof (cases "IsSigned (int (ID (v_typ v)))")
  case True
  then have "Value_Int v = Inr (case v_rep v of Native x \<Rightarrow> x | Raw b \<Rightarrow> DecodeInt b)" by (simp add: Value_Int_def split: vrep.split)
  then show ?thesis using that(1) True by (simp add: int_key_def)
next
  case False
  then have u: "ID (v_typ v) \<le> 3" using assms by (auto simp: int_typed_def IsSigned_def)
  then have "Value_Uint v = Inr (case v_rep v of Native x \<Rightarrow> x | Raw b \<Rightarrow> DecodeUint b)" by (simp add: Value_Uint_def split: vrep.split)
  then show ?thesis using that(2) False u by (simp add: int_key_def IsUnsigned_def)
qed

lemma uint_nonneg_sint: "\<not> sint (w :: u64) < 0 \<Longrightarrow> uint w = sint w"
proof -
  assume "\<not> sint w < 0"
  then have n: "\<not> bit (uint w) 63" by (simp add: sint_uint)
  have "uint w = take_bit (Suc 63) (uint w)" using unsigned_less [of w, where 'a = int] by (simp add: take_bit_int_eq_self)
  also have "\<dots> = take_bit 63 (uint w)" using n by (simp only: take_bit_Suc_from_most) simp
  also have "\<dots> = sint w" using n by (simp add: sint_uint signed_take_bit_eq_if_positive)
  finally show ?thesis .
qed

lemma compareNumbers_ints:
  assumes "int_typed a" and "int_typed b"
  shows "compareNumbers no a b (int (ID (v_typ a))) (int (ID (v_typ b))) = Inr (cmp_Compare (int_key a) (int_key b))"
proof -
  have nf: "\<not> IsFloat (int (ID (v_typ a)))" "\<not> IsFloat (int (ID (v_typ b)))" using assms by (auto simp: int_typed_def IsFloat_def)
  have us: "IsUnsigned i \<Longrightarrow> \<not> IsSigned i" for i by (simp add: IsUnsigned_def IsSigned_def)
  have "sint x < uint y" if "sint x < 0" for x y :: u64 using that uint_ge_0 [of y] by linarith
  then have su: "sint x < 0 \<Longrightarrow> cmp_Compare (sint x) (uint y) = -1" "sint x < 0 \<Longrightarrow> cmp_Compare (uint y) (sint x) = 1" for x y :: u64
    by (simp_all add: cmp_Compare_def) (metis order.asym)
  show ?thesis
    using assms(1)
  proof (cases rule: int_typed_cases)
    case (1 x)
    show ?thesis using assms(2)
      by (cases rule: int_typed_cases) (use nf 1 us su uint_nonneg_sint [of x] in \<open>auto simp: compareNumbers_def\<close>)
  next
    case (2 x)
    show ?thesis using assms(2)
      by (cases rule: int_typed_cases) (use nf 2 us su uint_nonneg_sint in \<open>auto simp: compareNumbers_def\<close>)
  qed
qed


text \<open>The shortcut: different keys decide as the values do, and equal ones inside the range are of equal values.\<close>

lemma native_key_int:
  assumes "native_key m v = Inr (Some x)"
  shows "int_typed v \<or> Value_IsNull v" and "\<not> Value_IsNull v \<Longrightarrow> x = (if IsSigned (int (ID (v_typ v))) then int_key v else min (int_key v) MaxInt64)"
    and "Value_IsNull v \<Longrightarrow> x = (if m then MaxInt64 else MinInt64)"
  using assms by (auto simp: native_key_def int_typed_def int_key_def Let_def res_bind_Inr_iff Value_Uint_def IsSigned_def split: if_splits)

lemma int_key_bounds:
  assumes "int_typed v"
  shows "MinInt64 \<le> int_key v \<and> (IsSigned (int (ID (v_typ v))) \<longrightarrow> int_key v \<le> MaxInt64)"
  using assms
proof (cases rule: int_typed_cases)
  case (1 x)
  have "- (2 ^ 63) \<le> sint x" "sint x < 2 ^ 63" using sint_greater_eq [of x] sint_less [of x] by simp_all
  then show ?thesis using 1(3) by (simp add: MinInt64_def MaxInt64_def)
next
  case (2 x)
  have "- (2 ^ 63) \<le> uint x" by (rule order_trans [OF _ uint_ge_0]) simp
  then show ?thesis using 2 by (simp add: MinInt64_def)
qed

lemma native_key_range: "native_key m v = Inr (Some x) \<Longrightarrow> MinInt64 \<le> x \<and> x \<le> MaxInt64"
proof -
  assume k: "native_key m v = Inr (Some x)"
  have ends: "MinInt64 < MaxInt64" by (simp add: MinInt64_def MaxInt64_def)
  show ?thesis
  proof (cases "Value_IsNull v")
    case False
    then show ?thesis using native_key_int(1,2) [OF k] int_key_bounds [of v] ends by auto
  qed (use native_key_int(3) [OF k] ends in auto)
qed

lemma compareValues_null:
  "Value_IsNull a \<or> Value_IsNull b \<Longrightarrow> compareValues no a b m =
     Inr (if Value_IsNull a \<and> Value_IsNull b then 0 else if Value_IsNull a = m then 1 else -1)"
  by (subst compareValues.simps) (auto simp: Let_def)

lemma compareValues_ints:
  "int_typed a \<Longrightarrow> int_typed b \<Longrightarrow> \<not> Value_IsNull a \<Longrightarrow> \<not> Value_IsNull b \<Longrightarrow>
   compareValues no a b m = Inr (cmp_Compare (int_key a) (int_key b))"
  by (subst compareValues.simps) (simp add: Let_def compareNumbers_ints IsNumber_def int_typed_def)

lemma native_less:
  assumes "native_key m a = Inr (Some x)" and "native_key m b = Inr (Some y)"
  shows "x \<noteq> y \<Longrightarrow> \<exists>v. compareValues no a b m = Inr v \<and> v \<noteq> 0 \<and> (v < 0 \<longleftrightarrow> x < y)"
    and "x = y \<Longrightarrow> x \<noteq> MaxInt64 \<Longrightarrow> x \<noteq> MinInt64 \<Longrightarrow> compareValues no a b m = Inr 0"
proof -
  note k = native_key_int [OF assms(1)] native_key_int [OF assms(2)]
  note range = native_key_range [OF assms(1)] native_key_range [OF assms(2)]
  show "\<exists>v. compareValues no a b m = Inr v \<and> v \<noteq> 0 \<and> (v < 0 \<longleftrightarrow> x < y)" if "x \<noteq> y"
  proof (cases "Value_IsNull a \<or> Value_IsNull b")
    case True
    have v: "compareValues no a b m = Inr (if Value_IsNull a \<and> Value_IsNull b then 0 else if Value_IsNull a = m then 1 else -1)"
      by (rule compareValues_null [OF True])
    have ne: "\<not> (Value_IsNull a \<and> Value_IsNull b)" using that k(3,6) by auto
    show ?thesis
    proof (cases "Value_IsNull a")
      case True
      then show ?thesis using v ne k(3) range that by (cases m) auto
    next
      case False
      then show ?thesis using v ne True k(6) range that by (cases m) auto
    qed
  next
    case False
    then have it: "int_typed a" "int_typed b" using k(1,4) by auto
    have "x < y \<longleftrightarrow> int_key a < int_key b" "int_key a \<noteq> int_key b"
      using that k(2,5) False int_key_bounds [OF it(1)] int_key_bounds [OF it(2)] by (auto simp: min_def split: if_splits)
    then show ?thesis using compareValues_ints [OF it, of no m] False by (auto simp: cmp_Compare_def)
  qed
  show "compareValues no a b m = Inr 0" if "x = y" "x \<noteq> MaxInt64" "x \<noteq> MinInt64"
  proof -
    have n: "\<not> Value_IsNull a" "\<not> Value_IsNull b" using that k(3,6) by (auto split: if_splits)
    then have "int_key a = int_key b" using that k(2) [OF n(1)] k(5) [OF n(2)] by (auto simp: min_def split: if_splits)
    then show ?thesis using compareValues_ints [of a b no m] n k(1,4) by simp
  qed
qed

lemma native_keys_nth:
  "native_keys m vs = Inr ks \<Longrightarrow> length ks = length vs \<and> (\<forall>i<length vs. native_key m (vs ! i) = Inr (ks ! i))"
  by (induction vs arbitrary: ks) (auto simp: res_bind_Inr_iff nth_Cons split: nat.splits)

lemma native_keys_ok:
  "\<forall>v\<in>set vs. ID (v_typ v) \<notin> {4, 5} \<Longrightarrow> \<exists>ks. native_keys m vs = Inr ks"
proof (induction vs)
  case (Cons v vs)
  have "\<exists>k. native_key m v = Inr k"
    using Cons.prems by (cases "v_rep v") (auto simp: native_key_def Let_def Value_Int_def Value_Uint_def IsSigned_def)
  then show ?case using Cons by auto
qed simp

lemma index_less_Compare:
  assumes "native_keys (SortExpr_nullsMax k) (map (se_Eval k) vals) = Inr i64s" and "i < length vals" and "j < length vals"
    and "Comparator_Compare no (k # ks) (vals ! i) (vals ! j) = Inr r"
  shows "index_less no k ks vals i64s (map (se_Eval k) vals) i j = Inr (r < 0)"
proof -
  let ?m = "SortExpr_nullsMax k"
  obtain ii jj where ij: "(if se_Order k = Desc then (j, i) else (i, j)) = (ii, jj)" "ii < length vals" "jj < length vals" using assms(2,3) by (metis (full_types))
  let ?a = "se_Eval k (vals ! ii)" and ?b = "se_Eval k (vals ! jj)"
  have cmp: "res_bind (compareValues no ?a ?b ?m) (\<lambda>v. if v \<noteq> 0 then Inr v else Comparator_Compare no ks (vals ! i) (vals ! j)) = Inr r"
    using assms(4) ij(1) by (auto simp: Let_def split: if_splits)
  note n = native_keys_nth [OF assms(1)]
  have key: "native_key ?m (se_Eval k (vals ! l)) = Inr (Some (the (i64s ! l)))" if "None \<notin> set i64s" "l < length vals" for l
  proof -
    have "i64s ! l \<in> set i64s" using n that by simp
    then show ?thesis using that n by (metis length_map nth_map option.collapse)
  qed
  show ?thesis
  proof (cases "None \<notin> set i64s")
    case True
    note l = native_less [OF key [OF True ij(2)] key [OF True ij(3)], of no]
    show ?thesis
      using l cmp ij True by (auto simp: index_less_def Let_def less_exprs_Compare res_bind_Inr_iff split: if_splits)
  next
    case False
    then show ?thesis using cmp ij by (auto simp: index_less_def Let_def less_exprs_Compare res_bind_Inr_iff split: if_splits)
  qed
qed


lemma sortStableIndices_Compare:
  assumes "length vals \<le> 2 ^ 32 - 1" and "\<forall>v\<in>set vals. ID (v_typ (se_Eval k v)) \<notin> {4, 5}"
    and "\<And>a b. a \<in> set vals \<Longrightarrow> b \<in> set vals \<Longrightarrow> Comparator_Compare no (k # ks) a b = Inr (cmp a b)"
  shows "sortStableIndices no (k # ks) vals = Inr (sort_stable (\<lambda>i j. cmp (vals ! i) (vals ! j) < 0) [0..<length vals])"
proof -
  obtain i64s where n: "native_keys (SortExpr_nullsMax k) (map (se_Eval k) vals) = Inr i64s"
    using native_keys_ok [of "map (se_Eval k) vals"] assms(2) by auto
  have "sort_stable_m (index_less no k ks vals i64s (map (se_Eval k) vals)) [] [0..<length vals] =
      Inr (rev (foldl (\<lambda>p x. ins_left (\<lambda>i j. cmp (vals ! i) (vals ! j) < 0) x p) [] [0..<length vals]))"
    by (rule sort_stable_m_pure) (auto intro!: index_less_Compare [OF n] assms(3))
  then show ?thesis using assms(1) n by (simp add: sortStableIndices_def Let_def sort_stable_def)
qed

lemma SortStable_Compare:
  assumes "length vals \<le> 2 ^ 32 - 1" and "\<forall>v\<in>set vals. ID (v_typ (se_Eval k v)) \<notin> {4, 5}"
    and "\<And>a b. a \<in> set vals \<Longrightarrow> b \<in> set vals \<Longrightarrow> Comparator_Compare no (k # ks) a b = Inr (cmp a b)"
  shows "SortStable no (k # ks) vals = Inr (sort_stable (\<lambda>a b. cmp a b < 0) vals)"
proof -
  let ?js = "sort_stable (\<lambda>i j. cmp (vals ! i) (vals ! j) < 0) [0..<length vals]"
  have "place_loop 0 ?js (replicate (length vals) Null) vals = take 0 vals @ map (nth vals) ?js"
    by (rule place_loop_map) (auto dest: arg_cong [of _ _ set])
  also have "\<dots> = sort_stable (\<lambda>a b. cmp a b < 0) (map (nth vals) [0..<length vals])"
    using sort_stable_map [of "nth vals" "\<lambda>a b. cmp a b < 0"] by simp
  finally show ?thesis using sortStableIndices_Compare [OF assms] by (simp add: SortStable_def map_nth)
qed

subsection \<open>The order\<close>

text \<open>Types of which no value has a float or a type in it, elements of arrays and sets included.\<close>

fun plain_type :: "ztype \<Rightarrow> bool" where
  "plain_type (TypePrim p) = (p \<notin> {TypeFloat16, TypeFloat32, TypeFloat64, TypeType})"
| "plain_type (TypeArray _ t) = plain_type t"
| "plain_type (TypeSet _ t) = plain_type t"
| "plain_type (TypeNamed _ _ t) = plain_type t"
| "plain_type _ = True"

lemma plain_under [simp]: "plain_type (TypeUnder t) = plain_type t"
  by (induction t) auto

lemma plain_inner: "plain_type t \<Longrightarrow> InnerType t = Some e \<Longrightarrow> plain_type e"
  using plain_under [of t] by (auto simp: InnerType_def simp del: plain_under split: ztype.splits)

lemma inner_known: "ids_ok c \<Longrightarrow> known c t \<Longrightarrow> InnerType t = Some e \<Longrightarrow> known c e"
  using known_under_parts(1) [of c t e] by (auto simp: InnerType_def split: ztype.splits)

lemma plain_ID:
  assumes "ids_ok c" and "known c t" and "plain_type t"
  shows "ID t \<le> 13 \<and> ID t \<notin> {4, 5} \<and> (\<exists>p. TypeUnder t = TypePrim p) \<or> 22 < ID t \<and> ID t \<noteq> prim_ID TypeType"
proof (cases "TypeUnder t")
  case (TypePrim p)
  then have "ID t = prim_ID p" "plain_type (TypePrim p)" using ID_under [of t] plain_under [of t] assms(3) by simp_all
  then show ?thesis using TypePrim by (cases p) auto
qed (use known_entry(2) [OF assms(1) known_TypeUnder [OF assms(1,2)]] TypeID_under [of t] in \<open>auto simp: IDTypeComplex_def\<close>)

lemma compare_elems_antisym:
  assumes "\<And>x y r. f x y = Inr r \<Longrightarrow> f y x = Inr (- r)"
  shows "compare_elems f a b = Inr r \<Longrightarrow> compare_elems f b a = Inr (- r)"
proof (induction "length a" arbitrary: a b r rule: less_induct)
  case less
  show ?case
  proof (cases "Iter_Done a \<or> Iter_Done b")
    case True
    then show ?thesis using less.prems by (auto simp: compare_elems.simps [of f a b] compare_elems.simps [of f b a] split: if_splits)
  next
    case False
    then obtain x a' y b' v where n: "Iter_Next a = Inr (x, a')" "Iter_Next b = Inr (y, b')" "f x y = Inr v"
      and r: "(if v \<noteq> 0 then Inr v else compare_elems f a' b') = Inr r"
      using less.prems by (auto simp: compare_elems.simps [of f a b] split: sum.splits prod.splits)
    have "compare_elems f b a = (if v \<noteq> 0 then Inr (- v) else compare_elems f b' a')"
      using False n assms [OF n(3)] by (simp add: compare_elems.simps [of f b a])
    then show ?thesis using r less.hyps [OF Iter_Next_shorter [OF n(1)]] by (auto split: if_splits)
  qed
qed

lemma compare_elems_tri:
  assumes "\<And>x y z p q r. f x y = Inr p \<Longrightarrow> f y z = Inr q \<Longrightarrow> f x z = Inr r \<Longrightarrow> tri p q r"
  shows "compare_elems f a b = Inr p \<Longrightarrow> compare_elems f b c = Inr q \<Longrightarrow> compare_elems f a c = Inr r \<Longrightarrow> tri p q r"
proof (induction "length a" arbitrary: a b c p q r rule: less_induct)
  case less
  show ?case
  proof (cases "Iter_Done a \<or> Iter_Done b \<or> Iter_Done c")
    case True
    then show ?thesis using less.prems
      by (auto simp: compare_elems.simps [of f a b] compare_elems.simps [of f a c] compare_elems.simps [of f b c] tri_def split: if_splits)
  next
    case False
    then obtain x a' y b' z c' u v w where n: "Iter_Next a = Inr (x, a')" "Iter_Next b = Inr (y, b')" "Iter_Next c = Inr (z, c')"
        "f x y = Inr u" "f y z = Inr v" "f x z = Inr w"
      and r: "(if u \<noteq> 0 then Inr u else compare_elems f a' b') = Inr p" "(if v \<noteq> 0 then Inr v else compare_elems f b' c') = Inr q"
        "(if w \<noteq> 0 then Inr w else compare_elems f a' c') = Inr r"
      using less.prems
      by (auto simp: compare_elems.simps [of f a b] compare_elems.simps [of f a c] compare_elems.simps [of f b c] split: sum.splits prod.splits)
    have "tri u v w" by (rule assms [OF n(4-6)])
    moreover have "tri p q r" if "u = 0" "v = 0" "w = 0"
      using less.hyps [OF Iter_Next_shorter [OF n(1)]] r that by simp
    ultimately show ?thesis using r by (auto simp: tri_def split: if_splits)
  qed
qed

lemma addr_Compare_antisym: "addr_Compare a b = - addr_Compare b a"
  using cmp_Compare_antisym [of "length a" "length b"] bytes_Compare_antisym [of a b] by (simp add: addr_Compare_def)

lemma tri_addr_Compare: "tri (addr_Compare a b) (addr_Compare b c) (addr_Compare a c)"
  using tri_lex [OF tri_cmp_Compare [of "length a" "length b" "length c"] tri_bytes_Compare [of a b c]]
  by (simp add: addr_Compare_def cong: if_cong)


text \<open>Values fall into classes, all integers into one and the others by their underlying type; the types decide between classes.\<close>

definition class_of :: "ztype \<Rightarrow> ztype" where
  "class_of t = (if ID t \<le> 13 then TypePrim TypeUint8 else TypeUnder t)"

lemma class_known: "ids_ok c \<Longrightarrow> known c t \<Longrightarrow> known c (class_of t)"
  using known_TypeUnder [of c t] by (simp add: class_of_def known_def)

lemma TypeUnder_idem_compare [simp]: "TypeUnder (TypeUnder t) = TypeUnder t"
  by (induction t) auto

lemma CompareTypes_class:
  assumes "ids_ok c" and "known c s" and "known c t" and "plain_type s" and "plain_type t" and "ID s \<noteq> ID t" and "\<not> (ID s \<le> 13 \<and> ID t \<le> 13)"
  shows "CompareTypes s t = CompareTypes (class_of s) (class_of t)"
proof -
  have u: "CompareTypes s t = CompareTypes (TypeUnder s) (TypeUnder t)" if "ID s \<noteq> ID t" for s t
    using CompareTypes_under_cong [of s "TypeUnder s" t] CompareTypes_under_cong [of t "TypeUnder t" "TypeUnder s"] that
      CompareTypes_antisym [of "TypeUnder s" t] CompareTypes_antisym [of "TypeUnder t" "TypeUnder s"] by (simp add: ID_under)
  have n: "CompareTypes (TypePrim p) (TypeUnder t) = CompareTypes (TypePrim TypeUint8) (TypeUnder t)"
    if "prim_ID p \<le> 13" "13 < ID t" for p t
  proof (cases "TypeUnder t")
    case (TypeNamed i n u)
    then show ?thesis using TypeUnder_not_named [of t] by blast
  qed (use that ID_under [of t] in \<open>simp_all add: CompareTypes.simps [of "TypePrim p"] CompareTypes.simps [of "TypePrim TypeUint8"] cmp_Compare_def\<close>)
  have p: "\<exists>p. TypeUnder t = TypePrim p \<and> prim_ID p \<le> 13" if h: "known c t" "plain_type t" "ID t \<le> 13" for t
  proof -
    obtain p where "TypeUnder t = TypePrim p" using plain_ID [OF assms(1) h(1,2)] h(3) by auto
    then show ?thesis using ID_under [of t] h(3) by auto
  qed
  consider "ID s \<le> 13" "13 < ID t" | "13 < ID s" "ID t \<le> 13" | "13 < ID s" "13 < ID t" using assms(7) by linarith
  then show ?thesis
  proof cases
    case 1
    then obtain q where q: "TypeUnder s = TypePrim q" "prim_ID q \<le> 13" using p [OF assms(2,4)] by blast
    then have "CompareTypes (TypePrim q) (TypeUnder t) = CompareTypes (TypePrim TypeUint8) (TypeUnder t)" using n 1 by blast
    then show ?thesis using 1 q u [OF assms(6)] by (simp add: class_of_def)
  next
    case 2
    then obtain q where q: "TypeUnder t = TypePrim q" "prim_ID q \<le> 13" using p [OF assms(3,5)] by blast
    then have "CompareTypes (TypePrim q) (TypeUnder s) = CompareTypes (TypePrim TypeUint8) (TypeUnder s)" using n 2 by blast
    then show ?thesis using 2 q u [OF assms(6)] CompareTypes_antisym [of "TypeUnder s" "TypePrim q"]
        CompareTypes_antisym [of "TypeUnder s" "TypePrim TypeUint8"] by (simp add: class_of_def)
  next
    case 3
    then show ?thesis using u [OF assms(6)] by (simp add: class_of_def)
  qed
qed

text \<open>Within a class of values that are not integers: what is read of a value, and how it is compared.\<close>

definition pay_read :: "num_ops \<Rightarrow> zvalue \<Rightarrow> value_panic + bytes" where
  "pay_read no v = (if ID (v_typ v) = prim_ID TypeBool then res_bind (Value_Bool v) (\<lambda>b. Inr [if b then 1 else 0])
     else res_bind (Value_Bytes (no_floats no) v) (\<lambda>b. if ID (v_typ v) = prim_ID TypeIP then lift_p (DecodeIP b) else Inr (slice_bytes b)))"

definition pay_compare :: "num_ops \<Rightarrow> bool \<Rightarrow> ztype \<Rightarrow> bytes \<Rightarrow> bytes \<Rightarrow> value_panic + int" where
  "pay_compare no m t x y = (if ID t = prim_ID TypeIP then Inr (addr_Compare x y)
     else case (if ID t \<le> 25 then None else InnerType t) of
       Some e \<Rightarrow> compare_elems (\<lambda>x y. compareValues no (NewValue e x) (NewValue e y) m) x y
     | None \<Rightarrow> Inr (bytes_Compare x y))"

lemma compareValues_same:
  assumes "ID (v_typ a) = ID (v_typ b)" and "22 < ID (v_typ a)" and "ID (v_typ a) \<noteq> prim_ID TypeType" and "\<not> Value_IsNull a" and "\<not> Value_IsNull b"
  shows "compareValues no a b m = Inr r \<longleftrightarrow>
    (\<exists>x y. pay_read no a = Inr x \<and> pay_read no b = Inr y \<and> pay_compare no m (v_typ a) x y = Inr r)"
proof -
  consider "ID (v_typ b) = 23" | "ID (v_typ b) = 26" | "ID (v_typ b) = 24 \<or> ID (v_typ b) = 25 \<or> 26 < ID (v_typ b) \<and> ID (v_typ b) \<noteq> 28"
    using assms(1-3) by fastforce
  then show ?thesis
  proof cases
    case 1
    have b: "bytes_Compare [if av then 1 else 0] [if bv then 1 else 0] = (if av = bv then 0 else if av then 1 else -1)" for av bv :: bool by auto
    have "compareValues no a b m = res_bind (Value_Bool a) (\<lambda>av. res_bind (Value_Bool b) (\<lambda>bv. Inr (if av = bv then 0 else if av then 1 else -1)))"
      by (subst compareValues.simps) (use 1 assms in \<open>simp add: Let_def IsNumber_def\<close>)
    then show ?thesis using 1 assms(1)
      by (cases "Value_Bool a"; cases "Value_Bool b") (simp_all add: pay_read_def pay_compare_def b del: bytes_Compare.simps)
  next
    case 2
    have "lift_p z = Inr x \<longleftrightarrow> z = Inr x" for z :: "prim_panic + bytes" and x by (cases z) auto
    then show ?thesis using 2 assms
      by (subst compareValues.simps) (auto simp: Let_def IsNumber_def pay_read_def pay_compare_def res_bind_Inr_iff)
  next
    case 3
    have "compareValues no a b m = res_bind (Value_Bytes (no_floats no) a) (\<lambda>x. res_bind (Value_Bytes (no_floats no) b) (\<lambda>y.
        pay_compare no m (v_typ a) (slice_bytes x) (slice_bytes y)))"
      by (subst compareValues.simps) (use 3 assms in \<open>auto simp: Let_def IsNumber_def pay_compare_def DecodeBytes_def DecodeString_def\<close>)
    then show ?thesis using 3 assms(1) by (auto simp: pay_read_def res_bind_Inr_iff)
  qed
qed

lemma pay_compare_antisym:
  assumes "\<And>e x y r. 25 < ID t \<Longrightarrow> InnerType t = Some e \<Longrightarrow> compareValues no (NewValue e x) (NewValue e y) m = Inr r \<Longrightarrow>
      compareValues no (NewValue e y) (NewValue e x) m = Inr (- r)" and "pay_compare no m t x y = Inr r"
  shows "pay_compare no m t y x = Inr (- r)"
proof (cases "ID t \<noteq> prim_ID TypeIP \<and> 25 < ID t \<and> InnerType t \<noteq> None")
  case True
  then obtain e where e: "InnerType t = Some e" "25 < ID t" "ID t \<noteq> 26" by auto
  have "compare_elems (\<lambda>x y. compareValues no (NewValue e x) (NewValue e y) m) y x = Inr (- r)"
    by (rule compare_elems_antisym) (use assms e in \<open>auto simp: pay_compare_def\<close>)
  then show ?thesis using e by (simp add: pay_compare_def)
next
  case False
  then show ?thesis using assms(2) bytes_Compare_antisym [of x y] addr_Compare_antisym [of x y]
    by (auto simp: pay_compare_def split: if_splits option.splits)
qed

lemma pay_compare_tri:
  assumes "\<And>e x y z p q r. 25 < ID t \<Longrightarrow> InnerType t = Some e \<Longrightarrow> compareValues no (NewValue e x) (NewValue e y) m = Inr p \<Longrightarrow>
      compareValues no (NewValue e y) (NewValue e z) m = Inr q \<Longrightarrow> compareValues no (NewValue e x) (NewValue e z) m = Inr r \<Longrightarrow> tri p q r"
    and "pay_compare no m t x y = Inr p" and "pay_compare no m t y z = Inr q" and "pay_compare no m t x z = Inr r"
  shows "tri p q r"
proof (cases "ID t \<noteq> prim_ID TypeIP \<and> 25 < ID t \<and> InnerType t \<noteq> None")
  case True
  then obtain e where e: "InnerType t = Some e" "25 < ID t" "ID t \<noteq> 26" by auto
  show ?thesis
    by (rule compare_elems_tri [of "\<lambda>x y. compareValues no (NewValue e x) (NewValue e y) m"])
      (use assms e in \<open>auto simp: pay_compare_def\<close>)
next
  case False
  then show ?thesis using assms(2-4) tri_bytes_Compare [of x y z] tri_addr_Compare [of x y z]
    by (auto simp: pay_compare_def split: if_splits option.splits)
qed

definition key_ok :: "tcontext \<Rightarrow> zvalue \<Rightarrow> bool" where
  "key_ok c v \<longleftrightarrow> known c (v_typ v) \<and> plain_type (v_typ v)"

lemma key_ok_elem: "ids_ok c \<Longrightarrow> key_ok c v \<Longrightarrow> InnerType (v_typ v) = Some e \<Longrightarrow> key_ok c (NewValue e b)"
  using inner_known [of c "v_typ v" e] plain_inner [of "v_typ v" e] by (simp add: key_ok_def NewValue_def)

lemma key_ok_ID: "ids_ok c \<Longrightarrow> key_ok c v \<Longrightarrow> int_typed v \<or> 22 < ID (v_typ v) \<and> ID (v_typ v) \<noteq> prim_ID TypeType"
  using plain_ID [of c "v_typ v"] by (auto simp: key_ok_def int_typed_def)

lemma same_inner: "ids_ok c \<Longrightarrow> key_ok c a \<Longrightarrow> key_ok c b \<Longrightarrow> ID (v_typ a) = ID (v_typ b) \<Longrightarrow> InnerType (v_typ a) = InnerType (v_typ b)"
  using same_ID_under [of c "v_typ a" "v_typ b"] by (simp add: key_ok_def InnerType_def)

lemma compareValues_types:
  assumes "ids_ok c" and "key_ok c a" and "key_ok c b" and "\<not> Value_IsNull a" and "\<not> Value_IsNull b"
    and "class_of (v_typ a) \<noteq> class_of (v_typ b)"
  shows "compareValues no a b m = Inr (CompareTypes (class_of (v_typ a)) (class_of (v_typ b)))"
proof -
  have d: "ID (v_typ a) \<noteq> ID (v_typ b)" "\<not> (ID (v_typ a) \<le> 13 \<and> ID (v_typ b) \<le> 13)"
    using assms(2,3,6) same_ID_under [OF assms(1), of "v_typ a" "v_typ b"]
    by (cases "ID (v_typ b) \<le> 13"; auto simp: class_of_def key_ok_def)+
  have "\<not> (IsNumber (int (ID (v_typ a))) \<and> IsNumber (int (ID (v_typ b))))"
    using d key_ok_ID [OF assms(1,2)] key_ok_ID [OF assms(1,3)] by (auto simp: IsNumber_def int_typed_def)
  then show ?thesis using assms(4,5) d CompareTypes_class [OF assms(1), of "v_typ a" "v_typ b"] assms(2,3)
    by (subst compareValues.simps) (auto simp: Let_def key_ok_def)
qed

lemma class_cases:
  assumes "ids_ok c" and "key_ok c a" and "key_ok c b" and "class_of (v_typ a) = class_of (v_typ b)"
  obtains "int_typed a" "int_typed b" | "ID (v_typ a) = ID (v_typ b)" "22 < ID (v_typ a)" "ID (v_typ a) \<noteq> prim_ID TypeType"
proof -
  have "ID (class_of t) = (if ID t \<le> 13 then 0 else ID t)" for t by (simp add: class_of_def ID_under)
  then have "(if ID (v_typ a) \<le> 13 then 0 else ID (v_typ a)) = (if ID (v_typ b) \<le> 13 then 0 else ID (v_typ b))" using assms(4) by metis
  then show ?thesis using that key_ok_ID [OF assms(1,2)] key_ok_ID [OF assms(1,3)] by (auto simp: int_typed_def split: if_splits)
qed

lemma compareValues_antisym:
  assumes "ids_ok c"
  shows "key_ok c a \<Longrightarrow> key_ok c b \<Longrightarrow> compareValues no a b m = Inr r \<Longrightarrow> compareValues no b a m = Inr (- r)"
proof (induction "size (v_typ a)" arbitrary: a b r rule: less_induct)
  case less
  show ?case
  proof (cases "Value_IsNull a \<or> Value_IsNull b")
    case True
    then show ?thesis using less.prems(3) compareValues_null [of a b no m] compareValues_null [of b a no m] by (auto split: if_splits)
  next
    case nn: False
    show ?thesis
    proof (cases "class_of (v_typ a) = class_of (v_typ b)")
      case False
      then show ?thesis using compareValues_types [OF assms less.prems(1,2)] compareValues_types [OF assms less.prems(2,1)] nn less.prems(3)
          CompareTypes_antisym [of "class_of (v_typ a)"] by auto
    next
      case True
      show ?thesis
      proof (cases rule: class_cases [OF assms less.prems(1,2) True])
        case 1
        then show ?thesis using nn less.prems(3) compareValues_ints [of a b no m] compareValues_ints [of b a no m]
            cmp_Compare_antisym [of "int_key a"] by auto
      next
        case 2
        have t: "pay_compare no m (v_typ b) = pay_compare no m (v_typ a)"
          using same_inner [OF assms less.prems(1,2) 2(1)] 2(1) by (simp add: pay_compare_def fun_eq_iff)
        have "pay_compare no m (v_typ a) x y = Inr r \<Longrightarrow> pay_compare no m (v_typ a) y x = Inr (- r)" for x y
          by (rule pay_compare_antisym, rule less.hyps)
            (use InnerType_smaller key_ok_elem [OF assms less.prems(1)] in \<open>auto simp: NewValue_def\<close>)
        then show ?thesis
          using less.prems(3) compareValues_same [OF 2] compareValues_same [of b a] 2 nn t by auto
      qed
    qed
  qed
qed

lemma compareValues_tri:
  assumes "ctx_inv c" and "unambiguous c"
  shows "key_ok c x \<Longrightarrow> key_ok c y \<Longrightarrow> key_ok c z \<Longrightarrow> compareValues no x y m = Inr p \<Longrightarrow> compareValues no y z m = Inr q \<Longrightarrow>
    compareValues no x z m = Inr r \<Longrightarrow> tri p q r"
proof (induction "size (v_typ x)" arbitrary: x y z p q r rule: less_induct)
  case less
  note ids = ctx_invD(1) [OF assms(1)]
  show ?case
  proof (cases "Value_IsNull x \<or> Value_IsNull y \<or> Value_IsNull z")
    case True
    then show ?thesis using less.prems(4-6) compareValues_null [of x y no m] compareValues_null [of y z no m] compareValues_null [of x z no m]
      by (cases m) (auto simp: tri_def split: if_splits)
  next
    case nn: False
    let ?C = "\<lambda>v w. CompareTypes (class_of (v_typ v)) (class_of (v_typ w))"
    have kn: "known c (class_of (v_typ v))" if "key_ok c v" for v using that class_known [OF ids] by (simp add: key_ok_def)
    have cc: "u = (if ?C v w \<noteq> 0 then ?C v w else u)" if "key_ok c v" "key_ok c w" "compareValues no v w m = Inr u" "\<not> Value_IsNull v" "\<not> Value_IsNull w" for u v w
      using compareValues_types [OF ids that(1,2,4,5), of no m] that(3) CompareTypes_self by (cases "class_of (v_typ v) = class_of (v_typ w)") auto
    have "tri p q r" if z: "?C x y = 0" "?C y z = 0"
    proof -
      have cl: "class_of (v_typ x) = class_of (v_typ y)" "class_of (v_typ y) = class_of (v_typ z)"
        using z CompareTypes_eq_0 [OF assms kn kn] less.prems(1-3) by blast+
      show ?thesis
      proof (cases rule: class_cases [OF ids less.prems(1,2) cl(1)])
        case 1
        have "int_typed z"
          by (cases rule: class_cases [OF ids less.prems(2,3) cl(2)]) (use 1 in \<open>auto simp: int_typed_def\<close>)
        then show ?thesis using 1 nn less.prems(4-6) compareValues_ints tri_cmp_Compare by auto
      next
        case 2
        have z: "ID (v_typ z) = ID (v_typ y)"
          by (cases rule: class_cases [OF ids less.prems(2,3) cl(2)]) (use 2 in \<open>auto simp: int_typed_def\<close>)
        have t: "pay_compare no m (v_typ y) = pay_compare no m (v_typ x)"
          using same_inner [OF ids less.prems(1,2) 2(1)] 2(1) by (simp add: pay_compare_def fun_eq_iff)
        have "tri p q r" if "pay_compare no m (v_typ x) u v = Inr p" "pay_compare no m (v_typ x) v w = Inr q" "pay_compare no m (v_typ x) u w = Inr r" for u v w
          by (rule pay_compare_tri [OF _ that], rule less.hyps)
            (use InnerType_smaller key_ok_elem [OF ids less.prems(1)] in \<open>auto simp: NewValue_def\<close>)
        then show ?thesis
          using less.prems(4-6) compareValues_same [OF 2] compareValues_same [of y z no m q] compareValues_same [of x z no m r] 2 z nn t by auto
      qed
    qed
    then show ?thesis
      using tri_lex [OF CompareTypes_tri [OF assms kn kn kn, OF less.prems(1-3)], of p q r]
        cc [OF less.prems(1,2,4)] cc [OF less.prems(2,3,5)] cc [OF less.prems(1,3,6)] nn by simp
  qed
qed


subsection \<open>Comparators\<close>

definition keys_ok :: "tcontext \<Rightarrow> sortexpr list \<Rightarrow> zvalue \<Rightarrow> bool" where
  "keys_ok c ks v \<longleftrightarrow> (\<forall>k\<in>set ks. key_ok c (se_Eval k v))"

lemma Comparator_Compare_Cons:
  "Comparator_Compare no (k # ks) a b = Inr r \<longleftrightarrow>
   (\<exists>v. (if se_Order k = Desc then compareValues no (se_Eval k b) (se_Eval k a) (SortExpr_nullsMax k)
      else compareValues no (se_Eval k a) (se_Eval k b) (SortExpr_nullsMax k)) = Inr v \<and>
      (if v \<noteq> 0 then Inr v else Comparator_Compare no ks a b) = Inr r)"
  by (auto simp: Let_def res_bind_Inr_iff)

lemma Compare_antisym:
  assumes "ids_ok c"
  shows "keys_ok c ks a \<Longrightarrow> keys_ok c ks b \<Longrightarrow> Comparator_Compare no ks a b = Inr r \<Longrightarrow> Comparator_Compare no ks b a = Inr (- r)"
proof (induction ks arbitrary: r)
  case (Cons k ks)
  then have k: "key_ok c (se_Eval k a)" "key_ok c (se_Eval k b)" "keys_ok c ks a" "keys_ok c ks b" by (auto simp: keys_ok_def)
  note v = compareValues_antisym [OF assms]
  show ?case using Cons.prems(3) Cons.IH [OF k(3,4)] v [OF k(1,2)] v [OF k(2,1)]
    unfolding Comparator_Compare_Cons by (fastforce split: if_splits)
qed simp

lemma Compare_tri:
  assumes "ctx_inv c" and "unambiguous c"
  shows "keys_ok c ks x \<Longrightarrow> keys_ok c ks y \<Longrightarrow> keys_ok c ks z \<Longrightarrow> Comparator_Compare no ks x y = Inr p \<Longrightarrow>
    Comparator_Compare no ks y z = Inr q \<Longrightarrow> Comparator_Compare no ks x z = Inr r \<Longrightarrow> tri p q r"
proof (induction ks arbitrary: p q r)
  case (Cons k ks)
  let ?m = "SortExpr_nullsMax k"
  have k: "key_ok c (se_Eval k x)" "key_ok c (se_Eval k y)" "key_ok c (se_Eval k z)" "keys_ok c ks x" "keys_ok c ks y" "keys_ok c ks z"
    using Cons.prems by (auto simp: keys_ok_def)
  define C where "C a b = (if se_Order k = Desc then compareValues no (se_Eval k b) (se_Eval k a) ?m else compareValues no (se_Eval k a) (se_Eval k b) ?m)" for a b
  obtain u v w where c: "C x y = Inr u" "C y z = Inr v" "C x z = Inr w"
    and r: "(if u \<noteq> 0 then Inr u else Comparator_Compare no ks x y) = Inr p" "(if v \<noteq> 0 then Inr v else Comparator_Compare no ks y z) = Inr q"
      "(if w \<noteq> 0 then Inr w else Comparator_Compare no ks x z) = Inr r"
    using Cons.prems(4-6) unfolding Comparator_Compare_Cons C_def by blast
  have "tri u v w"
  proof (cases "se_Order k = Desc")
    case True
    then have "tri v u w" using compareValues_tri [OF assms k(3,2,1)] c by (simp add: C_def)
    then show ?thesis by (auto simp: tri_def)
  next
    case False
    then show ?thesis using compareValues_tri [OF assms k(1,2,3)] c by (simp add: C_def)
  qed
  moreover have "tri p q r" if "u = 0" "v = 0" "w = 0" using Cons.IH [OF k(4-6)] r that by simp
  ultimately show ?case using r by (auto simp: tri_def split: if_splits)
qed (simp add: tri_def)

lemma Compare_swo:
  assumes "ctx_inv c" and "unambiguous c" and "\<And>v. v \<in> A \<Longrightarrow> keys_ok c ks v"
    and "\<And>a b. a \<in> A \<Longrightarrow> b \<in> A \<Longrightarrow> Comparator_Compare no ks a b = Inr (cmp a b)"
  shows "swo_on (\<lambda>a b. cmp a b < 0) A"
proof -
  have n: "cmp b a = - cmp a b" if "a \<in> A" "b \<in> A" for a b
    using Compare_antisym [OF ctx_invD(1) [OF assms(1)] assms(3) assms(3)] assms(4) that by (metis Inr_inject)
  have "tri (cmp a b) (cmp b d) (cmp a d)" if "a \<in> A" "b \<in> A" "d \<in> A" for a b d
    by (rule Compare_tri [OF assms(1,2) assms(3) assms(3) assms(3) assms(4) assms(4) assms(4)]) (use that in auto)
  then have "\<not> cmp a d < 0" if "a \<in> A" "b \<in> A" "d \<in> A" "\<not> cmp a b < 0" "\<not> cmp b d < 0" for a b d
    using that n [of a b] n [of b d] n [of a d] by (metis neg_le_0_iff_le not_less tri_def)
  then show ?thesis unfolding swo_on_def using n by (metis neg_less_0_iff_less order.asym)
qed

subsection \<open>Properties\<close>

text \<open>
  C18: sorting in memory gives the stable sort by \<open>Compare\<close>. Where comparing any two of the values does not
  panic, the shortcut that compares the first keys as machine integers, nulls and large unsigned integers being put
  at the ends of the range, and the moving of the values in place change nothing: \<open>SortStable\<close> gives the values in
  the order in which a stable sort by \<open>Compare\<close> puts them, and the reader the same. When the keys have no floats and
  no types in them, the result is sorted.
\<close>

theorem sort_stable_by_compare:
  assumes "length vals \<le> 2 ^ 32 - 1" and "\<forall>v\<in>set vals. ID (v_typ (se_Eval k v)) \<notin> {4, 5}"
    and "\<forall>a\<in>set vals. \<forall>b\<in>set vals. Comparator_Compare no (k # ks) a b = Inr (cmp a b)"
    and "ctx_reach c" and "unambiguous c"
  shows "SortStable no (k # ks) vals = Inr (sort_stable (\<lambda>a b. cmp a b < 0) vals) \<and>
    (\<exists>js. SortStableReader no (k # ks) vals = Inr (js, vals) \<and> map (nth vals) js = sort_stable (\<lambda>a b. cmp a b < 0) vals) \<and>
    ((\<forall>v\<in>set vals. keys_ok c (k # ks) v) \<longrightarrow> sorted_wrt (\<lambda>a b. cmp a b \<le> 0) (sort_stable (\<lambda>a b. cmp a b < 0) vals))"
proof (intro conjI impI)
  show "SortStable no (k # ks) vals = Inr (sort_stable (\<lambda>a b. cmp a b < 0) vals)"
    by (rule SortStable_Compare) (use assms in auto)
  show "\<exists>js. SortStableReader no (k # ks) vals = Inr (js, vals) \<and> map (nth vals) js = sort_stable (\<lambda>a b. cmp a b < 0) vals"
    using sortStableIndices_Compare [OF assms(1,2), of no ks cmp] assms(3) sort_stable_map [of "nth vals" "\<lambda>a b. cmp a b < 0" "[0..<length vals]"]
    by (auto simp: SortStableReader_def map_nth)
  assume ok: "\<forall>v\<in>set vals. keys_ok c (k # ks) v"
  note inv = ctx_reach_inv [OF assms(4)]
  have "sorted_wrt (\<lambda>a b. \<not> cmp b a < 0) (sort_stable (\<lambda>a b. cmp a b < 0) vals)"
    by (rule sorted_sort_stable [OF Compare_swo [OF inv assms(5), where A = "set vals" and ks = "k # ks" and no = no]])
      (use ok assms(3) in \<open>auto simp del: Comparator_Compare.simps\<close>)
  then show "sorted_wrt (\<lambda>a b. cmp a b \<le> 0) (sort_stable (\<lambda>a b. cmp a b < 0) vals)"
  proof (rule sorted_wrt_mono_rel [rotated])
    fix a b assume "a \<in> set (sort_stable (\<lambda>a b. cmp a b < 0) vals)" "b \<in> set (sort_stable (\<lambda>a b. cmp a b < 0) vals)" "\<not> cmp b a < 0"
    then show "cmp a b \<le> 0"
      using Compare_antisym [OF ctx_invD(1) [OF inv], of "k # ks" a b no] ok assms(3) by (metis Inr_inject linorder_not_le neg_less_0_iff_less set_sort_stable)
  qed
qed

text \<open>Conversions that are right where they are used here.\<close>

definition demo_nums :: num_ops where
  "demo_nums = \<lparr>no_floats = \<lparr>float64_of_32 = ucast, float32_of_64 = ucast, Fromfloat32 = ucast, Float32 = ucast\<rparr>,
     of_int64 = (\<lambda>w. if w = 2 ^ 53 \<or> w = 2 ^ 53 + 1 then 0x4340000000000000 else 0), of_uint64 = (\<lambda>w. 0)\<rparr>"

definition demo_vals :: "zvalue list" where
  "demo_vals = [NewValue (TypePrim TypeInt64) None, NewUint64 (2 ^ 63), NewInt64 3, NewInt64 (- 1)]"

definition demo_key :: sortexpr where
  "demo_key = NewSortExpr (\<lambda>v. v) Asc NullsLast"

definition demo_cmp :: "zvalue \<Rightarrow> zvalue \<Rightarrow> int" where
  "demo_cmp a b = (if Value_IsNull a \<or> Value_IsNull b then if Value_IsNull a \<and> Value_IsNull b then 0 else if Value_IsNull a then 1 else -1
     else cmp_Compare (int_key a) (int_key b))"

lemma demo_compare:
  "a \<in> set demo_vals \<Longrightarrow> b \<in> set demo_vals \<Longrightarrow> Comparator_Compare demo_nums [demo_key] a b = Inr (demo_cmp a b)"
proof -
  have i: "v \<in> set demo_vals \<Longrightarrow> int_typed v" for v
    by (auto simp: demo_vals_def NewValue_def NewUint64_def NewInt64_def newNativeValue_def int_typed_def)
  assume "a \<in> set demo_vals" "b \<in> set demo_vals"
  then show ?thesis using compareValues_null [of a b demo_nums True] compareValues_ints [of a b demo_nums True] i
    by (auto simp: demo_cmp_def demo_key_def NewSortExpr_def SortExpr_nullsMax_def)
qed

theorem sort_stable_by_compare_witness:
  "SortStable demo_nums [demo_key] demo_vals = Inr [NewInt64 (- 1), NewInt64 3, NewUint64 (2 ^ 63), NewValue (TypePrim TypeInt64) None]"
proof -
  have "\<forall>v\<in>set demo_vals. ID (v_typ (se_Eval demo_key v)) \<notin> {4, 5}" "length demo_vals \<le> 2 ^ 32 - 1"
    by (simp_all add: demo_vals_def demo_key_def NewSortExpr_def NewValue_def NewUint64_def NewInt64_def newNativeValue_def)
  then have "SortStable demo_nums [demo_key] demo_vals = Inr (sort_stable (\<lambda>a b. demo_cmp a b < 0) demo_vals)"
    using sort_stable_by_compare [OF _ _ _ reach_new unambiguous_New] demo_compare by blast
  also have "sort_stable (\<lambda>a b. demo_cmp a b < 0) demo_vals = [NewInt64 (- 1), NewInt64 3, NewUint64 (2 ^ 63), NewValue (TypePrim TypeInt64) None]"
    by (simp add: sort_stable_def demo_vals_def demo_cmp_def cmp_Compare_def int_key_def NewValue_def NewUint64_def NewInt64_def newNativeValue_def
        Value_IsNull_def Value_Int_def Value_Uint_def IsSigned_def)
  finally show ?thesis .
qed

text \<open>
  C36: with integers and floats together the comparison is not transitive. The two integers \<open>2 ^ 53\<close> and \<open>2 ^ 53 + 1\<close> convert to
  the same float and are each equal to it, but not to each other; and sorting the larger integer, the float and
  the smaller integer leaves them in this order.
\<close>

theorem mixed_numbers_not_transitive:
  assumes "of_int64 no (2 ^ 53) = f" and "of_int64 no (2 ^ 53 + 1) = f"
  shows "compareValues no (NewInt64 (2 ^ 53 + 1)) (NewFloat64 f) m = Inr 0 \<and> compareValues no (NewFloat64 f) (NewInt64 (2 ^ 53)) m = Inr 0 \<and>
    compareValues no (NewInt64 (2 ^ 53 + 1)) (NewInt64 (2 ^ 53)) m = Inr 1 \<and>
    SortStable no [NewSortExpr (\<lambda>v. v) Asc NullsLast] [NewInt64 (2 ^ 53 + 1), NewFloat64 f, NewInt64 (2 ^ 53)] =
      Inr [NewInt64 (2 ^ 53 + 1), NewFloat64 f, NewInt64 (2 ^ 53)]"
proof -
  let ?a = "NewInt64 (2 ^ 53 + 1)" and ?f = "NewFloat64 f" and ?b = "NewInt64 (2 ^ 53)"
  note d = NewInt64_def NewFloat64_def newNativeValue_def Value_IsNull_def compareNumbers_def toFloat_def ToNumeric_float_def Under_def
    IsNumber_def IsFloat_def IsSigned_def IsUnsigned_def Value_Float_def Value_Int_def float_Compare_def
  have a: "of_int64 no 9007199254740993 = f" "of_int64 no 9007199254740992 = f" using assms by simp_all
  have c: "compareValues no ?a ?f n = Inr 0" "compareValues no ?f ?a n = Inr 0" "compareValues no ?f ?b n = Inr 0" "compareValues no ?b ?f n = Inr 0" for n
    by (subst compareValues.simps, simp add: d a Let_def)+
  have "compareValues no ?a ?b m = Inr 1" by (subst compareValues.simps) (simp add: d cmp_Compare_def Let_def)
  moreover have "native_keys True [?a, ?f, ?b] = Inr [Some (2 ^ 53 + 1), None, Some (2 ^ 53)]" by (simp add: native_key_def d Let_def)
  moreover have "[0..<3] = [0, 1, 2::nat]" by (simp add: upt_rec)
  ultimately show ?thesis
    using c by (simp add: SortStable_def sortStableIndices_def NewSortExpr_def SortExpr_nullsMax_def index_less_def Let_def numeral_3_eq_3 [symmetric])
qed


theorem mixed_numbers_not_transitive_witness:
  "compareValues demo_nums (NewInt64 (2 ^ 53 + 1)) (NewFloat64 0x4340000000000000) True = Inr 0 \<and>
   SortStable demo_nums [NewSortExpr (\<lambda>v. v) Asc NullsLast] [NewInt64 (2 ^ 53 + 1), NewFloat64 0x4340000000000000, NewInt64 (2 ^ 53)] =
     Inr [NewInt64 (2 ^ 53 + 1), NewFloat64 0x4340000000000000, NewInt64 (2 ^ 53)]"
  using mixed_numbers_not_transitive [of demo_nums "0x4340000000000000" True] by (simp add: demo_nums_def)

end
