(* ===== verification/Spill_Sort_Inv.thy ===== *)
theory Spill_Sort_Inv
  imports Spill_Sort Compare_Values_Inv
begin

text \<open>
  The merge of spilled runs is the stable sort of what was spilled, and the sort operator gives the stable sort of
  its input whatever the memory limit.
\<close>

locale spill_sort = spill_files fs rds A + comparison "c_Compare c" A
  for fs :: "('f, 'e) file_ops" and rds and A and c :: comparator +
  assumes sort_law: "set vs \<subseteq> A \<Longrightarrow> length vs < 2 ^ 32 \<Longrightarrow> c_SortStable c vs = sort_stable (cmp_less (c_Compare c)) vs"

text \<open>What the runs have left, by their ordinals.\<close>

definition run_holds :: "('f \<Rightarrow> bval list \<Rightarrow> bool) \<Rightarrow> (nat \<Rightarrow> bval list) \<Rightarrow> 'f run \<Rightarrow> bool" where
  "run_holds rds C p \<longleftrightarrow> (\<exists>v vs. C (ordinal p) = v # vs \<and> nextRecord p = Some v \<and> rds (run_file p) vs)"

definition runs_ok :: "comparator \<Rightarrow> bval set \<Rightarrow> ('f \<Rightarrow> bval list \<Rightarrow> bool) \<Rightarrow> (nat \<Rightarrow> bval list) \<Rightarrow> 'f mergesort \<Rightarrow> bool" where
  "runs_ok c A rds C r \<longleftrightarrow> is_heap (run_less c) (ms_runs r) \<and> distinct (map ordinal (ms_runs r)) \<and>
     (\<forall>p\<in>set (ms_runs r). run_holds rds C p) \<and> (\<forall>n. C n \<noteq> [] \<longleftrightarrow> n \<in> ordinal ` set (ms_runs r)) \<and>
     (\<forall>n. set (C n) \<subseteq> A \<and> sorted_wrt (\<lambda>a b. c_Compare c a b \<le> 0) (C n)) \<and> (\<forall>n\<ge>ms_nspill r. C n = [])"

definition run_values :: "(nat \<Rightarrow> bval list) \<Rightarrow> nat \<Rightarrow> bval list" where
  "run_values C n = concat (map C [0..<n])"

definition merges :: "comparator \<Rightarrow> bval set \<Rightarrow> ('f \<Rightarrow> bval list \<Rightarrow> bool) \<Rightarrow> 'f mergesort \<Rightarrow> bval list \<Rightarrow> bool" where
  "merges c A rds r vs \<longleftrightarrow> (\<exists>C. runs_ok c A rds C r \<and> vs = sort_stable (cmp_less (c_Compare c)) (run_values C (ms_nspill r)))"

lemma run_values_split:
  assumes "o' < n"
  shows "run_values C n = run_values C o' @ C o' @ concat (map C [Suc o'..<n])"
proof -
  have "[0..<n] = [0..<o'] @ o' # [Suc o'..<n]" using assms upt_add_eq_append [of 0 o' "n - o'"] by (simp add: upt_conv_Cons)
  then show ?thesis by (simp add: run_values_def)
qed

lemma run_values_upd:
  assumes "o' < n"
  shows "run_values (C(o' := x)) n = run_values C o' @ x @ concat (map C [Suc o'..<n])"
proof -
  have "map (C(o' := x)) [0..<o'] = map C [0..<o']" "map (C(o' := x)) [Suc o'..<n] = map C [Suc o'..<n]" by auto
  then show ?thesis using run_values_split [OF assms, of "C(o' := x)"] by (simp add: run_values_def)
qed

lemma heap_down_upd:
  "n < length xs \<Longrightarrow> fst (heap_down l n (xs[n := q]) i) = (fst (heap_down l n xs i))[n := q]"
proof (induction "n - i" arbitrary: xs i rule: less_induct)
  case less
  have lc: "i < n \<Longrightarrow> least_child l n (xs[n := q]) i = least_child l n xs i" for i by (auto simp: least_child_def Let_def)
  show ?case
  proof (cases rule: heap_down_cases [of l n xs i])
    case stop
    show ?thesis
    proof (cases "i < n")
      case True
      then show ?thesis using stop lc least_child_range [of i l n xs] less.prems
        by (subst heap_down.simps) (auto simp: Let_def)
    qed (subst (1 2) heap_down.simps, simp)
  next
    case (move j)
    have sw: "swap_at (xs[n := q]) i j = (swap_at xs i j)[n := q]"
      using move less.prems by (auto simp: swap_at_def list_update_swap)
    have "heap_down l n (xs[n := q]) i = heap_down l n (swap_at (xs[n := q]) i j) j"
      using move lc [of i] least_child_range [of i l n xs] by (subst heap_down.simps) (auto simp: Let_def up_index_def)
    then show ?thesis using less.hyps [of j "swap_at xs i j"] move less.prems sw by simp
  qed
qed

lemma heap_Pop_root:
  "\<exists>ys. heap_Pop l (p # ps) = Some (p, ys) \<and> heap_Pop l (q # ps) = Some (q, ys)"
proof -
  let ?n = "length ps" and ?z = "swap_at (p # ps) 0 (length ps)"
  have "swap_at (q # ps) 0 ?n = ?z[?n := q]" by (cases ps rule: rev_cases) (auto simp: swap_at_def nth_append)
  then have "fst (heap_down l ?n (swap_at (q # ps) 0 ?n) 0) = (fst (heap_down l ?n ?z 0))[?n := q]"
    using heap_down_upd [of ?n ?z l q 0] by simp
  then have "snd (the (heap_Pop l (q # ps))) = snd (the (heap_Pop l (p # ps)))" by (simp add: heap_Pop_def Let_def)
  then show ?thesis using heap_Pop_Cons [of l p ps] heap_Pop_Cons [of l q ps] by auto
qed

context spill_sort
begin

abbreviation lt :: "bval \<Rightarrow> bval \<Rightarrow> bool" where
  "lt \<equiv> cmp_less (c_Compare c)"

text \<open>On runs with records of \<open>A\<close>, and different ordinals or not, \<open>Less\<close> is a strict weak order.\<close>

lemma run_less_swo: "swo_on (run_less c) {p :: 'f run. \<exists>v\<in>A. nextRecord p = Some v}"
  unfolding swo_on_def
proof (intro conjI ballI impI)
  fix p q :: "'f run" assume "p \<in> {p. \<exists>v\<in>A. nextRecord p = Some v}" "q \<in> {p. \<exists>v\<in>A. nextRecord p = Some v}" "run_less c p q"
  moreover from this obtain x y where "nextRecord p = Some x" "nextRecord q = Some y" "x \<in> A" "y \<in> A" by auto
  ultimately show "\<not> run_less c q p" using cmp_swap [of x y] by (auto simp: run_less_def Let_def split: if_splits)
next
  fix p q r :: "'f run"
  assume "p \<in> {p. \<exists>v\<in>A. nextRecord p = Some v}" "q \<in> {p. \<exists>v\<in>A. nextRecord p = Some v}" "r \<in> {p. \<exists>v\<in>A. nextRecord p = Some v}"
    and n: "\<not> run_less c p q" "\<not> run_less c q r"
  then obtain x y z where x: "nextRecord p = Some x" "nextRecord q = Some y" "nextRecord r = Some z" "x \<in> A" "y \<in> A" "z \<in> A" by auto
  have sw: "c_Compare c y x = - c_Compare c x y" "c_Compare c z y = - c_Compare c y z" "c_Compare c z x = - c_Compare c x z"
    by (rule cmp_swap; fact)+
  have "c_Compare c y x \<le> 0" "c_Compare c z y \<le> 0" using n x sw by (auto simp: run_less_def Let_def split: if_splits)
  then have "c_Compare c z x \<le> 0" "c_Compare c z y < 0 \<Longrightarrow> c_Compare c z x < 0" "c_Compare c y x < 0 \<Longrightarrow> c_Compare c z x < 0"
    using cmp_trans [of z y x] less_trans [of z y x] le_less_trans [of z y x] x by auto
  then show "\<not> run_less c p r" using n x sw by (auto simp: run_less_def Let_def split: if_splits)
qed

lemma runs_in:
  assumes "runs_ok c A rds C r"
  shows "set (ms_runs r) \<subseteq> {p. \<exists>v\<in>A. nextRecord p = Some v}"
proof
  fix p assume "p \<in> set (ms_runs r)"
  then obtain v vs where "C (ordinal p) = v # vs" "nextRecord p = Some v" using assms unfolding runs_ok_def run_holds_def by blast
  moreover have "set (C (ordinal p)) \<subseteq> A" using assms by (simp add: runs_ok_def)
  ultimately show "p \<in> {p. \<exists>v\<in>A. nextRecord p = Some v}" by auto
qed

text \<open>The first run of the heap has the first value of the stable sort.\<close>

lemma least_first:
  assumes ok: "runs_ok c A rds C r" and p: "ms_runs r = p # ps" "C (ordinal p) = v # vs"
  shows "sort_stable lt (run_values C (ms_nspill r)) = v # sort_stable lt (run_values (C(ordinal p := vs)) (ms_nspill r))"
proof -
  let ?o = "ordinal p" and ?n = "ms_nspill r"
  have CA: "set (C n) \<subseteq> A" and Cs: "sorted_wrt (\<lambda>a b. c_Compare c a b \<le> 0) (C n)" for n using ok by (simp_all add: runs_ok_def)
  have v: "v \<in> A" "nextRecord p = Some v" using CA [of ?o] p ok by (auto simp: runs_ok_def run_holds_def)
  have o: "?o < ?n" using ok p(2) by (metis list.distinct(1) not_le runs_ok_def)
  have head: "c_Compare c v x \<le> 0 \<and> (m < ?o \<longrightarrow> c_Compare c v x < 0)" if "x \<in> set (C m)" "m \<noteq> ?o" for m x
  proof -
    obtain w ws where w: "C m = w # ws" using \<open>x \<in> set (C m)\<close> by (cases "C m") auto
    then obtain q where q: "q \<in> set (ms_runs r)" "ordinal q = m" using ok unfolding runs_ok_def by (metis image_iff list.distinct(1))
    then have nq: "nextRecord q = Some w" using ok w by (auto simp: runs_ok_def run_holds_def)
    obtain k where k: "k < length (ms_runs r)" "ms_runs r ! k = q" using q(1) by (metis in_set_conv_nth)
    have "is_heap (run_less c) (ms_runs r)" using ok by (simp add: runs_ok_def)
    from heap_least [OF run_less_swo runs_in [OF ok] this k(1)] have "\<not> run_less c q p" using k p by simp
    moreover have "w \<in> A" "x \<in> A" using CA [of m] w that by auto
    moreover have "c_Compare c w x \<le> 0" using Cs [of m] w that(1) cmp_self [OF \<open>w \<in> A\<close>] by auto
    ultimately show ?thesis
      using nq v q(2) \<open>m \<noteq> ?o\<close> cmp_swap [of v w] cmp_trans [of v w x] less_trans [of v w x] by (auto simp: run_less_def Let_def split: if_splits)
  qed
  have us: "\<forall>u\<in>set (run_values C ?o). lt v u" using head by (fastforce simp: run_values_def)
  have "\<not> lt w v" if w: "w \<in> set (vs @ concat (map C [Suc ?o..<?n]))" for w
  proof (cases "w \<in> set vs")
    case True
    then have "w \<in> A" "c_Compare c v w \<le> 0" using CA [of ?o] Cs [of ?o] p(2) by auto
    then show ?thesis using cmp_swap [of v w] v(1) by simp
  next
    case False
    then obtain m where m: "Suc ?o \<le> m" "w \<in> set (C m)" using w by auto
    then have "w \<in> A" "c_Compare c v w \<le> 0" using CA [of m] head [of w m] by auto
    then show ?thesis using cmp_swap [of v w] v(1) by simp
  qed
  then have "sort_stable lt (run_values C ?o @ v # (vs @ concat (map C [Suc ?o..<?n]))) = v # sort_stable lt (run_values C ?o @ (vs @ concat (map C [Suc ?o..<?n])))"
    using us by (intro sort_stable_first) auto
  then show ?thesis using run_values_split [OF o, of C] run_values_upd [OF o, of C vs] p(2) by simp
qed

text \<open>Replacing the first run by what is left of it keeps the invariant.\<close>

lemma runs_ok_step:
  assumes ok: "runs_ok c A rds C r" and p: "ms_runs r = p # ps" "C (ordinal p) = v # vs"
    and q: "ordinal q = ordinal p" "vs \<noteq> [] \<Longrightarrow> run_holds rds (C(ordinal p := vs)) q"
    and h: "is_heap (run_less c) hs" "mset hs = (if vs = [] then mset ps else mset (q # ps))"
  shows "runs_ok c A rds (C(ordinal p := vs)) (r\<lparr>ms_runs := hs\<rparr>)"
proof -
  let ?C = "C(ordinal p := vs)"
  have d: "ordinal p \<notin> ordinal ` set ps" "distinct (map ordinal ps)" using ok p(1) by (auto simp: runs_ok_def)
  have hset: "set hs = (if vs = [] then set ps else insert q (set ps))" using h(2) by (metis list.simps(15) set_mset_mset)
  have "mset (map ordinal hs) = mset (map ordinal (if vs = [] then ps else q # ps))" using h(2) by (simp split: if_splits)
  then have "distinct (map ordinal hs)" using d q(1) by (metis (full_types) distinct.simps(2) list.simps(9) list.set_map mset_eq_imp_distinct_iff)
  moreover have "run_holds rds ?C x" if "x \<in> set hs" for x
  proof (cases "x \<in> set ps")
    case True
    then have "ordinal x \<noteq> ordinal p" "run_holds rds C x" using d ok p(1) by (metis image_eqI, auto simp: runs_ok_def)
    then show ?thesis by (simp add: run_holds_def)
  qed (use that hset q(2) in \<open>auto split: if_splits\<close>)
  moreover have "?C n \<noteq> [] \<longleftrightarrow> n \<in> ordinal ` set hs" for n
    using ok p(1) d(1) hset q(1) by (auto simp: runs_ok_def)
  moreover have "set (?C n) \<subseteq> A \<and> sorted_wrt (\<lambda>a b. c_Compare c a b \<le> 0) (?C n)" for n
    using ok p(2) unfolding runs_ok_def by (metis (no_types, lifting) fun_upd_apply set_subset_Cons sorted_wrt.simps(2) subset_trans)
  moreover have "?C n = []" if "ms_nspill r \<le> n" for n using ok p(2) that by (auto simp: runs_ok_def)
  ultimately show ?thesis using h(1) by (simp add: runs_ok_def)
qed

lemma heap_rest: "is_heap l (p # ps) \<Longrightarrow> 0 < k \<Longrightarrow> k < length (q # ps) \<Longrightarrow> up_index k \<noteq> 0 \<Longrightarrow> \<not> l ((q # ps) ! k) ((q # ps) ! up_index k)"
  by (cases k; cases "up_index k") (auto simp: heap_from_def dest!: spec [of _ k])

lemma pop_first:
  assumes "runs_ok c A rds C r" "ms_runs r = p # ps"
  shows "is_heap (run_less c) (pop_run c (q # ps)) \<and> mset (pop_run c (q # ps)) = mset ps"
proof -
  have h: "is_heap (run_less c) (p # ps)" "set (p # ps) \<subseteq> {p. \<exists>v\<in>A. nextRecord p = Some v}"
    using assms runs_in [OF assms(1)] by (auto simp: runs_ok_def)
  obtain ys where "heap_Pop (run_less c) (p # ps) = Some ((p # ps) ! 0, ys)" "is_heap (run_less c) ys" "mset (p # ps) = add_mset ((p # ps) ! 0) (mset ys)"
    using heap_Pop_ok [OF run_less_swo h(2,1)] by blast
  then show ?thesis using heap_Pop_root [of "run_less c" p ps q] by (auto simp: pop_run_def)
qed

lemma fix_first:
  assumes "runs_ok c A rds C r" "ms_runs r = p # ps" "nextRecord q = Some v" "v \<in> A"
  shows "is_heap (run_less c) (heap_Fix (run_less c) (q # ps) 0) \<and> mset (heap_Fix (run_less c) (q # ps) 0) = mset (q # ps)"
proof -
  have "set (q # ps) \<subseteq> {p. \<exists>v\<in>A. nextRecord p = Some v}" "is_heap (run_less c) (p # ps)"
    using assms runs_in [OF assms(1)] by (auto simp: runs_ok_def)
  then show ?thesis using heap_Fix_0 [OF run_less_swo, of "q # ps"] heap_rest [of "run_less c" p ps _ q] by blast
qed

lemma merge_read:
  assumes "merges c A rds r vs"
  shows "\<exists>r'. MergeSort_Read c fs r = (r', Inr (case vs of [] \<Rightarrow> None | v # _ \<Rightarrow> Some v)) \<and> merges c A rds r' (tl vs)"
proof -
  obtain C where ok: "runs_ok c A rds C r" and vs: "vs = sort_stable lt (run_values C (ms_nspill r))" using assms by (auto simp: merges_def)
  show ?thesis
  proof (cases "ms_runs r")
    case Nil
    then have "run_values C n = []" for n using ok by (simp add: runs_ok_def run_values_def)
    then have "vs = []" using vs by simp
    then show ?thesis using assms Nil by (simp add: MergeSort_Read.simps)
  next
    case (Cons p ps)
    then obtain v ws where p: "C (ordinal p) = v # ws" "nextRecord p = Some v" "rds (run_file p) ws" using ok by (auto simp: runs_ok_def run_holds_def)
    have tl: "vs = v # sort_stable lt (run_values (C(ordinal p := ws)) (ms_nspill r))" using least_first [OF ok Cons p(1)] vs by simp
    have "\<exists>r'. MergeSort_Read c fs r = (r', Inr (Some v)) \<and> runs_ok c A rds (C(ordinal p := ws)) r' \<and> ms_nspill r' = ms_nspill r"
    proof (cases ws)
      case Nil
      obtain f where f: "fs_read fs (run_file p) = (f, Inr None)" "fs_remove fs f = None" using read_end p(3) Nil by blast
      let ?q = "p\<lparr>run_file := f, nextRecord := None\<rparr>"
      have "MergeSort_Read c fs r = (r\<lparr>ms_runs := pop_run c (?q # ps)\<rparr>, Inr (Some v))"
        using Cons p(2) f by (simp add: MergeSort_Read.simps [of c fs r] run_read_def)
      then show ?thesis using runs_ok_step [OF ok Cons p(1), of ?q "pop_run c (?q # ps)"] pop_first [OF ok Cons, of ?q] Nil by simp
    next
      case ws: (Cons w us)
      obtain f where f: "fs_read fs (run_file p) = (f, Inr (Some w))" "rds f us" using read_value p(3) ws by blast
      let ?q = "p\<lparr>run_file := f, nextRecord := Some w\<rparr>"
      have "MergeSort_Read c fs r = (r\<lparr>ms_runs := heap_Fix (run_less c) (?q # ps) 0\<rparr>, Inr (Some v))"
        using Cons p(2) f by (simp add: MergeSort_Read.simps [of c fs r] run_read_def)
      moreover have "set (C (ordinal p)) \<subseteq> A" using ok by (simp add: runs_ok_def)
      then have "w \<in> A" using p(1) ws by auto
      then have "runs_ok c A rds (C(ordinal p := ws)) (r\<lparr>ms_runs := heap_Fix (run_less c) (?q # ps) 0\<rparr>)"
        using runs_ok_step [OF ok Cons p(1), of ?q "heap_Fix (run_less c) (?q # ps) 0"] fix_first [OF ok Cons, of ?q w] ws f(2)
        by (simp add: run_holds_def)
      ultimately show ?thesis by simp
    qed
    then show ?thesis using tl by (auto simp: merges_def)
  qed
qed

lemma merge_reader: "list_reader (MergeSort_Read c fs) (merges c A rds)"
  by unfold_locales (rule merge_read)

lemma merges_new: "merges c A rds new_mergesort []"
  unfolding merges_def by (rule exI [of _ "\<lambda>_. []"]) (simp add: runs_ok_def new_mergesort_def run_values_def heap_from_def)

text \<open>A run of values, spilled.\<close>

lemma newPeeker_ok:
  assumes "set vs \<subseteq> A" "vs = w # ws"
  shows "\<exists>f. newPeeker fs n Array_Read vs = Some (Inr \<lparr>run_file = f, nextRecord = Some w, ordinal = n\<rparr>) \<and> rds f ws"
proof -
  obtain f f1 f2 where f: "fs_create fs n = Inr f" "write_all (fs_write fs) f vs = (f1, None)" "fs_rewind fs f1 = (f2, None)" "rds f2 vs"
    using written [OF assms(1)] by blast
  obtain r' where "zio_Copy (fs_write fs) Array_Read f vs = Some ((f1, r'), None)" using arr.copy_all [OF refl, of "fs_write fs" f vs] f(2) by auto
  moreover obtain f3 where "fs_read fs f2 = (f3, Inr (Some w))" "rds f3 ws" using read_value f(4) assms(2) by blast
  ultimately show ?thesis using f by (simp add: newPeeker_def)
qed

lemma spill_ok:
  assumes m: "merges c A rds r (sort_stable lt xs)" and vals: "set vals \<subseteq> A" "vals \<noteq> []" "length vals < 2 ^ 32"
  shows "\<exists>r'. Spill c fs vals r = Some (r', None) \<and> merges c A rds r' (sort_stable lt (xs @ vals))"
proof -
  obtain C where ok: "runs_ok c A rds C r" and xs: "sort_stable lt xs = sort_stable lt (run_values C (ms_nspill r))"
    using m by (auto simp: merges_def)
  let ?n = "ms_nspill r" and ?s = "sort_stable lt vals"
  obtain w ws where s: "?s = w # ws" using vals(2) by (metis length_0_conv length_sort_stable neq_Nil_conv)
  obtain f where f: "newPeeker fs ?n Array_Read ?s = Some (Inr \<lparr>run_file = f, nextRecord = Some w, ordinal = ?n\<rparr>)" "rds f ws"
    using newPeeker_ok [OF _ s, of ?n] vals(1) by auto
  obtain k where k: "fs_size fs f = Inr k" using sized [OF f(2)] by blast
  let ?p = "\<lparr>run_file = f, nextRecord = Some w, ordinal = ?n\<rparr>" and ?C = "C(?n := ?s)"
  have sA: "set ?s \<subseteq> A" using vals(1) by simp
  then have wA: "w \<in> A" unfolding s by simp
  have none: "\<not> list_ex (\<lambda>p. nextRecord p = None) (ms_runs r)" using runs_in [OF ok] by (auto simp: list_ex_iff)
  let ?h = "heap_Push (run_less c) ?p (ms_runs r)"
  have h: "is_heap (run_less c) ?h" "mset ?h = add_mset ?p (mset (ms_runs r))"
    using heap_Push_ok [OF run_less_swo, of ?p "ms_runs r"] runs_in [OF ok] ok wA by (auto simp: runs_ok_def)
  then have hset: "set ?h = insert ?p (set (ms_runs r))" by (metis set_mset_add_mset_insert set_mset_mset)
  let ?r = "r\<lparr>ms_nspill := ?n + 1, ms_spillSize := ms_spillSize r + k, ms_runs := ?h\<rparr>"
  have new: "?n \<notin> ordinal ` set (ms_runs r)" using ok unfolding runs_ok_def by (metis order_refl)
  have "distinct (map ordinal ?h)" using h(2) new ok
    by (metis distinct.simps(2) image_set list.simps(9) mset.simps(2) mset_map mset_eq_imp_distinct_iff run.select_convs(3) runs_ok_def)
  moreover have "run_holds rds ?C q" if "q \<in> set ?h" for q
  proof (cases "q \<in> set (ms_runs r)")
    case True
    then have "ordinal q \<noteq> ?n" "run_holds rds C q" using new ok by (metis image_eqI, auto simp: runs_ok_def)
    then show ?thesis by (simp add: run_holds_def)
  qed (use that hset s f(2) in \<open>auto simp: run_holds_def\<close>)
  moreover have "?C n \<noteq> [] \<longleftrightarrow> n \<in> ordinal ` set ?h" for n using ok hset s by (auto simp: runs_ok_def)
  moreover have "set (?C n) \<subseteq> A \<and> sorted_wrt (\<lambda>a b. c_Compare c a b \<le> 0) (?C n)" for n
    using ok sA sorted_by [OF vals(1)] by (simp add: runs_ok_def)
  moreover have "?C n = []" if "?n + 1 \<le> n" for n using ok that by (simp add: runs_ok_def)
  ultimately have r: "runs_ok c A rds ?C ?r" using h(1) by (simp add: runs_ok_def)
  have "run_values ?C (?n + 1) = run_values C ?n @ ?s" by (simp add: run_values_def)
  moreover have "set (run_values C ?n) \<subseteq> A" using ok by (auto simp: runs_ok_def run_values_def)
  then have "sort_stable lt (run_values C ?n @ ?s) = sort_stable lt (run_values C ?n @ vals)"
    using sort_stable_part [OF swo, of "run_values C ?n" vals "[]"] vals(1) by simp
  moreover have "sort_stable lt (run_values C ?n @ vals) = sort_stable lt (xs @ vals)" using xs by (simp add: sort_stable_def)
  ultimately have "merges c A rds ?r (sort_stable lt (xs @ vals))" using r unfolding merges_def by (intro exI [of _ ?C]) simp
  moreover have "Spill c fs vals r = Some (?r, None)" using f(1) k none sort_law [OF vals(1,3)] by (simp add: Spill_def Let_def)
  ultimately show ?thesis by blast
qed

end

subsection \<open>The operator\<close>

text \<open>The batches the operator makes of a stream; \<open>spills\<close> is whether the limit is reached, from so many bytes in hand.\<close>

fun spills :: "nat \<Rightarrow> nat \<Rightarrow> bval list list \<Rightarrow> bool" where
  "spills mem n [] \<longleftrightarrow> False"
| "spills mem n (b # bs) \<longleftrightarrow> n + nbytes b \<ge> mem \<or> spills mem (n + nbytes b) bs"

definition sorted_batches :: "('f, 'e) sort_env \<Rightarrow> comparator \<Rightarrow> bval list list \<Rightarrow> bval list list" where
  "sorted_batches env c bs = (let vs = sort_stable (cmp_less (c_Compare c)) (concat bs) in
     if spills (e_mem env) 0 bs then split_values (e_maxv env) vs else if vs = [] then [] else [vs])"

lemma concat_sorted_batches: "0 < e_maxv env \<Longrightarrow> concat (sorted_batches env c bs) = sort_stable (cmp_less (c_Compare c)) (concat bs)"
  by (simp add: sorted_batches_def Let_def split_values_batches)

definition stream_ok :: "bval set \<Rightarrow> bval list list \<Rightarrow> bool" where
  "stream_ok A bs \<longleftrightarrow> set (concat bs) \<subseteq> A \<and> length (concat bs) < 2 ^ 32"

text \<open>Between calls the operator is at the beginning of a stream, before its end, or within the merge.\<close>

definition sort_rep :: "('f, 'e) sort_env \<Rightarrow> comparator \<Rightarrow> bval set \<Rightarrow> ('f \<Rightarrow> bval list \<Rightarrow> bool) \<Rightarrow> ('s \<Rightarrow> bval list list list \<Rightarrow> bool) \<Rightarrow>
    'f sortop \<times> 's \<Rightarrow> bval list list list \<Rightarrow> bool" where
  "sort_rep env c A rds rep o' ss' \<longleftrightarrow> (\<exists>ss. rep (snd o') ss \<and> (\<forall>bs\<in>set ss. stream_ok A bs) \<and> so_comparator (fst o') \<in> {None, Some c} \<and>
     (case so_phase (fst o') of
        Reading \<Rightarrow> so_spiller (fst o') = None \<and> so_nbytes (fst o') = 0 \<and> so_out (fst o') = [] \<and> ss' = map (sorted_batches env c) ss
      | EndPending \<Rightarrow> ss' = [] # map (sorted_batches env c) ss
      | Sending p \<Rightarrow> so_comparator (fst o') = Some c \<and>
          (\<exists>vs. puller_left (merges c A rds) p vs \<and> ss' = split_values (e_maxv env) vs # map (sorted_batches env c) ss)))"

lemma next_batch_first: "next_batch (bs # ss) = next_batch (bs # ss')"
  by (cases bs) simp_all

locale sort_operator = puller_streams pull rep + spill_sort "e_files env" rds A c
  for pull :: "('s, 'e, bval) puller" and rep and env :: "('f, 'e) sort_env" and rds and A and c +
  assumes mkdir: "e_mkdir env = None" and mem: "0 < e_mem env" and one_comparator: "e_comparator env v = c"

context sort_operator
begin

text \<open>Within a stream: \<open>xs\<close> has been taken in, \<open>ys\<close> of it is in memory.\<close>

definition mid :: "bval list \<Rightarrow> bval list \<Rightarrow> 'f sortop \<Rightarrow> bool" where
  "mid xs ys o' \<longleftrightarrow> so_phase o' = Reading \<and> so_comparator o' \<in> {None, Some c} \<and> (xs @ ys \<noteq> [] \<longrightarrow> so_comparator o' = Some c) \<and>
     so_out o' = ys \<and> so_nbytes o' = nbytes ys \<and> nbytes ys < e_mem env \<and> set (xs @ ys) \<subseteq> A \<and>
     (case so_spiller o' of None \<Rightarrow> xs = [] | Some r \<Rightarrow> xs \<noteq> [] \<and> merges c A rds r (sort_stable lt xs))"

lemma take_batch:
  assumes m: "mid xs ys o'" and b: "set b \<subseteq> A" and l: "length (ys @ b) < 2 ^ 32"
  shows "\<exists>o'' xs' ys'. sort_take env b o' = Some (o'', None) \<and> mid xs' ys' o'' \<and> xs' @ ys' = xs @ ys @ b \<and>
    (xs' \<noteq> [] \<longleftrightarrow> xs \<noteq> [] \<or> nbytes (ys @ b) \<ge> e_mem env) \<and> (xs' = xs \<longrightarrow> ys' = ys @ b)"
proof -
  have nb: "sort_append (so_out o') b = (ys @ b, nbytes b)" "nbytes (ys @ b) = nbytes ys + nbytes b" using m by (simp_all add: sort_append_def mid_def nbytes_def)
  define cmp where "cmp = pick_comparator env (ys @ b) o'"
  have cmp: "cmp \<in> {None, Some c}" "xs @ ys @ b \<noteq> [] \<Longrightarrow> cmp = Some c"
    using m one_comparator by (auto simp: mid_def cmp_def pick_comparator_def split: list.splits option.splits)
  show ?thesis
  proof (cases "nbytes (ys @ b) < e_mem env")
    case True
    let ?o = "o'\<lparr>so_out := ys @ b, so_comparator := cmp, so_nbytes := nbytes (ys @ b)\<rparr>"
    have "sort_take env b o' = Some (?o, None)" using nb True m by (simp add: sort_take_def Let_def cmp_def [symmetric] mid_def)
    moreover have "mid xs (ys @ b) ?o" using m b cmp True by (auto simp: mid_def)
    ultimately show ?thesis using True by force
  next
    case False
    then have ne: "ys @ b \<noteq> []" using mem by (auto simp: nbytes_def)
    have "\<exists>r d. pick_spiller env (o'\<lparr>so_out := x, so_comparator := y, so_nbytes := z\<rparr>) = Inr (r, d) \<and> merges c A rds r (sort_stable lt xs)" for x y z
      using m mkdir merges_new by (cases "so_spiller o'") (auto simp: mid_def NewMergeSort_def pick_spiller_def)
    then obtain r d where r: "pick_spiller env (o'\<lparr>so_out := ys @ b, so_comparator := cmp, so_nbytes := nbytes (ys @ b)\<rparr>) = Inr (r, d)"
      "merges c A rds r (sort_stable lt xs)" by blast
    have yb: "set (ys @ b) \<subseteq> A" using m b by (auto simp: mid_def)
    obtain r' where r': "Spill c (e_files env) (ys @ b) r = Some (r', None)" "merges c A rds r' (sort_stable lt (xs @ ys @ b))"
      using spill_ok [OF r(2) yb ne l] by auto
    let ?o = "o'\<lparr>so_out := [], so_comparator := cmp, so_nbytes := 0, so_spiller := Some r', so_dirs := d\<rparr>"
    have "sort_take env b o' = Some (?o, None)" using nb False m r(1) r'(1) cmp(2) ne by (simp add: sort_take_def Let_def cmp_def [symmetric] mid_def)
    moreover have "mid (xs @ ys @ b) [] ?o" using m b cmp r'(2) ne mem by (auto simp: mid_def nbytes_def)
    ultimately show ?thesis using False ne by (intro exI [of _ ?o] exI [of _ "xs @ ys @ b"] exI [of _ "[]"]) auto
  qed
qed

abbreviation srep :: "'f sortop \<times> 's \<Rightarrow> bval list list list \<Rightarrow> bool" where
  "srep \<equiv> sort_rep env c A rds rep"

abbreviation sb :: "bval list list \<Rightarrow> bval list list" where
  "sb \<equiv> sorted_batches env c"

lemma send_next:
  assumes "puller_left (merges c A rds) p vs" "so_comparator o' = Some c" "rep s ss" "\<forall>bs\<in>set ss. stream_ok A bs"
  shows "\<exists>o''. sendSpills env p o' = Some (o'', Inr (next_batch [split_values (e_maxv env) vs])) \<and>
    srep (o'', s) (advance (split_values (e_maxv env) vs # map sb ss))"
proof (cases "vs = []")
  case True
  have "puller_Pull (e_maxv env) (MergeSort_Read c (e_files env)) False p = Some (None, Inr None)"
  proof (cases p)
    case (Some r)
    then show ?thesis using list_reader.read_next [OF merge_reader, of r "[]"] assms(1) True
      by (auto simp: puller_Pull_def fill_batch.simps newPullerBatch_def)
  qed (simp add: puller_Pull_def)
  then show ?thesis using True assms(2-4) by (auto simp: sendSpills_def sort_rep_def sort_reset_def)
next
  case False
  then obtain r where r: "p = Some r" "merges c A rds r vs" using assms(1) by (cases p) auto
  obtain p' where "fill_batch (e_maxv env) (MergeSort_Read c (e_files env)) r newPullerBatch =
      Some (p', Inr (Some (fst (fill_from (e_maxv env) newPullerBatch vs))))"
    "puller_left (merges c A rds) p' (snd (fill_from (e_maxv env) newPullerBatch vs))"
    using fill_batch_from [OF merge_reader r(2), of newPullerBatch "e_maxv env"] False by auto
  then show ?thesis using assms(2-4) r False by (auto simp: sendSpills_def puller_Pull_def split_values_Cons sort_rep_def)
qed

lemma end_next:
  assumes m: "mid xs ys o'" "length ys < 2 ^ 32" and s: "rep s ss" "\<forall>bs\<in>set ss. stream_ok A bs"
    and out: "out = (let vs = sort_stable lt (xs @ ys) in if xs \<noteq> [] then split_values (e_maxv env) vs else if vs = [] then [] else [vs])"
  shows "\<exists>o'' x. sort_end env o' = Some (o'', x) \<and> (case x of Some x \<Rightarrow> x = Inr (next_batch [out]) \<and> srep (o'', s) (advance (out # map sb ss))
     | None \<Rightarrow> (\<exists>p vs. so_phase o'' = Sending p \<and> so_comparator o'' = Some c \<and> puller_left (merges c A rds) p vs \<and> out = split_values (e_maxv env) vs))"
proof (cases "so_spiller o'")
  case None
  then have "xs = []" "set ys \<subseteq> A" using m(1) by (auto simp: mid_def)
  then show ?thesis using None m s out sort_law [of ys]
    by (cases "ys = []") (auto simp: sort_stable_Nil_iff sort_end_def mid_def sort_rep_def sort_reset_def Let_def)
next
  case (Some r)
  then have r: "xs \<noteq> []" "merges c A rds r (sort_stable lt xs)" "so_comparator o' = Some c" "so_out o' = ys" "set ys \<subseteq> A"
    using m(1) by (auto simp: mid_def)
  obtain r' where "(if length (so_out o') > 0 then Spill c (e_files env) (so_out o') r else Some (r, None)) = Some (r', None)"
    "merges c A rds r' (sort_stable lt (xs @ ys))"
    using spill_ok [OF r(2), of ys] r m(2) by (cases "ys = []") auto
  then show ?thesis using Some r out by (auto simp: sort_end_def Let_def)
qed

lemma run_reading:
  assumes "mid xs ys o'" "rep s ss" "\<forall>bs\<in>set ss. stream_ok A bs" "length (xs @ ys @ concat (first_stream ss)) < 2 ^ 32"
    and "out = (let vs = sort_stable lt (xs @ ys @ concat (first_stream ss)) in
      if xs \<noteq> [] \<or> spills (e_mem env) (nbytes ys) (first_stream ss) then split_values (e_maxv env) vs else if vs = [] then [] else [vs])"
  shows "\<exists>o''. sort_run env pull o' s = Some (o'', Inr (next_batch [out])) \<and> srep o'' (advance (out # map sb (tl ss)))"
  using assms
proof (induction "first_stream ss" arbitrary: xs ys o' s ss)
  case Nil
  have tl: "\<forall>bs\<in>set (tl ss). stream_ok A bs" using Nil.prems(3) by (cases ss) auto
  obtain s' where s': "pull False s = Some (s', Inr None)" "rep s' (tl ss)" using pull_last [OF Nil.prems(2)] Nil.hyps by auto
  obtain o1 x where o1: "sort_end env o' = Some (o1, x)" "case x of Some x \<Rightarrow> x = Inr (next_batch [out]) \<and> srep (o1, s') (advance (out # map sb (tl ss)))
     | None \<Rightarrow> (\<exists>p vs. so_phase o1 = Sending p \<and> so_comparator o1 = Some c \<and> puller_left (merges c A rds) p vs \<and> out = split_values (e_maxv env) vs)"
    using end_next [OF Nil.prems(1) _ s'(2) tl, of out] Nil.prems(4,5) Nil.hyps by auto
  have step: "sort_run env pull o' s = (case x of Some x \<Rightarrow> Some ((o1, s'), x) | None \<Rightarrow> sort_run env pull o1 s')"
    using Nil.prems(1) s' o1(1) by (simp add: sort_run.simps [of env pull o' s] mid_def split: option.splits)
  show ?case
  proof (cases x)
    case None
    then obtain p vs where p: "so_phase o1 = Sending p" "so_comparator o1 = Some c" "puller_left (merges c A rds) p vs" "out = split_values (e_maxv env) vs"
      using o1(2) by auto
    then show ?thesis using step None send_next [OF p(3,2) s'(2) tl] by (auto simp: sort_run.simps [of env pull o1 s'])
  qed (use step o1(2) in auto)
next
  case (Cons b bs)
  then obtain ss' where ss: "ss = (b # bs) # ss'" by (cases ss rule: first_stream.cases) auto
  obtain s' where s': "pull False s = Some (s', Inr (Some b))" "rep s' (bs # ss')" using pull_batch Cons.prems(2) ss by blast
  have bA: "set b \<subseteq> A" "\<forall>bs\<in>set (bs # ss'). stream_ok A bs" using Cons.prems(3) ss by (auto simp: stream_ok_def)
  obtain o1 xs' ys' where o1: "sort_take env b o' = Some (o1, None)" "mid xs' ys' o1" "xs' @ ys' = xs @ ys @ b"
    "xs' \<noteq> [] \<longleftrightarrow> xs \<noteq> [] \<or> nbytes (ys @ b) \<ge> e_mem env" "xs' = xs \<longrightarrow> ys' = ys @ b" using take_batch [OF Cons.prems(1) bA(1)] Cons.prems(4) ss by auto
  have nb: "nbytes (ys @ b) = nbytes ys + nbytes b" by (simp add: nbytes_def)
  have eq: "xs' @ ys' @ concat bs = xs @ ys @ b @ concat bs" using o1(3) by (metis append.assoc)
  have "xs' \<noteq> [] \<or> spills (e_mem env) (nbytes ys') bs \<longleftrightarrow> xs \<noteq> [] \<or> spills (e_mem env) (nbytes ys) (b # bs)"
    using o1(4,5) nb by (cases "xs = []"; cases "xs' = []") auto
  then have out: "out = (let vs = sort_stable lt (xs' @ ys' @ concat (first_stream (bs # ss'))) in
      if xs' \<noteq> [] \<or> spills (e_mem env) (nbytes ys') (first_stream (bs # ss')) then split_values (e_maxv env) vs else if vs = [] then [] else [vs])"
    using Cons.prems(5) ss by (simp add: eq)
  have l: "length (xs' @ ys' @ concat (first_stream (bs # ss'))) < 2 ^ 32" using Cons.prems(4) ss by (simp add: eq)
  have "sort_run env pull o' s = sort_run env pull o1 s'"
    using Cons.prems(1) s' o1(1) by (simp add: sort_run.simps [of env pull o' s] mid_def)
  then show ?case using Cons.hyps(1) [OF _ o1(2) s'(2) bA(2) l out] ss by simp
qed

lemma sort_next:
  assumes "srep o' ss"
  shows "\<exists>o''. sort_run env pull (fst o') (snd o') = Some (o'', Inr (next_batch ss)) \<and> srep o'' (advance ss)"
proof -
  obtain p s where o': "o' = (p, s)" by force
  obtain ps where ps: "rep s ps" "\<forall>bs\<in>set ps. stream_ok A bs" and r: "so_comparator p \<in> {None, Some c}"
    and ph: "case so_phase p of
        Reading \<Rightarrow> so_spiller p = None \<and> so_nbytes p = 0 \<and> so_out p = [] \<and> ss = map sb ps
      | EndPending \<Rightarrow> ss = [] # map sb ps
      | Sending q \<Rightarrow> so_comparator p = Some c \<and> (\<exists>vs. puller_left (merges c A rds) q vs \<and> ss = split_values (e_maxv env) vs # map sb ps)"
    using assms unfolding o' sort_rep_def fst_conv snd_conv by blast
  show ?thesis
  proof (cases "so_phase p")
    case Reading
    then have "mid [] [] p" using r ph mem by (auto simp: mid_def nbytes_def)
    moreover have "length (concat (first_stream ps)) < 2 ^ 32" using ps(2) by (cases ps) (auto simp: stream_ok_def)
    ultimately have "\<exists>o''. sort_run env pull p s = Some (o'', Inr (next_batch [sb (first_stream ps)])) \<and> srep o'' (advance (sb (first_stream ps) # map sb (tl ps)))"
      using run_reading [of "[]" "[]" p s ps] ps by (simp add: sorted_batches_def nbytes_def)
    then show ?thesis
      using o' Reading ph by (cases ps) (auto simp: sorted_batches_def intro: next_batch_first)
  next
    case EndPending
    then show ?thesis using o' ps r ph by (auto simp: sort_run.simps [of env pull p s] sort_rep_def sort_reset_def)
  next
    case (Sending q)
    then obtain vs where "puller_left (merges c A rds) q vs" "so_comparator p = Some c" "ss = split_values (e_maxv env) vs # map sb ps" using ph by auto
    with send_next [OF this(1,2) ps] Sending show ?thesis
      using o' by (cases "split_values (e_maxv env) vs") (auto simp: sort_run.simps [of env pull p s])
  qed
qed

lemma sort_done:
  assumes "srep o' ss"
  shows "\<exists>o''. sort_Pull env pull True o' = Some (o'', Inr None) \<and> srep o'' (tl ss)"
  using assms
proof (induction "length (first_stream ss)" arbitrary: o' ss)
  case 0
  obtain o'' where "sort_run env pull (fst o') (snd o') = Some (o'', Inr (next_batch ss))" "srep o'' (advance ss)" using sort_next [OF 0(2)] by blast
  then show ?case using 0(1) by (cases ss rule: advance.cases) (auto simp: sort_Pull.simps [of env pull True o'])
next
  case (Suc n)
  then obtain b bs ss' where ss: "ss = (b # bs) # ss'" by (cases ss rule: advance.cases) auto
  obtain o'' where o'': "sort_run env pull (fst o') (snd o') = Some (o'', Inr (Some b))" "srep o'' (bs # ss')" using sort_next [OF Suc.prems] ss by auto
  have "sort_Pull env pull True o' = sort_Pull env pull True o''" using o''(1) by (simp add: sort_Pull.simps [of env pull True o'])
  then show ?case using Suc.hyps(1) [OF _ o''(2)] Suc.hyps(2) ss by simp
qed

text \<open>The operator keeps the contract of pullers: its streams are the sorted streams of its parent.\<close>

lemma sort_contract: "puller_contract (sort_Pull env pull) srep"
proof unfold_locales
  fix o' ss assume o': "srep o' ss"
  obtain o'' where "sort_run env pull (fst o') (snd o') = Some (o'', Inr (next_batch ss))" "srep o'' (advance ss)" using sort_next [OF o'] by blast
  then show "\<exists>o''. sort_Pull env pull False o' = Some (o'', Inr (next_batch ss)) \<and> srep o'' (advance ss)"
    by (cases "next_batch ss") (auto simp: sort_Pull.simps [of env pull False o'])
qed (rule sort_done)

end

subsection \<open>The comparators of the runtime\<close>

text \<open>Values on which the comparator does not panic and whose keys have no floats and no types.\<close>

definition comparable :: "tcontext \<Rightarrow> num_ops \<Rightarrow> sortexpr list \<Rightarrow> bval set \<Rightarrow> bool" where
  "comparable cx no ks A \<longleftrightarrow> ks \<noteq> [] \<and> (\<forall>v\<in>A. keys_ok cx ks (raw_value v) \<and> ID (v_typ (se_Eval (hd ks) (raw_value v))) \<notin> {4, 5}) \<and>
     (\<forall>a\<in>A. \<forall>b\<in>A. \<exists>r. Comparator_Compare no ks (raw_value a) (raw_value b) = Inr r)"

lemma Comparator_of_Compare:
  "comparable cx no ks A \<Longrightarrow> a \<in> A \<Longrightarrow> b \<in> A \<Longrightarrow> Comparator_Compare no ks (raw_value a) (raw_value b) = Inr (c_Compare (Comparator_of no ks) a b)"
  by (fastforce simp: comparable_def Comparator_of_def)

lemma comparison_Comparator:
  assumes cx: "ctx_inv cx" "unambiguous cx" and ok: "comparable cx no ks A"
  shows "comparison (c_Compare (Comparator_of no ks)) A"
proof
  note cmp = Comparator_of_Compare [OF ok]
  have keys: "v \<in> A \<Longrightarrow> keys_ok cx ks (raw_value v)" for v using ok by (simp add: comparable_def)
  fix a b d assume a: "a \<in> A" "b \<in> A"
  then show "c_Compare (Comparator_of no ks) b a = - c_Compare (Comparator_of no ks) a b"
    using Compare_antisym [OF ctx_invD(1) [OF cx(1)] keys keys cmp] cmp by (metis Inr_inject)
  assume "d \<in> A" "c_Compare (Comparator_of no ks) a b \<le> 0" "c_Compare (Comparator_of no ks) b d \<le> 0"
  moreover have "tri (c_Compare (Comparator_of no ks) a b) (c_Compare (Comparator_of no ks) b d) (c_Compare (Comparator_of no ks) a d)"
    using Compare_tri [OF cx keys keys keys cmp cmp cmp] a \<open>d \<in> A\<close> by blast
  ultimately show "c_Compare (Comparator_of no ks) a d \<le> 0" by (simp add: tri_def)
qed

lemma SortStable_Comparator:
  assumes ok: "comparable cx no ks A" and vs: "set vs \<subseteq> A" "length vs < 2 ^ 32"
  shows "c_SortStable (Comparator_of no ks) vs = sort_stable (cmp_less (c_Compare (Comparator_of no ks))) vs"
proof -
  obtain k ks' where ks: "ks = k # ks'" using ok by (cases ks) (auto simp: comparable_def)
  let ?f = "\<lambda>i j. c_Compare (Comparator_of no ks) (vs ! i) (vs ! j) < 0" and ?cv = "\<lambda>a b. case Comparator_Compare no ks a b of Inr v \<Rightarrow> v | Inl _ \<Rightarrow> 0"
  have "sortStableIndices no (k # ks') (map raw_value vs) = Inr (sort_stable (\<lambda>i j. ?cv (map raw_value vs ! i) (map raw_value vs ! j) < 0) [0..<length (map raw_value vs)])"
  proof (rule sortStableIndices_Compare)
    fix a b assume "a \<in> set (map raw_value vs)" "b \<in> set (map raw_value vs)"
    then obtain x y where "a = raw_value x" "b = raw_value y" "x \<in> A" "y \<in> A" using vs(1) unfolding set_map by blast
    then show "Comparator_Compare no (k # ks') a b = Inr (?cv a b)" using Comparator_of_Compare [OF ok, of x y] ks by (simp del: Comparator_Compare.simps)
  qed (use ok vs ks in \<open>auto simp: comparable_def\<close>)
  moreover have "sort_stable (\<lambda>i j. ?cv (map raw_value vs ! i) (map raw_value vs ! j) < 0) [0..<length vs] = sort_stable ?f [0..<length vs]"
    by (rule sort_stable_cong) (simp add: Comparator_of_def)
  ultimately have "c_SortStable (Comparator_of no ks) vs = map ((!) vs) (sort_stable ?f [0..<length vs])"
    using ks by (simp add: Comparator_of_def)
  then show ?thesis using sort_stable_map [of "(!) vs" "cmp_less (c_Compare (Comparator_of no ks))" "[0..<length vs]"] by (simp add: map_nth)
qed

lemma spill_files_subset: "spill_files fs rds A \<Longrightarrow> B \<subseteq> A \<Longrightarrow> spill_files fs rds B"
  unfolding spill_files_def by blast

lemma spill_sort_Comparator:
  assumes "ctx_inv cx" "unambiguous cx" "comparable cx no ks A" "spill_files fs rds A"
  shows "spill_sort fs rds A (Comparator_of no ks)"
proof (rule spill_sort.intro)
  show "spill_files fs rds A" by (rule assms(4))
  show "comparison (c_Compare (Comparator_of no ks)) A" using comparison_Comparator [OF assms(1-3)] .
  show "spill_sort_axioms A (Comparator_of no ks)" by unfold_locales (rule SortStable_Comparator [OF assms(3)])
qed

text \<open>Integers of any type, with nulls, in their encoded form.\<close>

definition int_values :: "bval set" where
  "int_values = {v. fst v \<in> TypePrim ` {TypeInt8, TypeInt16, TypeInt32, TypeInt64, TypeUint8, TypeUint16, TypeUint32, TypeUint64} \<and> int (length (slice_bytes (snd v))) < 2 ^ 29}"

lemma int_values_spillable: "int_values \<subseteq> spillable"
  by (auto simp: int_values_def spillable_def)

lemma comparable_ints: "comparable NewContext no [demo_key] int_values"
proof -
  have i: "int_typed (raw_value v)" "keys_ok NewContext [demo_key] (raw_value v)" if "v \<in> int_values" for v
    using that by (auto simp: int_values_def int_typed_def raw_value_def NewValue_def keys_ok_def key_ok_def demo_key_def NewSortExpr_def)
  have "\<exists>r. Comparator_Compare no [demo_key] (raw_value a) (raw_value b) = Inr r" if "a \<in> int_values" "b \<in> int_values" for a b
    using compareValues_null [of "raw_value a" "raw_value b" no] compareValues_ints [OF i(1) i(1), of a b no] that
    by (cases "Value_IsNull (raw_value a) \<or> Value_IsNull (raw_value b)") (auto simp: demo_key_def NewSortExpr_def)
  then show ?thesis using i by (auto simp: comparable_def int_typed_def demo_key_def NewSortExpr_def)
qed

interpretation isort: spill_sort memory_files "file_reads memory_env" int_values "Comparator_of no [demo_key]" for no
  by (rule spill_sort_Comparator [OF ctx_inv_New unambiguous_New comparable_ints
      spill_files_subset [OF memf.spill_files_axioms int_values_spillable]])

definition memory_sort :: "nat \<Rightarrow> num_ops \<Rightarrow> sortexpr list \<Rightarrow> (bytes sfile, (unit, unit) file_error) sort_env" where
  "memory_sort mem no ks = \<lparr>e_files = memory_files, e_mkdir = None, e_mem = mem, e_maxv = PullerBatchValues, e_comparator = (\<lambda>_. Comparator_of no ks)\<rparr>"

interpretation isortop: sort_operator "puller_Pull maxv Array_Read" "puller_rep maxv (=)" "memory_sort (Suc mem) no [demo_key]" "file_reads memory_env" int_values
    "Comparator_of no [demo_key]" for maxv mem no
  by (intro sort_operator.intro sort_operator_axioms.intro arrp.puller_streams_axioms)
    (simp_all add: memory_sort_def isort.spill_sort_axioms)

subsection \<open>Properties\<close>

text \<open>
  C5: The external sort gives the stable sort of its input whatever the memory limit, for values that its spill files give back
  as they were written. The sort operator reads its input in any batches, spills sorted runs to files when
  the limit is reached and merges them with a heap; what it gives out is the stable sort of the input by
  the comparator, as one batch or in the batches of the merge, and then the end. The BSUP files of the spiller
  give back values of primitive types of less than half a gigabyte each, as the second part says; values of complex
  types come back with types of the merge's own context, and nothing is claimed of them here. The
  evaluators of the keys are functions of the value without state, the keys have no floats and no types, comparing
  them does not panic, no file operation fails, and there are fewer than \<open>2 ^ 32\<close> values. \<close>

theorem external_sort:
  assumes "ctx_inv cx" "unambiguous cx" "comparable cx no ks (set vs)" "length vs < 2 ^ 32" "0 < maxv"
    and env: "e_comparator env = (\<lambda>_. Comparator_of no ks)" "e_mkdir env = None" "0 < e_mem env" "0 < e_maxv env"
    and files: "spill_files (e_files env) rds (set vs)"
  shows "(\<exists>o'. CopyPuller Array_Write [] (sort_Pull env (puller_Pull maxv Array_Read)) (sort_New, Some vs) =
      Some ((sort_stable (cmp_less (c_Compare (Comparator_of no ks))) vs, o'), None)) \<and>
    sorted_wrt (\<lambda>a b. c_Compare (Comparator_of no ks) a b \<le> 0) (sort_stable (cmp_less (c_Compare (Comparator_of no ks))) vs) \<and>
    (set vs \<subseteq> spillable \<longrightarrow> spill_files memory_files (file_reads memory_env) (set vs))"
proof -
  let ?c = "Comparator_of no ks" and ?A = "set vs"
  have ss: "spill_sort (e_files env) rds ?A ?c" by (rule spill_sort_Comparator [OF assms(1-3) files])
  have op: "sort_operator (puller_Pull maxv Array_Read) (puller_rep maxv (=)) env rds ?A ?c"
    by (intro sort_operator.intro sort_operator_axioms.intro arrp.puller_streams_axioms) (use ss env in simp_all)
  have con: "puller_streams (sort_Pull env (puller_Pull maxv Array_Read)) (sort_rep env ?c ?A rds (puller_rep maxv (=)))"
    using sort_operator.sort_contract [OF op] by (rule puller_contract.axioms)
  have vs: "concat (split_values maxv vs) = vs" using split_values_batches [OF assms(5)] by blast
  then have "sort_rep env ?c ?A rds (puller_rep maxv (=)) (sort_New, Some vs) [sorted_batches env ?c (split_values maxv vs)]"
    using assms(4) by (simp add: sort_rep_def sort_New_def puller_rep_def stream_ok_def del: set_concat)
  from puller_streams.copy_stream [OF con this, of "[]"]
  have "\<exists>o'. CopyPuller Array_Write [] (sort_Pull env (puller_Pull maxv Array_Read)) (sort_New, Some vs) =
      Some ((concat (sorted_batches env ?c (split_values maxv vs)), o'), None)" by auto
  then show ?thesis
    using concat_sorted_batches [of env ?c "split_values maxv vs"] env(4) vs comparison.sorted_by [OF spill_sort.axioms(2) [OF ss], of vs]
      spill_files_subset [OF memf.spill_files_axioms] by simp
qed

theorem external_sort_witness:
  "let vs = map (\<lambda>b. (TypePrim TypeInt64, Some [b])) [6, 2, 4]; c = Comparator_of demo_nums [demo_key] in
   (\<exists>o'. CopyPuller Array_Write [] (sort_Pull (memory_sort 1 demo_nums [demo_key]) (puller_Pull 1 Array_Read)) (sort_New, Some vs) =
     Some ((sort_stable (cmp_less (c_Compare c)) vs, o'), None)) \<and> comparable NewContext demo_nums [demo_key] (set vs) \<and>
   spill_files memory_files (file_reads memory_env) (set vs)"
proof -
  let ?vs = "map (\<lambda>b. (TypePrim TypeInt64, Some [b])) [6, 2, 4] :: bval list" and ?env = "memory_sort 1 demo_nums [demo_key]"
  have i: "set ?vs \<subseteq> int_values" by (auto simp: int_values_def)
  then have c: "comparable NewContext demo_nums [demo_key] (set ?vs)" using comparable_ints [of demo_nums] unfolding comparable_def by blast
  have f: "spill_files memory_files (file_reads memory_env) (set ?vs)"
    by (rule spill_files_subset [OF memf.spill_files_axioms]) (use i int_values_spillable in blast)
  have e: "e_comparator ?env = (\<lambda>_. Comparator_of demo_nums [demo_key])" "e_mkdir ?env = None" "0 < e_mem ?env" "0 < e_maxv ?env" "e_files ?env = memory_files"
    by (simp_all add: memory_sort_def PullerBatchValues_def)
  show ?thesis
    using external_sort [OF ctx_inv_New unambiguous_New c _ _ e(1-4), of 1 "file_reads memory_env"] c f e(5) by (simp add: Let_def)
qed

end
