(* ===== verification/Top_Sort.thy ===== *)
theory Top_Sort
  imports Spill_Sort_Inv
begin

text \<open>
  The top operator (\<open>runtime/sam/op/top/top.go\<close>), which keeps the least values in a heap of limited size, and
  the rewriting of sort followed by head or tail into top (\<open>compiler/optimizer/optimizer.go\<close>).
\<close>

subsection \<open>The operator\<close>

text \<open>\<open>records\<close> is nil before the first value; the limit is positive, which the compiler checks.\<close>

record topop =
  t_eos :: bool
  t_records :: "bval list option"
  t_comparator :: "comparator option"


text \<open>\<open>RecordSlice.Less\<close> with the inverted comparison: the heap has the greatest value first.\<close>

definition top_compare :: "comparator \<Rightarrow> bval \<Rightarrow> bval \<Rightarrow> int" where
  "top_compare c a b = c_Compare c a b * -1"

definition top_less :: "comparator \<Rightarrow> bval \<Rightarrow> bval \<Rightarrow> bool" where
  "top_less c a b \<longleftrightarrow> top_compare c a b < 0"

text \<open>One value into the heap; \<open>None\<close> is the panic of looking at an empty heap, with a limit of zero.\<close>

definition top_add :: "comparator \<Rightarrow> nat \<Rightarrow> bval \<Rightarrow> bval list \<Rightarrow> bval list option" where
  "top_add c limit rec rs =
     (if length rs \<ge> limit \<and> rs = [] then None
      else let rs = (if length rs < limit \<or> top_compare c (rs ! 0) rec < 0 then heap_Push (top_less c) rec rs else rs) in
        Some (if length rs > limit then (case heap_Pop (top_less c) rs of Some (_, rs) \<Rightarrow> rs | None \<Rightarrow> rs) else rs))"

definition top_consume :: "(bval \<Rightarrow> comparator) \<Rightarrow> nat \<Rightarrow> bval \<Rightarrow> topop \<Rightarrow> topop option" where
  "top_consume mk limit rec o' =
     (let c = (case t_comparator o' of Some c \<Rightarrow> c | None \<Rightarrow> mk rec);
          rs = (case t_records o' of Some rs \<Rightarrow> rs | None \<Rightarrow> heap_Init (top_less c) []) in
      map_option (\<lambda>rs. o'\<lparr>t_comparator := Some c, t_records := Some rs\<rparr>) (top_add c limit rec rs))"

fun top_consumes :: "(bval \<Rightarrow> comparator) \<Rightarrow> nat \<Rightarrow> bval list \<Rightarrow> topop \<Rightarrow> topop option" where
  "top_consumes mk limit [] o' = Some o'"
| "top_consumes mk limit (v # vs) o' = (case top_consume mk limit v o' of None \<Rightarrow> None | Some o' \<Rightarrow> top_consumes mk limit vs o')"

text \<open>\<open>sorted\<close>: the values are popped, the last one first.\<close>

fun pop_sorted :: "comparator \<Rightarrow> nat \<Rightarrow> bval list \<Rightarrow> bval list \<Rightarrow> bval list" where
  "pop_sorted c 0 rs out = out"
| "pop_sorted c (Suc n) rs out = (case heap_Pop (top_less c) rs of None \<Rightarrow> out | Some (x, rs) \<Rightarrow> pop_sorted c n rs (x # out))"

definition top_sorted :: "comparator \<Rightarrow> bval list \<Rightarrow> bval list" where
  "top_sorted c rs = pop_sorted c (length rs) rs []"

partial_function (option) top_loop :: "(bval \<Rightarrow> comparator) \<Rightarrow> nat \<Rightarrow> ('s, 'e, bval) puller \<Rightarrow> bool \<Rightarrow> topop \<Rightarrow> 's \<Rightarrow>
    ((topop \<times> 's) \<times> ('e pfail + bval list option)) option" where
  "top_loop mk limit pull done o' s = (case pull done s of
      None \<Rightarrow> None
    | Some (s, Inl e) \<Rightarrow> Some ((o', s), Inl e)
    | Some (s, Inr None) \<Rightarrow> (case (t_records o', t_comparator o') of
        (Some rs, Some c) \<Rightarrow> Some ((o'\<lparr>t_eos := True, t_records := None\<rparr>, s), Inr (Some (top_sorted c rs)))
      | _ \<Rightarrow> Some ((o', s), Inr None))
    | Some (s, Inr (Some batch)) \<Rightarrow> (case top_consumes mk limit batch o' of
        None \<Rightarrow> Some ((o', s), Inl PPanic)
      | Some o' \<Rightarrow> top_loop mk limit pull done o' s))"

definition top_Pull :: "(bval \<Rightarrow> comparator) \<Rightarrow> nat \<Rightarrow> ('s, 'e, bval) puller \<Rightarrow> (topop \<times> 's, 'e, bval) puller" where
  "top_Pull mk limit pull done o' = (if t_eos (fst o') then Some (((fst o')\<lparr>t_eos := False\<rparr>, snd o'), Inr None)
     else top_loop mk limit pull done (fst o') (snd o'))"

subsection \<open>The rewriting of sort and head or tail\<close>

datatype 'x dag_op = DSort "sortexpr list" bool | DHead nat | DTail nat | DTop nat "sortexpr list" bool | DOther 'x

definition flip_order :: "sortexpr \<Rightarrow> sortexpr" where
  "flip_order k = k\<lparr>se_Order := (if se_Order k = Asc then Desc else Asc)\<rparr>"

text \<open>The limit, the expressions and the flag of the top operator that replaces a sort and its successor.\<close>

definition top_for :: "sortexpr list \<Rightarrow> bool \<Rightarrow> 'x dag_op \<Rightarrow> (nat \<times> sortexpr list \<times> bool) option" where
  "top_for exprs reverse op = (case op of
      DHead n \<Rightarrow> Some (n, exprs, reverse)
    | DTail n \<Rightarrow> Some (n, map flip_order exprs, \<not> reverse)
    | _ \<Rightarrow> None)"

text \<open>The loop over one sequence. A sort before a tail that is over the limit keeps its expressions with the orders flipped.\<close>

function replaceSortAndHeadOrTailWithTop :: "'x dag_op list \<Rightarrow> 'x dag_op list" where
  "replaceSortAndHeadOrTailWithTop seq = (case seq of
      DSort exprs reverse # op # rest \<Rightarrow> (case top_for exprs reverse op of
        None \<Rightarrow> DSort exprs reverse # replaceSortAndHeadOrTailWithTop (op # rest)
      | Some (limit, exprs', reverse') \<Rightarrow>
          if limit > 1048576 then DSort exprs' reverse # replaceSortAndHeadOrTailWithTop (op # rest)
          else DTop limit exprs' (reverse' \<and> length exprs' = 0) # replaceSortAndHeadOrTailWithTop rest)
    | op # rest \<Rightarrow> op # replaceSortAndHeadOrTailWithTop rest
    | [] \<Rightarrow> [])"
  by pat_completeness auto
termination by (relation "measure length") (auto split: list.splits)

declare replaceSortAndHeadOrTailWithTop.simps [simp del]

subsection \<open>The least values\<close>

text \<open>The heap has the least of the values, up to the limit.\<close>

definition keeps_least :: "comparator \<Rightarrow> nat \<Rightarrow> bval list \<Rightarrow> bval list \<Rightarrow> bool" where
  "keeps_least c limit vs rs \<longleftrightarrow> is_heap (top_less c) rs \<and> length rs = min limit (length vs) \<and>
     (\<exists>rest. mset vs = mset rs + mset rest \<and> (\<forall>x\<in>set rs. \<forall>y\<in>set rest. c_Compare c x y \<le> 0))"

lemma keeps_leastI:
  "is_heap (top_less c) rs \<Longrightarrow> mset vs = mset rs + mset rest \<Longrightarrow> (\<And>x y. x \<in> set rs \<Longrightarrow> y \<in> set rest \<Longrightarrow> c_Compare c x y \<le> 0) \<Longrightarrow>
   length rs = min limit (length rs + length rest) \<Longrightarrow> keeps_least c limit vs rs"
  unfolding keeps_least_def by (metis size_mset size_union)

locale top_comparison = comparison "c_Compare c" A for c :: comparator and A

context top_comparison
begin

lemma tswo: "swo_on (top_less c) A"
  unfolding swo_on_def
proof (intro conjI ballI impI)
  fix a b assume "a \<in> A" "b \<in> A" "top_less c a b"
  then show "\<not> top_less c b a" using cmp_swap [of a b] by (simp add: top_less_def top_compare_def)
next
  fix a b d assume "a \<in> A" "b \<in> A" "d \<in> A" "\<not> top_less c a b" "\<not> top_less c b d"
  then show "\<not> top_less c a d" using cmp_trans [of a b d] by (simp add: top_less_def top_compare_def)
qed

lemma root_greatest: "is_heap (top_less c) rs \<Longrightarrow> set rs \<subseteq> A \<Longrightarrow> x \<in> set rs \<Longrightarrow> c_Compare c x (rs ! 0) \<le> 0"
  using heap_least [OF tswo, of rs] by (force simp: in_set_conv_nth top_less_def top_compare_def)

lemma top_add_least:
  assumes k: "keeps_least c limit vs rs" and A: "set vs \<subseteq> A" "v \<in> A" and limit: "0 < limit"
  shows "\<exists>rs'. top_add c limit v rs = Some rs' \<and> keeps_least c limit (vs @ [v]) rs'"
proof -
  obtain rest where h: "is_heap (top_less c) rs" "length rs = min limit (length vs)"
    and rest: "mset vs = mset rs + mset rest" "\<forall>x\<in>set rs. \<forall>y\<in>set rest. c_Compare c x y \<le> 0" using k by (auto simp: keeps_least_def)
  have rA: "set rs \<subseteq> A" "set rest \<subseteq> A" using A(1) rest(1) by (metis Un_upper1 Un_upper2 set_mset_mset set_mset_union subset_trans)+
  have ne: "\<not> (length rs \<ge> limit \<and> rs = [])" using limit by auto
  have len: "length vs = length rs + length rest" using rest(1) by (metis size_mset size_union)
  let ?p = "heap_Push (top_less c) v rs"
  have p: "is_heap (top_less c) ?p" "mset ?p = add_mset v (mset rs)" using heap_Push_ok [OF tswo _ h(1), of v] rA(1) A(2) by auto
  then have p3: "length ?p = Suc (length rs)" by (metis size_add_mset size_mset)
  have pset: "set ?p = insert v (set rs)" using p(2) by (metis set_mset_add_mset_insert set_mset_mset)
  consider (room) "length rs < limit" | (less) "length rs = limit" "c_Compare c (rs ! 0) v > 0" | (skip) "length rs = limit" "c_Compare c (rs ! 0) v \<le> 0"
    using h(2) by linarith
  then show ?thesis
  proof cases
    case room
    then have "length rest = 0" using h(2) len by arith
    then have "mset vs = mset rs" using rest(1) by simp
    moreover have "Suc (length rs) = min limit (Suc (length vs))" using room h(2) \<open>length rest = 0\<close> len by arith
    ultimately have "keeps_least c limit (vs @ [v]) ?p" using p p3 unfolding keeps_least_def by (intro conjI exI [of _ "[]"]) simp_all
    moreover have "top_add c limit v rs = Some ?p" using room p3 ne by (simp add: top_add_def Let_def)
    ultimately show ?thesis by blast
  next
    case less
    obtain ys where ys: "heap_Pop (top_less c) ?p = Some (?p ! 0, ys)" "is_heap (top_less c) ys" "mset ?p = add_mset (?p ! 0) (mset ys)"
      using heap_Pop_ok [OF tswo, of ?p] p p3 pset rA(1) A(2) by (metis insert_subset list.size(3) nat.distinct(1))
    have add: "top_add c limit v rs = Some ys" using less p3 ne ys(1) by (simp add: top_add_def Let_def top_compare_def)
    have yset: "set ys \<subseteq> insert v (set rs)" using ys(3) pset by (metis set_mset_add_mset_insert set_mset_mset subset_insertI)
    have root: "rs ! 0 \<in> set rs" using limit less(1) by (metis nth_mem)
    have "c_Compare c x y \<le> 0" if x: "x \<in> set ys" and y: "y \<in> set (?p ! 0 # rest)" for x y
    proof (cases "y = ?p ! 0")
      case True
      then show ?thesis using root_greatest [OF p(1), of x] pset rA(1) A(2) x yset by auto
    next
      case False
      then have yr: "y \<in> set rest" using y by simp
      show ?thesis
      proof (cases "x = v")
        case True
        then have "c_Compare c x (rs ! 0) \<le> 0" using cmp_swap [of "rs ! 0" v] root rA(1) A(2) less(2) by auto
        then show ?thesis using cmp_trans [of x "rs ! 0" y] rest(2) root yr rA A(2) True by blast
      qed (use x yset rest(2) yr in blast)
    qed
    moreover have "mset (vs @ [v]) = mset ys + mset (?p ! 0 # rest)" using rest(1) p(2) ys(3) by simp
    moreover have "length ys = limit" using ys(3) p3 less(1) by (metis Suc_inject size_add_mset size_mset)
    ultimately show ?thesis using add ys(2) keeps_leastI [of c ys "vs @ [v]" "?p ! 0 # rest" limit] by simp
  next
    case skip
    have root: "rs ! 0 \<in> set rs" using limit skip(1) by (metis nth_mem)
    have "c_Compare c x y \<le> 0" if "x \<in> set rs" "y \<in> set (v # rest)" for x y
      using that rest(2) root_greatest [OF h(1) rA(1) that(1)] cmp_trans [of x "rs ! 0" v] skip(2) root rA A(2) by auto
    moreover have "mset (vs @ [v]) = mset rs + mset (v # rest)" using rest(1) by simp
    moreover have "top_add c limit v rs = Some rs" using skip ne by (simp add: top_add_def Let_def top_compare_def)
    ultimately show ?thesis using h(1) skip(1) keeps_leastI [of c rs "vs @ [v]" "v # rest" limit] by simp
  qed
qed

lemma pop_sorted_ok:
  "is_heap (top_less c) rs \<Longrightarrow> set rs \<subseteq> A \<Longrightarrow> sorted_wrt (\<lambda>a b. c_Compare c a b \<le> 0) out \<Longrightarrow> (\<forall>x\<in>set rs. \<forall>y\<in>set out. c_Compare c x y \<le> 0) \<Longrightarrow>
   sorted_wrt (\<lambda>a b. c_Compare c a b \<le> 0) (pop_sorted c (length rs) rs out) \<and> mset (pop_sorted c (length rs) rs out) = mset rs + mset out"
proof (induction "length rs" arbitrary: rs out)
  case (Suc n)
  then have "rs \<noteq> []" by auto
  then obtain ys where ys: "heap_Pop (top_less c) rs = Some (rs ! 0, ys)" "is_heap (top_less c) ys" "mset rs = add_mset (rs ! 0) (mset ys)"
    using heap_Pop_ok [OF tswo Suc.prems(2,1)] by blast
  have yset: "set ys \<subseteq> set rs" "rs ! 0 \<in> set rs" using ys(3) by (metis insert_iff set_mset_add_mset_insert set_mset_mset subsetI)+
  have len: "length ys = n" using ys(3) Suc.hyps(2) by (metis Suc_inject size_add_mset size_mset)
  have "sorted_wrt (\<lambda>a b. c_Compare c a b \<le> 0) (rs ! 0 # out)" "\<forall>x\<in>set ys. \<forall>y\<in>set (rs ! 0 # out). c_Compare c x y \<le> 0"
    using Suc.prems yset root_greatest [OF Suc.prems(1,2)] by auto
  then have "sorted_wrt (\<lambda>a b. c_Compare c a b \<le> 0) (pop_sorted c (length ys) ys (rs ! 0 # out)) \<and>
      mset (pop_sorted c (length ys) ys (rs ! 0 # out)) = mset ys + mset (rs ! 0 # out)"
    using Suc.hyps(1) [of ys "rs ! 0 # out"] len ys(2) yset(1) Suc.prems(2) by auto
  then show ?case using ys(1,3) len Suc.hyps(2) [symmetric] by simp
qed simp

lemma top_sorted_least:
  assumes "keeps_least c limit vs rs" "set vs \<subseteq> A"
  shows "list_all2 (\<lambda>a b. c_Compare c a b = 0) (top_sorted c rs) (take limit (sort_stable (cmp_less (c_Compare c)) vs)) \<and>
    mset (top_sorted c rs) \<subseteq># mset vs \<and> sorted_wrt (\<lambda>a b. c_Compare c a b \<le> 0) (top_sorted c rs)"
proof -
  obtain rest where h: "is_heap (top_less c) rs" "length rs = min limit (length vs)"
    and rest: "mset vs = mset rs + mset rest" "\<forall>x\<in>set rs. \<forall>y\<in>set rest. c_Compare c x y \<le> 0" using assms(1) by (auto simp: keeps_least_def)
  have rA: "set rs \<subseteq> A" "set rest \<subseteq> A" using assms(2) rest(1) by (metis Un_upper1 Un_upper2 set_mset_mset set_mset_union subset_trans)+
  have out: "sorted_wrt (\<lambda>a b. c_Compare c a b \<le> 0) (top_sorted c rs)" "mset (top_sorted c rs) = mset rs"
    using pop_sorted_ok [OF h(1) rA(1), of "[]"] by (simp_all add: top_sorted_def)
  let ?all = "top_sorted c rs @ sort_stable (cmp_less (c_Compare c)) rest"
  have oset: "set (top_sorted c rs) = set rs" "length (top_sorted c rs) = length rs" using out(2) mset_eq_setD mset_eq_length by blast+
  have "sorted_wrt (\<lambda>a b. c_Compare c a b \<le> 0) ?all" using out(1) sorted_by [OF rA(2)] rest(2) oset(1) by (simp add: sorted_wrt_append)
  moreover have "mset ?all = mset (sort_stable (cmp_less (c_Compare c)) vs)" using out(2) rest(1) by simp
  moreover have "set ?all \<subseteq> A" using rA oset(1) by simp
  ultimately have "list_all2 (\<lambda>a b. c_Compare c a b = 0) ?all (sort_stable (cmp_less (c_Compare c)) vs)"
    using sorted_ties sorted_by [OF assms(2)] by blast
  then have "list_all2 (\<lambda>a b. c_Compare c a b = 0) (take (length rs) ?all) (take (length rs) (sort_stable (cmp_less (c_Compare c)) vs))"
    by (rule list_all2_takeI)
  moreover have "take (length rs) ?all = top_sorted c rs" using oset(2) by simp
  moreover have "take (length rs) (sort_stable (cmp_less (c_Compare c)) vs) = take limit (sort_stable (cmp_less (c_Compare c)) vs)"
    using h(2) by (cases "limit \<le> length vs") (simp_all add: min_def)
  ultimately show ?thesis using out rest(1) by simp
qed

end

subsection \<open>Streams\<close>

text \<open>The heap after a sequence of values, and what the operator makes of a stream.\<close>

definition top_heap :: "comparator \<Rightarrow> nat \<Rightarrow> bval list \<Rightarrow> bval list \<Rightarrow> bval list" where
  "top_heap c limit rs vs = foldl (\<lambda>rs v. case top_add c limit v rs of Some rs \<Rightarrow> rs | None \<Rightarrow> rs) rs vs"

definition top_values :: "comparator \<Rightarrow> nat \<Rightarrow> bval list \<Rightarrow> bval list" where
  "top_values c limit vs = top_sorted c (top_heap c limit [] vs)"

definition top_batches :: "comparator \<Rightarrow> nat \<Rightarrow> bval list list \<Rightarrow> bval list list" where
  "top_batches c limit bs = (if concat bs = [] then [] else [top_values c limit (concat bs)])"

lemma top_batches_concat: "top_batches c limit [concat bs] = top_batches c limit bs"
  by (simp add: top_batches_def)

lemma top_add_total: "0 < limit \<Longrightarrow> \<exists>rs'. top_add c limit v rs = Some rs'"
  by (auto simp: top_add_def Let_def)

definition top_mid :: "comparator \<Rightarrow> nat \<Rightarrow> bval list \<Rightarrow> topop \<Rightarrow> bool" where
  "top_mid c limit vs o' \<longleftrightarrow> \<not> t_eos o' \<and> t_comparator o' \<in> {None, Some c} \<and>
     (if vs = [] then t_records o' = None else t_records o' = Some (top_heap c limit [] vs) \<and> t_comparator o' = Some c)"

lemma top_consume_mid:
  assumes "0 < limit" "top_mid c limit vs o'"
  shows "\<exists>o''. top_consume (\<lambda>_. c) limit v o' = Some o'' \<and> top_mid c limit (vs @ [v]) o''"
proof -
  obtain rs where "top_add c limit v (top_heap c limit [] vs) = Some rs" using top_add_total [OF assms(1)] by blast
  moreover have "heap_Init (top_less c) [] = []" by (simp add: heap_Init_def)
  ultimately show ?thesis using assms(2)
    by (cases "vs = []") (auto simp: top_mid_def top_consume_def top_heap_def Let_def split: option.splits)
qed

lemma top_consumes_mid:
  "0 < limit \<Longrightarrow> top_mid c limit us o' \<Longrightarrow> \<exists>o''. top_consumes (\<lambda>_. c) limit vs o' = Some o'' \<and> top_mid c limit (us @ vs) o''"
proof (induction vs arbitrary: us o')
  case (Cons v vs)
  obtain o1 where o1: "top_consume (\<lambda>_. c) limit v o' = Some o1" "top_mid c limit (us @ [v]) o1" using top_consume_mid [OF Cons.prems] by blast
  then show ?case using Cons.IH [OF Cons.prems(1) o1(2)] by simp
qed auto

definition top_rep :: "comparator \<Rightarrow> nat \<Rightarrow> ('s \<Rightarrow> bval list list list \<Rightarrow> bool) \<Rightarrow> topop \<times> 's \<Rightarrow> bval list list list \<Rightarrow> bool" where
  "top_rep c limit rep o' ss' \<longleftrightarrow> (\<exists>ss. rep (snd o') ss \<and> t_comparator (fst o') \<in> {None, Some c} \<and> t_records (fst o') = None \<and>
     ss' = (if t_eos (fst o') then [[]] else []) @ map (top_batches c limit) ss)"

locale top_operator = puller_contract pull rep + top_comparison c A
  for pull :: "('s, 'e, bval) puller" and rep and c and A +
  fixes limit :: nat
  assumes limit: "0 < limit"

context top_operator
begin

lemma top_loop_stream:
  assumes "rep s ss" "top_mid c limit vs o'"
  shows "\<exists>o''. top_loop (\<lambda>_. c) limit pull False o' s = Some (o'', Inr (next_batch [top_batches c limit [vs @ concat (first_stream ss)]])) \<and>
    top_rep c limit rep o'' (advance (top_batches c limit [vs @ concat (first_stream ss)] # map (top_batches c limit) (tl ss)))"
  using assms
proof (induction "first_stream ss" arbitrary: s ss vs o')
  case Nil
  obtain s' where s': "pull False s = Some (s', Inr None)" "rep s' (tl ss)" using pull_last [OF Nil.prems(1)] Nil.hyps by auto
  then show ?case using Nil by (cases "vs = []")
      (auto simp: top_loop.simps [of _ limit pull False o' s] top_mid_def top_rep_def top_values_def top_batches_def split: option.splits)
next
  case (Cons b bs)
  then obtain ss' where ss: "ss = (b # bs) # ss'" by (cases ss rule: first_stream.cases) auto
  obtain s' where s': "pull False s = Some (s', Inr (Some b))" "rep s' (bs # ss')" using pull_batch Cons.prems(1) ss by blast
  obtain o1 where o1: "top_consumes (\<lambda>_. c) limit b o' = Some o1" "top_mid c limit (vs @ b) o1" using top_consumes_mid [OF limit Cons.prems(2)] by blast
  have "top_loop (\<lambda>_. c) limit pull False o' s = top_loop (\<lambda>_. c) limit pull False o1 s'"
    using s' o1(1) by (simp add: top_loop.simps [of _ limit pull False o' s])
  then show ?case using Cons.hyps(1) [OF _ s'(2) o1(2)] ss by simp
qed

lemma top_contract: "puller_contract (top_Pull (\<lambda>_. c) limit pull) (top_rep c limit rep)"
proof unfold_locales
  fix o' ss assume o': "top_rep c limit rep o' ss"
  then obtain ps where ps: "rep (snd o') ps" "t_comparator (fst o') \<in> {None, Some c}" "t_records (fst o') = None"
    "ss = (if t_eos (fst o') then [[]] else []) @ map (top_batches c limit) ps" by (auto simp: top_rep_def)
  show "\<exists>o''. top_Pull (\<lambda>_. c) limit pull False o' = Some (o'', Inr (next_batch ss)) \<and> top_rep c limit rep o'' (advance ss)"
  proof (cases "t_eos (fst o')")
    case True
    then show ?thesis using ps by (auto simp: top_Pull_def top_rep_def)
  next
    case False
    then have "top_mid c limit [] (fst o')" using ps by (auto simp: top_mid_def)
    then have "\<exists>o''. top_loop (\<lambda>_. c) limit pull False (fst o') (snd o') = Some (o'', Inr (next_batch [top_batches c limit (first_stream ps)])) \<and>
        top_rep c limit rep o'' (advance (top_batches c limit (first_stream ps) # map (top_batches c limit) (tl ps)))"
      using top_loop_stream [OF ps(1), of "[]" "fst o'"] by (simp only: append.simps top_batches_concat)
    moreover have "next_batch ss = next_batch [top_batches c limit (first_stream ps)]" "advance ss = advance (top_batches c limit (first_stream ps) # map (top_batches c limit) (tl ps))"
      using ps(4) False next_batch_first [of _ _ "[]"] by (cases ps; simp add: top_batches_def)+
    ultimately show ?thesis using False by (simp add: top_Pull_def)
  qed
  show "\<exists>o''. top_Pull (\<lambda>_. c) limit pull True o' = Some (o'', Inr None) \<and> top_rep c limit rep o'' (tl ss)"
  proof (cases "t_eos (fst o')")
    case True
    then show ?thesis using ps by (auto simp: top_Pull_def top_rep_def)
  next
    case False
    obtain s' where s': "pull True (snd o') = Some (s', Inr None)" "rep s' (tl ps)" using pull_done [OF ps(1)] by blast
    then have "top_Pull (\<lambda>_. c) limit pull True o' = Some ((fst o', s'), Inr None)"
      using False ps(3) by (simp add: top_Pull_def top_loop.simps [of _ limit pull True "fst o'"])
    moreover have "top_rep c limit rep (fst o', s') (tl ss)" unfolding top_rep_def using s'(2) ps False by (intro exI [of _ "tl ps"]) (simp add: map_tl)
    ultimately show ?thesis by blast
  qed
qed

end

context top_comparison
begin

lemma top_heap_least:
  assumes "0 < limit"
  shows "keeps_least c limit us rs \<Longrightarrow> set (us @ vs) \<subseteq> A \<Longrightarrow> keeps_least c limit (us @ vs) (top_heap c limit rs vs)"
proof (induction vs arbitrary: us rs)
  case (Cons v vs)
  obtain rs' where "top_add c limit v rs = Some rs'" "keeps_least c limit (us @ [v]) rs'"
    using top_add_least [OF Cons.prems(1) _ _ assms, of v] Cons.prems(2) by auto
  then show ?case using Cons.IH [of "us @ [v]" rs'] Cons.prems(2) by (simp add: top_heap_def)
qed (simp add: top_heap_def)

lemma top_values_least:
  assumes "0 < limit" "set vs \<subseteq> A"
  shows "list_all2 (\<lambda>a b. c_Compare c a b = 0) (top_values c limit vs) (take limit (sort_stable (cmp_less (c_Compare c)) vs)) \<and>
    mset (top_values c limit vs) \<subseteq># mset vs"
  using top_sorted_least [OF top_heap_least [OF assms(1), of "[]" "[]" vs]] assms(2) by (simp add: top_values_def keeps_least_def heap_from_def)

end

lemma top_operator_array:
  assumes "ctx_inv cx" "unambiguous cx" "comparable cx no ks A" "0 < limit"
  shows "top_operator (puller_Pull maxv Array_Read) (puller_rep maxv (=)) (Comparator_of no ks) A limit"
  by (intro top_operator.intro top_operator_axioms.intro top_comparison.intro arrp.puller_contract_axioms comparison_Comparator [OF assms(1-3)] assms(4))

interpretation itop: top_operator "puller_Pull maxv Array_Read" "puller_rep maxv (=)" "Comparator_of no [demo_key]" int_values "Suc n" for maxv no n
  by (rule top_operator_array [OF ctx_inv_New unambiguous_New comparable_ints]) simp

subsection \<open>What the operators of a sequence do\<close>

definition dag_comparator :: "num_ops \<Rightarrow> sortexpr list \<Rightarrow> comparator" where
  "dag_comparator no ks = Comparator_of no (WithMissingAsNull (no_floats no) ks)"

text \<open>On one stream, with sort expressions given; \<open>other\<close> are the operators that are not rewritten.\<close>

fun dag_run_op :: "num_ops \<Rightarrow> ('x \<Rightarrow> bval list \<Rightarrow> bval list) \<Rightarrow> 'x dag_op \<Rightarrow> bval list \<Rightarrow> bval list" where
  "dag_run_op no other (DSort ks r) vs = sort_stable (cmp_less (c_Compare (dag_comparator no ks))) vs"
| "dag_run_op no other (DHead n) vs = take n vs"
| "dag_run_op no other (DTail n) vs = last_values n vs"
| "dag_run_op no other (DTop n ks r) vs = top_values (dag_comparator no ks) n vs"
| "dag_run_op no other (DOther x) vs = other x vs"

definition dag_run :: "num_ops \<Rightarrow> ('x \<Rightarrow> bval list \<Rightarrow> bval list) \<Rightarrow> 'x dag_op list \<Rightarrow> bval list \<Rightarrow> bval list" where
  "dag_run no other seq vs = foldl (\<lambda>vs op. dag_run_op no other op vs) vs seq"

text \<open>Integers of one byte, as encoded: twice the number.\<close>

definition i64 :: "u8 option \<Rightarrow> bval" where
  "i64 b = (TypePrim TypeInt64, map_option (\<lambda>b. [b]) b)"

lemma i64_value: "int_typed (raw_value (i64 b))" "Value_IsNull (raw_value (i64 b)) \<longleftrightarrow> b = None"
  "int_key (raw_value (i64 (Some x))) = sint (DecodeInt (Some [x]))"
  by (simp_all add: i64_def raw_value_def NewValue_def int_typed_def Value_IsNull_def int_key_def Value_Int_def IsSigned_def)

lemma demo_missing: "missingAsNull_Eval fo (\<lambda>v. v) (raw_value (i64 b)) = raw_value (i64 b)"
  by (simp add: missingAsNull_Eval_def Value_IsMissing_def i64_def raw_value_def NewValue_def)

lemma demo_up: "c_Compare (dag_comparator no [demo_key]) (i64 a) (i64 b) =
    (case (a, b) of (None, None) \<Rightarrow> 0 | (None, _) \<Rightarrow> 1 | (_, None) \<Rightarrow> -1 | (Some x, Some y) \<Rightarrow> cmp_Compare (sint (DecodeInt (Some [x]))) (sint (DecodeInt (Some [y]))))"
  using compareValues_null [of "raw_value (i64 a)" "raw_value (i64 b)" no True] compareValues_ints [OF i64_value(1) i64_value(1), of a b no True]
  by (cases a; cases b) (simp_all add: dag_comparator_def Comparator_of_def WithMissingAsNull_def demo_key_def NewSortExpr_def SortExpr_nullsMax_def demo_missing i64_value)

lemma demo_down: "c_Compare (dag_comparator no [flip_order demo_key]) (i64 a) (i64 b) =
    (case (a, b) of (None, None) \<Rightarrow> 0 | (None, _) \<Rightarrow> 1 | (_, None) \<Rightarrow> -1 | (Some x, Some y) \<Rightarrow> cmp_Compare (sint (DecodeInt (Some [y]))) (sint (DecodeInt (Some [x]))))"
  using compareValues_null [of "raw_value (i64 b)" "raw_value (i64 a)" no False] compareValues_ints [OF i64_value(1) i64_value(1), of b a no False]
  by (cases a; cases b) (simp_all add: dag_comparator_def Comparator_of_def WithMissingAsNull_def demo_key_def NewSortExpr_def SortExpr_nullsMax_def demo_missing i64_value flip_order_def)

lemma small_ints: "sint (DecodeInt (Some [2])) = 1" "sint (DecodeInt (Some [4])) = 2" "sint (DecodeInt (Some [6])) = 3"
  by (simp_all add: DecodeInt_def DecodeCountedVarint_def DecodeCountedUvarint_def Let_def)

text \<open>The loops of the heap, unfolded at concrete indices.\<close>

lemma heap_steps:
  "heap_up l xs 0 = xs"
  "heap_up l xs (Suc k) = (if l (xs ! Suc k) (xs ! (k div 2)) then heap_up l (swap_at xs (k div 2) (Suc k)) (k div 2) else xs)"
  "n \<le> Suc (2 * i) \<Longrightarrow> heap_down l n xs i = (xs, i)"
  "Suc (2 * i) < n \<Longrightarrow> heap_down l n xs i = (let j = least_child l n xs i in if l (xs ! j) (xs ! i) then heap_down l n (swap_at xs i j) j else (xs, i))"
  by (subst heap_up.simps heap_down.simps, simp add: Let_def up_index_def)+

subsection \<open>Properties\<close>



text \<open>
  C34: the optimizer's replacement of a sort and a tail changes results. The sort of 1, 2, 3 with a tail of two gives 2, 3 and the top operator
  in its place, with the order of the expression flipped, gives 3, 2; with a null, which the sort puts last, the tail of one is the null and the
  replacement's is a number, since the placing of nulls is not flipped; and when the tail is too large for the replacement the order of the
  sort has been flipped all the same.
\<close>

theorem sort_tail_replaced:
  fixes other :: "'x \<Rightarrow> bval list \<Rightarrow> bval list"
  shows "let seq = (\<lambda>n. [DSort [demo_key] False, DTail n]); new = (\<lambda>n. replaceSortAndHeadOrTailWithTop (seq n));
     one = i64 (Some 2); two = i64 (Some 4); three = i64 (Some 6); null = i64 None in
   dag_run no other (seq 2) [one, two, three] = [two, three] \<and> dag_run no other (new 2) [one, two, three] = [three, two] \<and>
   dag_run no other (seq 1) [null, one] = [null] \<and> dag_run no other (new 1) [null, one] = [one] \<and>
   dag_run no other (seq 1048577) [one, two] = [one, two] \<and> dag_run no other (new 1048577) [one, two] = [two, one]"
proof -
  have new: "replaceSortAndHeadOrTailWithTop [DSort [demo_key] False, DTail n] =
      (if n > 1048576 then [DSort [flip_order demo_key] False, DTail n] else [DTop n [flip_order demo_key] False] :: 'x dag_op list)" for n
    by (simp add: top_for_def replaceSortAndHeadOrTailWithTop.simps)
  note cmps = demo_up demo_down small_ints cmp_Compare_def
  have top: "top_values (dag_comparator no [flip_order demo_key]) 2 [i64 (Some 2), i64 (Some 4), i64 (Some 6)] = [i64 (Some 6), i64 (Some 4)]"
    "top_values (dag_comparator no [flip_order demo_key]) (Suc 0) [i64 None, i64 (Some 2)] = [i64 (Some 2)]"
    by (simp_all add: top_values_def top_heap_def top_sorted_def top_add_def top_less_def top_compare_def heap_Push_def heap_Pop_def heap_steps
        least_child_def up_index_def swap_at_def cmps numeral_2_eq_2)
  show ?thesis
    by (simp add: Let_def new dag_run_def top last_values_def sort_stable_def cmps)
qed

end
