(* ===== verification/Merge_Op.thy ===== *)
theory Merge_Op
  imports Zbuf_Inv Go_Heap Orders
begin

text \<open>
  The merge operator (\<open>runtime/sam/op/merge/merge.go\<close>) over parents that each run in a goroutine of their
  own (with \<open>op/catcher.go\<close> around them). A goroutine has pulled one result ahead and offers it; as the parents
  are independent, the pull is made here when the result is taken. Contexts that are cancelled, resetters
  of expressions and reference counts are not modelled.
\<close>

subsection \<open>The operator\<close>

text \<open>Panics become errors; their text is an argument.\<close>

definition catcher_Pull :: "'e \<Rightarrow> ('s, 'e, 'v) puller \<Rightarrow> ('s, 'e, 'v) puller" where
  "catcher_Pull pe pull done s = (case pull done s of
      Some (s, Inl PPanic) \<Rightarrow> Some (s, Inl (PError pe))
    | r \<Rightarrow> r)"

text \<open>A puller; without a parent its goroutine has returned after an error and offers nothing any more.\<close>

record 's mpuller =
  mp_parent :: "'s option"
  mp_batch :: "bval list option"
  mp_vals :: "bval list"
  mp_blocked :: bool

definition newMPuller :: "'s \<Rightarrow> 's mpuller" where
  "newMPuller s = \<lparr>mp_parent = Some s, mp_batch = None, mp_vals = [], mp_blocked = False\<rparr>"

definition replenish :: "('s, 'e, bval) puller \<Rightarrow> 's mpuller \<Rightarrow> ('s mpuller \<times> ('e pfail + bool)) option" where
  "replenish pull p = (case mp_parent p of None \<Rightarrow> None
    | Some s \<Rightarrow> (case pull False s of
        None \<Rightarrow> None
      | Some (s, Inl e) \<Rightarrow> Some (p\<lparr>mp_parent := None\<rparr>, Inl e)
      | Some (s, Inr None) \<Rightarrow> Some (p\<lparr>mp_parent := Some s, mp_batch := None, mp_blocked := True\<rparr>, Inr False)
      | Some (s, Inr (Some b)) \<Rightarrow> Some (p\<lparr>mp_parent := Some s, mp_batch := Some b, mp_vals := b\<rparr>, Inr True)))"

text \<open>The goroutine drops the result it has pulled, whatever it is, and pulls with done. A batch in return is a panic.\<close>

definition send_done :: "('s, 'e, bval) puller \<Rightarrow> 's mpuller \<Rightarrow> ('s mpuller \<times> 'e pfail option) option" where
  "send_done pull p = (case mp_parent p of None \<Rightarrow> None
    | Some s \<Rightarrow> (case pull False s of
        None \<Rightarrow> None
      | Some (s, _) \<Rightarrow> (case pull True s of
          None \<Rightarrow> None
        | Some (s, Inr (Some b)) \<Rightarrow> Some (p\<lparr>mp_parent := None, mp_batch := None\<rparr>, Some PPanic)
        | Some (s, _) \<Rightarrow> Some (p\<lparr>mp_parent := Some s, mp_batch := None\<rparr>, None))))"

text \<open>The head-of-line queue holds the indices of parents.\<close>

record 's mergeop =
  m_once :: bool
  m_parents :: "'s mpuller list"
  m_hol :: "nat list"

definition merge_New :: "'s list \<Rightarrow> 's mergeop" where
  "merge_New parents = \<lparr>m_once = False, m_parents = map newMPuller parents, m_hol = []\<rparr>"

definition hol_less :: "(bval \<Rightarrow> bval \<Rightarrow> int) \<Rightarrow> 's mpuller list \<Rightarrow> nat \<Rightarrow> nat \<Rightarrow> bool" where
  "hol_less cmp ps i j \<longleftrightarrow> cmp (hd (mp_vals (ps ! i))) (hd (mp_vals (ps ! j))) < 0"

text \<open>Comparing a batch without values panics; in a queue of two or more every batch gets compared when it comes in.\<close>

definition hol_panics :: "'s mpuller list \<Rightarrow> nat list \<Rightarrow> bool" where
  "hol_panics ps hol \<longleftrightarrow> length hol \<ge> 2 \<and> list_ex (\<lambda>i. mp_vals (ps ! i) = []) hol"

definition set_hol :: "nat list \<Rightarrow> 's mergeop \<Rightarrow> 's mergeop \<times> 'e pfail option" where
  "set_hol hol o' = (if hol_panics (m_parents o') hol then (o', Some PPanic) else (o'\<lparr>m_hol := hol\<rparr>, None))"

definition hol_push :: "(bval \<Rightarrow> bval \<Rightarrow> int) \<Rightarrow> nat \<Rightarrow> 's mergeop \<Rightarrow> 's mergeop \<times> 'e pfail option" where
  "hol_push cmp i o' = set_hol (heap_Push (hol_less cmp (m_parents o')) i (m_hol o')) o'"

definition upd_parent :: "nat \<Rightarrow> 's mpuller \<Rightarrow> 's mergeop \<Rightarrow> 's mergeop" where
  "upd_parent i p o' = o'\<lparr>m_parents := (m_parents o')[i := p]\<rparr>"

fun start_loop :: "(bval \<Rightarrow> bval \<Rightarrow> int) \<Rightarrow> ('s, 'e, bval) puller \<Rightarrow> nat list \<Rightarrow> 's mergeop \<Rightarrow> ('s mergeop \<times> 'e pfail option) option" where
  "start_loop cmp pull [] o' = Some (o'\<lparr>m_hol := heap_Init (hol_less cmp (m_parents o')) (m_hol o')\<rparr>, None)"
| "start_loop cmp pull (i # ks) o' = (case replenish pull ((m_parents o' ! i)\<lparr>mp_blocked := False\<rparr>) of
      None \<Rightarrow> None
    | Some (p, Inl e) \<Rightarrow> Some (upd_parent i p o', Some e)
    | Some (p, Inr ok) \<Rightarrow>
        if ok then (case hol_push cmp i (upd_parent i p o') of (o', Some e) \<Rightarrow> Some (o', Some e) | (o', None) \<Rightarrow> start_loop cmp pull ks o')
        else start_loop cmp pull ks (upd_parent i p o'))"

definition merge_start :: "(bval \<Rightarrow> bval \<Rightarrow> int) \<Rightarrow> ('s, 'e, bval) puller \<Rightarrow> 's mergeop \<Rightarrow> ('s mergeop \<times> 'e pfail option) option" where
  "merge_start cmp pull o' = start_loop cmp pull [0..<length (m_parents o')] (o'\<lparr>m_hol := []\<rparr>)"

text \<open>The queue is emptied from its end.\<close>

fun done_loop :: "('s, 'e, bval) puller \<Rightarrow> nat list \<Rightarrow> 's mergeop \<Rightarrow> ('s mergeop \<times> 'e pfail option) option" where
  "done_loop pull [] o' = Some (o', None)"
| "done_loop pull (i # ks) o' = (case send_done pull (m_parents o' ! i) of
      None \<Rightarrow> None
    | Some (p, Some e) \<Rightarrow> Some (upd_parent i p (o'\<lparr>m_hol := rev ks\<rparr>), Some e)
    | Some (p, None) \<Rightarrow> done_loop pull ks (upd_parent i p (o'\<lparr>m_hol := rev ks\<rparr>)))"

definition merge_propagateDone :: "(bval \<Rightarrow> bval \<Rightarrow> int) \<Rightarrow> ('s, 'e, bval) puller \<Rightarrow> 's mergeop \<Rightarrow> ('s mergeop \<times> 'e pfail option) option" where
  "merge_propagateDone cmp pull o' = (case done_loop pull (rev (m_hol o')) o' of
      None \<Rightarrow> None
    | Some (o', Some e) \<Rightarrow> Some (o', Some e)
    | Some (o', None) \<Rightarrow> merge_start cmp pull o')"

definition merge_fix :: "(bval \<Rightarrow> bval \<Rightarrow> int) \<Rightarrow> bval \<Rightarrow> 's mergeop \<Rightarrow> 's mergeop \<times> ('e pfail + bval option)" where
  "merge_fix cmp v o' = (case set_hol (heap_Fix (hol_less cmp (m_parents o')) (m_hol o') 0) o' of
      (o', Some e) \<Rightarrow> (o', Inl e) | (o', None) \<Rightarrow> (o', Inr (Some v)))"

definition merge_Read :: "(bval \<Rightarrow> bval \<Rightarrow> int) \<Rightarrow> ('s, 'e, bval) puller \<Rightarrow> 's mergeop \<Rightarrow> ('s mergeop \<times> ('e pfail + bval option)) option" where
  "merge_Read cmp pull o' = (case m_hol o' of [] \<Rightarrow> Some (o', Inr None)
    | i # _ \<Rightarrow> let u = m_parents o' ! i in
        (case mp_vals u of [] \<Rightarrow> Some (o', Inl PPanic)
        | v # vs \<Rightarrow> let u = u\<lparr>mp_vals := vs\<rparr> in
            if vs = [] then (case replenish pull u of
                None \<Rightarrow> None
              | Some (u, Inl e) \<Rightarrow> Some (upd_parent i u o', Inl e)
              | Some (u, Inr ok) \<Rightarrow> let o' = upd_parent i u o' in
                  if ok then Some (merge_fix cmp v o')
                  else (case heap_Pop (hol_less cmp (m_parents o')) (m_hol o') of
                      None \<Rightarrow> Some (o', Inl PPanic)
                    | Some (_, hol) \<Rightarrow> Some (o'\<lparr>m_hol := hol\<rparr>, Inr (Some v))))
            else Some (merge_fix cmp v (upd_parent i u o'))))"

text \<open>\<open>zbuf.NewPuller(o).Pull(false)\<close>: a batch of what \<open>Read\<close> returns.\<close>

partial_function (option) merge_fill :: "nat \<Rightarrow> (bval \<Rightarrow> bval \<Rightarrow> int) \<Rightarrow> ('s, 'e, bval) puller \<Rightarrow> 's mergeop \<Rightarrow> pullerBatch \<Rightarrow>
    ('s mergeop \<times> ('e pfail + bval list option)) option" where
  "merge_fill maxv cmp pull o' b = (case merge_Read cmp pull o' of
      None \<Rightarrow> None
    | Some (o', Inl e) \<Rightarrow> Some (o', Inl e)
    | Some (o', Inr None) \<Rightarrow> Some (o', Inr (if length (pb_vals b) = 0 then None else Some (pb_vals b)))
    | Some (o', Inr (Some v)) \<Rightarrow> (case appendVal maxv v b of (b, full) \<Rightarrow>
        if full then Some (o', Inr (Some (pb_vals b))) else merge_fill maxv cmp pull o' b))"

definition eos_after :: "('s mergeop \<times> 'e pfail option) option \<Rightarrow> ('s mergeop \<times> ('e pfail + bval list option)) option" where
  "eos_after r = (case r of None \<Rightarrow> None | Some (o', Some e) \<Rightarrow> Some (o', Inl e) | Some (o', None) \<Rightarrow> Some (o', Inr None))"

text \<open>The rest of a batch at once, when it comes before everything else.\<close>

definition merge_batch :: "(bval \<Rightarrow> bval \<Rightarrow> int) \<Rightarrow> ('s, 'e, bval) puller \<Rightarrow> nat \<Rightarrow> 's mergeop \<Rightarrow> ('s mergeop \<times> ('e pfail + bval list option)) option" where
  "merge_batch cmp pull i o' = (let u = m_parents o' ! i;
       batch = (case mp_batch u of Some b \<Rightarrow> if length (mp_vals u) < length b then mp_vals u else b | None \<Rightarrow> mp_vals u)
     in case replenish pull u of
        None \<Rightarrow> None
      | Some (u, Inl e) \<Rightarrow> Some (upd_parent i u o', Inl e)
      | Some (u, Inr ok) \<Rightarrow> let o' = upd_parent i u o' in
          if ok then (case hol_push cmp i o' of (o', Some e) \<Rightarrow> Some (o', Inl e) | (o', None) \<Rightarrow> Some (o', Inr (Some batch)))
          else Some (o', Inr (Some batch)))"

definition merge_next :: "nat \<Rightarrow> (bval \<Rightarrow> bval \<Rightarrow> int) \<Rightarrow> ('s, 'e, bval) puller \<Rightarrow> 's mergeop \<Rightarrow> ('s mergeop \<times> ('e pfail + bval list option)) option" where
  "merge_next maxv cmp pull o' = (case heap_Pop (hol_less cmp (m_parents o')) (m_hol o') of
      None \<Rightarrow> eos_after (merge_start cmp pull o')
    | Some (i, hol) \<Rightarrow> let o' = o'\<lparr>m_hol := hol\<rparr> in
        if hol = [] \<or> cmp (last (mp_vals (m_parents o' ! i))) (hd (mp_vals (m_parents o' ! (hol ! 0)))) \<le> 0
        then merge_batch cmp pull i o'
        else (case hol_push cmp i o' of (o', Some e) \<Rightarrow> Some (o', Inl e) | (o', None) \<Rightarrow> merge_fill maxv cmp pull o' newPullerBatch))"

definition merge_Pull :: "nat \<Rightarrow> (bval \<Rightarrow> bval \<Rightarrow> int) \<Rightarrow> ('s, 'e, bval) puller \<Rightarrow> ('s mergeop, 'e, bval) puller" where
  "merge_Pull maxv cmp pull done o' =
     (case (if m_once o' then Some (o', None) else merge_start cmp pull (o'\<lparr>m_once := True\<rparr>)) of
        None \<Rightarrow> None
      | Some (o', Some e) \<Rightarrow> Some (o', Inl e)
      | Some (o', None) \<Rightarrow> if done then eos_after (merge_propagateDone cmp pull o') else merge_next maxv cmp pull o')"

end
