(* ===== verification/Merge_Op_Inv.thy ===== *)
theory Merge_Op_Inv
  imports Merge_Op Spill_Sort_Inv
begin

text \<open>
  The merge operator merges: over parents that keep the contract of pullers and whose streams are in order, its
  streams are in order and hold the same values. The locale \<open>merge_parents\<close> carries the proof; its invariant
  follows each parent through its current stream. A pull with done, on the other hand, breaks the contract for a parent
  whose current stream has no further batch.
\<close>

subsection \<open>Parents\<close>

lemma catcher_contract: "puller_contract pull rep \<Longrightarrow> puller_contract (catcher_Pull pe pull) rep"
  unfolding puller_contract_def puller_streams_def puller_contract_axioms_def catcher_Pull_def
  by (fastforce split: option.splits)

definition good_stream :: "(bval \<Rightarrow> bval \<Rightarrow> int) \<Rightarrow> bval set \<Rightarrow> bval list list \<Rightarrow> bool" where
  "good_stream cmp A bs \<longleftrightarrow> [] \<notin> set bs \<and> set (concat bs) \<subseteq> A \<and> sorted_wrt (\<lambda>a b. cmp a b \<le> 0) (concat bs)"

lemma good_stream_tl: "good_stream cmp A (b # bs) \<Longrightarrow> good_stream cmp A bs"
  by (auto simp: good_stream_def sorted_wrt_append)

locale merge_parents = puller_contract pull rep + comparison cmp A
  for pull :: "('s, 'e, bval) puller" and rep and cmp :: "bval \<Rightarrow> bval \<Rightarrow> int" and A
begin

abbreviation good :: "bval list list \<Rightarrow> bool" where
  "good \<equiv> good_stream cmp A"

abbreviation less :: "'s mpuller list \<Rightarrow> nat \<Rightarrow> nat \<Rightarrow> bool" where
  "less \<equiv> hol_less cmp"

text \<open>A parent in the queue has values of the current stream at hand, with \<open>bs\<close> to come; one outside has ended it.\<close>

definition mp_ok :: "'s mpuller \<Rightarrow> bool \<Rightarrow> bval list list \<Rightarrow> bval list list list \<Rightarrow> bool" where
  "mp_ok p h bs rs \<longleftrightarrow> (\<exists>s. mp_parent p = Some s \<and>
     (if h then rep s (bs # rs) \<and> mp_vals p \<noteq> [] \<and> (\<exists>pre. mp_batch p = Some (pre @ mp_vals p)) \<and> good (mp_vals p # bs) else rep s rs)) \<and>
     (\<forall>st\<in>set rs. good st)"

definition minv :: "'s mergeop \<Rightarrow> (nat \<Rightarrow> bval list list) \<Rightarrow> (nat \<Rightarrow> bval list list list) \<Rightarrow> bool" where
  "minv o' bss rss \<longleftrightarrow> m_once o' \<and> distinct (m_hol o') \<and> set (m_hol o') \<subseteq> {..<length (m_parents o')} \<and>
     is_heap (less (m_parents o')) (m_hol o') \<and>
     (\<forall>i<length (m_parents o'). mp_ok (m_parents o' ! i) (i \<in> set (m_hol o')) (bss i) (rss i))"

definition pend :: "'s mergeop \<Rightarrow> (nat \<Rightarrow> bval list list) \<Rightarrow> nat \<Rightarrow> bval list" where
  "pend o' bss i = concat (mp_vals (m_parents o' ! i) # bss i)"

definition left_vals :: "'s mergeop \<Rightarrow> (nat \<Rightarrow> bval list list) \<Rightarrow> bval multiset" where
  "left_vals o' bss = (\<Sum>i\<in>set (m_hol o'). mset (pend o' bss i))"

lemma swo_hol: "swo_on (less ps) {i. hd (mp_vals (ps ! i)) \<in> A}"
  using swo unfolding swo_on_def hol_less_def by blast

lemma less_upd: "i \<noteq> a \<Longrightarrow> i \<noteq> b \<Longrightarrow> less (ps[i := p]) a b = less ps a b"
  by (simp add: hol_less_def)

lemma in_hol:
  assumes "minv o' bss rss" "i \<in> set (m_hol o')"
  shows "i < length (m_parents o')" "mp_vals (m_parents o' ! i) \<noteq> []" "good (mp_vals (m_parents o' ! i) # bss i)" "hd (mp_vals (m_parents o' ! i)) \<in> A"
    "hd (pend o' bss i) = hd (mp_vals (m_parents o' ! i))" "set (pend o' bss i) \<subseteq> A" "sorted_wrt (\<lambda>a b. cmp a b \<le> 0) (pend o' bss i)" "pend o' bss i \<noteq> []"
proof -
  show i: "i < length (m_parents o')" using assms by (auto simp: minv_def)
  show g: "mp_vals (m_parents o' ! i) \<noteq> []" "good (mp_vals (m_parents o' ! i) # bss i)"
    using assms i by (auto simp: minv_def mp_ok_def)
  then show "hd (pend o' bss i) = hd (mp_vals (m_parents o' ! i))" "set (pend o' bss i) \<subseteq> A" "sorted_wrt (\<lambda>a b. cmp a b \<le> 0) (pend o' bss i)" "pend o' bss i \<noteq> []"
    by (simp_all add: pend_def good_stream_def)
  show "hd (mp_vals (m_parents o' ! i)) \<in> A"
    using g(2) hd_in_set [OF g(1)] unfolding good_stream_def by (metis UnCI concat.simps(2) set_append subsetD)
qed

lemma mp_hol: "minv o' bss rss \<Longrightarrow> i \<in> set (m_hol o') \<Longrightarrow> mp_ok (m_parents o' ! i) True (bss i) (rss i)"
proof -
  assume inv: "minv o' bss rss" and i: "i \<in> set (m_hol o')"
  then have "i < length (m_parents o')" by (auto simp: minv_def)
  then have "mp_ok (m_parents o' ! i) (i \<in> set (m_hol o')) (bss i) (rss i)" using inv unfolding minv_def by blast
  then show ?thesis using i by simp
qed

lemma hd_le: "sorted_wrt (\<lambda>a b. cmp a b \<le> 0) xs \<Longrightarrow> set xs \<subseteq> A \<Longrightarrow> x \<in> set xs \<Longrightarrow> cmp (hd xs) x \<le> 0"
  using cmp_self by (cases xs) auto

lemma le_last: "sorted_wrt (\<lambda>a b. cmp a b \<le> 0) xs \<Longrightarrow> set xs \<subseteq> A \<Longrightarrow> x \<in> set xs \<Longrightarrow> cmp x (last xs) \<le> 0"
  using cmp_self by (cases xs rule: rev_cases) (auto simp: sorted_wrt_append)

lemma in_left: "x \<in># left_vals o' bss \<longleftrightarrow> (\<exists>i\<in>set (m_hol o'). x \<in> set (pend o' bss i))"
proof -
  have "x \<in># (\<Sum>i\<in>H. mset (pend o' bss i)) \<longleftrightarrow> (\<exists>i\<in>H. x \<in> set (pend o' bss i))" if "finite H" for H
    using that by (induction H) auto
  then show ?thesis by (simp add: left_vals_def)
qed

lemma first_below:
  assumes inv: "minv o' bss rss" and i: "i \<in> set (m_hol o')" and h: "h \<in> set (m_hol o')" "\<not> less (m_parents o') i h" and x: "x \<in> set (pend o' bss i)"
  shows "cmp (hd (mp_vals (m_parents o' ! h))) x \<le> 0"
proof -
  have A: "hd (mp_vals (m_parents o' ! h)) \<in> A" "hd (mp_vals (m_parents o' ! i)) \<in> A" "x \<in> A" using in_hol(4,6) [OF inv] i h x by blast+
  have "cmp (hd (mp_vals (m_parents o' ! h))) (hd (mp_vals (m_parents o' ! i))) \<le> 0" using h(2) A cmp_swap [of "hd (mp_vals (m_parents o' ! h))"] by (auto simp: hol_less_def)
  moreover have "cmp (hd (mp_vals (m_parents o' ! i))) x \<le> 0" using hd_le [OF in_hol(7,6) [OF inv i] x] in_hol(5) [OF inv i] by simp
  ultimately show ?thesis using cmp_trans A by blast
qed

lemma root_least: "minv o' bss rss \<Longrightarrow> m_hol o' \<noteq> [] \<Longrightarrow> i \<in> set (m_hol o') \<Longrightarrow> \<not> less (m_parents o') i (m_hol o' ! 0)"
proof -
  assume inv: "minv o' bss rss" and "m_hol o' \<noteq> []" "i \<in> set (m_hol o')"
  have A: "set (m_hol o') \<subseteq> {i. hd (mp_vals (m_parents o' ! i)) \<in> A}" using in_hol(4) [OF inv] by blast
  obtain k where "k < length (m_hol o')" "i = m_hol o' ! k" using \<open>i \<in> set (m_hol o')\<close> by (auto simp: in_set_conv_nth)
  then show ?thesis using heap_least [OF swo_hol A, of k] inv by (auto simp: minv_def)
qed

lemma minv_upd:
  assumes inv: "minv o' bss rss" and i: "i < length (m_parents o')" and p: "mp_ok p h bs rs"
    and hol: "distinct hol" "set hol = (if h then insert i (set (m_hol o')) else set (m_hol o') - {i})" "is_heap (less ((m_parents o')[i := p])) hol"
  shows "minv (o'\<lparr>m_parents := (m_parents o')[i := p], m_hol := hol\<rparr>) (bss(i := bs)) (rss(i := rs))"
  using inv i p hol unfolding minv_def by (auto simp: nth_list_update)

lemma left_upd:
  assumes "i < length (m_parents o')" and "set hol = (if h then insert i H else H)" and "i \<notin> H" "finite H"
  shows "left_vals (o'\<lparr>m_parents := (m_parents o')[i := p], m_hol := hol\<rparr>) (bss(i := bs)) =
    (if h then mset (mp_vals p @ concat bs) else {#}) + (\<Sum>j\<in>H. mset (pend o' bss j))"
proof -
  have e: "(\<Sum>j\<in>H. mset (pend (o'\<lparr>m_parents := (m_parents o')[i := p], m_hol := hol\<rparr>) (bss(i := bs)) j)) = (\<Sum>j\<in>H. mset (pend o' bss j))"
    by (rule sum.cong) (use assms(3) in \<open>auto simp: pend_def\<close>)
  show ?thesis
  proof (cases h)
    case True
    then show ?thesis unfolding left_vals_def using assms e by (simp add: pend_def)
  qed (use assms e in \<open>simp add: left_vals_def\<close>)
qed

lemma left_split: "i \<in> set (m_hol o') \<Longrightarrow> left_vals o' bss = mset (pend o' bss i) + (\<Sum>j\<in>set (m_hol o') - {i}. mset (pend o' bss j))"
  by (simp add: left_vals_def sum.remove)

text \<open>The next batch of a parent.\<close>

lemma replenish_ok:
  assumes "mp_parent p = Some s" "rep s (bs # rs)" "good bs" "\<forall>st\<in>set rs. good st"
  shows "\<exists>p'. replenish pull p = Some (p', Inr (bs \<noteq> [])) \<and> mp_ok p' (bs \<noteq> []) (tl bs) rs \<and> (bs \<noteq> [] \<longrightarrow> mp_vals p' = hd bs)"
proof (cases bs)
  case Nil
  then show ?thesis using pull_end [of s rs] assms by (auto simp: replenish_def mp_ok_def)
next
  case (Cons b bs')
  then obtain s' where "pull False s = Some (s', Inr (Some b))" "rep s' (bs' # rs)" using pull_batch assms(2) by blast
  then show ?thesis using Cons assms by (auto simp: replenish_def mp_ok_def good_stream_def)
qed

text \<open>The queue.\<close>

lemma no_panic:
  assumes "\<And>i. i \<in> set hol \<Longrightarrow> mp_vals (m_parents o' ! i) \<noteq> []"
  shows "set_hol hol o' = (o'\<lparr>m_hol := hol\<rparr>, None)"
  using assms by (auto simp: set_hol_def hol_panics_def list_ex_iff)

lemma hol_ok:
  assumes inv: "minv o' bss rss" and i: "i < length (m_parents o')" and p: "mp_ok p True bs rs" and j: "j \<in> insert i (set (m_hol o'))"
  shows "mp_vals ((m_parents o')[i := p] ! j) \<noteq> []" "hd (mp_vals ((m_parents o')[i := p] ! j)) \<in> A"
proof -
  have "mp_vals p \<noteq> []" "hd (mp_vals p) \<in> A"
    using p hd_in_set [of "mp_vals p"] by (auto simp: mp_ok_def good_stream_def simp del: hd_in_set)
  then show "mp_vals ((m_parents o')[i := p] ! j) \<noteq> []" "hd (mp_vals ((m_parents o')[i := p] ! j)) \<in> A"
    using in_hol(2,4) [OF inv, of j] i j by (auto simp: nth_list_update)
qed

lemma heap_others: "minv o' bss rss \<Longrightarrow> i \<notin> set (m_hol o') \<Longrightarrow> is_heap (less ((m_parents o')[i := p])) (m_hol o')"
proof -
  assume inv: "minv o' bss rss" and i: "i \<notin> set (m_hol o')"
  have "less ((m_parents o')[i := p]) (m_hol o' ! k) (m_hol o' ! up_index k) = less (m_parents o') (m_hol o' ! k) (m_hol o' ! up_index k)" if "k < length (m_hol o')" for k
    using less_upd [of i "m_hol o' ! k" "m_hol o' ! up_index k"] i that nth_mem [of k "m_hol o'"] nth_mem [of "up_index k" "m_hol o'"] by fastforce
  then show ?thesis using inv by (auto simp: minv_def heap_from_def)
qed

lemma push_parent:
  assumes inv: "minv o' bss rss" and i: "i < length (m_parents o')" "i \<notin> set (m_hol o')" and p: "mp_ok p True bs rs"
  shows "\<exists>o''. hol_push cmp i (upd_parent i p o') = (o'', None) \<and> minv o'' (bss(i := bs)) (rss(i := rs)) \<and> length (m_parents o'') = length (m_parents o') \<and>
    m_hol o'' \<noteq> [] \<and> set (m_hol o'') = insert i (set (m_hol o')) \<and> left_vals o'' (bss(i := bs)) = mset (mp_vals p @ concat bs) + left_vals o' bss"
proof -
  let ?ps = "(m_parents o')[i := p]" and ?hol = "heap_Push (less ((m_parents o')[i := p])) i (m_hol o')"
  have A: "insert i (set (m_hol o')) \<subseteq> {j. hd (mp_vals (?ps ! j)) \<in> A}" using hol_ok(2) [OF inv i(1) p] by blast
  note H = heap_Push_ok [OF swo_hol [of ?ps] A heap_others [OF inv i(2)]]
  have set: "set ?hol = insert i (set (m_hol o'))" using H(2) by (metis set_mset_add_mset_insert set_mset_mset)
  have "mset ?hol = mset (i # m_hol o')" using H(2) by simp
  moreover have "distinct (i # m_hol o')" using inv i(2) by (simp add: minv_def)
  ultimately have d: "distinct ?hol" by (metis mset_eq_imp_distinct_iff)
  let ?o = "o'\<lparr>m_parents := ?ps, m_hol := ?hol\<rparr>"
  have "minv ?o (bss(i := bs)) (rss(i := rs))" by (rule minv_upd [OF inv i(1) p d]) (use set H(1) in simp_all)
  moreover have "hol_push cmp i (upd_parent i p o') = (?o, None)"
    using no_panic [of ?hol "upd_parent i p o'"] hol_ok(1) [OF inv i(1) p] set by (simp add: hol_push_def upd_parent_def)
  moreover have "left_vals ?o (bss(i := bs)) = mset (mp_vals p @ concat bs) + left_vals o' bss"
    using left_upd [of i o' ?hol True "set (m_hol o')" p bss bs] i set by (simp add: left_vals_def)
  ultimately show ?thesis using set by (intro exI [of _ ?o]) auto
qed

text \<open>The first parent of the queue with other values, and without.\<close>

lemma fix_parent:
  assumes inv: "minv o' bss rss" and hol: "m_hol o' = i # hol" and p: "mp_ok p True bs rs"
  shows "\<exists>o''. merge_fix cmp v (upd_parent i p o') = (o'', Inr (Some v)) \<and> minv o'' (bss(i := bs)) (rss(i := rs)) \<and> length (m_parents o'') = length (m_parents o') \<and>
    left_vals o'' (bss(i := bs)) = mset (mp_vals p @ concat bs) + (\<Sum>j\<in>set hol. mset (pend o' bss j))"
proof -
  let ?ps = "(m_parents o')[i := p]" and ?hol = "heap_Fix (less ((m_parents o')[i := p])) (m_hol o') 0"
  have i: "i < length (m_parents o')" "i \<notin> set hol" "distinct (m_hol o')" using inv hol by (auto simp: minv_def)
  have A: "set (m_hol o') \<subseteq> {j. hd (mp_vals (?ps ! j)) \<in> A}" using hol_ok(2) [OF inv i(1) p] by blast
  have "\<not> less ?ps (m_hol o' ! k) (m_hol o' ! up_index k)" if "0 < k" "k < length (m_hol o')" "up_index k \<noteq> 0" for k
  proof -
    have "m_hol o' ! k \<noteq> i" "m_hol o' ! up_index k \<noteq> i" using that hol i(2) nth_mem [of "k - 1" hol] nth_mem [of "up_index k - 1" hol] by (auto simp: nth_Cons' up_index_def)
    then show ?thesis using inv that less_upd [of i "m_hol o' ! k" "m_hol o' ! up_index k"] by (auto simp: minv_def heap_from_def)
  qed
  note H = heap_Fix_0 [OF swo_hol [of ?ps] A this]
  have set: "set ?hol = set (m_hol o')" and d: "distinct ?hol" using H(2) i(3) by (metis set_mset_mset, metis mset_eq_imp_distinct_iff)
  let ?o = "o'\<lparr>m_parents := ?ps, m_hol := ?hol\<rparr>"
  have "minv ?o (bss(i := bs)) (rss(i := rs))" by (rule minv_upd [OF inv i(1) p d]) (use set H(1) hol in simp_all)
  moreover have "merge_fix cmp v (upd_parent i p o') = (?o, Inr (Some v))"
    unfolding merge_fix_def upd_parent_def using hol_ok(1) [OF inv i(1) p] set by (subst no_panic) auto
  moreover have "left_vals ?o (bss(i := bs)) = mset (mp_vals p @ concat bs) + (\<Sum>j\<in>set hol. mset (pend o' bss j))"
    using left_upd [of i o' ?hol True "set hol" p bss bs] i set hol by simp
  ultimately show ?thesis by (intro exI [of _ ?o]) simp
qed

lemma drop_parent:
  assumes inv: "minv o' bss rss" and hol: "m_hol o' = i # hol" and p: "mp_ok p False bs rs"
  shows "\<exists>hol'. heap_Pop (less ((m_parents o')[i := p])) (m_hol o') = Some (i, hol') \<and>
    minv (o'\<lparr>m_parents := (m_parents o')[i := p], m_hol := hol'\<rparr>) (bss(i := bs)) (rss(i := rs)) \<and>
    left_vals (o'\<lparr>m_parents := (m_parents o')[i := p], m_hol := hol'\<rparr>) (bss(i := bs)) = (\<Sum>j\<in>set hol. mset (pend o' bss j)) \<and> set hol' = set hol"
proof -
  let ?ps = "(m_parents o')[i := p]"
  have i: "i < length (m_parents o')" "i \<notin> set hol" "distinct (m_hol o')" using inv hol by (auto simp: minv_def)
  have A: "set (m_hol o') \<subseteq> {j. hd (mp_vals (m_parents o' ! j)) \<in> A}" using in_hol(4) [OF inv] by blast
  have "is_heap (less (m_parents o')) (m_hol o')" using inv by (simp add: minv_def)
  from heap_Pop_ok [OF swo_hol A this] hol obtain hol' where H: "heap_Pop (less (m_parents o')) (m_hol o') = Some (i, hol')" "is_heap (less (m_parents o')) hol'"
      "mset (m_hol o') = add_mset i (mset hol')" by auto
  have set: "set hol' = set hol" "distinct hol'" using H(3) hol i(3) by (simp, metis set_mset_mset, metis add_mset_add_mset_same_iff distinct.simps(2) mset.simps(2) mset_eq_imp_distinct_iff)
  have "heap_Pop (less ?ps) (m_hol o') = heap_Pop (less (m_parents o')) (m_hol o')"
  proof (rule heap_Pop_cong)
    fix a b assume "a \<in> set (tl (m_hol o'))" "b \<in> set (tl (m_hol o'))"
    then have "i \<noteq> a" "i \<noteq> b" using hol i(2) by auto
    then show "less ?ps a b = less (m_parents o') a b" by (rule less_upd)
  qed
  moreover have "is_heap (less ?ps) hol'"
  proof -
    have "less ?ps (hol' ! k) (hol' ! up_index k) = less (m_parents o') (hol' ! k) (hol' ! up_index k)" if "k < length hol'" for k
      using less_upd [of i "hol' ! k" "hol' ! up_index k"] i(2) set that nth_mem [of k hol'] nth_mem [of "up_index k" hol'] by fastforce
    then show ?thesis using H(2) by (auto simp: heap_from_def)
  qed
  ultimately show ?thesis using H(1) minv_upd [OF inv i(1) p set(2)] left_upd [of i o' hol' False "set hol" p bss bs] set hol i by auto
qed

text \<open>One value: the least one that is left.\<close>

lemma read_ok:
  assumes inv: "minv o' bss rss" and hol: "m_hol o' = i # hol"
  shows "\<exists>v o'' bss'. merge_Read cmp pull o' = Some (o'', Inr (Some v)) \<and> minv o'' bss' rss \<and> length (m_parents o'') = length (m_parents o') \<and>
    left_vals o' bss = add_mset v (left_vals o'' bss') \<and> (\<forall>x. x \<in># left_vals o' bss \<longrightarrow> cmp v x \<le> 0)"
proof -
  let ?u = "m_parents o' ! i"
  have i: "i \<in> set (m_hol o')" "i < length (m_parents o')" "i \<notin> set hol" using inv hol by (auto simp: minv_def)
  obtain v vs where v: "mp_vals ?u = v # vs" using in_hol(2) [OF inv i(1)] by (cases "mp_vals ?u") auto
  have ok: "mp_ok ?u True (bss i) (rss i)" by (rule mp_hol [OF inv i(1)])
  then obtain s pre where s: "mp_parent ?u = Some s" "rep s (bss i # rss i)" "mp_batch ?u = Some (pre @ v # vs)" "good ((v # vs) # bss i)" "\<forall>st\<in>set (rss i). good st"
    using v by (auto simp: mp_ok_def)
  have least: "cmp v x \<le> 0" if x: "x \<in># left_vals o' bss" for x
  proof -
    obtain j where j: "j \<in> set (m_hol o')" "x \<in> set (pend o' bss j)" using x unfolding in_left by blast
    have "\<not> less (m_parents o') j i" using root_least [OF inv _ j(1)] hol by simp
    then show ?thesis using first_below [OF inv j(1) i(1) _ j(2)] v by simp
  qed
  have left: "left_vals o' bss = add_mset v (mset (vs @ concat (bss i)) + (\<Sum>j\<in>set hol. mset (pend o' bss j)))"
    using left_split [OF i(1), of bss] i(3) hol v by (simp add: pend_def)
  have "\<exists>o'' bss'. merge_Read cmp pull o' = Some (o'', Inr (Some v)) \<and> minv o'' bss' rss \<and> length (m_parents o'') = length (m_parents o') \<and>
      left_vals o'' bss' = mset (vs @ concat (bss i)) + (\<Sum>j\<in>set hol. mset (pend o' bss j))"
  proof (cases "vs = []")
    case False
    let ?p = "?u\<lparr>mp_vals := vs\<rparr>"
    have "mp_ok ?p True (bss i) (rss i)" using s False by (auto simp: mp_ok_def good_stream_def intro: exI [of _ "pre @ [v]"])
    from fix_parent [OF inv hol this, of v] show ?thesis using hol v False by (auto simp: merge_Read_def Let_def)
  next
    case True
    let ?p = "?u\<lparr>mp_vals := []\<rparr>"
    have g: "good (bss i)" using good_stream_tl s(4) by blast
    obtain p' where p': "replenish pull ?p = Some (p', Inr (bss i \<noteq> []))" "mp_ok p' (bss i \<noteq> []) (tl (bss i)) (rss i)" "bss i \<noteq> [] \<longrightarrow> mp_vals p' = hd (bss i)"
      using replenish_ok [OF _ s(2) g s(5), of ?p] s(1) by auto
    show ?thesis
    proof (cases "bss i = []")
      case False
      then have ok': "mp_ok p' True (tl (bss i)) (rss i)" "mset (mp_vals p' @ concat (tl (bss i))) = mset (concat (bss i))"
        using p' by (cases "bss i"; simp)+
      from fix_parent [OF inv hol ok'(1), of v] show ?thesis using hol v True p'(1) False ok'(2) by (auto simp: merge_Read_def Let_def)
    next
      case nil: True
      then have "mp_ok p' False [] (rss i)" using p'(2) by simp
      from drop_parent [OF inv hol this] obtain hol' where d: "heap_Pop (less ((m_parents o')[i := p'])) (m_hol o') = Some (i, hol')"
        "minv (o'\<lparr>m_parents := (m_parents o')[i := p'], m_hol := hol'\<rparr>) (bss(i := [])) (rss(i := rss i))"
        "left_vals (o'\<lparr>m_parents := (m_parents o')[i := p'], m_hol := hol'\<rparr>) (bss(i := [])) = (\<Sum>j\<in>set hol. mset (pend o' bss j))" by blast
      then show ?thesis using hol v True nil p'(1) by (auto simp: merge_Read_def Let_def upd_parent_def)
    qed
  qed
  then obtain o'' bss' where "merge_Read cmp pull o' = Some (o'', Inr (Some v))" "minv o'' bss' rss" "length (m_parents o'') = length (m_parents o')"
    "left_vals o'' bss' = mset (vs @ concat (bss i)) + (\<Sum>j\<in>set hol. mset (pend o' bss j))" by blast
  then show ?thesis using least left by (intro exI [of _ v] exI [of _ o''] exI [of _ bss']) simp
qed

definition outputs :: "bval list \<Rightarrow> bval multiset \<Rightarrow> bval multiset \<Rightarrow> bool" where
  "outputs out l l' \<longleftrightarrow> l = mset out + l' \<and> sorted_wrt (\<lambda>a b. cmp a b \<le> 0) out \<and> (\<forall>x\<in>set out. \<forall>y. y \<in># l' \<longrightarrow> cmp x y \<le> 0)"

lemma outputs_Cons: "l = add_mset v l' \<Longrightarrow> \<forall>x. x \<in># l \<longrightarrow> cmp v x \<le> 0 \<Longrightarrow> outputs out l' l'' \<Longrightarrow> outputs (v # out) l l''"
  by (auto simp: outputs_def)

lemma outputs_append: "outputs a l l' \<Longrightarrow> outputs b l' l'' \<Longrightarrow> outputs (a @ b) l l''"
  by (auto simp: outputs_def sorted_wrt_append)

lemma merge_fill_ok:
  "minv o' bss rss \<Longrightarrow> \<exists>out o'' bss'. merge_fill maxv cmp pull o' b = Some (o'', Inr (if pb_vals b @ out = [] then None else Some (pb_vals b @ out))) \<and>
    minv o'' bss' rss \<and> length (m_parents o'') = length (m_parents o') \<and> outputs out (left_vals o' bss) (left_vals o'' bss') \<and> (m_hol o' \<noteq> [] \<longrightarrow> out \<noteq> [])"
proof (induction "size (left_vals o' bss)" arbitrary: o' bss b)
  case 0
  have "m_hol o' = []"
  proof (rule ccontr)
    assume "m_hol o' \<noteq> []"
    then obtain i hol where "m_hol o' = i # hol" by (cases "m_hol o'") auto
    then show False using read_ok [OF 0(2)] 0(1) by fastforce
  qed
  then show ?case using 0 by (subst merge_fill.simps) (auto simp: merge_Read_def outputs_def intro!: exI [of _ "[]"] exI [of _ o'] exI [of _ bss])
next
  case (Suc k)
  show ?case
  proof (cases "m_hol o'")
    case Nil
    then show ?thesis using Suc.prems by (subst merge_fill.simps) (auto simp: merge_Read_def outputs_def intro!: exI [of _ "[]"] exI [of _ o'] exI [of _ bss])
  next
    case (Cons i hol)
    obtain v o1 bss1 where r: "merge_Read cmp pull o' = Some (o1, Inr (Some v))" "minv o1 bss1 rss" "length (m_parents o1) = length (m_parents o')"
      "left_vals o' bss = add_mset v (left_vals o1 bss1)" "\<forall>x. x \<in># left_vals o' bss \<longrightarrow> cmp v x \<le> 0"
      using read_ok [OF Suc.prems Cons] by blast
    obtain b' full where a: "appendVal maxv v b = (b', full)" by (cases "appendVal maxv v b")
    have b': "pb_vals b' = pb_vals b @ [v]" using pb_vals_appendVal [of maxv v b] a by simp
    show ?thesis
    proof (cases full)
      case True
      have "outputs [v] (left_vals o' bss) (left_vals o1 bss1)" using r(4,5) by (auto simp: outputs_def)
      then show ?thesis using r a b' True by (subst merge_fill.simps) (auto intro!: exI [of _ "[v]"] exI [of _ o1] exI [of _ bss1])
    next
      case False
      have "k = size (left_vals o1 bss1)" using Suc.hyps(2) r(4) by simp
      from Suc.hyps(1) [OF this r(2), of b'] obtain out o2 bss2 where f: "merge_fill maxv cmp pull o1 b' = Some (o2, Inr (if pb_vals b' @ out = [] then None else Some (pb_vals b' @ out)))"
        "minv o2 bss2 rss" "length (m_parents o2) = length (m_parents o1)" "outputs out (left_vals o1 bss1) (left_vals o2 bss2)" by blast
      have "outputs (v # out) (left_vals o' bss) (left_vals o2 bss2)" by (rule outputs_Cons [OF r(4,5) f(4)])
      moreover have "merge_fill maxv cmp pull o' b = Some (o2, Inr (Some (pb_vals b @ v # out)))"
        using r(1) a False f(1) b' by (subst merge_fill.simps) simp
      ultimately show ?thesis using f(2,3) r(3) by (intro exI [of _ "v # out"] exI [of _ o2] exI [of _ bss2]) simp
    qed
  qed
qed

text \<open>The first parent taken out of the queue: its streams to come begin with the rest of the current one.\<close>

lemma pop_parent:
  assumes inv: "minv o' bss rss" and hol: "m_hol o' \<noteq> []"
  obtains i hol' where "heap_Pop (less (m_parents o')) (m_hol o') = Some (i, hol')" "minv (o'\<lparr>m_hol := hol'\<rparr>) bss (rss(i := bss i # rss i))"
    "i \<notin> set hol'" "set (m_hol o') = insert i (set hol')" "i < length (m_parents o')"
proof -
  have A: "set (m_hol o') \<subseteq> {j. hd (mp_vals (m_parents o' ! j)) \<in> A}" using in_hol(4) [OF inv] by blast
  have h: "is_heap (less (m_parents o')) (m_hol o')" "distinct (m_hol o')" using inv by (simp_all add: minv_def)
  obtain hol' where H: "heap_Pop (less (m_parents o')) (m_hol o') = Some (m_hol o' ! 0, hol')" "is_heap (less (m_parents o')) hol'"
      "mset (m_hol o') = mset (m_hol o' ! 0 # hol')"
    using heap_Pop_ok [OF swo_hol A h(1) hol] by (metis mset.simps(2))
  let ?i = "m_hol o' ! 0"
  have d: "distinct (?i # hol')" "set (m_hol o') = insert ?i (set hol')"
    using H(3) h(2) by (metis mset_eq_imp_distinct_iff, metis mset_eq_setD list.set(2))
  have i: "?i \<in> set (m_hol o')" "?i < length (m_parents o')" using d(2) inv by (auto simp: minv_def)
  let ?u = "m_parents o' ! ?i"
  have "mp_ok ?u False (bss ?i) (bss ?i # rss ?i)" using mp_hol [OF inv i(1)] good_stream_tl by (auto simp: mp_ok_def)
  from minv_upd [OF inv i(2) this, of hol'] have "minv (o'\<lparr>m_hol := hol'\<rparr>) bss (rss(?i := bss ?i # rss ?i))"
    using d H(2) by (simp add: list_update_id)
  then show ?thesis using that [OF H(1)] d i(2) by simp
qed

lemma replenish_next:
  assumes "mp_parent p = Some s" "rep s ss" "\<forall>st\<in>set ss. good st"
  shows "\<exists>p'. replenish pull p = Some (p', Inr (first_stream ss \<noteq> [])) \<and> mp_ok p' (first_stream ss \<noteq> []) (tl (first_stream ss)) (tl ss) \<and>
    (first_stream ss \<noteq> [] \<longrightarrow> mp_vals p' = hd (first_stream ss))"
proof (cases ss)
  case Nil
  then show ?thesis using pull_none [of s] assms by (auto simp: replenish_def mp_ok_def)
next
  case (Cons bs rs)
  then show ?thesis using replenish_ok [OF assms(1), of bs rs] assms by simp
qed

text \<open>The next batch of a parent outside the queue comes into the queue.\<close>

lemma resume_parent:
  assumes inv: "minv o' bss rss" and i: "i < length (m_parents o')" "i \<notin> set (m_hol o')"
    and p: "mp_parent p = mp_parent (m_parents o' ! i)"
  shows "\<exists>p' o'' bss'. replenish pull p = Some (p', Inr (first_stream (rss i) \<noteq> [])) \<and>
    (if first_stream (rss i) \<noteq> [] then hol_push cmp i (upd_parent i p' o') = (o'', None) else o'' = upd_parent i p' o') \<and>
    minv o'' bss' (rss(i := tl (rss i))) \<and> length (m_parents o'') = length (m_parents o') \<and> set (m_hol o') \<subseteq> set (m_hol o'') \<and> set (m_hol o'') \<subseteq> insert i (set (m_hol o')) \<and>
    left_vals o'' bss' = mset (concat (first_stream (rss i))) + left_vals o' bss"
proof -
  have "mp_ok (m_parents o' ! i) False (bss i) (rss i)" using inv i unfolding minv_def by metis
  then obtain s where "mp_parent p = Some s" "rep s (rss i)" "\<forall>st\<in>set (rss i). good st" using p by (auto simp: mp_ok_def)
  from replenish_next [OF this] obtain p' where p': "replenish pull p = Some (p', Inr (first_stream (rss i) \<noteq> []))"
      "mp_ok p' (first_stream (rss i) \<noteq> []) (tl (first_stream (rss i))) (tl (rss i))" "first_stream (rss i) \<noteq> [] \<longrightarrow> mp_vals p' = hd (first_stream (rss i))" by blast
  show ?thesis
  proof (cases "first_stream (rss i) = []")
    case True
    have "minv (upd_parent i p' o') (bss(i := [])) (rss(i := tl (rss i)))"
      using minv_upd [OF inv i(1), of p' False "[]" "tl (rss i)" "m_hol o'"] p'(2) True inv i(2) heap_others [OF inv i(2)]
      by (simp add: upd_parent_def minv_def)
    moreover have "left_vals (upd_parent i p' o') (bss(i := [])) = left_vals o' bss"
      using left_upd [of i o' "m_hol o'" False "set (m_hol o')" p' bss "[]"] i by (simp add: upd_parent_def left_vals_def)
    ultimately show ?thesis using p'(1) True by (intro exI [of _ p'] exI [of _ "upd_parent i p' o'"] exI [of _ "bss(i := [])"]) (auto simp: upd_parent_def)
  next
    case False
    then have ok: "mp_ok p' True (tl (first_stream (rss i))) (tl (rss i))" "mset (mp_vals p' @ concat (tl (first_stream (rss i)))) = mset (concat (first_stream (rss i)))"
      using p'(2,3) by (cases "first_stream (rss i)"; simp)+
    show ?thesis using push_parent [OF inv i ok(1)] p'(1) False ok(2) by auto
  qed
qed

lemma start_loop_ok:
  "minv o' bss rss \<Longrightarrow> distinct ks \<Longrightarrow> set ks \<inter> set (m_hol o') = {} \<Longrightarrow> set ks \<subseteq> {..<length (m_parents o')} \<Longrightarrow>
   \<exists>o'' bss'. start_loop cmp pull ks o' = Some (o'', None) \<and> minv o'' bss' (\<lambda>i. if i \<in> set ks then tl (rss i) else rss i) \<and>
     length (m_parents o'') = length (m_parents o') \<and> left_vals o'' bss' = (\<Sum>i\<in>set ks. mset (concat (first_stream (rss i)))) + left_vals o' bss"
proof (induction ks arbitrary: o' bss rss)
  case Nil
  let ?hol = "heap_Init (less (m_parents o')) (m_hol o')"
  have A: "set (m_hol o') \<subseteq> {j. hd (mp_vals (m_parents o' ! j)) \<in> A}" using in_hol(4) [OF Nil(1)] by blast
  note H = heap_Init_ok [OF swo_hol A]
  have "set ?hol = set (m_hol o')" "distinct ?hol" using H(2) Nil(1) by (metis mset_eq_setD, metis mset_eq_imp_distinct_iff minv_def)
  then have "minv (o'\<lparr>m_hol := ?hol\<rparr>) bss rss" "left_vals (o'\<lparr>m_hol := ?hol\<rparr>) bss = left_vals o' bss"
    using Nil(1) H(1) by (simp_all add: minv_def left_vals_def pend_def)
  then show ?case by auto
next
  case (Cons i ks)
  have i: "i < length (m_parents o')" "i \<notin> set (m_hol o')" "i \<notin> set ks" using Cons.prems by auto
  obtain p' o1 bss1 where r: "replenish pull ((m_parents o' ! i)\<lparr>mp_blocked := False\<rparr>) = Some (p', Inr (first_stream (rss i) \<noteq> []))"
    "if first_stream (rss i) \<noteq> [] then hol_push cmp i (upd_parent i p' o') = (o1, None :: 'e pfail option) else o1 = upd_parent i p' o'"
    "minv o1 bss1 (rss(i := tl (rss i)))" "length (m_parents o1) = length (m_parents o')" "set (m_hol o1) \<subseteq> insert i (set (m_hol o'))"
    "left_vals o1 bss1 = mset (concat (first_stream (rss i))) + left_vals o' bss"
    using resume_parent [OF Cons.prems(1) i(1,2), of "(m_parents o' ! i)\<lparr>mp_blocked := False\<rparr>"] by auto
  have "set ks \<inter> set (m_hol o1) = {}" "set ks \<subseteq> {..<length (m_parents o1)}" using r(4,5) i(3) Cons.prems(3,4) by auto
  from Cons.IH [OF r(3) _ this] obtain o2 bss2 where s: "start_loop cmp pull ks o1 = Some (o2, None)"
    "minv o2 bss2 (\<lambda>j. if j \<in> set ks then tl ((rss(i := tl (rss i))) j) else (rss(i := tl (rss i))) j)" "length (m_parents o2) = length (m_parents o1)"
    "left_vals o2 bss2 = (\<Sum>j\<in>set ks. mset (concat (first_stream ((rss(i := tl (rss i))) j)))) + left_vals o1 bss1" using Cons.prems(2) by auto
  have "(\<lambda>j. if j \<in> set ks then tl ((rss(i := tl (rss i))) j) else (rss(i := tl (rss i))) j) = (\<lambda>j. if j \<in> set (i # ks) then tl (rss j) else rss j)"
    using i(3) by (auto simp: fun_eq_iff)
  moreover have "(\<Sum>j\<in>set ks. mset (concat (first_stream ((rss(i := tl (rss i))) j)))) = (\<Sum>j\<in>set ks. mset (concat (first_stream (rss j))))"
    by (rule sum.cong) (use i(3) in auto)
  moreover have "start_loop cmp pull (i # ks) o' = Some (o2, None)" using r(1,2) s(1) by (simp split: if_splits)
  ultimately show ?case using s r(4,6) i(3) by (intro exI [of _ o2] exI [of _ bss2]) (simp add: add.assoc)
qed

text \<open>A whole batch, when its last value comes before all that is left in the queue.\<close>

lemma batch_ok:
  assumes inv: "minv o' bss rss" and pop: "heap_Pop (less (m_parents o')) (m_hol o') = Some (i, hol')"
    and inv1: "minv (o'\<lparr>m_hol := hol'\<rparr>) bss (rss(i := bss i # rss i))" and i: "i \<notin> set hol'" "set (m_hol o') = insert i (set hol')" "i < length (m_parents o')"
    and before: "hol' = [] \<or> cmp (last (mp_vals (m_parents o' ! i))) (hd (mp_vals (m_parents o' ! (hol' ! 0)))) \<le> 0"
  shows "\<exists>o'' bss'. merge_batch cmp pull i (o'\<lparr>m_hol := hol'\<rparr>) = Some (o'', Inr (Some (mp_vals (m_parents o' ! i)))) \<and> minv o'' bss' rss \<and>
    length (m_parents o'') = length (m_parents o') \<and> outputs (mp_vals (m_parents o' ! i)) (left_vals o' bss) (left_vals o'' bss')"
proof -
  let ?u = "m_parents o' ! i" and ?o1 = "o'\<lparr>m_hol := hol'\<rparr>"
  have ih: "i \<in> set (m_hol o')" using i(2) by simp
  obtain pre where pre: "mp_batch ?u = Some (pre @ mp_vals ?u)" using mp_hol [OF inv ih] by (auto simp: mp_ok_def)
  have batch: "(case mp_batch ?u of Some b \<Rightarrow> if length (mp_vals ?u) < length b then mp_vals ?u else b | None \<Rightarrow> mp_vals ?u) = mp_vals ?u"
    using pre by (cases pre) simp_all
  have rss: "(rss(i := bss i # rss i))(i := tl ((rss(i := bss i # rss i)) i)) = rss" "first_stream ((rss(i := bss i # rss i)) i) = bss i" by simp_all
  obtain p' o2 bss2 where r: "replenish pull ?u = Some (p', Inr (bss i \<noteq> []))"
    "if bss i \<noteq> [] then hol_push cmp i (upd_parent i p' ?o1) = (o2, None :: 'e pfail option) else o2 = upd_parent i p' ?o1"
    "minv o2 bss2 rss" "length (m_parents o2) = length (m_parents o')" "left_vals o2 bss2 = mset (concat (bss i)) + left_vals ?o1 bss"
    using resume_parent [OF inv1, of i ?u, unfolded rss] i(1,3) by auto
  have run: "merge_batch cmp pull i ?o1 = Some (o2, Inr (Some (mp_vals ?u)))" using r(1,2) batch by (auto simp: merge_batch_def Let_def)
  have l1: "left_vals ?o1 bss = (\<Sum>j\<in>set hol'. mset (pend o' bss j))" by (simp add: left_vals_def pend_def)
  have left: "left_vals o' bss = mset (mp_vals ?u) + left_vals o2 bss2"
    using left_split [OF ih, of bss] i(1,2) r(5) l1 by (simp add: pend_def)
  have srt: "sorted_wrt (\<lambda>a b. cmp a b \<le> 0) (mp_vals ?u @ concat (bss i))" "set (mp_vals ?u @ concat (bss i)) \<subseteq> A" "mp_vals ?u \<noteq> []"
    using in_hol(3) [OF inv ih] in_hol(2) [OF inv ih] by (simp_all add: good_stream_def)
  have "cmp x y \<le> 0" if x: "x \<in> set (mp_vals ?u)" and y: "y \<in># left_vals o2 bss2" for x y
  proof (cases "y \<in> set (concat (bss i))")
    case True
    then show ?thesis using srt(1) x unfolding sorted_wrt_append by blast
  next
    case False
    then have "y \<in># left_vals ?o1 bss" using y r(5) by simp
    then obtain j where j: "j \<in> set hol'" "y \<in> set (pend o' bss j)" unfolding in_left by (auto simp: pend_def)
    have ne: "hol' \<noteq> []" using j(1) by auto
    have f: "hol' ! 0 \<in> set hol'" using ne by simp
    have "\<not> less (m_parents ?o1) j (hol' ! 0)" using root_least [OF inv1, of j] j(1) ne by simp
    then have b: "cmp (hd (mp_vals (m_parents o' ! (hol' ! 0)))) y \<le> 0"
      using first_below [OF inv _ _ _ j(2), of "hol' ! 0"] i(2) j(1) f by auto
    have a: "cmp x (last (mp_vals ?u)) \<le> 0" using le_last [of "mp_vals ?u" x] srt x by (simp add: sorted_wrt_append)
    have A: "x \<in> A" "last (mp_vals ?u) \<in> A" "hd (mp_vals (m_parents o' ! (hol' ! 0))) \<in> A" "y \<in> A"
      using x srt(2) last_in_set [OF srt(3)] in_hol(4) [OF inv, of "hol' ! 0"] in_hol(6) [OF inv, of j] i(2) j f by auto
    show ?thesis using cmp_trans [OF A(1,2,3) a] before ne cmp_trans [OF A(1,3,4) _ b] by blast
  qed
  then have "outputs (mp_vals ?u) (left_vals o' bss) (left_vals o2 bss2)" using left srt(1) by (auto simp: outputs_def sorted_wrt_append)
  then show ?thesis using run r(3,4) by blast
qed

lemma next_ok:
  assumes inv: "minv o' bss rss" and hol: "m_hol o' \<noteq> []"
  shows "\<exists>b o'' bss'. merge_next maxv cmp pull o' = Some (o'', Inr (Some b)) \<and> minv o'' bss' rss \<and> length (m_parents o'') = length (m_parents o') \<and>
    outputs b (left_vals o' bss) (left_vals o'' bss') \<and> b \<noteq> []"
proof -
  obtain i hol' where p: "heap_Pop (less (m_parents o')) (m_hol o') = Some (i, hol')" "minv (o'\<lparr>m_hol := hol'\<rparr>) bss (rss(i := bss i # rss i))"
    "i \<notin> set hol'" "set (m_hol o') = insert i (set hol')" "i < length (m_parents o')" using pop_parent [OF inv hol] .
  let ?u = "m_parents o' ! i" and ?o1 = "o'\<lparr>m_hol := hol'\<rparr>"
  have ih: "i \<in> set (m_hol o')" using p(4) by simp
  show ?thesis
  proof (cases "hol' = [] \<or> cmp (last (mp_vals ?u)) (hd (mp_vals (m_parents o' ! (hol' ! 0)))) \<le> 0")
    case True
    then show ?thesis using batch_ok [OF inv p True] in_hol(2) [OF inv ih] p(1) by (auto simp: merge_next_def Let_def)
  next
    case False
    have upd: "upd_parent i ?u ?o1 = ?o1" by (simp add: upd_parent_def)
    obtain o2 where q: "hol_push cmp i ?o1 = (o2, None :: 'e pfail option)" "minv o2 bss rss" "length (m_parents o2) = length (m_parents o')" "m_hol o2 \<noteq> []"
      "left_vals o2 bss = mset (mp_vals ?u @ concat (bss i)) + left_vals ?o1 bss"
      using push_parent [OF p(2), of i ?u "bss i" "rss i"] p(3,5) mp_hol [OF inv ih] unfolding upd by auto
    have "left_vals ?o1 bss = (\<Sum>j\<in>set hol'. mset (pend o' bss j))" by (simp add: left_vals_def pend_def)
    then have left: "left_vals o2 bss = left_vals o' bss" using left_split [OF ih, of bss] p(3,4) q(5) by (simp add: pend_def)
    from merge_fill_ok [OF q(2), of maxv newPullerBatch] obtain out o3 bss3 where f:
      "merge_fill maxv cmp pull o2 newPullerBatch = Some (o3, Inr (if pb_vals newPullerBatch @ out = [] then None else Some (pb_vals newPullerBatch @ out)))"
      "minv o3 bss3 rss" "length (m_parents o3) = length (m_parents o2)" "outputs out (left_vals o2 bss) (left_vals o3 bss3)" "out \<noteq> []" using q(4) by blast
    then show ?thesis using p(1) False q(1,3) left
      by (intro exI [of _ out] exI [of _ o3] exI [of _ bss3]) (simp add: merge_next_def Let_def newPullerBatch_def)
  qed
qed

text \<open>A restart takes in the beginning of the next stream of every parent.\<close>

lemma start_ok:
  assumes inv: "minv o' bss rss" and hol: "m_hol o' = []"
  shows "\<exists>o'' bss'. merge_start cmp pull o' = Some (o'', None) \<and> minv o'' bss' (\<lambda>i. if i < length (m_parents o') then tl (rss i) else rss i) \<and>
    length (m_parents o'') = length (m_parents o') \<and> left_vals o'' bss' = (\<Sum>i<length (m_parents o'). mset (concat (first_stream (rss i))))"
proof -
  have e: "o'\<lparr>m_hol := []\<rparr> = o'" using hol by simp
  have "left_vals o' bss = {#}" using hol by (simp add: left_vals_def)
  then show ?thesis using start_loop_ok [OF inv, of "[0..<length (m_parents o')]"] hol
    unfolding merge_start_def e by (simp add: atLeast0LessThan)
qed

subsection \<open>Streams\<close>

text \<open>An operator in the middle of a stream: \<open>l\<close> is left of it, and \<open>sts\<close> are the streams of the parents after it.\<close>

definition mleft :: "nat \<Rightarrow> bval multiset \<Rightarrow> (nat \<Rightarrow> bval list list list) \<Rightarrow> 's mergeop \<Rightarrow> bool" where
  "mleft n l sts o' \<longleftrightarrow> length (m_parents o') = n \<and> (\<exists>bss rss. minv o' bss rss \<and> left_vals o' bss = l \<and> (\<forall>i<n. rss i = sts i))"

definition mstream :: "nat \<Rightarrow> (nat \<Rightarrow> bval list list list) \<Rightarrow> bval multiset" where
  "mstream n sts = (\<Sum>i<n. mset (concat (first_stream (sts i))))"

lemma mleft_once: "mleft n l sts o' \<Longrightarrow> m_once o'"
  by (auto simp: mleft_def minv_def)

lemma pull_eos:
  assumes "mleft n l sts o'" and hol: "m_hol o' = []"
  shows "l = {#} \<and> (\<exists>o''. merge_Pull maxv cmp pull False o' = Some (o'', Inr None) \<and> mleft n (mstream n sts) (\<lambda>i. tl (sts i)) o'')"
proof -
  obtain bss rss where m: "length (m_parents o') = n" "minv o' bss rss" "left_vals o' bss = l" "\<forall>i<n. rss i = sts i" using assms(1) by (auto simp: mleft_def)
  obtain o'' bss' where s: "merge_start cmp pull o' = Some (o'', None)" "minv o'' bss' (\<lambda>i. if i < n then tl (rss i) else rss i)"
    "length (m_parents o'') = n" "left_vals o'' bss' = (\<Sum>i<n. mset (concat (first_stream (rss i))))" using start_ok [OF m(2) hol] m(1) by auto
  have "left_vals o'' bss' = mstream n sts" unfolding s(4) mstream_def using m(4) by (intro sum.cong) simp_all
  then have "mleft n (mstream n sts) (\<lambda>i. tl (sts i)) o''" unfolding mleft_def using s(2,3) m(4) by (intro conjI exI) auto
  moreover have "merge_Pull maxv cmp pull False o' = Some (o'', Inr None)"
    using s(1) hol mleft_once [OF assms(1)] by (simp add: merge_Pull_def merge_next_def heap_Pop_def eos_after_def)
  moreover have "l = {#}" using m(3) hol by (simp add: left_vals_def)
  ultimately show ?thesis by blast
qed

lemma pull_values:
  assumes "mleft n l sts o'" and hol: "m_hol o' \<noteq> []"
  shows "\<exists>b o'' l'. merge_Pull maxv cmp pull False o' = Some (o'', Inr (Some b)) \<and> mleft n l' sts o'' \<and> outputs b l l' \<and> b \<noteq> []"
proof -
  obtain bss rss where m: "length (m_parents o') = n" "minv o' bss rss" "left_vals o' bss = l" "\<forall>i<n. rss i = sts i" using assms(1) by (auto simp: mleft_def)
  obtain b o'' bss' where "merge_next maxv cmp pull o' = Some (o'', Inr (Some b))" "minv o'' bss' rss" "length (m_parents o'') = n"
    "outputs b l (left_vals o'' bss')" "b \<noteq> []" using next_ok [OF m(2) hol] m(1,3) by blast
  then show ?thesis using mleft_once [OF assms(1)] m(4)
    by (intro exI [of _ b] exI [of _ o''] exI [of _ "left_vals o'' bss'"]) (auto simp: merge_Pull_def mleft_def)
qed

lemma copy_merge:
  "mleft n l sts o' \<Longrightarrow> \<exists>out o''. CopyPuller Array_Write w (merge_Pull maxv cmp pull) o' = Some ((w @ out, o''), None) \<and>
    mset out = l \<and> sorted_wrt (\<lambda>a b. cmp a b \<le> 0) out \<and> mleft n (mstream n sts) (\<lambda>i. tl (sts i)) o''"
proof (induction "size l" arbitrary: l o' w rule: less_induct)
  case less
  show ?case
  proof (cases "m_hol o' = []")
    case True
    then show ?thesis using pull_eos [OF less.prems True, of maxv]
      by (auto simp: CopyPuller.simps [of Array_Write w "merge_Pull maxv cmp pull" o'] intro!: exI [of _ "[]"])
  next
    case False
    then obtain b o1 l1 where p: "merge_Pull maxv cmp pull False o' = Some (o1, Inr (Some b))" "mleft n l1 sts o1" "outputs b l l1" "b \<noteq> []"
      using pull_values [OF less.prems] by blast
    have "size l1 < size l" using p(3,4) by (auto simp: outputs_def)
    from less.hyps [OF this p(2), of "w @ b"] obtain out o2 where c: "CopyPuller Array_Write (w @ b) (merge_Pull maxv cmp pull) o1 = Some (((w @ b) @ out, o2), None)"
      "mset out = l1" "sorted_wrt (\<lambda>a b. cmp a b \<le> 0) out" "mleft n (mstream n sts) (\<lambda>i. tl (sts i)) o2" by blast
    have "sorted_wrt (\<lambda>a b. cmp a b \<le> 0) (b @ out)" "mset (b @ out) = l"
      using p(3) c(2,3) by (auto simp: outputs_def sorted_wrt_append)
    then show ?thesis using p(1) c(1,4)
      by (intro exI [of _ "b @ out"] exI [of _ o2]) (simp add: CopyPuller.simps [of Array_Write w "merge_Pull maxv cmp pull" o'])
  qed
qed

text \<open>A new operator over parents with the streams \<open>sts\<close>.\<close>

lemma merge_streams:
  assumes "\<forall>i<length ss. rep (ss ! i) (sts i) \<and> (\<forall>st\<in>set (sts i). good st)"
  shows "\<exists>out o'. CopyPuller Array_Write w (merge_Pull maxv cmp pull) (merge_New ss) = Some ((w @ out, o'), None) \<and>
    mset out = mstream (length ss) sts \<and> sorted_wrt (\<lambda>a b. cmp a b \<le> 0) out \<and>
    mleft (length ss) (mstream (length ss) (\<lambda>i. tl (sts i))) (\<lambda>i. tl (tl (sts i))) o'"
proof -
  let ?n = "length ss" and ?o = "(merge_New ss)\<lparr>m_once := True\<rparr>"
  have "minv ?o (\<lambda>_. []) sts" using assms by (auto simp: minv_def merge_New_def mp_ok_def newMPuller_def heap_from_def)
  from start_ok [OF this] obtain o1 bss where s: "merge_start cmp pull ?o = Some (o1, None)" "minv o1 bss (\<lambda>i. if i < ?n then tl (sts i) else sts i)"
    "length (m_parents o1) = ?n" "left_vals o1 bss = mstream ?n sts" by (auto simp: merge_New_def mstream_def)
  have l: "mleft ?n (mstream ?n sts) (\<lambda>i. tl (sts i)) o1" unfolding mleft_def using s(2-4) by (intro conjI exI) auto
  have "merge_Pull maxv cmp pull False (merge_New ss) = merge_Pull maxv cmp pull False o1"
    using s(1) mleft_once [OF l] by (simp add: merge_Pull_def) (simp add: merge_New_def)
  then have "CopyPuller Array_Write w (merge_Pull maxv cmp pull) (merge_New ss) = CopyPuller Array_Write w (merge_Pull maxv cmp pull) o1"
    by (simp add: CopyPuller.simps [of Array_Write w "merge_Pull maxv cmp pull"])
  then show ?thesis using copy_merge [OF l, of w maxv] by simp
qed

subsection \<open>Done\<close>

text \<open>
  A pull with done drops what every parent in the queue has pulled ahead and pulls it with done. Where the thing pulled
  ahead is the end of the stream, that done goes to the next stream, which is lost.
\<close>

definition after_done :: "nat set \<Rightarrow> (nat \<Rightarrow> bval list list) \<Rightarrow> (nat \<Rightarrow> bval list list list) \<Rightarrow> nat \<Rightarrow> bval list list list" where
  "after_done H bss rss i = (if i \<in> H \<and> bss i = [] then tl (rss i) else rss i)"

lemma send_done_ok:
  assumes "mp_ok p True bs rs"
  shows "\<exists>p'. send_done pull p = Some (p', None) \<and> mp_ok p' False [] (if bs = [] then tl rs else rs)"
proof -
  obtain s where s: "mp_parent p = Some s" "rep s (bs # rs)" "\<forall>st\<in>set rs. good st" using assms by (auto simp: mp_ok_def)
  obtain s1 where s1: "pull False s = Some (s1, Inr (next_batch (bs # rs)))" "rep s1 (advance (bs # rs))" using pull_next [OF s(2)] by blast
  obtain s2 where "pull True s1 = Some (s2, Inr None)" "rep s2 (tl (advance (bs # rs)))" using pull_done [OF s1(2)] by blast
  moreover have "tl (advance (bs # rs)) = (if bs = [] then tl rs else rs)" by (cases bs) simp_all
  ultimately show ?thesis using s s1 by (cases rs) (auto simp: send_done_def mp_ok_def)
qed

lemma is_heap_butlast: "is_heap lt (xs @ [x]) \<Longrightarrow> is_heap lt xs"
proof -
  assume h: "is_heap lt (xs @ [x])"
  have "\<not> lt (xs ! k) (xs ! up_index k)" if "0 < k" "k < length xs" for k
  proof -
    have "up_index k < length xs" using that by (auto simp: up_index_def)
    moreover have "\<not> lt ((xs @ [x]) ! k) ((xs @ [x]) ! up_index k)" using h that unfolding heap_from_def by auto
    ultimately show ?thesis using that by (simp add: nth_append)
  qed
  then show ?thesis unfolding heap_from_def by auto
qed

lemma done_loop_ok:
  "minv o' bss rss \<Longrightarrow> m_hol o' = rev ks \<Longrightarrow> \<exists>o'' bss'. done_loop pull ks o' = Some (o'', None) \<and>
    minv o'' bss' (after_done (set ks) bss rss) \<and> m_hol o'' = [] \<and> length (m_parents o'') = length (m_parents o')"
proof (induction ks arbitrary: o' bss rss)
  case Nil
  then show ?case by (auto simp: after_done_def)
next
  case (Cons i ks)
  have i: "i \<in> set (m_hol o')" "i < length (m_parents o')" "i \<notin> set ks" "distinct (rev ks)" using Cons.prems by (auto simp: minv_def)
  obtain p' where p': "send_done pull (m_parents o' ! i) = Some (p', None)" "mp_ok p' False [] (if bss i = [] then tl (rss i) else rss i)"
    using send_done_ok [OF mp_hol [OF Cons.prems(1) i(1)]] by blast
  let ?rs = "if bss i = [] then tl (rss i) else rss i" and ?o = "o'\<lparr>m_parents := (m_parents o')[i := p'], m_hol := rev ks\<rparr>"
  have "is_heap (less (m_parents o')) (rev ks)" using Cons.prems is_heap_butlast [of _ "rev ks" i] by (auto simp: minv_def)
  then have "is_heap (less ((m_parents o')[i := p'])) (rev ks)"
  proof -
    have "less ((m_parents o')[i := p']) (rev ks ! k) (rev ks ! up_index k) = less (m_parents o') (rev ks ! k) (rev ks ! up_index k)" if "k < length (rev ks)" for k
    proof (rule less_upd)
      have "up_index k < length (rev ks)" using that by (auto simp: up_index_def)
      then show "i \<noteq> rev ks ! k" "i \<noteq> rev ks ! up_index k" using that i(3) nth_mem [of k "rev ks"] nth_mem [of "up_index k" "rev ks"] by auto
    qed
    then show ?thesis using \<open>is_heap (less (m_parents o')) (rev ks)\<close> by (auto simp: heap_from_def)
  qed
  then have inv: "minv ?o (bss(i := [])) (rss(i := ?rs))"
    using Cons.prems(2) i(3,4) by (intro minv_upd [OF Cons.prems(1) i(2) p'(2)]) auto
  from Cons.IH [OF this] obtain o2 bss2 where d: "done_loop pull ks ?o = Some (o2, None)"
    "minv o2 bss2 (after_done (set ks) (bss(i := [])) (rss(i := ?rs)))" "m_hol o2 = []" "length (m_parents o2) = length (m_parents ?o)" by fastforce
  have "after_done (set ks) (bss(i := [])) (rss(i := ?rs)) = after_done (set (i # ks)) bss rss"
    using i(3) by (auto simp: after_done_def fun_eq_iff)
  moreover have "upd_parent i p' (o'\<lparr>m_hol := rev ks\<rparr>) = ?o" by (simp add: upd_parent_def)
  ultimately show ?case using d p'(1) by auto
qed

lemma done_ok:
  assumes inv: "minv o' bss rss" and n: "length (m_parents o') = n"
  shows "\<exists>o''. merge_Pull maxv cmp pull True o' = Some (o'', Inr None) \<and>
    mleft n (mstream n (after_done (set (m_hol o')) bss rss)) (\<lambda>i. tl (after_done (set (m_hol o')) bss rss i)) o''"
proof -
  let ?r = "after_done (set (m_hol o')) bss rss"
  obtain o1 bss1 where d: "done_loop pull (rev (m_hol o')) o' = Some (o1, None)" "minv o1 bss1 ?r" "m_hol o1 = []" "length (m_parents o1) = n"
    using done_loop_ok [OF inv, of "rev (m_hol o')"] n by auto
  obtain o2 bss2 where s: "merge_start cmp pull o1 = Some (o2, None)" "minv o2 bss2 (\<lambda>i. if i < n then tl (?r i) else ?r i)" "length (m_parents o2) = n"
    "left_vals o2 bss2 = mstream n ?r" using start_ok [OF d(2,3)] d(4) by (auto simp: mstream_def)
  have "mleft n (mstream n ?r) (\<lambda>i. tl (?r i)) o2" unfolding mleft_def using s(2-4) by (intro conjI exI) auto
  moreover have "m_once o'" using inv by (simp add: minv_def)
  ultimately show ?thesis using d(1) s(1) by (auto simp: merge_Pull_def merge_propagateDone_def eos_after_def)
qed

end

subsection \<open>Instances\<close>

interpretation imerge: merge_parents "catcher_Pull pe (puller_Pull maxv Array_Read)" "puller_rep maxv (=)" "c_Compare (Comparator_of no [demo_key])" int_values
    for pe maxv no
  using catcher_contract [OF arrp.puller_contract_axioms] isort.comparison_axioms by (rule merge_parents.intro)

text \<open>
  Merging arrays: what comes out is in order and has the values of all arrays, for arrays in order by the
  comparator, whatever the sizes of batches.
\<close>

theorem merge_arrays:
  assumes "ctx_inv cx" "unambiguous cx" "comparable cx no ks (set (concat vss))" "0 < maxp"
    and srt: "\<forall>vs\<in>set vss. sorted_wrt (\<lambda>a b. c_Compare (Comparator_of no ks) a b \<le> 0) vs"
  shows "\<exists>out o'. CopyPuller Array_Write [] (merge_Pull maxv (c_Compare (Comparator_of no ks)) (catcher_Pull pe (puller_Pull maxp Array_Read))) (merge_New (map Some vss)) =
      Some ((out, o'), None) \<and> mset out = mset (concat vss) \<and> sorted_wrt (\<lambda>a b. c_Compare (Comparator_of no ks) a b \<le> 0) out"
proof -
  let ?c = "c_Compare (Comparator_of no ks)" and ?A = "set (concat vss)" and ?n = "length (map Some vss)"
  have mp: "merge_parents (catcher_Pull pe (puller_Pull maxp Array_Read)) (puller_rep maxp (=)) ?c ?A"
    using catcher_contract [OF arrp.puller_contract_axioms] comparison_Comparator [OF assms(1-3)] by (rule merge_parents.intro)
  define sts where "sts i = [split_values maxp (vss ! i)]" for i
  have b: "concat (split_values maxp vs) = vs" "[] \<notin> set (split_values maxp vs)" for vs using split_values_batches [OF assms(4), of vs] by (auto simp: list_all_iff)
  have "good_stream ?c ?A (split_values maxp (vss ! i))" if "i < length vss" for i
    using b [of "vss ! i"] srt that by (auto simp: good_stream_def simp del: set_concat) auto
  then have "\<forall>i<?n. puller_rep maxp (=) (map Some vss ! i) (sts i) \<and> (\<forall>st\<in>set (sts i). good_stream ?c ?A st)"
    by (simp add: sts_def puller_rep_def)
  from merge_parents.merge_streams [OF mp this, of "[]" maxv] obtain out o' where o: "CopyPuller Array_Write [] (merge_Pull maxv ?c (catcher_Pull pe (puller_Pull maxp Array_Read))) (merge_New (map Some vss)) =
      Some (([] @ out, o'), None)" "mset out = merge_parents.mstream ?n sts" "sorted_wrt (\<lambda>a b. ?c a b \<le> 0) out" by blast
  have "merge_parents.mstream ?n sts = (\<Sum>i<length vss. mset (vss ! i))"
    using b(1) by (simp add: merge_parents.mstream_def [OF mp] sts_def)
  also have "\<dots> = mset (concat vss)"
    by (induction vss rule: rev_induct) (simp_all add: nth_append)
  finally show ?thesis using o by auto
qed

text \<open>Parents with several streams, given as lists.\<close>

definition streams_Pull :: "(bval list list list, 'e, bval) puller" where
  "streams_Pull done ss = Some (if done then tl ss else advance ss, Inr (if done then None else next_batch ss))"

interpretation smerge: merge_parents streams_Pull "(=)" "c_Compare (Comparator_of no [demo_key])" int_values for no
proof -
  have "puller_contract streams_Pull (=)" by unfold_locales (auto simp: streams_Pull_def)
  then show "merge_parents streams_Pull (=) (c_Compare (Comparator_of no [demo_key])) int_values"
    using isort.comparison_axioms by (rule merge_parents.intro)
qed

text \<open>
  A done loses streams. Two parents have two streams of one batch each. The first pull is with done: it ends the
  first streams, and the goroutines, which have pulled the ends of these streams ahead, pull with done once more. The
  second streams should come next, and the operator gives an end of stream at once.
\<close>

definition two_streams :: "u8 \<Rightarrow> u8 \<Rightarrow> bval list list list" where
  "two_streams a b = [[[(TypePrim TypeUint8, Some [a])]], [[(TypePrim TypeUint8, Some [b])]]]"

theorem merge_done_skips_stream:
  "\<exists>o1 o2. merge_Pull maxv cmp streams_Pull True (merge_New [two_streams 1 10, two_streams 2 20]) = Some (o1, Inr None) \<and>
    merge_Pull maxv cmp streams_Pull False o1 = Some (o2, Inr None)"
  by (simp add: merge_Pull_def merge_New_def two_streams_def merge_start_def upt_rec replenish_def newMPuller_def streams_Pull_def
      upd_parent_def hol_push_def set_hol_def hol_panics_def hol_less_def heap_Push_def heap_Init_def heap_up.simps heap_down.simps
      least_child_def swap_at_def up_index_def Let_def send_done_def merge_propagateDone_def eos_after_def merge_next_def heap_Pop_def)

end
