(* ===== verification/Spec2Isabelle.thy ===== *)
theory Spec2Isabelle
  imports Type_Value_Ctx Values_Inv Record_Builder Lake_Branch_Inv Lake_Vacuum Zbuf_Uniq Bsup_Stream Bsup_Safety Bsup_Threads_Inv
    Dot_Expr Top_Sort Merge_Op_Inv
begin

text \<open>
  Verification of the core of SuperDB: the data model (package \<open>super\<close> and \<open>zcode\<close>), the
  versioned storage of a data lake (packages under \<open>lake\<close>), the binary format BSUP (\<open>zio/bsupio\<close>) and
  the pull interface with its first operators and the sorting of values (\<open>zbuf\<close>, \<open>runtime/sam\<close>). Paths are relative to the source tree.

  \<^bold>\<open>The program.\<close> A value is a type and a sequence of bytes. Types live in a type context, which gives
  each type one representation and a number; they have a total order, and a byte form (a type value) in which
  they travel between contexts. Values nest by tagged byte strings, built by \<open>zcode.Builder\<close> and read by
  \<open>zcode.Iter\<close>. A lake keeps pools of data objects. Pool and branch configurations are entries of a
  key-value store over a journal: a sequence of numbered files with a HEAD and a TAIL file, changed
  optimistically by many writers at once. The content of a branch is a chain of commit objects, each a list of
  actions on data objects and vectors; the state at a commit is the replay of its chain, cached in memory and
  in snapshot files. Patches collect actions on top of a state, to compute reverts and merges.
  Operations on a branch build a commit on the tip and move the branch pointer by a conditional update of the
  journal. Values travel in batches: operators pull batches from their parents, and readers and writers turn
  batches into byte streams and back. The format BSUP writes frames of type definitions, of values that refer
  to the types by local identifiers, and of control messages, each frame possibly compressed; the end of a
  stream resets the identifiers. The sort operator orders values by expressions on them: it keeps values up to a
  limit in memory, sorts what exceeds it into runs in BSUP files, and merges the runs with a heap. The operator
  top keeps the first values of that order; the optimizer puts it in the place of a sort followed by head or tail.

  \<^bold>\<open>The theories.\<close>

  \<^descr> \<open>Go_Prelude\<close>, \<open>Go_Codec\<close>: what Go's library provides: results as sums, comparison of bytes,
  stable sorting, splitting of strings, varints; the locales \<open>codec\<close> and \<open>codec_nonempty\<close> for byte formats
  that decode what they encode, interpreted on varints, 32-bit words and tagged values.
  \<^descr> \<open>Zcode\<close>, \<open>Builder\<close> (\<open>zcode/bytes.go\<close>, \<open>iter.go\<close>, \<open>counted.go\<close>, \<open>builder.go\<close>): tags,
  iteration, counted integers, and the builder against a specification with one buffer per open container.
  \<^descr> \<open>Primitive\<close> (\<open>primitive.go\<close>): encodings of primitive values; floats are bit patterns.
  \<^descr> \<open>Types\<close>, \<open>Type_Order\<close> (\<open>type.go\<close>, \<open>complex.go\<close>): types, kinds and lookup tables;
  \<open>CompareTypes\<close> is a total order on the types of a context without ambiguous names.
  \<^descr> \<open>Context\<close>, \<open>Context_Inv\<close> (\<open>context.go\<close>): the tables of a context and its operations; in every
  reachable context types that mean the same are the same.
  \<^descr> \<open>Type_Value\<close>, \<open>Type_Value_Codec\<close>, \<open>Type_Value_Ctx\<close> (\<open>type.go\<close>, \<open>context.go\<close>): encoding and
  decoding of type values, translation of types between contexts, and what the decoder does on any bytes.
  \<^descr> \<open>Values\<close>, \<open>Values_Inv\<close> (\<open>value.go\<close>, \<open>walk.go\<close>, \<open>complex.go\<close>): values with a native or an
  encoded representation, the walk along a type, validation, access to fields, normal forms of sets and maps.
  \<open>has_type\<close> says which nested values have a type; they resolve and are found by path. \<open>accepts\<close> says exactly
  which nested values \<open>Validate\<close> lets pass, the values of the type among them.
  \<^descr> \<open>Record_Builder\<close> (\<open>recordbuilder.go\<close>, \<open>typevectortable.go\<close>): the plan a record builder makes of its paths
  as instructions of a machine that builds a tree of names; the bytes and the type it gives follow the
  same instructions, so every path leads to its value. Tables of type vectors.
  \<^descr> \<open>Journal\<close>, \<open>Journal_Inv\<close>, \<open>Journal_Race\<close>, \<open>Journal_Store\<close> (\<open>lake/journal\<close>): the files of a journal and
  the store over it. Other writers are arguments: functions that act on the files before every access an
  operation makes to them, inside \<open>load\<close> and between the two writes of a commit too. \<open>Journal_Inv\<close> has the
  invariant that holds without interference, \<open>Journal_Race\<close> the weaker one that is left with it, the conditions on the
  others, and the proof that the operations of the store meet these conditions themselves. All of it is for
  storage engines that create files exclusively, and for HEAD and snapshot files read and written as a
  whole. The locale \<open>kv_store\<close> states the store as a map; the model of the code is an interpretation.
  \<^descr> \<open>Commits\<close>, \<open>Commits_Inv\<close>, \<open>Commits_Patch\<close> (\<open>lake/commits/actions.go\<close>, \<open>object.go\<close>,
  \<open>snapshot.go\<close>, \<open>patch.go\<close>): actions, commit objects, snapshots and patches. The locales \<open>writeable\<close>
  and \<open>exact_view\<close> state what an action does to the set of objects and vectors, interpreted on both.
  \<^descr> \<open>Commits_Store\<close>, \<open>Commits_History\<close> (\<open>lake/commits/store.go\<close>, \<open>reader.go\<close>): commit and snapshot
  files, the caches with an arbitrary replacement policy, and the history of a commit.
  \<^descr> \<open>Field_Order\<close> (\<open>pkg/field\<close>, \<open>order\<close>): paths, projections, sort orders and sort keys.
  \<^descr> \<open>Lake_Config\<close> (\<open>lake/branches\<close>, \<open>lake/pools\<close>): the configuration stores.
  \<^descr> \<open>Lake_Branch\<close>, \<open>Lake_Branch_Inv\<close> (\<open>lake/branch.go\<close>, \<open>lake/pool.go\<close>): the operations on
  branches as commits with retries under interference, and what they do without it.
  \<^descr> \<open>Lake_Vacuum\<close> (\<open>Vacuum\<close> in \<open>lake/pool.go\<close>): its goroutines as a step relation; the locale
  \<open>live_system\<close> gives the end of every run.
  \<^descr> \<open>Zbuf\<close>, \<open>Zbuf_Inv\<close>, \<open>Zbuf_Uniq\<close> (\<open>zbuf/batch.go\<close>, \<open>zbuf/array.go\<close>,
  \<open>runtime/sam/op/head\<close>, \<open>skip\<close>, \<open>tail\<close>, \<open>uniq\<close>): pullers over readers and readers over pullers. The locales
  \<open>puller_streams\<close> and \<open>puller_contract\<close> state the contract of a puller as a sequence of streams of batches,
  interpreted on the puller of an array; head and skip keep it, tail keeps its first half, uniq neither.
  \<^descr> \<open>Peeker\<close> (\<open>pkg/peeker/reader.go\<close>): the buffered reader gives the bytes below it in order, for any
  sequence of reads and peeks.
  \<^descr> \<open>Bsup_Types\<close>, \<open>Bsup_Types_Inv\<close> (\<open>zio/bsupio/types.go\<close>, \<open>buffer.go\<close>): the encoder and the decoder
  of type definitions; \<open>synced\<close> relates their states, and reading what encoding a type emits keeps them in step. The locale
  \<open>inner_lookup\<close> carries the proofs for arrays, sets and errors.
  \<^descr> \<open>Bsup_Writer\<close>, \<open>Bsup_Reader\<close> (\<open>writer.go\<close>; \<open>frame.go\<close>, \<open>parser.go\<close>, \<open>scanner.go\<close>, \<open>sync.go\<close>,
  \<open>reader.go\<close>, and \<open>TypeCache\<close> of \<open>context.go\<close>): frames and their headers, the worker that decodes the values
  of a frame, the scanner in one thread and the reader over it. \<open>Bsup_Inv\<close> reads back frames and values,
  \<open>Bsup_Stream\<close> relates the state of a writer after any operations to what a scanner reads, and \<open>Bsup_Safety\<close>
  has what holds on any input: reading returns, and where it panics.
  \<^descr> \<open>Bsup_Threads\<close>, \<open>Bsup_Threads_Inv\<close> (\<open>scanner.go\<close>): the scanner with several threads as a step relation over its
  goroutines and channels. On input that no decoder rejects every run left alone ends and gives what the scanner in one thread gives; with a
  cancellation from outside a \<open>Pull\<close> can hang. \<open>Live_Systems\<close> has the locale \<open>live_system\<close> of step relations whose runs all
  end, interpreted here and on the group of goroutines in \<open>Lake_Vacuum\<close>.
  \<^descr> \<open>Go_Heap\<close>, \<open>Orders\<close>: Go's \<open>container/heap\<close> on lists, and the locale \<open>comparison\<close> of comparison
  functions that order values up to ties, with what it gives for stable sorting.
  \<^descr> \<open>Compare_Values\<close>, \<open>Compare_Values_Inv\<close> (\<open>runtime/sam/expr/sort.go\<close>, with the coercion of numbers
  it calls): the comparison of values of any types, and of values by a list of sort expressions; it is a total
  preorder where the keys hold no floats and no types; with integers and floats together it is not transitive.
  \<^descr> \<open>Dot_Expr\<close> (\<open>runtime/sam/expr/dot.go\<close>): access to a field of a record with the table of field
  positions by type number, which changes no result within one type context and does across two.
  \<^descr> \<open>Spill_File\<close>, \<open>Spill_Sort\<close>, \<open>Spill_Sort_Inv\<close> (\<open>zio/zio.go\<close>, \<open>runtime/sam/op/spill\<close>,
  \<open>runtime/sam/op/sort\<close>): copying between readers and writers, files of values in BSUP, runs and their merge, the
  sort operator. The locales \<open>spill_files\<close>, \<open>spill_sort\<close> and \<open>sort_operator\<close> state what the files promise,
  what a merge gives and what the operator returns, each interpreted on the model.
  \<^descr> \<open>Top_Sort\<close> (\<open>runtime/sam/op/top\<close>, a pass of \<open>compiler/optimizer/optimizer.go\<close>): the operator
  top against the sorted input, by the locales \<open>top_comparison\<close> and \<open>top_operator\<close>, and the pass that introduces it.
  \<^descr> \<open>Merge_Op\<close>, \<open>Merge_Op_Inv\<close> (\<open>runtime/sam/op/merge\<close>, \<open>runtime/sam/op/catcher.go\<close>): the merge of parents
  whose streams are in order gives streams in order with the same values, by the locale \<open>merge_parents\<close>; a pull with done
  loses the next stream of a parent that has just ended one.

  \<^bold>\<open>Conventions.\<close> Go integers of fixed width are words, with the conversions to \<open>int\<close> written out; a
  byte slice is a list of bytes and \<open>None\<close> when nil matters. Panics and errors are values of sum types. A Go
  map is a partial function, or an association list where its order shows. What the code takes from outside
  (new IDs, the time, text forms of IDs, the result of queries, conversions of floats, LZ4, the output of a writer, the
  pieces in which input arrives, filters on values, the temporary files of the operating system) are arguments. The
  comparisons of sorting are made from evaluators of the sort expressions, also arguments of the operators.

  \<^bold>\<open>Fuel.\<close> Loops that follow the parents of commits carry fuel, and \<open>None\<close> says that it ran out. The
  theorems on histories ask for more fuel than the chain is long, which is what the loop needs; a cycle of commits has
  no chain. The commit loop of a branch and the journal's retries are bounded by the code itself. The loops of
  \<open>NormalizeSet\<close> and \<open>NormalizeMap\<close> need one step more than there are elements, and the theorem
  on them shows a body on which no fuel is enough. Loops of operators, scanners and readers are partial functions
  whose value \<open>None\<close> is that they do not return; that they return is part of the theorems. Loops to the end
  of a BSUP stream take one step more than there are payloads.

  \<^bold>\<open>Not modelled.\<close> The query compiler but for one pass of the optimizer (\<open>compiler\<close>, of which the parser is generated), the two runtimes but for
  seven operators, comparison and field access (\<open>runtime\<close>, \<open>vector\<close>, large parts generated), the text and file formats other than BSUP (\<open>sup\<close>,
  \<open>zio\<close>, \<open>csup\<close>), the service, the command line and the storage engines. Files of a lake are modelled as what they
  decode to, and failures of the storage engine only where the code reacts to them. Writing data objects
  (\<open>lake/writer.go\<close>, \<open>lake/data\<close>) is represented by its result. Locks are not modelled where an operation is
  atomic under one.
\<close>

end
